(* ===== verification/Ur_Prelude.thy ===== *)
theory Ur_Prelude
  imports Main "HOL-Library.Word"
begin

text \<open>
  Shared vocabulary of the development: machine integers, byte memories, bit lists and the
  generic lemmas about them.

  A counter or a cursor of the C code (\<open>uint64_t\<close>, \<open>uint8_t\<close>) is a \<^typ>\<open>nat\<close>, with the
  truncation written out (\<open>u8\<close>, \<open>u64\<close>) wherever the C expression can wrap; data that is
  shifted and masked is a word of its C width. A pointer into a constant buffer is an index into
  a byte memory \<open>nat \<Rightarrow> byte\<close>: the memory also has contents behind the end of the buffer, so
  that a theorem about a read holds whatever lies there.
\<close>

unbundle bit_operations_syntax

section \<open>Types and truncation\<close>

type_synonym byte = "8 word"
type_synonym u32 = "32 word"
type_synonym u64 = "64 word"
type_synonym memory = "nat \<Rightarrow> byte"

definition u8 :: "nat \<Rightarrow> nat" where
  "u8 n = n mod 2 ^ 8"

definition u64 :: "nat \<Rightarrow> nat" where
  "u64 n = n mod 2 ^ 64"

definition u32 :: "nat \<Rightarrow> nat" where
  "u32 n = n mod 2 ^ 32"

text \<open>Unsigned subtraction of 64-bit values, stored in a \<open>uint8_t\<close>.\<close>

definition sub8 :: "nat \<Rightarrow> nat \<Rightarrow> nat" where
  "sub8 a b = nat ((int a - int b) mod 2 ^ 8)"

named_theorems word_bits \<open>what each bit of a shifted, masked or gathered word is\<close>
named_theorems stream_simps \<open>how a stream position moves\<close>

lemma u8_id [simp]: "n < 256 \<Longrightarrow> u8 n = n"
  by (simp add: u8_def)

lemma u64_id: "n < 2 ^ 64 \<Longrightarrow> u64 n = n"
  by (simp add: u64_def)

lemma u64_add_left [simp]: "u64 (u64 a + b) = u64 (a + b)"
  by (simp add: u64_def mod_add_left_eq)

lemma u64_add_right [simp]: "u64 (a + u64 b) = u64 (a + b)"
  by (simp add: u64_def mod_add_right_eq)

lemma u64_split: "r \<le> n \<Longrightarrow> u64 (u64 (b + r) + n - r) = u64 (b + n)"
  using u64_add_left [of "b + r" "n - r"] by simp

lemma sub8_id: "b \<le> a \<Longrightarrow> a - b < 256 \<Longrightarrow> sub8 a b = a - b"
  by (simp add: sub8_def of_nat_diff [symmetric] del: of_nat_diff)

section \<open>Bits of a byte memory\<close>

text \<open>Bit \<open>k\<close> of a memory, least significant bit of each byte first.\<close>

definition mbit :: "memory \<Rightarrow> nat \<Rightarrow> bool" where
  "mbit mem k = bit (mem (k div 8)) (k mod 8)"

definition mbits :: "memory \<Rightarrow> nat \<Rightarrow> nat \<Rightarrow> bool list" where
  "mbits mem a n = map (\<lambda>k. mbit mem (a + k)) [0..<n]"

lemma length_mbits [simp]: "length (mbits mem a n) = n"
  by (simp add: mbits_def)

lemma nth_mbits [simp]: "k < n \<Longrightarrow> mbits mem a n ! k = mbit mem (a + k)"
  by (simp add: mbits_def)

lemma mbits_0 [simp]: "mbits mem a 0 = []"
  by (simp add: mbits_def)

lemma mbits_Suc: "mbits mem a (Suc n) = mbit mem a # mbits mem (Suc a) n"
  by (rule nth_equalityI) (auto simp: nth_Cons split: nat.splits)

lemma drop_mbits [simp]: "drop j (mbits mem a n) = mbits mem (a + j) (n - j)"
  by (rule nth_equalityI) (auto simp: ac_simps)

lemma take_mbits [simp]: "take j (mbits mem a n) = mbits mem a (min j n)"
  by (rule nth_equalityI) auto

lemma mbits_append: "mbits mem a m @ mbits mem (a + m) n = mbits mem a (m + n)"
  by (rule nth_equalityI) (auto simp: nth_append)

lemma mbit_byte: "r < 8 \<Longrightarrow> mbit mem (8 * q + r) = bit (mem q) r"
  by (simp add: mbit_def)

lemma mbit_add_8: "mbit mem (8 * q + k) = bit (mem (q + k div 8)) (k mod 8)"
  by (simp add: mbit_def)

text \<open>A byte array as a memory, null behind its end.\<close>

definition lmem :: "byte list \<Rightarrow> memory" where
  "lmem bs i = (if i < length bs then bs ! i else 0)"

lemma lmem_update: "j < length bs \<Longrightarrow> lmem (bs[j := x]) = (lmem bs)(j := x)"
  by (auto simp: lmem_def)

lemma lmem_append: "lmem (xs @ ys) i = (if i < length xs then xs ! i else lmem ys (i - length xs))"
  by (auto simp: lmem_def nth_append)

lemma lmem_drop: "lmem (drop n xs) i = lmem xs (n + i)"
  by (auto simp: lmem_def)

lemma lmem_replicate_0 [simp]: "lmem (replicate n 0) = (\<lambda>_. 0)"
  by (auto simp: lmem_def)

lemma mbit_0 [simp]: "\<not> mbit (\<lambda>_. 0) k"
  by (simp add: mbit_def)

lemma mbit_fun_upd: "mbit (mem(j := x)) k = (if k div 8 = j then bit x (k mod 8) else mbit mem k)"
  by (simp add: mbit_def)

text \<open>A bit list read as a number, least significant bit first.\<close>

abbreviation bits_val :: "bool list \<Rightarrow> 'a::comm_semiring_1" where
  "bits_val bs \<equiv> horner_sum of_bool 2 bs"

definition low_bits :: "nat \<Rightarrow> 'a::semiring_bits \<Rightarrow> bool list" where
  "low_bits len n = map (bit n) [0..<len]"

lemma length_low_bits [simp]: "length (low_bits len n) = len"
  by (simp add: low_bits_def)

lemma nth_low_bits [simp]: "k < len \<Longrightarrow> low_bits len n ! k = bit n k"
  by (simp add: low_bits_def)

lemma low_bits_0 [simp]: "low_bits 0 n = []"
  by (simp add: low_bits_def)

lemma low_bits_split:
  "low_bits m w @ low_bits n (drop_bit m (w :: 'a::semiring_bit_operations)) = low_bits (m + n) w"
  by (rule nth_equalityI) (auto simp: nth_append bit_drop_bit_eq)

lemma low_bits_of_nat: "len \<le> LENGTH('a) \<Longrightarrow> low_bits len (of_nat n :: 'a::len word) = low_bits len n"
  by (rule nth_equalityI) (auto simp: bit_of_nat_iff)

lemma bits_val_low_bits: "bits_val (low_bits len n) = take_bit len (n :: nat)"
  by (simp add: low_bits_def horner_sum_bit_eq_take_bit)

lemma bits_val_low_bits_id: "(n :: nat) < 2 ^ len \<Longrightarrow> bits_val (low_bits len n) = n"
  by (simp add: bits_val_low_bits take_bit_nat_eq_self)

lemma of_low_bits_val: "(of_nat (bits_val bs) :: 'a::len word) = bits_val bs"
  by (induction bs) auto

lemma bits_val_less: "(bits_val bs :: nat) < 2 ^ length bs"
  by (induction bs) auto

lemma ulow_bits_val: "length bs \<le> LENGTH('a) \<Longrightarrow> unat (bits_val bs :: 'a::len word) = bits_val bs"
proof -
  assume "length bs \<le> LENGTH('a)"
  then have "(2::nat) ^ length bs \<le> 2 ^ LENGTH('a)"
    by simp
  with bits_val_less [of bs] have "(bits_val bs :: nat) < 2 ^ LENGTH('a)"
    by (rule less_le_trans)
  then have "unat (of_nat (bits_val bs) :: 'a word) = bits_val bs"
    by (simp add: unat_of_nat)
  then show ?thesis
    by (simp add: of_low_bits_val)
qed

section \<open>Masked bytes and gathered words\<close>

lemma bit_word_take_bit [word_bits]:
  "bit (w AND mask n :: 'a::len word) i \<longleftrightarrow> i < n \<and> bit w i"
  by (auto simp: bit_simps dest: bit_imp_le_length)

lemma bit_ucast_byte [word_bits]:
  "bit (ucast (b :: byte) :: 'a::len word) i \<longleftrightarrow> i < LENGTH('a) \<and> bit b i"
  by (auto simp: bit_simps dest: bit_imp_le_length)

lemma bit_push_word [word_bits]:
  "bit (push_bit n (w :: 'a::len word)) i \<longleftrightarrow> n \<le> i \<and> i < LENGTH('a) \<and> bit w (i - n)"
  by (auto simp: bit_simps)

lemma bit_drop_word [word_bits]:
  "bit (drop_bit n (w :: 'a::len word)) i \<longleftrightarrow> bit w (n + i)"
  by (simp add: bit_simps)

lemma not_bit_byte [simp]: "8 \<le> i \<Longrightarrow> \<not> bit (b :: byte) i"
  using bit_imp_le_length [of b i] by auto

lemma bit_byte_less: "bit (b :: byte) i \<Longrightarrow> i < 8"
  using not_bit_byte not_le by blast

text \<open>The first \<open>n\<close> bytes at an address as a little-endian word, assembled by exclusive or.\<close>

primrec gather :: "memory \<Rightarrow> nat \<Rightarrow> nat \<Rightarrow> 'a::len word" where
  "gather mem b 0 = 0"
| "gather mem b (Suc n) = gather mem b n XOR push_bit (8 * n) (ucast (mem (b + n)))"

lemma bit_gather [word_bits]:
  "bit (gather mem b n :: 'a::len word) i \<longleftrightarrow> i < 8 * n \<and> i < LENGTH('a) \<and> mbit mem (8 * b + i)"
proof (induction n)
  case 0
  then show ?case by simp
next
  case (Suc n)
  consider "i < 8 * n" | r where "i = 8 * n + r" "r < 8" | "8 * n + 8 \<le> i"
    by (metis add.commute le_add_diff_inverse2 less_diff_conv2 not_le)
  then show ?case
  proof cases
    case 2
    then have "mbit mem (8 * b + i) = bit (mem (b + n)) r"
      using mbit_byte [of r mem "b + n"] by (simp add: algebra_simps)
    with 2 Suc show ?thesis
      by (auto simp: bit_xor_iff bit_push_word bit_ucast_byte)
  qed (use Suc in \<open>auto simp: bit_xor_iff bit_push_word bit_ucast_byte\<close>)
qed

section \<open>Array reads\<close>

text \<open>A read of an array; \<open>None\<close> is a read outside of it.\<close>

definition nth_opt :: "'a list \<Rightarrow> nat \<Rightarrow> 'a option" where
  "nth_opt xs i = (if i < length xs then Some (xs ! i) else None)"

lemma nth_opt_Some_iff: "nth_opt xs i = Some x \<longleftrightarrow> i < length xs \<and> xs ! i = x"
  by (simp add: nth_opt_def)

lemma nth_opt_in [simp]: "i < length xs \<Longrightarrow> nth_opt xs i = Some (xs ! i)"
  by (simp add: nth_opt_def)

lemma nth_opt_append [simp]: "nth_opt (xs @ [x]) i = (if i = length xs then Some x else nth_opt xs i)"
  by (auto simp: nth_opt_def nth_append)

section \<open>Bit length of a number\<close>

fun met0 :: "nat \<Rightarrow> nat" where
  "met0 n = (if n = 0 then 0 else Suc (met0 (n div 2)))"

declare met0.simps [simp del]

lemma met0_0 [simp]: "met0 0 = 0"
  by (simp add: met0.simps)

lemma met0_Suc: "0 < n \<Longrightarrow> met0 n = Suc (met0 (n div 2))"
  by (subst met0.simps) simp

lemma met0_eq_0 [simp]: "met0 n = 0 \<longleftrightarrow> n = 0"
  by (cases "n = 0") (auto simp: met0_Suc)

lemma met0_le_iff: "met0 n \<le> k \<longleftrightarrow> n < 2 ^ k"
proof (induction n arbitrary: k rule: met0.induct)
  case (1 n)
  show ?case
  proof (cases "n = 0")
    case False
    then have "met0 n = Suc (met0 (n div 2))"
      by (simp add: met0_Suc)
    with False 1 show ?thesis
      by (cases k) (auto simp: div_less_iff_less_mult ac_simps)
  qed simp
qed

lemma less_2_met0: "n < 2 ^ met0 n"
  using met0_le_iff by blast

lemma met0_mono: "m \<le> n \<Longrightarrow> met0 m \<le> met0 n"
  using met0_le_iff less_2_met0 le_less_trans by blast

lemma met0_eqI: "n < 2 ^ k \<Longrightarrow> 2 ^ k \<le> 2 * n \<Longrightarrow> met0 n = k"
proof -
  assume a: "n < 2 ^ k" "2 ^ k \<le> 2 * n"
  then have "met0 n \<le> k"
    by (simp add: met0_le_iff)
  moreover have "k \<le> met0 n"
  proof (rule ccontr)
    assume "\<not> k \<le> met0 n"
    then obtain j where j: "k = Suc j" "met0 n \<le> j"
      by (metis Suc_pred' bot_nat_0.not_eq_extremum less_Suc_eq_le not_le zero_le)
    then have "n < 2 ^ j"
      by (simp add: met0_le_iff)
    with a j show False by simp
  qed
  ultimately show ?thesis by simp
qed

lemma met0_top_bit: "0 < n \<Longrightarrow> bit n (met0 n - 1)"
proof (induction n rule: met0.induct)
  case (1 n)
  show ?case
  proof (cases "n = 1")
    case True
    then show ?thesis by (simp add: met0_Suc bit_0)
  next
    case False
    with 1 have "bit (n div 2) (met0 (n div 2) - 1)" "0 < n div 2"
      by auto
    then show ?thesis
      using 1 by (cases "met0 (n div 2)") (auto simp: met0_Suc [of n] bit_Suc)
  qed
qed

lemma bit_imp_less_met0: "bit n i \<Longrightarrow> i < met0 n"
  by (metis bit_take_bit_iff less_2_met0 take_bit_nat_eq_self)

lemma met0_pos: "0 < n \<Longrightarrow> 0 < met0 n"
  by (metis gr0I less_numeral_extra(3) met0_eq_0)

lemma met0_less: "1 < n \<Longrightarrow> met0 n \<le> n"
  by (simp add: met0_le_iff)

lemma bit_unat_bound: "unat (w :: 'a::len word) < 2 ^ n \<Longrightarrow> bit w i \<Longrightarrow> i < n"
proof -
  assume "unat w < 2 ^ n" "bit w i"
  then have "bit (take_bit n (unat w)) i"
    by (simp add: take_bit_nat_eq_self bit_unsigned_iff bit_imp_le_length)
  then show ?thesis
    by (simp add: bit_take_bit_iff)
qed

end
