(* ===== verification/Ur_Defs.thy ===== *)
theory Ur_Defs
  imports Ur_Prelude
begin

text \<open>
  \<^verbatim>\<open>pkg/ur/defs.h\<close>: the growth constants, the bit-masking helpers, the bloq conversions and the
  measurement of atoms. \<open>lz\<close> and \<open>tz\<close> are the compiler's \<^verbatim>\<open>__builtin_clz\<close> and
  \<^verbatim>\<open>__builtin_ctz\<close> on a nonzero argument of the given width.
\<close>

definition ur_fib10 :: nat where "ur_fib10 = 55"
definition ur_fib11 :: nat where "ur_fib11 = 89"
definition ur_fib12 :: nat where "ur_fib12 = 144"

definition ur_mask_3 :: "nat \<Rightarrow> nat" where
  "ur_mask_3 a = a mod 8"

definition ur_bloq_up1 :: "nat \<Rightarrow> nat" where
  "ur_bloq_up1 a = (a + 1) div 2"

definition ur_bloq_up2 :: "nat \<Rightarrow> nat" where
  "ur_bloq_up2 a = (a + 3) div 4"

definition ur_bloq_up3 :: "nat \<Rightarrow> nat" where
  "ur_bloq_up3 a = (a + 7) div 8"

definition lz :: "'a::len word \<Rightarrow> nat" where
  "lz a = length (takeWhile (\<lambda>i. \<not> bit a i) (rev [0..<LENGTH('a)]))"

definition tz :: "'a::len word \<Rightarrow> nat" where
  "tz a = length (takeWhile (\<lambda>i. \<not> bit a i) [0..<LENGTH('a)])"

definition ur_met0 :: "'a::len word \<Rightarrow> nat" where
  "ur_met0 a = (if a \<noteq> 0 then LENGTH('a) - lz a else 0)"

definition ur_met0_8 :: "8 word \<Rightarrow> nat" where
  "ur_met0_8 = ur_met0"

definition ur_met0_32 :: "32 word \<Rightarrow> nat" where
  "ur_met0_32 = ur_met0"

definition ur_met0_64 :: "64 word \<Rightarrow> nat" where
  "ur_met0_64 = ur_met0"

definition ur_met3_32 :: "32 word \<Rightarrow> nat" where
  "ur_met3_32 a = ur_bloq_up3 (ur_met0_32 a)"

definition ur_met3_64 :: "64 word \<Rightarrow> nat" where
  "ur_met3_64 a = ur_bloq_up3 (ur_met0_64 a)"

text \<open>
  The bit length of a byte array without trailing null bytes. For the empty array \<open>len - 1\<close>
  wraps and the C code reads far outside of it: \<open>None\<close> stands for such an access.
\<close>

definition ur_met0_bytes_unsafe :: "nat \<Rightarrow> byte list \<Rightarrow> nat option" where
  "ur_met0_bytes_unsafe len byt =
     (if len = 0 \<or> length byt < len then None
      else let last = len - 1 in Some (last * 8 + ur_met0_8 (byt ! last)))"

section \<open>The builtin-based measures are the bit length\<close>

lemma tz_cases:
  assumes "b \<noteq> (0 :: 'a::len word)"
  shows "tz b < LENGTH('a)" and "bit b (tz b)" and "\<forall>i < tz b. \<not> bit b i"
proof -
  from assms obtain k where k: "k < LENGTH('a)" "bit b k"
    using bit_imp_le_length [of b] by (auto simp: bit_eq_iff)
  let ?ws = "takeWhile (\<lambda>i. \<not> bit b i) [0..<LENGTH('a)]"
  have "?ws \<noteq> [0..<LENGTH('a)]"
    using k by (metis atLeast_upt lessThan_iff set_takeWhileD)
  then have len: "length ?ws < LENGTH('a)"
    by (metis diff_zero length_takeWhile_le length_upt nat_less_le takeWhile_eq_take take_all_iff)
  then show "tz b < LENGTH('a)"
    by (simp add: tz_def)
  show "bit b (tz b)"
    using nth_length_takeWhile [of "\<lambda>i. \<not> bit b i" "[0..<LENGTH('a)]"] len by (simp add: tz_def)
  show "\<forall>i < tz b. \<not> bit b i"
  proof (intro allI impI)
    fix i
    assume i: "i < tz b"
    then have "?ws ! i = [0..<LENGTH('a)] ! i"
      by (simp add: tz_def takeWhile_nth)
    with i len have "?ws ! i = i"
      by (simp add: tz_def)
    moreover have "?ws ! i \<in> set ?ws"
      using i by (simp add: tz_def)
    ultimately show "\<not> bit b i"
      by (metis (mono_tags, lifting) set_takeWhileD)
  qed
qed

lemma lz_rev_take:
  assumes "bit a k" and "k < n" and "\<forall>i. k < i \<longrightarrow> i < n \<longrightarrow> \<not> bit a i"
  shows "length (takeWhile (\<lambda>i. \<not> bit (a :: 'a::len word) i) (rev [0..<n])) = n - Suc k"
  using assms
proof (induction n)
  case (Suc n)
  then show ?case
    by (cases "k = n") auto
qed simp

lemma ur_met0_eq: "ur_met0 (a :: 'a::len word) = met0 (unat a)"
proof (cases "a = 0")
  case False
  then have pos: "0 < unat a"
    by (simp add: unat_gt_0)
  let ?k = "met0 (unat a) - 1"
  have top: "bit a ?k"
    using met0_top_bit [OF pos] by (simp add: bit_unsigned_iff)
  then have "?k < LENGTH('a)"
    by (rule bit_imp_le_length)
  moreover have "\<not> bit a i" if "?k < i" for i
  proof
    assume "bit a i"
    then have "bit (unat a) i"
      by (simp add: bit_unsigned_iff bit_imp_le_length)
    with that show False
      using bit_imp_less_met0 [of "unat a" i] by simp
  qed
  ultimately have "lz a = LENGTH('a) - Suc ?k"
    unfolding lz_def using top by (intro lz_rev_take) auto
  moreover have "0 < met0 (unat a)"
    using pos by (rule met0_pos)
  ultimately show ?thesis
    using False \<open>?k < LENGTH('a)\<close> by (simp add: ur_met0_def)
qed (simp add: ur_met0_def)

lemmas ur_met0_simps = ur_met0_8_def ur_met0_32_def ur_met0_64_def ur_met0_eq

lemma met0_unat_le: "met0 (unat (a :: 'a::len word)) \<le> LENGTH('a)"
  by (simp add: met0_le_iff)

end
