(* ===== verification/Ur_Mug.thy ===== *)
theory Ur_Mug
  imports Ur_Defs
begin

text \<open>
  Noun references and the noun hash of \<^verbatim>\<open>pkg/ur/hashcons.c\<close>: the 64-bit references with their
  two tag bits, and the mug functions over bytes, machine words and pairs of mugs.

  \<^verbatim>\<open>MurmurHash3_x86_32\<close> is a third-party function (it is not among the sources): it is a parameter
  \<open>murmur\<close> that maps the bytes and the seed to the 32-bit hash.
\<close>

type_synonym ur_nref = u64
type_synonym ur_mug = u32
type_synonym murmur = "byte list \<Rightarrow> u32 \<Rightarrow> u32"

definition ur_direct :: u64 where "ur_direct = 0"
definition ur_iatom :: u64 where "ur_iatom = 1"
definition ur_icell :: u64 where "ur_icell = 2"

definition ur_nref_tag :: "ur_nref \<Rightarrow> u64" where
  "ur_nref_tag ref = drop_bit 62 ref"

definition ur_nref_idx :: "ur_nref \<Rightarrow> nat" where
  "ur_nref_idx ref = unat (ref AND mask 62)"

text \<open>The reference \<^verbatim>\<open>( fill | ((uint64_t)tag << 62) )\<close> that both allocators build.\<close>

definition nref_of :: "u64 \<Rightarrow> nat \<Rightarrow> ur_nref" where
  "nref_of tag fill = of_nat fill OR push_bit 62 tag"

section \<open>Mugs\<close>

text \<open>
  The retry loop of both hash functions: \<open>n\<close> attempts, each with the next seed, and a default
  when all of them hash to zero.
\<close>

fun mug_loop :: "(u32 \<Rightarrow> u32) \<Rightarrow> nat \<Rightarrow> u32 \<Rightarrow> ur_mug \<Rightarrow> ur_mug" where
  "mug_loop hash 0 seed dflt = dflt"
| "mug_loop hash (Suc n) seed dflt =
     (let raw = hash seed; mug = drop_bit 31 raw XOR (raw AND mask 31)
      in if mug = 0 then mug_loop hash n (seed + 1) dflt else mug)"

definition ur_mug_bytes :: "murmur \<Rightarrow> byte list \<Rightarrow> nat \<Rightarrow> ur_mug" where
  "ur_mug_bytes murmur byt len = mug_loop (murmur (take len byt)) 8 0xcafebabe 0x7fff"

definition le_bytes :: "nat \<Rightarrow> 'a::len word \<Rightarrow> byte list" where
  "le_bytes n x = map (\<lambda>i. ucast (drop_bit (8 * i) x)) [0..<n]"

definition ur_mug32 :: "murmur \<Rightarrow> u32 \<Rightarrow> ur_mug" where
  "ur_mug32 murmur x = ur_mug_bytes murmur (le_bytes 4 x) (ur_met3_32 x)"

definition ur_mug64 :: "murmur \<Rightarrow> u64 \<Rightarrow> ur_mug" where
  "ur_mug64 murmur x = ur_mug_bytes murmur (le_bytes 8 x) (ur_met3_64 x)"

definition ur_mug_both :: "murmur \<Rightarrow> ur_mug \<Rightarrow> ur_mug \<Rightarrow> ur_mug" where
  "ur_mug_both murmur hed tal =
     (let len = 4 + ur_bloq_up3 (ur_met0_32 tal); byt = le_bytes 4 hed @ le_bytes 4 tal
      in mug_loop (murmur (take len byt)) 8 0xdeadbeef 0xfffe)"

text \<open>Every mug is a nonzero 31-bit number.\<close>

definition mug_ok :: "ur_mug \<Rightarrow> bool" where
  "mug_ok m \<longleftrightarrow> m \<noteq> 0 \<and> unat m < 2 ^ 31"

lemma unat_less_bits:
  assumes "\<And>i. n \<le> i \<Longrightarrow> \<not> bit (w :: 'a::len word) i"
  shows "unat w < 2 ^ n"
proof -
  have "take_bit n (unat w) = unat w"
    by (rule bit_eqI) (use assms not_le in \<open>auto simp: bit_take_bit_iff bit_unsigned_iff\<close>)
  then show ?thesis
    using take_bit_nat_less_exp [of n "unat w"] by simp
qed

lemma fold_mug_31: "unat (drop_bit 31 (raw :: u32) XOR (raw AND mask 31)) < 2 ^ 31"
proof (rule unat_less_bits)
  show "\<not> bit (drop_bit 31 raw XOR (raw AND mask 31)) i" if "31 \<le> i" for i
    using that bit_imp_le_length [of raw "31 + i"] by (auto simp: bit_xor_iff bit_drop_word bit_word_take_bit)
qed

lemma mug_loop_ok: "mug_ok dflt \<Longrightarrow> mug_ok (mug_loop hash n seed dflt)"
proof (induction hash n seed dflt rule: mug_loop.induct)
  case (2 hash n seed dflt)
  then show ?case
    using fold_mug_31 [of "hash seed"] by (simp add: Let_def mug_ok_def)
qed simp

lemma mug_ok_defaults: "mug_ok 0x7fff" "mug_ok 0xfffe"
  by (simp_all add: mug_ok_def)

lemma ur_mug_bytes_ok: "mug_ok (ur_mug_bytes murmur byt len)"
  unfolding ur_mug_bytes_def by (intro mug_loop_ok mug_ok_defaults)

lemma ur_mug64_ok: "mug_ok (ur_mug64 murmur x)"
  by (simp add: ur_mug64_def ur_mug_bytes_ok)

lemma ur_mug_both_ok: "mug_ok (ur_mug_both murmur hed tal)"
  unfolding ur_mug_both_def Let_def by (intro mug_loop_ok mug_ok_defaults)

section \<open>Tags and indices\<close>

lemma unat_nref_tag: "unat (ur_nref_tag ref) = unat ref div 2 ^ 62"
  by (subst drop_bit_eq_div [symmetric]) (simp only: ur_nref_tag_def unat_drop_bit_eq)

lemma ur_nref_idx_mod: "ur_nref_idx ref = unat ref mod 2 ^ 62"
proof -
  have "unat (ref AND mask 62) = unat (take_bit 62 ref)"
    by (simp only: take_bit_eq_mask)
  also have "\<dots> = take_bit 62 (unat ref)"
    by (simp add: unsigned_take_bit_eq)
  finally show ?thesis
    by (simp add: ur_nref_idx_def take_bit_eq_mod)
qed

lemma nref_eqI: "ur_nref_tag a = ur_nref_tag b \<Longrightarrow> ur_nref_idx a = ur_nref_idx b \<Longrightarrow> a = b"
  by (metis div_mult_mod_eq unat_nref_tag ur_nref_idx_mod word_unat_eq_iff)

lemma ur_nref_idx_less: "ur_nref_idx ref < 2 ^ 62"
  by (simp add: ur_nref_idx_mod)

lemma unat_nref_of:
  assumes "fill < 2 ^ 62" and "unat tag < 4"
  shows "unat (nref_of tag fill) = unat tag * 2 ^ 62 + fill"
proof -
  have "(of_nat fill :: u64) AND push_bit 62 tag = 0"
  proof (rule bit_word_eqI)
    fix i
    have "\<not> bit fill i" if "62 \<le> i"
      using bit_imp_less_met0 [of fill i] met0_le_iff [of fill 62] assms(1) that by auto
    then show "bit ((of_nat fill :: u64) AND push_bit 62 tag) i = bit 0 i"
      by (auto simp: bit_and_iff bit_push_word bit_of_nat_iff)
  qed
  then have "nref_of tag fill = of_nat fill + push_bit 62 tag"
    unfolding nref_of_def by (simp add: disjunctive_add_eq_or)
  also have "push_bit 62 tag = of_nat (unat tag * 2 ^ 62)"
    by (simp add: push_bit_eq_mult)
  finally have "nref_of tag fill = of_nat (unat tag * 2 ^ 62 + fill)"
    by simp
  moreover have "unat tag * 2 ^ 62 + fill < 2 ^ 64"
    using assms by simp
  ultimately show ?thesis
    by (simp only: unat_of_nat) simp
qed

lemma nref_of_tag_idx:
  assumes "fill < 2 ^ 62" and "unat tag < 4"
  shows "ur_nref_tag (nref_of tag fill) = tag" "ur_nref_idx (nref_of tag fill) = fill"
  using assms by (auto simp: word_unat_eq_iff unat_nref_tag ur_nref_idx_mod unat_nref_of)

lemma direct_iff: "ur_nref_tag ref = ur_direct \<longleftrightarrow> unat ref < 2 ^ 62"
  by (simp add: ur_direct_def word_unat_eq_iff unat_nref_tag div_eq_0_iff)

text \<open>
  A concrete hash for examples, in place of the parameter: the Fowler-Noll-Vo fold over the bytes.
\<close>

definition fnv :: murmur where
  "fnv bs seed = foldl (\<lambda>h b. (h XOR ucast b) * 16777619) seed bs"

end
