(* ===== verification/Ur_Dict.thy ===== *)
theory Ur_Dict
  imports Ur_Mug
begin

text \<open>
  The dictionaries of \<^verbatim>\<open>pkg/ur/hashcons.c\<close>: noun references spread by mug over buckets of ten
  entries (pails), reallocated with fibonacci growth once a bucket is full.

  \<^verbatim>\<open>hashcons.c\<close> has the same code three times, for values of 32 bits, of 64 bits and for no value.
  Here it is written once, for any value type, and the three copies are instances of it (the
  type \<^typ>\<open>unit\<close> for no value). The arena is only used to look up mugs, so these definitions take
  the function \<open>mug\<close> from references to mugs, where \<open>None\<close> is a failed assertion or an access
  outside of an array.

  An operation whose result is \<open>None\<close> stops on such an access, divides by a zero size, or never
  returns. Sizes are exact numbers: a table of \<open>2^64\<close> buckets cannot be allocated.
\<close>

definition ur_pail_max :: nat where "ur_pail_max = 10"

record 'v ur_pail =
  pail_refs :: "ur_nref list"
  pail_vals :: "'v list"

text \<open>No buckets stand for the null pointer of a zeroed dictionary.\<close>

record 'v ur_dict =
  dict_prev :: nat
  dict_size :: nat
  dict_fills :: "nat list"
  dict_buckets :: "'v ur_pail list"

type_synonym ur_pail32_t = "u32 ur_pail"
type_synonym ur_pail64_t = "u64 ur_pail"
type_synonym ur_pail_t = "unit ur_pail"
type_synonym ur_dict32_t = "u32 ur_dict"
type_synonym ur_dict64_t = "u64 ur_dict"
type_synonym ur_dict_t = "unit ur_dict"

instantiation unit :: zero
begin

definition zero_unit :: unit where
  "zero_unit = ()"

instance ..

end

definition pail_zero :: "'v::zero ur_pail" where
  "pail_zero = \<lparr>pail_refs = replicate ur_pail_max 0, pail_vals = replicate ur_pail_max 0\<rparr>"

definition dict_zero :: "'v ur_dict" where
  "dict_zero = \<lparr>dict_prev = 0, dict_size = 0, dict_fills = [], dict_buckets = []\<rparr>"

section \<open>Entries\<close>

definition pail_entries :: "nat \<Rightarrow> 'v ur_pail \<Rightarrow> (ur_nref \<times> 'v) list" where
  "pail_entries fill p = zip (take fill (pail_refs p)) (take fill (pail_vals p))"

definition pail_set :: "'v ur_pail \<Rightarrow> nat \<Rightarrow> ur_nref \<Rightarrow> 'v \<Rightarrow> 'v ur_pail" where
  "pail_set p i ref val = \<lparr>pail_refs = (pail_refs p)[i := ref], pail_vals = (pail_vals p)[i := val]\<rparr>"

text \<open>The entries in the order of the two nested loops of \<^verbatim>\<open>grow\<close>.\<close>

definition dict_entries :: "'v ur_dict \<Rightarrow> (ur_nref \<times> 'v) list" where
  "dict_entries d =
     (if dict_buckets d = [] then []
      else concat (map (\<lambda>i. pail_entries (dict_fills d ! i) (dict_buckets d ! i)) [0..<dict_size d]))"

section \<open>Growth\<close>

datatype 'a moved = Moved 'a | Pail_full | Bad_ref

text \<open>The body of the loops: one entry is rehashed into the new buckets.\<close>

fun dict_move :: "(ur_nref \<Rightarrow> ur_mug option) \<Rightarrow> nat \<Rightarrow> (ur_nref \<times> 'v) list \<Rightarrow> 'v ur_pail list \<times> nat list \<Rightarrow>
    ('v ur_pail list \<times> nat list) moved" where
  "dict_move mug next [] (buckets, fills) = Moved (buckets, fills)"
| "dict_move mug next ((ref, val) # es) (buckets, fills) =
     (case mug ref of
        None \<Rightarrow> Bad_ref
      | Some m \<Rightarrow>
          if next = 0 then Bad_ref
          else let idx = unat m mod next; new_fill = fills ! idx
               in if new_fill = ur_pail_max then Pail_full
                  else dict_move mug next es
                    (buckets[idx := pail_set (buckets ! idx) new_fill ref val], fills[idx := 1 + new_fill]))"

partial_function (option) dict_grow ::
  "(ur_nref \<Rightarrow> ur_mug option) \<Rightarrow> 'v::zero ur_dict \<Rightarrow> nat \<Rightarrow> nat \<Rightarrow> 'v ur_dict option" where
  "dict_grow mug d prev sz =
     (let next = prev + sz
      in case dict_move mug next (dict_entries d) (replicate next pail_zero, replicate next 0) of
           Bad_ref \<Rightarrow> None
         | Pail_full \<Rightarrow> dict_grow mug d sz next
         | Moved (buckets, fills) \<Rightarrow>
             Some \<lparr>dict_prev = sz, dict_size = next, dict_fills = fills, dict_buckets = buckets\<rparr>)"

section \<open>Search\<close>

text \<open>
  The first entry of a bucket that the comparison \<open>eq\<close> accepts. The comparison may itself fail
  (an assertion in \<^verbatim>\<open>ur_head\<close>).
\<close>

fun pail_search :: "(ur_nref \<Rightarrow> bool option) \<Rightarrow> ur_nref list \<Rightarrow> nat option option" where
  "pail_search eq [] = Some None"
| "pail_search eq (ref # refs) =
     (case eq ref of
        None \<Rightarrow> None
      | Some b \<Rightarrow> if b then Some (Some 0) else map_option (map_option Suc) (pail_search eq refs))"

definition dict_get :: "(ur_nref \<Rightarrow> ur_mug option) \<Rightarrow> 'v ur_dict \<Rightarrow> ur_nref \<Rightarrow> 'v option option" where
  "dict_get mug d ref =
     (case mug ref of
        None \<Rightarrow> None
      | Some m \<Rightarrow>
          let idx = unat m mod dict_size d
          in if dict_size d = 0 \<or> length (dict_buckets d) \<le> idx then None
             else let bucket = dict_buckets d ! idx; fill = dict_fills d ! idx
                  in map_option (map_option (\<lambda>i. pail_vals bucket ! i))
                       (pail_search (\<lambda>x. Some (ref = x)) (take fill (pail_refs bucket))))"

text \<open>
  The loop that \<^verbatim>\<open>put\<close>, \<^verbatim>\<open>ur_coin_bytes_unsafe\<close> and \<^verbatim>\<open>ur_cons\<close> share: search the bucket of the mug,
  grow and search again when it is full, and stop at the match or at the first free entry.
\<close>

datatype slot = Found nat nat | Room nat nat

partial_function (option) dict_seek ::
  "(ur_nref \<Rightarrow> ur_mug option) \<Rightarrow> (ur_nref \<Rightarrow> bool option) \<Rightarrow> ur_mug \<Rightarrow> 'v::zero ur_dict \<Rightarrow> ('v ur_dict \<times> slot) option" where
  "dict_seek mug eq m d =
     (let idx = unat m mod dict_size d
      in if dict_size d = 0 \<or> length (dict_buckets d) \<le> idx then None
         else let bucket = dict_buckets d ! idx; fill = dict_fills d ! idx
              in case pail_search eq (take fill (pail_refs bucket)) of
                   None \<Rightarrow> None
                 | Some None \<Rightarrow>
                     if fill = ur_pail_max
                     then Option.bind (dict_grow mug d (dict_prev d) (dict_size d)) (\<lambda>d. dict_seek mug eq m d)
                     else Some (d, Room idx fill)
                 | Some (Some i) \<Rightarrow> Some (d, Found idx i))"

definition dict_store :: "'v ur_dict \<Rightarrow> nat \<Rightarrow> nat \<Rightarrow> ur_nref \<Rightarrow> 'v \<Rightarrow> 'v ur_dict" where
  "dict_store d idx fill ref val =
     d\<lparr>dict_buckets := (dict_buckets d)[idx := pail_set (dict_buckets d ! idx) fill ref val],
       dict_fills := (dict_fills d)[idx := 1 + fill]\<rparr>"

definition dict_put ::
  "(ur_nref \<Rightarrow> ur_mug option) \<Rightarrow> 'v::zero ur_dict \<Rightarrow> ur_nref \<Rightarrow> 'v \<Rightarrow> 'v ur_dict option" where
  "dict_put mug d ref val =
     (case mug ref of
        None \<Rightarrow> None
      | Some m \<Rightarrow>
          (case dict_seek mug (\<lambda>x. Some (ref = x)) m d of
             None \<Rightarrow> None
           | Some (d, Found idx i) \<Rightarrow>
               let bucket = dict_buckets d ! idx
               in Some (d\<lparr>dict_buckets := (dict_buckets d)
                           [idx := bucket\<lparr>pail_vals := (pail_vals bucket)[i := val]\<rparr>]\<rparr>)
           | Some (d, Room idx fill) \<Rightarrow> Some (dict_store d idx fill ref val)))"

definition dict_wipe :: "'v ur_dict \<Rightarrow> 'v ur_dict" where
  "dict_wipe d = d\<lparr>dict_fills := replicate (dict_size d) 0\<rparr>"

definition ur_dict_free :: "'v ur_dict \<Rightarrow> 'v ur_dict" where
  "ur_dict_free d = d\<lparr>dict_buckets := [], dict_fills := []\<rparr>"

section \<open>Invariant and abstraction\<close>

definition slot_of :: "(ur_nref \<Rightarrow> ur_mug option) \<Rightarrow> nat \<Rightarrow> ur_nref \<Rightarrow> nat" where
  "slot_of mug n k = unat (the (mug k)) mod n"

text \<open>The shape of a table of \<open>n\<close> buckets.\<close>

definition table_ok :: "nat \<Rightarrow> 'v ur_pail list \<Rightarrow> nat list \<Rightarrow> bool" where
  "table_ok n buckets fills \<longleftrightarrow> length buckets = n \<and> length fills = n \<and>
     (\<forall>i < n. fills ! i \<le> ur_pail_max \<and> length (pail_refs (buckets ! i)) = ur_pail_max \<and>
       length (pail_vals (buckets ! i)) = ur_pail_max)"

abbreviation bucket_entries :: "'v ur_dict \<Rightarrow> nat \<Rightarrow> (ur_nref \<times> 'v) list" where
  "bucket_entries d i \<equiv> pail_entries (dict_fills d ! i) (dict_buckets d ! i)"

text \<open>Each entry has a mug and is in its mug's bucket, and no bucket has two entries of a key.\<close>

definition dict_inv :: "(ur_nref \<Rightarrow> ur_mug option) \<Rightarrow> 'v ur_dict \<Rightarrow> bool" where
  "dict_inv mug d \<longleftrightarrow> 0 < dict_prev d \<and> 0 < dict_size d \<and>
     table_ok (dict_size d) (dict_buckets d) (dict_fills d) \<and>
     (\<forall>i < dict_size d. distinct (map fst (bucket_entries d i)) \<and>
       (\<forall>k \<in> fst ` set (bucket_entries d i). mug k \<noteq> None \<and> slot_of mug (dict_size d) k = i))"

definition dict_map :: "'v ur_dict \<Rightarrow> ur_nref \<rightharpoonup> 'v" where
  "dict_map d = map_of (dict_entries d)"

text \<open>At most ten of the references share a mug.\<close>

definition spread :: "(ur_nref \<Rightarrow> ur_mug option) \<Rightarrow> ur_nref set \<Rightarrow> bool" where
  "spread mug K \<longleftrightarrow> (\<forall>m. card {k \<in> K. mug k = Some m} \<le> ur_pail_max)"

definition mugs_31 :: "(ur_nref \<Rightarrow> ur_mug option) \<Rightarrow> bool" where
  "mugs_31 mug \<longleftrightarrow> (\<forall>k m. mug k = Some m \<longrightarrow> unat m < 2 ^ 31)"

lemma spread_mono: "spread mug K \<Longrightarrow> K' \<subseteq> K \<Longrightarrow> finite K \<Longrightarrow> spread mug K'"
proof -
  assume a: "spread mug K" "K' \<subseteq> K" "finite K"
  have "card {k \<in> K'. mug k = Some m} \<le> card {k \<in> K. mug k = Some m}" for m
    using a by (intro card_mono) auto
  with a show ?thesis
    unfolding spread_def by (meson le_trans)
qed

section \<open>Lists of entries\<close>

lemma map_of_filter_key: "P k \<Longrightarrow> map_of (filter (\<lambda>e. P (fst e)) es) k = map_of es k"
  by (induction es) auto

lemma keys_concat: "fst ` set (concat (map f [0..<n])) = (\<Union>i < n. fst ` set (f i))"
  by (simp add: image_UN atLeast0LessThan)

lemma map_of_concat_at:
  assumes "j < n" and "\<And>i. i < n \<Longrightarrow> i \<noteq> j \<Longrightarrow> k \<notin> fst ` set (f i)"
  shows "map_of (concat (map f [0..<n])) k = map_of (f j) k"
  using assms
proof (induction n)
  case (Suc n)
  show ?case
  proof (cases "j = n")
    case True
    have "map_of (concat (map f [0..<n])) k = None"
      unfolding map_of_eq_None_iff keys_concat using Suc.prems(2) True by simp
    then show ?thesis
      using True by (auto simp: map_add_def split: option.splits)
  next
    case False
    then have "map_of (f n) k = None"
      using Suc.prems(2) [of n] by (auto simp: map_of_eq_None_iff)
    then show ?thesis
      using Suc False by (auto simp: map_add_def split: option.splits)
  qed
qed simp

lemma distinct_concat_slots:
  assumes "\<And>i. i < n \<Longrightarrow> distinct (map fst (f i))" and "\<And>i k. i < n \<Longrightarrow> k \<in> fst ` set (f i) \<Longrightarrow> g k = i"
  shows "distinct (map fst (concat (map f [0..<n])))"
  using assms
proof (induction n)
  case (Suc n)
  have "fst ` set (f n) \<inter> fst ` set (concat (map f [0..<n])) = {}"
  proof (intro equals0I)
    fix k
    assume k: "k \<in> fst ` set (f n) \<inter> fst ` set (concat (map f [0..<n]))"
    then obtain i where "i < n" "k \<in> fst ` set (f i)"
      unfolding keys_concat by blast
    with k show False
      using Suc.prems(2) [of i k] Suc.prems(2) [of n k] by simp
  qed
  then show ?case
    using Suc by (auto simp: image_iff)
qed simp

lemma pail_entries_set_new:
  assumes "fill < length (pail_refs p)" and "length (pail_vals p) = length (pail_refs p)"
  shows "pail_entries (Suc fill) (pail_set p fill ref val) = pail_entries fill p @ [(ref, val)]"
  using assms by (simp add: pail_entries_def pail_set_def take_Suc_conv_app_nth take_update_cancel)

lemma length_pail_set [simp]:
  "length (pail_refs (pail_set p i ref val)) = length (pail_refs p)"
  "length (pail_vals (pail_set p i ref val)) = length (pail_vals p)"
  by (simp_all add: pail_set_def)

lemma fst_pail_entries:
  "length (pail_vals p) = length (pail_refs p) \<Longrightarrow> map fst (pail_entries fill p) = take fill (pail_refs p)"
  by (simp add: pail_entries_def)

section \<open>Rehashing\<close>

lemma table_ok_set:
  assumes "table_ok n buckets fills" and "idx < n" and "fills ! idx < ur_pail_max"
  shows "table_ok n (buckets[idx := pail_set (buckets ! idx) (fills ! idx) ref val]) (fills[idx := Suc (fills ! idx)])"
    and "i < n \<Longrightarrow> pail_entries (fills[idx := Suc (fills ! idx)] ! i) (buckets[idx := pail_set (buckets ! idx) (fills ! idx) ref val] ! i) =
      pail_entries (fills ! i) (buckets ! i) @ (if i = idx then [(ref, val)] else [])"
  using assms by (auto simp: table_ok_def nth_list_update pail_entries_set_new)

lemma dict_move_cases:
  assumes "table_ok n buckets fills" and "0 < n" and "\<forall>k \<in> fst ` set es. mug k \<noteq> None"
  shows "case dict_move mug n es (buckets, fills) of
      Bad_ref \<Rightarrow> False
    | Pail_full \<Rightarrow> \<exists>i < n. ur_pail_max < fills ! i + length (filter (\<lambda>e. slot_of mug n (fst e) = i) es)
    | Moved (buckets', fills') \<Rightarrow> table_ok n buckets' fills' \<and>
        (\<forall>i < n. pail_entries (fills' ! i) (buckets' ! i) =
           pail_entries (fills ! i) (buckets ! i) @ filter (\<lambda>e. slot_of mug n (fst e) = i) es)"
  using assms
proof (induction es arbitrary: buckets fills)
  case (Cons e es)
  obtain ref val where ref: "e = (ref, val)"
    by (cases e)
  note 2 = Cons
  obtain m where m: "mug ref = Some m"
    using 2(4) ref by auto
  define idx where "idx = unat m mod n"
  have idx: "idx < n" "slot_of mug n ref = idx"
    using 2 m by (simp_all add: idx_def slot_of_def)
  show ?case
  proof (cases "fills ! idx = ur_pail_max")
    case True
    then have "dict_move mug n (e # es) (buckets, fills) = Pail_full"
      using m 2 by (simp add: idx_def Let_def ref)
    moreover have "ur_pail_max < fills ! idx + length (filter (\<lambda>e. slot_of mug n (fst e) = idx) (e # es))"
      using True idx by (simp add: ref)
    ultimately show ?thesis
      using idx(1) by (simp only: moved.case) blast
  next
    case False
    then have lt: "fills ! idx < ur_pail_max"
      using 2 idx by (simp add: table_ok_def order.not_eq_order_implies_strict)
    let ?b = "buckets[idx := pail_set (buckets ! idx) (fills ! idx) ref val]" and ?f = "fills[idx := Suc (fills ! idx)]"
    have step: "dict_move mug n (e # es) (buckets, fills) = dict_move mug n es (?b, ?f)"
      using m 2 False by (simp add: idx_def Let_def ref)
    note table = table_ok_set [OF 2(2) idx(1) lt, where ref = ref and val = val]
    have f: "?f ! i = fills ! i + (if i = idx then 1 else 0)" if "i < n" for i
      using 2 that by (auto simp: table_ok_def)
    have e: "filter (\<lambda>x. slot_of mug n (fst x) = i) (e # es) =
        (if i = idx then [(ref, val)] else []) @ filter (\<lambda>e. slot_of mug n (fst e) = i) es" for i
      using idx(2) ref by auto
    have IH: "case dict_move mug n es (?b, ?f) of
        Bad_ref \<Rightarrow> False
      | Pail_full \<Rightarrow> \<exists>i < n. ur_pail_max < ?f ! i + length (filter (\<lambda>e. slot_of mug n (fst e) = i) es)
      | Moved (buckets', fills') \<Rightarrow> table_ok n buckets' fills' \<and>
          (\<forall>i < n. pail_entries (fills' ! i) (buckets' ! i) =
             pail_entries (?f ! i) (?b ! i) @ filter (\<lambda>e. slot_of mug n (fst e) = i) es)"
      using 2(1) [OF table(1)] 2(3,4) by simp
    show ?thesis
    proof (cases "dict_move mug n es (?b, ?f)")
      case (Moved t)
      then show ?thesis
        unfolding step using IH table(2) ref idx(2) by (cases t) auto
    next
      case Pail_full
      then obtain i where "i < n" "ur_pail_max < ?f ! i + length (filter (\<lambda>e. slot_of mug n (fst e) = i) es)"
        using IH by auto
      then have "ur_pail_max < fills ! i + length (filter (\<lambda>e. slot_of mug n (fst e) = i) (e # es))"
        unfolding e by (simp add: f split: if_splits)
      then show ?thesis
        unfolding step Pail_full moved.case using \<open>i < n\<close> by blast
    qed (use IH in simp)
  qed
qed simp

section \<open>Growth keeps the map and ends\<close>

lemma dict_inv_simps:
  assumes "dict_inv mug d"
  shows "0 < dict_prev d" "0 < dict_size d" "table_ok (dict_size d) (dict_buckets d) (dict_fills d)"
    "dict_buckets d \<noteq> []" "\<And>i. i < dict_size d \<Longrightarrow> distinct (map fst (bucket_entries d i))"
    "\<And>i k. i < dict_size d \<Longrightarrow> k \<in> fst ` set (bucket_entries d i) \<Longrightarrow> mug k \<noteq> None \<and> slot_of mug (dict_size d) k = i"
  using assms by (auto simp: dict_inv_def table_ok_def)

lemma dict_map_bucket:
  assumes "dict_inv mug d"
  shows "dict_map d k = map_of (bucket_entries d (slot_of mug (dict_size d) k)) k"
proof -
  note I = dict_inv_simps [OF assms]
  have "slot_of mug (dict_size d) k < dict_size d"
    using I(2) by (simp add: slot_of_def)
  then show ?thesis
    unfolding dict_map_def dict_entries_def if_not_P [OF I(4)] by (rule map_of_concat_at) (use I(6) in blast)
qed

lemma dom_dict_map:
  assumes "dict_inv mug d"
  shows "dom (dict_map d) = (\<Union>i < dict_size d. fst ` set (bucket_entries d i))"
  unfolding dict_map_def dict_entries_def dom_map_of_conv_image_fst
  using dict_inv_simps(4) [OF assms] by (simp only: keys_concat if_False)

lemma dict_map_mug: "dict_inv mug d \<Longrightarrow> k \<in> dom (dict_map d) \<Longrightarrow> mug k \<noteq> None"
  using dict_inv_simps(6) [of mug d] dom_dict_map [of mug d] by blast

lemma finite_dict_map: "finite (dom (dict_map d))"
  by (simp add: dict_map_def finite_dom_map_of)

text \<open>What \<^verbatim>\<open>grow\<close> needs of the entries it moves.\<close>

definition entries_ok :: "(ur_nref \<Rightarrow> ur_mug option) \<Rightarrow> (ur_nref \<times> 'v) list \<Rightarrow> bool" where
  "entries_ok mug es \<longleftrightarrow> distinct (map fst es) \<and> (\<forall>k \<in> fst ` set es. mug k \<noteq> None)"

lemma dict_inv_entries_ok: "dict_inv mug d \<Longrightarrow> entries_ok mug (dict_entries d)"
  using dict_inv_simps [of mug d] unfolding entries_ok_def dict_entries_def
  by (auto simp: keys_concat intro!: distinct_concat_slots [where g = "slot_of mug (dict_size d)"] simp del: map_concat)

lemma entries_ok_null: "dict_buckets d = [] \<Longrightarrow> entries_ok mug (dict_entries d)"
  by (simp add: entries_ok_def dict_entries_def)

lemma moved_inv:
  assumes es: "entries_ok mug es" and n: "0 < n" "0 < prev"
    and mv: "dict_move mug n es (replicate n pail_zero, replicate n 0) = Moved (buckets, fills)"
  defines "d \<equiv> \<lparr>dict_prev = prev, dict_size = n, dict_fills = fills, dict_buckets = buckets\<rparr>"
  shows "dict_inv mug d" and "dict_map d = map_of es"
proof -
  have "table_ok n (replicate n pail_zero) (replicate n 0)"
    by (simp add: table_ok_def pail_zero_def)
  moreover have "\<forall>k \<in> fst ` set es. mug k \<noteq> None"
    using es by (simp add: entries_ok_def)
  ultimately have t: "table_ok n buckets fills"
    and e: "\<And>i. i < n \<Longrightarrow> pail_entries (fills ! i) (buckets ! i) = filter (\<lambda>e. slot_of mug n (fst e) = i) es"
    using dict_move_cases [OF _ n(1), of "replicate n pail_zero" "replicate n 0" es mug] mv
    by (auto simp: pail_entries_def)
  have "distinct (map fst (filter P es))" for P
    using es by (auto simp: entries_ok_def distinct_map inj_on_def)
  then show inv: "dict_inv mug d"
    using es n t e by (auto simp: dict_inv_def d_def entries_ok_def)
  show "dict_map d = map_of es"
  proof
    fix k
    have "slot_of mug n k < n"
      using n by (simp add: slot_of_def)
    then show "dict_map d k = map_of es k"
      unfolding dict_map_bucket [OF inv] using e map_of_filter_key [of "\<lambda>x. slot_of mug n x = slot_of mug n k" k es]
      by (simp add: d_def)
  qed
qed

text \<open>With at least \<open>2^31\<close> buckets every mug has its own.\<close>

lemma full_pail_size:
  assumes es: "entries_ok mug es" and n: "0 < n" and sp: "spread mug (fst ` set es)" "mugs_31 mug"
    and mv: "dict_move mug n es (replicate n pail_zero, replicate n 0) = Pail_full"
  shows "n < 2 ^ 31"
proof (rule ccontr)
  assume big: "\<not> n < 2 ^ 31"
  have some: "\<forall>k \<in> fst ` set es. mug k \<noteq> None"
    using es by (simp add: entries_ok_def)
  have "table_ok n (replicate n pail_zero) (replicate n 0)"
    by (simp add: table_ok_def pail_zero_def)
  from dict_move_cases [OF this n some] obtain i where "i < n"
    "ur_pail_max < replicate n 0 ! i + length (filter (\<lambda>e. slot_of mug n (fst e) = i) es)"
    unfolding mv moved.case by blast
  then have i: "i < n" "ur_pail_max < length (filter (\<lambda>e. slot_of mug n (fst e) = i) es)"
    by simp_all
  let ?K = "fst ` set (filter (\<lambda>e. slot_of mug n (fst e) = i) es)"
  have "distinct (map fst (filter (\<lambda>e. slot_of mug n (fst e) = i) es))"
    using es by (auto simp: entries_ok_def distinct_map inj_on_def)
  then have "card ?K = length (filter (\<lambda>e. slot_of mug n (fst e) = i) es)"
    using distinct_card by (metis (no_types, lifting) length_map list.set_map)
  moreover have "mug k = Some (of_nat i)" if "k \<in> ?K" for k
  proof -
    from that have k: "k \<in> fst ` set es" "slot_of mug n k = i"
      by auto
    then obtain m where m: "mug k = Some m"
      using some by blast
    then have "unat m < n"
      using sp(2) big unfolding mugs_31_def by (meson less_le_trans not_less)
    then have "unat m = i"
      using k(2) m by (simp add: slot_of_def)
    then show ?thesis
      using m by (simp flip: \<open>unat m = i\<close>)
  qed
  then have "card ?K \<le> card {k \<in> fst ` set es. mug k = Some (of_nat i)}"
    by (intro card_mono) auto
  moreover have "card {k \<in> fst ` set es. mug k = Some (of_nat i)} \<le> ur_pail_max"
    using sp(1) by (simp add: spread_def)
  ultimately show False
    using i(2) by linarith
qed

lemma dict_grow_entries:
  assumes "entries_ok mug (dict_entries d)" and "spread mug (dom (dict_map d))" and "mugs_31 mug"
    and "0 < prev" and "0 < sz"
  shows "\<exists>d'. dict_grow mug d prev sz = Some d' \<and> dict_inv mug d' \<and> dict_map d' = dict_map d \<and> prev + sz \<le> dict_size d'"
  using assms(4,5)
proof (induction "2 ^ 31 - (prev + sz)" arbitrary: prev sz rule: less_induct)
  case less
  let ?n = "prev + sz"
  have sp: "spread mug (fst ` set (dict_entries d))"
    using assms(2) by (simp add: dict_map_def dom_map_of_conv_image_fst)
  have some: "\<forall>k \<in> fst ` set (dict_entries d). mug k \<noteq> None"
    using assms(1) by (simp add: entries_ok_def)
  show ?case
  proof (cases "dict_move mug ?n (dict_entries d) (replicate ?n pail_zero, replicate ?n 0)")
    case (Moved t)
    obtain buckets fills where t: "t = (buckets, fills)"
      by (cases t)
    show ?thesis
      using moved_inv [OF assms(1) _ less.prems(2) Moved [unfolded t]] less.prems
      by (subst dict_grow.simps) (simp add: Let_def Moved t dict_map_def)
  next
    case Pail_full
    have "?n < 2 ^ 31"
      using full_pail_size [OF assms(1) _ sp assms(3) Pail_full] less.prems by simp
    then have "\<exists>d'. dict_grow mug d sz ?n = Some d' \<and> dict_inv mug d' \<and> dict_map d' = dict_map d \<and> sz + ?n \<le> dict_size d'"
      using less.prems by (intro less.hyps) auto
    then show ?thesis
      using less.prems by (subst dict_grow.simps) (auto simp: Let_def Pail_full)
  next
    case Bad_ref
    have "table_ok ?n (replicate ?n (pail_zero :: 'a ur_pail)) (replicate ?n 0)"
      by (simp add: table_ok_def pail_zero_def)
    from dict_move_cases [OF this _ some] Bad_ref less.prems show ?thesis
      by simp
  qed
qed

section \<open>Search\<close>

lemma pail_search_total: "(\<And>x. x \<in> set refs \<Longrightarrow> eq x \<noteq> None) \<Longrightarrow> pail_search eq refs \<noteq> None"
  by (induction refs) (auto split: option.splits)

lemma pail_search_absent: "(\<And>x. x \<in> set refs \<Longrightarrow> eq x = Some False) \<Longrightarrow> pail_search eq refs = Some None"
  by (induction refs) auto

lemma pail_search_None: "pail_search eq refs = Some None \<Longrightarrow> x \<in> set refs \<Longrightarrow> eq x = Some False"
  by (induction refs) (auto split: option.splits if_splits)

lemma pail_search_Some: "pail_search eq refs = Some (Some i) \<Longrightarrow> i < length refs \<and> eq (refs ! i) = Some True"
  by (induction refs arbitrary: i) (auto split: option.splits if_splits)

lemma pail_search_nth: "distinct refs \<Longrightarrow> i < length refs \<Longrightarrow> pail_search (\<lambda>x. Some (refs ! i = x)) refs = Some (Some i)"
proof (induction refs arbitrary: i)
  case (Cons r refs)
  then show ?case
    by (cases i) auto
qed simp

lemma bucket_shape:
  assumes "dict_inv mug d" and "i < dict_size d"
  shows "map fst (bucket_entries d i) = take (dict_fills d ! i) (pail_refs (dict_buckets d ! i))"
    "length (bucket_entries d i) = dict_fills d ! i" "dict_fills d ! i \<le> ur_pail_max"
    "length (pail_refs (dict_buckets d ! i)) = ur_pail_max" "length (pail_vals (dict_buckets d ! i)) = ur_pail_max"
    "i < length (dict_buckets d)" "i < length (dict_fills d)"
  using dict_inv_simps(3) [OF assms(1)] assms(2) by (auto simp: table_ok_def pail_entries_def)

lemma pail_search_entries:
  assumes "length (pail_vals p) = length (pail_refs p)" and "distinct (take fill (pail_refs p))"
  shows "map_option (map_option (\<lambda>i. pail_vals p ! i)) (pail_search (\<lambda>x. Some (ref = x)) (take fill (pail_refs p))) =
    Some (map_of (pail_entries fill p) ref)"
proof (cases "ref \<in> set (take fill (pail_refs p))")
  case True
  then obtain i where i: "i < length (take fill (pail_refs p))" "take fill (pail_refs p) ! i = ref"
    by (metis in_set_conv_nth)
  have "pail_search (\<lambda>x. Some (ref = x)) (take fill (pail_refs p)) = Some (Some i)"
    using pail_search_nth [OF assms(2) i(1)] i(2) by simp
  moreover have "(ref, pail_vals p ! i) \<in> set (pail_entries fill p)"
    using i assms(1) by (auto simp: pail_entries_def set_zip intro!: exI [of _ i])
  then have "map_of (pail_entries fill p) ref = Some (pail_vals p ! i)"
    using assms by (intro map_of_is_SomeI) (auto simp: fst_pail_entries)
  ultimately show ?thesis
    by simp
next
  case False
  then have "map_of (pail_entries fill p) ref = None"
    unfolding map_of_eq_None_iff using fst_pail_entries [OF assms(1), of fill] by (metis list.set_map)
  moreover have "pail_search (\<lambda>x. Some (ref = x)) (take fill (pail_refs p)) = Some None"
    using False by (intro pail_search_absent) auto
  ultimately show ?thesis
    by simp
qed

lemma dict_get_eq:
  assumes "dict_inv mug d" and "mug ref \<noteq> None"
  shows "dict_get mug d ref = Some (dict_map d ref)"
proof -
  obtain m where m: "mug ref = Some m"
    using assms(2) by blast
  let ?i = "slot_of mug (dict_size d) ref"
  have i: "?i < dict_size d"
    using dict_inv_simps(2) [OF assms(1)] by (simp add: slot_of_def)
  note B = bucket_shape [OF assms(1) i]
  have "distinct (take (dict_fills d ! ?i) (pail_refs (dict_buckets d ! ?i)))"
    using dict_inv_simps(5) [OF assms(1) i] B(1) by simp
  with B show ?thesis
    using pail_search_entries [of "dict_buckets d ! ?i" "dict_fills d ! ?i" ref] m i
    unfolding dict_get_def dict_map_bucket [OF assms(1)] by (simp add: Let_def slot_of_def)
qed

section \<open>Insertion\<close>

definition slot_ok :: "(ur_nref \<Rightarrow> ur_mug option) \<Rightarrow> (ur_nref \<Rightarrow> bool option) \<Rightarrow> ur_mug \<Rightarrow> 'v ur_dict \<Rightarrow> slot \<Rightarrow> bool" where
  "slot_ok mug eq m d s \<longleftrightarrow> (case s of
     Found idx i \<Rightarrow> idx = unat m mod dict_size d \<and> i < dict_fills d ! idx \<and>
       eq (pail_refs (dict_buckets d ! idx) ! i) = Some True
   | Room idx fill \<Rightarrow> idx = unat m mod dict_size d \<and> fill = dict_fills d ! idx \<and> fill < ur_pail_max \<and>
       (\<forall>k \<in> dom (dict_map d). mug k = Some m \<longrightarrow> eq k = Some False))"

lemma bucket_keys:
  assumes "dict_inv mug d" and "i < dict_size d"
  shows "set (take (dict_fills d ! i) (pail_refs (dict_buckets d ! i))) = {k \<in> dom (dict_map d). slot_of mug (dict_size d) k = i}"
proof -
  have "set (take (dict_fills d ! i) (pail_refs (dict_buckets d ! i))) = fst ` set (bucket_entries d i)"
    using bucket_shape(1) [OF assms] by (metis list.set_map)
  also have "\<dots> = {k \<in> dom (dict_map d). slot_of mug (dict_size d) k = i}"
    unfolding dom_dict_map [OF assms(1)] using dict_inv_simps(6) [OF assms(1)] assms(2) by auto
  finally show ?thesis .
qed

text \<open>A full bucket without a match means that the table has fewer than \<open>2^31\<close> buckets.\<close>

lemma full_bucket_size:
  assumes inv: "dict_inv mug d" and "mugs_31 mug" and "unat m < 2 ^ 31"
    and few: "card {k \<in> dom (dict_map d). mug k = Some m} < ur_pail_max"
    and full: "dict_fills d ! (unat m mod dict_size d) = ur_pail_max"
  shows "dict_size d < 2 ^ 31"
proof (rule ccontr)
  assume big: "\<not> dict_size d < 2 ^ 31"
  let ?i = "unat m mod dict_size d"
  have i: "?i < dict_size d"
    using dict_inv_simps(2) [OF inv] by simp
  let ?K = "set (take (dict_fills d ! ?i) (pail_refs (dict_buckets d ! ?i)))"
  have "distinct (take (dict_fills d ! ?i) (pail_refs (dict_buckets d ! ?i)))"
    using dict_inv_simps(5) [OF inv i] bucket_shape(1) [OF inv i] by simp
  then have "card ?K = ur_pail_max"
    using bucket_shape(4) [OF inv i] full by (simp add: distinct_card)
  moreover have "mug k = Some m" if "k \<in> ?K" for k
  proof -
    from that have k: "k \<in> dom (dict_map d)" "slot_of mug (dict_size d) k = ?i"
      unfolding bucket_keys [OF inv i] by auto
    then obtain m' where m': "mug k = Some m'"
      using dict_map_mug [OF inv] by blast
    then have "unat m' < dict_size d" "unat m < dict_size d"
      using assms(2,3) big unfolding mugs_31_def by (meson less_le_trans not_less)+
    with k(2) m' show ?thesis
      by (simp add: slot_of_def word_unat_eq_iff)
  qed
  then have "card ?K \<le> card {k \<in> dom (dict_map d). mug k = Some m}"
    using bucket_keys [OF inv i] finite_dict_map [of d] by (intro card_mono) auto
  ultimately show False
    using few by simp
qed

lemma dict_seek_ok:
  assumes "dict_inv mug d" and sp: "spread mug (dom (dict_map d))" and mugs: "mugs_31 mug" "unat m < 2 ^ 31"
    and eq: "\<And>k. k \<in> dom (dict_map d) \<Longrightarrow> eq k \<noteq> None"
    and few: "card {k \<in> dom (dict_map d). mug k = Some m} < ur_pail_max \<or>
      (\<exists>k \<in> dom (dict_map d). mug k = Some m \<and> eq k = Some True)"
  shows "\<exists>d' s. dict_seek mug eq m d = Some (d', s) \<and> dict_inv mug d' \<and> dict_map d' = dict_map d \<and> slot_ok mug eq m d' s"
  using assms
proof (induction "2 ^ 31 - dict_size d" arbitrary: d rule: less_induct)
  case less
  note inv = less.prems(1)
  let ?i = "unat m mod dict_size d"
  let ?refs = "take (dict_fills d ! ?i) (pail_refs (dict_buckets d ! ?i))"
  have i: "?i < dict_size d"
    using dict_inv_simps(2) [OF inv] by simp
  note B = bucket_shape [OF inv i] and K = bucket_keys [OF inv i]
  have g: "\<not> (dict_size d = 0 \<or> length (dict_buckets d) \<le> ?i)"
    using B(6) i by simp
  note step = dict_seek.simps [of mug eq m d, unfolded Let_def if_not_P [OF g]]
  have "pail_search eq ?refs \<noteq> None"
    using K less.prems(5) by (intro pail_search_total) blast
  then obtain res where "pail_search eq ?refs = Some res"
    by blast
  then consider (found) j where "pail_search eq ?refs = Some (Some j)"
    | (room) "pail_search eq ?refs = Some None" "dict_fills d ! ?i \<noteq> ur_pail_max"
    | (full) "pail_search eq ?refs = Some None" "dict_fills d ! ?i = ur_pail_max"
    by (cases res; blast)
  then show ?case
  proof cases
    case found
    then show ?thesis
      using step inv pail_search_Some [OF found] by (auto simp: slot_ok_def)
  next
    case room
    have "eq k = Some False" if "k \<in> dom (dict_map d)" "mug k = Some m" for k
      using pail_search_None [OF room(1)] K that by (auto simp: slot_of_def)
    then show ?thesis
      using step inv room B(3) by (simp add: slot_ok_def)
  next
    case full
    have no: "\<not> (\<exists>k \<in> dom (dict_map d). mug k = Some m \<and> eq k = Some True)"
      using pail_search_None [OF full(1)] K by (fastforce simp: slot_of_def)
    with less.prems(6) have small: "dict_size d < 2 ^ 31"
      using full_bucket_size [OF inv less.prems(3,4) _ full(2)] by blast
    obtain d' where d': "dict_grow mug d (dict_prev d) (dict_size d) = Some d'" "dict_inv mug d'"
        "dict_map d' = dict_map d" "dict_prev d + dict_size d \<le> dict_size d'"
      using dict_grow_entries [OF dict_inv_entries_ok [OF inv] less.prems(2,3) dict_inv_simps(1,2) [OF inv]] by blast
    have "\<exists>d'' s. dict_seek mug eq m d' = Some (d'', s) \<and> dict_inv mug d'' \<and> dict_map d'' = dict_map d' \<and> slot_ok mug eq m d'' s"
      using small d' dict_inv_simps(1) [OF inv] less.prems by (intro less.hyps) auto
    then show ?thesis
      using step full d' by auto
  qed
qed

lemma found_key:
  assumes "dict_inv mug d" and "slot_ok mug eq m d (Found idx i)"
  shows "pail_refs (dict_buckets d ! idx) ! i \<in> dom (dict_map d)" and "eq (pail_refs (dict_buckets d ! idx) ! i) = Some True"
proof -
  have idx: "idx < dict_size d" "i < dict_fills d ! idx"
    using assms dict_inv_simps(2) [OF assms(1)] by (auto simp: slot_ok_def)
  have "pail_refs (dict_buckets d ! idx) ! i \<in> set (take (dict_fills d ! idx) (pail_refs (dict_buckets d ! idx)))"
    using idx(2) bucket_shape(3,4) [OF assms(1) idx(1)] by (auto simp: in_set_conv_nth)
  then show "pail_refs (dict_buckets d ! idx) ! i \<in> dom (dict_map d)"
    unfolding bucket_keys [OF assms(1) idx(1)] by simp
  show "eq (pail_refs (dict_buckets d ! idx) ! i) = Some True"
    using assms(2) by (auto simp: slot_ok_def)
qed

lemma dict_store_ok:
  assumes inv: "dict_inv mug d" and m: "mug ref = Some m" and new: "ref \<notin> dom (dict_map d)"
    and idx: "idx = unat m mod dict_size d" "fill = dict_fills d ! idx" "fill < ur_pail_max"
  shows "dict_inv mug (dict_store d idx fill ref val)" and "dict_map (dict_store d idx fill ref val) = (dict_map d)(ref \<mapsto> val)"
proof -
  let ?d = "dict_store d idx fill ref val"
  have i: "idx < dict_size d"
    using dict_inv_simps(2) [OF inv] idx by simp
  note table = table_ok_set [OF dict_inv_simps(3) [OF inv] i, where ref = ref and val = val]
  have e: "bucket_entries ?d j = bucket_entries d j @ (if j = idx then [(ref, val)] else [])" if "j < dict_size d" for j
    using table(2) [OF _ that] idx(2,3) by (simp add: dict_store_def)
  have "ref \<notin> fst ` set (bucket_entries d idx)"
    using new dom_dict_map [OF inv] i by blast
  then have b: "distinct (map fst (bucket_entries ?d j)) \<and>
      (\<forall>k \<in> fst ` set (bucket_entries ?d j). mug k \<noteq> None \<and> slot_of mug (dict_size d) k = j)" if "j < dict_size d" for j
    using dict_inv_simps(5,6) [OF inv that] m idx(1) unfolding e [OF that] by (auto simp: slot_of_def)
  have sz: "dict_size ?d = dict_size d" "dict_prev ?d = dict_prev d"
    by (simp_all add: dict_store_def)
  have "table_ok (dict_size d) (dict_buckets ?d) (dict_fills ?d)"
    using table(1) idx(2,3) by (simp add: dict_store_def)
  then show inv': "dict_inv mug ?d"
    unfolding dict_inv_def sz using dict_inv_simps(1,2) [OF inv] b by blast
  show "dict_map ?d = (dict_map d)(ref \<mapsto> val)"
  proof
    fix k
    have s: "slot_of mug (dict_size d) k < dict_size d" "dict_size ?d = dict_size d" "slot_of mug (dict_size d) ref = idx"
      using i m idx(1) by (auto simp: slot_of_def dict_store_def)
    have "map_of (bucket_entries d idx) ref = None"
      using dict_map_bucket [OF inv, of ref] new s(3) by auto
    then show "dict_map ?d k = ((dict_map d)(ref \<mapsto> val)) k"
      unfolding dict_map_bucket [OF inv'] fun_upd_apply dict_map_bucket [OF inv] s(2) e [OF s(1)]
      using s(3) by (auto simp: map_add_def split: option.splits)
  qed
qed

lemma map_of_zip_list_update:
  "distinct xs \<Longrightarrow> length ys = length xs \<Longrightarrow> i < length xs \<Longrightarrow>
    map_of (zip xs (ys[i := y])) = (map_of (zip xs ys))(xs ! i \<mapsto> y)"
proof (induction xs arbitrary: ys i)
  case (Cons x xs)
  then show ?case
    by (cases ys; cases i) (auto simp: fun_eq_iff in_set_conv_nth)
qed simp

lemma pail_entries_set_val:
  assumes "length (pail_vals p) = length (pail_refs p)" and "distinct (take fill (pail_refs p))"
    and "i < fill" and "fill \<le> length (pail_refs p)"
  shows "map_of (pail_entries fill (p\<lparr>pail_vals := (pail_vals p)[i := val]\<rparr>)) =
    (map_of (pail_entries fill p))(pail_refs p ! i \<mapsto> val)"
proof -
  have "take fill ((pail_vals p)[i := val]) = (take fill (pail_vals p))[i := val]"
    using assms(3) by (simp add: take_update_swap)
  then show ?thesis
    using assms by (simp add: pail_entries_def map_of_zip_list_update)
qed

lemma dict_set_val_ok:
  fixes val :: "'v::zero"
  assumes inv: "dict_inv mug d" and idx: "idx < dict_size d" "i < dict_fills d ! idx"
    and ref: "pail_refs (dict_buckets d ! idx) ! i = ref"
  defines "d' \<equiv> d\<lparr>dict_buckets := (dict_buckets d)
    [idx := (dict_buckets d ! idx)\<lparr>pail_vals := (pail_vals (dict_buckets d ! idx))[i := val]\<rparr>]\<rparr>"
  shows "dict_inv mug d'" and "dict_map d' = (dict_map d)(ref \<mapsto> val)"
proof -
  let ?p = "dict_buckets d ! idx"
  note B = bucket_shape [OF inv idx(1)]
  have e: "bucket_entries d' j = (if j = idx
      then pail_entries (dict_fills d ! idx) (?p\<lparr>pail_vals := (pail_vals ?p)[i := val]\<rparr>)
      else bucket_entries d j)" for j
    using B(6) by (auto simp: d'_def nth_list_update)
  have fst: "map fst (bucket_entries d' j) = map fst (bucket_entries d j)" for j
    unfolding e using B(4,5) by (simp add: fst_pail_entries)
  have sz: "dict_size d' = dict_size d" "dict_prev d' = dict_prev d" "dict_fills d' = dict_fills d"
    by (simp_all add: d'_def)
  have t: "table_ok (dict_size d) (dict_buckets d') (dict_fills d)"
    using dict_inv_simps(3) [OF inv] idx(1) by (auto simp: table_ok_def d'_def nth_list_update)
  have "fst ` set (bucket_entries d' j) = fst ` set (bucket_entries d j)" for j
    using fst [of j] by (metis list.set_map)
  then show inv': "dict_inv mug d'"
    using inv t fst unfolding dict_inv_def sz by simp
  have "distinct (take (dict_fills d ! idx) (pail_refs ?p))"
    using dict_inv_simps(5) [OF inv idx(1)] B(1) by simp
  then have u: "map_of (bucket_entries d' idx) = (map_of (bucket_entries d idx))(ref \<mapsto> val)"
    using pail_entries_set_val [of ?p "dict_fills d ! idx" i val] B idx(2) ref by (simp add: e)
  have "ref \<in> set (take (dict_fills d ! idx) (pail_refs ?p))"
    using ref idx(2) B(3,4) by (auto simp: in_set_conv_nth)
  then have r: "slot_of mug (dict_size d) ref = idx"
    using bucket_keys [OF inv idx(1)] by auto
  show "dict_map d' = (dict_map d)(ref \<mapsto> val)"
  proof
    fix k
    show "dict_map d' k = ((dict_map d)(ref \<mapsto> val)) k"
    proof (cases "slot_of mug (dict_size d) k = idx")
      case True
      then show ?thesis
        unfolding dict_map_bucket [OF inv'] fun_upd_apply dict_map_bucket [OF inv] sz(1) by (simp add: u)
    next
      case False
      then have "k \<noteq> ref"
        using r by blast
      with False show ?thesis
        unfolding dict_map_bucket [OF inv'] fun_upd_apply dict_map_bucket [OF inv] sz(1) by (simp add: e)
    qed
  qed
qed

theorem dict_put_ok:
  assumes inv: "dict_inv mug d" and m: "mug ref = Some m" and mugs: "mugs_31 mug"
    and sp: "spread mug (insert ref (dom (dict_map d)))"
  shows "\<exists>d'. dict_put mug d ref val = Some d' \<and> dict_inv mug d' \<and> dict_map d' = (dict_map d)(ref \<mapsto> val)"
proof -
  let ?eq = "\<lambda>x. Some (ref = x)" and ?K = "{k \<in> dom (dict_map d). mug k = Some m}"
  have sp': "spread mug (dom (dict_map d))"
    using spread_mono [OF sp] finite_dict_map [of d] by auto
  have "card (insert ref ?K) \<le> card {k \<in> insert ref (dom (dict_map d)). mug k = Some m}"
    using m finite_dict_map [of d] by (intro card_mono) auto
  also have "\<dots> \<le> ur_pail_max"
    using sp by (simp add: spread_def)
  finally have "card ?K < ur_pail_max \<or> ref \<in> ?K"
    using finite_dict_map [of d] by (cases "ref \<in> ?K") auto
  then have few: "card ?K < ur_pail_max \<or> (\<exists>k \<in> dom (dict_map d). mug k = Some m \<and> ?eq k = Some True)"
    by auto
  have "unat m < 2 ^ 31"
    using mugs m by (simp add: mugs_31_def)
  from dict_seek_ok [OF inv sp' mugs this _ few] obtain d1 s where
    s: "dict_seek mug ?eq m d = Some (d1, s)" "dict_inv mug d1" "dict_map d1 = dict_map d" "slot_ok mug ?eq m d1 s"
    by auto
  have lt: "unat m mod dict_size d1 < dict_size d1"
    using dict_inv_simps(2) [OF s(2)] by simp
  show ?thesis
  proof (cases s)
    case (Found idx i)
    then have "idx < dict_size d1" "i < dict_fills d1 ! idx" "pail_refs (dict_buckets d1 ! idx) ! i = ref"
      using s(4) lt by (auto simp: slot_ok_def)
    from dict_set_val_ok [OF s(2) this, of val] Found s m show ?thesis
      by (simp add: dict_put_def Let_def)
  next
    case (Room idx fill)
    then have "idx = unat m mod dict_size d1" "fill = dict_fills d1 ! idx" "fill < ur_pail_max" "ref \<notin> dom (dict_map d1)"
      using s(3,4) m by (auto simp: slot_ok_def)
    with dict_store_ok [OF s(2) m, of idx fill val] Room s m show ?thesis
      by (simp add: dict_put_def)
  qed
qed

lemma dict_wipe_ok:
  assumes "dict_inv mug d"
  shows "dict_inv mug (dict_wipe d)" and "dict_map (dict_wipe d) = Map.empty"
proof -
  have "bucket_entries (dict_wipe d) i = []" if "i < dict_size d" for i
    using that by (simp add: dict_wipe_def pail_entries_def)
  then show "dict_inv mug (dict_wipe d)" "dict_map (dict_wipe d) = Map.empty"
    using assms by (auto simp: dict_inv_def dict_map_def dict_entries_def dict_wipe_def table_ok_def)
qed

text \<open>The invariant only depends on the mugs of the keys.\<close>

lemma dict_inv_cong:
  assumes "dict_inv mug d" and "\<And>k. k \<in> dom (dict_map d) \<Longrightarrow> mug' k = mug k"
  shows "dict_inv mug' d"
proof -
  have "mug' k = mug k" if "i < dict_size d" "k \<in> fst ` set (bucket_entries d i)" for i k
    using that assms(2) dom_dict_map [OF assms(1)] by blast
  then show ?thesis
    using assms(1) unfolding dict_inv_def slot_of_def by auto
qed

text \<open>A zeroed dictionary becomes an empty one.\<close>

lemma dict_grow_zero:
  assumes "0 < prev" and "0 < sz" and "mugs_31 mug"
  shows "\<exists>d. dict_grow mug dict_zero prev sz = Some d \<and> dict_inv mug d \<and> dict_map d = Map.empty"
proof -
  have e: "dict_entries dict_zero = ([] :: (ur_nref \<times> 'a) list)"
    by (simp add: dict_entries_def dict_zero_def)
  then show ?thesis
    using dict_grow_entries [of mug "dict_zero :: 'a ur_dict", OF _ _ assms(3,1,2)]
    by (auto simp: entries_ok_def dict_map_def spread_def)
qed

section \<open>The interface\<close>

text \<open>
  What the users of a dictionary rely on: lookups and updates of known references do what the
  map \<open>abs\<close> says, as long as the dictionary's key set \<open>fits\<close>.
\<close>

locale noun_dict =
  fixes get :: "'d \<Rightarrow> ur_nref \<Rightarrow> 'v option option"
    and put :: "'d \<Rightarrow> ur_nref \<Rightarrow> 'v \<Rightarrow> 'd option"
    and wipe :: "'d \<Rightarrow> 'd"
    and inv :: "'d \<Rightarrow> bool"
    and abs :: "'d \<Rightarrow> ur_nref \<rightharpoonup> 'v"
    and fits :: "ur_nref set \<Rightarrow> bool"
    and known :: "ur_nref \<Rightarrow> bool"
  assumes get: "inv d \<Longrightarrow> known k \<Longrightarrow> get d k = Some (abs d k)"
    and put: "inv d \<Longrightarrow> known k \<Longrightarrow> fits (insert k (dom (abs d))) \<Longrightarrow>
      \<exists>d'. put d k v = Some d' \<and> inv d' \<and> abs d' = (abs d)(k \<mapsto> v)"
    and wipe: "inv d \<Longrightarrow> inv (wipe d)" "inv d \<Longrightarrow> abs (wipe d) = Map.empty"
    and fits_subset: "fits K \<Longrightarrow> K' \<subseteq> K \<Longrightarrow> fits K'"
begin

text \<open>An update whose keys stay inside a set that fits.\<close>

lemma put_within:
  assumes "inv d" and "known k" and "fits K" and "dom (abs d) \<subseteq> K" and "k \<in> K"
  obtains d' where "put d k v = Some d'" and "inv d'" and "abs d' = (abs d)(k \<mapsto> v)" and "dom (abs d') \<subseteq> K"
proof -
  have "fits (insert k (dom (abs d)))"
    by (rule fits_subset [OF assms(3)]) (use assms(4,5) in auto)
  from put [OF assms(1,2) this] that assms(4,5) show ?thesis
    by (metis dom_fun_upd insert_subset option.distinct(1))
qed

lemma get_put:
  assumes "inv d" and "known k" and "fits (insert k (dom (abs d)))" and "put d k v = Some d'" and "known k'"
  shows "get d' k' = Some (if k' = k then Some v else abs d k')"
  using put [OF assms(1-3), of v] assms(4,5) get by auto

lemma get_wipe: "inv d \<Longrightarrow> known k \<Longrightarrow> get (wipe d) k = Some None"
  using wipe get by simp

end

definition dict_ok :: "(ur_nref \<Rightarrow> ur_mug option) \<Rightarrow> 'v ur_dict \<Rightarrow> bool" where
  "dict_ok mug d \<longleftrightarrow> mugs_31 mug \<and> dict_inv mug d"

interpretation dict: noun_dict "dict_get mug" "dict_put mug" dict_wipe "dict_ok mug" dict_map
  "\<lambda>K. finite K \<and> spread mug K" "\<lambda>k. mug k \<noteq> None" for mug
proof unfold_locales
  fix d :: "'a ur_dict" and k v
  assume d: "dict_ok mug d" and k: "mug k \<noteq> None"
  show "dict_get mug d k = Some (dict_map d k)"
    using d k by (simp add: dict_ok_def dict_get_eq)
  assume "finite (insert k (dom (dict_map d))) \<and> spread mug (insert k (dom (dict_map d)))"
  then show "\<exists>d'. dict_put mug d k v = Some d' \<and> dict_ok mug d' \<and> dict_map d' = (dict_map d)(k \<mapsto> v)"
    using d k dict_put_ok [of mug d k] unfolding dict_ok_def by blast
next
  fix d :: "'a ur_dict"
  assume "dict_ok mug d"
  then show "dict_ok mug (dict_wipe d)" "dict_map (dict_wipe d) = Map.empty"
    using dict_wipe_ok unfolding dict_ok_def by blast+
qed (auto intro: spread_mono finite_subset)

end
