(* ===== verification/Ur_Hashcons.thy ===== *)
theory Ur_Hashcons
  imports Ur_Dict
begin

text \<open>
  The noun arena of \<^verbatim>\<open>pkg/ur/hashcons.c\<close>: deduplicated atoms, hash-consed cells, their stored
  mugs, and the three typed dictionaries.

  The parallel arrays of an arena are lists of their initialised entries, so the counter \<^verbatim>\<open>fill\<close>
  is the length of these lists; \<^verbatim>\<open>size\<close> and \<^verbatim>\<open>prev\<close> are the allocated sizes. An operation returns
  \<open>None\<close> where the code fails an assertion, accesses an array outside of its bounds, has no
  defined behaviour, or does not return.
\<close>

section \<open>State\<close>

record ur_cells_t =
  cells_dict :: ur_dict_t
  cells_prev :: nat
  cells_size :: nat
  cells_mugs :: "ur_mug list"
  cells_heads :: "ur_nref list"
  cells_tails :: "ur_nref list"

record ur_atoms_t =
  atoms_dict :: ur_dict_t
  atoms_prev :: nat
  atoms_size :: nat
  atoms_mugs :: "ur_mug list"
  atoms_bytes :: "byte list list"
  atoms_lens :: "nat list"

record ur_root_t =
  root_cells :: ur_cells_t
  root_atoms :: ur_atoms_t

definition cells_fill :: "ur_cells_t \<Rightarrow> nat" where
  "cells_fill c = length (cells_mugs c)"

definition atoms_fill :: "ur_atoms_t \<Rightarrow> nat" where
  "atoms_fill a = length (atoms_mugs a)"

section \<open>Reading references\<close>

text \<open>The arena may be the null pointer (\<open>None\<close>) when all references are direct.\<close>

definition ur_nref_mug :: "murmur \<Rightarrow> ur_root_t option \<Rightarrow> ur_nref \<Rightarrow> ur_mug option" where
  "ur_nref_mug murmur r ref =
     (if ur_nref_tag ref = ur_direct then Some (ur_mug64 murmur ref)
      else if ur_nref_tag ref = ur_iatom then Option.bind r (\<lambda>r. nth_opt (atoms_mugs (root_atoms r)) (ur_nref_idx ref))
      else if ur_nref_tag ref = ur_icell then Option.bind r (\<lambda>r. nth_opt (cells_mugs (root_cells r)) (ur_nref_idx ref))
      else None)"

definition ur_deep :: "ur_nref \<Rightarrow> bool" where
  "ur_deep ref \<longleftrightarrow> ur_nref_tag ref = ur_icell"

definition ur_head :: "ur_root_t \<Rightarrow> ur_nref \<Rightarrow> ur_nref option" where
  "ur_head r ref = (if ur_deep ref then nth_opt (cells_heads (root_cells r)) (ur_nref_idx ref) else None)"

definition ur_tail :: "ur_root_t \<Rightarrow> ur_nref \<Rightarrow> ur_nref option" where
  "ur_tail r ref = (if ur_deep ref then nth_opt (cells_tails (root_cells r)) (ur_nref_idx ref) else None)"

text \<open>
  The bytes and the length of an atom. For a direct atom the code returns a pointer to its own
  parameter, which ends with the call; these are the bytes the pointer has while it lives.
\<close>

definition ur_bytes :: "ur_root_t \<Rightarrow> ur_nref \<Rightarrow> (byte list \<times> nat) option" where
  "ur_bytes r ref =
     (if ur_nref_tag ref = ur_direct then Some (le_bytes 8 ref, ur_met3_64 ref)
      else if ur_nref_tag ref = ur_iatom then
        (let idx = ur_nref_idx ref
         in if idx < atoms_fill (root_atoms r)
            then Some (atoms_bytes (root_atoms r) ! idx, atoms_lens (root_atoms r) ! idx) else None)
      else None)"

definition ur_met :: "ur_root_t \<Rightarrow> nat \<Rightarrow> ur_nref \<Rightarrow> nat option" where
  "ur_met r bloq ref =
     (if ur_deep ref then None
      else Option.bind
        (if ur_nref_tag ref = ur_direct then Some (ur_met0_64 ref)
         else if ur_nref_idx ref < atoms_fill (root_atoms r)
         then ur_met0_bytes_unsafe (atoms_lens (root_atoms r) ! ur_nref_idx ref) (atoms_bytes (root_atoms r) ! ur_nref_idx ref)
         else None)
        (\<lambda>m_bit.
           if bloq = 0 then Some m_bit
           else if bloq = 1 then Some (ur_bloq_up1 m_bit)
           else if bloq = 2 then Some (ur_bloq_up2 m_bit)
           else if bloq = 3 then Some (ur_bloq_up3 m_bit)
           else let m_byt = ur_bloq_up3 m_bit; off = bloq - 3
                in if off < 64 then Some (u64 (m_byt + (2 ^ off - 1)) div 2 ^ off) else None))"

section \<open>The typed dictionaries\<close>

definition ur_dict32_grow :: "murmur \<Rightarrow> ur_root_t option \<Rightarrow> ur_dict32_t \<Rightarrow> nat \<Rightarrow> nat \<Rightarrow> ur_dict32_t option" where
  "ur_dict32_grow murmur r = dict_grow (ur_nref_mug murmur r)"

definition ur_dict32_get :: "murmur \<Rightarrow> ur_root_t option \<Rightarrow> ur_dict32_t \<Rightarrow> ur_nref \<Rightarrow> u32 option option" where
  "ur_dict32_get murmur r = dict_get (ur_nref_mug murmur r)"

definition ur_dict32_put :: "murmur \<Rightarrow> ur_root_t option \<Rightarrow> ur_dict32_t \<Rightarrow> ur_nref \<Rightarrow> u32 \<Rightarrow> ur_dict32_t option" where
  "ur_dict32_put murmur r = dict_put (ur_nref_mug murmur r)"

definition ur_dict32_wipe :: "ur_dict32_t \<Rightarrow> ur_dict32_t" where
  "ur_dict32_wipe = dict_wipe"

definition ur_dict64_grow :: "murmur \<Rightarrow> ur_root_t option \<Rightarrow> ur_dict64_t \<Rightarrow> nat \<Rightarrow> nat \<Rightarrow> ur_dict64_t option" where
  "ur_dict64_grow murmur r = dict_grow (ur_nref_mug murmur r)"

definition ur_dict64_get :: "murmur \<Rightarrow> ur_root_t option \<Rightarrow> ur_dict64_t \<Rightarrow> ur_nref \<Rightarrow> u64 option option" where
  "ur_dict64_get murmur r = dict_get (ur_nref_mug murmur r)"

definition ur_dict64_put :: "murmur \<Rightarrow> ur_root_t option \<Rightarrow> ur_dict64_t \<Rightarrow> ur_nref \<Rightarrow> u64 \<Rightarrow> ur_dict64_t option" where
  "ur_dict64_put murmur r = dict_put (ur_nref_mug murmur r)"

definition ur_dict64_wipe :: "ur_dict64_t \<Rightarrow> ur_dict64_t" where
  "ur_dict64_wipe = dict_wipe"

definition ur_dict_grow :: "murmur \<Rightarrow> ur_root_t option \<Rightarrow> ur_dict_t \<Rightarrow> nat \<Rightarrow> nat \<Rightarrow> ur_dict_t option" where
  "ur_dict_grow murmur r = dict_grow (ur_nref_mug murmur r)"

definition ur_dict_get :: "murmur \<Rightarrow> ur_root_t option \<Rightarrow> ur_dict_t \<Rightarrow> ur_nref \<Rightarrow> bool option" where
  "ur_dict_get murmur r d ref = map_option (\<lambda>v. v \<noteq> None) (dict_get (ur_nref_mug murmur r) d ref)"

definition ur_dict_put :: "murmur \<Rightarrow> ur_root_t option \<Rightarrow> ur_dict_t \<Rightarrow> ur_nref \<Rightarrow> ur_dict_t option" where
  "ur_dict_put murmur r d ref = dict_put (ur_nref_mug murmur r) d ref ()"

definition ur_dict_wipe :: "ur_dict_t \<Rightarrow> ur_dict_t" where
  "ur_dict_wipe = dict_wipe"

section \<open>Allocation of atoms and cells\<close>

definition ur_atoms_grow :: "ur_atoms_t \<Rightarrow> ur_atoms_t" where
  "ur_atoms_grow atoms =
     (let next = atoms_prev atoms + atoms_size atoms
      in atoms\<lparr>atoms_prev := atoms_size atoms, atoms_size := next\<rparr>)"

definition ur_cells_grow :: "ur_cells_t \<Rightarrow> ur_cells_t" where
  "ur_cells_grow cells =
     (let next = cells_prev cells + cells_size cells
      in cells\<lparr>cells_prev := cells_size cells, cells_size := next\<rparr>)"

definition coin_unsafe :: "ur_atoms_t \<Rightarrow> ur_mug \<Rightarrow> nat \<Rightarrow> byte list \<Rightarrow> (ur_nref \<times> ur_atoms_t) option" where
  "coin_unsafe atoms mug len byt =
     (let fill = atoms_fill atoms; tom = nref_of ur_iatom fill
      in if ur_met0_64 (of_nat fill) \<le> 62 \<and> fill < atoms_size atoms
         then Some (tom, atoms\<lparr>atoms_bytes := atoms_bytes atoms @ [byt], atoms_lens := atoms_lens atoms @ [len],
                             atoms_mugs := atoms_mugs atoms @ [mug]\<rparr>)
         else None)"

definition cons_unsafe :: "ur_cells_t \<Rightarrow> ur_mug \<Rightarrow> ur_nref \<Rightarrow> ur_nref \<Rightarrow> (ur_nref \<times> ur_cells_t) option" where
  "cons_unsafe cells mug hed tal =
     (let fill = cells_fill cells; cel = nref_of ur_icell fill
      in if ur_met0_64 (of_nat fill) \<le> 62 \<and> fill < cells_size cells
         then Some (cel, cells\<lparr>cells_mugs := cells_mugs cells @ [mug], cells_heads := cells_heads cells @ [hed],
                             cells_tails := cells_tails cells @ [tal]\<rparr>)
         else None)"

definition ur_coin_bytes_unsafe :: "murmur \<Rightarrow> ur_root_t \<Rightarrow> nat \<Rightarrow> byte list \<Rightarrow> (ur_nref \<times> ur_root_t) option" where
  "ur_coin_bytes_unsafe murmur r len byt =
     (let atoms = root_atoms r; mug = ur_mug_bytes murmur byt len;
          same = (\<lambda>tom. map_option (\<lambda>(t_byt, t_len). t_len = len \<and> take len t_byt = take len byt) (ur_bytes r tom))
      in case dict_seek (ur_nref_mug murmur (Some r)) same mug (atoms_dict atoms) of
           None \<Rightarrow> None
         | Some (dict, Found idx i) \<Rightarrow>
             Some (pail_refs (dict_buckets dict ! idx) ! i, r\<lparr>root_atoms := atoms\<lparr>atoms_dict := dict\<rparr>\<rparr>)
         | Some (dict, Room idx b_fill) \<Rightarrow>
             let atoms = (if atoms_fill atoms = atoms_size atoms then ur_atoms_grow atoms else atoms)
             in map_option (\<lambda>(tom, atoms). (tom, r\<lparr>root_atoms := atoms\<lparr>atoms_dict := dict_store dict idx b_fill tom ()\<rparr>\<rparr>))
                  (coin_unsafe atoms mug len byt))"

fun strip_zeros :: "nat \<Rightarrow> byte list \<Rightarrow> nat" where
  "strip_zeros 0 byt = 0"
| "strip_zeros (Suc n) byt = (if byt ! n = 0 then strip_zeros n byt else Suc n)"

text \<open>
  The loop \<^verbatim>\<open>direct |= byt[i] << (8 * i)\<close>: a byte is promoted to a 32-bit \<^verbatim>\<open>int\<close> before the shift, so
  a shift by 32 or more, or into the sign bit, is undefined.
\<close>

fun coin_direct :: "byte list \<Rightarrow> nat \<Rightarrow> u64 \<Rightarrow> u64 option" where
  "coin_direct [] i direct = Some direct"
| "coin_direct (b # bs) i direct =
     (if i < 4 \<and> unat b * 2 ^ (8 * i) < 2 ^ 31
      then coin_direct bs (i + 1) (direct OR of_nat (unat b * 2 ^ (8 * i))) else None)"

definition ur_coin_bytes :: "murmur \<Rightarrow> ur_root_t \<Rightarrow> nat \<Rightarrow> byte list \<Rightarrow> (ur_nref \<times> ur_root_t) option" where
  "ur_coin_bytes murmur r len0 byt =
     (let len = strip_zeros len0 byt
      in case ur_met0_bytes_unsafe len byt of
           None \<Rightarrow> None
         | Some m \<Rightarrow>
             if m \<le> 62 then map_option (\<lambda>direct. (direct, r)) (coin_direct (take len byt) 0 0)
             else ur_coin_bytes_unsafe murmur r len (take len byt))"

definition ur_coin64 :: "murmur \<Rightarrow> ur_root_t \<Rightarrow> u64 \<Rightarrow> (ur_nref \<times> ur_root_t) option" where
  "ur_coin64 murmur r n =
     (if ur_nref_tag n = ur_direct then Some (n, r)
      else if ur_met3_64 n = 8 then ur_coin_bytes_unsafe murmur r 8 (le_bytes 8 n)
      else None)"

definition ur_cons :: "murmur \<Rightarrow> ur_root_t \<Rightarrow> ur_nref \<Rightarrow> ur_nref \<Rightarrow> (ur_nref \<times> ur_root_t) option" where
  "ur_cons murmur r hed tal =
     (case (ur_nref_mug murmur (Some r) hed, ur_nref_mug murmur (Some r) tal) of
        (Some hm, Some tm) \<Rightarrow>
          (let cells = root_cells r; mug = ur_mug_both murmur hm tm;
               same = (\<lambda>cel. Option.bind (ur_head r cel) (\<lambda>h.
                 if hed = h then Option.bind (ur_tail r cel) (\<lambda>t. Some (tal = t)) else Some False))
           in case dict_seek (ur_nref_mug murmur (Some r)) same mug (cells_dict cells) of
                None \<Rightarrow> None
              | Some (dict, Found idx i) \<Rightarrow>
                  Some (pail_refs (dict_buckets dict ! idx) ! i, r\<lparr>root_cells := cells\<lparr>cells_dict := dict\<rparr>\<rparr>)
              | Some (dict, Room idx b_fill) \<Rightarrow>
                  let cells = (if cells_fill cells = cells_size cells then ur_cells_grow cells else cells)
                  in map_option (\<lambda>(cel, cells). (cel, r\<lparr>root_cells := cells\<lparr>cells_dict := dict_store dict idx b_fill cel ()\<rparr>\<rparr>))
                       (cons_unsafe cells mug hed tal))
      | _ \<Rightarrow> None)"

section \<open>Arena setup\<close>

definition root_zero :: ur_root_t where
  "root_zero =
     \<lparr>root_cells = \<lparr>cells_dict = dict_zero, cells_prev = 0, cells_size = 0, cells_mugs = [], cells_heads = [],
                    cells_tails = []\<rparr>,
      root_atoms = \<lparr>atoms_dict = dict_zero, atoms_prev = 0, atoms_size = 0, atoms_mugs = [], atoms_bytes = [],
                    atoms_lens = []\<rparr>\<rparr>"

definition ur_root_init :: "murmur \<Rightarrow> ur_root_t option" where
  "ur_root_init murmur =
     (let r = root_zero;
          r = r\<lparr>root_atoms := ur_atoms_grow ((root_atoms r)\<lparr>atoms_prev := ur_fib11, atoms_size := ur_fib12\<rparr>)\<rparr>
      in Option.bind (ur_dict_grow murmur (Some r) (atoms_dict (root_atoms r)) ur_fib11 ur_fib12) (\<lambda>dict.
         let r = r\<lparr>root_atoms := (root_atoms r)\<lparr>atoms_dict := dict\<rparr>\<rparr>;
             r = r\<lparr>root_cells := ur_cells_grow ((root_cells r)\<lparr>cells_prev := ur_fib11, cells_size := ur_fib12\<rparr>)\<rparr>
         in Option.bind (ur_dict_grow murmur (Some r) (cells_dict (root_cells r)) ur_fib11 ur_fib12) (\<lambda>dict.
            Some (r\<lparr>root_cells := (root_cells r)\<lparr>cells_dict := dict\<rparr>\<rparr>))))"

record ur_nvec_t =
  nvec_fill :: nat
  nvec_refs :: "ur_nref list"

definition ur_nvec_init :: "nat \<Rightarrow> ur_nvec_t" where
  "ur_nvec_init sz = \<lparr>nvec_fill = 0, nvec_refs = replicate sz 0\<rparr>"

end
