(* ===== verification/Ur_Arena.thy ===== *)
theory Ur_Arena
  imports Ur_Hashcons
begin

text \<open>
  What the references of an arena mean, the invariant of an arena, and the correctness of
  allocation in it: nouns as abstract values, the noun a reference denotes, uniqueness of
  references, and find-or-insert for atoms and cells.
\<close>

section \<open>Byte arrays as numbers\<close>

definition bytes_val :: "nat \<Rightarrow> byte list \<Rightarrow> nat" where
  "bytes_val len byt = bits_val (mbits (lmem byt) 0 (8 * len))"

text \<open>The bytes of a number, least significant byte first, without trailing null bytes.\<close>

definition nat_bytes :: "nat \<Rightarrow> byte list" where
  "nat_bytes a = map (\<lambda>i. of_nat (drop_bit (8 * i) a)) [0..<(met0 a + 7) div 8]"

definition atom_ok :: "nat \<Rightarrow> byte list \<Rightarrow> bool" where
  "atom_ok len byt \<longleftrightarrow> 0 < len \<and> len \<le> length byt \<and> byt ! (len - 1) \<noteq> 0"

lemma bit_bytes_val: "bit (bytes_val len byt) i \<longleftrightarrow> i < 8 * len \<and> mbit (lmem byt) i"
  by (auto simp: bytes_val_def bit_horner_sum_bit_iff)

lemma bytes_val_less: "bytes_val len byt < 2 ^ (8 * len)"
  using bits_val_less [of "mbits (lmem byt) 0 (8 * len)"] by (simp add: bytes_val_def)

lemma met0_bytes_val:
  assumes "atom_ok len byt"
  shows "met0 (bytes_val len byt) = 8 * (len - 1) + met0 (unat (byt ! (len - 1)))"
proof -
  let ?b = "byt ! (len - 1)" and ?v = "bytes_val len byt"
  have l: "0 < len" "len \<le> length byt" "0 < unat ?b"
    using assms by (auto simp: atom_ok_def unat_gt_0)
  have b: "bit ?v (8 * (len - 1) + r) \<longleftrightarrow> bit (unat ?b) r" if "r < 8" for r
    using l that by (auto simp: bit_bytes_val mbit_byte lmem_def bit_unsigned_iff)
  let ?m = "met0 (unat ?b)"
  have m: "0 < ?m" "?m \<le> 8"
    using l(3) met0_unat_le [of ?b] by (auto simp: met0_pos)
  have "bit ?v (8 * (len - 1) + (?m - 1))"
    using b [of "?m - 1"] m met0_top_bit [OF l(3)] by simp
  then have "8 * (len - 1) + ?m \<le> met0 ?v"
    using bit_imp_less_met0 [of ?v "8 * (len - 1) + (?m - 1)"] m by simp
  moreover have "?v < 2 ^ (8 * (len - 1) + ?m)"
  proof -
    have "take_bit (8 * (len - 1) + ?m) ?v = ?v"
    proof (rule bit_eqI)
      fix i
      show "bit (take_bit (8 * (len - 1) + ?m) ?v) i = bit ?v i"
      proof (cases "i < 8 * (len - 1) + ?m")
        case False
        define r where "r = i - 8 * (len - 1)"
        have r: "i = 8 * (len - 1) + r" "?m \<le> r"
          using False by (simp_all add: r_def)
        have "\<not> bit ?v i"
        proof
          assume "bit ?v i"
          then have "i < 8 * len"
            by (simp add: bit_bytes_val)
          then have "r < 8"
            using r(1) l(1) by linarith
          then have "bit (unat ?b) r"
            using b r(1) \<open>bit ?v i\<close> by simp
          then show False
            using bit_imp_less_met0 r(2) by fastforce
        qed
        then show ?thesis
          by (simp add: bit_take_bit_iff)
      qed (simp add: bit_take_bit_iff)
    qed
    then show ?thesis
      by (metis take_bit_nat_less_exp)
  qed
  then have "met0 ?v \<le> 8 * (len - 1) + ?m"
    by (simp add: met0_le_iff)
  ultimately show ?thesis
    by simp
qed

lemma nat_bytes_val:
  assumes "atom_ok len byt"
  shows "nat_bytes (bytes_val len byt) = take len byt"
proof (rule nth_equalityI)
  let ?b = "byt ! (len - 1)"
  have l: "0 < len" "len \<le> length byt" "0 < unat ?b"
    using assms by (auto simp: atom_ok_def unat_gt_0)
  have "0 < met0 (unat ?b)" "met0 (unat ?b) \<le> 8"
    using l(3) met0_unat_le [of ?b] by (auto simp: met0_pos)
  then have n: "(met0 (bytes_val len byt) + 7) div 8 = len"
    using met0_bytes_val [OF assms] l(1) by (simp add: algebra_simps)
  then show "length (nat_bytes (bytes_val len byt)) = length (take len byt)"
    using l(2) by (simp add: nat_bytes_def)
  fix i
  assume "i < length (nat_bytes (bytes_val len byt))"
  then have i: "i < len"
    using n by (simp add: nat_bytes_def)
  have "(of_nat (drop_bit (8 * i) (bytes_val len byt)) :: byte) = byt ! i"
    by (rule bit_word_eqI)
      (use i l(2) in \<open>auto simp: bit_of_nat_iff bit_drop_bit_eq bit_bytes_val mbit_byte lmem_def\<close>)
  then show "nat_bytes (bytes_val len byt) ! i = take len byt ! i"
    using i n by (simp add: nat_bytes_def)
qed

lemma bytes_val_inj:
  assumes "atom_ok len byt" and "atom_ok len' byt'" and "bytes_val len byt = bytes_val len' byt'"
  shows "len = len'" and "take len byt = take len' byt'"
proof -
  show "take len byt = take len' byt'"
    using nat_bytes_val assms by metis
  then have "length (take len byt) = length (take len' byt')"
    by simp
  then show "len = len'"
    using assms by (simp add: atom_ok_def)
qed

lemma take_le_bytes: "take (ur_met3_64 x) (le_bytes 8 x) = nat_bytes (unat x)"
proof -
  have "(met0 (unat x) + 7) div 8 \<le> 8"
    using met0_unat_le [of x] by simp
  moreover have "(ucast (drop_bit (8 * i) x) :: byte) = of_nat (drop_bit (8 * i) (unat x))" for i
    by (metis of_nat_unat unat_drop_bit_eq)
  ultimately show ?thesis
    by (simp add: ur_met3_64_def ur_bloq_up3_def ur_met0_simps le_bytes_def nat_bytes_def take_map)
qed

section \<open>Nouns\<close>

datatype noun = Atom nat | Cell noun noun

primrec subnouns :: "noun \<Rightarrow> noun set" where
  "subnouns (Atom a) = {Atom a}"
| "subnouns (Cell h t) = insert (Cell h t) (subnouns h \<union> subnouns t)"

lemma subnouns_refl [simp]: "n \<in> subnouns n"
  by (cases n) auto

lemma finite_subnouns [simp]: "finite (subnouns n)"
  by (induction n) auto

primrec noun_mug :: "murmur \<Rightarrow> noun \<Rightarrow> ur_mug" where
  "noun_mug murmur (Atom a) = ur_mug_bytes murmur (nat_bytes a) (length (nat_bytes a))"
| "noun_mug murmur (Cell h t) = ur_mug_both murmur (noun_mug murmur h) (noun_mug murmur t)"

lemma noun_mug_ok: "mug_ok (noun_mug murmur n)"
  by (cases n) (simp_all add: ur_mug_bytes_ok ur_mug_both_ok)

lemma ur_mug_bytes_take: "len \<le> length byt \<Longrightarrow> ur_mug_bytes murmur byt len = ur_mug_bytes murmur (take len byt) (length (take len byt))"
  by (simp add: ur_mug_bytes_def min_def)

text \<open>The noun a reference denotes.\<close>

inductive den :: "ur_root_t \<Rightarrow> ur_nref \<Rightarrow> noun \<Rightarrow> bool" for r where
  direct: "ur_nref_tag ref = ur_direct \<Longrightarrow> den r ref (Atom (unat ref))"
| iatom: "ur_nref_tag ref = ur_iatom \<Longrightarrow> ur_nref_idx ref < atoms_fill (root_atoms r) \<Longrightarrow>
    den r ref (Atom (bytes_val (atoms_lens (root_atoms r) ! ur_nref_idx ref) (atoms_bytes (root_atoms r) ! ur_nref_idx ref)))"
| icell: "ur_head r ref = Some h \<Longrightarrow> ur_tail r ref = Some t \<Longrightarrow> den r h n \<Longrightarrow> den r t m \<Longrightarrow> den r ref (Cell n m)"

inductive_simps den_Atom_iff: "den r ref (Atom a)"
inductive_simps den_Cell_iff: "den r ref (Cell n m)"

lemma tags_distinct [simp]: "ur_direct \<noteq> ur_iatom" "ur_direct \<noteq> ur_icell" "ur_iatom \<noteq> ur_icell"
  "ur_iatom \<noteq> ur_direct" "ur_icell \<noteq> ur_direct" "ur_icell \<noteq> ur_iatom"
  by (simp_all add: ur_direct_def ur_iatom_def ur_icell_def)

lemma tags_less [simp]: "unat ur_iatom < 4" "unat ur_icell < 4" "unat ur_direct < 4"
  by (simp_all add: ur_direct_def ur_iatom_def ur_icell_def)

lemma ur_head_Some: "ur_head r ref = Some h \<longleftrightarrow>
    ur_nref_tag ref = ur_icell \<and> ur_nref_idx ref < length (cells_heads (root_cells r)) \<and> cells_heads (root_cells r) ! ur_nref_idx ref = h"
  by (auto simp: ur_head_def ur_deep_def nth_opt_def)

lemma ur_tail_Some: "ur_tail r ref = Some t \<longleftrightarrow>
    ur_nref_tag ref = ur_icell \<and> ur_nref_idx ref < length (cells_tails (root_cells r)) \<and> cells_tails (root_cells r) ! ur_nref_idx ref = t"
  by (auto simp: ur_tail_def ur_deep_def nth_opt_def)

section \<open>The invariant of an arena\<close>

definition atoms_inv :: "murmur \<Rightarrow> ur_root_t \<Rightarrow> bool" where
  "atoms_inv murmur r \<longleftrightarrow>
     (let a = root_atoms r; fill = atoms_fill a
      in length (atoms_bytes a) = fill \<and> length (atoms_lens a) = fill \<and> fill \<le> atoms_size a \<and> 0 < atoms_prev a \<and>
         0 < atoms_size a \<and> fill \<le> 2 ^ 62 \<and>
         (\<forall>i < fill. atom_ok (atoms_lens a ! i) (atoms_bytes a ! i) \<and>
           2 ^ 62 \<le> bytes_val (atoms_lens a ! i) (atoms_bytes a ! i) \<and>
           atoms_mugs a ! i = ur_mug_bytes murmur (atoms_bytes a ! i) (atoms_lens a ! i)) \<and>
         (\<forall>i < fill. \<forall>j < fill. take (atoms_lens a ! i) (atoms_bytes a ! i) = take (atoms_lens a ! j) (atoms_bytes a ! j) \<longrightarrow> i = j) \<and>
         dict_inv (ur_nref_mug murmur (Some r)) (atoms_dict a) \<and>
         dom (dict_map (atoms_dict a)) = nref_of ur_iatom ` {..<fill})"

definition below :: "nat \<Rightarrow> ur_nref \<Rightarrow> bool" where
  "below i ref \<longleftrightarrow> ur_deep ref \<longrightarrow> ur_nref_idx ref < i"

definition cells_inv :: "murmur \<Rightarrow> ur_root_t \<Rightarrow> bool" where
  "cells_inv murmur r \<longleftrightarrow>
     (let c = root_cells r; fill = cells_fill c; mug = ur_nref_mug murmur (Some r)
      in length (cells_heads c) = fill \<and> length (cells_tails c) = fill \<and> fill \<le> cells_size c \<and> 0 < cells_prev c \<and>
         0 < cells_size c \<and> fill \<le> 2 ^ 62 \<and>
         (\<forall>i < fill. below i (cells_heads c ! i) \<and> below i (cells_tails c ! i) \<and>
           (\<exists>hm tm. mug (cells_heads c ! i) = Some hm \<and> mug (cells_tails c ! i) = Some tm \<and>
             cells_mugs c ! i = ur_mug_both murmur hm tm)) \<and>
         (\<forall>i < fill. \<forall>j < fill. cells_heads c ! i = cells_heads c ! j \<and> cells_tails c ! i = cells_tails c ! j \<longrightarrow> i = j) \<and>
         dict_inv mug (cells_dict c) \<and>
         dom (dict_map (cells_dict c)) = nref_of ur_icell ` {..<fill})"

definition root_inv :: "murmur \<Rightarrow> ur_root_t \<Rightarrow> bool" where
  "root_inv murmur r \<longleftrightarrow> atoms_inv murmur r \<and> cells_inv murmur r"

lemma atoms_inv_simps:
  assumes "atoms_inv murmur r"
  defines "a \<equiv> root_atoms r"
  shows "length (atoms_bytes a) = atoms_fill a" "length (atoms_lens a) = atoms_fill a" "atoms_fill a \<le> atoms_size a"
    "0 < atoms_prev a" "atoms_fill a \<le> 2 ^ 62" "length (atoms_mugs a) = atoms_fill a"
    "dict_inv (ur_nref_mug murmur (Some r)) (atoms_dict a)" "dom (dict_map (atoms_dict a)) = nref_of ur_iatom ` {..<atoms_fill a}"
    "0 < atoms_size a"
  using assms by (simp_all add: atoms_inv_def Let_def atoms_fill_def)

lemma atoms_inv_nth:
  assumes "atoms_inv murmur r" and "i < atoms_fill (root_atoms r)"
  defines "a \<equiv> root_atoms r"
  shows "atom_ok (atoms_lens a ! i) (atoms_bytes a ! i)" "2 ^ 62 \<le> bytes_val (atoms_lens a ! i) (atoms_bytes a ! i)"
    "atoms_mugs a ! i = ur_mug_bytes murmur (atoms_bytes a ! i) (atoms_lens a ! i)"
    "j < atoms_fill a \<Longrightarrow> take (atoms_lens a ! i) (atoms_bytes a ! i) = take (atoms_lens a ! j) (atoms_bytes a ! j) \<Longrightarrow> i = j"
  using assms by (auto simp: atoms_inv_def Let_def)

lemma cells_inv_simps:
  assumes "cells_inv murmur r"
  defines "c \<equiv> root_cells r"
  shows "length (cells_heads c) = cells_fill c" "length (cells_tails c) = cells_fill c" "cells_fill c \<le> cells_size c"
    "0 < cells_prev c" "cells_fill c \<le> 2 ^ 62" "length (cells_mugs c) = cells_fill c"
    "dict_inv (ur_nref_mug murmur (Some r)) (cells_dict c)" "dom (dict_map (cells_dict c)) = nref_of ur_icell ` {..<cells_fill c}"
    "0 < cells_size c"
  using assms by (simp_all add: cells_inv_def Let_def cells_fill_def)

lemma cells_inv_nth:
  assumes "cells_inv murmur r" and "i < cells_fill (root_cells r)"
  defines "c \<equiv> root_cells r"
  shows "below i (cells_heads c ! i)" "below i (cells_tails c ! i)"
    "\<exists>hm tm. ur_nref_mug murmur (Some r) (cells_heads c ! i) = Some hm \<and>
      ur_nref_mug murmur (Some r) (cells_tails c ! i) = Some tm \<and> cells_mugs c ! i = ur_mug_both murmur hm tm"
    "j < cells_fill c \<Longrightarrow> cells_heads c ! i = cells_heads c ! j \<Longrightarrow> cells_tails c ! i = cells_tails c ! j \<Longrightarrow> i = j"
  using assms by (auto simp: cells_inv_def Let_def)

section \<open>Meaning of references\<close>

definition valid :: "ur_root_t \<Rightarrow> ur_nref \<Rightarrow> bool" where
  "valid r ref \<longleftrightarrow> ur_nref_tag ref = ur_direct \<or>
     ur_nref_tag ref = ur_iatom \<and> ur_nref_idx ref < atoms_fill (root_atoms r) \<or>
     ur_nref_tag ref = ur_icell \<and> ur_nref_idx ref < cells_fill (root_cells r)"

lemma mug_valid: "ur_nref_mug murmur (Some r) ref \<noteq> None \<longleftrightarrow> valid r ref"
  by (auto simp: ur_nref_mug_def valid_def nth_opt_def atoms_fill_def cells_fill_def)

lemma den_fun: "den r ref n \<Longrightarrow> den r ref m \<Longrightarrow> n = m"
proof (induction arbitrary: m rule: den.induct)
  case (direct ref)
  from direct(2) show ?case
    using direct(1) by cases (auto simp: ur_head_Some)
next
  case (iatom ref)
  from iatom(3) show ?case
    using iatom(1) by cases (auto simp: ur_head_Some)
next
  case (icell ref h t n k)
  show ?case
  proof (cases m)
    case (Atom a)
    then show ?thesis
      using icell.prems icell.hyps(1) by (auto simp: den_Atom_iff ur_head_Some)
  next
    case (Cell n' k')
    then show ?thesis
      using icell.prems icell.hyps(1,2) icell.IH by (auto simp: den_Cell_iff)
  qed
qed

lemma den_valid:
  assumes "root_inv murmur r" and "den r ref n"
  shows "valid r ref"
  using assms(2)
proof cases
  case (icell h t n m)
  then show ?thesis
    using assms(1) cells_inv_simps(1) [of murmur r] by (auto simp: root_inv_def valid_def ur_head_Some)
qed (auto simp: valid_def)

lemma valid_den:
  assumes "root_inv murmur r" and "valid r ref"
  shows "\<exists>n. den r ref n"
  using assms(2)
proof (induction "if ur_deep ref then Suc (ur_nref_idx ref) else 0" arbitrary: ref rule: less_induct)
  case less
  have c: "cells_inv murmur r"
    using assms(1) by (simp add: root_inv_def)
  show ?case
  proof (cases "ur_deep ref")
    case True
    let ?i = "ur_nref_idx ref" and ?c = "root_cells r"
    have i: "?i < cells_fill ?c"
      using less.prems True by (simp add: valid_def ur_deep_def)
    note N = cells_inv_nth [OF c i]
    have "valid r (cells_heads ?c ! ?i)" "valid r (cells_tails ?c ! ?i)"
      using N(3) mug_valid [of murmur r] by auto
    moreover have "(if ur_deep ref' then Suc (ur_nref_idx ref') else 0) < (if ur_deep ref then Suc ?i else 0)"
      if "below ?i ref'" for ref'
      using that True by (simp add: below_def)
    ultimately obtain n m where "den r (cells_heads ?c ! ?i) n" "den r (cells_tails ?c ! ?i) m"
      using less.hyps N(1,2) by metis
    then have "den r ref (Cell n m)"
      using True i cells_inv_simps(1,2) [OF c] by (intro den.icell) (auto simp: ur_head_Some ur_tail_Some ur_deep_def)
    then show ?thesis ..
  next
    case False
    then show ?thesis
      using less.prems by (auto simp: valid_def ur_deep_def intro: den.direct den.iatom)
  qed
qed

lemma den_mug:
  assumes "root_inv murmur r" and "den r ref n"
  shows "ur_nref_mug murmur (Some r) ref = Some (noun_mug murmur n)"
  using assms(2)
proof (induction rule: den.induct)
  case (direct ref)
  have "ur_met3_64 ref \<le> length (le_bytes 8 ref)"
    using met0_unat_le [of ref] by (simp add: le_bytes_def ur_met3_64_def ur_met0_simps ur_bloq_up3_def)
  with direct show ?case
    by (simp add: ur_nref_mug_def ur_mug64_def ur_mug_bytes_take [of "ur_met3_64 ref"] take_le_bytes)
next
  case (iatom ref)
  let ?a = "root_atoms r" and ?i = "ur_nref_idx ref"
  have a: "atoms_inv murmur r"
    using assms(1) by (simp add: root_inv_def)
  note N = atoms_inv_nth [OF a iatom(2)]
  have "ur_mug_bytes murmur (atoms_bytes ?a ! ?i) (atoms_lens ?a ! ?i) =
      noun_mug murmur (Atom (bytes_val (atoms_lens ?a ! ?i) (atoms_bytes ?a ! ?i)))"
    using ur_mug_bytes_take [of "atoms_lens ?a ! ?i" "atoms_bytes ?a ! ?i" murmur] N(1) nat_bytes_val [OF N(1)]
    by (simp add: atom_ok_def)
  then show ?case
    using iatom N(3) atoms_inv_simps(6) [OF a] by (simp add: ur_nref_mug_def)
next
  case (icell ref h t n m)
  have c: "cells_inv murmur r"
    using assms(1) by (simp add: root_inv_def)
  have i: "ur_nref_tag ref = ur_icell" "ur_nref_idx ref < cells_fill (root_cells r)"
    using icell(1) cells_inv_simps(1) [OF c] by (auto simp: ur_head_Some)
  show ?case
    using cells_inv_nth(3) [OF c i(2)] icell i cells_inv_simps(6) [OF c]
    by (auto simp: ur_nref_mug_def ur_head_Some ur_tail_Some)
qed

theorem den_inj:
  assumes "root_inv murmur r" and "den r a n" and "den r b n"
  shows "a = b"
  using assms(2,3)
proof (induction arbitrary: b rule: den.induct)
  case (direct ref)
  have "atoms_inv murmur r"
    using assms(1) by (simp add: root_inv_def)
  then show ?case
    using direct atoms_inv_nth(2) [of murmur r "ur_nref_idx b"] by (auto simp: direct_iff den_Atom_iff word_unat_eq_iff [of ref b])
next
  case (iatom ref)
  have a: "atoms_inv murmur r"
    using assms(1) by (simp add: root_inv_def)
  note N = atoms_inv_nth [OF a iatom(2)]
  have "\<not> (bytes_val (atoms_lens (root_atoms r) ! ur_nref_idx ref) (atoms_bytes (root_atoms r) ! ur_nref_idx ref) = unat b \<and>
      ur_nref_tag b = ur_direct)"
    using N(2) direct_iff [of b] by linarith
  with iatom(3) have b: "ur_nref_tag b = ur_iatom" "ur_nref_idx b < atoms_fill (root_atoms r)"
    "bytes_val (atoms_lens (root_atoms r) ! ur_nref_idx ref) (atoms_bytes (root_atoms r) ! ur_nref_idx ref) =
     bytes_val (atoms_lens (root_atoms r) ! ur_nref_idx b) (atoms_bytes (root_atoms r) ! ur_nref_idx b)"
    unfolding den_Atom_iff by blast+
  have "ur_nref_idx ref = ur_nref_idx b"
    using N(4) [OF b(2)] bytes_val_inj(2) [OF N(1) atoms_inv_nth(1) [OF a b(2)] b(3)] by blast
  with iatom(1) b(1) show ?case
    by (metis nref_eqI)
next
  case (icell ref h t n m)
  have c: "cells_inv murmur r"
    using assms(1) by (simp add: root_inv_def)
  have b: "ur_head r b = Some h" "ur_tail r b = Some t"
    using icell.prems icell.IH by (auto simp: den_Cell_iff)
  then have "ur_nref_idx ref = ur_nref_idx b"
    using icell(1,2) cells_inv_nth(4) [OF c, of "ur_nref_idx ref" "ur_nref_idx b"] cells_inv_simps(1,2) [OF c]
    by (auto simp: ur_head_Some ur_tail_Some)
  with icell(1) b show ?case
    by (metis nref_eqI ur_head_Some)
qed

lemma root_mugs_31:
  assumes "root_inv murmur r"
  shows "mugs_31 (ur_nref_mug murmur (Some r))"
  unfolding mugs_31_def
proof (intro allI impI)
  fix k m
  assume m: "ur_nref_mug murmur (Some r) k = Some m"
  then obtain n where "den r k n"
    using valid_den [OF assms] mug_valid by blast
  then show "unat m < 2 ^ 31"
    using den_mug [OF assms] m noun_mug_ok [of murmur n] by (auto simp: mug_ok_def)
qed

section \<open>Growing arenas\<close>

text \<open>The arena \<open>r'\<close> still has everything that \<open>r\<close> has.\<close>

definition arena_le :: "ur_root_t \<Rightarrow> ur_root_t \<Rightarrow> bool" where
  "arena_le r r' \<longleftrightarrow> (\<forall>ref n. den r ref n \<longrightarrow> den r' ref n)"

definition arena_nouns :: "ur_root_t \<Rightarrow> noun set" where
  "arena_nouns r = {n. \<exists>ref. ur_nref_tag ref \<noteq> ur_direct \<and> den r ref n}"

text \<open>At most ten nouns of the set share a mug.\<close>

definition mug_spread :: "murmur \<Rightarrow> noun set \<Rightarrow> bool" where
  "mug_spread murmur S \<longleftrightarrow> finite S \<and> (\<forall>m. card {n \<in> S. noun_mug murmur n = m} \<le> ur_pail_max)"

lemma arena_le_refl [simp]: "arena_le r r"
  by (simp add: arena_le_def)

lemma arena_le_trans: "arena_le r r' \<Longrightarrow> arena_le r' r'' \<Longrightarrow> arena_le r r''"
  by (simp add: arena_le_def)

lemma arena_leD: "arena_le r r' \<Longrightarrow> den r ref n \<Longrightarrow> den r' ref n"
  by (simp add: arena_le_def)

lemma arena_nouns_mono: "arena_le r r' \<Longrightarrow> arena_nouns r \<subseteq> arena_nouns r'"
  by (auto simp: arena_nouns_def arena_le_def)

lemma cell_arena_noun: "den r ref (Cell x y) \<Longrightarrow> Cell x y \<in> arena_nouns r"
proof -
  assume d: "den r ref (Cell x y)"
  then have "ur_nref_tag ref = ur_icell"
    by (auto simp: den_Cell_iff ur_head_Some)
  with d show ?thesis
    unfolding arena_nouns_def by (metis (mono_tags, lifting) mem_Collect_eq tags_distinct(5))
qed

lemma mug_spread_mono:
  assumes "mug_spread murmur S" and "T \<subseteq> S"
  shows "mug_spread murmur T"
proof -
  have "finite S"
    using assms(1) by (simp add: mug_spread_def)
  then have "card {n \<in> T. noun_mug murmur n = m} \<le> card {n \<in> S. noun_mug murmur n = m}" for m
    using assms(2) by (intro card_mono) auto
  then show ?thesis
    using assms \<open>finite S\<close> finite_subset unfolding mug_spread_def by (meson le_trans)
qed

lemma mug_spread_card:
  assumes "mug_spread murmur S"
  shows "card S \<le> 10 * 2 ^ 31"
proof -
  let ?f = "\<lambda>m. {n \<in> S. noun_mug murmur n = of_nat m}"
  have "S \<subseteq> (\<Union>m < 2 ^ 31. ?f m)"
  proof
    fix n
    assume "n \<in> S"
    then have "n \<in> ?f (unat (noun_mug murmur n))"
      by simp
    moreover have "unat (noun_mug murmur n) < 2 ^ 31"
      using noun_mug_ok [of murmur n] by (simp add: mug_ok_def)
    ultimately show "n \<in> (\<Union>m < 2 ^ 31. ?f m)"
      by blast
  qed
  then have "card S \<le> card (\<Union>m < 2 ^ 31. ?f m)"
    using assms by (intro card_mono) (auto simp: mug_spread_def)
  also have "\<dots> \<le> (\<Sum>m < 2 ^ 31. card (?f m))"
    by (rule card_UN_le) simp
  also have "\<dots> \<le> (\<Sum>m < (2::nat) ^ 31. ur_pail_max)"
    using assms by (intro sum_mono) (simp add: mug_spread_def)
  finally show ?thesis
    by (simp add: ur_pail_max_def)
qed

lemma inj_refs_card:
  assumes "root_inv murmur r" and "\<And>k. k \<in> K \<Longrightarrow> \<exists>n \<in> S. den r k n" and "finite S"
  shows "finite K" and "card K \<le> card S"
proof -
  define f where "f k = (SOME n. n \<in> S \<and> den r k n)" for k
  have f: "f k \<in> S" "den r k (f k)" if "k \<in> K" for k
    using someI_ex [of "\<lambda>n. n \<in> S \<and> den r k n"] assms(2) [OF that] unfolding f_def by blast+
  have "inj_on f K"
    by (rule inj_onI) (metis den_inj [OF assms(1)] f(2))
  moreover have "f ` K \<subseteq> S"
    using f(1) by blast
  ultimately show "finite K" "card K \<le> card S"
    using assms(3) by (auto intro: inj_on_finite card_inj_on_le)
qed

lemma spread_refs:
  assumes "root_inv murmur r" and "\<And>k. k \<in> K \<Longrightarrow> \<exists>n \<in> S. den r k n" and "mug_spread murmur S"
  shows "finite K" and "spread (ur_nref_mug murmur (Some r)) K"
proof -
  show "finite K"
    using inj_refs_card(1) [OF assms(1,2)] assms(3) by (simp add: mug_spread_def)
  have "card {k \<in> K. ur_nref_mug murmur (Some r) k = Some m} \<le> card {n \<in> S. noun_mug murmur n = m}" for m
  proof (rule inj_refs_card(2) [OF assms(1)])
    show "finite {n \<in> S. noun_mug murmur n = m}"
      using assms(3) by (simp add: mug_spread_def)
    show "\<exists>n \<in> {n \<in> S. noun_mug murmur n = m}. den r k n"
      if "k \<in> {k \<in> K. ur_nref_mug murmur (Some r) k = Some m}" for k
      using that assms(2) [of k] den_mug [OF assms(1)] by auto
  qed
  then show "spread (ur_nref_mug murmur (Some r)) K"
    using assms(3) unfolding spread_def mug_spread_def by (meson le_trans)
qed

lemma nref_of_inj: "inj_on (nref_of tag) {..<n}" if "n \<le> 2 ^ 62" "unat tag < 4"
  by (rule inj_onI) (metis lessThan_iff less_le_trans nref_of_tag_idx(2) that)

lemma arena_keys:
  assumes "root_inv murmur r" and "ur_nref_tag k \<noteq> ur_direct" and "valid r k" and "arena_nouns r \<subseteq> S"
  shows "\<exists>n \<in> S. den r k n"
  using valid_den [OF assms(1,3)] assms(2,4) by (auto simp: arena_nouns_def)

lemma arena_fill:
  assumes "root_inv murmur r" and "arena_nouns r \<subseteq> S" and "mug_spread murmur S"
  shows "atoms_fill (root_atoms r) < 2 ^ 62" and "cells_fill (root_cells r) < 2 ^ 62"
proof -
  have "n < 2 ^ 62" if n: "n \<le> 2 ^ 62" "unat tag < 4" and k: "\<And>i. i < n \<Longrightarrow> \<exists>x \<in> S. den r (nref_of tag i) x" for n tag
  proof -
    have "card (nref_of tag ` {..<n}) \<le> card S"
      using k assms(3) by (intro inj_refs_card(2) [OF assms(1)]) (auto simp: mug_spread_def)
    then show ?thesis
      using mug_spread_card [OF assms(3)] card_image [OF nref_of_inj [OF n]] by simp
  qed
  moreover have "atoms_inv murmur r" "cells_inv murmur r"
    using assms(1) by (simp_all add: root_inv_def)
  note le = atoms_inv_simps(5) [OF this(1)] cells_inv_simps(5) [OF this(2)]
  moreover have "\<exists>x \<in> S. den r (nref_of ur_iatom i) x" if "i < atoms_fill (root_atoms r)" for i
    using that le nref_of_tag_idx [of i ur_iatom]
    by (intro arena_keys [OF assms(1) _ _ assms(2)]) (auto simp: valid_def)
  moreover have "\<exists>x \<in> S. den r (nref_of ur_icell i) x" if "i < cells_fill (root_cells r)" for i
    using that le nref_of_tag_idx [of i ur_icell]
    by (intro arena_keys [OF assms(1) _ _ assms(2)]) (auto simp: valid_def)
  ultimately show "atoms_fill (root_atoms r) < 2 ^ 62" "cells_fill (root_cells r) < 2 ^ 62"
    using tags_less by blast+
qed

section \<open>Extending an arena\<close>

text \<open>References and mugs are kept when the arrays only grow at their ends.\<close>

definition arrays_le :: "ur_root_t \<Rightarrow> ur_root_t \<Rightarrow> bool" where
  "arrays_le r r' \<longleftrightarrow>
     (\<exists>m b l. atoms_mugs (root_atoms r') = atoms_mugs (root_atoms r) @ m \<and>
       atoms_bytes (root_atoms r') = atoms_bytes (root_atoms r) @ b \<and> atoms_lens (root_atoms r') = atoms_lens (root_atoms r) @ l) \<and>
     (\<exists>m h t. cells_mugs (root_cells r') = cells_mugs (root_cells r) @ m \<and>
       cells_heads (root_cells r') = cells_heads (root_cells r) @ h \<and> cells_tails (root_cells r') = cells_tails (root_cells r) @ t)"

lemma arrays_le_mug:
  assumes "arrays_le r r'" and "ur_nref_mug murmur (Some r) ref = Some m"
  shows "ur_nref_mug murmur (Some r') ref = Some m"
  using assms by (auto simp: arrays_le_def ur_nref_mug_def nth_opt_Some_iff nth_append split: if_splits)

lemma arrays_le_den:
  assumes r: "root_inv murmur r" "arrays_le r r'"
  shows "arena_le r r'"
  unfolding arena_le_def
proof (intro allI impI)
  fix ref n
  have len: "length (atoms_bytes (root_atoms r)) = atoms_fill (root_atoms r)" "length (atoms_lens (root_atoms r)) = atoms_fill (root_atoms r)"
    using r(1) atoms_inv_simps(1,2) [of murmur r] by (simp_all add: root_inv_def)
  assume "den r ref n"
  then show "den r' ref n"
  proof (induction rule: den.induct)
    case (iatom ref)
    then show ?case
      using r(2) len by (auto simp: arrays_le_def den_Atom_iff nth_append atoms_fill_def)
  next
    case (icell ref h t n m)
    then have "ur_head r' ref = Some h" "ur_tail r' ref = Some t"
      using r(2) by (auto simp: arrays_le_def ur_head_Some ur_tail_Some nth_append)
    with icell show ?case
      by (intro den.icell)
  qed (rule den.direct)
qed

lemma mug_dicts:
  "ur_nref_mug murmur (Some (r\<lparr>root_cells := (root_cells r)\<lparr>cells_dict := d\<rparr>\<rparr>)) = ur_nref_mug murmur (Some r)"
  "ur_nref_mug murmur (Some (r\<lparr>root_atoms := (root_atoms r)\<lparr>atoms_dict := e\<rparr>\<rparr>)) = ur_nref_mug murmur (Some r)"
  by (auto simp: ur_nref_mug_def fun_eq_iff)

text \<open>A rehashed dictionary.\<close>

lemma root_inv_cells_dict:
  assumes "root_inv murmur r" and "dict_inv (ur_nref_mug murmur (Some r)) d" and "dict_map d = dict_map (cells_dict (root_cells r))"
  shows "root_inv murmur (r\<lparr>root_cells := (root_cells r)\<lparr>cells_dict := d\<rparr>\<rparr>)"
    and "arena_le r (r\<lparr>root_cells := (root_cells r)\<lparr>cells_dict := d\<rparr>\<rparr>)"
proof -
  show "root_inv murmur (r\<lparr>root_cells := (root_cells r)\<lparr>cells_dict := d\<rparr>\<rparr>)"
    using assms unfolding root_inv_def atoms_inv_def cells_inv_def mug_dicts Let_def by (simp add: cells_fill_def)
  show "arena_le r (r\<lparr>root_cells := (root_cells r)\<lparr>cells_dict := d\<rparr>\<rparr>)"
    by (rule arrays_le_den [OF assms(1)]) (simp add: arrays_le_def)
qed

lemma root_inv_atoms_dict:
  assumes "root_inv murmur r" and "dict_inv (ur_nref_mug murmur (Some r)) d" and "dict_map d = dict_map (atoms_dict (root_atoms r))"
  shows "root_inv murmur (r\<lparr>root_atoms := (root_atoms r)\<lparr>atoms_dict := d\<rparr>\<rparr>)"
    and "arena_le r (r\<lparr>root_atoms := (root_atoms r)\<lparr>atoms_dict := d\<rparr>\<rparr>)"
proof -
  show "root_inv murmur (r\<lparr>root_atoms := (root_atoms r)\<lparr>atoms_dict := d\<rparr>\<rparr>)"
    using assms unfolding root_inv_def atoms_inv_def cells_inv_def mug_dicts Let_def by (simp add: atoms_fill_def)
  show "arena_le r (r\<lparr>root_atoms := (root_atoms r)\<lparr>atoms_dict := d\<rparr>\<rparr>)"
    by (rule arrays_le_den [OF assms(1)]) (simp add: arrays_le_def)
qed

text \<open>A new cell.\<close>

definition cell_added ::
  "murmur \<Rightarrow> ur_root_t \<Rightarrow> ur_nref \<Rightarrow> ur_nref \<Rightarrow> ur_mug \<Rightarrow> ur_dict_t \<Rightarrow> nat \<Rightarrow> nat \<Rightarrow> ur_root_t \<Rightarrow> bool" where
  "cell_added murmur r hed tal m d idx b_fill r' \<longleftrightarrow>
     (let c = root_cells r; fill = cells_fill c; mug = ur_nref_mug murmur (Some r); cel = nref_of ur_icell fill
      in root_inv murmur r \<and>
         (\<exists>hm tm. mug hed = Some hm \<and> mug tal = Some tm \<and> m = ur_mug_both murmur hm tm) \<and>
         (\<forall>i < fill. cells_heads c ! i = hed \<longrightarrow> cells_tails c ! i \<noteq> tal) \<and> fill < 2 ^ 62 \<and>
         dict_inv mug d \<and> dict_map d = dict_map (cells_dict c) \<and>
         idx = unat m mod dict_size d \<and> b_fill = dict_fills d ! idx \<and> b_fill < ur_pail_max \<and>
         root_atoms r' = root_atoms r \<and> cells_dict (root_cells r') = dict_store d idx b_fill cel () \<and>
         cells_mugs (root_cells r') = cells_mugs c @ [m] \<and> cells_heads (root_cells r') = cells_heads c @ [hed] \<and>
         cells_tails (root_cells r') = cells_tails c @ [tal] \<and>
         0 < cells_prev (root_cells r') \<and> fill < cells_size (root_cells r'))"

lemma arrays_le_known: "arrays_le r r' \<Longrightarrow> ur_nref_mug murmur (Some r) ref \<noteq> None \<Longrightarrow>
    ur_nref_mug murmur (Some r') ref = ur_nref_mug murmur (Some r) ref"
  using arrays_le_mug by fastforce

lemma cell_added_arrays: "cell_added murmur r hed tal m d idx b_fill r' \<Longrightarrow> arrays_le r r'"
  by (auto simp: cell_added_def arrays_le_def Let_def)

lemma cell_added_dict:
  assumes "cell_added murmur r hed tal m d idx b_fill r'"
  shows "dict_inv (ur_nref_mug murmur (Some r')) (cells_dict (root_cells r'))"
    and "dom (dict_map (cells_dict (root_cells r'))) = nref_of ur_icell ` {..<Suc (cells_fill (root_cells r))}"
proof -
  let ?fill = "cells_fill (root_cells r)" and ?cel = "nref_of ur_icell (cells_fill (root_cells r))"
  from assms have inv: "cells_inv murmur r" and fill: "?fill < 2 ^ 62"
    and d: "dict_inv (ur_nref_mug murmur (Some r)) d" "dict_map d = dict_map (cells_dict (root_cells r))"
    and slot: "idx = unat m mod dict_size d" "b_fill = dict_fills d ! idx" "b_fill < ur_pail_max"
    and r': "cells_dict (root_cells r') = dict_store d idx b_fill ?cel ()"
      "cells_mugs (root_cells r') = cells_mugs (root_cells r) @ [m]"
    unfolding cell_added_def root_inv_def Let_def by blast+
  note C = cells_inv_simps [OF inv] and idx = nref_of_tag_idx [OF fill tags_less(2)]
  have mug: "ur_nref_mug murmur (Some r') ?cel = Some m"
    using idx C(6) by (simp add: ur_nref_mug_def r'(2))
  have new: "?cel \<notin> dom (dict_map d)"
    using idx(2) nref_of_tag_idx(2) [of _ ur_icell] C(5,8) d(2) by (auto simp: less_le_trans)
  have "dict_inv (ur_nref_mug murmur (Some r')) d"
    using dict_map_mug [OF d(1)] arrays_le_known [OF cell_added_arrays [OF assms]] by (intro dict_inv_cong [OF d(1)]) auto
  from dict_store_ok [OF this mug new slot, of "()"]
  show "dict_inv (ur_nref_mug murmur (Some r')) (cells_dict (root_cells r'))"
    "dom (dict_map (cells_dict (root_cells r'))) = nref_of ur_icell ` {..<Suc ?fill}"
    using C(8) d(2) by (simp_all add: r' lessThan_Suc)
qed

lemma below_valid: "valid r ref \<Longrightarrow> below (cells_fill (root_cells r)) ref"
  by (auto simp: valid_def below_def ur_deep_def)

lemma cell_added_cells:
  assumes A: "cell_added murmur r hed tal m d idx b_fill r'"
  shows "cells_inv murmur r'"
proof -
  let ?c = "root_cells r" and ?c' = "root_cells r'" and ?n = "cells_fill (root_cells r)" and ?mug = "ur_nref_mug murmur (Some r')"
  from A have inv: "cells_inv murmur r" and fill: "?n < 2 ^ 62" "0 < cells_prev ?c'" "?n < cells_size ?c'"
    and r': "cells_mugs ?c' = cells_mugs ?c @ [m]" "cells_heads ?c' = cells_heads ?c @ [hed]" "cells_tails ?c' = cells_tails ?c @ [tal]"
    and new: "\<And>i. i < ?n \<Longrightarrow> cells_heads ?c ! i = hed \<Longrightarrow> cells_tails ?c ! i \<noteq> tal"
    by (simp_all add: cell_added_def root_inv_def Let_def)
  from A obtain hm tm where mugs: "ur_nref_mug murmur (Some r) hed = Some hm" "ur_nref_mug murmur (Some r) tal = Some tm"
      "m = ur_mug_both murmur hm tm"
    by (auto simp: cell_added_def Let_def)
  note C = cells_inv_simps [OF inv] and N = cells_inv_nth [OF inv] and le = cell_added_arrays [OF A]
  have n: "cells_fill ?c' = Suc ?n" "length (cells_heads ?c') = Suc ?n" "length (cells_tails ?c') = Suc ?n"
    using C(1,2) by (simp_all add: r' cells_fill_def)
  have hd: "cells_heads ?c' ! i = (if i = ?n then hed else cells_heads ?c ! i)"
    "cells_tails ?c' ! i = (if i = ?n then tal else cells_tails ?c ! i)"
    "cells_mugs ?c' ! i = (if i = ?n then m else cells_mugs ?c ! i)" if "i < Suc ?n" for i
    using that C(1,2,6) by (auto simp: r' nth_append)
  have refs: "below i (cells_heads ?c' ! i) \<and> below i (cells_tails ?c' ! i) \<and>
      (\<exists>hm tm. ?mug (cells_heads ?c' ! i) = Some hm \<and> ?mug (cells_tails ?c' ! i) = Some tm \<and>
        cells_mugs ?c' ! i = ur_mug_both murmur hm tm)" if "i < Suc ?n" for i
  proof (cases "i = ?n")
    case True
    have "valid r hed" "valid r tal"
      using mugs mug_valid by blast+
    then show ?thesis
      using True hd [OF that] below_valid mugs arrays_le_mug [OF le] by auto
  next
    case False
    then have "i < ?n"
      using that by simp
    then show ?thesis
      using False hd [OF that] N(1-3) [of i] arrays_le_mug [OF le] by auto
  qed
  have inj: "i = j" if "i < Suc ?n" "j < Suc ?n" "cells_heads ?c' ! i = cells_heads ?c' ! j" "cells_tails ?c' ! i = cells_tails ?c' ! j" for i j
    using that(3,4) new [of i] new [of j] N(4) [of i j] that(1,2)
    unfolding hd(1,2) [OF that(1)] hd(1,2) [OF that(2)] by (auto split: if_splits simp: less_Suc_eq)
  have "Suc ?n \<le> cells_size ?c'" "0 < cells_size ?c'" "Suc ?n \<le> 2 ^ 62"
    using fill by simp_all
  with n refs inj fill(2) cell_added_dict [OF A] show ?thesis
    unfolding cells_inv_def Let_def n by blast
qed

lemma cell_added_ok:
  assumes A: "cell_added murmur r hed tal m d idx b_fill r'"
  shows "root_inv murmur r'" and "arena_le r r'"
    and "den r hed x \<Longrightarrow> den r tal y \<Longrightarrow> den r' (nref_of ur_icell (cells_fill (root_cells r))) (Cell x y)"
proof -
  from A have inv: "root_inv murmur r" and a: "atoms_inv murmur r" and c: "cells_inv murmur r"
    and fill: "cells_fill (root_cells r) < 2 ^ 62" and r': "root_atoms r' = root_atoms r"
      "cells_heads (root_cells r') = cells_heads (root_cells r) @ [hed]" "cells_tails (root_cells r') = cells_tails (root_cells r) @ [tal]"
    by (simp_all add: cell_added_def root_inv_def Let_def)
  note le = cell_added_arrays [OF A]
  have "dict_inv (ur_nref_mug murmur (Some r')) (atoms_dict (root_atoms r))"
    using dict_map_mug [OF atoms_inv_simps(7) [OF a]] arrays_le_known [OF le]
    by (intro dict_inv_cong [OF atoms_inv_simps(7) [OF a]]) auto
  then have "atoms_inv murmur r'"
    using a unfolding atoms_inv_def Let_def r' by simp
  with cell_added_cells [OF A] show "root_inv murmur r'"
    by (simp add: root_inv_def)
  show ar: "arena_le r r'"
    by (rule arrays_le_den [OF inv le])
  assume "den r hed x" "den r tal y"
  then show "den r' (nref_of ur_icell (cells_fill (root_cells r))) (Cell x y)"
    using ar nref_of_tag_idx [OF fill tags_less(2)] cells_inv_simps(1,2) [OF c]
    by (intro den.icell [of _ _ hed tal]) (auto simp: ur_head_def ur_tail_def ur_deep_def r' arena_le_def)
qed

section \<open>Find or insert\<close>

text \<open>A bucket has room for a new noun of the set, or one of its references is the noun already.\<close>

lemma few_refs:
  assumes "root_inv murmur r" and K: "\<And>k. k \<in> K \<Longrightarrow> valid r k \<and> ur_nref_tag k \<noteq> ur_direct"
    and S: "arena_nouns r \<subseteq> S" "mug_spread murmur S" "z \<in> S"
    and P: "\<And>k. k \<in> K \<Longrightarrow> den r k z \<Longrightarrow> P k"
  defines "m \<equiv> noun_mug murmur z"
  shows "card {k \<in> K. ur_nref_mug murmur (Some r) k = Some m} < ur_pail_max \<or>
    (\<exists>k \<in> K. ur_nref_mug murmur (Some r) k = Some m \<and> P k)"
proof (rule disjCI)
  assume no: "\<not> (\<exists>k \<in> K. ur_nref_mug murmur (Some r) k = Some m \<and> P k)"
  let ?S = "{n \<in> S. noun_mug murmur n = m}"
  have fin: "finite ?S"
    using S(2) by (simp add: mug_spread_def)
  have "card {k \<in> K. ur_nref_mug murmur (Some r) k = Some m} \<le> card (?S - {z})"
  proof (rule inj_refs_card(2) [OF assms(1)])
    fix k
    assume "k \<in> {k \<in> K. ur_nref_mug murmur (Some r) k = Some m}"
    then have k: "k \<in> K" "ur_nref_mug murmur (Some r) k = Some m"
      by auto
    obtain n where n: "n \<in> S" "den r k n"
      using arena_keys [OF assms(1) _ _ S(1)] K [OF k(1)] by blast
    then have "noun_mug murmur n = m" "n \<noteq> z"
      using den_mug [OF assms(1) n(2)] k no P by auto
    with n show "\<exists>n \<in> ?S - {z}. den r k n"
      by blast
  qed (use fin in simp)
  also have "\<dots> < card ?S"
    using fin S(3) by (intro psubset_card_mono) (auto simp: m_def)
  also have "\<dots> \<le> ur_pail_max"
    using S(2) by (simp add: mug_spread_def)
  finally show "card {k \<in> K. ur_nref_mug murmur (Some r) k = Some m} < ur_pail_max" .
qed

lemma arena_nouns_step:
  assumes "root_inv murmur r" and "root_inv murmur r'" and "arena_le r r'"
    and "\<And>k. valid r' k \<Longrightarrow> valid r k \<or> k = ref" and "den r' ref z" and "z \<in> S" and "arena_nouns r \<subseteq> S"
  shows "arena_nouns r' \<subseteq> S"
proof
  fix n
  assume "n \<in> arena_nouns r'"
  then obtain k where k: "ur_nref_tag k \<noteq> ur_direct" "den r' k n"
    by (auto simp: arena_nouns_def)
  then consider "valid r k" | "k = ref"
    using assms(4) den_valid [OF assms(2)] by blast
  then show "n \<in> S"
  proof cases
    case 1
    then obtain n' where n': "den r k n'"
      using valid_den [OF assms(1)] by blast
    then have "n' = n"
      using arena_leD [OF assms(3)] k(2) den_fun by blast
    then show ?thesis
      using n' k(1) assms(7) by (auto simp: arena_nouns_def)
  next
    case 2
    then show ?thesis
      using k(2) den_fun assms(5,6) by blast
  qed
qed

lemma nref_of_idx: "unat (ur_nref_tag k) < 4 \<Longrightarrow> nref_of (ur_nref_tag k) (ur_nref_idx k) = k"
  by (metis nref_eqI nref_of_tag_idx ur_nref_idx_less)

lemma fill_met0: "fill < 2 ^ 62 \<Longrightarrow> ur_met0_64 (of_nat fill) \<le> 62"
  by (simp add: ur_met0_simps unat_of_nat met0_le_iff)

lemma cell_same:
  assumes "ur_head r cel = Some h" and "ur_tail r cel = Some t"
  shows "Option.bind (ur_head r cel) (\<lambda>h. if hed = h then Option.bind (ur_tail r cel) (\<lambda>t. Some (tal = t)) else Some False) =
    Some (hed = h \<and> tal = t)"
  using assms by simp

lemma cell_keys:
  assumes "cells_inv murmur r" and "k \<in> dom (dict_map (cells_dict (root_cells r)))"
  defines "i \<equiv> ur_nref_idx k"
  shows "ur_nref_tag k = ur_icell" and "i < cells_fill (root_cells r)"
    and "ur_head r k = Some (cells_heads (root_cells r) ! i)" and "ur_tail r k = Some (cells_tails (root_cells r) ! i)"
proof -
  note C = cells_inv_simps [OF assms(1)]
  obtain j where j: "j < cells_fill (root_cells r)" "k = nref_of ur_icell j"
    using assms(2) C(8) by auto
  then have "ur_nref_tag k = ur_icell" "i = j"
    using nref_of_tag_idx [of j ur_icell] C(5) by (auto simp: i_def)
  with j show "ur_nref_tag k = ur_icell" "i < cells_fill (root_cells r)"
    "ur_head r k = Some (cells_heads (root_cells r) ! i)" "ur_tail r k = Some (cells_tails (root_cells r) ! i)"
    using C(1,2) by (auto simp: ur_head_Some ur_tail_Some i_def)
qed

theorem ur_cons_ok:
  assumes inv: "root_inv murmur r" and h: "den r hed x" and t: "den r tal y"
    and S: "mug_spread murmur S" "arena_nouns r \<subseteq> S" "Cell x y \<in> S"
  shows "\<exists>cel r'. ur_cons murmur r hed tal = Some (cel, r') \<and> root_inv murmur r' \<and> arena_le r r' \<and>
    den r' cel (Cell x y) \<and> arena_nouns r' \<subseteq> S"
proof -
  let ?c = "root_cells r" and ?mug = "ur_nref_mug murmur (Some r)"
  let ?same = "\<lambda>cel. Option.bind (ur_head r cel) (\<lambda>h. if hed = h then Option.bind (ur_tail r cel) (\<lambda>t. Some (tal = t)) else Some False)"
  define m where "m = ur_mug_both murmur (noun_mug murmur x) (noun_mug murmur y)"
  have mugs: "?mug hed = Some (noun_mug murmur x)" "?mug tal = Some (noun_mug murmur y)"
    using den_mug [OF inv] h t by auto
  have c: "cells_inv murmur r"
    using inv by (simp add: root_inv_def)
  note C = cells_inv_simps [OF c] and K = cell_keys [OF c]
  let ?K = "dom (dict_map (cells_dict ?c))"
  have valid: "valid r k \<and> ur_nref_tag k \<noteq> ur_direct" if "k \<in> ?K" for k
    using K [OF that] by (simp add: valid_def)
  have sp: "spread ?mug ?K"
    using arena_keys [OF inv _ _ S(2)] valid by (intro spread_refs(2) [OF inv _ S(1)]) blast
  have "?same k = Some True" if "k \<in> ?K" "den r k (Cell x y)" for k
    using that(2) den_inj [OF inv] h t by (auto simp: den_Cell_iff)
  then have few: "card {k \<in> ?K. ?mug k = Some m} < ur_pail_max \<or> (\<exists>k \<in> ?K. ?mug k = Some m \<and> ?same k = Some True)"
    using few_refs [OF inv valid S(2,1,3), of ?K "\<lambda>k. ?same k = Some True"] by (simp add: m_def)
  have m31: "unat m < 2 ^ 31"
    using ur_mug_both_ok by (simp add: m_def mug_ok_def)
  have eq: "?same k \<noteq> None" if "k \<in> ?K" for k
    using K(3,4) [OF that] by auto
  obtain d s where d: "dict_seek ?mug ?same m (cells_dict ?c) = Some (d, s)" "dict_inv ?mug d"
      "dict_map d = dict_map (cells_dict ?c)" "slot_ok ?mug ?same m d s"
    using dict_seek_ok [OF C(7) sp root_mugs_31 [OF inv] m31 eq few] by blast
  note step = ur_cons_def mugs prod.case option.case Let_def m_def [symmetric] d(1)
  show ?thesis
  proof (cases s)
    case (Found idx i)
    let ?k = "pail_refs (dict_buckets d ! idx) ! i" and ?r = "r\<lparr>root_cells := ?c\<lparr>cells_dict := d\<rparr>\<rparr>"
    have k: "?k \<in> ?K" "?same ?k = Some True"
      using found_key [OF d(2) d(4) [unfolded Found]] d(3) by auto
    note R = root_inv_cells_dict [OF inv d(2,3)]
    have "den r ?k (Cell x y)"
      using K(3,4) [OF k(1)] k(2) h t by (auto simp: den_Cell_iff split: if_splits)
    then have "den ?r ?k (Cell x y)"
      using R(2) arena_leD by blast
    moreover have "arena_nouns ?r \<subseteq> S"
      by (rule arena_nouns_step [OF inv R _ calculation S(3,2)]) (auto simp: valid_def cells_fill_def)
    moreover have "ur_cons murmur r hed tal = Some (?k, ?r)"
      unfolding step Found by simp
    ultimately show ?thesis
      using R by blast
  next
    case (Room idx b_fill)
    let ?c' = "if cells_fill ?c = cells_size ?c then ur_cells_grow ?c else ?c" and ?cel = "nref_of ur_icell (cells_fill ?c)"
    let ?r = "r\<lparr>root_cells := ?c'\<lparr>cells_mugs := cells_mugs ?c @ [m], cells_heads := cells_heads ?c @ [hed],
      cells_tails := cells_tails ?c @ [tal], cells_dict := dict_store d idx b_fill ?cel ()\<rparr>\<rparr>"
    have new: "cells_tails ?c ! i \<noteq> tal" if "i < cells_fill ?c" "cells_heads ?c ! i = hed" for i
    proof
      assume tal: "cells_tails ?c ! i = tal"
      let ?k = "nref_of ur_icell i"
      have k: "?k \<in> ?K" "ur_nref_idx ?k = i" "ur_nref_tag ?k = ur_icell"
        using that(1) C(5,8) nref_of_tag_idx [of i ur_icell] by auto
      have "den r ?k (Cell x y)"
        using K(3,4) [OF k(1)] k(2) that(2) tal h t by (auto simp: den_Cell_iff)
      then have "?mug ?k = Some m"
        using den_mug [OF inv] by (simp add: m_def)
      then show False
        using d(3,4) Room k(1) K(3,4) [OF k(1)] k(2) that(2) tal by (auto simp: slot_ok_def)
    qed
    have fill: "cells_fill ?c < 2 ^ 62"
      using arena_fill(2) [OF inv S(2,1)] .
    have sz: "cells_fill ?c < cells_size ?c'" "0 < cells_prev ?c'"
      using C(3,4,9) by (auto simp: ur_cells_grow_def Let_def)
    have slot: "idx = unat m mod dict_size d \<and> b_fill = dict_fills d ! idx \<and> b_fill < ur_pail_max"
      using d(4) Room by (auto simp: slot_ok_def)
    have A: "cell_added murmur r hed tal m d idx b_fill ?r"
      using inv mugs new fill d(2,3) sz slot by (simp add: cell_added_def Let_def m_def ur_cells_grow_def cong: conj_cong)
    note R = cell_added_ok(1,2) [OF A] and den = cell_added_ok(3) [OF A h t]
    have "arena_nouns ?r \<subseteq> S"
    proof (rule arena_nouns_step [OF inv R _ den S(3,2)])
      show "valid r k \<or> k = ?cel" if "valid ?r k" for k
        using that nref_of_idx [of k] by (auto simp: valid_def cells_fill_def less_Suc_eq)
    qed
    moreover have "cons_unsafe ?c' m hed tal = Some (?cel, ?c'\<lparr>cells_mugs := cells_mugs ?c @ [m],
        cells_heads := cells_heads ?c @ [hed], cells_tails := cells_tails ?c @ [tal]\<rparr>)"
      using sz(1) fill by (auto simp: cons_unsafe_def ur_cells_grow_def cells_fill_def Let_def fill_met0 split: if_splits)
    then have "ur_cons murmur r hed tal = Some (?cel, ?r)"
      unfolding step Room by simp
    ultimately show ?thesis
      using R den by blast
  qed
qed

text \<open>A new atom.\<close>

definition atom_added ::
  "murmur \<Rightarrow> ur_root_t \<Rightarrow> nat \<Rightarrow> byte list \<Rightarrow> ur_mug \<Rightarrow> ur_dict_t \<Rightarrow> nat \<Rightarrow> nat \<Rightarrow> ur_root_t \<Rightarrow> bool" where
  "atom_added murmur r len byt m d idx b_fill r' \<longleftrightarrow>
     (let a = root_atoms r; fill = atoms_fill a; mug = ur_nref_mug murmur (Some r); tom = nref_of ur_iatom fill
      in root_inv murmur r \<and> atom_ok len byt \<and> 2 ^ 62 \<le> bytes_val len byt \<and> m = ur_mug_bytes murmur byt len \<and>
         (\<forall>i < fill. take (atoms_lens a ! i) (atoms_bytes a ! i) \<noteq> take len byt) \<and> fill < 2 ^ 62 \<and>
         dict_inv mug d \<and> dict_map d = dict_map (atoms_dict a) \<and>
         idx = unat m mod dict_size d \<and> b_fill = dict_fills d ! idx \<and> b_fill < ur_pail_max \<and>
         root_cells r' = root_cells r \<and> atoms_dict (root_atoms r') = dict_store d idx b_fill tom () \<and>
         atoms_mugs (root_atoms r') = atoms_mugs a @ [m] \<and> atoms_bytes (root_atoms r') = atoms_bytes a @ [byt] \<and>
         atoms_lens (root_atoms r') = atoms_lens a @ [len] \<and>
         0 < atoms_prev (root_atoms r') \<and> fill < atoms_size (root_atoms r'))"

lemma atom_added_arrays: "atom_added murmur r len byt m d idx b_fill r' \<Longrightarrow> arrays_le r r'"
  by (auto simp: atom_added_def arrays_le_def Let_def)

lemma atom_added_dict:
  assumes "atom_added murmur r len byt m d idx b_fill r'"
  shows "dict_inv (ur_nref_mug murmur (Some r')) (atoms_dict (root_atoms r'))"
    and "dom (dict_map (atoms_dict (root_atoms r'))) = nref_of ur_iatom ` {..<Suc (atoms_fill (root_atoms r))}"
proof -
  let ?fill = "atoms_fill (root_atoms r)" and ?tom = "nref_of ur_iatom (atoms_fill (root_atoms r))"
  from assms have inv: "atoms_inv murmur r" and fill: "?fill < 2 ^ 62"
    and d: "dict_inv (ur_nref_mug murmur (Some r)) d" "dict_map d = dict_map (atoms_dict (root_atoms r))"
    and slot: "idx = unat m mod dict_size d" "b_fill = dict_fills d ! idx" "b_fill < ur_pail_max"
    and r': "atoms_dict (root_atoms r') = dict_store d idx b_fill ?tom ()"
      "atoms_mugs (root_atoms r') = atoms_mugs (root_atoms r) @ [m]"
    unfolding atom_added_def root_inv_def Let_def by blast+
  note C = atoms_inv_simps [OF inv] and idx = nref_of_tag_idx [OF fill tags_less(1)]
  have mug: "ur_nref_mug murmur (Some r') ?tom = Some m"
    using idx C(6) by (simp add: ur_nref_mug_def r'(2))
  have new: "?tom \<notin> dom (dict_map d)"
    using idx(2) nref_of_tag_idx(2) [of _ ur_iatom] C(5,8) d(2) by (auto simp: less_le_trans)
  have "dict_inv (ur_nref_mug murmur (Some r')) d"
    using dict_map_mug [OF d(1)] arrays_le_known [OF atom_added_arrays [OF assms]] by (intro dict_inv_cong [OF d(1)]) auto
  from dict_store_ok [OF this mug new slot, of "()"]
  show "dict_inv (ur_nref_mug murmur (Some r')) (atoms_dict (root_atoms r'))"
    "dom (dict_map (atoms_dict (root_atoms r'))) = nref_of ur_iatom ` {..<Suc ?fill}"
    using C(8) d(2) by (simp_all add: r' lessThan_Suc)
qed

lemma atom_added_atoms:
  assumes A: "atom_added murmur r len byt m d idx b_fill r'"
  shows "atoms_inv murmur r'"
proof -
  let ?a = "root_atoms r" and ?a' = "root_atoms r'" and ?n = "atoms_fill (root_atoms r)"
  from A have inv: "atoms_inv murmur r" and fill: "?n < 2 ^ 62" "0 < atoms_prev ?a'" "?n < atoms_size ?a'"
    and r': "atoms_mugs ?a' = atoms_mugs ?a @ [m]" "atoms_bytes ?a' = atoms_bytes ?a @ [byt]" "atoms_lens ?a' = atoms_lens ?a @ [len]"
    and byt: "atom_ok len byt" "2 ^ 62 \<le> bytes_val len byt" "m = ur_mug_bytes murmur byt len"
    and new: "\<And>i. i < ?n \<Longrightarrow> take (atoms_lens ?a ! i) (atoms_bytes ?a ! i) \<noteq> take len byt"
    by (simp_all add: atom_added_def root_inv_def Let_def)
  note C = atoms_inv_simps [OF inv] and N = atoms_inv_nth [OF inv]
  have n: "atoms_fill ?a' = Suc ?n" "length (atoms_bytes ?a') = Suc ?n" "length (atoms_lens ?a') = Suc ?n"
    using C(1,2) by (simp_all add: r' atoms_fill_def)
  have nth: "atoms_bytes ?a' ! i = (if i = ?n then byt else atoms_bytes ?a ! i)"
    "atoms_lens ?a' ! i = (if i = ?n then len else atoms_lens ?a ! i)"
    "atoms_mugs ?a' ! i = (if i = ?n then m else atoms_mugs ?a ! i)" if "i < Suc ?n" for i
    using that C(1,2,6) by (auto simp: r' nth_append)
  have ok: "atom_ok (atoms_lens ?a' ! i) (atoms_bytes ?a' ! i) \<and> 2 ^ 62 \<le> bytes_val (atoms_lens ?a' ! i) (atoms_bytes ?a' ! i) \<and>
      atoms_mugs ?a' ! i = ur_mug_bytes murmur (atoms_bytes ?a' ! i) (atoms_lens ?a' ! i)" if "i < Suc ?n" for i
    using nth [OF that] N(1-3) [of i] byt that by (auto simp: less_Suc_eq)
  have inj: "i = j" if "i < Suc ?n" "j < Suc ?n"
    "take (atoms_lens ?a' ! i) (atoms_bytes ?a' ! i) = take (atoms_lens ?a' ! j) (atoms_bytes ?a' ! j)" for i j
    using that(3) new [of i] new [of j] N(4) [of i j] that(1,2)
    unfolding nth(1,2) [OF that(1)] nth(1,2) [OF that(2)] by (auto split: if_splits simp: less_Suc_eq)
  have "Suc ?n \<le> atoms_size ?a'" "0 < atoms_size ?a'" "Suc ?n \<le> 2 ^ 62"
    using fill by simp_all
  with n ok inj fill(2) atom_added_dict [OF A] show ?thesis
    unfolding atoms_inv_def Let_def n by blast
qed

lemma atom_added_ok:
  assumes A: "atom_added murmur r len byt m d idx b_fill r'"
  shows "root_inv murmur r'" and "arena_le r r'"
    and "den r' (nref_of ur_iatom (atoms_fill (root_atoms r))) (Atom (bytes_val len byt))"
proof -
  from A have inv: "root_inv murmur r" and a: "atoms_inv murmur r" and c: "cells_inv murmur r"
    and fill: "atoms_fill (root_atoms r) < 2 ^ 62" and r': "root_cells r' = root_cells r"
      "atoms_bytes (root_atoms r') = atoms_bytes (root_atoms r) @ [byt]" "atoms_lens (root_atoms r') = atoms_lens (root_atoms r) @ [len]"
      "atoms_mugs (root_atoms r') = atoms_mugs (root_atoms r) @ [m]"
    by (simp_all add: atom_added_def root_inv_def Let_def)
  note le = atom_added_arrays [OF A]
  have "dict_inv (ur_nref_mug murmur (Some r')) (cells_dict (root_cells r))"
    using dict_map_mug [OF cells_inv_simps(7) [OF c]] arrays_le_known [OF le]
    by (intro dict_inv_cong [OF cells_inv_simps(7) [OF c]]) auto
  moreover have "\<exists>hm tm. ur_nref_mug murmur (Some r') (cells_heads (root_cells r) ! i) = Some hm \<and>
      ur_nref_mug murmur (Some r') (cells_tails (root_cells r) ! i) = Some tm \<and> cells_mugs (root_cells r) ! i = ur_mug_both murmur hm tm"
    if "i < cells_fill (root_cells r)" for i
    using cells_inv_nth(3) [OF c that] arrays_le_mug [OF le] by blast
  ultimately have "cells_inv murmur r'"
    using c unfolding cells_inv_def Let_def r' by simp
  with atom_added_atoms [OF A] show "root_inv murmur r'"
    by (simp add: root_inv_def)
  show "arena_le r r'"
    by (rule arrays_le_den [OF inv le])
  show "den r' (nref_of ur_iatom (atoms_fill (root_atoms r))) (Atom (bytes_val len byt))"
    using nref_of_tag_idx [OF fill tags_less(1)] atoms_inv_simps(1,2) [OF a]
    by (simp add: den_Atom_iff r' atoms_fill_def nth_append)
qed

lemma atom_keys:
  assumes "atoms_inv murmur r" and "k \<in> dom (dict_map (atoms_dict (root_atoms r)))"
  defines "i \<equiv> ur_nref_idx k"
  shows "ur_nref_tag k = ur_iatom" and "i < atoms_fill (root_atoms r)"
    and "ur_bytes r k = Some (atoms_bytes (root_atoms r) ! i, atoms_lens (root_atoms r) ! i)"
proof -
  note C = atoms_inv_simps [OF assms(1)]
  obtain j where j: "j < atoms_fill (root_atoms r)" "k = nref_of ur_iatom j"
    using assms(2) C(8) by auto
  then have "ur_nref_tag k = ur_iatom" "i = j"
    using nref_of_tag_idx [of j ur_iatom] C(5) by (auto simp: i_def)
  with j show "ur_nref_tag k = ur_iatom" "i < atoms_fill (root_atoms r)"
    "ur_bytes r k = Some (atoms_bytes (root_atoms r) ! i, atoms_lens (root_atoms r) ! i)"
    by (auto simp: ur_bytes_def i_def)
qed

lemma bytes_val_take: "len \<le> length byt \<Longrightarrow> bytes_val len (take len byt) = bytes_val len byt"
proof (rule bit_eqI)
  fix i
  assume "len \<le> length byt"
  moreover have "i div 8 < len \<longleftrightarrow> i < 8 * len"
    by (simp add: div_less_iff_less_mult mult.commute)
  ultimately show "bit (bytes_val len (take len byt)) i = bit (bytes_val len byt) i"
    by (auto simp: bit_bytes_val mbit_def lmem_def)
qed

theorem ur_coin_bytes_unsafe_ok:
  assumes inv: "root_inv murmur r" and byt: "atom_ok len byt" "2 ^ 62 \<le> bytes_val len byt"
    and S: "mug_spread murmur S" "arena_nouns r \<subseteq> S" "Atom (bytes_val len byt) \<in> S"
  shows "\<exists>tom r'. ur_coin_bytes_unsafe murmur r len byt = Some (tom, r') \<and> root_inv murmur r' \<and> arena_le r r' \<and>
    den r' tom (Atom (bytes_val len byt)) \<and> arena_nouns r' \<subseteq> S"
proof -
  let ?a = "root_atoms r" and ?mug = "ur_nref_mug murmur (Some r)"
  let ?same = "\<lambda>tom. map_option (\<lambda>(t_byt, t_len). t_len = len \<and> take len t_byt = take len byt) (ur_bytes r tom)"
  define m where "m = ur_mug_bytes murmur byt len"
  have m: "noun_mug murmur (Atom (bytes_val len byt)) = m"
    using byt(1) nat_bytes_val [OF byt(1)] ur_mug_bytes_take [of len byt murmur] by (simp add: m_def atom_ok_def)
  have a: "atoms_inv murmur r"
    using inv by (simp add: root_inv_def)
  note C = atoms_inv_simps [OF a] and K = atom_keys [OF a] and N = atoms_inv_nth [OF a]
  let ?K = "dom (dict_map (atoms_dict ?a))"
  have valid: "valid r k \<and> ur_nref_tag k \<noteq> ur_direct" if "k \<in> ?K" for k
    using K [OF that] by (simp add: valid_def)
  have sp: "spread ?mug ?K"
    using arena_keys [OF inv _ _ S(2)] valid by (intro spread_refs(2) [OF inv _ S(1)]) blast
  have same: "?same k = Some True \<longleftrightarrow> den r k (Atom (bytes_val len byt))" if "k \<in> ?K" for k
  proof -
    note k = K [OF that]
    show ?thesis
      using k bytes_val_inj [OF N(1) [OF k(2)] byt(1)] byt(1) N(1) [OF k(2)]
        bytes_val_take [of len byt] bytes_val_take [of "atoms_lens ?a ! ur_nref_idx k" "atoms_bytes ?a ! ur_nref_idx k"]
      unfolding den_Atom_iff by (auto simp: atom_ok_def)
  qed
  then have few: "card {k \<in> ?K. ?mug k = Some m} < ur_pail_max \<or> (\<exists>k \<in> ?K. ?mug k = Some m \<and> ?same k = Some True)"
    using few_refs [OF inv valid S(2,1,3), of ?K "\<lambda>k. ?same k = Some True"] unfolding m by blast
  have m31: "unat m < 2 ^ 31"
    using ur_mug_bytes_ok by (simp add: m_def mug_ok_def)
  have eq: "?same k \<noteq> None" if "k \<in> ?K" for k
    using K(3) [OF that] by auto
  obtain d s where d: "dict_seek ?mug ?same m (atoms_dict ?a) = Some (d, s)" "dict_inv ?mug d"
      "dict_map d = dict_map (atoms_dict ?a)" "slot_ok ?mug ?same m d s"
    using dict_seek_ok [OF C(7) sp root_mugs_31 [OF inv] m31 eq few] by blast
  note step = ur_coin_bytes_unsafe_def prod.case option.case Let_def m_def [symmetric] d(1)
  show ?thesis
  proof (cases s)
    case (Found idx i)
    let ?k = "pail_refs (dict_buckets d ! idx) ! i" and ?r = "r\<lparr>root_atoms := ?a\<lparr>atoms_dict := d\<rparr>\<rparr>"
    note R = root_inv_atoms_dict [OF inv d(2,3)]
    have "den r ?k (Atom (bytes_val len byt))"
      using found_key [OF d(2) d(4) [unfolded Found]] d(3) same by auto
    then have "den ?r ?k (Atom (bytes_val len byt))"
      using R(2) arena_leD by blast
    moreover have "arena_nouns ?r \<subseteq> S"
      by (rule arena_nouns_step [OF inv R _ calculation S(3,2)]) (auto simp: valid_def atoms_fill_def)
    moreover have "ur_coin_bytes_unsafe murmur r len byt = Some (?k, ?r)"
      unfolding step Found by simp
    ultimately show ?thesis
      using R by blast
  next
    case (Room idx b_fill)
    let ?a' = "if atoms_fill ?a = atoms_size ?a then ur_atoms_grow ?a else ?a" and ?tom = "nref_of ur_iatom (atoms_fill ?a)"
    let ?r = "r\<lparr>root_atoms := ?a'\<lparr>atoms_bytes := atoms_bytes ?a @ [byt], atoms_lens := atoms_lens ?a @ [len],
      atoms_mugs := atoms_mugs ?a @ [m], atoms_dict := dict_store d idx b_fill ?tom ()\<rparr>\<rparr>"
    have new: "take (atoms_lens ?a ! i) (atoms_bytes ?a ! i) \<noteq> take len byt" if i: "i < atoms_fill ?a" for i
    proof
      assume t: "take (atoms_lens ?a ! i) (atoms_bytes ?a ! i) = take len byt"
      let ?k = "nref_of ur_iatom i"
      have k: "?k \<in> ?K" "ur_nref_idx ?k = i" "ur_nref_tag ?k = ur_iatom"
        using i C(5,8) nref_of_tag_idx [of i ur_iatom] by auto
      have "length (take (atoms_lens ?a ! i) (atoms_bytes ?a ! i)) = length (take len byt)"
        using t by simp
      then have "atoms_lens ?a ! i = len"
        using byt(1) N(1) [OF i] by (simp add: atom_ok_def)
      then have "?same ?k = Some True"
        using K(3) [OF k(1)] k(2) t by simp
      moreover from this have "?mug ?k = Some m"
        using same [OF k(1)] den_mug [OF inv] m by blast
      ultimately show False
        using d(3,4) Room k(1) by (auto simp: slot_ok_def)
    qed
    have fill: "atoms_fill ?a < 2 ^ 62"
      using arena_fill(1) [OF inv S(2,1)] .
    have sz: "atoms_fill ?a < atoms_size ?a'" "0 < atoms_prev ?a'"
      using C(3,4,9) by (auto simp: ur_atoms_grow_def Let_def)
    have slot: "idx = unat m mod dict_size d \<and> b_fill = dict_fills d ! idx \<and> b_fill < ur_pail_max"
      using d(4) Room by (auto simp: slot_ok_def)
    have A: "atom_added murmur r len byt m d idx b_fill ?r"
      using inv byt new fill d(2,3) sz slot by (simp add: atom_added_def Let_def m_def ur_atoms_grow_def cong: conj_cong)
    note R = atom_added_ok(1,2) [OF A] and den = atom_added_ok(3) [OF A]
    have "arena_nouns ?r \<subseteq> S"
    proof (rule arena_nouns_step [OF inv R _ den S(3,2)])
      show "valid r k \<or> k = ?tom" if "valid ?r k" for k
        using that nref_of_idx [of k] by (auto simp: valid_def atoms_fill_def less_Suc_eq)
    qed
    moreover have "coin_unsafe ?a' m len byt = Some (?tom, ?a'\<lparr>atoms_bytes := atoms_bytes ?a @ [byt],
        atoms_lens := atoms_lens ?a @ [len], atoms_mugs := atoms_mugs ?a @ [m]\<rparr>)"
      using sz(1) fill by (auto simp: coin_unsafe_def ur_atoms_grow_def atoms_fill_def Let_def fill_met0 split: if_splits)
    then have "ur_coin_bytes_unsafe murmur r len byt = Some (?tom, ?r)"
      unfolding step Room by simp
    ultimately show ?thesis
      using R den by blast
  qed
qed

section \<open>Measures, machine words and setup\<close>

lemma ur_met0_den:
  assumes "root_inv murmur r" and "den r ref (Atom a)"
  shows "ur_met r 0 ref = Some (met0 a)"
proof -
  have inv: "atoms_inv murmur r"
    using assms(1) by (simp add: root_inv_def)
  from assms(2) consider "ur_nref_tag ref = ur_direct" "a = unat ref" |
    "ur_nref_tag ref = ur_iatom" "ur_nref_idx ref < atoms_fill (root_atoms r)"
    "a = bytes_val (atoms_lens (root_atoms r) ! ur_nref_idx ref) (atoms_bytes (root_atoms r) ! ur_nref_idx ref)"
    unfolding den_Atom_iff by blast
  then show ?thesis
  proof cases
    case 1
    then show ?thesis
      by (simp add: ur_met_def ur_deep_def ur_met0_simps)
  next
    case 2
    note N = atoms_inv_nth(1) [OF inv 2(2)]
    have "ur_met0_bytes_unsafe (atoms_lens (root_atoms r) ! ur_nref_idx ref) (atoms_bytes (root_atoms r) ! ur_nref_idx ref) = Some (met0 a)"
      using N met0_bytes_val [OF N] 2(3) by (simp add: ur_met0_bytes_unsafe_def atom_ok_def Let_def ur_met0_simps mult.commute)
    then show ?thesis
      using 2 by (simp add: ur_met_def ur_deep_def)
  qed
qed

text \<open>Rounding up to bytes and then to larger blocks is rounding up once.\<close>

lemma ceil_div_8:
  assumes "3 \<le> (b :: nat)"
  shows "((m + 7) div 8 + (2 ^ (b - 3) - 1)) div 2 ^ (b - 3) = (m + (2 ^ b - 1)) div (2 ^ b :: nat)"
proof -
  obtain k where b: "b = k + 3"
    using assms by (metis add.commute le_add_diff_inverse)
  have e: "(2 :: nat) ^ b = 8 * 2 ^ k"
    by (simp add: b power_add)
  have "(m + 7) div 8 + (2 ^ k - 1) = (m + 7 + 8 * (2 ^ k - 1)) div (8 :: nat)"
    by simp
  also have "m + 7 + 8 * (2 ^ k - 1) = m + (8 * 2 ^ k - 1 :: nat)"
    by (simp add: diff_mult_distrib2)
  finally have "((m + 7) div 8 + (2 ^ k - 1)) div 2 ^ k = (m + (8 * 2 ^ k - 1)) div (8 * 2 ^ k :: nat)"
    by (simp add: div_mult2_eq)
  then show ?thesis
    unfolding e by (simp add: b)
qed

lemma ur_met_den:
  assumes "root_inv murmur r" and "den r ref (Atom a)" and "met0 a < 2 ^ 62" and "bloq \<le> 62"
  shows "ur_met r bloq ref = Some ((met0 a + (2 ^ bloq - 1)) div 2 ^ bloq)"
proof -
  let ?m = "met0 a"
  define f where "f m_bit = (if bloq = 0 then Some m_bit
           else if bloq = 1 then Some (ur_bloq_up1 m_bit)
           else if bloq = 2 then Some (ur_bloq_up2 m_bit)
           else if bloq = 3 then Some (ur_bloq_up3 m_bit)
           else let m_byt = ur_bloq_up3 m_bit; off = bloq - 3
                in if off < 64 then Some (u64 (m_byt + (2 ^ off - 1)) div 2 ^ off) else None)" for m_bit
  have "ur_met r bloq ref = Option.bind (ur_met r 0 ref) f"
    by (simp add: ur_met_def f_def [abs_def] del: bind_split)
  then have "ur_met r bloq ref = f ?m"
    using ur_met0_den [OF assms(1,2)] by simp
  also have "\<dots> = Some ((?m + (2 ^ bloq - 1)) div 2 ^ bloq)"
  proof (cases "bloq \<le> 3")
    case True
    then have "bloq = 0 \<or> bloq = 1 \<or> bloq = 2 \<or> bloq = 3"
      by linarith
    then show ?thesis
      by (auto simp: f_def ur_bloq_up1_def ur_bloq_up2_def ur_bloq_up3_def)
  next
    case False
    have "(2 :: nat) ^ (bloq - 3) \<le> 2 ^ 62"
      using assms(4) by (intro power_increasing) auto
    moreover have "(?m + 7) div 8 \<le> ?m + 7"
      by (rule div_le_dividend)
    ultimately have "ur_bloq_up3 ?m + (2 ^ (bloq - 3) - 1) < 2 ^ 64"
      using assms(3) unfolding ur_bloq_up3_def by (simp add: algebra_simps)
    then have "u64 (ur_bloq_up3 ?m + (2 ^ (bloq - 3) - 1)) div 2 ^ (bloq - 3) = (?m + (2 ^ bloq - 1)) div 2 ^ bloq"
      using ceil_div_8 [of bloq ?m] False by (simp add: u64_def ur_bloq_up3_def)
    then show ?thesis
      using False assms(4) by (simp add: f_def Let_def)
  qed
  finally show ?thesis .
qed

lemma le_bytes_word:
  assumes "2 ^ 62 \<le> unat (n :: u64)"
  shows "bytes_val 8 (le_bytes 8 n) = unat n" and "atom_ok 8 (le_bytes 8 n)" and "ur_met3_64 n = 8"
proof -
  have m: "62 < met0 (unat n)" "met0 (unat n) \<le> 64"
    using assms met0_le_iff [of "unat n" 62] met0_unat_le [of n] by auto
  then show met: "ur_met3_64 n = 8"
    by (simp add: ur_met3_64_def ur_bloq_up3_def ur_met0_simps)
  have nth: "le_bytes 8 n ! i = ucast (drop_bit (8 * i) n)" if "i < 8" for i
    using that by (simp add: le_bytes_def)
  show "bytes_val 8 (le_bytes 8 n) = unat n"
  proof (rule bit_eqI)
    fix i
    have "mbit (lmem (le_bytes 8 n)) i = bit n i" if "i < 64"
    proof -
      have "i div 8 < 8"
        using that by (simp add: div_less_iff_less_mult)
      then show ?thesis
        using nth [of "i div 8"] by (simp add: mbit_def lmem_def le_bytes_def bit_simps)
    qed
    then show "bit (bytes_val 8 (le_bytes 8 n)) i = bit (unat n) i"
      using bit_imp_le_length [of n i] by (auto simp: bit_bytes_val bit_unsigned_iff)
  qed
  have "bit n (met0 (unat n) - 1)"
    using met0_top_bit [of "unat n"] assms by (simp add: bit_unsigned_iff)
  then have "bit (le_bytes 8 n ! 7) (met0 (unat n) - 57)"
    using m by (simp add: nth bit_simps)
  then have "le_bytes 8 n ! 7 \<noteq> 0"
    by (metis bit_0_eq bot_apply bot_bool_def)
  then show "atom_ok 8 (le_bytes 8 n)"
    by (simp add: atom_ok_def le_bytes_def)
qed

lemma ur_coin64_ok:
  assumes inv: "root_inv murmur r" and S: "mug_spread murmur S" "arena_nouns r \<subseteq> S" "Atom (unat n) \<in> S"
  shows "\<exists>ref r'. ur_coin64 murmur r n = Some (ref, r') \<and> root_inv murmur r' \<and> arena_le r r' \<and>
    den r' ref (Atom (unat n)) \<and> arena_nouns r' \<subseteq> S"
proof (cases "ur_nref_tag n = ur_direct")
  case True
  then show ?thesis
    using inv S(2) by (auto simp: ur_coin64_def intro: den.direct)
next
  case False
  then have "2 ^ 62 \<le> unat n"
    by (simp add: direct_iff)
  note L = le_bytes_word [OF this]
  show ?thesis
    using ur_coin_bytes_unsafe_ok [OF inv L(2), of S] L \<open>2 ^ 62 \<le> unat n\<close> S False by (simp add: ur_coin64_def)
qed

lemma ur_root_init_ok:
  "\<exists>r. ur_root_init murmur = Some r \<and> root_inv murmur r \<and> atoms_fill (root_atoms r) = 0 \<and> cells_fill (root_cells r) = 0"
proof -
  define r1 where "r1 = root_zero\<lparr>root_atoms := ur_atoms_grow ((root_atoms root_zero)\<lparr>atoms_prev := ur_fib11, atoms_size := ur_fib12\<rparr>)\<rparr>"
  have mugs: "mugs_31 (ur_nref_mug murmur (Some r))"
    if "atoms_mugs (root_atoms r) = []" "cells_mugs (root_cells r) = []" for r
    using that ur_mug64_ok [of murmur] by (auto simp: mugs_31_def ur_nref_mug_def nth_opt_def mug_ok_def)
  have r1: "atoms_mugs (root_atoms r1) = []" "cells_mugs (root_cells r1) = []" "atoms_dict (root_atoms r1) = dict_zero"
    by (simp_all add: r1_def root_zero_def ur_atoms_grow_def Let_def)
  have fib: "0 < ur_fib11" "0 < ur_fib12"
    by (simp_all add: ur_fib11_def ur_fib12_def)
  obtain d1 :: ur_dict_t where d1: "dict_grow (ur_nref_mug murmur (Some r1)) dict_zero ur_fib11 ur_fib12 = Some d1"
      "dict_inv (ur_nref_mug murmur (Some r1)) d1" "dict_map d1 = Map.empty"
    using dict_grow_zero [OF fib mugs [OF r1(1,2)]] by blast
  let ?r = "r1\<lparr>root_atoms := (root_atoms r1)\<lparr>atoms_dict := d1\<rparr>\<rparr>"
  define r2 where "r2 = ?r\<lparr>root_cells := ur_cells_grow ((root_cells ?r)\<lparr>cells_prev := ur_fib11, cells_size := ur_fib12\<rparr>)\<rparr>"
  have r2: "atoms_mugs (root_atoms r2) = []" "cells_mugs (root_cells r2) = []" "cells_dict (root_cells r2) = dict_zero"
    by (simp_all add: r2_def r1_def root_zero_def ur_atoms_grow_def ur_cells_grow_def Let_def)
  obtain d2 :: ur_dict_t where d2: "dict_grow (ur_nref_mug murmur (Some r2)) dict_zero ur_fib11 ur_fib12 = Some d2"
      "dict_inv (ur_nref_mug murmur (Some r2)) d2" "dict_map d2 = Map.empty"
    using dict_grow_zero [OF fib mugs [OF r2(1,2)]] by blast
  define r3 where "r3 = r2\<lparr>root_cells := (root_cells r2)\<lparr>cells_dict := d2\<rparr>\<rparr>"
  have init: "ur_root_init murmur = Some r3"
    unfolding ur_root_init_def Let_def ur_dict_grow_def r1_def [symmetric] r1(3) d1(1) bind.bind_lunit
      r2_def [symmetric] r2(3) d2(1) r3_def ..
  have r3: "ur_nref_mug murmur (Some r3) = ur_nref_mug murmur (Some r2)"
    by (simp add: r3_def mug_dicts)
  have "ur_nref_mug murmur (Some r2) = ur_nref_mug murmur (Some r1)"
    using r1 r2 by (auto simp: ur_nref_mug_def fun_eq_iff)
  then have "dict_inv (ur_nref_mug murmur (Some r3)) d1"
    using d1(2) r3 by simp
  moreover have "root_atoms r3 = (root_atoms r1)\<lparr>atoms_dict := d1\<rparr>" "root_cells r3 = (root_cells r2)\<lparr>cells_dict := d2\<rparr>"
    by (simp_all add: r3_def r2_def)
  ultimately have "root_inv murmur r3" "atoms_fill (root_atoms r3) = 0" "cells_fill (root_cells r3) = 0"
    using d1(3) d2(2,3) r3
    by (simp_all add: root_inv_def atoms_inv_def cells_inv_def Let_def atoms_fill_def cells_fill_def r2_def r1_def
        root_zero_def ur_atoms_grow_def ur_cells_grow_def ur_fib11_def ur_fib12_def)
  with init show ?thesis
    by blast
qed

lemma arena_nouns_empty:
  assumes "root_inv murmur r" and "atoms_fill (root_atoms r) = 0" and "cells_fill (root_cells r) = 0"
  shows "arena_nouns r = {}"
  using den_valid [OF assms(1)] assms(2,3) by (auto simp: arena_nouns_def valid_def)

end
