(* ===== verification/Ur_Walk.thy ===== *)
theory Ur_Walk
  imports Ur_Arena
begin

text \<open>
  The noun traversal of \<^verbatim>\<open>pkg/ur/hashcons.c\<close>: depth-first, pre-order, with a reusable stack
  and callbacks that update a state of any type; the callback for cells can cut a subtree off.

  The callbacks take the reference and the state (the \<^verbatim>\<open>void*\<close> of the code); \<open>None\<close> is a callback
  that fails. The stack counters are exact numbers: a stack of \<open>2^32\<close> references is out of reach.
\<close>

section \<open>Definitions\<close>

record ur_walk_fore_t =
  walk_prev :: nat
  walk_size :: nat
  walk_top :: "ur_nref list"

text \<open>The contents of a fresh stack are arbitrary; they are never read.\<close>

definition ur_walk_fore_init_with :: "nat \<Rightarrow> nat \<Rightarrow> ur_walk_fore_t" where
  "ur_walk_fore_init_with s_prev s_size = \<lparr>walk_prev = s_prev, walk_size = s_size, walk_top = replicate s_size 0\<rparr>"

definition ur_walk_fore_init :: ur_walk_fore_t where
  "ur_walk_fore_init = ur_walk_fore_init_with ur_fib10 ur_fib11"

text \<open>The body of the loop: the new stack, its fill and the state.\<close>

definition walk_step ::
  "ur_root_t \<Rightarrow> (ur_nref \<Rightarrow> 'v \<Rightarrow> 'v option) \<Rightarrow> (ur_nref \<Rightarrow> 'v \<Rightarrow> (bool \<times> 'v) option) \<Rightarrow>
    ur_walk_fore_t \<Rightarrow> nat \<Rightarrow> ur_nref \<Rightarrow> 'v \<Rightarrow> (ur_walk_fore_t \<times> nat \<times> 'v) option" where
  "walk_step r atom cell w fill ref v =
     (if \<not> ur_deep ref then map_option (\<lambda>v. (w, fill - 1, v)) (atom ref v)
      else Option.bind (cell ref v) (\<lambda>(more, v).
        if \<not> more then Some (w, fill - 1, v)
        else Option.bind (ur_tail r ref) (\<lambda>tal.
             if length (walk_top w) \<le> fill then None
             else let w = w\<lparr>walk_top := (walk_top w)[fill := tal]\<rparr>; fill = fill + 1;
                      w = (if walk_size w = fill
                           then let next = walk_prev w + walk_size w
                                in w\<lparr>walk_top := walk_top w @ replicate (walk_prev w) 0, walk_prev := walk_size w, walk_size := next\<rparr>
                           else w)
                  in Option.bind (ur_head r ref) (\<lambda>hed.
                     if length (walk_top w) \<le> fill then None
                     else Some (w\<lparr>walk_top := (walk_top w)[fill := hed]\<rparr>, fill, v)))))"

partial_function (option) walk_loop ::
  "ur_root_t \<Rightarrow> (ur_nref \<Rightarrow> 'v \<Rightarrow> 'v option) \<Rightarrow> (ur_nref \<Rightarrow> 'v \<Rightarrow> (bool \<times> 'v) option) \<Rightarrow>
    ur_walk_fore_t \<Rightarrow> nat \<Rightarrow> ur_nref \<Rightarrow> 'v \<Rightarrow> (ur_walk_fore_t \<times> 'v) option" where
  "walk_loop r atom cell w fill ref v =
     Option.bind (walk_step r atom cell w fill ref v) (\<lambda>(w, fill, v).
       if length (walk_top w) \<le> fill then None
       else if fill = 0 then Some (w, v)
       else walk_loop r atom cell w fill (walk_top w ! fill) v)"

definition ur_walk_fore_with ::
  "ur_root_t \<Rightarrow> ur_walk_fore_t \<Rightarrow> ur_nref \<Rightarrow> 'v \<Rightarrow> (ur_nref \<Rightarrow> 'v \<Rightarrow> 'v option) \<Rightarrow>
    (ur_nref \<Rightarrow> 'v \<Rightarrow> (bool \<times> 'v) option) \<Rightarrow> (ur_walk_fore_t \<times> 'v) option" where
  "ur_walk_fore_with r w ref v atom cell =
     (if walk_top w = [] then None
      else walk_loop r atom cell (w\<lparr>walk_top := (walk_top w)[0 := ref]\<rparr>) 1 ref v)"

definition ur_walk_fore ::
  "ur_root_t \<Rightarrow> ur_nref \<Rightarrow> 'v \<Rightarrow> (ur_nref \<Rightarrow> 'v \<Rightarrow> 'v option) \<Rightarrow> (ur_nref \<Rightarrow> 'v \<Rightarrow> (bool \<times> 'v) option) \<Rightarrow> 'v option" where
  "ur_walk_fore r ref v atom cell = map_option snd (ur_walk_fore_with r ur_walk_fore_init ref v atom cell)"

section \<open>The recursive traversal\<close>

text \<open>What the loop should compute: visit the cell, then its head, then its tail.\<close>

inductive walks ::
  "ur_root_t \<Rightarrow> (ur_nref \<Rightarrow> 'v \<Rightarrow> 'v option) \<Rightarrow> (ur_nref \<Rightarrow> 'v \<Rightarrow> (bool \<times> 'v) option) \<Rightarrow> ur_nref \<Rightarrow> 'v \<Rightarrow> 'v \<Rightarrow> bool"
  for r atom cell where
  atom: "\<not> ur_deep ref \<Longrightarrow> atom ref v = Some v' \<Longrightarrow> walks r atom cell ref v v'"
| cut: "ur_deep ref \<Longrightarrow> cell ref v = Some (False, v') \<Longrightarrow> walks r atom cell ref v v'"
| cell: "ur_deep ref \<Longrightarrow> cell ref v = Some (True, v1) \<Longrightarrow> ur_head r ref = Some h \<Longrightarrow> ur_tail r ref = Some t \<Longrightarrow>
    walks r atom cell h v1 v2 \<Longrightarrow> walks r atom cell t v2 v' \<Longrightarrow> walks r atom cell ref v v'"

definition walk_ok :: "ur_walk_fore_t \<Rightarrow> nat \<Rightarrow> bool" where
  "walk_ok w fill \<longleftrightarrow> length (walk_top w) = walk_size w \<and> fill < walk_size w \<and> 0 < walk_prev w"

text \<open>What is left to do once the reference on top of the stack has been visited.\<close>

definition walk_rest where
  "walk_rest r atom cell w fill v = (if fill = 0 then Some (w, v) else walk_loop r atom cell w fill (walk_top w ! fill) v)"

lemma walk_loop_rest:
  assumes "walk_step r atom cell w fill ref v = Some (w', fill', v')" and "walk_ok w' fill'"
  shows "walk_loop r atom cell w fill ref v = walk_rest r atom cell w' fill' v'"
  using assms by (subst walk_loop.simps) (simp add: walk_rest_def walk_ok_def)

lemma walk_loop_walks:
  assumes "walks r atom cell ref v v'" and "walk_ok w fill" and "0 < fill"
  shows "\<exists>w'. walk_loop r atom cell w fill ref v = walk_rest r atom cell w' (fill - 1) v' \<and>
    walk_ok w' fill \<and> take fill (walk_top w') = take fill (walk_top w)"
  using assms
proof (induction arbitrary: w fill rule: walks.induct)
  case (atom ref v v')
  then show ?case
    using walk_loop_rest [of r atom cell w fill ref v w "fill - 1" v'] by (auto simp: walk_step_def walk_ok_def)
next
  case (cut ref v v')
  then show ?case
    using walk_loop_rest [of r atom cell w fill ref v w "fill - 1" v'] by (auto simp: walk_step_def walk_ok_def)
next
  case (cell ref v v1 h t v2 v')
  define w1 where "w1 = w\<lparr>walk_top := (walk_top w)[fill := t]\<rparr>"
  define w2 where "w2 = (if walk_size w1 = fill + 1
    then w1\<lparr>walk_top := walk_top w1 @ replicate (walk_prev w1) 0, walk_prev := walk_size w1, walk_size := walk_prev w1 + walk_size w1\<rparr>
    else w1)"
  define w3 where "w3 = w2\<lparr>walk_top := (walk_top w2)[fill + 1 := h]\<rparr>"
  have ok: "walk_ok w3 (fill + 1)" "walk_ok w2 (fill + 1)"
    using cell.prems by (auto simp: walk_ok_def w3_def w2_def w1_def)
  have top: "take (fill + 1) (walk_top w3) = take fill (walk_top w) @ [t]" "walk_top w3 ! (fill + 1) = h"
    using cell.prems ok(2)
    by (auto simp: w3_def w2_def w1_def walk_ok_def take_Suc_conv_app_nth nth_append)
  have "walk_step r atom cell w fill ref v = Some (w3, fill + 1, v1)"
  proof -
    have "\<not> length (walk_top w) \<le> fill" "\<not> length (walk_top w2) \<le> fill + 1" "\<not> \<not> ur_deep ref"
      using cell.prems ok(2) cell.hyps(1) by (auto simp: walk_ok_def)
    then show ?thesis
      using cell.hyps(2-4) unfolding w3_def
      by (simp only: walk_step_def Let_def w1_def [symmetric] w2_def [symmetric] if_False if_True bind.bind_lunit
          prod.case not_True_eq_False)
  qed
  then have 1: "walk_loop r atom cell w fill ref v = walk_loop r atom cell w3 (fill + 1) h v1"
    using walk_loop_rest [of r atom cell w fill ref v w3 "fill + 1" v1] ok(1) top(2) by (simp add: walk_rest_def)
  obtain w4 where 2: "walk_loop r atom cell w3 (fill + 1) h v1 = walk_rest r atom cell w4 fill v2"
      "walk_ok w4 (fill + 1)" "take (fill + 1) (walk_top w4) = take (fill + 1) (walk_top w3)"
    using cell.IH(1) [OF ok(1)] by auto
  have w4: "walk_top w4 ! fill = t" "take fill (walk_top w4) = take fill (walk_top w)"
  proof -
    have "fill < length (take (fill + 1) (walk_top w4))"
      using 2(2) by (simp add: walk_ok_def)
    then have "walk_top w4 ! fill = take (fill + 1) (walk_top w4) ! fill"
      by simp
    also have "\<dots> = (take fill (walk_top w) @ [t]) ! fill"
      using 2(3) top(1) by simp
    finally show "walk_top w4 ! fill = t"
      using cell.prems by (simp add: walk_ok_def nth_append)
    have "take fill (take (fill + 1) (walk_top w4)) = take fill (take fill (walk_top w) @ [t])"
      using 2(3) top(1) by simp
    then show "take fill (walk_top w4) = take fill (walk_top w)"
      using cell.prems by (simp add: walk_ok_def min_def)
  qed
  have 3: "walk_rest r atom cell w4 fill v2 = walk_loop r atom cell w4 fill t v2"
    using cell.prems w4(1) by (simp add: walk_rest_def)
  have "walk_ok w4 fill"
    using 2(2) by (simp add: walk_ok_def)
  from cell.IH(2) [OF this cell.prems(2)] w4(2) show ?case
    unfolding 1 2(1) 3 by auto
qed

theorem ur_walk_fore_walks:
  assumes "walks r atom cell ref v v'" and "walk_ok w 1"
  shows "\<exists>w'. ur_walk_fore_with r w ref v atom cell = Some (w', v') \<and> walk_ok w' 1"
proof -
  let ?w = "w\<lparr>walk_top := (walk_top w)[0 := ref]\<rparr>"
  have "walk_ok ?w 1" "walk_top w \<noteq> []"
    using assms(2) by (auto simp: walk_ok_def)
  then show ?thesis
    using walk_loop_walks [OF assms(1), of ?w 1] by (auto simp: ur_walk_fore_with_def walk_rest_def)
qed

lemma ur_walk_fore_init_ok: "walk_ok ur_walk_fore_init 1"
  by (simp add: walk_ok_def ur_walk_fore_init_def ur_walk_fore_init_with_def ur_fib10_def ur_fib11_def)

text \<open>The recursive traversal ends on every reference that denotes a noun, when the callbacks succeed.\<close>

lemma walks_total:
  assumes "den r ref n"
    and "\<And>ref v. \<exists>v'. atom ref v = Some v'" and "\<And>ref v. \<exists>b v'. cell ref v = Some (b, v')"
  shows "\<exists>v'. walks r atom cell ref v v'"
  using assms(1)
proof (induction arbitrary: v rule: den.induct)
  case (icell ref h t n m)
  have deep: "ur_deep ref"
    using icell(1) by (simp add: ur_head_Some ur_deep_def)
  obtain b v1 where c: "cell ref v = Some (b, v1)"
    using assms(3) by blast
  show ?case
  proof (cases b)
    case True
    obtain v2 where v2: "walks r atom cell h v1 v2"
      using icell.IH(1) by blast
    obtain v3 where v3: "walks r atom cell t v2 v3"
      using icell.IH(2) by blast
    show ?thesis
      using walks.cell [OF deep _ icell(1,2) v2 v3] c True by auto
  next
    case False
    then have "walks r atom cell ref v v1"
      using deep c by (intro walks.cut) auto
    then show ?thesis ..
  qed
next
  case (direct ref)
  then have "\<not> ur_deep ref"
    by (simp add: ur_deep_def)
  then show ?case
    using assms(2) walks.atom by metis
next
  case (iatom ref)
  then have "\<not> ur_deep ref"
    by (simp add: ur_deep_def)
  then show ?case
    using assms(2) walks.atom by metis
qed

end
