(* ===== verification/Bitstream_Reader.thy ===== *)
theory Bitstream_Reader
  imports Ur_Defs
begin

text \<open>
  The bitstream reader of \<^verbatim>\<open>pkg/ur/bitstream.c\<close>: the state \<^verbatim>\<open>ur_bsr_t\<close>, one definition per
  operation, and what each operation does to the stream of remaining bits.

  A read returns its value and the new reader state; a read that can fail returns a sum, the
  failing \<^verbatim>\<open>ur_cue_res_e\<close> on the left. The reader's \<open>bytes\<close> pointer is an index into a byte
  memory, or \<open>None\<close> for the null pointer the code stores at the end of the stream.
\<close>

section \<open>State\<close>

record ur_bsr_t =
  bsr_left :: nat
  bsr_bits :: nat
  bsr_off :: nat
  bsr_bytes :: "nat option"

datatype ur_cue_res_e = ur_cue_good | ur_cue_back | ur_cue_gone | ur_cue_meme

datatype ur_cue_tag_e = ur_jam_atom | ur_jam_cell | ur_jam_back

text \<open>The address a pointer holds; the null pointer is address 0.\<close>

definition bsr_ptr :: "ur_bsr_t \<Rightarrow> nat" where
  "bsr_ptr s = (case bsr_bytes s of None \<Rightarrow> 0 | Some p \<Rightarrow> p)"

definition bsr_zero :: ur_bsr_t where
  "bsr_zero = \<lparr>bsr_left = 0, bsr_bits = 0, bsr_off = 0, bsr_bytes = None\<rparr>"

section \<open>Operations\<close>

definition ur_bsr_init :: "ur_bsr_t \<Rightarrow> nat \<Rightarrow> nat \<Rightarrow> ur_cue_res_e \<times> ur_bsr_t" where
  "ur_bsr_init s len bytes =
     (if u64 (len * 8) < len then (ur_cue_meme, s)
      else (ur_cue_good, s\<lparr>bsr_left := len, bsr_bytes := Some bytes\<rparr>))"

definition ur_bsr_sane :: "ur_bsr_t \<Rightarrow> bool" where
  "ur_bsr_sane s =
     (let ret = (bsr_off s < 8)
      in if bsr_left s = 0 then ret \<and> bsr_off s = 0 \<and> bsr_bytes s = None else ret)"

definition ur_bsr_bit :: "memory \<Rightarrow> ur_bsr_t \<Rightarrow> (ur_cue_res_e + byte) \<times> ur_bsr_t" where
  "ur_bsr_bit mem s =
     (let left = bsr_left s
      in if left = 0 then (Inl ur_cue_gone, s)
         else let b = bsr_ptr s; off = bsr_off s; bit = drop_bit off (mem b) AND 1;
                  s' = (if off = 7
                        then s\<lparr>bsr_bytes := (if left - 1 \<noteq> 0 then Some (b + 1) else None),
                               bsr_left := left - 1, bsr_off := 0\<rparr>
                        else s\<lparr>bsr_off := 1 + off\<rparr>)
              in (Inr bit, s'\<lparr>bsr_bits := u64 (bsr_bits s' + 1)\<rparr>))"

definition ur_bsr_bit_any :: "memory \<Rightarrow> ur_bsr_t \<Rightarrow> byte \<times> ur_bsr_t" where
  "ur_bsr_bit_any mem s0 =
     (let left = bsr_left s0; s = s0\<lparr>bsr_bits := u64 (bsr_bits s0 + 1)\<rparr>
      in if left = 0 then (0, s)
         else let b = bsr_ptr s; off = bsr_off s; bit = drop_bit off (mem b) AND 1
              in (bit,
                  if off = 7
                  then s\<lparr>bsr_bytes := (if left - 1 \<noteq> 0 then Some (b + 1) else None),
                         bsr_left := left - 1, bsr_off := 0\<rparr>
                  else s\<lparr>bsr_off := 1 + off\<rparr>))"

definition ur_bsr8_any :: "memory \<Rightarrow> ur_bsr_t \<Rightarrow> nat \<Rightarrow> byte \<times> ur_bsr_t" where
  "ur_bsr8_any mem s0 len0 =
     (let left = bsr_left s0; len = min 8 len0; s = s0\<lparr>bsr_bits := u64 (bsr_bits s0 + len)\<rparr>
      in if left = 0 then (0, s)
         else let off = bsr_off s; rest = 8 - off; b = bsr_ptr s; m = drop_bit off (mem b)
              in if len < rest then (m AND mask len, s\<lparr>bsr_off := off + len\<rparr>)
                 else if left = 1 then (m, s\<lparr>bsr_off := 0, bsr_left := 0, bsr_bytes := None\<rparr>)
                 else let off = len - rest; l = mem (b + 1) AND mask off
                      in (m XOR push_bit rest l,
                          s\<lparr>bsr_off := off, bsr_left := left - 1, bsr_bytes := Some (b + 1)\<rparr>))"

text \<open>
  The \<^verbatim>\<open>switch\<close> of \<^verbatim>\<open>ur_bsr32_any\<close> and \<^verbatim>\<open>ur_bsr64_any\<close>: \<open>n\<close> whole bytes, then the masked low
  bits of the next byte when the mask is not zero; the case for a full word (\<open>full\<close>) has no
  such byte.
\<close>

definition bsr_switch :: "nat \<Rightarrow> memory \<Rightarrow> nat \<Rightarrow> nat \<Rightarrow> byte \<Rightarrow> 'a::len word" where
  "bsr_switch full mem b n msk =
     (if n = full then gather mem b n
      else if msk \<noteq> 0 then gather mem b n XOR push_bit (8 * n) (ucast (mem (b + n) AND msk))
      else gather mem b n)"

definition ur_bsr32_any :: "memory \<Rightarrow> ur_bsr_t \<Rightarrow> nat \<Rightarrow> u32 \<times> ur_bsr_t" where
  "ur_bsr32_any mem s0 len0 =
     (let left = bsr_left s0; len = min 32 len0; s = s0\<lparr>bsr_bits := u64 (bsr_bits s0 + len)\<rparr>
      in if left = 0 then (0, s)
         else let off = bsr_off s; rest = 8 - off; m = ucast (drop_bit off (mem (bsr_ptr s)))
              in if len < rest then (m AND mask len, s\<lparr>bsr_off := off + len\<rparr>)
                 else let len = len - rest; left = left - 1; b = bsr_ptr s + 1; len_byt = len div 8;
                          (len_byt, off, s) =
                            (if left \<le> len_byt
                             then (left, 0, s\<lparr>bsr_off := 0, bsr_left := 0, bsr_bytes := None\<rparr>)
                             else (len_byt, ur_mask_3 len,
                                   s\<lparr>bsr_off := ur_mask_3 len, bsr_left := left - len_byt,
                                     bsr_bytes := Some (b + len_byt)\<rparr>));
                          l = bsr_switch 4 mem b len_byt (mask off)
                      in (m XOR push_bit rest l, s))"

definition ur_bsr64_any :: "memory \<Rightarrow> ur_bsr_t \<Rightarrow> nat \<Rightarrow> u64 \<times> ur_bsr_t" where
  "ur_bsr64_any mem s0 len0 =
     (let left = bsr_left s0; len = min 64 len0; s = s0\<lparr>bsr_bits := u64 (bsr_bits s0 + len)\<rparr>
      in if left = 0 then (0, s)
         else let off = bsr_off s; rest = 8 - off; m = ucast (drop_bit off (mem (bsr_ptr s)))
              in if len < rest then (m AND mask len, s\<lparr>bsr_off := off + len\<rparr>)
                 else let len = len - rest; left = left - 1; b = bsr_ptr s + 1; len_byt = len div 8;
                          (len_byt, off, s) =
                            (if left \<le> len_byt
                             then (left, 0, s\<lparr>bsr_off := 0, bsr_left := 0, bsr_bytes := None\<rparr>)
                             else (len_byt, ur_mask_3 len,
                                   s\<lparr>bsr_off := ur_mask_3 len, bsr_left := left - len_byt,
                                     bsr_bytes := Some (b + len_byt)\<rparr>));
                          l = bsr_switch 8 mem b len_byt (mask off)
                      in (m XOR push_bit rest l, s))"

text \<open>
  \<^verbatim>\<open>ur_bsr_bytes_any\<close> reads into a zero-initialised byte array: \<open>out\<close> is that array before the
  call, the result's first component the array after it. \<open>copy_bytes\<close> is \<^verbatim>\<open>memcpy\<close> from the
  stream, \<open>shift_bytes\<close> the loop that joins the halves of adjacent stream bytes.
\<close>

definition copy_bytes :: "memory \<Rightarrow> nat \<Rightarrow> nat \<Rightarrow> byte list \<Rightarrow> byte list" where
  "copy_bytes mem b n out = map (\<lambda>i. mem (b + i)) [0..<n] @ drop n out"

definition shift_bytes :: "memory \<Rightarrow> nat \<Rightarrow> nat \<Rightarrow> nat \<Rightarrow> byte list \<Rightarrow> byte list" where
  "shift_bytes mem b off n out =
     map (\<lambda>i. drop_bit off (mem (b + i)) XOR push_bit (8 - off) (mem (b + i + 1))) [0..<n]
     @ drop n out"

definition ur_bsr_bytes_any ::
    "memory \<Rightarrow> ur_bsr_t \<Rightarrow> nat \<Rightarrow> byte list \<Rightarrow> byte list \<times> ur_bsr_t" where
  "ur_bsr_bytes_any mem s0 len out =
     (let left = bsr_left s0; s = s0\<lparr>bsr_bits := u64 (bsr_bits s0 + len)\<rparr>
      in if left = 0 then (out, s)
         else let b = bsr_ptr s; off = bsr_off s; len_byt = len div 8; len_bit = ur_mask_3 len;
                  need = len_byt + of_bool (len_bit \<noteq> 0)
              in if off = 0 then
                   (if left < need
                    then (copy_bytes mem b left out, s\<lparr>bsr_bytes := None, bsr_off := off, bsr_left := 0\<rparr>)
                    else let out = copy_bytes mem b len_byt out; off = len_bit;
                             out = (if off \<noteq> 0 then out[len_byt := mem (b + len_byt) AND mask off]
                                    else out);
                             left = left - len_byt
                         in (out, s\<lparr>bsr_bytes := (if left \<noteq> 0 then Some (b + len_byt) else None),
                                    bsr_off := off, bsr_left := left\<rparr>))
                 else
                   let rest = 8 - off; last = left - 1; max = min last len_byt;
                       out = shift_bytes mem b off max out; b = b + max; m = drop_bit off (mem b)
                   in if left \<le> need then
                        (let bits = sub8 len (last * 8)
                         in if bits < rest
                            then (out[max := m AND mask len_bit],
                                  s\<lparr>bsr_bytes := Some b, bsr_off := off + len_bit, bsr_left := 1\<rparr>)
                            else (out[max := m],
                                  s\<lparr>bsr_bytes := None, bsr_off := 0, bsr_left := 0\<rparr>))
                      else
                        (let bits = off + len_bit; step = of_bool (bits div 8 \<noteq> 0); off = ur_mask_3 bits;
                             s = s\<lparr>bsr_bytes := Some (b + step), bsr_off := off,
                                   bsr_left := left - (len_byt + step)\<rparr>
                         in if len_bit \<noteq> 0 then
                              (if len_bit \<le> rest then (out[max := m AND mask len_bit], s)
                               else let l = mem (b + 1) AND mask off
                                    in (out[max := (m XOR push_bit rest l) AND mask len_bit], s))
                            else (out, s)))"

definition ur_bsr_skip_any :: "ur_bsr_t \<Rightarrow> nat \<Rightarrow> ur_bsr_t" where
  "ur_bsr_skip_any s0 len =
     (let left = bsr_left s0; s = s0\<lparr>bsr_bits := u64 (bsr_bits s0 + len)\<rparr>
      in if left = 0 then s
         else let off = bsr_off s; len_byt = len div 8; len_bit = ur_mask_3 len;
                  need = len_byt + of_bool (len_bit \<noteq> 0); rest = 8 - off; last = left - 1;
                  b = bsr_ptr s + min last len_byt + 1
              in if left \<le> need then
                   (let bits = sub8 len (last * 8)
                    in if bits < rest
                       then s\<lparr>bsr_bytes := Some (b - 1), bsr_off := off + len_bit, bsr_left := 1\<rparr>
                       else s\<lparr>bsr_bytes := None, bsr_off := 0, bsr_left := 0\<rparr>)
                 else
                   (let bits = off + len_bit; step = of_bool (bits div 8 \<noteq> 0)
                    in s\<lparr>bsr_bytes := Some (b - (1 - step)), bsr_off := ur_mask_3 bits,
                         bsr_left := left - (len_byt + step)\<rparr>))"

definition bsr_set_gone :: "ur_bsr_t \<Rightarrow> nat \<Rightarrow> ur_cue_res_e \<times> ur_bsr_t" where
  "bsr_set_gone s bits =
     (ur_cue_gone, s\<lparr>bsr_bits := u64 (bsr_bits s + u8 bits), bsr_bytes := None, bsr_left := 0,
                     bsr_off := 0\<rparr>)"

definition ur_bsr_tag :: "memory \<Rightarrow> ur_bsr_t \<Rightarrow> (ur_cue_res_e + ur_cue_tag_e) \<times> ur_bsr_t" where
  "ur_bsr_tag mem s =
     (let left = bsr_left s
      in if left = 0 then (Inl ur_cue_gone, s)
         else let b = bsr_ptr s; off = bsr_off s;
                  advance = (\<lambda>len. let bits = off + len; bytes = bits div 8; left = left - bytes;
                                       s = (if left = 0
                                            then s\<lparr>bsr_bytes := None, bsr_left := 0, bsr_off := 0\<rparr>
                                            else s\<lparr>bsr_bytes := Some (b + bytes), bsr_left := left,
                                                   bsr_off := ur_mask_3 bits\<rparr>)
                                   in s\<lparr>bsr_bits := u64 (bsr_bits s + len)\<rparr>)
              in if drop_bit off (mem b) AND 1 = 0 then (Inr ur_jam_atom, advance 1)
                 else if off = 7 \<and> left = 1 then map_prod Inl id (bsr_set_gone s 1)
                 else let bit = (if off = 7 then mem (b + 1) AND 1
                                 else drop_bit (off + 1) (mem b) AND 1)
                      in (Inr (if bit = 0 then ur_jam_cell else ur_jam_back), advance 2))"

definition bsr_log_meme :: "ur_bsr_t \<Rightarrow> ur_cue_res_e \<times> ur_bsr_t" where
  "bsr_log_meme s =
     (ur_cue_meme, s\<lparr>bsr_bits := u64 (bsr_bits s + 256), bsr_bytes := map_option (\<lambda>p. p + 32) (bsr_bytes s),
                     bsr_left := bsr_left s - 32\<rparr>)"

text \<open>
  The loop of \<^verbatim>\<open>ur_bsr_log\<close> over zero bytes; \<open>skip\<close> runs from 0 to 32 as the structural
  argument \<open>32 - skip\<close> runs down. It ends with the first nonzero byte, with the stream running
  out after \<open>skip\<close> bytes, or after 32 zero bytes.
\<close>

datatype bsr_log_res = Log_Found nat byte | Log_Gone nat | Log_Meme

fun bsr_log_loop :: "memory \<Rightarrow> nat \<Rightarrow> nat \<Rightarrow> nat \<Rightarrow> byte \<Rightarrow> bsr_log_res" where
  "bsr_log_loop mem b left 0 byt = (if byt \<noteq> 0 then Log_Found 32 byt else Log_Meme)"
| "bsr_log_loop mem b left (Suc n) byt =
     (if byt \<noteq> 0 then Log_Found (32 - Suc n) byt
      else let skip = 32 - n
           in if skip = left then Log_Gone skip
              else bsr_log_loop mem b left n (mem (b + skip)))"

definition ur_bsr_log :: "memory \<Rightarrow> ur_bsr_t \<Rightarrow> (ur_cue_res_e + nat) \<times> ur_bsr_t" where
  "ur_bsr_log mem s =
     (let left = bsr_left s
      in if left = 0 then (Inl ur_cue_gone, s)
         else let off = bsr_off s; b = bsr_ptr s
              in case bsr_log_loop mem b left 32 (drop_bit off (mem b)) of
                   Log_Meme \<Rightarrow> map_prod Inl id (bsr_log_meme s)
                 | Log_Gone skip \<Rightarrow> map_prod Inl id (bsr_set_gone s (skip * 8 - off))
                 | Log_Found skip byt \<Rightarrow>
                     (let zeros = tz byt + (if skip \<noteq> 0 then skip * 8 - off else 0)
                      in if 255 < zeros then map_prod Inl id (bsr_log_meme s)
                         else let bits = off + 1 + zeros; bytes = bits div 8; left = left - bytes
                              in (Inr zeros,
                                  s\<lparr>bsr_bytes := (if left \<noteq> 0 then Some (b + bytes) else None),
                                    bsr_bits := u64 (bsr_bits s + 1 + zeros), bsr_left := left,
                                    bsr_off := ur_mask_3 bits\<rparr>)))"

definition ur_bsr_rub_len :: "memory \<Rightarrow> ur_bsr_t \<Rightarrow> (ur_cue_res_e + u64) \<times> ur_bsr_t" where
  "ur_bsr_rub_len mem s =
     (case ur_bsr_log mem s of
        (Inl res, s) \<Rightarrow> (Inl res, s)
      | (Inr len, s) \<Rightarrow>
          if 64 \<le> len then (Inl ur_cue_meme, s)
          else if len = 0 then (Inr 0, s)
          else if len = 1 then (Inr 1, s)
          else let len = len - 1; (val, s) = ur_bsr64_any mem s len
               in (Inr (val XOR push_bit len 1), s))"

section \<open>The remaining stream and the reference cursor\<close>

definition bsr_stream :: "memory \<Rightarrow> ur_bsr_t \<Rightarrow> bool list" where
  "bsr_stream mem s = mbits mem (8 * bsr_ptr s + bsr_off s) (8 * bsr_left s - bsr_off s)"

text \<open>
  The states the operations start from and end in. It is weaker than \<^const>\<open>ur_bsr_sane\<close>, which
  a reader initialised on an empty buffer does not satisfy: its pointer is not null.
\<close>

definition bsr_wf :: "ur_bsr_t \<Rightarrow> bool" where
  "bsr_wf s \<longleftrightarrow> bsr_off s < 8 \<and> (bsr_left s = 0 \<longrightarrow> bsr_off s = 0) \<and>
     (bsr_left s \<noteq> 0 \<longrightarrow> bsr_bytes s \<noteq> None)"

text \<open>
  The reference cursor: where every operation should leave the reader after \<open>n\<close> bits. It
  advances the position and drops the buffer once the position reaches the end.
\<close>

definition bsr_seek :: "ur_bsr_t \<Rightarrow> nat \<Rightarrow> ur_bsr_t" where
  "bsr_seek s n =
     (let k = bsr_off s + n; s' = s\<lparr>bsr_bits := u64 (bsr_bits s + n)\<rparr>
      in if bsr_left s = 0 then s'
         else if bsr_left s \<le> k div 8
         then s'\<lparr>bsr_left := 0, bsr_off := 0, bsr_bytes := None\<rparr>
         else s'\<lparr>bsr_left := bsr_left s - k div 8, bsr_off := k mod 8,
                 bsr_bytes := Some (bsr_ptr s + k div 8)\<rparr>)"

lemma length_bsr_stream [simp]: "length (bsr_stream mem s) = 8 * bsr_left s - bsr_off s"
  by (simp add: bsr_stream_def)

lemma nth_bsr_stream:
  "i < 8 * bsr_left s - bsr_off s \<Longrightarrow>
     bsr_stream mem s ! i = mbit mem (8 * bsr_ptr s + (bsr_off s + i))"
  by (simp add: bsr_stream_def ac_simps)

lemma bsr_stream_nil_iff: "bsr_wf s \<Longrightarrow> bsr_stream mem s = [] \<longleftrightarrow> bsr_left s = 0"
  by (auto simp: bsr_wf_def simp flip: length_0_conv)

lemma bsr_wf_seek: "bsr_wf s \<Longrightarrow> bsr_wf (bsr_seek s n)"
  by (auto simp: bsr_wf_def bsr_seek_def Let_def)

lemma ur_bsr_sane_seek: "ur_bsr_sane s \<Longrightarrow> ur_bsr_sane (bsr_seek s n)"
  by (auto simp: ur_bsr_sane_def bsr_seek_def Let_def split: if_splits)

lemma bsr_bits_seek [simp]: "bsr_bits (bsr_seek s n) = u64 (bsr_bits s + n)"
  by (simp add: bsr_seek_def Let_def)

lemma bsr_seek_gone:
  "bsr_left s \<noteq> 0 \<Longrightarrow> bsr_left s \<le> (bsr_off s + n) div 8 \<Longrightarrow>
     bsr_seek s n = s\<lparr>bsr_bits := u64 (bsr_bits s + n), bsr_left := 0, bsr_off := 0, bsr_bytes := None\<rparr>"
  by (simp add: bsr_seek_def Let_def)

lemma bsr_seek_in:
  "(bsr_off s + n) div 8 < bsr_left s \<Longrightarrow>
     bsr_seek s n = s\<lparr>bsr_bits := u64 (bsr_bits s + n), bsr_left := bsr_left s - (bsr_off s + n) div 8,
       bsr_off := (bsr_off s + n) mod 8, bsr_bytes := Some (bsr_ptr s + (bsr_off s + n) div 8)\<rparr>"
  by (simp add: bsr_seek_def Let_def)

lemma bsr_ptr_upd [simp]:
  "bsr_ptr (s\<lparr>bsr_bits := b\<rparr>) = bsr_ptr s" "bsr_ptr (s\<lparr>bsr_bytes := Some p\<rparr>) = p"
  "bsr_ptr (s\<lparr>bsr_left := l\<rparr>) = bsr_ptr s" "bsr_ptr (s\<lparr>bsr_off := l\<rparr>) = bsr_ptr s"
  by (simp_all add: bsr_ptr_def)

lemma bsr_stream_seek: "bsr_stream mem (bsr_seek s n) = drop n (bsr_stream mem s)"
proof (cases "bsr_left s = 0")
  case True
  then show ?thesis
    by (simp add: bsr_stream_def bsr_seek_def)
next
  case nz: False
  let ?k = "bsr_off s + n"
  show ?thesis
  proof (cases "bsr_left s \<le> ?k div 8")
    case True
    then have "8 * bsr_left s - bsr_off s \<le> n"
      by linarith
    with True nz show ?thesis
      by (simp add: bsr_stream_def bsr_seek_gone)
  next
    case False
    have "8 * (bsr_ptr s + ?k div 8) + ?k mod 8 = 8 * bsr_ptr s + bsr_off s + n"
      by simp
    moreover have "8 * (bsr_left s - ?k div 8) - ?k mod 8 = 8 * bsr_left s - bsr_off s - n"
      using mult_div_mod_eq [of 8 ?k] by linarith
    ultimately show ?thesis
      using False nz by (simp add: bsr_stream_def bsr_seek_in add_ac)
  qed
qed

lemma div_mod_add8: "(k mod 8 + n) div 8 + k div 8 = (k + n) div (8::nat)" "(k mod 8 + n) mod 8 = (k + n) mod (8::nat)"
proof -
  have "k + n = (k mod 8 + n) + k div 8 * 8"
    by simp
  then show "(k mod 8 + n) div 8 + k div 8 = (k + n) div 8"
    by (metis add.commute div_mult_self1 zero_neq_numeral)
  show "(k mod 8 + n) mod 8 = (k + n) mod 8"
    by (simp add: mod_simps)
qed

lemma bsr_seek_seek: "bsr_seek (bsr_seek s m) n = bsr_seek s (m + n)"
proof (cases "bsr_left s = 0")
  case True
  then show ?thesis
    by (simp add: bsr_seek_def ac_simps)
next
  case nz: False
  let ?k = "bsr_off s + m"
  show ?thesis
  proof (cases "bsr_left s \<le> ?k div 8")
    case True
    also have "?k div 8 \<le> (bsr_off s + (m + n)) div 8"
      by (simp add: div_le_mono)
    finally show ?thesis
      using True nz by (simp add: bsr_seek_gone) (simp add: bsr_seek_def add.assoc)
  next
    case False
    have l: "bsr_left s - ?k div 8 - (?k mod 8 + n) div 8 = bsr_left s - (?k + n) div 8"
      using div_mod_add8(1) [of ?k n] by linarith
    have c: "bsr_left s - ?k div 8 \<le> (?k mod 8 + n) div 8 \<longleftrightarrow> bsr_left s \<le> (?k + n) div 8"
      using False div_mod_add8(1) [of ?k n] by linarith
    have b: "bsr_ptr s + ?k div 8 + (?k mod 8 + n) div 8 = bsr_ptr s + (?k + n) div 8"
      using div_mod_add8(1) [of ?k n] by linarith
    show ?thesis
      using False nz l c b
      by (simp add: bsr_seek_in) (simp add: bsr_seek_def Let_def add.assoc div_mod_add8(2))
  qed
qed

section \<open>Every read is a read of the stream\<close>

lemma bits_valI:
  assumes "\<And>i. i < LENGTH('a) \<Longrightarrow> bit v i \<longleftrightarrow> i < n \<and> i < length st \<and> st ! i"
  shows "(v :: 'a::len word) = bits_val (take n st)"
  using assms by (intro bit_word_eqI) (auto simp: bit_horner_sum_bit_word_iff)

lemma and_one_bit: "(w AND 1 :: 'a::len word) = of_bool (bit w 0)"
  by (simp add: and_one_eq mod_2_eq_odd bit_0)

lemma and_one_eq_0: "(w AND 1 :: 'a::len word) = 0 \<longleftrightarrow> \<not> bit w 0"
  by (simp add: and_one_bit)

lemma mbit_in_byte: "off + i < 8 \<Longrightarrow> mbit mem (8 * b + (off + i)) = bit (mem b) (off + i)"
  by (rule mbit_byte)

lemma bsr_bytes_ptr: "bsr_wf s \<Longrightarrow> bsr_left s \<noteq> 0 \<Longrightarrow> bsr_bytes s = Some (bsr_ptr s)"
  by (auto simp: bsr_wf_def bsr_ptr_def)

text \<open>A read that stays within the current byte moves the bit offset only.\<close>

lemma bsr_seek_short:
  assumes "bsr_wf s" and "bsr_left s \<noteq> 0" and "n < 8 - bsr_off s"
  shows "bsr_seek s n = s\<lparr>bsr_bits := u64 (bsr_bits s + n), bsr_off := bsr_off s + n\<rparr>"
proof -
  from assms(3) have "(bsr_off s + n) div 8 = 0" "(bsr_off s + n) mod 8 = bsr_off s + n"
    by simp_all
  with assms(2) bsr_bytes_ptr [OF assms(1,2)] show ?thesis
    by (simp add: bsr_seek_in)
qed

text \<open>A read past the current byte, in the terms the code computes.\<close>

lemma bsr_seek_long:
  assumes "bsr_wf s" and "bsr_left s \<noteq> 0" and "8 - bsr_off s \<le> n"
  shows "bsr_seek s n =
    (let len = n - (8 - bsr_off s) in
     if bsr_left s - 1 \<le> len div 8
     then s\<lparr>bsr_bits := u64 (bsr_bits s + n), bsr_left := 0, bsr_off := 0, bsr_bytes := None\<rparr>
     else s\<lparr>bsr_bits := u64 (bsr_bits s + n), bsr_left := bsr_left s - 1 - len div 8,
            bsr_off := len mod 8, bsr_bytes := Some (bsr_ptr s + 1 + len div 8)\<rparr>)"
proof -
  obtain len where n: "n = len + (8 - bsr_off s)"
    using assms(3) by (metis le_add_diff_inverse2)
  have k: "bsr_off s + n = len + 8"
    using assms(1) by (simp add: n bsr_wf_def)
  have e: "(bsr_off s + n) div 8 = 1 + len div 8" "(bsr_off s + n) mod 8 = len mod 8"
    by (simp_all add: k)
  have l: "n - (8 - bsr_off s) = len"
    by (simp add: n)
  have c: "bsr_left s \<le> 1 + len div 8 \<longleftrightarrow> bsr_left s - 1 \<le> len div 8"
    by auto
  show ?thesis
    unfolding bsr_seek_def Let_def e c l using assms(2) by simp
qed

lemma bsr_seek_1:
  assumes "bsr_wf s" and "bsr_left s \<noteq> 0"
  shows "bsr_seek s 1 =
    (if bsr_off s = 7
     then s\<lparr>bsr_bits := u64 (bsr_bits s + 1),
            bsr_bytes := (if bsr_left s - 1 \<noteq> 0 then Some (bsr_ptr s + 1) else None),
            bsr_left := bsr_left s - 1, bsr_off := 0\<rparr>
     else s\<lparr>bsr_bits := u64 (bsr_bits s + 1), bsr_off := 1 + bsr_off s\<rparr>)"
proof (cases "bsr_off s = 7")
  case True
  then show ?thesis
    using assms by (auto simp: bsr_seek_long)
next
  case False
  with assms show ?thesis
    by (auto simp: bsr_seek_short bsr_wf_def)
qed

lemmas bsr_seek_Suc0 = bsr_seek_1 [unfolded One_nat_def]

lemma bsr_stream_hd:
  assumes "bsr_wf s" and "bsr_left s \<noteq> 0"
  shows "bsr_stream mem s = bit (mem (bsr_ptr s)) (bsr_off s) # bsr_stream mem (bsr_seek s 1)"
proof -
  have "8 * bsr_left s - bsr_off s = Suc (8 * bsr_left s - bsr_off s - 1)"
    using assms unfolding bsr_wf_def by linarith
  then have "bsr_stream mem s = mbit mem (8 * bsr_ptr s + bsr_off s) # drop 1 (bsr_stream mem s)"
    by (metis bsr_stream_def mbits_Suc drop0 drop_Suc_Cons One_nat_def)
  moreover have "mbit mem (8 * bsr_ptr s + bsr_off s) = bit (mem (bsr_ptr s)) (bsr_off s)"
    using assms by (intro mbit_byte) (simp add: bsr_wf_def)
  ultimately show ?thesis
    by (simp add: bsr_stream_seek)
qed

lemma ur_bsr_bit_eq:
  assumes "bsr_wf s"
  shows "ur_bsr_bit mem s =
    (case bsr_stream mem s of
       [] \<Rightarrow> (Inl ur_cue_gone, s)
     | x # _ \<Rightarrow> (Inr (of_bool x), bsr_seek s 1))"
proof (cases "bsr_left s = 0")
  case True
  with assms have "bsr_stream mem s = []"
    by (simp add: bsr_stream_nil_iff)
  with True show ?thesis
    by (simp add: ur_bsr_bit_def)
next
  case False
  with assms show ?thesis
    by (auto simp: ur_bsr_bit_def bsr_stream_hd bsr_seek_Suc0 and_one_bit bit_drop_bit_eq Let_def)
qed

lemma ur_bsr_bit_any_eq:
  assumes "bsr_wf s"
  shows "ur_bsr_bit_any mem s = (of_bool (bsr_stream mem s \<noteq> [] \<and> hd (bsr_stream mem s)), bsr_seek s 1)"
proof (cases "bsr_left s = 0")
  case True
  with assms show ?thesis
    by (simp add: ur_bsr_bit_any_def bsr_stream_nil_iff bsr_seek_def)
next
  case False
  with assms show ?thesis
    by (auto simp: ur_bsr_bit_any_def bsr_stream_hd bsr_seek_Suc0 and_one_bit bit_drop_bit_eq Let_def)
qed

text \<open>The value of a read within one byte, and of one that spans bytes.\<close>

lemma read_short:
  assumes "bsr_wf s" and "bsr_left s \<noteq> 0" and "n < 8 - bsr_off s"
  shows "(ucast (drop_bit (bsr_off s) (mem (bsr_ptr s))) AND mask n :: 'a::len word)
    = bits_val (take n (bsr_stream mem s))"
proof (rule bits_valI)
  fix i
  assume "i < LENGTH('a)"
  moreover have "n \<le> 8 * bsr_left s - bsr_off s"
    using assms unfolding bsr_wf_def by linarith
  ultimately show "bit (ucast (drop_bit (bsr_off s) (mem (bsr_ptr s))) AND mask n :: 'a word) i
      \<longleftrightarrow> i < n \<and> i < length (bsr_stream mem s) \<and> bsr_stream mem s ! i"
    using assms(3) by (auto simp: word_bits nth_bsr_stream mbit_in_byte)
qed

lemma read_long:
  fixes l :: "'a::len word"
  assumes s: "bsr_wf s" "bsr_left s \<noteq> 0" and n: "8 - bsr_off s \<le> n"
    and l: "\<And>i. i < LENGTH('a) \<Longrightarrow> bit l i \<longleftrightarrow>
       i < n - (8 - bsr_off s) \<and> i < 8 * (bsr_left s - 1) \<and> mbit mem (8 * (bsr_ptr s + 1) + i)"
  shows "ucast (drop_bit (bsr_off s) (mem (bsr_ptr s))) XOR push_bit (8 - bsr_off s) l
    = (bits_val (take n (bsr_stream mem s)) :: 'a::len word)"
proof (rule bits_valI)
  fix i
  assume i: "i < LENGTH('a)"
  let ?off = "bsr_off s" and ?b = "bsr_ptr s"
  have off: "?off < 8"
    using s by (simp add: bsr_wf_def)
  have len: "8 - ?off \<le> 8 * bsr_left s - ?off"
    using s by auto
  show "bit (ucast (drop_bit ?off (mem ?b)) XOR push_bit (8 - ?off) l :: 'a word) i
      \<longleftrightarrow> i < n \<and> i < length (bsr_stream mem s) \<and> bsr_stream mem s ! i"
  proof (cases "i < 8 - ?off")
    case True
    with i n len show ?thesis
      by (auto simp: word_bits bit_xor_iff nth_bsr_stream mbit_in_byte)
  next
    case False
    then have "8 * (?b + 1) + (i - (8 - ?off)) = 8 * ?b + (?off + i)"
      using off by simp
    moreover have "i - (8 - ?off) < 8 * (bsr_left s - 1) \<longleftrightarrow> i < 8 * bsr_left s - ?off"
      using False s off by auto
    moreover have "i - (8 - ?off) < n - (8 - ?off) \<longleftrightarrow> i < n"
      using False n by auto
    ultimately show ?thesis
      using False i off l [of "i - (8 - ?off)"]
      by (auto simp: word_bits bit_xor_iff nth_bsr_stream ac_simps)
  qed
qed

lemma bit_bsr_switch:
  assumes "n \<noteq> full \<or> r = 0" and "r < 8"
  shows "bit (bsr_switch full mem b n (mask r) :: 'a::len word) i
    \<longleftrightarrow> i < 8 * n + r \<and> i < LENGTH('a) \<and> mbit mem (8 * b + i)"
proof -
  have "bit (gather mem b n XOR push_bit (8 * n) (ucast (mem (b + n) AND mask r)) :: 'a word) i
      \<longleftrightarrow> i < 8 * n + r \<and> i < LENGTH('a) \<and> mbit mem (8 * b + i)"
  proof (cases "i < 8 * n")
    case False
    then obtain k where k: "i = 8 * n + k"
      by (metis le_add_diff_inverse not_less)
    have "mbit mem (8 * b + i) = bit (mem (b + n)) k" if "k < r"
      using mbit_byte [of k mem "b + n"] that assms(2) by (simp add: k algebra_simps)
    with k show ?thesis
      by (auto simp: word_bits bit_xor_iff)
  qed (auto simp: word_bits bit_xor_iff)
  moreover have "(mask r :: byte) = 0 \<longleftrightarrow> r = 0"
    by simp
  ultimately show ?thesis
    using assms by (auto simp: bsr_switch_def word_bits)
qed

text \<open>What a word read computes after the current byte: the rest of the requested bits.\<close>

lemma switch_bits:
  assumes "len div 8 < full \<or> len div 8 = full \<and> len mod 8 = 0"
  shows "bit (bsr_switch full mem b (if left \<le> len div 8 then left else len div 8)
              (mask (if left \<le> len div 8 then 0 else len mod 8)) :: 'a::len word) i
    \<longleftrightarrow> i < LENGTH('a) \<and> i < len \<and> i < 8 * left \<and> mbit mem (8 * b + i)"
proof (cases "left \<le> len div 8")
  case True
  then have "i < 8 * left \<Longrightarrow> i < len"
    by linarith
  with True show ?thesis
    by (auto simp: bit_bsr_switch simp del: mask_0)
next
  case False
  have "i < 8 * (len div 8) + len mod 8 \<longleftrightarrow> i < len"
    by simp
  moreover have "i < len \<Longrightarrow> i < 8 * left"
    using False by linarith
  ultimately show ?thesis
    using False assms by (auto simp: bit_bsr_switch simp del: mask_0 mult_div_mod_eq)
qed

lemma ur_bsr8_any_eq:
  assumes "bsr_wf s"
  shows "ur_bsr8_any mem s len = (bits_val (take (min 8 len) (bsr_stream mem s)), bsr_seek s (min 8 len))"
proof -
  define n where "n = min 8 len"
  have n8: "n \<le> 8" and off: "bsr_off s < 8"
    using assms by (simp_all add: n_def bsr_wf_def)
  note defs = ur_bsr8_any_def Let_def n_def [symmetric]
  consider (z) "bsr_left s = 0" | (short) "bsr_left s \<noteq> 0" "n < 8 - bsr_off s"
    | (last) "bsr_left s = 1" "8 - bsr_off s \<le> n" | (long) "1 < bsr_left s" "8 - bsr_off s \<le> n"
    by linarith
  then have "ur_bsr8_any mem s len = (bits_val (take n (bsr_stream mem s)), bsr_seek s n)"
  proof cases
    case z
    then show ?thesis
      using bsr_stream_nil_iff [OF assms, of mem] by (simp add: defs bsr_seek_def)
  next
    case short
    then show ?thesis
      using read_short [OF assms short, where 'a = 8 and mem = mem] assms
      by (simp add: defs bsr_seek_short)
  next
    case last
    have "drop_bit (bsr_off s) (mem (bsr_ptr s)) = bits_val (take n (bsr_stream mem s))"
      using read_long [OF assms _ last(2), of "0::byte" mem] last(1) by simp
    with last assms show ?thesis
      by (simp add: defs bsr_seek_long)
  next
    case long
    let ?r = "n - (8 - bsr_off s)"
    have r: "?r < 8"
      using n8 off by simp
    have "bit (mem (bsr_ptr s + 1) AND mask ?r) i \<longleftrightarrow>
        i < ?r \<and> i < 8 * (bsr_left s - 1) \<and> mbit mem (8 * (bsr_ptr s + 1) + i)" for i
      using r long(1) mbit_byte [of i mem "bsr_ptr s + 1"] by (auto simp: bit_word_take_bit)
    from read_long [OF assms _ long(2) this] long(1)
    have "drop_bit (bsr_off s) (mem (bsr_ptr s)) XOR push_bit (8 - bsr_off s) (mem (bsr_ptr s + 1) AND mask ?r)
        = bits_val (take n (bsr_stream mem s))"
      by (simp only: ucast_id)
    with long assms r show ?thesis
      by (simp add: defs bsr_seek_long)
  qed
  then show ?thesis
    by (simp add: n_def)
qed

lemma div8_bound: "x \<le> full * 8 \<Longrightarrow> x div 8 < full \<or> x div 8 = full \<and> x mod (8::nat) = 0"
  using mult_div_mod_eq [of 8 x] by linarith

lemma read_switch:
  assumes "bsr_wf s" and "bsr_left s \<noteq> 0" and "8 - bsr_off s \<le> n" and "n \<le> LENGTH('a::len)"
    and "full * 8 = LENGTH('a)"
  shows "ucast (drop_bit (bsr_off s) (mem (bsr_ptr s))) XOR push_bit (8 - bsr_off s)
      (bsr_switch full mem (bsr_ptr s + 1)
        (if bsr_left s - 1 \<le> (n - (8 - bsr_off s)) div 8 then bsr_left s - 1 else (n - (8 - bsr_off s)) div 8)
        (mask (if bsr_left s - 1 \<le> (n - (8 - bsr_off s)) div 8 then 0 else (n - (8 - bsr_off s)) mod 8)))
    = (bits_val (take n (bsr_stream mem s)) :: 'a word)"
proof (rule read_long [OF assms(1-3)])
  have "n - (8 - bsr_off s) \<le> full * 8"
    using assms by linarith
  from switch_bits [OF div8_bound [OF this]]
  show "bit (bsr_switch full mem (bsr_ptr s + 1)
        (if bsr_left s - 1 \<le> (n - (8 - bsr_off s)) div 8 then bsr_left s - 1 else (n - (8 - bsr_off s)) div 8)
        (mask (if bsr_left s - 1 \<le> (n - (8 - bsr_off s)) div 8 then 0 else (n - (8 - bsr_off s)) mod 8)) :: 'a word) i
    \<longleftrightarrow> i < n - (8 - bsr_off s) \<and> i < 8 * (bsr_left s - 1) \<and> mbit mem (8 * (bsr_ptr s + 1) + i)"
    if "i < LENGTH('a)" for i
    using that by blast
qed

lemma ur_bsr32_any_eq:
  assumes "bsr_wf s"
  shows "ur_bsr32_any mem s len = (bits_val (take (min 32 len) (bsr_stream mem s)), bsr_seek s (min 32 len))"
proof -
  define n where "n = min 32 len"
  have le: "n \<le> 32"
    by (simp add: n_def)
  note defs = ur_bsr32_any_def Let_def n_def [symmetric] ur_mask_3_def
  consider (z) "bsr_left s = 0" | (short) "bsr_left s \<noteq> 0" "n < 8 - bsr_off s"
    | (long) "bsr_left s \<noteq> 0" "8 - bsr_off s \<le> n"
    by linarith
  then have "ur_bsr32_any mem s len = (bits_val (take n (bsr_stream mem s)), bsr_seek s n)"
  proof cases
    case z
    then show ?thesis
      using bsr_stream_nil_iff [OF assms, of mem] by (simp add: defs bsr_seek_def)
  next
    case short
    then show ?thesis
      using read_short [OF assms short, where 'a = 32 and mem = mem] assms
      by (simp add: defs bsr_seek_short)
  next
    case long
    then show ?thesis
      using read_switch [OF assms long, where 'a = 32 and full = 4 and mem = mem] assms le
      by (cases "bsr_left s - 1 \<le> (n - (8 - bsr_off s)) div 8") (simp_all add: defs bsr_seek_long)
  qed
  then show ?thesis
    by (simp add: n_def)
qed

lemma ur_bsr64_any_eq:
  assumes "bsr_wf s"
  shows "ur_bsr64_any mem s len = (bits_val (take (min 64 len) (bsr_stream mem s)), bsr_seek s (min 64 len))"
proof -
  define n where "n = min 64 len"
  have le: "n \<le> 64"
    by (simp add: n_def)
  note defs = ur_bsr64_any_def Let_def n_def [symmetric] ur_mask_3_def
  consider (z) "bsr_left s = 0" | (short) "bsr_left s \<noteq> 0" "n < 8 - bsr_off s"
    | (long) "bsr_left s \<noteq> 0" "8 - bsr_off s \<le> n"
    by linarith
  then have "ur_bsr64_any mem s len = (bits_val (take n (bsr_stream mem s)), bsr_seek s n)"
  proof cases
    case z
    then show ?thesis
      using bsr_stream_nil_iff [OF assms, of mem] by (simp add: defs bsr_seek_def)
  next
    case short
    then show ?thesis
      using read_short [OF assms short, where 'a = 64 and mem = mem] assms
      by (simp add: defs bsr_seek_short)
  next
    case long
    then show ?thesis
      using read_switch [OF assms long, where 'a = 64 and full = 8 and mem = mem] assms le
      by (cases "bsr_left s - 1 \<le> (n - (8 - bsr_off s)) div 8") (simp_all add: defs bsr_seek_long)
  qed
  then show ?thesis
    by (simp add: n_def)
qed

section \<open>Skipping and reading byte arrays\<close>

text \<open>
  Both operations keep the number of bits requested of the last byte in a \<^verbatim>\<open>uint8_t\<close>. They
  behave as a read of an infinite stream as long as that number fits, that is, as long as a
  request reaches less than 256 bits behind the start of the last byte.
\<close>

definition bsr_near :: "ur_bsr_t \<Rightarrow> nat \<Rightarrow> bool" where
  "bsr_near s len \<longleftrightarrow> bsr_left s \<noteq> 0 \<longrightarrow> len < 8 * (bsr_left s - 1) + 256"

lemma bsr_near_inside: "len \<le> length (bsr_stream mem s) \<Longrightarrow> bsr_near s len"
  by (auto simp: bsr_near_def)

lemma need_ge_iff: "0 < left \<Longrightarrow> left \<le> len div 8 + of_bool (len mod 8 \<noteq> 0) \<longleftrightarrow> 8 * (left - 1) < (len::nat)"
proof -
  assume "0 < left"
  define q r where "q = len div 8" and "r = len mod 8"
  have "len = 8 * q + r" "r < 8"
    by (simp_all add: q_def r_def)
  moreover have "left \<le> q + of_bool (r \<noteq> 0) \<longleftrightarrow> 8 * (left - 1) < 8 * q + r"
    using \<open>0 < left\<close> \<open>r < 8\<close> by auto
  ultimately show ?thesis
    by (simp add: q_def r_def)
qed

text \<open>A request that ends in the last byte, behind it, or before it.\<close>

lemma bsr_seek_last:
  assumes "bsr_wf s" and "bsr_left s \<noteq> 0" and "len = 8 * (bsr_left s - 1) + r" and "r < 8 - bsr_off s"
  shows "bsr_seek s len = s\<lparr>bsr_bits := u64 (bsr_bits s + len), bsr_left := 1,
    bsr_off := bsr_off s + r, bsr_bytes := Some (bsr_ptr s + (bsr_left s - 1))\<rparr>"
proof -
  have k: "bsr_off s + len = (bsr_off s + r) + 8 * (bsr_left s - 1)"
    using assms(3) by simp
  have "((bsr_off s + r) + 8 * (bsr_left s - 1)) div 8 = bsr_left s - 1"
    "((bsr_off s + r) + 8 * (bsr_left s - 1)) mod 8 = bsr_off s + r"
    using assms(4) by auto
  then have "(bsr_off s + len) div 8 = bsr_left s - 1" "(bsr_off s + len) mod 8 = bsr_off s + r"
    by (simp_all only: k)
  with assms(2) show ?thesis
    by (simp add: bsr_seek_in)
qed

lemma bsr_seek_behind:
  assumes "bsr_wf s" and "bsr_left s \<noteq> 0" and "len = 8 * (bsr_left s - 1) + r" and "8 - bsr_off s \<le> r"
  shows "bsr_seek s len = s\<lparr>bsr_bits := u64 (bsr_bits s + len), bsr_left := 0,
    bsr_off := 0, bsr_bytes := None\<rparr>"
proof -
  have "8 * bsr_left s \<le> bsr_off s + len"
    using assms unfolding bsr_wf_def by linarith
  then have "bsr_left s \<le> (bsr_off s + len) div 8"
    by linarith
  with assms(2) show ?thesis
    by (simp add: bsr_seek_gone)
qed

lemma bsr_seek_before:
  assumes "bsr_wf s" and "bsr_left s \<noteq> 0" and "len \<le> 8 * (bsr_left s - 1)"
  defines "step \<equiv> of_bool ((bsr_off s + len mod 8) div 8 \<noteq> 0)"
  shows "bsr_seek s len = s\<lparr>bsr_bits := u64 (bsr_bits s + len), bsr_left := bsr_left s - (len div 8 + step),
    bsr_off := (bsr_off s + len mod 8) mod 8, bsr_bytes := Some (bsr_ptr s + len div 8 + step)\<rparr>"
proof -
  have off: "bsr_off s + len mod 8 < 16"
    using assms(1) unfolding bsr_wf_def by linarith
  then have "step = (bsr_off s + len mod 8) div 8"
    unfolding step_def by auto
  then have "(bsr_off s + len) div 8 = len div 8 + step" "(bsr_off s + len) mod 8 = (bsr_off s + len mod 8) mod 8"
    using div_mod_add8 [of len "bsr_off s"] by (simp_all add: ac_simps)
  moreover have "(bsr_off s + len) div 8 < bsr_left s"
    using assms(1-3) unfolding bsr_wf_def by linarith
  ultimately show ?thesis
    by (simp add: bsr_seek_in ac_simps)
qed

lemma ur_bsr_skip_any_eq:
  assumes "bsr_wf s" and near: "bsr_near s len"
  shows "ur_bsr_skip_any s len = bsr_seek s len"
proof (cases "bsr_left s = 0")
  case True
  then show ?thesis
    by (simp add: ur_bsr_skip_any_def bsr_seek_def)
next
  case nz: False
  then have c: "(bsr_left s \<le> len div 8 + of_bool (len mod 8 \<noteq> 0)) = (8 * (bsr_left s - 1) < len)"
    by (simp only: need_ge_iff)
  note defs = ur_bsr_skip_any_def Let_def ur_mask_3_def c
  show ?thesis
  proof (cases "8 * (bsr_left s - 1) < len")
    case True
    then obtain r where r: "len = 8 * (bsr_left s - 1) + r"
      by (metis less_imp_add_positive)
    with near nz have s8: "sub8 len ((bsr_left s - 1) * 8) = r"
      by (simp add: sub8_id bsr_near_def mult.commute)
    show ?thesis
    proof (cases "r < 8 - bsr_off s")
      case short: True
      then have "len div 8 = bsr_left s - 1" "len mod 8 = r"
        by (simp_all add: r)
      with True nz s8 short assms(1) show ?thesis
        unfolding defs by (simp add: bsr_seek_last [OF assms(1) nz r short])
    next
      case False
      with True nz s8 show ?thesis
        unfolding defs by (simp add: bsr_seek_behind [OF assms(1) nz r])
    qed
  next
    case False
    then have "min (bsr_left s - 1) (len div 8) = len div 8"
      by linarith
    with False nz show ?thesis
      unfolding defs by (simp add: bsr_seek_before [OF assms(1) nz])
  qed
qed

text \<open>The bits of the pieces \<^const>\<open>ur_bsr_bytes_any\<close> assembles.\<close>

lemma div8_less_iff: "k div 8 < n \<longleftrightarrow> k < 8 * (n::nat)"
  by linarith

lemma length_copy_bytes [simp]: "n \<le> length out \<Longrightarrow> length (copy_bytes mem b n out) = length out"
  by (simp add: copy_bytes_def)

lemma length_shift_bytes [simp]: "n \<le> length out \<Longrightarrow> length (shift_bytes mem b off n out) = length out"
  by (simp add: shift_bytes_def)

lemma mbit_copy_bytes:
  "mbit (lmem (copy_bytes mem b n out)) i = (if i < 8 * n then mbit mem (8 * b + i) else mbit (lmem out) i)"
  by (auto simp: mbit_def copy_bytes_def lmem_append lmem_drop div8_less_iff)

lemma bit_shift_byte:
  assumes "0 < off" "off < 8" "r < 8"
  shows "bit (drop_bit off (mem q) XOR push_bit (8 - off) (mem (q + 1)) :: byte) r
    \<longleftrightarrow> mbit mem (8 * q + off + r)"
proof (cases "off + r < 8")
  case True
  then show ?thesis
    using assms mbit_byte [of "off + r" mem q] by (auto simp: word_bits bit_xor_iff add.assoc)
next
  case False
  then have e: "8 * q + off + r = 8 * (q + 1) + (r - (8 - off))"
    using assms by simp
  have "mbit mem (8 * q + off + r) = bit (mem (q + 1)) (r - (8 - off))"
    unfolding e using assms by (intro mbit_byte) simp
  with False assms show ?thesis
    by (auto simp: word_bits bit_xor_iff)
qed

lemma mbit_shift_bytes:
  assumes "0 < off" "off < 8"
  shows "mbit (lmem (shift_bytes mem b off n out)) i =
    (if i < 8 * n then mbit mem (8 * b + off + i) else mbit (lmem out) i)"
proof (cases "i < 8 * n")
  case True
  have "8 * (b + i div 8) + off + i mod 8 = 8 * b + off + i"
    by simp
  with True bit_shift_byte [OF assms, of "i mod 8" mem "b + i div 8"] show ?thesis
    by (simp add: mbit_def [of "lmem _"] shift_bytes_def lmem_append div8_less_iff ac_simps)
next
  case False
  then show ?thesis
    by (auto simp: mbit_def shift_bytes_def lmem_append lmem_drop div8_less_iff)
qed

text \<open>
  The array a read leaves behind: the requested bits that the stream has, then zeros. It
  determines the array.
\<close>

definition reads_bytes :: "bool list \<Rightarrow> nat \<Rightarrow> byte list \<Rightarrow> bool" where
  "reads_bytes st len out \<longleftrightarrow> length out = len div 8 + of_bool (len mod 8 \<noteq> 0) \<and>
     (\<forall>i. mbit (lmem out) i \<longleftrightarrow> i < len \<and> i < length st \<and> st ! i)"

lemma mbit_update:
  "j < length out \<Longrightarrow>
    mbit (lmem (out[j := x])) i = (if i div 8 = j then bit x (i mod 8) else mbit (lmem out) i)"
  by (simp add: lmem_update mbit_fun_upd)

lemma reads_bytes_aligned:
  assumes s: "bsr_wf s" "bsr_left s \<noteq> 0" "bsr_off s = 0"
    and out: "out = replicate (len div 8 + of_bool (len mod 8 \<noteq> 0)) 0"
  shows "fst (ur_bsr_bytes_any mem s len out) = out' \<Longrightarrow> reads_bytes (bsr_stream mem s) len out'"
    and "snd (ur_bsr_bytes_any mem s len out) = bsr_seek s len"
proof -
  let ?need = "len div 8 + of_bool (len mod 8 \<noteq> 0)"
  note defs = ur_bsr_bytes_any_def Let_def ur_mask_3_def
  have st: "i < 8 * bsr_left s \<Longrightarrow> bsr_stream mem s ! i = mbit mem (8 * bsr_ptr s + i)" for i
    using s by (simp add: nth_bsr_stream)
  have nd: "bsr_left s < ?need \<longleftrightarrow> 8 * bsr_left s < len"
    using need_ge_iff [of "Suc (bsr_left s)" len] by (simp add: Suc_le_eq)
  show "reads_bytes (bsr_stream mem s) len out'" if "fst (ur_bsr_bytes_any mem s len out) = out'"
  proof (cases "8 * bsr_left s < len")
    case True
    then have "out' = copy_bytes mem (bsr_ptr s) (bsr_left s) out"
      using that s nd unfolding defs by simp
    then show ?thesis
      using True nd s by (auto simp: reads_bytes_def out mbit_copy_bytes st)
  next
    case False
    let ?c = "copy_bytes mem (bsr_ptr s) (len div 8) out"
    have out': "out' = (if len mod 8 \<noteq> 0 then ?c[len div 8 := mem (bsr_ptr s + len div 8) AND mask (len mod 8)] else ?c)"
      using that s nd False unfolding defs by (auto split: if_splits)
    have len: "length ?c = ?need"
      by (simp add: out)
    have z: "\<not> mbit (lmem out) i" for i
      by (simp add: out)
    have "mbit (lmem out') i \<longleftrightarrow> i < len \<and> mbit mem (8 * bsr_ptr s + i)" for i
    proof (cases "i div 8 = len div 8")
      case True
      then have "i < len \<longleftrightarrow> i mod 8 < len mod 8"
        by (metis add_less_cancel_left mult_div_mod_eq)
      moreover have "mbit mem (8 * bsr_ptr s + i) = bit (mem (bsr_ptr s + len div 8)) (i mod 8)"
        using True by (simp add: mbit_add_8)
      moreover have "\<not> i < 8 * (len div 8)"
        using True by (metis div8_less_iff less_irrefl)
      ultimately show ?thesis
        using True len by (auto simp: out' mbit_update mbit_copy_bytes z bit_word_take_bit)
    next
      case False
      then have "i < 8 * (len div 8) \<longleftrightarrow> i < len"
        by linarith
      with False len show ?thesis
        by (auto simp: out' mbit_update mbit_copy_bytes z)
    qed
    moreover have "length out' = ?need"
      using len by (simp add: out')
    ultimately show ?thesis
      unfolding reads_bytes_def using False s st by auto
  qed
  show "snd (ur_bsr_bytes_any mem s len out) = bsr_seek s len"
  proof (cases "8 * bsr_left s < len")
    case True
    then show ?thesis
      using s nd unfolding defs by (simp add: bsr_seek_gone)
  next
    case False
    then have "bsr_left s \<le> len div 8 \<Longrightarrow> bsr_left s = len div 8 \<and> len mod 8 = 0"
      using mult_div_mod_eq [of 8 len] by linarith
    with False show ?thesis
      using s nd unfolding defs by (auto simp: bsr_seek_def Let_def)
  qed
qed

lemma reads_bytes_shifted:
  assumes s: "bsr_wf s" "bsr_off s \<noteq> 0"
    and out: "out = replicate (len div 8 + of_bool (len mod 8 \<noteq> 0)) 0"
    and mx: "mx \<le> length out" and lim: "8 * mx + lim = min len (8 * bsr_left s - bsr_off s)" "lim \<le> 8"
    and out': "out' = (if lim = 0 then shift_bytes mem (bsr_ptr s) (bsr_off s) mx out
                       else (shift_bytes mem (bsr_ptr s) (bsr_off s) mx out)[mx := x])"
    and x: "\<And>q. q < 8 \<Longrightarrow> lim \<noteq> 0 \<Longrightarrow> bit x q \<longleftrightarrow> q < lim \<and> mbit mem (8 * (bsr_ptr s + mx) + bsr_off s + q)"
  shows "reads_bytes (bsr_stream mem s) len out'"
proof -
  let ?sh = "shift_bytes mem (bsr_ptr s) (bsr_off s) mx out"
  have off: "0 < bsr_off s" "bsr_off s < 8"
    using s by (simp_all add: bsr_wf_def)
  have z: "\<not> mbit (lmem out) i" for i
    by (simp add: out)
  have "lim \<noteq> 0 \<Longrightarrow> 8 * mx < len"
    using lim by linarith
  then have mx': "lim \<noteq> 0 \<Longrightarrow> mx < length ?sh"
    using need_ge_iff [of "Suc mx" len] mx by (simp add: out Suc_le_eq)
  have "mbit (lmem out') i \<longleftrightarrow> i < 8 * mx + lim \<and> mbit mem (8 * bsr_ptr s + bsr_off s + i)" for i
  proof (cases "lim \<noteq> 0 \<and> i div 8 = mx")
    case True
    have e: "8 * (bsr_ptr s + mx) + bsr_off s + i mod 8 = 8 * bsr_ptr s + bsr_off s + i"
      using mult_div_mod_eq [of 8 i] True [THEN conjunct2] by simp
    have "bit x (i mod 8) \<longleftrightarrow> i mod 8 < lim \<and> mbit mem (8 * bsr_ptr s + bsr_off s + i)"
      using x [of "i mod 8"] True unfolding e by simp
    moreover have "i mod 8 < lim \<longleftrightarrow> i < 8 * mx + lim"
      using True by (metis add_less_cancel_left mult_div_mod_eq)
    ultimately show ?thesis
      using True mx' by (simp add: out' mbit_update)
  next
    case False
    then have "i < 8 * mx + lim \<longleftrightarrow> i < 8 * mx"
      using lim(2) by auto
    with False mx' show ?thesis
      by (auto simp: out' mbit_update mbit_shift_bytes [OF off] z)
  qed
  moreover have "length out' = length out"
    using mx by (simp add: out')
  moreover have "bsr_stream mem s ! i = mbit mem (8 * bsr_ptr s + bsr_off s + i)"
    if "i < 8 * bsr_left s - bsr_off s" for i
    using that by (simp add: nth_bsr_stream add.assoc)
  moreover have "i < 8 * mx + lim \<longleftrightarrow> i < len \<and> i < 8 * bsr_left s - bsr_off s" for i
    by (simp add: lim(1))
  ultimately show ?thesis
    unfolding reads_bytes_def by (auto simp: out)
qed

lemma reads_bytes_unaligned:
  assumes s: "bsr_wf s" "bsr_left s \<noteq> 0" "bsr_off s \<noteq> 0" and near: "bsr_near s len"
    and out: "out = replicate (len div 8 + of_bool (len mod 8 \<noteq> 0)) 0"
  shows "reads_bytes (bsr_stream mem s) len (fst (ur_bsr_bytes_any mem s len out)) \<and>
    snd (ur_bsr_bytes_any mem s len out) = bsr_seek s len"
proof -
  let ?off = "bsr_off s" and ?last = "bsr_left s - 1" and ?rest = "8 - bsr_off s"
  have off: "0 < ?off" "?off < 8"
    using s by (simp_all add: bsr_wf_def)
  have c: "(bsr_left s \<le> len div 8 + of_bool (len mod 8 \<noteq> 0)) = (8 * ?last < len)"
    using s(2) by (simp only: need_ge_iff)
  note defs = ur_bsr_bytes_any_def Let_def ur_mask_3_def c
  note shifted = reads_bytes_shifted [OF s(1,3) out]
  have inb: "mbit mem (8 * b + ?off + q) = bit (mem b) (?off + q)" if "q < ?rest" for b q
    using mbit_byte [of "?off + q" mem b] that by (simp add: add.assoc)
  consider (inl) r where "len = 8 * ?last + r" "0 < r" "r < ?rest"
    | (behind) r where "len = 8 * ?last + r" "?rest \<le> r" "r < 256"
    | (before) "len \<le> 8 * ?last"
    using near s(2) unfolding bsr_near_def by (metis add_less_cancel_left less_imp_add_positive not_le)
  then show ?thesis
  proof cases
    case inl
    then have d: "len div 8 = ?last" "len mod 8 = r"
      by simp_all
    have s8: "sub8 len (?last * 8) = r" and lt: "8 * ?last < len"
      using inl by (simp_all add: sub8_id mult.commute)
    have r: "ur_bsr_bytes_any mem s len out = ((shift_bytes mem (bsr_ptr s) ?off ?last out)
        [?last := drop_bit ?off (mem (bsr_ptr s + ?last)) AND mask r], bsr_seek s len)"
      using s(2,3) inl(2,3) lt s8 d unfolding defs by (simp add: bsr_seek_last [OF s(1,2) inl(1,3)])
    have "reads_bytes (bsr_stream mem s) len ((shift_bytes mem (bsr_ptr s) ?off ?last out)
        [?last := drop_bit ?off (mem (bsr_ptr s + ?last)) AND mask r])"
      using inl d off s(2) inb by (intro shifted [of ?last r]) (auto simp: out word_bits)
    then show ?thesis
      by (simp add: r)
  next
    case behind
    then have s8: "sub8 len (?last * 8) = r" and mn: "min ?last (len div 8) = ?last" and lt: "8 * ?last < len"
      using off by (auto simp: sub8_id mult.commute)
    have r: "ur_bsr_bytes_any mem s len out = ((shift_bytes mem (bsr_ptr s) ?off ?last out)
        [?last := drop_bit ?off (mem (bsr_ptr s + ?last))], bsr_seek s len)"
      using s(2,3) behind(2) lt s8 mn unfolding defs by (simp add: bsr_seek_behind [OF s(1,2) behind(1,2)])
    have "?last \<le> len div 8"
      using behind(1) by simp
    then have "reads_bytes (bsr_stream mem s) len ((shift_bytes mem (bsr_ptr s) ?off ?last out)
        [?last := drop_bit ?off (mem (bsr_ptr s + ?last))])"
      using behind off s(2) inb bit_byte_less [of "mem _" "?off + _"]
      by (intro shifted [of ?last ?rest]) (auto simp: out word_bits less_diff_conv add.commute)
    then show ?thesis
      by (simp add: r)
  next
    case before
    let ?q = "len div 8" and ?r = "len mod 8"
    let ?m = "drop_bit ?off (mem (bsr_ptr s + ?q))"
    let ?x = "if ?r \<le> ?rest then ?m AND mask ?r
      else (?m XOR push_bit ?rest (mem (bsr_ptr s + ?q + 1) AND mask ((?off + ?r) mod 8))) AND mask ?r"
    have mn: "min ?last ?q = ?q"
      using before by linarith
    have r: "ur_bsr_bytes_any mem s len out =
      (if ?r = 0 then shift_bytes mem (bsr_ptr s) ?off ?q out
       else (shift_bytes mem (bsr_ptr s) ?off ?q out)[?q := ?x], bsr_seek s len)"
      using s(2,3) before unfolding defs by (simp add: mn bsr_seek_before [OF s(1,2) before])
    have "bit ?x k \<longleftrightarrow> k < ?r \<and> mbit mem (8 * (bsr_ptr s + ?q) + ?off + k)" if "k < 8" for k
    proof (cases "?r \<le> ?rest")
      case True
      then show ?thesis
        using inb [of k "bsr_ptr s + ?q"] by (auto simp: word_bits)
    next
      case False
      then have "(?off + ?r) mod 8 = ?r - ?rest"
        using off by (simp add: le_mod_geq)
      then show ?thesis
        using False bit_shift_byte [OF off that, of mem "bsr_ptr s + ?q"] off
        by (auto simp: word_bits bit_xor_iff bit_and_iff bit_mask_iff simp del: push_bit_and)
    qed
    then have "reads_bytes (bsr_stream mem s) len
      (if ?r = 0 then shift_bytes mem (bsr_ptr s) ?off ?q out
       else (shift_bytes mem (bsr_ptr s) ?off ?q out)[?q := ?x])"
      using before s(2) off by (intro shifted [of ?q ?r _ _ ?x]) (auto simp: out)
    then show ?thesis
      by (simp add: r)
  qed
qed

lemma ur_bsr_bytes_any_eq:
  assumes s: "bsr_wf s" and near: "bsr_off s = 0 \<or> bsr_near s len"
    and out: "out = replicate (len div 8 + of_bool (len mod 8 \<noteq> 0)) 0"
  shows "reads_bytes (bsr_stream mem s) len (fst (ur_bsr_bytes_any mem s len out)) \<and>
    snd (ur_bsr_bytes_any mem s len out) = bsr_seek s len"
proof (cases "bsr_left s = 0")
  case True
  with s have "bsr_stream mem s = []"
    by (simp add: bsr_stream_nil_iff)
  moreover have "ur_bsr_bytes_any mem s len out = (out, bsr_seek s len)"
    using True by (simp add: ur_bsr_bytes_any_def bsr_seek_def)
  moreover have "length out = len div 8 + of_bool (len mod 8 \<noteq> 0)" "\<not> mbit (lmem out) i" for i
    by (simp_all add: out)
  ultimately show ?thesis
    by (simp add: reads_bytes_def)
next
  case False
  then show ?thesis
    using reads_bytes_aligned [OF s False _ out, of mem]
      reads_bytes_unaligned [OF s False _ _ out, of mem] near by auto
qed

section \<open>Tags, logs and run lengths\<close>

lemma bsr_seek_2:
  assumes "bsr_wf s" and "bsr_left s \<noteq> 0"
  shows "bsr_seek s 2 =
    (let bits = bsr_off s + 2; left = bsr_left s - bits div 8
     in if left = 0 then s\<lparr>bsr_bits := u64 (bsr_bits s + 2), bsr_bytes := None, bsr_left := 0, bsr_off := 0\<rparr>
        else s\<lparr>bsr_bits := u64 (bsr_bits s + 2), bsr_bytes := Some (bsr_ptr s + bits div 8), bsr_left := left,
               bsr_off := bits mod 8\<rparr>)"
  using assms by (auto simp: bsr_seek_def Let_def)

lemma ur_bsr_tag_eq:
  assumes "bsr_wf s"
  shows "ur_bsr_tag mem s =
    (case bsr_stream mem s of
       [] \<Rightarrow> (Inl ur_cue_gone, s)
     | False # _ \<Rightarrow> (Inr ur_jam_atom, bsr_seek s 1)
     | [True] \<Rightarrow> (Inl ur_cue_gone, bsr_seek s 1)
     | True # x # _ \<Rightarrow> (Inr (if x then ur_jam_back else ur_jam_cell), bsr_seek s 2))"
proof (cases "bsr_left s = 0")
  case True
  with assms have "bsr_stream mem s = []"
    by (simp add: bsr_stream_nil_iff)
  with True show ?thesis
    by (simp add: ur_bsr_tag_def)
next
  case nz: False
  let ?x = "bit (mem (bsr_ptr s)) (bsr_off s)" and ?s1 = "bsr_seek s 1"
  note defs = ur_bsr_tag_def Let_def and_one_eq_0 bit_drop_bit_eq ur_mask_3_def
  have st: "bsr_stream mem s = ?x # bsr_stream mem ?s1"
    by (rule bsr_stream_hd [OF assms nz])
  show ?thesis
  proof (cases ?x)
    case False
    then show ?thesis
      using nz assms by (auto simp: defs st bsr_seek_def)
  next
    case x: True
    show ?thesis
    proof (cases "bsr_off s = 7 \<and> bsr_left s = 1")
      case True
      then have "bsr_stream mem ?s1 = []"
        by (simp add: bsr_stream_seek flip: length_0_conv)
      with True x assms show ?thesis
        by (simp add: defs st bsr_set_gone_def bsr_seek_def)
    next
      case False
      then have nz1: "bsr_left ?s1 \<noteq> 0"
        using nz assms by (auto simp: bsr_seek_1 simp del: One_nat_def)
      have st1: "bsr_stream mem ?s1 = bit (mem (bsr_ptr ?s1)) (bsr_off ?s1) # bsr_stream mem (bsr_seek ?s1 1)"
        by (rule bsr_stream_hd [OF bsr_wf_seek [OF assms] nz1])
      have y: "bit (mem (bsr_ptr ?s1)) (bsr_off ?s1) =
          (if bsr_off s = 7 then bit (mem (bsr_ptr s + 1)) 0 else bit (mem (bsr_ptr s)) (bsr_off s + 1))"
        using nz False assms by (auto simp: bsr_seek_1 add.commute simp del: One_nat_def)
      have "bsr_stream mem s = True #
          (if bsr_off s = 7 then bit (mem (bsr_ptr s + 1)) 0 else bit (mem (bsr_ptr s)) (bsr_off s + 1)) #
          bsr_stream mem (bsr_seek ?s1 1)"
        unfolding st st1 y using x by simp
      then show ?thesis
        using x nz False assms by (auto simp: defs bsr_seek_2 split: if_splits)
    qed
  qed
qed

text \<open>The three ways the loop over zero bytes ends.\<close>

lemma bsr_log_loop_Found:
  assumes "bsr_log_loop mem b left n byt = Log_Found k x" and "n \<le> 32" and "32 - n < left"
  shows "x \<noteq> 0 \<and> 32 - n \<le> k \<and> k \<le> 32 \<and> k < left \<and>
    x = (if k = 32 - n then byt else mem (b + k)) \<and>
    (k \<noteq> 32 - n \<longrightarrow> byt = 0) \<and> (\<forall>j. 32 - n < j \<and> j < k \<longrightarrow> mem (b + j) = 0)"
  using assms
proof (induction n arbitrary: byt)
  case 0
  then show ?case by (auto split: if_splits)
next
  case (Suc n)
  show ?case
  proof (cases "byt = 0")
    case True
    with Suc.prems have r: "bsr_log_loop mem b left n (mem (b + (32 - n))) = Log_Found k x" "32 - n \<noteq> left"
      by (auto simp: Let_def split: if_splits)
    from r(2) Suc.prems have "n \<le> 32" "32 - n < left"
      by linarith+
    with r(1) have IH: "x \<noteq> 0 \<and> 32 - n \<le> k \<and> k \<le> 32 \<and> k < left \<and> x = mem (b + k) \<and>
        (k \<noteq> 32 - n \<longrightarrow> mem (b + (32 - n)) = 0) \<and> (\<forall>j. 32 - n < j \<and> j < k \<longrightarrow> mem (b + j) = 0)"
      using Suc.IH [OF r(1)] by (auto split: if_splits)
    have "mem (b + j) = 0" if "32 - Suc n < j" "j < k" for j
      using that IH by (cases "j = 32 - n") auto
    with IH True show ?thesis
      using Suc.prems(2) by auto
  qed (use Suc.prems in \<open>auto split: if_splits\<close>)
qed

lemma bsr_log_loop_zeros:
  assumes "n \<le> 32" and "32 - n < left"
  shows "bsr_log_loop mem b left n byt = Log_Gone k \<Longrightarrow>
      k = left \<and> left \<le> 32 \<and> byt = 0 \<and> (\<forall>j. 32 - n < j \<and> j < left \<longrightarrow> mem (b + j) = 0)"
    and "bsr_log_loop mem b left n byt = Log_Meme \<Longrightarrow>
      32 < left \<and> byt = 0 \<and> (\<forall>j. 32 - n < j \<and> j \<le> 32 \<longrightarrow> mem (b + j) = 0)"
  using assms
proof (induction n arbitrary: byt)
  case 0
  {
    case 1
    then show ?case by (auto split: if_splits)
  next
    case 2
    then show ?case by (auto split: if_splits)
  }
next
  case (Suc n)
  {
    case 1
    then show ?case
    proof (cases "32 - n = left")
      case False
      with 1 have "bsr_log_loop mem b left n (mem (b + (32 - n))) = Log_Gone k" "byt = 0"
        by (auto simp: Let_def split: if_splits)
      moreover from False 1 have "n \<le> 32" "32 - n < left"
        by linarith+
      ultimately have "k = left \<and> left \<le> 32 \<and> mem (b + (32 - n)) = 0 \<and> (\<forall>j. 32 - n < j \<and> j < left \<longrightarrow> mem (b + j) = 0)"
        using Suc.IH(1) [of "mem (b + (32 - n))"] by blast
      moreover have "mem (b + j) = 0" if "32 - Suc n < j" "j < left" for j
        using that calculation by (cases "j = 32 - n") auto
      ultimately show ?thesis
        using \<open>byt = 0\<close> by auto
    qed (auto simp: Let_def split: if_splits)
  next
    case 2
    then have "bsr_log_loop mem b left n (mem (b + (32 - n))) = Log_Meme" "byt = 0" "32 - n \<noteq> left"
      by (auto simp: Let_def split: if_splits)
    moreover from this 2 have "n \<le> 32" "32 - n < left"
      by linarith+
    ultimately have "32 < left \<and> mem (b + (32 - n)) = 0 \<and> (\<forall>j. 32 - n < j \<and> j \<le> 32 \<longrightarrow> mem (b + j) = 0)"
      using Suc.IH(2) [of "mem (b + (32 - n))"] by blast
    moreover have "mem (b + j) = 0" if "32 - Suc n < j" "j \<le> 32" for j
      using that calculation by (cases "j = 32 - n") auto
    ultimately show ?case
      using \<open>byt = 0\<close> by auto
  }
qed

text \<open>Zero bytes are zero bits of the stream.\<close>

lemma mbit_zero_bytes:
  assumes "drop_bit off (mem p) = 0" and "\<forall>j. 0 < j \<and> j < k \<longrightarrow> mem (p + j) = 0" and "off < 8" and "off + i < 8 * k"
  shows "\<not> mbit mem (8 * p + (off + i))"
proof (cases "off + i < 8")
  case True
  have "\<not> bit (drop_bit off (mem p)) i"
    using assms(1) by simp
  with True show ?thesis
    by (simp add: mbit_in_byte bit_drop_bit_eq)
next
  case False
  then have "0 < (off + i) div 8" "(off + i) div 8 < k"
    using assms(4) by auto
  with assms(2) show ?thesis
    by (simp add: mbit_add_8)
qed

lemma bsr_log_found_bits:
  assumes "bsr_log_loop mem p left 32 (drop_bit off (mem p)) = Log_Found k x" and "off < 8" and "0 < left"
  defines "z \<equiv> tz x + (if k \<noteq> 0 then k * 8 - off else 0)"
  shows "off + z < 8 * left" and "mbit mem (8 * p + (off + z))" and "\<forall>i<z. \<not> mbit mem (8 * p + (off + i))"
    and "off + z < 8 * Suc k"
proof -
  have F: "x \<noteq> 0" "k \<le> 32" "k < left" "x = (if k = 0 then drop_bit off (mem p) else mem (p + k))"
    "k \<noteq> 0 \<Longrightarrow> drop_bit off (mem p) = 0" "\<forall>j. 0 < j \<and> j < k \<longrightarrow> mem (p + j) = 0"
    using bsr_log_loop_Found [OF assms(1)] assms(3) by auto
  note t = tz_cases [OF F(1)]
  show z8: "off + z < 8 * Suc k"
  proof (cases "k = 0")
    case True
    then have "bit (mem p) (off + tz x)"
      using t(2) F(4) by (simp add: bit_drop_bit_eq)
    then show ?thesis
      using True bit_byte_less by (auto simp: z_def)
  next
    case False
    with t(1) show ?thesis
      using assms(2) by (simp add: z_def)
  qed
  then show "off + z < 8 * left"
    using F(3) by simp
  have pos: "mbit mem (8 * p + (off + z)) = bit x (tz x)"
    "\<And>i. (if k \<noteq> 0 then k * 8 - off else 0) \<le> i \<Longrightarrow> i < z \<Longrightarrow>
       mbit mem (8 * p + (off + i)) = bit x (i - (if k \<noteq> 0 then k * 8 - off else 0))"
  proof -
    have *: "mbit mem (8 * p + (off + i)) = bit x (i - (if k \<noteq> 0 then k * 8 - off else 0))"
      if i: "(if k \<noteq> 0 then k * 8 - off else 0) \<le> i" "off + i < 8 * Suc k" for i
    proof (cases "k = 0")
      case True
      with i F(4) show ?thesis
        by (simp add: mbit_in_byte bit_drop_bit_eq)
    next
      case False
      with i assms(2) have "8 * p + (off + i) = 8 * (p + k) + (i - (k * 8 - off))" "i - (k * 8 - off) < 8"
        by auto
      with False F(4) show ?thesis
        by (simp only: mbit_byte) simp
    qed
    show "mbit mem (8 * p + (off + z)) = bit x (tz x)"
      using * [of z] z8 by (auto simp: z_def)
    show "mbit mem (8 * p + (off + i)) = bit x (i - (if k \<noteq> 0 then k * 8 - off else 0))"
      if "(if k \<noteq> 0 then k * 8 - off else 0) \<le> i" "i < z" for i
      using * [of i] that z8 by linarith
  qed
  then show "mbit mem (8 * p + (off + z))"
    using t(2) by simp
  show "\<forall>i<z. \<not> mbit mem (8 * p + (off + i))"
  proof (intro allI impI)
    fix i
    assume "i < z"
    show "\<not> mbit mem (8 * p + (off + i))"
    proof (cases "(if k \<noteq> 0 then k * 8 - off else 0) \<le> i")
      case True
      with pos(2) [OF this \<open>i < z\<close>] t(3) \<open>i < z\<close> show ?thesis
        by (simp add: z_def)
    next
      case False
      then show ?thesis
        using mbit_zero_bytes [OF F(5,6) assms(2), of i] by (auto split: if_splits)
    qed
  qed
qed

text \<open>The number of leading zeros of a stream.\<close>

definition zeros :: "bool list \<Rightarrow> nat" where
  "zeros st = length (takeWhile Not st)"

lemma zeros_eqI: "z < length st \<Longrightarrow> st ! z \<Longrightarrow> \<forall>i<z. \<not> st ! i \<Longrightarrow> zeros st = z"
  unfolding zeros_def by (subst takeWhile_eq_take_P_nth [of z]) auto

lemma zeros_all: "\<forall>i<length st. \<not> st ! i \<Longrightarrow> zeros st = length st"
  unfolding zeros_def by (metis in_set_conv_nth takeWhile_eq_all_conv)

lemma zeros_append [simp]: "zeros (replicate z False @ True # st) = z"
  by (simp add: zeros_def takeWhile_append)

lemma zeros_replicate: "zeros (replicate n False @ st) = n + zeros st"
  by (induction n) (auto simp: zeros_def)

lemma full_bytes: "x \<le> 8 * l \<Longrightarrow> l \<le> x div 8 \<Longrightarrow> x mod 8 = 0 \<and> l = x div (8::nat)"
  using mult_div_mod_eq [of 8 x] by linarith

lemma bsr_log_zeros:
  assumes "bsr_wf s" and "bsr_left s \<noteq> 0"
  shows "case bsr_log_loop mem (bsr_ptr s) (bsr_left s) 32 (drop_bit (bsr_off s) (mem (bsr_ptr s))) of
      Log_Found k x \<Rightarrow> zeros (bsr_stream mem s) = tz x + (if k \<noteq> 0 then k * 8 - bsr_off s else 0) \<and>
        zeros (bsr_stream mem s) < length (bsr_stream mem s) \<and> (255 < zeros (bsr_stream mem s) \<longrightarrow> k = 32)
    | Log_Gone k \<Rightarrow> k = bsr_left s \<and> k \<le> 32 \<and> zeros (bsr_stream mem s) = length (bsr_stream mem s)
    | Log_Meme \<Rightarrow> 32 < bsr_left s \<and> 256 < zeros (bsr_stream mem s)"
proof -
  let ?p = "bsr_ptr s" and ?off = "bsr_off s" and ?left = "bsr_left s" and ?st = "bsr_stream mem s"
  have off: "?off < 8"
    using assms by (simp add: bsr_wf_def)
  note nth = nth_bsr_stream [of _ s mem]
  show ?thesis
  proof (cases "bsr_log_loop mem ?p ?left 32 (drop_bit ?off (mem ?p))")
    case (Log_Found k x)
    let ?z = "tz x + (if k \<noteq> 0 then k * 8 - ?off else 0)"
    note F = bsr_log_found_bits [OF Log_Found off]
    have "?z < length ?st"
      using F(1) assms(2) by auto
    then have "zeros ?st = ?z"
      using F(2,3) assms(2) nth by (intro zeros_eqI) auto
    moreover have "255 < ?z \<longrightarrow> k = 32"
      using F(4) assms(2) bsr_log_loop_Found [OF Log_Found] by auto
    ultimately show ?thesis
      using Log_Found \<open>?z < length ?st\<close> by simp
  next
    case (Log_Gone k)
    then have G: "k = ?left \<and> ?left \<le> 32 \<and> drop_bit ?off (mem ?p) = 0 \<and> (\<forall>j. 0 < j \<and> j < ?left \<longrightarrow> mem (?p + j) = 0)"
      using bsr_log_loop_zeros(1) [of 32 ?left mem ?p] assms(2) by auto
    then have "\<not> ?st ! i" if "i < length ?st" for i
      using that mbit_zero_bytes [of ?off mem ?p ?left i] off nth by auto
    with G Log_Gone show ?thesis
      using zeros_all by auto
  next
    case Log_Meme
    then have G: "32 < ?left \<and> drop_bit ?off (mem ?p) = 0 \<and> (\<forall>j. 0 < j \<and> j \<le> 32 \<longrightarrow> mem (?p + j) = 0)"
      using bsr_log_loop_zeros(2) [of 32 ?left mem ?p] assms(2) by auto
    have le: "257 \<le> 8 * ?left - ?off"
      using G off by linarith
    have "\<not> ?st ! i" if "i < 257" for i
    proof -
      have "\<not> mbit mem (8 * ?p + (?off + i))"
        using G off that by (intro mbit_zero_bytes [of ?off mem ?p 33]) auto
      then show ?thesis
        using nth [of i] that le by auto
    qed
    moreover have "257 \<le> length ?st"
      using le by simp
    ultimately have "take 257 ?st = replicate 257 False"
      by (intro nth_equalityI) auto
    then have "?st = replicate 257 False @ drop 257 ?st"
      by (metis append_take_drop_id)
    then have "257 \<le> zeros ?st"
      by (metis zeros_replicate le_add1)
    with G Log_Meme show ?thesis
      by simp
  qed
qed

lemma ur_bsr_log_ok:
  assumes s: "bsr_wf s" and z: "zeros (bsr_stream mem s) < length (bsr_stream mem s)" "zeros (bsr_stream mem s) \<le> 255"
  shows "ur_bsr_log mem s = (Inr (zeros (bsr_stream mem s)), bsr_seek s (zeros (bsr_stream mem s) + 1))"
proof -
  let ?z = "zeros (bsr_stream mem s)"
  have nz: "bsr_left s \<noteq> 0"
    using z by (metis bsr_stream_nil_iff list.size(3) not_less_zero s)
  let ?loop = "bsr_log_loop mem (bsr_ptr s) (bsr_left s) 32 (drop_bit (bsr_off s) (mem (bsr_ptr s)))"
  obtain k x where F: "?loop = Log_Found k x" "?z = tz x + (if k \<noteq> 0 then k * 8 - bsr_off s else 0)"
    using bsr_log_zeros [OF s nz, of mem] z by (cases ?loop) (simp_all del: length_bsr_stream)
  have "bsr_off s + 1 + ?z \<le> 8 * bsr_left s"
    using z(1) by simp
  then have "bsr_left s \<le> (bsr_off s + 1 + ?z) div 8 \<Longrightarrow>
      (bsr_off s + 1 + ?z) mod 8 = 0 \<and> bsr_left s = (bsr_off s + 1 + ?z) div 8"
    by (rule full_bytes)
  then show ?thesis
    using F nz z(2) by (auto simp: ur_bsr_log_def Let_def F(2) [symmetric] bsr_seek_def ur_mask_3_def)
qed

lemma ur_bsr_log_gone:
  assumes s: "bsr_wf s" and z: "zeros (bsr_stream mem s) = length (bsr_stream mem s)" "length (bsr_stream mem s) \<le> 256"
  shows "fst (ur_bsr_log mem s) = Inl ur_cue_gone" and "bsr_wf (snd (ur_bsr_log mem s))"
    and "bsr_stream mem (snd (ur_bsr_log mem s)) = []"
proof -
  have "ur_bsr_log mem s = (Inl ur_cue_gone, s) \<and> bsr_left s = 0 \<or>
      ur_bsr_log mem s = map_prod Inl id (bsr_set_gone s (bsr_left s * 8 - bsr_off s))"
    using bsr_log_zeros [OF s, of mem] z
    by (cases "bsr_left s = 0";
        cases "bsr_log_loop mem (bsr_ptr s) (bsr_left s) 32 (drop_bit (bsr_off s) (mem (bsr_ptr s)))")
      (simp_all add: ur_bsr_log_def Let_def del: length_bsr_stream)
  then show "fst (ur_bsr_log mem s) = Inl ur_cue_gone" and "bsr_wf (snd (ur_bsr_log mem s))"
    and "bsr_stream mem (snd (ur_bsr_log mem s)) = []"
    using s by (auto simp: bsr_set_gone_def bsr_wf_def bsr_stream_def)
qed

lemma ur_bsr_log_meme:
  assumes s: "bsr_wf s" and z: "255 < zeros (bsr_stream mem s)" "256 < length (bsr_stream mem s)"
  shows "ur_bsr_log mem s = (Inl ur_cue_meme, bsr_seek s 256)"
proof -
  have left: "32 < bsr_left s"
    using z(2) by simp
  moreover have "(bsr_off s + 256) div 8 = 32" "(bsr_off s + 256) mod 8 = bsr_off s"
    using s mod_mult_self2 [of "bsr_off s" 8 32] by (auto simp: bsr_wf_def)
  ultimately have "bsr_log_meme s = (ur_cue_meme, bsr_seek s 256)"
    using s bsr_bytes_ptr [OF s] by (simp add: bsr_log_meme_def bsr_seek_in)
  then show ?thesis
    using bsr_log_zeros [OF s, of mem] z left
    by (cases "bsr_log_loop mem (bsr_ptr s) (bsr_left s) 32 (drop_bit (bsr_off s) (mem (bsr_ptr s)))")
      (simp_all add: ur_bsr_log_def Let_def del: length_bsr_stream)
qed

text \<open>
  The run-length prefix \<^verbatim>\<open>+mat\<close> writes and \<^verbatim>\<open>+rub\<close> reads: the length of the length in
  unary, then the length without its leading one.
\<close>

definition rub_bits :: "nat \<Rightarrow> bool list" where
  "rub_bits len = replicate (met0 len) False @ True # low_bits (met0 len - 1) len"

lemma length_rub_bits: "length (rub_bits len) = (if len = 0 then 1 else 2 * met0 len)"
  using met0_pos [of len] by (auto simp: rub_bits_def)

lemma rub_bits_prefix:
  assumes "rub_bits a @ xs = rub_bits b @ ys"
  shows "a = b" and "xs = ys"
proof -
  have "takeWhile Not (rub_bits c @ zs) = replicate (met0 c) False" for c zs
    by (simp add: rub_bits_def takeWhile_append)
  then have met: "met0 a = met0 b"
    using assms by (metis length_replicate)
  then have low: "low_bits (met0 a - 1) a = low_bits (met0 a - 1) b" and "xs = ys"
    using assms by (simp_all add: rub_bits_def)
  then show "xs = ys"
    by simp
  have "bit a i = bit b i" for i
  proof -
    consider "i < met0 a - 1" | "i = met0 a - 1" "0 < a" "0 < b" | "a = 0" "b = 0" | "met0 a \<le> i"
      using met met0_eq_0 [of a] met0_eq_0 [of b] by fastforce
    then show ?thesis
    proof cases
      case 1
      then show ?thesis
        using arg_cong [OF low, of "\<lambda>xs. xs ! i"] by simp
    next
      case 2
      then show ?thesis
        using met met0_top_bit [of a] met0_top_bit [of b] by simp
    next
      case 4
      then show ?thesis
        using met bit_imp_less_met0 [of a i] bit_imp_less_met0 [of b i] by auto
    qed simp
  qed
  then show "a = b"
    by (rule bit_eqI)
qed

lemma ur_bsr_rub_len_ok:
  assumes s: "bsr_wf s" and st: "bsr_stream mem s = rub_bits len @ rest" and len: "len < 2 ^ 63"
  shows "ur_bsr_rub_len mem s = (Inr (of_nat len), bsr_seek s (length (rub_bits len)))"
proof -
  let ?z = "met0 len"
  have z: "zeros (bsr_stream mem s) = ?z" "?z < length (bsr_stream mem s)"
    unfolding st by (simp_all add: rub_bits_def)
  have z63: "?z \<le> 63"
    using len by (simp add: met0_le_iff)
  have log: "ur_bsr_log mem s = (Inr ?z, bsr_seek s (?z + 1))"
    using ur_bsr_log_ok [OF s, of mem] z z63 by simp
  consider "len = 0" | "len = 1" | "1 < len"
    by linarith
  then show ?thesis
  proof cases
    case 1
    then show ?thesis
      using log by (simp add: ur_bsr_rub_len_def length_rub_bits)
  next
    case 2
    then show ?thesis
      using log by (simp add: ur_bsr_rub_len_def length_rub_bits met0_Suc numeral_2_eq_2)
  next
    case 3
    have "bsr_stream mem (bsr_seek s (?z + 1)) = low_bits (?z - 1) len @ rest"
      using st by (simp add: bsr_stream_seek rub_bits_def)
    then have rd: "ur_bsr64_any mem (bsr_seek s (?z + 1)) (?z - 1) =
        (bits_val (low_bits (?z - 1) len), bsr_seek s (?z + 1 + (?z - 1)))"
      using z63 by (simp add: ur_bsr64_any_eq [OF bsr_wf_seek [OF s]] min_def bsr_seek_seek)
    have "2 \<le> ?z"
      using 3 met0_le_iff [of len 1] by simp
    have "(bits_val (low_bits (?z - 1) len) XOR push_bit (?z - 1) 1 :: u64) = of_nat len"
    proof (rule bit_word_eqI)
      fix i
      assume "i < LENGTH(64)"
      moreover have "bit len (?z - 1)"
        using 3 by (intro met0_top_bit) simp
      moreover have "?z - 1 < i \<Longrightarrow> \<not> bit len i"
        using bit_imp_less_met0 by fastforce
      ultimately show "bit (bits_val (low_bits (?z - 1) len) XOR push_bit (?z - 1) 1 :: u64) i = bit (of_nat len :: u64) i"
        by (cases "i < ?z - 1"; cases "i = ?z - 1")
          (auto simp: bit_xor_iff bit_horner_sum_bit_word_iff bit_push_word bit_exp_iff bit_of_nat_iff)
    qed
    then show ?thesis
      using log rd \<open>2 \<le> ?z\<close> z63 3 by (simp add: ur_bsr_rub_len_def length_rub_bits Let_def mult_2)
  qed
qed

end
