(* ===== verification/Bitstream_Writer.thy ===== *)
theory Bitstream_Writer
  imports Bitstream_Reader
begin

text \<open>
  The bitstream writer of \<^verbatim>\<open>pkg/ur/bitstream.c\<close>: the state \<^verbatim>\<open>ur_bsw_t\<close>, the unsafe writes (which
  assume room in the buffer), the public writes (which grow it first), and what each of them
  appends to the stream written so far.

  The buffer is a list of bytes whose length is the allocated size. Allocation failure aborts
  the process and has no model; sizes of allocations are exact numbers, the bit cursor wraps at
  64 bits as in the code.
\<close>

section \<open>State\<close>

record ur_bsw_t =
  bsw_prev :: nat
  bsw_size :: nat
  bsw_fill :: nat
  bsw_bits :: nat
  bsw_off :: nat
  bsw_bytes :: "byte list"

definition bsw_zero :: ur_bsw_t where
  "bsw_zero = \<lparr>bsw_prev = 0, bsw_size = 0, bsw_fill = 0, bsw_bits = 0, bsw_off = 0, bsw_bytes = []\<rparr>"

section \<open>Buffer management\<close>

definition ur_bsw_init :: "ur_bsw_t \<Rightarrow> nat \<Rightarrow> nat \<Rightarrow> ur_bsw_t" where
  "ur_bsw_init w prev sz = w\<lparr>bsw_prev := prev, bsw_size := sz, bsw_bytes := replicate sz 0\<rparr>"

definition ur_bsw_grow :: "ur_bsw_t \<Rightarrow> nat \<Rightarrow> ur_bsw_t" where
  "ur_bsw_grow w step =
     (let size = bsw_size w; next = size + step
      in w\<lparr>bsw_bytes := take size (bsw_bytes w) @ replicate step 0, bsw_prev := size, bsw_size := next\<rparr>)"

definition ur_bsw_sane :: "ur_bsw_t \<Rightarrow> bool" where
  "ur_bsw_sane w \<longleftrightarrow> bsw_off w < 8 \<and> u64 (bsw_fill w * 8 + bsw_off w) = bsw_bits w"

text \<open>The bit length, the byte length and the buffer; the writer itself is zeroed.\<close>

definition ur_bsw_done :: "ur_bsw_t \<Rightarrow> (nat \<times> nat \<times> byte list) \<times> ur_bsw_t" where
  "ur_bsw_done w =
     ((bsw_bits w, bsw_fill w + of_bool (bsw_off w \<noteq> 0), bsw_bytes w), bsw_zero)"

text \<open>The growth test the public operations share: \<open>need\<close> bytes, at least the previous size.\<close>

definition bsw_reserve :: "ur_bsw_t \<Rightarrow> nat \<Rightarrow> ur_bsw_t" where
  "bsw_reserve w need =
     (if bsw_size w \<le> bsw_fill w + need then ur_bsw_grow w (max need (bsw_prev w)) else w)"

section \<open>Writes\<close>

definition bsw_bit_unsafe :: "ur_bsw_t \<Rightarrow> byte \<Rightarrow> ur_bsw_t" where
  "bsw_bit_unsafe w b =
     (let fill = bsw_fill w; off = bsw_off w;
          w = w\<lparr>bsw_bytes := (bsw_bytes w)[fill := bsw_bytes w ! fill XOR push_bit off (b AND 1)]\<rparr>;
          w = (if off = 7 then w\<lparr>bsw_fill := 1 + fill, bsw_off := 0\<rparr> else w\<lparr>bsw_off := 1 + off\<rparr>)
      in w\<lparr>bsw_bits := u64 (bsw_bits w + 1)\<rparr>)"

definition ur_bsw_bit :: "ur_bsw_t \<Rightarrow> byte \<Rightarrow> ur_bsw_t" where
  "ur_bsw_bit w b =
     bsw_bit_unsafe (if bsw_off w = 7 \<and> 1 + bsw_fill w = bsw_size w then ur_bsw_grow w (bsw_prev w) else w) b"

definition bsw8_unsafe :: "ur_bsw_t \<Rightarrow> nat \<Rightarrow> byte \<Rightarrow> ur_bsw_t" where
  "bsw8_unsafe w len byt =
     (let fill = bsw_fill w; off = bsw_off w; rest = 8 - off; bytes = bsw_bytes w;
          w = (if len < rest
               then w\<lparr>bsw_bytes := bytes[fill := bytes ! fill XOR push_bit off (byt AND mask len)],
                      bsw_off := off + len\<rparr>
               else let l = byt AND mask rest; m = drop_bit rest byt;
                        bytes = bytes[fill := bytes ! fill XOR push_bit off l]; fill = fill + 1;
                        off = len - rest
                    in w\<lparr>bsw_bytes := bytes[fill := m AND mask off], bsw_fill := fill, bsw_off := off\<rparr>)
      in w\<lparr>bsw_bits := u64 (bsw_bits w + len)\<rparr>)"

definition ur_bsw8 :: "ur_bsw_t \<Rightarrow> nat \<Rightarrow> byte \<Rightarrow> ur_bsw_t" where
  "ur_bsw8 w len0 byt =
     (let len = min 8 len0
      in bsw8_unsafe (if bsw_size w \<le> bsw_fill w + of_bool ((bsw_off w + len) div 8 \<noteq> 0)
                      then ur_bsw_grow w (bsw_prev w) else w) len byt)"

text \<open>
  \<^verbatim>\<open>_bsw32_unsafe\<close> and \<^verbatim>\<open>_bsw64_unsafe\<close> differ in the width of \<open>val\<close> and in the number \<open>full\<close> of
  its bytes. \<open>put_bytes\<close> is a run of \<open>n\<close> stores \<^verbatim>\<open>bytes[fill++] = ur_mask_8(val >> 8 * i)\<close>, and
  \<open>bsw_switch\<close> is the \<^verbatim>\<open>switch\<close> and what follows it; a write of all bytes returns from the
  \<^verbatim>\<open>switch\<close>.
\<close>

primrec put_bytes :: "byte list \<Rightarrow> nat \<Rightarrow> 'a::len word \<Rightarrow> nat \<Rightarrow> byte list" where
  "put_bytes bytes fill val 0 = bytes"
| "put_bytes bytes fill val (Suc n) = (put_bytes bytes fill val n)[fill + n := ucast (drop_bit (8 * n) val)]"

definition bsw_switch :: "nat \<Rightarrow> ur_bsw_t \<Rightarrow> nat \<Rightarrow> 'a::len word \<Rightarrow> ur_bsw_t" where
  "bsw_switch full w len val =
     (let n = len div 8;
          w = w\<lparr>bsw_bytes := put_bytes (bsw_bytes w) (bsw_fill w) val n, bsw_fill := bsw_fill w + n\<rparr>
      in if n = full then w\<lparr>bsw_off := 0\<rparr>
         else let val = drop_bit (8 * n) val; off = ur_mask_3 len;
                  bytes = bsw_bytes w
              in w\<lparr>bsw_bytes := (if off \<noteq> 0 then bytes[bsw_fill w := ucast (val AND mask off)] else bytes),
                   bsw_off := off\<rparr>)"

definition bsw_word_unsafe :: "nat \<Rightarrow> ur_bsw_t \<Rightarrow> nat \<Rightarrow> 'a::len word \<Rightarrow> ur_bsw_t" where
  "bsw_word_unsafe full w len val =
     (let fill = bsw_fill w; off = bsw_off w; bytes = bsw_bytes w;
          w = w\<lparr>bsw_bits := u64 (bsw_bits w + len)\<rparr>
      in if off \<noteq> 0 then
           (let rest = 8 - off
            in if len < rest
               then w\<lparr>bsw_bytes := bytes[fill := bytes ! fill XOR ucast (push_bit off (val AND mask len))],
                      bsw_off := off + len\<rparr>
               else bsw_switch full
                      (w\<lparr>bsw_bytes := bytes[fill := bytes ! fill XOR ucast (push_bit off (val AND mask rest))],
                         bsw_fill := fill + 1, bsw_off := 0\<rparr>)
                      (len - rest) (drop_bit rest val))
         else bsw_switch full w len val)"

definition bsw32_unsafe :: "ur_bsw_t \<Rightarrow> nat \<Rightarrow> u32 \<Rightarrow> ur_bsw_t" where
  "bsw32_unsafe = bsw_word_unsafe 4"

definition bsw64_unsafe :: "ur_bsw_t \<Rightarrow> nat \<Rightarrow> u64 \<Rightarrow> ur_bsw_t" where
  "bsw64_unsafe = bsw_word_unsafe 8"

definition ur_bsw32 :: "ur_bsw_t \<Rightarrow> nat \<Rightarrow> u32 \<Rightarrow> ur_bsw_t" where
  "ur_bsw32 w len0 val =
     (let len = min 32 len0; need = ur_bloq_up3 (bsw_off w + len)
      in bsw32_unsafe (bsw_reserve w need) len val)"

definition ur_bsw64 :: "ur_bsw_t \<Rightarrow> nat \<Rightarrow> u64 \<Rightarrow> ur_bsw_t" where
  "ur_bsw64 w len0 val =
     (let len = min 64 len0; need = ur_bloq_up3 (bsw_off w + len)
      in bsw64_unsafe (bsw_reserve w need) len val)"

text \<open>
  \<^verbatim>\<open>_bsw_bytes_unsafe\<close>. The source is a byte memory: where \<open>off = len_bit\<close>, the code reads the byte
  behind the last byte it needs.
\<close>

definition store_bytes :: "byte list \<Rightarrow> nat \<Rightarrow> byte list \<Rightarrow> byte list" where
  "store_bytes bytes at src = take at bytes @ src @ drop (at + length src) bytes"

definition bsw_bytes_unsafe :: "ur_bsw_t \<Rightarrow> nat \<Rightarrow> memory \<Rightarrow> ur_bsw_t" where
  "bsw_bytes_unsafe w len src =
     (let fill = bsw_fill w; off = bsw_off w; bytes = bsw_bytes w;
          w = (if off = 0 then
                 (let len_byt = len div 8; len_bit = ur_mask_3 len;
                      bytes = store_bytes bytes fill (map src [0..<len_byt]);
                      w = w\<lparr>bsw_bytes := bytes, bsw_fill := fill + len_byt\<rparr>
                  in if len_bit \<noteq> 0
                     then w\<lparr>bsw_bytes := bytes[fill + len_byt := src len_byt AND mask len_bit],
                            bsw_off := len_bit\<rparr>
                     else w)
               else let rest = 8 - off in
                 if len \<le> rest then
                   (let ful = off + len
                    in w\<lparr>bsw_bytes := bytes[fill := bytes ! fill XOR push_bit off (src 0 AND mask len)],
                         bsw_fill := (if ful div 8 \<noteq> 0 then fill + 1 else fill),
                         bsw_off := ur_mask_3 ful\<rparr>)
                 else
                   (let nel = len - rest; len_byt = nel div 8; len_bit = ur_mask_3 nel;
                        bytes = bytes[fill := bytes ! fill XOR push_bit off (src 0)];
                        bytes = store_bytes bytes (fill + 1)
                          (map (\<lambda>i. drop_bit rest (src i) XOR push_bit off (src (i + 1))) [0..<len_byt]);
                        tal = drop_bit rest (src len_byt) XOR
                          (if len_bit < off then 0 else push_bit off (src (len_byt + 1)))
                    in w\<lparr>bsw_bytes := bytes[fill + 1 + len_byt := tal AND mask len_bit],
                         bsw_fill := fill + len_byt + 1, bsw_off := len_bit\<rparr>))
      in w\<lparr>bsw_bits := u64 (bsw_bits w + len)\<rparr>)"

definition ur_bsw_bytes :: "ur_bsw_t \<Rightarrow> nat \<Rightarrow> memory \<Rightarrow> ur_bsw_t" where
  "ur_bsw_bytes w len byt = bsw_bytes_unsafe (bsw_reserve w (ur_bloq_up3 (len + bsw_off w))) len byt"

definition bsw_bex_unsafe :: "ur_bsw_t \<Rightarrow> nat \<Rightarrow> ur_bsw_t" where
  "bsw_bex_unsafe w n =
     (let bits = n + bsw_off w; fill = bsw_fill w + bits div 8; off = ur_mask_3 bits;
          w = w\<lparr>bsw_bytes := (bsw_bytes w)[fill := bsw_bytes w ! fill XOR push_bit off 1]\<rparr>;
          w = (if off = 7 then w\<lparr>bsw_off := 0, bsw_fill := 1 + fill\<rparr>
               else w\<lparr>bsw_off := 1 + off, bsw_fill := fill\<rparr>)
      in w\<lparr>bsw_bits := u64 (bsw_bits w + (1 + n))\<rparr>)"

definition ur_bsw_bex :: "ur_bsw_t \<Rightarrow> nat \<Rightarrow> ur_bsw_t" where
  "ur_bsw_bex w n = bsw_bex_unsafe (bsw_reserve w (ur_bloq_up3 (1 + n + bsw_off w))) n"

definition bsw_mat64_unsafe :: "ur_bsw_t \<Rightarrow> nat \<Rightarrow> u64 \<Rightarrow> ur_bsw_t" where
  "bsw_mat64_unsafe w len val =
     (if len = 0 then bsw_bit_unsafe w 1
      else let nel = ur_met0_64 (of_nat len);
               w = bsw_bex_unsafe w nel;
               w = bsw64_unsafe w (nel - 1) (of_nat len)
           in bsw64_unsafe w len val)"

definition MAT_LEN :: "nat \<Rightarrow> nat" where
  "MAT_LEN len = (if len = 0 then 1 else len + 2 * ur_met0_64 (of_nat len))"

definition ur_bsw_mat64 :: "ur_bsw_t \<Rightarrow> nat \<Rightarrow> u64 \<Rightarrow> ur_bsw_t" where
  "ur_bsw_mat64 w len0 val =
     (let len = min 64 len0; need = ur_bloq_up3 (bsw_off w + MAT_LEN len)
      in bsw_mat64_unsafe (bsw_reserve w need) len val)"

definition bsw_mat_bytes_unsafe :: "ur_bsw_t \<Rightarrow> nat \<Rightarrow> memory \<Rightarrow> ur_bsw_t" where
  "bsw_mat_bytes_unsafe w len byt =
     (if len = 0 then bsw_bit_unsafe w 1
      else let nel = ur_met0_64 (of_nat len);
               w = bsw_bex_unsafe w nel;
               w = bsw64_unsafe w (nel - 1) (of_nat len)
           in bsw_bytes_unsafe w len byt)"

definition ur_bsw_mat_bytes :: "ur_bsw_t \<Rightarrow> nat \<Rightarrow> memory \<Rightarrow> ur_bsw_t" where
  "ur_bsw_mat_bytes w len byt =
     bsw_mat_bytes_unsafe (bsw_reserve w (ur_bloq_up3 (bsw_off w + MAT_LEN len))) len byt"

definition bsw_back64 :: "ur_bsw_t \<Rightarrow> nat \<Rightarrow> u64 \<Rightarrow> ur_bsw_t" where
  "bsw_back64 w len val = bsw_mat64_unsafe (bsw8_unsafe w 2 3) len val"

definition ur_bsw_back64 :: "ur_bsw_t \<Rightarrow> nat \<Rightarrow> u64 \<Rightarrow> ur_bsw_t" where
  "ur_bsw_back64 w len0 val =
     (let len = min 64 len0; need = ur_bloq_up3 (2 + bsw_off w + MAT_LEN len)
      in bsw_back64 (bsw_reserve w need) len val)"

definition bsw_atom64 :: "ur_bsw_t \<Rightarrow> nat \<Rightarrow> u64 \<Rightarrow> ur_bsw_t" where
  "bsw_atom64 w len val = bsw_mat64_unsafe (bsw_bit_unsafe w 0) len val"

definition ur_bsw_atom64 :: "ur_bsw_t \<Rightarrow> nat \<Rightarrow> u64 \<Rightarrow> ur_bsw_t" where
  "ur_bsw_atom64 w len0 val =
     (let len = min 64 len0; need = ur_bloq_up3 (1 + bsw_off w + MAT_LEN len)
      in bsw_atom64 (bsw_reserve w need) len val)"

definition bsw_atom_bytes_unsafe :: "ur_bsw_t \<Rightarrow> nat \<Rightarrow> memory \<Rightarrow> ur_bsw_t" where
  "bsw_atom_bytes_unsafe w len byt = bsw_mat_bytes_unsafe (bsw_bit_unsafe w 0) len byt"

definition ur_bsw_atom_bytes :: "ur_bsw_t \<Rightarrow> nat \<Rightarrow> memory \<Rightarrow> ur_bsw_t" where
  "ur_bsw_atom_bytes w len byt =
     bsw_atom_bytes_unsafe (bsw_reserve w (ur_bloq_up3 (1 + bsw_off w + MAT_LEN len))) len byt"

definition ur_bsw_cell :: "ur_bsw_t \<Rightarrow> ur_bsw_t" where
  "ur_bsw_cell w = bsw8_unsafe (bsw_reserve w (ur_bloq_up3 (2 + bsw_off w))) 2 1"

section \<open>The stream written so far\<close>

definition bsw_pos :: "ur_bsw_t \<Rightarrow> nat" where
  "bsw_pos w = 8 * bsw_fill w + bsw_off w"

definition bsw_stream :: "ur_bsw_t \<Rightarrow> bool list" where
  "bsw_stream w = mbits (lmem (bsw_bytes w)) 0 (bsw_pos w)"

text \<open>
  The writer's invariant: the cursor is inside the buffer, the counters agree, and everything
  behind the cursor is zero, which the writes by exclusive or and the skips of \<^verbatim>\<open>bex\<close> rely on.
\<close>

definition bsw_wf :: "ur_bsw_t \<Rightarrow> bool" where
  "bsw_wf w \<longleftrightarrow> bsw_off w < 8 \<and> bsw_fill w < bsw_size w \<and> length (bsw_bytes w) = bsw_size w \<and>
     0 < bsw_prev w \<and> bsw_bits w = u64 (bsw_pos w) \<and> (\<forall>k \<ge> bsw_pos w. \<not> mbit (lmem (bsw_bytes w)) k)"

definition bsw_room :: "ur_bsw_t \<Rightarrow> nat \<Rightarrow> bool" where
  "bsw_room w n \<longleftrightarrow> bsw_pos w + n < 8 * bsw_size w"

definition bsw_appends :: "ur_bsw_t \<Rightarrow> bool list \<Rightarrow> ur_bsw_t \<Rightarrow> bool" where
  "bsw_appends w bs w' \<longleftrightarrow> bsw_wf w' \<and> bsw_stream w' = bsw_stream w @ bs \<and>
     bsw_size w' = bsw_size w \<and> bsw_prev w' = bsw_prev w"

lemma length_bsw_stream [simp]: "length (bsw_stream w) = bsw_pos w"
  by (simp add: bsw_stream_def)

lemma bsw_appends_wf: "bsw_appends w bs w' \<Longrightarrow> bsw_wf w'"
  by (simp add: bsw_appends_def)

lemma bsw_appends_pos: "bsw_appends w bs w' \<Longrightarrow> bsw_pos w' = bsw_pos w + length bs"
  by (metis bsw_appends_def length_append length_bsw_stream)

lemma bsw_appends_room: "bsw_appends w bs w' \<Longrightarrow> bsw_room w (length bs + n) \<Longrightarrow> bsw_room w' n"
  using bsw_appends_pos [of w bs w'] by (simp add: bsw_room_def bsw_appends_def)

lemma bsw_room_mono: "bsw_room w n \<Longrightarrow> m \<le> n \<Longrightarrow> bsw_room w m"
  by (simp add: bsw_room_def)

lemma bsw_appends_trans:
  "bsw_appends w bs w1 \<Longrightarrow> bsw_appends w1 cs w2 \<Longrightarrow> bsw_appends w (bs @ cs) w2"
  by (simp add: bsw_appends_def)

lemma bsw_appends_refl: "bsw_wf w \<Longrightarrow> bsw_appends w [] w"
  by (simp add: bsw_appends_def)

text \<open>A write is determined by the bits it leaves in the buffer.\<close>

lemma bsw_appendsI:
  assumes w: "bsw_wf w" and room: "bsw_room w (length bs)"
    and pos: "bsw_pos w' = bsw_pos w + length bs" "bsw_off w' < 8"
    and same: "length (bsw_bytes w') = length (bsw_bytes w)" "bsw_size w' = bsw_size w"
      "bsw_prev w' = bsw_prev w" "bsw_bits w' = u64 (bsw_bits w + length bs)"
    and bits: "\<And>k. mbit (lmem (bsw_bytes w')) k =
      (if k < bsw_pos w then mbit (lmem (bsw_bytes w)) k
       else k < bsw_pos w + length bs \<and> bs ! (k - bsw_pos w))"
  shows "bsw_appends w bs w'"
proof -
  have "bsw_stream w' = bsw_stream w @ bs"
    by (rule nth_equalityI) (auto simp: pos bsw_stream_def nth_append bits)
  moreover have "bsw_fill w' < bsw_size w'"
    using room pos(1) unfolding bsw_room_def same(2) bsw_pos_def by linarith
  ultimately show ?thesis
    using w same pos bits by (simp add: bsw_appends_def bsw_wf_def)
qed

lemma mbit_store:
  assumes "j < length bytes"
  shows "mbit (lmem (bytes[j := x])) k =
    (if 8 * j \<le> k \<and> k < 8 * j + 8 then bit x (k - 8 * j) else mbit (lmem bytes) k)"
proof -
  have "k div 8 = j \<longleftrightarrow> 8 * j \<le> k \<and> k < 8 * j + 8"
    by linarith
  moreover have "k div 8 = j \<Longrightarrow> k mod 8 = k - 8 * j"
    by (metis minus_mult_div_eq_mod)
  ultimately show ?thesis
    using assms by (simp add: mbit_update)
qed

lemma bit_lmem_byte: "j < length bytes \<Longrightarrow> r < 8 \<Longrightarrow> bit (bytes ! j) r = mbit (lmem bytes) (8 * j + r)"
  by (simp add: mbit_byte lmem_def)

lemma mbit_store_xor:
  assumes "j < length bytes"
  shows "mbit (lmem (bytes[j := bytes ! j XOR x])) k =
    (mbit (lmem bytes) k \<noteq> (8 * j \<le> k \<and> k < 8 * j + 8 \<and> bit x (k - 8 * j)))"
proof (cases "8 * j \<le> k \<and> k < 8 * j + 8")
  case True
  then show ?thesis
    using bit_lmem_byte [OF assms, of "k - 8 * j"] assms by (simp add: mbit_store bit_xor_iff less_diff_conv2)
qed (use assms in \<open>auto simp: mbit_store\<close>)

lemma bsw_wf_simps:
  assumes "bsw_wf w"
  shows "bsw_off w < 8" "bsw_fill w < length (bsw_bytes w)" "bsw_size w = length (bsw_bytes w)"
    "bsw_bits w = u64 (bsw_pos w)" "\<And>k. bsw_pos w \<le> k \<Longrightarrow> \<not> mbit (lmem (bsw_bytes w)) k" "0 < bsw_prev w"
  using assms by (auto simp: bsw_wf_def)

section \<open>What each write appends\<close>

text \<open>Bits that fit into the current byte are added to it by exclusive or.\<close>

lemma append_in_byte:
  assumes w: "bsw_wf w" and room: "bsw_room w (length bs)" and n: "length bs \<le> 8 - bsw_off w"
    and x: "\<And>r. bit x r \<longleftrightarrow> bsw_off w \<le> r \<and> r < bsw_off w + length bs \<and> bs ! (r - bsw_off w)"
    and w': "w' = w\<lparr>bsw_bytes := (bsw_bytes w)[bsw_fill w := bsw_bytes w ! bsw_fill w XOR x],
      bsw_fill := (if bsw_off w + length bs = 8 then bsw_fill w + 1 else bsw_fill w),
      bsw_off := (if bsw_off w + length bs = 8 then 0 else bsw_off w + length bs),
      bsw_bits := u64 (bsw_bits w + length bs)\<rparr>"
  shows "bsw_appends w bs w'"
proof (rule bsw_appendsI [OF w room])
  note W = bsw_wf_simps [OF w]
  fix k
  have "mbit (lmem (bsw_bytes w')) k =
      (mbit (lmem (bsw_bytes w)) k \<noteq> (8 * bsw_fill w \<le> k \<and> k < 8 * bsw_fill w + 8 \<and> bit x (k - 8 * bsw_fill w)))"
    using W by (simp add: w' mbit_store_xor)
  also have "(8 * bsw_fill w \<le> k \<and> k < 8 * bsw_fill w + 8 \<and> bit x (k - 8 * bsw_fill w)) =
      (bsw_pos w \<le> k \<and> k < bsw_pos w + length bs \<and> bs ! (k - bsw_pos w))"
    using n W(1) by (auto simp: x bsw_pos_def)
  finally show "mbit (lmem (bsw_bytes w')) k = (if k < bsw_pos w then mbit (lmem (bsw_bytes w)) k
       else k < bsw_pos w + length bs \<and> bs ! (k - bsw_pos w))"
    using W(5) [of k] by auto
qed (use n bsw_wf_simps [OF w] in \<open>auto simp: w' bsw_pos_def\<close>)

text \<open>A write at a byte boundary stores bytes.\<close>

lemma append_aligned:
  assumes w: "bsw_wf w" and room: "bsw_room w (length bs)" and off: "bsw_off w = 0"
    and same: "length bytes' = length (bsw_bytes w)"
    and bits: "\<And>k. mbit (lmem bytes') k = (if k < 8 * bsw_fill w then mbit (lmem (bsw_bytes w)) k
       else k < 8 * bsw_fill w + length bs \<and> bs ! (k - 8 * bsw_fill w))"
    and w': "w' = w\<lparr>bsw_bytes := bytes', bsw_fill := bsw_fill w + length bs div 8, bsw_off := length bs mod 8,
      bsw_bits := u64 (bsw_bits w + length bs)\<rparr>"
  shows "bsw_appends w bs w'"
  by (rule bsw_appendsI [OF w room]) (use off same bits in \<open>auto simp: w' bsw_pos_def\<close>)

lemma bsw_bit_unsafe_appends:
  assumes "bsw_wf w" and "bsw_room w 1"
  shows "bsw_appends w [bit b 0] (bsw_bit_unsafe w b)"
proof (rule append_in_byte [where x = "push_bit (bsw_off w) (b AND 1)"])
  show "bit (push_bit (bsw_off w) (b AND 1)) r \<longleftrightarrow>
      bsw_off w \<le> r \<and> r < bsw_off w + length [bit b 0] \<and> [bit b 0] ! (r - bsw_off w)" for r
    using bsw_wf_simps(1) [OF assms(1)] by (auto simp: word_bits and_one_bit bit_1_iff le_less_Suc_eq)
qed (use assms bsw_wf_simps(1) [OF assms(1)] in \<open>auto simp: bsw_bit_unsafe_def Let_def\<close>)

lemma bit_pushed_low_bits:
  assumes "len \<le> 8 - off" and "off < 8" and "8 \<le> LENGTH('a)"
  shows "bit (ucast (push_bit off (val AND mask len)) :: byte) r \<longleftrightarrow>
      off \<le> r \<and> r < off + length (low_bits len (val :: 'a::len word)) \<and> low_bits len val ! (r - off)"
  using assms by (auto simp: bit_simps dest: bit_imp_le_length)

lemma bsw8_unsafe_appends:
  assumes w: "bsw_wf w" and room: "bsw_room w len" and len: "len \<le> 8"
  shows "bsw_appends w (low_bits len byt) (bsw8_unsafe w len byt)"
proof -
  note W = bsw_wf_simps [OF w]
  let ?fill = "bsw_fill w" and ?off = "bsw_off w" and ?bytes = "bsw_bytes w"
  show ?thesis
  proof (cases "len < 8 - ?off")
    case True
    show ?thesis
    proof (rule append_in_byte [OF w _ _ bit_pushed_low_bits])
      show "bsw8_unsafe w len byt = w\<lparr>bsw_bytes := ?bytes[?fill := ?bytes ! ?fill XOR ucast (push_bit ?off (byt AND mask len))],
        bsw_fill := (if ?off + length (low_bits len byt) = 8 then ?fill + 1 else ?fill),
        bsw_off := (if ?off + length (low_bits len byt) = 8 then 0 else ?off + length (low_bits len byt)),
        bsw_bits := u64 (bsw_bits w + length (low_bits len byt))\<rparr>"
        using True by (simp add: bsw8_unsafe_def Let_def)
    qed (use room True W(1) in auto)
  next
    case False
    define r where "r = 8 - ?off"
    have r: "r \<le> len" "?off + r = 8" "len - r < 8" "0 < r" "r \<le> 8"
      using False len W(1) by (auto simp: r_def)
    define w1 where "w1 = w\<lparr>bsw_bytes := ?bytes[?fill := ?bytes ! ?fill XOR ucast (push_bit ?off (byt AND mask r))],
      bsw_fill := ?fill + 1, bsw_off := 0, bsw_bits := u64 (bsw_bits w + r)\<rparr>"
    have 1: "bsw_appends w (low_bits r byt) w1"
      by (rule append_in_byte [OF w _ _ bit_pushed_low_bits])
        (use r W(1) bsw_room_mono [OF room] in \<open>auto simp: w1_def\<close>)
    have w1: "bsw_wf w1" "bsw_room w1 (len - r)" "bsw_fill w1 < length (bsw_bytes w1)"
      using bsw_appends_wf [OF 1] bsw_appends_room [OF 1, of "len - r"] room r bsw_wf_simps(2) by auto
    have "bsw_appends w1 (low_bits (len - r) (drop_bit r byt)) (bsw8_unsafe w len byt)"
    proof (rule append_aligned [OF w1(1)])
      show "bsw8_unsafe w len byt = w1\<lparr>bsw_bytes := (bsw_bytes w1)[bsw_fill w1 := drop_bit r byt AND mask (len - r)],
          bsw_fill := bsw_fill w1 + length (low_bits (len - r) (drop_bit r byt)) div 8,
          bsw_off := length (low_bits (len - r) (drop_bit r byt)) mod 8,
          bsw_bits := u64 (bsw_bits w1 + length (low_bits (len - r) (drop_bit r byt)))\<rparr>"
        using r by (simp add: bsw8_unsafe_def Let_def w1_def r_def [symmetric] u64_split)
      show "mbit (lmem ((bsw_bytes w1)[bsw_fill w1 := drop_bit r byt AND mask (len - r)])) k =
        (if k < 8 * bsw_fill w1 then mbit (lmem (bsw_bytes w1)) k
         else k < 8 * bsw_fill w1 + length (low_bits (len - r) (drop_bit r byt)) \<and>
           low_bits (len - r) (drop_bit r byt) ! (k - 8 * bsw_fill w1))" for k
        using w1(3) r bsw_wf_simps(5) [OF w1(1), of k]
        by (auto simp: mbit_store word_bits bsw_pos_def w1_def)
    qed (use w1 in \<open>auto simp: w1_def\<close>)
    from bsw_appends_trans [OF 1 this] show ?thesis
      using r by (simp add: low_bits_split)
  qed
qed

lemma length_put_bytes [simp]: "length (put_bytes bytes fill val n) = length bytes"
  by (induction n) auto

lemma mbit_put_bytes:
  assumes "fill + n \<le> length bytes"
  shows "mbit (lmem (put_bytes bytes fill (val :: 'a::len word) n)) k =
    (if 8 * fill \<le> k \<and> k < 8 * (fill + n) then bit val (k - 8 * fill) else mbit (lmem bytes) k)"
  using assms
proof (induction n)
  case (Suc n)
  have "bit (ucast (drop_bit (8 * n) val) :: byte) (k - 8 * (fill + n)) = bit val (k - 8 * fill)"
    if "8 * (fill + n) \<le> k" "k < 8 * (fill + n) + 8"
  proof -
    have "8 * n + (k - 8 * (fill + n)) = k - 8 * fill"
      using that by simp
    then show ?thesis
      using that by (simp add: bit_simps less_diff_conv2)
  qed
  then show ?case
    using Suc by (auto simp: mbit_store)
qed auto

lemma bsw_switch_appends:
  fixes val :: "'a::len word"
  assumes w: "bsw_wf w" and room: "bsw_room w len" and off: "bsw_off w = 0"
    and full: "len \<le> 8 * full"
  shows "bsw_appends w (low_bits len val) ((bsw_switch full w len val)\<lparr>bsw_bits := u64 (bsw_bits w + len)\<rparr>)"
proof -
  define n r where "n = len div 8" and "r = len mod 8"
  have len: "len = 8 * n + r" "r < 8"
    by (simp_all add: n_def r_def)
  let ?b1 = "put_bytes (bsw_bytes w) (bsw_fill w) val n"
  let ?b2 = "if r \<noteq> 0 then ?b1[bsw_fill w + n := ucast (drop_bit (8 * n) val AND mask r)] else ?b1"
  have fill: "bsw_fill w + n < length (bsw_bytes w)"
    using room off bsw_wf_simps(3) [OF w] len unfolding bsw_room_def bsw_pos_def by linarith
  have "n = full \<Longrightarrow> r = 0"
    using full len by simp
  then have sw: "bsw_switch full w len val = w\<lparr>bsw_bytes := ?b2, bsw_fill := bsw_fill w + n, bsw_off := r\<rparr>"
    by (auto simp: bsw_switch_def Let_def ur_mask_3_def n_def [symmetric] r_def [symmetric])
  show ?thesis
  proof (rule append_aligned [OF w _ off, where bytes' = ?b2])
    fix k
    have "bit (ucast (drop_bit (8 * n) val AND mask r) :: byte) (k - 8 * (bsw_fill w + n)) =
        (k < 8 * bsw_fill w + len \<and> bit val (k - 8 * bsw_fill w))"
      if "8 * (bsw_fill w + n) \<le> k" "k < 8 * (bsw_fill w + n) + 8"
    proof -
      have "8 * n + (k - 8 * (bsw_fill w + n)) = k - 8 * bsw_fill w"
        "k - 8 * (bsw_fill w + n) < r \<longleftrightarrow> k < 8 * bsw_fill w + len"
        using that len by auto
      then show ?thesis
        using that len(2) by (auto simp: bit_simps dest: bit_imp_le_length)
    qed
    then show "mbit (lmem ?b2) k = (if k < 8 * bsw_fill w then mbit (lmem (bsw_bytes w)) k
        else k < 8 * bsw_fill w + length (low_bits len val) \<and> low_bits len val ! (k - 8 * bsw_fill w))"
      using fill bsw_wf_simps(5) [OF w, of k] off len
      by (auto simp: mbit_store mbit_put_bytes bsw_pos_def)
  qed (use room in \<open>auto simp: sw n_def r_def\<close>)
qed

lemma bsw_switch_bits: "bsw_switch full (w\<lparr>bsw_bits := b\<rparr>) len val = (bsw_switch full w len val)\<lparr>bsw_bits := b\<rparr>"
  by (simp add: bsw_switch_def Let_def)

lemma bsw_word_unsafe_appends:
  fixes val :: "'a::len word"
  assumes w: "bsw_wf w" and room: "bsw_room w len" and len: "len \<le> 8 * full" and full: "8 * full = LENGTH('a)" "0 < full"
  shows "bsw_appends w (low_bits len val) (bsw_word_unsafe full w len val)"
proof -
  note W = bsw_wf_simps [OF w]
  let ?fill = "bsw_fill w" and ?off = "bsw_off w" and ?bytes = "bsw_bytes w"
  consider (z) "?off = 0" | (short) "?off \<noteq> 0" "len < 8 - ?off" | (long) "?off \<noteq> 0" "8 - ?off \<le> len"
    by linarith
  then show ?thesis
  proof cases
    case z
    with bsw_switch_appends [OF w room z len, of val] show ?thesis
      by (simp add: bsw_word_unsafe_def Let_def bsw_switch_bits)
  next
    case short
    show ?thesis
    proof (rule append_in_byte [OF w _ _ bit_pushed_low_bits])
      show "bsw_word_unsafe full w len val = w\<lparr>bsw_bytes := ?bytes[?fill := ?bytes ! ?fill XOR ucast (push_bit ?off (val AND mask len))],
        bsw_fill := (if ?off + length (low_bits len val) = 8 then ?fill + 1 else ?fill),
        bsw_off := (if ?off + length (low_bits len val) = 8 then 0 else ?off + length (low_bits len val)),
        bsw_bits := u64 (bsw_bits w + length (low_bits len val))\<rparr>"
        using short by (simp add: bsw_word_unsafe_def Let_def)
    qed (use room short W(1) full in auto)
  next
    case long
    define r where "r = 8 - ?off"
    have r: "r \<le> len" "?off + r = 8" "0 < r" "r \<le> 8"
      using long W(1) by (auto simp: r_def)
    define w1 where "w1 = w\<lparr>bsw_bytes := ?bytes[?fill := ?bytes ! ?fill XOR ucast (push_bit ?off (val AND mask r))],
      bsw_fill := ?fill + 1, bsw_off := 0, bsw_bits := u64 (bsw_bits w + r)\<rparr>"
    have 1: "bsw_appends w (low_bits r val) w1"
      by (rule append_in_byte [OF w _ _ bit_pushed_low_bits])
        (use r W(1) bsw_room_mono [OF room] full in \<open>auto simp: w1_def\<close>)
    have "bsw_appends w1 (low_bits (len - r) (drop_bit r val))
        ((bsw_switch full w1 (len - r) (drop_bit r val))\<lparr>bsw_bits := u64 (bsw_bits w1 + (len - r))\<rparr>)"
      using bsw_appends_wf [OF 1] bsw_appends_room [OF 1, of "len - r"] room r len
      by (intro bsw_switch_appends) (auto simp: w1_def)
    moreover have "w\<lparr>bsw_bits := u64 (bsw_bits w + len),
        bsw_bytes := ?bytes[?fill := ?bytes ! ?fill XOR ucast (push_bit ?off (val AND mask r))],
        bsw_fill := ?fill + 1, bsw_off := 0\<rparr> = w1\<lparr>bsw_bits := u64 (bsw_bits w1 + (len - r))\<rparr>"
      using r by (simp add: w1_def u64_split)
    then have "(bsw_switch full w1 (len - r) (drop_bit r val))\<lparr>bsw_bits := u64 (bsw_bits w1 + (len - r))\<rparr>
        = bsw_word_unsafe full w len val"
      using long r
      by (simp add: bsw_word_unsafe_def Let_def r_def [symmetric] bsw_switch_bits del: push_bit_and)
    ultimately show ?thesis
      using bsw_appends_trans [OF 1, of "low_bits (len - r) (drop_bit r val)"] r low_bits_split [of r val "len - r"]
      by simp
  qed
qed

lemmas bsw32_unsafe_appends = bsw_word_unsafe_appends [where 'a = 32 and full = 4, folded bsw32_unsafe_def, simplified]
lemmas bsw64_unsafe_appends = bsw_word_unsafe_appends [where 'a = 64 and full = 8, folded bsw64_unsafe_def, simplified]

lemma bsw_bex_unsafe_appends:
  assumes w: "bsw_wf w" and room: "bsw_room w (n + 1)"
  shows "bsw_appends w (replicate n False @ [True]) (bsw_bex_unsafe w n)"
proof (rule bsw_appendsI [OF w])
  note W = bsw_wf_simps [OF w]
  define q r where "q = (n + bsw_off w) div 8" and "r = (n + bsw_off w) mod 8"
  have k: "n + bsw_off w = 8 * q + r" "r < 8"
    by (simp_all add: q_def r_def)
  note defs = bsw_bex_unsafe_def Let_def ur_mask_3_def q_def [symmetric] r_def [symmetric]
  have fill: "bsw_fill w + q < length (bsw_bytes w)"
    using room W(3) k unfolding bsw_room_def bsw_pos_def by linarith
  show "mbit (lmem (bsw_bytes (bsw_bex_unsafe w n))) i = (if i < bsw_pos w then mbit (lmem (bsw_bytes w)) i
    else i < bsw_pos w + length (replicate n False @ [True]) \<and> (replicate n False @ [True]) ! (i - bsw_pos w))" for i
  proof -
    have "8 * (bsw_fill w + q) \<le> i \<and> i < 8 * (bsw_fill w + q) + 8 \<and>
        bit (push_bit r 1 :: byte) (i - 8 * (bsw_fill w + q)) \<longleftrightarrow> i = bsw_pos w + n"
      using k by (auto simp: bit_exp_iff bsw_pos_def)
    moreover have "bsw_bytes (bsw_bex_unsafe w n) =
        (bsw_bytes w)[bsw_fill w + q := bsw_bytes w ! (bsw_fill w + q) XOR push_bit r 1]"
      by (simp add: defs)
    ultimately have "mbit (lmem (bsw_bytes (bsw_bex_unsafe w n))) i = (mbit (lmem (bsw_bytes w)) i \<noteq> (i = bsw_pos w + n))"
      by (simp only: mbit_store_xor [OF fill])
    moreover have "(replicate n False @ [True]) ! (i - bsw_pos w) = (i = bsw_pos w + n)"
      if "bsw_pos w \<le> i" "i < Suc (bsw_pos w + n)"
      using that by (auto simp: nth_append)
    ultimately show ?thesis
      using W(5) [of i] by auto
  qed
  show "bsw_pos (bsw_bex_unsafe w n) = bsw_pos w + length (replicate n False @ [True])"
    "bsw_off (bsw_bex_unsafe w n) < 8"
    using k by (auto simp: defs bsw_pos_def)
qed (use room in \<open>auto simp: bsw_bex_unsafe_def Let_def\<close>)

text \<open>Byte arrays.\<close>

lemma length_store_bytes [simp]: "at + length src \<le> length bytes \<Longrightarrow> length (store_bytes bytes at src) = length bytes"
  by (simp add: store_bytes_def)

lemma mbit_store_bytes:
  assumes "at + length src \<le> length bytes"
  shows "mbit (lmem (store_bytes bytes at src)) k =
    (if 8 * at \<le> k \<and> k < 8 * (at + length src) then mbit (lmem src) (k - 8 * at) else mbit (lmem bytes) k)"
proof -
  define q r where "q = k div 8" and "r = k mod 8"
  have k: "k = 8 * q + r" "r < 8"
    by (simp_all add: q_def r_def)
  have "lmem (store_bytes bytes at src) q =
      (if at \<le> q \<and> q < at + length src then lmem src (q - at) else lmem bytes q)"
    using assms by (auto simp: store_bytes_def lmem_def nth_append)
  moreover have "at \<le> q \<and> q < at + length src \<longleftrightarrow> 8 * at \<le> k \<and> k < 8 * (at + length src)"
    using k by auto
  moreover have "at \<le> q \<Longrightarrow> k - 8 * at = 8 * (q - at) + r"
    using k by (simp add: diff_mult_distrib2)
  moreover have "8 * at \<le> k \<Longrightarrow> at \<le> q"
    using k by linarith
  ultimately show ?thesis
    using k by (auto simp: mbit_byte)
qed

lemma mbit_lmem_map: "mbit (lmem (map f [0..<n])) k = (k < 8 * n \<and> mbit f k)"
  by (auto simp: mbit_def lmem_def div8_less_iff)

lemma bsw_bytes_unsafe_aligned:
  assumes w: "bsw_wf w" and room: "bsw_room w len" and off: "bsw_off w = 0"
  shows "bsw_appends w (mbits src 0 len) (bsw_bytes_unsafe w len src)"
proof -
  note W = bsw_wf_simps [OF w]
  define n r where "n = len div 8" and "r = len mod 8"
  have len: "len = 8 * n + r" "r < 8"
    by (simp_all add: n_def r_def)
  let ?b1 = "store_bytes (bsw_bytes w) (bsw_fill w) (map src [0..<n])"
  let ?b2 = "if r \<noteq> 0 then ?b1[bsw_fill w + n := src n AND mask r] else ?b1"
  have fill: "bsw_fill w + n < length (bsw_bytes w)"
    using room off W(3) len unfolding bsw_room_def bsw_pos_def by linarith
  have eq: "bsw_bytes_unsafe w len src = w\<lparr>bsw_bytes := ?b2, bsw_fill := bsw_fill w + n, bsw_off := r,
      bsw_bits := u64 (bsw_bits w + len)\<rparr>"
    using off by (auto simp: bsw_bytes_unsafe_def Let_def ur_mask_3_def n_def [symmetric] r_def [symmetric])
  show ?thesis
  proof (rule append_aligned [OF w _ off, where bytes' = ?b2])
    fix k
    have "bit (src n AND mask r) (k - 8 * (bsw_fill w + n)) = (k < 8 * bsw_fill w + len \<and> mbit src (k - 8 * bsw_fill w))"
      if "8 * (bsw_fill w + n) \<le> k" "k < 8 * (bsw_fill w + n) + 8"
    proof -
      have "k - 8 * bsw_fill w = 8 * n + (k - 8 * (bsw_fill w + n))"
        "k - 8 * (bsw_fill w + n) < r \<longleftrightarrow> k < 8 * bsw_fill w + len" "k - 8 * (bsw_fill w + n) < 8"
        using that len by auto
      then show ?thesis
        by (simp add: bit_word_take_bit mbit_byte)
    qed
    then show "mbit (lmem ?b2) k = (if k < 8 * bsw_fill w then mbit (lmem (bsw_bytes w)) k
        else k < 8 * bsw_fill w + length (mbits src 0 len) \<and> mbits src 0 len ! (k - 8 * bsw_fill w))"
      using fill W(5) [of k] off len
      by (auto simp: mbit_store mbit_store_bytes mbit_lmem_map bsw_pos_def)
  qed (use room fill in \<open>auto simp: eq n_def r_def\<close>)
qed

lemma bsw_bytes_unsafe_short:
  assumes w: "bsw_wf w" and room: "bsw_room w len" and off: "bsw_off w \<noteq> 0" "len \<le> 8 - bsw_off w"
  shows "bsw_appends w (mbits src 0 len) (bsw_bytes_unsafe w len src)"
proof (rule append_in_byte [OF w, where x = "push_bit (bsw_off w) (src 0 AND mask len)"])
  note W = bsw_wf_simps [OF w]
  show "bit (push_bit (bsw_off w) (src 0 AND mask len)) r \<longleftrightarrow>
      bsw_off w \<le> r \<and> r < bsw_off w + length (mbits src 0 len) \<and> mbits src 0 len ! (r - bsw_off w)" for r
    using off W(1) mbit_byte [of "r - bsw_off w" src 0]
    by (auto simp: bit_push_word bit_word_take_bit simp del: push_bit_and)
  have "(bsw_off w + len) div 8 \<noteq> 0 \<longleftrightarrow> bsw_off w + len = 8" "ur_mask_3 (bsw_off w + len) = (if bsw_off w + len = 8 then 0 else bsw_off w + len)"
    using off(2) W(1) by (auto simp: ur_mask_3_def)
  then show "bsw_bytes_unsafe w len src = w\<lparr>bsw_bytes := (bsw_bytes w)[bsw_fill w := bsw_bytes w ! bsw_fill w XOR push_bit (bsw_off w) (src 0 AND mask len)],
      bsw_fill := (if bsw_off w + length (mbits src 0 len) = 8 then bsw_fill w + 1 else bsw_fill w),
      bsw_off := (if bsw_off w + length (mbits src 0 len) = 8 then 0 else bsw_off w + length (mbits src 0 len)),
      bsw_bits := u64 (bsw_bits w + length (mbits src 0 len))\<rparr>"
    using off by (simp add: bsw_bytes_unsafe_def Let_def)
qed (use room off in auto)

lemma bsw_bytes_unsafe_long:
  assumes w: "bsw_wf w" and room: "bsw_room w len" and off: "bsw_off w \<noteq> 0" "8 - bsw_off w < len"
  shows "bsw_appends w (mbits src 0 len) (bsw_bytes_unsafe w len src)"
proof -
  note W = bsw_wf_simps [OF w]
  let ?off = "bsw_off w" and ?fill = "bsw_fill w" and ?bytes = "bsw_bytes w"
  define rest nel n r where "rest = 8 - ?off" and "nel = len - rest" and "n = nel div 8" and "r = nel mod 8"
  have rest: "0 < rest" "rest < 8" "?off + rest = 8" "8 - rest = ?off" "rest < len"
    using off W(1) by (auto simp: rest_def)
  have len: "nel = 8 * n + r" "r < 8" "len = rest + nel"
    using rest by (simp_all add: n_def r_def nel_def)
  define w1 where "w1 = w\<lparr>bsw_bytes := ?bytes[?fill := ?bytes ! ?fill XOR push_bit ?off (src 0)],
    bsw_fill := ?fill + 1, bsw_off := 0, bsw_bits := u64 (bsw_bits w + rest)\<rparr>"
  have x: "bit (push_bit ?off (src 0)) q \<longleftrightarrow> ?off \<le> q \<and> q < ?off + length (mbits src 0 rest) \<and> mbits src 0 rest ! (q - ?off)" for q
    using rest mbit_byte [of "q - ?off" src 0] by (auto simp: bit_push_word)
  have 1: "bsw_appends w (mbits src 0 rest) w1"
    by (rule append_in_byte [OF w _ _ x]) (use rest bsw_room_mono [OF room] in \<open>auto simp: w1_def\<close>)
  have w1: "bsw_wf w1" "bsw_room w1 nel" "bsw_off w1 = 0"
    using bsw_appends_wf [OF 1] bsw_appends_room [OF 1, of nel] room len by (auto simp: w1_def)
  have fill: "bsw_fill w1 + n < length (bsw_bytes w1)"
    using w1 bsw_wf_simps(3) [OF w1(1)] len unfolding bsw_room_def bsw_pos_def by linarith
  let ?sh = "\<lambda>i. drop_bit rest (src i) XOR push_bit ?off (src (i + 1))"
  let ?tal = "drop_bit rest (src n) XOR (if r < ?off then 0 else push_bit ?off (src (n + 1)))"
  let ?b1 = "store_bytes (bsw_bytes w1) (bsw_fill w1) (map ?sh [0..<n])"
  have sh: "bit (?sh i) q = mbit src (8 * i + rest + q)" if "q < 8" for i q
    using bit_shift_byte [OF rest(1,2) that, of src i] rest by simp
  have tal: "bit ?tal q = mbit src (8 * n + rest + q)" if "q < r" for q
    using sh [of q n] that len(2) rest by (auto simp: bit_xor_iff bit_push_word)
  have "bsw_appends w1 (mbits src rest nel) (bsw_bytes_unsafe w len src)"
  proof (rule append_aligned [OF w1(1) _ w1(3), where bytes' = "?b1[bsw_fill w1 + n := ?tal AND mask r]"])
    fix k
    have m: "mbit ?sh j = mbit src (rest + j)" for j
    proof -
      have "mbit ?sh j = mbit src (8 * (j div 8) + rest + j mod 8)"
        unfolding mbit_def [of ?sh] by (rule sh) simp
      also have "8 * (j div 8) + rest + j mod 8 = rest + j"
        by simp
      finally show ?thesis .
    qed
    have "bit (?tal AND mask r) (k - 8 * (bsw_fill w1 + n)) =
        (k < 8 * bsw_fill w1 + nel \<and> mbit src (rest + (k - 8 * bsw_fill w1)))"
      if "8 * (bsw_fill w1 + n) \<le> k"
    proof -
      have "8 * n + rest + (k - 8 * (bsw_fill w1 + n)) = rest + (k - 8 * bsw_fill w1)"
        "k - 8 * (bsw_fill w1 + n) < r \<longleftrightarrow> k < 8 * bsw_fill w1 + nel"
        using that len by auto
      then show ?thesis
        using tal [of "k - 8 * (bsw_fill w1 + n)"] unfolding bit_word_take_bit by metis
    qed
    then show "mbit (lmem (?b1[bsw_fill w1 + n := ?tal AND mask r])) k =
        (if k < 8 * bsw_fill w1 then mbit (lmem (bsw_bytes w1)) k
         else k < 8 * bsw_fill w1 + length (mbits src rest nel) \<and> mbits src rest nel ! (k - 8 * bsw_fill w1))"
      using fill bsw_wf_simps(5) [OF w1(1), of k] w1(3) len
      by (auto simp: mbit_store mbit_store_bytes mbit_lmem_map m [simplified] bsw_pos_def)
  next
    show "bsw_bytes_unsafe w len src = w1\<lparr>bsw_bytes := ?b1[bsw_fill w1 + n := ?tal AND mask r],
        bsw_fill := bsw_fill w1 + length (mbits src rest nel) div 8,
        bsw_off := length (mbits src rest nel) mod 8,
        bsw_bits := u64 (bsw_bits w1 + length (mbits src rest nel))\<rparr>"
      using off rest len(3)
      by (simp add: bsw_bytes_unsafe_def Let_def ur_mask_3_def w1_def rest_def [symmetric] nel_def [symmetric]
          n_def [symmetric] r_def [symmetric] add.assoc)
  qed (use w1 fill in auto)
  from bsw_appends_trans [OF 1 this] show ?thesis
    using mbits_append [of src 0 rest nel] len(3) by simp
qed

lemma bsw_bytes_unsafe_appends:
  assumes "bsw_wf w" and "bsw_room w len"
  shows "bsw_appends w (mbits src 0 len) (bsw_bytes_unsafe w len src)"
  using assms bsw_bytes_unsafe_aligned bsw_bytes_unsafe_short bsw_bytes_unsafe_long
  by (metis not_le)

section \<open>Run-length encoded writes\<close>

text \<open>The encoding \<^verbatim>\<open>+mat\<close> of a number given by its bits.\<close>

definition mat_bits :: "bool list \<Rightarrow> bool list" where
  "mat_bits bs = rub_bits (length bs) @ bs"

lemma length_mat_bits: "length bs < 2 ^ 64 \<Longrightarrow> length (mat_bits bs) = MAT_LEN (length bs)"
  by (simp add: mat_bits_def MAT_LEN_def length_rub_bits ur_met0_simps unat_of_nat)

lemma rub_bits_append:
  assumes w: "bsw_wf w" and room: "bsw_room w (length (rub_bits len))" and len: "0 < len" "len < 2 ^ 64"
  shows "bsw_appends w (rub_bits len)
    (bsw64_unsafe (bsw_bex_unsafe w (ur_met0_64 (of_nat len))) (ur_met0_64 (of_nat len) - 1) (of_nat len))"
proof -
  let ?nel = "met0 len"
  have nel: "ur_met0_64 (of_nat len) = ?nel" "0 < ?nel" "?nel \<le> 64"
    using len by (simp_all add: ur_met0_simps unat_of_nat met0_pos met0_le_iff)
  have l: "length (rub_bits len) = Suc ?nel + (?nel - 1)"
    using len nel by (simp add: length_rub_bits)
  have 1: "bsw_appends w (replicate ?nel False @ [True]) (bsw_bex_unsafe w ?nel)"
    using room l by (intro bsw_bex_unsafe_appends [OF w]) (auto elim: bsw_room_mono)
  have "bsw_room (bsw_bex_unsafe w ?nel) (?nel - 1)"
    using bsw_appends_room [OF 1, of "?nel - 1"] room l by simp
  then have 2: "bsw_appends (bsw_bex_unsafe w ?nel) (low_bits (?nel - 1) (of_nat len :: u64))
      (bsw64_unsafe (bsw_bex_unsafe w ?nel) (?nel - 1) (of_nat len))"
    using nel bsw_appends_wf [OF 1] by (intro bsw64_unsafe_appends) auto
  have "rub_bits len = (replicate ?nel False @ [True]) @ low_bits (?nel - 1) (of_nat len :: u64)"
    using nel by (simp add: rub_bits_def low_bits_of_nat)
  with bsw_appends_trans [OF 1 2] nel(1) show ?thesis
    by simp
qed

lemma rub_bits_0: "rub_bits 0 = [True]"
  by (simp add: rub_bits_def)

lemma bsw_mat64_unsafe_appends:
  assumes w: "bsw_wf w" and room: "bsw_room w (MAT_LEN len)" and len: "len \<le> 64"
  shows "bsw_appends w (mat_bits (low_bits len val)) (bsw_mat64_unsafe w len val)"
proof (cases "len = 0")
  case True
  then show ?thesis
    using bsw_bit_unsafe_appends [OF w, of 1] room by (simp add: bsw_mat64_unsafe_def mat_bits_def rub_bits_0 MAT_LEN_def)
next
  case False
  have l: "MAT_LEN len = length (rub_bits len) + len"
    using length_mat_bits [of "low_bits len val"] len by (simp add: mat_bits_def)
  have 1: "bsw_appends w (rub_bits len)
      (bsw64_unsafe (bsw_bex_unsafe w (ur_met0_64 (of_nat len))) (ur_met0_64 (of_nat len) - 1) (of_nat len))"
    using False len room l by (intro rub_bits_append [OF w]) (auto elim: bsw_room_mono)
  show ?thesis
    using bsw_appends_trans [OF 1 bsw64_unsafe_appends [OF bsw_appends_wf [OF 1] bsw_appends_room [OF 1] len]]
      False room l by (simp add: bsw_mat64_unsafe_def mat_bits_def Let_def)
qed

lemma bsw_mat_bytes_unsafe_appends:
  assumes w: "bsw_wf w" and room: "bsw_room w (MAT_LEN len)" and len: "len < 2 ^ 64"
  shows "bsw_appends w (mat_bits (mbits src 0 len)) (bsw_mat_bytes_unsafe w len src)"
proof (cases "len = 0")
  case True
  then show ?thesis
    using bsw_bit_unsafe_appends [OF w, of 1] room by (simp add: bsw_mat_bytes_unsafe_def mat_bits_def rub_bits_0 MAT_LEN_def)
next
  case False
  have l: "MAT_LEN len = length (rub_bits len) + len"
    using length_mat_bits [of "mbits src 0 len"] len by (simp add: mat_bits_def)
  have 1: "bsw_appends w (rub_bits len)
      (bsw64_unsafe (bsw_bex_unsafe w (ur_met0_64 (of_nat len))) (ur_met0_64 (of_nat len) - 1) (of_nat len))"
    using False len room l by (intro rub_bits_append [OF w]) (auto elim: bsw_room_mono)
  show ?thesis
    using bsw_appends_trans [OF 1 bsw_bytes_unsafe_appends [OF bsw_appends_wf [OF 1] bsw_appends_room [OF 1]]]
      False room l by (simp add: bsw_mat_bytes_unsafe_def mat_bits_def Let_def)
qed

section \<open>The public operations\<close>

text \<open>Growth keeps the stream and makes room.\<close>

definition bsw_extends :: "ur_bsw_t \<Rightarrow> bool list \<Rightarrow> ur_bsw_t \<Rightarrow> bool" where
  "bsw_extends w bs w' \<longleftrightarrow> bsw_wf w' \<and> bsw_stream w' = bsw_stream w @ bs"

lemma ur_bsw_grow_wf:
  assumes w: "bsw_wf w"
  shows "bsw_wf (ur_bsw_grow w step)" "bsw_stream (ur_bsw_grow w step) = bsw_stream w"
    "bsw_pos (ur_bsw_grow w step) = bsw_pos w" "bsw_size (ur_bsw_grow w step) = bsw_size w + step"
proof -
  have "lmem (bsw_bytes w @ replicate step 0) = lmem (bsw_bytes w)"
    by (auto simp: lmem_def nth_append)
  then show "bsw_wf (ur_bsw_grow w step)" "bsw_stream (ur_bsw_grow w step) = bsw_stream w"
    "bsw_pos (ur_bsw_grow w step) = bsw_pos w" "bsw_size (ur_bsw_grow w step) = bsw_size w + step"
    using w by (auto simp: ur_bsw_grow_def Let_def bsw_wf_def bsw_stream_def bsw_pos_def)
qed

lemma bsw_reserve_wf:
  assumes w: "bsw_wf w"
  shows "bsw_wf (bsw_reserve w need)" "bsw_stream (bsw_reserve w need) = bsw_stream w"
    "bsw_pos (bsw_reserve w need) = bsw_pos w"
  using ur_bsw_grow_wf [OF w] w by (auto simp: bsw_reserve_def)

lemma bsw_reserve_room:
  assumes w: "bsw_wf w" and need: "need = ur_bloq_up3 x" "bsw_off w + n \<le> x"
  shows "bsw_room (bsw_reserve w need) n"
proof -
  have "bsw_fill w + need < bsw_size (bsw_reserve w need)"
    using w ur_bsw_grow_wf(4) [OF w] unfolding bsw_reserve_def bsw_wf_def by auto
  moreover have "bsw_off w + n < 8 * need + 8"
    using need unfolding ur_bloq_up3_def by linarith
  ultimately show ?thesis
    using bsw_reserve_wf(3) [OF w, of need] unfolding bsw_room_def by (simp add: bsw_pos_def)
qed

lemma reserve_appends:
  assumes "bsw_wf w" and "need = ur_bloq_up3 x" and "bsw_off w + n \<le> x"
    and "bsw_wf (bsw_reserve w need) \<Longrightarrow> bsw_room (bsw_reserve w need) n \<Longrightarrow> bsw_appends (bsw_reserve w need) bs w'"
  shows "bsw_extends w bs w'"
  using assms bsw_reserve_wf [OF assms(1), of need] bsw_reserve_room [OF assms(1-3)]
  by (simp add: bsw_extends_def bsw_appends_def)

lemma bsw_extends_trans: "bsw_extends w bs w1 \<Longrightarrow> bsw_extends w1 cs w2 \<Longrightarrow> bsw_extends w (bs @ cs) w2"
  by (simp add: bsw_extends_def)

lemma ur_bsw_bit_extends:
  assumes w: "bsw_wf w"
  shows "bsw_extends w [bit b 0] (ur_bsw_bit w b)"
proof -
  define w1 where "w1 = (if bsw_off w = 7 \<and> 1 + bsw_fill w = bsw_size w then ur_bsw_grow w (bsw_prev w) else w)"
  have "bsw_wf w1" "bsw_stream w1 = bsw_stream w" "bsw_room w1 1"
    using w ur_bsw_grow_wf [OF w] bsw_wf_simps [OF w] by (auto simp: w1_def bsw_room_def bsw_pos_def)
  then show ?thesis
    using bsw_bit_unsafe_appends [of w1 b] by (simp add: ur_bsw_bit_def w1_def bsw_extends_def bsw_appends_def)
qed

lemma ur_bsw8_extends:
  assumes w: "bsw_wf w"
  shows "bsw_extends w (low_bits (min 8 len) byt) (ur_bsw8 w len byt)"
proof -
  define n where "n = min 8 len"
  have n: "n \<le> 8"
    by (simp add: n_def)
  define w1 where "w1 = (if bsw_size w \<le> bsw_fill w + of_bool ((bsw_off w + n) div 8 \<noteq> 0) then ur_bsw_grow w (bsw_prev w) else w)"
  have "bsw_off w + n < 16"
    using bsw_wf_simps(1) [OF w] n by simp
  then have "bsw_wf w1" "bsw_stream w1 = bsw_stream w" "bsw_room w1 n"
    using w ur_bsw_grow_wf [OF w] bsw_wf_simps [OF w] by (auto simp: w1_def bsw_room_def bsw_pos_def)
  then show ?thesis
    using bsw8_unsafe_appends [of w1 n byt] n
    unfolding ur_bsw8_def Let_def n_def [symmetric] w1_def [symmetric] bsw_extends_def bsw_appends_def by simp
qed

text \<open>The other public writes reserve the bytes they need.\<close>

lemma ur_bsw32_extends: "bsw_wf w \<Longrightarrow> bsw_extends w (low_bits (min 32 len) val) (ur_bsw32 w len val)"
  unfolding ur_bsw32_def Let_def by (rule reserve_appends [OF _ refl order_refl]) (auto intro: bsw32_unsafe_appends)

lemma ur_bsw64_extends: "bsw_wf w \<Longrightarrow> bsw_extends w (low_bits (min 64 len) val) (ur_bsw64 w len val)"
  unfolding ur_bsw64_def Let_def by (rule reserve_appends [OF _ refl order_refl]) (auto intro: bsw64_unsafe_appends)

lemma ur_bsw_bytes_extends: "bsw_wf w \<Longrightarrow> bsw_extends w (mbits src 0 len) (ur_bsw_bytes w len src)"
  unfolding ur_bsw_bytes_def
  by (rule reserve_appends [OF _ refl, where n = len and x = "len + bsw_off w"]) (auto intro: bsw_bytes_unsafe_appends)

lemma ur_bsw_bex_extends: "bsw_wf w \<Longrightarrow> bsw_extends w (replicate n False @ [True]) (ur_bsw_bex w n)"
  unfolding ur_bsw_bex_def
  by (rule reserve_appends [OF _ refl, where n = "n + 1" and x = "1 + n + bsw_off w"])
    (simp_all add: bsw_bex_unsafe_appends)

lemma ur_bsw_mat64_extends:
  "bsw_wf w \<Longrightarrow> bsw_extends w (mat_bits (low_bits (min 64 len) val)) (ur_bsw_mat64 w len val)"
  unfolding ur_bsw_mat64_def Let_def
  by (rule reserve_appends [OF _ refl order_refl]) (auto intro: bsw_mat64_unsafe_appends)

lemma ur_bsw_mat_bytes_extends:
  "bsw_wf w \<Longrightarrow> len < 2 ^ 64 \<Longrightarrow> bsw_extends w (mat_bits (mbits src 0 len)) (ur_bsw_mat_bytes w len src)"
  unfolding ur_bsw_mat_bytes_def
  by (rule reserve_appends [OF _ refl order_refl]) (auto intro: bsw_mat_bytes_unsafe_appends)

text \<open>A tag and a length-prefixed value.\<close>

lemma tag_appends:
  assumes "bsw_wf w" and "bsw_room w (length tag + n)"
    and 1: "bsw_wf w \<Longrightarrow> bsw_room w (length tag) \<Longrightarrow> bsw_appends w tag w1"
    and 2: "bsw_wf w1 \<Longrightarrow> bsw_room w1 n \<Longrightarrow> bsw_appends w1 bs w2"
  shows "bsw_appends w (tag @ bs) w2"
proof -
  have 3: "bsw_appends w tag w1"
    using 1 assms(1) bsw_room_mono [OF assms(2)] by simp
  with assms show ?thesis
    using bsw_appends_trans [OF 3 2 [OF bsw_appends_wf [OF 3] bsw_appends_room [OF 3]]] by simp
qed

lemma low_bits_tags: "low_bits 2 (3 :: byte) = [True, True]" "low_bits 2 (1 :: byte) = [True, False]"
  by code_simp+

lemma bsw_tag_appends:
  "bsw_wf w \<Longrightarrow> bsw_room w (length [True, True]) \<Longrightarrow> bsw_appends w [True, True] (bsw8_unsafe w 2 3)"
  "bsw_wf w \<Longrightarrow> bsw_room w (length [False]) \<Longrightarrow> bsw_appends w [False] (bsw_bit_unsafe w 0)"
proof -
  show "bsw_wf w \<Longrightarrow> bsw_room w (length [True, True]) \<Longrightarrow> bsw_appends w [True, True] (bsw8_unsafe w 2 3)"
    using bsw8_unsafe_appends [of w 2 3] unfolding low_bits_tags by (simp add: numeral_2_eq_2)
qed (use bsw_bit_unsafe_appends [of w 0] in simp)

lemma ur_bsw_back64_extends:
  assumes "bsw_wf w"
  shows "bsw_extends w ([True, True] @ mat_bits (low_bits (min 64 len) val)) (ur_bsw_back64 w len val)"
  unfolding ur_bsw_back64_def Let_def bsw_back64_def
  by (rule reserve_appends [OF assms refl, where n = "length [True, True] + MAT_LEN (min 64 len)" and
        x = "2 + bsw_off w + MAT_LEN (min 64 len)"],
      simp, rule tag_appends [OF _ _ bsw_tag_appends(1) bsw_mat64_unsafe_appends]) auto

lemma ur_bsw_atom64_extends:
  assumes "bsw_wf w"
  shows "bsw_extends w ([False] @ mat_bits (low_bits (min 64 len) val)) (ur_bsw_atom64 w len val)"
  unfolding ur_bsw_atom64_def Let_def bsw_atom64_def
  by (rule reserve_appends [OF assms refl, where n = "length [False] + MAT_LEN (min 64 len)" and
        x = "1 + bsw_off w + MAT_LEN (min 64 len)"],
      simp, rule tag_appends [OF _ _ bsw_tag_appends(2) bsw_mat64_unsafe_appends]) auto

lemma ur_bsw_atom_bytes_extends:
  assumes "bsw_wf w" and "len < 2 ^ 64"
  shows "bsw_extends w ([False] @ mat_bits (mbits src 0 len)) (ur_bsw_atom_bytes w len src)"
  unfolding ur_bsw_atom_bytes_def Let_def bsw_atom_bytes_unsafe_def
  by (rule reserve_appends [OF assms(1) refl, where n = "length [False] + MAT_LEN len" and
        x = "1 + bsw_off w + MAT_LEN len"],
      simp, rule tag_appends [OF _ _ bsw_tag_appends(2) bsw_mat_bytes_unsafe_appends])
    (use assms(2) in auto)

lemma ur_bsw_cell_extends:
  assumes "bsw_wf w"
  shows "bsw_extends w [True, False] (ur_bsw_cell w)"
  unfolding ur_bsw_cell_def
  by (rule reserve_appends [OF assms refl, where n = 2 and x = "2 + bsw_off w"])
    (use bsw8_unsafe_appends [where len = 2 and byt = 1] in \<open>auto simp: low_bits_tags\<close>)

text \<open>A fresh writer, and the buffer a writer leaves.\<close>

lemma ur_bsw_init_wf: "0 < prev \<Longrightarrow> 0 < sz \<Longrightarrow> bsw_wf (ur_bsw_init bsw_zero prev sz)"
  "bsw_stream (ur_bsw_init bsw_zero prev sz) = []"
  by (auto simp: bsw_wf_def bsw_stream_def ur_bsw_init_def bsw_zero_def bsw_pos_def lmem_def mbit_def u64_def)

lemma ur_bsw_sane_wf: "bsw_wf w \<Longrightarrow> ur_bsw_sane w"
  by (simp add: bsw_wf_def ur_bsw_sane_def bsw_pos_def mult.commute)

lemma ur_bsw_done_eq:
  assumes "bsw_wf w" and "length (bsw_stream w) < 2 ^ 64"
  shows "ur_bsw_done w = ((length (bsw_stream w), (length (bsw_stream w) + 7) div 8, bsw_bytes w), bsw_zero)"
    and "mbits (lmem (bsw_bytes w)) 0 (length (bsw_stream w)) = bsw_stream w"
    and "(length (bsw_stream w) + 7) div 8 \<le> length (bsw_bytes w)"
proof -
  note W = bsw_wf_simps [OF assms(1)]
  have l: "length (bsw_stream w) = bsw_pos w"
    by (simp add: bsw_stream_def)
  have p: "(bsw_pos w + 7) div 8 = bsw_fill w + of_bool (bsw_off w \<noteq> 0)"
    using W(1) by (auto simp: bsw_pos_def)
  then show "ur_bsw_done w = ((length (bsw_stream w), (length (bsw_stream w) + 7) div 8, bsw_bytes w), bsw_zero)"
    using W(4) assms(2) l by (simp add: ur_bsw_done_def u64_def)
  show "mbits (lmem (bsw_bytes w)) 0 (length (bsw_stream w)) = bsw_stream w"
    unfolding l by (simp add: bsw_stream_def)
  show "(length (bsw_stream w) + 7) div 8 \<le> length (bsw_bytes w)"
    using W(2) l p by simp
qed

end
