(* ===== verification/Ur_Jam.thy ===== *)
theory Ur_Jam
  imports Ur_Walk Bitstream_Writer
begin

text \<open>
  Serialization, the first half of \<^verbatim>\<open>pkg/ur/serial.c\<close>: the callbacks of the traversal, the \<^verbatim>\<open>ur_jam\<close>
  interface with its reusable state, and the proof that it writes exactly the bits of the
  recursive definition of \<^verbatim>\<open>+jam\<close> on nouns.
\<close>

section \<open>Definitions\<close>

text \<open>
  The stored bytes of an atom read as null behind their end; \<open>ur_bsw_bytes_extends\<close> shows that
  what lies there does not matter.
\<close>

definition bsw_atom :: "ur_root_t \<Rightarrow> ur_nref \<Rightarrow> ur_bsw_t \<Rightarrow> nat \<Rightarrow> ur_bsw_t option" where
  "bsw_atom r ref bsw len =
     (if ur_nref_tag ref = ur_direct then Some (ur_bsw_atom64 bsw len ref)
      else if ur_nref_tag ref = ur_iatom
      then map_option (\<lambda>byt. ur_bsw_atom_bytes bsw len (lmem byt)) (nth_opt (atoms_bytes (root_atoms r)) (ur_nref_idx ref))
      else None)"

record ur_jam_t =
  jam_walk :: ur_walk_fore_t
  jam_dict :: ur_dict64_t
  jam_bsw :: ur_bsw_t

definition jam_atom :: "murmur \<Rightarrow> ur_root_t \<Rightarrow> ur_nref \<Rightarrow> ur_dict64_t \<times> ur_bsw_t \<Rightarrow> (ur_dict64_t \<times> ur_bsw_t) option" where
  "jam_atom murmur r ref = (\<lambda>(dict, bsw).
     Option.bind (ur_met r 0 ref) (\<lambda>len.
     Option.bind (ur_dict64_get murmur (Some r) dict ref) (\<lambda>got.
       case got of
         None \<Rightarrow>
           Option.bind (ur_dict64_put murmur (Some r) dict ref (of_nat (bsw_bits bsw))) (\<lambda>dict.
             map_option (Pair dict) (bsw_atom r ref bsw len))
       | Some bak \<Rightarrow>
           let len_bak = ur_met0_64 bak
           in if len \<le> len_bak then map_option (Pair dict) (bsw_atom r ref bsw len)
              else Some (dict, ur_bsw_back64 bsw len_bak bak))))"

definition jam_cell :: "murmur \<Rightarrow> ur_root_t \<Rightarrow> ur_nref \<Rightarrow> ur_dict64_t \<times> ur_bsw_t \<Rightarrow> (bool \<times> ur_dict64_t \<times> ur_bsw_t) option" where
  "jam_cell murmur r ref = (\<lambda>(dict, bsw).
     Option.bind (ur_dict64_get murmur (Some r) dict ref) (\<lambda>got.
       case got of
         None \<Rightarrow>
           Option.bind (ur_dict64_put murmur (Some r) dict ref (of_nat (bsw_bits bsw))) (\<lambda>dict.
             Some (True, dict, ur_bsw_cell bsw))
       | Some bak \<Rightarrow> Some (False, dict, ur_bsw_back64 bsw (ur_met0_64 bak) bak)))"

text \<open>The bit length, the byte length and the buffer, with the state left behind.\<close>

definition jam :: "murmur \<Rightarrow> ur_root_t \<Rightarrow> ur_jam_t \<Rightarrow> ur_nref \<Rightarrow> ((nat \<times> nat \<times> byte list) \<times> ur_jam_t) option" where
  "jam murmur r j ref =
     (let bsw = ur_bsw_init (jam_bsw j) ur_fib11 ur_fib12
      in Option.bind (ur_walk_fore_with r (jam_walk j) ref (jam_dict j, bsw) (jam_atom murmur r) (jam_cell murmur r))
           (\<lambda>(w, dict, bsw). let (out, bsw) = ur_bsw_done bsw
              in Some (out, \<lparr>jam_walk = w, jam_dict = dict, jam_bsw = bsw\<rparr>)))"

definition ur_jam_init_with :: "murmur \<Rightarrow> ur_root_t \<Rightarrow> nat \<Rightarrow> nat \<Rightarrow> nat \<Rightarrow> nat \<Rightarrow> ur_jam_t option" where
  "ur_jam_init_with murmur r d_prev d_size s_prev s_size =
     map_option (\<lambda>dict. \<lparr>jam_walk = ur_walk_fore_init_with s_prev s_size, jam_dict = dict, jam_bsw = bsw_zero\<rparr>)
       (ur_dict64_grow murmur (Some r) dict_zero d_prev d_size)"

definition ur_jam_init :: "murmur \<Rightarrow> ur_root_t \<Rightarrow> ur_jam_t option" where
  "ur_jam_init murmur r = ur_jam_init_with murmur r ur_fib11 ur_fib12 ur_fib10 ur_fib11"

definition ur_jam_with :: "murmur \<Rightarrow> ur_root_t \<Rightarrow> ur_jam_t \<Rightarrow> ur_nref \<Rightarrow> ((nat \<times> nat \<times> byte list) \<times> ur_jam_t) option" where
  "ur_jam_with murmur r j ref =
     map_option (\<lambda>(out, j). (out, j\<lparr>jam_dict := ur_dict64_wipe (jam_dict j)\<rparr>)) (jam murmur r j ref)"

definition ur_jam :: "murmur \<Rightarrow> ur_root_t \<Rightarrow> ur_nref \<Rightarrow> (nat \<times> nat \<times> byte list) option" where
  "ur_jam murmur r ref = Option.bind (ur_jam_init murmur r) (\<lambda>j. map_option fst (jam murmur r j ref))"

section \<open>The reference definition\<close>

definition atom_bits :: "nat \<Rightarrow> bool list" where
  "atom_bits a = [False] @ mat_bits (low_bits (met0 a) a)"

definition back_bits :: "nat \<Rightarrow> bool list" where
  "back_bits b = [True, True] @ mat_bits (low_bits (met0 b) b)"

text \<open>
  The positions at which nouns were written so far, and the bits. An atom that was written before
  is written again unless a backreference is shorter.
\<close>

fun jam_noun :: "noun \<Rightarrow> (noun \<rightharpoonup> nat) \<times> bool list \<Rightarrow> (noun \<rightharpoonup> nat) \<times> bool list" where
  "jam_noun (Atom a) (m, bs) =
     (case m (Atom a) of
        None \<Rightarrow> (m(Atom a \<mapsto> length bs), bs @ atom_bits a)
      | Some bak \<Rightarrow> (m, bs @ (if met0 a \<le> met0 bak then atom_bits a else back_bits bak)))"
| "jam_noun (Cell h t) (m, bs) =
     (case m (Cell h t) of
        None \<Rightarrow> jam_noun t (jam_noun h (m(Cell h t \<mapsto> length bs), bs @ [True, False]))
      | Some bak \<Rightarrow> (m, bs @ back_bits bak))"

definition jam_bits :: "noun \<Rightarrow> bool list" where
  "jam_bits n = snd (jam_noun n (Map.empty, []))"

lemma jam_noun_length: "length bs \<le> length (snd (jam_noun n (m, bs)))"
proof (induction n arbitrary: m bs)
  case (Cell h t)
  show ?case
  proof (cases "m (Cell h t)")
    case None
    obtain m1 bs1 where 1: "jam_noun h (m(Cell h t \<mapsto> length bs), bs @ [True, False]) = (m1, bs1)"
      by fastforce
    then have "length bs \<le> length bs1"
      using Cell(1) [of "bs @ [True, False]" "m(Cell h t \<mapsto> length bs)"] unfolding 1 by simp
    then show ?thesis
      using Cell(2) [of bs1 m1] None 1 by simp
  qed auto
qed (auto split: option.splits)

section \<open>Refinement\<close>

lemma low_bits_unat: "low_bits len (unat (w :: 'a::len word)) = low_bits len w"
  by (rule nth_equalityI) (auto simp: bit_unsigned_iff dest: bit_imp_le_length)

lemma bsw_atom_extends:
  assumes "root_inv murmur r" and "den r ref (Atom a)" and "bsw_wf bsw" and "met0 a < 2 ^ 64"
  shows "\<exists>bsw'. bsw_atom r ref bsw (met0 a) = Some bsw' \<and> bsw_extends bsw (atom_bits a) bsw'"
proof -
  have inv: "atoms_inv murmur r"
    using assms(1) by (simp add: root_inv_def)
  from assms(2) consider "ur_nref_tag ref = ur_direct" "a = unat ref" |
    "ur_nref_tag ref = ur_iatom" "ur_nref_idx ref < atoms_fill (root_atoms r)"
    "a = bytes_val (atoms_lens (root_atoms r) ! ur_nref_idx ref) (atoms_bytes (root_atoms r) ! ur_nref_idx ref)"
    unfolding den_Atom_iff by blast
  then show ?thesis
  proof cases
    case 1
    then have "met0 a \<le> 64"
      using met0_unat_le [of ref] by simp
    then show ?thesis
      using 1 ur_bsw_atom64_extends [OF assms(3), of "met0 a" ref]
      by (simp add: bsw_atom_def atom_bits_def low_bits_unat min_def)
  next
    case 2
    let ?byt = "atoms_bytes (root_atoms r) ! ur_nref_idx ref" and ?len = "atoms_lens (root_atoms r) ! ur_nref_idx ref"
    have "met0 a \<le> 8 * ?len"
      using bytes_val_less [of ?len ?byt] 2(3) by (simp add: met0_le_iff)
    then have "mbits (lmem ?byt) 0 (met0 a) = low_bits (met0 a) a"
      by (intro nth_equalityI) (auto simp: 2(3) bit_bytes_val)
    then show ?thesis
      using 2 ur_bsw_atom_bytes_extends [OF assms(3,4), of "lmem ?byt"] atoms_inv_simps(1) [OF inv]
      by (simp add: bsw_atom_def atom_bits_def)
  qed
qed

lemma back64_extends:
  assumes "bsw_wf bsw" and "bak < 2 ^ 64"
  shows "bsw_extends bsw (back_bits bak) (ur_bsw_back64 bsw (ur_met0_64 (of_nat bak)) (of_nat bak))"
proof -
  have "ur_met0_64 (of_nat bak) = met0 bak" "met0 bak \<le> 64"
    using assms(2) by (simp_all add: ur_met0_simps unat_of_nat met0_le_iff)
  then show ?thesis
    using ur_bsw_back64_extends [OF assms(1), of "met0 bak" "of_nat bak"]
    by (simp add: back_bits_def low_bits_of_nat min_def)
qed

text \<open>The state of the callbacks against the state of the reference definition.\<close>

definition jam_rel :: "murmur \<Rightarrow> ur_root_t \<Rightarrow> noun set \<Rightarrow> ur_dict64_t \<times> ur_bsw_t \<Rightarrow> (noun \<rightharpoonup> nat) \<times> bool list \<Rightarrow> bool" where
  "jam_rel murmur r S st mb \<longleftrightarrow> (case (st, mb) of ((dict, bsw), (m, bs)) \<Rightarrow>
     dict_ok (ur_nref_mug murmur (Some r)) dict \<and> bsw_wf bsw \<and> bsw_stream bsw = bs \<and>
     (\<forall>ref n. den r ref n \<longrightarrow> dict_map dict ref = map_option of_nat (m n)) \<and>
     dom (dict_map dict) \<subseteq> {ref. \<exists>n \<in> S. den r ref n} \<and>
     (\<forall>n p. m n = Some p \<longrightarrow> p \<le> length bs))"

lemma jam_relD:
  assumes "jam_rel murmur r S (dict, bsw) (m, bs)"
  shows "dict_ok (ur_nref_mug murmur (Some r)) dict" "bsw_wf bsw" "bsw_stream bsw = bs"
    "dom (dict_map dict) \<subseteq> {ref. \<exists>n \<in> S. den r ref n}" "m n = Some p \<Longrightarrow> p \<le> length bs"
    "den r ref n \<Longrightarrow> dict_map dict ref = map_option of_nat (m n)"
  using assms unfolding jam_rel_def prod.case by blast+

lemma jam_rel_get:
  assumes "root_inv murmur r" and "jam_rel murmur r S (dict, bsw) (m, bs)" and "den r ref n"
  shows "ur_dict64_get murmur (Some r) dict ref = Some (map_option of_nat (m n))"
  using jam_relD(1,6) [OF assms(2)] assms(3) dict.get [of "ur_nref_mug murmur (Some r)" dict ref] den_mug [OF assms(1,3)]
  by (simp add: ur_dict64_get_def)

lemma jam_rel_append:
  assumes "jam_rel murmur r S (dict, bsw) (m, bs)" and "bsw_extends bsw cs bsw'"
  shows "jam_rel murmur r S (dict, bsw') (m, bs @ cs)"
proof -
  have "p \<le> length (bs @ cs)" if "m n = Some p" for n p
    using assms(1) that unfolding jam_rel_def prod.case length_append by (blast intro: trans_le_add1)
  then show ?thesis
    using assms unfolding jam_rel_def bsw_extends_def prod.case by blast
qed

lemma jam_rel_put:
  assumes r: "root_inv murmur r" and S: "mug_spread murmur S" and rel: "jam_rel murmur r S (dict, bsw) (m, bs)"
    and n: "den r ref n" "n \<in> S" and len: "length bs < 2 ^ 64"
  shows "\<exists>dict'. ur_dict64_put murmur (Some r) dict ref (of_nat (bsw_bits bsw)) = Some dict' \<and>
    jam_rel murmur r S (dict', bsw) (m(n \<mapsto> length bs), bs)"
proof -
  let ?mug = "ur_nref_mug murmur (Some r)" and ?K = "{ref. \<exists>n \<in> S. den r ref n}"
  have K: "finite ?K" "spread ?mug ?K"
    using spread_refs [OF r _ S, of ?K] by blast+
  have bits: "of_nat (bsw_bits bsw) = (of_nat (length bs) :: u64)"
    using jam_relD(2,3) [OF rel] bsw_wf_simps(4) [of bsw] len by (auto simp: u64_def)
  have ref: "?mug ref \<noteq> None" "ref \<in> ?K"
    using n den_mug [OF r n(1)] by (simp, blast)
  obtain dict' where d: "dict_put ?mug dict ref (of_nat (bsw_bits bsw)) = Some dict'" "dict_ok ?mug dict'"
      "dict_map dict' = (dict_map dict)(ref \<mapsto> of_nat (bsw_bits bsw))" "dom (dict_map dict') \<subseteq> ?K"
    using dict.put_within [OF jam_relD(1) [OF rel] ref(1) _ jam_relD(4) [OF rel] ref(2)] K by blast
  have "dict_map dict' ref' = map_option of_nat ((m(n \<mapsto> length bs)) n')" if "den r ref' n'" for ref' n'
  proof -
    have "ref' = ref \<longleftrightarrow> n' = n"
      using that n(1) den_fun den_inj [OF r] by blast
    then show ?thesis
      unfolding d(3) fun_upd_apply using jam_relD(6) [OF rel that] bits by simp
  qed
  moreover have "p \<le> length bs" if "(m(n \<mapsto> length bs)) n' = Some p" for n' p
    using that jam_relD(5) [OF rel] by (auto split: if_splits)
  ultimately have "jam_rel murmur r S (dict', bsw) (m(n \<mapsto> length bs), bs)"
    unfolding jam_rel_def prod.case using jam_relD(2,3) [OF rel] d(2,4) by blast
  with d(1) show ?thesis
    by (simp add: ur_dict64_put_def)
qed

lemma jam_noun_append: "\<exists>cs. snd (jam_noun n (m, bs)) = bs @ cs"
proof (induction n arbitrary: m bs)
  case (Cell h t)
  show ?case
  proof (cases "m (Cell h t)")
    case None
    obtain m1 bs1 where 1: "jam_noun h (m(Cell h t \<mapsto> length bs), bs @ [True, False]) = (m1, bs1)"
      by fastforce
    then obtain cs where "bs1 = bs @ cs"
      using Cell(1) [of "m(Cell h t \<mapsto> length bs)" "bs @ [True, False]"] unfolding 1 by auto
    then show ?thesis
      using Cell(2) [of m1 bs1] None 1 by auto
  qed auto
qed (auto split: option.splits)

lemma jam_atom_refines:
  assumes r: "root_inv murmur r" and S: "mug_spread murmur S" "Atom a \<in> S"
    and rel: "jam_rel murmur r S st (m, bs)" and den: "den r ref (Atom a)"
    and len: "length (snd (jam_noun (Atom a) (m, bs))) < 2 ^ 64"
  shows "\<exists>st'. jam_atom murmur r ref st = Some st' \<and> jam_rel murmur r S st' (jam_noun (Atom a) (m, bs))"
proof -
  obtain dict bsw where st: "st = (dict, bsw)"
    by (cases st)
  note rel = rel [unfolded st]
  have wf: "bsw_wf bsw" and bs: "length bs < 2 ^ 64"
    using jam_relD(2) [OF rel] len jam_noun_length [of bs "Atom a" m] by auto
  note step = jam_atom_def ur_met0_den [OF r den] jam_rel_get [OF r rel den]
  show ?thesis
  proof (cases "m (Atom a)")
    case None
    then have "met0 a < 2 ^ 64"
      using len by (simp add: atom_bits_def mat_bits_def)
    then obtain bsw' where w: "bsw_atom r ref bsw (met0 a) = Some bsw'" "bsw_extends bsw (atom_bits a) bsw'"
      using bsw_atom_extends [OF r den wf] by blast
    obtain dict' where "ur_dict64_put murmur (Some r) dict ref (of_nat (bsw_bits bsw)) = Some dict'"
        "jam_rel murmur r S (dict', bsw) (m(Atom a \<mapsto> length bs), bs)"
      using jam_rel_put [OF r S(1) rel den S(2) bs] by blast
    then show ?thesis
      using None w jam_rel_append by (fastforce simp: st step)
  next
    case (Some bak)
    then have "bak \<le> length bs"
      by (rule jam_relD(5) [OF rel])
    then have bak: "bak < 2 ^ 64"
      using bs by simp
    then have met: "ur_met0_64 (of_nat bak) = met0 bak"
      by (simp add: ur_met0_simps unat_of_nat)
    show ?thesis
    proof (cases "met0 a \<le> met0 bak")
      case True
      then have "met0 a < 2 ^ 64"
        using len Some by (simp add: atom_bits_def mat_bits_def)
      then obtain bsw' where w: "bsw_atom r ref bsw (met0 a) = Some bsw'" "bsw_extends bsw (atom_bits a) bsw'"
        using bsw_atom_extends [OF r den wf] by blast
      then show ?thesis
        using Some True met jam_rel_append [OF rel w(2)] by (simp add: st step)
    next
      case False
      then show ?thesis
        using Some met jam_rel_append [OF rel back64_extends [OF wf bak]] by (simp add: st step)
    qed
  qed
qed

lemma jam_walks:
  assumes r: "root_inv murmur r" and S: "mug_spread murmur S"
  shows "den r ref n \<Longrightarrow> subnouns n \<subseteq> S \<Longrightarrow> jam_rel murmur r S st (m, bs) \<Longrightarrow> length (snd (jam_noun n (m, bs))) < 2 ^ 64 \<Longrightarrow>
    \<exists>st'. walks r (jam_atom murmur r) (jam_cell murmur r) ref st st' \<and> jam_rel murmur r S st' (jam_noun n (m, bs))"
proof (induction n arbitrary: ref st m bs)
  case (Atom a)
  have "\<not> ur_deep ref"
    using Atom(1) by (auto simp: den_Atom_iff ur_deep_def)
  then show ?case
    using jam_atom_refines [OF r S _ Atom(3,1,4)] Atom(2) walks.atom by (metis insert_subset subnouns.simps(1))
next
  case (Cell h t)
  obtain dict bsw where st: "st = (dict, bsw)"
    by (cases st)
  note rel = Cell.prems(3) [unfolded st]
  obtain hr tr where ht: "ur_head r ref = Some hr" "ur_tail r ref = Some tr" "den r hr h" "den r tr t"
    using Cell.prems(1) by (auto simp: den_Cell_iff)
  then have deep: "ur_deep ref"
    by (auto simp: ur_head_Some ur_deep_def)
  have wf: "bsw_wf bsw" and bs: "length bs < 2 ^ 64"
    using jam_relD(2) [OF rel] Cell.prems(4) jam_noun_length [of bs "Cell h t" m] by auto
  have sub: "subnouns h \<subseteq> S" "subnouns t \<subseteq> S"
    using Cell.prems(2) by auto
  note step = jam_cell_def jam_rel_get [OF r rel Cell.prems(1)]
  show ?case
  proof (cases "m (Cell h t)")
    case None
    define m0 bs0 where "m0 = m(Cell h t \<mapsto> length bs)" and "bs0 = bs @ [True, False]"
    obtain m1 bs1 where 1: "jam_noun h (m0, bs0) = (m1, bs1)"
      by fastforce
    have eq: "jam_noun (Cell h t) (m, bs) = jam_noun t (m1, bs1)"
      using None 1 by (simp add: m0_def bs0_def)
    have len: "length (snd (jam_noun t (m1, bs1))) < 2 ^ 64" "length (snd (jam_noun h (m0, bs0))) < 2 ^ 64"
      using Cell.prems(4) jam_noun_length [of bs1 t m1] unfolding eq 1 by auto
    obtain dict' where d: "ur_dict64_put murmur (Some r) dict ref (of_nat (bsw_bits bsw)) = Some dict'"
        "jam_rel murmur r S (dict', bsw) (m0, bs)"
      using jam_rel_put [OF r S rel Cell.prems(1) _ bs] Cell.prems(2) unfolding m0_def by auto
    have v1: "jam_cell murmur r ref st = Some (True, dict', ur_bsw_cell bsw)"
      using None d(1) by (simp add: st step)
    have "jam_rel murmur r S (dict', ur_bsw_cell bsw) (m0, bs0)"
      unfolding bs0_def by (rule jam_rel_append [OF d(2) ur_bsw_cell_extends [OF wf]])
    then obtain v2 where v2: "walks r (jam_atom murmur r) (jam_cell murmur r) hr (dict', ur_bsw_cell bsw) v2"
        "jam_rel murmur r S v2 (m1, bs1)"
      using Cell.IH(1) [OF ht(3) sub(1) _ len(2)] unfolding 1 by blast
    then obtain v3 where v3: "walks r (jam_atom murmur r) (jam_cell murmur r) tr v2 v3"
        "jam_rel murmur r S v3 (jam_noun t (m1, bs1))"
      using Cell.IH(2) [OF ht(4) sub(2) _ len(1)] by blast
    show ?thesis
      unfolding eq using walks.cell [OF deep v1 ht(1,2) v2(1) v3(1)] v3(2) by blast
  next
    case (Some bak)
    then have "bak \<le> length bs"
      by (rule jam_relD(5) [OF rel])
    then have bak: "bak < 2 ^ 64"
      using bs by simp
    have "jam_cell murmur r ref st = Some (False, dict, ur_bsw_back64 bsw (ur_met0_64 (of_nat bak)) (of_nat bak))"
      using Some by (simp add: st step)
    from walks.cut [where cell = "jam_cell murmur r", OF deep this] show ?thesis
      using jam_rel_append [OF rel back64_extends [OF wf bak]] Some by auto
  qed
qed

section \<open>The interface\<close>

text \<open>A jam state that is ready for a noun.\<close>

definition jam_ready :: "murmur \<Rightarrow> ur_root_t \<Rightarrow> ur_jam_t \<Rightarrow> bool" where
  "jam_ready murmur r j \<longleftrightarrow> walk_ok (jam_walk j) 1 \<and> dict_ok (ur_nref_mug murmur (Some r)) (jam_dict j) \<and>
     dict_map (jam_dict j) = Map.empty \<and> jam_bsw j = bsw_zero"

text \<open>The three results of a serialization describe these bits.\<close>

definition jam_out :: "bool list \<Rightarrow> nat \<times> nat \<times> byte list \<Rightarrow> bool" where
  "jam_out bs out \<longleftrightarrow> (case out of (bits, len, byt) \<Rightarrow>
     bits = length bs \<and> len = (length bs + 7) div 8 \<and> len \<le> length byt \<and> mbits (lmem byt) 0 bits = bs)"

lemma jam_ok:
  assumes r: "root_inv murmur r" and j: "jam_ready murmur r j" and den: "den r ref n"
    and S: "mug_spread murmur (subnouns n)" and len: "length (jam_bits n) < 2 ^ 64"
  shows "\<exists>out j'. jam murmur r j ref = Some (out, j') \<and> jam_out (jam_bits n) out \<and>
    walk_ok (jam_walk j') 1 \<and> dict_ok (ur_nref_mug murmur (Some r)) (jam_dict j') \<and> jam_bsw j' = bsw_zero"
proof -
  let ?bsw = "ur_bsw_init bsw_zero ur_fib11 ur_fib12"
  have "jam_rel murmur r (subnouns n) (jam_dict j, ?bsw) (Map.empty, [])"
    using j ur_bsw_init_wf [of ur_fib11 ur_fib12] by (simp add: jam_rel_def jam_ready_def ur_fib11_def ur_fib12_def)
  then obtain dict bsw where w: "walks r (jam_atom murmur r) (jam_cell murmur r) ref (jam_dict j, ?bsw) (dict, bsw)"
      "jam_rel murmur r (subnouns n) (dict, bsw) (jam_noun n (Map.empty, []))"
    using jam_walks [OF r S den order_refl, of "(jam_dict j, ?bsw)" Map.empty "[]"] len by (auto simp: jam_bits_def)
  obtain w' where w': "ur_walk_fore_with r (jam_walk j) ref (jam_dict j, ?bsw) (jam_atom murmur r) (jam_cell murmur r) = Some (w', dict, bsw)"
      "walk_ok w' 1"
    using ur_walk_fore_walks [OF w(1)] j by (auto simp: jam_ready_def)
  have bsw: "bsw_wf bsw" "bsw_stream bsw = jam_bits n" "dict_ok (ur_nref_mug murmur (Some r)) dict"
    using w(2) by (auto simp: jam_rel_def jam_bits_def split: prod.splits)
  note D = ur_bsw_done_eq [OF bsw(1), unfolded bsw(2), OF len]
  show ?thesis
    using j w' bsw(3) D by (simp add: jam_def jam_ready_def jam_out_def Let_def)
qed

lemma ur_jam_init_ready:
  assumes "root_inv murmur r"
  shows "\<exists>j. ur_jam_init murmur r = Some j \<and> jam_ready murmur r j"
proof -
  have "0 < ur_fib11" "0 < ur_fib12"
    by (simp_all add: ur_fib11_def ur_fib12_def)
  from dict_grow_zero [OF this root_mugs_31 [OF assms]] obtain d :: ur_dict64_t where
    "dict_grow (ur_nref_mug murmur (Some r)) dict_zero ur_fib11 ur_fib12 = Some d"
    "dict_inv (ur_nref_mug murmur (Some r)) d" "dict_map d = Map.empty"
    by blast
  then show ?thesis
    using root_mugs_31 [OF assms] ur_walk_fore_init_ok
    by (simp add: ur_jam_init_def ur_jam_init_with_def ur_dict64_grow_def jam_ready_def dict_ok_def ur_walk_fore_init_def)
qed

lemma ur_jam_ok:
  assumes "root_inv murmur r" and "den r ref n" and "mug_spread murmur (subnouns n)" and "length (jam_bits n) < 2 ^ 64"
  shows "\<exists>out. ur_jam murmur r ref = Some out \<and> jam_out (jam_bits n) out"
  using ur_jam_init_ready [OF assms(1)] jam_ok [OF assms(1) _ assms(2-4)] by (fastforce simp: ur_jam_def)

text \<open>The reusable state is ready again after every noun.\<close>

lemma ur_jam_with_ok:
  assumes r: "root_inv murmur r" and j: "jam_ready murmur r j" and den: "den r ref n"
    and S: "mug_spread murmur (subnouns n)" and len: "length (jam_bits n) < 2 ^ 64"
  shows "\<exists>out j'. ur_jam_with murmur r j ref = Some (out, j') \<and> jam_out (jam_bits n) out \<and> jam_ready murmur r j'"
  using jam_ok [OF assms] dict.wipe [of "ur_nref_mug murmur (Some r)"]
  by (fastforce simp: ur_jam_with_def jam_ready_def ur_dict64_wipe_def)

end
