(* ===== verification/Ur_Cue.thy ===== *)
theory Ur_Cue
  imports Ur_Arena Bitstream_Reader
begin

text \<open>
  Deserialization, the second half of \<^verbatim>\<open>pkg/ur/serial.c\<close>: the stack machine of \<^verbatim>\<open>ur_cue\<close>, that of
  \<^verbatim>\<open>ur_cue_test\<close>, which parses without building nouns, and what they do on the streams of a grammar of
  jammed nouns.

  A machine state is the arena, the stack, the bitstream reader and the dictionary from bit cursors
  to references. \<open>None\<close> is a failed assertion, an access outside of an array, or no return. The buffer
  starts at address 0 of the memory. The stack counters are exact numbers.
\<close>

section \<open>The stack\<close>

record cue_frame =
  frame_ref :: u64
  frame_bits :: nat

text \<open>The frames from the bottom of the stack; \<^verbatim>\<open>fill\<close> is their number.\<close>

record 'f cue_stack =
  stack_prev :: nat
  stack_size :: nat
  stack_f :: "'f list"

definition CUE_HEAD :: u64 where
  "CUE_HEAD = 0xffffffffffffffff"

definition cue_push :: "'f cue_stack \<Rightarrow> 'f \<Rightarrow> 'f cue_stack option" where
  "cue_push s f =
     (let s = (if length (stack_f s) = stack_size s
               then s\<lparr>stack_size := stack_prev s + stack_size s, stack_prev := stack_size s\<rparr> else s)
      in if length (stack_f s) < stack_size s then Some (s\<lparr>stack_f := stack_f s @ [f]\<rparr>) else None)"

section \<open>ur_cue\<close>

type_synonym cue_state = "ur_root_t \<times> cue_frame cue_stack \<times> ur_bsr_t \<times> ur_dict64_t"

text \<open>The branches of \<^verbatim>\<open>_cue_next\<close> that end the loop.\<close>

definition cue_back :: "murmur \<Rightarrow> memory \<Rightarrow> cue_state \<Rightarrow> ((ur_cue_res_e + ur_nref) \<times> cue_state) option" where
  "cue_back murmur mem = (\<lambda>(r, s, bsr, dict).
     case ur_bsr_rub_len mem bsr of
       (Inl res, bsr) \<Rightarrow> Some (Inl res, r, s, bsr, dict)
     | (Inr len, bsr) \<Rightarrow>
         if 62 < unat len then Some (Inl ur_cue_meme, r, s, bsr, dict)
         else let (bak, bsr) = ur_bsr64_any mem bsr (unat len)
              in map_option (\<lambda>val. case val of
                     None \<Rightarrow> (Inl ur_cue_back, r, s, bsr, dict)
                   | Some val \<Rightarrow> (Inr val, r, s, bsr, dict))
                   (ur_dict64_get murmur (Some r) dict bak))"

definition cue_value :: "murmur \<Rightarrow> memory \<Rightarrow> ur_root_t \<Rightarrow> ur_bsr_t \<Rightarrow> nat \<Rightarrow> (ur_nref \<times> ur_root_t \<times> ur_bsr_t) option" where
  "cue_value murmur mem r bsr len =
     (if len \<le> 62 then (let (out, bsr) = ur_bsr64_any mem bsr len in Some (out, r, bsr))
      else let len_byt = len div 8 + of_bool (ur_mask_3 len \<noteq> 0);
               (byt, bsr) = ur_bsr_bytes_any mem bsr len (replicate len_byt 0);
               len_byt = strip_zeros len_byt byt
           in map_option (\<lambda>(out, r). (out, r, bsr)) (ur_coin_bytes_unsafe murmur r len_byt byt))"

definition cue_atom :: "murmur \<Rightarrow> memory \<Rightarrow> nat \<Rightarrow> cue_state \<Rightarrow> ((ur_cue_res_e + ur_nref) \<times> cue_state) option" where
  "cue_atom murmur mem bits = (\<lambda>(r, s, bsr, dict).
     case ur_bsr_rub_len mem bsr of
       (Inl res, bsr) \<Rightarrow> Some (Inl res, r, s, bsr, dict)
     | (Inr len, bsr) \<Rightarrow>
         Option.bind (cue_value murmur mem r bsr (unat len))
           (\<lambda>(out, r, bsr).
              map_option (\<lambda>dict. (Inr out, r, s, bsr, dict)) (ur_dict64_put murmur (Some r) dict (of_nat bits) out)))"

partial_function (option) cue_next :: "murmur \<Rightarrow> memory \<Rightarrow> cue_state \<Rightarrow> ((ur_cue_res_e + ur_nref) \<times> cue_state) option" where
  "cue_next murmur mem st =
     (case st of (r, s, bsr, dict) \<Rightarrow>
        let bits = bsr_bits bsr
        in case ur_bsr_tag mem bsr of
             (Inl res, bsr) \<Rightarrow> Some (Inl res, r, s, bsr, dict)
           | (Inr tag, bsr) \<Rightarrow>
               if tag = ur_jam_cell
               then Option.bind (cue_push s \<lparr>frame_ref = CUE_HEAD, frame_bits = bits\<rparr>)
                      (\<lambda>s. cue_next murmur mem (r, s, bsr, dict))
               else if tag = ur_jam_back then cue_back murmur mem (r, s, bsr, dict)
               else cue_atom murmur mem bits (r, s, bsr, dict))"

text \<open>The loop of \<^verbatim>\<open>_cue\<close> over results and frames.\<close>

partial_function (option) cue_loop ::
  "murmur \<Rightarrow> memory \<Rightarrow> (ur_cue_res_e + ur_nref) \<times> cue_state \<Rightarrow> ((ur_cue_res_e + ur_nref) \<times> cue_state) option" where
  "cue_loop murmur mem x =
     (case x of (res, r, s, bsr, dict) \<Rightarrow>
        case res of
          Inl e \<Rightarrow> Some x
        | Inr ref \<Rightarrow>
            if stack_f s = [] then Some x
            else let f = last (stack_f s); below = butlast (stack_f s)
                 in if frame_ref f = CUE_HEAD
                    then Option.bind (cue_next murmur mem (r, s\<lparr>stack_f := below @ [f\<lparr>frame_ref := ref\<rparr>]\<rparr>, bsr, dict))
                           (\<lambda>x. cue_loop murmur mem x)
                    else Option.bind (ur_cons murmur r (frame_ref f) ref) (\<lambda>(ref, r).
                         Option.bind (ur_dict64_put murmur (Some r) dict (of_nat (frame_bits f)) ref) (\<lambda>dict.
                           cue_loop murmur mem (Inr ref, r, s\<lparr>stack_f := below\<rparr>, bsr, dict))))"

record ur_cue_t =
  cue_s :: "cue_frame cue_stack"
  cue_dict :: ur_dict64_t

definition cue :: "murmur \<Rightarrow> ur_root_t \<Rightarrow> ur_cue_t \<Rightarrow> nat \<Rightarrow> memory \<Rightarrow>
    ((ur_cue_res_e + ur_nref) \<times> ur_root_t \<times> ur_cue_t) option" where
  "cue murmur r c len byt =
     (case ur_bsr_init bsr_zero len 0 of
        (res, bsr) \<Rightarrow>
          if res \<noteq> ur_cue_good then Some (Inl res, r, c)
          else if 0x7ffffffffffffff < len then Some (Inl ur_cue_meme, r, c)
          else Option.bind (cue_next murmur byt (r, cue_s c, bsr, cue_dict c)) (\<lambda>x.
               map_option (\<lambda>(res, r, s, bsr, dict). (res, r, \<lparr>cue_s = s, cue_dict = dict\<rparr>)) (cue_loop murmur byt x)))"

definition ur_cue_init_with :: "murmur \<Rightarrow> ur_root_t \<Rightarrow> nat \<Rightarrow> nat \<Rightarrow> nat \<Rightarrow> nat \<Rightarrow> ur_cue_t option" where
  "ur_cue_init_with murmur r d_prev d_size s_prev s_size =
     map_option (\<lambda>dict. \<lparr>cue_s = \<lparr>stack_prev = s_prev, stack_size = s_size, stack_f = []\<rparr>, cue_dict = dict\<rparr>)
       (ur_dict64_grow murmur (Some r) dict_zero d_prev d_size)"

definition ur_cue_init :: "murmur \<Rightarrow> ur_root_t \<Rightarrow> ur_cue_t option" where
  "ur_cue_init murmur r = ur_cue_init_with murmur r ur_fib11 ur_fib12 ur_fib10 ur_fib11"

definition ur_cue_with :: "murmur \<Rightarrow> ur_root_t \<Rightarrow> ur_cue_t \<Rightarrow> nat \<Rightarrow> memory \<Rightarrow>
    ((ur_cue_res_e + ur_nref) \<times> ur_root_t \<times> ur_cue_t) option" where
  "ur_cue_with murmur r c len byt =
     map_option (\<lambda>(res, r, c). (res, r, c\<lparr>cue_dict := ur_dict64_wipe (cue_dict c), cue_s := (cue_s c)\<lparr>stack_f := []\<rparr>\<rparr>))
       (cue murmur r c len byt)"

definition ur_cue :: "murmur \<Rightarrow> ur_root_t \<Rightarrow> nat \<Rightarrow> memory \<Rightarrow> ((ur_cue_res_e + ur_nref) \<times> ur_root_t) option" where
  "ur_cue murmur r len byt =
     Option.bind (ur_cue_init murmur r) (\<lambda>c. map_option (\<lambda>(res, r, c). (res, r)) (cue murmur r c len byt))"

section \<open>ur_cue_test\<close>

record cue_test_frame =
  frame_tal :: bool
  tframe_bits :: nat

type_synonym cue_test_state = "cue_test_frame cue_stack \<times> ur_bsr_t \<times> ur_dict_t"

definition cue_test_back :: "murmur \<Rightarrow> memory \<Rightarrow> cue_test_state \<Rightarrow> (ur_cue_res_e \<times> cue_test_state) option" where
  "cue_test_back murmur mem = (\<lambda>(s, bsr, dict).
     case ur_bsr_rub_len mem bsr of
       (Inl res, bsr) \<Rightarrow> Some (res, s, bsr, dict)
     | (Inr len, bsr) \<Rightarrow>
         if 62 < unat len then Some (ur_cue_meme, s, bsr, dict)
         else let (bak, bsr) = ur_bsr64_any mem bsr (unat len)
              in map_option (\<lambda>got. (if got then ur_cue_good else ur_cue_back, s, bsr, dict)) (ur_dict_get murmur None dict bak))"

definition cue_test_atom :: "murmur \<Rightarrow> memory \<Rightarrow> nat \<Rightarrow> cue_test_state \<Rightarrow> (ur_cue_res_e \<times> cue_test_state) option" where
  "cue_test_atom murmur mem bits = (\<lambda>(s, bsr, dict).
     case ur_bsr_rub_len mem bsr of
       (Inl res, bsr) \<Rightarrow> Some (res, s, bsr, dict)
     | (Inr len, bsr) \<Rightarrow>
         map_option (\<lambda>dict. (ur_cue_good, s, ur_bsr_skip_any bsr (unat len), dict)) (ur_dict_put murmur None dict (of_nat bits)))"

partial_function (option) cue_test_next :: "murmur \<Rightarrow> memory \<Rightarrow> cue_test_state \<Rightarrow> (ur_cue_res_e \<times> cue_test_state) option" where
  "cue_test_next murmur mem st =
     (case st of (s, bsr, dict) \<Rightarrow>
        let bits = bsr_bits bsr
        in case ur_bsr_tag mem bsr of
             (Inl res, bsr) \<Rightarrow> Some (res, s, bsr, dict)
           | (Inr tag, bsr) \<Rightarrow>
               if tag = ur_jam_cell
               then Option.bind (cue_push s \<lparr>frame_tal = False, tframe_bits = bits\<rparr>)
                      (\<lambda>s. cue_test_next murmur mem (s, bsr, dict))
               else if tag = ur_jam_back then cue_test_back murmur mem (s, bsr, dict)
               else cue_test_atom murmur mem bits (s, bsr, dict))"

partial_function (option) cue_test_loop ::
  "murmur \<Rightarrow> memory \<Rightarrow> ur_cue_res_e \<times> cue_test_state \<Rightarrow> (ur_cue_res_e \<times> cue_test_state) option" where
  "cue_test_loop murmur mem x =
     (case x of (res, s, bsr, dict) \<Rightarrow>
        if stack_f s = [] \<or> res \<noteq> ur_cue_good then Some x
        else let f = last (stack_f s); below = butlast (stack_f s)
             in if \<not> frame_tal f
                then Option.bind (cue_test_next murmur mem (s\<lparr>stack_f := below @ [f\<lparr>frame_tal := True\<rparr>]\<rparr>, bsr, dict))
                       (\<lambda>x. cue_test_loop murmur mem x)
                else Option.bind (ur_dict_put murmur None dict (of_nat (tframe_bits f))) (\<lambda>dict.
                       cue_test_loop murmur mem (res, s\<lparr>stack_f := below\<rparr>, bsr, dict)))"

record ur_cue_test_t =
  test_s :: "cue_test_frame cue_stack"
  test_dict :: ur_dict_t

definition cue_test :: "murmur \<Rightarrow> ur_cue_test_t \<Rightarrow> nat \<Rightarrow> memory \<Rightarrow> (ur_cue_res_e \<times> ur_cue_test_t) option" where
  "cue_test murmur t len byt =
     (case ur_bsr_init bsr_zero len 0 of
        (res, bsr) \<Rightarrow>
          if res \<noteq> ur_cue_good then Some (res, t)
          else if 0x7ffffffffffffff < len then Some (ur_cue_meme, t)
          else Option.bind (cue_test_next murmur byt (test_s t, bsr, test_dict t)) (\<lambda>x.
               map_option (\<lambda>(res, s, bsr, dict). (res, \<lparr>test_s = s, test_dict = dict\<rparr>)) (cue_test_loop murmur byt x)))"

definition ur_cue_test_init_with :: "murmur \<Rightarrow> nat \<Rightarrow> nat \<Rightarrow> nat \<Rightarrow> nat \<Rightarrow> ur_cue_test_t option" where
  "ur_cue_test_init_with murmur d_prev d_size s_prev s_size =
     map_option (\<lambda>dict. \<lparr>test_s = \<lparr>stack_prev = s_prev, stack_size = s_size, stack_f = []\<rparr>, test_dict = dict\<rparr>)
       (ur_dict_grow murmur None dict_zero d_prev d_size)"

definition ur_cue_test_init :: "murmur \<Rightarrow> ur_cue_test_t option" where
  "ur_cue_test_init murmur = ur_cue_test_init_with murmur ur_fib11 ur_fib12 ur_fib10 ur_fib11"

definition ur_cue_test_with :: "murmur \<Rightarrow> ur_cue_test_t \<Rightarrow> nat \<Rightarrow> memory \<Rightarrow> (bool \<times> ur_cue_test_t) option" where
  "ur_cue_test_with murmur t len byt =
     map_option (\<lambda>(res, t). (res = ur_cue_good, t\<lparr>test_dict := ur_dict_wipe (test_dict t), test_s := (test_s t)\<lparr>stack_f := []\<rparr>\<rparr>))
       (cue_test murmur t len byt)"

definition ur_cue_test :: "murmur \<Rightarrow> nat \<Rightarrow> memory \<Rightarrow> bool option" where
  "ur_cue_test murmur len byt =
     Option.bind (ur_cue_test_init murmur) (\<lambda>t. map_option (\<lambda>(res, t). res = ur_cue_good) (cue_test murmur t len byt))"

section \<open>The grammar of jammed nouns\<close>

text \<open>
  \<open>cued bs p m n p' m'\<close>: at position \<open>p\<close> of the stream \<open>bs\<close>, where the positions of \<open>m\<close> are known, there is
  an encoding of \<open>n\<close> that ends at \<open>p'\<close>, and then the positions of \<open>m'\<close> are known. An atom that is
  encoded with more than 62 bits must have that many.
\<close>

inductive cued :: "bool list \<Rightarrow> nat \<Rightarrow> (nat \<rightharpoonup> noun) \<Rightarrow> noun \<Rightarrow> nat \<Rightarrow> (nat \<rightharpoonup> noun) \<Rightarrow> bool" for bs where
  atom: "drop p bs = [False] @ rub_bits len @ rest \<Longrightarrow> len < 2 ^ 63 \<Longrightarrow> len \<le> length rest \<Longrightarrow> a = bits_val (take len rest) \<Longrightarrow>
    len \<le> 62 \<or> 2 ^ 62 \<le> a \<Longrightarrow> cued bs p m (Atom a) (p + 1 + length (rub_bits len) + len) (m(p \<mapsto> Atom a))"
| backref: "drop p bs = [True, True] @ rub_bits len @ rest \<Longrightarrow> len \<le> 62 \<Longrightarrow> len \<le> length rest \<Longrightarrow> m (bits_val (take len rest)) = Some n \<Longrightarrow>
    cued bs p m n (p + 2 + length (rub_bits len) + len) m"
| cell: "drop p bs = [True, False] @ rest \<Longrightarrow> cued bs (p + 2) m h p1 m1 \<Longrightarrow> cued bs p1 m1 t p2 m2 \<Longrightarrow>
    cued bs p m (Cell h t) p2 (m2(p \<mapsto> Cell h t))"

text \<open>The grammar is deterministic.\<close>

lemma cued_fun:
  "cued bs p m n p1 m1 \<Longrightarrow> cued bs p m n' p2 m2 \<Longrightarrow> n' = n \<and> p2 = p1 \<and> m2 = m1"
proof (induction arbitrary: n' p2 m2 rule: cued.induct)
  case (atom p len rest a m)
  from atom(6) show ?case
    using atom(1-4) by cases (auto dest: rub_bits_prefix)
next
  case (backref p len rest m n)
  from backref(5) show ?case
  proof cases
    case (backref len' rest')
    then have "len' = len" "rest' = rest"
      using rub_bits_prefix [of len rest len' rest'] \<open>drop p bs = [True, True] @ rub_bits len @ rest\<close> by simp_all
    with backref show ?thesis
      using \<open>m (bits_val (take len rest)) = Some n\<close> by simp
  qed (use backref(1) in simp_all)
next
  case (cell p rest m h p1 m1 t p2 m2)
  from cell(6) show ?case
    using cell(1) by cases (use cell(4,5) in auto)
qed
section \<open>The dictionary of cursors\<close>

text \<open>At most ten of the first \<open>N\<close> bit cursors share a mug.\<close>

definition cursor_spread :: "murmur \<Rightarrow> nat \<Rightarrow> bool" where
  "cursor_spread murmur N \<longleftrightarrow> (\<forall>m. card {p. p < N \<and> ur_mug64 murmur (of_nat p) = m} \<le> ur_pail_max)"

lemma cursor_spread_mono:
  assumes "cursor_spread murmur N" and "M \<le> N"
  shows "cursor_spread murmur M"
proof -
  have "card {p. p < M \<and> ur_mug64 murmur (of_nat p) = m} \<le> card {p. p < N \<and> ur_mug64 murmur (of_nat p) = m}" for m
    by (rule card_mono) (use assms(2) in auto)
  then show ?thesis
    using assms(1) unfolding cursor_spread_def by (meson le_trans)
qed

definition cursors :: "nat \<Rightarrow> ur_nref set" where
  "cursors N = of_nat ` {..<N}"

lemma cursor_mug: "p < 2 ^ 62 \<Longrightarrow> ur_nref_mug murmur r (of_nat p) = Some (ur_mug64 murmur (of_nat p))"
  by (simp add: ur_nref_mug_def direct_iff unat_of_nat)

lemma cursors_spread:
  assumes "cursor_spread murmur N" and "N \<le> 2 ^ 62"
  shows "finite (cursors N)" and "spread (ur_nref_mug murmur r) (cursors N)"
proof -
  show "finite (cursors N)"
    by (simp add: cursors_def)
  have "card {k \<in> cursors N. ur_nref_mug murmur r k = Some m} \<le> card {p. p < N \<and> ur_mug64 murmur (of_nat p) = m}" for m
  proof -
    have "{k \<in> cursors N. ur_nref_mug murmur r k = Some m} \<subseteq> of_nat ` {p. p < N \<and> ur_mug64 murmur (of_nat p) = m}"
      using assms(2) cursor_mug [of _ murmur r] by (auto simp: cursors_def)
    then show ?thesis
      by (rule surj_card_le [rotated]) simp
  qed
  then show "spread (ur_nref_mug murmur r) (cursors N)"
    using assms(1) unfolding spread_def cursor_spread_def by (meson le_trans)
qed

definition cue_rel :: "murmur \<Rightarrow> ur_root_t \<Rightarrow> nat \<Rightarrow> ur_dict64_t \<Rightarrow> (nat \<rightharpoonup> noun) \<Rightarrow> bool" where
  "cue_rel murmur r N d m \<longleftrightarrow> dict_ok (ur_nref_mug murmur (Some r)) d \<and> dom (dict_map d) \<subseteq> cursors N \<and>
     (\<forall>p < 2 ^ 62. rel_option (den r) (dict_map d (of_nat p)) (m p))"

lemma cue_rel_get:
  assumes "cue_rel murmur r N d m" and "p < 2 ^ 62"
  shows "\<exists>v. ur_dict64_get murmur (Some r) d (of_nat p) = Some v \<and> rel_option (den r) v (m p)"
  using assms dict.get [of "ur_nref_mug murmur (Some r)" d "of_nat p"] cursor_mug [OF assms(2), of murmur "Some r"]
  by (simp add: cue_rel_def ur_dict64_get_def)

lemma of_nat_u64_inj: "p < 2 ^ 62 \<Longrightarrow> q < 2 ^ 62 \<Longrightarrow> (of_nat p :: u64) = of_nat q \<longleftrightarrow> p = q"
  by (auto simp: word_unat_eq_iff unat_of_nat)

lemma cue_rel_put:
  assumes rel: "cue_rel murmur r N d m" and N: "p < N" "N \<le> 2 ^ 62" "cursor_spread murmur N" and den: "den r ref n"
  shows "\<exists>d'. ur_dict64_put murmur (Some r) d (of_nat p) ref = Some d' \<and> cue_rel murmur r N d' (m(p \<mapsto> n))"
proof -
  let ?mug = "ur_nref_mug murmur (Some r)"
  have p: "p < 2 ^ 62" "of_nat p \<in> cursors N" "?mug (of_nat p) \<noteq> None"
    using N cursor_mug [of p murmur "Some r"] by (auto simp: cursors_def)
  have d: "dict_ok ?mug d" "dom (dict_map d) \<subseteq> cursors N"
    using rel by (simp_all add: cue_rel_def)
  obtain d' where d': "dict_put ?mug d (of_nat p) ref = Some d'" "dict_ok ?mug d'"
      "dict_map d' = (dict_map d)(of_nat p \<mapsto> ref)" "dom (dict_map d') \<subseteq> cursors N"
    using dict.put_within [OF d(1) p(3) _ d(2) p(2)] cursors_spread [OF N(3,2)] by blast
  have "rel_option (den r) (dict_map d' (of_nat q)) ((m(p \<mapsto> n)) q)" if "q < 2 ^ 62" for q
    using that rel den p(1) of_nat_u64_inj [OF that p(1)] by (simp add: d'(3) cue_rel_def)
  with d' show ?thesis
    by (simp add: cue_rel_def ur_dict64_put_def)
qed

lemma cue_rel_mono:
  assumes rel: "cue_rel murmur r N d m" and N: "N \<le> 2 ^ 62" and r': "root_inv murmur r'" "arena_le r r'"
  shows "cue_rel murmur r' N d m"
proof -
  have d: "dict_inv (ur_nref_mug murmur (Some r)) d" "dom (dict_map d) \<subseteq> cursors N"
    using rel by (simp_all add: cue_rel_def dict_ok_def)
  have "ur_nref_mug murmur (Some r') k = ur_nref_mug murmur (Some r) k" if "k \<in> dom (dict_map d)" for k
    using that d(2) N cursor_mug [of _ murmur] by (fastforce simp: cursors_def)
  then have "dict_inv (ur_nref_mug murmur (Some r')) d"
    by (rule dict_inv_cong [OF d(1)])
  moreover have "rel_option (den r') (dict_map d (of_nat p)) (m p)" if "p < 2 ^ 62" for p
    using rel that arena_leD [OF r'(2)] unfolding cue_rel_def by (blast intro: option.rel_mono_strong)
  ultimately show ?thesis
    using d(2) root_mugs_31 [OF r'(1)] by (simp add: cue_rel_def dict_ok_def)
qed

section \<open>Stack and reader\<close>

definition stack_ok :: "'f cue_stack \<Rightarrow> bool" where
  "stack_ok s \<longleftrightarrow> length (stack_f s) \<le> stack_size s \<and> 0 < stack_prev s \<and> 0 < stack_size s"

lemma cue_push_ok:
  assumes "stack_ok s"
  shows "\<exists>s'. cue_push s f = Some s' \<and> stack_ok s' \<and> stack_f s' = stack_f s @ [f]"
  using assms by (cases "length (stack_f s) = stack_size s") (simp_all add: cue_push_def stack_ok_def Let_def)

lemma bsr_seek_0: "bsr_wf s \<Longrightarrow> bsr_bits s < 2 ^ 64 \<Longrightarrow> bsr_seek s 0 = s"
  by (auto simp: bsr_seek_def bsr_wf_def Let_def u64_def bsr_ptr_def)

lemma reader_at:
  assumes "bsr_wf bsr0" and "bsr_bits bsr0 = 0" and "p < 2 ^ 64"
  shows "bsr_wf (bsr_seek bsr0 p)" "bsr_bits (bsr_seek bsr0 p) = p"
    "bsr_stream mem (bsr_seek bsr0 p) = drop p (bsr_stream mem bsr0)"
  using assms by (simp_all add: bsr_wf_seek bsr_stream_seek u64_def)

text \<open>The three tags.\<close>

lemma reader_tag:
  assumes bsr0: "bsr_wf bsr0" "bsr_bits bsr0 = 0" and N: "length (bsr_stream mem bsr0) \<le> 2 ^ 62"
    and st: "drop p (bsr_stream mem bsr0) = bits @ xs"
    and tag: "(bits, tag) \<in> {([False], ur_jam_atom), ([True, True], ur_jam_back), ([True, False], ur_jam_cell)}"
  shows "p < length (bsr_stream mem bsr0)" "bsr_bits (bsr_seek bsr0 p) = p"
    "ur_bsr_tag mem (bsr_seek bsr0 p) = (Inr tag, bsr_seek bsr0 (p + length bits))"
    "bsr_wf (bsr_seek bsr0 (p + length bits))" "bsr_stream mem (bsr_seek bsr0 (p + length bits)) = xs"
proof -
  have "drop p (bsr_stream mem bsr0) \<noteq> []"
    using st tag by auto
  then show p: "p < length (bsr_stream mem bsr0)"
    by (metis drop_all linorder_le_less_linear)
  then have "p < 2 ^ 64"
    using N by simp
  note R = reader_at(1,2) [OF bsr0 this] reader_at(3) [OF bsr0 this, of mem]
  then show "bsr_bits (bsr_seek bsr0 p) = p"
    by simp
  show "ur_bsr_tag mem (bsr_seek bsr0 p) = (Inr tag, bsr_seek bsr0 (p + length bits))"
    using ur_bsr_tag_eq [OF R(1), of mem] R(3) st tag by (auto simp: bsr_seek_seek)
  show "bsr_wf (bsr_seek bsr0 (p + length bits))"
    using bsr0(1) by (rule bsr_wf_seek)
  have "drop (length bits) (drop p (bsr_stream mem bsr0)) = xs"
    by (simp add: st del: drop_drop)
  then show "bsr_stream mem (bsr_seek bsr0 (p + length bits)) = xs"
    by (simp add: bsr_stream_seek add.commute)
qed

text \<open>The number in a byte array read from the stream.\<close>

lemma reads_bytes_val:
  assumes "reads_bytes st len out" and "len \<le> length st"
  shows "bytes_val (length out) out = bits_val (take len st)"
proof (rule bit_eqI)
  fix i
  have "length out = len div 8 + of_bool (len mod 8 \<noteq> 0)"
    using assms(1) unfolding reads_bytes_def by blast
  then have len: "len \<le> 8 * length out"
    by (cases "len mod 8 = 0") auto
  have "mbit (lmem out) i \<longleftrightarrow> i < len \<and> i < length st \<and> st ! i"
    using assms(1) unfolding reads_bytes_def by blast
  moreover have "bit (bits_val (take len st) :: nat) i \<longleftrightarrow> i < len \<and> i < length st \<and> st ! i"
    by (auto simp: bit_horner_sum_bit_iff)
  ultimately show "bit (bytes_val (length out) out) i = bit (bits_val (take len st) :: nat) i"
    unfolding bit_bytes_val using len by auto
qed

lemma strip_zeros_le: "strip_zeros n byt \<le> n"
  by (induction n) auto

lemma strip_zeros_last: "0 < strip_zeros n byt \<Longrightarrow> byt ! (strip_zeros n byt - 1) \<noteq> 0"
  by (induction n) auto

lemma bytes_val_Suc_zero: "n < length byt \<Longrightarrow> byt ! n = 0 \<Longrightarrow> bytes_val (Suc n) byt = bytes_val n byt"
proof (rule bit_eqI)
  fix i
  assume n: "n < length byt" "byt ! n = 0"
  have "\<not> mbit (lmem byt) i" if "8 * n \<le> i" "i < 8 * Suc n"
  proof -
    have "i div 8 = n"
      using that by (intro div_nat_eqI) auto
    then show ?thesis
      using n by (simp add: mbit_def lmem_def)
  qed
  then show "bit (bytes_val (Suc n) byt) i = bit (bytes_val n byt) i"
    unfolding bit_bytes_val by (meson le_SucI less_le_trans mult_le_mono2 not_le order_refl)
qed

lemma bytes_val_strip: "n \<le> length byt \<Longrightarrow> bytes_val (strip_zeros n byt) byt = bytes_val n byt"
  by (induction n) (auto simp: bytes_val_Suc_zero)

lemma strip_atom_ok:
  assumes "bytes_val (length byt) byt \<noteq> 0"
  shows "atom_ok (strip_zeros (length byt) byt) byt"
proof -
  have "strip_zeros (length byt) byt \<noteq> 0"
  proof
    assume "strip_zeros (length byt) byt = 0"
    then show False
      using assms bytes_val_strip [of "length byt" byt] by (simp add: bytes_val_def)
  qed
  then show ?thesis
    using strip_zeros_le [of "length byt" byt] strip_zeros_last [of "length byt" byt] by (simp add: atom_ok_def)
qed

section \<open>The machine on the streams of the grammar\<close>

text \<open>What one noun does to the machine: the state of the continuation, with the stack as it was.\<close>

definition cue_done ::
  "murmur \<Rightarrow> noun set \<Rightarrow> nat \<Rightarrow> ur_root_t \<Rightarrow> cue_frame cue_stack \<Rightarrow> noun \<Rightarrow> (nat \<rightharpoonup> noun) \<Rightarrow>
    ur_nref \<Rightarrow> ur_root_t \<Rightarrow> cue_frame cue_stack \<Rightarrow> ur_dict64_t \<Rightarrow> bool" where
  "cue_done murmur S N r s n m' ref r' s' d' \<longleftrightarrow> root_inv murmur r' \<and> arena_le r r' \<and> arena_nouns r' \<subseteq> S \<and>
     den r' ref n \<and> cue_rel murmur r' N d' m' \<and> stack_ok s' \<and> stack_f s' = stack_f s"

lemma cue_atom_ok:
  assumes bsr: "bsr_wf bsr" "bsr_stream mem bsr = rub_bits len @ rest"
    and len: "len < 2 ^ 63" "len \<le> length rest" "len \<le> 62 \<or> 2 ^ 62 \<le> (bits_val (take len rest) :: nat)"
    and r: "root_inv murmur r" "arena_nouns r \<subseteq> S" "mug_spread murmur S" "Atom (bits_val (take len rest)) \<in> S"
    and N: "p < N" "N \<le> 2 ^ 62" "cursor_spread murmur N" and rel: "cue_rel murmur r N d m" and s: "stack_ok s"
  shows "\<exists>ref r' d'. cue_atom murmur mem p (r, s, bsr, d) =
      Some (Inr ref, r', s, bsr_seek bsr (length (rub_bits len) + len), d') \<and>
    cue_done murmur S N r s (Atom (bits_val (take len rest))) (m(p \<mapsto> Atom (bits_val (take len rest)))) ref r' s d'"
proof -
  let ?bsr = "bsr_seek bsr (length (rub_bits len))" and ?a = "bits_val (take len rest) :: nat"
  have rub: "ur_bsr_rub_len mem bsr = (Inr (of_nat len), ?bsr)"
    by (rule ur_bsr_rub_len_ok [OF bsr len(1)])
  have wf: "bsr_wf ?bsr" "bsr_stream mem ?bsr = rest"
    using bsr by (simp_all add: bsr_wf_seek bsr_stream_seek)
  have ulen: "unat (of_nat len :: u64) = len"
    using len(1) by (simp add: unat_of_nat)
  have "\<exists>ref r'. cue_value murmur mem r ?bsr len = Some (ref, r', bsr_seek ?bsr len) \<and>
      root_inv murmur r' \<and> arena_le r r' \<and> den r' ref (Atom ?a) \<and> arena_nouns r' \<subseteq> S"
  proof (cases "len \<le> 62")
    case True
    have "unat (bits_val (take len rest) :: u64) = ?a" "?a < 2 ^ len"
      using True bits_val_less [of "take len rest"] len(2) by (simp_all add: ulow_bits_val)
    moreover have "(2::nat) ^ len \<le> 2 ^ 62"
      using True by (intro power_increasing) auto
    ultimately have "den r (bits_val (take len rest)) (Atom ?a)"
      using den.direct [of "bits_val (take len rest)" r] by (simp add: direct_iff)
    then show ?thesis
      using True r wf ur_bsr64_any_eq [OF wf(1), of mem len] by (simp add: cue_value_def min_def)
  next
    case False
    let ?n = "len div 8 + of_bool (len mod 8 \<noteq> 0)"
    obtain byt where b: "ur_bsr_bytes_any mem ?bsr len (replicate ?n 0) = (byt, bsr_seek ?bsr len)" "reads_bytes rest len byt"
      using ur_bsr_bytes_any_eq [OF wf(1) _ refl, of len mem] bsr_near_inside [of len mem ?bsr] wf(2) len(2) by (metis prod.collapse)
    have n: "length byt = ?n"
      using b(2) by (simp add: reads_bytes_def)
    have v: "bytes_val (length byt) byt = ?a"
      using reads_bytes_val [OF b(2) len(2)] .
    then have ok: "atom_ok (strip_zeros ?n byt) byt" "bytes_val (strip_zeros ?n byt) byt = ?a"
      using strip_atom_ok [of byt] bytes_val_strip [of "length byt" byt] len(3) False n by auto
    then show ?thesis
      using ur_coin_bytes_unsafe_ok [OF r(1) ok(1) _ r(3,2)] r(4) len(3) False b(1) by (auto simp: cue_value_def Let_def ur_mask_3_def)
  qed
  then obtain ref r' where out: "cue_value murmur mem r ?bsr len = Some (ref, r', bsr_seek ?bsr len)"
    and r': "root_inv murmur r'" "arena_le r r'" "den r' ref (Atom ?a)" "arena_nouns r' \<subseteq> S"
    by blast
  obtain d' where d': "ur_dict64_put murmur (Some r') d (of_nat p) ref = Some d'" "cue_rel murmur r' N d' (m(p \<mapsto> Atom ?a))"
    using cue_rel_put [OF cue_rel_mono [OF rel N(2) r'(1,2)] N r'(3)] by blast
  have "cue_atom murmur mem p (r, s, bsr, d) = Some (Inr ref, r', s, bsr_seek bsr (length (rub_bits len) + len), d')"
    unfolding cue_atom_def prod.case rub sum.case ulen out bind.bind_lunit d'(1) by (simp add: bsr_seek_seek)
  with d'(2) r' s show ?thesis
    unfolding cue_done_def by blast
qed

lemma cue_back_ok:
  assumes bsr: "bsr_wf bsr" "bsr_stream mem bsr = rub_bits len @ rest"
    and len: "len \<le> 62" "len \<le> length rest" "m (bits_val (take len rest)) = Some n"
    and r: "root_inv murmur r" "arena_nouns r \<subseteq> S" and rel: "cue_rel murmur r N d m" and s: "stack_ok s"
  shows "\<exists>ref. cue_back murmur mem (r, s, bsr, d) = Some (Inr ref, r, s, bsr_seek bsr (length (rub_bits len) + len), d) \<and>
    cue_done murmur S N r s n m ref r s d"
proof -
  let ?bsr = "bsr_seek bsr (length (rub_bits len))" and ?b = "bits_val (take len rest) :: nat"
  have lt: "len < 2 ^ 63"
    using len(1) by simp
  have rub: "ur_bsr_rub_len mem bsr = (Inr (of_nat len), ?bsr)"
    by (rule ur_bsr_rub_len_ok [OF bsr lt])
  have wf: "bsr_wf ?bsr" "bsr_stream mem ?bsr = rest"
    using bsr by (simp_all add: bsr_wf_seek bsr_stream_seek)
  have ulen: "unat (of_nat len :: u64) = len"
    using len(1) by (simp add: unat_of_nat)
  have "?b < 2 ^ len" "(2::nat) ^ len \<le> 2 ^ 62"
    using bits_val_less [of "take len rest"] len(1,2) by (simp, intro power_increasing) auto
  then have "?b < 2 ^ 62"
    by (rule less_le_trans)
  then obtain v where v: "ur_dict64_get murmur (Some r) d (of_nat ?b) = Some v" "rel_option (den r) v (Some n)"
    using cue_rel_get [OF rel] len(3) by metis
  then obtain ref where ref: "v = Some ref" "den r ref n"
    by (cases v) auto
  have "(of_nat ?b :: u64) = bits_val (take len rest)"
    by (rule of_low_bits_val)
  then have "cue_back murmur mem (r, s, bsr, d) = Some (Inr ref, r, s, bsr_seek bsr (length (rub_bits len) + len), d)"
    using v(1) ref(1) ulen len(1) ur_bsr64_any_eq [OF wf(1), of mem len]
    by (simp add: cue_back_def rub wf(2) min_def bsr_seek_seek)
  with ref(2) r rel s show ?thesis
    unfolding cue_done_def by auto
qed

lemma valid_not_head: "valid r ref \<Longrightarrow> ref \<noteq> CUE_HEAD"
proof
  assume "valid r ref" "ref = CUE_HEAD"
  moreover have "ur_nref_tag CUE_HEAD \<noteq> ur_direct" "ur_nref_tag CUE_HEAD \<noteq> ur_iatom" "ur_nref_tag CUE_HEAD \<noteq> ur_icell"
    by (simp_all add: word_unat_eq_iff unat_nref_tag CUE_HEAD_def ur_direct_def ur_iatom_def ur_icell_def)
  ultimately show False
    by (simp add: valid_def)
qed

text \<open>The steps of the machine.\<close>

abbreviation cue_run :: "murmur \<Rightarrow> memory \<Rightarrow> cue_state \<Rightarrow> ((ur_cue_res_e + ur_nref) \<times> cue_state) option" where
  "cue_run murmur mem st \<equiv> Option.bind (cue_next murmur mem st) (\<lambda>x. cue_loop murmur mem x)"

lemma cue_next_tag:
  assumes "ur_bsr_tag mem bsr = (Inr tag, bsr')"
  shows "cue_next murmur mem (r, s, bsr, d) =
    (case tag of
       ur_jam_cell \<Rightarrow> Option.bind (cue_push s \<lparr>frame_ref = CUE_HEAD, frame_bits = bsr_bits bsr\<rparr>)
         (\<lambda>s. cue_next murmur mem (r, s, bsr', d))
     | ur_jam_back \<Rightarrow> cue_back murmur mem (r, s, bsr', d)
     | ur_jam_atom \<Rightarrow> cue_atom murmur mem (bsr_bits bsr) (r, s, bsr', d))"
  by (subst cue_next.simps) (simp add: assms Let_def split: ur_cue_tag_e.split)

lemma cue_loop_head:
  assumes "stack_f s = fs @ [f]" and "frame_ref f = CUE_HEAD"
  shows "cue_loop murmur mem (Inr ref, r, s, bsr, d) =
    cue_run murmur mem (r, s\<lparr>stack_f := fs @ [f\<lparr>frame_ref := ref\<rparr>]\<rparr>, bsr, d)"
  by (subst cue_loop.simps) (simp add: assms Let_def)

lemma cue_loop_tail:
  assumes "stack_f s = fs @ [f]" and "frame_ref f \<noteq> CUE_HEAD"
    and "ur_cons murmur r (frame_ref f) ref = Some (ref', r')"
    and "ur_dict64_put murmur (Some r') d (of_nat (frame_bits f)) ref' = Some d'"
  shows "cue_loop murmur mem (Inr ref, r, s, bsr, d) = cue_loop murmur mem (Inr ref', r', s\<lparr>stack_f := fs\<rparr>, bsr, d')"
  by (subst cue_loop.simps) (simp add: assms Let_def)

theorem cue_runs:
  assumes bsr0: "bsr_wf bsr0" "bsr_bits bsr0 = 0" and N: "N = length (bsr_stream mem bsr0)" "N \<le> 2 ^ 62" "cursor_spread murmur N"
    and S: "mug_spread murmur S"
  shows "cued (bsr_stream mem bsr0) p m n p' m' \<Longrightarrow> root_inv murmur r \<Longrightarrow> arena_nouns r \<subseteq> S \<Longrightarrow> subnouns n \<subseteq> S \<Longrightarrow>
    stack_ok s \<Longrightarrow> cue_rel murmur r N d m \<Longrightarrow>
    \<exists>ref r' s' d'. cue_run murmur mem (r, s, bsr_seek bsr0 p, d) = cue_loop murmur mem (Inr ref, r', s', bsr_seek bsr0 p', d') \<and>
      cue_done murmur S N r s n m' ref r' s' d'"
proof (induction arbitrary: r s d rule: cued.induct)
  case (atom p len rest a m)
  have p: "p < N" "bsr_bits (bsr_seek bsr0 p) = p" "ur_bsr_tag mem (bsr_seek bsr0 p) = (Inr ur_jam_atom, bsr_seek bsr0 (p + 1))"
    "bsr_wf (bsr_seek bsr0 (p + 1))" "bsr_stream mem (bsr_seek bsr0 (p + 1)) = rub_bits len @ rest"
    using reader_tag [OF bsr0 _ atom(1), of ur_jam_atom] N(1,2) by simp_all
  have "Atom (bits_val (take len rest)) \<in> S"
    using atom(4,8) by simp
  from cue_atom_ok [OF p(4,5) atom(2,3) _ atom(6,7) S this p(1) N(2,3) atom(10,9)] atom(4,5)
  obtain ref r' d' where 2: "cue_atom murmur mem p (r, s, bsr_seek bsr0 (p + 1), d) =
      Some (Inr ref, r', s, bsr_seek (bsr_seek bsr0 (p + 1)) (length (rub_bits len) + len), d')"
    and D: "cue_done murmur S N r s (Atom a) (m(p \<mapsto> Atom a)) ref r' s d'"
    by auto
  have "cue_run murmur mem (r, s, bsr_seek bsr0 p, d) =
      cue_loop murmur mem (Inr ref, r', s, bsr_seek bsr0 (p + 1 + length (rub_bits len) + len), d')"
    using cue_next_tag [OF p(3), of murmur r s d] p(2) 2 by (simp add: bsr_seek_seek add.assoc)
  with D show ?case
    by blast
next
  case (backref p len rest m n)
  have p: "p < N" "bsr_bits (bsr_seek bsr0 p) = p" "ur_bsr_tag mem (bsr_seek bsr0 p) = (Inr ur_jam_back, bsr_seek bsr0 (p + 2))"
    "bsr_wf (bsr_seek bsr0 (p + 2))" "bsr_stream mem (bsr_seek bsr0 (p + 2)) = rub_bits len @ rest"
    using reader_tag [OF bsr0 _ backref(1), of ur_jam_back] N(1,2) by simp_all
  from cue_back_ok [OF p(4,5) backref(2-6,9,8)] obtain ref where
    2: "cue_back murmur mem (r, s, bsr_seek bsr0 (p + 2), d) = Some (Inr ref, r, s, bsr_seek (bsr_seek bsr0 (p + 2)) (length (rub_bits len) + len), d)"
    and D: "cue_done murmur S N r s n m ref r s d"
    by auto
  have "cue_run murmur mem (r, s, bsr_seek bsr0 p, d) = cue_loop murmur mem (Inr ref, r, s, bsr_seek bsr0 (p + 2 + length (rub_bits len) + len), d)"
    using cue_next_tag [OF p(3), of murmur r s d] p(2) 2 by (simp add: bsr_seek_seek add.assoc)
  with D show ?case
    by blast
next
  case (cell p rest m h p1 m1 t p2 m2)
  have p: "p < N" "bsr_bits (bsr_seek bsr0 p) = p" "ur_bsr_tag mem (bsr_seek bsr0 p) = (Inr ur_jam_cell, bsr_seek bsr0 (p + 2))"
    "bsr_wf (bsr_seek bsr0 (p + 2))" "bsr_stream mem (bsr_seek bsr0 (p + 2)) = rest"
    using reader_tag [OF bsr0 _ cell(1), of ur_jam_cell] N(1,2) by simp_all
  obtain s1 where s1: "cue_push s \<lparr>frame_ref = CUE_HEAD, frame_bits = p\<rparr> = Some s1" "stack_ok s1"
      "stack_f s1 = stack_f s @ [\<lparr>frame_ref = CUE_HEAD, frame_bits = p\<rparr>]"
    using cue_push_ok [OF cell.prems(4)] by blast
  have sub: "subnouns h \<subseteq> S" "subnouns t \<subseteq> S" "Cell h t \<in> S"
    using cell.prems(3) by auto
  have 1: "cue_run murmur mem (r, s, bsr_seek bsr0 p, d) = cue_run murmur mem (r, s1, bsr_seek bsr0 (p + 2), d)"
    using cue_next_tag [OF p(3), of murmur r s d] s1(1) p(2) by (simp add: bsr_seek_seek)
  from cell.IH(1) [OF cell.prems(1,2) sub(1) s1(2) cell.prems(5)] obtain hr r1 s2 d1 where
    2: "cue_run murmur mem (r, s1, bsr_seek bsr0 (p + 2), d) = cue_loop murmur mem (Inr hr, r1, s2, bsr_seek bsr0 p1, d1)"
    and D1: "cue_done murmur S N r s1 h m1 hr r1 s2 d1"
    by blast
  define s3 where "s3 = s2\<lparr>stack_f := stack_f s @ [\<lparr>frame_ref = hr, frame_bits = p\<rparr>]\<rparr>"
  have 3: "cue_loop murmur mem (Inr hr, r1, s2, bsr_seek bsr0 p1, d1) = cue_run murmur mem (r1, s3, bsr_seek bsr0 p1, d1)"
    using cue_loop_head [of s2 "stack_f s"] D1 s1(3) by (simp add: cue_done_def s3_def)
  have s3: "stack_ok s3"
    using D1 s1(3) by (auto simp: cue_done_def stack_ok_def s3_def)
  from D1 have D: "root_inv murmur r1" "arena_nouns r1 \<subseteq> S" "cue_rel murmur r1 N d1 m1" "arena_le r r1" "den r1 hr h"
    by (simp_all add: cue_done_def)
  from cell.IH(2) [OF D(1,2) sub(2) s3 D(3)] obtain tr r2 s4 d2 where
    4: "cue_run murmur mem (r1, s3, bsr_seek bsr0 p1, d1) = cue_loop murmur mem (Inr tr, r2, s4, bsr_seek bsr0 p2, d2)"
    and D2: "cue_done murmur S N r1 s3 t m2 tr r2 s4 d2"
    by blast
  from D2 have E: "root_inv murmur r2" "arena_le r1 r2" "arena_nouns r2 \<subseteq> S" "den r2 tr t" "cue_rel murmur r2 N d2 m2"
    "stack_ok s4" "stack_f s4 = stack_f s @ [\<lparr>frame_ref = hr, frame_bits = p\<rparr>]"
    by (simp_all add: cue_done_def s3_def)
  have hr: "den r2 hr h"
    using D(5) arena_leD [OF E(2)] by blast
  then have ne: "hr \<noteq> CUE_HEAD"
    using valid_not_head den_valid [OF E(1)] by blast
  obtain ref r3 where c: "ur_cons murmur r2 hr tr = Some (ref, r3)" "root_inv murmur r3" "arena_le r2 r3"
      "den r3 ref (Cell h t)" "arena_nouns r3 \<subseteq> S"
    using ur_cons_ok [OF E(1) hr E(4) S E(3) sub(3)] by blast
  obtain d3 where d3: "ur_dict64_put murmur (Some r3) d2 (of_nat p) ref = Some d3" "cue_rel murmur r3 N d3 (m2(p \<mapsto> Cell h t))"
    using cue_rel_put [OF cue_rel_mono [OF E(5) N(2) c(2,3)] p(1) N(2,3) c(4)] by blast
  define s5 where "s5 = s4\<lparr>stack_f := stack_f s\<rparr>"
  have 5: "cue_loop murmur mem (Inr tr, r2, s4, bsr_seek bsr0 p2, d2) = cue_loop murmur mem (Inr ref, r3, s5, bsr_seek bsr0 p2, d3)"
    using cue_loop_tail [OF E(7), of murmur r2 tr ref r3 d2 d3] ne c(1) d3(1) by (simp add: s5_def)
  have "arena_le r r3"
    using D(4) E(2) c(3) arena_le_trans by blast
  moreover have "stack_ok s5" "stack_f s5 = stack_f s"
    using E(6,7) by (simp_all add: s5_def stack_ok_def)
  ultimately have "cue_done murmur S N r s (Cell h t) (m2(p \<mapsto> Cell h t)) ref r3 s5 d3"
    using c d3(2) by (simp add: cue_done_def)
  then show ?case
    unfolding 1 2 3 4 5 by blast
qed

section \<open>The interface\<close>

text \<open>A buffer of \<open>len\<close> bytes as a stream.\<close>

abbreviation buffer_bits :: "nat \<Rightarrow> memory \<Rightarrow> bool list" where
  "buffer_bits len byt \<equiv> mbits byt 0 (8 * len)"

lemma ur_bsr_init_ok:
  assumes "len \<le> 0x7ffffffffffffff"
  obtains bsr where "ur_bsr_init bsr_zero len 0 = (ur_cue_good, bsr)" and "bsr_wf bsr" and "bsr_bits bsr = 0"
    and "\<And>mem. bsr_stream mem bsr = buffer_bits len mem" and "bsr_seek bsr 0 = bsr"
proof -
  let ?bsr = "bsr_zero\<lparr>bsr_left := len, bsr_bytes := Some 0\<rparr>"
  have "\<not> u64 (len * 8) < len"
    using assms by (simp add: u64_def)
  then have 1: "ur_bsr_init bsr_zero len 0 = (ur_cue_good, ?bsr)"
    by (simp add: ur_bsr_init_def)
  have 2: "bsr_wf ?bsr" "bsr_bits ?bsr = 0" "\<And>mem. bsr_stream mem ?bsr = buffer_bits len mem"
    by (auto simp: bsr_wf_def bsr_zero_def bsr_stream_def bsr_ptr_def)
  show thesis
    using that [OF 1 2 bsr_seek_0 [OF 2(1)]] 2(2) by simp
qed

text \<open>A cue state that is ready for a buffer.\<close>

definition cue_ready :: "murmur \<Rightarrow> ur_root_t \<Rightarrow> ur_cue_t \<Rightarrow> bool" where
  "cue_ready murmur r c \<longleftrightarrow> stack_ok (cue_s c) \<and> stack_f (cue_s c) = [] \<and>
     dict_ok (ur_nref_mug murmur (Some r)) (cue_dict c) \<and> dict_map (cue_dict c) = Map.empty"

lemma cue_ok:
  assumes r: "root_inv murmur r" and c: "cue_ready murmur r c"
    and bs: "cued (buffer_bits len byt) 0 Map.empty n p m" and len: "len \<le> 0x7ffffffffffffff"
    and S: "mug_spread murmur (arena_nouns r \<union> subnouns n)" "cursor_spread murmur (8 * len)"
  shows "\<exists>ref r' c'. cue murmur r c len byt = Some (Inr ref, r', c') \<and> root_inv murmur r' \<and> arena_le r r' \<and> den r' ref n \<and>
    dict_ok (ur_nref_mug murmur (Some r')) (cue_dict c') \<and> stack_ok (cue_s c')"
proof -
  let ?S = "arena_nouns r \<union> subnouns n"
  obtain bsr where bsr: "ur_bsr_init bsr_zero len 0 = (ur_cue_good, bsr)" "bsr_wf bsr" "bsr_bits bsr = 0"
      "bsr_stream byt bsr = buffer_bits len byt" "bsr_seek bsr 0 = bsr"
    using ur_bsr_init_ok [OF len] by metis
  have N: "8 * len = length (bsr_stream byt bsr)" "8 * len \<le> 2 ^ 62"
    using bsr(4) len by simp_all
  have rel: "cue_rel murmur r (8 * len) (cue_dict c) Map.empty"
    using c by (simp add: cue_rel_def cue_ready_def)
  from cue_runs [OF bsr(2,3) N S(2,1) bs [folded bsr(4)] r _ _ _ rel, of "cue_s c"] c
  obtain ref r' s' d' where run: "cue_run murmur byt (r, cue_s c, bsr, cue_dict c) = cue_loop murmur byt (Inr ref, r', s', bsr_seek bsr p, d')"
    and D: "cue_done murmur ?S (8 * len) r (cue_s c) n m ref r' s' d'"
    by (auto simp: bsr(5) cue_ready_def)
  have "stack_f s' = []"
    using D c by (simp add: cue_done_def cue_ready_def)
  then have "cue_loop murmur byt (Inr ref, r', s', bsr_seek bsr p, d') = Some (Inr ref, r', s', bsr_seek bsr p, d')"
    by (subst cue_loop.simps) simp
  then have "cue murmur r c len byt = Some (Inr ref, r', \<lparr>cue_s = s', cue_dict = d'\<rparr>)"
    using run len by (cases "cue_next murmur byt (r, cue_s c, bsr, cue_dict c)") (simp_all add: cue_def bsr(1))
  then show ?thesis
    using D by (simp add: cue_done_def cue_rel_def)
qed

lemma ur_cue_init_ready:
  assumes "root_inv murmur r"
  shows "\<exists>c. ur_cue_init murmur r = Some c \<and> cue_ready murmur r c"
proof -
  have "0 < ur_fib11" "0 < ur_fib12"
    by (simp_all add: ur_fib11_def ur_fib12_def)
  from dict_grow_zero [OF this root_mugs_31 [OF assms]] obtain d :: ur_dict64_t where
    "dict_grow (ur_nref_mug murmur (Some r)) dict_zero ur_fib11 ur_fib12 = Some d"
    "dict_inv (ur_nref_mug murmur (Some r)) d" "dict_map d = Map.empty"
    by blast
  then show ?thesis
    using root_mugs_31 [OF assms]
    by (simp add: ur_cue_init_def ur_cue_init_with_def ur_dict64_grow_def cue_ready_def dict_ok_def stack_ok_def
        ur_fib10_def ur_fib11_def)
qed

lemma ur_cue_ok:
  assumes "root_inv murmur r" and "cued (buffer_bits len byt) 0 Map.empty n p m" and "len \<le> 0x7ffffffffffffff"
    and "mug_spread murmur (arena_nouns r \<union> subnouns n)" and "cursor_spread murmur (8 * len)"
  shows "\<exists>ref r'. ur_cue murmur r len byt = Some (Inr ref, r') \<and> root_inv murmur r' \<and> arena_le r r' \<and> den r' ref n"
proof -
  obtain c where c: "ur_cue_init murmur r = Some c" "cue_ready murmur r c"
    using ur_cue_init_ready [OF assms(1)] by blast
  from cue_ok [OF assms(1) c(2) assms(2-5)] c(1) show ?thesis
    by (auto simp: ur_cue_def)
qed

lemma ur_cue_with_ok:
  assumes "root_inv murmur r" and "cue_ready murmur r c"
    and "cued (buffer_bits len byt) 0 Map.empty n p m" and "len \<le> 0x7ffffffffffffff"
    and "mug_spread murmur (arena_nouns r \<union> subnouns n)" and "cursor_spread murmur (8 * len)"
  shows "\<exists>ref r' c'. ur_cue_with murmur r c len byt = Some (Inr ref, r', c') \<and> root_inv murmur r' \<and> arena_le r r' \<and>
    den r' ref n \<and> cue_ready murmur r' c'"
proof -
  from cue_ok [OF assms] obtain ref r' c' where *: "cue murmur r c len byt = Some (Inr ref, r', c')" "root_inv murmur r'"
      "arena_le r r'" "den r' ref n" "dict_ok (ur_nref_mug murmur (Some r')) (cue_dict c')" "stack_ok (cue_s c')"
    by blast
  then show ?thesis
    using dict.wipe [OF *(5)] by (simp add: ur_cue_with_def cue_ready_def ur_dict64_wipe_def stack_ok_def)
qed

text \<open>A buffer beyond the address range of backreferences is refused.\<close>

lemma ur_cue_meme:
  assumes "root_inv murmur r" and "0x7ffffffffffffff < len" and "len < 2 ^ 61"
  shows "ur_cue murmur r len byt = Some (Inl ur_cue_meme, r)"
proof -
  obtain c where c: "ur_cue_init murmur r = Some c"
    using ur_cue_init_ready [OF assms(1)] by blast
  have "u64 (len * 8) = len * 8"
    using assms(3) by (simp add: u64_def)
  then show ?thesis
    using c assms(2) by (simp add: ur_cue_def cue_def ur_bsr_init_def)
qed

end
