(* ===== verification/Ur_Cue_Test.thy ===== *)
theory Ur_Cue_Test
  imports Ur_Cue
begin

text \<open>
  \<^verbatim>\<open>ur_cue_test\<close> on the streams of the grammar: the machine of \<^verbatim>\<open>_cue_test\<close> parses what \<^verbatim>\<open>_cue\<close> parses,
  with a set of bit cursors in place of the dictionary and without an arena.
\<close>

definition test_rel :: "murmur \<Rightarrow> nat \<Rightarrow> ur_dict_t \<Rightarrow> (nat \<rightharpoonup> noun) \<Rightarrow> bool" where
  "test_rel murmur N d m \<longleftrightarrow> dict_ok (ur_nref_mug murmur None) d \<and> dom (dict_map d) \<subseteq> cursors N \<and>
     (\<forall>p < 2 ^ 62. of_nat p \<in> dom (dict_map d) \<longleftrightarrow> p \<in> dom m)"

lemma test_rel_get:
  assumes "test_rel murmur N d m" and "p < 2 ^ 62"
  shows "ur_dict_get murmur None d (of_nat p) = Some (p \<in> dom m)"
proof -
  have "dict_get (ur_nref_mug murmur None) d (of_nat p) = Some (dict_map d (of_nat p))"
    using assms dict.get [of "ur_nref_mug murmur None" d "of_nat p"] cursor_mug [OF assms(2), of murmur None] by (simp add: test_rel_def)
  moreover have "of_nat p \<in> dom (dict_map d) \<longleftrightarrow> p \<in> dom m"
    using assms by (simp add: test_rel_def)
  ultimately show ?thesis
    by (simp add: ur_dict_get_def domIff)
qed

lemma test_rel_put:
  assumes rel: "test_rel murmur N d m" and N: "p < N" "N \<le> 2 ^ 62" "cursor_spread murmur N"
  shows "\<exists>d'. ur_dict_put murmur None d (of_nat p) = Some d' \<and> test_rel murmur N d' (m(p \<mapsto> n))"
proof -
  let ?mug = "ur_nref_mug murmur None"
  have p: "p < 2 ^ 62" "of_nat p \<in> cursors N" "?mug (of_nat p) \<noteq> None"
    using N cursor_mug [of p murmur None] by (auto simp: cursors_def)
  have d: "dict_ok ?mug d" "dom (dict_map d) \<subseteq> cursors N"
    using rel by (simp_all add: test_rel_def)
  obtain d' where d': "dict_put ?mug d (of_nat p) () = Some d'" "dict_ok ?mug d'"
      "dict_map d' = (dict_map d)(of_nat p \<mapsto> ())" "dom (dict_map d') \<subseteq> cursors N"
    using dict.put_within [OF d(1) p(3) _ d(2) p(2)] cursors_spread [OF N(3,2)] by blast
  have "of_nat q \<in> dom (dict_map d') \<longleftrightarrow> q \<in> dom (m(p \<mapsto> n))" if "q < 2 ^ 62" for q
    using that rel p(1) of_nat_u64_inj [OF that p(1)] by (simp add: d'(3) test_rel_def)
  with d' show ?thesis
    by (auto simp: test_rel_def ur_dict_put_def)
qed

abbreviation test_run :: "murmur \<Rightarrow> memory \<Rightarrow> cue_test_state \<Rightarrow> (ur_cue_res_e \<times> cue_test_state) option" where
  "test_run murmur mem st \<equiv> Option.bind (cue_test_next murmur mem st) (\<lambda>x. cue_test_loop murmur mem x)"

lemma cue_test_next_tag:
  assumes "ur_bsr_tag mem bsr = (Inr tag, bsr')"
  shows "cue_test_next murmur mem (s, bsr, d) =
    (case tag of
       ur_jam_cell \<Rightarrow> Option.bind (cue_push s \<lparr>frame_tal = False, tframe_bits = bsr_bits bsr\<rparr>)
         (\<lambda>s. cue_test_next murmur mem (s, bsr', d))
     | ur_jam_back \<Rightarrow> cue_test_back murmur mem (s, bsr', d)
     | ur_jam_atom \<Rightarrow> cue_test_atom murmur mem (bsr_bits bsr) (s, bsr', d))"
  by (subst cue_test_next.simps) (simp add: assms Let_def split: ur_cue_tag_e.split)

lemma cue_test_loop_head:
  assumes "stack_f s = fs @ [f]" and "\<not> frame_tal f"
  shows "cue_test_loop murmur mem (ur_cue_good, s, bsr, d) = test_run murmur mem (s\<lparr>stack_f := fs @ [f\<lparr>frame_tal := True\<rparr>]\<rparr>, bsr, d)"
  by (subst cue_test_loop.simps) (simp add: assms Let_def)

lemma cue_test_loop_tail:
  assumes "stack_f s = fs @ [f]" and "frame_tal f" and "ur_dict_put murmur None d (of_nat (tframe_bits f)) = Some d'"
  shows "cue_test_loop murmur mem (ur_cue_good, s, bsr, d) = cue_test_loop murmur mem (ur_cue_good, s\<lparr>stack_f := fs\<rparr>, bsr, d')"
  by (subst cue_test_loop.simps) (simp add: assms Let_def)

lemma cue_test_atom_ok:
  assumes bsr: "bsr_wf bsr" "bsr_stream mem bsr = rub_bits len @ rest" and len: "len < 2 ^ 63" "len \<le> length rest"
    and put: "ur_dict_put murmur None d (of_nat p) = Some d'"
  shows "cue_test_atom murmur mem p (s, bsr, d) = Some (ur_cue_good, s, bsr_seek bsr (length (rub_bits len) + len), d')"
proof -
  let ?bsr = "bsr_seek bsr (length (rub_bits len))"
  have wf: "bsr_wf ?bsr" "bsr_stream mem ?bsr = rest"
    using bsr by (simp_all add: bsr_wf_seek bsr_stream_seek)
  have "ur_bsr_skip_any ?bsr len = bsr_seek ?bsr len"
    using bsr_near_inside [of len mem ?bsr] wf len(2) by (intro ur_bsr_skip_any_eq) auto
  then show ?thesis
    using ur_bsr_rub_len_ok [OF bsr len(1)] put len(1) by (simp add: cue_test_atom_def unat_of_nat bsr_seek_seek)
qed

lemma cue_test_back_ok:
  assumes bsr: "bsr_wf bsr" "bsr_stream mem bsr = rub_bits len @ rest" and len: "len \<le> 62" "len \<le> length rest"
    and rel: "test_rel murmur N d m" "m (bits_val (take len rest)) = Some n"
  shows "cue_test_back murmur mem (s, bsr, d) = Some (ur_cue_good, s, bsr_seek bsr (length (rub_bits len) + len), d)"
proof -
  let ?bsr = "bsr_seek bsr (length (rub_bits len))" and ?b = "bits_val (take len rest) :: nat"
  have lt: "len < 2 ^ 63"
    using len(1) by simp
  have wf: "bsr_wf ?bsr" "bsr_stream mem ?bsr = rest"
    using bsr by (simp_all add: bsr_wf_seek bsr_stream_seek)
  have "?b < 2 ^ len" "(2::nat) ^ len \<le> 2 ^ 62"
    using bits_val_less [of "take len rest"] len by (simp, intro power_increasing) auto
  then have "?b < 2 ^ 62"
    by (rule less_le_trans)
  then have "ur_dict_get murmur None d (of_nat ?b) = Some True"
    using test_rel_get [OF rel(1)] rel(2) by (simp add: domIff)
  moreover have "(of_nat ?b :: u64) = bits_val (take len rest)"
    by (rule of_low_bits_val)
  moreover have "unat (of_nat len :: u64) = len"
    using lt by (simp add: unat_of_nat)
  ultimately show ?thesis
    using ur_bsr64_any_eq [OF wf(1), of mem len] len(1)
    by (simp add: cue_test_back_def ur_bsr_rub_len_ok [OF bsr lt] wf(2) min_def bsr_seek_seek)
qed

lemma cue_test_runs:
  assumes bsr0: "bsr_wf bsr0" "bsr_bits bsr0 = 0" and N: "N = length (bsr_stream mem bsr0)" "N \<le> 2 ^ 62" "cursor_spread murmur N"
  shows "cued (bsr_stream mem bsr0) p m n p' m' \<Longrightarrow> stack_ok s \<Longrightarrow> test_rel murmur N d m \<Longrightarrow>
    \<exists>s' d'. test_run murmur mem (s, bsr_seek bsr0 p, d) = cue_test_loop murmur mem (ur_cue_good, s', bsr_seek bsr0 p', d') \<and>
      test_rel murmur N d' m' \<and> stack_ok s' \<and> stack_f s' = stack_f s"
proof (induction arbitrary: s d rule: cued.induct)
  case (atom p len rest a m)
  have p: "p < N" "bsr_bits (bsr_seek bsr0 p) = p" "ur_bsr_tag mem (bsr_seek bsr0 p) = (Inr ur_jam_atom, bsr_seek bsr0 (p + 1))"
    "bsr_wf (bsr_seek bsr0 (p + 1))" "bsr_stream mem (bsr_seek bsr0 (p + 1)) = rub_bits len @ rest"
    using reader_tag [OF bsr0 _ atom(1), of ur_jam_atom] N(1,2) by simp_all
  obtain d' where d': "ur_dict_put murmur None d (of_nat p) = Some d'" "test_rel murmur N d' (m(p \<mapsto> Atom a))"
    using test_rel_put [OF atom.prems(2) p(1) N(2,3)] by blast
  have "test_run murmur mem (s, bsr_seek bsr0 p, d) =
      cue_test_loop murmur mem (ur_cue_good, s, bsr_seek bsr0 (p + 1 + length (rub_bits len) + len), d')"
    using cue_test_next_tag [OF p(3), of murmur s d] p(2) cue_test_atom_ok [OF p(4,5) atom(2,3) d'(1)]
    by (simp add: bsr_seek_seek add.assoc)
  with d'(2) atom.prems show ?case
    by blast
next
  case (backref p len rest m n)
  have p: "p < N" "bsr_bits (bsr_seek bsr0 p) = p" "ur_bsr_tag mem (bsr_seek bsr0 p) = (Inr ur_jam_back, bsr_seek bsr0 (p + 2))"
    "bsr_wf (bsr_seek bsr0 (p + 2))" "bsr_stream mem (bsr_seek bsr0 (p + 2)) = rub_bits len @ rest"
    using reader_tag [OF bsr0 _ backref(1), of ur_jam_back] N(1,2) by simp_all
  have "test_run murmur mem (s, bsr_seek bsr0 p, d) =
      cue_test_loop murmur mem (ur_cue_good, s, bsr_seek bsr0 (p + 2 + length (rub_bits len) + len), d)"
    using cue_test_next_tag [OF p(3), of murmur s d] p(2) cue_test_back_ok [OF p(4,5) backref(2,3) backref.prems(2) backref(4)]
    by (simp add: bsr_seek_seek add.assoc)
  with backref.prems show ?case
    by blast
next
  case (cell p rest m h p1 m1 t p2 m2)
  have p: "p < N" "bsr_bits (bsr_seek bsr0 p) = p" "ur_bsr_tag mem (bsr_seek bsr0 p) = (Inr ur_jam_cell, bsr_seek bsr0 (p + 2))"
    "bsr_wf (bsr_seek bsr0 (p + 2))" "bsr_stream mem (bsr_seek bsr0 (p + 2)) = rest"
    using reader_tag [OF bsr0 _ cell(1), of ur_jam_cell] N(1,2) by simp_all
  obtain s1 where s1: "cue_push s \<lparr>frame_tal = False, tframe_bits = p\<rparr> = Some s1" "stack_ok s1"
      "stack_f s1 = stack_f s @ [\<lparr>frame_tal = False, tframe_bits = p\<rparr>]"
    using cue_push_ok [OF cell.prems(1)] by blast
  have 1: "test_run murmur mem (s, bsr_seek bsr0 p, d) = test_run murmur mem (s1, bsr_seek bsr0 (p + 2), d)"
    using cue_test_next_tag [OF p(3), of murmur s d] s1(1) p(2) by (simp add: bsr_seek_seek)
  from cell.IH(1) [OF s1(2) cell.prems(2)] obtain s2 d1 where
    2: "test_run murmur mem (s1, bsr_seek bsr0 (p + 2), d) = cue_test_loop murmur mem (ur_cue_good, s2, bsr_seek bsr0 p1, d1)"
    and D1: "test_rel murmur N d1 m1" "stack_ok s2" "stack_f s2 = stack_f s @ [\<lparr>frame_tal = False, tframe_bits = p\<rparr>]"
    using s1(3) by auto
  define s3 where "s3 = s2\<lparr>stack_f := stack_f s @ [\<lparr>frame_tal = True, tframe_bits = p\<rparr>]\<rparr>"
  have 3: "cue_test_loop murmur mem (ur_cue_good, s2, bsr_seek bsr0 p1, d1) = test_run murmur mem (s3, bsr_seek bsr0 p1, d1)"
    using cue_test_loop_head [OF D1(3)] by (simp add: s3_def)
  have "stack_ok s3"
    using D1(2,3) by (auto simp: stack_ok_def s3_def)
  from cell.IH(2) [OF this D1(1)] obtain s4 d2 where
    4: "test_run murmur mem (s3, bsr_seek bsr0 p1, d1) = cue_test_loop murmur mem (ur_cue_good, s4, bsr_seek bsr0 p2, d2)"
    and D2: "test_rel murmur N d2 m2" "stack_ok s4" "stack_f s4 = stack_f s @ [\<lparr>frame_tal = True, tframe_bits = p\<rparr>]"
    by (auto simp: s3_def)
  obtain d3 where d3: "ur_dict_put murmur None d2 (of_nat p) = Some d3" "test_rel murmur N d3 (m2(p \<mapsto> Cell h t))"
    using test_rel_put [OF D2(1) p(1) N(2,3)] by blast
  define s5 where "s5 = s4\<lparr>stack_f := stack_f s\<rparr>"
  have 5: "cue_test_loop murmur mem (ur_cue_good, s4, bsr_seek bsr0 p2, d2) = cue_test_loop murmur mem (ur_cue_good, s5, bsr_seek bsr0 p2, d3)"
    using cue_test_loop_tail [OF D2(3)] d3(1) by (simp add: s5_def)
  have "stack_ok s5" "stack_f s5 = stack_f s"
    using D2(2,3) by (auto simp: s5_def stack_ok_def)
  with d3(2) show ?case
    unfolding 1 2 3 4 5 by blast
qed

lemma ur_cue_test_ok:
  assumes bs: "cued (buffer_bits len byt) 0 Map.empty n p m" and len: "len \<le> 0x7ffffffffffffff"
    and sp: "cursor_spread murmur (8 * len)"
  shows "ur_cue_test murmur len byt = Some True"
proof -
  let ?mug = "ur_nref_mug murmur None"
  have mugs: "mugs_31 ?mug"
    using ur_mug64_ok [of murmur] by (auto simp: mugs_31_def ur_nref_mug_def mug_ok_def split: if_splits)
  have "0 < ur_fib11" "0 < ur_fib12"
    by (simp_all add: ur_fib11_def ur_fib12_def)
  from dict_grow_zero [OF this mugs] obtain d :: ur_dict_t where
    d: "dict_grow ?mug dict_zero ur_fib11 ur_fib12 = Some d" "dict_inv ?mug d" "dict_map d = Map.empty"
    by blast
  let ?s = "\<lparr>stack_prev = ur_fib10, stack_size = ur_fib11, stack_f = []\<rparr> :: cue_test_frame cue_stack"
  have s: "stack_ok ?s"
    by (simp add: stack_ok_def ur_fib10_def ur_fib11_def)
  have rel: "test_rel murmur (8 * len) d Map.empty"
    using d mugs by (simp add: test_rel_def dict_ok_def)
  obtain bsr where bsr: "ur_bsr_init bsr_zero len 0 = (ur_cue_good, bsr)" "bsr_wf bsr" "bsr_bits bsr = 0"
      "bsr_stream byt bsr = buffer_bits len byt" "bsr_seek bsr 0 = bsr"
    using ur_bsr_init_ok [OF len] by metis
  have N: "8 * len = length (bsr_stream byt bsr)" "8 * len \<le> 2 ^ 62"
    using bsr(4) len by simp_all
  from cue_test_runs [OF bsr(2,3) N sp bs [folded bsr(4)] s rel] obtain s' d' where
    run: "test_run murmur byt (?s, bsr, d) = cue_test_loop murmur byt (ur_cue_good, s', bsr_seek bsr p, d')" "stack_f s' = []"
    by (auto simp: bsr(5))
  have "cue_test_loop murmur byt (ur_cue_good, s', bsr_seek bsr p, d') = Some (ur_cue_good, s', bsr_seek bsr p, d')"
    using run(2) by (subst cue_test_loop.simps) simp
  then have "cue_test murmur \<lparr>test_s = ?s, test_dict = d\<rparr> len byt = Some (ur_cue_good, \<lparr>test_s = s', test_dict = d'\<rparr>)"
    using run(1) len by (cases "cue_test_next murmur byt (?s, bsr, d)") (simp_all add: cue_test_def bsr(1))
  then show ?thesis
    using d(1) by (simp add: ur_cue_test_def ur_cue_test_init_def ur_cue_test_init_with_def ur_dict_grow_def)
qed

end
