(* ===== verification/Ur_Serial.thy ===== *)
theory Ur_Serial
  imports Ur_Jam Ur_Cue_Test
begin

text \<open>
  The two halves of \<^verbatim>\<open>pkg/ur/serial.c\<close> together: what \<^verbatim>\<open>ur_jam\<close> writes is in the grammar that \<^verbatim>\<open>ur_cue\<close>
  and \<^verbatim>\<open>ur_cue_test\<close> accept, so that reading back gives the noun that was written.
\<close>

section \<open>The reference definition of jam stays inside the grammar\<close>

lemma bits_val_take_low_bits: "bits_val (take (met0 a) (low_bits (met0 a) a @ rest)) = a"
  by (simp add: bits_val_low_bits_id less_2_met0)

lemma mat_bits_rub: "mat_bits (low_bits (met0 a) a) = rub_bits (met0 a) @ low_bits (met0 a) a"
  by (simp add: mat_bits_def)

lemma length_atom_bits: "length (atom_bits a) = 1 + length (rub_bits (met0 a)) + met0 a"
  and length_back_bits: "length (back_bits a) = 2 + length (rub_bits (met0 a)) + met0 a"
  by (simp_all add: atom_bits_def back_bits_def mat_bits_rub)

lemma cued_atom_bits:
  assumes "st = bs @ atom_bits a @ rest" and "met0 a < 2 ^ 63"
  shows "cued st (length bs) m (Atom a) (length (bs @ atom_bits a)) (m(length bs \<mapsto> Atom a))"
proof -
  have "cued st (length bs) m (Atom a) (length bs + 1 + length (rub_bits (met0 a)) + met0 a) (m(length bs \<mapsto> Atom a))"
  proof (rule cued.atom)
    show "drop (length bs) st = [False] @ rub_bits (met0 a) @ (low_bits (met0 a) a @ rest)"
      by (simp add: assms(1) atom_bits_def mat_bits_rub)
    show "met0 a \<le> 62 \<or> 2 ^ 62 \<le> a"
      using met0_le_iff [of a 62] by linarith
  qed (use assms(2) bits_val_take_low_bits [of a rest] in auto)
  then show ?thesis
    by (simp add: length_atom_bits add.assoc)
qed

lemma cued_back_bits:
  assumes "st = bs @ back_bits b @ rest" and "b < 2 ^ 62" and "m b = Some n"
  shows "cued st (length bs) m n (length (bs @ back_bits b)) m"
proof -
  have "cued st (length bs) m n (length bs + 2 + length (rub_bits (met0 b)) + met0 b) m"
  proof (rule cued.backref)
    show "drop (length bs) st = [True, True] @ rub_bits (met0 b) @ (low_bits (met0 b) b @ rest)"
      by (simp add: assms(1) back_bits_def mat_bits_rub)
    show "m (bits_val (take (met0 b) (low_bits (met0 b) b @ rest))) = Some n"
      using assms(3) by (simp only: bits_val_take_low_bits)
  qed (use assms(2) in \<open>auto simp: met0_le_iff\<close>)
  then show ?thesis
    by (simp add: length_back_bits add.assoc)
qed

lemma jam_noun_keeps: "m x = Some p \<Longrightarrow> fst (jam_noun n (m, bs)) x = Some p"
proof (induction n arbitrary: m bs)
  case (Cell h t)
  show ?case
  proof (cases "m (Cell h t)")
    case None
    obtain m1 bs1 where 1: "jam_noun h (m(Cell h t \<mapsto> length bs), bs @ [True, False]) = (m1, bs1)"
      by fastforce
    have "(m(Cell h t \<mapsto> length bs)) x = Some p"
      using None Cell.prems by auto
    then have "m1 x = Some p"
      using Cell.IH(1) [of "m(Cell h t \<mapsto> length bs)" "bs @ [True, False]"] unfolding 1 by simp
    then show ?thesis
      using Cell.IH(2) [of m1 bs1] None 1 by simp
  qed (use Cell.prems in simp)
qed (auto split: option.splits)

text \<open>
  The positions \<open>m\<close> of jam against the positions \<open>c\<close> of cue, with the cells \<open>P\<close> that jam has
  begun and cue has not ended yet.
\<close>

definition jam_cue_rel :: "noun set \<Rightarrow> (noun \<rightharpoonup> nat) \<Rightarrow> (nat \<rightharpoonup> noun) \<Rightarrow> nat \<Rightarrow> bool" where
  "jam_cue_rel P m c k \<longleftrightarrow> (\<forall>x p. m x = Some p \<longrightarrow> p < k \<and> (x \<notin> P \<longrightarrow> c p = Some x)) \<and> dom c \<subseteq> {..<k}"

lemma jam_cue_relI:
  assumes "jam_cue_rel P m c k" and "k \<le> k'"
  shows "jam_cue_rel P m c k'"
  using assms unfolding jam_cue_rel_def by (meson lessThan_subset_iff less_le_trans order_trans)

lemma jam_cue_rel_new:
  assumes "jam_cue_rel P m c k" and "k < k'" and "m x = None"
  shows "jam_cue_rel P (m(x \<mapsto> k)) (c(k \<mapsto> x)) k'"
  using assms by (fastforce simp: jam_cue_rel_def)

lemma jam_cued:
  assumes "\<And>x. x \<in> P \<Longrightarrow> size n < size x" and "jam_cue_rel P m c (length bs)"
    and "jam_noun n (m, bs) = (m', bs')" and "st = bs' @ rest" and "length bs' < 2 ^ 62"
  shows "\<exists>c'. cued st (length bs) c n (length bs') c' \<and> jam_cue_rel P m' c' (length bs') \<and>
    (\<forall>p < length bs. c' p = c p)"
  using assms
proof (induction n arbitrary: P m c bs m' bs' rest)
  case (Atom a)
  have notP: "Atom a \<notin> P"
    using Atom(1) by blast
  show ?case
  proof (cases "m (Atom a)")
    case None
    then have e: "m' = m(Atom a \<mapsto> length bs)" "bs' = bs @ atom_bits a"
      using Atom(3) by auto
    have "met0 a < 2 ^ 63"
      using Atom(5) by (simp add: e length_atom_bits)
    then have "cued st (length bs) c (Atom a) (length bs') (c(length bs \<mapsto> Atom a))"
      using cued_atom_bits [of st bs a rest c] Atom(4) by (simp add: e)
    moreover have "jam_cue_rel P m' (c(length bs \<mapsto> Atom a)) (length bs')"
      unfolding e by (rule jam_cue_rel_new [OF Atom(2) _ None]) (simp add: length_atom_bits)
    ultimately show ?thesis
      by (metis fun_upd_other less_irrefl)
  next
    case (Some b)
    show ?thesis
    proof (cases "met0 a \<le> met0 b")
      case True
      then have e: "m' = m" "bs' = bs @ atom_bits a"
        using Atom(3) Some by auto
      have "met0 a < 2 ^ 63"
        using Atom(5) by (simp add: e length_atom_bits)
      then have "cued st (length bs) c (Atom a) (length bs') (c(length bs \<mapsto> Atom a))"
        using cued_atom_bits [of st bs a rest c] Atom(4) by (simp add: e)
      moreover have "jam_cue_rel P m' (c(length bs \<mapsto> Atom a)) (length bs')"
        using Atom(2) by (fastforce simp: e length_atom_bits jam_cue_rel_def)
      ultimately show ?thesis
        by (metis fun_upd_other less_irrefl)
    next
      case False
      then have e: "m' = m" "bs' = bs @ back_bits b"
        using Atom(3) Some by auto
      have b: "b < length bs" "c b = Some (Atom a)"
        using Atom(2) Some notP by (auto simp: jam_cue_rel_def)
      then have "cued st (length bs) c (Atom a) (length bs') c"
        using cued_back_bits [of st bs b rest c "Atom a"] Atom(4,5) by (simp add: e)
      then show ?thesis
        using jam_cue_relI [OF Atom(2), of "length bs'"] by (auto simp: e)
    qed
  qed
next
  case (Cell h t)
  have notP: "Cell h t \<notin> P"
    using Cell.prems(1) by blast
  show ?case
  proof (cases "m (Cell h t)")
    case (Some b)
    then have e: "m' = m" "bs' = bs @ back_bits b"
      using Cell.prems(3) by auto
    have b: "b < length bs" "c b = Some (Cell h t)"
      using Cell.prems(2) Some notP by (auto simp: jam_cue_rel_def)
    then have "cued st (length bs) c (Cell h t) (length bs') c"
      using cued_back_bits [of st bs b rest c "Cell h t"] Cell.prems(4,5) by (simp add: e)
    then show ?thesis
      using jam_cue_relI [OF Cell.prems(2), of "length bs'"] by (auto simp: e)
  next
    case None
    define m0 bs0 where "m0 = m(Cell h t \<mapsto> length bs)" and "bs0 = bs @ [True, False]"
    let ?P = "insert (Cell h t) P"
    obtain m1 bs1 where 1: "jam_noun h (m0, bs0) = (m1, bs1)"
      by fastforce
    have 2: "jam_noun t (m1, bs1) = (m', bs')"
      using Cell.prems(3) None 1 by (simp add: m0_def bs0_def)
    obtain cs where cs: "bs' = bs1 @ cs"
      using jam_noun_append [of t m1 bs1] 2 by auto
    obtain ds where ds: "bs1 = bs0 @ ds"
      using jam_noun_append [of h m0 bs0] 1 by auto
    have rel0: "jam_cue_rel ?P m0 c (length bs0)"
      using Cell.prems(2) by (fastforce simp: jam_cue_rel_def m0_def bs0_def)
    have sz: "x \<in> ?P \<Longrightarrow> size h < size x" "x \<in> ?P \<Longrightarrow> size t < size x" for x
      using Cell.prems(1) [of x] by auto
    obtain c1 where c1: "cued st (length bs0) c h (length bs1) c1" "jam_cue_rel ?P m1 c1 (length bs1)"
        "\<forall>p < length bs0. c1 p = c p"
      using Cell.IH(1) [OF sz(1) rel0 1, of "cs @ rest"] Cell.prems(4,5) cs by auto
    obtain c2 where c2: "cued st (length bs1) c1 t (length bs') c2" "jam_cue_rel ?P m' c2 (length bs')"
        "\<forall>p < length bs1. c2 p = c1 p"
      using Cell.IH(2) [OF sz(2) c1(2) 2 Cell.prems(4,5)] by auto
    have "drop (length bs) st = [True, False] @ ds @ cs @ rest"
      using Cell.prems(4) cs ds by (simp add: bs0_def)
    moreover have "length bs0 = length bs + 2" "length bs < length bs0" "length bs0 \<le> length bs1"
      using ds by (simp_all add: bs0_def)
    ultimately have cell: "cued st (length bs) c (Cell h t) (length bs') (c2(length bs \<mapsto> Cell h t))"
      using c1(1) c2(1) by (intro cued.cell) auto
    have keep: "c2 p = c p" if "p < length bs0" for p
      using that c1(3) c2(3) \<open>length bs0 \<le> length bs1\<close> by auto
    have self: "m' (Cell h t) = Some (length bs)"
      using jam_noun_keeps [of m1 "Cell h t" "length bs" t bs1] jam_noun_keeps [of m0 "Cell h t" "length bs" h bs0] 1 2
      by (simp add: m0_def)
    have "c2 (length bs) = None"
      using keep [of "length bs"] Cell.prems(2) \<open>length bs < length bs0\<close> by (auto simp: jam_cue_rel_def)
    then have "jam_cue_rel P m' (c2(length bs \<mapsto> Cell h t)) (length bs')"
      using c2(2) self notP \<open>length bs < length bs0\<close> \<open>length bs0 \<le> length bs1\<close> cs by (fastforce simp: jam_cue_rel_def)
    moreover have "\<forall>p < length bs. (c2(length bs \<mapsto> Cell h t)) p = c p"
      using keep \<open>length bs < length bs0\<close> by simp
    ultimately show ?thesis
      using cell by blast
  qed
qed

lemma jam_bits_cued:
  assumes "length (jam_bits n) < 2 ^ 62"
  shows "\<exists>m. cued (jam_bits n @ rest) 0 Map.empty n (length (jam_bits n)) m"
proof -
  obtain m' where "jam_noun n (Map.empty, []) = (m', jam_bits n)"
    by (metis jam_bits_def prod.collapse)
  moreover have "jam_cue_rel {} Map.empty Map.empty (length ([] :: bool list))"
    by (simp add: jam_cue_rel_def)
  ultimately show ?thesis
    using jam_cued [of "{}" n Map.empty Map.empty "[]" m' "jam_bits n" _ rest] assms by auto
qed

lemma jam_bits_inj: "jam_bits n = jam_bits n' \<Longrightarrow> length (jam_bits n) < 2 ^ 62 \<Longrightarrow> length (jam_bits n') < 2 ^ 62 \<Longrightarrow> n = n'"
  using jam_bits_cued [of n "[]"] jam_bits_cued [of n' "[]"] cued_fun by (metis append_Nil2)

section \<open>Reading back\<close>

text \<open>A buffer that holds the jam of a noun, padded to whole bytes with any bits.\<close>

lemma buffer_cued:
  assumes "jam_out (jam_bits n) (bits, len, byt)" and "length (jam_bits n) < 2 ^ 62"
  shows "\<exists>m. cued (buffer_bits len (lmem byt)) 0 Map.empty n (length (jam_bits n)) m"
proof -
  have o: "bits = length (jam_bits n)" "len = (length (jam_bits n) + 7) div 8" "mbits (lmem byt) 0 bits = jam_bits n"
    using assms(1) by (auto simp: jam_out_def)
  have "length (jam_bits n) \<le> 8 * len"
    unfolding o(2) by linarith
  then have "buffer_bits len (lmem byt) = jam_bits n @ mbits (lmem byt) bits (8 * len - bits)"
    using mbits_append [of "lmem byt" 0 bits "8 * len - bits"] o(1,3) by simp
  then show ?thesis
    using jam_bits_cued [OF assms(2)] by metis
qed

lemma jam_out_len: "jam_out bs (bits, len, byt) \<Longrightarrow> length bs + 8 < 2 ^ 62 \<Longrightarrow> len \<le> 0x7ffffffffffffff"
  by (auto simp: jam_out_def)

lemma jam_cursors: "jam_out bs (bits, len, byt) \<Longrightarrow> len = (length bs + 7) div 8"
  by (simp add: jam_out_def)

text \<open>
  What a caller of jam gets: a buffer whose bits are in the grammar of cue, short enough for it.
\<close>

lemma jam_buffer:
  assumes "root_inv murmur r" and "den r ref n" and "mug_spread murmur (subnouns n)" and "length (jam_bits n) + 8 < 2 ^ 62"
  obtains bits len byt m where "ur_jam murmur r ref = Some (bits, len, byt)" and "len = (length (jam_bits n) + 7) div 8"
    and "cued (buffer_bits len (lmem byt)) 0 Map.empty n (length (jam_bits n)) m" and "len \<le> 0x7ffffffffffffff"
proof -
  obtain bits len byt where out: "ur_jam murmur r ref = Some (bits, len, byt)" "jam_out (jam_bits n) (bits, len, byt)"
    using ur_jam_ok [OF assms(1-3)] assms(4) by fastforce
  obtain m where m: "cued (buffer_bits len (lmem byt)) 0 Map.empty n (length (jam_bits n)) m"
    using buffer_cued [OF out(2)] assms(4) by auto
  then show thesis
    using that [OF out(1) jam_cursors [OF out(2)] m jam_out_len [OF out(2) assms(4)]] by blast
qed

end
