(* ===== verification/Ur_Examples.thy ===== *)
theory Ur_Examples
  imports Ur_Serial
begin

text \<open>
  A small concrete arena, on which the properties are instantiated: it is built by the code's own
  operations from an empty arena, with the concrete hash \<^const>\<open>fnv\<close>, and holds one cell of two
  direct atoms.
\<close>

lemma mug_spread_few: "finite S \<Longrightarrow> card S \<le> 10 \<Longrightarrow> mug_spread murmur S"
  unfolding mug_spread_def ur_pail_max_def
  by (metis (mono_tags, lifting) card_mono le_trans mem_Collect_eq subsetI)

text \<open>The sixteen bit cursors of a buffer of two bytes have different mugs.\<close>

lemma fnv_cursor_mugs: "distinct (map (\<lambda>p. ur_mug64 fnv (of_nat p)) [0..<16])"
  by code_simp

lemma cursor_spread_example: "cursor_spread fnv 16"
proof -
  have "inj_on (\<lambda>p. ur_mug64 fnv (of_nat p)) {..<16}"
    using fnv_cursor_mugs by (simp only: distinct_map set_upt atLeast0LessThan)
  then have "card {p. p < 16 \<and> ur_mug64 fnv (of_nat p) = m} \<le> Suc 0" for m
    by (auto simp: card_le_Suc0_iff_eq inj_on_def)
  then have "card {p. p < 16 \<and> ur_mug64 fnv (of_nat p) = m} \<le> 10" for m
    by (rule le_trans) simp
  then show ?thesis
    by (simp add: cursor_spread_def ur_pail_max_def)
qed

definition example_noun :: noun where
  "example_noun = Cell (Atom 1) (Atom 2)"

lemma example_subnouns: "subnouns example_noun = {example_noun, Atom 1, Atom 2}"
  by (auto simp: example_noun_def)

lemma den_direct: "a < 2 ^ 62 \<Longrightarrow> den r (of_nat a) (Atom a)"
  using den.direct [of "of_nat a" r] by (simp add: direct_iff unat_of_nat)

lemma mug_spread_example: "mug_spread murmur (subnouns example_noun)"
  by (rule mug_spread_few) (auto simp: example_subnouns card_insert_if)

lemma jam_bits_example:
  "jam_bits example_noun = [True, False, False, False, True, True, False, False, False, True, False, False, True]"
  by code_simp

lemma example_length: "length (jam_bits example_noun) = 13"
  by (simp only: jam_bits_example list.size)

lemma example_fits:
  "length (jam_bits example_noun) + 8 < 2 ^ 62"
  "cursor_spread fnv (8 * ((length (jam_bits example_noun) + 7) div 8))"
  using cursor_spread_example by (simp_all add: example_length)

lemma empty_arena:
  obtains r where "ur_root_init murmur = Some r" and "root_inv murmur r" and "arena_nouns r = {}"
  using ur_root_init_ok [of murmur] arena_nouns_empty by blast

lemma example_arena:
  obtains r0 r ref where "ur_root_init murmur = Some r0" and "ur_cons murmur r0 1 2 = Some (ref, r)"
    and "root_inv murmur r" and "den r ref example_noun" and "arena_nouns r \<subseteq> {example_noun}"
proof -
  obtain r0 where r0: "ur_root_init murmur = Some r0" "root_inv murmur r0" "arena_nouns r0 = {}"
    by (rule empty_arena)
  have "\<exists>cel r'. ur_cons murmur r0 1 2 = Some (cel, r') \<and> root_inv murmur r' \<and> arena_le r0 r' \<and>
      den r' cel (Cell (Atom 1) (Atom 2)) \<and> arena_nouns r' \<subseteq> {example_noun}"
    by (rule ur_cons_ok) (use r0 den_direct [of 1 r0] den_direct [of 2 r0] in \<open>auto simp: example_noun_def intro: mug_spread_few\<close>)
  with r0 that show thesis
    unfolding example_noun_def by blast
qed

text \<open>The same arena with the concrete hash, and what the serializers need of it.\<close>

lemma example_ready:
  obtains r ref where "root_inv fnv r" and "den r ref example_noun"
    and "mug_spread fnv (arena_nouns r \<union> subnouns example_noun)"
proof -
  obtain r ref where r: "root_inv fnv r" "den r ref example_noun" "arena_nouns r \<subseteq> {example_noun}"
    by (rule example_arena [of fnv])
  then have "arena_nouns r \<union> subnouns example_noun = subnouns example_noun"
    by auto
  then show thesis
    using that [OF r(1,2)] mug_spread_example by simp
qed

end
