(* ===== verification/Ur_Dict_Properties.thy ===== *)
theory Ur_Dict_Properties
  imports Ur_Dict
begin

text \<open>
  The properties of the dictionaries of \<^verbatim>\<open>pkg/ur/hashcons.c\<close>: they are finite maps, reallocation
  ends and keeps the map, and the limit of the design: an eleventh key with the same mug is never
  stored.
\<close>

section \<open>Dictionaries are maps\<close>

text \<open>
  C30. After \<^verbatim>\<open>put\<close> a lookup finds the new value under its key and what it found before under every
  other key, for any table whose keys, with the new one, share a mug at most ten times; \<^verbatim>\<open>put\<close> returns.
\<close>

theorem dict_get_put:
  fixes d :: "'v::zero ur_dict"
  assumes "dict_ok mug d" and "mug k \<noteq> None" and "spread mug (insert k (dom (dict_map d)))" and "mug k' \<noteq> None"
  shows "\<exists>d'. dict_put mug d k v = Some d' \<and> dict_ok mug d' \<and>
    dict_get mug d' k' = (if k' = k then Some (Some v) else dict_get mug d k')"
proof -
  have fits: "finite (insert k (dom (dict_map d))) \<and> spread mug (insert k (dom (dict_map d)))"
    using assms(3) finite_dict_map by blast
  obtain d' where d': "dict_put mug d k v = Some d'" "dict_ok mug d'"
    using dict.put [OF assms(1,2) fits, of v] by blast
  then show ?thesis
    using dict.get_put [OF assms(1,2) fits d'(1) assms(4)] dict.get [OF assms(1,4)] by auto
qed

text \<open>
  Reallocation returns, for any sizes to start from, and the table it builds has at least the
  size asked for, the same entries, and every entry in the bucket of its mug.
\<close>

theorem dict_grow_returns:
  fixes d :: "'v::zero ur_dict"
  assumes "dict_ok mug d" and "spread mug (dom (dict_map d))" and "0 < prev" and "0 < sz"
  shows "\<exists>d'. dict_grow mug d prev sz = Some d' \<and> dict_ok mug d' \<and> dict_map d' = dict_map d \<and> prev + sz \<le> dict_size d'"
  using dict_grow_entries [of mug d prev sz] dict_inv_entries_ok assms unfolding dict_ok_def by blast

section \<open>Too many equal mugs\<close>

lemma mug_bucket_full:
  assumes inv: "dict_inv mug d" and many: "ur_pail_max \<le> card {k \<in> dom (dict_map d). mug k = Some m}"
  defines "i \<equiv> unat m mod dict_size d"
  shows "dict_fills d ! i = ur_pail_max"
proof -
  have i: "i < dict_size d"
    using dict_inv_simps(2) [OF inv] by (simp add: i_def)
  let ?refs = "take (dict_fills d ! i) (pail_refs (dict_buckets d ! i))"
  have "{k \<in> dom (dict_map d). mug k = Some m} \<subseteq> set ?refs"
    unfolding bucket_keys [OF inv i] by (auto simp: slot_of_def i_def)
  then have "ur_pail_max \<le> card (set ?refs)"
    using many by (meson card_mono finite_set le_trans)
  then show ?thesis
    using card_length [of ?refs] bucket_shape(3) [OF inv i] by simp
qed

text \<open>The search for a key that is not there, in a table whose bucket for its mug is full of that mug.\<close>

definition seek_stuck :: "(ur_nref \<Rightarrow> ur_mug option) \<Rightarrow> (ur_nref \<Rightarrow> bool option) \<Rightarrow> ur_mug \<Rightarrow> 'v ur_dict \<Rightarrow> bool" where
  "seek_stuck mug eq m d \<longleftrightarrow> dict_ok mug d \<and> spread mug (dom (dict_map d)) \<and>
     (\<forall>k \<in> dom (dict_map d). eq k = Some False) \<and> ur_pail_max \<le> card {k \<in> dom (dict_map d). mug k = Some m}"

lemma seek_stuck_step:
  assumes "seek_stuck mug eq m d"
  defines "i \<equiv> unat m mod dict_size d"
  obtains d' where "dict_grow mug d (dict_prev d) (dict_size d) = Some d'" and "seek_stuck mug eq m d'"
    and "dict_fills d ! i = ur_pail_max" and "pail_search eq (take (dict_fills d ! i) (pail_refs (dict_buckets d ! i))) = Some None"
    and "\<not> (dict_size d = 0 \<or> length (dict_buckets d) \<le> i)"
proof -
  have d: "dict_inv mug d" "mugs_31 mug" "spread mug (dom (dict_map d))" "\<forall>k \<in> dom (dict_map d). eq k = Some False"
      "ur_pail_max \<le> card {k \<in> dom (dict_map d). mug k = Some m}"
    using assms(1) by (simp_all add: seek_stuck_def dict_ok_def)
  have i: "i < dict_size d"
    using dict_inv_simps(2) [OF d(1)] by (simp add: i_def)
  have absent: "pail_search eq (take (dict_fills d ! i) (pail_refs (dict_buckets d ! i))) = Some None"
    using bucket_keys [OF d(1) i] d(4) by (intro pail_search_absent) blast
  obtain d' where d': "dict_grow mug d (dict_prev d) (dict_size d) = Some d'" "dict_inv mug d'" "dict_map d' = dict_map d"
    using dict_grow_entries [OF dict_inv_entries_ok [OF d(1)] d(3,2) dict_inv_simps(1,2) [OF d(1)]] by blast
  then have "seek_stuck mug eq m d'"
    using assms(1) by (simp add: seek_stuck_def dict_ok_def)
  then show thesis
    using that [OF d'(1)] mug_bucket_full [OF d(1,5)] absent bucket_shape(6) [OF d(1) i] i by (simp add: i_def)
qed

lemma dict_seek_stuck:
  fixes d :: "'v::zero ur_dict"
  assumes "dict_seek mug eq m d = Some y"
  shows "\<not> seek_stuck mug eq m d"
proof (rule dict_seek.raw_induct [OF _ assms])
  fix seek mug eq m and d :: "'v ur_dict" and y
  assume IH: "\<And>mug eq m (d :: 'v ur_dict) y. seek mug eq m d = Some y \<Longrightarrow> \<not> seek_stuck mug eq m d"
    and body: "(let idx = unat m mod dict_size d
      in if dict_size d = 0 \<or> length (dict_buckets d) \<le> idx then None
         else let bucket = dict_buckets d ! idx; fill = dict_fills d ! idx
              in case pail_search eq (take fill (pail_refs bucket)) of
                   None \<Rightarrow> None
                 | Some None \<Rightarrow>
                     if fill = ur_pail_max
                     then Option.bind (dict_grow mug d (dict_prev d) (dict_size d)) (\<lambda>d. seek mug eq m d)
                     else Some (d, Room idx fill)
                 | Some (Some i) \<Rightarrow> Some (d, Found idx i)) = Some y"
  show "\<not> seek_stuck mug eq m d"
  proof
    assume "seek_stuck mug eq m d"
    then obtain d' where d': "dict_grow mug d (dict_prev d) (dict_size d) = Some d'" "seek_stuck mug eq m d'"
        "dict_fills d ! (unat m mod dict_size d) = ur_pail_max"
        "pail_search eq (take (dict_fills d ! (unat m mod dict_size d)) (pail_refs (dict_buckets d ! (unat m mod dict_size d)))) = Some None"
        "\<not> (dict_size d = 0 \<or> length (dict_buckets d) \<le> unat m mod dict_size d)"
      by (rule seek_stuck_step)
    then have "seek mug eq m d' = Some y"
      using body by (simp add: Let_def)
    then show False
      using IH d'(2) by blast
  qed
qed

text \<open>
  C34. A dictionary that holds ten keys of one mug cannot take another key of that mug: \<^verbatim>\<open>put\<close> grows
  the table again and again and never returns (the ten keys fill their bucket at every size).
\<close>

theorem dict_put_never_returns:
  fixes d :: "'v::zero ur_dict"
  assumes "dict_ok mug d" and "spread mug (dom (dict_map d))" and "mug k = Some m" and "k \<notin> dom (dict_map d)"
    and "card {k' \<in> dom (dict_map d). mug k' = Some m} = ur_pail_max"
  shows "dict_put mug d k v = None"
proof -
  have "seek_stuck mug (\<lambda>x. Some (k = x)) m d"
    using assms by (auto simp: seek_stuck_def)
  then have "dict_seek mug (\<lambda>x. Some (k = x)) m d = None"
    using dict_seek_stuck by (cases "dict_seek mug (\<lambda>x. Some (k = x)) m d") blast+
  then show ?thesis
    by (simp add: dict_put_def assms(3))
qed

section \<open>Witnesses\<close>

text \<open>A table of one bucket that is full of keys of the same mug, and the same table half full.\<close>

definition example_dict :: "nat \<Rightarrow> u64 ur_dict" where
  "example_dict n = \<lparr>dict_prev = 1, dict_size = 1, dict_fills = [n],
     dict_buckets = [\<lparr>pail_refs = [0, 1, 2, 3, 4, 5, 6, 7, 8, 9], pail_vals = [0, 1, 2, 3, 4, 5, 6, 7, 8, 9]\<rparr>]\<rparr>"

lemma example_dict_ok:
  assumes "n \<le> 10"
  shows "dict_ok (\<lambda>_. Some 1) (example_dict n)"
proof -
  have "map fst (pail_entries n (dict_buckets (example_dict 10) ! 0)) = take n [0, 1, 2, 3, 4, 5, 6, 7, 8, 9]"
    using assms by (auto simp: pail_entries_def example_dict_def map_fst_zip_take min_def)
  then have "distinct (map fst (pail_entries n (dict_buckets (example_dict 10) ! 0)))"
    by simp
  then show ?thesis
    using assms by (simp add: dict_ok_def mugs_31_def dict_inv_def table_ok_def example_dict_def ur_pail_max_def slot_of_def)
qed

lemma example_dict_dom:
  "dom (dict_map (example_dict 10)) = {0, 1, 2, 3, 4, 5, 6, 7, 8, 9}"
  "dom (dict_map (example_dict 3)) = {0, 1, 2}"
  by (auto simp: dict_map_def dict_entries_def example_dict_def pail_entries_def)

lemma spread_few: "finite K \<Longrightarrow> card K \<le> 10 \<Longrightarrow> spread mug K"
  unfolding spread_def ur_pail_max_def by (metis (mono_tags, lifting) card_mono le_trans mem_Collect_eq subsetI)

theorem dict_get_put_witness:
  "\<exists>d'. dict_put (\<lambda>_. Some 1) (example_dict 3) 7 77 = Some d' \<and> dict_get (\<lambda>_. Some 1) d' 7 = Some (Some 77)"
proof -
  have "spread (\<lambda>_. Some 1) (insert 7 (dom (dict_map (example_dict 3))))"
    by (rule spread_few) (simp_all add: example_dict_dom)
  then show ?thesis
    using dict_get_put [of "\<lambda>_. Some 1" "example_dict 3" 7 7 77] example_dict_ok [of 3] by auto
qed

theorem dict_grow_returns_witness: "\<exists>d'. dict_grow (\<lambda>_. Some 1) (example_dict 10) 1 1 = Some d' \<and> 2 \<le> dict_size d'"
  using dict_grow_returns [OF example_dict_ok, of 10 1 1] spread_few [of "dom (dict_map (example_dict 10))"]
  by (auto simp: example_dict_dom)

theorem dict_put_never_returns_witness: "dict_put (\<lambda>_. Some 1) (example_dict 10) 10 0 = None"
proof (rule dict_put_never_returns)
  show "dict_ok (\<lambda>_. Some 1) (example_dict 10)"
    by (rule example_dict_ok) simp
  show "spread (\<lambda>_. Some 1) (dom (dict_map (example_dict 10)))"
    by (rule spread_few) (simp_all add: example_dict_dom)
  show "card {k' \<in> dom (dict_map (example_dict 10)). Some 1 = Some 1} = ur_pail_max"
    unfolding simp_thms Collect_mem_eq by (simp add: example_dict_dom ur_pail_max_def)
qed (simp_all add: example_dict_dom)

end
