(* ===== verification/Bitstream_Properties.thy ===== *)
theory Bitstream_Properties
  imports Bitstream_Writer
begin

text \<open>
  The properties of the two bitstreams of \<^verbatim>\<open>pkg/ur/bitstream.c\<close>: each wide read against the
  remaining stream, the byte writer against the written stream, the two together, and the input
  on which the byte skip does not reach the end of the stream.
\<close>

section \<open>Concrete streams for the witnesses\<close>

definition example_mem :: memory where
  "example_mem = lmem [0x35, 0xca, 0x01, 0xff, 0x80, 0x7e, 0x11, 0x92, 0x5d, 0x63, 0x0f]"

text \<open>A reader over eleven bytes, six bits into the first.\<close>

definition example_bsr :: ur_bsr_t where
  "example_bsr = \<lparr>bsr_left = 11, bsr_bits = 6, bsr_off = 6, bsr_bytes = Some 0\<rparr>"

lemma example_bsr_wf: "bsr_wf example_bsr"
  by (simp add: bsr_wf_def example_bsr_def)

definition example_bsw :: ur_bsw_t where
  "example_bsw = ur_bsw_bit (ur_bsw_init bsw_zero 1 1) 1"

lemma example_bsw_wf: "bsw_wf example_bsw" "bsw_pos example_bsw = 1"
proof -
  have "bsw_extends (ur_bsw_init bsw_zero 1 1) [bit (1 :: byte) 0] example_bsw"
    unfolding example_bsw_def by (rule ur_bsw_bit_extends [OF ur_bsw_init_wf(1)]) simp_all
  then show "bsw_wf example_bsw" "bsw_pos example_bsw = 1"
    using length_bsw_stream [of example_bsw] by (simp_all add: bsw_extends_def ur_bsw_init_wf(2) del: length_bsw_stream)
qed

section \<open>Reads\<close>

text \<open>
  A read of up to 64 bits, at any bit offset and also past the end of the buffer, returns the
  number that the next bits of the stream spell, as if the stream went on with zeros; it consumes
  exactly these bits and advances the cursor by the length asked for.
\<close>

theorem bsr64_any_reads:
  assumes "bsr_wf s"
  shows "fst (ur_bsr64_any mem s len) = bits_val (take (min 64 len) (bsr_stream mem s)) \<and>
    bsr_stream mem (snd (ur_bsr64_any mem s len)) = drop (min 64 len) (bsr_stream mem s) \<and>
    bsr_bits (snd (ur_bsr64_any mem s len)) = u64 (bsr_bits s + min 64 len) \<and> bsr_wf (snd (ur_bsr64_any mem s len))"
  by (simp add: ur_bsr64_any_eq [OF assms] bsr_stream_seek bsr_wf_seek assms)

theorem bsr64_any_reads_witness:
  "fst (ur_bsr64_any example_mem example_bsr 20) = bits_val (take 20 (bsr_stream example_mem example_bsr)) \<and>
    bsr_stream example_mem (snd (ur_bsr64_any example_mem example_bsr 20)) = drop 20 (bsr_stream example_mem example_bsr)"
  using bsr64_any_reads [OF example_bsr_wf, of example_mem 20] by simp

text \<open>
  A read of any number of bits into a byte array stores exactly the next bits of the stream,
  zeros past the end of the stream, and zeros in the padding of the last byte, and consumes these
  bits, provided that a request from inside a byte reaches less than 256 bits past the start of the
  last byte.
\<close>

theorem bsr_bytes_any_reads:
  assumes "bsr_wf s" and "bsr_off s = 0 \<or> bsr_near s len"
  defines "out \<equiv> replicate (len div 8 + of_bool (len mod 8 \<noteq> 0)) 0"
  shows "mbit (lmem (fst (ur_bsr_bytes_any mem s len out))) i =
      (i < len \<and> i < length (bsr_stream mem s) \<and> bsr_stream mem s ! i) \<and>
    bsr_stream mem (snd (ur_bsr_bytes_any mem s len out)) = drop len (bsr_stream mem s)"
  using ur_bsr_bytes_any_eq [OF assms(1,2), of out mem] by (auto simp: out_def reads_bytes_def bsr_stream_seek)

theorem bsr_bytes_any_reads_witness:
  "mbit (lmem (fst (ur_bsr_bytes_any example_mem example_bsr 70 (replicate 9 0)))) 64 = bsr_stream example_mem example_bsr ! 64 \<and>
    bsr_stream example_mem (snd (ur_bsr_bytes_any example_mem example_bsr 70 (replicate 9 0))) =
      drop 70 (bsr_stream example_mem example_bsr)"
  using bsr_bytes_any_reads [OF example_bsr_wf, of 70 example_mem 64]
  by (simp add: bsr_near_def example_bsr_def bsr_stream_def)

text \<open>
  Skipping bits leaves the reader in the same state as reading them into a byte array: the
  validator, which skips, and the reader of nouns stay in step.
\<close>

theorem bsr_skip_any_as_bytes:
  assumes "bsr_wf s" and "bsr_near s len"
  shows "ur_bsr_skip_any s len = snd (ur_bsr_bytes_any mem s len (replicate (len div 8 + of_bool (len mod 8 \<noteq> 0)) 0))"
  using ur_bsr_bytes_any_eq [OF assms(1), of len _ mem] assms(2) by (simp add: ur_bsr_skip_any_eq [OF assms])

theorem bsr_skip_any_as_bytes_witness:
  "ur_bsr_skip_any example_bsr 70 = snd (ur_bsr_bytes_any example_mem example_bsr 70 (replicate 9 0))"
  using bsr_skip_any_as_bytes [OF example_bsr_wf, of 70 example_mem] by (simp add: bsr_near_def example_bsr_def)

text \<open>
  The bound of the two previous properties is needed: \<^verbatim>\<open>ur_bsr_skip_any\<close> keeps the difference
  of the request and the whole bytes in eight bits, so a skip of 256 bits over a stream of a single
  byte leaves that byte unread, where a skip of 255 bits consumes it.
\<close>

theorem bsr_skip_any_truncates:
  "\<exists>s. bsr_wf s \<and> length (bsr_stream mem s) = 8 \<and> bsr_stream mem (ur_bsr_skip_any s 255) = [] \<and>
    bsr_stream mem (ur_bsr_skip_any s 256) = bsr_stream mem s"
proof (intro exI conjI)
  let ?s = "\<lparr>bsr_left = 1, bsr_bits = 0, bsr_off = 0, bsr_bytes = Some 0\<rparr>"
  show "bsr_wf ?s"
    by (simp add: bsr_wf_def)
  show "length (bsr_stream mem ?s) = 8"
    by (simp add: bsr_stream_def)
  show "bsr_stream mem (ur_bsr_skip_any ?s 255) = []" "bsr_stream mem (ur_bsr_skip_any ?s 256) = bsr_stream mem ?s"
    by (simp_all add: bsr_stream_def ur_bsr_skip_any_def bsr_ptr_def sub8_def ur_mask_3_def)
qed

text \<open>
  The unary prefix of a length: \<^verbatim>\<open>ur_bsr_log\<close> returns the number of leading zeros of the stream
  when they end at a set bit within 256 bits; otherwise it reports that the stream ran out when at
  most 256 bits were left, and an unrepresentable length when more were.
\<close>

theorem bsr_log_result:
  assumes "bsr_wf s"
  shows "fst (ur_bsr_log mem s) =
    (if zeros (bsr_stream mem s) < length (bsr_stream mem s) \<and> zeros (bsr_stream mem s) \<le> 255
     then Inr (zeros (bsr_stream mem s))
     else if length (bsr_stream mem s) \<le> 256 then Inl ur_cue_gone else Inl ur_cue_meme)"
proof -
  let ?z = "zeros (bsr_stream mem s)" and ?n = "length (bsr_stream mem s)"
  have "?z \<le> ?n"
    unfolding zeros_def by (rule length_takeWhile_le)
  then consider "?z < ?n" "?z \<le> 255" | "?z = ?n" "?n \<le> 256" | "255 < ?z" "256 < ?n"
    by linarith
  then show ?thesis
    using ur_bsr_log_ok [OF assms] ur_bsr_log_gone [OF assms] ur_bsr_log_meme [OF assms] by cases auto
qed

theorem bsr_log_result_witness: "fst (ur_bsr_log example_mem example_bsr) = Inr 3"
proof -
  have "zeros (bsr_stream example_mem example_bsr) = 3"
    by code_simp
  moreover have "length (bsr_stream example_mem example_bsr) = 82"
    by (simp add: example_bsr_def)
  ultimately show ?thesis
    using bsr_log_result [OF example_bsr_wf, of example_mem] by simp
qed

section \<open>Writes\<close>

text \<open>
  The byte writer appends exactly the first \<open>len\<close> bits of its source to the stream, at any bit
  offset, after growing the buffer if it must, and keeps the writer's invariant.
\<close>

theorem bsw_bytes_appends:
  assumes "bsw_wf w"
  shows "bsw_stream (ur_bsw_bytes w len src) = bsw_stream w @ mbits src 0 len \<and> bsw_wf (ur_bsw_bytes w len src)"
  using ur_bsw_bytes_extends [OF assms] by (simp add: bsw_extends_def)

theorem bsw_bytes_appends_witness:
  "bsw_stream (ur_bsw_bytes example_bsw 70 example_mem) = bsw_stream example_bsw @ mbits example_mem 0 70"
  using bsw_bytes_appends [OF example_bsw_wf(1)] by simp

section \<open>Writes and reads together\<close>

text \<open>
  A number of up to 62 bits that is written with its length prefix (\<^verbatim>\<open>ur_bsw_mat64\<close>) at the end
  of any stream is read back from there: the length by \<^verbatim>\<open>ur_bsr_rub_len\<close>, then the number by
  \<^verbatim>\<open>ur_bsr64_any\<close>, after which the reader is where the writer stopped.
\<close>

theorem mat64_round_trip:
  assumes "bsw_wf w" and "len \<le> 62" and "unat val < 2 ^ len" and "bsr_wf s"
    and "bsr_stream mem s = drop (bsw_pos w) (bsw_stream (ur_bsw_mat64 w len val)) @ rest"
  shows "\<exists>s' s''. ur_bsr_rub_len mem s = (Inr (of_nat len), s') \<and> ur_bsr64_any mem s' len = (val, s'') \<and>
    bsr_stream mem s'' = rest"
proof -
  have "bsr_stream mem s = rub_bits len @ low_bits len val @ rest"
    using ur_bsw_mat64_extends [OF assms(1), of len val] assms(2,5) by (simp add: bsw_extends_def mat_bits_def)
  moreover from this have "ur_bsr_rub_len mem s = (Inr (of_nat len), bsr_seek s (length (rub_bits len)))"
    using assms(2,4) by (intro ur_bsr_rub_len_ok) auto
  moreover have "bits_val (low_bits len val) = val"
    using assms(3) by (simp add: low_bits_def horner_sum_bit_eq_take_bit word_unat_eq_iff unsigned_take_bit_eq take_bit_nat_eq_self)
  ultimately show ?thesis
    using assms(2) by (simp add: ur_bsr64_any_eq bsr_wf_seek assms(4) bsr_stream_seek)
qed

text \<open>A reader over the writer's whole buffer, inside its first byte.\<close>

lemma bsr_over_bsw:
  assumes "bsw_wf w" and "k \<le> bsw_pos w" and "k < 8"
  defines "s \<equiv> \<lparr>bsr_left = bsw_size w, bsr_bits = k, bsr_off = k, bsr_bytes = Some 0\<rparr>"
  shows "bsr_wf s" and "\<exists>rest. bsr_stream (lmem (bsw_bytes w)) s = drop k (bsw_stream w) @ rest"
proof -
  have "bsw_pos w \<le> 8 * bsw_size w"
    using assms(1) by (simp add: bsw_wf_def bsw_pos_def)
  then have "mbits (lmem (bsw_bytes w)) k (8 * bsw_size w - k) =
      mbits (lmem (bsw_bytes w)) k (bsw_pos w - k) @ mbits (lmem (bsw_bytes w)) (bsw_pos w) (8 * bsw_size w - bsw_pos w)"
    using mbits_append [of "lmem (bsw_bytes w)" k "bsw_pos w - k" "8 * bsw_size w - bsw_pos w"] assms(2) by simp
  then show "\<exists>rest. bsr_stream (lmem (bsw_bytes w)) s = drop k (bsw_stream w) @ rest"
    by (simp add: s_def bsr_stream_def bsr_ptr_def bsw_stream_def drop_mbits)
  show "bsr_wf s"
    using assms(1,3) by (auto simp: s_def bsr_wf_def bsw_wf_def)
qed

theorem mat64_round_trip_witness:
  "\<exists>mem s s' s''. ur_bsr_rub_len mem s = (Inr 12, s') \<and> ur_bsr64_any mem s' 12 = (0xabc, s'') \<and>
    mem = lmem (bsw_bytes (ur_bsw_mat64 example_bsw 12 0xabc))"
proof -
  let ?w = "ur_bsw_mat64 example_bsw 12 0xabc"
  have w: "bsw_extends example_bsw (mat_bits (low_bits 12 (0xabc :: u64))) ?w"
    using ur_bsw_mat64_extends [OF example_bsw_wf(1), of 12 "0xabc"] by simp
  then have "1 \<le> bsw_pos ?w"
    using example_bsw_wf(2) by (metis bsw_extends_def le_add1 length_append length_bsw_stream)
  then obtain s rest where "bsr_wf s" "bsr_stream (lmem (bsw_bytes ?w)) s = drop (bsw_pos example_bsw) (bsw_stream ?w) @ rest"
    using bsr_over_bsw [of ?w 1] w unfolding example_bsw_wf(2) bsw_extends_def by auto
  then show ?thesis
    using mat64_round_trip [OF example_bsw_wf(1), of 12 "0xabc" s] by fastforce
qed

end
