(* ===== verification/Newt.thy ===== *)
theory Newt
  imports Ur_Prelude
begin

text \<open>
  Message framing between processes, \<^verbatim>\<open>pkg/vere/newt.c\<close>: the decoder of a length-prefixed byte stream
  that arrives in pieces, the queue of complete messages and its synchronous and asynchronous
  delivery, starting and stopping a stream, and the encoder.

  libuv and the callbacks of the owner are outside of this file. What the code asks of them is a list of
  events, oldest first, in the state; the result codes of libuv are arguments. Printing is not modelled.
  The linked list from the exit to the entry of the queue is a list; freed memory is unreachable.
\<close>

unbundle bit_operations_syntax

section \<open>State\<close>

record u3_meat =
  meat_len_d :: nat
  meat_hun_y :: "byte list"

text \<open>The tagged union of the message in progress: header bytes and their number, or the body.\<close>

datatype u3_mess = u3_mess_head "byte list" nat | u3_mess_tail u3_meat nat

text \<open>The bailout functions are named by numbers, and the texts they are given are symbolic.\<close>

type_synonym u3_moor_bail = nat

datatype bail_text = Uv_strerror int | Newt_decode | Empty_text

datatype newt_event =
    Poke nat "byte list"
  | Bail u3_moor_bail int bail_text
  | Read_start bool
  | Read_stop
  | Timer_start
  | Close_pipe
  | Close_timer
  | Write "byte list"

record u3_moat =
  moat_bal_f :: u3_moor_bail
  moat_mes_u :: u3_mess
  moat_ext_u :: "u3_meat list"
  moat_out :: "newt_event list"

record u3_mojo =
  mojo_bal_f :: u3_moor_bail
  mojo_out :: "newt_event list"

definition moat_emit :: "u3_moat \<Rightarrow> newt_event \<Rightarrow> u3_moat" where
  "moat_emit mot e = mot\<lparr>moat_out := moat_out mot @ [e]\<rparr>"

section \<open>Messages in progress and the queue\<close>

text \<open>
  The header bytes share their memory with the body of the last message. They are written before they
  are read, as are the bytes of a new body; null bytes stand for what is there before.
\<close>

definition newt_mess_head :: u3_mess where
  "newt_mess_head = u3_mess_head (replicate 5 0) 0"

definition newt_mess_tail :: "nat \<Rightarrow> u3_mess" where
  "newt_mess_tail len_d = u3_mess_tail \<lparr>meat_len_d = len_d, meat_hun_y = replicate len_d 0\<rparr> 0"

definition newt_meat_plan :: "u3_moat \<Rightarrow> u3_meat \<Rightarrow> u3_moat" where
  "newt_meat_plan mot met = mot\<lparr>moat_ext_u := moat_ext_u mot @ [met]\<rparr>"

definition newt_meat_poke :: "u3_moat \<Rightarrow> u3_meat \<Rightarrow> u3_moat" where
  "newt_meat_poke mot met = moat_emit mot (Poke (meat_len_d met) (meat_hun_y met))"

definition newt_meat_next_sync :: "u3_moat \<Rightarrow> u3_moat" where
  "newt_meat_next_sync mot = (foldl newt_meat_poke mot (moat_ext_u mot))\<lparr>moat_ext_u := []\<rparr>"

definition newt_meat_next :: "u3_moat \<Rightarrow> u3_moat" where
  "newt_meat_next mot =
     (case moat_ext_u mot of
        [] \<Rightarrow> mot
      | met # rest \<Rightarrow>
          let mot = mot\<lparr>moat_ext_u := rest\<rparr>;
              mot = (if rest \<noteq> [] then moat_emit mot Timer_start else mot)
          in newt_meat_poke mot met)"

definition newt_meat_next_cb :: "u3_moat \<Rightarrow> u3_moat" where
  "newt_meat_next_cb mot = newt_meat_next mot"

section \<open>Decoding\<close>

text \<open>\<^verbatim>\<open>memcpy\<close> of the first bytes of the input into an array, from an index on.\<close>

definition copy_at :: "byte list \<Rightarrow> nat \<Rightarrow> byte list \<Rightarrow> byte list" where
  "copy_at arr i src = take i arr @ src @ drop (i + length src) arr"

text \<open>The length in a complete header.\<close>

definition newt_met_d :: "byte list \<Rightarrow> u64" where
  "newt_met_d hed_y =
     push_bit 0 (ucast (hed_y ! 1)) OR push_bit 8 (ucast (hed_y ! 2)) OR push_bit 16 (ucast (hed_y ! 3))
     OR push_bit 24 (ucast (hed_y ! 4))"

text \<open>
  The bytes the message in progress still needs. An iteration of the loop consumes input, or it
  completes a header or a body of which no bytes are missing, after which some are.
\<close>

definition newt_ned :: "u3_mess \<Rightarrow> nat" where
  "newt_ned mes = (case mes of u3_mess_head _ has_y \<Rightarrow> 5 - has_y | u3_mess_tail met has_d \<Rightarrow> meat_len_d met - has_d)"

function u3_newt_decode :: "u3_moat \<Rightarrow> byte list \<Rightarrow> bool \<times> u3_moat" where
  "u3_newt_decode mot buf =
     (if buf = [] then (True, mot)
      else case moat_mes_u mot of
        u3_mess_head hed_y has_y \<Rightarrow>
          let ned_y = 5 - has_y; cop_y = min ned_y (length buf); hed_y = copy_at hed_y has_y (take cop_y buf)
          in if ned_y - cop_y \<noteq> 0
             then u3_newt_decode (mot\<lparr>moat_mes_u := u3_mess_head hed_y (has_y + cop_y)\<rparr>) (drop cop_y buf)
             else let met_d = newt_met_d hed_y
                  in if hed_y ! 0 \<noteq> 0 \<or> met_d = 0 then (False, mot\<lparr>moat_mes_u := u3_mess_head hed_y has_y\<rparr>)
                     else u3_newt_decode (mot\<lparr>moat_mes_u := newt_mess_tail (unat met_d)\<rparr>) (drop cop_y buf)
      | u3_mess_tail met has_d \<Rightarrow>
          let ned_d = meat_len_d met - has_d; cop_d = min ned_d (length buf);
              met = met\<lparr>meat_hun_y := copy_at (meat_hun_y met) has_d (take cop_d buf)\<rparr>
          in if ned_d - cop_d \<noteq> 0
             then u3_newt_decode (mot\<lparr>moat_mes_u := u3_mess_tail met (has_d + cop_d)\<rparr>) (drop cop_d buf)
             else u3_newt_decode ((newt_meat_plan mot met)\<lparr>moat_mes_u := newt_mess_head\<rparr>) (drop cop_d buf))"
  by pat_completeness auto

termination
  by (relation "measure (\<lambda>(mot, buf). 2 * length buf + (if newt_ned (moat_mes_u mot) = 0 then 1 else 0))")
    (auto simp: newt_ned_def newt_mess_tail_def newt_mess_head_def unat_eq_zero min_def split: if_splits)

declare u3_newt_decode.simps [simp del]

section \<open>Reading from the stream\<close>

definition newt_read :: "u3_moat \<Rightarrow> int \<Rightarrow> byte list \<Rightarrow> bool \<times> u3_moat" where
  "newt_read mot len_i base =
     (if len_i < 0 then (False, moat_emit (moat_emit mot Read_stop) (Bail (moat_bal_f mot) len_i (Uv_strerror len_i)))
      else if len_i = 0 then (False, mot)
      else case u3_newt_decode mot (take (nat len_i) base) of
             (False, mot) \<Rightarrow> (False, moat_emit mot (Bail (moat_bal_f mot) (- 1) Newt_decode))
           | (True, mot) \<Rightarrow> (True, mot))"

definition newt_read_sync_cb :: "u3_moat \<Rightarrow> int \<Rightarrow> byte list \<Rightarrow> u3_moat" where
  "newt_read_sync_cb mot len_i base =
     (case newt_read mot len_i base of (ok, mot) \<Rightarrow> if ok then newt_meat_next_sync mot else mot)"

definition newt_read_cb :: "u3_moat \<Rightarrow> int \<Rightarrow> byte list \<Rightarrow> u3_moat" where
  "newt_read_cb mot len_i base = (case newt_read mot len_i base of (ok, mot) \<Rightarrow> if ok then newt_meat_next mot else mot)"

text \<open>\<open>sync\<close> is the callback that is registered, \<open>sas_i\<close> the result of \<^verbatim>\<open>uv_read_start\<close>.\<close>

definition newt_read_init :: "int \<Rightarrow> u3_moat \<Rightarrow> bool \<Rightarrow> u3_moat" where
  "newt_read_init sas_i mot sync =
     (let mot = mot\<lparr>moat_ext_u := [], moat_mes_u := newt_mess_head\<rparr>; mot = moat_emit mot (Read_start sync)
      in if sas_i \<noteq> 0 then moat_emit mot (Bail (moat_bal_f mot) sas_i (Uv_strerror sas_i)) else mot)"

definition u3_newt_read_sync :: "int \<Rightarrow> u3_moat \<Rightarrow> u3_moat" where
  "u3_newt_read_sync sas_i mot = newt_read_init sas_i mot True"

definition u3_newt_read :: "int \<Rightarrow> u3_moat \<Rightarrow> u3_moat" where
  "u3_newt_read sas_i mot = newt_read_init sas_i mot False"

section \<open>Stopping and status\<close>

definition moat_stop_cb :: "u3_moat \<Rightarrow> u3_moat" where
  "moat_stop_cb mot = moat_emit mot (Bail (moat_bal_f mot) (- 1) Empty_text)"

definition u3_newt_moat_stop :: "u3_moat \<Rightarrow> u3_moor_bail option \<Rightarrow> u3_moat" where
  "u3_newt_moat_stop mot bal_f =
     (let mot = (case bal_f of None \<Rightarrow> mot | Some b \<Rightarrow> mot\<lparr>moat_bal_f := b\<rparr>);
          mot = moat_emit (moat_emit mot Close_pipe) Close_timer;
          mot = (case moat_mes_u mot of u3_mess_tail _ _ \<Rightarrow> mot\<lparr>moat_mes_u := newt_mess_head\<rparr> | u3_mess_head _ _ \<Rightarrow> mot)
      in mot\<lparr>moat_ext_u := []\<rparr>)"

text \<open>The number of pending messages that both status functions count, in a 32-bit counter.\<close>

definition u3_newt_moat_info :: "u3_moat \<Rightarrow> nat" where
  "u3_newt_moat_info mot = u32 (length (moat_ext_u mot))"

definition u3_newt_moat_slog :: "u3_moat \<Rightarrow> nat option" where
  "u3_newt_moat_slog mot = (let len_w = u32 (length (moat_ext_u mot)) in if len_w \<noteq> 0 then Some len_w else None)"

section \<open>Writing to the stream\<close>

definition newt_write_cb :: "int \<Rightarrow> u3_mojo \<Rightarrow> int \<Rightarrow> u3_mojo" where
  "newt_write_cb uv_ecanceled moj sas_i =
     (if sas_i \<noteq> 0 \<and> uv_ecanceled \<noteq> sas_i
      then moj\<lparr>mojo_out := mojo_out moj @ [Bail (mojo_bal_f moj) sas_i (Uv_strerror sas_i)]\<rparr> else moj)"

definition mojo_stop_cb :: "u3_mojo \<Rightarrow> u3_mojo" where
  "mojo_stop_cb moj = moj\<lparr>mojo_out := mojo_out moj @ [Bail (mojo_bal_f moj) (- 1) Empty_text]\<rparr>"

definition u3_newt_mojo_stop :: "u3_mojo \<Rightarrow> u3_moor_bail option \<Rightarrow> u3_mojo" where
  "u3_newt_mojo_stop moj bal_f =
     (let moj = (case bal_f of None \<Rightarrow> moj | Some b \<Rightarrow> moj\<lparr>mojo_bal_f := b\<rparr>)
      in moj\<lparr>mojo_out := mojo_out moj @ [Close_pipe]\<rparr>)"

definition newt_hed_y :: "u64 \<Rightarrow> byte list" where
  "newt_hed_y len_d =
     [0, ucast (len_d AND 0xff), ucast (drop_bit 8 len_d AND 0xff), ucast (drop_bit 16 len_d AND 0xff),
      ucast (drop_bit 24 len_d AND 0xff)]"

text \<open>
  \<open>sas_i\<close> is the result of \<^verbatim>\<open>uv_write\<close>; the written bytes are those of its two buffers, whose length \<^verbatim>\<open>uv_buf_init\<close>
  takes as an unsigned int.
\<close>

definition u3_newt_send :: "int \<Rightarrow> u3_mojo \<Rightarrow> u64 \<Rightarrow> byte list \<Rightarrow> u3_mojo" where
  "u3_newt_send sas_i moj len_d byt_y =
     (let hed_y = newt_hed_y len_d
      in if sas_i \<noteq> 0 then moj\<lparr>mojo_out := mojo_out moj @ [Bail (mojo_bal_f moj) sas_i (Uv_strerror sas_i)]\<rparr>
         else moj\<lparr>mojo_out := mojo_out moj @ [Write (hed_y @ take (unat (ucast len_d :: u32)) byt_y)]\<rparr>)"

section \<open>The framing as a grammar\<close>

text \<open>
  What the decoder should compute from all the bytes received so far: the complete messages, and the
  bytes of the incomplete one, or \<open>None\<close> when its header is bad.
\<close>

function newt_parse :: "byte list \<Rightarrow> byte list list \<times> byte list option" where
  "newt_parse bs =
     (if length bs < 5 then ([], Some bs)
      else if bs ! 0 \<noteq> 0 \<or> newt_met_d bs = 0 then ([], None)
      else let n = unat (newt_met_d bs)
           in if length bs < 5 + n then ([], Some bs)
              else case newt_parse (drop (5 + n) bs) of (ms, rest) \<Rightarrow> (take n (drop 5 bs) # ms, rest))"
  by pat_completeness auto

termination
  by (relation "measure length") auto

declare newt_parse.simps [simp del]

definition newt_frame :: "byte list \<Rightarrow> byte list" where
  "newt_frame msg = newt_hed_y (of_nat (length msg)) @ msg"

text \<open>The bytes of the message in progress.\<close>

definition newt_pending :: "u3_mess \<Rightarrow> byte list" where
  "newt_pending mes =
     (case mes of
        u3_mess_head hed_y has_y \<Rightarrow> take has_y hed_y
      | u3_mess_tail met has_d \<Rightarrow> newt_hed_y (of_nat (meat_len_d met)) @ take has_d (meat_hun_y met))"

definition mess_wf :: "u3_mess \<Rightarrow> bool" where
  "mess_wf mes \<longleftrightarrow>
     (case mes of
        u3_mess_head hed_y has_y \<Rightarrow> length hed_y = 5 \<and> has_y < 5
      | u3_mess_tail met has_d \<Rightarrow> length (meat_hun_y met) = meat_len_d met \<and> has_d < meat_len_d met \<and> meat_len_d met < 2 ^ 32)"

definition meat_wf :: "u3_meat \<Rightarrow> bool" where
  "meat_wf met \<longleftrightarrow> meat_len_d met = length (meat_hun_y met)"

definition moat_wf :: "u3_moat \<Rightarrow> bool" where
  "moat_wf mot \<longleftrightarrow> mess_wf (moat_mes_u mot) \<and> (\<forall>met \<in> set (moat_ext_u mot). meat_wf met)"

definition moat_msgs :: "u3_moat \<Rightarrow> byte list list" where
  "moat_msgs mot = map meat_hun_y (moat_ext_u mot)"

subsection \<open>Headers\<close>

lemma and_255: "w AND 0xff = take_bit 8 (w :: 'a::len word)"
proof -
  have "(mask 8 :: 'a word) = 0xff"
    by (simp add: mask_eq_exp_minus_1)
  then show ?thesis
    unfolding take_bit_eq_mask by simp
qed

lemma length_newt_hed_y [simp]: "length (newt_hed_y len_d) = 5"
  by (simp add: newt_hed_y_def)

lemma newt_met_d_cong:
  assumes "5 \<le> length h"
  shows "newt_met_d (h @ xs) = newt_met_d h"
  using assms by (simp add: newt_met_d_def nth_append)

lemma newt_met_d_less: "unat (newt_met_d h) < 2 ^ 32"
proof -
  have "take_bit 32 (newt_met_d h) = newt_met_d h"
    by (rule bit_word_eqI) (auto simp: newt_met_d_def bit_simps)
  then show ?thesis
    by (metis take_bit_nat_less_exp unsigned_take_bit_eq)
qed

lemma newt_met_hed:
  assumes "unat len_d < 2 ^ 32"
  shows "newt_met_d (newt_hed_y len_d) = len_d"
proof (rule bit_word_eqI)
  fix i
  have "\<not> bit len_d i" if "32 \<le> i"
    using bit_unat_bound [OF assms, of i] that by linarith
  then consider "i < 8" | "8 \<le> i" "i < 16" | "16 \<le> i" "i < 24" | "24 \<le> i" "i < 32" | "32 \<le> i" "\<not> bit len_d i"
    by linarith
  then show "bit (newt_met_d (newt_hed_y len_d)) i = bit len_d i"
    by cases (simp_all add: newt_met_d_def newt_hed_y_def and_255 bit_simps less_diff_conv2)
qed

lemma newt_hed_met:
  assumes "length h = 5" and "h ! 0 = 0"
  shows "newt_hed_y (newt_met_d h) = h"
proof -
  obtain a b c d where h: "h = [0, a, b, c, d]"
    using assms by (auto simp: length_Suc_conv numeral_eq_Suc)
  show ?thesis
    unfolding h newt_hed_y_def newt_met_d_def list.inject and_255
    by (intro conjI refl; rule bit_word_eqI) (auto simp: bit_simps)
qed

subsection \<open>The decoder computes the grammar\<close>

lemma newt_parse_pending:
  assumes "mess_wf mes"
  shows "newt_parse (newt_pending mes) = ([], Some (newt_pending mes))"
proof (cases mes)
  case (u3_mess_head hed_y has_y)
  then show ?thesis
    using assms by (subst newt_parse.simps) (simp add: mess_wf_def newt_pending_def)
next
  case (u3_mess_tail met has_d)
  then have w: "length (meat_hun_y met) = meat_len_d met" "has_d < meat_len_d met" "meat_len_d met < 2 ^ 32"
    using assms by (simp_all add: mess_wf_def)
  then have m: "unat (of_nat (meat_len_d met) :: u64) = meat_len_d met"
    by (simp add: unat_of_nat)
  then have "newt_met_d (newt_hed_y (of_nat (meat_len_d met))) = of_nat (meat_len_d met)"
    using w(3) by (intro newt_met_hed) simp
  then have "newt_met_d (newt_pending mes) = of_nat (meat_len_d met)"
    unfolding u3_mess_tail newt_pending_def u3_mess.case by (subst newt_met_d_cong) simp_all
  moreover have "newt_pending mes ! 0 = 0" "length (newt_pending mes) = 5 + has_d"
    using w by (simp_all add: u3_mess_tail newt_pending_def newt_hed_y_def)
  moreover have "of_nat (meat_len_d met) \<noteq> (0 :: u64)"
    using m w(2) by (metis less_zeroE unat_0)
  ultimately show ?thesis
    using m w(2) by (subst newt_parse.simps) (simp add: Let_def)
qed

lemma copy_at_full: "length arr = i + length src \<Longrightarrow> copy_at arr i src = take i arr @ src"
  by (simp add: copy_at_def)

lemma copy_at_part: "i + length src \<le> length arr \<Longrightarrow> take (i + length src) (copy_at arr i src) = take i arr @ src"
  and length_copy_at: "i + length src \<le> length arr \<Longrightarrow> length (copy_at arr i src) = length arr"
  by (simp_all add: copy_at_def)

text \<open>The four ways in which an iteration of the loop goes on, over the pending bytes.\<close>

definition newt_decoded :: "u3_moat \<Rightarrow> byte list \<Rightarrow> bool \<times> u3_moat \<Rightarrow> bool" where
  "newt_decoded mot buf res \<longleftrightarrow>
     (case (newt_parse (newt_pending (moat_mes_u mot) @ buf), res) of
        ((ms, rest), ok, mot') \<Rightarrow>
          (ok \<longleftrightarrow> rest \<noteq> None) \<and> moat_msgs mot' = moat_msgs mot @ ms \<and> (\<forall>met \<in> set (moat_ext_u mot'). meat_wf met) \<and>
          moat_bal_f mot' = moat_bal_f mot \<and> moat_out mot' = moat_out mot \<and>
          (\<forall>p. rest = Some p \<longrightarrow> mess_wf (moat_mes_u mot') \<and> newt_pending (moat_mes_u mot') = p))"

lemma newt_decoded_same:
  assumes "newt_decoded mot' buf' res" and "newt_pending (moat_mes_u mot') @ buf' = newt_pending (moat_mes_u mot) @ buf"
    and "moat_ext_u mot' = moat_ext_u mot" and "moat_bal_f mot' = moat_bal_f mot" and "moat_out mot' = moat_out mot"
  shows "newt_decoded mot buf res"
  using assms by (simp add: newt_decoded_def moat_msgs_def)

lemma newt_decoded_done: "moat_wf mot \<Longrightarrow> newt_decoded mot [] (True, mot)"
  by (simp add: newt_decoded_def newt_parse_pending moat_wf_def)

lemma newt_parse_head:
  assumes "length h = 5" and "h ! 0 \<noteq> 0 \<or> newt_met_d h = 0"
  shows "newt_parse (h @ xs) = ([], None)"
  using assms by (subst newt_parse.simps) (auto simp: newt_met_d_cong nth_append)

lemma newt_parse_frame:
  assumes "0 < length msg" and "length msg < 2 ^ 32"
  shows "newt_parse (newt_frame msg @ xs) = (case newt_parse xs of (ms, rest) \<Rightarrow> (msg # ms, rest))"
proof -
  have m: "unat (of_nat (length msg) :: u64) = length msg"
    using assms by (simp add: unat_of_nat)
  have "newt_met_d (newt_frame msg @ xs) = newt_met_d (newt_hed_y (of_nat (length msg)) @ msg @ xs)"
    by (simp add: newt_frame_def)
  also have "\<dots> = of_nat (length msg)"
    using newt_met_hed [of "of_nat (length msg)"] m assms(2) by (subst newt_met_d_cong) simp_all
  finally have "newt_met_d (newt_frame msg @ xs) = of_nat (length msg)" .
  moreover have "of_nat (length msg) \<noteq> (0 :: u64)"
    using m assms(1) by (metis less_irrefl unat_0)
  moreover have "(newt_frame msg @ xs) ! 0 = 0" "length (newt_frame msg) = 5 + length msg" "drop 5 (newt_frame msg) = msg"
    by (simp_all add: newt_frame_def newt_hed_y_def)
  ultimately show ?thesis
    by (subst newt_parse.simps) (simp add: m)
qed

text \<open>What an iteration of the loop does, by the state and the amount of input.\<close>

lemma decode_head_more:
  assumes "moat_mes_u mot = u3_mess_head hed has" and "has < 5" and "buf \<noteq> []" and "length buf < 5 - has"
  shows "u3_newt_decode mot buf = (True, mot\<lparr>moat_mes_u := u3_mess_head (copy_at hed has buf) (has + length buf)\<rparr>)"
  using assms by (subst u3_newt_decode.simps) (simp add: u3_newt_decode.simps [of _ "[]"] min_def)

lemma decode_head_bad:
  assumes "moat_mes_u mot = u3_mess_head hed has" and "length hed = 5" and "has < 5" and "5 - has \<le> length buf"
  defines "h \<equiv> take has hed @ take (5 - has) buf"
  assumes "h ! 0 \<noteq> 0 \<or> newt_met_d h = 0"
  shows "u3_newt_decode mot buf = (False, mot\<lparr>moat_mes_u := u3_mess_head h has\<rparr>)"
  using assms by (subst u3_newt_decode.simps) (auto simp: copy_at_full h_def Let_def)

lemma decode_head_good:
  assumes "moat_mes_u mot = u3_mess_head hed has" and "length hed = 5" and "has < 5" and "5 - has \<le> length buf"
  defines "h \<equiv> take has hed @ take (5 - has) buf"
  assumes "h ! 0 = 0" and "newt_met_d h \<noteq> 0"
  shows "u3_newt_decode mot buf =
    u3_newt_decode (mot\<lparr>moat_mes_u := newt_mess_tail (unat (newt_met_d h))\<rparr>) (drop (5 - has) buf)"
  using assms by (subst u3_newt_decode.simps) (auto simp: copy_at_full h_def Let_def)

lemma decode_tail_more:
  assumes "moat_mes_u mot = u3_mess_tail met has" and "buf \<noteq> []" and "length buf < meat_len_d met - has"
  shows "u3_newt_decode mot buf =
    (True, mot\<lparr>moat_mes_u := u3_mess_tail (met\<lparr>meat_hun_y := copy_at (meat_hun_y met) has buf\<rparr>) (has + length buf)\<rparr>)"
  using assms by (subst u3_newt_decode.simps) (simp add: u3_newt_decode.simps [of _ "[]"] min_def)

lemma decode_tail_done:
  assumes "moat_mes_u mot = u3_mess_tail met has" and "length (meat_hun_y met) = meat_len_d met" and "has < meat_len_d met"
    and "meat_len_d met - has \<le> length buf"
  shows "u3_newt_decode mot buf =
    u3_newt_decode
      ((newt_meat_plan mot (met\<lparr>meat_hun_y := take has (meat_hun_y met) @ take (meat_len_d met - has) buf\<rparr>))\<lparr>moat_mes_u := newt_mess_head\<rparr>)
      (drop (meat_len_d met - has) buf)"
  using assms by (subst u3_newt_decode.simps) (auto simp: copy_at_full Let_def)

lemma decode_nil: "u3_newt_decode mot [] = (True, mot)"
  by (simp add: u3_newt_decode.simps)

lemma decode_head_ok:
  assumes mes: "moat_mes_u mot = u3_mess_head hed has" "length hed = 5" "has < 5"
    and ext: "\<forall>met \<in> set (moat_ext_u mot). meat_wf met"
    and IH: "\<And>mot' buf'. length buf' < length buf \<Longrightarrow> moat_wf mot' \<Longrightarrow> newt_decoded mot' buf' (u3_newt_decode mot' buf')"
  shows "newt_decoded mot buf (u3_newt_decode mot buf)"
proof -
  have wf: "moat_wf mot"
    using mes ext by (simp add: moat_wf_def mess_wf_def)
  define h where "h = take has hed @ take (5 - has) buf"
  consider "buf = []" | "buf \<noteq> []" "length buf < 5 - has" | "5 - has \<le> length buf" "h ! 0 \<noteq> 0 \<or> newt_met_d h = 0"
    | "5 - has \<le> length buf" "h ! 0 = 0" "newt_met_d h \<noteq> 0"
    by linarith
  then show ?thesis
  proof cases
    case 1
    then show ?thesis
      using wf by (simp add: decode_nil newt_decoded_done)
  next
    case 2
    let ?mot = "mot\<lparr>moat_mes_u := u3_mess_head (copy_at hed has buf) (has + length buf)\<rparr>"
    have "moat_wf ?mot"
      using 2 mes ext by (simp add: moat_wf_def mess_wf_def length_copy_at)
    then show ?thesis
      unfolding decode_head_more [OF mes(1,3) 2] using 2 mes
      by (intro newt_decoded_same [OF newt_decoded_done]) (simp_all add: newt_pending_def copy_at_part)
  next
    case 3
    have "newt_pending (moat_mes_u mot) @ buf = h @ drop (5 - has) buf" "length h = 5"
      using mes 3(1) by (simp_all add: newt_pending_def h_def)
    then have "newt_parse (newt_pending (moat_mes_u mot) @ buf) = ([], None)"
      using newt_parse_head [of h] 3(2) by simp
    then show ?thesis
      using decode_head_bad [OF mes 3(1)] 3(2) ext by (simp add: newt_decoded_def h_def moat_msgs_def)
  next
    case 4
    have h: "newt_pending (moat_mes_u mot) @ buf = h @ drop (5 - has) buf" "length h = 5"
      using mes 4(1) by (simp_all add: newt_pending_def h_def)
    let ?mot = "mot\<lparr>moat_mes_u := newt_mess_tail (unat (newt_met_d h))\<rparr>"
    have "moat_wf ?mot"
      using 4(3) newt_met_d_less [of h] ext by (simp add: moat_wf_def mess_wf_def newt_mess_tail_def unat_gt_0)
    then have "newt_decoded ?mot (drop (5 - has) buf) (u3_newt_decode ?mot (drop (5 - has) buf))"
      using mes(3) 4(1) by (intro IH) auto
    then show ?thesis
      using decode_head_good [OF mes 4(1)] 4(2,3) h newt_hed_met [OF h(2) 4(2)]
      by (auto simp: h_def [symmetric] newt_pending_def newt_mess_tail_def elim!: newt_decoded_same)
  qed
qed

lemma decode_tail_ok:
  assumes mes: "moat_mes_u mot = u3_mess_tail met has" "length (meat_hun_y met) = meat_len_d met" "has < meat_len_d met"
      "meat_len_d met < 2 ^ 32"
    and ext: "\<forall>met \<in> set (moat_ext_u mot). meat_wf met"
    and IH: "\<And>mot' buf'. length buf' < length buf \<Longrightarrow> moat_wf mot' \<Longrightarrow> newt_decoded mot' buf' (u3_newt_decode mot' buf')"
  shows "newt_decoded mot buf (u3_newt_decode mot buf)"
proof -
  have wf: "moat_wf mot"
    using mes ext by (simp add: moat_wf_def mess_wf_def)
  let ?n = "meat_len_d met"
  consider "buf = []" | "buf \<noteq> []" "length buf < ?n - has" | "?n - has \<le> length buf"
    by linarith
  then show ?thesis
  proof cases
    case 1
    then show ?thesis
      using wf by (simp add: decode_nil newt_decoded_done)
  next
    case 2
    let ?mot = "mot\<lparr>moat_mes_u := u3_mess_tail (met\<lparr>meat_hun_y := copy_at (meat_hun_y met) has buf\<rparr>) (has + length buf)\<rparr>"
    have "moat_wf ?mot"
      using 2 mes ext by (simp add: moat_wf_def mess_wf_def length_copy_at)
    then show ?thesis
      unfolding decode_tail_more [OF mes(1) 2] using 2 mes
      by (intro newt_decoded_same [OF newt_decoded_done]) (simp_all add: newt_pending_def copy_at_part)
  next
    case 3
    define msg where "msg = take has (meat_hun_y met) @ take (?n - has) buf"
    let ?mot = "(newt_meat_plan mot (met\<lparr>meat_hun_y := msg\<rparr>))\<lparr>moat_mes_u := newt_mess_head\<rparr>" and ?buf = "drop (?n - has) buf"
    have len: "length msg = ?n"
      using mes 3 by (simp add: msg_def)
    have "moat_wf ?mot"
      using ext len by (auto simp: moat_wf_def mess_wf_def newt_mess_head_def newt_meat_plan_def meat_wf_def)
    then have dec: "newt_decoded ?mot ?buf (u3_newt_decode ?mot ?buf)"
      using mes(3) 3 by (intro IH) auto
    have "newt_pending (moat_mes_u mot) @ buf = newt_frame msg @ ?buf"
      using mes len by (simp add: newt_pending_def newt_frame_def msg_def)
    then have "newt_parse (newt_pending (moat_mes_u mot) @ buf) = (case newt_parse ?buf of (ms, rest) \<Rightarrow> (msg # ms, rest))"
      using newt_parse_frame [of msg ?buf] len mes(3,4) by simp
    then show ?thesis
      using dec unfolding decode_tail_done [OF mes(1-3) 3] msg_def [symmetric] newt_decoded_def
      by (auto simp: newt_pending_def newt_mess_head_def newt_meat_plan_def moat_msgs_def split: prod.splits)
  qed
qed

lemma u3_newt_decode_ok: "moat_wf mot \<Longrightarrow> newt_decoded mot buf (u3_newt_decode mot buf)"
proof (induction buf arbitrary: mot rule: length_induct)
  case (1 buf)
  have ext: "\<forall>met \<in> set (moat_ext_u mot). meat_wf met"
    using 1(2) by (simp add: moat_wf_def)
  show ?case
  proof (cases "moat_mes_u mot")
    case (u3_mess_head hed has)
    then have w: "length hed = 5" "has < 5"
      using 1(2) by (simp_all add: moat_wf_def mess_wf_def)
    show ?thesis
      by (rule decode_head_ok [OF u3_mess_head w ext]) (use 1(1) in blast)
  next
    case (u3_mess_tail met has)
    then have w: "length (meat_hun_y met) = meat_len_d met" "has < meat_len_d met" "meat_len_d met < 2 ^ 32"
      using 1(2) by (simp_all add: moat_wf_def mess_wf_def)
    show ?thesis
      by (rule decode_tail_ok [OF u3_mess_tail w ext]) (use 1(1) in blast)
  qed
qed

lemma u3_newt_decodeE:
  assumes "moat_wf mot" and "u3_newt_decode mot buf = (ok, mot')"
  obtains ms rest where "newt_parse (newt_pending (moat_mes_u mot) @ buf) = (ms, rest)" and "ok \<longleftrightarrow> rest \<noteq> None"
    and "moat_msgs mot' = moat_msgs mot @ ms" and "\<And>p. rest = Some p \<Longrightarrow> moat_wf mot' \<and> newt_pending (moat_mes_u mot') = p"
    and "moat_out mot' = moat_out mot" and "moat_bal_f mot' = moat_bal_f mot" and "\<forall>met \<in> set (moat_ext_u mot'). meat_wf met"
  using u3_newt_decode_ok [OF assms(1), of buf] that unfolding assms(2) newt_decoded_def moat_wf_def
  by (auto split: prod.splits)

subsection \<open>Parsing in pieces\<close>

lemma newt_parse_append:
  "newt_parse (xs @ ys) =
     (case newt_parse xs of
        (ms, None) \<Rightarrow> (ms, None)
      | (ms, Some p) \<Rightarrow> (case newt_parse (p @ ys) of (ms', rest) \<Rightarrow> (ms @ ms', rest)))"
proof (induction xs rule: newt_parse.induct)
  case (1 xs)
  have h: "newt_met_d (xs @ ys) = newt_met_d xs" "(xs @ ys) ! 0 = xs ! 0" if "5 \<le> length xs"
    using newt_met_d_cong [OF that] that by (auto simp: nth_append)
  define n where "n = unat (newt_met_d xs)"
  consider "length xs < 5" | "5 \<le> length xs" "xs ! 0 \<noteq> 0 \<or> newt_met_d xs = 0"
    | "5 \<le> length xs" "xs ! 0 = 0" "newt_met_d xs \<noteq> 0" "length xs < 5 + n"
    | "5 \<le> length xs" "xs ! 0 = 0" "newt_met_d xs \<noteq> 0" "5 + n \<le> length xs"
    by linarith
  then show ?case
  proof cases
    case 1
    then show ?thesis
      by (simp add: newt_parse.simps [of xs])
  next
    case 2
    then show ?thesis
      using h by (auto simp: newt_parse.simps [of xs] newt_parse.simps [of "xs @ ys"])
  next
    case 3
    then show ?thesis
      by (simp add: newt_parse.simps [of xs] n_def)
  next
    case 4
    have "newt_parse (drop (5 + n) xs @ ys) =
        (case newt_parse (drop (5 + n) xs) of
           (ms, None) \<Rightarrow> (ms, None)
         | (ms, Some p) \<Rightarrow> (case newt_parse (p @ ys) of (ms', rest) \<Rightarrow> (ms @ ms', rest)))"
      using 1 4 by (simp add: n_def)
    then show ?thesis
      using 4 h by (simp add: newt_parse.simps [of xs] newt_parse.simps [of "xs @ ys"] n_def split: prod.splits option.splits)
  qed
qed

definition newt_msg_ok :: "byte list \<Rightarrow> bool" where
  "newt_msg_ok msg \<longleftrightarrow> 0 < length msg \<and> length msg < 2 ^ 32"

lemma newt_parse_frames:
  assumes "\<forall>msg \<in> set msgs. newt_msg_ok msg"
  shows "newt_parse (concat (map newt_frame msgs) @ xs) = (case newt_parse xs of (ms, rest) \<Rightarrow> (msgs @ ms, rest))"
  using assms by (induction msgs) (auto simp: newt_parse_frame newt_msg_ok_def split: prod.splits)

lemma newt_parse_Nil: "newt_parse [] = ([], Some [])"
  by (simp add: newt_parse.simps)

section \<open>Delivery\<close>

definition moat_pokes :: "u3_moat \<Rightarrow> newt_event list" where
  "moat_pokes mot = filter (\<lambda>e. case e of Poke _ _ \<Rightarrow> True | _ \<Rightarrow> False) (moat_out mot)"

definition poke_of :: "u3_meat \<Rightarrow> newt_event" where
  "poke_of met = Poke (meat_len_d met) (meat_hun_y met)"

lemma foldl_poke: "foldl newt_meat_poke mot mets = mot\<lparr>moat_out := moat_out mot @ map poke_of mets\<rparr>"
  by (induction mets arbitrary: mot) (simp_all add: newt_meat_poke_def moat_emit_def poke_of_def)

lemma newt_meat_next_sync_eq:
  "newt_meat_next_sync mot = mot\<lparr>moat_out := moat_out mot @ map poke_of (moat_ext_u mot), moat_ext_u := []\<rparr>"
  by (simp add: newt_meat_next_sync_def foldl_poke)

lemma newt_meat_next_step:
  assumes "moat_ext_u mot = met # rest"
  shows "moat_ext_u (newt_meat_next mot) = rest" and "moat_pokes (newt_meat_next mot) = moat_pokes mot @ [poke_of met]"
  using assms by (simp_all add: newt_meat_next_def newt_meat_poke_def moat_emit_def moat_pokes_def poke_of_def Let_def)

lemma newt_meat_next_all:
  "moat_ext_u mot = mets \<Longrightarrow> moat_ext_u ((newt_meat_next ^^ length mets) mot) = [] \<and>
    moat_pokes ((newt_meat_next ^^ length mets) mot) = moat_pokes mot @ map poke_of mets"
proof (induction mets arbitrary: mot)
  case (Cons met mets)
  then show ?case
    using Cons.IH [of "newt_meat_next mot"] newt_meat_next_step [OF Cons.prems] by (simp add: funpow_swap1)
qed simp

lemma map_poke_of: "\<forall>met \<in> set mets. meat_wf met \<Longrightarrow> map poke_of mets = map (\<lambda>msg. Poke (length msg) msg) (map meat_hun_y mets)"
  by (simp add: poke_of_def meat_wf_def)

text \<open>A read of bytes that complete some messages and leave some bytes pending.\<close>

lemma read_sync_delivers:
  assumes "moat_wf mot" and "moat_ext_u mot = []"
    and "newt_parse (newt_pending (moat_mes_u mot) @ buf) = (ms, Some p)"
  defines "mot' \<equiv> newt_read_sync_cb mot (int (length buf)) buf"
  shows "moat_wf mot'" "moat_ext_u mot' = []" "newt_pending (moat_mes_u mot') = p"
    "moat_out mot' = moat_out mot @ map (\<lambda>msg. Poke (length msg) msg) ms"
proof -
  obtain ok m1 where d: "u3_newt_decode mot buf = (ok, m1)"
    by fastforce
  have m1: "ok" "moat_msgs m1 = ms" "moat_wf m1" "newt_pending (moat_mes_u m1) = p" "moat_out m1 = moat_out mot"
    using u3_newt_decodeE [OF assms(1) d] assms(2,3) by (auto simp: moat_msgs_def)
  have "mot' = newt_meat_next_sync m1"
  proof (cases "buf = []")
    case True
    then have "m1 = mot"
      using d by (simp add: decode_nil)
    then show ?thesis
      using True assms(2) by (simp add: mot'_def newt_read_sync_cb_def newt_read_def newt_meat_next_sync_eq)
  next
    case False
    then show ?thesis
      using d m1(1) by (simp add: mot'_def newt_read_sync_cb_def newt_read_def)
  qed
  moreover have "map poke_of (moat_ext_u m1) = map (\<lambda>msg. Poke (length msg) msg) ms"
    using map_poke_of [of "moat_ext_u m1"] m1(2,3) unfolding moat_wf_def moat_msgs_def by metis
  ultimately show "moat_wf mot'" "moat_ext_u mot' = []" "newt_pending (moat_mes_u mot') = p"
      "moat_out mot' = moat_out mot @ map (\<lambda>msg. Poke (length msg) msg) ms"
    using m1(3-5) by (simp_all add: newt_meat_next_sync_eq moat_wf_def)
qed

lemma read_sync_chunks:
  assumes "moat_wf mot" and "moat_ext_u mot = []" and "newt_parse (newt_pending (moat_mes_u mot) @ concat css) = (ms, Some p)"
  defines "mot' \<equiv> foldl (\<lambda>mot cs. newt_read_sync_cb mot (int (length cs)) cs) mot css"
  shows "moat_out mot' = moat_out mot @ map (\<lambda>msg. Poke (length msg) msg) ms \<and> moat_wf mot' \<and>
    newt_pending (moat_mes_u mot') = p"
  using assms(1-3) unfolding mot'_def
proof (induction css arbitrary: mot ms)
  case Nil
  then show ?case
    using newt_parse_pending [of "moat_mes_u mot"] by (simp add: moat_wf_def)
next
  case (Cons cs css)
  obtain ms1 p1 ms2 where s: "newt_parse (newt_pending (moat_mes_u mot) @ cs) = (ms1, Some p1)"
      "newt_parse (p1 @ concat css) = (ms2, Some p)" "ms = ms1 @ ms2"
    using Cons.prems(3) newt_parse_append [of "newt_pending (moat_mes_u mot) @ cs" "concat css"]
    by (auto split: prod.splits option.splits)
  note r = read_sync_delivers [OF Cons.prems(1,2) s(1)]
  show ?case
    using Cons.IH [OF r(1,2)] r(3,4) s(2,3) by simp
qed

section \<open>Properties\<close>

text \<open>
  Decoding does not depend on how the stream is cut into pieces: decoding two pieces one after the
  other queues the same messages, leaves the same bytes pending and gives the same verdict as decoding
  them at once, and a piece with a bad header is final.
\<close>

theorem newt_decode_pieces:
  assumes "moat_wf mot" and "u3_newt_decode mot xs = (ok1, mot1)" and "u3_newt_decode mot1 ys = (ok2, mot2)"
    and "u3_newt_decode mot (xs @ ys) = (ok, mot')"
  shows "ok = (ok1 \<and> ok2) \<and> moat_msgs mot' = moat_msgs (if ok1 then mot2 else mot1) \<and>
    (ok \<longrightarrow> moat_wf mot' \<and> newt_pending (moat_mes_u mot') = newt_pending (moat_mes_u mot2))"
proof -
  obtain ms1 r1 where 1: "newt_parse (newt_pending (moat_mes_u mot) @ xs) = (ms1, r1)" "ok1 \<longleftrightarrow> r1 \<noteq> None"
      "moat_msgs mot1 = moat_msgs mot @ ms1" "\<And>p. r1 = Some p \<Longrightarrow> moat_wf mot1 \<and> newt_pending (moat_mes_u mot1) = p"
    by (rule u3_newt_decodeE [OF assms(1,2)]) blast
  obtain ms r where w: "newt_parse (newt_pending (moat_mes_u mot) @ xs @ ys) = (ms, r)" "ok \<longleftrightarrow> r \<noteq> None"
      "moat_msgs mot' = moat_msgs mot @ ms" "\<And>p. r = Some p \<Longrightarrow> moat_wf mot' \<and> newt_pending (moat_mes_u mot') = p"
    by (rule u3_newt_decodeE [OF assms(1,4)]) blast
  have split: "(ms, r) = (case (ms1, r1) of (ms, None) \<Rightarrow> (ms, None)
      | (ms, Some p) \<Rightarrow> (case newt_parse (p @ ys) of (ms', rest) \<Rightarrow> (ms @ ms', rest)))"
    using newt_parse_append [of "newt_pending (moat_mes_u mot) @ xs" ys] 1(1) w(1) by simp
  show ?thesis
  proof (cases r1)
    case None
    then show ?thesis
      using split 1(2,3) w(2,3) by simp
  next
    case (Some p1)
    then have p1: "moat_wf mot1" "newt_pending (moat_mes_u mot1) = p1"
      using 1(4) by blast+
    obtain ms2 r2 where 2: "newt_parse (p1 @ ys) = (ms2, r2)" "ok2 \<longleftrightarrow> r2 \<noteq> None" "moat_msgs mot2 = moat_msgs mot1 @ ms2"
        "\<And>p. r2 = Some p \<Longrightarrow> moat_wf mot2 \<and> newt_pending (moat_mes_u mot2) = p"
      using u3_newt_decodeE [OF p1(1) assms(3)] p1(2) by metis
    have "ms = ms1 @ ms2" "r = r2"
      using split Some 2(1) by simp_all
    then show ?thesis
      using Some 1(2,3) w(2-4) 2(2-4) by auto
  qed
qed

text \<open>
  C13. What one process sends, the other receives: the frames that \<^verbatim>\<open>u3_newt_send\<close> writes for a sequence of
  messages, cut into pieces in any way, make the synchronous reader deliver exactly these messages, in
  order and with their lengths, and leave it waiting for a header.
\<close>

theorem newt_send_read:
  assumes "\<forall>msg \<in> set msgs. newt_msg_ok msg" and "moat_wf mot" and "moat_ext_u mot = []" and "newt_pending (moat_mes_u mot) = []"
    and "mojo_out (foldl (\<lambda>moj msg. u3_newt_send 0 moj (of_nat (length msg)) msg) moj msgs) = mojo_out moj @ map Write wss"
    and "concat css = concat wss"
  shows "\<exists>mot'. foldl (\<lambda>mot cs. newt_read_sync_cb mot (int (length cs)) cs) mot css = mot' \<and>
    moat_out mot' = moat_out mot @ map (\<lambda>msg. Poke (length msg) msg) msgs \<and> newt_pending (moat_mes_u mot') = []"
proof -
  have "mojo_out (foldl (\<lambda>moj msg. u3_newt_send 0 moj (of_nat (length msg)) msg) moj msgs) =
      mojo_out moj @ map Write (map newt_frame msgs)"
    using assms(1)
  proof (induction msgs arbitrary: moj)
    case (Cons msg msgs)
    have "take (unat (ucast (of_nat (length msg) :: u64) :: u32)) msg = msg"
      using Cons.prems by (simp add: newt_msg_ok_def unat_of_nat unsigned_ucast_eq take_bit_eq_mod)
    then show ?case
      using Cons by (simp add: u3_newt_send_def newt_frame_def)
  qed simp
  then have "wss = map newt_frame msgs"
    using assms(5) by (simp add: inj_map_eq_map inj_def flip: map_map)
  then have "newt_parse (newt_pending (moat_mes_u mot) @ concat css) = (msgs, Some [])"
    using newt_parse_frames [OF assms(1), of "[]"] assms(4,6) by (simp add: newt_parse_Nil)
  from read_sync_chunks [OF assms(2,3) this] show ?thesis
    by blast
qed

text \<open>
  Both ways of delivering a queue of complete messages hand out the same messages in the same order:
  all at once, or one by one, each from the timer that the one before it has started; a timer is
  started exactly when messages remain.
\<close>

theorem newt_delivery_same:
  "moat_pokes ((newt_meat_next ^^ length (moat_ext_u mot)) mot) = moat_pokes (newt_meat_next_sync mot) \<and>
   moat_ext_u ((newt_meat_next ^^ length (moat_ext_u mot)) mot) = moat_ext_u (newt_meat_next_sync mot) \<and>
   (Timer_start \<in> set (drop (length (moat_out mot)) (moat_out (newt_meat_next mot))) \<longleftrightarrow> moat_ext_u (newt_meat_next mot) \<noteq> [])"
proof (intro conjI)
  have "moat_pokes (newt_meat_next_sync mot) = moat_pokes mot @ map poke_of (moat_ext_u mot)"
    by (simp add: moat_pokes_def newt_meat_next_sync_eq poke_of_def filter_map comp_def)
  then show "moat_pokes ((newt_meat_next ^^ length (moat_ext_u mot)) mot) = moat_pokes (newt_meat_next_sync mot)"
    using newt_meat_next_all [OF refl, of mot] by simp
  show "moat_ext_u ((newt_meat_next ^^ length (moat_ext_u mot)) mot) = moat_ext_u (newt_meat_next_sync mot)"
    using newt_meat_next_all [OF refl, of mot] by (simp add: newt_meat_next_sync_eq)
  show "Timer_start \<in> set (drop (length (moat_out mot)) (moat_out (newt_meat_next mot))) \<longleftrightarrow> moat_ext_u (newt_meat_next mot) \<noteq> []"
    by (cases "moat_ext_u mot") (simp_all add: newt_meat_next_def newt_meat_poke_def moat_emit_def Let_def)
qed

text \<open>
  A header with a version tag other than zero, or with length zero, stops the reader, however many
  complete messages precede it in the same read: it bails out with error -1, delivers nothing, and
  the complete messages stay in the queue.
\<close>

theorem newt_read_bad_header:
  assumes "moat_wf mot" and "newt_pending (moat_mes_u mot) = []" and "\<forall>msg \<in> set msgs. newt_msg_ok msg"
    and "length h = 5" and "h ! 0 \<noteq> 0 \<or> newt_met_d h = 0" and buf: "buf = concat (map newt_frame msgs) @ h @ rest"
  shows "\<exists>mot'. newt_read_sync_cb mot (int (length buf)) buf = mot' \<and> newt_read_cb mot (int (length buf)) buf = mot' \<and>
    moat_msgs mot' = moat_msgs mot @ msgs \<and> moat_out mot' = moat_out mot @ [Bail (moat_bal_f mot) (- 1) Newt_decode]"
proof -
  obtain ok m1 where d: "u3_newt_decode mot buf = (ok, m1)"
    by fastforce
  have "newt_parse (newt_pending (moat_mes_u mot) @ buf) = (msgs, None)"
    using newt_parse_frames [OF assms(3), of "h @ rest"] newt_parse_head [OF assms(4,5)] assms(2) by (simp add: buf)
  then have "\<not> ok" "moat_msgs m1 = moat_msgs mot @ msgs" "moat_out m1 = moat_out mot" "moat_bal_f m1 = moat_bal_f mot"
    using u3_newt_decodeE [OF assms(1) d] by auto
  moreover have "length buf \<noteq> 0"
    using assms(4) by (auto simp: buf)
  ultimately show ?thesis
    using d by (simp add: newt_read_sync_cb_def newt_read_cb_def newt_read_def moat_emit_def moat_msgs_def)
qed

text \<open>
  The encoder does not refuse what the decoder cannot take: for a message whose length is a multiple
  of \<open>2^32\<close>, the empty message included, \<^verbatim>\<open>u3_newt_send\<close> writes a header whose length field is zero, and
  the receiver bails out on it.
\<close>

theorem newt_send_length_truncated:
  assumes "unat len_d mod 2 ^ 32 = 0" and "moat_wf mot" and "newt_pending (moat_mes_u mot) = []"
  shows "\<exists>hed body. mojo_out (u3_newt_send 0 moj len_d byt_y) = mojo_out moj @ [Write (hed @ body)] \<and>
    fst (u3_newt_decode mot (hed @ rest)) = False"
proof (intro exI conjI)
  show "mojo_out (u3_newt_send 0 moj len_d byt_y) = mojo_out moj @ [Write (newt_hed_y len_d @ take (unat (ucast len_d :: u32)) byt_y)]"
    by (simp add: u3_newt_send_def)
  have "unat (take_bit 32 len_d) = 0"
    unfolding unsigned_take_bit_eq using assms(1) by (simp only: take_bit_nat_def)
  then have "take_bit 32 len_d = 0"
    by (simp only: unat_eq_zero)
  then have "\<not> bit len_d i" if "i < 32" for i
    using that by (metis bit_0_eq bit_take_bit_iff bot_apply bot_bool_def)
  then have "newt_met_d (newt_hed_y len_d) = 0"
    by (intro bit_word_eqI) (auto simp: newt_met_d_def newt_hed_y_def and_255 bit_simps)
  then have "newt_parse (newt_pending (moat_mes_u mot) @ newt_hed_y len_d @ rest) = ([], None)"
    using newt_parse_head [of "newt_hed_y len_d"] assms(3) by simp
  then show "fst (u3_newt_decode mot (newt_hed_y len_d @ rest)) = False"
    using u3_newt_decodeE [OF assms(2), of "newt_hed_y len_d @ rest"] by (metis option.discI prod.exhaust_sel prod.inject)
qed

subsection \<open>Witnesses\<close>

text \<open>A stream that has just been opened for reading.\<close>

definition example_moat :: u3_moat where
  "example_moat = u3_newt_read_sync 0 \<lparr>moat_bal_f = 7, moat_mes_u = newt_mess_head, moat_ext_u = [], moat_out = []\<rparr>"

lemma example_moat:
  "moat_wf example_moat" "moat_ext_u example_moat = []" "newt_pending (moat_mes_u example_moat) = []"
  "moat_out example_moat = [Read_start True]" "moat_msgs example_moat = []"
  by (simp_all add: example_moat_def u3_newt_read_sync_def newt_read_init_def moat_emit_def moat_wf_def mess_wf_def
      newt_mess_head_def newt_pending_def moat_msgs_def)

theorem newt_decode_pieces_witness:
  "\<exists>ok1 mot1 ok2 mot2 ok mot'. u3_newt_decode example_moat [0, 2, 0] = (ok1, mot1) \<and> u3_newt_decode mot1 [0, 0, 9] = (ok2, mot2) \<and>
    u3_newt_decode example_moat [0, 2, 0, 0, 0, 9] = (ok, mot') \<and> ok = (ok1 \<and> ok2) \<and>
    newt_pending (moat_mes_u mot') = newt_pending (moat_mes_u mot2)"
proof -
  obtain ok1 mot1 where 1: "u3_newt_decode example_moat [0, 2, 0] = (ok1, mot1)"
    by fastforce
  obtain ok2 mot2 where 2: "u3_newt_decode mot1 [0, 0, 9] = (ok2, mot2)"
    by fastforce
  obtain ok mot' where 3: "u3_newt_decode example_moat ([0, 2, 0] @ [0, 0, 9]) = (ok, mot')"
    by fastforce
  have "newt_parse ([0, 2, 0] @ [0, 0, 9]) = ([], Some [0, 2, 0, 0, 0, 9])"
    by code_simp
  then have "ok"
    using u3_newt_decodeE [OF example_moat(1) 3] example_moat(3) by auto
  then show ?thesis
    using newt_decode_pieces [OF example_moat(1) 1 2 3] 1 2 3 by auto
qed

theorem newt_send_read_witness:
  "moat_out (foldl (\<lambda>mot cs. newt_read_sync_cb mot (int (length cs)) cs) example_moat
     [[0, 1], [0, 0, 0, 65, 0, 2, 0, 0], [0, 66, 67]]) = [Read_start True, Poke 1 [65], Poke 2 [66, 67]]"
proof -
  let ?moj = "\<lparr>mojo_bal_f = 0, mojo_out = []\<rparr>"
  have "mojo_out (foldl (\<lambda>moj msg. u3_newt_send 0 moj (of_nat (length msg)) msg) ?moj [[65], [66, 67]]) =
      mojo_out ?moj @ map Write [[0, 1, 0, 0, 0, 65], [0, 2, 0, 0, 0, 66, 67]]"
    by code_simp
  from newt_send_read [OF _ example_moat(1-3) this, of "[[0, 1], [0, 0, 0, 65, 0, 2, 0, 0], [0, 66, 67]]"] show ?thesis
    by (simp add: newt_msg_ok_def example_moat(4))
qed

theorem newt_read_bad_header_witness:
  "moat_out (newt_read_sync_cb example_moat 11 ([0, 1, 0, 0, 0, 65] @ [1, 1, 0, 0, 0])) = [Read_start True, Bail 7 (- 1) Newt_decode]"
proof -
  have f: "concat (map newt_frame [[65]]) = [0, 1, 0, 0, 0, 65]"
    by code_simp
  have b: "moat_bal_f example_moat = 7"
    by code_simp
  show ?thesis
    using newt_read_bad_header [OF example_moat(1,3), of "[[65]]" "[1, 1, 0, 0, 0]" "[0, 1, 0, 0, 0, 65] @ [1, 1, 0, 0, 0]" "[]"]
    unfolding f by (simp add: newt_msg_ok_def example_moat(4) b)
qed

theorem newt_send_length_truncated_witness:
  "\<exists>hed body. mojo_out (u3_newt_send 0 \<lparr>mojo_bal_f = 0, mojo_out = []\<rparr> 0x100000000 (replicate (2 ^ 32) 1)) = [Write (hed @ body)] \<and>
    fst (u3_newt_decode example_moat hed) = False"
  using newt_send_length_truncated [OF _ example_moat(1,3), of "0x100000000" "\<lparr>mojo_bal_f = 0, mojo_out = []\<rparr>" "replicate (2 ^ 32) 1" "[]"]
  by simp

end
