(* ===== verification/Urbit_Time.thy ===== *)
theory Urbit_Time
  imports Ur_Prelude
begin

text \<open>
  Dates, \<^verbatim>\<open>pkg/vere/time.c\<close>: the atoms that stand for points in time, in units of \<open>2 ^ -64\<close> seconds, and
  their conversion from and to Unix time. Words keep their widths. \<open>None\<close> is the exit of the process for a
  date outside of the range of a 32-bit Unix time.
\<close>

unbundle bit_operations_syntax

section \<open>Atoms of double-words\<close>

definition u3i_chubs :: "u64 \<times> u64 \<Rightarrow> nat" where
  "u3i_chubs d = unat (fst d) + unat (snd d) * 2 ^ 64"

definition u3r_chub :: "nat \<Rightarrow> nat \<Rightarrow> u64" where
  "u3r_chub i a = of_nat (a div 2 ^ (64 * i))"

section \<open>Conversions\<close>

definition u3_time_sec_in :: "u32 \<Rightarrow> u64" where
  "u3_time_sec_in unx_w = 0x8000000cce9e0d80 + ucast unx_w"

definition u3_time_sec_out :: "u64 \<Rightarrow> u32 option" where
  "u3_time_sec_out urs_d =
     (let adj_d = urs_d - 0x8000000cce9e0d80 in if adj_d > 0xffffffff then None else Some (ucast adj_d))"

definition u3_time_fsc_in :: "u32 \<Rightarrow> u64" where
  "u3_time_fsc_in usc_w = push_bit 48 ((ucast usc_w * 65536) div 1000000)"

definition u3_time_fsc_out :: "u64 \<Rightarrow> u32" where
  "u3_time_fsc_out ufc_d = ucast ((drop_bit 48 ufc_d * 1000000) div 65536)"

definition u3_time_msc_out :: "u64 \<Rightarrow> u32" where
  "u3_time_msc_out ufc_d = ucast ((drop_bit 48 ufc_d * 1000) div 65536)"

text \<open>A \<^verbatim>\<open>struct timeval\<close> is the pair of its seconds and microseconds, a \<^verbatim>\<open>struct timespec\<close> has nanoseconds.\<close>

definition u3_time_in_tv :: "int \<times> int \<Rightarrow> nat" where
  "u3_time_in_tv tim_tv =
     (let unx_w = of_int (fst tim_tv); usc_w = of_int (snd tim_tv)
      in u3i_chubs (u3_time_fsc_in usc_w, u3_time_sec_in unx_w))"

definition u3_time_out_tv :: "nat \<Rightarrow> (int \<times> int) option" where
  "u3_time_out_tv now =
     (let ufc_d = u3r_chub 0 now; urs_d = u3r_chub 1 now
      in map_option (\<lambda>sec. (uint sec, uint (u3_time_fsc_out ufc_d))) (u3_time_sec_out urs_d))"

definition u3_time_in_ts :: "int \<times> int \<Rightarrow> nat" where
  "u3_time_in_ts tim_ts = u3_time_in_tv (fst tim_ts, snd tim_ts div 1000)"

definition u3_time_t_in_ts :: "int \<Rightarrow> nat" where
  "u3_time_t_in_ts tim = u3_time_in_tv (tim, 0)"

definition u3_time_out_ts :: "nat \<Rightarrow> (int \<times> int) option" where
  "u3_time_out_ts now = map_option (\<lambda>(sec, usc). (sec, usc * 1000)) (u3_time_out_tv now)"

definition u3_time_gap_ms :: "nat \<Rightarrow> nat \<Rightarrow> u64" where
  "u3_time_gap_ms now wen =
     (if \<not> now < wen then 0
      else let dif = wen - now; fsc_d = u3r_chub 0 dif; sec_d = u3r_chub 1 dif
           in sec_d * 1000 + ucast (u3_time_msc_out fsc_d))"

section \<open>Words as numbers\<close>

lemma chubs_parts: "u3r_chub 0 (u3i_chubs (lo, hi)) = lo" "u3r_chub 1 (u3i_chubs (lo, hi)) = hi"
proof -
  have lo: "unat lo < 2 ^ 64" "unat hi < 2 ^ 64"
    using unsigned_less [of lo, where ?'a = nat] unsigned_less [of hi, where ?'a = nat] by simp_all
  then have "(unat lo + unat hi * 2 ^ 64) div 2 ^ 64 = unat hi" "(unat lo + unat hi * 2 ^ 64) mod 2 ^ 64 = unat lo"
    by (simp_all only: div_mult_self3 mod_mult_self1 mod_less div_less) simp_all
  then show "u3r_chub 0 (u3i_chubs (lo, hi)) = lo" "u3r_chub 1 (u3i_chubs (lo, hi)) = hi"
    unfolding word_unat_eq_iff using lo by (simp_all only: u3r_chub_def u3i_chubs_def unat_of_nat fst_conv snd_conv) simp_all
qed

lemma time_sec_out_in: "u3_time_sec_out (u3_time_sec_in unx) = Some unx"
proof -
  have "\<not> (0xffffffff :: u64) < ucast unx"
    using unsigned_less [of unx, where ?'a = nat] by (simp add: word_less_nat_alt unsigned_ucast_eq take_bit_eq_mod)
  then show ?thesis
    by (simp add: u3_time_sec_out_def u3_time_sec_in_def Let_def) (rule bit_word_eqI, simp add: bit_simps)
qed

lemma unat_time_fsc_in:
  assumes "unat usc < 1000000"
  shows "unat (u3_time_fsc_in usc) = (unat usc * 65536 div 1000000) * 2 ^ 48"
proof -
  have u: "unat (ucast usc :: u64) = unat usc"
    using unsigned_less [of usc, where ?'a = nat] by (simp add: unsigned_ucast_eq take_bit_eq_mod)
  have "unat (ucast usc * 65536 :: u64) = unat usc * 65536"
    using assms by (simp add: unat_word_ariths u)
  then have "unat ((ucast usc * 65536 :: u64) div 1000000) = unat usc * 65536 div 1000000"
    by (simp add: unat_div_distrib)
  moreover have "(unat usc * 65536 div 1000000) < 2 ^ 16"
    using assms by (simp add: less_mult_imp_div_less)
  ultimately show ?thesis
    by (simp add: u3_time_fsc_in_def push_bit_eq_mult unat_word_ariths)
qed

lemma time_out_unat:
  fixes ufc :: u64
  assumes "m < 2 ^ 32"
  shows "unat (ucast ((drop_bit 48 ufc * of_nat m) div 65536) :: u32) = (unat ufc div 2 ^ 48) * m div 65536"
proof -
  have d: "unat (drop_bit 48 ufc) = unat ufc div 2 ^ 48" "unat ufc div 2 ^ 48 < 2 ^ 16"
    using unsigned_less [of ufc, where ?'a = nat] by (simp_all add: unat_drop_bit_eq drop_bit_eq_div [where 'a = nat] less_mult_imp_div_less)
  have "unat ufc div 2 ^ 48 * m < 2 ^ 16 * 2 ^ 32"
    using d(2) assms by (intro mult_strict_mono') auto
  then have b: "unat ufc div 2 ^ 48 * m < 2 ^ 48" "unat ufc div 2 ^ 48 * m div 65536 < 2 ^ 32"
    by (simp_all add: less_mult_imp_div_less)
  have "unat (drop_bit 48 ufc * of_nat m) = unat ufc div 2 ^ 48 * m"
    using b(1) assms d by (simp add: unat_word_ariths unat_of_nat)
  then have "unat ((drop_bit 48 ufc * of_nat m) div 65536) = unat ufc div 2 ^ 48 * m div 65536"
    by (simp add: unat_div_distrib)
  then show ?thesis
    using b(2) by (simp add: unsigned_ucast_eq take_bit_eq_mod)
qed

lemma unat_time_fsc_out: "unat (u3_time_fsc_out ufc) = (unat ufc div 2 ^ 48) * 1000000 div 65536"
  using time_out_unat [of 1000000 ufc] by (simp add: u3_time_fsc_out_def)

lemma unat_time_msc_out: "unat (u3_time_msc_out ufc) = (unat ufc div 2 ^ 48) * 1000 div 65536"
  using time_out_unat [of 1000 ufc] by (simp add: u3_time_msc_out_def)

section \<open>Dates of Unix times\<close>

text \<open>The times a \<^verbatim>\<open>struct timeval\<close> holds until 2106.\<close>

definition tv_ok :: "int \<times> int \<Rightarrow> bool" where
  "tv_ok tv \<longleftrightarrow> 0 \<le> fst tv \<and> fst tv < 2 ^ 32 \<and> 0 \<le> snd tv \<and> snd tv < 1000000"

lemma in_tv_eq:
  assumes "tv_ok tv"
  shows "u3_time_in_tv tv = (nat (snd tv) * 65536 div 1000000) * 2 ^ 48 + (0x8000000cce9e0d80 + nat (fst tv)) * 2 ^ 64"
proof -
  have sec: "unat (of_int (fst tv) :: u32) = nat (fst tv)" and usc: "unat (of_int (snd tv) :: u32) = nat (snd tv)"
    using assms by (simp_all add: tv_ok_def unat_eq_nat_uint uint_word_of_int take_bit_int_eq_self flip: take_bit_eq_mod)
  have "unat (of_int (snd tv) :: u32) < 1000000"
    using assms unfolding usc by (simp add: tv_ok_def nat_less_iff)
  note fsc = unat_time_fsc_in [OF this, unfolded usc]
  have "unat (ucast (of_int (fst tv) :: u32) :: u64) = nat (fst tv)"
    using unsigned_less [of "of_int (fst tv) :: u32", where ?'a = nat] by (simp add: unsigned_ucast_eq take_bit_eq_mod sec)
  moreover have "nat (fst tv) < 2 ^ 32"
    using assms by (simp add: tv_ok_def nat_less_iff)
  ultimately have "unat (u3_time_sec_in (of_int (fst tv))) = 0x8000000cce9e0d80 + nat (fst tv)"
    by (simp add: u3_time_sec_in_def unat_word_ariths)
  then show ?thesis
    by (simp add: u3_time_in_tv_def u3i_chubs_def fsc)
qed

lemma fsc_bounds:
  fixes u :: nat
  shows "(u * 65536 div 1000000) * 1000000 div 65536 \<le> u" "u \<le> (u * 65536 div 1000000) * 1000000 div 65536 + 16"
proof -
  define k m where "k = u * 65536 div 1000000" and "m = k * 1000000 div 65536"
  have k: "k * 1000000 \<le> u * 65536" "u * 65536 < k * 1000000 + 1000000"
    unfolding k_def by (rule div_times_less_eq_dividend, use dividend_less_div_times [of 1000000 "u * 65536"] in simp)
  have m: "k * 1000000 < m * 65536 + 65536"
    unfolding m_def using dividend_less_div_times [of 65536 "k * 1000000"] by simp
  have "m \<le> u"
    using div_le_mono [OF k(1), of 65536] by (simp add: m_def)
  moreover have "u \<le> m + 16"
    using k(2) m by linarith
  ultimately show "(u * 65536 div 1000000) * 1000000 div 65536 \<le> u" "u \<le> (u * 65536 div 1000000) * 1000000 div 65536 + 16"
    unfolding m_def k_def .
qed

lemma gap_ms_eq:
  assumes "2 ^ 48 dvd d" and "d < 2 ^ 64 * 2 ^ 54" and "d = wen - now"
  shows "unat (u3_time_gap_ms now wen) = d * 1000 div 2 ^ 64"
proof (cases "now < wen")
  case True
  define q r where "q = d div 2 ^ 64" and "r = d mod 2 ^ 64"
  have d: "d = q * 2 ^ 64 + r" "r < 2 ^ 64" "q < 2 ^ 54"
    using assms(2) by (simp_all add: q_def r_def less_mult_imp_div_less)
  have "(2 :: nat) ^ 48 dvd 2 ^ 64"
    by (rule le_imp_power_dvd) simp
  then obtain k where k: "r = k * 2 ^ 48"
    using assms(1) by (metis dvd_mod dvd_def mult.commute r_def)
  then have k16: "k < 65536"
    using d(2) by simp
  have chubs: "unat (u3r_chub 0 d) = r" "unat (u3r_chub 1 d) = q"
    using d(3) by (simp_all add: u3r_chub_def unat_of_nat q_def r_def)
  have "unat (u3_time_msc_out (u3r_chub 0 d)) = k * 1000 div 65536" "k * 1000 div 65536 < 1000"
    using k16 by (simp_all add: unat_time_msc_out chubs k less_mult_imp_div_less)
  then have "unat (u3_time_gap_ms now wen) = q * 1000 + k * 1000 div 65536"
    using True d(3) chubs(2)
    by (simp add: u3_time_gap_ms_def unat_word_ariths unsigned_ucast_eq take_bit_eq_mod Let_def flip: assms(3))
  moreover have "d * 1000 = k * 1000 * 2 ^ 48 + q * 1000 * 2 ^ 64"
    unfolding d(1) k by simp
  then have "d * 1000 div 2 ^ 64 = q * 1000 + k * 1000 * 2 ^ 48 div 2 ^ 64"
    by (simp only: div_mult_self1 power_not_zero zero_neq_numeral [symmetric] not_False_eq_True)
  moreover have "k * 1000 * 2 ^ 48 div 2 ^ 64 = k * 1000 div 65536"
    using div_mult_mult2 [of "2 ^ 48 :: nat" "k * 1000" 65536] by simp
  ultimately show ?thesis
    by simp
qed (use assms(3) in \<open>simp add: u3_time_gap_ms_def\<close>)

section \<open>Properties\<close>

text \<open>
  Unix times until 2106 survive the conversion to a date and back: the seconds are exact, and the
  microseconds lose at most 16, since a date keeps 16 bits of the fraction.
\<close>

theorem time_tv_round_trip:
  assumes "tv_ok (sec, usc)"
  shows "\<exists>usc'. u3_time_out_tv (u3_time_in_tv (sec, usc)) = Some (sec, usc') \<and> usc' \<le> usc \<and> usc \<le> usc' + 16"
proof -
  have sec: "uint (of_int sec :: u32) = sec" "unat (of_int usc :: u32) = nat usc" "nat usc < 1000000"
    using assms by (simp_all add: tv_ok_def unat_eq_nat_uint uint_word_of_int take_bit_int_eq_self nat_less_iff flip: take_bit_eq_mod)
  let ?usc = "u3_time_fsc_out (u3_time_fsc_in (of_int usc))"
  have "unat ?usc = (nat usc * 65536 div 1000000) * 1000000 div 65536"
    using unat_time_fsc_in [of "of_int usc"] sec(2,3) by (simp add: unat_time_fsc_out)
  then have "unat ?usc \<le> nat usc" "nat usc \<le> unat ?usc + 16"
    using fsc_bounds [of "nat usc"] by simp_all
  moreover have "uint ?usc = int (unat ?usc)" "usc = int (nat usc)"
    using assms by (simp_all add: tv_ok_def)
  ultimately have "uint ?usc \<le> usc" "usc \<le> uint ?usc + 16"
    by linarith+
  then show ?thesis
    by (simp add: u3_time_in_tv_def u3_time_out_tv_def chubs_parts(1) chubs_parts(2) [unfolded One_nat_def] time_sec_out_in sec(1) del: uint_word_of_int_eq)
qed

text \<open>
  The gap between the dates of two Unix times until 2106 is the difference in milliseconds, rounded down,
  and zero when the second is not later than the first.
\<close>

theorem time_gap_ms_exact:
  assumes "tv_ok now" and "tv_ok wen"
  shows "unat (u3_time_gap_ms (u3_time_in_tv now) (u3_time_in_tv wen)) = (u3_time_in_tv wen - u3_time_in_tv now) * 1000 div 2 ^ 64"
proof (rule gap_ms_eq [OF _ _ refl])
  have dvd: "2 ^ 48 dvd u3_time_in_tv tv" if "tv_ok tv" for tv
    unfolding in_tv_eq [OF that] by (intro dvd_add dvd_mult le_imp_power_dvd) simp_all
  show "2 ^ 48 dvd u3_time_in_tv wen - u3_time_in_tv now"
    using dvd assms by (intro dvd_diff_nat)
  have "nat (snd wen) * 65536 div 1000000 < 65536" "nat (fst wen) < 2 ^ 32"
    using assms(2) by (simp_all add: tv_ok_def nat_less_iff less_mult_imp_div_less)
  then have "u3_time_in_tv wen < 65536 * 2 ^ 48 + (0x8000000cce9e0d80 + 2 ^ 32) * 2 ^ 64"
    unfolding in_tv_eq [OF assms(2)] by (intro add_strict_mono mult_strict_right_mono add_strict_left_mono) simp_all
  moreover have "0x8000000cce9e0d80 * 2 ^ 64 \<le> u3_time_in_tv now"
    unfolding in_tv_eq [OF assms(1)] by simp
  ultimately show "u3_time_in_tv wen - u3_time_in_tv now < 2 ^ 64 * 2 ^ 54"
    by simp
qed

section \<open>Witnesses\<close>

theorem time_tv_round_trip_witness:
  "\<exists>usc'. u3_time_out_tv (u3_time_in_tv (1700000000, 123456)) = Some (1700000000, usc') \<and> usc' \<le> 123456 \<and> 123456 \<le> usc' + 16"
  by (rule time_tv_round_trip) (simp add: tv_ok_def)

theorem time_gap_ms_exact_witness: "unat (u3_time_gap_ms (u3_time_in_tv (10, 0)) (u3_time_in_tv (12, 500000))) = 2500"
proof -
  have ok: "tv_ok (10, 0)" "tv_ok (12, 500000)"
    by (simp_all add: tv_ok_def)
  show ?thesis
    unfolding time_gap_ms_exact [OF ok] by (simp add: in_tv_eq ok)
qed

end
