(* ===== verification/Auto.thy ===== *)
theory Auto
  imports Ur_Arena "HOL-Library.Monad_Syntax"
begin

text \<open>
  The event queues of the i/o drivers, \<^verbatim>\<open>pkg/vere/auto.c\<close>, and the events in them,
  \<^verbatim>\<open>pkg/vere/ward.c\<close>. Events and drivers are objects of an explicit heap, since the queues are doubly
  linked through the events and every operation works by changing links: a pointer is an address or
  \<open>None\<close> for null, and \<open>None\<close> as the result of an operation is a failed assertion or an access to an
  object that was freed. Callbacks are opaque values; calling one is an entry of the log of calls.
\<close>

section \<open>State\<close>

type_synonym addr = nat
type_synonym callback = nat

record u3_ovum =
  egg_try_w :: u32
  egg_mil_w :: u32
  egg_tar :: noun
  egg_wir :: noun
  egg_cad :: noun
  egg_lab :: noun
  egg_del_o :: bool
  egg_ptr_v :: "addr option"
  egg_news_f :: "callback option"
  egg_bail_f :: "callback option"
  egg_pre_u :: "addr option"
  egg_nex_u :: "addr option"
  egg_car_u :: "addr option"

record u3_auto =
  car_nam_m :: nat
  car_liv_o :: bool
  car_dep_w :: u32
  car_ent_u :: "addr option"
  car_ext_u :: "addr option"
  car_nex_u :: "addr option"
  car_talk_f :: "callback option"
  car_info_f :: "callback option"
  car_slog_f :: "callback option"
  car_kick_f :: "callback option"
  car_exit_f :: "callback option"

datatype u3_ovum_news = u3_ovum_drop | u3_ovum_work | u3_ovum_done

datatype auto_call =
    Spin
  | News callback addr u3_ovum_news
  | Bail callback addr noun
  | Punt_goof nat u32 noun
  | Punt_ovum nat noun noun
  | Kick_lost noun noun
  | Talk "callback option" addr
  | Exit "callback option" addr
  | Slog nat bool u32
  | Slog_more callback addr

record auto_heap =
  eggs :: "addr \<rightharpoonup> u3_ovum"
  cars :: "addr \<rightharpoonup> u3_auto"
  calls :: "auto_call list"

definition egg_upd :: "addr \<Rightarrow> (u3_ovum \<Rightarrow> u3_ovum) \<Rightarrow> auto_heap \<Rightarrow> auto_heap option" where
  "egg_upd a f h = map_option (\<lambda>e. h\<lparr>eggs := (eggs h)(a \<mapsto> f e)\<rparr>) (eggs h a)"

definition car_upd :: "addr \<Rightarrow> (u3_auto \<Rightarrow> u3_auto) \<Rightarrow> auto_heap \<Rightarrow> auto_heap option" where
  "car_upd a f h = map_option (\<lambda>c. h\<lparr>cars := (cars h)(a \<mapsto> f c)\<rparr>) (cars h a)"

definition auto_log :: "auto_call \<Rightarrow> auto_heap \<Rightarrow> auto_heap" where
  "auto_log c h = h\<lparr>calls := calls h @ [c]\<rparr>"

section \<open>Events\<close>

text \<open>The address is the one the allocator returns; \<open>u3h\<close> of an atom bails.\<close>

definition u3_ovum_init :: "addr \<Rightarrow> u32 \<Rightarrow> noun \<Rightarrow> noun \<Rightarrow> noun \<Rightarrow> auto_heap \<Rightarrow> auto_heap option" where
  "u3_ovum_init a mil_w tar wir cad h =
     (case wir of Atom _ \<Rightarrow> None
      | Cell lab _ \<Rightarrow> Some (h\<lparr>eggs := (eggs h)(a \<mapsto>
          \<lparr>egg_try_w = 0, egg_mil_w = mil_w, egg_tar = tar, egg_wir = wir, egg_cad = cad, egg_lab = lab, egg_del_o = True,
           egg_ptr_v = None, egg_news_f = None, egg_bail_f = None, egg_pre_u = None, egg_nex_u = None, egg_car_u = None\<rparr>)\<rparr>))"

definition u3_ovum_free :: "addr \<Rightarrow> auto_heap \<Rightarrow> auto_heap option" where
  "u3_ovum_free a h = (if eggs h a = None then None else Some (h\<lparr>eggs := (eggs h)(a := None)\<rparr>))"

section \<open>Queues\<close>

definition u3_auto_plan :: "addr \<Rightarrow> addr \<Rightarrow> auto_heap \<Rightarrow> auto_heap option" where
  "u3_auto_plan car_u egg_u h = do {
     h \<leftarrow> egg_upd egg_u (\<lambda>e. e\<lparr>egg_car_u := Some car_u\<rparr>) h;
     c \<leftarrow> cars h car_u;
     h \<leftarrow> (case car_ent_u c of
         None \<Rightarrow>
           if car_ext_u c \<noteq> None then None
           else do {
             h \<leftarrow> egg_upd egg_u (\<lambda>e. e\<lparr>egg_pre_u := None, egg_nex_u := None\<rparr>) h;
             car_upd car_u (\<lambda>c. c\<lparr>car_ent_u := Some egg_u, car_ext_u := Some egg_u, car_dep_w := 1\<rparr>) h
           }
       | Some ent_u \<Rightarrow> do {
             h \<leftarrow> egg_upd egg_u (\<lambda>e. e\<lparr>egg_nex_u := None, egg_pre_u := Some ent_u\<rparr>) h;
             h \<leftarrow> egg_upd ent_u (\<lambda>e. e\<lparr>egg_nex_u := Some egg_u\<rparr>) h;
             car_upd car_u (\<lambda>c. c\<lparr>car_ent_u := Some egg_u, car_dep_w := car_dep_w c + 1\<rparr>) h
           });
     Some (auto_log Spin h)
   }"

definition u3_auto_redo :: "addr \<Rightarrow> addr \<Rightarrow> auto_heap \<Rightarrow> auto_heap option" where
  "u3_auto_redo car_u egg_u h = do {
     e \<leftarrow> eggs h egg_u;
     if egg_car_u e \<noteq> Some car_u then None
     else do {
       h \<leftarrow> egg_upd egg_u (\<lambda>e. e\<lparr>egg_try_w := egg_try_w e + 1\<rparr>) h;
       c \<leftarrow> cars h car_u;
       h \<leftarrow> (case car_ent_u c of
           None \<Rightarrow>
             if car_ext_u c \<noteq> None then None
             else do {
               h \<leftarrow> egg_upd egg_u (\<lambda>e. e\<lparr>egg_pre_u := None, egg_nex_u := None\<rparr>) h;
               car_upd car_u (\<lambda>c. c\<lparr>car_ent_u := Some egg_u, car_ext_u := Some egg_u, car_dep_w := 1\<rparr>) h
             }
         | Some _ \<Rightarrow> do {
               h \<leftarrow> egg_upd egg_u (\<lambda>e. e\<lparr>egg_nex_u := car_ext_u c, egg_pre_u := None\<rparr>) h;
               ext_u \<leftarrow> car_ext_u c;
               h \<leftarrow> egg_upd ext_u (\<lambda>e. e\<lparr>egg_pre_u := Some egg_u\<rparr>) h;
               car_upd car_u (\<lambda>c. c\<lparr>car_ext_u := Some egg_u, car_dep_w := car_dep_w c + 1\<rparr>) h
             });
       Some (auto_log Spin h)
     }
   }"

definition u3_auto_peer :: "addr \<Rightarrow> addr option \<Rightarrow> callback option \<Rightarrow> callback option \<Rightarrow> auto_heap \<Rightarrow> auto_heap option" where
  "u3_auto_peer egg_u ptr_v news_f bail_f h =
     egg_upd egg_u (\<lambda>e. e\<lparr>egg_ptr_v := ptr_v, egg_news_f := news_f, egg_bail_f := bail_f\<rparr>) h"

text \<open>The goofs of a list, numbered from one; an improper list bails.\<close>

fun bail_slog_goofs :: "nat \<Rightarrow> u32 \<Rightarrow> noun \<Rightarrow> auto_call list option" where
  "bail_slog_goofs nam_m len_w (Atom a) = (if a = 0 then Some [] else None)"
| "bail_slog_goofs nam_m len_w (Cell gof dul) = map_option ((#) (Punt_goof nam_m len_w gof)) (bail_slog_goofs nam_m (len_w + 1) dul)"

definition u3_auto_bail_slog :: "addr \<Rightarrow> noun \<Rightarrow> auto_heap \<Rightarrow> auto_heap option" where
  "u3_auto_bail_slog egg_u lud h = do {
     e \<leftarrow> eggs h egg_u;
     c \<leftarrow> Option.bind (egg_car_u e) (cars h);
     lines \<leftarrow> bail_slog_goofs (car_nam_m c) 1 lud;
     case egg_cad e of
       Atom _ \<Rightarrow> None
     | Cell tag _ \<Rightarrow> Some (h\<lparr>calls := calls h @ lines @ [Punt_ovum (car_nam_m c) (egg_wir e) tag]\<rparr>)
   }"

definition u3_auto_bail :: "addr \<Rightarrow> noun \<Rightarrow> auto_heap \<Rightarrow> auto_heap option" where
  "u3_auto_bail egg_u lud h = do {
     e \<leftarrow> eggs h egg_u;
     case egg_bail_f e of
       Some bail_f \<Rightarrow> Some (auto_log (Bail bail_f egg_u lud) h)
     | None \<Rightarrow> do {
         h \<leftarrow> u3_auto_bail_slog egg_u lud h;
         u3_ovum_free egg_u h
       }
   }"

definition auto_news :: "addr \<Rightarrow> u3_ovum_news \<Rightarrow> auto_heap \<Rightarrow> auto_heap option" where
  "auto_news egg_u new_e h = do {
     e \<leftarrow> eggs h egg_u;
     Some (case egg_news_f e of Some news_f \<Rightarrow> auto_log (News news_f egg_u new_e) h | None \<Rightarrow> h)
   }"

definition u3_auto_done :: "addr \<Rightarrow> auto_heap \<Rightarrow> auto_heap option" where
  "u3_auto_done egg_u h = do {
     h \<leftarrow> auto_news egg_u u3_ovum_done h;
     u3_ovum_free egg_u h
   }"

definition u3_auto_work :: "addr \<Rightarrow> auto_heap \<Rightarrow> auto_heap option" where
  "u3_auto_work egg_u h = auto_news egg_u u3_ovum_work h"

definition u3_auto_drop :: "addr \<Rightarrow> addr \<Rightarrow> auto_heap \<Rightarrow> auto_heap option" where
  "u3_auto_drop car_u egg_u h = do {
     e \<leftarrow> eggs h egg_u;
     own_u \<leftarrow> egg_car_u e;
     h \<leftarrow> (case egg_pre_u e of
         None \<Rightarrow> car_upd own_u (\<lambda>c. c\<lparr>car_ext_u := egg_nex_u e\<rparr>) h
       | Some pre_u \<Rightarrow> egg_upd pre_u (\<lambda>p. p\<lparr>egg_nex_u := egg_nex_u e\<rparr>) h);
     h \<leftarrow> (case egg_nex_u e of
         None \<Rightarrow> car_upd own_u (\<lambda>c. c\<lparr>car_ent_u := egg_pre_u e\<rparr>) h
       | Some nex_u \<Rightarrow> egg_upd nex_u (\<lambda>n. n\<lparr>egg_pre_u := egg_pre_u e\<rparr>) h);
     h \<leftarrow> car_upd own_u (\<lambda>c. c\<lparr>car_dep_w := car_dep_w c - 1\<rparr>) h;
     h \<leftarrow> egg_upd egg_u (\<lambda>e. e\<lparr>egg_nex_u := None, egg_pre_u := None\<rparr>) h;
     h \<leftarrow> (if car_u \<noteq> own_u then auto_news egg_u u3_ovum_drop h else Some h);
     u3_ovum_free egg_u h
   }"

text \<open>The event and the noun that is made from it, or no event when every driver's queue is empty.\<close>

partial_function (option) u3_auto_next :: "addr option \<Rightarrow> auto_heap \<Rightarrow> ((addr \<times> noun) option \<times> auto_heap) option" where
  [code]: "u3_auto_next car_u h =
     (case car_u of
        None \<Rightarrow> Some (None, h)
      | Some car \<Rightarrow> do {
          c \<leftarrow> cars h car;
          case car_ext_u c of
            None \<Rightarrow> u3_auto_next (car_nex_u c) h
          | Some egg_u \<Rightarrow> do {
              e \<leftarrow> eggs h egg_u;
              if egg_pre_u e \<noteq> None then None
              else do {
                h \<leftarrow> (case egg_nex_u e of
                    Some nex_u \<Rightarrow> do {
                      h \<leftarrow> egg_upd nex_u (\<lambda>n. n\<lparr>egg_pre_u := None\<rparr>) h;
                      car_upd car (\<lambda>c. c\<lparr>car_ext_u := Some nex_u, car_dep_w := car_dep_w c - 1\<rparr>) h
                    }
                  | None \<Rightarrow> car_upd car (\<lambda>c. c\<lparr>car_ent_u := None, car_ext_u := None, car_dep_w := 0\<rparr>) h);
                h \<leftarrow> egg_upd egg_u (\<lambda>e. e\<lparr>egg_nex_u := None\<rparr>) h;
                h \<leftarrow> u3_auto_work egg_u h;
                Some (Some (egg_u, Cell (Cell (egg_tar e) (egg_wir e)) (egg_cad e)), h)
              }
            }
        })"

section \<open>Effects\<close>

text \<open>
  \<open>kick_f\<close> is the drivers' callback for an effect: whether the driver takes it, and its changes to the
  heap; \<open>None\<close> is a bail.
\<close>

type_synonym kick = "addr \<Rightarrow> noun \<Rightarrow> noun \<Rightarrow> auto_heap \<Rightarrow> (bool \<times> auto_heap) option"

definition auto_kick :: "kick \<Rightarrow> addr \<Rightarrow> noun \<Rightarrow> noun \<Rightarrow> auto_heap \<Rightarrow> (bool \<times> auto_heap) option" where
  "auto_kick kick_f car_u pax fav h = kick_f car_u pax fav h"

text \<open>The printing of an effect that no driver takes reads the tag of the effect.\<close>

definition auto_kick_lost :: "noun \<Rightarrow> noun \<Rightarrow> auto_heap \<Rightarrow> auto_heap option" where
  "auto_kick_lost pax fav h = (case fav of Atom _ \<Rightarrow> None | Cell _ _ \<Rightarrow> Some (auto_log (Kick_lost pax fav) h))"

partial_function (option) auto_kick_loop :: "kick \<Rightarrow> addr \<Rightarrow> noun \<Rightarrow> noun \<Rightarrow> auto_heap \<Rightarrow> auto_heap option" where
  [code]: "auto_kick_loop kick_f car_u wir cad h = do {
     (kik_o, h) \<leftarrow> auto_kick kick_f car_u wir cad h;
     if kik_o then Some h
     else do {
       c \<leftarrow> cars h car_u;
       case car_nex_u c of
         Some nex_u \<Rightarrow> auto_kick_loop kick_f nex_u wir cad h
       | None \<Rightarrow> auto_kick_lost wir cad h
     }
   }"

fun u3_auto_kick :: "kick \<Rightarrow> addr \<Rightarrow> noun \<Rightarrow> auto_heap \<Rightarrow> auto_heap option" where
  "u3_auto_kick kick_f car_u (Atom a) h = (if a = 0 then Some h else None)"
| "u3_auto_kick kick_f car_u (Cell fec act) h =
     (case fec of
        Atom _ \<Rightarrow> None
      | Cell pax cad \<Rightarrow> do {
          h \<leftarrow> auto_kick_loop kick_f car_u
                 (case pax of Cell (Atom 0) wir \<Rightarrow> wir | _ \<Rightarrow> pax) cad h;
          u3_auto_kick kick_f car_u act h
        })"

section \<open>All drivers\<close>

partial_function (option) u3_auto_live :: "addr option \<Rightarrow> auto_heap \<Rightarrow> bool option" where
  [code]: "u3_auto_live car_u h =
     (case car_u of
        None \<Rightarrow> Some True
      | Some car \<Rightarrow> do {
          c \<leftarrow> cars h car;
          if \<not> car_liv_o c then Some False else u3_auto_live (car_nex_u c) h
        })"

partial_function (option) u3_auto_talk :: "addr option \<Rightarrow> auto_heap \<Rightarrow> auto_heap option" where
  [code]: "u3_auto_talk car_u h =
     (case car_u of
        None \<Rightarrow> Some h
      | Some car \<Rightarrow> do {
          c \<leftarrow> cars h car;
          u3_auto_talk (car_nex_u c) (auto_log (Talk (car_talk_f c) car) h)
        })"

partial_function (option) auto_exit_eggs :: "addr option \<Rightarrow> auto_heap \<Rightarrow> auto_heap option" where
  [code]: "auto_exit_eggs egg_u h =
     (case egg_u of
        None \<Rightarrow> Some h
      | Some egg \<Rightarrow> do {
          e \<leftarrow> eggs h egg;
          h \<leftarrow> u3_ovum_free egg h;
          auto_exit_eggs (egg_nex_u e) h
        })"

partial_function (option) u3_auto_exit :: "addr option \<Rightarrow> auto_heap \<Rightarrow> auto_heap option" where
  [code]: "u3_auto_exit car_u h =
     (case car_u of
        None \<Rightarrow> Some h
      | Some car \<Rightarrow> do {
          c \<leftarrow> cars h car;
          h \<leftarrow> auto_exit_eggs (car_ext_u c) h;
          u3_auto_exit (car_nex_u c) (auto_log (Exit (car_exit_f c) car) h)
        })"

text \<open>
  The status of the drivers that report one; \<open>info_f\<close> is the noun a driver's callback returns. The list is
  built in reverse and flopped.
\<close>

partial_function (option) auto_info_loop ::
  "(callback \<Rightarrow> addr \<Rightarrow> noun) \<Rightarrow> addr option \<Rightarrow> auto_heap \<Rightarrow> noun list \<Rightarrow> noun list option" where
  [code]: "auto_info_loop info_f car_u h lit =
     (case car_u of
        None \<Rightarrow> Some lit
      | Some car \<Rightarrow> do {
          c \<leftarrow> cars h car;
          auto_info_loop info_f (car_nex_u c) h
            (case car_info_f c of
               Some f \<Rightarrow> Cell (Atom (car_nam_m c)) (Cell (Atom 1) (info_f f car)) # lit
             | None \<Rightarrow> lit)
        })"

definition u3_auto_info :: "(callback \<Rightarrow> addr \<Rightarrow> noun) \<Rightarrow> addr option \<Rightarrow> auto_heap \<Rightarrow> noun list option" where
  "u3_auto_info info_f car_u h = map_option rev (auto_info_loop info_f car_u h [])"

partial_function (option) u3_auto_slog :: "addr option \<Rightarrow> auto_heap \<Rightarrow> auto_heap option" where
  [code]: "u3_auto_slog car_u h =
     (case car_u of
        None \<Rightarrow> Some h
      | Some car \<Rightarrow> do {
          c \<leftarrow> cars h car;
          let h = auto_log (Slog (car_nam_m c) (car_liv_o c) (car_dep_w c)) h;
              h = (case car_slog_f c of Some f \<Rightarrow> auto_log (Slog_more f car) h | None \<Rightarrow> h)
          in u3_auto_slog (car_nex_u c) h
        })"

definition auto_link :: "addr option \<Rightarrow> addr option \<Rightarrow> auto_heap \<Rightarrow> (addr option \<times> auto_heap) option" where
  "auto_link car_u nex_u h =
     (case car_u of
        None \<Rightarrow> Some (nex_u, h)
      | Some car \<Rightarrow> do {
          c \<leftarrow> cars h car;
          if car_talk_f c = None \<or> car_kick_f c = None \<or> car_exit_f c = None then None
          else map_option (Pair car_u) (car_upd car (\<lambda>c. c\<lparr>car_nex_u := nex_u\<rparr>) h)
        })"

text \<open>The drivers as their initializers return them, in the order of the calls.\<close>

definition u3_auto_init ::
  "addr option \<Rightarrow> addr option \<Rightarrow> addr option \<Rightarrow> addr option \<Rightarrow> addr option \<Rightarrow> addr option \<Rightarrow> addr option \<Rightarrow> addr option \<Rightarrow>
   addr option \<Rightarrow> auto_heap \<Rightarrow> (addr option \<times> auto_heap) option" where
  "u3_auto_init hind behn conn ames http cttp unix term fore h = do {
     (car_u, h) \<leftarrow> auto_link hind None h;
     (car_u, h) \<leftarrow> auto_link behn car_u h;
     (car_u, h) \<leftarrow> auto_link conn car_u h;
     (car_u, h) \<leftarrow> auto_link ames car_u h;
     (car_u, h) \<leftarrow> auto_link http car_u h;
     (car_u, h) \<leftarrow> auto_link cttp car_u h;
     (car_u, h) \<leftarrow> auto_link unix car_u h;
     (car_u, h) \<leftarrow> auto_link term car_u h;
     auto_link fore car_u h
   }"

end
