(* ===== verification/Auto_Queue.thy ===== *)
theory Auto_Queue
  imports Auto
begin

text \<open>
  The queues of the drivers as lists: what the links of the heap represent, that every operation of
  \<^verbatim>\<open>pkg/vere/auto.c\<close> implements the operation on the lists, and the interface the clients of the
  queues rely on.
\<close>

section \<open>Linked segments\<close>

fun first :: "'a list \<Rightarrow> 'a option \<Rightarrow> 'a option" where
  "first [] n = n"
| "first (x # xs) n = Some x"

fun final :: "'a list \<Rightarrow> 'a option \<Rightarrow> 'a option" where
  "final [] p = p"
| "final (x # xs) p = final xs (Some x)"

text \<open>The events \<open>xs\<close> are linked in this order and belong to \<open>car\<close>, between the neighbours \<open>p\<close> and \<open>n\<close>.\<close>

fun seg :: "(addr \<rightharpoonup> u3_ovum) \<Rightarrow> addr \<Rightarrow> addr option \<Rightarrow> addr list \<Rightarrow> addr option \<Rightarrow> bool" where
  "seg E car p [] n \<longleftrightarrow> True"
| "seg E car p (x # xs) n \<longleftrightarrow> (\<exists>e. E x = Some e \<and> egg_car_u e = Some car \<and> egg_pre_u e = p \<and> egg_nex_u e = first xs n) \<and>
     seg E car (Some x) xs n"

lemma first_append [simp]: "first (xs @ ys) n = first xs (first ys n)"
  by (cases xs) simp_all

lemma final_append [simp]: "final (xs @ ys) p = final ys (final xs p)"
  by (induction xs arbitrary: p) simp_all

lemma final_eq: "final xs p = (if xs = [] then p else Some (last xs))"
  by (induction xs arbitrary: p) auto

lemma seg_append [simp]: "seg E car p (xs @ ys) n \<longleftrightarrow> seg E car p xs (first ys n) \<and> seg E car (final xs p) ys n"
  by (induction xs arbitrary: p) auto

lemma seg_cong: "(\<And>x. x \<in> set xs \<Longrightarrow> E' x = E x) \<Longrightarrow> seg E' car p xs n \<longleftrightarrow> seg E car p xs n"
  by (induction xs arbitrary: p) auto

lemma seg_upd [simp]: "x \<notin> set xs \<Longrightarrow> seg (E(x := v)) car p xs n \<longleftrightarrow> seg E car p xs n"
  by (rule seg_cong) auto

lemma seg_owner: "seg E car p xs n \<Longrightarrow> x \<in> set xs \<Longrightarrow> \<exists>e. E x = Some e \<and> egg_car_u e = Some car"
  by (induction xs arbitrary: p) auto

section \<open>Queues\<close>

definition queue :: "auto_heap \<Rightarrow> addr \<Rightarrow> addr list \<Rightarrow> bool" where
  "queue h car xs \<longleftrightarrow> (\<exists>c. cars h car = Some c \<and> car_ext_u c = first xs None \<and> car_ent_u c = final xs None \<and>
     car_dep_w c = of_nat (length xs)) \<and> distinct xs \<and> seg (eggs h) car None xs None"

text \<open>Every driver of \<open>Q\<close> has the queue that \<open>Q\<close> says.\<close>

definition queues :: "auto_heap \<Rightarrow> (addr \<rightharpoonup> addr list) \<Rightarrow> bool" where
  "queues h Q \<longleftrightarrow> (\<forall>car xs. Q car = Some xs \<longrightarrow> queue h car xs)"

definition unqueued :: "(addr \<rightharpoonup> addr list) \<Rightarrow> addr \<Rightarrow> bool" where
  "unqueued Q a \<longleftrightarrow> (\<forall>xs \<in> ran Q. a \<notin> set xs)"

text \<open>The contents of an event, without the links and the driver.\<close>

definition egg_info :: "u3_ovum \<Rightarrow> u3_ovum" where
  "egg_info e = e\<lparr>egg_pre_u := None, egg_nex_u := None, egg_car_u := None\<rparr>"

definition infos :: "auto_heap \<Rightarrow> addr \<rightharpoonup> u3_ovum" where
  "infos h a = map_option egg_info (eggs h a)"

lemma queuesD: "queues h Q \<Longrightarrow> Q car = Some xs \<Longrightarrow> queue h car xs"
  by (simp add: queues_def)

lemma queue_frame:
  assumes "queue h car xs" and "cars h' car = cars h car" and "\<And>x. x \<in> set xs \<Longrightarrow> eggs h' x = eggs h x"
  shows "queue h' car xs"
proof -
  have "seg (eggs h') car None xs None \<longleftrightarrow> seg (eggs h) car None xs None"
    by (rule seg_cong) (rule assms(3))
  then show ?thesis
    using assms(1,2) by (simp add: queue_def)
qed

lemma queue_owner: "queue h car xs \<Longrightarrow> x \<in> set xs \<Longrightarrow> \<exists>e. eggs h x = Some e \<and> egg_car_u e = Some car"
  by (auto simp: queue_def dest: seg_owner)

text \<open>
  An operation on the queue of one driver keeps the queues of the others, when it changes no driver but
  this one and no event outside the queue but \<open>a\<close>, which is in no queue.
\<close>

lemma queues_upd:
  assumes Q: "queues h Q" "Q car = Some xs" and new: "queue h' car ys"
    and cars: "\<And>car'. car' \<noteq> car \<Longrightarrow> cars h' car' = cars h car'"
    and eggs: "\<And>x. x \<notin> set xs \<Longrightarrow> x \<noteq> a \<Longrightarrow> eggs h' x = eggs h x" and a: "unqueued Q a \<or> a \<in> set xs"
  shows "queues h' (Q(car \<mapsto> ys))"
  unfolding queues_def
proof (intro allI impI)
  fix car' zs
  assume zs: "(Q(car \<mapsto> ys)) car' = Some zs"
  show "queue h' car' zs"
  proof (cases "car' = car")
    case False
    then have q: "queue h car' zs" "Q car' = Some zs"
      using Q(1) zs by (simp_all add: queues_def)
    have "x \<notin> set xs" if "x \<in> set zs" for x
      using queue_owner [OF q(1) that] queue_owner [OF queuesD [OF Q], of x] False by auto
    moreover have "a \<notin> set zs"
      using a q(2) calculation by (auto simp: unqueued_def ran_def)
    ultimately show ?thesis
      using queue_frame [OF q(1)] cars [OF False] eggs by metis
  qed (use zs new in simp)
qed

section \<open>Operations on one queue\<close>

lemma egg_upd_Some: "eggs h a = Some e \<Longrightarrow> egg_upd a f h = Some (h\<lparr>eggs := (eggs h)(a \<mapsto> f e)\<rparr>)"
  by (simp add: egg_upd_def)

lemma car_upd_Some: "cars h a = Some c \<Longrightarrow> car_upd a f h = Some (h\<lparr>cars := (cars h)(a \<mapsto> f c)\<rparr>)"
  by (simp add: car_upd_def)

lemmas auto_steps = egg_upd_def car_upd_def auto_log_def

text \<open>What an operation keeps: the events it does not touch, and the other drivers.\<close>

definition auto_keeps :: "addr \<Rightarrow> addr list \<Rightarrow> addr \<Rightarrow> auto_heap \<Rightarrow> auto_heap \<Rightarrow> bool" where
  "auto_keeps car xs a h h' \<longleftrightarrow> (\<forall>car'. car' \<noteq> car \<longrightarrow> cars h' car' = cars h car') \<and>
     map_option car_nex_u (cars h' car) = map_option car_nex_u (cars h car) \<and>
     (\<forall>x. x \<notin> set xs \<longrightarrow> x \<noteq> a \<longrightarrow> eggs h' x = eggs h x) \<and> (\<forall>x. x \<noteq> a \<longrightarrow> infos h' x = infos h x)"

lemma plan_queue:
  assumes q: "queue h car xs" and a: "eggs h a = Some e" "a \<notin> set xs"
  shows "\<exists>h'. u3_auto_plan car a h = Some h' \<and> queue h' car (xs @ [a]) \<and> auto_keeps car xs a h h' \<and> infos h' a = infos h a"
proof -
  obtain c where c: "cars h car = Some c" "car_ext_u c = first xs None" "car_ent_u c = final xs None"
      "car_dep_w c = of_nat (length xs)" and xs: "distinct xs" "seg (eggs h) car None xs None"
    using q by (auto simp: queue_def)
  show ?thesis
  proof (cases xs rule: rev_cases)
    case Nil
    then show ?thesis
      using c a by (simp add: u3_auto_plan_def auto_steps queue_def auto_keeps_def infos_def egg_info_def)
  next
    case (snoc ys z)
    then obtain ez where z: "eggs h z = Some ez" "egg_car_u ez = Some car" "egg_pre_u ez = final ys None" "seg (eggs h) car None ys (Some z)"
        "z \<notin> set ys" "a \<noteq> z" "a \<notin> set ys" "distinct ys"
      using xs a(2) by auto
    then show ?thesis
      using c a(1) snoc by (simp add: u3_auto_plan_def auto_steps queue_def auto_keeps_def infos_def egg_info_def)
  qed
qed

lemma redo_queue:
  assumes q: "queue h car xs" and a: "eggs h a = Some e" "egg_car_u e = Some car" "a \<notin> set xs"
  shows "\<exists>h'. u3_auto_redo car a h = Some h' \<and> queue h' car (a # xs) \<and> auto_keeps car xs a h h' \<and>
    infos h' a = Some (egg_info (e\<lparr>egg_try_w := egg_try_w e + 1\<rparr>))"
proof -
  obtain c where c: "cars h car = Some c" "car_ext_u c = first xs None" "car_ent_u c = final xs None"
      "car_dep_w c = of_nat (length xs)" and xs: "distinct xs" "seg (eggs h) car None xs None"
    using q by (auto simp: queue_def)
  show ?thesis
  proof (cases xs)
    case Nil
    then show ?thesis
      using c a by (simp add: u3_auto_redo_def auto_steps queue_def auto_keeps_def infos_def egg_info_def)
  next
    case (Cons z zs)
    then obtain ez where z: "eggs h z = Some ez" "egg_car_u ez = Some car" "egg_nex_u ez = first zs None" "seg (eggs h) car (Some z) zs None"
        "z \<notin> set zs" "a \<noteq> z" "a \<notin> set zs" "distinct zs"
      using xs a(3) by auto
    moreover obtain l where "final zs (Some z) = Some l"
      by (cases zs) (auto simp: final_eq)
    ultimately show ?thesis
      using c a(1,2) Cons by (simp add: u3_auto_redo_def auto_steps queue_def auto_keeps_def infos_def egg_info_def)
  qed
qed

lemma drop_queue:
  assumes q: "queue h car (ys @ a # zs)"
  shows "\<exists>h'. u3_auto_drop car a h = Some h' \<and> queue h' car (ys @ zs) \<and> auto_keeps car (ys @ a # zs) a h h' \<and>
    eggs h' a = None \<and> calls h' = calls h"
proof -
  obtain c e where c: "cars h car = Some c" "car_ext_u c = first ys (Some a)" "car_ent_u c = final zs (Some a)"
      "car_dep_w c = of_nat (length (ys @ a # zs))"
    and e: "eggs h a = Some e" "egg_car_u e = Some car" "egg_pre_u e = final ys None" "egg_nex_u e = first zs None"
    and s: "seg (eggs h) car None ys (Some a)" "seg (eggs h) car (Some a) zs None" "distinct ys" "distinct zs" "a \<notin> set ys" "a \<notin> set zs"
      "set ys \<inter> set zs = {}"
    using q by (auto simp: queue_def)
  have dep: "car_dep_w c - 1 = of_nat (length (ys @ zs))"
    by (simp add: c(4))
  show ?thesis
  proof (cases ys rule: rev_cases; cases zs)
    assume "ys = []" "zs = []"
    then show ?thesis
      using c(1-3) dep e by (simp add: u3_auto_drop_def auto_steps queue_def auto_keeps_def infos_def u3_ovum_free_def)
  next
    fix z zs'
    assume eq: "ys = []" "zs = z # zs'"
    with s obtain ez where "eggs h z = Some ez" "egg_car_u ez = Some car" "egg_nex_u ez = first zs' None" "seg (eggs h) car (Some z) zs' None"
      by auto
    then show ?thesis
      using c(1-3) dep e s(4,6) eq by (simp add: u3_auto_drop_def auto_steps queue_def auto_keeps_def infos_def u3_ovum_free_def egg_info_def)
  next
    fix ys' y
    assume eq: "ys = ys' @ [y]" "zs = []"
    with s obtain ey where "eggs h y = Some ey" "egg_car_u ey = Some car" "egg_pre_u ey = final ys' None" "seg (eggs h) car None ys' (Some y)"
      by auto
    then show ?thesis
      using c(1-3) dep e s(3,5) eq by (simp add: u3_auto_drop_def auto_steps queue_def auto_keeps_def infos_def u3_ovum_free_def egg_info_def)
  next
    fix ys' y z zs'
    assume eq: "ys = ys' @ [y]" "zs = z # zs'"
    with s(1) obtain ey where ey: "eggs h y = Some ey" "egg_car_u ey = Some car" "egg_pre_u ey = final ys' None" "seg (eggs h) car None ys' (Some y)"
      by auto
    from s(2) eq obtain ez where ez: "eggs h z = Some ez" "egg_car_u ez = Some car" "egg_nex_u ez = first zs' None" "seg (eggs h) car (Some z) zs' None"
      by auto
    from ey ez show ?thesis
      using c(1-3) dep e s(3-) eq
      by (simp add: u3_auto_drop_def auto_steps queue_def auto_keeps_def infos_def u3_ovum_free_def egg_info_def)
  qed
qed

section \<open>The drivers in order\<close>

fun chain :: "auto_heap \<Rightarrow> addr option \<Rightarrow> addr list \<Rightarrow> bool" where
  "chain h p [] \<longleftrightarrow> p = None"
| "chain h p (c # cs) \<longleftrightarrow> p = Some c \<and> (\<exists>r. cars h c = Some r \<and> chain h (car_nex_u r) cs)"

lemma chain_cong:
  assumes "\<And>c. map_option car_nex_u (cars h' c) = map_option car_nex_u (cars h c)"
  shows "chain h' p cs \<longleftrightarrow> chain h p cs"
proof (induction cs arbitrary: p)
  case (Cons c cs)
  show ?case
    using assms [of c] Cons.IH by (cases "cars h c"; cases "cars h' c") auto
qed simp

lemma auto_keeps_chain: "auto_keeps car xs a h h' \<Longrightarrow> chain h' p cs \<longleftrightarrow> chain h p cs"
  by (rule chain_cong) (metis auto_keeps_def)

text \<open>The event at \<open>a\<close> as a noun for the kernel.\<close>

definition egg_noun :: "u3_ovum \<Rightarrow> noun" where
  "egg_noun e = Cell (Cell (egg_tar e) (egg_wir e)) (egg_cad e)"

lemma next_head:
  assumes q: "queue h car (a # xs)"
  shows "\<exists>h'. u3_auto_next (Some car) h = Some (Some (a, egg_noun (the (eggs h a))), h') \<and> queue h' car xs \<and>
    auto_keeps car (a # xs) a h h' \<and> infos h' a = infos h a \<and> (\<exists>e'. eggs h' a = Some e' \<and> egg_car_u e' = Some car \<and>
      egg_pre_u e' = None \<and> egg_nex_u e' = None)"
proof -
  obtain c e where c: "cars h car = Some c" "car_ext_u c = Some a" "car_ent_u c = final xs (Some a)"
      "car_dep_w c = of_nat (length (a # xs))"
    and e: "eggs h a = Some e" "egg_car_u e = Some car" "egg_pre_u e = None" "egg_nex_u e = first xs None"
    and s: "seg (eggs h) car (Some a) xs None" "distinct xs" "a \<notin> set xs"
    using q by (auto simp: queue_def)
  show ?thesis
  proof (cases xs)
    case Nil
    then show ?thesis
      using c e by (subst u3_auto_next.simps)
        (cases "egg_news_f e"; simp add: auto_steps u3_auto_work_def auto_news_def queue_def auto_keeps_def infos_def egg_info_def egg_noun_def)
  next
    case (Cons z zs)
    with s obtain ez where "eggs h z = Some ez" "egg_car_u ez = Some car" "egg_nex_u ez = first zs None" "seg (eggs h) car (Some z) zs None"
      by auto
    then show ?thesis
      using c e s Cons by (subst u3_auto_next.simps)
        (cases "egg_news_f e"; simp add: auto_steps u3_auto_work_def auto_news_def queue_def auto_keeps_def infos_def egg_info_def egg_noun_def)
  qed
qed

lemma next_skip:
  assumes "chain h p (ds @ cs)" and "\<And>d. d \<in> set ds \<Longrightarrow> queue h d []"
  shows "\<exists>p'. chain h p' cs \<and> u3_auto_next p h = u3_auto_next p' h"
  using assms
proof (induction ds arbitrary: p)
  case Nil
  then show ?case
    by auto
next
  case (Cons d ds)
  then obtain r where r: "p = Some d" "cars h d = Some r" "chain h (car_nex_u r) (ds @ cs)" "car_ext_u r = None"
    by (fastforce simp: queue_def)
  have "u3_auto_next p h = u3_auto_next (car_nex_u r) h"
    using r by (subst u3_auto_next.simps) simp
  then show ?case
    using Cons.IH [OF r(3)] Cons.prems(2) by (metis list.set_intros(2))
qed

section \<open>The interface of the queues\<close>

text \<open>
  What the clients of the queues rely on. \<open>rep\<close> relates a heap to the queues as lists and \<open>chn\<close> to the
  drivers in their order; \<open>egg\<close> tells which events exist, with their driver.
\<close>

locale ovum_queues =
  fixes rep :: "'h \<Rightarrow> ('c \<rightharpoonup> 'e list) \<Rightarrow> bool" and chn :: "'h \<Rightarrow> 'c option \<Rightarrow> 'c list \<Rightarrow> bool"
    and egg :: "'h \<Rightarrow> 'e \<Rightarrow> 'c option \<Rightarrow> bool"
    and plan :: "'c \<Rightarrow> 'e \<Rightarrow> 'h \<Rightarrow> 'h option" and redo :: "'c \<Rightarrow> 'e \<Rightarrow> 'h \<Rightarrow> 'h option"
    and drop :: "'c \<Rightarrow> 'e \<Rightarrow> 'h \<Rightarrow> 'h option" and nxt :: "'c option \<Rightarrow> 'h \<Rightarrow> (('e \<times> 'n) option \<times> 'h) option"
  assumes plan_law: "rep h Q \<Longrightarrow> chn h p cs \<Longrightarrow> Q c = Some xs \<Longrightarrow> egg h a own \<Longrightarrow> \<forall>ys \<in> ran Q. a \<notin> set ys \<Longrightarrow>
      \<exists>h'. plan c a h = Some h' \<and> rep h' (Q(c \<mapsto> xs @ [a])) \<and> chn h' p cs"
    and redo_law: "rep h Q \<Longrightarrow> chn h p cs \<Longrightarrow> Q c = Some xs \<Longrightarrow> egg h a (Some c) \<Longrightarrow> \<forall>ys \<in> ran Q. a \<notin> set ys \<Longrightarrow>
      \<exists>h'. redo c a h = Some h' \<and> rep h' (Q(c \<mapsto> a # xs)) \<and> chn h' p cs"
    and drop_law: "rep h Q \<Longrightarrow> chn h p cs \<Longrightarrow> Q c = Some (ys @ a # zs) \<Longrightarrow>
      \<exists>h'. drop c a h = Some h' \<and> rep h' (Q(c \<mapsto> ys @ zs)) \<and> chn h' p cs"
    and next_empty: "rep h Q \<Longrightarrow> chn h p cs \<Longrightarrow> \<forall>c \<in> set cs. Q c = Some [] \<Longrightarrow> nxt p h = Some (None, h)"
    and next_law: "rep h Q \<Longrightarrow> chn h p (ds @ d # cs) \<Longrightarrow> \<forall>c \<in> set ds. Q c = Some [] \<Longrightarrow> Q d = Some (a # xs) \<Longrightarrow>
      \<exists>h' ovo. nxt p h = Some (Some (a, ovo), h') \<and> rep h' (Q(d \<mapsto> xs)) \<and> chn h' p (ds @ d # cs) \<and> egg h' a (Some d)"

text \<open>Up to \<open>n\<close> events are taken from the queues, as a client that works on them does.\<close>

fun drain :: "('c option \<Rightarrow> 'h \<Rightarrow> (('e \<times> 'n) option \<times> 'h) option) \<Rightarrow> nat \<Rightarrow> 'c option \<Rightarrow> 'h \<Rightarrow> ('e list \<times> 'h) option" where
  "drain nxt 0 p h = Some ([], h)"
| "drain nxt (Suc n) p h =
     (case nxt p h of
        None \<Rightarrow> None
      | Some (None, h) \<Rightarrow> Some ([], h)
      | Some (Some (a, _), h) \<Rightarrow> map_option (\<lambda>(as, h). (a # as, h)) (drain nxt n p h))"

text \<open>The events of the queues in the order in which the kernel gets them.\<close>

definition in_order :: "('c \<rightharpoonup> 'e list) \<Rightarrow> 'c list \<Rightarrow> 'e list" where
  "in_order Q cs = concat (map (\<lambda>c. the (Q c)) cs)"

lemma first_nonempty:
  assumes "\<forall>c \<in> set cs. Q c \<noteq> None"
  obtains "\<forall>c \<in> set cs. Q c = Some []" | ds d a xs es where "cs = ds @ d # es" "\<forall>c \<in> set ds. Q c = Some []" "Q d = Some (a # xs)"
proof (cases "\<forall>c \<in> set cs. Q c = Some []")
  case False
  then obtain ds d es where cs: "cs = ds @ d # es" "Q d \<noteq> Some []" "\<forall>c \<in> set ds. Q c = Some []"
    using split_list_first_prop [of cs "\<lambda>c. Q c \<noteq> Some []"] by auto
  then obtain a xs where "Q d = Some (a # xs)"
    using assms by (metis in_set_conv_decomp list.exhaust not_Some_eq)
  with cs that(2) show thesis
    by blast
qed (use that(1) in blast)

lemma in_order_pop:
  assumes "cs = ds @ d # es" and "\<forall>c \<in> set ds. Q c = Some []" and "Q d = Some (a # xs)" and "distinct cs"
  shows "in_order Q cs = a # in_order (Q(d \<mapsto> xs)) cs"
proof -
  have "in_order Q ds = []" "in_order (Q(d \<mapsto> xs)) ds = []"
    using assms by (auto simp: in_order_def)
  moreover have "in_order (Q(d \<mapsto> xs)) es = in_order Q es"
    unfolding in_order_def using assms(1,4) by (intro arg_cong [where f = concat] map_cong refl) auto
  moreover have "in_order P (ds @ d # es) = in_order P ds @ the (P d) @ in_order P es" for P :: "'a \<rightharpoonup> 'b list"
    by (simp add: in_order_def)
  ultimately show ?thesis
    unfolding assms(1) using assms(3) by simp
qed

context ovum_queues
begin

lemma drain_in_order:
  "rep h Q \<Longrightarrow> chn h p cs \<Longrightarrow> distinct cs \<Longrightarrow> \<forall>c \<in> set cs. Q c \<noteq> None \<Longrightarrow>
    \<exists>h'. drain nxt n p h = Some (take n (in_order Q cs), h')"
proof (induction n arbitrary: h Q)
  case (Suc n)
  from Suc.prems(4) show ?case
  proof (cases rule: first_nonempty)
    case 1
    then show ?thesis
      using next_empty [OF Suc.prems(1,2) 1] by (simp add: in_order_def)
  next
    case (2 ds d a xs es)
    obtain h' ovo where h': "nxt p h = Some (Some (a, ovo), h')" "rep h' (Q(d \<mapsto> xs))" "chn h' p cs"
      using next_law [OF Suc.prems(1) _ 2(2,3), of p es] Suc.prems(2) 2(1) by blast
    have "\<forall>c \<in> set cs. (Q(d \<mapsto> xs)) c \<noteq> None"
      using Suc.prems(4) by simp
    then obtain h'' where "drain nxt n p h' = Some (take n (in_order (Q(d \<mapsto> xs)) cs), h'')"
      using Suc.IH [OF h'(2,3) Suc.prems(3)] by blast
    then show ?thesis
      unfolding in_order_pop [OF 2 Suc.prems(3)] by (simp add: h'(1) del: fun_upd_apply)
  qed
qed simp

text \<open>An event that is put back is the next one to be taken, if no driver before has any.\<close>

lemma redo_is_next:
  assumes "rep h Q" and "chn h p (ds @ d # cs)" and "\<forall>c \<in> set ds. Q c = Some []" and "Q d = Some xs" and "egg h a (Some d)"
    and "\<forall>ys \<in> ran Q. a \<notin> set ys" and "d \<notin> set ds"
  shows "\<exists>h' h'' ovo. redo d a h = Some h' \<and> nxt p h' = Some (Some (a, ovo), h'') \<and> rep h'' Q"
proof -
  obtain h' where h': "redo d a h = Some h'" "rep h' (Q(d \<mapsto> a # xs))" "chn h' p (ds @ d # cs)"
    using redo_law [OF assms(1,2,4-6)] by blast
  have "\<forall>c \<in> set ds. (Q(d \<mapsto> a # xs)) c = Some []"
    using assms(3,7) by auto
  then obtain h'' ovo where "nxt p h' = Some (Some (a, ovo), h'')" "rep h'' (Q(d \<mapsto> a # xs, d \<mapsto> xs))"
    using next_law [OF h'(2,3), of a xs] by (simp only: map_upd_Some_unfold refl simp_thms) blast
  moreover have "Q(d \<mapsto> a # xs, d \<mapsto> xs) = Q"
    using assms(4) by (auto simp: fun_eq_iff)
  ultimately show ?thesis
    using h'(1) by metis
qed

end

section \<open>The heap provides the interface\<close>

definition egg_of :: "auto_heap \<Rightarrow> addr \<Rightarrow> addr option \<Rightarrow> bool" where
  "egg_of h a own \<longleftrightarrow> (\<exists>e. eggs h a = Some e \<and> egg_car_u e = own)"

lemma keeps_queues:
  assumes "queues h Q" and "Q car = Some xs" and "queue h' car ys" and "auto_keeps car xs a h h'" and "unqueued Q a \<or> a \<in> set xs"
  shows "queues h' (Q(car \<mapsto> ys))"
  using queues_upd [OF assms(1-3) _ _ assms(5)] assms(4) unfolding auto_keeps_def by metis

lemma plan_rep:
  assumes "queues h Q" and "Q c = Some xs" and "egg_of h a own" and "unqueued Q a"
  shows "\<exists>h'. u3_auto_plan c a h = Some h' \<and> queues h' (Q(c \<mapsto> xs @ [a])) \<and> (\<forall>p cs. chain h' p cs \<longleftrightarrow> chain h p cs) \<and> infos h' = infos h"
proof -
  have "a \<notin> set xs"
    using assms(2,4) by (auto simp: unqueued_def ran_def)
  then obtain h' where h': "u3_auto_plan c a h = Some h'" "queue h' c (xs @ [a])" "auto_keeps c xs a h h'" "infos h' a = infos h a"
    using plan_queue [OF queuesD [OF assms(1,2)]] assms(3) by (auto simp: egg_of_def)
  moreover have "infos h' = infos h"
    using h'(3,4) by (auto simp: auto_keeps_def fun_eq_iff)
  ultimately show ?thesis
    using keeps_queues [OF assms(1,2) h'(2,3)] assms(4) auto_keeps_chain [OF h'(3)] by metis
qed

lemma redo_rep:
  assumes "queues h Q" and "Q c = Some xs" and "egg_of h a (Some c)" and "unqueued Q a"
  shows "\<exists>h'. u3_auto_redo c a h = Some h' \<and> queues h' (Q(c \<mapsto> a # xs)) \<and> (\<forall>p cs. chain h' p cs \<longleftrightarrow> chain h p cs)"
proof -
  have "a \<notin> set xs"
    using assms(2,4) by (auto simp: unqueued_def ran_def)
  then obtain h' where h': "u3_auto_redo c a h = Some h'" "queue h' c (a # xs)" "auto_keeps c xs a h h'"
    using redo_queue [OF queuesD [OF assms(1,2)]] assms(3) by (auto simp: egg_of_def)
  then show ?thesis
    using keeps_queues [OF assms(1,2) h'(2,3)] assms(4) auto_keeps_chain [OF h'(3)] by metis
qed

lemma drop_rep:
  assumes "queues h Q" and "Q c = Some (ys @ a # zs)"
  shows "\<exists>h'. u3_auto_drop c a h = Some h' \<and> queues h' (Q(c \<mapsto> ys @ zs)) \<and> (\<forall>p cs. chain h' p cs \<longleftrightarrow> chain h p cs) \<and>
    (\<forall>x. x \<noteq> a \<longrightarrow> infos h' x = infos h x) \<and> calls h' = calls h"
proof -
  obtain h' where h': "u3_auto_drop c a h = Some h'" "queue h' c (ys @ zs)" "auto_keeps c (ys @ a # zs) a h h'" "calls h' = calls h"
    using drop_queue [OF queuesD [OF assms]] by auto
  moreover have "\<forall>x. x \<noteq> a \<longrightarrow> infos h' x = infos h x"
    using h'(3) by (simp add: auto_keeps_def)
  moreover have "a \<in> set (ys @ a # zs)"
    by simp
  ultimately show ?thesis
    using keeps_queues [OF assms h'(2,3)] auto_keeps_chain [OF h'(3)] by metis
qed

lemma next_rep:
  assumes "queues h Q" and "chain h p (ds @ d # cs)" and "\<forall>c \<in> set ds. Q c = Some []" and "Q d = Some (a # xs)"
  shows "\<exists>h'. u3_auto_next p h = Some (Some (a, egg_noun (the (eggs h a))), h') \<and> queues h' (Q(d \<mapsto> xs)) \<and>
    (\<forall>p cs. chain h' p cs \<longleftrightarrow> chain h p cs) \<and> infos h' = infos h \<and> egg_of h' a (Some d)"
proof -
  have "queue h c []" if "c \<in> set ds" for c
    using assms(1,3) that by (simp add: queues_def)
  then obtain p' where p': "chain h p' (d # cs)" "u3_auto_next p h = u3_auto_next p' h"
    using next_skip [OF assms(2)] by metis
  obtain h' where h': "u3_auto_next (Some d) h = Some (Some (a, egg_noun (the (eggs h a))), h')" "queue h' d xs"
      "auto_keeps d (a # xs) a h h'" "infos h' a = infos h a" "egg_of h' a (Some d)"
    using next_head [OF queuesD [OF assms(1,4)]] by (auto simp: egg_of_def)
  moreover have "infos h' = infos h"
    using h'(3,4) by (auto simp: auto_keeps_def fun_eq_iff)
  ultimately show ?thesis
    using keeps_queues [OF assms(1,4) h'(2,3)] auto_keeps_chain [OF h'(3)] p' by auto
qed

lemma next_none:
  assumes "queues h Q" and "chain h p cs" and "\<forall>c \<in> set cs. Q c = Some []"
  shows "u3_auto_next p h = Some (None, h)"
proof -
  have "queue h c []" if "c \<in> set cs" for c
    using assms(1,3) that by (simp add: queues_def)
  then obtain p' where "chain h p' []" "u3_auto_next p h = u3_auto_next p' h"
    using next_skip [of h p cs "[]"] assms(2) by auto
  then show ?thesis
    by (simp add: u3_auto_next.simps)
qed

interpretation oq: ovum_queues queues chain egg_of u3_auto_plan u3_auto_redo u3_auto_drop u3_auto_next
proof unfold_locales
  show "\<exists>h'. u3_auto_plan c a h = Some h' \<and> queues h' (Q(c \<mapsto> xs @ [a])) \<and> chain h' p cs"
    if "queues h Q" "chain h p cs" "Q c = Some xs" "egg_of h a own" "\<forall>ys \<in> ran Q. a \<notin> set ys" for h Q p cs c xs a own
    using plan_rep [OF that(1,3,4)] that(2,5) unfolding unqueued_def by blast
  show "\<exists>h'. u3_auto_redo c a h = Some h' \<and> queues h' (Q(c \<mapsto> a # xs)) \<and> chain h' p cs"
    if "queues h Q" "chain h p cs" "Q c = Some xs" "egg_of h a (Some c)" "\<forall>ys \<in> ran Q. a \<notin> set ys" for h Q p cs c xs a
    using redo_rep [OF that(1,3,4)] that(2,5) unfolding unqueued_def by blast
  show "\<exists>h'. u3_auto_drop c a h = Some h' \<and> queues h' (Q(c \<mapsto> ys @ zs)) \<and> chain h' p cs"
    if "queues h Q" "chain h p cs" "Q c = Some (ys @ a # zs)" for h Q p cs c ys a zs
    using drop_rep [OF that(1,3)] that(2) by blast
  show "u3_auto_next p h = Some (None, h)" if "queues h Q" "chain h p cs" "\<forall>c \<in> set cs. Q c = Some []" for h Q p cs
    using next_none [OF that] .
  show "\<exists>h' ovo. u3_auto_next p h = Some (Some (a, ovo), h') \<and> queues h' (Q(d \<mapsto> xs)) \<and> chain h' p (ds @ d # cs) \<and> egg_of h' a (Some d)"
    if "queues h Q" "chain h p (ds @ d # cs)" "\<forall>c \<in> set ds. Q c = Some []" "Q d = Some (a # xs)" for h Q p ds d cs a xs
    using next_rep [OF that] that(2) by blast
qed

end
