(* ===== verification/Auto_Properties.thy ===== *)
theory Auto_Properties
  imports Auto_Queue
begin

text \<open>
  The properties of the event queues of \<^verbatim>\<open>pkg/vere/auto.c\<close>: the order in which events leave the queues,
  the routing of effects, the linking of the drivers and the shutdown.
\<close>

section \<open>Walks over the drivers\<close>

lemma chain_nex:
  assumes "\<And>x. map_option car_nex_u (cars h' x) = map_option car_nex_u (cars h x)" and "cars h c = Some r"
  obtains r' where "cars h' c = Some r'" and "car_nex_u r' = car_nex_u r"
proof -
  have "map_option car_nex_u (cars h' c) = Some (car_nex_u r)"
    using assms by simp
  then show thesis
    using that by auto
qed

text \<open>The drivers are asked in order until one takes the effect.\<close>

fun kick_first :: "kick \<Rightarrow> addr list \<Rightarrow> noun \<Rightarrow> noun \<Rightarrow> auto_heap \<Rightarrow> auto_heap option" where
  "kick_first kick_f [] wir cad h = (case cad of Atom _ \<Rightarrow> None | Cell _ _ \<Rightarrow> Some (h\<lparr>calls := calls h @ [Kick_lost wir cad]\<rparr>))"
| "kick_first kick_f (c # cs) wir cad h =
     (case kick_f c wir cad h of
        None \<Rightarrow> None
      | Some (kik_o, h) \<Rightarrow> if kik_o then Some h else kick_first kick_f cs wir cad h)"

text \<open>A callback that does not relink the drivers.\<close>

definition kick_keeps :: "kick \<Rightarrow> bool" where
  "kick_keeps kick_f \<longleftrightarrow> (\<forall>c wir cad h b h'. kick_f c wir cad h = Some (b, h') \<longrightarrow>
     (\<forall>x. map_option car_nex_u (cars h' x) = map_option car_nex_u (cars h x)))"

lemma auto_kick_loop_first:
  assumes "kick_keeps kick_f" and "chain h (Some car) (car # cs)"
  shows "auto_kick_loop kick_f car wir cad h = kick_first kick_f (car # cs) wir cad h"
  using assms(2)
proof (induction cs arbitrary: car h)
  case Nil
  then obtain r where r: "cars h car = Some r" "car_nex_u r = None"
    by auto
  show ?case
  proof (cases "kick_f car wir cad h")
    case (Some bh)
    obtain b h' where bh: "bh = (b, h')"
      by (cases bh)
    then have "\<And>x. map_option car_nex_u (cars h' x) = map_option car_nex_u (cars h x)"
      using assms(1) Some by (simp add: kick_keeps_def)
    then obtain r' where "cars h' car = Some r'" "car_nex_u r' = None"
      using chain_nex [OF _ r(1)] r(2) by metis
    then show ?thesis
      using Some bh by (subst auto_kick_loop.simps)
        (simp add: auto_kick_def auto_kick_lost_def auto_log_def split: noun.splits)
  qed (subst auto_kick_loop.simps, simp add: auto_kick_def)
next
  case (Cons d cs)
  then obtain r where r: "cars h car = Some r" "car_nex_u r = Some d" "chain h (Some d) (d # cs)"
    by auto
  show ?case
  proof (cases "kick_f car wir cad h")
    case (Some bh)
    obtain b h' where bh: "bh = (b, h')"
      by (cases bh)
    then have keep: "\<And>x. map_option car_nex_u (cars h' x) = map_option car_nex_u (cars h x)"
      using assms(1) Some by (simp add: kick_keeps_def)
    then obtain r' where r': "cars h' car = Some r'" "car_nex_u r' = Some d"
      using chain_nex [OF _ r(1)] r(2) by metis
    have "chain h' (Some d) (d # cs)"
      using r(3) chain_cong [OF keep] by blast
    from Cons.IH [OF this] show ?thesis
      using Some bh r' by (subst auto_kick_loop.simps) (simp add: auto_kick_def)
  qed (subst auto_kick_loop.simps, simp add: auto_kick_def)
qed

text \<open>A list of effects, as pairs of a path and a card, and as a noun. Old kernels prefix the path with a null.\<close>

fun kick_all :: "kick \<Rightarrow> addr list \<Rightarrow> (noun \<times> noun) list \<Rightarrow> auto_heap \<Rightarrow> auto_heap option" where
  "kick_all kick_f cs [] h = Some h"
| "kick_all kick_f cs ((pax, cad) # fecs) h =
     Option.bind (kick_first kick_f cs (case pax of Cell (Atom 0) wir \<Rightarrow> wir | _ \<Rightarrow> pax) cad h) (kick_all kick_f cs fecs)"

primrec fec_noun :: "(noun \<times> noun) list \<Rightarrow> noun" where
  "fec_noun [] = Atom 0"
| "fec_noun (fec # fecs) = Cell (Cell (fst fec) (snd fec)) (fec_noun fecs)"

lemma kick_first_keeps:
  assumes "kick_keeps kick_f" and "kick_first kick_f cs wir cad h = Some h'"
  shows "map_option car_nex_u (cars h' x) = map_option car_nex_u (cars h x)"
  using assms(2)
proof (induction cs arbitrary: h)
  case Nil
  then show ?case
    by (auto split: noun.splits)
next
  case (Cons c cs)
  then obtain b h1 where k: "kick_f c wir cad h = Some (b, h1)" "if b then h' = h1 else kick_first kick_f cs wir cad h1 = Some h'"
    by (auto split: option.splits if_splits)
  then have "map_option car_nex_u (cars h1 x) = map_option car_nex_u (cars h x)"
    using assms(1) by (simp add: kick_keeps_def)
  then show ?case
    using k(2) Cons.IH by (simp split: if_splits)
qed

lemma auto_kick_all:
  assumes "kick_keeps kick_f" and "chain h (Some car) (car # cs)"
  shows "u3_auto_kick kick_f car (fec_noun fecs) h = kick_all kick_f (car # cs) fecs h"
  using assms(2)
proof (induction fecs arbitrary: h)
  case (Cons fec fecs)
  obtain pax cad where fec: "fec = (pax, cad)"
    by (cases fec)
  let ?first = "kick_first kick_f (car # cs) (case pax of Cell (Atom 0) wir \<Rightarrow> wir | _ \<Rightarrow> pax) cad h"
  show ?case
  proof (cases ?first)
    case None
    then show ?thesis
      using auto_kick_loop_first [OF assms(1) Cons.prems] by (simp add: fec)
  next
    case (Some h')
    have "chain h' (Some car) (car # cs)"
      using Cons.prems chain_cong [OF kick_first_keeps [OF assms(1) Some]] by blast
    from Cons.IH [OF this] show ?thesis
      using auto_kick_loop_first [OF assms(1) Cons.prems] Some by (simp add: fec)
  qed
qed simp

text \<open>The drivers in the order of the list, without null drivers.\<close>

definition driver_ok :: "auto_heap \<Rightarrow> addr \<Rightarrow> bool" where
  "driver_ok h c \<longleftrightarrow> (\<exists>r. cars h c = Some r \<and> car_talk_f r \<noteq> None \<and> car_kick_f r \<noteq> None \<and> car_exit_f r \<noteq> None)"

lemma auto_link_chain:
  assumes "chain h p cs" and "\<And>c. car = Some c \<Longrightarrow> driver_ok h c \<and> c \<notin> set cs"
  shows "\<exists>p' h'. auto_link car p h = Some (p', h') \<and> chain h' p' (case car of None \<Rightarrow> cs | Some c \<Rightarrow> c # cs) \<and>
    (\<forall>c. driver_ok h' c \<longleftrightarrow> driver_ok h c) \<and> eggs h' = eggs h \<and> calls h' = calls h"
proof (cases car)
  case (Some c)
  then obtain r where r: "cars h c = Some r" "car_talk_f r \<noteq> None" "car_kick_f r \<noteq> None" "car_exit_f r \<noteq> None" "c \<notin> set cs"
    using assms(2) by (auto simp: driver_ok_def)
  let ?h = "h\<lparr>cars := (cars h)(c \<mapsto> r\<lparr>car_nex_u := p\<rparr>)\<rparr>"
  have "chain ?h q ds \<longleftrightarrow> chain h q ds" if "c \<notin> set ds" for q ds
    using that by (induction ds arbitrary: q) auto
  then have "chain ?h (Some c) (c # cs)"
    using assms(1) r(5) by simp
  then show ?thesis
    using Some r by (auto simp: auto_link_def car_upd_def driver_ok_def)
qed (use assms(1) in \<open>simp add: auto_link_def\<close>)

fun auto_link_all :: "addr option list \<Rightarrow> addr option \<Rightarrow> auto_heap \<Rightarrow> (addr option \<times> auto_heap) option" where
  "auto_link_all [] p h = Some (p, h)"
| "auto_link_all (c # cs) p h = do {
     (p, h) \<leftarrow> auto_link c p h;
     auto_link_all cs p h
   }"

definition present :: "'a option list \<Rightarrow> 'a list" where
  "present cs = concat (map (\<lambda>c. case c of None \<Rightarrow> [] | Some c \<Rightarrow> [c]) cs)"

lemma present_simps [simp]: "present [] = []" "present (c # cs) = (case c of None \<Rightarrow> present cs | Some c \<Rightarrow> c # present cs)"
  by (simp_all add: present_def split: option.splits)

lemma auto_link_all_chain:
  assumes "chain h p cs" and "distinct (rev (present ds) @ cs)" and "\<forall>c \<in> set (present ds). driver_ok h c"
  shows "\<exists>p' h'. auto_link_all ds p h = Some (p', h') \<and> chain h' p' (rev (present ds) @ cs) \<and> eggs h' = eggs h \<and> calls h' = calls h"
  using assms
proof (induction ds arbitrary: p h cs)
  case (Cons car ds)
  let ?cs = "case car of None \<Rightarrow> cs | Some c \<Rightarrow> c # cs"
  obtain p' h' where h': "auto_link car p h = Some (p', h')" "chain h' p' ?cs" "\<forall>c. driver_ok h' c \<longleftrightarrow> driver_ok h c"
      "eggs h' = eggs h" "calls h' = calls h"
    using auto_link_chain [OF Cons.prems(1), of car] Cons.prems(2,3) by (cases car) auto
  have "rev (present (car # ds)) @ cs = rev (present ds) @ ?cs"
    by (cases car) simp_all
  moreover have "distinct (rev (present ds) @ ?cs)" "\<forall>c \<in> set (present ds). driver_ok h' c"
    using Cons.prems(2,3) h'(3) by (cases car; auto)+
  ultimately show ?case
    using Cons.IH [OF h'(2)] h'(1,4,5) by simp
qed simp

lemma u3_auto_init_links:
  "u3_auto_init hind behn conn ames http cttp unix term fore h = auto_link_all [hind, behn, conn, ames, http, cttp, unix, term, fore] None h"
  by (simp add: u3_auto_init_def case_prod_unfold)

lemma exit_eggs_ok:
  assumes "seg (eggs h) car p xs None" and "distinct xs"
  shows "auto_exit_eggs (first xs None) h = Some (h\<lparr>eggs := eggs h |` (- set xs)\<rparr>)"
  using assms
proof (induction xs arbitrary: p h)
  case Nil
  then show ?case
    by (simp add: auto_exit_eggs.simps)
next
  case (Cons x xs)
  then obtain e where e: "eggs h x = Some e" "egg_nex_u e = first xs None" "seg ((eggs h)(x := None)) car (Some x) xs None"
    by auto
  let ?h = "h\<lparr>eggs := (eggs h)(x := None)\<rparr>"
  have "seg (eggs ?h) car (Some x) xs None"
    using e(3) by simp
  from Cons.IH [OF this] Cons.prems(2) have "auto_exit_eggs (first xs None) ?h = Some (?h\<lparr>eggs := eggs ?h |` (- set xs)\<rparr>)"
    by (simp del: fun_upd_apply)
  moreover have "eggs ?h |` (- set xs) = eggs h |` (- set (x # xs))"
    by (auto simp: restrict_map_def fun_eq_iff)
  moreover have "auto_exit_eggs (first (x # xs) None) h = auto_exit_eggs (first xs None) ?h"
    using e(1,2) by (subst auto_exit_eggs.simps) (simp add: u3_ovum_free_def)
  ultimately show ?case
    by (simp del: fun_upd_apply restrict_upd_same)
qed

lemma exit_ok:
  assumes "queues h Q" and "chain h p cs" and "distinct cs" and "\<forall>c \<in> set cs. Q c \<noteq> None"
  shows "\<exists>h'. u3_auto_exit p h = Some h' \<and> eggs h' = eggs h |` (- set (in_order Q cs)) \<and>
    calls h' = calls h @ map (\<lambda>c. Exit (Option.bind (cars h c) car_exit_f) c) cs"
  using assms
proof (induction cs arbitrary: p h Q)
  case Nil
  then show ?case
    by (simp add: u3_auto_exit.simps in_order_def)
next
  case (Cons c cs)
  then obtain r xs where r: "p = Some c" "cars h c = Some r" "chain h (car_nex_u r) cs" "Q c = Some xs" "queue h c xs"
    by (auto simp: queues_def)
  then have xs: "distinct xs" "seg (eggs h) c None xs None" "car_ext_u r = first xs None"
    by (auto simp: queue_def)
  define h1 where "h1 = auto_log (Exit (car_exit_f r) c) (h\<lparr>eggs := eggs h |` (- set xs)\<rparr>)"
  have step: "u3_auto_exit p h = u3_auto_exit (car_nex_u r) h1"
    using r(1,2) exit_eggs_ok [OF xs(2,1)] by (subst u3_auto_exit.simps) (simp add: xs(3) h1_def)
  have "queue h1 d ys" if "(Q |` set cs) d = Some ys" for d ys
  proof -
    have d: "d \<noteq> c" "queue h d ys"
      using that Cons.prems(1,3) by (auto simp: queues_def restrict_map_def split: if_splits)
    then have "x \<notin> set xs" if "x \<in> set ys" for x
      using queue_owner [OF d(2) that] queue_owner [OF r(5), of x] by auto
    with d(2) show ?thesis
      by (rule_tac queue_frame) (auto simp: h1_def auto_log_def)
  qed
  then have "queues h1 (Q |` set cs)"
    by (simp add: queues_def)
  moreover have "chain h1 (car_nex_u r) cs"
    using r(3) chain_cong [of h1 h] by (simp add: h1_def auto_log_def)
  ultimately obtain h' where h': "u3_auto_exit (car_nex_u r) h1 = Some h'"
      "eggs h' = eggs h1 |` (- set (in_order (Q |` set cs) cs))" "calls h' = calls h1 @ map (\<lambda>c. Exit (Option.bind (cars h1 c) car_exit_f) c) cs"
    using Cons.IH [of h1 "Q |` set cs"] Cons.prems(3,4) by auto
  have "in_order Q (c # cs) = xs @ in_order (Q |` set cs) cs"
    using r(4) by (auto simp: in_order_def intro!: arg_cong [where f = concat])
  then have "eggs h' = eggs h |` (- set (in_order Q (c # cs)))"
    by (auto simp: h'(2) h1_def auto_log_def Compl_Un Int_commute)
  moreover have "calls h' = calls h @ map (\<lambda>c. Exit (Option.bind (cars h c) car_exit_f) c) (c # cs)"
    using h'(3) r(2) by (simp add: h1_def auto_log_def)
  ultimately show ?case
    using step h'(1) by simp
qed

section \<open>Properties\<close>

text \<open>
  C11. Events leave the queues in order: taking up to \<open>n\<close> events returns the first \<open>n\<close> of the queues, one
  driver after the other in the order of the drivers, and the oldest of each driver first. It never fails,
  and returns fewer only when all queues are empty.
\<close>

theorem auto_events_in_order:
  assumes "queues h Q" and "chain h p cs" and "distinct cs" and "\<forall>c \<in> set cs. Q c \<noteq> None"
  shows "\<exists>h'. drain u3_auto_next n p h = Some (take n (in_order Q cs), h')"
  using oq.drain_in_order [OF assms] .

text \<open>
  Planning an event that is in no queue appends it to the queue of the driver: the links, the ends and the
  depth of the queue are those of the longer list, the queues of the other drivers and the order of the
  drivers are as before, and so are the contents of all events.
\<close>

theorem auto_plan_appends:
  assumes "queues h Q" and "Q car = Some xs" and "eggs h a \<noteq> None" and "unqueued Q a"
  shows "\<exists>h'. u3_auto_plan car a h = Some h' \<and> queues h' (Q(car \<mapsto> xs @ [a])) \<and> infos h' = infos h \<and>
    (\<forall>p cs. chain h' p cs \<longleftrightarrow> chain h p cs)"
  using plan_rep [OF assms(1,2) _ assms(4)] assms(3) by (fastforce simp: egg_of_def)

text \<open>
  Dropping an event by its driver removes it from the queue and frees it: the event before it and the event
  after it become neighbours, the depth decreases by one, nobody is notified, and all other queues and events
  are as before.
\<close>

theorem auto_drop_removes:
  assumes "queues h Q" and "Q car = Some (ys @ a # zs)"
  shows "\<exists>h'. u3_auto_drop car a h = Some h' \<and> queues h' (Q(car \<mapsto> ys @ zs)) \<and> (\<forall>x. x \<noteq> a \<longrightarrow> infos h' x = infos h x) \<and>
    calls h' = calls h \<and> (\<forall>p cs. chain h' p cs \<longleftrightarrow> chain h p cs)"
  using drop_rep [OF assms] by blast

text \<open>
  An event that was taken and is put back with \<^verbatim>\<open>u3_auto_redo\<close> is the next to be taken again, provided that
  no driver before its own has any, and all queues are then as they were before it was put back.
\<close>

theorem auto_redo_next:
  assumes "queues h Q" and "chain h p (ds @ d # cs)" and "\<forall>c \<in> set ds. Q c = Some []" and "Q d = Some xs"
    and "egg_of h a (Some d)" and "unqueued Q a" and "d \<notin> set ds"
  shows "\<exists>h' h'' ovo. u3_auto_redo d a h = Some h' \<and> u3_auto_next p h' = Some (Some (a, ovo), h'') \<and> queues h'' Q"
  using oq.redo_is_next [OF assms(1-5) _ assms(7)] assms(6) unfolding unqueued_def by blast

text \<open>
  C38. Dropping an event that was already taken from the queue, as \<^verbatim>\<open>_lord_writ_free\<close> does with the event
  of a pending writ, loses the queue of its driver: both ends become null and the depth is one less than the
  length, \<open>2 ^ 32 - 1\<close> for an empty queue, while the queued events stay allocated.
\<close>

theorem auto_drop_taken_loses:
  assumes "queue h car (a # xs)"
  shows "\<exists>ovo h1 h2 c. u3_auto_next (Some car) h = Some (Some (a, ovo), h1) \<and> queue h1 car xs \<and> u3_auto_drop car a h1 = Some h2 \<and>
    cars h2 car = Some c \<and> car_ext_u c = None \<and> car_ent_u c = None \<and> car_dep_w c = of_nat (length xs) - 1 \<and>
    (\<forall>x \<in> set xs. eggs h2 x \<noteq> None)"
proof -
  obtain h1 e where h1: "u3_auto_next (Some car) h = Some (Some (a, egg_noun (the (eggs h a))), h1)" "queue h1 car xs"
      "eggs h1 a = Some e" "egg_car_u e = Some car" "egg_pre_u e = None" "egg_nex_u e = None"
    using next_head [OF assms] by auto
  obtain c where c: "cars h1 car = Some c" "car_dep_w c = of_nat (length xs)"
    using h1(2) by (auto simp: queue_def)
  have "a \<notin> set xs"
    using assms by (simp add: queue_def)
  then have "\<forall>x \<in> set xs. x \<noteq> a \<and> eggs h1 x \<noteq> None"
    using queue_owner [OF h1(2)] by fastforce
  then show ?thesis
    using h1 c by (simp add: u3_auto_drop_def auto_steps u3_ovum_free_def)
qed

text \<open>
  Every effect of a list goes to the first driver that takes it: the drivers are asked in their order, those after
  the one that takes the effect are not asked, and an effect that all of them refuse is reported as lost. The
  loop over the drivers ends, whatever the drivers answer, as long as they do not relink the drivers.
\<close>

theorem auto_kick_routes:
  assumes "kick_keeps kick_f" and "chain h (Some car) (car # cs)"
  shows "u3_auto_kick kick_f car (fec_noun fecs) h = kick_all kick_f (car # cs) fecs h"
  using auto_kick_all [OF assms] .

text \<open>
  Initialization links the drivers that are not null in the reverse order of their creation, the terminal
  and the system drivers first, and asserts nothing that fails for drivers with the required callbacks.
\<close>

theorem auto_init_links:
  assumes "distinct (present [hind, behn, conn, ames, http, cttp, unix, term, fore])"
    and "\<forall>c \<in> set (present [hind, behn, conn, ames, http, cttp, unix, term, fore]). driver_ok h c"
  shows "\<exists>car h'. u3_auto_init hind behn conn ames http cttp unix term fore h = Some (car, h') \<and>
    chain h' car (present [fore, term, unix, cttp, http, ames, conn, behn, hind]) \<and> eggs h' = eggs h"
proof -
  have "present [fore, term, unix, cttp, http, ames, conn, behn, hind] = rev (present [hind, behn, conn, ames, http, cttp, unix, term, fore])"
    by (simp add: present_def rev_concat split: option.splits)
  then show ?thesis
    using auto_link_all_chain [of h None "[]" "[hind, behn, conn, ames, http, cttp, unix, term, fore]"] assms
    unfolding u3_auto_init_links by auto
qed

text \<open>
  Shutdown frees every queued event exactly once and no other event, and calls the exit callback of every
  driver once, in order.
\<close>

theorem auto_exit_frees:
  assumes "queues h Q" and "chain h p cs" and "distinct cs" and "\<forall>c \<in> set cs. Q c \<noteq> None"
  shows "\<exists>h'. u3_auto_exit p h = Some h' \<and> eggs h' = eggs h |` (- set (in_order Q cs)) \<and>
    calls h' = calls h @ map (\<lambda>c. Exit (Option.bind (cars h c) car_exit_f) c) cs"
  using exit_ok [OF assms] .

section \<open>Witnesses\<close>

text \<open>Two drivers; the first has the events 10 and 11, the second has the event 12, and the event 13 is in no queue.\<close>

definition example_car :: "addr list \<Rightarrow> addr option \<Rightarrow> u3_auto" where
  "example_car xs nex = \<lparr>car_nam_m = 0, car_liv_o = True, car_dep_w = of_nat (length xs), car_ent_u = final xs None,
     car_ext_u = first xs None, car_nex_u = nex, car_talk_f = Some 1, car_info_f = None, car_slog_f = None, car_kick_f = Some 2,
     car_exit_f = Some 3\<rparr>"

definition example_egg :: "addr option \<Rightarrow> addr option \<Rightarrow> addr \<Rightarrow> u3_ovum" where
  "example_egg pre nex car = \<lparr>egg_try_w = 0, egg_mil_w = 0, egg_tar = Atom 0, egg_wir = Cell (Atom 0) (Atom 0),
     egg_cad = Cell (Atom 1) (Atom 0), egg_lab = Atom 0, egg_del_o = True, egg_ptr_v = None, egg_news_f = None, egg_bail_f = None,
     egg_pre_u = pre, egg_nex_u = nex, egg_car_u = Some car\<rparr>"

definition example_heap :: auto_heap where
  "example_heap = \<lparr>eggs = [10 \<mapsto> example_egg None (Some 11) 0, 11 \<mapsto> example_egg (Some 10) None 0, 12 \<mapsto> example_egg None None 1,
     13 \<mapsto> example_egg None None 0], cars = [0 \<mapsto> example_car [10, 11] (Some 1), 1 \<mapsto> example_car [12] None], calls = []\<rparr>"

definition example_queues :: "addr \<rightharpoonup> addr list" where
  "example_queues = [0 \<mapsto> [10, 11], 1 \<mapsto> [12]]"

lemma example_heap_queues: "queues example_heap example_queues"
  by (simp add: queues_def queue_def example_queues_def example_heap_def example_car_def example_egg_def)

lemma example_heap_chain: "chain example_heap (Some 0) [0, 1]"
  by (simp add: example_heap_def example_car_def)

lemma example_unqueued: "unqueued example_queues 13"
  by (auto simp: unqueued_def example_queues_def ran_def split: if_splits)

theorem auto_events_in_order_witness:
  "queues example_heap example_queues \<and> (\<exists>h'. drain u3_auto_next 2 (Some 0) example_heap = Some ([10, 11], h'))"
  using auto_events_in_order [OF example_heap_queues example_heap_chain, of 2] example_heap_queues
  by (simp add: in_order_def example_queues_def)

theorem auto_plan_appends_witness:
  "\<exists>h'. u3_auto_plan 0 13 example_heap = Some h' \<and> queues h' [0 \<mapsto> [10, 11, 13], 1 \<mapsto> [12]]"
proof -
  have "example_queues 0 = Some [10, 11]" "eggs example_heap 13 \<noteq> None"
    by (simp_all add: example_queues_def example_heap_def)
  moreover have "example_queues(0 \<mapsto> [10, 11] @ [13]) = [0 \<mapsto> [10, 11, 13], 1 \<mapsto> [12]]"
    by (auto simp: example_queues_def fun_eq_iff)
  ultimately show ?thesis
    using auto_plan_appends [OF example_heap_queues _ _ example_unqueued, of 0 "[10, 11]"] by metis
qed

theorem auto_drop_removes_witness:
  "\<exists>h'. u3_auto_drop 0 10 example_heap = Some h' \<and> queues h' [0 \<mapsto> [11], 1 \<mapsto> [12]]"
proof -
  have "example_queues 0 = Some ([] @ 10 # [11])" "example_queues(0 \<mapsto> [] @ [11]) = [0 \<mapsto> [11], 1 \<mapsto> [12]]"
    by (auto simp: example_queues_def fun_eq_iff)
  then show ?thesis
    using auto_drop_removes [OF example_heap_queues, of 0 "[]" 10 "[11]"] by metis
qed

theorem auto_redo_next_witness:
  "\<exists>h' h'' ovo. u3_auto_redo 0 13 example_heap = Some h' \<and> u3_auto_next (Some 0) h' = Some (Some (13, ovo), h'') \<and>
    queues h'' example_queues"
proof -
  have "example_queues 0 = Some [10, 11]" "egg_of example_heap 13 (Some 0)"
    by (simp_all add: example_queues_def example_heap_def egg_of_def example_egg_def)
  then show ?thesis
    using auto_redo_next [OF example_heap_queues, of "Some 0" "[]" 0 "[1]" "[10, 11]" 13] example_heap_chain example_unqueued by simp
qed

theorem auto_drop_taken_loses_witness:
  "\<exists>ovo h1 h2 c. u3_auto_next (Some 0) example_heap = Some (Some (10, ovo), h1) \<and> queue h1 0 [11] \<and> u3_auto_drop 0 10 h1 = Some h2 \<and>
    cars h2 0 = Some c \<and> car_ext_u c = None \<and> car_dep_w c = 0 \<and> eggs h2 11 \<noteq> None"
proof -
  have "queue example_heap 0 [10, 11]"
    using example_heap_queues by (simp add: queues_def example_queues_def)
  from auto_drop_taken_loses [OF this] show ?thesis
    by force
qed

theorem auto_kick_routes_witness:
  "u3_auto_kick (\<lambda>car wir cad h. Some (car = 1, auto_log (Talk None car) h)) 0 (fec_noun [(Atom 7, Cell (Atom 1) (Atom 2))]) example_heap =
    Some (example_heap\<lparr>calls := [Talk None 0, Talk None 1]\<rparr>)"
proof -
  have k: "kick_keeps (\<lambda>car wir cad h. Some (car = 1, auto_log (Talk None car) h))"
    by (simp add: kick_keeps_def auto_log_def)
  show ?thesis
    unfolding auto_kick_routes [OF k example_heap_chain] by (simp add: auto_log_def example_heap_def)
qed

theorem auto_init_links_witness:
  "\<exists>car h'. u3_auto_init (Some 0) None (Some 1) None None None None None None example_heap = Some (car, h') \<and> chain h' car [1, 0]"
proof -
  have "driver_ok example_heap 0" "driver_ok example_heap 1"
    by (simp_all add: driver_ok_def example_heap_def example_car_def)
  then show ?thesis
    using auto_init_links [of "Some 0" None "Some 1" None None None None None None example_heap] by auto
qed

theorem auto_exit_frees_witness:
  "\<exists>h'. u3_auto_exit (Some 0) example_heap = Some h' \<and> dom (eggs h') = {13} \<and> calls h' = [Exit (Some 3) 0, Exit (Some 3) 1]"
proof -
  have "\<forall>c \<in> set [0, 1]. example_queues c \<noteq> None" "in_order example_queues [0, 1] = [10, 11, 12]"
    by (simp_all add: example_queues_def in_order_def)
  then obtain h' where h': "u3_auto_exit (Some 0) example_heap = Some h'" "eggs h' = eggs example_heap |` (- {10, 11, 12})"
      "calls h' = calls example_heap @ map (\<lambda>c. Exit (Option.bind (cars example_heap c) car_exit_f) c) [0, 1]"
    using auto_exit_frees [OF example_heap_queues example_heap_chain] by auto
  have "dom (eggs h') = {13}"
    unfolding h'(2) by (auto simp: example_heap_def)
  moreover have "calls h' = [Exit (Some 3) 0, Exit (Some 3) 1]"
    unfolding h'(3) by (simp add: example_heap_def example_car_def)
  ultimately show ?thesis
    using h'(1) by blast
qed

end
