(* ===== verification/Ames_Packet.thy ===== *)
theory Ames_Packet
  imports Ur_Hashcons
begin

text \<open>
  The packet format of the network driver, \<^verbatim>\<open>pkg/vere/io/ames.c\<close>: parsing and serializing the header
  and the body of a packet, lanes, and the rewriting of a packet that is relayed for another ship.

  Words keep their width: bytes, 16, 32 and 64 bits. A loobean is a byte, zero for yes. A byte array is a
  list; a pointer into one is the rest of the list from there. Atoms that hold packets are their bytes,
  least significant first, without trailing null bytes.
\<close>

unbundle bit_operations_syntax

type_synonym u16 = "16 word"

definition c3y :: byte where "c3y = 0"
definition c3n :: byte where "c3n = 1"

section \<open>State\<close>

record u3_lane =
  lane_pip_w :: u32
  lane_por_s :: u16

record u3_head =
  head_sim_o :: byte
  head_ver_y :: byte
  head_sac_y :: byte
  head_rac_y :: byte
  head_mug_l :: u32
  head_rel_o :: byte

record u3_body =
  body_sen_d :: "u64 \<times> u64"
  body_rec_d :: "u64 \<times> u64"
  body_sic_y :: byte
  body_ric_y :: byte
  body_con_s :: u16
  body_con_y :: "byte list"
  body_rog_d :: u64
  body_mug_l :: u32

section \<open>Mugs and atoms\<close>

definition u3r_mug_bytes :: "murmur \<Rightarrow> byte list \<Rightarrow> nat \<Rightarrow> u32" where
  "u3r_mug_bytes murmur buf_y len_w = mug_loop (murmur (take len_w buf_y)) 8 0xcafebabe 0x7fff"

definition u3i_bytes :: "nat \<Rightarrow> byte list \<Rightarrow> byte list" where
  "u3i_bytes a_w b_y = take (strip_zeros a_w b_y) b_y"

section \<open>Headers\<close>

definition ames_sift_head :: "byte list \<Rightarrow> byte \<times> u3_head" where
  "ames_sift_head buf_y =
     (let hed_w :: u32 = ucast (buf_y ! 0) OR push_bit 8 (ucast (buf_y ! 1)) OR push_bit 16 (ucast (buf_y ! 2))
            OR push_bit 24 (ucast (buf_y ! 3));
          hed_u = \<lparr>head_sim_o = ucast (drop_bit 3 hed_w AND 0x1), head_ver_y = ucast (drop_bit 4 hed_w AND 0x7),
                   head_sac_y = ucast (drop_bit 7 hed_w AND 0x3), head_rac_y = ucast (drop_bit 9 hed_w AND 0x3),
                   head_mug_l = drop_bit 11 hed_w AND 0xfffff, head_rel_o = ucast (drop_bit 31 hed_w AND 0x1)\<rparr>
      in (head_sim_o hed_u, hed_u))"

text \<open>\<open>None\<close> is the failed assertion about the protocol version.\<close>

definition ames_etch_head :: "u3_head \<Rightarrow> byte list option" where
  "ames_etch_head hed_u =
     (let hed_w :: u32 = push_bit 3 (ucast (head_sim_o hed_u) AND 0x1) XOR push_bit 4 (ucast (head_ver_y hed_u) AND 0x7)
            XOR push_bit 7 (ucast (head_sac_y hed_u) AND 0x3) XOR push_bit 9 (ucast (head_rac_y hed_u) AND 0x3)
            XOR push_bit 11 (head_mug_l hed_u AND 0xfffff) XOR push_bit 31 (ucast (head_rel_o hed_u) AND 0x1)
      in if head_ver_y hed_u \<noteq> 0 then None
         else Some [ucast (hed_w AND 0xff), ucast (drop_bit 8 hed_w AND 0xff), ucast (drop_bit 16 hed_w AND 0xff),
                    ucast (drop_bit 24 hed_w AND 0xff)])"

section \<open>Ships\<close>

definition ames_chub_bytes :: "byte list \<Rightarrow> u64" where
  "ames_chub_bytes byt_y =
     ucast (byt_y ! 0) OR push_bit 8 (ucast (byt_y ! 1)) OR push_bit 16 (ucast (byt_y ! 2)) OR push_bit 24 (ucast (byt_y ! 3))
     OR push_bit 32 (ucast (byt_y ! 4)) OR push_bit 40 (ucast (byt_y ! 5)) OR push_bit 48 (ucast (byt_y ! 6))
     OR push_bit 56 (ucast (byt_y ! 7))"

definition ames_ship_to_chubs :: "nat \<Rightarrow> byte list \<Rightarrow> u64 \<times> u64" where
  "ames_ship_to_chubs len_y buf_y =
     (let sip_y = take (min 16 len_y) buf_y @ replicate (16 - min 16 len_y) 0
      in (ames_chub_bytes sip_y, ames_chub_bytes (drop 8 sip_y)))"

definition ames_bytes_chub :: "u64 \<Rightarrow> byte list" where
  "ames_bytes_chub num_d =
     [ucast (num_d AND 0xff), ucast (drop_bit 8 num_d AND 0xff), ucast (drop_bit 16 num_d AND 0xff),
      ucast (drop_bit 24 num_d AND 0xff), ucast (drop_bit 32 num_d AND 0xff), ucast (drop_bit 40 num_d AND 0xff),
      ucast (drop_bit 48 num_d AND 0xff), ucast (drop_bit 56 num_d AND 0xff)]"

definition ames_ship_of_chubs :: "u64 \<times> u64 \<Rightarrow> nat \<Rightarrow> byte list" where
  "ames_ship_of_chubs sip_d len_y =
     (let sip_y = ames_bytes_chub (fst sip_d) @ ames_bytes_chub (snd sip_d) in take (min 16 len_y) sip_y)"

section \<open>Bodies\<close>

text \<open>The lengths of the sender, of the receiver and of the origin, from the header.\<close>

definition head_sen_y :: "u3_head \<Rightarrow> nat" where
  "head_sen_y hed_u = u8 (2 * 2 ^ unat (head_sac_y hed_u))"

definition head_rec_y :: "u3_head \<Rightarrow> nat" where
  "head_rec_y hed_u = u8 (2 * 2 ^ unat (head_rac_y hed_u))"

definition head_rog_y :: "u3_head \<Rightarrow> nat" where
  "head_rog_y hed_u = (if c3y = head_rel_o hed_u then 6 else 0)"

text \<open>\<open>None\<close> is the rejection of a packet that is too short for its addresses.\<close>

definition ames_sift_body :: "murmur \<Rightarrow> u3_head \<Rightarrow> nat \<Rightarrow> byte list \<Rightarrow> u3_body option" where
  "ames_sift_body murmur hed_u len_w bod_y =
     (let rog_y = head_rog_y hed_u; sen_y = head_sen_y hed_u; rec_y = head_rec_y hed_u
      in if len_w \<le> 1 + sen_y + rec_y + rog_y then None
         else let rog_d = (if rog_y \<noteq> 0 then ames_chub_bytes (take rog_y bod_y @ replicate (8 - rog_y) 0) else 0);
                  gob_y = drop rog_y bod_y; gob_s :: u16 = of_nat (len_w - rog_y);
                  mug_l = u3r_mug_bytes murmur gob_y (unat gob_s) AND 0xfffff
              in Some \<lparr>body_sen_d = ames_ship_to_chubs sen_y (drop 1 gob_y),
                       body_rec_d = ames_ship_to_chubs rec_y (drop (1 + sen_y) gob_y),
                       body_sic_y = gob_y ! 0 AND 0xf, body_ric_y = drop_bit 4 (gob_y ! 0) AND 0xf,
                       body_con_s = gob_s - 1 - of_nat sen_y - of_nat rec_y,
                       body_con_y = drop (1 + sen_y + rec_y) gob_y, body_rog_d = rog_d, body_mug_l = mug_l\<rparr>)"

definition ames_etch_pack :: "u3_head \<Rightarrow> u3_body \<Rightarrow> byte list option" where
  "ames_etch_pack hed_u bod_u =
     (let sen_y = head_sen_y hed_u; rec_y = head_rec_y hed_u; rog_y = head_rog_y hed_u
      in map_option (\<lambda>hed_y.
           hed_y @ (if rog_y \<noteq> 0 then take rog_y (ames_bytes_chub (body_rog_d bod_u)) else []) @
           [(body_sic_y bod_u AND 0xf) XOR push_bit 4 (body_ric_y bod_u AND 0xf)] @
           ames_ship_of_chubs (body_sen_d bod_u) sen_y @ ames_ship_of_chubs (body_rec_d bod_u) rec_y @
           take (unat (body_con_s bod_u)) (body_con_y bod_u))
         (ames_etch_head hed_u))"

section \<open>Lanes\<close>

definition u3_ames_decode_lane :: "nat \<Rightarrow> u3_lane" where
  "u3_ames_decode_lane lan =
     (if 2 ^ 64 \<le> lan \<or> drop_bit 48 (of_nat lan :: u64) \<noteq> 0 then \<lparr>lane_pip_w = 0, lane_por_s = 0\<rparr>
      else \<lparr>lane_pip_w = ucast (of_nat lan :: u64), lane_por_s = ucast (drop_bit 32 (of_nat lan :: u64))\<rparr>)"

definition u3_ames_lane_to_chub :: "u3_lane \<Rightarrow> u64" where
  "u3_ames_lane_to_chub lan = push_bit 32 (ucast (lane_por_s lan)) XOR ucast (lane_pip_w lan)"

definition u3_ames_encode_lane :: "u3_lane \<Rightarrow> nat" where
  "u3_ames_encode_lane lan = unat (u3_ames_lane_to_chub lan)"

section \<open>Relayed packets\<close>

text \<open>A packet as it was received: its lane of origin, header and body (without the list of packets).\<close>

record u3_panc =
  panc_ore_u :: u3_lane
  panc_hed_u :: u3_head
  panc_bod_u :: u3_body

definition ames_galaxy :: "u64 \<times> u64 \<Rightarrow> bool" where
  "ames_galaxy sip_d \<longleftrightarrow> fst sip_d < 256 \<and> snd sip_d = 0"

definition ames_serialize_packet :: "u3_panc \<Rightarrow> byte \<Rightarrow> (byte list \<times> u3_panc) option" where
  "ames_serialize_packet pac_u dop_o =
     (let pac_u =
            (if c3y = dop_o \<and> c3n = head_rel_o (panc_hed_u pac_u) \<and> \<not> ames_galaxy (body_sen_d (panc_bod_u pac_u))
             then pac_u\<lparr>panc_hed_u := (panc_hed_u pac_u)\<lparr>head_rel_o := c3y\<rparr>,
                        panc_bod_u := (panc_bod_u pac_u)\<lparr>body_rog_d := u3_ames_lane_to_chub (panc_ore_u pac_u)\<rparr>\<rparr>
             else pac_u)
      in map_option (\<lambda>pac_y. (u3i_bytes (length pac_y) pac_y, pac_u)) (ames_etch_pack (panc_hed_u pac_u) (panc_bod_u pac_u)))"

section \<open>Words and bytes\<close>

lemma and_masks:
  "w AND 0x1 = take_bit 1 (w :: 'a::len word)" "w AND 0x3 = take_bit 2 w" "w AND 0x7 = take_bit 3 w"
  "w AND 0xf = take_bit 4 w" "w AND 0xff = take_bit 8 w" "w AND 0xfffff = take_bit 20 w"
  by (simp_all add: take_bit_eq_mask mask_eq_exp_minus_1)

lemma word32_of_bytes:
  fixes w :: u32
  shows "ucast (ucast (w AND 0xff) :: byte) OR push_bit 8 (ucast (ucast (drop_bit 8 w AND 0xff) :: byte)) OR
     push_bit 16 (ucast (ucast (drop_bit 16 w AND 0xff) :: byte)) OR push_bit 24 (ucast (ucast (drop_bit 24 w AND 0xff) :: byte)) = w"
    (is "?lhs = w")
proof (rule bit_word_eqI)
  fix i
  assume "i < LENGTH(32)"
  then consider "i < 8" | "8 \<le> i" "i < 16" | "16 \<le> i" "i < 24" | "24 \<le> i" "i < 32"
    by force
  then show "bit ?lhs i = bit w i"
    by cases (simp_all add: and_masks bit_simps less_diff_conv2)
qed

text \<open>A number and its eight bytes, by position.\<close>

lemma less_8_cases: "k < (8 :: nat) \<Longrightarrow> k = 0 \<or> k = 1 \<or> k = 2 \<or> k = 3 \<or> k = 4 \<or> k = 5 \<or> k = 6 \<or> k = 7"
  by linarith

lemma ames_bytes_chub_nth: "k < 8 \<Longrightarrow> ames_bytes_chub d ! k = ucast (drop_bit (8 * k) d)"
  unfolding ames_bytes_chub_def and_masks
  by (drule less_8_cases) (elim disjE; simp; auto intro!: bit_word_eqI simp: bit_simps)

lemma length_ames_bytes_chub [simp]: "length (ames_bytes_chub d) = 8"
  by (simp add: ames_bytes_chub_def)

lemma bit_ames_chub_bytes:
  assumes "i < 64"
  shows "bit (ames_chub_bytes bs) i = bit (bs ! (i div 8)) (i mod 8)"
proof -
  define k r where "k = i div 8" and "r = i mod 8"
  have i: "i = 8 * k + r" "r < 8" "k < 8"
    using assms by (simp_all add: k_def r_def)
  have "bit (ames_chub_bytes bs) (8 * k + r) = bit (bs ! k) r"
    unfolding ames_chub_bytes_def using i(2) less_8_cases [OF i(3)] by (elim disjE) (simp_all add: bit_simps)
  then show ?thesis
    unfolding i(1) [symmetric] unfolding k_def r_def .
qed

lemma ames_chub_bytes_eqI:
  assumes "\<And>k. k < 8 \<Longrightarrow> bs ! k = ucast (drop_bit (8 * k) d)"
  shows "ames_chub_bytes bs = d"
proof (rule bit_word_eqI)
  fix i
  assume "i < LENGTH(64)"
  then have i: "i < 64" "i div 8 < 8" "8 * (i div 8) + i mod 8 = i"
    by auto
  then show "bit (ames_chub_bytes bs) i = bit d i"
    using assms [OF i(2)] by (simp add: bit_ames_chub_bytes bit_simps)
qed

lemma ames_bytes_chub_eqI:
  assumes "length bs = 8"
  shows "ames_bytes_chub (ames_chub_bytes bs) = bs"
proof (rule nth_equalityI)
  fix k
  assume "k < length (ames_bytes_chub (ames_chub_bytes bs))"
  then have k: "k < 8"
    by simp
  show "ames_bytes_chub (ames_chub_bytes bs) ! k = bs ! k"
    unfolding ames_bytes_chub_nth [OF k]
    by (rule bit_word_eqI) (use k in \<open>simp add: bit_simps bit_ames_chub_bytes\<close>)
qed (use assms in simp)

section \<open>Ships and headers\<close>

text \<open>The ship number fits into this many bytes.\<close>

definition ship_fits :: "nat \<Rightarrow> u64 \<times> u64 \<Rightarrow> bool" where
  "ship_fits len_y sip_d \<longleftrightarrow> unat (fst sip_d) < 2 ^ (8 * len_y) \<and> unat (snd sip_d) < 2 ^ (8 * (len_y - 8))"

lemma length_ship_of_chubs: "len \<le> 16 \<Longrightarrow> length (ames_ship_of_chubs d len) = len"
  by (simp add: ames_ship_of_chubs_def)

lemma high_byte_zero:
  fixes d :: u64
  assumes "unat d < 2 ^ (8 * n)" and "n \<le> k"
  shows "ucast (drop_bit (8 * k) d) = (0 :: byte)"
proof (rule bit_word_eqI)
  fix i
  show "bit (ucast (drop_bit (8 * k) d) :: byte) i = bit 0 i"
    using bit_unat_bound [OF assms(1), of "8 * k + i"] assms(2) by (auto simp: bit_simps)
qed

lemma ship_to_of_chubs:
  assumes "len \<le> 16" and "ship_fits len d"
  shows "ames_ship_to_chubs len (ames_ship_of_chubs d len @ xs) = d"
proof -
  define sip where "sip = ames_ship_of_chubs d len @ replicate (16 - len) 0"
  define both where "both = ames_bytes_chub (fst d) @ ames_bytes_chub (snd d)"
  have sip: "sip = take len both @ replicate (16 - len) 0" "length both = 16"
    using assms(1) by (simp_all add: sip_def ames_ship_of_chubs_def both_def)
  have nth: "sip ! k = (if k < len then (ames_bytes_chub (fst d) @ ames_bytes_chub (snd d)) ! k else 0)" if "k < 16" for k
    unfolding both_def [symmetric] using assms(1) that by (simp add: sip nth_append)
  have "ames_chub_bytes sip = fst d"
  proof (rule ames_chub_bytes_eqI)
    fix k :: nat
    assume k: "k < 8"
    then show "sip ! k = ucast (drop_bit (8 * k) (fst d))"
      using nth [of k] high_byte_zero [of "fst d" len k] assms(2) by (simp add: nth_append ames_bytes_chub_nth ship_fits_def)
  qed
  moreover have "ames_chub_bytes (drop 8 sip) = snd d"
  proof (rule ames_chub_bytes_eqI)
    fix k :: nat
    assume k: "k < 8"
    have "length sip = 16"
      using assms(1) by (simp add: sip_def length_ship_of_chubs)
    then have "drop 8 sip ! k = sip ! (8 + k)"
      by simp
    then show "drop 8 sip ! k = ucast (drop_bit (8 * k) (snd d))"
      using nth [of "8 + k"] high_byte_zero [of "snd d" "len - 8" k] assms(2) k
      by (simp add: nth_append ames_bytes_chub_nth ship_fits_def split: if_splits)
  qed
  ultimately show ?thesis
    using assms(1) by (simp add: ames_ship_to_chubs_def sip_def length_ship_of_chubs)
qed

lemma ship_of_to_chubs:
  assumes "len \<le> 16" and "len \<le> length buf"
  shows "ames_ship_of_chubs (ames_ship_to_chubs len buf) len = take len buf"
proof -
  define sip where "sip = take len buf @ replicate (16 - len) 0"
  have len: "length sip = 16"
    using assms by (simp add: sip_def)
  have "ames_chub_bytes sip = ames_chub_bytes (take 8 sip)"
    by (simp add: ames_chub_bytes_def)
  then have "ames_bytes_chub (ames_chub_bytes sip) @ ames_bytes_chub (ames_chub_bytes (drop 8 sip)) = sip"
    using ames_bytes_chub_eqI [of "take 8 sip"] ames_bytes_chub_eqI [of "drop 8 sip"] len by simp
  then show ?thesis
    using assms by (simp add: ames_ship_of_chubs_def ames_ship_to_chubs_def sip_def [symmetric]) (simp add: sip_def)
qed

lemma ship_to_chubs_fits:
  assumes "len \<le> 16" and "len \<le> length buf"
  shows "ship_fits len (ames_ship_to_chubs len buf)"
proof -
  define sip where "sip = take len buf @ replicate (16 - len) 0"
  have len: "length sip = 16"
    using assms by (simp add: sip_def)
  have nth: "sip ! k = 0" if "len \<le> k" "k < 16" for k
    using assms that by (simp add: sip_def nth_append)
  have "unat (ames_chub_bytes sip) < 2 ^ (8 * len)"
  proof (rule unat_less_bits)
    fix i
    assume "8 * len \<le> i"
    then have "len \<le> i div 8"
      by linarith
    then show "\<not> bit (ames_chub_bytes sip) i"
      using nth [of "i div 8"] bit_ames_chub_bytes [of i sip] by (cases "i < 64") (auto dest: bit_imp_le_length)
  qed
  moreover have "unat (ames_chub_bytes (drop 8 sip)) < 2 ^ (8 * (len - 8))"
  proof (rule unat_less_bits)
    fix i
    assume "8 * (len - 8) \<le> i"
    then have "len \<le> 8 + i div 8"
      by linarith
    then show "\<not> bit (ames_chub_bytes (drop 8 sip)) i"
      using nth [of "8 + i div 8"] bit_ames_chub_bytes [of i "drop 8 sip"] len
      by (cases "i < 64") (auto dest: bit_imp_le_length)
  qed
  ultimately show ?thesis
    using assms by (simp add: ship_fits_def ames_ship_to_chubs_def sip_def)
qed

lemma sift_etch_head:
  assumes "ames_etch_head hed = Some buf"
  shows "ames_sift_head (buf @ xs) =
    (head_sim_o hed AND 1,
     \<lparr>head_sim_o = head_sim_o hed AND 1, head_ver_y = 0, head_sac_y = head_sac_y hed AND 3, head_rac_y = head_rac_y hed AND 3,
      head_mug_l = head_mug_l hed AND 0xfffff, head_rel_o = head_rel_o hed AND 1\<rparr>)"
proof -
  define w :: u32 where "w = push_bit 3 (ucast (head_sim_o hed) AND 0x1) XOR push_bit 4 (ucast (head_ver_y hed) AND 0x7)
    XOR push_bit 7 (ucast (head_sac_y hed) AND 0x3) XOR push_bit 9 (ucast (head_rac_y hed) AND 0x3)
    XOR push_bit 11 (head_mug_l hed AND 0xfffff) XOR push_bit 31 (ucast (head_rel_o hed) AND 0x1)"
  have ver: "head_ver_y hed = 0"
    and buf: "buf = [ucast (w AND 0xff), ucast (drop_bit 8 w AND 0xff), ucast (drop_bit 16 w AND 0xff), ucast (drop_bit 24 w AND 0xff)]"
    using assms by (auto simp: ames_etch_head_def Let_def w_def split: if_splits)
  have "ucast (drop_bit 3 w AND 0x1) = head_sim_o hed AND 1"
    "ucast (drop_bit 4 w AND 0x7) = (0 :: byte)"
    "ucast (drop_bit 7 w AND 0x3) = head_sac_y hed AND 3" "ucast (drop_bit 9 w AND 0x3) = head_rac_y hed AND 3"
    "drop_bit 11 w AND 0xfffff = head_mug_l hed AND 0xfffff" "ucast (drop_bit 31 w AND 0x1) = head_rel_o hed AND 1"
    unfolding w_def ver and_masks(2-) by (rule bit_word_eqI; auto simp: bit_simps)+
  then show ?thesis
    using word32_of_bytes [of w] by (simp add: ames_sift_head_def buf)
qed

section \<open>Packets\<close>

text \<open>The part of a packet that its mug covers.\<close>

definition body_gob :: "u3_head \<Rightarrow> u3_body \<Rightarrow> byte list" where
  "body_gob hed bod =
     [(body_sic_y bod AND 0xf) XOR push_bit 4 (body_ric_y bod AND 0xf)] @ ames_ship_of_chubs (body_sen_d bod) (head_sen_y hed) @
     ames_ship_of_chubs (body_rec_d bod) (head_rec_y hed) @ take (unat (body_con_s bod)) (body_con_y bod)"

text \<open>The headers and bodies whose fields fit into a packet.\<close>

definition head_wf :: "u3_head \<Rightarrow> bool" where
  "head_wf hed \<longleftrightarrow> head_sim_o hed \<in> {c3y, c3n} \<and> head_ver_y hed = 0 \<and> unat (head_sac_y hed) < 4 \<and> unat (head_rac_y hed) < 4 \<and>
     unat (head_mug_l hed) < 2 ^ 20 \<and> head_rel_o hed \<in> {c3y, c3n}"

definition body_wf :: "u3_head \<Rightarrow> u3_body \<Rightarrow> bool" where
  "body_wf hed bod \<longleftrightarrow> ship_fits (head_sen_y hed) (body_sen_d bod) \<and> ship_fits (head_rec_y hed) (body_rec_d bod) \<and>
     unat (body_sic_y bod) < 16 \<and> unat (body_ric_y bod) < 16 \<and> 0 < length (body_con_y bod) \<and>
     length (body_con_y bod) = unat (body_con_s bod) \<and> length (body_con_y bod) < 2 ^ 15 \<and>
     unat (body_rog_d bod) < 2 ^ (8 * head_rog_y hed)"

lemma take_bit_small: "unat (w :: 'a::len word) < 2 ^ n \<Longrightarrow> take_bit n w = w"
  by (simp add: word_unat_eq_iff unsigned_take_bit_eq take_bit_nat_eq_self)

lemma head_sen_rec:
  assumes "unat (head_sac_y hed) < 4" and "unat (head_rac_y hed) < 4"
  shows "2 \<le> head_sen_y hed" "head_sen_y hed \<le> 16" "2 \<le> head_rec_y hed" "head_rec_y hed \<le> 16"
proof -
  have "2 \<le> u8 (2 * 2 ^ n) \<and> u8 (2 * 2 ^ n) \<le> 16" if "n < 4" for n :: nat
  proof -
    from that have "n = 0 \<or> n = 1 \<or> n = 2 \<or> n = 3"
      by linarith
    then show ?thesis
      by (auto simp: u8_def)
  qed
  then show "2 \<le> head_sen_y hed" "head_sen_y hed \<le> 16" "2 \<le> head_rec_y hed" "head_rec_y hed \<le> 16"
    using assms by (simp_all add: head_sen_y_def head_rec_y_def)
qed

lemma sift_etch_head_wf:
  assumes "head_wf hed" and "ames_etch_head hed = Some buf"
  shows "ames_sift_head (buf @ xs) = (head_sim_o hed, hed)" and "length buf = 4"
proof -
  have "head_sac_y hed AND 3 = head_sac_y hed" "head_rac_y hed AND 3 = head_rac_y hed"
    "head_mug_l hed AND 0xfffff = head_mug_l hed"
    using assms(1) take_bit_small [of "head_sac_y hed" 2] take_bit_small [of "head_rac_y hed" 2] take_bit_small [of "head_mug_l hed" 20]
    by (simp_all add: head_wf_def and_masks)
  moreover have "head_sim_o hed AND 1 = head_sim_o hed" "head_rel_o hed AND 1 = head_rel_o hed"
    using assms(1) by (auto simp: head_wf_def c3y_def c3n_def)
  ultimately show "ames_sift_head (buf @ xs) = (head_sim_o hed, hed)"
    using sift_etch_head [OF assms(2), of xs] assms(1) by (simp add: head_wf_def)
  show "length buf = 4"
    using assms(2) by (auto simp: ames_etch_head_def Let_def split: if_splits)
qed

lemma etch_head_wf: "head_wf hed \<Longrightarrow> \<exists>buf. ames_etch_head hed = Some buf"
  by (simp add: ames_etch_head_def head_wf_def)

lemma etch_pack_eq:
  "ames_etch_pack hed bod =
     map_option (\<lambda>hed_y. hed_y @ take (head_rog_y hed) (ames_bytes_chub (body_rog_d bod)) @ body_gob hed bod) (ames_etch_head hed)"
  by (simp add: ames_etch_pack_def body_gob_def Let_def head_rog_y_def)

lemma ticks_nibbles:
  assumes "unat (a :: byte) < 16" and "unat b < 16"
  shows "((a AND 0xf) XOR push_bit 4 (b AND 0xf)) AND 0xf = a" and "drop_bit 4 ((a AND 0xf) XOR push_bit 4 (b AND 0xf)) AND 0xf = b"
proof -
  have bits: "bit a i \<Longrightarrow> i < 4" "bit b i \<Longrightarrow> i < 4" for i
    using bit_unat_bound [of a 4 i] bit_unat_bound [of b 4 i] assms by simp_all
  show "((a AND 0xf) XOR push_bit 4 (b AND 0xf)) AND 0xf = a" "drop_bit 4 ((a AND 0xf) XOR push_bit 4 (b AND 0xf)) AND 0xf = b"
    unfolding and_masks by (rule bit_word_eqI; use bits in \<open>auto simp: bit_simps\<close>)+
qed

lemma origin_bytes:
  assumes "unat d < 2 ^ (8 * n)" and "n \<le> 8"
  shows "ames_chub_bytes (take n (ames_bytes_chub d) @ replicate (8 - n) 0) = d"
proof (rule ames_chub_bytes_eqI)
  fix k :: nat
  assume "k < 8"
  then show "(take n (ames_bytes_chub d) @ replicate (8 - n) 0) ! k = ucast (drop_bit (8 * k) d)"
    using high_byte_zero [OF assms(1), of k] assms(2) by (simp add: nth_append ames_bytes_chub_nth)
qed

lemma length_body_gob:
  assumes "unat (head_sac_y hed) < 4" and "unat (head_rac_y hed) < 4" and "body_wf hed bod"
  shows "length (body_gob hed bod) = 1 + head_sen_y hed + head_rec_y hed + unat (body_con_s bod)"
  using head_sen_rec [OF assms(1,2)] assms(3) by (simp add: body_gob_def length_ship_of_chubs body_wf_def)

lemma sift_body_gob:
  assumes s: "unat (head_sac_y hed) < 4" "unat (head_rac_y hed) < 4" and wf: "body_wf hed bod"
    and bod_y: "bod_y = take (head_rog_y hed) (ames_bytes_chub (body_rog_d bod)) @ body_gob hed bod"
  shows "ames_sift_body murmur hed (length bod_y) bod_y =
    Some (bod\<lparr>body_mug_l := u3r_mug_bytes murmur (body_gob hed bod) (length (body_gob hed bod)) AND 0xfffff\<rparr>)"
proof -
  note sr = head_sen_rec [OF s] and len = length_body_gob [OF s wf]
  let ?sen = "head_sen_y hed" and ?rec = "head_rec_y hed" and ?rog = "head_rog_y hed" and ?gob = "body_gob hed bod"
  have b: "ship_fits ?sen (body_sen_d bod)" "ship_fits ?rec (body_rec_d bod)" "unat (body_sic_y bod) < 16" "unat (body_ric_y bod) < 16"
      "0 < unat (body_con_s bod)" "length (body_con_y bod) = unat (body_con_s bod)" "unat (body_con_s bod) < 2 ^ 15"
      "unat (body_rog_d bod) < 2 ^ (8 * ?rog)"
    using wf by (auto simp: body_wf_def simp del: length_greater_0_conv)
  have rog: "?rog \<le> 6"
    by (simp add: head_rog_y_def)
  then have drop: "drop ?rog bod_y = ?gob" "length bod_y = ?rog + length ?gob" "take ?rog bod_y = take ?rog (ames_bytes_chub (body_rog_d bod))"
    by (simp_all add: bod_y)
  have "length ?gob < 2 ^ 16"
    using len sr b(7) by simp
  then have len16: "unat (of_nat (length ?gob) :: u16) = length ?gob"
    by (simp add: unat_of_nat)
  have con: "(of_nat (length ?gob) :: u16) - 1 - of_nat ?sen - of_nat ?rec = body_con_s bod"
    by (simp add: len)
  have d: "(if ?rog \<noteq> 0 then ames_chub_bytes (take ?rog bod_y @ replicate (8 - ?rog) 0) else 0) = body_rog_d bod"
    using origin_bytes [OF b(8)] rog drop(3) b(8) by (auto simp: unat_eq_zero)
  have parts: "drop 1 ?gob = ames_ship_of_chubs (body_sen_d bod) ?sen @ ames_ship_of_chubs (body_rec_d bod) ?rec @ body_con_y bod"
      "drop (1 + ?sen) ?gob = ames_ship_of_chubs (body_rec_d bod) ?rec @ body_con_y bod"
      "drop (1 + ?sen + ?rec) ?gob = body_con_y bod" "?gob ! 0 = (body_sic_y bod AND 0xf) XOR push_bit 4 (body_ric_y bod AND 0xf)"
    using sr b(6) by (simp_all add: body_gob_def length_ship_of_chubs)
  have ok: "\<not> length bod_y \<le> 1 + ?sen + ?rec + ?rog" and gob: "length bod_y - ?rog = length ?gob"
    using drop(2) len b(5) by simp_all
  show ?thesis
    unfolding ames_sift_body_def Let_def if_not_P [OF ok] d drop(1) parts ticks_nibbles [OF b(3,4)] gob len16 con
      ship_to_of_chubs [OF sr(2) b(1)] ship_to_of_chubs [OF sr(4) b(2)]
    by (cases bod) simp
qed

text \<open>A body that was parsed from a packet fits, and serializes to the bytes it was parsed from.\<close>

lemma origin_fits: "n \<le> 8 \<Longrightarrow> length bs = n \<Longrightarrow> unat (ames_chub_bytes (bs @ replicate (8 - n) 0)) < 2 ^ (8 * n)"
proof (rule unat_less_bits)
  fix i
  assume "n \<le> 8" "length bs = n" "8 * n \<le> i"
  then have "n \<le> i div 8"
    by linarith
  then show "\<not> bit (ames_chub_bytes (bs @ replicate (8 - n) 0)) i"
    using \<open>length bs = n\<close> \<open>n \<le> 8\<close> bit_ames_chub_bytes [of i "bs @ replicate (8 - n) 0"]
    by (cases "i < 64") (auto simp: nth_append dest: bit_imp_le_length)
qed

lemma nibbles_byte: "((b AND 0xf) AND 0xf) XOR push_bit 4 ((drop_bit 4 b AND 0xf) AND 0xf) = (b :: byte)"
proof (rule bit_word_eqI)
  fix i
  assume "i < LENGTH(8)"
  then consider "i < 4" | "4 \<le> i" "i < 8"
    by force
  then show "bit (((b AND 0xf) AND 0xf) XOR push_bit 4 ((drop_bit 4 b AND 0xf) AND 0xf)) i = bit b i"
    unfolding and_masks by cases (simp_all add: bit_simps less_diff_conv2)
qed

lemma sift_body_wf:
  assumes s: "unat (head_sac_y hed) < 4" "unat (head_rac_y hed) < 4"
    and sift: "ames_sift_body murmur hed (length bod_y) bod_y = Some bod" and len: "length bod_y < 2 ^ 15"
  shows "body_wf hed bod" and "body_gob hed bod = drop (head_rog_y hed) bod_y"
    and "body_mug_l bod = u3r_mug_bytes murmur (body_gob hed bod) (length (body_gob hed bod)) AND 0xfffff"
proof -
  note sr = head_sen_rec [OF s]
  let ?sen = "head_sen_y hed" and ?rec = "head_rec_y hed" and ?rog = "head_rog_y hed"
  define gob where "gob = drop ?rog bod_y"
  have big: "1 + ?sen + ?rec + ?rog < length bod_y"
    using sift by (auto simp: ames_sift_body_def Let_def split: if_splits)
  then have lg: "length gob = length bod_y - ?rog" "1 + ?sen + ?rec < length gob"
    by (simp_all add: gob_def)
  have "length gob < 2 ^ 15"
    using lg(1) len by linarith
  then have l16: "unat (of_nat (length gob) :: u16) = length gob"
    by (simp add: unat_of_nat)
  have bod: "bod = \<lparr>body_sen_d = ames_ship_to_chubs ?sen (drop 1 gob), body_rec_d = ames_ship_to_chubs ?rec (drop (1 + ?sen) gob),
      body_sic_y = gob ! 0 AND 0xf, body_ric_y = drop_bit 4 (gob ! 0) AND 0xf,
      body_con_s = of_nat (length gob) - 1 - of_nat ?sen - of_nat ?rec, body_con_y = drop (1 + ?sen + ?rec) gob,
      body_rog_d = (if ?rog \<noteq> 0 then ames_chub_bytes (take ?rog bod_y @ replicate (8 - ?rog) 0) else 0),
      body_mug_l = u3r_mug_bytes murmur gob (length gob) AND 0xfffff\<rparr>"
    using sift big lg(1) l16 by (simp add: ames_sift_body_def Let_def gob_def)
  have con: "unat (body_con_s bod) = length gob - (1 + ?sen + ?rec)"
  proof -
    have "(of_nat (length gob) :: u16) - 1 - of_nat ?sen - of_nat ?rec = of_nat (length gob - (1 + ?sen + ?rec))"
      using lg(2) by (simp add: of_nat_diff)
    then show ?thesis
      using len lg(1) by (simp add: bod unat_of_nat)
  qed
  have four: "unat (w AND 0xf) < 16" for w :: byte
    using take_bit_nat_less_exp [of 4 "unat w"] by (simp add: and_masks unsigned_take_bit_eq)
  have rog: "unat (body_rog_d bod) < 2 ^ (8 * ?rog)"
    using origin_fits [of ?rog "take ?rog bod_y"] big by (simp add: bod head_rog_y_def)
  have fits: "ship_fits ?sen (body_sen_d bod)" "ship_fits ?rec (body_rec_d bod)"
    using ship_to_chubs_fits [of ?sen "drop 1 gob"] ship_to_chubs_fits [of ?rec "drop (1 + ?sen) gob"] sr lg(2) by (simp_all add: bod)
  have "length (body_con_y bod) = unat (body_con_s bod)" "0 < length (body_con_y bod)" "length (body_con_y bod) < 2 ^ 15"
    unfolding con using lg(2) \<open>length gob < 2 ^ 15\<close> by (simp_all add: bod)
  with fits rog show "body_wf hed bod"
    unfolding body_wf_def using four by (simp add: bod)
  have tick: "(body_sic_y bod AND 0xf) XOR push_bit 4 (body_ric_y bod AND 0xf) = gob ! 0"
    unfolding bod u3_body.select_convs by (rule nibbles_byte)
  have "body_gob hed bod = [gob ! 0] @ take ?sen (drop 1 gob) @ take ?rec (drop (1 + ?sen) gob) @ drop (1 + ?sen + ?rec) gob"
    unfolding body_gob_def con tick using sr lg by (simp add: bod ship_of_to_chubs)
  also have "\<dots> = gob"
    using lg(2) by (metis (no_types, lifting) Cons_nth_drop_Suc One_nat_def add.commute append_Cons append_Nil append_take_drop_id drop_drop drop0 less_trans plus_1_eq_Suc zero_less_Suc add_lessD1 zero_less_one)
  finally show gob: "body_gob hed bod = drop (head_rog_y hed) bod_y"
    by (simp add: gob_def)
  then show "body_mug_l bod = u3r_mug_bytes murmur (body_gob hed bod) (length (body_gob hed bod)) AND 0xfffff"
    by (simp add: bod gob_def)
qed

section \<open>Relaying\<close>

lemma etch_pack_wf:
  assumes "head_wf hed" and "body_wf hed bod"
  obtains hed_y where "ames_etch_head hed = Some hed_y" and "length hed_y = 4" and "\<And>xs. ames_sift_head (hed_y @ xs) = (head_sim_o hed, hed)"
    and "ames_etch_pack hed bod = Some (hed_y @ take (head_rog_y hed) (ames_bytes_chub (body_rog_d bod)) @ body_gob hed bod)"
proof -
  obtain hed_y where h: "ames_etch_head hed = Some hed_y"
    using etch_head_wf [OF assms(1)] by blast
  show thesis
    using that [OF h sift_etch_head_wf(2) [OF assms(1) h] sift_etch_head_wf(1) [OF assms(1) h]] h by (simp add: etch_pack_eq)
qed

lemma sift_etch_pack:
  assumes "head_wf hed" and "body_wf hed bod"
  obtains pac where "ames_etch_pack hed bod = Some pac" and "4 \<le> length pac" and "ames_sift_head pac = (head_sim_o hed, hed)"
    and "ames_sift_body murmur hed (length pac - 4) (drop 4 pac) =
      Some (bod\<lparr>body_mug_l := u3r_mug_bytes murmur (body_gob hed bod) (length (body_gob hed bod)) AND 0xfffff\<rparr>)"
    and "drop 4 pac = take (head_rog_y hed) (ames_bytes_chub (body_rog_d bod)) @ body_gob hed bod"
proof -
  let ?bod_y = "take (head_rog_y hed) (ames_bytes_chub (body_rog_d bod)) @ body_gob hed bod"
  obtain hed_y where h: "length hed_y = 4" "\<And>xs. ames_sift_head (hed_y @ xs) = (head_sim_o hed, hed)" "ames_etch_pack hed bod = Some (hed_y @ ?bod_y)"
    using etch_pack_wf [OF assms] by metis
  have s: "unat (head_sac_y hed) < 4" "unat (head_rac_y hed) < 4"
    using assms(1) by (simp_all add: head_wf_def)
  have "drop 4 (hed_y @ ?bod_y) = ?bod_y" "length (hed_y @ ?bod_y) - 4 = length ?bod_y"
    using h(1) by simp_all
  then show thesis
    using that [OF h(3)] h(1,2) sift_body_gob [OF s assms(2) refl, of murmur] by simp
qed

lemma loobean_bit: "ucast ((w :: u32) AND 0x1) \<in> {c3y, c3n}"
  by (cases "even w") (simp_all add: c3y_def c3n_def and_one_eq odd_iff_mod_2_eq_one even_iff_mod_2_eq_zero)

lemma sift_head_sim: "ames_sift_head buf = (sim, hed) \<Longrightarrow> sim \<in> {c3y, c3n}"
  unfolding ames_sift_head_def Let_def prod.inject u3_head.select_convs using loobean_bit by metis

lemma sift_head_wf:
  assumes "ames_sift_head buf = (sim, hed)" and "head_ver_y hed = 0"
  shows "head_wf hed"
proof -
  have bits: "unat (ucast (w AND 0x3) :: byte) < 4" "unat (w AND 0xfffff) < 2 ^ 20" for w :: u32
  proof -
    show "unat (ucast (w AND 0x3) :: byte) < 4"
      using unat_less_bits [of 2 "ucast (w AND 0x3) :: byte"] by (simp add: and_masks bit_simps)
    show "unat (w AND 0xfffff) < 2 ^ 20"
      by (rule unat_less_bits) (simp add: and_masks bit_simps)
  qed
  obtain w :: u32 where "hed = \<lparr>head_sim_o = ucast (drop_bit 3 w AND 0x1), head_ver_y = ucast (drop_bit 4 w AND 0x7),
      head_sac_y = ucast (drop_bit 7 w AND 0x3), head_rac_y = ucast (drop_bit 9 w AND 0x3),
      head_mug_l = drop_bit 11 w AND 0xfffff, head_rel_o = ucast (drop_bit 31 w AND 0x1)\<rparr>"
    using assms(1) unfolding ames_sift_head_def Let_def prod.inject by metis
  then show ?thesis
    unfolding head_wf_def using bits loobean_bit assms(2) by simp
qed

end
