(* ===== verification/Ames_Properties.thy ===== *)
theory Ames_Properties
  imports Ames_Packet
begin

text \<open>
  The properties of the packet format of \<^verbatim>\<open>pkg/vere/io/ames.c\<close>: what is serialized is parsed back,
  a packet that is passed on unchanged keeps its bytes, a relayed packet passes the checks of the next hop
  and carries the lane it came from, and lanes survive their encoding.
\<close>

unbundle bit_operations_syntax

section \<open>Received packets\<close>

text \<open>
  A packet that passes the checks of \<^verbatim>\<open>_ames_hear\<close> on the header, the length and the mug, with the
  header and the body they read from it.
\<close>

definition packet_valid :: "murmur \<Rightarrow> byte list \<Rightarrow> u3_head \<Rightarrow> u3_body \<Rightarrow> bool" where
  "packet_valid murmur pac hed bod \<longleftrightarrow> 4 \<le> length pac \<and> ames_sift_head pac = (c3y, hed) \<and>
     ames_sift_body murmur hed (length pac - 4) (drop 4 pac) = Some bod \<and> body_mug_l bod = head_mug_l hed"

lemma packet_valid_wf:
  assumes "packet_valid murmur pac hed bod" and "head_ver_y hed = 0" and "length pac < 2 ^ 15"
  shows "head_wf hed" and "body_wf hed bod" and "body_gob hed bod = drop (head_rog_y hed) (drop 4 pac)"
    and "head_mug_l hed = u3r_mug_bytes murmur (body_gob hed bod) (length (body_gob hed bod)) AND 0xfffff"
    and "body_mug_l bod = head_mug_l hed"
proof -
  have v: "ames_sift_head pac = (c3y, hed)" "ames_sift_body murmur hed (length (drop 4 pac)) (drop 4 pac) = Some bod"
      "body_mug_l bod = head_mug_l hed" "length (drop 4 pac) < 2 ^ 15"
    using assms(1,3) by (simp_all add: packet_valid_def)
  show wf: "head_wf hed"
    by (rule sift_head_wf [OF v(1) assms(2)])
  then have s: "unat (head_sac_y hed) < 4" "unat (head_rac_y hed) < 4"
    by (simp_all add: head_wf_def)
  show "body_wf hed bod" "body_gob hed bod = drop (head_rog_y hed) (drop 4 pac)" "body_mug_l bod = head_mug_l hed"
      "head_mug_l hed = u3r_mug_bytes murmur (body_gob hed bod) (length (body_gob hed bod)) AND 0xfffff"
    using sift_body_wf [OF s v(2,4)] v(3) by simp_all
qed

text \<open>Packets made from parts that fit and whose mug is right are valid.\<close>

lemma etch_pack_valid:
  assumes "head_wf hed" and "body_wf hed bod" and "head_sim_o hed = c3y" and "body_mug_l bod = head_mug_l hed"
    and "head_mug_l hed = u3r_mug_bytes murmur (body_gob hed bod) (length (body_gob hed bod)) AND 0xfffff"
  obtains pac where "ames_etch_pack hed bod = Some pac" and "packet_valid murmur pac hed bod"
    and "drop 4 pac = take (head_rog_y hed) (ames_bytes_chub (body_rog_d bod)) @ body_gob hed bod"
proof -
  obtain pac where pac: "ames_etch_pack hed bod = Some pac" "4 \<le> length pac" "ames_sift_head pac = (head_sim_o hed, hed)"
      "ames_sift_body murmur hed (length pac - 4) (drop 4 pac) =
        Some (bod\<lparr>body_mug_l := u3r_mug_bytes murmur (body_gob hed bod) (length (body_gob hed bod)) AND 0xfffff\<rparr>)"
      "drop 4 pac = take (head_rog_y hed) (ames_bytes_chub (body_rog_d bod)) @ body_gob hed bod"
    using sift_etch_pack [OF assms(1,2)] by metis
  have "bod\<lparr>body_mug_l := u3r_mug_bytes murmur (body_gob hed bod) (length (body_gob hed bod)) AND 0xfffff\<rparr> = bod"
    using assms(4,5) by (cases bod) simp
  then have "packet_valid murmur pac hed bod"
    using pac assms(3,4) by (simp add: packet_valid_def)
  then show thesis
    using that pac(1,5) by blast
qed

section \<open>Lanes and atoms\<close>

lemma lane_chub_bounds: "unat (u3_ames_lane_to_chub lan) < 2 ^ 48"
  by (rule unat_less_bits) (auto simp: u3_ames_lane_to_chub_def bit_simps dest: bit_imp_le_length)

lemma lane_chub_parts:
  "ucast (u3_ames_lane_to_chub lan) = lane_pip_w lan" "ucast (drop_bit 32 (u3_ames_lane_to_chub lan)) = lane_por_s lan"
  "drop_bit 48 (u3_ames_lane_to_chub lan) = 0"
  by (rule bit_word_eqI; auto simp: u3_ames_lane_to_chub_def bit_simps dest: bit_imp_le_length)+

lemma decode_lane_chub: "u3_ames_decode_lane (unat (u3_ames_lane_to_chub lan)) = lan"
  using lane_chub_bounds [of lan] by (simp add: u3_ames_decode_lane_def lane_chub_parts)

lemma encode_decode_lane: "u3_ames_encode_lane (u3_ames_decode_lane lan) = (if lan < 2 ^ 48 then lan else 0)"
proof (cases "lan < 2 ^ 48")
  case True
  define w :: u64 where "w = of_nat lan"
  have w: "unat w = lan"
    using True by (simp add: w_def unat_of_nat)
  have bits: "bit w i \<Longrightarrow> i < 48" "bit w i \<Longrightarrow> i - 32 < 16" for i
    using bit_unat_bound [of w 48 i] True w by fastforce+
  have "drop_bit 48 w = 0"
    by (rule bit_word_eqI) (use bits in \<open>auto simp: bit_simps\<close>)
  moreover have "push_bit 32 (ucast (ucast (drop_bit 32 w) :: u16)) XOR ucast (ucast w :: u32) = w"
    by (rule bit_word_eqI) (use bits in \<open>auto simp: bit_simps\<close>)
  ultimately show ?thesis
    using True w by (simp add: u3_ames_decode_lane_def u3_ames_encode_lane_def u3_ames_lane_to_chub_def flip: w_def)
next
  case False
  have "drop_bit 48 (of_nat lan :: u64) \<noteq> 0" if "lan < 2 ^ 64"
  proof
    assume "drop_bit 48 (of_nat lan :: u64) = 0"
    then have "unat (of_nat lan :: u64) div 2 ^ 48 = 0"
      by (metis drop_bit_eq_div unat_drop_bit_eq unsigned_0)
    with that False show False
      by (simp add: unat_of_nat div_eq_0_iff)
  qed
  then show ?thesis
    using False by (auto simp: u3_ames_decode_lane_def u3_ames_encode_lane_def u3_ames_lane_to_chub_def)
qed

lemma u3i_bytes_last: "xs \<noteq> [] \<Longrightarrow> last xs \<noteq> 0 \<Longrightarrow> u3i_bytes (length xs) xs = xs"
  by (cases "length xs") (simp_all add: u3i_bytes_def last_conv_nth)

section \<open>Serializing a received packet\<close>

text \<open>The branch that leaves the packet as it is: not asked to, relayed already, or sent by a galaxy.\<close>

lemma serialize_kept:
  assumes "dop_o = c3n \<or> head_rel_o (panc_hed_u pac_u) = c3y \<or> ames_galaxy (body_sen_d (panc_bod_u pac_u))"
  shows "ames_serialize_packet pac_u dop_o =
    map_option (\<lambda>pac_y. (u3i_bytes (length pac_y) pac_y, pac_u)) (ames_etch_pack (panc_hed_u pac_u) (panc_bod_u pac_u))"
  using assms by (auto simp: ames_serialize_packet_def Let_def c3y_def c3n_def)

lemma serialize_relayed:
  assumes "head_rel_o hed = c3n" and "\<not> ames_galaxy (body_sen_d bod)"
  shows "ames_serialize_packet \<lparr>panc_ore_u = ore, panc_hed_u = hed, panc_bod_u = bod\<rparr> c3y =
    (let hed' = hed\<lparr>head_rel_o := c3y\<rparr>; bod' = bod\<lparr>body_rog_d := u3_ames_lane_to_chub ore\<rparr>
     in map_option (\<lambda>pac_y. (u3i_bytes (length pac_y) pac_y, \<lparr>panc_ore_u = ore, panc_hed_u = hed', panc_bod_u = bod'\<rparr>))
          (ames_etch_pack hed' bod'))"
  using assms by (simp add: ames_serialize_packet_def Let_def)

text \<open>Neither the lane of origin nor the flag that announces it is covered by the mug.\<close>

lemma body_gob_relayed: "body_gob (hed\<lparr>head_rel_o := rel\<rparr>) (bod\<lparr>body_rog_d := d\<rparr>) = body_gob hed bod"
  by (simp add: body_gob_def head_sen_y_def head_rec_y_def)

lemma relayed_wf:
  assumes "head_wf hed" and "body_wf hed bod"
  shows "head_wf (hed\<lparr>head_rel_o := c3y\<rparr>)" and "body_wf (hed\<lparr>head_rel_o := c3y\<rparr>) (bod\<lparr>body_rog_d := u3_ames_lane_to_chub ore\<rparr>)"
  using assms lane_chub_bounds [of ore]
  by (simp_all add: head_wf_def body_wf_def head_sen_y_def head_rec_y_def head_rog_y_def del: length_greater_0_conv)

lemma received_origin:
  assumes "packet_valid murmur pac hed bod"
  shows "take (head_rog_y hed) (ames_bytes_chub (body_rog_d bod)) = take (head_rog_y hed) (drop 4 pac)"
proof (cases "head_rog_y hed = 0")
  case False
  then have rog: "head_rog_y hed = 6"
    by (simp add: head_rog_y_def split: if_splits)
  have "10 \<le> length pac"
    using assms rog by (auto simp: packet_valid_def ames_sift_body_def Let_def split: if_splits)
  then have "length (take 6 (drop 4 pac) @ replicate (8 - 6) 0) = 8"
    by simp
  moreover have "body_rog_d bod = ames_chub_bytes (take 6 (drop 4 pac) @ replicate (8 - 6) 0)"
    using assms rog by (auto simp: packet_valid_def ames_sift_body_def Let_def split: if_splits)
  ultimately have "ames_bytes_chub (body_rog_d bod) = take 6 (drop 4 pac) @ replicate (8 - 6) 0"
    by (simp only: ames_bytes_chub_eqI)
  then show ?thesis
    using rog \<open>10 \<le> length pac\<close> by simp
qed simp

lemma relay_ok:
  assumes "packet_valid murmur pac hed bod" and "head_ver_y hed = 0" and "length pac < 2 ^ 15" and "last pac \<noteq> 0"
    and "head_rel_o hed = c3n" and "\<not> ames_galaxy (body_sen_d bod)"
  shows "\<exists>pac' hed' bod'. ames_serialize_packet \<lparr>panc_ore_u = ore, panc_hed_u = hed, panc_bod_u = bod\<rparr> c3y =
      Some (pac', \<lparr>panc_ore_u = ore, panc_hed_u = hed', panc_bod_u = bod'\<rparr>) \<and>
    hed' = hed\<lparr>head_rel_o := c3y\<rparr> \<and> bod' = bod\<lparr>body_rog_d := u3_ames_lane_to_chub ore\<rparr> \<and>
    packet_valid murmur pac' hed' bod' \<and> drop 10 pac' = drop 4 pac \<and> length pac' = length pac + 6 \<and>
    u3_ames_decode_lane (unat (body_rog_d bod')) = ore"
proof -
  let ?hed = "hed\<lparr>head_rel_o := c3y\<rparr>" and ?bod = "bod\<lparr>body_rog_d := u3_ames_lane_to_chub ore\<rparr>"
  note wf = packet_valid_wf [OF assms(1-3)]
  have wf': "head_wf ?hed" "body_wf ?hed ?bod"
    by (rule relayed_wf [OF wf(1,2)])+
  have sim: "head_sim_o ?hed = c3y"
    using assms(1) by (auto simp: packet_valid_def ames_sift_head_def Let_def)
  have mug: "body_mug_l ?bod = head_mug_l ?hed" "head_mug_l ?hed =
      u3r_mug_bytes murmur (body_gob ?hed ?bod) (length (body_gob ?hed ?bod)) AND 0xfffff"
    unfolding body_gob_relayed using wf(4,5) by simp_all
  have rog: "head_rog_y hed = 0" "head_rog_y ?hed = 6"
    using assms(5) by (simp_all add: head_rog_y_def c3y_def c3n_def)
  obtain pac' where pac': "ames_etch_pack ?hed ?bod = Some pac'" "packet_valid murmur pac' ?hed ?bod"
      "drop 4 pac' = take 6 (ames_bytes_chub (body_rog_d ?bod)) @ body_gob hed bod"
    using etch_pack_valid [OF wf' sim mug, unfolded body_gob_relayed rog] by metis
  have len: "4 < length pac" "4 \<le> length pac'"
    using assms(1) pac'(2) by (auto simp: packet_valid_def ames_sift_body_def Let_def split: if_splits)
  have "drop 10 pac' = drop 6 (drop 4 pac')"
    by simp
  also have "\<dots> = drop 4 pac"
    unfolding pac'(3) by (simp add: wf(3) rog)
  finally have drop: "drop 10 pac' = drop 4 pac" .
  have "length pac' = length pac + 6"
    using arg_cong [OF pac'(3), of length] wf(3) rog len by simp
  moreover have "last pac' = last pac" "pac' \<noteq> []"
    using drop len calculation by (metis last_drop add_less_cancel_right length_drop zero_less_diff, auto)
  moreover from this assms(4) have "u3i_bytes (length pac') pac' = pac'"
    by (simp add: u3i_bytes_last)
  ultimately show ?thesis
    using serialize_relayed [OF assms(5,6), of ore] pac'(1,2) drop decode_lane_chub by (simp add: Let_def)
qed

section \<open>Properties\<close>

text \<open>
  C39. Packets survive serialization: a header whose fields fit their bits and a body that fits the header
  (addresses no wider than their classes, ticks of four bits, content with the length it announces) are
  serialized to a packet from which the parser reads the same header and the same body, with the mug of the
  bytes after the lane of origin.
\<close>

theorem ames_packet_round_trip:
  assumes "head_wf hed" and "body_wf hed bod"
  shows "\<exists>pac. ames_etch_pack hed bod = Some pac \<and> 4 \<le> length pac \<and> ames_sift_head pac = (head_sim_o hed, hed) \<and>
    ames_sift_body murmur hed (length pac - 4) (drop 4 pac) =
      Some (bod\<lparr>body_mug_l := u3r_mug_bytes murmur (body_gob hed bod) (length (body_gob hed bod)) AND 0xfffff\<rparr>)"
  using sift_etch_pack [OF assms, of murmur] by metis

text \<open>
  A packet that is passed on without a new lane of origin, because this was not asked for, because it has
  one, or because its sender is a galaxy, keeps every byte after the header, and its header is read the same
  by the next hop, so that it passes the same checks there. The content must not end in a null byte, since
  the packet becomes an atom on the way.
\<close>

theorem ames_serialize_keeps:
  assumes "packet_valid murmur pac hed bod" and "head_ver_y hed = 0" and "length pac < 2 ^ 15" and "last pac \<noteq> 0"
    and "dop_o = c3n \<or> head_rel_o hed = c3y \<or> ames_galaxy (body_sen_d bod)"
  shows "\<exists>pac'. ames_serialize_packet \<lparr>panc_ore_u = ore, panc_hed_u = hed, panc_bod_u = bod\<rparr> dop_o =
      Some (pac', \<lparr>panc_ore_u = ore, panc_hed_u = hed, panc_bod_u = bod\<rparr>) \<and>
    drop 4 pac' = drop 4 pac \<and> packet_valid murmur pac' hed bod"
proof -
  note wf = packet_valid_wf [OF assms(1-3)]
  have sim: "head_sim_o hed = c3y"
    using assms(1) by (auto simp: packet_valid_def ames_sift_head_def Let_def)
  obtain pac' where pac': "ames_etch_pack hed bod = Some pac'" "packet_valid murmur pac' hed bod"
      "drop 4 pac' = take (head_rog_y hed) (ames_bytes_chub (body_rog_d bod)) @ body_gob hed bod"
    using etch_pack_valid [OF wf(1,2) sim wf(5,4)] by metis
  have same: "drop 4 pac' = drop 4 pac"
    unfolding pac'(3) received_origin [OF assms(1)] wf(3) by (rule append_take_drop_id)
  have "4 < length pac"
    using assms(1) by (auto simp: packet_valid_def ames_sift_body_def Let_def split: if_splits)
  then have "last pac' = last pac" "pac' \<noteq> []"
    using same by (metis last_drop length_drop zero_less_diff, auto)
  then show ?thesis
    using serialize_kept [of dop_o "\<lparr>panc_ore_u = ore, panc_hed_u = hed, panc_bod_u = bod\<rparr>"] assms(4,5) pac'(1,2) same
    by (simp add: u3i_bytes_last)
qed

text \<open>
  C22. A valid packet of protocol version 0 that has not been relayed before, whose sender is not a galaxy and whose last
  byte is not 0, gets the lane it was received from when it is serialized for the next hop: the bytes its mug covers are
  unchanged, it is six bytes longer, the next hop reads the same header, but marked as relayed, and the same body with the
  lane of origin, accepts its mug, and decodes that lane to the one the packet came from. A packet that ends in a null byte
  is not among these: the null byte is lost.
\<close>

theorem ames_relay_valid:
  assumes "packet_valid murmur pac hed bod" and "head_ver_y hed = 0" and "length pac < 2 ^ 15" and "last pac \<noteq> 0"
    and "head_rel_o hed = c3n" and "\<not> ames_galaxy (body_sen_d bod)"
  shows "\<exists>pac' hed' bod'. ames_serialize_packet \<lparr>panc_ore_u = ore, panc_hed_u = hed, panc_bod_u = bod\<rparr> c3y =
      Some (pac', \<lparr>panc_ore_u = ore, panc_hed_u = hed', panc_bod_u = bod'\<rparr>) \<and>
    hed' = hed\<lparr>head_rel_o := c3y\<rparr> \<and> bod' = bod\<lparr>body_rog_d := u3_ames_lane_to_chub ore\<rparr> \<and>
    packet_valid murmur pac' hed' bod' \<and> drop 10 pac' = drop 4 pac \<and> length pac' = length pac + 6 \<and>
    u3_ames_decode_lane (unat (body_rog_d bod')) = ore"
  using relay_ok [OF assms] .

text \<open>
  Lanes survive their encoding as atoms: the atom of a lane decodes to the lane, an atom below \<open>2 ^ 48\<close>
  is the encoding of what it decodes to, and every other atom decodes to the lane 0.0.0.0:0.
\<close>

theorem ames_lane_round_trip:
  "u3_ames_decode_lane (u3_ames_encode_lane lane) = lane \<and>
   u3_ames_encode_lane (u3_ames_decode_lane lan) = (if lan < 2 ^ 48 then lan else 0)"
  using decode_lane_chub [of lane] encode_decode_lane [of lan] by (simp add: u3_ames_encode_lane_def)

section \<open>Witnesses\<close>

text \<open>A packet from the ship 0x1234 to a ship \<open>rec\<close> with one byte of content, with the right mug.\<close>

definition example_body :: "u64 \<Rightarrow> u3_body" where
  "example_body rec = \<lparr>body_sen_d = (0x1234, 0), body_rec_d = (rec, 0), body_sic_y = 1, body_ric_y = 2, body_con_s = 1,
     body_con_y = [7], body_rog_d = 0, body_mug_l = 0\<rparr>"

definition example_head :: u3_head where
  "example_head = \<lparr>head_sim_o = c3y, head_ver_y = 0, head_sac_y = 0, head_rac_y = 0, head_mug_l = 0, head_rel_o = c3n\<rparr>"

definition example_mug :: "u64 \<Rightarrow> u32" where
  "example_mug rec = u3r_mug_bytes fnv (body_gob example_head (example_body rec)) (length (body_gob example_head (example_body rec))) AND 0xfffff"

lemma example_mug_bound: "unat (example_mug rec) < 2 ^ 20"
  unfolding example_mug_def by (rule unat_less_bits) (simp add: and_masks bit_simps)

lemma example_wf:
  assumes "unat rec < 2 ^ 16"
  shows "head_wf (example_head\<lparr>head_mug_l := example_mug rec\<rparr>)"
    and "body_wf (example_head\<lparr>head_mug_l := m\<rparr>) ((example_body rec)\<lparr>body_mug_l := m'\<rparr>)"
  using assms example_mug_bound [of rec]
  by (simp_all add: head_wf_def body_wf_def example_head_def example_body_def head_sen_y_def head_rec_y_def head_rog_y_def u8_def
      ship_fits_def c3y_def c3n_def)

lemma example_packet:
  assumes "unat rec < 2 ^ 16"
  obtains pac hed bod where "packet_valid fnv pac hed bod" and "length pac = 10" and "last pac = 7"
    and "head_ver_y hed = 0" and "head_rel_o hed = c3n" and "\<not> ames_galaxy (body_sen_d bod)"
    and "body_rec_d bod = (rec, 0)"
proof -
  let ?hed = "example_head\<lparr>head_mug_l := example_mug rec\<rparr>" and ?bod = "(example_body rec)\<lparr>body_mug_l := example_mug rec\<rparr>"
  have gob: "body_gob ?hed ?bod = body_gob example_head (example_body rec)"
    by (simp add: body_gob_def head_sen_y_def head_rec_y_def)
  have "last (body_gob ?hed ?bod) = 7" "length (body_gob ?hed ?bod) = 6"
    by (simp_all add: body_gob_def example_head_def example_body_def head_sen_y_def head_rec_y_def u8_def length_ship_of_chubs)
  moreover obtain pac where "packet_valid fnv pac ?hed ?bod" "drop 4 pac = body_gob ?hed ?bod"
  proof (rule etch_pack_valid [of ?hed ?bod fnv, OF example_wf [OF assms]])
    fix pac
    assume "packet_valid fnv pac ?hed ?bod"
      "drop 4 pac = take (head_rog_y ?hed) (ames_bytes_chub (body_rog_d ?bod)) @ body_gob ?hed ?bod"
    then show thesis
      by (intro that) (simp_all add: head_rog_y_def example_head_def c3y_def c3n_def)
  qed (simp_all add: gob example_mug_def [symmetric], simp add: example_head_def)
  ultimately have pac: "last (drop 4 pac) = 7" "length (drop 4 pac) = 6" "packet_valid fnv pac ?hed ?bod"
    by simp_all
  then have "last pac = 7" "length pac = 10"
    by (cases "4 < length pac"; simp)+
  with pac(3) show thesis
    by (intro that [of pac ?hed ?bod]) (simp_all add: example_head_def example_body_def ames_galaxy_def)
qed

theorem ames_packet_round_trip_witness:
  "\<exists>pac. ames_etch_pack (example_head\<lparr>head_mug_l := example_mug 0x5678\<rparr>) (example_body 0x5678) = Some pac \<and>
    ames_sift_head pac = (c3y, example_head\<lparr>head_mug_l := example_mug 0x5678\<rparr>) \<and>
    ames_sift_body fnv (example_head\<lparr>head_mug_l := example_mug 0x5678\<rparr>) (length pac - 4) (drop 4 pac) = Some ((example_body 0x5678)\<lparr>body_mug_l := example_mug 0x5678\<rparr>)"
proof -
  have wf: "body_wf (example_head\<lparr>head_mug_l := example_mug 0x5678\<rparr>) (example_body 0x5678)"
    using example_wf(2) [of "0x5678" "example_mug 0x5678" 0] by (simp add: example_body_def)
  have "body_gob (example_head\<lparr>head_mug_l := example_mug 0x5678\<rparr>) (example_body 0x5678) = body_gob example_head (example_body 0x5678)"
    by (simp add: body_gob_def head_sen_y_def head_rec_y_def)
  then show ?thesis
    using ames_packet_round_trip [OF example_wf(1) [of "0x5678"] wf, of fnv] by (auto simp: example_mug_def [symmetric]) (simp add: example_head_def)
qed

theorem ames_serialize_keeps_witness:
  "\<exists>pac hed bod pac'. packet_valid fnv pac hed bod \<and> length pac = 10 \<and>
    ames_serialize_packet \<lparr>panc_ore_u = \<lparr>lane_pip_w = 1, lane_por_s = 2\<rparr>, panc_hed_u = hed, panc_bod_u = bod\<rparr> c3n =
      Some (pac', \<lparr>panc_ore_u = \<lparr>lane_pip_w = 1, lane_por_s = 2\<rparr>, panc_hed_u = hed, panc_bod_u = bod\<rparr>) \<and>
    drop 4 pac' = drop 4 pac"
proof -
  obtain pac hed bod where pac: "packet_valid fnv pac hed bod" "length pac = 10" "last pac = 7" "head_ver_y hed = 0"
    by (rule example_packet [of "0x5678"]) simp
  then show ?thesis
    using ames_serialize_keeps [OF pac(1,4), of c3n "\<lparr>lane_pip_w = 1, lane_por_s = 2\<rparr>"] by auto
qed

theorem ames_relay_valid_witness:
  "\<exists>pac hed bod pac' hed' bod'. packet_valid fnv pac hed bod \<and> length pac = 10 \<and> length pac' = 16 \<and>
    ames_serialize_packet \<lparr>panc_ore_u = \<lparr>lane_pip_w = 1, lane_por_s = 2\<rparr>, panc_hed_u = hed, panc_bod_u = bod\<rparr> c3y =
      Some (pac', \<lparr>panc_ore_u = \<lparr>lane_pip_w = 1, lane_por_s = 2\<rparr>, panc_hed_u = hed', panc_bod_u = bod'\<rparr>) \<and>
    packet_valid fnv pac' hed' bod' \<and> u3_ames_decode_lane (unat (body_rog_d bod')) = \<lparr>lane_pip_w = 1, lane_por_s = 2\<rparr>"
proof -
  obtain pac hed bod where pac: "packet_valid fnv pac hed bod" "length pac = 10" "last pac = 7" "head_ver_y hed = 0"
      "head_rel_o hed = c3n" "\<not> ames_galaxy (body_sen_d bod)"
    by (rule example_packet [of "0x5678"]) simp
  have "length pac < 2 ^ 15" "last pac \<noteq> 0"
    using pac(2,3) by simp_all
  from ames_relay_valid [OF pac(1,4) this pac(5,6), of "\<lparr>lane_pip_w = 1, lane_por_s = 2\<rparr>"] pac(1,2) show ?thesis
    by fastforce
qed

end
