(* ===== verification/Ames_Driver.thy ===== *)
theory Ames_Driver
  imports Ames_Packet Auto Urbit_Time
begin

text \<open>
  The network driver, \<^verbatim>\<open>pkg/vere/io/ames.c\<close>: hearing packets, injecting them as events, relaying them for
  other ships, and sending. The state is the driver's structure with the event queues of
  \<^verbatim>\<open>auto.c\<close>; what the driver asks of the network library and of the kernel is a log of requests, and the
  results of such calls, the clocks, the lane cache and the kernel's printing of ship names are the environment.
  Messages on the console are left out. \<open>None\<close> is a failed assertion, a bail or an access to a freed object.
\<close>

unbundle bit_operations_syntax

section \<open>State\<close>

text \<open>Motes, the first character in the lowest byte.\<close>

definition mote :: "string \<Rightarrow> nat" where
  "mote cs = foldr (\<lambda>c n. of_char c + 256 * n) cs 0"

record u3_pact =
  pact_lan_u :: u3_lane
  pact_hun_y :: "byte list option"
  pact_imp_y :: byte
  pact_dns_c :: "string option"

datatype ames_request =
    Udp_send u3_lane "byte list"
  | Getaddrinfo string u3_pact
  | Peek_lane nat addr

text \<open>
  The arrays for the 256 galaxies are functions of the galaxy. The packets that wait for a lane are a list of
  their addresses and contents, the newest first.
\<close>

record 'h u3_ames =
  sam_auto :: auto_heap
  sam_car_u :: addr
  sam_who_d :: "u64 \<times> u64"
  sam_dns_c :: "string option"
  sam_ver_y :: byte
  sam_lax_p :: 'h
  sam_pac_u :: "(addr \<times> u3_panc) list"
  sam_imp_w :: "byte \<Rightarrow> u32"
  sam_imp_t :: "byte \<Rightarrow> int"
  sam_imp_o :: "byte \<Rightarrow> byte"
  sam_net_o :: byte
  sam_see_o :: byte
  sam_fit_o :: byte
  sam_dop_d :: u64
  sam_fal_d :: u64
  sam_saw_d :: u64
  sam_hed_d :: u64
  sam_vet_d :: u64
  sam_mut_d :: u64
  sam_bod_d :: u64
  sam_foq_d :: u64
  sam_fow_d :: u64
  sam_fod_d :: u64
  sam_bad_d :: u64
  sam_out :: "ames_request list"

text \<open>
  \<open>env_net\<close> is the option for networking, \<open>env_now\<close> is \<^verbatim>\<open>time\<close> and \<open>env_tv\<close> is \<^verbatim>\<open>gettimeofday\<close>;
  \<open>env_udp\<close> and \<open>env_dns\<close> are the results of \<^verbatim>\<open>uv_udp_send\<close> and \<^verbatim>\<open>uv_getaddrinfo\<close>, \<open>env_scot\<close> is the
  kernel's name of a ship, \<open>env_git\<close> and \<open>env_put\<close> are the lane cache, and the last two are the addresses that the
  allocator returns for an event and for a packet.
\<close>

record 'h ames_env =
  env_net :: bool
  env_now :: int
  env_tv :: "int \<times> int"
  env_udp :: "u3_lane \<Rightarrow> byte list \<Rightarrow> int"
  env_dns :: "string \<Rightarrow> int"
  env_scot :: "nat \<Rightarrow> string"
  env_git :: "'h \<Rightarrow> nat \<Rightarrow> noun option"
  env_put :: "'h \<Rightarrow> nat \<Rightarrow> noun \<Rightarrow> 'h"
  env_new_egg :: "auto_heap \<Rightarrow> addr"
  env_new_panc :: "(addr \<times> u3_panc) list \<Rightarrow> addr"

definition ames_request :: "ames_request \<Rightarrow> 'h u3_ames \<Rightarrow> 'h u3_ames" where
  "ames_request req sam_u = sam_u\<lparr>sam_out := sam_out sam_u @ [req]\<rparr>"

section \<open>Sending\<close>

text \<open>The packets that wait are a doubly linked list in C; here they are a list of addresses and packets.\<close>

definition ames_panc_free :: "addr \<Rightarrow> 'h u3_ames \<Rightarrow> 'h u3_ames option" where
  "ames_panc_free pac_u sam_u =
     (if map_of (sam_pac_u sam_u) pac_u = None then None
      else Some (sam_u\<lparr>sam_pac_u := filter (\<lambda>p. fst p \<noteq> pac_u) (sam_pac_u sam_u)\<rparr>))"

definition ames_send_cb :: "int \<Rightarrow> 'h u3_ames \<Rightarrow> 'h u3_ames" where
  "ames_send_cb sas_i sam_u =
     (if sas_i \<noteq> 0 \<and> c3y = sam_net_o sam_u then sam_u\<lparr>sam_net_o := c3n\<rparr> else sam_u\<lparr>sam_net_o := c3y\<rparr>)"

definition ames_send :: "'h ames_env \<Rightarrow> u3_pact \<Rightarrow> 'h u3_ames \<Rightarrow> 'h u3_ames" where
  "ames_send env pac_u sam_u =
     (case pact_hun_y pac_u of
        None \<Rightarrow> sam_u
      | Some hun_y \<Rightarrow>
          let sas_i = env_udp env (pact_lan_u pac_u) hun_y
          in if sas_i \<noteq> 0 then (if c3y = sam_net_o sam_u then sam_u\<lparr>sam_net_o := c3n\<rparr> else sam_u)
             else ames_request (Udp_send (pact_lan_u pac_u) hun_y) sam_u)"

definition ames_czar_port :: "'h ames_env \<Rightarrow> byte \<Rightarrow> u16" where
  "ames_czar_port env imp_y = (if \<not> env_net env then 31337 + ucast imp_y else 13337 + ucast imp_y)"

definition ames_czar_gone :: "u3_pact \<Rightarrow> int \<Rightarrow> 'h u3_ames \<Rightarrow> 'h u3_ames" where
  "ames_czar_gone pac_u now sam_u =
     (let imp_y = pact_imp_y pac_u;
          sam_u = (if c3y = sam_imp_o sam_u imp_y then sam_u\<lparr>sam_imp_o := (sam_imp_o sam_u)(imp_y := c3n)\<rparr> else sam_u);
          sam_u = (if 0 = sam_imp_w sam_u imp_y \<or> 0xffffffff = sam_imp_w sam_u imp_y
                   then sam_u\<lparr>sam_imp_w := (sam_imp_w sam_u)(imp_y := 0xffffffff)\<rparr> else sam_u)
      in sam_u\<lparr>sam_imp_t := (sam_imp_t sam_u)(imp_y := now)\<rparr>)"

definition ames_czar_here :: "'h ames_env \<Rightarrow> u3_pact \<Rightarrow> int \<Rightarrow> u32 \<Rightarrow> 'h u3_ames \<Rightarrow> 'h u3_ames" where
  "ames_czar_here env pac_u now pip_w sam_u =
     (let imp_y = pact_imp_y pac_u;
          sam_u = sam_u\<lparr>sam_imp_w := (sam_imp_w sam_u)(imp_y := pip_w), sam_imp_t := (sam_imp_t sam_u)(imp_y := now),
                        sam_imp_o := (sam_imp_o sam_u)(imp_y := c3y)\<rparr>
      in ames_send env (pac_u\<lparr>pact_lan_u := (pact_lan_u pac_u)\<lparr>lane_pip_w := pip_w\<rparr>\<rparr>) sam_u)"

text \<open>The addresses that were found, \<open>None\<close> for one that is not of the family of IPv4.\<close>

fun ames_czar_cb :: "'h ames_env \<Rightarrow> u3_pact \<Rightarrow> u32 option list \<Rightarrow> 'h u3_ames \<Rightarrow> 'h u3_ames" where
  "ames_czar_cb env pac_u [] sam_u = ames_czar_gone pac_u (env_now env) sam_u"
| "ames_czar_cb env pac_u (Some pip_w # _) sam_u = ames_czar_here env pac_u (env_now env) pip_w sam_u"
| "ames_czar_cb env pac_u (None # rai_u) sam_u = ames_czar_cb env pac_u rai_u sam_u"

definition ames_czar :: "'h ames_env \<Rightarrow> u3_pact \<Rightarrow> 'h u3_ames \<Rightarrow> 'h u3_ames" where
  "ames_czar env pac_u sam_u =
     (let imp_y = pact_imp_y pac_u;
          pac_u = pac_u\<lparr>pact_lan_u := (pact_lan_u pac_u)\<lparr>lane_por_s := ames_czar_port env imp_y\<rparr>\<rparr>
      in if \<not> env_net env then ames_send env (pac_u\<lparr>pact_lan_u := (pact_lan_u pac_u)\<lparr>lane_pip_w := 0x7f000001\<rparr>\<rparr>) sam_u
         else case sam_dns_c sam_u of
           None \<Rightarrow> sam_u
         | Some dns_c \<Rightarrow>
             let pip_w = sam_imp_w sam_u imp_y; wen = sam_imp_t sam_u imp_y; now = env_now env
             in if now < wen \<or> 0xffffffff = pip_w \<and> now - wen < 300 then sam_u
                else if 0 \<noteq> pip_w \<and> now - wen < 300
                then ames_send env (pac_u\<lparr>pact_lan_u := (pact_lan_u pac_u)\<lparr>lane_pip_w := pip_w\<rparr>\<rparr>) sam_u
                else let fqdn = drop 1 (env_scot env (unat imp_y)) @ ''.'' @ dns_c;
                         pac_u = pac_u\<lparr>pact_dns_c := Some fqdn\<rparr>
                     in if 255 \<le> length fqdn then sam_u
                        else if env_dns env fqdn \<noteq> 0 then ames_czar_gone pac_u now sam_u
                        else ames_request (Getaddrinfo fqdn pac_u) sam_u)"

text \<open>The packet is the bytes of its atom. A lane that is a cell in the place of an atom decodes to 0.0.0.0:0.\<close>

definition ames_ef_send :: "'h ames_env \<Rightarrow> noun \<Rightarrow> byte list \<Rightarrow> 'h u3_ames \<Rightarrow> 'h u3_ames option" where
  "ames_ef_send env lan pac sam_u = do {
     car \<leftarrow> cars (sam_auto sam_u) (sam_car_u sam_u);
     if \<not> car_liv_o car then Some sam_u
     else case lan of
       Cell (Atom tag) val \<Rightarrow>
         let pac_u = \<lparr>pact_lan_u = \<lparr>lane_pip_w = 0, lane_por_s = 0\<rparr>, pact_hun_y = Some pac, pact_imp_y = 0, pact_dns_c = None\<rparr>
         in if tag = unat c3y
            then case val of
                Atom imp \<Rightarrow> if imp < 256 then Some (ames_czar env (pac_u\<lparr>pact_imp_y := of_nat imp\<rparr>) sam_u) else None
              | Cell _ _ \<Rightarrow> None
            else if tag = unat c3n
            then let lan_u = (case val of Atom a \<Rightarrow> u3_ames_decode_lane a | Cell _ _ \<Rightarrow> \<lparr>lane_pip_w = 0, lane_por_s = 0\<rparr>);
                     lan_u = lan_u\<lparr>lane_pip_w := (if 0 = lane_pip_w lan_u then 0x7f000001 else lane_pip_w lan_u)\<rparr>
                 in if \<not> env_net env \<and> 0x7f000001 \<noteq> lane_pip_w lan_u then Some sam_u
                    else if 0 = lane_por_s lan_u then Some sam_u
                    else Some (ames_send env (pac_u\<lparr>pact_lan_u := lan_u\<rparr>) sam_u)
            else None
     | _ \<Rightarrow> None
   }"

section \<open>The event queue\<close>

definition ames_auto :: "(auto_heap \<Rightarrow> auto_heap option) \<Rightarrow> 'h u3_ames \<Rightarrow> 'h u3_ames option" where
  "ames_auto f sam_u = map_option (\<lambda>h. sam_u\<lparr>sam_auto := h\<rparr>) (f (sam_auto sam_u))"

partial_function (option) ames_cap_loop :: "addr option \<Rightarrow> 'h u3_ames \<Rightarrow> 'h u3_ames option" where
  [code]: "ames_cap_loop egg_u sam_u =
     (case egg_u of
        None \<Rightarrow> Some sam_u
      | Some egg \<Rightarrow> do {
          car \<leftarrow> cars (sam_auto sam_u) (sam_car_u sam_u);
          if \<not> 1000 < car_dep_w car then Some sam_u
          else do {
            e \<leftarrow> eggs (sam_auto sam_u) egg;
            case egg_cad e of
              Atom _ \<Rightarrow> None
            | Cell tag _ \<Rightarrow> do {
                sam_u \<leftarrow> (if Atom (mote ''hear'') = tag
                  then map_option (\<lambda>sam_u. sam_u\<lparr>sam_dop_d := sam_dop_d sam_u + 1\<rparr>)
                         (ames_auto (u3_auto_drop (sam_car_u sam_u) egg) sam_u)
                  else Some sam_u);
                ames_cap_loop (egg_nex_u e) sam_u
              }
          }
        })"

definition ames_cap_queue :: "'h u3_ames \<Rightarrow> 'h u3_ames option" where
  "ames_cap_queue sam_u = do {
     car \<leftarrow> cars (sam_auto sam_u) (sam_car_u sam_u);
     ames_cap_loop (car_ext_u car) sam_u
   }"

text \<open>The length of a list; \<open>None\<close> for an improper one.\<close>

primrec u3qb_lent :: "noun \<Rightarrow> nat option" where
  "u3qb_lent (Atom a) = (if a = 0 then Some 0 else None)"
| "u3qb_lent (Cell _ t) = map_option Suc (u3qb_lent t)"

definition ames_hear_bail :: "addr \<Rightarrow> noun \<Rightarrow> 'h u3_ames \<Rightarrow> 'h u3_ames option" where
  "ames_hear_bail egg_u lud sam_u = do {
     len_w \<leftarrow> u3qb_lent lud;
     sam_u \<leftarrow> (if 1 = len_w
       then case lud of
           Cell (Cell mot _) _ \<Rightarrow>
             Some (if Atom (mote ''evil'') = mot then sam_u\<lparr>sam_bad_d := sam_bad_d sam_u + 1\<rparr>
                   else sam_u\<lparr>sam_fal_d := sam_fal_d sam_u + 1\<rparr>)
         | _ \<Rightarrow> None
       else Some (sam_u\<lparr>sam_fal_d := sam_fal_d sam_u + 1\<rparr>));
     ames_auto (u3_ovum_free egg_u) sam_u
   }"

text \<open>The callback for a failed packet, as an opaque value.\<close>

definition hear_bail_cb :: callback where "hear_bail_cb = 0"

definition ames_put_packet :: "'h ames_env \<Rightarrow> byte list \<Rightarrow> u3_lane \<Rightarrow> 'h u3_ames \<Rightarrow> 'h u3_ames option" where
  "ames_put_packet env msg lan_u sam_u =
     (let egg_u = env_new_egg env (sam_auto sam_u);
          wir = Cell (Atom (mote ''ames'')) (Atom 0);
          cad = Cell (Atom (mote ''hear''))
                  (Cell (Cell (Atom (unat c3n)) (Atom (u3_ames_encode_lane lan_u))) (Atom (bytes_val (length msg) msg)))
      in do {
        sam_u \<leftarrow> ames_auto (u3_ovum_init egg_u 0 (Atom (mote ''a'')) wir cad) sam_u;
        sam_u \<leftarrow> ames_auto (u3_auto_plan (sam_car_u sam_u) egg_u) sam_u;
        sam_u \<leftarrow> ames_auto (u3_auto_peer egg_u None None (Some hear_bail_cb)) sam_u;
        ames_cap_queue sam_u
      })"

section \<open>Relaying\<close>

definition ames_lane_into_cache :: "'h ames_env \<Rightarrow> nat \<Rightarrow> noun \<Rightarrow> 'h \<Rightarrow> 'h" where
  "ames_lane_into_cache env who las lax_p = env_put env lax_p who (Cell las (Atom (u3_time_in_tv (env_tv env))))"

text \<open>\<open>Some None\<close> is the absence of a fresh entry.\<close>

definition ames_lane_from_cache :: "'h ames_env \<Rightarrow> 'h \<Rightarrow> nat \<Rightarrow> noun option option" where
  "ames_lane_from_cache env lax_p who =
     (case env_git env lax_p who of
        None \<Rightarrow> Some None
      | Some (Cell las (Atom wen)) \<Rightarrow>
          if 120000 > u3_time_gap_ms wen (u3_time_in_tv (env_tv env)) then Some (Some las) else Some None
      | _ \<Rightarrow> None)"

fun ames_forward_lanes :: "'h ames_env \<Rightarrow> byte list \<Rightarrow> noun \<Rightarrow> 'h u3_ames \<Rightarrow> 'h u3_ames option" where
  "ames_forward_lanes env pac (Atom a) sam_u = (if a = 0 then Some sam_u else None)"
| "ames_forward_lanes env pac (Cell lan t) sam_u =
     (case lan of
        Atom _ \<Rightarrow> ames_forward_lanes env pac t sam_u
      | Cell tag dat \<Rightarrow> do {
          self \<leftarrow> (if Atom (unat c3y) = tag
            then case dat of
                Atom who \<Rightarrow> Some (u3r_chub 0 who = fst (sam_who_d sam_u) \<and> u3r_chub 1 who = snd (sam_who_d sam_u))
              | Cell _ _ \<Rightarrow> None
            else Some False);
          sam_u \<leftarrow> (if self then Some sam_u else ames_ef_send env lan pac sam_u);
          ames_forward_lanes env pac t sam_u
        })"

definition ames_forward :: "'h ames_env \<Rightarrow> addr \<Rightarrow> noun \<Rightarrow> 'h u3_ames \<Rightarrow> 'h u3_ames option" where
  "ames_forward env pac_u las sam_u = do {
     panc \<leftarrow> map_of (sam_pac_u sam_u) pac_u;
     (pac, _) \<leftarrow> ames_serialize_packet panc c3y;
     sam_u \<leftarrow> ames_forward_lanes env pac las (sam_u\<lparr>sam_fow_d := sam_fow_d sam_u + 1\<rparr>);
     ames_panc_free pac_u sam_u
   }"

definition ames_lane_scry_cb :: "'h ames_env \<Rightarrow> addr \<Rightarrow> noun \<Rightarrow> 'h u3_ames \<Rightarrow> 'h u3_ames option" where
  "ames_lane_scry_cb env pac_u nun sam_u = do {
     panc \<leftarrow> map_of (sam_pac_u sam_u) pac_u;
     let sam_u = sam_u\<lparr>sam_foq_d := sam_foq_d sam_u - 1\<rparr>
     in case nun of
       Cell _ (Cell _ las) \<Rightarrow>
         let sam_u = sam_u\<lparr>sam_saw_d := 0,
                           sam_lax_p := ames_lane_into_cache env (u3i_chubs (body_rec_d (panc_bod_u panc))) las (sam_lax_p sam_u)\<rparr>
         in if las = Atom 0 then ames_panc_free pac_u sam_u
            else ames_forward env pac_u las sam_u
     | _ \<Rightarrow>
         let sam_u = sam_u\<lparr>sam_saw_d := sam_saw_d sam_u + 1\<rparr>;
             sam_u = (if 5 < sam_saw_d sam_u then sam_u\<lparr>sam_see_o := c3n\<rparr> else sam_u)
         in do {
           (pac, _) \<leftarrow> ames_serialize_packet panc c3n;
           sam_u \<leftarrow> ames_put_packet env pac (panc_ore_u panc) sam_u;
           ames_panc_free pac_u sam_u
         }
   }"

definition ames_try_forward :: "'h ames_env \<Rightarrow> u3_lane \<Rightarrow> u3_head \<Rightarrow> u3_body \<Rightarrow> 'h u3_ames \<Rightarrow> 'h u3_ames option" where
  "ames_try_forward env lan_u hed_u bod_u sam_u =
     (let who = u3i_chubs (body_rec_d bod_u);
          proceed = (\<lambda>lac.
            let pac_u = env_new_panc env (sam_pac_u sam_u);
                sam_u = sam_u\<lparr>sam_pac_u := (pac_u, \<lparr>panc_ore_u = lan_u, panc_hed_u = hed_u, panc_bod_u = bod_u\<rparr>) # sam_pac_u sam_u\<rparr>
            in case lac of
                 Some las \<Rightarrow> ames_forward env pac_u las sam_u
               | None \<Rightarrow> Some (ames_request (Peek_lane who pac_u) (sam_u\<lparr>sam_foq_d := sam_foq_d sam_u + 1\<rparr>)))
      in if ames_galaxy (body_rec_d bod_u)
         then proceed (Some (Cell (Atom (unat c3y)) (Atom (unat (ucast (fst (body_rec_d bod_u)) :: byte)))))
         else do {
           lac \<leftarrow> ames_lane_from_cache env (sam_lax_p sam_u) who;
           if lac = None \<and> 1000 < sam_foq_d sam_u then Some (sam_u\<lparr>sam_fod_d := sam_fod_d sam_u + 1\<rparr>)
           else if lac = Some (Atom 0) then Some sam_u
           else proceed lac
         })"

section \<open>Hearing\<close>

definition ames_hear :: "'h ames_env \<Rightarrow> murmur \<Rightarrow> u3_lane \<Rightarrow> byte list \<Rightarrow> 'h u3_ames \<Rightarrow> 'h u3_ames option" where
  "ames_hear env murmur lan_u hun_y sam_u =
     (let len_w = length hun_y; (sim_o, hed_u) = ames_sift_head hun_y
      in if 4 > len_w \<or> c3n = sim_o then Some (sam_u\<lparr>sam_hed_d := sam_hed_d sam_u + 1\<rparr>)
         else if c3y = sam_fit_o sam_u \<and> sam_ver_y sam_u \<noteq> head_ver_y hed_u then Some (sam_u\<lparr>sam_vet_d := sam_vet_d sam_u + 1\<rparr>)
         else case ames_sift_body murmur hed_u (len_w - 4) (drop 4 hun_y) of
           None \<Rightarrow> Some (sam_u\<lparr>sam_bod_d := sam_bod_d sam_u + 1\<rparr>)
         | Some bod_u \<Rightarrow>
             if body_mug_l bod_u \<noteq> head_mug_l hed_u then Some (sam_u\<lparr>sam_mut_d := sam_mut_d sam_u + 1\<rparr>)
             else if c3y = sam_see_o sam_u \<and> body_rec_d bod_u \<noteq> sam_who_d sam_u
             then ames_try_forward env lan_u hed_u bod_u sam_u
             else ames_put_packet env (u3i_bytes len_w hun_y) lan_u sam_u)"

text \<open>\<open>nrd_i\<close> is the number of bytes read, or an error; the lane is the address of the sender.\<close>

definition ames_recv_cb ::
  "'h ames_env \<Rightarrow> murmur \<Rightarrow> int \<Rightarrow> bool \<Rightarrow> u3_lane \<Rightarrow> byte list \<Rightarrow> 'h u3_ames \<Rightarrow> 'h u3_ames option" where
  "ames_recv_cb env murmur nrd_i partial adr_u buf_u sam_u =
     (if 0 > nrd_i then Some sam_u
      else if 0 = nrd_i then Some sam_u
      else if partial then Some sam_u
      else ames_hear env murmur adr_u (take (nat nrd_i) buf_u) sam_u)"

definition ames_prot_scry_cb :: "noun \<Rightarrow> 'h u3_ames \<Rightarrow> 'h u3_ames" where
  "ames_prot_scry_cb nun sam_u =
     (let sam_u = (case nun of
              Cell _ (Cell _ (Atom ver)) \<Rightarrow> if 7 < ver then sam_u\<lparr>sam_ver_y := 0\<rparr> else sam_u\<lparr>sam_ver_y := of_nat ver\<rparr>
            | _ \<Rightarrow> sam_u\<lparr>sam_ver_y := 0\<rparr>)
      in sam_u\<lparr>sam_fit_o := c3y\<rparr>)"

end
