(* ===== verification/Ames_Queue.thy ===== *)
theory Ames_Queue
  imports Ames_Driver Auto_Queue "HOL-Library.Sublist"
begin

text \<open>
  The network driver as a client of the event queues: what capping the queue and injecting a packet do to the
  queues as lists.
\<close>

section \<open>Capping a list\<close>

text \<open>Of a list in a queue of \<open>n\<close> events, the oldest for which \<open>P\<close> holds are dropped until the queue has 1000.\<close>

fun cap_list :: "('a \<Rightarrow> bool) \<Rightarrow> nat \<Rightarrow> 'a list \<Rightarrow> 'a list" where
  "cap_list P n [] = []"
| "cap_list P n (x # xs) = (if n \<le> 1000 then x # xs else if P x then cap_list P (n - 1) xs else x # cap_list P n xs)"

lemma cap_list_cong: "(\<And>x. x \<in> set xs \<Longrightarrow> P x = P' x) \<Longrightarrow> cap_list P n xs = cap_list P' n xs"
  by (induction xs arbitrary: n) auto

lemma cap_list_few [simp]: "n \<le> 1000 \<Longrightarrow> cap_list P n xs = xs"
  by (cases xs) auto

lemma cap_list_subseq: "subseq (cap_list P n xs) xs"
  by (induction P n xs rule: cap_list.induct) auto

lemma cap_list_set: "set (cap_list P n xs) \<subseteq> set xs" "distinct xs \<Longrightarrow> x \<in> set xs \<Longrightarrow> x \<notin> set (cap_list P n xs) \<Longrightarrow> P x"
  by (induction P n xs rule: cap_list.induct) (auto split: if_splits)

lemma cap_list_length: "length (cap_list P n xs) = length xs - min (n - 1000) (length (filter P xs))"
proof (induction P n xs rule: cap_list.induct)
  case (2 P n x xs)
  note le = length_filter_le [of P xs]
  consider "n \<le> 1000" | "1000 < n" "P x" | "1000 < n" "\<not> P x"
    by linarith
  then show ?case
  proof cases
    case 2
    then have "length (cap_list P n (x # xs)) = length xs - min (n - 1 - 1000) (length (filter P xs))"
      using "2.IH"(1) by simp
    then show ?thesis
      using 2 by simp linarith
  next
    case 3
    then have "length (cap_list P n (x # xs)) = Suc (length xs - min (n - 1000) (length (filter P xs)))"
      using "2.IH"(2) by simp
    then show ?thesis
      using 3 le by (simp add: Suc_diff_le min.coboundedI2)
  qed simp
qed simp

section \<open>Cards\<close>

definition carded :: "auto_heap \<Rightarrow> addr \<Rightarrow> bool" where
  "carded h x \<longleftrightarrow> (\<exists>e tag dat. eggs h x = Some e \<and> egg_cad e = Cell tag dat)"

definition hears :: "auto_heap \<Rightarrow> addr \<Rightarrow> bool" where
  "hears h x \<longleftrightarrow> (\<exists>e dat. eggs h x = Some e \<and> egg_cad e = Cell (Atom (mote ''hear'')) dat)"

lemma infos_cad:
  assumes "infos h' x = infos h x" and "eggs h x = Some e"
  obtains e' where "eggs h' x = Some e'" and "egg_cad e' = egg_cad e" and "egg_bail_f e' = egg_bail_f e"
proof -
  have "egg_cad (egg_info d) = egg_cad d" "egg_bail_f (egg_info d) = egg_bail_f d" for d
    by (simp_all add: egg_info_def)
  moreover obtain e' where "eggs h' x = Some e'" "egg_info e' = egg_info e"
    using assms by (auto simp: infos_def)
  ultimately show thesis
    using that by metis
qed

lemma infos_egg:
  assumes "infos h x = Some d"
  obtains e where "eggs h x = Some e" and "egg_cad e = egg_cad d" and "egg_bail_f e = egg_bail_f d"
  using assms by (auto simp: infos_def egg_info_def)

lemma infos_cards:
  assumes "infos h' x = infos h x"
  shows "carded h' x \<longleftrightarrow> carded h x" and "hears h' x \<longleftrightarrow> hears h x"
  using infos_cad [OF assms] infos_cad [OF assms [symmetric]] unfolding carded_def hears_def by metis+

section \<open>Capping the queue\<close>

lemma queue_card:
  assumes "queue h car (ys @ x # zs)" and "carded h x"
  obtains c e tag dat where "cars h car = Some c" and "car_dep_w c = of_nat (length (ys @ x # zs))" and "eggs h x = Some e"
    and "egg_cad e = Cell tag dat" and "egg_nex_u e = first zs None" and "hears h x \<longleftrightarrow> Atom (mote ''hear'') = tag"
proof -
  obtain c e tag dat where "cars h car = Some c" "car_dep_w c = of_nat (length (ys @ x # zs))" "eggs h x = Some e"
      "egg_cad e = Cell tag dat" "egg_nex_u e = first zs None"
    using assms by (auto simp: queue_def carded_def)
  then show thesis
    using that by (auto simp: hears_def)
qed

lemma cap_loop_ok:
  assumes "queues (sam_auto sam) Q" and "Q (sam_car_u sam) = Some (ys @ zs)" and "length (ys @ zs) < 2 ^ 32"
    and "\<forall>x \<in> set zs. carded (sam_auto sam) x" and "distinct (ys @ zs)"
  shows "\<exists>h'. ames_cap_loop (first zs None) sam =
      Some (sam\<lparr>sam_auto := h', sam_dop_d := sam_dop_d sam +
        of_nat (length zs - length (cap_list (hears (sam_auto sam)) (length (ys @ zs)) zs))\<rparr>) \<and>
    queues h' (Q(sam_car_u sam \<mapsto> ys @ cap_list (hears (sam_auto sam)) (length (ys @ zs)) zs)) \<and>
    (\<forall>x. x \<notin> set zs \<or> x \<in> set (cap_list (hears (sam_auto sam)) (length (ys @ zs)) zs) \<longrightarrow> infos h' x = infos (sam_auto sam) x)"
  using assms
proof (induction zs arbitrary: sam Q ys)
  case Nil
  then have "Q(sam_car_u sam \<mapsto> ys) = Q"
    by (auto simp: fun_eq_iff)
  with Nil show ?case
    by (intro exI [of _ "sam_auto sam"]) (simp add: ames_cap_loop.simps)
next
  case (Cons x zs)
  let ?h = "sam_auto sam" and ?car = "sam_car_u sam" and ?n = "length (ys @ x # zs)"
  obtain c e tag dat where c: "cars ?h ?car = Some c" "car_dep_w c = of_nat ?n" "eggs ?h x = Some e" "egg_cad e = Cell tag dat"
      "egg_nex_u e = first zs None" "hears ?h x \<longleftrightarrow> Atom (mote ''hear'') = tag"
    using queue_card [OF queuesD [OF Cons.prems(1,2)]] Cons.prems(4) by (metis list.set_intros(1))
  have "unat (car_dep_w c) = ?n"
    unfolding c(2) unat_of_nat using Cons.prems(3) by simp
  then have dep: "1000 < car_dep_w c \<longleftrightarrow> 1000 < ?n"
    by (simp only: word_less_nat_alt) simp
  consider "?n \<le> 1000" | "1000 < ?n" "hears ?h x" | "1000 < ?n" "\<not> hears ?h x"
    by linarith
  then show ?case
  proof cases
    case 1
    then have "ames_cap_loop (first (x # zs) None) sam = Some sam"
      using c(1) dep by (subst ames_cap_loop.simps) simp
    moreover have "Q(?car \<mapsto> ys @ x # zs) = Q"
      using Cons.prems(2) by (auto simp: fun_eq_iff)
    ultimately show ?thesis
      using 1 Cons.prems(1) by (intro exI [of _ ?h]) simp
  next
    case 2
    obtain h1 where h1: "u3_auto_drop ?car x ?h = Some h1" "queues h1 (Q(?car \<mapsto> ys @ zs))" "\<forall>y. y \<noteq> x \<longrightarrow> infos h1 y = infos ?h y"
      using drop_rep [OF Cons.prems(1,2)] by auto
    let ?sam = "sam\<lparr>sam_auto := h1, sam_dop_d := sam_dop_d sam + 1\<rparr>"
    have step: "ames_cap_loop (first (x # zs) None) sam = ames_cap_loop (first zs None) ?sam"
      using c dep 2 h1(1) by (subst ames_cap_loop.simps) (simp add: ames_auto_def)
    have x: "x \<notin> set zs" "x \<notin> set ys"
      using Cons.prems(5) by auto
    then have same: "\<forall>y \<in> set zs. carded h1 y" "\<And>y. y \<in> set zs \<Longrightarrow> hears h1 y = hears ?h y"
      using Cons.prems(4) h1(3) infos_cards [of h1 _ ?h] by (metis list.set_intros(2))+
    then have cap: "cap_list (hears h1) (length ys + length zs) zs = cap_list (hears ?h) (length ys + length zs) zs"
      by (intro cap_list_cong)
    have "length (cap_list (hears ?h) (?n - 1) zs) \<le> length zs"
      by (simp add: cap_list_length)
    then have dop: "(1 :: u64) + of_nat (length zs - length (cap_list (hears ?h) (?n - 1) zs)) =
        of_nat (length (x # zs) - length (cap_list (hears ?h) (?n - 1) zs))"
      by (simp add: Suc_diff_le)
    have sub: "queues (sam_auto ?sam) (Q(?car \<mapsto> ys @ zs))" "(Q(?car \<mapsto> ys @ zs)) (sam_car_u ?sam) = Some (ys @ zs)"
        "distinct (ys @ zs)" "length (ys @ zs) < 2 ^ 32" "\<forall>y \<in> set zs. carded (sam_auto ?sam) y"
      using Cons.prems(3,5) h1(2) same(1) by simp_all
    from Cons.IH [OF sub(1,2,4,5,3)]
    obtain h2 where h2: "ames_cap_loop (first zs None) ?sam = Some (?sam\<lparr>sam_auto := h2,
          sam_dop_d := sam_dop_d sam + 1 + of_nat (length zs - length (cap_list (hears ?h) (?n - 1) zs))\<rparr>)"
        "queues h2 (Q(?car \<mapsto> ys @ cap_list (hears ?h) (?n - 1) zs))"
        "\<forall>y. y \<notin> set zs \<or> y \<in> set (cap_list (hears ?h) (?n - 1) zs) \<longrightarrow> infos h2 y = infos h1 y"
      by (auto simp: cap simp del: fun_upd_apply)
    have eq: "cap_list (hears ?h) ?n (x # zs) = cap_list (hears ?h) (?n - 1) zs"
      using 2 by simp
    have "x \<notin> set (cap_list (hears ?h) (?n - 1) zs)"
      using x(1) cap_list_set(1) by fastforce
    then have "\<forall>y. y \<notin> set (x # zs) \<or> y \<in> set (cap_list (hears ?h) (?n - 1) zs) \<longrightarrow> infos h2 y = infos ?h y"
      using h2(3) h1(3) by (metis list.set_intros)
    with h2(1,2) step dop show ?thesis
      unfolding eq by (intro exI [of _ h2]) (simp add: add.assoc del: fun_upd_apply)
  next
    case 3
    have step: "ames_cap_loop (first (x # zs) None) sam = ames_cap_loop (first zs None) sam"
      using c dep 3 by (subst ames_cap_loop.simps) simp
    have sub: "Q ?car = Some ((ys @ [x]) @ zs)" "length ((ys @ [x]) @ zs) < 2 ^ 32" "\<forall>y \<in> set zs. carded ?h y" "distinct ((ys @ [x]) @ zs)"
      using Cons.prems by simp_all
    have eq: "cap_list (hears ?h) ?n (x # zs) = x # cap_list (hears ?h) ?n zs" "length ((ys @ [x]) @ zs) = ?n"
      using 3 by simp_all
    from Cons.IH [OF Cons.prems(1) sub, unfolded eq(2)]
    obtain h' where h': "ames_cap_loop (first zs None) sam = Some (sam\<lparr>sam_auto := h', sam_dop_d := sam_dop_d sam +
          of_nat (length zs - length (cap_list (hears ?h) ?n zs))\<rparr>)"
        "queues h' (Q(?car \<mapsto> (ys @ [x]) @ cap_list (hears ?h) ?n zs))"
        "\<forall>y. y \<notin> set zs \<or> y \<in> set (cap_list (hears ?h) ?n zs) \<longrightarrow> infos h' y = infos ?h y"
      by blast
    have "x \<notin> set zs"
      using Cons.prems(5) by simp
    then have "\<forall>y. y \<notin> set (x # zs) \<or> y \<in> set (x # cap_list (hears ?h) ?n zs) \<longrightarrow> infos h' y = infos ?h y"
      using h'(3) by (metis list.set_intros(2) set_ConsD)
    then show ?thesis
      unfolding eq(1) step using h'(1,2) by (intro exI [of _ h']) (simp del: fun_upd_apply)
  qed
qed

section \<open>Injecting a packet\<close>

text \<open>Only the links, the ends and the driver of an event matter to the queues.\<close>

lemma queues_links:
  assumes "queues h Q" and "cars h' = cars h"
    and "\<And>x. eggs h x \<noteq> None \<Longrightarrow> map_option (\<lambda>e. (egg_car_u e, egg_pre_u e, egg_nex_u e)) (eggs h' x) =
      map_option (\<lambda>e. (egg_car_u e, egg_pre_u e, egg_nex_u e)) (eggs h x)"
  shows "queues h' Q"
proof -
  have "seg (eggs h') car p xs n" if "seg (eggs h) car p xs n" for car p xs n
    using that
  proof (induction xs arbitrary: p)
    case (Cons x xs)
    then show ?case
      using assms(3) [of x] by auto
  qed simp
  then show ?thesis
    using assms(1,2) unfolding queues_def queue_def by metis
qed

lemma queues_exist: "queues h Q \<Longrightarrow> eggs h a = None \<Longrightarrow> unqueued Q a"
  unfolding unqueued_def
proof (intro ballI notI)
  fix xs
  assume q: "queues h Q" "eggs h a = None" "xs \<in> ran Q" "a \<in> set xs"
  then obtain car where "Q car = Some xs"
    by (auto simp: ran_def)
  from queue_owner [OF queuesD [OF q(1) this] q(4)] q(2) show False
    by simp
qed

lemma ovum_init_queues:
  assumes "queues h Q" and "eggs h a = None" and "u3_ovum_init a mil tar (Cell lab t) cad h = Some h'"
  shows "queues h' Q" and "egg_of h' a None" and "cars h' = cars h" and "\<forall>x. x \<noteq> a \<longrightarrow> infos h' x = infos h x"
    and "\<exists>e. infos h' a = Some e \<and> egg_cad e = cad"
proof -
  have h': "cars h' = cars h" "\<forall>x. x \<noteq> a \<longrightarrow> eggs h' x = eggs h x" "egg_of h' a None" "\<exists>e. eggs h' a = Some e \<and> egg_cad e = cad"
    using assms(3) by (auto simp: u3_ovum_init_def egg_of_def)
  have "eggs h' x = eggs h x" if "eggs h x \<noteq> None" for x
    using assms(2) h'(2) that by (cases "x = a") auto
  then show "queues h' Q"
    by (intro queues_links [OF assms(1) h'(1)]) simp
  show "egg_of h' a None" "cars h' = cars h" "\<forall>x. x \<noteq> a \<longrightarrow> infos h' x = infos h x" "\<exists>e. infos h' a = Some e \<and> egg_cad e = cad"
    using h' by (auto simp: infos_def egg_info_def)
qed

lemma peer_queues:
  assumes "queues h Q" and "eggs h a = Some e"
  shows "\<exists>h'. u3_auto_peer a ptr news bail h = Some h' \<and> queues h' Q \<and> cars h' = cars h \<and> (\<forall>x. x \<noteq> a \<longrightarrow> infos h' x = infos h x) \<and>
    infos h' a = Some (egg_info (e\<lparr>egg_ptr_v := ptr, egg_news_f := news, egg_bail_f := bail\<rparr>))"
proof -
  obtain h' where h': "u3_auto_peer a ptr news bail h = Some h'" "cars h' = cars h"
      "eggs h' = (eggs h)(a \<mapsto> e\<lparr>egg_ptr_v := ptr, egg_news_f := news, egg_bail_f := bail\<rparr>)"
    using assms(2) by (simp add: u3_auto_peer_def egg_upd_def)
  have "queues h' Q"
    by (rule queues_links [OF assms(1) h'(2)]) (use assms(2) in \<open>auto simp: h'(3)\<close>)
  then show ?thesis
    using h' by (simp add: infos_def)
qed

text \<open>The event of a packet that was heard.\<close>

definition hear_card :: "u3_lane \<Rightarrow> byte list \<Rightarrow> noun" where
  "hear_card lan msg = Cell (Atom (mote ''hear''))
     (Cell (Cell (Atom 1) (Atom (u3_ames_encode_lane lan))) (Atom (bytes_val (length msg) msg)))"

text \<open>A queue that an injected event joins as \<open>a\<close>.\<close>

definition injected :: "auto_heap \<Rightarrow> addr \<Rightarrow> addr list \<Rightarrow> addr list" where
  "injected h a xs = cap_list (\<lambda>x. x = a \<or> hears h x) (Suc (length xs)) (xs @ [a])"

definition queue_ready :: "'h ames_env \<Rightarrow> 'h u3_ames \<Rightarrow> (addr \<rightharpoonup> addr list) \<Rightarrow> addr list \<Rightarrow> bool" where
  "queue_ready env sam Q xs \<longleftrightarrow> queues (sam_auto sam) Q \<and> Q (sam_car_u sam) = Some xs \<and> Suc (length xs) < 2 ^ 32 \<and>
     (\<forall>x \<in> set xs. carded (sam_auto sam) x) \<and> eggs (sam_auto sam) (env_new_egg env (sam_auto sam)) = None"

lemma put_packet_ok:
  assumes ready: "queue_ready env sam Q xs" and a: "a = env_new_egg env (sam_auto sam)"
  shows "\<exists>h'. ames_put_packet env msg lan sam = Some (sam\<lparr>sam_auto := h', sam_dop_d := sam_dop_d sam +
        of_nat (Suc (length xs) - length (injected (sam_auto sam) a xs))\<rparr>) \<and>
    queues h' (Q(sam_car_u sam \<mapsto> injected (sam_auto sam) a xs)) \<and>
    (\<forall>x \<in> set (injected (sam_auto sam) a xs). x \<noteq> a \<longrightarrow> infos h' x = infos (sam_auto sam) x) \<and>
    (a \<in> set (injected (sam_auto sam) a xs) \<longrightarrow>
      (\<exists>e. eggs h' a = Some e \<and> egg_cad e = hear_card lan msg \<and> egg_bail_f e = Some hear_bail_cb))"
proof -
  let ?h = "sam_auto sam" and ?car = "sam_car_u sam"
  have r: "queues ?h Q" "Q ?car = Some xs" "Suc (length xs) < 2 ^ 32" "\<forall>x \<in> set xs. carded ?h x" "eggs ?h a = None"
    using ready by (simp_all add: queue_ready_def a)
  obtain h1 where h1: "u3_ovum_init a 0 (Atom (mote ''a'')) (Cell (Atom (mote ''ames'')) (Atom 0)) (hear_card lan msg) ?h = Some h1"
    by (simp add: u3_ovum_init_def)
  note i = ovum_init_queues [OF r(1,5) h1]
  have a_new: "a \<notin> set xs" "unqueued Q a"
    using queues_exist [OF r(1,5)] r(2) by (auto simp: unqueued_def ran_def)
  obtain h2 where h2: "u3_auto_plan ?car a h1 = Some h2" "queues h2 (Q(?car \<mapsto> xs @ [a]))" "infos h2 = infos h1"
    using plan_rep [OF i(1) r(2) i(2) a_new(2)] by blast
  obtain e where e: "eggs h2 a = Some e" "egg_cad e = hear_card lan msg"
    using i(5) infos_egg [of h2 a] unfolding h2(3) by metis
  obtain h3 where h3: "u3_auto_peer a None None (Some hear_bail_cb) h2 = Some h3" "queues h3 (Q(?car \<mapsto> xs @ [a]))"
      "\<forall>x. x \<noteq> a \<longrightarrow> infos h3 x = infos h2 x" "\<exists>e. infos h3 a = Some e \<and> egg_cad e = hear_card lan msg \<and> egg_bail_f e = Some hear_bail_cb"
    using peer_queues [OF h2(2) e(1), of None None "Some hear_bail_cb"] e(2) by (auto simp: egg_info_def)
  have same: "infos h3 x = infos ?h x" if "x \<noteq> a" for x
    using h3(3) h2(3) i(4) that by simp
  have hears: "hears h3 x \<longleftrightarrow> x = a \<or> hears ?h x" and carded: "x \<in> set (xs @ [a]) \<Longrightarrow> carded h3 x" for x
  proof -
    have "hears h3 a" "carded h3 a"
      using h3(4) infos_egg [of h3 a] unfolding hears_def carded_def hear_card_def by metis+
    then show "hears h3 x \<longleftrightarrow> x = a \<or> hears ?h x" "x \<in> set (xs @ [a]) \<Longrightarrow> carded h3 x"
      using infos_cards [OF same, of x] r(4) by auto
  qed
  have inj: "cap_list (hears h3) (Suc (length xs)) (xs @ [a]) = injected ?h a xs"
    unfolding injected_def by (simp add: hears [abs_def])
  let ?sam = "sam\<lparr>sam_auto := h3\<rparr>"
  have "queues (sam_auto ?sam) (Q(?car \<mapsto> xs @ [a]))" "(Q(?car \<mapsto> xs @ [a])) (sam_car_u ?sam) = Some ([] @ xs @ [a])"
      "length ([] @ xs @ [a]) < 2 ^ 32" "\<forall>x \<in> set (xs @ [a]). carded (sam_auto ?sam) x" "distinct ([] @ xs @ [a])"
    using h3(2) r(3) carded a_new queuesD [OF r(1,2)] by (simp_all add: queue_def)
  from cap_loop_ok [OF this]
  obtain h4 where h4: "ames_cap_loop (first (xs @ [a]) None) ?sam = Some (?sam\<lparr>sam_auto := h4, sam_dop_d := sam_dop_d sam +
        of_nat (Suc (length xs) - length (injected ?h a xs))\<rparr>)" "queues h4 (Q(?car \<mapsto> injected ?h a xs))"
      "\<forall>x \<in> set (injected ?h a xs). infos h4 x = infos h3 x"
    by (auto simp: inj simp del: fun_upd_apply)
  obtain c where c: "cars h3 ?car = Some c" "car_ext_u c = first (xs @ [a]) None"
    using queuesD [OF h3(2), of ?car "xs @ [a]"] by (auto simp: queue_def)
  have "ames_put_packet env msg lan sam = ames_cap_queue ?sam"
    using h1 h2(1) h3(1) by (simp add: ames_put_packet_def Let_def ames_auto_def a [symmetric] hear_card_def c3n_def)
  also have "\<dots> = ames_cap_loop (first (xs @ [a]) None) ?sam"
    using c by (simp add: ames_cap_queue_def)
  finally have "ames_put_packet env msg lan sam = Some (sam\<lparr>sam_auto := h4, sam_dop_d := sam_dop_d sam +
        of_nat (Suc (length xs) - length (injected ?h a xs))\<rparr>)"
    using h4(1) by simp
  moreover have "\<forall>x \<in> set (injected ?h a xs). x \<noteq> a \<longrightarrow> infos h4 x = infos ?h x"
    using h4(3) same by simp
  moreover have "\<exists>e. eggs h4 a = Some e \<and> egg_cad e = hear_card lan msg \<and> egg_bail_f e = Some hear_bail_cb"
    if "a \<in> set (injected ?h a xs)"
    using h4(3) h3(4) infos_egg [of h4 a] that by metis
  ultimately show ?thesis
    using h4(2) by blast
qed

end
