(* ===== verification/Ames_Driver_Properties.thy ===== *)
theory Ames_Driver_Properties
  imports Ames_Queue Ames_Properties Auto_Properties
begin

text \<open>
  The properties of the network driver \<^verbatim>\<open>pkg/vere/io/ames.c\<close>: which packets are dropped, injected and
  relayed, what happens to the event queue, and the bound on the packets that wait for a lane.
\<close>

section \<open>What sending changes\<close>

text \<open>Sending changes the requests, the records of the galaxies' addresses and the flag for sending only.\<close>

definition sam_core :: "'h u3_ames \<Rightarrow> 'h u3_ames" where
  "sam_core sam = sam\<lparr>sam_out := [], sam_imp_w := (\<lambda>_. 0), sam_imp_t := (\<lambda>_. 0), sam_imp_o := (\<lambda>_. 0), sam_net_o := 0\<rparr>"

definition send_frame :: "'h u3_ames \<Rightarrow> 'h u3_ames \<Rightarrow> bool" where
  "send_frame sam sam' \<longleftrightarrow> sam_core sam' = sam_core sam"

lemma send_frame_refl [simp]: "send_frame sam sam"
  by (simp add: send_frame_def)

lemma send_frame_trans: "send_frame a b \<Longrightarrow> send_frame b c \<Longrightarrow> send_frame a c"
  by (simp add: send_frame_def)

lemma send_frame_updates:
  "send_frame sam (ames_request req sam)" "send_frame sam (sam\<lparr>sam_net_o := net\<rparr>)" "send_frame sam (sam\<lparr>sam_imp_t := t\<rparr>)"
  "send_frame sam (sam\<lparr>sam_imp_w := w\<rparr>)" "send_frame sam (sam\<lparr>sam_imp_o := o1\<rparr>)"
  by (simp_all add: send_frame_def sam_core_def ames_request_def)

lemma send_frame_send: "send_frame sam (ames_send env pac sam)"
  by (auto simp: ames_send_def Let_def send_frame_updates split: option.split)

lemma send_frame_gone: "send_frame sam (ames_czar_gone pac now sam)"
  by (simp add: ames_czar_gone_def Let_def send_frame_def sam_core_def)

lemma send_frame_here: "send_frame sam (ames_czar_here env pac now pip sam)"
  unfolding ames_czar_here_def Let_def
  by (rule send_frame_trans [OF _ send_frame_send]) (simp add: send_frame_def sam_core_def)

lemma send_frame_czar_cb: "send_frame sam (ames_czar_cb env pac rai sam)"
  by (induction env pac rai sam rule: ames_czar_cb.induct) (simp_all add: send_frame_gone send_frame_here)

lemma send_frame_czar: "send_frame sam (ames_czar env pac sam)"
  by (auto simp: ames_czar_def Let_def send_frame_send send_frame_gone send_frame_updates split: option.split)

lemma send_frame_ef_send: "ames_ef_send env lan pac sam = Some sam' \<Longrightarrow> send_frame sam sam'"
  by (auto simp: ames_ef_send_def Let_def send_frame_send send_frame_czar split: noun.splits if_splits Option.bind_splits)

lemma send_frame_lanes: "ames_forward_lanes env pac las sam = Some sam' \<Longrightarrow> send_frame sam sam'"
proof (induction env pac las sam rule: ames_forward_lanes.induct)
  case (2 env pac lan t sam)
  show ?case
  proof (cases lan)
    case (Atom a)
    then show ?thesis
      using 2 by simp
  next
    case (Cell tag dat)
    with "2.prems" obtain self sam1 where self: "(if Atom (unat c3y) = tag
        then case dat of Atom who \<Rightarrow> Some (u3r_chub 0 who = fst (sam_who_d sam) \<and> u3r_chub 1 who = snd (sam_who_d sam)) | Cell _ _ \<Rightarrow> None
        else Some False) = Some self"
      and sam1: "(if self then Some sam else ames_ef_send env lan pac sam) = Some sam1" "ames_forward_lanes env pac t sam1 = Some sam'"
      by (auto simp: bind_eq_Some_conv)
    have "send_frame sam sam1"
      using sam1(1) send_frame_ef_send by (auto split: if_splits)
    with "2.IH"(2) [OF Cell self sam1] show ?thesis
      by (blast intro: send_frame_trans)
  qed
qed (auto split: if_splits)

section \<open>What injecting changes\<close>

text \<open>Injecting a packet changes the queues and the count of dropped events only.\<close>

definition put_frame :: "'h u3_ames \<Rightarrow> 'h u3_ames \<Rightarrow> bool" where
  "put_frame sam sam' \<longleftrightarrow> (let h = \<lparr>eggs = (\<lambda>_. None), cars = (\<lambda>_. None), calls = []\<rparr>
     in sam'\<lparr>sam_auto := h, sam_dop_d := 0\<rparr> = sam\<lparr>sam_auto := h, sam_dop_d := 0\<rparr>)"

lemma put_frame_refl [simp]: "put_frame sam sam"
  by (simp add: put_frame_def)

lemma put_frame_trans: "put_frame a b \<Longrightarrow> put_frame b c \<Longrightarrow> put_frame a c"
  by (simp add: put_frame_def Let_def)

lemma put_frame_auto: "ames_auto f sam = Some sam' \<Longrightarrow> put_frame sam sam'"
  by (auto simp: ames_auto_def put_frame_def Let_def)

lemma put_frame_dop: "put_frame sam (sam\<lparr>sam_dop_d := d\<rparr>)"
  by (simp add: put_frame_def)

lemma put_frame_cap:
  fixes sam :: "'h u3_ames"
  assumes "ames_cap_loop egg sam = Some sam'"
  shows "put_frame sam sam'"
proof (rule ames_cap_loop.raw_induct [OF _ assms])
  fix loop :: "addr option \<Rightarrow> 'h u3_ames \<Rightarrow> 'h u3_ames option" and egg :: "addr option" and sam sam' :: "'h u3_ames"
  assume IH: "\<And>egg sam sam'. loop egg sam = Some sam' \<Longrightarrow> put_frame sam sam'"
  assume body: "(case egg of
        None \<Rightarrow> Some sam
      | Some egg \<Rightarrow> do {
          car \<leftarrow> cars (sam_auto sam) (sam_car_u sam);
          if \<not> 1000 < car_dep_w car then Some sam
          else do {
            e \<leftarrow> eggs (sam_auto sam) egg;
            case egg_cad e of
              Atom _ \<Rightarrow> None
            | Cell tag _ \<Rightarrow> do {
                sam \<leftarrow> (if Atom (mote ''hear'') = tag
                  then map_option (\<lambda>sam. sam\<lparr>sam_dop_d := sam_dop_d sam + 1\<rparr>) (ames_auto (u3_auto_drop (sam_car_u sam) egg) sam)
                  else Some sam);
                loop (egg_nex_u e) sam
              }
          }
        }) = Some sam'"
  show "put_frame sam sam'"
  proof (cases egg)
    case (Some e)
    with body obtain car where car: "cars (sam_auto sam) (sam_car_u sam) = Some car"
      by (auto simp: bind_eq_Some_conv)
    show ?thesis
    proof (cases "1000 < car_dep_w car")
      case True
      with body Some car obtain d where d: "eggs (sam_auto sam) e = Some d"
        by (cases "eggs (sam_auto sam) e") simp_all
      moreover obtain tag dat where "egg_cad d = Cell tag dat"
        using body Some car True d by (cases "egg_cad d") simp_all
      ultimately obtain sam1 where d: "loop (egg_nex_u d) sam1 = Some sam'"
          "(if Atom (mote ''hear'') = tag
            then map_option (\<lambda>sam. sam\<lparr>sam_dop_d := sam_dop_d sam + 1\<rparr>) (ames_auto (u3_auto_drop (sam_car_u sam) e) sam)
            else Some sam) = Some sam1"
        using body Some car True by (auto simp: bind_eq_Some_conv)
      have "put_frame sam sam1"
        using d(2) put_frame_auto put_frame_dop put_frame_trans by (auto split: if_splits) blast
      then show ?thesis
        using IH [OF d(1)] put_frame_trans by blast
    qed (use body Some car in simp)
  qed (use body in simp)
qed

lemma put_frame_put: "ames_put_packet env msg lan sam = Some sam' \<Longrightarrow> put_frame sam sam'"
  unfolding ames_put_packet_def Let_def ames_cap_queue_def
  by (auto simp: bind_eq_Some_conv dest!: put_frame_auto put_frame_cap intro: put_frame_trans)

section \<open>Dropping, injecting and capping\<close>

text \<open>A valid packet that the version filter lets pass.\<close>

definition packet_heard :: "murmur \<Rightarrow> 'h u3_ames \<Rightarrow> byte list \<Rightarrow> u3_head \<Rightarrow> u3_body \<Rightarrow> bool" where
  "packet_heard murmur sam pac hed bod \<longleftrightarrow> packet_valid murmur pac hed bod \<and> (sam_fit_o sam = c3y \<longrightarrow> sam_ver_y sam = head_ver_y hed)"

lemma hear_heard:
  assumes "packet_heard murmur sam pac hed bod"
  shows "ames_hear env murmur lan pac sam =
    (if c3y = sam_see_o sam \<and> body_rec_d bod \<noteq> sam_who_d sam then ames_try_forward env lan hed bod sam
     else ames_put_packet env (u3i_bytes (length pac) pac) lan sam)"
  using assms by (auto simp: ames_hear_def packet_heard_def packet_valid_def c3y_def c3n_def)

lemma hear_unheard:
  assumes "\<And>hed bod. \<not> packet_heard murmur sam pac hed bod"
  shows "\<exists>sam'. ames_hear env murmur lan pac sam = Some sam' \<and>
    sam' \<in> {sam\<lparr>sam_hed_d := sam_hed_d sam + 1\<rparr>, sam\<lparr>sam_vet_d := sam_vet_d sam + 1\<rparr>,
            sam\<lparr>sam_bod_d := sam_bod_d sam + 1\<rparr>, sam\<lparr>sam_mut_d := sam_mut_d sam + 1\<rparr>}"
proof -
  obtain sim hed where hed: "ames_sift_head pac = (sim, hed)"
    by (cases "ames_sift_head pac")
  then have sim: "sim \<in> {c3y, c3n}"
    by (rule sift_head_sim)
  show ?thesis
  proof (cases "ames_sift_body murmur hed (length pac - 4) (drop 4 pac)")
    case None
    then show ?thesis
      using hed by (auto simp: ames_hear_def Let_def)
  next
    case (Some bod)
    then show ?thesis
      using assms [of hed bod] hed sim by (auto simp: ames_hear_def packet_heard_def packet_valid_def Let_def)
  qed
qed

text \<open>
  A packet that is not valid, or whose version the filter does not accept, is dropped: the driver's state does not
  change but for exactly one of its four counters of filtered packets, by one. In particular nothing is sent,
  relayed or injected for it.
\<close>

theorem ames_hear_filters:
  assumes "\<And>hed bod. \<not> packet_heard murmur sam pac hed bod"
  shows "\<exists>sam'. ames_hear env murmur lan pac sam = Some sam' \<and>
    sam' \<in> {sam\<lparr>sam_hed_d := sam_hed_d sam + 1\<rparr>, sam\<lparr>sam_vet_d := sam_vet_d sam + 1\<rparr>,
            sam\<lparr>sam_bod_d := sam_bod_d sam + 1\<rparr>, sam\<lparr>sam_mut_d := sam_mut_d sam + 1\<rparr>}"
  using hear_unheard [OF assms] .

text \<open>
  Capping the event queue drops the oldest packet events, one for every event above a thousand as long as
  there are packets: the rest keeps its order, every dropped event is a packet, other events are never dropped, and
  every drop is counted. A queue of at most a thousand events is not changed.
\<close>

theorem ames_cap_queue_drops:
  assumes "queues (sam_auto sam) Q" and "Q (sam_car_u sam) = Some xs" and "length xs < 2 ^ 32" and "\<forall>x \<in> set xs. carded (sam_auto sam) x"
  shows "\<exists>sam' ys. ames_cap_queue sam = Some sam' \<and> queues (sam_auto sam') (Q(sam_car_u sam \<mapsto> ys)) \<and> subseq ys xs \<and>
    (\<forall>x \<in> set xs - set ys. hears (sam_auto sam) x) \<and>
    length ys = length xs - min (length xs - 1000) (length (filter (hears (sam_auto sam)) xs)) \<and>
    sam_dop_d sam' = sam_dop_d sam + of_nat (length xs - length ys)"
proof -
  let ?ys = "cap_list (hears (sam_auto sam)) (length xs) xs"
  have q: "queue (sam_auto sam) (sam_car_u sam) xs"
    by (rule queuesD [OF assms(1,2)])
  then have d: "distinct ([] @ xs)" and l: "length ([] @ xs) < 2 ^ 32" and Q: "Q (sam_car_u sam) = Some ([] @ xs)"
    using assms(2,3) by (simp_all add: queue_def)
  obtain h' where h': "ames_cap_loop (first xs None) sam = Some (sam\<lparr>sam_auto := h', sam_dop_d := sam_dop_d sam + of_nat (length xs - length ?ys)\<rparr>)"
      "queues h' (Q(sam_car_u sam \<mapsto> ?ys))"
    using cap_loop_ok [OF assms(1) Q l assms(4) d] by auto
  moreover have "ames_cap_queue sam = ames_cap_loop (first xs None) sam"
    using q by (auto simp: ames_cap_queue_def queue_def)
  moreover have "\<forall>x \<in> set xs - set ?ys. hears (sam_auto sam) x"
    using cap_list_set(2) d by fastforce
  ultimately show ?thesis
    using cap_list_subseq [of "hears (sam_auto sam)" "length xs" xs] cap_list_length [of "hears (sam_auto sam)" "length xs" xs]
    by (intro exI [of _ "sam\<lparr>sam_auto := h', sam_dop_d := sam_dop_d sam + of_nat (length xs - length ?ys)\<rparr>"] exI [of _ ?ys]) simp
qed

text \<open>
  C19. A packet for this ship that passes the filters is injected: the event queue becomes the old one with a new
  event at its end, capped; the new event carries the packet and the lane it came from, and the other events are
  unchanged. Nothing else of the driver's state changes but the count of dropped events.
\<close>

theorem ames_hear_injects:
  assumes "packet_heard murmur sam pac hed bod" and "sam_see_o sam \<noteq> c3y \<or> body_rec_d bod = sam_who_d sam"
    and "queue_ready env sam Q xs" and "a = env_new_egg env (sam_auto sam)" and "ys = injected (sam_auto sam) a xs"
  shows "\<exists>h'. ames_hear env murmur lan pac sam =
      Some (sam\<lparr>sam_auto := h', sam_dop_d := sam_dop_d sam + of_nat (Suc (length xs) - length ys)\<rparr>) \<and>
    queues h' (Q(sam_car_u sam \<mapsto> ys)) \<and> (\<forall>x \<in> set ys. x \<noteq> a \<longrightarrow> infos h' x = infos (sam_auto sam) x) \<and>
    (a \<in> set ys \<longrightarrow> (\<exists>e. eggs h' a = Some e \<and> egg_cad e = hear_card lan (u3i_bytes (length pac) pac)))"
proof -
  have hear: "ames_hear env murmur lan pac sam = ames_put_packet env (u3i_bytes (length pac) pac) lan sam"
    unfolding hear_heard [OF assms(1)] using assms(2) by auto
  show ?thesis
    unfolding hear assms(5) using put_packet_ok [OF assms(3,4)] by blast
qed

section \<open>Relaying\<close>

text \<open>
  C40. A packet for another galaxy is never relayed, nor injected: its lane, which is a pair, is used as the list of
  lanes, so that the driver bails for every galaxy but the first, and drops the packet for that one.
\<close>

theorem ames_galaxy_not_relayed:
  assumes "packet_heard murmur sam pac hed bod" and "sam_see_o sam = c3y" and "body_rec_d bod \<noteq> sam_who_d sam"
    and "ames_galaxy (body_rec_d bod)"
  shows "(fst (body_rec_d bod) \<noteq> 0 \<longrightarrow> ames_hear env murmur lan pac sam = None) \<and>
    (\<forall>sam'. ames_hear env murmur lan pac sam = Some sam' \<longrightarrow> sam_out sam' = sam_out sam \<and> sam_auto sam' = sam_auto sam)"
proof -
  obtain sip where rec: "body_rec_d bod = (sip, 0)" "sip < 256"
    using assms(4) by (cases "body_rec_d bod") (auto simp: ames_galaxy_def)
  then have "unat sip < 256"
    by (simp add: word_less_nat_alt)
  then have byte: "unat (ucast sip :: byte) = unat sip"
    by (simp add: unsigned_ucast_eq take_bit_eq_mod)
  have "ames_hear env murmur lan pac sam = ames_try_forward env lan hed bod sam"
    unfolding hear_heard [OF assms(1)] using assms(2,3) by simp
  then show ?thesis
    using assms(4) rec byte
    by (cases "ames_serialize_packet \<lparr>panc_ore_u = lan, panc_hed_u = hed, panc_bod_u = bod\<rparr> c3y")
      (auto simp: ames_try_forward_def Let_def ames_forward_def ames_panc_free_def unat_eq_zero split: if_splits)
qed

text \<open>The driver can send to this lane: it is live, and the lane is neither local, nor without a port.\<close>

definition can_send :: "'h ames_env \<Rightarrow> 'h u3_ames \<Rightarrow> nat \<Rightarrow> u3_lane \<Rightarrow> bool" where
  "can_send env sam lan dest \<longleftrightarrow> env_net env \<and> Option.bind (cars (sam_auto sam) (sam_car_u sam)) (\<lambda>c. Some (car_liv_o c)) = Some True \<and>
     u3_ames_decode_lane lan = dest \<and> lane_pip_w dest \<noteq> 0 \<and> lane_por_s dest \<noteq> 0 \<and> (\<forall>pac. env_udp env dest pac = 0)"

lemma ef_send_lane:
  assumes "can_send env sam lan dest"
  shows "ames_ef_send env (Cell (Atom 1) (Atom lan)) pac sam = Some (sam\<lparr>sam_out := sam_out sam @ [Udp_send dest pac]\<rparr>)"
  using assms by (auto simp: can_send_def ames_ef_send_def Let_def ames_send_def ames_request_def c3y_def c3n_def bind_eq_Some_conv)

lemma filter_fresh: "a \<notin> fst ` set ps \<Longrightarrow> filter (\<lambda>p. fst p \<noteq> a) ps = ps"
  by (rule filter_True) (metis imageI)

lemma panc_free_new:
  assumes "a \<notin> fst ` set (sam_pac_u sam)"
  shows "ames_panc_free a (sam\<lparr>sam_pac_u := (a, panc) # sam_pac_u sam, sam_fow_d := n, sam_out := out\<rparr>) =
    Some (sam\<lparr>sam_fow_d := n, sam_out := out\<rparr>)"
proof -
  have "filter (\<lambda>p. fst p \<noteq> a) (sam_pac_u sam) = sam_pac_u sam"
    by (rule filter_fresh [OF assms])
  then show ?thesis
    by (cases sam) (simp add: ames_panc_free_def)
qed

text \<open>
  C5. A valid packet for another ship whose lane is in the cache is relayed at once, if it has protocol version 0, has
  not been relayed before, its sender is not a galaxy and its last byte is not 0: the driver sends one packet to that
  lane, which passes the checks of the next hop and carries the lane the packet came from, counts the forward, and keeps
  no record of the packet. The condition on the last byte is needed: the content of a packet is held as an atom, so that
  null bytes at its end are lost when it is serialized again, and the next hop drops what arrives.
\<close>

theorem ames_hear_relays:
  assumes "packet_heard murmur sam pac hed bod" and "sam_see_o sam = c3y" and "body_rec_d bod \<noteq> sam_who_d sam"
    and "\<not> ames_galaxy (body_rec_d bod)"
    and "ames_lane_from_cache env (sam_lax_p sam) (u3i_chubs (body_rec_d bod)) = Some (Some (Cell (Cell (Atom 1) (Atom l)) (Atom 0)))"
    and "can_send env sam l dest" and "env_new_panc env (sam_pac_u sam) \<notin> fst ` set (sam_pac_u sam)"
    and "head_ver_y hed = 0" and "length pac < 2 ^ 15" and "last pac \<noteq> 0" and "head_rel_o hed = c3n" and "\<not> ames_galaxy (body_sen_d bod)"
  shows "\<exists>pac' hed' bod'. ames_hear env murmur lan pac sam =
      Some (sam\<lparr>sam_fow_d := sam_fow_d sam + 1, sam_out := sam_out sam @ [Udp_send dest pac']\<rparr>) \<and>
    packet_valid murmur pac' hed' bod' \<and> body_rec_d bod' = body_rec_d bod \<and> u3_ames_decode_lane (unat (body_rog_d bod')) = lan"
proof -
  have valid: "packet_valid murmur pac hed bod"
    using assms(1) by (simp add: packet_heard_def)
  obtain pac' panc' where pac': "ames_serialize_packet \<lparr>panc_ore_u = lan, panc_hed_u = hed, panc_bod_u = bod\<rparr> c3y = Some (pac', panc')"
      "packet_valid murmur pac' (panc_hed_u panc') (panc_bod_u panc')" "body_rec_d (panc_bod_u panc') = body_rec_d bod"
      "u3_ames_decode_lane (unat (body_rog_d (panc_bod_u panc'))) = lan"
    using relay_ok [OF valid assms(8-12), of lan] by auto
  let ?a = "env_new_panc env (sam_pac_u sam)"
  let ?sam = "sam\<lparr>sam_pac_u := (?a, \<lparr>panc_ore_u = lan, panc_hed_u = hed, panc_bod_u = bod\<rparr>) # sam_pac_u sam, sam_fow_d := sam_fow_d sam + 1\<rparr>"
  have "can_send env ?sam l dest"
    using assms(6) by (simp add: can_send_def)
  then have "ames_forward_lanes env pac' (Cell (Cell (Atom 1) (Atom l)) (Atom 0)) ?sam =
      Some (?sam\<lparr>sam_out := sam_out sam @ [Udp_send dest pac']\<rparr>)"
    by (simp add: ef_send_lane [unfolded One_nat_def] c3y_def)
  then have "ames_hear env murmur lan pac sam =
      Some (sam\<lparr>sam_fow_d := sam_fow_d sam + 1, sam_out := sam_out sam @ [Udp_send dest pac']\<rparr>)"
    unfolding hear_heard [OF assms(1)] using assms(2-5) pac'(1) panc_free_new [OF assms(7)]
    by (simp add: ames_try_forward_def Let_def ames_forward_def del: ames_forward_lanes.simps One_nat_def)
  then show ?thesis
    using pac'(2-4) by blast
qed

section \<open>Packets that wait for a lane\<close>

text \<open>
  The driver as a state machine: it reacts to packets, to the kernel's answers, to effects and to the callbacks of
  the network library, in any order, and whatever the environment does, except that the allocator returns the
  address of a new object.
\<close>

definition env_fresh :: "'h ames_env \<Rightarrow> 'h u3_ames \<Rightarrow> bool" where
  "env_fresh env sam \<longleftrightarrow> env_new_panc env (sam_pac_u sam) \<notin> fst ` set (sam_pac_u sam)"

inductive ames_step :: "murmur \<Rightarrow> 'h u3_ames \<Rightarrow> 'h u3_ames \<Rightarrow> bool" for murmur where
  recv: "env_fresh env sam \<Longrightarrow> ames_recv_cb env murmur nrd_i partial adr_u buf_u sam = Some sam' \<Longrightarrow> ames_step murmur sam sam'"
| scry: "ames_lane_scry_cb env pac_u nun sam = Some sam' \<Longrightarrow> ames_step murmur sam sam'"
| prot: "ames_step murmur sam (ames_prot_scry_cb nun sam)"
| send: "ames_ef_send env lan pac sam = Some sam' \<Longrightarrow> ames_step murmur sam sam'"
| sent: "ames_step murmur sam (ames_send_cb sas_i sam)"
| czar: "ames_step murmur sam (ames_czar_cb env pact rai_u sam)"
| bail: "ames_hear_bail egg_u lud sam = Some sam' \<Longrightarrow> ames_step murmur sam sam'"

definition pending_inv :: "'h u3_ames \<Rightarrow> bool" where
  "pending_inv sam \<longleftrightarrow> distinct (map fst (sam_pac_u sam)) \<and> unat (sam_foq_d sam) = length (sam_pac_u sam) \<and> length (sam_pac_u sam) \<le> 1001"

lemma send_frame_pending: "send_frame sam sam' \<Longrightarrow> sam_pac_u sam' = sam_pac_u sam \<and> sam_foq_d sam' = sam_foq_d sam"
  unfolding send_frame_def by (auto dest: arg_cong [of _ _ sam_pac_u] arg_cong [of _ _ sam_foq_d] simp: sam_core_def)

lemma put_frame_pending: "put_frame sam sam' \<Longrightarrow> sam_pac_u sam' = sam_pac_u sam \<and> sam_foq_d sam' = sam_foq_d sam"
  unfolding put_frame_def Let_def by (auto dest: arg_cong [of _ _ sam_pac_u] arg_cong [of _ _ sam_foq_d])

lemma panc_free_pending:
  "ames_panc_free a sam = Some sam' \<Longrightarrow> a \<in> fst ` set (sam_pac_u sam) \<and>
    sam_pac_u sam' = filter (\<lambda>p. fst p \<noteq> a) (sam_pac_u sam) \<and> sam_foq_d sam' = sam_foq_d sam"
  by (auto simp: ames_panc_free_def map_of_eq_None_iff split: if_splits)

lemma forward_pending:
  assumes "ames_forward env a las sam = Some sam'"
  shows "a \<in> fst ` set (sam_pac_u sam) \<and> sam_pac_u sam' = filter (\<lambda>p. fst p \<noteq> a) (sam_pac_u sam) \<and> sam_foq_d sam' = sam_foq_d sam"
proof -
  obtain pac sam1 where "ames_forward_lanes env pac las (sam\<lparr>sam_fow_d := sam_fow_d sam + 1\<rparr>) = Some sam1" "ames_panc_free a sam1 = Some sam'"
    using assms by (auto simp: ames_forward_def bind_eq_Some_conv)
  then show ?thesis
    using send_frame_pending [OF send_frame_lanes] panc_free_pending by fastforce
qed

lemma length_remove_key: "distinct (map fst ps) \<Longrightarrow> a \<in> fst ` set ps \<Longrightarrow> Suc (length (filter (\<lambda>p. fst p \<noteq> a) ps)) = length ps"
proof (induction ps)
  case (Cons p ps)
  show ?case
  proof (cases "fst p = a")
    case True
    then have "filter (\<lambda>p. fst p \<noteq> a) ps = ps"
      using Cons.prems(1) by (intro filter_fresh) simp
    then show ?thesis
      using True by simp
  qed (use Cons in auto)
qed simp

lemma foq_less: "unat foq \<le> 1000 \<Longrightarrow> unat (foq + 1 :: u64) = Suc (unat foq)" "0 < unat foq \<Longrightarrow> unat (foq - 1 :: u64) = unat foq - 1"
  by (simp_all add: unat_word_ariths unat_minus_one unat_gt_0)

lemma forward_new_pending:
  assumes "ames_forward env a las (sam\<lparr>sam_pac_u := (a, panc) # sam_pac_u sam\<rparr>) = Some sam'" and "a \<notin> fst ` set (sam_pac_u sam)"
    and "pending_inv sam"
  shows "pending_inv sam'"
proof -
  have "filter (\<lambda>p. fst p \<noteq> a) (sam_pac_u sam) = sam_pac_u sam"
    by (rule filter_fresh [OF assms(2)])
  then have "sam_pac_u sam' = sam_pac_u sam" "sam_foq_d sam' = sam_foq_d sam"
    using forward_pending [OF assms(1)] by simp_all
  then show ?thesis
    using assms(3) by (simp add: pending_inv_def)
qed

lemma try_forward_pending:
  assumes tf: "ames_try_forward env lan hed bod sam = Some sam'" and fresh: "env_fresh env sam" and inv: "pending_inv sam"
  shows "pending_inv sam'"
proof -
  let ?a = "env_new_panc env (sam_pac_u sam)" and ?panc = "\<lparr>panc_ore_u = lan, panc_hed_u = hed, panc_bod_u = bod\<rparr>"
  let ?sam = "sam\<lparr>sam_pac_u := (?a, ?panc) # sam_pac_u sam\<rparr>"
  consider las where "ames_forward env ?a las ?sam = Some sam'" | "sam_pac_u sam' = sam_pac_u sam" "sam_foq_d sam' = sam_foq_d sam"
    | "\<not> 1000 < sam_foq_d sam" "sam_pac_u sam' = (?a, ?panc) # sam_pac_u sam" "sam_foq_d sam' = sam_foq_d sam + 1"
  proof (cases "ames_galaxy (body_rec_d bod)")
    case False
    with tf obtain lac where lac: "ames_lane_from_cache env (sam_lax_p sam) (u3i_chubs (body_rec_d bod)) = Some lac"
      by (cases "ames_lane_from_cache env (sam_lax_p sam) (u3i_chubs (body_rec_d bod))") (simp_all add: ames_try_forward_def Let_def)
    show thesis
    proof (cases lac)
      case None
      then show thesis
        using tf False lac that(2,3) by (auto simp: ames_try_forward_def Let_def ames_request_def split: if_splits)
    next
      case (Some las)
      then show thesis
        using tf False lac that(1,2) by (auto simp: ames_try_forward_def Let_def split: if_splits)
    qed
  qed (use tf that(1) in \<open>simp add: ames_try_forward_def Let_def\<close>)
  then show ?thesis
  proof cases
    case 1
    then show ?thesis
      using forward_new_pending fresh inv by (auto simp: env_fresh_def)
  next
    case 2
    then show ?thesis
      using inv by (simp add: pending_inv_def)
  next
    case 3
    then have "unat (sam_foq_d sam) \<le> 1000"
      by (simp add: word_less_nat_alt not_less)
    then show ?thesis
      using 3 fresh inv foq_less(1) by (auto simp: pending_inv_def env_fresh_def)
  qed
qed

text \<open>The branch for an answer without a list of lanes.\<close>

lemma scry_fails:
  assumes "map_of (sam_pac_u sam) a = Some panc" and "\<nexists>x y las. nun = Cell x (Cell y las)"
  shows "ames_lane_scry_cb env a nun sam = do {
      (pac, _) \<leftarrow> ames_serialize_packet panc c3n;
      sam1 \<leftarrow> ames_put_packet env pac (panc_ore_u panc) (sam\<lparr>sam_foq_d := sam_foq_d sam - 1, sam_saw_d := sam_saw_d sam + 1,
        sam_see_o := (if 5 < sam_saw_d sam + 1 then c3n else sam_see_o sam)\<rparr>);
      ames_panc_free a sam1
    }"
proof -
  have see: "(if b then s\<lparr>sam_see_o := c3n\<rparr> else s) = s\<lparr>sam_see_o := (if b then c3n else sam_see_o s)\<rparr>" for b and s :: "'a u3_ames"
    by simp
  show ?thesis
    using assms by (cases nun rule: noun.exhaust) (auto simp: ames_lane_scry_cb_def Let_def see split: noun.splits)
qed

lemma scry_pending:
  assumes scry: "ames_lane_scry_cb env a nun sam = Some sam'" and inv: "pending_inv sam"
  shows "pending_inv sam'"
proof -
  obtain panc where panc: "map_of (sam_pac_u sam) a = Some panc"
    using scry by (auto simp: ames_lane_scry_cb_def bind_eq_Some_conv)
  then have a: "a \<in> fst ` set (sam_pac_u sam)"
    by (force dest: map_of_SomeD)
  have "sam_pac_u sam' = filter (\<lambda>p. fst p \<noteq> a) (sam_pac_u sam) \<and> sam_foq_d sam' = sam_foq_d sam - 1"
  proof (cases "\<exists>x y las. nun = Cell x (Cell y las)")
    case True
    then show ?thesis
      using scry panc by (auto simp: ames_lane_scry_cb_def Let_def split: if_splits dest!: panc_free_pending forward_pending)
  next
    case False
    with scry obtain saw see pac sam1 where
        "ames_put_packet env pac (panc_ore_u panc) (sam\<lparr>sam_foq_d := sam_foq_d sam - 1, sam_saw_d := saw, sam_see_o := see\<rparr>) = Some sam1"
        "ames_panc_free a sam1 = Some sam'"
      using scry_fails [OF panc, of nun env] by (fastforce simp: bind_eq_Some_conv)
    then show ?thesis
      using put_frame_pending [OF put_frame_put] panc_free_pending by fastforce
  qed
  moreover have "0 < length (sam_pac_u sam)"
    using a by auto
  ultimately show ?thesis
    using inv length_remove_key [OF _ a] foq_less(2) [of "sam_foq_d sam"]
    by (auto simp: pending_inv_def distinct_map_filter)
qed

lemma hear_pending:
  assumes "ames_hear env murmur lan pac sam = Some sam'" and "env_fresh env sam" and "pending_inv sam"
  shows "pending_inv sam'"
proof (cases "\<exists>hed bod. packet_heard murmur sam pac hed bod")
  case True
  then obtain hed bod where heard: "packet_heard murmur sam pac hed bod"
    by blast
  then consider "ames_try_forward env lan hed bod sam = Some sam'" | "ames_put_packet env (u3i_bytes (length pac) pac) lan sam = Some sam'"
    using assms(1) unfolding hear_heard [OF heard] by (auto split: if_splits)
  then show ?thesis
  proof cases
    case 1
    then show ?thesis
      by (rule try_forward_pending [OF _ assms(2,3)])
  next
    case 2
    then show ?thesis
      using put_frame_pending [OF put_frame_put [OF 2]] assms(3) by (simp add: pending_inv_def)
  qed
next
  case False
  then have "sam_pac_u sam' = sam_pac_u sam \<and> sam_foq_d sam' = sam_foq_d sam"
    using hear_unheard [of murmur sam pac env lan] assms(1) by auto
  then show ?thesis
    using assms(3) by (simp add: pending_inv_def)
qed

lemma step_pending: "ames_step murmur sam sam' \<Longrightarrow> pending_inv sam \<Longrightarrow> pending_inv sam'"
proof (induction rule: ames_step.induct)
  case (recv env sam nrd_i partial adr_u buf_u sam')
  then show ?case
    using hear_pending by (auto simp: ames_recv_cb_def split: if_splits)
next
  case (scry env pac_u nun sam sam')
  then show ?case
    using scry_pending by blast
next
  case (prot sam nun)
  then show ?case
    by (auto simp: ames_prot_scry_cb_def pending_inv_def Let_def split: noun.splits)
next
  case (send env lan pac sam sam')
  then show ?case
    using send_frame_pending [OF send_frame_ef_send [OF send.hyps]] by (simp add: pending_inv_def)
next
  case (sent sam sas_i)
  then show ?case
    by (simp add: ames_send_cb_def pending_inv_def)
next
  case (czar sam env pact rai_u)
  then show ?case
    using send_frame_pending [OF send_frame_czar_cb] by (metis pending_inv_def)
next
  case (bail egg_u lud sam sam')
  then consider "ames_auto (u3_ovum_free egg_u) (sam\<lparr>sam_bad_d := sam_bad_d sam + 1\<rparr>) = Some sam'"
    | "ames_auto (u3_ovum_free egg_u) (sam\<lparr>sam_fal_d := sam_fal_d sam + 1\<rparr>) = Some sam'"
    by (auto simp: ames_hear_bail_def bind_eq_Some_conv split: if_splits noun.splits)
  then have "sam_pac_u sam' = sam_pac_u sam \<and> sam_foq_d sam' = sam_foq_d sam"
    by cases (drule put_frame_pending [OF put_frame_auto], simp)+
  then show ?case
    using bail.prems by (simp add: pending_inv_def)
qed

text \<open>
  C21. At most 1001 packets wait for a lane at any time, whatever packets, answers and callbacks arrive in whatever
  order, and the counter of pending forwards is always their number, so that it never wraps: every request for a
  lane records one packet, and every answer disposes of exactly one.
\<close>

theorem ames_forwards_bounded:
  assumes "(ames_step murmur)\<^sup>*\<^sup>* sam sam'" and "sam_pac_u sam = []" and "sam_foq_d sam = 0"
  shows "length (sam_pac_u sam') \<le> 1001 \<and> unat (sam_foq_d sam') = length (sam_pac_u sam')"
proof -
  from assms(1) have "pending_inv sam \<Longrightarrow> pending_inv sam'"
    by (induction rule: rtranclp_induct) (auto intro: step_pending)
  then show ?thesis
    using assms(2,3) by (simp add: pending_inv_def)
qed

section \<open>Galaxies\<close>

lemma lane_eq: "(lan :: u3_lane)\<lparr>lane_por_s := por, lane_pip_w := pip\<rparr> = \<lparr>lane_pip_w = pip, lane_por_s = por\<rparr>"
  by (cases lan) simp

text \<open>
  The address of a galaxy is kept for five minutes: once it was found, packets for the galaxy are sent to it at
  the galaxy's port without another lookup. After a failed first lookup, packets for the galaxy are dropped for
  five minutes, without another lookup.
\<close>

theorem ames_czar_cached:
  assumes "env_net env" and "sam_dns_c sam \<noteq> None" and "t \<le> env_now env" and "env_now env < t + 300" and "pact_imp_y pac = imp"
    and "pact_imp_y pac' = imp" and "pip \<noteq> 0" and "pip \<noteq> 0xffffffff" and "pact_hun_y pac' = Some hun"
    and "env_udp env \<lparr>lane_pip_w = pip, lane_por_s = 13337 + ucast imp\<rparr> hun = 0"
  shows "sam_out (ames_czar env pac' (ames_czar_here env0 pac t pip sam)) =
      sam_out (ames_czar_here env0 pac t pip sam) @ [Udp_send \<lparr>lane_pip_w = pip, lane_por_s = 13337 + ucast imp\<rparr> hun] \<and>
    (sam_imp_w sam imp = 0 \<longrightarrow> ames_czar env pac' (ames_czar_gone pac t sam) = ames_czar_gone pac t sam)"
proof -
  have frame: "sam_dns_c (ames_czar_here env0 pac t pip sam) = sam_dns_c sam"
    using send_frame_here [of sam env0 pac t pip] unfolding send_frame_def
    by (auto dest!: arg_cong [of _ _ sam_dns_c] simp: sam_core_def)
  have imp: "sam_imp_w (ames_czar_here env0 pac t pip sam) imp = pip" "sam_imp_t (ames_czar_here env0 pac t pip sam) imp = t"
    using assms(5) by (auto simp: ames_czar_here_def ames_send_def ames_request_def Let_def split: option.split)
  show ?thesis
    using assms frame imp
    by (auto simp: ames_czar_def Let_def ames_send_def ames_request_def ames_czar_port_def ames_czar_gone_def lane_eq)
qed

text \<open>
  The flag for being able to send is not reliable: it is cleared by a failed send, but the next failed send sets
  it again, so that after an even number of failures in a row the driver reports that it can send.
\<close>

theorem ames_send_flag_flips:
  assumes "sas_i \<noteq> 0" and "sam_net_o sam = c3y"
  shows "sam_net_o ((ames_send_cb sas_i ^^ n) sam) = (if even n then c3y else c3n)"
  using assms by (induction n) (auto simp: ames_send_cb_def c3y_def c3n_def)

section \<open>Witnesses\<close>

text \<open>
  A live driver of the ship \<open>who\<close> with two events in its queue, and an environment with a cache that has the same
  answer for every ship.
\<close>

definition example_sam :: "u64 \<Rightarrow> unit u3_ames" where
  "example_sam who = \<lparr>sam_auto = example_heap, sam_car_u = 0, sam_who_d = (who, 0), sam_dns_c = Some ''urbit.org'', sam_ver_y = 0,
     sam_lax_p = (), sam_pac_u = [], sam_imp_w = (\<lambda>_. 0), sam_imp_t = (\<lambda>_. 0), sam_imp_o = (\<lambda>_. c3y), sam_net_o = c3y,
     sam_see_o = c3y, sam_fit_o = c3y, sam_dop_d = 0, sam_fal_d = 0, sam_saw_d = 0, sam_hed_d = 0, sam_vet_d = 0, sam_mut_d = 0,
     sam_bod_d = 0, sam_foq_d = 0, sam_fow_d = 0, sam_fod_d = 0, sam_bad_d = 0, sam_out = []\<rparr>"

definition example_env :: "noun option \<Rightarrow> unit ames_env" where
  "example_env lac = \<lparr>env_net = True, env_now = 100, env_tv = (10, 0), env_udp = (\<lambda>_ _. 0), env_dns = (\<lambda>_. 0), env_scot = (\<lambda>_. ''~zod''),
     env_git = (\<lambda>_ _. lac), env_put = (\<lambda>h _ _. h), env_new_egg = (\<lambda>_. 50), env_new_panc = (\<lambda>_. 60)\<rparr>"

definition example_lane :: u3_lane where
  "example_lane = \<lparr>lane_pip_w = 0x01020304, lane_por_s = 1234\<rparr>"

lemma example_heard:
  assumes "unat rec < 2 ^ 16"
  obtains pac hed bod where "packet_heard fnv (example_sam who) pac hed bod" and "length pac < 2 ^ 15" and "last pac \<noteq> 0"
    and "head_ver_y hed = 0" and "head_rel_o hed = c3n" and "\<not> ames_galaxy (body_sen_d bod)" and "body_rec_d bod = (rec, 0)"
proof -
  obtain pac hed bod where pac: "packet_valid fnv pac hed bod" "length pac = 10" "last pac = 7" "head_ver_y hed = 0" "head_rel_o hed = c3n"
      "\<not> ames_galaxy (body_sen_d bod)" "body_rec_d bod = (rec, 0)"
    by (rule example_packet [OF assms])
  then have "packet_heard fnv (example_sam who) pac hed bod"
    by (simp add: packet_heard_def example_sam_def)
  then show thesis
    by (rule that) (use pac in simp_all)
qed

lemma example_queue_ready: "queue_ready (example_env lac) (example_sam who) example_queues [10, 11]"
  using example_heap_queues
  by (auto simp: queue_ready_def example_sam_def example_env_def example_queues_def carded_def example_heap_def example_egg_def)

theorem ames_hear_filters_witness:
  "\<exists>sam'. ames_hear (example_env None) fnv example_lane [1, 2, 3] (example_sam 5) = Some sam' \<and> sam_auto sam' = sam_auto (example_sam 5)"
proof -
  have "\<not> packet_heard fnv (example_sam 5) [1, 2, 3] hed bod" for hed bod
    by (simp add: packet_heard_def packet_valid_def)
  from ames_hear_filters [OF this, of "example_env None" example_lane] show ?thesis
    by auto
qed

theorem ames_cap_queue_drops_witness:
  "\<exists>sam'. ames_cap_queue (example_sam 5) = Some sam' \<and> queues (sam_auto sam') [0 \<mapsto> [10, 11], 1 \<mapsto> [12]]"
proof -
  have ready: "queues (sam_auto (example_sam 5)) example_queues" "example_queues (sam_car_u (example_sam 5)) = Some [10, 11]"
      "\<forall>x \<in> set [10, 11]. carded (sam_auto (example_sam 5)) x"
    using example_queue_ready [of None 5] by (simp_all add: queue_ready_def)
  have car: "sam_car_u (example_sam 5) = 0"
    by (simp add: example_sam_def)
  obtain sam' ys where sam': "ames_cap_queue (example_sam 5) = Some sam'" "queues (sam_auto sam') (example_queues(0 \<mapsto> ys))"
      "subseq ys [10, 11]" "length ys = 2"
    using ames_cap_queue_drops [OF ready(1,2) _ ready(3)] by (auto simp: car)
  have "ys = [10, 11]"
    using subseq_same_length [OF sam'(3)] sam'(4) by simp
  then show ?thesis
    using sam'(1,2) by (auto simp: example_queues_def fun_upd_twist)
qed

theorem ames_hear_injects_witness:
  "\<exists>pac h' e. ames_hear (example_env None) fnv example_lane pac (example_sam 0x5678) = Some ((example_sam 0x5678)\<lparr>sam_auto := h'\<rparr>) \<and>
    queue h' 0 [10, 11, 50] \<and> eggs h' 50 = Some e \<and> egg_cad e = hear_card example_lane (u3i_bytes (length pac) pac)"
proof -
  obtain pac hed bod where pac: "packet_heard fnv (example_sam 0x5678) pac hed bod" "body_rec_d bod = (0x5678, 0)"
    by (rule example_heard [of "0x5678" "0x5678"]) simp_all
  have us: "sam_see_o (example_sam 0x5678) \<noteq> c3y \<or> body_rec_d bod = sam_who_d (example_sam 0x5678)"
    using pac(2) by (simp add: example_sam_def)
  have new: "50 = env_new_egg (example_env None) (sam_auto (example_sam 0x5678))" "sam_car_u (example_sam 0x5678) = 0"
      "[10, 11, 50] = injected (sam_auto (example_sam 0x5678)) 50 [10, 11]"
    by (simp_all add: example_env_def injected_def example_sam_def)
  from ames_hear_injects [OF pac(1) us example_queue_ready new(1,3), of example_lane] obtain h' where
      "ames_hear (example_env None) fnv example_lane pac (example_sam 0x5678) =
        Some ((example_sam 0x5678)\<lparr>sam_auto := h', sam_dop_d := sam_dop_d (example_sam 0x5678) + 0\<rparr>)"
      "queues h' (example_queues(0 \<mapsto> [10, 11, 50]))"
      "\<exists>e. eggs h' 50 = Some e \<and> egg_cad e = hear_card example_lane (u3i_bytes (length pac) pac)"
    by (auto simp: new(2))
  then show ?thesis
    using queuesD [of h' "example_queues(0 \<mapsto> [10, 11, 50])" 0 "[10, 11, 50]"] by (auto simp: example_sam_def)
qed

theorem ames_galaxy_not_relayed_witness:
  "\<exists>pac hed bod. packet_valid fnv pac hed bod \<and> body_rec_d bod = (5, 0) \<and>
    ames_hear (example_env None) fnv example_lane pac (example_sam 0x5678) = None"
proof -
  obtain pac hed bod where pac: "packet_heard fnv (example_sam 0x5678) pac hed bod" "body_rec_d bod = (5, 0)"
    by (rule example_heard [of 5 "0x5678"]) simp_all
  have "sam_see_o (example_sam 0x5678) = c3y" "body_rec_d bod \<noteq> sam_who_d (example_sam 0x5678)" "ames_galaxy (body_rec_d bod)"
    using pac(2) by (simp_all add: example_sam_def ames_galaxy_def)
  from ames_galaxy_not_relayed [OF pac(1) this, of "example_env None" example_lane] pac(2)
  have "ames_hear (example_env None) fnv example_lane pac (example_sam 0x5678) = None"
    by simp
  then show ?thesis
    using pac unfolding packet_heard_def by blast
qed

theorem ames_hear_relays_witness:
  "\<exists>pac pac' hed' bod'. ames_hear (example_env (Some (Cell (Cell (Cell (Atom 1) (Atom (u3_ames_encode_lane example_lane))) (Atom 0))
        (Atom (u3_time_in_tv (10, 0)))))) fnv \<lparr>lane_pip_w = 1, lane_por_s = 2\<rparr> pac (example_sam 0x9999) =
      Some ((example_sam 0x9999)\<lparr>sam_fow_d := 1, sam_out := [Udp_send example_lane pac']\<rparr>) \<and>
    packet_valid fnv pac' hed' bod' \<and> u3_ames_decode_lane (unat (body_rog_d bod')) = \<lparr>lane_pip_w = 1, lane_por_s = 2\<rparr>"
proof -
  let ?las = "Cell (Cell (Atom 1) (Atom (u3_ames_encode_lane example_lane))) (Atom 0)"
  let ?env = "example_env (Some (Cell ?las (Atom (u3_time_in_tv (10, 0)))))"
  obtain pac hed bod where pac: "packet_heard fnv (example_sam 0x9999) pac hed bod" "length pac < 2 ^ 15" "last pac \<noteq> 0"
      "head_ver_y hed = 0" "head_rel_o hed = c3n" "\<not> ames_galaxy (body_sen_d bod)" "body_rec_d bod = (0x5678, 0)"
    by (rule example_heard [of "0x5678" "0x9999"]) simp_all
  have see: "sam_see_o (example_sam 0x9999) = c3y" "body_rec_d bod \<noteq> sam_who_d (example_sam 0x9999)" "\<not> ames_galaxy (body_rec_d bod)"
    using pac(7) by (simp_all add: example_sam_def ames_galaxy_def)
  have cache: "ames_lane_from_cache ?env (sam_lax_p (example_sam 0x9999)) (u3i_chubs (body_rec_d bod)) = Some (Some ?las)"
    by (simp add: ames_lane_from_cache_def example_env_def u3_time_gap_ms_def)
  have send: "can_send ?env (example_sam 0x9999) (u3_ames_encode_lane example_lane) example_lane"
    by (simp add: can_send_def example_env_def example_sam_def example_heap_def example_car_def decode_lane_chub
        u3_ames_encode_lane_def) (simp add: example_lane_def)
  have fresh: "env_new_panc ?env (sam_pac_u (example_sam 0x9999)) \<notin> fst ` set (sam_pac_u (example_sam 0x9999))"
    by (simp add: example_sam_def)
  from ames_hear_relays [OF pac(1) see cache send fresh pac(4,2,3,5,6), of "\<lparr>lane_pip_w = 1, lane_por_s = 2\<rparr>"] show ?thesis
    by (auto simp: example_sam_def)
qed

theorem ames_forwards_bounded_witness:
  "\<exists>sam'. (ames_step fnv)\<^sup>*\<^sup>* (example_sam 0x9999) sam' \<and> length (sam_pac_u sam') = 1 \<and> unat (sam_foq_d sam') = length (sam_pac_u sam')"
proof -
  let ?sam = "example_sam 0x9999" and ?env = "example_env None"
  obtain pac hed bod where pac: "packet_heard fnv ?sam pac hed bod" "body_rec_d bod = (0x5678, 0)" "last pac \<noteq> 0"
    by (rule example_heard [of "0x5678" "0x9999"]) simp_all
  let ?sam' = "ames_request (Peek_lane (u3i_chubs (body_rec_d bod)) 60)
      (?sam\<lparr>sam_pac_u := [(60, \<lparr>panc_ore_u = example_lane, panc_hed_u = hed, panc_bod_u = bod\<rparr>)], sam_foq_d := 1\<rparr>)"
  have ne: "pac \<noteq> []"
    using pac(1) by (auto simp: packet_heard_def packet_valid_def)
  have "ames_hear ?env fnv example_lane pac ?sam = Some ?sam'"
    unfolding hear_heard [OF pac(1)] using pac(2)
    by (simp add: ames_try_forward_def ames_lane_from_cache_def example_env_def example_sam_def ames_galaxy_def Let_def)
  then have "ames_recv_cb ?env fnv (int (length pac)) False example_lane pac ?sam = Some ?sam'"
    using ne by (simp add: ames_recv_cb_def)
  then have step: "(ames_step fnv)\<^sup>*\<^sup>* ?sam ?sam'"
    by (intro r_into_rtranclp ames_step.recv [where env = ?env]) (simp_all add: env_fresh_def example_sam_def)
  have "sam_pac_u ?sam = []" "sam_foq_d ?sam = 0"
    by (simp_all add: example_sam_def)
  from ames_forwards_bounded [OF step this] step show ?thesis
    by (intro exI [of _ ?sam']) (simp add: ames_request_def)
qed

theorem ames_czar_cached_witness:
  "sam_out (ames_czar (example_env None) \<lparr>pact_lan_u = example_lane, pact_hun_y = Some [1], pact_imp_y = 3, pact_dns_c = None\<rparr>
      (ames_czar_here (example_env None) \<lparr>pact_lan_u = example_lane, pact_hun_y = None, pact_imp_y = 3, pact_dns_c = None\<rparr> 50 9 (example_sam 5))) =
    [Udp_send \<lparr>lane_pip_w = 9, lane_por_s = 13340\<rparr> [1]]"
proof -
  let ?sam = "ames_czar_here (example_env None) \<lparr>pact_lan_u = example_lane, pact_hun_y = None, pact_imp_y = 3, pact_dns_c = None\<rparr> 50 9 (example_sam 5)"
  have "sam_out ?sam = []"
    by (simp add: ames_czar_here_def ames_send_def example_sam_def)
  then show ?thesis
    using ames_czar_cached [of "example_env None" "example_sam 5" 50 "\<lparr>pact_lan_u = example_lane, pact_hun_y = None, pact_imp_y = 3, pact_dns_c = None\<rparr>" 3
        "\<lparr>pact_lan_u = example_lane, pact_hun_y = Some [1], pact_imp_y = 3, pact_dns_c = None\<rparr>" 9 "[1]" "example_env None"]
    by (simp add: example_env_def example_sam_def)
qed

theorem ames_send_flag_flips_witness: "sam_net_o ((ames_send_cb 1 ^^ 2) (example_sam 5)) = c3y"
  using ames_send_flag_flips [of 1 "example_sam 5" 2] by (simp add: example_sam_def)

end
