(* ===== verification/Noun_Access.thy ===== *)
theory Noun_Access
  imports Ur_Arena
begin

text \<open>
  Reading nouns, from \<^verbatim>\<open>pkg/noun/retrieve.c\<close>, \<^verbatim>\<open>pkg/noun/xtract.c\<close> and the macros of
  \<^verbatim>\<open>allocate.h\<close> and \<^verbatim>\<open>xtract.h\<close>, at the level of noun values: an atom is its number, a cell
  its two parts, and reference counts are not represented. The functions \<^verbatim>\<open>u3r_*\<close> report failure
  in their result (\<open>None\<close>), the functions \<^verbatim>\<open>u3x_*\<close> raise it.

  A computation that can raise returns a sum: the left summand is what ends it. A bail is the
  mote or the cell (\<open>Ball\<close>) it is called with, a failed assertion aborts the process, and \<open>Undefined\<close> is a step whose
  behaviour C does not define (a read of a variable that was never written).
\<close>

section \<open>Results\<close>

datatype bail = Exit | Fail | Meme | Oops | Assertion | Undefined | Ball noun

type_synonym 'a jet = "bail + 'a"

definition on_ok :: "'a jet \<Rightarrow> ('a \<Rightarrow> 'b jet) \<Rightarrow> 'b jet" where
  "on_ok x f = (case x of Inl e \<Rightarrow> Inl e | Inr v \<Rightarrow> f v)"

lemma on_ok_simps [simp]: "on_ok (Inl e) f = Inl e" "on_ok (Inr v) f = f v"
  by (simp_all add: on_ok_def)

lemma on_ok_cong [fundef_cong]:
  "x = x' \<Longrightarrow> (\<And>v. x' = Inr v \<Longrightarrow> f v = f' v) \<Longrightarrow> on_ok x f = on_ok x' f'"
  by (cases x') auto

lemma on_ok_eq_Inr: "on_ok x f = Inr y \<longleftrightarrow> (\<exists>v. x = Inr v \<and> f v = Inr y)"
  by (cases x) auto

section \<open>Cells\<close>

definition u3_nul :: noun where
  "u3_nul = Atom 0"

abbreviation u3nc :: "noun \<Rightarrow> noun \<Rightarrow> noun" where
  "u3nc \<equiv> Cell"

abbreviation u3nt :: "noun \<Rightarrow> noun \<Rightarrow> noun \<Rightarrow> noun" where
  "u3nt a b c \<equiv> Cell a (Cell b c)"

text \<open>A loobean as a noun.\<close>

definition loob :: "bool \<Rightarrow> noun" where
  "loob b = Atom (if b then 0 else 1)"

fun u3a_is_cell :: "noun \<Rightarrow> bool" where
  "u3a_is_cell (Cell h t) = True"
| "u3a_is_cell (Atom a) = False"

fun u3h :: "noun \<Rightarrow> noun jet" where
  "u3h (Cell h t) = Inr h"
| "u3h (Atom a) = Inl Exit"

fun u3t :: "noun \<Rightarrow> noun jet" where
  "u3t (Cell h t) = Inr t"
| "u3t (Atom a) = Inl Exit"

fun u3r_cell :: "noun \<Rightarrow> (noun \<times> noun) option" where
  "u3r_cell (Cell b c) = Some (b, c)"
| "u3r_cell (Atom a) = None"

definition u3r_trel :: "noun \<Rightarrow> (noun \<times> noun \<times> noun) option" where
  "u3r_trel a = (case u3r_cell a of None \<Rightarrow> None
     | Some (b, guf) \<Rightarrow> (case u3r_cell guf of None \<Rightarrow> None | Some (c, d) \<Rightarrow> Some (b, c, d)))"

definition u3r_qual :: "noun \<Rightarrow> (noun \<times> noun \<times> noun \<times> noun) option" where
  "u3r_qual a = (case u3r_cell a of None \<Rightarrow> None
     | Some (b, guf) \<Rightarrow> (case u3r_trel guf of None \<Rightarrow> None | Some (c, d, e) \<Rightarrow> Some (b, c, d, e)))"

definition u3r_quil :: "noun \<Rightarrow> (noun \<times> noun \<times> noun \<times> noun \<times> noun) option" where
  "u3r_quil a = (case u3r_cell a of None \<Rightarrow> None
     | Some (b, guf) \<Rightarrow> (case u3r_qual guf of None \<Rightarrow> None | Some (c, d, e, f) \<Rightarrow> Some (b, c, d, e, f)))"

definition u3r_hext :: "noun \<Rightarrow> (noun \<times> noun \<times> noun \<times> noun \<times> noun \<times> noun) option" where
  "u3r_hext a = (case u3r_cell a of None \<Rightarrow> None
     | Some (b, guf) \<Rightarrow> (case u3r_quil guf of None \<Rightarrow> None | Some (c, d, e, f, g) \<Rightarrow> Some (b, c, d, e, f, g)))"

definition u3x_good :: "'a option \<Rightarrow> 'a jet" where
  "u3x_good som = (case som of None \<Rightarrow> Inl Exit | Some n \<Rightarrow> Inr n)"

definition u3x_cell :: "noun \<Rightarrow> (noun \<times> noun) jet" where
  "u3x_cell a = (case u3r_cell a of None \<Rightarrow> Inl Exit | Some x \<Rightarrow> Inr x)"

definition u3x_trel :: "noun \<Rightarrow> (noun \<times> noun \<times> noun) jet" where
  "u3x_trel a = (case u3r_trel a of None \<Rightarrow> Inl Exit | Some x \<Rightarrow> Inr x)"

definition u3x_qual :: "noun \<Rightarrow> (noun \<times> noun \<times> noun \<times> noun) jet" where
  "u3x_qual a = (case u3r_qual a of None \<Rightarrow> Inl Exit | Some x \<Rightarrow> Inr x)"

definition u3x_quil :: "noun \<Rightarrow> (noun \<times> noun \<times> noun \<times> noun \<times> noun) jet" where
  "u3x_quil a = (case u3r_quil a of None \<Rightarrow> Inl Exit | Some x \<Rightarrow> Inr x)"

definition u3x_hext :: "noun \<Rightarrow> (noun \<times> noun \<times> noun \<times> noun \<times> noun \<times> noun) jet" where
  "u3x_hext a = (case u3r_hext a of None \<Rightarrow> Inl Exit | Some x \<Rightarrow> Inr x)"

text \<open>\<^verbatim>\<open>u3x_atom\<close>: the argument itself when it is an atom.\<close>

fun u3x_atom :: "noun \<Rightarrow> nat jet" where
  "u3x_atom (Atom a) = Inr a"
| "u3x_atom (Cell h t) = Inl Exit"

text \<open>
  A call of \<^verbatim>\<open>u3r_trel\<close> whose result is ignored: when it fails, the variables it should have
  written are read uninitialised.
\<close>

definition trel_unchecked :: "noun \<Rightarrow> (noun \<times> noun \<times> noun) jet" where
  "trel_unchecked a = (case u3r_trel a of None \<Rightarrow> Inl Undefined | Some x \<Rightarrow> Inr x)"

lemma u3x_cell_simps [simp]: "u3x_cell (Cell h t) = Inr (h, t)" "u3x_cell (Atom a) = Inl Exit"
  by (simp_all add: u3x_cell_def)

lemma u3r_trel_simps [simp]: "u3r_trel (u3nt a b c) = Some (a, b, c)"
  "u3r_trel (Atom x) = None" "u3r_trel (Cell a (Atom x)) = None"
  by (simp_all add: u3r_trel_def)

lemma u3x_trel_simps [simp]: "u3x_trel (u3nt a b c) = Inr (a, b, c)"
  "u3x_trel (Atom x) = Inl Exit" "u3x_trel (Cell a (Atom x)) = Inl Exit"
  by (simp_all add: u3x_trel_def)

lemma trel_unchecked_simps [simp]: "trel_unchecked (u3nt a b c) = Inr (a, b, c)"
  "trel_unchecked (Atom x) = Inl Undefined" "trel_unchecked (Cell a (Atom x)) = Inl Undefined"
  by (simp_all add: trel_unchecked_def)

lemma u3x_cell_Inr: "u3x_cell a = Inr (h, t) \<longleftrightarrow> a = Cell h t"
  by (cases a) auto

lemma u3h_Inr: "u3h a = Inr h \<longleftrightarrow> (\<exists>t. a = Cell h t)"
  by (cases a) auto

lemma u3t_Inr: "u3t a = Inr t \<longleftrightarrow> (\<exists>h. a = Cell h t)"
  by (cases a) auto

lemma u3x_trel_Inr: "u3x_trel a = Inr (n, l, r) \<longleftrightarrow> a = u3nt n l r"
  by (auto simp: u3x_trel_def u3r_trel_def split: option.splits elim: u3r_cell.elims)

lemma u3_nul_not_cell [simp]: "Cell h t \<noteq> u3_nul" "u3_nul \<noteq> Cell h t"
  by (simp_all add: u3_nul_def)

lemmas access_Inr = u3x_cell_Inr u3h_Inr u3t_Inr u3x_trel_Inr

section \<open>Axes\<close>

definition u3x_dep :: "u32 \<Rightarrow> nat" where
  "u3x_dep a_w = ur_met0_32 a_w - 1"

definition u3x_cap :: "u32 \<Rightarrow> u32 jet" where
  "u3x_cap a_w = (if 1 < a_w then Inr (2 OR drop_bit (u3x_dep a_w - 1) a_w) else Inl Assertion)"

definition u3x_mas :: "u32 \<Rightarrow> u32 jet" where
  "u3x_mas a_w = (if 1 < a_w
     then Inr ((a_w AND NOT (push_bit (u3x_dep a_w) 1)) OR push_bit (u3x_dep a_w - 1) 1)
     else Inl Assertion)"

text \<open>
  The descent of both fragment functions: \<open>dep\<close> steps, each by the next lower bit of the word.
\<close>

fun frag_loop :: "nat \<Rightarrow> u32 \<Rightarrow> noun \<Rightarrow> noun option" where
  "frag_loop 0 a_w b = Some b"
| "frag_loop (Suc dep) a_w b =
     (case b of Atom _ \<Rightarrow> None
      | Cell hed tel \<Rightarrow> frag_loop dep a_w (if 1 AND drop_bit dep a_w = 0 then hed else tel))"

definition frag_word :: "u32 \<Rightarrow> noun \<Rightarrow> noun option jet" where
  "frag_word a_w b = (if a_w \<noteq> 0 then Inr (frag_loop (u3x_dep a_w) a_w b) else Inl Assertion)"

definition frag_deep :: "u32 \<Rightarrow> noun \<Rightarrow> noun option" where
  "frag_deep a_w b = frag_loop 32 a_w b"

text \<open>
  The words of an indirect atom, least significant first, without trailing null words. An atom
  is direct when it is below \<open>2 ^ 31\<close>.
\<close>

definition nat_words :: "nat \<Rightarrow> u32 list" where
  "nat_words a = map (\<lambda>i. of_nat (drop_bit (32 * i) a)) [0..<(met0 a + 31) div 32]"

definition is_cat :: "nat \<Rightarrow> bool" where
  "is_cat a \<longleftrightarrow> a < 2 ^ 31"

text \<open>The loop of \<^verbatim>\<open>u3r_at\<close> over the lower words; \<open>len_w\<close> of them are left.\<close>

fun at_loop :: "nat \<Rightarrow> u32 list \<Rightarrow> noun \<Rightarrow> noun option" where
  "at_loop 0 buf_w b = Some b"
| "at_loop (Suc len_w) buf_w b =
     (case frag_deep (buf_w ! len_w) b of None \<Rightarrow> None | Some b' \<Rightarrow> at_loop len_w buf_w b')"

fun u3r_at :: "noun \<Rightarrow> noun \<Rightarrow> noun option jet" where
  "u3r_at (Cell h t) b = Inr None"
| "u3r_at (Atom a) b =
     (if a = 0 then Inr None
      else if is_cat a then frag_word (of_nat a) b
      else let buf_w = nat_words a; len_w = length buf_w
           in on_ok (frag_word (buf_w ! (len_w - 1)) b)
                (\<lambda>b. Inr (case b of None \<Rightarrow> None | Some b \<Rightarrow> at_loop (len_w - 1) buf_w b)))"

definition u3x_at :: "noun \<Rightarrow> noun \<Rightarrow> noun jet" where
  "u3x_at axe som = on_ok (u3r_at axe som) u3x_good"

section \<open>Deconstruction by several axes\<close>

text \<open>
  The pairs of axes and outputs of \<^verbatim>\<open>u3r_mean\<close>: the axes of a call are a list, its outputs the
  list of the nouns written, in the order of the axes.
\<close>

fun mean_cut_loop :: "u32 list \<Rightarrow> (bool list \<times> u32 list) jet" where
  "mean_cut_loop [] = Inr ([], [])"
| "mean_cut_loop (axe_w # prs_m) =
     on_ok (u3x_cap axe_w) (\<lambda>cap. on_ok (u3x_mas axe_w) (\<lambda>mas.
       on_ok (mean_cut_loop prs_m) (\<lambda>(caps, mases). Inr ((cap = 3) # caps, mas # mases))))"

text \<open>The cut is the first axis into the tail, or the number of axes.\<close>

definition mean_cut :: "u32 list \<Rightarrow> (nat \<times> u32 list) jet" where
  "mean_cut prs_m = on_ok (mean_cut_loop prs_m) (\<lambda>(caps, mases). Inr (length (takeWhile Not caps), mases))"

fun mean_extract :: "noun \<Rightarrow> u32 list \<Rightarrow> noun list option jet" where
  "mean_extract som prs_m =
     (if prs_m = [] then Inr (Some [])
      else if prs_m = [1] then Inr (Some [som])
      else case som of Atom _ \<Rightarrow> Inr None
        | Cell hed tel \<Rightarrow> on_ok (mean_cut prs_m) (\<lambda>(cut_w, prs_m).
            on_ok (mean_extract hed (take cut_w prs_m)) (\<lambda>xs. case xs of None \<Rightarrow> Inr None
              | Some xs \<Rightarrow> on_ok (mean_extract tel (drop cut_w prs_m)) (\<lambda>ys. case ys of None \<Rightarrow> Inr None
                  | Some ys \<Rightarrow> Inr (Some (xs @ ys))))))"

declare mean_extract.simps [simp del]

definition u3r_mean :: "noun \<Rightarrow> u32 list \<Rightarrow> noun list option jet" where
  "u3r_mean som prs_m = (if prs_m = [] then Inl Assertion else mean_extract som prs_m)"

definition u3x_mean :: "noun \<Rightarrow> u32 list \<Rightarrow> noun list jet" where
  "u3x_mean som prs_m = on_ok (u3r_mean som prs_m) u3x_good"

section \<open>What a fragment is\<close>

text \<open>
  The reference definition: the binary digits of an axis below its leading one are a path from
  the root, \<open>True\<close> into the tail.
\<close>

fun walk :: "bool list \<Rightarrow> noun \<Rightarrow> noun option" where
  "walk [] n = Some n"
| "walk (p # ps) (Cell h t) = walk ps (if p then t else h)"
| "walk (p # ps) (Atom a) = None"

definition axis_path :: "nat \<Rightarrow> bool list" where
  "axis_path a = rev (low_bits (met0 a - 1) a)"

definition fragment :: "nat \<Rightarrow> noun \<Rightarrow> noun option" where
  "fragment a n = (if a = 0 then None else walk (axis_path a) n)"

lemma walk_append: "walk (p @ q) n = Option.bind (walk p n) (walk q)"
  by (induction p n rule: walk.induct) auto

lemma low_bits_Suc: "low_bits (Suc n) a = low_bits n a @ [bit a n]"
  by (simp add: low_bits_def)

lemma one_and_drop_bit: "1 AND drop_bit n (a :: 'a::len word) = 0 \<longleftrightarrow> \<not> bit a n"
  by (simp add: one_and_eq bit_iff_odd_drop_bit mod2_eq_if)

lemma frag_loop_walk: "frag_loop dep a_w b = walk (rev (low_bits dep a_w)) b"
  by (induction dep a_w b rule: frag_loop.induct)
    (auto simp: low_bits_Suc one_and_drop_bit split: noun.split)

lemma met0_ge_iff: "k < met0 a \<longleftrightarrow> 2 ^ k \<le> a"
  using met0_le_iff [of a k] by linarith

lemma u3x_dep_eq: "u3x_dep a_w = met0 (unat a_w) - 1"
  by (simp add: u3x_dep_def ur_met0_simps)

lemma low_bits_word: "low_bits n (unat (w :: 'a::len word)) = low_bits n w"
  by (rule nth_equalityI) (auto simp: bit_unsigned_iff bit_imp_le_length)

lemma frag_word_fragment: "a_w \<noteq> 0 \<Longrightarrow> frag_word a_w b = Inr (fragment (unat a_w) b)"
  by (simp add: frag_word_def fragment_def axis_path_def frag_loop_walk u3x_dep_eq low_bits_word unat_eq_0)

lemma length_nat_words: "length (nat_words a) = (met0 a + 31) div 32"
  by (simp add: nat_words_def)

lemma bit_nat_words:
  "k < length (nat_words a) \<Longrightarrow> bit (nat_words a ! k) i \<longleftrightarrow> i < 32 \<and> bit a (32 * k + i)"
  by (auto simp: nat_words_def bit_of_nat_iff bit_drop_bit_eq)

lemma at_loop_walk:
  "k \<le> length (nat_words a) \<Longrightarrow> at_loop k (nat_words a) b = walk (rev (low_bits (32 * k) a)) b"
proof (induction k arbitrary: b)
  case (Suc k)
  have "low_bits (32 * Suc k) a = low_bits (32 * k) a @ low_bits 32 (nat_words a ! k)"
    by (rule nth_equalityI) (use Suc.prems in \<open>auto simp: nth_append bit_nat_words\<close>)
  with Suc show ?case
    by (simp add: frag_deep_def frag_loop_walk walk_append split: option.split)
qed simp

lemma top_word:
  assumes "0 < a"
  defines "k \<equiv> length (nat_words a) - 1"
  shows "0 < length (nat_words a)" and "unat (nat_words a ! k) = drop_bit (32 * k) a"
    and "0 < drop_bit (32 * k) a" and "met0 (drop_bit (32 * k) a) = met0 a - 32 * k"
    and "32 * k < met0 a"
proof -
  have m: "0 < met0 a"
    using assms(1) by (rule met0_pos)
  then show n: "0 < length (nat_words a)"
    by (simp add: length_nat_words)
  have b: "32 * k < met0 a" "met0 a \<le> 32 * k + 32"
    using m by (simp_all add: k_def length_nat_words)
  then show "32 * k < met0 a" by simp
  have "a < 2 ^ (32 * k + 32)"
    using b by (simp add: met0_le_iff [symmetric])
  then have "drop_bit (32 * k) a < 2 ^ 32"
    by (simp add: drop_bit_eq_div div_less_iff_less_mult power_add mult.commute)
  moreover have "nat_words a ! k = of_nat (drop_bit (32 * k) a)"
    using n by (simp add: nat_words_def k_def)
  ultimately show "unat (nat_words a ! k) = drop_bit (32 * k) a"
    by (simp add: unat_of_nat)
  have le: "2 ^ (met0 a - 1) \<le> a"
    using m met0_ge_iff [of "met0 a - 1" a] by simp
  have pw: "(2::nat) ^ (met0 a - 1) = 2 ^ (met0 a - 32 * k - 1) * 2 ^ (32 * k)"
    using b by (simp add: power_add [symmetric])
  have ge: "2 ^ (met0 a - 32 * k - 1) \<le> drop_bit (32 * k) a"
    unfolding drop_bit_eq_div using le by (subst less_eq_div_iff_mult_less_eq) (simp_all only: pw, simp)
  then show "0 < drop_bit (32 * k) a"
    by (rule less_le_trans [rotated]) simp
  have "a < 2 ^ (met0 a - 32 * k) * 2 ^ (32 * k)"
    using less_2_met0 [of a] b by (simp add: power_add [symmetric])
  then have lt: "drop_bit (32 * k) a < 2 ^ (met0 a - 32 * k)"
    by (simp add: drop_bit_eq_div div_less_iff_less_mult)
  have "2 ^ (met0 a - 32 * k) = 2 * (2::nat) ^ (met0 a - 32 * k - 1)"
    using b by (simp add: power_Suc [symmetric] del: power_Suc)
  with ge lt show "met0 (drop_bit (32 * k) a) = met0 a - 32 * k"
    by (intro met0_eqI) auto
qed

lemma axis_path_split:
  assumes "m < met0 a" and "met0 (drop_bit m a) = met0 a - m"
  shows "axis_path a = axis_path (drop_bit m a) @ rev (low_bits m a)"
proof -
  have "low_bits (met0 a - 1) a = low_bits m a @ low_bits (met0 (drop_bit m a) - 1) (drop_bit m a)"
    by (rule nth_equalityI) (use assms in \<open>auto simp: nth_append bit_drop_bit_eq\<close>)
  then show ?thesis
    by (simp add: axis_path_def)
qed

lemma u3r_at_fragment: "u3r_at (Atom a) b = Inr (fragment a b)"
proof (cases "a = 0 \<or> is_cat a")
  case True
  then have "frag_word (of_nat a) b = Inr (fragment a b)" if "a \<noteq> 0"
    using that frag_word_fragment [of "of_nat a" b]
    by (auto simp: is_cat_def unat_of_nat word_unat_eq_iff)
  with True show ?thesis
    by (auto simp: fragment_def)
next
  case False
  let ?ws = "nat_words a"
  let ?k = "length ?ws - 1"
  have a: "0 < a" using False by simp
  note t = top_word [OF a]
  have w: "unat (?ws ! ?k) = drop_bit (32 * ?k) a" "0 < drop_bit (32 * ?k) a"
    using t by simp_all
  then have "?ws ! ?k \<noteq> 0"
    by (metis less_numeral_extra(3) unat_eq_zero)
  then have f: "frag_word (?ws ! ?k) b = Inr (walk (axis_path (drop_bit (32 * ?k) a)) b)"
    using frag_word_fragment [of "?ws ! ?k" b] w by (simp add: fragment_def)
  have "at_loop ?k ?ws b = walk (rev (low_bits (32 * ?k) a)) b" for b
    by (rule at_loop_walk) simp
  moreover have "walk (axis_path a) b =
      Option.bind (walk (axis_path (drop_bit (32 * ?k) a)) b) (walk (rev (low_bits (32 * ?k) a)))"
    using axis_path_split [of "32 * ?k" a] t by (simp add: walk_append)
  ultimately show ?thesis
    using False by (simp add: Let_def f [unfolded One_nat_def] fragment_def split: option.split)
qed

section \<open>What the deconstruction extracts\<close>

lemma unat_mas:
  assumes "1 < (a_w :: u32)"
  shows "\<exists>m. u3x_mas a_w = Inr m \<and> 0 < m \<and>
    axis_path (unat a_w) = bit a_w (u3x_dep a_w - 1) # axis_path (unat m)"
proof -
  define d where "d = u3x_dep a_w"
  have a: "1 < unat a_w"
    using assms by (simp add: word_less_nat_alt)
  then have d: "0 < d" "d + 1 = met0 (unat a_w)" "d < 32"
    using met0_ge_iff [of 1 "unat a_w"] met0_unat_le [of a_w] by (simp_all add: d_def u3x_dep_eq)
  define m where "m = (a_w AND NOT (push_bit d 1)) OR push_bit (d - 1) 1"
  have bm: "bit m i \<longleftrightarrow> i = d - 1 \<or> i < d \<and> bit a_w i" for i
  proof -
    have "i < met0 (unat a_w)" if "bit a_w i"
      using that bit_imp_less_met0 [of "unat a_w" i] by (simp add: bit_unsigned_iff bit_imp_le_length)
    then show ?thesis
      using d by (auto simp: m_def bit_or_iff bit_and_iff bit_not_iff bit_push_word bit_exp_iff push_bit_of_1)
  qed
  have "unat m < 2 ^ d"
    by (rule unat_less_bits) (use d bm in auto)
  moreover have "bit (unat m) (d - 1)"
    using bm d by (simp add: bit_unsigned_iff)
  ultimately have mm: "met0 (unat m) = d"
    using bit_imp_less_met0 [of "unat m" "d - 1"] met0_le_iff [of "unat m" d] d by auto
  have "low_bits d a_w = low_bits (d - 1) m @ [bit a_w (d - 1)]"
  proof -
    have "low_bits (d - 1) a_w = low_bits (d - 1) m"
      by (rule nth_equalityI) (use bm in auto)
    then show ?thesis
      using low_bits_Suc [of "d - 1" a_w] d(1) by simp
  qed
  then have "axis_path (unat a_w) = bit a_w (d - 1) # axis_path (unat m)"
    using d mm by (simp add: axis_path_def low_bits_word d(2) [symmetric])
  moreover have "0 < m"
    using bm [of "d - 1"] by (metis bit_0_eq bot_apply word_gt_0 bot_bool_def)
  moreover have "u3x_mas a_w = Inr m"
    using assms by (simp add: u3x_mas_def m_def d_def)
  ultimately show ?thesis
    by (auto simp: d_def)
qed

lemma bit_two_word: "bit (2 :: u32) i \<longleftrightarrow> i = 1"
  using bit_exp_iff [of 1 i, where 'a = "32 word"] by auto

lemma cap_3:
  assumes "1 < (a_w :: u32)"
  shows "\<exists>c. u3x_cap a_w = Inr c \<and> (c = 3 \<longleftrightarrow> bit a_w (u3x_dep a_w - 1))"
proof -
  define d where "d = u3x_dep a_w"
  have "1 < unat a_w"
    using assms by (simp add: word_less_nat_alt)
  then have d: "0 < d" "d + 1 = met0 (unat a_w)"
    using met0_ge_iff [of 1 "unat a_w"] by (simp_all add: d_def u3x_dep_eq)
  have "\<not> bit a_w (d - 1 + i)" if "2 \<le> i" for i
    using that d bit_imp_less_met0 [of "unat a_w" "d - 1 + i"]
    by (auto simp: bit_unsigned_iff bit_imp_le_length)
  then have b: "bit (2 OR drop_bit (d - 1) a_w) i \<longleftrightarrow> i = 1 \<or> i = 0 \<and> bit a_w (d - 1)" for i
    using bit_two_word [of i] by (cases "i < 2") (auto simp: bit_or_iff bit_drop_word less_2_cases_iff)
  have "2 OR drop_bit (d - 1) a_w = 3 \<longleftrightarrow> bit a_w (d - 1)"
  proof
    assume "2 OR drop_bit (d - 1) a_w = 3"
    then have "bit (2 OR drop_bit (d - 1) a_w) 0"
      by simp
    then show "bit a_w (d - 1)"
      using b [of 0] by simp
  next
    assume "bit a_w (d - 1)"
    then have "bit (2 OR drop_bit (d - 1) a_w) i = bit (3 :: u32) i" for i
      using b [of i] by (cases i) (auto simp: bit_0 bit_Suc numeral_3_eq_3 gr0_conv_Suc)
    then show "2 OR drop_bit (d - 1) a_w = 3"
      by (simp add: bit_word_eqI)
  qed
  then show ?thesis
    using assms by (simp add: u3x_cap_def d_def)
qed

text \<open>
  Tree order of axes: where two paths part, the earlier one goes into the head. In particular
  neither is above the other.
\<close>

definition path_before :: "bool list \<Rightarrow> bool list \<Rightarrow> bool" where
  "path_before p q \<longleftrightarrow> (\<exists>r p' q'. p = r @ False # p' \<and> q = r @ True # q')"

lemma path_before_Nil [simp]: "\<not> path_before [] q" "\<not> path_before p []"
  by (simp_all add: path_before_def)

lemma path_before_Cons [simp]:
  "path_before (x # p) (y # q) \<longleftrightarrow> \<not> x \<and> y \<or> x = y \<and> path_before p q"
proof
  assume "path_before (x # p) (y # q)"
  then obtain r p' q' where "x # p = r @ False # p'" "y # q = r @ True # q'"
    by (auto simp: path_before_def)
  then show "\<not> x \<and> y \<or> x = y \<and> path_before p q"
    by (cases r) (auto simp: path_before_def)
next
  assume "\<not> x \<and> y \<or> x = y \<and> path_before p q"
  then consider "\<not> x" "y" | r p' q' where "x = y" "p = r @ False # p'" "q = r @ True # q'"
    by (auto simp: path_before_def)
  then show "path_before (x # p) (y # q)"
  proof cases
    case 1
    then have "x # p = [] @ False # p \<and> y # q = [] @ True # q" by simp
    then show ?thesis unfolding path_before_def by blast
  next
    case 2
    then have "x # p = (x # r) @ False # p' \<and> y # q = (x # r) @ True # q'" by simp
    then show ?thesis unfolding path_before_def by blast
  qed
qed

lemma those_append:
  "those (xs @ ys) = (case those xs of None \<Rightarrow> None | Some a \<Rightarrow> map_option ((@) a) (those ys))"
  by (induction xs) (cases "those ys"; auto split: option.split)+

lemma those_None: "None \<in> set xs \<Longrightarrow> those xs = None"
  by (induction xs) (auto split: option.split)

abbreviation paths :: "u32 list \<Rightarrow> bool list list" where
  "paths \<equiv> map (\<lambda>a. axis_path (unat a))"

lemma mean_cut_loop_ok:
  "\<forall>a \<in> set as. 1 < a \<Longrightarrow> \<exists>caps ms. mean_cut_loop as = Inr (caps, ms) \<and> length caps = length as \<and>
     length ms = length as \<and> (\<forall>m \<in> set ms. 0 < m) \<and> paths as = map2 (#) caps (paths ms)"
proof (induction as)
  case (Cons a as)
  then obtain caps ms where ih: "mean_cut_loop as = Inr (caps, ms)" "length caps = length as"
    "length ms = length as" "\<forall>m \<in> set ms. 0 < m" "paths as = map2 (#) caps (paths ms)"
    by auto
  obtain m where "u3x_mas a = Inr m" "0 < m"
    "axis_path (unat a) = bit a (u3x_dep a - 1) # axis_path (unat m)"
    using unat_mas [of a] Cons.prems by auto
  moreover obtain c where "u3x_cap a = Inr c" "c = 3 \<longleftrightarrow> bit a (u3x_dep a - 1)"
    using cap_3 [of a] Cons.prems by auto
  ultimately show ?case
    using ih by auto
qed simp

text \<open>In tree order the axes into the head come first.\<close>

lemma sorted_paths_cut:
  assumes "length caps = length qs" and "sorted_wrt path_before (map2 (#) caps qs)"
  defines "k \<equiv> length (takeWhile Not caps)"
  shows "take k caps = replicate k False" and "drop k caps = replicate (length caps - k) True"
    and "sorted_wrt path_before (take k qs)" and "sorted_wrt path_before (drop k qs)"
  using assms(1,2) unfolding k_def
proof (induction caps qs rule: list_induct2)
  case (Cons x caps y qs)
  { case 1 then show ?case using Cons.IH(1) by (cases x) auto }
  have caps: "set caps = (\<lambda>(c, q). c) ` set (zip caps qs)"
    using Cons.hyps by (force simp: set_zip in_set_conv_nth image_iff)
  { case 2
    show ?case
    proof (cases x)
      case True
      with 2 have "\<forall>c \<in> set caps. c"
        by (auto simp: caps)
      then have "caps = replicate (length caps) True"
        by (metis (full_types) replicate_eqI)
      with True show ?thesis by simp
    qed (use Cons 2 in auto) }
  { case 3
    show ?case
    proof (cases x)
      case False
      then have "\<forall>q \<in> set (take (length (takeWhile Not caps)) qs). path_before y q"
      proof -
        have "path_before y q" if "q \<in> set (take (length (takeWhile Not caps)) qs)" for q
        proof -
          from that obtain i where i: "i < length (takeWhile Not caps)" "i < length qs" "q = qs ! i"
            by (auto simp: in_set_conv_nth)
          then have "\<not> caps ! i"
            by (metis (full_types) nth_mem set_takeWhileD takeWhile_nth)
          moreover have "(caps ! i, qs ! i) \<in> set (zip caps qs)"
            using i Cons.hyps by (auto simp: in_set_conv_nth intro!: exI [of _ i])
          ultimately show ?thesis
            using 3 False i by fastforce
        qed
        then show ?thesis by blast
      qed
      with Cons 3 False show ?thesis by simp
    qed simp }
  { case 4
    show ?case
    proof (cases x)
      case True
      have "path_before y q" if "q \<in> set qs" for q
      proof -
        from that obtain i where i: "i < length qs" "q = qs ! i"
          by (auto simp: in_set_conv_nth)
        then have "(caps ! i, qs ! i) \<in> set (zip caps qs)"
          using Cons.hyps by (auto simp: in_set_conv_nth intro!: exI [of _ i])
        then show ?thesis
          using 4 True i by fastforce
      qed
      moreover have "takeWhile Not caps = [] \<and> sorted_wrt path_before qs"
      proof -
        have "\<forall>c \<in> set caps. c"
          using 4 True by (auto simp: caps)
        then have "takeWhile Not caps = []"
          by (metis (full_types) list.set_intros(1) takeWhile.simps(1) takeWhile.simps(2) list.exhaust)
        with Cons.IH(4) 4 show ?thesis by simp
      qed
      ultimately show ?thesis using True by simp
    qed (use Cons 4 in auto) }
qed simp_all

lemma mean_cut_ok:
  assumes "\<forall>a \<in> set as. 1 < a" and "sorted_wrt path_before (paths as)"
  obtains k ms where "mean_cut as = Inr (k, ms)" and "\<forall>m \<in> set ms. 0 < m"
    and "sorted_wrt path_before (paths (take k ms))" and "sorted_wrt path_before (paths (drop k ms))"
    and "paths as = map ((#) False) (paths (take k ms)) @ map ((#) True) (paths (drop k ms))"
proof -
  obtain caps ms where l: "mean_cut_loop as = Inr (caps, ms)" "length caps = length as"
      "length ms = length as" "\<forall>m \<in> set ms. 0 < m" "paths as = map2 (#) caps (paths ms)"
    using mean_cut_loop_ok [OF assms(1)] by auto
  define k where "k = length (takeWhile Not caps)"
  have len: "length caps = length (paths ms)"
    using l by simp
  note c = sorted_paths_cut [OF len, folded k_def] and p = l(5)
  have srt: "sorted_wrt path_before (map2 (#) caps (paths ms))"
    using assms(2) p by simp
  have k: "k \<le> length ms"
    using l length_takeWhile_le [of Not caps] by (simp add: k_def)
  have rep: "map2 (#) (replicate (length qs) x) qs = map ((#) x) qs" for x :: bool and qs :: "bool list list"
    by (induction qs) auto
  have "paths as = map2 (#) (take k caps) (take k (paths ms)) @ map2 (#) (drop k caps) (drop k (paths ms))"
    unfolding p by (metis append_take_drop_id map_append drop_zip take_zip)
  also have "map2 (#) (take k caps) (take k (paths ms)) = map ((#) False) (take k (paths ms))"
    using rep [where x = False and qs = "take k (paths ms)"] k c(1) [OF srt] by simp
  also have "map2 (#) (drop k caps) (drop k (paths ms)) = map ((#) True) (drop k (paths ms))"
    using rep [where x = True and qs = "drop k (paths ms)"] c(2) [OF srt] l by simp
  finally have "paths as = map ((#) False) (paths (take k ms)) @ map ((#) True) (paths (drop k ms))"
    by (simp add: take_map drop_map)
  moreover have "mean_cut as = Inr (k, ms)"
    by (simp add: mean_cut_def l k_def)
  ultimately show ?thesis
    using that l(4) c(3,4) [OF srt] by (simp add: take_map drop_map)
qed

lemma axis_path_1 [simp]: "axis_path (Suc 0) = []"
  by (simp add: axis_path_def met0_Suc)

lemma no_root_axis:
  assumes "\<forall>a \<in> set as. 0 < a" and "sorted_wrt path_before (paths as)" and "as \<noteq> [1]"
  shows "\<forall>a \<in> set as. 1 < a"
proof -
  have "1 \<notin> set as"
  proof
    assume "1 \<in> set as"
    then obtain xs ys where "as = xs @ 1 # ys"
      by (meson split_list)
    with assms(2,3) show False
      by (cases xs; cases ys) (auto simp: sorted_wrt_append)
  qed
  have "1 < a" if "a \<in> set as" for a
  proof -
    have "0 < unat a" "a \<noteq> 1"
      using that assms(1) \<open>1 \<notin> set as\<close> by (auto simp: word_less_nat_alt)
    moreover have "unat a \<noteq> 1"
      using \<open>a \<noteq> 1\<close> by (metis unat_1 word_unat_eq_iff)
    ultimately show ?thesis
      by (simp add: word_less_nat_alt)
  qed
  then show ?thesis by blast
qed

lemma mean_extract_ok:
  assumes "\<forall>a \<in> set as. 0 < a" and "sorted_wrt path_before (paths as)"
  shows "mean_extract som as = Inr (those (map (\<lambda>p. walk p som) (paths as)))"
  using assms
proof (induction som arbitrary: as)
  case (Atom x)
  have "those (map (\<lambda>p. walk p (Atom x)) (paths as)) = None" if ne: "as \<noteq> []" "as \<noteq> [1]"
  proof (rule those_None)
    obtain a where a: "a \<in> set as" "1 < a"
      using no_root_axis [OF Atom ne(2)] ne(1) by (cases as) auto
    then obtain p ps where "axis_path (unat a) = p # ps"
      using unat_mas [of a] by auto
    then have "walk (axis_path (unat a)) (Atom x) = None"
      by simp
    with a(1) show "None \<in> set (map (\<lambda>p. walk p (Atom x)) (paths as))"
      by (force simp: image_iff)
  qed
  then show ?case
    by (auto simp: mean_extract.simps)
next
  case (Cell h t)
  show ?case
  proof (cases "as = [] \<or> as = [1]")
    case True
    then show ?thesis by (auto simp: mean_extract.simps)
  next
    case False
    then obtain k ms where c: "mean_cut as = Inr (k, ms)" "\<forall>m \<in> set ms. 0 < m"
      "sorted_wrt path_before (paths (take k ms))" "sorted_wrt path_before (paths (drop k ms))"
      "paths as = map ((#) False) (paths (take k ms)) @ map ((#) True) (paths (drop k ms))"
      using mean_cut_ok [OF no_root_axis [OF Cell.prems]] Cell.prems(2) by metis
    have "mean_extract h (take k ms) = Inr (those (map (\<lambda>p. walk p h) (paths (take k ms))))"
      by (rule Cell.IH(1)) (use c in_set_takeD in fastforce)+
    moreover have "mean_extract t (drop k ms) = Inr (those (map (\<lambda>p. walk p t) (paths (drop k ms))))"
      by (rule Cell.IH(2)) (use c in_set_dropD in fastforce)+
    ultimately show ?thesis
      using False by (simp add: mean_extract.simps [of "Cell h t"] c(1,5) those_append o_def split: option.split)
  qed
qed

text \<open>
  The cores of the calls of the container jets: a gate with sample \<open>b\<close> whose context is a door
  with sample \<open>a\<close>, and a gate with a pair as sample.
\<close>

abbreviation door_call :: "noun \<Rightarrow> noun \<Rightarrow> noun \<Rightarrow> noun \<Rightarrow> noun \<Rightarrow> noun" where
  "door_call bat b dbat a ctx \<equiv> u3nt bat b (u3nt dbat a ctx)"

lemma axis_path_Suc: "0 < n \<Longrightarrow> axis_path n = (if n = 1 then [] else axis_path (n div 2) @ [odd n])"
proof -
  assume "0 < n"
  show ?thesis
  proof (cases "n = 1")
    case False
    with \<open>0 < n\<close> have "met0 n = Suc (met0 (n div 2))" "0 < n div 2"
      by (auto simp: met0_Suc)
    moreover from this have "0 < met0 (n div 2)"
      by (simp add: met0_pos)
    moreover have "low_bits (met0 (n div 2)) n = odd n # low_bits (met0 (n div 2) - 1) (n div 2)"
      using calculation by (intro nth_equalityI) (auto simp: nth_Cons' bit_0 bit_Suc [symmetric])
    ultimately show ?thesis
      using False by (simp add: axis_path_def)
  qed simp
qed

lemma axis_paths:
  "axis_path 6 = [True, False]" "axis_path 7 = [True, True]" "axis_path 12 = [True, False, False]"
  "axis_path 13 = [True, False, True]" "axis_path 14 = [True, True, False]" "axis_path 30 = [True, True, True, False]"
  by (simp_all add: axis_path_Suc)

lemma mean_sam_con_sam:
  "u3x_mean som [6, 30] = u3x_good (those [walk [True, False] som, walk [True, True, True, False] som])"
  using mean_extract_ok [of "[6, 30]" som] by (simp add: u3x_mean_def u3r_mean_def axis_paths)

lemma mean_sam23_con_sam:
  "u3x_mean som [12, 13, 30] =
     u3x_good (those [walk [True, False, False] som, walk [True, False, True] som, walk [True, True, True, False] som])"
  using mean_extract_ok [of "[12, 13, 30]" som] by (simp add: u3x_mean_def u3r_mean_def axis_paths)

lemma mean_sam23:
  "u3r_mean som [12, 13] = Inr (those [walk [True, False, False] som, walk [True, False, True] som])"
  using mean_extract_ok [of "[12, 13]" som] by (simp add: u3r_mean_def axis_paths)

lemma door_args:
  "u3x_mean (door_call bat b dbat a ctx) [6, 30] = Inr [b, a]"
  "u3x_mean (door_call bat (Cell k v) dbat a ctx) [12, 13, 30] = Inr [k, v, a]"
  "u3x_at (Atom 30) (door_call bat b dbat a ctx) = Inr a"
  "u3x_at (Atom 14) (u3nt bat dbat (Cell a ctx)) = Inr a"
  by (simp_all add: mean_sam_con_sam mean_sam23_con_sam u3x_good_def u3x_at_def u3r_at_fragment fragment_def axis_paths del: u3r_at.simps)

text \<open>A list as a noun.\<close>

fun list_noun :: "noun list \<Rightarrow> noun" where
  "list_noun [] = u3_nul"
| "list_noun (x # xs) = u3nc x (list_noun xs)"

lemma list_noun_nul [simp]: "list_noun xs = u3_nul \<longleftrightarrow> xs = []"
  by (cases xs) auto

lemma list_noun_inj [simp]: "list_noun xs = list_noun ys \<longleftrightarrow> xs = ys"
proof (induction xs arbitrary: ys)
  case (Cons x xs)
  then show ?case by (cases ys) auto
qed (auto dest: sym)

end
