(* ===== verification/Jet_Order.thy ===== *)
theory Jet_Order
  imports Noun_Access
begin

text \<open>
  The orders on nouns that sets and maps are built with: \<^verbatim>\<open>u3qc_dor\<close>, \<^verbatim>\<open>u3qc_gor\<close> and
  \<^verbatim>\<open>u3qc_mor\<close> of \<^verbatim>\<open>pkg/noun/jets/c\<close>, with \<^verbatim>\<open>u3qa_lth\<close>. A loobean is a \<^typ>\<open>bool\<close>, \<open>c3y\<close> as
  \<open>True\<close>. Equality of nouns (\<^verbatim>\<open>u3r_sing\<close>) is equality of their values, and the mug of a noun
  (\<^verbatim>\<open>u3r_mug\<close>) is \<^const>\<open>noun_mug\<close>.
\<close>

section \<open>The comparisons\<close>

text \<open>The comparison of equally long atoms is that of the multiple-precision numbers.\<close>

definition u3qa_lth :: "nat \<Rightarrow> nat \<Rightarrow> bool" where
  "u3qa_lth a b =
     (if is_cat a \<and> is_cat b then a < b
      else if a = 0 then True
      else if b = 0 then False
      else let a_w = met0 a; b_w = met0 b in if a_w \<noteq> b_w then a_w < b_w else a < b)"

fun u3qc_dor :: "noun \<Rightarrow> noun \<Rightarrow> bool" where
  "u3qc_dor a b =
     (if a = b then True
      else case a of
        Atom x \<Rightarrow> (case b of Atom y \<Rightarrow> u3qa_lth x y | Cell _ _ \<Rightarrow> True)
      | Cell ha ta \<Rightarrow> (case b of Atom _ \<Rightarrow> False
          | Cell hb tb \<Rightarrow> if ha = hb then u3qc_dor ta tb else u3qc_dor ha hb))"

declare u3qc_dor.simps [simp del]

definition u3qc_gor :: "murmur \<Rightarrow> noun \<Rightarrow> noun \<Rightarrow> bool" where
  "u3qc_gor murmur a b =
     (let c_w = noun_mug murmur a; d_w = noun_mug murmur b
      in if c_w = d_w then u3qc_dor a b else c_w < d_w)"

text \<open>The mug of a mug: a mug is a direct atom.\<close>

definition mug_mug :: "murmur \<Rightarrow> noun \<Rightarrow> ur_mug" where
  "mug_mug murmur a = noun_mug murmur (Atom (unat (noun_mug murmur a)))"

definition u3qc_mor :: "murmur \<Rightarrow> noun \<Rightarrow> noun \<Rightarrow> bool" where
  "u3qc_mor murmur a b =
     (let c_w = mug_mug murmur a; d_w = mug_mug murmur b
      in if c_w = d_w then u3qc_dor a b else c_w < d_w)"

section \<open>Total orders\<close>

locale noun_order =
  fixes le :: "noun \<Rightarrow> noun \<Rightarrow> bool"
  assumes refl: "le a a"
    and trans: "le a b \<Longrightarrow> le b c \<Longrightarrow> le a c"
    and antisym: "le a b \<Longrightarrow> le b a \<Longrightarrow> a = b"
    and total: "le a b \<or> le b a"
begin

lemma strict_trans: "le a b \<Longrightarrow> a \<noteq> b \<Longrightarrow> le b c \<Longrightarrow> b \<noteq> c \<Longrightarrow> le a c \<and> a \<noteq> c"
  using trans antisym by blast

lemma not_le_strict: "\<not> le a b \<Longrightarrow> le b a \<and> b \<noteq> a"
  using total refl by blast

text \<open>A rank, with ties broken by a total order, is a total order.\<close>

lemma ranked: "noun_order (\<lambda>a b. if f a = f b then le a b else f a < (f b :: 'k::linorder))"
proof
  show "if f a = f a then le a a else f a < f a" for a
    by (simp add: refl)
  show "if f a = f c then le a c else f a < f c"
    if "if f a = f b then le a b else f a < f b" "if f b = f c then le b c else f b < f c" for a b c
    using that trans [of a b c] by (auto split: if_split_asm)
  show "a = b"
    if "if f a = f b then le a b else f a < f b" "if f b = f a then le b a else f b < f a" for a b
  proof (cases "f a = f b")
    case True
    with that show ?thesis by (intro antisym) simp_all
  next
    case False
    with that show ?thesis by (metis less_not_sym)
  qed
  show "(if f a = f b then le a b else f a < f b) \<or> (if f b = f a then le b a else f b < f a)" for a b
    using total [of a b] by auto
qed

end

section \<open>The three orders are total\<close>

lemma u3qa_lth_less: "u3qa_lth a b \<longleftrightarrow> a < b"
proof -
  have "met0 a < met0 b \<Longrightarrow> a < b" for a b
    using met0_mono [of b a] by (meson not_le)
  then show ?thesis
    by (auto simp: u3qa_lth_def Let_def is_cat_def linorder_neq_iff dest: less_not_sym)
qed

lemma dor_refl: "u3qc_dor a a"
  by (subst u3qc_dor.simps) simp

lemma dor_simps:
  "u3qc_dor (Atom x) (Atom y) \<longleftrightarrow> x \<le> y"
  "u3qc_dor (Atom x) (Cell h t)"
  "\<not> u3qc_dor (Cell h t) (Atom x)"
  "u3qc_dor (Cell h t) (Cell h' t') \<longleftrightarrow> (if h = h' then u3qc_dor t t' else u3qc_dor h h')"
  by (auto simp: u3qc_dor.simps [of "Atom x"] u3qc_dor.simps [of "Cell h t"] u3qa_lth_less dor_refl)

lemma dor_total: "u3qc_dor a b \<or> u3qc_dor b a"
proof (induction a arbitrary: b)
  case (Atom x)
  then show ?case by (cases b) (auto simp: dor_simps)
next
  case (Cell h t)
  then show ?case by (cases b) (auto simp: dor_simps)
qed

lemma dor_antisym: "u3qc_dor a b \<Longrightarrow> u3qc_dor b a \<Longrightarrow> a = b"
proof (induction a arbitrary: b)
  case (Atom x)
  then show ?case by (cases b) (auto simp: dor_simps)
next
  case (Cell h t)
  then show ?case by (cases b) (auto simp: dor_simps split: if_splits)
qed

lemma dor_trans: "u3qc_dor a b \<Longrightarrow> u3qc_dor b c \<Longrightarrow> u3qc_dor a c"
proof (induction a arbitrary: b c)
  case (Atom x)
  then show ?case by (cases b; cases c) (auto simp: dor_simps)
next
  case (Cell h t)
  then obtain bh bt where b: "b = Cell bh bt"
    by (cases b) (auto simp: dor_simps)
  with Cell obtain ch ct where c: "c = Cell ch ct"
    by (cases c) (auto simp: dor_simps)
  consider "h = bh" | "bh = ch" "h \<noteq> bh" | "h = ch" "h \<noteq> bh" | "h \<noteq> bh" "bh \<noteq> ch" "h \<noteq> ch"
    by blast
  then show ?case
  proof cases
    case 3
    then have "u3qc_dor h bh" "u3qc_dor bh h"
      using Cell.prems by (auto simp: b c dor_simps)
    with 3 show ?thesis
      using dor_antisym by blast
  next
    case 4
    then show ?thesis
      using Cell.prems Cell.IH(1) [of bh ch] by (simp add: b c dor_simps)
  qed (use Cell.prems Cell.IH(2) [of bt ct] in \<open>auto simp: b c dor_simps split: if_splits\<close>)
qed

interpretation dor: noun_order u3qc_dor
  by unfold_locales (rule dor_refl dor_total | erule (1) dor_trans dor_antisym)+

interpretation gor: noun_order "u3qc_gor murmur" for murmur
  using dor.ranked [of "noun_mug murmur"] by (simp add: u3qc_gor_def [abs_def] Let_def)

interpretation mor: noun_order "u3qc_mor murmur" for murmur
  using dor.ranked [of "mug_mug murmur"] by (simp add: u3qc_mor_def [abs_def] Let_def)

end
