(* ===== verification/Jet_Treap.thy ===== *)
theory Jet_Treap
  imports Jet_Order "HOL-Library.Tree"
begin

text \<open>
  The trees behind sets and maps: a set is null or \<open>[n l r]\<close>, a search tree in one order and a
  heap in another. This theory holds what sets and maps share: the noun of a tree, the
  invariant relative to the key of an entry (the entry itself in a set, its head in a map),
  the effect of rotations, joins and splits on it, uniqueness of the tree of a set of entries,
  and the order in which the recursion of the unions descends.
\<close>

section \<open>Trees as nouns\<close>

fun tree_noun :: "noun tree \<Rightarrow> noun" where
  "tree_noun Leaf = u3_nul"
| "tree_noun (Node l n r) = u3nt n (tree_noun l) (tree_noun r)"

lemma tree_noun_nul [simp]: "tree_noun t = u3_nul \<longleftrightarrow> t = Leaf"
  by (cases t) auto

lemma tree_noun_inj [simp]: "tree_noun s = tree_noun t \<longleftrightarrow> s = t"
proof (induction s arbitrary: t)
  case (Node l n r)
  then show ?case by (cases t) auto
qed (auto dest: sym)

definition strictly :: "(noun \<Rightarrow> noun \<Rightarrow> bool) \<Rightarrow> (noun \<Rightarrow> noun) \<Rightarrow> noun \<Rightarrow> noun \<Rightarrow> bool" where
  "strictly le key x y \<longleftrightarrow> le (key x) (key y) \<and> key x \<noteq> key y"

fun treap :: "(noun \<Rightarrow> noun \<Rightarrow> bool) \<Rightarrow> (noun \<Rightarrow> noun \<Rightarrow> bool) \<Rightarrow> (noun \<Rightarrow> noun) \<Rightarrow> noun tree \<Rightarrow> bool" where
  "treap gor mor key Leaf \<longleftrightarrow> True"
| "treap gor mor key (Node l n r) \<longleftrightarrow> treap gor mor key l \<and> treap gor mor key r \<and>
     (\<forall>x \<in> set_tree l. strictly gor key x n \<and> strictly mor key n x) \<and>
     (\<forall>x \<in> set_tree r. strictly gor key n x \<and> strictly mor key n x)"

text \<open>The join of two trees, all of the first before all of the second.\<close>

fun tjoin :: "(noun \<Rightarrow> noun \<Rightarrow> bool) \<Rightarrow> (noun \<Rightarrow> noun) \<Rightarrow> noun tree \<Rightarrow> noun tree \<Rightarrow> noun tree" where
  "tjoin mor key Leaf e = e"
| "tjoin mor key d Leaf = d"
| "tjoin mor key (Node ld nd rd) (Node le ne re) =
     (if mor (key nd) (key ne) then Node ld nd (tjoin mor key rd (Node le ne re))
      else Node (tjoin mor key (Node ld nd rd) le) ne re)"

lemma set_tjoin [simp]: "set_tree (tjoin mor key d e) = set_tree d \<union> set_tree e"
  by (induction mor key d e rule: tjoin.induct) auto

text \<open>The key of an entry of a set, and of an entry of a map.\<close>

definition self :: "noun \<Rightarrow> noun" where
  "self n = n"

fun nhead :: "noun \<Rightarrow> noun" where
  "nhead (Cell h t) = h"
| "nhead (Atom a) = Atom a"

text \<open>Insertion, with the rotations that restore the heap.\<close>

fun tput :: "(noun \<Rightarrow> noun \<Rightarrow> bool) \<Rightarrow> (noun \<Rightarrow> noun \<Rightarrow> bool) \<Rightarrow> (noun \<Rightarrow> noun) \<Rightarrow> noun \<Rightarrow> noun tree \<Rightarrow> noun tree" where
  "tput gor mor key b Leaf = Node Leaf b Leaf"
| "tput gor mor key b (Node l n r) =
     (if key n = key b then Node l b r
      else if gor (key b) (key n)
      then (case tput gor mor key b l of
          Node lc nc rc \<Rightarrow> if mor (key n) (key nc) then Node (Node lc nc rc) n r else Node lc nc (Node rc n r)
        | Leaf \<Rightarrow> Leaf)
      else (case tput gor mor key b r of
          Node lc nc rc \<Rightarrow> if mor (key n) (key nc) then Node l n (Node lc nc rc) else Node (Node l n lc) nc rc
        | Leaf \<Rightarrow> Leaf))"

lemma tput_Node: "\<exists>l n r. tput gor mor key b t = Node l n r"
proof (induction t)
  case (Node l n r)
  then obtain ll ln lr rl rn rr where "tput gor mor key b l = Node ll ln lr" "tput gor mor key b r = Node rl rn rr"
    by blast
  then show ?case by simp
qed simp

text \<open>The entries before and the entries after the key of \<open>b\<close>.\<close>

fun tsplit :: "(noun \<Rightarrow> noun \<Rightarrow> bool) \<Rightarrow> (noun \<Rightarrow> noun) \<Rightarrow> noun \<Rightarrow> noun tree \<Rightarrow> noun tree \<times> noun tree" where
  "tsplit gor key b Leaf = (Leaf, Leaf)"
| "tsplit gor key b (Node l n r) =
     (if key b = key n then (l, r)
      else if gor (key b) (key n) then (case tsplit gor key b l of (x, y) \<Rightarrow> (x, Node y n r))
      else (case tsplit gor key b r of (x, y) \<Rightarrow> (Node l n x, y)))"

text \<open>The entries of \<open>A\<close> and \<open>B\<close>, those of \<open>B\<close> where both have an entry for a key.\<close>

definition override :: "(noun \<Rightarrow> noun) \<Rightarrow> noun set \<Rightarrow> noun set \<Rightarrow> noun set" where
  "override key A B = {x \<in> A. key x \<notin> key ` B} \<union> B"

text \<open>The entries of \<open>B\<close> whose key is in \<open>A\<close>.\<close>

definition keep :: "(noun \<Rightarrow> noun) \<Rightarrow> noun set \<Rightarrow> noun set \<Rightarrow> noun set" where
  "keep key A B = {y \<in> B. key y \<in> key ` A}"

text \<open>The functions on sets, where the key of an entry is the entry.\<close>

lemma self_simps:
  "strictly le self x y \<longleftrightarrow> le x y \<and> x \<noteq> y"
  "tput gor mor self b (Node l n r) =
     (if n = b then Node l b r
      else if gor b n
      then (case tput gor mor self b l of
          Node lc nc rc \<Rightarrow> if mor n nc then Node (Node lc nc rc) n r else Node lc nc (Node rc n r)
        | Leaf \<Rightarrow> Leaf)
      else (case tput gor mor self b r of
          Node lc nc rc \<Rightarrow> if mor n nc then Node l n (Node lc nc rc) else Node (Node l n lc) nc rc
        | Leaf \<Rightarrow> Leaf))"
  "tjoin mor self (Node ld nd rd) (Node le' ne re) =
     (if mor nd ne then Node ld nd (tjoin mor self rd (Node le' ne re))
      else Node (tjoin mor self (Node ld nd rd) le') ne re)"
  "tsplit gor self b (Node l n r) =
     (if b = n then (l, r)
      else if gor b n then (case tsplit gor self b l of (x, y) \<Rightarrow> (x, Node y n r))
      else (case tsplit gor self b r of (x, y) \<Rightarrow> (Node l n x, y)))"
  "override self A B = A \<union> B"
  "keep self A B = A \<inter> B"
  by (auto simp only: strictly_def tput.simps tjoin.simps tsplit.simps override_def keep_def self_def image_ident)

section \<open>Treaps\<close>

locale noun_treap = k: noun_order gor + p: noun_order mor
  for gor mor :: "noun \<Rightarrow> noun \<Rightarrow> bool" +
  fixes key :: "noun \<Rightarrow> noun"
begin

abbreviation before :: "noun \<Rightarrow> noun \<Rightarrow> bool" where "before \<equiv> strictly gor key"
abbreviation above :: "noun \<Rightarrow> noun \<Rightarrow> bool" where "above \<equiv> strictly mor key"
abbreviation ok :: "noun tree \<Rightarrow> bool" where "ok \<equiv> treap gor mor key"

lemma before_trans: "before x y \<Longrightarrow> before y z \<Longrightarrow> before x z"
  unfolding strictly_def using k.strict_trans by blast

lemma above_trans: "above x y \<Longrightarrow> above y z \<Longrightarrow> above x z"
  unfolding strictly_def using p.strict_trans by blast

lemma before_asym: "before x y \<Longrightarrow> \<not> before y x"
  unfolding strictly_def using k.antisym by blast

lemma above_asym: "above x y \<Longrightarrow> \<not> above y x"
  unfolding strictly_def using p.antisym by blast

lemma not_before: "\<not> gor (key x) (key y) \<Longrightarrow> before y x"
  unfolding strictly_def using k.not_le_strict by blast

lemma not_above: "\<not> mor (key x) (key y) \<Longrightarrow> above y x"
  unfolding strictly_def using p.not_le_strict by blast

lemma before_irrefl [simp]: "\<not> before x x" "\<not> above x x"
  by (simp_all add: strictly_def)

lemma beforeI: "gor (key x) (key y) \<Longrightarrow> key x \<noteq> key y \<Longrightarrow> before x y"
  by (simp add: strictly_def)

lemma aboveI: "mor (key x) (key y) \<Longrightarrow> key x \<noteq> key y \<Longrightarrow> above x y"
  by (simp add: strictly_def)

lemma before_key: "before x y \<Longrightarrow> key x \<noteq> key y" "before x y \<Longrightarrow> key y \<noteq> key x"
  by (auto simp: strictly_def)

lemma key_inj: "ok t \<Longrightarrow> x \<in> set_tree t \<Longrightarrow> y \<in> set_tree t \<Longrightarrow> key x = key y \<Longrightarrow> x = y"
proof (induction t)
  case (Node l n r)
  have "before a b" if "a \<in> set_tree l" "b \<in> set_tree r" for a b
    using that Node.prems(1) before_trans by fastforce
  with Node show ?case
    by (auto dest: before_key)
qed simp

lemma key_cases:
  obtains "key x = key y" | "before x y" | "before y x"
  using not_before [of x y] beforeI [of x y] by blast

text \<open>The root is above every other entry, and splits them by key.\<close>

lemma parts:
  assumes "ok (Node l n r)"
  shows "set_tree l = {x \<in> set_tree (Node l n r). before x n}"
    and "set_tree r = {x \<in> set_tree (Node l n r). before n x}"
  using assms by (auto dest: before_asym)

lemma unique: "ok s \<Longrightarrow> ok t \<Longrightarrow> set_tree s = set_tree t \<Longrightarrow> s = t"
proof (induction s arbitrary: t)
  case (Node l n r)
  then obtain l' n' r' where t: "t = Node l' n' r'"
    by (cases t) auto
  have "n = n'"
  proof (rule ccontr)
    assume "n \<noteq> n'"
    then have "n' \<in> set_tree l \<union> set_tree r" "n \<in> set_tree l' \<union> set_tree r'"
      using Node.prems(3) by (auto simp: t)
    then have "above n n'" "above n' n"
      using Node.prems(1,2) by (auto simp: t)
    then show False
      using above_asym by blast
  qed
  have "set_tree l = {x \<in> set_tree t. before x n}" "set_tree r = {x \<in> set_tree t. before n x}"
    unfolding Node.prems(3) [symmetric] by (rule parts [OF Node.prems(1)])+
  moreover have "set_tree l' = {x \<in> set_tree t. before x n}" "set_tree r' = {x \<in> set_tree t. before n x}"
    unfolding t \<open>n = n'\<close> by (rule parts [OF Node.prems(2) [unfolded t]])+
  ultimately have "set_tree l = set_tree l'" "set_tree r = set_tree r'"
    by (simp_all only:)
  with Node \<open>n = n'\<close> show ?case
    by (simp add: t)
qed (simp add: eq_commute)

lemma rotate_right:
  assumes "ok (Node l n r)" and "ok (Node lc nc rc)" and "set_tree (Node lc nc rc) \<subseteq> insert b (set_tree l)"
    and "before b n"
  shows "mor (key n) (key nc) \<Longrightarrow> ok (Node (Node lc nc rc) n r)"
    and "\<not> mor (key n) (key nc) \<Longrightarrow> ok (Node lc nc (Node rc n r))"
proof -
  have bf: "before x n" if "x \<in> set_tree (Node lc nc rc)" for x
    using that assms by auto
  then have ncn: "before nc n" by simp
  {
    assume "mor (key n) (key nc)"
    then have ab: "above n nc"
      using ncn by (auto simp: strictly_def)
    have "above n x" if "x \<in> set_tree (Node lc nc rc)" for x
      using that assms(2) ab above_trans by fastforce
    then show "ok (Node (Node lc nc rc) n r)"
      using assms(1,2) bf by auto
  next
    assume "\<not> mor (key n) (key nc)"
    then have ab: "above nc n"
      by (rule not_above)
    then have "nc \<notin> set_tree l"
      using assms(1) above_asym by auto
    then have "nc = b"
      using assms(3) by auto
    then have rc: "x \<in> set_tree l" if "x \<in> set_tree rc" for x
      using that assms(2,3) before_irrefl(1) [of b] by fastforce
    have "before nc x \<and> above nc x" if "x \<in> set_tree r" for x
      using that assms(1) ab ncn before_trans above_trans by fastforce
    then show "ok (Node lc nc (Node rc n r))"
      using assms(1,2) rc ab ncn bf by auto
  }
qed

lemma rotate_left:
  assumes "ok (Node l n r)" and "ok (Node lc nc rc)" and "set_tree (Node lc nc rc) \<subseteq> insert b (set_tree r)"
    and "before n b"
  shows "mor (key n) (key nc) \<Longrightarrow> ok (Node l n (Node lc nc rc))"
    and "\<not> mor (key n) (key nc) \<Longrightarrow> ok (Node (Node l n lc) nc rc)"
proof -
  have bf: "before n x" if "x \<in> set_tree (Node lc nc rc)" for x
    using that assms by auto
  then have ncn: "before n nc" by simp
  {
    assume "mor (key n) (key nc)"
    then have ab: "above n nc"
      using ncn by (auto simp: strictly_def)
    have "above n x" if "x \<in> set_tree (Node lc nc rc)" for x
      using that assms(2) ab above_trans by fastforce
    then show "ok (Node l n (Node lc nc rc))"
      using assms(1,2) bf by auto
  next
    assume "\<not> mor (key n) (key nc)"
    then have ab: "above nc n"
      by (rule not_above)
    then have "nc \<notin> set_tree r"
      using assms(1) above_asym by auto
    then have "nc = b"
      using assms(3) by auto
    then have lc: "x \<in> set_tree r" if "x \<in> set_tree lc" for x
      using that assms(2,3) before_irrefl(1) [of b] by fastforce
    have "before x nc \<and> above nc x" if "x \<in> set_tree l" for x
      using that assms(1) ab ncn before_trans above_trans by fastforce
    then show "ok (Node (Node l n lc) nc rc)"
      using assms(1,2) lc ab ncn bf by auto
  }
qed

text \<open>Everything in \<open>d\<close> before everything in \<open>e\<close>.\<close>

abbreviation ahead :: "noun tree \<Rightarrow> noun tree \<Rightarrow> bool" where
  "ahead d e \<equiv> \<forall>x \<in> set_tree d. \<forall>y \<in> set_tree e. before x y"

lemma ok_tjoin: "ok d \<Longrightarrow> ok e \<Longrightarrow> ahead d e \<Longrightarrow> ok (tjoin mor key d e)"
proof (induction "size d + size e" arbitrary: d e rule: less_induct)
  case less
  show ?case
  proof (cases "d = Leaf \<or> e = Leaf")
    case True
    then show ?thesis
      using less.prems by (cases d) auto
  next
    case False
    then obtain ld nd rd le ne re where de: "d = Node ld nd rd" "e = Node le ne re"
      by (metis tree.exhaust)
    have ne: "before nd ne"
      using less.prems by (simp add: de)
    show ?thesis
    proof (cases "mor (key nd) (key ne)")
      case True
      then have "above nd ne"
        using ne by (auto simp: strictly_def)
      then have "above nd x" if "x \<in> set_tree e" for x
        using that less.prems(2) above_trans [of nd ne x] by (auto simp: de)
      moreover have "ok (tjoin mor key rd e)"
        using less by (simp add: de)
      ultimately show ?thesis
        using True less.prems by (auto simp: de)
    next
      case False
      then have "above ne nd"
        by (rule not_above)
      then have "above ne x" if "x \<in> set_tree d" for x
        using that less.prems(1) above_trans [of ne nd x] by (auto simp: de)
      moreover have "ok (tjoin mor key d le)"
        using less by (simp add: de)
      ultimately show ?thesis
        using False less.prems by (auto simp: de)
    qed
  qed
qed

lemma ahead_children: "ok (Node l n r) \<Longrightarrow> ahead l r"
  using before_trans by fastforce

lemma tput_ok: "ok t \<Longrightarrow> ok (tput gor mor key b t) \<and> set_tree (tput gor mor key b t) = override key (set_tree t) {b}"
proof (induction t)
  case (Node l n r)
  then have l: "ok l" "\<forall>x \<in> set_tree l. before x n" and r: "ok r" "\<forall>x \<in> set_tree r. before n x"
    by simp_all
  show ?case
  proof (cases rule: key_cases [of n b, case_names 1 3 2])
    case 1
    then have "strictly le key x b = strictly le key x n" "strictly le key b x = strictly le key n x" for le x
      by (simp_all add: strictly_def)
    with 1 Node.prems show ?thesis
      by (auto simp: override_def strictly_def)
  next
    case 2
    then have nb: "key n \<noteq> key b" "gor (key b) (key n)" "key b \<noteq> key n"
      by (auto simp: strictly_def)
    obtain lc nc rc where c: "tput gor mor key b l = Node lc nc rc"
      using tput_Node by blast
    have ih: "ok (Node lc nc rc)" "set_tree (Node lc nc rc) = override key (set_tree l) {b}"
      using Node.IH(1) l(1) c by simp_all
    then have sub: "set_tree (Node lc nc rc) \<subseteq> insert b (set_tree l)"
      by (auto simp: override_def)
    have "key x \<noteq> key b" if "x \<in> set_tree r" for x
      using that r(2) before_trans [OF 2] by (metis before_key(1))
    then have "override key (set_tree (Node l n r)) {b} = set_tree (Node lc nc rc) \<union> {n} \<union> set_tree r"
      using nb by (subst ih(2)) (auto simp: override_def)
    then show ?thesis
      using rotate_right [OF Node.prems ih(1) sub 2] nb c by auto
  next
    case 3
    then have nb: "key n \<noteq> key b" "\<not> gor (key b) (key n)"
      using k.antisym by (auto simp: strictly_def)
    obtain lc nc rc where c: "tput gor mor key b r = Node lc nc rc"
      using tput_Node by blast
    have ih: "ok (Node lc nc rc)" "set_tree (Node lc nc rc) = override key (set_tree r) {b}"
      using Node.IH(2) r(1) c by simp_all
    then have sub: "set_tree (Node lc nc rc) \<subseteq> insert b (set_tree r)"
      by (auto simp: override_def)
    have "key x \<noteq> key b" if "x \<in> set_tree l" for x
      using that l(2) before_trans [OF _ 3] by (metis before_key(1))
    then have "override key (set_tree (Node l n r)) {b} = set_tree l \<union> {n} \<union> set_tree (Node lc nc rc)"
      using nb by (subst ih(2)) (auto simp: override_def)
    then show ?thesis
      using rotate_left [OF Node.prems ih(1) sub 3] nb c by auto
  qed
qed (simp add: override_def)

lemma tsplit_ok:
  "ok t \<Longrightarrow> tsplit gor key b t = (x, y) \<Longrightarrow> ok x \<and> ok y \<and>
     set_tree x = {z \<in> set_tree t. before z b} \<and> set_tree y = {z \<in> set_tree t. before b z}"
proof (induction t arbitrary: x y)
  case (Node l n r)
  have l: "ok l" "\<forall>x \<in> set_tree l. before x n" and r: "ok r" "\<forall>x \<in> set_tree r. before n x"
    using Node.prems(1) by simp_all
  show ?case
  proof (cases rule: key_cases [of b n, case_names 1 2 3])
    case 1
    then have e: "before z b = before z n" "before b z = before n z" for z
      by (simp_all add: strictly_def)
    have "x = l" "y = r"
      using 1 Node.prems(2) by simp_all
    then show ?thesis
      unfolding e using l(1) r(1) parts [OF Node.prems(1)] by blast
  next
    case 2
    then have nb: "key b \<noteq> key n" "gor (key b) (key n)"
      by (auto simp: strictly_def)
    obtain u v where uv: "tsplit gor key b l = (u, v)"
      by fastforce
    note ih = Node.IH(1) [OF l(1) uv]
    have "before b z" if "z \<in> set_tree r" for z
      using that r(2) before_trans [OF 2] by blast
    moreover have "x = u" "y = Node v n r"
      using Node.prems(2) nb uv by auto
    ultimately show ?thesis
      using ih 2 Node.prems(1) by (auto dest: before_asym)
  next
    case 3
    then have nb: "key b \<noteq> key n" "\<not> gor (key b) (key n)"
      using k.antisym by (auto simp: strictly_def)
    obtain u v where uv: "tsplit gor key b r = (u, v)"
      by fastforce
    note ih = Node.IH(2) [OF r(1) uv]
    have "before z b" if "z \<in> set_tree l" for z
      using that l(2) before_trans [OF _ 3] by blast
    moreover have "x = Node l n u" "y = v"
      using Node.prems(2) nb uv by auto
    ultimately show ?thesis
      using ih 3 Node.prems(1) by (auto dest: before_asym)
  qed
qed simp

text \<open>
  An intersection, with either tree cut at its root: the root of \<open>b\<close> lies on the left of that of
  \<open>a\<close>, or on the right of it.
\<close>

lemma keep_before:
  assumes "ok (Node la na ra)" and "ok (Node lb nb rb)" and "before nb na"
  shows "keep key (set_tree (Node la na ra)) (set_tree (Node lb nb rb)) =
      keep key (set_tree la) (set_tree (Node lb nb Leaf)) \<union> keep key (set_tree (Node la na ra)) (set_tree rb)"
    and "keep key (set_tree (Node la na ra)) (set_tree (Node lb nb rb)) =
      keep key (set_tree (Node Leaf na ra)) (set_tree rb) \<union> keep key (set_tree la) (set_tree (Node lb nb rb))"
proof -
  have "key y \<noteq> key x" if "y \<in> set_tree (Node lb nb Leaf)" "x \<in> set_tree (Node Leaf na ra)" for x y
  proof -
    have "before y na" "x = na \<or> before na x"
      using that assms before_trans [of y nb na] by auto
    then show ?thesis
      using before_trans [of y na x] by (auto dest: before_key)
  qed
  then show "keep key (set_tree (Node la na ra)) (set_tree (Node lb nb rb)) =
      keep key (set_tree la) (set_tree (Node lb nb Leaf)) \<union> keep key (set_tree (Node la na ra)) (set_tree rb)"
    and "keep key (set_tree (Node la na ra)) (set_tree (Node lb nb rb)) =
      keep key (set_tree (Node Leaf na ra)) (set_tree rb) \<union> keep key (set_tree la) (set_tree (Node lb nb rb))"
    unfolding keep_def by auto
qed

lemma keep_after:
  assumes "ok (Node la na ra)" and "ok (Node lb nb rb)" and "before na nb"
  shows "keep key (set_tree (Node la na ra)) (set_tree (Node lb nb rb)) =
      keep key (set_tree ra) (set_tree (Node Leaf nb rb)) \<union> keep key (set_tree (Node la na ra)) (set_tree lb)"
    and "keep key (set_tree (Node la na ra)) (set_tree (Node lb nb rb)) =
      keep key (set_tree (Node la na Leaf)) (set_tree lb) \<union> keep key (set_tree ra) (set_tree (Node lb nb rb))"
proof -
  have "key y \<noteq> key x" if "y \<in> set_tree (Node Leaf nb rb)" "x \<in> set_tree (Node la na Leaf)" for x y
  proof -
    have "before na y" "x = na \<or> before x na"
      using that assms before_trans [of na nb y] by auto
    then show ?thesis
      using before_trans [of x na y] by (auto dest: before_key)
  qed
  then show "keep key (set_tree (Node la na ra)) (set_tree (Node lb nb rb)) =
      keep key (set_tree ra) (set_tree (Node Leaf nb rb)) \<union> keep key (set_tree (Node la na ra)) (set_tree lb)"
    and "keep key (set_tree (Node la na ra)) (set_tree (Node lb nb rb)) =
      keep key (set_tree (Node la na Leaf)) (set_tree lb) \<union> keep key (set_tree ra) (set_tree (Node lb nb rb))"
    unfolding keep_def by auto
qed

lemma keep_same:
  assumes "ok (Node la na ra)" and "ok (Node lb nb rb)" and "key na = key nb"
  shows "keep key (set_tree (Node la na ra)) (set_tree (Node lb nb rb)) =
      insert nb (keep key (set_tree la) (set_tree lb) \<union> keep key (set_tree ra) (set_tree rb))"
proof -
  have e: "before x na = before x nb" "before na x = before nb x" for x
    using assms(3) by (simp_all add: strictly_def)
  have l: "before x nb" if "x \<in> set_tree la \<union> set_tree lb" for x
    using that assms(1,2) e by auto
  have r: "before nb x" if "x \<in> set_tree ra \<union> set_tree rb" for x
    using that assms(1,2) e by auto
  have "key y \<noteq> key x" if "y \<in> set_tree lb" "x \<in> set_tree (Node Leaf na ra)" for x y
    using that l [of y] r [of x] before_trans [of y nb x] assms(3) by (auto dest: before_key)
  moreover have "key y \<noteq> key x" if "y \<in> set_tree rb" "x \<in> set_tree (Node la na Leaf)" for x y
    using that l [of x] r [of y] before_trans [of x nb y] assms(3) by (auto dest: before_key)
  moreover have "key y \<noteq> key nb" if "y \<in> set_tree lb \<union> set_tree rb" for y
    using that l [of y] r [of y] by (auto dest: before_key)
  ultimately show ?thesis
    using assms(3) by (auto simp: keep_def)
qed

text \<open>The keys on the two sides of a root are distinct.\<close>

lemma sides_distinct:
  assumes "ok (Node l n r)"
  shows "x \<in> set_tree l \<Longrightarrow> y \<in> set_tree r \<Longrightarrow> key x \<noteq> key y" "x \<in> set_tree l \<Longrightarrow> key x \<noteq> key n"
    "y \<in> set_tree r \<Longrightarrow> key n \<noteq> key y"
  using assms before_trans [of x n y] by (auto dest: before_key)

end

end
