(* ===== verification/Jet_Union.thy ===== *)
theory Jet_Union
  imports Jet_Treap
begin

text \<open>
  The recursion that the unions of sets and of maps share. The root that is higher in the heap
  stays a root; the other tree is cut there, its root with one child is united with the
  child on its side, and the rest of it is united with the result. The second call works on a
  tree that the first one built, so the size of the arguments alone does not decrease.
\<close>

section \<open>Why the recursion ends\<close>

text \<open>The entries of a noun read as a tree; what has not the shape of a tree has none.\<close>

fun nodes :: "noun \<Rightarrow> noun list" where
  "nodes (Cell n (Cell l r)) = n # nodes l @ nodes r"
| "nodes _ = []"

text \<open>
  The entries above both roots, and the size of the tree with the lower root. Both are null when
  one of the trees is empty or the roots have the same key: such a call only recurs on
  children, if at all.
\<close>

definition uni_higher :: "(noun \<Rightarrow> noun \<Rightarrow> bool) \<Rightarrow> (noun \<Rightarrow> noun) \<Rightarrow> noun \<times> noun \<Rightarrow> nat" where
  "uni_higher mor key = (\<lambda>(a, b). case (nodes a, nodes b) of
     (x # xs, y # ys) \<Rightarrow>
       let top = (if mor (key x) (key y) then x else y)
       in card {z \<in> set (nodes a) \<union> set (nodes b). strictly mor key z top}
   | _ \<Rightarrow> 0)"

definition uni_lower :: "(noun \<Rightarrow> noun \<Rightarrow> bool) \<Rightarrow> (noun \<Rightarrow> noun) \<Rightarrow> noun \<times> noun \<Rightarrow> nat" where
  "uni_lower mor key = (\<lambda>(a, b). case (nodes a, nodes b) of
     (x # xs, y # ys) \<Rightarrow>
       if key x = key y then 0 else if mor (key x) (key y) then length (nodes b) else length (nodes a)
   | _ \<Rightarrow> 0)"

definition uni_rel :: "(noun \<Rightarrow> noun \<Rightarrow> bool) \<Rightarrow> (noun \<Rightarrow> noun) \<Rightarrow> ((noun \<times> noun) \<times> (noun \<times> noun)) set" where
  "uni_rel mor key = measures [\<lambda>(a, b). length (nodes a) + length (nodes b), uni_higher mor key, uni_lower mor key]"

text \<open>A union has no more entries than its arguments.\<close>

definition fewer :: "noun \<Rightarrow> noun \<Rightarrow> noun \<Rightarrow> bool" where
  "fewer c a b \<longleftrightarrow> set (nodes c) \<subseteq> set (nodes a) \<union> set (nodes b) \<and> length (nodes c) \<le> length (nodes a) + length (nodes b)"

lemma nodes_nul [simp]: "nodes u3_nul = []"
  by (simp add: u3_nul_def)

lemma fewer_nul [simp]: "fewer b u3_nul b" "fewer a a u3_nul"
  by (simp_all add: fewer_def)

text \<open>How the counts of two calls add up, branch by branch.\<close>

lemma fewer_branches:
  "fewer l la lb \<Longrightarrow> fewer r ra rb \<Longrightarrow> fewer (u3nt nb l r) (u3nt na la ra) (u3nt nb lb rb)"
  "fewer s (u3nt na la u3_nul) lb \<Longrightarrow> fewer c ra (u3nt nb s rb) \<Longrightarrow> fewer c (u3nt na la ra) (u3nt nb lb rb)"
  "fewer s (u3nt na u3_nul ra) rb \<Longrightarrow> fewer c la (u3nt nb lb s) \<Longrightarrow> fewer c (u3nt na la ra) (u3nt nb lb rb)"
  "fewer s la (u3nt nb lb u3_nul) \<Longrightarrow> fewer c (u3nt na s ra) rb \<Longrightarrow> fewer c (u3nt na la ra) (u3nt nb lb rb)"
  "fewer s ra (u3nt nb u3_nul rb) \<Longrightarrow> fewer c (u3nt na la s) lb \<Longrightarrow> fewer c (u3nt na la ra) (u3nt nb lb rb)"
  unfolding fewer_def by auto

lemma wf_uni_rel [simp]: "wf (uni_rel mor key)"
  by (simp add: uni_rel_def)

lemma uni_rel_size:
  "length (nodes a') + length (nodes b') < length (nodes a) + length (nodes b) \<Longrightarrow> ((a', b'), (a, b)) \<in> uni_rel mor key"
  by (simp add: uni_rel_def)

context noun_treap
begin

text \<open>The tree \<open>b\<close> keeps its root, which is above that of \<open>a\<close>, and \<open>a\<close> shrinks.\<close>

lemma uni_rel_below:
  assumes n: "nodes a = x # xs" "nodes b = y # ys" "nodes b' = y # ys'" and top: "\<not> mor (key x) (key y)"
    and sub: "set (nodes a') \<subseteq> set (nodes a)" "set (nodes b') \<subseteq> set (nodes a) \<union> set (nodes b)"
    and len: "length (nodes a') + length (nodes b') \<le> length (nodes a) + length (nodes b)"
      "length (nodes a') < length (nodes a)"
  shows "((a', b'), (a, b)) \<in> uni_rel mor key"
proof -
  have xy: "key x \<noteq> key y" "uni_lower mor key (a, b) = length (nodes a)"
    "uni_higher mor key (a, b) = card {z \<in> set (nodes a) \<union> set (nodes b). above z y}"
    using top n p.refl by (auto simp: uni_lower_def uni_higher_def)
  have step: "uni_higher mor key (a', b') < uni_higher mor key (a, b) \<or>
    uni_higher mor key (a', b') \<le> uni_higher mor key (a, b) \<and> uni_lower mor key (a', b') < uni_lower mor key (a, b)"
  proof (cases "nodes a'")
    case Nil
    then show ?thesis
      using len xy by (simp add: uni_higher_def uni_lower_def)
  next
    case (Cons x' xs')
    have mono: "card {z \<in> set (nodes a') \<union> set (nodes b'). above z y}
        \<le> card {z \<in> set (nodes a) \<union> set (nodes b). above z y}"
      by (rule card_mono) (use sub in auto)
    show ?thesis
    proof (cases "mor (key x') (key y) \<and> key x' \<noteq> key y")
      case True
      then have x'y: "above x' y"
        by (simp add: strictly_def)
      have "{z \<in> set (nodes a') \<union> set (nodes b'). above z x'} \<subset> {z \<in> set (nodes a) \<union> set (nodes b). above z y}"
      proof (rule psubsetI)
        show "{z \<in> set (nodes a') \<union> set (nodes b'). above z x'} \<subseteq> {z \<in> set (nodes a) \<union> set (nodes b). above z y}"
          using sub above_trans [OF _ x'y] by blast
        have "x' \<in> {z \<in> set (nodes a) \<union> set (nodes b). above z y}"
          using x'y sub Cons by auto
        then show "{z \<in> set (nodes a') \<union> set (nodes b'). above z x'} \<noteq> {z \<in> set (nodes a) \<union> set (nodes b). above z y}"
          by (metis (mono_tags, lifting) before_irrefl(2) mem_Collect_eq)
      qed
      then have "uni_higher mor key (a', b') < uni_higher mor key (a, b)"
        using True Cons n xy(3) by (simp add: uni_higher_def psubset_card_mono)
      then show ?thesis ..
    next
      case False
      then have "strictly mor key z (if mor (key x') (key y) then x' else y) = above z y" for z
        by (auto simp: strictly_def)
      then have "uni_higher mor key (a', b') = card {z \<in> set (nodes a') \<union> set (nodes b'). above z y}"
        using Cons n by (simp add: uni_higher_def Let_def)
      moreover have "uni_lower mor key (a', b') \<le> length (nodes a')"
        using False Cons n by (auto simp: uni_lower_def)
      ultimately show ?thesis
        using mono xy len by simp
    qed
  qed
  then show ?thesis
    using len(1) by (auto simp: uni_rel_def)
qed

lemma uni_swap:
  "uni_higher mor key (a, b) = uni_higher mor key (b, a)" "uni_lower mor key (a, b) = uni_lower mor key (b, a)"
proof -
  have top: "above z (if mor (key x) (key y) then x else y) = above z (if mor (key y) (key x) then y else x)" for x y z
    using p.antisym [of "key x" "key y"] p.total [of "key x" "key y"] by (auto simp: strictly_def)
  show "uni_higher mor key (a, b) = uni_higher mor key (b, a)"
    by (cases "nodes a"; cases "nodes b") (auto simp: uni_higher_def Let_def Un_commute top)
  show "uni_lower mor key (a, b) = uni_lower mor key (b, a)"
    using p.antisym p.total by (cases "nodes a"; cases "nodes b") (auto simp: uni_lower_def)
qed

lemma uni_rel_swap: "((a', b'), (a, b)) \<in> uni_rel mor key \<longleftrightarrow> ((b', a'), (b, a)) \<in> uni_rel mor key"
  by (simp add: uni_rel_def uni_swap [of a b] uni_swap [of a' b'] add.commute)

lemma uni_rel_above:
  assumes n: "nodes a = x # xs" "nodes b = y # ys" "nodes a' = x # xs'" and top: "mor (key x) (key y)" "key x \<noteq> key y"
    and sub: "set (nodes b') \<subseteq> set (nodes b)" "set (nodes a') \<subseteq> set (nodes a) \<union> set (nodes b)"
    and len: "length (nodes a') + length (nodes b') \<le> length (nodes a) + length (nodes b)"
      "length (nodes b') < length (nodes b)"
  shows "((a', b'), (a, b)) \<in> uni_rel mor key"
proof -
  have "\<not> mor (key y) (key x)"
    using top p.antisym by blast
  then have "((b', a'), (b, a)) \<in> uni_rel mor key"
    using assms by (intro uni_rel_below [of b y ys a x xs]) auto
  then show ?thesis
    by (subst uni_rel_swap)
qed

text \<open>The second calls of the four branches, on what the first call built.\<close>

lemma uni_rel_second:
  "\<not> mor (key na) (key nb) \<Longrightarrow> fewer s (u3nt na la u3_nul) lb \<Longrightarrow>
     ((ra, u3nt nb s rb), (u3nt na la ra, u3nt nb lb rb)) \<in> uni_rel mor key"
  "\<not> mor (key na) (key nb) \<Longrightarrow> fewer s (u3nt na u3_nul ra) rb \<Longrightarrow>
     ((la, u3nt nb lb s), (u3nt na la ra, u3nt nb lb rb)) \<in> uni_rel mor key"
  "mor (key na) (key nb) \<Longrightarrow> key na \<noteq> key nb \<Longrightarrow> fewer s la (u3nt nb lb u3_nul) \<Longrightarrow>
     ((u3nt na s ra, rb), (u3nt na la ra, u3nt nb lb rb)) \<in> uni_rel mor key"
  "mor (key na) (key nb) \<Longrightarrow> key na \<noteq> key nb \<Longrightarrow> fewer s ra (u3nt nb u3_nul rb) \<Longrightarrow>
     ((u3nt na la s, lb), (u3nt na la ra, u3nt nb lb rb)) \<in> uni_rel mor key"
  subgoal by (rule uni_rel_below) (auto simp: fewer_def)
  subgoal by (rule uni_rel_below) (auto simp: fewer_def)
  subgoal by (rule uni_rel_above) (auto simp: fewer_def)
  subgoal by (rule uni_rel_above) (auto simp: fewer_def)
  done

end

section \<open>What a union computes\<close>

text \<open>
  The equations that both unions satisfy on the nouns of trees whose entries are \<open>good\<close>, and
  what follows for treaps: the union is the treap of all the entries, those of the second
  argument where a key is in both.
\<close>

locale treap_union = noun_treap gor mor key
  for gor mor :: "noun \<Rightarrow> noun \<Rightarrow> bool" and key :: "noun \<Rightarrow> noun" +
  fixes uni :: "noun \<Rightarrow> noun \<Rightarrow> noun jet" and good :: "noun \<Rightarrow> bool"
  assumes uni_nul_left: "uni u3_nul (tree_noun t) = Inr (tree_noun t)"
    and uni_nul_right: "uni (tree_noun t) u3_nul = Inr (tree_noun t)"
    and uni_same: "good na \<Longrightarrow> good nb \<Longrightarrow> key na = key nb \<Longrightarrow>
      uni (u3nt na (tree_noun la) (tree_noun ra)) (u3nt nb (tree_noun lb) (tree_noun rb)) =
      on_ok (uni (tree_noun la) (tree_noun lb)) (\<lambda>l. on_ok (uni (tree_noun ra) (tree_noun rb)) (\<lambda>r. Inr (u3nt nb l r)))"
    and uni_below_before: "good na \<Longrightarrow> good nb \<Longrightarrow> \<not> mor (key na) (key nb) \<Longrightarrow> gor (key na) (key nb) \<Longrightarrow>
      uni (u3nt na (tree_noun la) (tree_noun ra)) (u3nt nb (tree_noun lb) (tree_noun rb)) =
      on_ok (uni (u3nt na (tree_noun la) u3_nul) (tree_noun lb)) (\<lambda>sub. uni (tree_noun ra) (u3nt nb sub (tree_noun rb)))"
    and uni_below_after: "good na \<Longrightarrow> good nb \<Longrightarrow> \<not> mor (key na) (key nb) \<Longrightarrow> \<not> gor (key na) (key nb) \<Longrightarrow>
      uni (u3nt na (tree_noun la) (tree_noun ra)) (u3nt nb (tree_noun lb) (tree_noun rb)) =
      on_ok (uni (u3nt na u3_nul (tree_noun ra)) (tree_noun rb)) (\<lambda>sub. uni (tree_noun la) (u3nt nb (tree_noun lb) sub))"
    and uni_above_before: "good na \<Longrightarrow> good nb \<Longrightarrow> mor (key na) (key nb) \<Longrightarrow> key na \<noteq> key nb \<Longrightarrow> gor (key nb) (key na) \<Longrightarrow>
      uni (u3nt na (tree_noun la) (tree_noun ra)) (u3nt nb (tree_noun lb) (tree_noun rb)) =
      on_ok (uni (tree_noun la) (u3nt nb (tree_noun lb) u3_nul)) (\<lambda>sub. uni (u3nt na sub (tree_noun ra)) (tree_noun rb))"
    and uni_above_after: "good na \<Longrightarrow> good nb \<Longrightarrow> mor (key na) (key nb) \<Longrightarrow> key na \<noteq> key nb \<Longrightarrow> \<not> gor (key nb) (key na) \<Longrightarrow>
      uni (u3nt na (tree_noun la) (tree_noun ra)) (u3nt nb (tree_noun lb) (tree_noun rb)) =
      on_ok (uni (tree_noun ra) (u3nt nb u3_nul (tree_noun rb))) (\<lambda>sub. uni (u3nt na (tree_noun la) sub) (tree_noun lb))"
begin

abbreviation united :: "noun tree \<Rightarrow> noun tree \<Rightarrow> noun tree \<Rightarrow> bool" where
  "united a b c \<equiv> uni (tree_noun a) (tree_noun b) = Inr (tree_noun c) \<and> ok c \<and>
     set_tree c = override key (set_tree a) (set_tree b) \<and> size c \<le> size a + size b"

abbreviation all_good :: "noun tree \<Rightarrow> bool" where
  "all_good t \<equiv> \<forall>x \<in> set_tree t. good x"

abbreviation lower :: "noun tree \<times> noun tree \<Rightarrow> nat" where
  "lower \<equiv> \<lambda>(a, b). if mor (key (value a)) (key (value b)) then size b else size a"

lemma override_ahead:
  "(\<forall>x \<in> A. \<forall>y \<in> B. key x \<noteq> key y) \<Longrightarrow> override key A B = A \<union> B"
  by (auto simp: override_def)

text \<open>The root of \<open>b\<close> is above that of \<open>a\<close>, which is on its left.\<close>

lemma united_below_before:
  assumes a: "ok (Node la na ra)" "all_good (Node la na ra)" and b: "ok (Node lb nb rb)" "all_good (Node lb nb rb)"
    and top: "\<not> mor (key na) (key nb)" "gor (key na) (key nb)"
    and s: "united (Node la na Leaf) lb s"
    and c: "ok (Node s nb rb) \<Longrightarrow> all_good (Node s nb rb) \<Longrightarrow> united ra (Node s nb rb) c"
  shows "united (Node la na ra) (Node lb nb rb) c"
proof -
  have ab: "above nb na"
    using top by (intro not_above)
  have bf: "before na nb"
    using top ab by (auto simp: strictly_def)
  have la: "before x nb \<and> above nb x" if "x \<in> set_tree (Node la na Leaf)" for x
    using that a(1) ab bf before_trans [of x na nb] above_trans [of nb na x] by auto
  then have "before x nb \<and> above nb x" if "x \<in> set_tree s" for x
    using that s b(1) by (auto simp: override_def)
  then have ok: "ok (Node s nb rb)"
    using s b(1) by simp
  have good: "all_good (Node s nb rb)"
    using s a(2) b(2) by (auto simp: override_def)
  note c = c [OF ok good]
  have "set_tree c = override key (set_tree (Node la na ra)) (set_tree (Node lb nb rb))"
  proof -
    have "key x \<noteq> key y" if "x \<in> set_tree (Node la na Leaf)" "y \<in> insert nb (set_tree rb)" for x y
      using that la b(1) before_trans [of x nb y] by (auto dest: before_key)
    moreover have "key x \<noteq> key y" if "x \<in> set_tree ra" "y \<in> set_tree (Node la na Leaf)" for x y
      using that a(1) before_trans [of y na x] by (auto dest: before_key)
    ultimately show ?thesis
      using c s by (auto simp: override_def)
  qed
  moreover have "size c \<le> size (Node la na ra) + size (Node lb nb rb)"
    using c s by simp
  moreover have "uni (tree_noun (Node la na ra)) (tree_noun (Node lb nb rb)) = Inr (tree_noun c)"
    using uni_below_before [of na nb la ra lb rb] s c a(2) b(2) top by simp
  ultimately show ?thesis
    using c by blast
qed

lemma united_below_after:
  assumes a: "ok (Node la na ra)" "all_good (Node la na ra)" and b: "ok (Node lb nb rb)" "all_good (Node lb nb rb)"
    and top: "\<not> mor (key na) (key nb)" "\<not> gor (key na) (key nb)"
    and s: "united (Node Leaf na ra) rb s"
    and c: "ok (Node lb nb s) \<Longrightarrow> all_good (Node lb nb s) \<Longrightarrow> united la (Node lb nb s) c"
  shows "united (Node la na ra) (Node lb nb rb) c"
proof -
  have ab: "above nb na" and bf: "before nb na"
    using top not_above not_before by blast+
  have ra: "before nb x \<and> above nb x" if "x \<in> set_tree (Node Leaf na ra)" for x
    using that a(1) ab bf before_trans [of nb na x] above_trans [of nb na x] by auto
  then have "before nb x \<and> above nb x" if "x \<in> set_tree s" for x
    using that s b(1) by (auto simp: override_def)
  then have ok: "ok (Node lb nb s)"
    using s b(1) by simp
  have good: "all_good (Node lb nb s)"
    using s a(2) b(2) by (auto simp: override_def)
  note c = c [OF ok good]
  have "set_tree c = override key (set_tree (Node la na ra)) (set_tree (Node lb nb rb))"
  proof -
    have "key x \<noteq> key y" if "x \<in> set_tree (Node Leaf na ra)" "y \<in> insert nb (set_tree lb)" for x y
      using that ra b(1) before_trans [of y nb x] by (auto dest: before_key)
    moreover have "key x \<noteq> key y" if "x \<in> set_tree la" "y \<in> set_tree (Node Leaf na ra)" for x y
      using that a(1) before_trans [of x na y] by (auto dest: before_key)
    ultimately show ?thesis
      using c s by (auto simp: override_def)
  qed
  moreover have "size c \<le> size (Node la na ra) + size (Node lb nb rb)"
    using c s by simp
  moreover have "uni (tree_noun (Node la na ra)) (tree_noun (Node lb nb rb)) = Inr (tree_noun c)"
    using uni_below_after [of na nb la ra lb rb] s c a(2) b(2) top by simp
  ultimately show ?thesis
    using c by blast
qed

lemma united_above_before:
  assumes a: "ok (Node la na ra)" "all_good (Node la na ra)" and b: "ok (Node lb nb rb)" "all_good (Node lb nb rb)"
    and top: "mor (key na) (key nb)" "key na \<noteq> key nb" "gor (key nb) (key na)"
    and s: "united la (Node lb nb Leaf) s"
    and c: "ok (Node s na ra) \<Longrightarrow> all_good (Node s na ra) \<Longrightarrow> united (Node s na ra) rb c"
  shows "united (Node la na ra) (Node lb nb rb) c"
proof -
  have ab: "above na nb" and bf: "before nb na"
    using top by (auto simp: strictly_def)
  have lb: "before x na \<and> above na x" if "x \<in> set_tree (Node lb nb Leaf)" for x
    using that b(1) ab bf before_trans [of x nb na] above_trans [of na nb x] by auto
  then have "before x na \<and> above na x" if "x \<in> set_tree s" for x
    using that s a(1) by (auto simp: override_def)
  then have ok: "ok (Node s na ra)"
    using s a(1) by simp
  have good: "all_good (Node s na ra)"
    using s a(2) b(2) by (auto simp: override_def)
  note c = c [OF ok good]
  have "set_tree c = override key (set_tree (Node la na ra)) (set_tree (Node lb nb rb))"
  proof -
    have "key x \<noteq> key y" if "x \<in> insert na (set_tree ra)" "y \<in> set_tree (Node lb nb Leaf)" for x y
      using that lb a(1) before_trans [of y na x] by (auto dest: before_key)
    moreover have "key x \<noteq> key y" if "x \<in> set_tree (Node lb nb Leaf)" "y \<in> set_tree rb" for x y
      using that b(1) before_trans [of x nb y] by (auto dest: before_key)
    ultimately show ?thesis
      using c s by (auto simp: override_def)
  qed
  moreover have "size c \<le> size (Node la na ra) + size (Node lb nb rb)"
    using c s by simp
  moreover have "uni (tree_noun (Node la na ra)) (tree_noun (Node lb nb rb)) = Inr (tree_noun c)"
    using uni_above_before [of na nb la ra lb rb] s c a(2) b(2) top by simp
  ultimately show ?thesis
    using c by blast
qed

lemma united_above_after:
  assumes a: "ok (Node la na ra)" "all_good (Node la na ra)" and b: "ok (Node lb nb rb)" "all_good (Node lb nb rb)"
    and top: "mor (key na) (key nb)" "key na \<noteq> key nb" "\<not> gor (key nb) (key na)"
    and s: "united ra (Node Leaf nb rb) s"
    and c: "ok (Node la na s) \<Longrightarrow> all_good (Node la na s) \<Longrightarrow> united (Node la na s) lb c"
  shows "united (Node la na ra) (Node lb nb rb) c"
proof -
  have ab: "above na nb"
    using top by (auto simp: strictly_def)
  have bf: "before na nb"
    using top(3) by (rule not_before)
  have rb: "before na x \<and> above na x" if "x \<in> set_tree (Node Leaf nb rb)" for x
    using that b(1) ab bf before_trans [of na nb x] above_trans [of na nb x] by auto
  then have "before na x \<and> above na x" if "x \<in> set_tree s" for x
    using that s a(1) by (auto simp: override_def)
  then have ok: "ok (Node la na s)"
    using s a(1) by simp
  have good: "all_good (Node la na s)"
    using s a(2) b(2) by (auto simp: override_def)
  note c = c [OF ok good]
  have "set_tree c = override key (set_tree (Node la na ra)) (set_tree (Node lb nb rb))"
  proof -
    have "key x \<noteq> key y" if "x \<in> insert na (set_tree la)" "y \<in> set_tree (Node Leaf nb rb)" for x y
      using that rb a(1) before_trans [of x na y] by (auto dest: before_key)
    moreover have "key x \<noteq> key y" if "x \<in> set_tree (Node Leaf nb rb)" "y \<in> set_tree lb" for x y
      using that b(1) before_trans [of y nb x] by (auto dest: before_key)
    ultimately show ?thesis
      using c s by (auto simp: override_def)
  qed
  moreover have "size c \<le> size (Node la na ra) + size (Node lb nb rb)"
    using c s by simp
  moreover have "uni (tree_noun (Node la na ra)) (tree_noun (Node lb nb rb)) = Inr (tree_noun c)"
    using uni_above_after [of na nb la ra lb rb] s c a(2) b(2) top by simp
  ultimately show ?thesis
    using c by blast
qed

lemma united_same:
  assumes a: "ok (Node la na ra)" "all_good (Node la na ra)" and b: "ok (Node lb nb rb)" "all_good (Node lb nb rb)"
    and k: "key na = key nb" and l: "united la lb l" and r: "united ra rb r"
  shows "united (Node la na ra) (Node lb nb rb) (Node l nb r)"
proof -
  have e: "strictly le key x na = strictly le key x nb" "strictly le key na x = strictly le key nb x" for le x
    using k by (simp_all add: strictly_def)
  have la: "\<forall>x \<in> set_tree la. before x nb \<and> above nb x" and ra: "\<forall>x \<in> set_tree ra. before nb x \<and> above nb x"
    using a(1) by (simp_all add: e)
  have "ok (Node l nb r)"
    using l r la ra b(1) by (auto simp: override_def)
  moreover have "set_tree (Node l nb r) = override key (set_tree (Node la na ra)) (set_tree (Node lb nb rb))"
  proof -
    have "key x \<noteq> key y" if "x \<in> set_tree la" "y \<in> insert nb (set_tree rb)" for x y
      using that la b(1) before_trans [of x nb y] by (auto dest: before_key)
    moreover have "key x \<noteq> key y" if "x \<in> set_tree ra" "y \<in> insert nb (set_tree lb)" for x y
      using that ra b(1) before_trans [of y nb x] by (auto dest: before_key)
    ultimately show ?thesis
      using l r k by (auto simp: override_def)
  qed
  ultimately show ?thesis
    using uni_same [of na nb la ra lb rb] a(2) b(2) k l r by simp
qed

lemma united_nul: "ok t \<Longrightarrow> \<exists>c. united Leaf t c" "ok t \<Longrightarrow> \<exists>c. united t Leaf c"
proof -
  assume t: "ok t"
  show "\<exists>c. united Leaf t c"
    by (rule exI [of _ t]) (use t uni_nul_left [of t] in \<open>simp add: override_def\<close>)
  show "\<exists>c. united t Leaf c"
    by (rule exI [of _ t]) (use t uni_nul_right [of t] in \<open>simp add: override_def\<close>)
qed

text \<open>The root of a child is below what its parent is below.\<close>

lemma child_below:
  "ok (Node l n r) \<Longrightarrow> above m n \<Longrightarrow> t = l \<or> t = r \<Longrightarrow> t \<noteq> Leaf \<Longrightarrow> above m (value t)"
  using above_trans [of m n "value t"] by (cases t) auto

lemma united_ex: "ok a \<Longrightarrow> ok b \<Longrightarrow> all_good a \<Longrightarrow> all_good b \<Longrightarrow> \<exists>c. united a b c"
proof (induction "(a, b)" arbitrary: a b rule: wf_induct_rule [OF wf_measures [of "[\<lambda>(a, b). size a + size b, lower]"]])
  case (1 a b)
  have ih: "\<exists>c. united a' b' c" if "size a' + size b' < size a + size b \<or>
      size a' + size b' \<le> size a + size b \<and> lower (a', b') < lower (a, b)"
      "ok a'" "ok b'" "all_good a'" "all_good b'" for a' b'
    using that by (intro 1(1)) auto
  show ?case
  proof (cases "a = Leaf \<or> b = Leaf")
    case True
    then show ?thesis
      using 1(2,3) united_nul by blast
  next
    case False
    then obtain la na ra lb nb rb where ab: "a = Node la na ra" "b = Node lb nb rb"
      by (metis tree.exhaust)
    note p = 1(2,4) [unfolded ab(1)] 1(3,5) [unfolded ab(2)]
    have below: "\<exists>c. united t (Node l nb r) c"
      if "above nb na" "t = la \<or> t = ra" "ok (Node l nb r)" "all_good (Node l nb r)"
        "size t + size (Node l nb r) \<le> size a + size b" for t l r
    proof (cases "t = Leaf")
      case False
      then have "\<not> mor (key (value t)) (key nb)" "\<not> mor (key na) (key nb)"
        using child_below [OF p(1) that(1,2)] that(1) p.antisym by (auto simp: strictly_def)
      with that p show ?thesis
        by (intro ih) (auto simp: ab)
    qed (use that united_nul in blast)
    have above: "\<exists>c. united (Node l na r) t c"
      if "above na nb" "t = lb \<or> t = rb" "ok (Node l na r)" "all_good (Node l na r)"
        "size (Node l na r) + size t \<le> size a + size b" for t l r
    proof (cases "t = Leaf")
      case False
      then have "mor (key na) (key (value t))" "mor (key na) (key nb)"
        using child_below [OF p(3) that(1,2)] that(1) by (auto simp: strictly_def)
      with that p show ?thesis
        by (intro ih) (auto simp: ab)
    qed (use that united_nul in blast)
    consider "key na = key nb"
      | "\<not> mor (key na) (key nb)" "gor (key na) (key nb)" | "\<not> mor (key na) (key nb)" "\<not> gor (key na) (key nb)"
      | "mor (key na) (key nb)" "key na \<noteq> key nb" "gor (key nb) (key na)"
      | "mor (key na) (key nb)" "key na \<noteq> key nb" "\<not> gor (key nb) (key na)"
      by blast
    then show ?thesis
    proof cases
      case 1
      obtain l r where "united la lb l" "united ra rb r"
        using ih [of la lb] ih [of ra rb] p by (auto simp: ab)
      then show ?thesis
        unfolding ab using united_same [OF p 1] by blast
    next
      case 2
      obtain s where s: "united (Node la na Leaf) lb s"
        using ih [of "Node la na Leaf" lb] p by (auto simp: ab)
      then have "\<exists>c. united ra (Node s nb rb) c" if "ok (Node s nb rb)" "all_good (Node s nb rb)"
        using that not_above [OF 2(1)] by (intro below) (auto simp: ab)
      then show ?thesis
        unfolding ab using united_below_before [OF p 2 s] by blast
    next
      case 3
      obtain s where s: "united (Node Leaf na ra) rb s"
        using ih [of "Node Leaf na ra" rb] p by (auto simp: ab)
      then have "\<exists>c. united la (Node lb nb s) c" if "ok (Node lb nb s)" "all_good (Node lb nb s)"
        using that not_above [OF 3(1)] by (intro below) (auto simp: ab)
      then show ?thesis
        unfolding ab using united_below_after [OF p 3 s] by blast
    next
      case 4
      obtain s where s: "united la (Node lb nb Leaf) s"
        using ih [of la "Node lb nb Leaf"] p by (auto simp: ab)
      then have "\<exists>c. united (Node s na ra) rb c" if "ok (Node s na ra)" "all_good (Node s na ra)"
        using that aboveI [OF 4(1,2)] by (intro above) (auto simp: ab)
      then show ?thesis
        unfolding ab using united_above_before [OF p 4 s] by blast
    next
      case 5
      obtain s where s: "united ra (Node Leaf nb rb) s"
        using ih [of ra "Node Leaf nb rb"] p by (auto simp: ab)
      then have "\<exists>c. united (Node la na s) lb c" if "ok (Node la na s)" "all_good (Node la na s)"
        using that aboveI [OF 5(1,2)] by (intro above) (auto simp: ab)
      then show ?thesis
        unfolding ab using united_above_after [OF p 5 s] by blast
    qed
  qed
qed

text \<open>Without common keys nothing is overridden.\<close>

lemma united_distinct:
  assumes "ok a" "ok b" "all_good a" "all_good b" and "\<And>x y. x \<in> set_tree a \<Longrightarrow> y \<in> set_tree b \<Longrightarrow> key x \<noteq> key y"
  obtains c where "uni (tree_noun a) (tree_noun b) = Inr (tree_noun c)" "ok c" "set_tree c = set_tree a \<union> set_tree b"
proof -
  obtain c where "united a b c"
    using united_ex [OF assms(1-4)] by blast
  moreover have "override key (set_tree a) (set_tree b) = set_tree a \<union> set_tree b"
    using assms(5) by (intro override_ahead) blast
  ultimately show ?thesis
    using that by blast
qed

end

end
