(* ===== verification/Jet_In.thy ===== *)
theory Jet_In
  imports Jet_Union
begin

text \<open>
  The set jets, \<^verbatim>\<open>pkg/noun/jets/d/in_*.c\<close>. Every function is given the hash \<open>murmur\<close> that the
  mugs are computed with. The functions with the prefix \<^verbatim>\<open>u3q\<close> take the nouns themselves, those
  with \<^verbatim>\<open>u3w\<close> a core with the arguments at the conventional axes, those with \<^verbatim>\<open>u3k\<close> differ from
  \<^verbatim>\<open>u3q\<close> in reference counts only and are the same functions here. Calling a gate is an argument
  \<open>slam\<close>, from the gate and the sample to the product.
\<close>

section \<open>Membership, insertion and deletion\<close>

function u3qdi_has :: "murmur \<Rightarrow> noun \<Rightarrow> noun \<Rightarrow> bool jet" where
  "u3qdi_has murmur a b =
     (if a = u3_nul then Inr False
      else on_ok (u3x_cell a) (\<lambda>(n_a, lr_a).
        if b = n_a then Inr True
        else if u3qc_gor murmur b n_a then on_ok (u3h lr_a) (\<lambda>l_a. u3qdi_has murmur l_a b)
        else on_ok (u3t lr_a) (\<lambda>r_a. u3qdi_has murmur r_a b)))"
  by pat_completeness auto
termination
  by (relation "measure (\<lambda>(murmur, a, b). size a)") (auto simp: access_Inr)

function u3qdi_put :: "murmur \<Rightarrow> noun \<Rightarrow> noun \<Rightarrow> noun jet" where
  "u3qdi_put murmur a b =
     (if a = u3_nul then Inr (u3nt b u3_nul u3_nul)
      else on_ok (u3x_cell a) (\<lambda>(n_a, lr_a).
        if n_a = b then Inr a
        else on_ok (u3x_cell lr_a) (\<lambda>(l_a, r_a).
          if u3qc_gor murmur b n_a then
            on_ok (u3qdi_put murmur l_a b) (\<lambda>c. on_ok (u3h c) (\<lambda>hed.
              if u3qc_mor murmur n_a hed then Inr (u3nt n_a c r_a)
              else on_ok (trel_unchecked c) (\<lambda>(n_c, l_c, r_c). Inr (u3nt n_c l_c (u3nt n_a r_c r_a)))))
          else
            on_ok (u3qdi_put murmur r_a b) (\<lambda>c. on_ok (u3h c) (\<lambda>hed.
              if u3qc_mor murmur n_a hed then Inr (u3nt n_a l_a c)
              else on_ok (trel_unchecked c) (\<lambda>(n_c, l_c, r_c). Inr (u3nt n_c (u3nt n_a l_a l_c) r_c)))))))"
  by pat_completeness auto
termination
  by (relation "measure (\<lambda>(murmur, a, b). size a)") (auto simp: access_Inr)

function in_rebalance :: "murmur \<Rightarrow> noun \<Rightarrow> noun jet" where
  "in_rebalance murmur a =
     on_ok (u3x_trel a) (\<lambda>(n_a, l_a, r_a).
       if l_a = u3_nul then Inr r_a
       else if r_a = u3_nul then Inr l_a
       else on_ok (u3x_trel l_a) (\<lambda>(n_l_a, l_l_a, r_l_a). on_ok (u3x_trel r_a) (\<lambda>(n_r_a, l_r_a, r_r_a).
         if u3qc_mor murmur n_l_a n_r_a then
           on_ok (in_rebalance murmur (u3nt n_a r_l_a r_a)) (\<lambda>x. Inr (u3nt n_l_a l_l_a x))
         else
           on_ok (in_rebalance murmur (u3nt n_a l_a l_r_a)) (\<lambda>x. Inr (u3nt n_r_a x r_r_a)))))"
  by pat_completeness auto
termination
  by (relation "measure (\<lambda>(murmur, a). size a)") (auto simp: access_Inr)

function u3qdi_del :: "murmur \<Rightarrow> noun \<Rightarrow> noun \<Rightarrow> noun jet" where
  "u3qdi_del murmur a b =
     (if a = u3_nul then Inr u3_nul
      else on_ok (u3x_trel a) (\<lambda>(n_a, l_a, r_a).
        if n_a = b then in_rebalance murmur a
        else if u3qc_gor murmur b n_a then on_ok (u3qdi_del murmur l_a b) (\<lambda>x. Inr (u3nt n_a x r_a))
        else on_ok (u3qdi_del murmur r_a b) (\<lambda>x. Inr (u3nt n_a l_a x))))"
  by pat_completeness auto
termination
  by (relation "measure (\<lambda>(murmur, a, b). size a)") (auto simp: access_Inr)

declare u3qdi_has.simps [simp del] u3qdi_put.simps [simp del] in_rebalance.simps [simp del] u3qdi_del.simps [simp del]

section \<open>Union\<close>

function in_uni :: "murmur \<Rightarrow> noun \<Rightarrow> noun \<Rightarrow> noun jet" where
  "in_uni murmur a b =
     (if a = u3_nul then Inr b
      else if b = u3_nul then Inr a
      else on_ok (u3x_trel a) (\<lambda>(n_a, l_a, r_a). on_ok (u3x_trel b) (\<lambda>(n_b, l_b, r_b).
        if \<not> u3qc_mor murmur n_a n_b then
          if n_a = n_b then
            on_ok (in_uni murmur l_a l_b) (\<lambda>l. on_ok (in_uni murmur r_a r_b) (\<lambda>r. Inr (u3nt n_b l r)))
          else if u3qc_gor murmur n_a n_b then
            on_ok (in_uni murmur (u3nt n_a l_a u3_nul) l_b) (\<lambda>sub. in_uni murmur r_a (u3nt n_b sub r_b))
          else
            on_ok (in_uni murmur (u3nt n_a u3_nul r_a) r_b) (\<lambda>sub. in_uni murmur l_a (u3nt n_b l_b sub))
        else if n_b = n_a then
          on_ok (in_uni murmur l_a l_b) (\<lambda>l. on_ok (in_uni murmur r_a r_b) (\<lambda>r. Inr (u3nt n_b l r)))
        else if u3qc_gor murmur n_b n_a then
          on_ok (in_uni murmur l_a (u3nt n_b l_b u3_nul)) (\<lambda>sub. in_uni murmur (u3nt n_a sub r_a) r_b)
        else
          on_ok (in_uni murmur r_a (u3nt n_b u3_nul r_b)) (\<lambda>sub. in_uni murmur (u3nt n_a l_a sub) l_b))))"
  by pat_completeness auto

lemma in_uni_nodes: "in_uni_dom (murmur, a, b) \<Longrightarrow> in_uni murmur a b = Inr c \<Longrightarrow> fewer c a b"
proof (induction murmur a b arbitrary: c rule: in_uni.pinduct)
  case (1 murmur a b)
  note dom = 1(1) and eq = 1(14) [unfolded in_uni.psimps [OF 1(1)]]
  show ?case
  proof (cases "a = u3_nul \<or> b = u3_nul")
    case True
    then show ?thesis
      using eq by (auto split: if_splits)
  next
    case False
    then have ne: "a \<noteq> u3_nul" "b \<noteq> u3_nul"
      by simp_all
    then obtain na la ra nb lb rb where t: "u3x_trel a = Inr (na, la, ra)" "u3x_trel b = Inr (nb, lb, rb)"
      using eq by (auto simp: on_ok_eq_Inr)
    then have ab: "a = u3nt na la ra" "b = u3nt nb lb rb"
      by (simp_all add: u3x_trel_Inr)
    note ih = 1(2-13) [OF ne t(1) refl refl t(2) refl refl]
      and eq = eq [unfolded if_not_P [OF ne(1)] if_not_P [OF ne(2)] t on_ok_simps prod.case]
    consider (same) "na = nb" | (bb) "na \<noteq> nb" "\<not> u3qc_mor murmur na nb" "u3qc_gor murmur na nb"
      | (ba) "na \<noteq> nb" "\<not> u3qc_mor murmur na nb" "\<not> u3qc_gor murmur na nb"
      | (ab) "na \<noteq> nb" "u3qc_mor murmur na nb" "u3qc_gor murmur nb na"
      | (aa) "na \<noteq> nb" "u3qc_mor murmur na nb" "\<not> u3qc_gor murmur nb na"
      by blast
    then show ?thesis
    proof cases
      case same
      then obtain l r where "in_uni murmur la lb = Inr l" "in_uni murmur ra rb = Inr r" "c = u3nt nb l r"
        using eq by (auto simp: on_ok_eq_Inr mor.refl)
      moreover have "u3qc_mor murmur na nb" "nb = na"
        using same mor.refl by simp_all
      ultimately show ?thesis
        unfolding ab using ih(7) [of l] ih(8) [of l r] fewer_branches(1) by blast
    next
      case bb
      then obtain s where "in_uni murmur (u3nt na la u3_nul) lb = Inr s" "in_uni murmur ra (u3nt nb s rb) = Inr c"
        using eq by (auto simp: on_ok_eq_Inr)
      with bb show ?thesis
        unfolding ab using ih(3) [of s] ih(4) [of s c] fewer_branches(2) by blast
    next
      case ba
      then obtain s where "in_uni murmur (u3nt na u3_nul ra) rb = Inr s" "in_uni murmur la (u3nt nb lb s) = Inr c"
        using eq by (auto simp: on_ok_eq_Inr)
      with ba show ?thesis
        unfolding ab using ih(5) [of s] ih(6) [of s c] fewer_branches(3) by blast
    next
      case ab: ab
      then obtain s where "in_uni murmur la (u3nt nb lb u3_nul) = Inr s" "in_uni murmur (u3nt na s ra) rb = Inr c"
        using eq by (auto simp: on_ok_eq_Inr)
      with ab show ?thesis
        unfolding \<open>a = _\<close> \<open>b = _\<close> using ih(9) [of s] ih(10) [of s c] fewer_branches(4) by blast
    next
      case aa
      then obtain s where "in_uni murmur ra (u3nt nb u3_nul rb) = Inr s" "in_uni murmur (u3nt na la s) lb = Inr c"
        using eq by (auto simp: on_ok_eq_Inr)
      with aa show ?thesis
        unfolding ab using ih(11) [of s] ih(12) [of s c] fewer_branches(5) by blast
    qed
  qed
qed

interpretation in_order: noun_treap "u3qc_gor murmur" "u3qc_mor murmur" self for murmur ..

termination in_uni
proof (relation "same_fst (\<lambda>_. True) (\<lambda>murmur. uni_rel (u3qc_mor murmur) self)", goal_cases)
  case 1
  then show ?case by (simp add: wf_same_fst)
next
  case 5 then show ?case
    by (auto simp: access_Inr same_fst_def self_def intro!: in_order.uni_rel_second(1) dest!: in_uni_nodes)
next
  case 7 then show ?case
    by (auto simp: access_Inr same_fst_def self_def intro!: in_order.uni_rel_second(2) dest!: in_uni_nodes)
next
  case 11 then show ?case
    by (auto simp: access_Inr same_fst_def self_def intro!: in_order.uni_rel_second(3) dest!: in_uni_nodes)
next
  case 13 then show ?case
    by (auto simp: access_Inr same_fst_def self_def intro!: in_order.uni_rel_second(4) dest!: in_uni_nodes)
qed (auto simp: access_Inr same_fst_def intro!: uni_rel_size)

declare in_uni.simps [simp del]

definition u3qdi_uni :: "murmur \<Rightarrow> noun \<Rightarrow> noun \<Rightarrow> noun jet" where
  "u3qdi_uni murmur a b = (if a = b then Inr a else in_uni murmur a b)"

section \<open>Intersection and difference\<close>

text \<open>The roots are compared, and the arguments swapped, before the children are read.\<close>

function u3qdi_int :: "murmur \<Rightarrow> noun \<Rightarrow> noun \<Rightarrow> noun jet" where
  "u3qdi_int murmur a b =
     (if a = u3_nul \<or> b = u3_nul then Inr u3_nul
      else on_ok (u3x_cell a) (\<lambda>(n_a, lr_a). on_ok (u3x_cell b) (\<lambda>(n_b, lr_b).
        case (if u3qc_mor murmur n_a n_b then (b, n_b, lr_b, a, n_a, lr_a) else (a, n_a, lr_a, b, n_b, lr_b)) of
          (a', n_a, lr_a, b', n_b, lr_b) \<Rightarrow>
        on_ok (u3x_cell lr_a) (\<lambda>(l_a, r_a). on_ok (u3x_cell lr_b) (\<lambda>(l_b, r_b).
          if n_b = n_a then
            on_ok (u3qdi_int murmur l_a l_b) (\<lambda>l. on_ok (u3qdi_int murmur r_a r_b) (\<lambda>r. Inr (u3nt n_a l r)))
          else if u3qc_gor murmur n_b n_a then
            on_ok (u3qdi_int murmur l_a (u3nt n_b l_b u3_nul)) (\<lambda>new_a.
              on_ok (u3qdi_int murmur a' r_b) (\<lambda>x. u3qdi_uni murmur new_a x))
          else
            on_ok (u3qdi_int murmur r_a (u3nt n_b u3_nul r_b)) (\<lambda>new_a.
              on_ok (u3qdi_int murmur a' l_b) (\<lambda>x. u3qdi_uni murmur new_a x)))))))"
  by pat_completeness auto
termination
  by (relation "measure (\<lambda>(murmur, a, b). size a + size b)") (auto simp: access_Inr u3_nul_def split: if_splits)

function i_bif_putroot :: "murmur \<Rightarrow> noun \<Rightarrow> noun \<Rightarrow> noun jet" where
  "i_bif_putroot murmur a b =
     (if a = u3_nul then Inr (u3nt b u3_nul u3_nul)
      else on_ok (u3x_cell a) (\<lambda>(n_a, lr_a).
        if b = n_a then Inr a
        else on_ok (u3x_cell lr_a) (\<lambda>(l_a, r_a).
          if u3qc_gor murmur b n_a then
            on_ok (i_bif_putroot murmur l_a b) (\<lambda>c. on_ok (trel_unchecked c) (\<lambda>(n_c, l_c, r_c).
              Inr (u3nt n_c l_c (u3nt n_a r_c r_a))))
          else
            on_ok (i_bif_putroot murmur r_a b) (\<lambda>c. on_ok (trel_unchecked c) (\<lambda>(n_c, l_c, r_c).
              Inr (u3nt n_c (u3nt n_a l_a l_c) r_c))))))"
  by pat_completeness auto
termination
  by (relation "measure (\<lambda>(murmur, a, b). size a)") (auto simp: access_Inr)

definition u3qdi_bif :: "murmur \<Rightarrow> noun \<Rightarrow> noun \<Rightarrow> noun jet" where
  "u3qdi_bif murmur a b =
     on_ok (i_bif_putroot murmur a b) (\<lambda>c. on_ok (trel_unchecked c) (\<lambda>(n_c, l_c, r_c). Inr (u3nc l_c r_c)))"

function i_dif_join :: "murmur \<Rightarrow> noun \<Rightarrow> noun \<Rightarrow> noun jet" where
  "i_dif_join murmur d e =
     (if d = u3_nul then Inr e
      else if e = u3_nul then Inr d
      else on_ok (u3x_cell d) (\<lambda>(n_d, lr_d). on_ok (u3x_cell e) (\<lambda>(n_e, lr_e).
        if u3qc_mor murmur n_d n_e then
          on_ok (u3x_cell lr_d) (\<lambda>(l_d, r_d). on_ok (i_dif_join murmur r_d e) (\<lambda>x. Inr (u3nt n_d l_d x)))
        else
          on_ok (u3x_cell lr_e) (\<lambda>(l_e, r_e). on_ok (i_dif_join murmur d l_e) (\<lambda>x. Inr (u3nt n_e x r_e))))))"
  by pat_completeness auto
termination
  by (relation "measure (\<lambda>(murmur, d, e). size d + size e)") (auto simp: access_Inr)

function u3qdi_dif :: "murmur \<Rightarrow> noun \<Rightarrow> noun \<Rightarrow> noun jet" where
  "u3qdi_dif murmur a b =
     (if b = u3_nul then Inr a
      else on_ok (u3x_trel b) (\<lambda>(n_b, l_b, r_b). on_ok (u3qdi_bif murmur a n_b) (\<lambda>c.
        on_ok (u3x_cell c) (\<lambda>(l_c, r_c). on_ok (u3qdi_dif murmur l_c l_b) (\<lambda>d.
          on_ok (u3qdi_dif murmur r_c r_b) (\<lambda>e. i_dif_join murmur d e))))))"
  by pat_completeness auto
termination
  by (relation "measure (\<lambda>(murmur, a, b). size b)") (auto simp: access_Inr)

declare u3qdi_int.simps [simp del] i_bif_putroot.simps [simp del] i_dif_join.simps [simp del] u3qdi_dif.simps [simp del]

section \<open>Lists, checks and gates\<close>

function u3qdi_gas :: "murmur \<Rightarrow> noun \<Rightarrow> noun \<Rightarrow> noun jet" where
  "u3qdi_gas murmur a b =
     (if b = u3_nul then Inr a
      else on_ok (u3x_cell b) (\<lambda>(i_b, t_b).
        on_ok (u3qdi_put murmur a i_b) (\<lambda>c. u3qdi_gas murmur c t_b)))"
  by pat_completeness auto
termination
  by (relation "measure (\<lambda>(murmur, a, b). size b)") (auto simp: access_Inr)

function tap_in :: "noun \<Rightarrow> noun \<Rightarrow> noun jet" where
  "tap_in a b =
     (if a = u3_nul then Inr b
      else on_ok (u3x_trel a) (\<lambda>(n_a, l_a, r_a). on_ok (tap_in l_a b) (\<lambda>x. tap_in r_a (u3nc n_a x))))"
  by pat_completeness auto
termination
  by (relation "measure (\<lambda>(a, b). size a)") (auto simp: access_Inr)

definition u3qdi_tap :: "noun \<Rightarrow> noun jet" where
  "u3qdi_tap a = tap_in a u3_nul"

text \<open>The count is a 32-bit word.\<close>

function wyt_in :: "noun \<Rightarrow> u32 jet" where
  "wyt_in a =
     (if a = u3_nul then Inr 0
      else on_ok (u3x_trel a) (\<lambda>(n_a, l_a, r_a).
        on_ok (wyt_in l_a) (\<lambda>x. on_ok (wyt_in r_a) (\<lambda>y. Inr (1 + x + y)))))"
  by pat_completeness auto
termination
  by (relation "measure size") (auto simp: access_Inr)

definition u3qdi_wyt :: "noun \<Rightarrow> noun jet" where
  "u3qdi_wyt a = on_ok (wyt_in a) (\<lambda>w. Inr (Atom (unat w)))"

text \<open>A bound that is absent is \<^verbatim>\<open>u3_none\<close>.\<close>

function in_apt :: "murmur \<Rightarrow> noun \<Rightarrow> noun option \<Rightarrow> noun option \<Rightarrow> bool jet" where
  "in_apt murmur a l r =
     (if a = u3_nul then Inr True
      else on_ok (u3x_trel a) (\<lambda>(n_a, l_a, r_a).
        if l \<noteq> None \<and> \<not> u3qc_gor murmur n_a (the l) then Inr False
        else if r \<noteq> None \<and> \<not> u3qc_gor murmur (the r) n_a then Inr False
        else on_ok
          (if l_a \<noteq> u3_nul
           then on_ok (u3h l_a) (\<lambda>n_l_a. if \<not> u3qc_mor murmur n_a n_l_a then Inr False else in_apt murmur l_a (Some n_a) r)
           else Inr True)
          (\<lambda>lef. if \<not> lef then Inr False
            else if r_a \<noteq> u3_nul
            then on_ok (u3h r_a) (\<lambda>n_r_a. if \<not> u3qc_mor murmur n_a n_r_a then Inr False else in_apt murmur r_a l (Some n_a))
            else Inr True)))"
  by pat_completeness auto
termination
  by (relation "measure (\<lambda>(murmur, a, l, r). size a)") (auto simp: access_Inr)

definition u3qdi_apt :: "murmur \<Rightarrow> noun \<Rightarrow> bool jet" where
  "u3qdi_apt murmur a = in_apt murmur a None None"

function in_rep :: "(noun \<Rightarrow> noun jet) \<Rightarrow> noun \<Rightarrow> noun \<Rightarrow> noun jet" where
  "in_rep sit a out =
     (if a = u3_nul then Inr out
      else on_ok (u3x_trel a) (\<lambda>(n_a, l_a, r_a). on_ok (sit (u3nc n_a out)) (\<lambda>out.
        on_ok (in_rep sit l_a out) (\<lambda>out. in_rep sit r_a out))))"
  by pat_completeness auto
termination
  by (relation "measure (\<lambda>(sit, a, out). size a)") (auto simp: access_Inr)

text \<open>The accumulator starts as the second half of the gate's own sample.\<close>

definition u3qdi_rep :: "(noun \<Rightarrow> noun \<Rightarrow> noun jet) \<Rightarrow> noun \<Rightarrow> noun \<Rightarrow> noun jet" where
  "u3qdi_rep slam a b = on_ok (u3x_at (Atom 13) b) (\<lambda>out. in_rep (slam b) a out)"

function in_run :: "murmur \<Rightarrow> (noun \<Rightarrow> noun jet) \<Rightarrow> noun \<Rightarrow> noun \<Rightarrow> noun jet" where
  "in_run murmur sit a out =
     (if a = u3_nul then Inr out
      else on_ok (u3x_trel a) (\<lambda>(n_a, l_a, r_a). on_ok (sit n_a) (\<lambda>new. on_ok (u3qdi_put murmur out new) (\<lambda>out.
        on_ok (in_run murmur sit l_a out) (\<lambda>out. in_run murmur sit r_a out)))))"
  by pat_completeness auto
termination
  by (relation "measure (\<lambda>(murmur, sit, a, out). size a)") (auto simp: access_Inr)

definition u3qdi_run :: "murmur \<Rightarrow> (noun \<Rightarrow> noun \<Rightarrow> noun jet) \<Rightarrow> noun \<Rightarrow> noun \<Rightarrow> noun jet" where
  "u3qdi_run murmur slam a b = in_run murmur (slam b) a u3_nul"

declare u3qdi_gas.simps [simp del] tap_in.simps [simp del] wyt_in.simps [simp del] in_apt.simps [simp del]
  in_rep.simps [simp del] in_run.simps [simp del]

section \<open>Calls with a core\<close>

definition u3wdi_has :: "murmur \<Rightarrow> noun \<Rightarrow> noun jet" where
  "u3wdi_has murmur cor = on_ok (u3x_mean cor [6, 30]) (\<lambda>xs. on_ok (u3qdi_has murmur (xs ! 1) (xs ! 0)) (\<lambda>b. Inr (loob b)))"

definition u3wdi_put :: "murmur \<Rightarrow> noun \<Rightarrow> noun jet" where
  "u3wdi_put murmur cor = on_ok (u3x_mean cor [6, 30]) (\<lambda>xs. u3qdi_put murmur (xs ! 1) (xs ! 0))"

definition u3wdi_del :: "murmur \<Rightarrow> noun \<Rightarrow> noun jet" where
  "u3wdi_del murmur cor = on_ok (u3x_mean cor [6, 30]) (\<lambda>xs. u3qdi_del murmur (xs ! 1) (xs ! 0))"

definition u3wdi_uni :: "murmur \<Rightarrow> noun \<Rightarrow> noun jet" where
  "u3wdi_uni murmur cor = on_ok (u3x_mean cor [6, 30]) (\<lambda>xs. u3qdi_uni murmur (xs ! 1) (xs ! 0))"

definition u3wdi_int :: "murmur \<Rightarrow> noun \<Rightarrow> noun jet" where
  "u3wdi_int murmur cor = on_ok (u3x_mean cor [6, 30]) (\<lambda>xs. u3qdi_int murmur (xs ! 1) (xs ! 0))"

definition u3wdi_dif :: "murmur \<Rightarrow> noun \<Rightarrow> noun jet" where
  "u3wdi_dif murmur cor = on_ok (u3x_mean cor [6, 30]) (\<lambda>xs. u3qdi_dif murmur (xs ! 1) (xs ! 0))"

definition u3wdi_bif :: "murmur \<Rightarrow> noun \<Rightarrow> noun jet" where
  "u3wdi_bif murmur cor = on_ok (u3x_mean cor [6, 30]) (\<lambda>xs. u3qdi_bif murmur (xs ! 1) (xs ! 0))"

definition u3wdi_gas :: "murmur \<Rightarrow> noun \<Rightarrow> noun jet" where
  "u3wdi_gas murmur cor = on_ok (u3x_mean cor [6, 30]) (\<lambda>xs. u3qdi_gas murmur (xs ! 1) (xs ! 0))"

definition u3wdi_rep :: "(noun \<Rightarrow> noun \<Rightarrow> noun jet) \<Rightarrow> noun \<Rightarrow> noun jet" where
  "u3wdi_rep slam cor = on_ok (u3x_mean cor [6, 30]) (\<lambda>xs. u3qdi_rep slam (xs ! 1) (xs ! 0))"

definition u3wdi_run :: "murmur \<Rightarrow> (noun \<Rightarrow> noun \<Rightarrow> noun jet) \<Rightarrow> noun \<Rightarrow> noun jet" where
  "u3wdi_run murmur slam cor = on_ok (u3x_mean cor [6, 30]) (\<lambda>xs. u3qdi_run murmur slam (xs ! 1) (xs ! 0))"

definition u3wdi_apt :: "murmur \<Rightarrow> noun \<Rightarrow> noun jet" where
  "u3wdi_apt murmur cor = on_ok (u3x_at (Atom 30) cor) (\<lambda>a. on_ok (u3qdi_apt murmur a) (\<lambda>b. Inr (loob b)))"

definition u3wdi_tap :: "noun \<Rightarrow> noun jet" where
  "u3wdi_tap cor = on_ok (u3x_mean cor [30]) (\<lambda>xs. u3qdi_tap (xs ! 0))"

text \<open>The core of \<^verbatim>\<open>wyt\<close> has no sample of its own: the set is at axis 14.\<close>

definition u3wdi_wyt :: "noun \<Rightarrow> noun jet" where
  "u3wdi_wyt cor = on_ok (u3x_at (Atom 14) cor) u3qdi_wyt"

end
