(* ===== verification/Jet_By.thy ===== *)
theory Jet_By
  imports Jet_In
begin

text \<open>
  The map jets, \<^verbatim>\<open>pkg/noun/jets/d/by_*.c\<close>. A map is a tree of pairs of a key and a value, ordered
  by the keys. As for sets, \<open>slam\<close> stands for the call of a gate.
\<close>

section \<open>Lookup, insertion and deletion\<close>

function u3qdb_get :: "murmur \<Rightarrow> noun \<Rightarrow> noun \<Rightarrow> noun jet" where
  "u3qdb_get murmur a b =
     (if a = u3_nul then Inr u3_nul
      else on_ok (u3x_cell a) (\<lambda>(n_a, lr_a). on_ok (u3x_cell n_a) (\<lambda>(pn_a, qn_a).
        if b = pn_a then Inr (u3nc u3_nul qn_a)
        else if u3qc_gor murmur b pn_a then on_ok (u3h lr_a) (\<lambda>l_a. u3qdb_get murmur l_a b)
        else on_ok (u3t lr_a) (\<lambda>r_a. u3qdb_get murmur r_a b))))"
  by pat_completeness auto
termination
  by (relation "measure (\<lambda>(murmur, a, b). size a)") (auto simp: access_Inr)

text \<open>The value itself, or \<^verbatim>\<open>u3_none\<close>.\<close>

definition u3kdb_get :: "murmur \<Rightarrow> noun \<Rightarrow> noun \<Rightarrow> noun option jet" where
  "u3kdb_get murmur a b = on_ok (u3qdb_get murmur a b) (\<lambda>c.
     if \<not> u3a_is_cell c then Inr None else on_ok (u3t c) (\<lambda>pro. Inr (Some pro)))"

definition u3kdb_got :: "murmur \<Rightarrow> noun \<Rightarrow> noun \<Rightarrow> noun jet" where
  "u3kdb_got murmur a b = on_ok (u3kdb_get murmur a b) u3x_good"

function u3qdb_has :: "murmur \<Rightarrow> noun \<Rightarrow> noun \<Rightarrow> bool jet" where
  "u3qdb_has murmur a b =
     (if a = u3_nul then Inr False
      else on_ok (u3x_cell a) (\<lambda>(n_a, lr_a). on_ok (u3x_cell n_a) (\<lambda>(pn_a, qn_a).
        if b = pn_a then Inr True
        else if u3qc_gor murmur b pn_a then on_ok (u3h lr_a) (\<lambda>l_a. u3qdb_has murmur l_a b)
        else on_ok (u3t lr_a) (\<lambda>r_a. u3qdb_has murmur r_a b))))"
  by pat_completeness auto
termination
  by (relation "measure (\<lambda>(murmur, a, b). size a)") (auto simp: access_Inr)

function u3qdb_put :: "murmur \<Rightarrow> noun \<Rightarrow> noun \<Rightarrow> noun \<Rightarrow> noun jet" where
  "u3qdb_put murmur a b c =
     (if a = u3_nul then Inr (u3nt (u3nc b c) u3_nul u3_nul)
      else on_ok (u3x_trel a) (\<lambda>(n_a, l_a, r_a). on_ok (u3x_cell n_a) (\<lambda>(pn_a, qn_a).
        if pn_a = b then (if qn_a = c then Inr a else Inr (u3nt (u3nc b c) l_a r_a))
        else if u3qc_gor murmur b pn_a then
          on_ok (u3qdb_put murmur l_a b c) (\<lambda>d. on_ok (u3h d) (\<lambda>hed. on_ok (u3h hed) (\<lambda>hed.
            if u3qc_mor murmur pn_a hed then Inr (u3nt n_a d r_a)
            else on_ok (trel_unchecked d) (\<lambda>(n_d, l_d, r_d). Inr (u3nt n_d l_d (u3nt n_a r_d r_a))))))
        else
          on_ok (u3qdb_put murmur r_a b c) (\<lambda>d. on_ok (u3h d) (\<lambda>hed. on_ok (u3h hed) (\<lambda>hed.
            if u3qc_mor murmur pn_a hed then Inr (u3nt n_a l_a d)
            else on_ok (trel_unchecked d) (\<lambda>(n_d, l_d, r_d). Inr (u3nt n_d (u3nt n_a l_a l_d) r_d))))))))"
  by pat_completeness auto
termination
  by (relation "measure (\<lambda>(murmur, a, b, c). size a)") (auto simp: access_Inr)

function by_rebalance :: "murmur \<Rightarrow> noun \<Rightarrow> noun jet" where
  "by_rebalance murmur a =
     on_ok (u3x_trel a) (\<lambda>(n_a, l_a, r_a).
       if l_a = u3_nul then Inr r_a
       else if r_a = u3_nul then Inr l_a
       else on_ok (u3x_trel l_a) (\<lambda>(n_l_a, l_l_a, r_l_a). on_ok (u3x_trel r_a) (\<lambda>(n_r_a, l_r_a, r_r_a).
         on_ok (u3h n_l_a) (\<lambda>p_l. on_ok (u3h n_r_a) (\<lambda>p_r.
           if u3qc_mor murmur p_l p_r then
             on_ok (by_rebalance murmur (u3nt n_a r_l_a r_a)) (\<lambda>x. Inr (u3nt n_l_a l_l_a x))
           else
             on_ok (by_rebalance murmur (u3nt n_a l_a l_r_a)) (\<lambda>x. Inr (u3nt n_r_a x r_r_a)))))))"
  by pat_completeness auto
termination
  by (relation "measure (\<lambda>(murmur, a). size a)") (auto simp: access_Inr)

function u3qdb_del :: "murmur \<Rightarrow> noun \<Rightarrow> noun \<Rightarrow> noun jet" where
  "u3qdb_del murmur a b =
     (if a = u3_nul then Inr u3_nul
      else on_ok (u3x_cell a) (\<lambda>(n_a, lr_a). on_ok (u3x_cell n_a) (\<lambda>(pn_a, qn_a).
        if pn_a = b then by_rebalance murmur a
        else on_ok (u3x_cell lr_a) (\<lambda>(l_a, r_a).
          if u3qc_gor murmur b pn_a then on_ok (u3qdb_del murmur l_a b) (\<lambda>x. Inr (u3nt n_a x r_a))
          else on_ok (u3qdb_del murmur r_a b) (\<lambda>x. Inr (u3nt n_a l_a x))))))"
  by pat_completeness auto
termination
  by (relation "measure (\<lambda>(murmur, a, b). size a)") (auto simp: access_Inr)

text \<open>The value at a key is replaced by what the gate makes of it; an absent key bails.\<close>

function u3qdb_jab :: "murmur \<Rightarrow> (noun \<Rightarrow> noun \<Rightarrow> noun jet) \<Rightarrow> noun \<Rightarrow> noun \<Rightarrow> noun \<Rightarrow> noun jet" where
  "u3qdb_jab murmur slam a key gat =
     (if a = u3_nul then Inl Exit
      else on_ok (u3x_cell a) (\<lambda>(n_a, lr_a). on_ok (u3x_cell n_a) (\<lambda>(pn_a, qn_a).
        if key = pn_a then
          on_ok (slam gat qn_a) (\<lambda>val. on_ok (u3t a) (\<lambda>tel. Inr (u3nc (u3nc pn_a val) tel)))
        else on_ok (u3x_cell lr_a) (\<lambda>(l_a, r_a).
          if u3qc_gor murmur key pn_a then on_ok (u3qdb_jab murmur slam l_a key gat) (\<lambda>x. Inr (u3nt n_a x r_a))
          else on_ok (u3qdb_jab murmur slam r_a key gat) (\<lambda>x. Inr (u3nt n_a l_a x))))))"
  by pat_completeness auto
termination
  by (relation "measure (\<lambda>(murmur, slam, a, key, gat). size a)") (auto simp: access_Inr)

declare u3qdb_get.simps [simp del] u3qdb_has.simps [simp del] u3qdb_put.simps [simp del] by_rebalance.simps [simp del]
  u3qdb_del.simps [simp del] u3qdb_jab.simps [simp del]

section \<open>Union\<close>

function u3qdb_uni :: "murmur \<Rightarrow> noun \<Rightarrow> noun \<Rightarrow> noun jet" where
  "u3qdb_uni murmur a b =
     (if b = u3_nul then Inr a
      else if a = u3_nul then Inr b
      else on_ok (u3x_trel a) (\<lambda>(n_a, l_a, r_a). on_ok (u3x_trel b) (\<lambda>(n_b, l_b, r_b).
        on_ok (u3x_cell n_a) (\<lambda>(p_n_a, q_n_a). on_ok (u3x_cell n_b) (\<lambda>(p_n_b, q_n_b).
          if p_n_a = p_n_b then
            on_ok (u3qdb_uni murmur l_a l_b) (\<lambda>l. on_ok (u3qdb_uni murmur r_a r_b) (\<lambda>r. Inr (u3nt n_b l r)))
          else if u3qc_mor murmur p_n_a p_n_b then
            if u3qc_gor murmur p_n_b p_n_a then
              on_ok (u3qdb_uni murmur l_a (u3nt n_b l_b u3_nul)) (\<lambda>new_la. u3qdb_uni murmur (u3nt n_a new_la r_a) r_b)
            else
              on_ok (u3qdb_uni murmur r_a (u3nt n_b u3_nul r_b)) (\<lambda>new_ra. u3qdb_uni murmur (u3nt n_a l_a new_ra) l_b)
          else
            if u3qc_gor murmur p_n_a p_n_b then
              on_ok (u3qdb_uni murmur (u3nt n_a l_a u3_nul) l_b) (\<lambda>new_lb. u3qdb_uni murmur r_a (u3nt n_b new_lb r_b))
            else
              on_ok (u3qdb_uni murmur (u3nt n_a u3_nul r_a) r_b) (\<lambda>new_rb. u3qdb_uni murmur l_a (u3nt n_b l_b new_rb)))))))"
  by pat_completeness auto

lemma by_uni_nodes: "u3qdb_uni_dom (murmur, a, b) \<Longrightarrow> u3qdb_uni murmur a b = Inr c \<Longrightarrow> fewer c a b"
proof (induction murmur a b arbitrary: c rule: u3qdb_uni.pinduct)
  case (1 murmur a b)
  note dom = 1(1) and eq = 1(12) [unfolded u3qdb_uni.psimps [OF 1(1)]]
  show ?case
  proof (cases "b = u3_nul \<or> a = u3_nul")
    case True
    then show ?thesis
      using eq by (auto split: if_splits)
  next
    case False
    then have ne: "b \<noteq> u3_nul" "a \<noteq> u3_nul"
      by simp_all
    then obtain na la ra nb lb rb pa qa pb qb where t: "u3x_trel a = Inr (na, la, ra)" "u3x_trel b = Inr (nb, lb, rb)"
        "u3x_cell na = Inr (pa, qa)" "u3x_cell nb = Inr (pb, qb)"
      using eq by (auto simp: on_ok_eq_Inr)
    then have ab: "a = u3nt na la ra" "b = u3nt nb lb rb"
      by (simp_all add: u3x_trel_Inr)
    note ih = 1(2-11) [OF ne t(1) refl refl t(2) refl refl t(3) refl t(4) refl]
      and eq = eq [unfolded if_not_P [OF ne(1)] if_not_P [OF ne(2)] t on_ok_simps prod.case]
    consider (same) "pa = pb" | (ab) "pa \<noteq> pb" "u3qc_mor murmur pa pb" "u3qc_gor murmur pb pa"
      | (aa) "pa \<noteq> pb" "u3qc_mor murmur pa pb" "\<not> u3qc_gor murmur pb pa"
      | (bb) "pa \<noteq> pb" "\<not> u3qc_mor murmur pa pb" "u3qc_gor murmur pa pb"
      | (ba) "pa \<noteq> pb" "\<not> u3qc_mor murmur pa pb" "\<not> u3qc_gor murmur pa pb"
      by blast
    then show ?thesis
    proof cases
      case same
      then obtain l r where "u3qdb_uni murmur la lb = Inr l" "u3qdb_uni murmur ra rb = Inr r" "c = u3nt nb l r"
        using eq by (auto simp: on_ok_eq_Inr)
      with same show ?thesis
        unfolding ab using ih(1) [of l] ih(2) [of l r] fewer_branches(1) by blast
    next
      case ab: ab
      then obtain s where "u3qdb_uni murmur la (u3nt nb lb u3_nul) = Inr s" "u3qdb_uni murmur (u3nt na s ra) rb = Inr c"
        using eq by (auto simp: on_ok_eq_Inr)
      with ab show ?thesis
        unfolding \<open>a = _\<close> \<open>b = _\<close> using ih(3) [of s] ih(4) [of s c] fewer_branches(4) by blast
    next
      case aa
      then obtain s where "u3qdb_uni murmur ra (u3nt nb u3_nul rb) = Inr s" "u3qdb_uni murmur (u3nt na la s) lb = Inr c"
        using eq by (auto simp: on_ok_eq_Inr)
      with aa show ?thesis
        unfolding ab using ih(5) [of s] ih(6) [of s c] fewer_branches(5) by blast
    next
      case bb
      then obtain s where "u3qdb_uni murmur (u3nt na la u3_nul) lb = Inr s" "u3qdb_uni murmur ra (u3nt nb s rb) = Inr c"
        using eq by (auto simp: on_ok_eq_Inr)
      with bb show ?thesis
        unfolding ab using ih(7) [of s] ih(8) [of s c] fewer_branches(2) by blast
    next
      case ba
      then obtain s where "u3qdb_uni murmur (u3nt na u3_nul ra) rb = Inr s" "u3qdb_uni murmur la (u3nt nb lb s) = Inr c"
        using eq by (auto simp: on_ok_eq_Inr)
      with ba show ?thesis
        unfolding ab using ih(9) [of s] ih(10) [of s c] fewer_branches(3) by blast
    qed
  qed
qed

interpretation by_order: noun_treap "u3qc_gor murmur" "u3qc_mor murmur" nhead for murmur ..

termination u3qdb_uni
proof (relation "same_fst (\<lambda>_. True) (\<lambda>murmur. uni_rel (u3qc_mor murmur) nhead)", goal_cases)
  case 1
  then show ?case by (simp add: wf_same_fst)
next
  case 5 then show ?case
    by (auto simp: access_Inr same_fst_def intro!: by_order.uni_rel_second(3) dest!: by_uni_nodes)
next
  case 7 then show ?case
    by (auto simp: access_Inr same_fst_def intro!: by_order.uni_rel_second(4) dest!: by_uni_nodes)
next
  case 9 then show ?case
    by (auto simp: access_Inr same_fst_def intro!: by_order.uni_rel_second(1) dest!: by_uni_nodes)
next
  case 11 then show ?case
    by (auto simp: access_Inr same_fst_def intro!: by_order.uni_rel_second(2) dest!: by_uni_nodes)
qed (auto simp: access_Inr same_fst_def intro!: uni_rel_size)

declare u3qdb_uni.simps [simp del]

section \<open>Intersection and difference\<close>

function u3qdb_int :: "murmur \<Rightarrow> noun \<Rightarrow> noun \<Rightarrow> noun jet" where
  "u3qdb_int murmur a b =
     (if a = u3_nul \<or> b = u3_nul then Inr u3_nul
      else on_ok (u3x_trel a) (\<lambda>(n_a, l_a, r_a). on_ok (u3x_trel b) (\<lambda>(n_b, l_b, r_b).
        on_ok (u3x_cell n_a) (\<lambda>(p_n_a, q_n_a). on_ok (u3x_cell n_b) (\<lambda>(p_n_b, q_n_b).
          if u3qc_mor murmur p_n_a p_n_b then
            if p_n_b = p_n_a then
              on_ok (u3qdb_int murmur l_a l_b) (\<lambda>l. on_ok (u3qdb_int murmur r_a r_b) (\<lambda>r. Inr (u3nt n_b l r)))
            else if u3qc_gor murmur p_n_b p_n_a then
              on_ok (u3qdb_int murmur l_a (u3nt n_b l_b u3_nul)) (\<lambda>new_a.
                on_ok (u3qdb_int murmur a r_b) (\<lambda>x. u3qdb_uni murmur new_a x))
            else
              on_ok (u3qdb_int murmur r_a (u3nt n_b u3_nul r_b)) (\<lambda>new_a.
                on_ok (u3qdb_int murmur a l_b) (\<lambda>x. u3qdb_uni murmur new_a x))
          else if p_n_a = p_n_b then
            on_ok (u3qdb_int murmur l_a l_b) (\<lambda>l. on_ok (u3qdb_int murmur r_a r_b) (\<lambda>r. Inr (u3nt n_b l r)))
          else if u3qc_gor murmur p_n_a p_n_b then
            on_ok (u3qdb_int murmur (u3nt n_a l_a u3_nul) l_b) (\<lambda>new_a.
              on_ok (u3qdb_int murmur r_a b) (\<lambda>x. u3qdb_uni murmur new_a x))
          else
            on_ok (u3qdb_int murmur (u3nt n_a u3_nul r_a) r_b) (\<lambda>new_a.
              on_ok (u3qdb_int murmur l_a b) (\<lambda>x. u3qdb_uni murmur new_a x)))))))"
  by pat_completeness auto
termination
  by (relation "measure (\<lambda>(murmur, a, b). size a + size b)") (auto simp: access_Inr u3_nul_def)

function b_bif_putroot :: "murmur \<Rightarrow> noun \<Rightarrow> noun \<Rightarrow> noun jet" where
  "b_bif_putroot murmur a b =
     (if a = u3_nul then Inr (u3nt b u3_nul u3_nul)
      else on_ok (u3x_trel a) (\<lambda>(n_a, l_a, r_a). on_ok (u3x_cell b) (\<lambda>(p_b, q_b). on_ok (u3x_cell n_a) (\<lambda>(p_n_a, q_n_a).
        if p_b = p_n_a then Inr (u3nt b l_a r_a)
        else if u3qc_gor murmur p_b p_n_a then
          on_ok (b_bif_putroot murmur l_a b) (\<lambda>c. on_ok (trel_unchecked c) (\<lambda>(n_c, l_c, r_c).
            Inr (u3nt n_c l_c (u3nt n_a r_c r_a))))
        else
          on_ok (b_bif_putroot murmur r_a b) (\<lambda>c. on_ok (trel_unchecked c) (\<lambda>(n_c, l_c, r_c).
            Inr (u3nt n_c (u3nt n_a l_a l_c) r_c)))))))"
  by pat_completeness auto
termination
  by (relation "measure (\<lambda>(murmur, a, b). size a)") (auto simp: access_Inr)

definition u3qdb_bif :: "murmur \<Rightarrow> noun \<Rightarrow> noun \<Rightarrow> noun jet" where
  "u3qdb_bif murmur a b =
     on_ok (b_bif_putroot murmur a b) (\<lambda>c. on_ok (trel_unchecked c) (\<lambda>(n_c, l_c, r_c). Inr (u3nc l_c r_c)))"

function b_dif_join :: "murmur \<Rightarrow> noun \<Rightarrow> noun \<Rightarrow> noun jet" where
  "b_dif_join murmur d e =
     (if d = u3_nul then Inr e
      else if e = u3_nul then Inr d
      else on_ok (u3x_cell d) (\<lambda>(n_d, lr_d). on_ok (u3x_cell e) (\<lambda>(n_e, lr_e).
        on_ok (u3h n_d) (\<lambda>p_d. on_ok (u3h n_e) (\<lambda>p_e.
          if u3qc_mor murmur p_d p_e then
            on_ok (u3x_cell lr_d) (\<lambda>(l_d, r_d). on_ok (b_dif_join murmur r_d e) (\<lambda>x. Inr (u3nt n_d l_d x)))
          else
            on_ok (u3x_cell lr_e) (\<lambda>(l_e, r_e). on_ok (b_dif_join murmur d l_e) (\<lambda>x. Inr (u3nt n_e x r_e))))))))"
  by pat_completeness auto
termination
  by (relation "measure (\<lambda>(murmur, d, e). size d + size e)") (auto simp: access_Inr)

function u3qdb_dif :: "murmur \<Rightarrow> noun \<Rightarrow> noun \<Rightarrow> noun jet" where
  "u3qdb_dif murmur a b =
     (if b = u3_nul then Inr a
      else on_ok (u3x_trel b) (\<lambda>(n_b, l_b, r_b). on_ok (u3qdb_bif murmur a n_b) (\<lambda>c.
        on_ok (u3x_cell c) (\<lambda>(l_c, r_c). on_ok (u3qdb_dif murmur l_c l_b) (\<lambda>d.
          on_ok (u3qdb_dif murmur r_c r_b) (\<lambda>e. b_dif_join murmur d e))))))"
  by pat_completeness auto
termination
  by (relation "measure (\<lambda>(murmur, a, b). size b)") (auto simp: access_Inr)

declare u3qdb_int.simps [simp del] b_bif_putroot.simps [simp del] b_dif_join.simps [simp del] u3qdb_dif.simps [simp del]

section \<open>Lists, keys, checks and gates\<close>

function u3qdb_gas :: "murmur \<Rightarrow> noun \<Rightarrow> noun \<Rightarrow> noun jet" where
  "u3qdb_gas murmur a b =
     (if b = u3_nul then Inr a
      else on_ok (u3x_cell b) (\<lambda>(i_b, t_b). on_ok (u3x_cell i_b) (\<lambda>(pi_b, qi_b).
        on_ok (u3qdb_put murmur a pi_b qi_b) (\<lambda>c. u3qdb_gas murmur c t_b))))"
  by pat_completeness auto
termination
  by (relation "measure (\<lambda>(murmur, a, b). size b)") (auto simp: access_Inr)

function by_key :: "murmur \<Rightarrow> noun \<Rightarrow> noun \<Rightarrow> noun jet" where
  "by_key murmur a out =
     (if a = u3_nul then Inr out
      else on_ok (u3x_trel a) (\<lambda>(n_a, l_a, r_a). on_ok (u3h n_a) (\<lambda>p_n_a. on_ok (u3qdi_put murmur out p_n_a) (\<lambda>out.
        on_ok (by_key murmur l_a out) (\<lambda>out. by_key murmur r_a out)))))"
  by pat_completeness auto
termination
  by (relation "measure (\<lambda>(murmur, a, out). size a)") (auto simp: access_Inr)

definition u3qdb_key :: "murmur \<Rightarrow> noun \<Rightarrow> noun jet" where
  "u3qdb_key murmur a = by_key murmur a u3_nul"

function by_apt :: "murmur \<Rightarrow> noun \<Rightarrow> noun option \<Rightarrow> noun option \<Rightarrow> bool jet" where
  "by_apt murmur a l r =
     (if a = u3_nul then Inr True
      else on_ok (u3x_trel a) (\<lambda>(n_a, l_a, r_a). on_ok (u3h n_a) (\<lambda>p_n_a.
        if l \<noteq> None \<and> (\<not> u3qc_gor murmur p_n_a (the l) \<or> p_n_a = the l) then Inr False
        else if r \<noteq> None \<and> (\<not> u3qc_gor murmur (the r) p_n_a \<or> the r = p_n_a) then Inr False
        else on_ok
          (if l_a \<noteq> u3_nul
           then on_ok (u3h l_a) (\<lambda>n_l_a. on_ok (u3h n_l_a) (\<lambda>p_n_l_a.
             if \<not> u3qc_mor murmur p_n_a p_n_l_a \<or> p_n_a = p_n_l_a then Inr False else by_apt murmur l_a (Some p_n_a) r))
           else Inr True)
          (\<lambda>lef. if \<not> lef then Inr False
            else if r_a \<noteq> u3_nul
            then on_ok (u3h r_a) (\<lambda>n_r_a. on_ok (u3h n_r_a) (\<lambda>p_n_r_a.
              if \<not> u3qc_mor murmur p_n_a p_n_r_a \<or> p_n_a = p_n_r_a then Inr False else by_apt murmur r_a l (Some p_n_a)))
            else Inr True))))"
  by pat_completeness auto
termination
  by (relation "measure (\<lambda>(murmur, a, l, r). size a)") (auto simp: access_Inr)

definition u3qdb_apt :: "murmur \<Rightarrow> noun \<Rightarrow> bool jet" where
  "u3qdb_apt murmur a = by_apt murmur a None None"

text \<open>The product of a gate that is used as a loobean.\<close>

definition loob_of :: "noun \<Rightarrow> bool jet" where
  "loob_of n = (if n = Atom 0 then Inr True else if n = Atom 1 then Inr False else Inl Exit)"

function by_all :: "(noun \<Rightarrow> noun jet) \<Rightarrow> noun \<Rightarrow> bool jet" where
  "by_all sit a =
     (if a = u3_nul then Inr True
      else on_ok (u3x_trel a) (\<lambda>(n_a, l_a, r_a). on_ok (u3t n_a) (\<lambda>q_n_a. on_ok (sit q_n_a) (\<lambda>pro. on_ok (loob_of pro) (\<lambda>yes.
        if \<not> yes then Inr False
        else on_ok (by_all sit l_a) (\<lambda>lef. if \<not> lef then Inr False else by_all sit r_a))))))"
  by pat_completeness auto
termination
  by (relation "measure (\<lambda>(sit, a). size a)") (auto simp: access_Inr)

definition u3qdb_all :: "(noun \<Rightarrow> noun \<Rightarrow> noun jet) \<Rightarrow> noun \<Rightarrow> noun \<Rightarrow> bool jet" where
  "u3qdb_all slam a b = by_all (slam b) a"

function by_any :: "(noun \<Rightarrow> noun jet) \<Rightarrow> noun \<Rightarrow> bool jet" where
  "by_any sit a =
     (if a = u3_nul then Inr False
      else on_ok (u3x_trel a) (\<lambda>(n_a, l_a, r_a). on_ok (u3t n_a) (\<lambda>q_n_a. on_ok (sit q_n_a) (\<lambda>pro. on_ok (loob_of pro) (\<lambda>yes.
        if yes then Inr True
        else on_ok (by_any sit l_a) (\<lambda>lef. if lef then Inr True else by_any sit r_a))))))"
  by pat_completeness auto
termination
  by (relation "measure (\<lambda>(sit, a). size a)") (auto simp: access_Inr)

definition u3qdb_any :: "(noun \<Rightarrow> noun \<Rightarrow> noun jet) \<Rightarrow> noun \<Rightarrow> noun \<Rightarrow> bool jet" where
  "u3qdb_any slam a b = by_any (slam b) a"

function by_run :: "(noun \<Rightarrow> noun jet) \<Rightarrow> noun \<Rightarrow> noun jet" where
  "by_run sit a =
     (if a = u3_nul then Inr u3_nul
      else on_ok (u3x_trel a) (\<lambda>(n_a, l_a, r_a). on_ok (u3x_cell n_a) (\<lambda>(p_n_a, q_n_a). on_ok (sit q_n_a) (\<lambda>pro.
        on_ok (by_run sit l_a) (\<lambda>l. on_ok (by_run sit r_a) (\<lambda>r. Inr (u3nt (u3nc p_n_a pro) l r)))))))"
  by pat_completeness auto
termination
  by (relation "measure (\<lambda>(sit, a). size a)") (auto simp: access_Inr)

definition u3qdb_run :: "(noun \<Rightarrow> noun \<Rightarrow> noun jet) \<Rightarrow> noun \<Rightarrow> noun \<Rightarrow> noun jet" where
  "u3qdb_run slam a b = by_run (slam b) a"

function by_urn :: "(noun \<Rightarrow> noun jet) \<Rightarrow> noun \<Rightarrow> noun jet" where
  "by_urn sit a =
     (if a = u3_nul then Inr u3_nul
      else on_ok (u3x_trel a) (\<lambda>(n_a, l_a, r_a). on_ok (u3h n_a) (\<lambda>p_n_a. on_ok (sit n_a) (\<lambda>pro.
        on_ok (by_urn sit l_a) (\<lambda>l. on_ok (by_urn sit r_a) (\<lambda>r. Inr (u3nt (u3nc p_n_a pro) l r)))))))"
  by pat_completeness auto
termination
  by (relation "measure (\<lambda>(sit, a). size a)") (auto simp: access_Inr)

definition u3qdb_urn :: "(noun \<Rightarrow> noun \<Rightarrow> noun jet) \<Rightarrow> noun \<Rightarrow> noun \<Rightarrow> noun jet" where
  "u3qdb_urn slam a b = by_urn (slam b) a"

declare u3qdb_gas.simps [simp del] by_key.simps [simp del] by_apt.simps [simp del] by_all.simps [simp del]
  by_any.simps [simp del] by_run.simps [simp del] by_urn.simps [simp del]

section \<open>Calls with a core\<close>

definition u3wdb_has :: "murmur \<Rightarrow> noun \<Rightarrow> noun jet" where
  "u3wdb_has murmur cor = on_ok (u3x_mean cor [6, 30]) (\<lambda>xs. on_ok (u3qdb_has murmur (xs ! 1) (xs ! 0)) (\<lambda>b. Inr (loob b)))"

definition u3wdb_get :: "murmur \<Rightarrow> noun \<Rightarrow> noun jet" where
  "u3wdb_get murmur cor = on_ok (u3x_mean cor [6, 30]) (\<lambda>xs. u3qdb_get murmur (xs ! 1) (xs ! 0))"

definition u3wdb_del :: "murmur \<Rightarrow> noun \<Rightarrow> noun jet" where
  "u3wdb_del murmur cor = on_ok (u3x_mean cor [6, 30]) (\<lambda>xs. u3qdb_del murmur (xs ! 1) (xs ! 0))"

definition u3wdb_uni :: "murmur \<Rightarrow> noun \<Rightarrow> noun jet" where
  "u3wdb_uni murmur cor = on_ok (u3x_mean cor [6, 30]) (\<lambda>xs. u3qdb_uni murmur (xs ! 1) (xs ! 0))"

definition u3wdb_int :: "murmur \<Rightarrow> noun \<Rightarrow> noun jet" where
  "u3wdb_int murmur cor = on_ok (u3x_mean cor [6, 30]) (\<lambda>xs. u3qdb_int murmur (xs ! 1) (xs ! 0))"

definition u3wdb_dif :: "murmur \<Rightarrow> noun \<Rightarrow> noun jet" where
  "u3wdb_dif murmur cor = on_ok (u3x_mean cor [6, 30]) (\<lambda>xs. u3qdb_dif murmur (xs ! 1) (xs ! 0))"

definition u3wdb_bif :: "murmur \<Rightarrow> noun \<Rightarrow> noun jet" where
  "u3wdb_bif murmur cor = on_ok (u3x_mean cor [6, 30]) (\<lambda>xs. u3qdb_bif murmur (xs ! 1) (xs ! 0))"

definition u3wdb_gas :: "murmur \<Rightarrow> noun \<Rightarrow> noun jet" where
  "u3wdb_gas murmur cor = on_ok (u3x_mean cor [6, 30]) (\<lambda>xs. u3qdb_gas murmur (xs ! 1) (xs ! 0))"

definition u3wdb_all :: "(noun \<Rightarrow> noun \<Rightarrow> noun jet) \<Rightarrow> noun \<Rightarrow> noun jet" where
  "u3wdb_all slam cor = on_ok (u3x_mean cor [6, 30]) (\<lambda>xs. on_ok (u3qdb_all slam (xs ! 1) (xs ! 0)) (\<lambda>b. Inr (loob b)))"

definition u3wdb_any :: "(noun \<Rightarrow> noun \<Rightarrow> noun jet) \<Rightarrow> noun \<Rightarrow> noun jet" where
  "u3wdb_any slam cor = on_ok (u3x_mean cor [6, 30]) (\<lambda>xs. on_ok (u3qdb_any slam (xs ! 1) (xs ! 0)) (\<lambda>b. Inr (loob b)))"

definition u3wdb_run :: "(noun \<Rightarrow> noun \<Rightarrow> noun jet) \<Rightarrow> noun \<Rightarrow> noun jet" where
  "u3wdb_run slam cor = on_ok (u3x_mean cor [6, 30]) (\<lambda>xs. u3qdb_run slam (xs ! 1) (xs ! 0))"

definition u3wdb_urn :: "(noun \<Rightarrow> noun \<Rightarrow> noun jet) \<Rightarrow> noun \<Rightarrow> noun jet" where
  "u3wdb_urn slam cor = on_ok (u3x_mean cor [6, 30]) (\<lambda>xs. u3qdb_urn slam (xs ! 1) (xs ! 0))"

definition u3wdb_put :: "murmur \<Rightarrow> noun \<Rightarrow> noun jet" where
  "u3wdb_put murmur cor = on_ok (u3x_mean cor [12, 13, 30]) (\<lambda>xs. u3qdb_put murmur (xs ! 2) (xs ! 0) (xs ! 1))"

definition u3wdb_jab :: "murmur \<Rightarrow> (noun \<Rightarrow> noun \<Rightarrow> noun jet) \<Rightarrow> noun \<Rightarrow> noun jet" where
  "u3wdb_jab murmur slam cor = on_ok (u3x_mean cor [12, 13, 30]) (\<lambda>xs. u3qdb_jab murmur slam (xs ! 2) (xs ! 0) (xs ! 1))"

definition u3wdb_key :: "murmur \<Rightarrow> noun \<Rightarrow> noun jet" where
  "u3wdb_key murmur cor = on_ok (u3x_at (Atom 30) cor) (u3qdb_key murmur)"

definition u3wdb_apt :: "murmur \<Rightarrow> noun \<Rightarrow> noun jet" where
  "u3wdb_apt murmur cor = on_ok (u3x_at (Atom 30) cor) (\<lambda>a. on_ok (u3qdb_apt murmur a) (\<lambda>b. Inr (loob b)))"

end
