(* ===== verification/Jet_In_Correct.thy ===== *)
theory Jet_In_Correct
  imports Jet_In
begin

text \<open>
  The set jets compute sets: what each of them does to the tree of a set, and that the result is
  the tree of the set the operation stands for.
\<close>

abbreviation set_treap :: "murmur \<Rightarrow> noun tree \<Rightarrow> bool" where
  "set_treap murmur \<equiv> treap (u3qc_gor murmur) (u3qc_mor murmur) self"

text \<open>The noun \<open>a\<close> is the set \<open>S\<close>.\<close>

definition is_set :: "murmur \<Rightarrow> noun set \<Rightarrow> noun \<Rightarrow> bool" where
  "is_set murmur S a \<longleftrightarrow> (\<exists>t. a = tree_noun t \<and> set_treap murmur t \<and> set_tree t = S)"

lemma is_setI: "set_treap murmur t \<Longrightarrow> set_tree t = S \<Longrightarrow> is_set murmur S (tree_noun t)"
  by (auto simp: is_set_def)

lemma is_setE:
  assumes "is_set murmur S a"
  obtains t where "a = tree_noun t" "set_treap murmur t" "set_tree t = S"
  using assms by (auto simp: is_set_def)

section \<open>Membership, insertion and deletion\<close>

lemma has_tree: "set_treap murmur t \<Longrightarrow> u3qdi_has murmur (tree_noun t) b = Inr (b \<in> set_tree t)"
proof (induction t)
  case (Node l n r)
  show ?case
  proof (cases "b = n")
    case False
    show ?thesis
    proof (cases "u3qc_gor murmur b n")
      case True
      then have "b \<notin> set_tree r"
        using False Node.prems in_order.before_asym [of murmur b n] by (auto simp: self_simps)
      then show ?thesis
        using True False Node by (simp add: u3qdi_has.simps [of murmur "u3nt n _ _"])
    next
      case no: False
      then have "b \<notin> set_tree l"
        using False Node.prems by (auto simp: self_simps)
      then show ?thesis
        using no False Node by (simp add: u3qdi_has.simps [of murmur "u3nt n _ _"])
    qed
  qed (simp add: u3qdi_has.simps)
qed (simp add: u3qdi_has.simps)

lemma put_tree:
  "u3qdi_put murmur (tree_noun t) b = Inr (tree_noun (tput (u3qc_gor murmur) (u3qc_mor murmur) self b t))"
proof (induction t)
  case (Node l n r)
  obtain ll ln lr rl rn rr where
    "tput (u3qc_gor murmur) (u3qc_mor murmur) self b l = Node ll ln lr"
    "tput (u3qc_gor murmur) (u3qc_mor murmur) self b r = Node rl rn rr"
    using tput_Node by metis
  with Node show ?case
    by (simp add: u3qdi_put.simps [of murmur "u3nt n _ _"] self_simps del: tput.simps)
qed (simp add: u3qdi_put.simps)

lemma rebalance_tree: "in_rebalance murmur (tree_noun (Node l n r)) = Inr (tree_noun (tjoin (u3qc_mor murmur) self l r))"
proof (induction "size l + size r" arbitrary: l r rule: less_induct)
  case less
  show ?case
  proof (cases "l = Leaf \<or> r = Leaf")
    case True
    then show ?thesis
      by (cases l) (auto simp: in_rebalance.simps)
  next
    case False
    then obtain ll ln lr rl rn rr where lr: "l = Node ll ln lr" "r = Node rl rn rr"
      by (metis tree.exhaust)
    have "in_rebalance murmur (tree_noun (Node lr n r)) = Inr (tree_noun (tjoin (u3qc_mor murmur) self lr r))"
      "in_rebalance murmur (tree_noun (Node l n rl)) = Inr (tree_noun (tjoin (u3qc_mor murmur) self l rl))"
      by (rule less; simp add: lr)+
    then show ?thesis
      by (simp add: self_simps lr in_rebalance.simps [of murmur "u3nt n (u3nt _ _ _) (u3nt _ _ _)"] del: tjoin.simps)
  qed
qed

lemma del_tree:
  "set_treap murmur t \<Longrightarrow> \<exists>t'. u3qdi_del murmur (tree_noun t) b = Inr (tree_noun t') \<and>
     set_treap murmur t' \<and> set_tree t' = set_tree t - {b}"
proof (induction t)
  case Leaf
  show ?case
    by (rule exI [of _ Leaf]) (simp add: u3qdi_del.simps)
next
  case (Node l n r)
  have nr: "n \<notin> set_tree l" "n \<notin> set_tree r"
    using Node.prems by (auto simp: self_simps)
  obtain l' r' where l': "u3qdi_del murmur (tree_noun l) b = Inr (tree_noun l')" "set_treap murmur l'" "set_tree l' = set_tree l - {b}"
    and r': "u3qdi_del murmur (tree_noun r) b = Inr (tree_noun r')" "set_treap murmur r'" "set_tree r' = set_tree r - {b}"
    using Node by auto
  consider "n = b" | "n \<noteq> b" "u3qc_gor murmur b n" | "n \<noteq> b" "\<not> u3qc_gor murmur b n"
    by blast
  then show ?case
  proof cases
    case 1
    have "set_treap murmur (tjoin (u3qc_mor murmur) self l r)"
      using Node.prems by (intro in_order.ok_tjoin in_order.ahead_children) auto
    with 1 nr show ?thesis
      using rebalance_tree [of murmur l n r]
      by (intro exI [of _ "tjoin (u3qc_mor murmur) self l r"]) (auto simp: u3qdi_del.simps [of murmur "u3nt _ _ _"])
  next
    case 2
    then have "b \<notin> set_tree r"
      using Node.prems in_order.before_asym [of murmur b n] by (auto simp: self_simps)
    with 2 l' Node.prems show ?thesis
      by (intro exI [of _ "Node l' n r"]) (auto simp: u3qdi_del.simps [of murmur "u3nt _ _ _"])
  next
    case 3
    then have "b \<notin> set_tree l"
      using Node.prems by (auto simp: self_simps)
    with 3 r' Node.prems show ?thesis
      by (intro exI [of _ "Node l n r'"]) (auto simp: u3qdi_del.simps [of murmur "u3nt _ _ _"])
  qed
qed

section \<open>Union, intersection and difference\<close>

interpretation in_union: treap_union "u3qc_gor murmur" "u3qc_mor murmur" self "in_uni murmur" "\<lambda>_. True" for murmur
proof
  show "in_uni murmur u3_nul (tree_noun t) = Inr (tree_noun t)" "in_uni murmur (tree_noun t) u3_nul = Inr (tree_noun t)" for t
    by (auto simp: in_uni.simps)
qed (auto simp: in_uni.simps [of murmur "u3nt _ _ _"] mor.refl self_def)

lemma uni_tree:
  assumes "set_treap murmur a" and "set_treap murmur b"
  shows "\<exists>c. u3qdi_uni murmur (tree_noun a) (tree_noun b) = Inr (tree_noun c) \<and> set_treap murmur c \<and>
    set_tree c = set_tree a \<union> set_tree b"
  using assms in_union.united_ex [of murmur a b] by (cases "a = b") (auto simp: u3qdi_uni_def self_simps)

lemma putroot_tree:
  "tsplit (u3qc_gor murmur) self b t = (x, y) \<Longrightarrow>
     i_bif_putroot murmur (tree_noun t) b = Inr (u3nt b (tree_noun x) (tree_noun y))"
proof (induction t arbitrary: x y)
  case (Node l n r)
  then show ?case
    by (auto simp: i_bif_putroot.simps [of murmur "u3nt _ _ _"] self_simps split: prod.splits if_splits simp del: tsplit.simps)
qed (simp add: i_bif_putroot.simps)

lemma bif_tree:
  assumes "tsplit (u3qc_gor murmur) self b t = (x, y)"
  shows "u3qdi_bif murmur (tree_noun t) b = Inr (u3nc (tree_noun x) (tree_noun y))"
  using putroot_tree [OF assms] by (simp add: u3qdi_bif_def)

lemma dif_join_tree: "i_dif_join murmur (tree_noun d) (tree_noun e) = Inr (tree_noun (tjoin (u3qc_mor murmur) self d e))"
proof (induction "size d + size e" arbitrary: d e rule: less_induct)
  case less
  show ?case
  proof (cases "d = Leaf \<or> e = Leaf")
    case True
    then show ?thesis
      by (cases d) (auto simp: i_dif_join.simps)
  next
    case False
    then obtain ld nd rd le ne re where de: "d = Node ld nd rd" "e = Node le ne re"
      by (metis tree.exhaust)
    have "i_dif_join murmur (tree_noun rd) (tree_noun e) = Inr (tree_noun (tjoin (u3qc_mor murmur) self rd e))"
      "i_dif_join murmur (tree_noun d) (tree_noun le) = Inr (tree_noun (tjoin (u3qc_mor murmur) self d le))"
      by (rule less; simp add: de)+
    then show ?thesis
      by (simp add: self_simps de i_dif_join.simps [of murmur "u3nt _ _ _" "u3nt _ _ _"] del: tjoin.simps)
  qed
qed

lemma dif_tree:
  "set_treap murmur a \<Longrightarrow> set_treap murmur b \<Longrightarrow> \<exists>c. u3qdi_dif murmur (tree_noun a) (tree_noun b) = Inr (tree_noun c) \<and>
     set_treap murmur c \<and> set_tree c = set_tree a - set_tree b"
proof (induction b arbitrary: a)
  case (Node l n r)
  obtain x y where xy: "tsplit (u3qc_gor murmur) self n a = (x, y)"
    by fastforce
  note sp = in_order.tsplit_ok [OF Node.prems(1) xy]
  obtain d where d: "u3qdi_dif murmur (tree_noun x) (tree_noun l) = Inr (tree_noun d)" "set_treap murmur d"
      "set_tree d = set_tree x - set_tree l"
    using Node.IH(1) [of x] Node.prems sp by auto
  obtain e where e: "u3qdi_dif murmur (tree_noun y) (tree_noun r) = Inr (tree_noun e)" "set_treap murmur e"
      "set_tree e = set_tree y - set_tree r"
    using Node.IH(2) [of y] Node.prems sp by auto
  have ahead: "in_order.ahead murmur d e"
    using d(3) e(3) sp in_order.before_trans [of murmur _ n] by blast
  have "set_tree a - set_tree (Node l n r) = set_tree d \<union> set_tree e"
  proof -
    have "z = n \<or> strictly (u3qc_gor murmur) self z n \<or> strictly (u3qc_gor murmur) self n z" for z
      by (rule in_order.key_cases [where x = z and y = n and murmur = murmur]) (auto simp: self_def)
    moreover have "z \<notin> set_tree r" if "strictly (u3qc_gor murmur) self z n" for z
      using that Node.prems(2) in_order.before_asym by auto
    moreover have "z \<notin> set_tree l" if "strictly (u3qc_gor murmur) self n z" for z
      using that Node.prems(2) in_order.before_asym by auto
    ultimately show ?thesis
      using sp d(3) e(3) by (auto simp: self_simps)
  qed
  moreover have "u3qdi_dif murmur (tree_noun a) (tree_noun (Node l n r)) = Inr (tree_noun (tjoin (u3qc_mor murmur) self d e))"
    using d e bif_tree [OF xy] by (simp add: u3qdi_dif.simps [of murmur _ "u3nt _ _ _"] dif_join_tree)
  ultimately show ?case
    using in_order.ok_tjoin [OF d(2) e(2) ahead] by auto
qed (auto simp: u3qdi_dif.simps)

text \<open>One step of the intersection: two intersections and the union of their results.\<close>

lemma int_step:
  assumes "\<exists>x. u3qdi_int murmur a b = Inr (tree_noun x) \<and> set_treap murmur x \<and> set_tree x = X"
    and "\<exists>y. u3qdi_int murmur c d = Inr (tree_noun y) \<and> set_treap murmur y \<and> set_tree y = Y"
  shows "\<exists>z. on_ok (u3qdi_int murmur a b) (\<lambda>x. on_ok (u3qdi_int murmur c d) (\<lambda>y. u3qdi_uni murmur x y)) = Inr (tree_noun z) \<and>
    set_treap murmur z \<and> set_tree z = X \<union> Y"
  using assms uni_tree by fastforce

lemma int_tree:
  "set_treap murmur a \<Longrightarrow> set_treap murmur b \<Longrightarrow> \<exists>c. u3qdi_int murmur (tree_noun a) (tree_noun b) = Inr (tree_noun c) \<and>
     set_treap murmur c \<and> set_tree c = set_tree a \<inter> set_tree b"
proof (induction "size a + size b" arbitrary: a b rule: less_induct)
  case less
  note ih = less.hyps
  show ?case
  proof (cases "a = Leaf \<or> b = Leaf")
    case True
    then show ?thesis
      by (intro exI [of _ Leaf]) (auto simp: u3qdi_int.simps)
  next
    case False
    then obtain la na ra lb nb rb where ab: "a = Node la na ra" "b = Node lb nb rb"
      by (metis tree.exhaust)
    note p = less.prems [unfolded ab]
    note eq = u3qdi_int.simps [of murmur "u3nt na _ _" "u3nt nb _ _"]
    show ?thesis
    proof (cases "na = nb")
      case True
      obtain l r where "u3qdi_int murmur (tree_noun lb) (tree_noun la) = Inr (tree_noun l)" "set_treap murmur l"
          "set_tree l = set_tree lb \<inter> set_tree la"
        "u3qdi_int murmur (tree_noun rb) (tree_noun ra) = Inr (tree_noun r)" "set_treap murmur r"
          "set_tree r = set_tree rb \<inter> set_tree ra"
        using ih [of lb la] ih [of rb ra] p by (auto simp: ab)
      then show ?thesis
        using True p in_order.keep_same [OF p]
        by (intro exI [of _ "Node l na r"])
          (auto simp: ab u3qdi_int.simps [of murmur "u3nt nb _ _" "u3nt nb _ _"] mor.refl self_simps)
    next
      case ne: False
      have bf: "strictly (u3qc_gor murmur) self x y" if "u3qc_gor murmur x y" "x \<noteq> y" for x y
        using that by (simp add: self_simps)
      have nbf: "strictly (u3qc_gor murmur) self y x" if "\<not> u3qc_gor murmur x y" for x y
        using that gor.not_le_strict by (simp add: self_simps)
      consider "u3qc_mor murmur na nb" "u3qc_gor murmur na nb" | "u3qc_mor murmur na nb" "\<not> u3qc_gor murmur na nb"
        | "\<not> u3qc_mor murmur na nb" "u3qc_gor murmur nb na" | "\<not> u3qc_mor murmur na nb" "\<not> u3qc_gor murmur nb na"
        by blast
      then show ?thesis
      proof cases
        case 1
        then show ?thesis
          using int_step [OF ih [of lb "Node la na Leaf"] ih [of b ra]] p ne
            in_order.keep_after(2) [OF p bf [OF 1(2) ne]]
          by (simp add: ab eq self_simps Int_commute)
      next
        case 2
        then show ?thesis
          using int_step [OF ih [of rb "Node Leaf na ra"] ih [of b la]] p ne
            in_order.keep_before(2) [OF p nbf [OF 2(2)]]
          by (simp add: ab eq self_simps Int_commute)
      next
        case 3
        then show ?thesis
          using int_step [OF ih [of la "Node lb nb Leaf"] ih [of a rb]] p ne
            in_order.keep_before(1) [OF p bf [OF 3(2)]]
          by (simp add: ab eq self_simps)
      next
        case 4
        then show ?thesis
          using int_step [OF ih [of ra "Node Leaf nb rb"] ih [of a lb]] p ne
            in_order.keep_after(1) [OF p nbf [OF 4(2)]]
          by (simp add: ab eq self_simps)
      qed
    qed
  qed
qed

section \<open>Lists and counts\<close>

lemma gas_tree:
  "set_treap murmur t \<Longrightarrow> \<exists>t'. u3qdi_gas murmur (tree_noun t) (list_noun xs) = Inr (tree_noun t') \<and>
     set_treap murmur t' \<and> set_tree t' = set_tree t \<union> set xs"
proof (induction xs arbitrary: t)
  case (Cons x xs)
  have "set_treap murmur (tput (u3qc_gor murmur) (u3qc_mor murmur) self x t)"
    "set_tree (tput (u3qc_gor murmur) (u3qc_mor murmur) self x t) = insert x (set_tree t)"
    using in_order.tput_ok [OF Cons.prems] by (auto simp: self_simps)
  with Cons.IH show ?case
    by (fastforce simp: u3qdi_gas.simps [of murmur _ "Cell _ _"] put_tree)
qed (auto simp: u3qdi_gas.simps)

lemma tap_tree: "tap_in (tree_noun t) (list_noun xs) = Inr (list_noun (rev (inorder t) @ xs))"
proof (induction t arbitrary: xs)
  case (Node l n r)
  then show ?case
    using Node.IH(2) [of "n # rev (inorder l) @ xs"] by (simp add: tap_in.simps [of "u3nt _ _ _"])
qed (simp add: tap_in.simps)

lemma wyt_tree: "wyt_in (tree_noun t) = Inr (of_nat (size t))"
  by (induction t) (simp_all add: wyt_in.simps [of "u3nt _ _ _"] wyt_in.simps [of u3_nul])

lemma treap_distinct: "set_treap murmur t \<Longrightarrow> distinct (inorder t)"
proof (induction t)
  case (Node l n r)
  have "set_tree l \<inter> set_tree r = {}"
    using in_order.sides_distinct(1) [OF Node.prems] by (auto simp: self_def)
  with Node show ?case
    by (auto simp: self_simps)
qed simp

lemma treap_size: "set_treap murmur t \<Longrightarrow> size t = card (set_tree t)"
  using treap_distinct [of murmur t] distinct_card [of "inorder t"] by simp

section \<open>The check\<close>

text \<open>
  What the check accepts: each entry within the bounds inherited from its ancestors, and below
  its parent. The comparisons hold for equal nouns too.
\<close>

fun apt_tree :: "murmur \<Rightarrow> noun tree \<Rightarrow> noun option \<Rightarrow> noun option \<Rightarrow> bool" where
  "apt_tree murmur Leaf l r \<longleftrightarrow> True"
| "apt_tree murmur (Node t n u) l r \<longleftrightarrow>
     (\<forall>x. l = Some x \<longrightarrow> u3qc_gor murmur n x) \<and> (\<forall>x. r = Some x \<longrightarrow> u3qc_gor murmur x n) \<and>
     (t \<noteq> Leaf \<longrightarrow> u3qc_mor murmur n (value t)) \<and> (u \<noteq> Leaf \<longrightarrow> u3qc_mor murmur n (value u)) \<and>
     apt_tree murmur t (Some n) r \<and> apt_tree murmur u l (Some n)"

lemma apt_tree_iff: "in_apt murmur (tree_noun t) l r = Inr (apt_tree murmur t l r)"
proof (induction t arbitrary: l r)
  case (Node t n u)
  have h: "u3h (tree_noun v) = Inr (value v)" if "v \<noteq> Leaf" for v
    using that by (cases v) auto
  show ?case
    using Node h [of t] h [of u]
    by (cases l; cases r; cases "t = Leaf"; cases "u = Leaf") (auto simp: in_apt.simps [of murmur "u3nt _ _ _"])
qed (simp add: in_apt.simps)

text \<open>Only nouns of trees are accepted.\<close>

lemma in_apt_shape: "in_apt murmur a l r = Inr True \<Longrightarrow> \<exists>t. a = tree_noun t"
proof (induction a arbitrary: l r rule: measure_induct_rule [of size])
  case (less a)
  show ?case
  proof (cases "a = u3_nul")
    case True
    then show ?thesis
      by (metis tree_noun.simps(1))
  next
    case False
    then obtain n t u where a: "a = u3nt n t u"
      using less.prems by (auto simp: in_apt.simps [of murmur a] on_ok_eq_Inr u3x_trel_Inr)
    have "\<exists>x. t = tree_noun x"
    proof (cases "t = u3_nul")
      case False
      then have "in_apt murmur t (Some n) r = Inr True"
        using less.prems False by (auto simp: a in_apt.simps [of murmur "u3nt _ _ _"] on_ok_eq_Inr split: if_splits)
      then show ?thesis
        using less.IH [of t] by (auto simp: a)
    qed (metis tree_noun.simps(1))
    moreover have "\<exists>x. u = tree_noun x"
    proof (cases "u = u3_nul")
      case False
      then have "in_apt murmur u l (Some n) = Inr True"
        using less.prems False by (auto simp: a in_apt.simps [of murmur "u3nt _ _ _"] on_ok_eq_Inr split: if_splits)
      then show ?thesis
        using less.IH [of u] by (auto simp: a)
    qed (metis tree_noun.simps(1))
    ultimately show ?thesis
      by (metis a tree_noun.simps(2))
  qed
qed

lemma apt_bounds:
  "apt_tree murmur t l r \<Longrightarrow> x \<in> set_tree t \<Longrightarrow>
     (\<forall>y. l = Some y \<longrightarrow> u3qc_gor murmur x y) \<and> (\<forall>y. r = Some y \<longrightarrow> u3qc_gor murmur y x)"
proof (induction t arbitrary: l r)
  case (Node t n u)
  consider "x = n" | "x \<in> set_tree t" | "x \<in> set_tree u"
    using Node.prems(2) by auto
  then show ?case
  proof cases
    case 2
    then have "u3qc_gor murmur x n" "\<forall>y. r = Some y \<longrightarrow> u3qc_gor murmur y x"
      using Node.IH(1) [of "Some n" r] Node.prems(1) by auto
    with Node.prems(1) show ?thesis by (auto intro: gor.trans)
  next
    case 3
    then have "u3qc_gor murmur n x" "\<forall>y. l = Some y \<longrightarrow> u3qc_gor murmur x y"
      using Node.IH(2) [of l "Some n"] Node.prems(1) by auto
    with Node.prems(1) show ?thesis by (auto intro: gor.trans)
  qed (use Node.prems(1) in auto)
qed simp

lemma apt_heap:
  "apt_tree murmur t l r \<Longrightarrow> t \<noteq> Leaf \<Longrightarrow> x \<in> set_tree t \<Longrightarrow> u3qc_mor murmur (value t) x"
proof (induction t arbitrary: l r)
  case (Node t n u)
  consider "x = n" | "x \<in> set_tree t" "t \<noteq> Leaf" | "x \<in> set_tree u" "u \<noteq> Leaf"
    using Node.prems(3) by (cases t; cases u) auto
  then show ?case
  proof cases
    case 2
    then have "u3qc_mor murmur (value t) x" "u3qc_mor murmur n (value t)"
      using Node.IH(1) [of "Some n" r] Node.prems(1) by auto
    then show ?thesis by (auto intro: mor.trans)
  next
    case 3
    then have "u3qc_mor murmur (value u) x" "u3qc_mor murmur n (value u)"
      using Node.IH(2) [of l "Some n"] Node.prems(1) by auto
    then show ?thesis by (auto intro: mor.trans)
  qed (simp add: mor.refl)
qed simp

text \<open>Among trees without repeated entries the check accepts exactly the treaps.\<close>

lemma apt_treap: "apt_tree murmur t l r \<Longrightarrow> distinct (inorder t) \<Longrightarrow> set_treap murmur t"
proof (induction t arbitrary: l r)
  case (Node t n u)
  have d: "n \<notin> set_tree t" "n \<notin> set_tree u"
    using Node.prems(2) by auto
  have "set_treap murmur t" "set_treap murmur u"
    using Node by auto
  moreover have "strictly (u3qc_gor murmur) self x n \<and> strictly (u3qc_mor murmur) self n x" if "x \<in> set_tree t" for x
    using that d(1) apt_bounds [of murmur t "Some n" r x] apt_heap [OF Node.prems(1), of x] Node.prems(1)
    by (auto simp: self_simps)
  moreover have "strictly (u3qc_gor murmur) self n x \<and> strictly (u3qc_mor murmur) self n x" if "x \<in> set_tree u" for x
    using that d(2) apt_bounds [of murmur u l "Some n" x] apt_heap [OF Node.prems(1), of x] Node.prems(1)
    by (auto simp: self_simps)
  ultimately show ?case by simp
qed simp

lemma treap_apt:
  "set_treap murmur t \<Longrightarrow> (\<And>x y. x \<in> set_tree t \<Longrightarrow> l = Some y \<Longrightarrow> u3qc_gor murmur x y) \<Longrightarrow>
     (\<And>x y. x \<in> set_tree t \<Longrightarrow> r = Some y \<Longrightarrow> u3qc_gor murmur y x) \<Longrightarrow> apt_tree murmur t l r"
proof (induction t arbitrary: l r)
  case (Node t n u)
  have v: "value t \<in> set_tree t" if "t \<noteq> Leaf" for t :: "noun tree"
    using that by (cases t) auto
  have "apt_tree murmur t (Some n) r" "apt_tree murmur u l (Some n)"
    by (rule Node.IH; use Node.prems in \<open>auto simp: self_simps\<close>)+
  with Node.prems v [of t] v [of u] show ?case
    by (auto simp: self_simps)
qed simp

section \<open>Gates\<close>

text \<open>A fold with a step that can bail.\<close>

fun fold_jet :: "('a \<Rightarrow> 'b \<Rightarrow> 'b jet) \<Rightarrow> 'a list \<Rightarrow> 'b \<Rightarrow> 'b jet" where
  "fold_jet f [] acc = Inr acc"
| "fold_jet f (x # xs) acc = on_ok (f x acc) (\<lambda>acc. fold_jet f xs acc)"

lemma fold_jet_append: "fold_jet f (xs @ ys) acc = on_ok (fold_jet f xs acc) (\<lambda>acc. fold_jet f ys acc)"
proof (induction xs arbitrary: acc)
  case (Cons x xs)
  then show ?case by (cases "f x acc") auto
qed simp

lemma rep_tree: "in_rep sit (tree_noun t) out = fold_jet (\<lambda>x acc. sit (u3nc x acc)) (preorder t) out"
proof (induction t arbitrary: out)
  case (Node l n r)
  then show ?case
    by (cases "sit (u3nc n out)") (simp_all add: in_rep.simps [of sit "u3nt _ _ _"] fold_jet_append cong: on_ok_cong)
qed (simp add: in_rep.simps)

lemma run_tree:
  assumes "\<And>x. x \<in> set_tree t \<Longrightarrow> sit x = Inr (f x)" and "set_treap murmur s"
  shows "\<exists>t'. in_run murmur sit (tree_noun t) (tree_noun s) = Inr (tree_noun t') \<and> set_treap murmur t' \<and>
    set_tree t' = set_tree s \<union> f ` set_tree t"
  using assms
proof (induction t arbitrary: s)
  case (Node l n r)
  let ?s = "tput (u3qc_gor murmur) (u3qc_mor murmur) self (f n) s"
  have s: "set_treap murmur ?s" "set_tree ?s = insert (f n) (set_tree s)"
    using in_order.tput_ok [OF Node.prems(2)] by (auto simp: self_simps)
  obtain u where u: "in_run murmur sit (tree_noun l) (tree_noun ?s) = Inr (tree_noun u)" "set_treap murmur u"
      "set_tree u = set_tree ?s \<union> f ` set_tree l"
    using Node.IH(1) [OF _ s(1)] Node.prems(1) by auto
  obtain v where "in_run murmur sit (tree_noun r) (tree_noun u) = Inr (tree_noun v)" "set_treap murmur v"
      "set_tree v = set_tree u \<union> f ` set_tree r"
    using Node.IH(2) [OF _ u(2)] Node.prems(1) by auto
  with u s(2) Node.prems(1) [of n] show ?case
    by (intro exI [of _ v]) (auto simp: in_run.simps [of murmur sit "u3nt _ _ _"] put_tree)
qed (auto simp: in_run.simps)

end
