(* ===== verification/Jet_By_Correct.thy ===== *)
theory Jet_By_Correct
  imports Jet_By Jet_In_Correct
begin

text \<open>
  The map jets compute maps: what each of them does to the tree of a map, and that the result is
  the tree of the map the operation stands for.
\<close>

abbreviation map_treap :: "murmur \<Rightarrow> noun tree \<Rightarrow> bool" where
  "map_treap murmur \<equiv> treap (u3qc_gor murmur) (u3qc_mor murmur) nhead"

abbreviation pairs :: "noun tree \<Rightarrow> bool" where
  "pairs t \<equiv> \<forall>x \<in> set_tree t. u3a_is_cell x"

text \<open>The entries of a map, and the noun \<open>a\<close> as the map \<open>m\<close>.\<close>

definition map_graph :: "(noun \<rightharpoonup> noun) \<Rightarrow> noun set" where
  "map_graph m = {Cell k v | k v. m k = Some v}"

definition is_map :: "murmur \<Rightarrow> (noun \<rightharpoonup> noun) \<Rightarrow> noun \<Rightarrow> bool" where
  "is_map murmur m a \<longleftrightarrow> (\<exists>t. a = tree_noun t \<and> map_treap murmur t \<and> set_tree t = map_graph m)"

lemma is_cell_iff: "u3a_is_cell x \<longleftrightarrow> (\<exists>k v. x = Cell k v)"
  by (cases x) auto

lemma in_map_graph [simp]: "Cell k v \<in> map_graph m \<longleftrightarrow> m k = Some v" "Atom a \<notin> map_graph m"
  by (auto simp: map_graph_def)

lemma map_graph_pairs: "set_tree t = map_graph m \<Longrightarrow> pairs t"
  by (auto simp: map_graph_def)

lemma is_mapI: "map_treap murmur t \<Longrightarrow> set_tree t = map_graph m \<Longrightarrow> is_map murmur m (tree_noun t)"
  by (auto simp: is_map_def)

lemma is_mapE:
  assumes "is_map murmur m a"
  obtains t where "a = tree_noun t" "map_treap murmur t" "set_tree t = map_graph m" "pairs t"
  using assms map_graph_pairs by (auto simp: is_map_def)

lemma nhead_graph: "nhead ` map_graph m = dom m"
  by (force simp: map_graph_def)

lemma set_eq_cells: "(\<And>k v. Cell k v \<in> A \<longleftrightarrow> Cell k v \<in> B) \<Longrightarrow> (\<And>a. Atom a \<in> A \<longleftrightarrow> Atom a \<in> B) \<Longrightarrow> A = B"
  by (metis noun.exhaust subsetI subset_antisym)

lemma graph_ops:
  "override nhead (map_graph m) {Cell k v} = map_graph (m(k \<mapsto> v))"
  "override nhead (map_graph m) (map_graph n) = map_graph (m ++ n)"
  "keep nhead (map_graph m) (map_graph n) = map_graph (n |` dom m)"
  "{x \<in> map_graph m. nhead x \<notin> nhead ` map_graph n} = map_graph (m |` (- dom n))"
  "{x \<in> map_graph m. nhead x \<noteq> k} = map_graph (m(k := None))"
  by (rule set_eq_cells; auto simp: override_def keep_def nhead_graph map_add_Some_iff restrict_map_def
      split: if_splits)+

lemma graph_inj: "map_graph m = map_graph n \<Longrightarrow> m = n"
proof
  fix k
  assume "map_graph m = map_graph n"
  then have "m k = Some v \<longleftrightarrow> n k = Some v" for v
    using in_map_graph(1) by metis
  then show "m k = n k"
    by (metis not_Some_eq)
qed

section \<open>Lookup, insertion and deletion\<close>

lemma get_tree:
  "map_treap murmur t \<Longrightarrow> pairs t \<Longrightarrow>
     (\<forall>v. Cell k v \<in> set_tree t \<longrightarrow> u3qdb_get murmur (tree_noun t) k = Inr (u3nc u3_nul v)) \<and>
     ((\<forall>v. Cell k v \<notin> set_tree t) \<longrightarrow> u3qdb_get murmur (tree_noun t) k = Inr u3_nul)"
proof (induction t)
  case (Node l n r)
  then obtain p q where n: "n = Cell p q"
    by (auto simp: is_cell_iff)
  note eq = u3qdb_get.simps [of murmur "u3nt (Cell _ _) _ _"]
  have ih: "(\<forall>v. Cell k v \<in> set_tree l \<longrightarrow> u3qdb_get murmur (tree_noun l) k = Inr (u3nc u3_nul v)) \<and>
     ((\<forall>v. Cell k v \<notin> set_tree l) \<longrightarrow> u3qdb_get murmur (tree_noun l) k = Inr u3_nul)"
    "(\<forall>v. Cell k v \<in> set_tree r \<longrightarrow> u3qdb_get murmur (tree_noun r) k = Inr (u3nc u3_nul v)) \<and>
     ((\<forall>v. Cell k v \<notin> set_tree r) \<longrightarrow> u3qdb_get murmur (tree_noun r) k = Inr u3_nul)"
    using Node by simp_all
  consider "k = p" | "k \<noteq> p" "u3qc_gor murmur k p" | "k \<noteq> p" "\<not> u3qc_gor murmur k p"
    by blast
  then show ?case
  proof cases
    case 1
    then have "Cell k v \<notin> set_tree l" "Cell k v \<notin> set_tree r" for v
      using Node.prems(1) by (auto simp: n strictly_def)
    with 1 show ?thesis by (auto simp: n eq)
  next
    case 2
    then have "Cell k v \<notin> set_tree r" for v
      using Node.prems(1) gor.antisym [of murmur k p] by (auto simp: n strictly_def)
    with 2 ih(1) show ?thesis by (auto simp: n eq)
  next
    case 3
    then have "Cell k v \<notin> set_tree l" for v
      using Node.prems(1) by (auto simp: n strictly_def)
    with 3 ih(2) show ?thesis by (auto simp: n eq)
  qed
qed (simp add: u3qdb_get.simps)

text \<open>Membership is a lookup that found something.\<close>

lemma has_get:
  assumes "u3qdb_get murmur a k = Inr c"
  shows "u3qdb_has murmur a k = Inr (c \<noteq> u3_nul)"
  using assms
proof (induction murmur a k rule: u3qdb_get.induct)
  case (1 murmur a k)
  show ?case
  proof (cases "a = u3_nul")
    case False
    with 1(3) obtain n lr p q where a: "u3x_cell a = Inr (n, lr)" "u3x_cell n = Inr (p, q)"
      by (auto simp: u3qdb_get.simps [of murmur a] on_ok_eq_Inr)
    show ?thesis
      using 1(3) 1(1) [OF False a(1) refl a(2) refl] 1(2) [OF False a(1) refl a(2) refl] False a
      by (auto simp: u3qdb_get.simps [of murmur a] u3qdb_has.simps [of murmur a] on_ok_eq_Inr)
  qed (use 1 in \<open>auto simp: u3qdb_get.simps u3qdb_has.simps\<close>)
qed

lemma by_put_tree:
  "pairs t \<Longrightarrow> u3qdb_put murmur (tree_noun t) k v =
     Inr (tree_noun (tput (u3qc_gor murmur) (u3qc_mor murmur) nhead (Cell k v) t))"
proof (induction t)
  case (Node l n r)
  then obtain p q where n: "n = Cell p q"
    by (auto simp: is_cell_iff)
  obtain ll ln lr rl rn rr where t:
    "tput (u3qc_gor murmur) (u3qc_mor murmur) nhead (Cell k v) l = Node ll ln lr"
    "tput (u3qc_gor murmur) (u3qc_mor murmur) nhead (Cell k v) r = Node rl rn rr"
    using tput_Node by metis
  have sub: "set_tree (tput (u3qc_gor murmur) (u3qc_mor murmur) nhead b u) \<subseteq> insert b (set_tree u)" for b u
    by (induction u) (auto split: tree.splits)
  have "u3a_is_cell ln" "u3a_is_cell rn"
    using sub [of "Cell k v" l] sub [of "Cell k v" r] Node.prems t by auto
  then obtain lp lq rp rq where "ln = Cell lp lq" "rn = Cell rp rq"
    by (auto simp: is_cell_iff)
  with Node t show ?case
    by (auto simp: n u3qdb_put.simps [of murmur "u3nt (Cell _ _) _ _"])
qed (simp add: u3qdb_put.simps)

lemma by_rebalance_tree:
  "pairs l \<Longrightarrow> pairs r \<Longrightarrow> by_rebalance murmur (tree_noun (Node l n r)) = Inr (tree_noun (tjoin (u3qc_mor murmur) nhead l r))"
proof (induction "size l + size r" arbitrary: l r rule: less_induct)
  case less
  show ?case
  proof (cases "l = Leaf \<or> r = Leaf")
    case True
    then show ?thesis
      by (cases l) (auto simp: by_rebalance.simps)
  next
    case False
    then obtain ll lp lq lr rl rp rq rr where lr: "l = Node ll (Cell lp lq) lr" "r = Node rl (Cell rp rq) rr"
      using less.prems by (cases l; cases r) (auto simp: is_cell_iff)
    have "by_rebalance murmur (tree_noun (Node lr n r)) = Inr (tree_noun (tjoin (u3qc_mor murmur) nhead lr r))"
      "by_rebalance murmur (tree_noun (Node l n rl)) = Inr (tree_noun (tjoin (u3qc_mor murmur) nhead l rl))"
      by (rule less; use less.prems in \<open>simp add: lr\<close>)+
    then show ?thesis
      by (simp add: lr by_rebalance.simps [of murmur "u3nt n (u3nt _ _ _) (u3nt _ _ _)"])
  qed
qed

lemma by_del_tree:
  "map_treap murmur t \<Longrightarrow> pairs t \<Longrightarrow> \<exists>t'. u3qdb_del murmur (tree_noun t) k = Inr (tree_noun t') \<and>
     map_treap murmur t' \<and> set_tree t' = {x \<in> set_tree t. nhead x \<noteq> k}"
proof (induction t)
  case Leaf
  show ?case
    by (rule exI [of _ Leaf]) (simp add: u3qdb_del.simps)
next
  case (Node l n r)
  then obtain p q where n: "n = Cell p q"
    by (auto simp: is_cell_iff)
  note eq = u3qdb_del.simps [of murmur "u3nt (Cell _ _) _ _"]
  obtain l' r' where l': "u3qdb_del murmur (tree_noun l) k = Inr (tree_noun l')" "map_treap murmur l'"
      "set_tree l' = {x \<in> set_tree l. nhead x \<noteq> k}"
    and r': "u3qdb_del murmur (tree_noun r) k = Inr (tree_noun r')" "map_treap murmur r'"
      "set_tree r' = {x \<in> set_tree r. nhead x \<noteq> k}"
    using Node by auto
  consider "p = k" | "p \<noteq> k" "u3qc_gor murmur k p" | "p \<noteq> k" "\<not> u3qc_gor murmur k p"
    by blast
  then show ?case
  proof cases
    case 1
    have "map_treap murmur (tjoin (u3qc_mor murmur) nhead l r)"
      using Node.prems(1) by (intro by_order.ok_tjoin by_order.ahead_children) auto
    moreover have "nhead x \<noteq> k" if "x \<in> set_tree l \<union> set_tree r" for x
      using that Node.prems(1) 1 by (auto simp: n strictly_def)
    ultimately show ?thesis
      using by_rebalance_tree [of l r murmur n] 1 Node.prems(2)
      by (intro exI [of _ "tjoin (u3qc_mor murmur) nhead l r"]) (auto simp: n eq)
  next
    case 2
    then have "nhead x \<noteq> k" if "x \<in> set_tree r" for x
      using that Node.prems(1) gor.antisym [of murmur k p] by (auto simp: n strictly_def)
    with 2 l' Node.prems show ?thesis
      by (intro exI [of _ "Node l' n r"]) (auto simp: n eq)
  next
    case 3
    then have "nhead x \<noteq> k" if "x \<in> set_tree l" for x
      using that Node.prems(1) by (auto simp: n strictly_def)
    with 3 r' Node.prems show ?thesis
      by (intro exI [of _ "Node l n r'"]) (auto simp: n eq)
  qed
qed

section \<open>Union, intersection and difference\<close>

interpretation by_union: treap_union "u3qc_gor murmur" "u3qc_mor murmur" nhead "u3qdb_uni murmur" u3a_is_cell for murmur
proof
  show "u3qdb_uni murmur u3_nul (tree_noun t) = Inr (tree_noun t)" "u3qdb_uni murmur (tree_noun t) u3_nul = Inr (tree_noun t)" for t
    by (auto simp: u3qdb_uni.simps)
qed (auto simp: u3qdb_uni.simps [of murmur "u3nt (Cell _ _) _ _" "u3nt (Cell _ _) _ _"] is_cell_iff mor.refl)

lemma by_putroot_tree:
  "pairs t \<Longrightarrow> tsplit (u3qc_gor murmur) nhead (Cell k v) t = (x, y) \<Longrightarrow>
     b_bif_putroot murmur (tree_noun t) (Cell k v) = Inr (u3nt (Cell k v) (tree_noun x) (tree_noun y))"
proof (induction t arbitrary: x y)
  case (Node l n r)
  then obtain p q where "n = Cell p q"
    by (auto simp: is_cell_iff)
  with Node show ?case
    by (auto simp: b_bif_putroot.simps [of murmur "u3nt _ _ _"] split: prod.splits if_splits)
qed (simp add: b_bif_putroot.simps)

lemma by_bif_tree:
  assumes "pairs t" and "tsplit (u3qc_gor murmur) nhead (Cell k v) t = (x, y)"
  shows "u3qdb_bif murmur (tree_noun t) (Cell k v) = Inr (u3nc (tree_noun x) (tree_noun y))"
  using by_putroot_tree [OF assms] by (simp add: u3qdb_bif_def)

lemma by_dif_join_tree:
  "pairs d \<Longrightarrow> pairs e \<Longrightarrow> b_dif_join murmur (tree_noun d) (tree_noun e) = Inr (tree_noun (tjoin (u3qc_mor murmur) nhead d e))"
proof (induction "size d + size e" arbitrary: d e rule: less_induct)
  case less
  show ?case
  proof (cases "d = Leaf \<or> e = Leaf")
    case True
    then show ?thesis
      by (cases d) (auto simp: b_dif_join.simps)
  next
    case False
    then obtain ld dp dq rd le ep eq re where de: "d = Node ld (Cell dp dq) rd" "e = Node le (Cell ep eq) re"
      using less.prems by (cases d; cases e) (auto simp: is_cell_iff)
    have "b_dif_join murmur (tree_noun rd) (tree_noun e) = Inr (tree_noun (tjoin (u3qc_mor murmur) nhead rd e))"
      "b_dif_join murmur (tree_noun d) (tree_noun le) = Inr (tree_noun (tjoin (u3qc_mor murmur) nhead d le))"
      by (rule less; use less.prems in \<open>simp add: de\<close>)+
    then show ?thesis
      by (simp add: de b_dif_join.simps [of murmur "u3nt _ _ _" "u3nt _ _ _"])
  qed
qed

lemma by_dif_tree:
  "map_treap murmur a \<Longrightarrow> map_treap murmur b \<Longrightarrow> pairs a \<Longrightarrow> pairs b \<Longrightarrow>
     \<exists>c. u3qdb_dif murmur (tree_noun a) (tree_noun b) = Inr (tree_noun c) \<and>
       map_treap murmur c \<and> set_tree c = {x \<in> set_tree a. nhead x \<notin> nhead ` set_tree b}"
proof (induction b arbitrary: a)
  case (Node l n r)
  obtain p q where n: "n = Cell p q"
    using Node.prems(4) by (auto simp: is_cell_iff)
  obtain x y where xy: "tsplit (u3qc_gor murmur) nhead n a = (x, y)"
    by fastforce
  note sp = by_order.tsplit_ok [OF Node.prems(1) xy]
  obtain d where d: "u3qdb_dif murmur (tree_noun x) (tree_noun l) = Inr (tree_noun d)" "map_treap murmur d"
      "set_tree d = {z \<in> set_tree x. nhead z \<notin> nhead ` set_tree l}"
    using Node.IH(1) [of x] Node.prems sp by auto
  obtain e where e: "u3qdb_dif murmur (tree_noun y) (tree_noun r) = Inr (tree_noun e)" "map_treap murmur e"
      "set_tree e = {z \<in> set_tree y. nhead z \<notin> nhead ` set_tree r}"
    using Node.IH(2) [of y] Node.prems sp by auto
  have ahead: "by_order.ahead murmur d e"
    using d(3) e(3) sp by_order.before_trans [of murmur _ n] by blast
  have "{z \<in> set_tree a. nhead z \<notin> nhead ` set_tree (Node l n r)} = set_tree d \<union> set_tree e"
  proof -
    have "nhead z = nhead n \<or> strictly (u3qc_gor murmur) nhead z n \<or> strictly (u3qc_gor murmur) nhead n z" for z
      by (rule by_order.key_cases [where x = z and y = n and murmur = murmur]) auto
    moreover have "nhead z \<notin> nhead ` set_tree r" if "strictly (u3qc_gor murmur) nhead z n" for z
      using that Node.prems(2) by_order.before_trans [OF that] by (auto dest: by_order.before_key)
    moreover have "nhead z \<notin> nhead ` set_tree l" if "strictly (u3qc_gor murmur) nhead n z" for z
      using that Node.prems(2) by_order.before_trans [OF _ that] by (fastforce dest: by_order.before_key)
    moreover have "nhead z \<noteq> nhead n" if "strictly (u3qc_gor murmur) nhead z n \<or> strictly (u3qc_gor murmur) nhead n z" for z
      using that by (auto dest: by_order.before_key)
    ultimately show ?thesis
      using sp d(3) e(3) by auto blast+
  qed
  moreover have "pairs d" "pairs e"
    using d(3) e(3) sp Node.prems(3) by auto
  moreover have "u3qdb_dif murmur (tree_noun a) (tree_noun (Node l n r)) = Inr (tree_noun (tjoin (u3qc_mor murmur) nhead d e))"
    using d e by_bif_tree [OF Node.prems(3) xy [unfolded n]] calculation
    by (simp add: n u3qdb_dif.simps [of murmur _ "u3nt _ _ _"] by_dif_join_tree)
  ultimately show ?case
    using by_order.ok_tjoin [OF d(2) e(2) ahead] by auto
qed (auto simp: u3qdb_dif.simps)

lemma by_int_step:
  assumes "\<exists>x. u3qdb_int murmur a b = Inr (tree_noun x) \<and> map_treap murmur x \<and> set_tree x = X"
    and "\<exists>y. u3qdb_int murmur c d = Inr (tree_noun y) \<and> map_treap murmur y \<and> set_tree y = Y"
    and "\<forall>x \<in> X. u3a_is_cell x" "\<forall>y \<in> Y. u3a_is_cell y" and "\<And>x y. x \<in> X \<Longrightarrow> y \<in> Y \<Longrightarrow> nhead x \<noteq> nhead y"
  shows "\<exists>z. on_ok (u3qdb_int murmur a b) (\<lambda>x. on_ok (u3qdb_int murmur c d) (\<lambda>y. u3qdb_uni murmur x y)) = Inr (tree_noun z) \<and>
    map_treap murmur z \<and> set_tree z = X \<union> Y"
proof -
  obtain x y where xy: "u3qdb_int murmur a b = Inr (tree_noun x)" "map_treap murmur x" "set_tree x = X"
      "u3qdb_int murmur c d = Inr (tree_noun y)" "map_treap murmur y" "set_tree y = Y"
    using assms(1,2) by blast
  then obtain z where "u3qdb_uni murmur (tree_noun x) (tree_noun y) = Inr (tree_noun z)" "map_treap murmur z"
      "set_tree z = set_tree x \<union> set_tree y"
    using by_union.united_distinct [of murmur x y] assms(3-5) by blast
  with xy show ?thesis by auto
qed

lemma by_int_tree:
  "map_treap murmur a \<Longrightarrow> map_treap murmur b \<Longrightarrow> pairs a \<Longrightarrow> pairs b \<Longrightarrow>
     \<exists>c. u3qdb_int murmur (tree_noun a) (tree_noun b) = Inr (tree_noun c) \<and>
       map_treap murmur c \<and> set_tree c = keep nhead (set_tree a) (set_tree b)"
proof (induction "size a + size b" arbitrary: a b rule: less_induct)
  case less
  note ih = less.hyps
  show ?case
  proof (cases "a = Leaf \<or> b = Leaf")
    case True
    then show ?thesis
      by (intro exI [of _ Leaf]) (auto simp: u3qdb_int.simps keep_def)
  next
    case False
    then obtain la pa qa ra lb pb qb rb where ab: "a = Node la (Cell pa qa) ra" "b = Node lb (Cell pb qb) rb"
      using less.prems by (cases a; cases b) (auto simp: is_cell_iff)
    note p = less.prems [unfolded ab]
    note eq = u3qdb_int.simps [of murmur "u3nt (Cell _ _) _ _" "u3nt (Cell _ _) _ _"]
    note da = by_order.sides_distinct [OF p(1)] and db = by_order.sides_distinct [OF p(2)]
    have bf: "strictly (u3qc_gor murmur) nhead (Cell k v) (Cell l w)" if "u3qc_gor murmur k l" "k \<noteq> l" for k l v w
      using that by (simp add: strictly_def)
    have nbf: "strictly (u3qc_gor murmur) nhead (Cell l w) (Cell k v)" if "\<not> u3qc_gor murmur k l" for k l v w
      using that gor.not_le_strict by (simp add: strictly_def)
    consider "pa = pb" | "pa \<noteq> pb" "u3qc_mor murmur pa pb" "u3qc_gor murmur pb pa"
      | "pa \<noteq> pb" "u3qc_mor murmur pa pb" "\<not> u3qc_gor murmur pb pa"
      | "pa \<noteq> pb" "\<not> u3qc_mor murmur pa pb" "u3qc_gor murmur pa pb"
      | "pa \<noteq> pb" "\<not> u3qc_mor murmur pa pb" "\<not> u3qc_gor murmur pa pb"
      by blast
    then show ?thesis
    proof cases
      case 1
      obtain l r where lr: "u3qdb_int murmur (tree_noun la) (tree_noun lb) = Inr (tree_noun l)" "map_treap murmur l"
          "set_tree l = keep nhead (set_tree la) (set_tree lb)"
        "u3qdb_int murmur (tree_noun ra) (tree_noun rb) = Inr (tree_noun r)" "map_treap murmur r"
          "set_tree r = keep nhead (set_tree ra) (set_tree rb)"
        using ih [of la lb] ih [of ra rb] p by (auto simp: ab)
      have "map_treap murmur (Node l (Cell pb qb) r)"
        using lr p(2) by (auto simp: keep_def)
      with lr 1 by_order.keep_same [OF p(1,2)] show ?thesis
        by (intro exI [of _ "Node l (Cell pb qb) r"]) (auto simp: ab eq mor.refl)
    next
      case 2
      have "\<exists>z. on_ok (u3qdb_int murmur (tree_noun la) (tree_noun (Node lb (Cell pb qb) Leaf))) (\<lambda>x.
          on_ok (u3qdb_int murmur (tree_noun a) (tree_noun rb)) (\<lambda>y. u3qdb_uni murmur x y)) = Inr (tree_noun z) \<and>
        map_treap murmur z \<and> set_tree z = keep nhead (set_tree la) (set_tree (Node lb (Cell pb qb) Leaf)) \<union> keep nhead (set_tree a) (set_tree rb)"
      proof (rule by_int_step)
        show "nhead x \<noteq> nhead y" if "x \<in> keep nhead (set_tree la) (set_tree (Node lb (Cell pb qb) Leaf))" "y \<in> keep nhead (set_tree a) (set_tree rb)" for x y
          using that db by (fastforce simp: keep_def ab)
      qed (use ih [of "la" "(Node lb (Cell pb qb) Leaf)"] ih [of "a" "rb"] p in \<open>auto simp: ab keep_def\<close>)
      then show ?thesis
        using 2 by_order.keep_before(1) [OF p(1,2) bf [OF 2(3)]] by (simp add: ab eq)
    next
      case 3
      have "\<exists>z. on_ok (u3qdb_int murmur (tree_noun ra) (tree_noun (Node Leaf (Cell pb qb) rb))) (\<lambda>x.
          on_ok (u3qdb_int murmur (tree_noun a) (tree_noun lb)) (\<lambda>y. u3qdb_uni murmur x y)) = Inr (tree_noun z) \<and>
        map_treap murmur z \<and> set_tree z = keep nhead (set_tree ra) (set_tree (Node Leaf (Cell pb qb) rb)) \<union> keep nhead (set_tree a) (set_tree lb)"
      proof (rule by_int_step)
        show "nhead x \<noteq> nhead y" if "x \<in> keep nhead (set_tree ra) (set_tree (Node Leaf (Cell pb qb) rb))" "y \<in> keep nhead (set_tree a) (set_tree lb)" for x y
          using that db by (fastforce simp: keep_def ab)
      qed (use ih [of "ra" "(Node Leaf (Cell pb qb) rb)"] ih [of "a" "lb"] p in \<open>auto simp: ab keep_def\<close>)
      then show ?thesis
        using 3 by_order.keep_after(1) [OF p(1,2) nbf [OF 3(3)]] by (simp add: ab eq)
    next
      case 4
      have "\<exists>z. on_ok (u3qdb_int murmur (tree_noun (Node la (Cell pa qa) Leaf)) (tree_noun lb)) (\<lambda>x.
          on_ok (u3qdb_int murmur (tree_noun ra) (tree_noun b)) (\<lambda>y. u3qdb_uni murmur x y)) = Inr (tree_noun z) \<and>
        map_treap murmur z \<and> set_tree z = keep nhead (set_tree (Node la (Cell pa qa) Leaf)) (set_tree lb) \<union> keep nhead (set_tree ra) (set_tree b)"
      proof (rule by_int_step)
        show "nhead x \<noteq> nhead y" if "x \<in> keep nhead (set_tree (Node la (Cell pa qa) Leaf)) (set_tree lb)" "y \<in> keep nhead (set_tree ra) (set_tree b)" for x y
          using that da by (fastforce simp: keep_def ab)
      qed (use ih [of "(Node la (Cell pa qa) Leaf)" "lb"] ih [of "ra" "b"] p in \<open>auto simp: ab keep_def\<close>)
      then show ?thesis
        using 4 by_order.keep_after(2) [OF p(1,2) bf [OF 4(3,1)]] by (simp add: ab eq)
    next
      case 5
      have "\<exists>z. on_ok (u3qdb_int murmur (tree_noun (Node Leaf (Cell pa qa) ra)) (tree_noun rb)) (\<lambda>x.
          on_ok (u3qdb_int murmur (tree_noun la) (tree_noun b)) (\<lambda>y. u3qdb_uni murmur x y)) = Inr (tree_noun z) \<and>
        map_treap murmur z \<and> set_tree z = keep nhead (set_tree (Node Leaf (Cell pa qa) ra)) (set_tree rb) \<union> keep nhead (set_tree la) (set_tree b)"
      proof (rule by_int_step)
        show "nhead x \<noteq> nhead y" if "x \<in> keep nhead (set_tree (Node Leaf (Cell pa qa) ra)) (set_tree rb)" "y \<in> keep nhead (set_tree la) (set_tree b)" for x y
          using that da by (fastforce simp: keep_def ab)
      qed (use ih [of "(Node Leaf (Cell pa qa) ra)" "rb"] ih [of "la" "b"] p in \<open>auto simp: ab keep_def\<close>)
      then show ?thesis
        using 5 by_order.keep_before(2) [OF p(1,2) nbf [OF 5(3)]] by (simp add: ab eq)
    qed
  qed
qed

section \<open>Lists and keys\<close>

lemma by_gas_tree:
  "map_treap murmur t \<Longrightarrow> set_tree t = map_graph m \<Longrightarrow>
     \<exists>t'. u3qdb_gas murmur (tree_noun t) (list_noun (map (\<lambda>(k, v). Cell k v) xs)) = Inr (tree_noun t') \<and>
       map_treap murmur t' \<and> set_tree t' = map_graph (m ++ map_of (rev xs))"
proof (induction xs arbitrary: t m)
  case (Cons x xs)
  obtain k v where x: "x = (k, v)"
    by fastforce
  let ?t = "tput (u3qc_gor murmur) (u3qc_mor murmur) nhead (Cell k v) t"
  have t: "map_treap murmur ?t" "set_tree ?t = map_graph (m(k \<mapsto> v))"
    using by_order.tput_ok [OF Cons.prems(1)] Cons.prems(2) by (simp_all add: graph_ops)
  have "m ++ map_of (rev (x # xs)) = m(k \<mapsto> v) ++ map_of (rev xs)"
    by (simp add: x map_of_append map_add_assoc)
  with Cons.IH [OF t] show ?case
    using by_put_tree [OF map_graph_pairs [OF Cons.prems(2)], of murmur k v]
    by (simp add: x u3qdb_gas.simps [of murmur _ "Cell _ _"] del: map_of_append fun_upd_apply)
qed (auto simp: u3qdb_gas.simps)

lemma by_key_tree:
  "pairs t \<Longrightarrow> set_treap murmur s \<Longrightarrow> \<exists>t'. by_key murmur (tree_noun t) (tree_noun s) = Inr (tree_noun t') \<and>
     set_treap murmur t' \<and> set_tree t' = set_tree s \<union> nhead ` set_tree t"
proof (induction t arbitrary: s)
  case (Node l n r)
  obtain p q where n: "n = Cell p q"
    using Node.prems(1) by (auto simp: is_cell_iff)
  let ?s = "tput (u3qc_gor murmur) (u3qc_mor murmur) self p s"
  have s: "set_treap murmur ?s" "set_tree ?s = insert p (set_tree s)"
    using in_order.tput_ok [OF Node.prems(2)] by (auto simp: self_simps)
  obtain u where u: "by_key murmur (tree_noun l) (tree_noun ?s) = Inr (tree_noun u)" "set_treap murmur u"
      "set_tree u = set_tree ?s \<union> nhead ` set_tree l"
    using Node.IH(1) [OF _ s(1)] Node.prems(1) by auto
  obtain v where "by_key murmur (tree_noun r) (tree_noun u) = Inr (tree_noun v)" "set_treap murmur v"
      "set_tree v = set_tree u \<union> nhead ` set_tree r"
    using Node.IH(2) [OF _ u(2)] Node.prems(1) by auto
  with u s(2) show ?case
    by (intro exI [of _ v]) (auto simp: n by_key.simps [of murmur "u3nt _ _ _"] put_tree)
qed (auto simp: by_key.simps)

section \<open>Gates\<close>

text \<open>A gate that changes values leaves the keys, and with them the shape, as they are.\<close>

lemma treap_map_tree:
  "(\<And>x. x \<in> set_tree t \<Longrightarrow> key (f x) = key x) \<Longrightarrow> treap gor mor key (map_tree f t) = treap gor mor key t"
  by (induction t) (auto simp: strictly_def tree.set_map)

text \<open>The value at \<open>k\<close> replaced by \<open>w\<close>.\<close>

abbreviation set_value :: "noun \<Rightarrow> noun \<Rightarrow> noun tree \<Rightarrow> noun tree" where
  "set_value k w \<equiv> map_tree (\<lambda>x. if nhead x = k then Cell k w else x)"

lemma set_value_id: "(\<And>x. x \<in> set_tree t \<Longrightarrow> nhead x \<noteq> k) \<Longrightarrow> set_value k w t = t"
  by (induction t) auto

lemma set_value_set:
  "Cell k v \<in> set_tree t \<Longrightarrow> set_tree (set_value k w t) = override nhead (set_tree t) {Cell k w}"
  by (force simp: tree.set_map override_def)

lemma key_side:
  assumes "map_treap murmur (Node l (Cell p q) r)"
  shows "k = p \<Longrightarrow> x \<in> set_tree l \<union> set_tree r \<Longrightarrow> nhead x \<noteq> k"
    and "u3qc_gor murmur k p \<Longrightarrow> x \<in> set_tree r \<Longrightarrow> nhead x \<noteq> k"
    and "\<not> u3qc_gor murmur k p \<Longrightarrow> x \<in> set_tree l \<Longrightarrow> nhead x \<noteq> k"
  using assms gor.antisym [of murmur k p] by (auto simp: strictly_def)

lemma jab_found:
  "map_treap murmur t \<Longrightarrow> pairs t \<Longrightarrow> Cell k v \<in> set_tree t \<Longrightarrow> slam gat v = Inr w \<Longrightarrow>
     u3qdb_jab murmur slam (tree_noun t) k gat = Inr (tree_noun (set_value k w t))"
proof (induction t)
  case (Node l n r)
  then obtain p q where n: "n = Cell p q"
    by (auto simp: is_cell_iff)
  note side = key_side [OF Node.prems(1) [unfolded n]]
  consider "k = p" | "k \<noteq> p" "u3qc_gor murmur k p" | "k \<noteq> p" "\<not> u3qc_gor murmur k p"
    by blast
  then show ?case
  proof cases
    case 1
    then have "v = q" "set_value k w l = l" "set_value k w r = r"
      using Node.prems(3) side(1) [OF 1, of "Cell k v"] side(1) [OF 1] by (auto simp: n intro!: set_value_id)
    with 1 Node.prems(4) show ?thesis
      by (simp add: n u3qdb_jab.simps [of murmur slam "u3nt (Cell _ _) _ _"])
  next
    case 2
    then have "Cell k v \<in> set_tree l" "set_value k w r = r"
      using Node.prems(3) side(2) [OF 2(2), of "Cell k v"] side(2) [OF 2(2)] by (auto simp: n intro!: set_value_id)
    with 2 Node show ?thesis
      by (simp add: n u3qdb_jab.simps [of murmur slam "u3nt (Cell _ _) _ _"])
  next
    case 3
    then have "Cell k v \<in> set_tree r" "set_value k w l = l"
      using Node.prems(3) side(3) [OF 3(2), of "Cell k v"] side(3) [OF 3(2)] by (auto simp: n intro!: set_value_id)
    with 3 Node show ?thesis
      by (simp add: n u3qdb_jab.simps [of murmur slam "u3nt (Cell _ _) _ _"])
  qed
qed simp

lemma jab_missing: "pairs t \<Longrightarrow> (\<And>v. Cell k v \<notin> set_tree t) \<Longrightarrow> u3qdb_jab murmur slam (tree_noun t) k gat = Inl Exit"
proof (induction t)
  case (Node l n r)
  then obtain p q where "n = Cell p q"
    by (auto simp: is_cell_iff)
  with Node show ?case
    by (auto simp: u3qdb_jab.simps [of murmur slam "u3nt (Cell _ _) _ _"])
qed (simp add: u3qdb_jab.simps)

lemma by_urn_tree:
  "pairs t \<Longrightarrow> (\<And>x. x \<in> set_tree t \<Longrightarrow> sit x = Inr (f x)) \<Longrightarrow>
     by_urn sit (tree_noun t) = Inr (tree_noun (map_tree (\<lambda>x. Cell (nhead x) (f x)) t))"
proof (induction t)
  case (Node l n r)
  then obtain p q where "n = Cell p q"
    by (auto simp: is_cell_iff)
  with Node show ?case
    by (simp add: by_urn.simps [of sit "u3nt (Cell _ _) _ _"])
qed (simp add: by_urn.simps)

fun ntail :: "noun \<Rightarrow> noun" where
  "ntail (Cell h t) = t"
| "ntail (Atom a) = Atom a"

lemma by_run_tree:
  "pairs t \<Longrightarrow> (\<And>x. x \<in> set_tree t \<Longrightarrow> sit (ntail x) = Inr (f (ntail x))) \<Longrightarrow>
     by_run sit (tree_noun t) = Inr (tree_noun (map_tree (\<lambda>x. Cell (nhead x) (f (ntail x))) t))"
proof (induction t)
  case (Node l n r)
  then obtain p q where n: "n = Cell p q"
    by (auto simp: is_cell_iff)
  with Node.prems(2) [of n] have "sit q = Inr (f q)"
    by simp
  with n Node show ?case
    by (simp add: by_run.simps [of sit "u3nt (Cell _ _) _ _"])
qed (simp add: by_run.simps)

lemma graph_map:
  "(\<lambda>x. Cell (nhead x) (f (nhead x) (ntail x))) ` map_graph m = map_graph (\<lambda>k. map_option (f k) (m k))"
  by (rule set_eq_cells) (force simp: image_iff map_graph_def)+

lemma loob_of_loob [simp]: "loob_of (loob b) = Inr b"
  by (simp add: loob_of_def loob_def)

lemma by_all_tree:
  "pairs t \<Longrightarrow> (\<And>x. x \<in> set_tree t \<Longrightarrow> sit (ntail x) = Inr (loob (P (ntail x)))) \<Longrightarrow>
     by_all sit (tree_noun t) = Inr (\<forall>x \<in> set_tree t. P (ntail x))"
proof (induction t)
  case (Node l n r)
  then obtain p q where n: "n = Cell p q"
    by (auto simp: is_cell_iff)
  with Node.prems(2) [of n] have "sit q = Inr (loob (P q))"
    by simp
  with n Node show ?case
    by (auto simp: by_all.simps [of sit "u3nt (Cell _ _) _ _"])
qed (simp add: by_all.simps)

lemma by_any_tree:
  "pairs t \<Longrightarrow> (\<And>x. x \<in> set_tree t \<Longrightarrow> sit (ntail x) = Inr (loob (P (ntail x)))) \<Longrightarrow>
     by_any sit (tree_noun t) = Inr (\<exists>x \<in> set_tree t. P (ntail x))"
proof (induction t)
  case (Node l n r)
  then obtain p q where n: "n = Cell p q"
    by (auto simp: is_cell_iff)
  with Node.prems(2) [of n] have "sit q = Inr (loob (P q))"
    by simp
  with n Node show ?case
    by (auto simp: by_any.simps [of sit "u3nt (Cell _ _) _ _"])
qed (simp add: by_any.simps)

section \<open>The check\<close>

text \<open>What the check of a map accepts, with strict comparisons of keys.\<close>

fun by_apt_tree :: "murmur \<Rightarrow> noun tree \<Rightarrow> noun option \<Rightarrow> noun option \<Rightarrow> bool" where
  "by_apt_tree murmur Leaf l r \<longleftrightarrow> True"
| "by_apt_tree murmur (Node t n u) l r \<longleftrightarrow>
     (\<forall>x. l = Some x \<longrightarrow> u3qc_gor murmur (nhead n) x \<and> nhead n \<noteq> x) \<and>
     (\<forall>x. r = Some x \<longrightarrow> u3qc_gor murmur x (nhead n) \<and> x \<noteq> nhead n) \<and>
     (t \<noteq> Leaf \<longrightarrow> strictly (u3qc_mor murmur) nhead n (value t)) \<and>
     (u \<noteq> Leaf \<longrightarrow> strictly (u3qc_mor murmur) nhead n (value u)) \<and>
     by_apt_tree murmur t (Some (nhead n)) r \<and> by_apt_tree murmur u l (Some (nhead n))"

lemma by_apt_iff: "pairs t \<Longrightarrow> by_apt murmur (tree_noun t) l r = Inr (by_apt_tree murmur t l r)"
proof (induction t arbitrary: l r)
  case (Node t n u)
  have h: "\<exists>h. u3h (tree_noun v) = Inr h \<and> u3h h = Inr (nhead (value v))" if "v \<noteq> Leaf" "pairs v" for v
    using that by (cases v) (auto simp: is_cell_iff)
  obtain p q where n: "n = Cell p q"
    using Node.prems by (auto simp: is_cell_iff)
  have lr: "by_apt murmur (tree_noun t) l r = Inr (by_apt_tree murmur t l r)"
    "by_apt murmur (tree_noun u) l r = Inr (by_apt_tree murmur u l r)" for l r
    using Node by auto
  show ?case
    using lr h [of t] h [of u] Node.prems
    by (cases l; cases r; cases "t = Leaf"; cases "u = Leaf")
      (auto simp: n by_apt.simps [of murmur "u3nt _ _ _"] strictly_def)
qed (simp add: by_apt.simps)

lemma by_apt_shape: "by_apt murmur a l r = Inr True \<Longrightarrow> \<exists>t. a = tree_noun t \<and> pairs t"
proof (induction a arbitrary: l r rule: measure_induct_rule [of size])
  case (less a)
  show ?case
  proof (cases "a = u3_nul")
    case True
    then show ?thesis
      by (intro exI [of _ Leaf]) simp
  next
    case False
    then obtain p q t u where a: "a = u3nt (Cell p q) t u"
      using less.prems by (auto simp: by_apt.simps [of murmur a] on_ok_eq_Inr u3x_trel_Inr u3h_Inr)
    have "\<exists>x. t = tree_noun x \<and> pairs x"
    proof (cases "t = u3_nul")
      case False
      then have "by_apt murmur t (Some p) r = Inr True"
        using less.prems by (auto simp: a by_apt.simps [of murmur "u3nt _ _ _"] on_ok_eq_Inr split: if_splits)
      then show ?thesis
        using less.IH [of t] by (auto simp: a)
    qed (intro exI [of _ Leaf], simp)
    moreover have "\<exists>x. u = tree_noun x \<and> pairs x"
    proof (cases "u = u3_nul")
      case False
      then have "by_apt murmur u l (Some p) = Inr True"
        using less.prems by (auto simp: a by_apt.simps [of murmur "u3nt _ _ _"] on_ok_eq_Inr split: if_splits)
      then show ?thesis
        using less.IH [of u] by (auto simp: a)
    qed (intro exI [of _ Leaf], simp)
    ultimately obtain x y where "t = tree_noun x" "pairs x" "u = tree_noun y" "pairs y"
      by blast
    then show ?thesis
      by (intro exI [of _ "Node x (Cell p q) y"]) (auto simp: a)
  qed
qed

lemma by_apt_bounds:
  "by_apt_tree murmur t l r \<Longrightarrow> x \<in> set_tree t \<Longrightarrow>
     (\<forall>y. l = Some y \<longrightarrow> u3qc_gor murmur (nhead x) y \<and> nhead x \<noteq> y) \<and>
     (\<forall>y. r = Some y \<longrightarrow> u3qc_gor murmur y (nhead x) \<and> y \<noteq> nhead x)"
proof (induction t arbitrary: l r)
  case (Node t n u)
  consider "x = n" | "x \<in> set_tree t" | "x \<in> set_tree u"
    using Node.prems(2) by auto
  then show ?case
  proof cases
    case 2
    then have "u3qc_gor murmur (nhead x) (nhead n)" "nhead x \<noteq> nhead n"
        "\<forall>y. r = Some y \<longrightarrow> u3qc_gor murmur y (nhead x) \<and> y \<noteq> nhead x"
      using Node.IH(1) [of "Some (nhead n)" r] Node.prems(1) by auto
    with Node.prems(1) gor.strict_trans [of murmur "nhead x" "nhead n"] show ?thesis by simp
  next
    case 3
    then have "u3qc_gor murmur (nhead n) (nhead x)" "nhead n \<noteq> nhead x"
        "\<forall>y. l = Some y \<longrightarrow> u3qc_gor murmur (nhead x) y \<and> nhead x \<noteq> y"
      using Node.IH(2) [of l "Some (nhead n)"] Node.prems(1) by auto
    with Node.prems(1) gor.strict_trans [of murmur _ "nhead n" "nhead x"] show ?thesis by simp
  qed (use Node.prems(1) in auto)
qed simp

lemma by_apt_heap:
  "by_apt_tree murmur t l r \<Longrightarrow> x \<in> set_tree t \<Longrightarrow> x = value t \<or> strictly (u3qc_mor murmur) nhead (value t) x"
proof (induction t arbitrary: l r)
  case (Node t n u)
  consider "x = n" | "x \<in> set_tree t" "t \<noteq> Leaf" | "x \<in> set_tree u" "u \<noteq> Leaf"
    using Node.prems(2) by (cases t; cases u) auto
  then show ?case
  proof cases
    case 2
    then show ?thesis
      using Node.IH(1) [of "Some (nhead n)" r] Node.prems(1) by_order.above_trans [of murmur n "value t" x] by auto
  next
    case 3
    then show ?thesis
      using Node.IH(2) [of l "Some (nhead n)"] Node.prems(1) by_order.above_trans [of murmur n "value u" x] by auto
  qed simp
qed simp

lemma by_apt_treap: "by_apt_tree murmur t l r \<Longrightarrow> map_treap murmur t"
proof (induction t arbitrary: l r)
  case (Node t n u)
  have b: "strictly (u3qc_gor murmur) nhead x n" if "x \<in> set_tree t" for x
    using that by_apt_bounds [of murmur t "Some (nhead n)" r x] Node.prems(1) by (simp add: strictly_def)
  have c: "strictly (u3qc_gor murmur) nhead n x" if "x \<in> set_tree u" for x
    using that by_apt_bounds [of murmur u l "Some (nhead n)" x] Node.prems(1) by (simp add: strictly_def)
  have "x \<noteq> n" if "x \<in> set_tree t \<union> set_tree u" for x
    using that b [of x] c [of x] by (auto simp: strictly_def)
  then have "strictly (u3qc_mor murmur) nhead n x" if "x \<in> set_tree t \<union> set_tree u" for x
    using that by_apt_heap [OF Node.prems(1), of x] by auto
  with b c Node show ?case by auto
qed simp

lemma treap_by_apt:
  "map_treap murmur t \<Longrightarrow> (\<And>x y. x \<in> set_tree t \<Longrightarrow> l = Some y \<Longrightarrow> u3qc_gor murmur (nhead x) y \<and> nhead x \<noteq> y) \<Longrightarrow>
     (\<And>x y. x \<in> set_tree t \<Longrightarrow> r = Some y \<Longrightarrow> u3qc_gor murmur y (nhead x) \<and> y \<noteq> nhead x) \<Longrightarrow> by_apt_tree murmur t l r"
proof (induction t arbitrary: l r)
  case (Node t n u)
  have v: "value t \<in> set_tree t" if "t \<noteq> Leaf" for t :: "noun tree"
    using that by (cases t) auto
  have "by_apt_tree murmur t (Some (nhead n)) r"
    by (rule Node.IH(1)) (use Node.prems in \<open>auto simp: strictly_def\<close>)
  moreover have "by_apt_tree murmur u l (Some (nhead n))"
    by (rule Node.IH(2)) (use Node.prems in \<open>auto simp: strictly_def\<close>)
  ultimately show ?case
    using Node.prems v [of t] v [of u] by auto
qed simp

text \<open>A treap of pairs is the treap of a map.\<close>

lemma pairs_graph:
  assumes "map_treap murmur t" and "pairs t"
  shows "\<exists>m. set_tree t = map_graph m"
proof (intro exI)
  let ?m = "\<lambda>k. if \<exists>v. Cell k v \<in> set_tree t then Some (SOME v. Cell k v \<in> set_tree t) else None"
  show "set_tree t = map_graph ?m"
  proof (rule set_eq_cells)
    fix k v
    have "(SOME w. Cell k w \<in> set_tree t) = v" if "Cell k v \<in> set_tree t"
      using that someI [of "\<lambda>w. Cell k w \<in> set_tree t" v] by_order.key_inj [OF assms(1), of "Cell k v"] by force
    then show "Cell k v \<in> set_tree t \<longleftrightarrow> Cell k v \<in> map_graph ?m"
      by (auto intro: someI)
  next
    fix a
    show "Atom a \<in> set_tree t \<longleftrightarrow> Atom a \<in> map_graph ?m"
      using assms(2) by auto
  qed
qed

end
