(* ===== verification/Jet_Properties.thy ===== *)
theory Jet_Properties
  imports Jet_By_Correct
begin

text \<open>
  The properties of noun access, of the orders and of the set and map jets, each with a witness
  at a concrete input. The witnesses use a simple multiplicative hash for the mugs, and one that
  sends everything to the same mug where a collision is the point.
\<close>

definition poly_hash :: murmur where
  "poly_hash bs seed = foldl (\<lambda>h b. 31 * h + ucast b) seed bs"

definition const_hash :: murmur where
  "const_hash bs seed = 5"

definition twice :: "noun \<Rightarrow> noun" where
  "twice x = u3nt x (u3nt x u3_nul u3_nul) u3_nul"

lemma is_set_empty [simp]: "is_set murmur S u3_nul \<longleftrightarrow> S = {}"
proof
  assume "is_set murmur S u3_nul"
  then obtain t where "tree_noun t = u3_nul" "set_tree t = S"
    by (metis is_setE)
  then show "S = {}" by simp
next
  assume "S = {}"
  then show "is_set murmur S u3_nul"
    using is_setI [of murmur Leaf] by simp
qed

lemma is_set_single [simp]: "is_set murmur {x} (u3nt x u3_nul u3_nul)"
  using is_setI [of murmur "Node Leaf x Leaf" "{x}"] by simp

lemma is_map_single [simp]: "is_map murmur [k \<mapsto> v] (u3nt (Cell k v) u3_nul u3_nul)"
  using is_mapI [of murmur "Node Leaf (Cell k v) Leaf" "[k \<mapsto> v]"] by (auto simp: map_graph_def)

section \<open>Access\<close>

text \<open>
  Reading the fragment of a noun at an axis, in one word or in many, follows the binary digits of
  the axis from the root and fails exactly where the path leaves the noun.
\<close>

theorem at_axis: "u3r_at (Atom a) b = Inr (fragment a b)"
  by (rule u3r_at_fragment)

text \<open>
  C32. Deconstructing a noun at several axes, which are in tree order, writes the fragment at each
  of them, and fails when one of them has none.
\<close>

theorem mean_in_tree_order:
  assumes "axes \<noteq> []" and "\<forall>a \<in> set axes. 0 < a" and "sorted_wrt path_before (map (\<lambda>a. axis_path (unat a)) axes)"
  shows "u3r_mean som axes = Inr (those (map (\<lambda>a. fragment (unat a) som) axes))"
proof -
  have "map (\<lambda>p. walk p som) (paths axes) = map (\<lambda>a. fragment (unat a) som) axes"
    using assms(2) by (auto simp: fragment_def unat_eq_0)
  then show ?thesis
    using assms(1) by (simp add: u3r_mean_def mean_extract_ok [OF assms(2,3)] del: map_map)
qed

theorem mean_in_tree_order_witness:
  "u3r_mean (u3nt (Atom 1) (Atom 2) (Atom 3)) [2, 7] = Inr (Some [Atom 1, Atom 3])"
proof -
  have "axis_path 2 = [False]" "axis_path 7 = [True, True]"
    by (simp_all add: axis_path_Suc)
  then show ?thesis
    using mean_in_tree_order [of "[2, 7]" "u3nt (Atom 1) (Atom 2) (Atom 3)"] by (simp add: fragment_def)
qed

section \<open>Orders\<close>

text \<open>
  The orders of sets and maps are total orders of all nouns, whatever the hash, colliding
  mugs included.
\<close>

theorem orders_total:
  "noun_order u3qc_dor \<and> noun_order (u3qc_gor murmur) \<and> noun_order (u3qc_mor murmur)"
  using dor.noun_order_axioms gor.noun_order_axioms mor.noun_order_axioms by blast

section \<open>Sets\<close>

text \<open>
  C33. The noun of a set is unique: two sets are the same noun exactly when they have the same
  elements, however they were built.
\<close>

theorem sets_canonical:
  assumes "is_set murmur S a" and "is_set murmur T b"
  shows "a = b \<longleftrightarrow> S = T"
  using assms in_order.unique [of murmur] by (metis is_setE tree_noun_inj)

lemma put_set:
  assumes "is_set murmur S a"
  shows "\<exists>c. u3qdi_put murmur a b = Inr c \<and> is_set murmur (insert b S) c"
proof -
  obtain t where t: "a = tree_noun t" "set_treap murmur t" "set_tree t = S"
    using assms by (rule is_setE)
  have "is_set murmur (insert b S) (tree_noun (tput (u3qc_gor murmur) (u3qc_mor murmur) self b t))"
    using in_order.tput_ok [OF t(2)] t(3) by (intro is_setI) (auto simp: self_simps)
  then show ?thesis
    using t(1) put_tree by metis
qed

theorem sets_canonical_witness:
  "\<exists>a b. u3qdi_put poly_hash (u3nt (Atom 1) u3_nul u3_nul) (Atom 2) = Inr a \<and> u3qdi_put poly_hash (u3nt (Atom 2) u3_nul u3_nul) (Atom 1) = Inr b \<and> a = b"
proof -
  obtain a b where ab: "u3qdi_put poly_hash (u3nt (Atom 1) u3_nul u3_nul) (Atom 2) = Inr a" "is_set poly_hash {Atom 2, Atom 1} a"
      "u3qdi_put poly_hash (u3nt (Atom 2) u3_nul u3_nul) (Atom 1) = Inr b" "is_set poly_hash {Atom 1, Atom 2} b"
    using put_set [of poly_hash "{Atom 1}" "u3nt (Atom 1) u3_nul u3_nul" "Atom 2"] put_set [of poly_hash "{Atom 2}" "u3nt (Atom 2) u3_nul u3_nul" "Atom 1"]
    by auto
  then show ?thesis
    using sets_canonical [OF ab(2,4)] by auto
qed

text \<open>
  C28. On a set, membership decides the elements, insertion and deletion never bail, and their results
  are the sets with the element added and removed.
\<close>

theorem set_update_refines:
  assumes "is_set murmur S a"
  shows "u3qdi_has murmur a b = Inr (b \<in> S) \<and>
    (\<exists>c. u3qdi_put murmur a b = Inr c \<and> is_set murmur (insert b S) c) \<and>
    (\<exists>c. u3qdi_del murmur a b = Inr c \<and> is_set murmur (S - {b}) c)"
proof -
  obtain t where t: "a = tree_noun t" "set_treap murmur t" "set_tree t = S"
    using assms by (rule is_setE)
  show ?thesis
    using has_tree [OF t(2)] del_tree [OF t(2), of b] t(1,3) put_set [OF assms, of b] is_setI by metis
qed

theorem set_update_refines_witness:
  "\<exists>c. u3qdi_put poly_hash (u3nt (Atom 1) u3_nul u3_nul) (Atom 2) = Inr c \<and> is_set poly_hash {Atom 2, Atom 1} c"
  using set_update_refines [of poly_hash "{Atom 1}" "u3nt (Atom 1) u3_nul u3_nul" "Atom 2"] by simp

text \<open>
  C4. Union, intersection and difference of sets never bail and compute the union, the intersection
  and the difference.
\<close>

theorem set_algebra_refines:
  assumes "is_set murmur S a" and "is_set murmur T b"
  shows "(\<exists>c. u3qdi_uni murmur a b = Inr c \<and> is_set murmur (S \<union> T) c) \<and>
    (\<exists>c. u3qdi_int murmur a b = Inr c \<and> is_set murmur (S \<inter> T) c) \<and>
    (\<exists>c. u3qdi_dif murmur a b = Inr c \<and> is_set murmur (S - T) c)"
proof -
  obtain s t where t: "a = tree_noun s" "set_treap murmur s" "set_tree s = S"
      "b = tree_noun t" "set_treap murmur t" "set_tree t = T"
    using assms by (metis is_setE)
  then show ?thesis
    using uni_tree [OF t(2,5)] int_tree [OF t(2,5)] dif_tree [OF t(2,5)] is_setI by metis
qed

theorem set_algebra_refines_witness:
  "\<exists>c. u3qdi_uni poly_hash (u3nt (Atom 1) u3_nul u3_nul) (u3nt (Atom 2) u3_nul u3_nul) = Inr c \<and>
     is_set poly_hash {Atom 1, Atom 2} c"
  using set_algebra_refines [of poly_hash "{Atom 1}" "u3nt (Atom 1) u3_nul u3_nul" "{Atom 2}" "u3nt (Atom 2) u3_nul u3_nul"]
  by (simp add: insert_commute)

text \<open>
  A set is bisected at any noun, in the set or not, into the sets of the elements before and
  after it.
\<close>

theorem set_bisect:
  assumes "is_set murmur S a"
  shows "\<exists>l r. u3qdi_bif murmur a b = Inr (u3nc l r) \<and>
    is_set murmur {x \<in> S. u3qc_gor murmur x b \<and> x \<noteq> b} l \<and> is_set murmur {x \<in> S. u3qc_gor murmur b x \<and> x \<noteq> b} r"
proof -
  obtain t where t: "a = tree_noun t" "set_treap murmur t" "set_tree t = S"
    using assms by (rule is_setE)
  obtain x y where xy: "tsplit (u3qc_gor murmur) self b t = (x, y)"
    by fastforce
  have "is_set murmur {x \<in> S. u3qc_gor murmur x b \<and> x \<noteq> b} (tree_noun x)"
    "is_set murmur {x \<in> S. u3qc_gor murmur b x \<and> x \<noteq> b} (tree_noun y)"
    using in_order.tsplit_ok [OF t(2) xy] t(3) by (auto intro!: is_setI simp: self_simps)
  then show ?thesis
    using bif_tree [OF xy] t(1) by blast
qed

theorem set_bisect_witness:
  "\<exists>l r. u3qdi_bif const_hash (u3nt (Atom 1) u3_nul u3_nul) (Atom 2) = Inr (u3nc l r)"
  using set_bisect [of const_hash "{Atom 1}" "u3nt (Atom 1) u3_nul u3_nul" "Atom 2"] by auto

text \<open>
  The list of a set has each element once, and collecting it again gives back the same noun;
  collecting any list gives the set of its elements.
\<close>

theorem set_list_roundtrip:
  assumes "is_set murmur S a"
  shows "(\<exists>xs. u3qdi_tap a = Inr (list_noun xs) \<and> set xs = S \<and> distinct xs \<and> u3qdi_gas murmur u3_nul (list_noun xs) = Inr a) \<and>
    (\<exists>c. u3qdi_gas murmur a (list_noun ys) = Inr c \<and> is_set murmur (S \<union> set ys) c)"
proof -
  obtain t where t: "a = tree_noun t" "set_treap murmur t" "set_tree t = S"
    using assms by (rule is_setE)
  let ?xs = "rev (inorder t)"
  have tap: "u3qdi_tap a = Inr (list_noun ?xs)"
    using tap_tree [of t "[]"] by (simp add: u3qdi_tap_def t(1))
  obtain u where u: "u3qdi_gas murmur (tree_noun Leaf) (list_noun ?xs) = Inr (tree_noun u)" "set_treap murmur u"
      "set_tree u = set ?xs"
    using gas_tree [of murmur Leaf ?xs] by auto
  then have "u = t"
    using t by (intro in_order.unique [of murmur]) auto
  with u(1) have "u3qdi_gas murmur u3_nul (list_noun ?xs) = Inr a"
    by (simp add: t(1))
  moreover have "\<exists>c. u3qdi_gas murmur a (list_noun ys) = Inr c \<and> is_set murmur (S \<union> set ys) c"
    using gas_tree [OF t(2), of ys] t(1,3) is_setI by metis
  ultimately show ?thesis
    using tap treap_distinct [OF t(2)] t(3) by (intro conjI exI [of _ ?xs]) auto
qed

theorem set_list_roundtrip_witness:
  "\<exists>c. u3qdi_gas poly_hash (u3nt (Atom 1) u3_nul u3_nul) (list_noun [Atom 3, Atom 2]) = Inr c \<and>
     is_set poly_hash {Atom 1, Atom 3, Atom 2} c"
  using set_list_roundtrip [of poly_hash "{Atom 1}" "u3nt (Atom 1) u3_nul u3_nul" "[Atom 3, Atom 2]"]
  by (simp add: insert_commute)

text \<open>
  The size of a set is the number of its elements as a 32-bit word: exact below \<open>2 ^ 32\<close>.
\<close>

theorem set_size:
  assumes "is_set murmur S a"
  shows "u3qdi_wyt a = Inr (Atom (card S mod 2 ^ 32))"
proof -
  obtain t where t: "a = tree_noun t" "set_treap murmur t" "set_tree t = S"
    using assms by (rule is_setE)
  then show ?thesis
    using wyt_tree [of t] treap_size [OF t(2)] by (simp add: u3qdi_wyt_def unat_of_nat)
qed

theorem set_size_witness: "u3qdi_wyt (u3nt (Atom 1) u3_nul u3_nul) = Inr (Atom 1)"
  using set_size [of poly_hash "{Atom 1}" "u3nt (Atom 1) u3_nul u3_nul"] by simp

text \<open>
  The check accepts every set, and what it accepts is a set whenever its list has no element
  twice.
\<close>

theorem set_check:
  "(is_set murmur S a \<longrightarrow> u3qdi_apt murmur a = Inr True) \<and>
   (u3qdi_apt murmur a = Inr True \<longrightarrow> (\<exists>xs. u3qdi_tap a = Inr (list_noun xs) \<and> (distinct xs \<longrightarrow> is_set murmur (set xs) a)))"
proof (intro conjI impI)
  assume "is_set murmur S a"
  then obtain t where "a = tree_noun t" "set_treap murmur t"
    by (rule is_setE)
  then show "u3qdi_apt murmur a = Inr True"
    using treap_apt [of murmur t None None] by (simp add: u3qdi_apt_def apt_tree_iff)
next
  assume a: "u3qdi_apt murmur a = Inr True"
  then obtain t where t: "a = tree_noun t"
    using in_apt_shape [of murmur a None None] by (auto simp: u3qdi_apt_def)
  then have apt: "apt_tree murmur t None None"
    using a by (simp add: u3qdi_apt_def apt_tree_iff)
  have "u3qdi_tap a = Inr (list_noun (rev (inorder t)))"
    using tap_tree [of t "[]"] by (simp add: u3qdi_tap_def t)
  moreover have "is_set murmur (set (rev (inorder t))) a" if "distinct (rev (inorder t))"
    unfolding t using apt_treap [OF apt] that by (intro is_setI) auto
  ultimately show "\<exists>xs. u3qdi_tap a = Inr (list_noun xs) \<and> (distinct xs \<longrightarrow> is_set murmur (set xs) a)"
    by blast
qed

theorem set_check_witness: "u3qdi_apt poly_hash (u3nt (Atom 1) u3_nul u3_nul) = Inr True"
  using set_check [of poly_hash "{Atom 1}" "u3nt (Atom 1) u3_nul u3_nul"] by simp

text \<open>
  The check of a set compares with orders that hold for equal nouns: it accepts a tree that has
  the same element twice, whose size is two, and from which a deletion does not remove the element.
\<close>

theorem set_check_accepts_repeated:
  "u3qdi_apt murmur (twice x) = Inr True \<and> u3qdi_wyt (twice x) = Inr (Atom 2) \<and>
    (\<exists>c. u3qdi_del murmur (twice x) x = Inr c \<and> u3qdi_has murmur c x = Inr True)"
proof -
  let ?a = "twice x"
  have a: "?a = tree_noun (Node (Node Leaf x Leaf) x Leaf)"
    by (simp add: twice_def)
  have "u3qdi_apt murmur ?a = Inr True"
    by (simp only: a u3qdi_apt_def apt_tree_iff) (simp add: gor.refl mor.refl)
  moreover have "u3qdi_wyt ?a = Inr (Atom 2)"
    by (simp only: a u3qdi_wyt_def wyt_tree) simp
  moreover have "u3qdi_del murmur ?a x = Inr (u3nt x u3_nul u3_nul)"
    by (simp add: twice_def u3qdi_del.simps in_rebalance.simps)
  moreover have "u3qdi_has murmur (u3nt x u3_nul u3_nul) x = Inr True"
    by (simp add: u3qdi_has.simps)
  ultimately show ?thesis by blast
qed

text \<open>
  Insertion into a noun that is not a set can read variables that were never written: a
  subtree whose root is the new element is returned without a look at its children, and the
  rotation that follows ignores that it is not a triple.
\<close>

theorem put_reads_uninitialised:
  assumes "n \<noteq> b" and "u3qc_gor murmur b n" and "\<not> u3qc_mor murmur n b"
  shows "u3qdi_put murmur (u3nt n (u3nc b (Atom x)) r) b = Inl Undefined"
  using assms by (simp add: u3qdi_put.simps [of murmur "u3nt _ _ _"] u3qdi_put.simps [of murmur "Cell b (Atom x)"])

lemma const_hash_dor:
  "u3qc_gor const_hash (Atom a) (Atom b) = u3qc_dor (Atom a) (Atom b)"
  "u3qc_mor const_hash (Atom a) (Atom b) = u3qc_dor (Atom a) (Atom b)"
proof -
  have "noun_mug const_hash (Atom a) = noun_mug const_hash (Atom b)" for a b
    by (simp add: ur_mug_bytes_def const_hash_def [abs_def])
  then show "u3qc_gor const_hash (Atom a) (Atom b) = u3qc_dor (Atom a) (Atom b)"
    "u3qc_mor const_hash (Atom a) (Atom b) = u3qc_dor (Atom a) (Atom b)"
    unfolding u3qc_gor_def u3qc_mor_def mug_mug_def Let_def by metis+
qed

theorem put_reads_uninitialised_witness:
  "u3qdi_put const_hash (u3nt (Atom 2) (u3nc (Atom 1) (Atom 0)) u3_nul) (Atom 1) = Inl Undefined"
  using put_reads_uninitialised [of "Atom 2" "Atom 1" const_hash 0 u3_nul] by (simp add: const_hash_dor dor_simps)

text \<open>
  Folding a gate over a set calls it once for each element, and collecting what a gate makes of
  the elements gives the image of the set.
\<close>

theorem set_gates:
  assumes "is_set murmur S a"
  shows "(\<exists>xs. set xs = S \<and> distinct xs \<and>
      (\<forall>out. u3x_at (Atom 13) gat = Inr out \<longrightarrow>
        u3qdi_rep slam a gat = fold_jet (\<lambda>x acc. slam gat (u3nc x acc)) xs out)) \<and>
    ((\<forall>x \<in> S. slam gat x = Inr (f x)) \<longrightarrow> (\<exists>c. u3qdi_run murmur slam a gat = Inr c \<and> is_set murmur (f ` S) c))"
proof -
  obtain t where t: "a = tree_noun t" "set_treap murmur t" "set_tree t = S"
    using assms by (rule is_setE)
  have "u3qdi_rep slam a gat = fold_jet (\<lambda>x acc. slam gat (u3nc x acc)) (preorder t) out"
    if "u3x_at (Atom 13) gat = Inr out" for out
    using that rep_tree [of "slam gat" t out] by (simp add: u3qdi_rep_def t(1))
  moreover have "distinct (preorder t)"
    using treap_distinct [OF t(2)] by (metis distinct_card card_distinct length_inorder length_preorder set_inorder set_preorder)
  moreover have "\<exists>c. u3qdi_run murmur slam a gat = Inr c \<and> is_set murmur (f ` S) c" if "\<forall>x \<in> S. slam gat x = Inr (f x)"
    using that run_tree [of t "slam gat" f murmur Leaf] t is_setI by (fastforce simp: u3qdi_run_def)
  ultimately show ?thesis
    using t(3) by (intro conjI exI [of _ "preorder t"]) auto
qed

theorem set_gates_witness:
  "\<exists>c. u3qdi_run poly_hash (\<lambda>gat x. Inr (u3nc x x)) (u3nt (Atom 1) u3_nul u3_nul) u3_nul = Inr c \<and>
     is_set poly_hash {u3nc (Atom 1) (Atom 1)} c"
  using set_gates [of poly_hash "{Atom 1}" "u3nt (Atom 1) u3_nul u3_nul" u3_nul "\<lambda>gat x. Inr (u3nc x x)" "\<lambda>x. u3nc x x"]
  by simp

section \<open>Maps\<close>

text \<open>A unit as a noun: null, or the value behind a null.\<close>

fun unit_noun :: "noun option \<Rightarrow> noun" where
  "unit_noun None = u3_nul"
| "unit_noun (Some v) = u3nc u3_nul v"

lemma get_map:
  assumes "is_map murmur m a"
  shows "u3qdb_get murmur a k = Inr (unit_noun (m k))"
proof -
  obtain t where t: "a = tree_noun t" "map_treap murmur t" "set_tree t = map_graph m" "pairs t"
    using assms by (rule is_mapE)
  then show ?thesis
    using get_tree [OF t(2,4), of k] by (cases "m k") auto
qed

text \<open>
  The noun of a map is unique: two maps are the same noun exactly when they have the same keys
  with the same values.
\<close>

theorem maps_canonical:
  assumes "is_map murmur m a" and "is_map murmur n b"
  shows "a = b \<longleftrightarrow> m = n"
proof -
  obtain s t where t: "a = tree_noun s" "map_treap murmur s" "set_tree s = map_graph m"
      "b = tree_noun t" "map_treap murmur t" "set_tree t = map_graph n"
    using assms by (metis is_mapE)
  then show ?thesis
    using by_order.unique [OF t(2,5)] graph_inj [of m n] by auto
qed

theorem maps_canonical_witness:
  "u3nt (Cell (Atom 1) (Atom 2)) u3_nul u3_nul \<noteq> u3nt (Cell (Atom 1) (Atom 3)) u3_nul u3_nul \<and>
     [Atom 1 \<mapsto> Atom 2] \<noteq> [Atom 1 \<mapsto> Atom 3]"
  using maps_canonical [of poly_hash "[Atom 1 \<mapsto> Atom 2]" "u3nt (Cell (Atom 1) (Atom 2)) u3_nul u3_nul"
      "[Atom 1 \<mapsto> Atom 3]" "u3nt (Cell (Atom 1) (Atom 3)) u3_nul u3_nul"] by auto

text \<open>
  C12. On a map, lookup and membership give what the map has at the key, and insertion and deletion
  never bail and give the map updated at the key and without it.
\<close>

theorem map_update_refines:
  assumes "is_map murmur m a"
  shows "u3qdb_get murmur a k = Inr (unit_noun (m k)) \<and> u3qdb_has murmur a k = Inr (k \<in> dom m) \<and>
    (\<exists>c. u3qdb_put murmur a k v = Inr c \<and> is_map murmur (m(k \<mapsto> v)) c) \<and>
    (\<exists>c. u3qdb_del murmur a k = Inr c \<and> is_map murmur (m(k := None)) c)"
proof -
  obtain t where t: "a = tree_noun t" "map_treap murmur t" "set_tree t = map_graph m" "pairs t"
    using assms by (rule is_mapE)
  let ?t = "tput (u3qc_gor murmur) (u3qc_mor murmur) nhead (Cell k v) t"
  have put: "is_map murmur (m(k \<mapsto> v)) (tree_noun ?t)"
    using by_order.tput_ok [OF t(2)] t(3) by (intro is_mapI) (simp_all add: graph_ops)
  have has: "u3qdb_has murmur a k = Inr (k \<in> dom m)"
    using has_get [OF get_map [OF assms, of k]] by (cases "m k") auto
  obtain d where "u3qdb_del murmur a k = Inr (tree_noun d)" "map_treap murmur d" "set_tree d = map_graph (m(k := None))"
    using by_del_tree [OF t(2,4), of k] t(1,3) by (auto simp: graph_ops)
  then show ?thesis
    using put has get_map [OF assms] by_put_tree [OF t(4)] t(1) is_mapI by metis
qed

theorem map_update_refines_witness:
  "\<exists>c. u3qdb_put poly_hash (u3nt (Cell (Atom 1) (Atom 2)) u3_nul u3_nul) (Atom 3) (Atom 4) = Inr c \<and>
     is_map poly_hash [Atom 1 \<mapsto> Atom 2, Atom 3 \<mapsto> Atom 4] c"
  using map_update_refines [of poly_hash "[Atom 1 \<mapsto> Atom 2]" "u3nt (Cell (Atom 1) (Atom 2)) u3_nul u3_nul"
      "Atom 3" "Atom 4"] is_map_single by blast

text \<open>
  C29. Union, intersection and difference of maps never bail. The second map wins in a union and an
  intersection; a difference keeps the keys that the second map has not.
\<close>

theorem map_algebra_refines:
  assumes "is_map murmur m a" and "is_map murmur n b"
  shows "(\<exists>c. u3qdb_uni murmur a b = Inr c \<and> is_map murmur (m ++ n) c) \<and>
    (\<exists>c. u3qdb_int murmur a b = Inr c \<and> is_map murmur (n |` dom m) c) \<and>
    (\<exists>c. u3qdb_dif murmur a b = Inr c \<and> is_map murmur (m |` (- dom n)) c)"
proof -
  obtain s t where t: "a = tree_noun s" "map_treap murmur s" "set_tree s = map_graph m" "pairs s"
      "b = tree_noun t" "map_treap murmur t" "set_tree t = map_graph n" "pairs t"
    using assms by (metis is_mapE)
  have "\<exists>c. u3qdb_uni murmur a b = Inr c \<and> is_map murmur (m ++ n) c"
    using by_union.united_ex [OF t(2,6,4,8)] t is_mapI by (metis graph_ops(2))
  moreover have "\<exists>c. u3qdb_int murmur a b = Inr c \<and> is_map murmur (n |` dom m) c"
    using by_int_tree [OF t(2,6,4,8)] t is_mapI by (metis graph_ops(3))
  moreover have "\<exists>c. u3qdb_dif murmur a b = Inr c \<and> is_map murmur (m |` (- dom n)) c"
    using by_dif_tree [OF t(2,6,4,8)] t is_mapI by (metis graph_ops(4))
  ultimately show ?thesis by blast
qed

theorem map_algebra_refines_witness:
  "\<exists>c. u3qdb_uni poly_hash (u3nt (Cell (Atom 1) (Atom 2)) u3_nul u3_nul) (u3nt (Cell (Atom 1) (Atom 3)) u3_nul u3_nul) = Inr c \<and>
     is_map poly_hash ([Atom 1 \<mapsto> Atom 2] ++ [Atom 1 \<mapsto> Atom 3]) c"
  using map_algebra_refines [of poly_hash "[Atom 1 \<mapsto> Atom 2]" "u3nt (Cell (Atom 1) (Atom 2)) u3_nul u3_nul"
      "[Atom 1 \<mapsto> Atom 3]" "u3nt (Cell (Atom 1) (Atom 3)) u3_nul u3_nul"] is_map_single by blast

text \<open>
  The check of a map accepts a noun exactly when it is a map.
\<close>

theorem map_check: "u3qdb_apt murmur a = Inr True \<longleftrightarrow> (\<exists>m. is_map murmur m a)"
proof
  assume apt: "u3qdb_apt murmur a = Inr True"
  then obtain t where t: "a = tree_noun t" "pairs t"
    using by_apt_shape [of murmur a None None] by (auto simp: u3qdb_apt_def)
  then have "map_treap murmur t"
    using apt by_apt_treap [of murmur t None None] by (simp add: u3qdb_apt_def by_apt_iff)
  with t show "\<exists>m. is_map murmur m a"
    using pairs_graph is_mapI by metis
next
  assume "\<exists>m. is_map murmur m a"
  then obtain t where "a = tree_noun t" "map_treap murmur t" "pairs t"
    by (metis is_mapE)
  then show "u3qdb_apt murmur a = Inr True"
    using treap_by_apt [of murmur t None None] by (simp add: u3qdb_apt_def by_apt_iff)
qed

text \<open>
  The keys of a map are the set of its keys, and collecting a list of pairs makes the later
  pairs win.
\<close>

theorem map_keys_and_lists:
  assumes "is_map murmur m a"
  shows "(\<exists>c. u3qdb_key murmur a = Inr c \<and> is_set murmur (dom m) c) \<and>
    (\<exists>c. u3qdb_gas murmur a (list_noun (map (\<lambda>(k, v). Cell k v) kvs)) = Inr c \<and> is_map murmur (m ++ map_of (rev kvs)) c)"
proof -
  obtain t where t: "a = tree_noun t" "map_treap murmur t" "set_tree t = map_graph m" "pairs t"
    using assms by (rule is_mapE)
  have "\<exists>c. u3qdb_key murmur a = Inr c \<and> is_set murmur (dom m) c"
    using by_key_tree [OF t(4), of murmur Leaf] t(1,3) is_setI by (fastforce simp: u3qdb_key_def nhead_graph)
  then show ?thesis
    using by_gas_tree [OF t(2,3), of kvs] t(1) is_mapI by metis
qed

theorem map_keys_and_lists_witness:
  "\<exists>c. u3qdb_key poly_hash (u3nt (Cell (Atom 1) (Atom 2)) u3_nul u3_nul) = Inr c \<and> is_set poly_hash {Atom 1} c"
  using map_keys_and_lists [of poly_hash "[Atom 1 \<mapsto> Atom 2]" "u3nt (Cell (Atom 1) (Atom 2)) u3_nul u3_nul" "[]"] by simp

lemma jab_map:
  assumes "is_map murmur m a"
  shows "m k = Some v \<Longrightarrow> slam gat v = Inr w \<Longrightarrow> \<exists>c. u3qdb_jab murmur slam a k gat = Inr c \<and> is_map murmur (m(k \<mapsto> w)) c"
    and "m k = None \<Longrightarrow> u3qdb_jab murmur slam a k gat = Inl Exit"
proof -
  obtain t where t: "a = tree_noun t" "map_treap murmur t" "set_tree t = map_graph m" "pairs t"
    using assms by (rule is_mapE)
  show "\<exists>c. u3qdb_jab murmur slam a k gat = Inr c \<and> is_map murmur (m(k \<mapsto> w)) c" if "m k = Some v" "slam gat v = Inr w"
  proof -
    have k: "Cell k v \<in> set_tree t"
      using that(1) t(3) by simp
    have "map_treap murmur (set_value k w t)"
      using t(2) by (subst treap_map_tree) auto
    then have "is_map murmur (m(k \<mapsto> w)) (tree_noun (set_value k w t))"
      using set_value_set [OF k] t(3) by (intro is_mapI) (simp_all add: graph_ops)
    then show ?thesis
      using jab_found [OF t(2,4) k, of slam gat w] that(2) t(1) by auto
  qed
  show "u3qdb_jab murmur slam a k gat = Inl Exit" if "m k = None"
    using jab_missing [OF t(4), of k] t(1,3) that by simp
qed

lemma map_values: "x \<in> map_graph m \<Longrightarrow> m (nhead x) = Some (ntail x)" "m k = Some v \<Longrightarrow> \<exists>x \<in> map_graph m. nhead x = k \<and> ntail x = v"
proof -
  show "m (nhead x) = Some (ntail x)" if "x \<in> map_graph m"
    using that by (auto simp: map_graph_def)
  show "\<exists>x \<in> map_graph m. nhead x = k \<and> ntail x = v" if "m k = Some v"
    using that by (intro bexI [of _ "Cell k v"]) auto
qed

lemma urn_map:
  assumes "is_map murmur m a" and "\<And>k x. m k = Some x \<Longrightarrow> slam gat (Cell k x) = Inr (g k x)"
  shows "\<exists>c. u3qdb_urn slam a gat = Inr c \<and> is_map murmur (\<lambda>k. map_option (g k) (m k)) c"
proof -
  obtain t where t: "a = tree_noun t" "map_treap murmur t" "set_tree t = map_graph m" "pairs t"
    using assms(1) by (rule is_mapE)
  let ?t = "map_tree (\<lambda>x. Cell (nhead x) (g (nhead x) (ntail x))) t"
  have "map_treap murmur ?t" "set_tree ?t = map_graph (\<lambda>k. map_option (g k) (m k))"
    using t(2,3) graph_map [of g m] by (simp_all add: treap_map_tree tree.set_map)
  moreover have "slam gat x = Inr (g (nhead x) (ntail x))" if "x \<in> set_tree t" for x
    using assms(2) [of "nhead x" "ntail x"] map_values(1) [of x m] that t(3,4) by (auto simp: is_cell_iff)
  ultimately show ?thesis
    using by_urn_tree [OF t(4), of "slam gat" "\<lambda>x. g (nhead x) (ntail x)"] t(1) is_mapI by (simp add: u3qdb_urn_def)
qed

lemma run_map:
  assumes "is_map murmur m a" and "\<And>x. x \<in> ran m \<Longrightarrow> slam gat x = Inr (f x)"
  shows "\<exists>c. u3qdb_run slam a gat = Inr c \<and> is_map murmur (\<lambda>k. map_option f (m k)) c"
proof -
  obtain t where t: "a = tree_noun t" "map_treap murmur t" "set_tree t = map_graph m" "pairs t"
    using assms(1) by (rule is_mapE)
  let ?t = "map_tree (\<lambda>x. Cell (nhead x) (f (ntail x))) t"
  have "map_treap murmur ?t" "set_tree ?t = map_graph (\<lambda>k. map_option f (m k))"
    using t(2,3) graph_map [of "\<lambda>_. f" m] by (simp_all add: treap_map_tree tree.set_map)
  moreover have "slam gat (ntail x) = Inr (f (ntail x))" if "x \<in> set_tree t" for x
    using assms(2) [OF ranI [OF map_values(1)]] that t(3) by simp
  ultimately show ?thesis
    using by_run_tree [OF t(4), of "slam gat" f] t(1) is_mapI by (simp add: u3qdb_run_def)
qed

lemma quantifiers_map:
  assumes "is_map murmur m a" and "\<And>x. x \<in> ran m \<Longrightarrow> slam gat x = Inr (loob (P x))"
  shows "u3qdb_all slam a gat = Inr (\<forall>x \<in> ran m. P x)" and "u3qdb_any slam a gat = Inr (\<exists>x \<in> ran m. P x)"
proof -
  obtain t where t: "a = tree_noun t" "set_tree t = map_graph m" "pairs t"
    using assms(1) by (rule is_mapE)
  have "ran m = ntail ` set_tree t"
  proof
    show "ran m \<subseteq> ntail ` set_tree t"
      using map_values(2) [of m] t(2) by (fastforce simp: ran_def)
    show "ntail ` set_tree t \<subseteq> ran m"
      using map_values(1) [of _ m] t(2) by (auto simp: ran_def)
  qed
  moreover have "slam gat (ntail x) = Inr (loob (P (ntail x)))" if "x \<in> set_tree t" for x
    using assms(2) [OF ranI [OF map_values(1)]] that t(2) by simp
  ultimately show "u3qdb_all slam a gat = Inr (\<forall>x \<in> ran m. P x)" "u3qdb_any slam a gat = Inr (\<exists>x \<in> ran m. P x)"
    using by_all_tree [OF t(3), of "slam gat" P] by_any_tree [OF t(3), of "slam gat" P] t(1)
    by (simp_all add: u3qdb_all_def u3qdb_any_def)
qed

text \<open>
  Gates over a map: the value at a key is replaced by what the gate makes of it, a missing key
  bails, the values are transformed pointwise, with or without the key, and the quantifiers over the
  values decide what they say.
\<close>

theorem map_gates:
  assumes "is_map murmur m a"
  shows "(m k = Some v \<longrightarrow> slam gat v = Inr w \<longrightarrow> (\<exists>c. u3qdb_jab murmur slam a k gat = Inr c \<and> is_map murmur (m(k \<mapsto> w)) c)) \<and>
    (m k = None \<longrightarrow> u3qdb_jab murmur slam a k gat = Inl Exit) \<and>
    ((\<forall>x \<in> ran m. slam gat x = Inr (f x)) \<longrightarrow>
      (\<exists>c. u3qdb_run slam a gat = Inr c \<and> is_map murmur (\<lambda>k. map_option f (m k)) c)) \<and>
    ((\<forall>k x. m k = Some x \<longrightarrow> slam gat (Cell k x) = Inr (g k x)) \<longrightarrow>
      (\<exists>c. u3qdb_urn slam a gat = Inr c \<and> is_map murmur (\<lambda>k. map_option (g k) (m k)) c)) \<and>
    ((\<forall>x \<in> ran m. slam gat x = Inr (loob (P x))) \<longrightarrow>
      u3qdb_all slam a gat = Inr (\<forall>x \<in> ran m. P x) \<and> u3qdb_any slam a gat = Inr (\<exists>x \<in> ran m. P x))"
  using jab_map(1) [OF assms, of k v slam gat w] jab_map(2) [OF assms, of k slam gat] run_map [OF assms, of slam gat f] urn_map [OF assms, of slam gat g]
    quantifiers_map [OF assms, of slam gat P] by blast

theorem map_gates_witness:
  "\<exists>c. u3qdb_run (\<lambda>gat x. Inr (u3nc x x)) (u3nt (Cell (Atom 1) (Atom 2)) u3_nul u3_nul) u3_nul = Inr c \<and>
     is_map poly_hash (\<lambda>k. map_option (\<lambda>x. u3nc x x) ([Atom 1 \<mapsto> Atom 2] k)) c"
  using map_gates [of poly_hash "[Atom 1 \<mapsto> Atom 2]" "u3nt (Cell (Atom 1) (Atom 2)) u3_nul u3_nul" "Atom 1" "Atom 2"
      "\<lambda>gat x. Inr (u3nc x x)" u3_nul _ "\<lambda>x. u3nc x x"] is_map_single
  by blast

section \<open>Calls\<close>

text \<open>
  Called on a core, the jets of a door find their arguments at the conventional axes, and compute
  the functions above.
\<close>

theorem door_calls:
  "u3wdi_put murmur (door_call bat b dbat a ctx) = u3qdi_put murmur a b \<and>
   u3wdi_uni murmur (door_call bat b dbat a ctx) = u3qdi_uni murmur a b \<and>
   u3wdi_int murmur (door_call bat b dbat a ctx) = u3qdi_int murmur a b \<and>
   u3wdi_dif murmur (door_call bat b dbat a ctx) = u3qdi_dif murmur a b \<and>
   u3wdb_get murmur (door_call bat b dbat a ctx) = u3qdb_get murmur a b \<and>
   u3wdb_put murmur (door_call bat (Cell k v) dbat a ctx) = u3qdb_put murmur a k v \<and>
   u3wdb_key murmur (door_call bat b dbat a ctx) = u3qdb_key murmur a \<and>
   u3wdi_wyt (u3nt bat dbat (Cell a ctx)) = u3qdi_wyt a"
  by (simp add: u3wdi_put_def u3wdi_uni_def u3wdi_int_def u3wdi_dif_def u3wdb_get_def u3wdb_put_def u3wdb_key_def
      u3wdi_wyt_def door_args)

end
