(* ===== verification/Jet_List.thy ===== *)
theory Jet_List
  imports Noun_Access
begin

text \<open>
  The jets of lists and units, from \<^verbatim>\<open>pkg/noun/jets/b\<close>. A list is a noun that ends in 0; the jets also run on
  nouns that are no lists. Loops that write the result through a pointer to its end are recursions here that
  build the same noun. Calling a gate is an argument \<open>slam\<close>, from the gate and the sample to the product.
\<close>

section \<open>Gates\<close>

text \<open>
  The check at the start of \<^verbatim>\<open>u3j_gate_prep\<close>: a gate is a cell with a cell for its tail. The rest of it finds the jet of
  the gate, which belongs to the call, the parameter \<open>slam\<close>.
\<close>

definition gate_prep :: "(noun \<Rightarrow> noun \<Rightarrow> noun jet) \<Rightarrow> noun \<Rightarrow> (noun \<Rightarrow> noun jet) jet" where
  "gate_prep slam b = (case u3r_trel b of None \<Rightarrow> Inl Exit | Some _ \<Rightarrow> Inr (slam b))"

text \<open>A switch over a loobean.\<close>

definition on_loob :: "noun \<Rightarrow> 'a jet \<Rightarrow> 'a jet \<Rightarrow> 'a jet" where
  "on_loob loz yes no = (if loz = Atom 0 then yes else if loz = Atom 1 then no else Inl Exit)"

lemma on_loob_cong [fundef_cong]: "loz = loz' \<Longrightarrow> yes = yes' \<Longrightarrow> no = no' \<Longrightarrow> on_loob loz yes no = on_loob loz' yes' no'"
  by simp

lemma on_loob_loob [simp]: "on_loob (loob b) yes no = (if b then yes else no)"
  by (simp add: on_loob_def loob_def)

section \<open>Units\<close>

definition u3qb_bind :: "(noun \<Rightarrow> noun \<Rightarrow> noun jet) \<Rightarrow> noun \<Rightarrow> noun \<Rightarrow> noun jet" where
  "u3qb_bind slam a b =
     (if a = Atom 0 then Inr (Atom 0) else on_ok (u3t a) (\<lambda>t. on_ok (slam b t) (\<lambda>x. Inr (u3nc (Atom 0) x))))"

definition u3qb_clap :: "(noun \<Rightarrow> noun \<Rightarrow> noun jet) \<Rightarrow> noun \<Rightarrow> noun \<Rightarrow> noun \<Rightarrow> noun jet" where
  "u3qb_clap slam a b c =
     (if a = Atom 0 then Inr b
      else if b = Atom 0 then Inr a
      else on_ok (u3t a) (\<lambda>ta. on_ok (u3t b) (\<lambda>tb. on_ok (slam c (u3nc ta tb)) (\<lambda>x. Inr (u3nc (Atom 0) x)))))"

definition u3qb_drop :: "noun \<Rightarrow> noun jet" where
  "u3qb_drop a = (if a = Atom 0 then Inr u3_nul else on_ok (u3t a) (\<lambda>t. Inr (u3nc (Atom 0) t)))"

definition u3qb_need :: "noun \<Rightarrow> noun jet" where
  "u3qb_need a = (if a = Atom 0 then Inl Exit else u3t a)"

section \<open>Lists\<close>

function flop_loop :: "noun \<Rightarrow> noun \<Rightarrow> noun jet" where
  "flop_loop t b = (if t = u3_nul then Inr b else on_ok (u3x_cell t) (\<lambda>(i, t). flop_loop t (u3nc i b)))"
  by pat_completeness auto
termination
  by (relation "measure (\<lambda>(t, b). size t)") (auto simp: access_Inr)

definition u3qb_flop :: "noun \<Rightarrow> noun jet" where
  "u3qb_flop a = flop_loop a u3_nul"

function lent_loop :: "noun \<Rightarrow> u32 \<Rightarrow> noun jet" where
  "lent_loop a len_w = (if a = u3_nul then Inr (Atom (unat len_w)) else on_ok (u3t a) (\<lambda>a. lent_loop a (len_w + 1)))"
  by pat_completeness auto
termination
  by (relation "measure (\<lambda>(a, len_w). size a)") (auto simp: access_Inr)

definition lent :: "noun \<Rightarrow> noun jet" where
  "lent a = lent_loop a 0"

fun reap_loop :: "nat \<Rightarrow> noun \<Rightarrow> noun \<Rightarrow> noun" where
  "reap_loop 0 b acc = acc"
| "reap_loop (Suc i_w) b acc = reap_loop i_w b (u3nc b acc)"

definition u3qb_reap :: "nat \<Rightarrow> noun \<Rightarrow> noun jet" where
  "u3qb_reap a b = (if \<not> is_cat a then Inl Fail else Inr (reap_loop a b u3_nul))"

fun scag_loop :: "nat \<Rightarrow> noun \<Rightarrow> noun jet" where
  "scag_loop 0 t = Inr u3_nul"
| "scag_loop (Suc len_w) t =
     (if t = u3_nul then Inr u3_nul
      else on_ok (u3x_cell t) (\<lambda>(i, t). on_ok (scag_loop len_w t) (\<lambda>r. Inr (u3nc i r))))"

definition u3qb_scag :: "noun \<Rightarrow> noun \<Rightarrow> noun jet" where
  "u3qb_scag a b = (if b = u3_nul then Inr u3_nul
     else case a of Cell _ _ \<Rightarrow> Inl Fail | Atom a \<Rightarrow> if is_cat a then scag_loop a b else Inl Fail)"

fun slag_loop :: "nat \<Rightarrow> noun \<Rightarrow> noun" where
  "slag_loop 0 b = b"
| "slag_loop (Suc len_w) b = (case b of Atom _ \<Rightarrow> u3_nul | Cell _ t \<Rightarrow> slag_loop len_w t)"

definition u3qb_slag :: "noun \<Rightarrow> noun \<Rightarrow> noun jet" where
  "u3qb_slag a b = (if b = u3_nul then Inr u3_nul
     else case a of Cell _ _ \<Rightarrow> Inl Fail | Atom a \<Rightarrow> if is_cat a then Inr (slag_loop a b) else Inl Fail)"

fun snag_loop :: "nat \<Rightarrow> noun \<Rightarrow> noun jet" where
  "snag_loop 0 b = (if u3a_is_cell b then u3h b else Inl Exit)"
| "snag_loop (Suc len_w) b = (case b of Atom _ \<Rightarrow> Inl Exit | Cell _ t \<Rightarrow> snag_loop len_w t)"

definition u3qb_snag :: "nat \<Rightarrow> noun \<Rightarrow> noun jet" where
  "u3qb_snag a b = (if \<not> is_cat a then Inl Fail else snag_loop a b)"

function u3qb_weld :: "noun \<Rightarrow> noun \<Rightarrow> noun jet" where
  "u3qb_weld t b = (if t = u3_nul then Inr b
     else on_ok (u3x_cell t) (\<lambda>(i, t). on_ok (u3qb_weld t b) (\<lambda>r. Inr (u3nc i r))))"
  by pat_completeness auto
termination
  by (relation "measure (\<lambda>(t, b). size t)") (auto simp: access_Inr)

text \<open>All lists but the last are copied, and the last becomes the tail.\<close>

function zing_loop :: "noun \<Rightarrow> noun \<Rightarrow> noun jet" where
  "zing_loop i t = (if t = u3_nul then Inr i
     else on_ok (u3qb_weld i u3_nul) (\<lambda>copy. on_ok (u3x_cell t) (\<lambda>(i, t). on_ok (zing_loop i t) (\<lambda>r. u3qb_weld copy r))))"
  by pat_completeness auto
termination
  by (relation "measure (\<lambda>(i, t). size t)") (auto simp: access_Inr)

definition u3qb_zing :: "noun \<Rightarrow> noun jet" where
  "u3qb_zing a = (if a = u3_nul then Inr u3_nul else on_ok (u3x_cell a) (\<lambda>(i, t). zing_loop i t))"

text \<open>The inner loop of \<^verbatim>\<open>find\<close>: whether the needle is a prefix of the haystack.\<close>

function find_in :: "noun \<Rightarrow> noun \<Rightarrow> noun \<Rightarrow> noun \<Rightarrow> bool jet" where
  "find_in i_n t_n i_h t_h =
     (if i_n \<noteq> i_h then Inr False
      else if t_n = u3_nul then Inr True
      else if t_h = u3_nul then Inr False
      else on_ok (u3x_cell t_h) (\<lambda>(i_h, t_h). on_ok (u3x_cell t_n) (\<lambda>(i_n, t_n). find_in i_n t_n i_h t_h)))"
  by pat_completeness auto
termination
  by (relation "measure (\<lambda>(i_n, t_n, i_h, t_h). size t_n)") (auto simp: access_Inr)

function find_loop :: "noun \<Rightarrow> noun \<Rightarrow> u32 \<Rightarrow> noun jet" where
  "find_loop nedl hstk i_w =
     (if hstk = u3_nul then Inr u3_nul
      else on_ok (u3x_cell hstk) (\<lambda>(i_h, t_h). on_ok (u3x_cell nedl) (\<lambda>(i_n, t_n).
        on_ok (find_in i_n t_n i_h t_h) (\<lambda>found.
          if found then Inr (u3nc u3_nul (Atom (unat i_w)))
          else find_loop nedl t_h (i_w + 1)))))"
  by pat_completeness auto
termination
  by (relation "measure (\<lambda>(nedl, hstk, i_w). size hstk)") (auto simp: access_Inr)

definition u3qb_find :: "noun \<Rightarrow> noun \<Rightarrow> noun jet" where
  "u3qb_find nedl hstk = (if nedl = u3_nul then Inr u3_nul else find_loop nedl hstk 0)"

section \<open>Lists and gates\<close>

function turn_loop :: "(noun \<Rightarrow> noun jet) \<Rightarrow> noun \<Rightarrow> noun jet" where
  "turn_loop sit t = (if t = u3_nul then Inr u3_nul
     else on_ok (u3x_cell t) (\<lambda>(i, t). on_ok (sit i) (\<lambda>x. on_ok (turn_loop sit t) (\<lambda>r. Inr (u3nc x r)))))"
  by pat_completeness auto
termination
  by (relation "measure (\<lambda>(sit, t). size t)") (auto simp: access_Inr)

text \<open>The gate is prepared only if there is an element to call it on.\<close>

definition with_gate :: "(noun \<Rightarrow> noun \<Rightarrow> noun jet) \<Rightarrow> noun \<Rightarrow> noun \<Rightarrow> ((noun \<Rightarrow> noun jet) \<Rightarrow> noun \<Rightarrow> 'a jet) \<Rightarrow> 'a jet" where
  "with_gate slam a b loop = (if a = u3_nul then loop (slam b) a else on_ok (gate_prep slam b) (\<lambda>sit. loop sit a))"

definition u3qb_turn :: "(noun \<Rightarrow> noun \<Rightarrow> noun jet) \<Rightarrow> noun \<Rightarrow> noun \<Rightarrow> noun jet" where
  "u3qb_turn slam a b = with_gate slam a b turn_loop"

function murn_loop :: "(noun \<Rightarrow> noun jet) \<Rightarrow> noun \<Rightarrow> noun jet" where
  "murn_loop sit t = (if t = u3_nul then Inr u3_nul
     else on_ok (u3x_cell t) (\<lambda>(i, t). on_ok (sit i) (\<lambda>res.
       if res = u3_nul then murn_loop sit t
       else on_ok (u3t res) (\<lambda>x. on_ok (murn_loop sit t) (\<lambda>r. Inr (u3nc x r))))))"
  by pat_completeness auto
termination
  by (relation "measure (\<lambda>(sit, t). size t)") (auto simp: access_Inr)

definition u3qb_murn :: "(noun \<Rightarrow> noun \<Rightarrow> noun jet) \<Rightarrow> noun \<Rightarrow> noun \<Rightarrow> noun jet" where
  "u3qb_murn slam a b = with_gate slam a b murn_loop"

function skim_loop :: "(noun \<Rightarrow> noun jet) \<Rightarrow> noun \<Rightarrow> noun jet" where
  "skim_loop sit t = (if t = u3_nul then Inr u3_nul
     else on_ok (u3x_cell t) (\<lambda>(i, t). on_ok (sit i) (\<lambda>loz.
       on_loob loz (on_ok (skim_loop sit t) (\<lambda>r. Inr (u3nc i r))) (skim_loop sit t))))"
  by pat_completeness auto
termination
  by (relation "measure (\<lambda>(sit, t). size t)") (auto simp: access_Inr)

definition u3qb_skim :: "(noun \<Rightarrow> noun \<Rightarrow> noun jet) \<Rightarrow> noun \<Rightarrow> noun \<Rightarrow> noun jet" where
  "u3qb_skim slam a b = with_gate slam a b skim_loop"

function skip_loop :: "(noun \<Rightarrow> noun jet) \<Rightarrow> noun \<Rightarrow> noun jet" where
  "skip_loop sit t = (if t = u3_nul then Inr u3_nul
     else on_ok (u3x_cell t) (\<lambda>(i, t). on_ok (sit i) (\<lambda>loz.
       on_loob loz (skip_loop sit t) (on_ok (skip_loop sit t) (\<lambda>r. Inr (u3nc i r))))))"
  by pat_completeness auto
termination
  by (relation "measure (\<lambda>(sit, t). size t)") (auto simp: access_Inr)

definition u3qb_skip :: "(noun \<Rightarrow> noun \<Rightarrow> noun jet) \<Rightarrow> noun \<Rightarrow> noun \<Rightarrow> noun jet" where
  "u3qb_skip slam a b = with_gate slam a b skip_loop"

function skid_loop :: "(noun \<Rightarrow> noun jet) \<Rightarrow> noun \<Rightarrow> (noun \<times> noun) jet" where
  "skid_loop sit t = (if t = u3_nul then Inr (u3_nul, u3_nul)
     else on_ok (u3x_cell t) (\<lambda>(i, t). on_ok (sit i) (\<lambda>loz.
       on_loob loz (on_ok (skid_loop sit t) (\<lambda>(l, r). Inr (u3nc i l, r))) (on_ok (skid_loop sit t) (\<lambda>(l, r). Inr (l, u3nc i r))))))"
  by pat_completeness auto
termination
  by (relation "measure (\<lambda>(sit, t). size t)") (auto simp: access_Inr)

definition u3qb_skid :: "(noun \<Rightarrow> noun \<Rightarrow> noun jet) \<Rightarrow> noun \<Rightarrow> noun \<Rightarrow> noun jet" where
  "u3qb_skid slam a b = on_ok (with_gate slam a b skid_loop) (\<lambda>(l, r). Inr (u3nc l r))"

function levy_in :: "(noun \<Rightarrow> noun jet) \<Rightarrow> noun \<Rightarrow> bool jet" where
  "levy_in sit a = (if a = Atom 0 then Inr True
     else on_ok (u3x_cell a) (\<lambda>(i, t). on_ok (sit i) (\<lambda>loz. on_loob loz (levy_in sit t) (Inr False))))"
  by pat_completeness auto
termination
  by (relation "measure (\<lambda>(sit, t). size t)") (auto simp: access_Inr)

definition u3qb_levy :: "(noun \<Rightarrow> noun \<Rightarrow> noun jet) \<Rightarrow> noun \<Rightarrow> noun \<Rightarrow> bool jet" where
  "u3qb_levy slam a b = on_ok (gate_prep slam b) (\<lambda>sit. levy_in sit a)"

function lien_in :: "(noun \<Rightarrow> noun jet) \<Rightarrow> noun \<Rightarrow> bool jet" where
  "lien_in sit a = (if a = Atom 0 then Inr False
     else on_ok (u3x_cell a) (\<lambda>(i, t). on_ok (sit i) (\<lambda>loz. on_loob loz (Inr True) (lien_in sit t))))"
  by pat_completeness auto
termination
  by (relation "measure (\<lambda>(sit, t). size t)") (auto simp: access_Inr)

definition u3qb_lien :: "(noun \<Rightarrow> noun \<Rightarrow> noun jet) \<Rightarrow> noun \<Rightarrow> noun \<Rightarrow> bool jet" where
  "u3qb_lien slam a b = on_ok (gate_prep slam b) (\<lambda>sit. lien_in sit a)"

text \<open>The accumulator of both folds starts as the second half of the gate's own sample.\<close>

function roll_loop :: "(noun \<Rightarrow> noun jet) \<Rightarrow> noun \<Rightarrow> noun \<Rightarrow> noun jet" where
  "roll_loop sit t pro = (if t = u3_nul then Inr pro
     else on_ok (u3x_cell t) (\<lambda>(i, t). on_ok (sit (u3nc i pro)) (\<lambda>pro. roll_loop sit t pro)))"
  by pat_completeness auto
termination
  by (relation "measure (\<lambda>(sit, t, pro). size t)") (auto simp: access_Inr)

definition u3qb_roll :: "(noun \<Rightarrow> noun \<Rightarrow> noun jet) \<Rightarrow> noun \<Rightarrow> noun \<Rightarrow> noun jet" where
  "u3qb_roll slam a b = on_ok (u3x_at (Atom 13) b) (\<lambda>pro. with_gate slam a b (\<lambda>sit t. roll_loop sit t pro))"

text \<open>The list is pushed on a stack, then the gate is called on the elements from the top.\<close>

function reel_push :: "noun \<Rightarrow> noun list \<Rightarrow> noun list jet" where
  "reel_push t pil = (if t = u3_nul then Inr pil else on_ok (u3x_cell t) (\<lambda>(i, t). reel_push t (i # pil)))"
  by pat_completeness auto
termination
  by (relation "measure (\<lambda>(t, pil). size t)") (auto simp: access_Inr)

fun reel_loop :: "(noun \<Rightarrow> noun jet) \<Rightarrow> noun list \<Rightarrow> noun \<Rightarrow> noun jet" where
  "reel_loop sit [] pro = Inr pro"
| "reel_loop sit (x # pil) pro = on_ok (sit (u3nc x pro)) (\<lambda>pro. reel_loop sit pil pro)"

definition u3qb_reel :: "(noun \<Rightarrow> noun \<Rightarrow> noun jet) \<Rightarrow> noun \<Rightarrow> noun \<Rightarrow> noun jet" where
  "u3qb_reel slam a b = on_ok (u3x_at (Atom 13) b) (\<lambda>pro.
     if a = u3_nul then Inr pro
     else on_ok (reel_push a []) (\<lambda>pil. on_ok (gate_prep slam b) (\<lambda>sit. reel_loop sit pil pro)))"

section \<open>Sorting\<close>

function split_in :: "(noun \<Rightarrow> noun jet) \<Rightarrow> noun \<Rightarrow> noun \<Rightarrow> (noun \<times> noun) jet" where
  "split_in sit a second = (if a = Atom 0 then Inr (u3_nul, u3_nul)
     else on_ok (u3x_cell a) (\<lambda>(i, t). on_ok (split_in sit t second) (\<lambda>(l, r). on_ok (sit (u3nc i second)) (\<lambda>hoz.
       if hoz = Atom 0 then Inr (u3nc i l, r) else Inr (l, u3nc i r)))))"
  by pat_completeness auto
termination
  by (relation "measure (\<lambda>(sit, a, second). size a)") (auto simp: access_Inr)

declare split_in.simps [simp del]

lemma split_in_size: "split_in sit a second = Inr (l, r) \<Longrightarrow> size l \<le> size a \<and> size r \<le> size a"
proof (induction a arbitrary: l r)
  case (Atom x)
  then show ?case
    by (cases "x = 0") (auto simp: split_in.simps [of sit "Atom _"] u3_nul_def)
next
  case (Cell i t)
  then obtain l' r' hoz where "split_in sit t second = Inr (l', r')" "(if hoz = Atom 0 then (u3nc i l', r') else (l', u3nc i r')) = (l, r)"
    by (fastforce simp: split_in.simps [of sit "Cell i t"] on_ok_eq_Inr split: if_splits)
  then show ?case
    using Cell.IH(2) [of l' r'] by (auto split: if_splits)
qed

function sort_in :: "(noun \<Rightarrow> noun jet) \<Rightarrow> noun \<Rightarrow> noun jet" where
  "sort_in sit list = (if list = Atom 0 then Inr u3_nul
     else on_ok (u3x_cell list) (\<lambda>(hed, tal). on_ok (split_in sit tal hed) (\<lambda>(l, r).
       on_ok (sort_in sit l) (\<lambda>lhs. on_ok (sort_in sit r) (\<lambda>rhs. u3qb_weld lhs (u3nc hed rhs))))))"
  by pat_completeness auto
termination
  by (relation "measure (\<lambda>(sit, list). size list)") (auto simp: access_Inr dest!: split_in_size)

definition u3qb_sort :: "(noun \<Rightarrow> noun \<Rightarrow> noun jet) \<Rightarrow> noun \<Rightarrow> noun \<Rightarrow> noun jet" where
  "u3qb_sort slam a b = on_ok (gate_prep slam b) (\<lambda>sit. sort_in sit a)"

declare flop_loop.simps [simp del] lent_loop.simps [simp del] u3qb_weld.simps [simp del] zing_loop.simps [simp del]
  find_in.simps [simp del] find_loop.simps [simp del] turn_loop.simps [simp del] murn_loop.simps [simp del]
  skim_loop.simps [simp del] skip_loop.simps [simp del] skid_loop.simps [simp del] levy_in.simps [simp del]
  lien_in.simps [simp del] roll_loop.simps [simp del] reel_push.simps [simp del] sort_in.simps [simp del]

section \<open>Calls with a core\<close>

text \<open>The two halves of the sample, by \<^verbatim>\<open>u3x_mean\<close> or, with the same bail, by \<^verbatim>\<open>u3r_mean\<close>.\<close>

definition sample_2 :: "noun \<Rightarrow> (noun \<Rightarrow> noun \<Rightarrow> 'a jet) \<Rightarrow> 'a jet" where
  "sample_2 cor f = on_ok (u3x_mean cor [12, 13]) (\<lambda>xs. f (xs ! 0) (xs ! 1))"

definition u3wb_bind :: "(noun \<Rightarrow> noun \<Rightarrow> noun jet) \<Rightarrow> noun \<Rightarrow> noun jet" where
  "u3wb_bind slam cor = sample_2 cor (u3qb_bind slam)"

definition u3wb_clap :: "(noun \<Rightarrow> noun \<Rightarrow> noun jet) \<Rightarrow> noun \<Rightarrow> noun jet" where
  "u3wb_clap slam cor = on_ok (u3x_mean cor [12, 26, 27]) (\<lambda>xs. u3qb_clap slam (xs ! 0) (xs ! 1) (xs ! 2))"

text \<open>\<open>None\<close> is \<^verbatim>\<open>u3_none\<close>, by which a jet leaves the call to the interpreter.\<close>

definition u3wb_drop :: "noun \<Rightarrow> noun option jet" where
  "u3wb_drop cor = on_ok (u3r_at (Atom 6) cor) (\<lambda>a. case a of None \<Rightarrow> Inr None | Some a \<Rightarrow> on_ok (u3qb_drop a) (\<lambda>x. Inr (Some x)))"

definition u3wb_need :: "noun \<Rightarrow> noun jet" where
  "u3wb_need cor = on_ok (u3x_at (Atom 6) cor) u3qb_need"

definition u3wb_flop :: "noun \<Rightarrow> noun jet" where
  "u3wb_flop cor = on_ok (u3x_at (Atom 6) cor) u3qb_flop"

definition u3wb_lent :: "noun \<Rightarrow> noun jet" where
  "u3wb_lent cor = on_ok (u3x_at (Atom 6) cor) lent"

definition u3wb_reap :: "noun \<Rightarrow> noun jet" where
  "u3wb_reap cor = sample_2 cor (\<lambda>a b. on_ok (u3x_atom a) (\<lambda>a. u3qb_reap a b))"

definition u3wb_scag :: "noun \<Rightarrow> noun jet" where
  "u3wb_scag cor = sample_2 cor (\<lambda>a b. if u3a_is_cell a \<and> b \<noteq> u3_nul then Inl Exit else u3qb_scag a b)"

definition u3wb_slag :: "noun \<Rightarrow> noun jet" where
  "u3wb_slag cor = sample_2 cor (\<lambda>a b. if u3a_is_cell a \<and> b \<noteq> u3_nul then Inl Exit else u3qb_slag a b)"

definition u3wb_snag :: "noun \<Rightarrow> noun jet" where
  "u3wb_snag cor = sample_2 cor (\<lambda>a b. on_ok (u3x_atom a) (\<lambda>a. u3qb_snag a b))"

definition u3wb_weld :: "noun \<Rightarrow> noun jet" where
  "u3wb_weld cor = sample_2 cor u3qb_weld"

definition u3wb_zing :: "noun \<Rightarrow> noun jet" where
  "u3wb_zing cor = on_ok (u3x_at (Atom 6) cor) u3qb_zing"

definition u3wb_find :: "noun \<Rightarrow> noun jet" where
  "u3wb_find cor = sample_2 cor u3qb_find"

definition u3wb_turn :: "(noun \<Rightarrow> noun \<Rightarrow> noun jet) \<Rightarrow> noun \<Rightarrow> noun jet" where
  "u3wb_turn slam cor = sample_2 cor (u3qb_turn slam)"

definition u3wb_murn :: "(noun \<Rightarrow> noun \<Rightarrow> noun jet) \<Rightarrow> noun \<Rightarrow> noun jet" where
  "u3wb_murn slam cor = sample_2 cor (u3qb_murn slam)"

definition u3wb_skim :: "(noun \<Rightarrow> noun \<Rightarrow> noun jet) \<Rightarrow> noun \<Rightarrow> noun jet" where
  "u3wb_skim slam cor = sample_2 cor (u3qb_skim slam)"

definition u3wb_skip :: "(noun \<Rightarrow> noun \<Rightarrow> noun jet) \<Rightarrow> noun \<Rightarrow> noun jet" where
  "u3wb_skip slam cor = sample_2 cor (u3qb_skip slam)"

definition u3wb_skid :: "(noun \<Rightarrow> noun \<Rightarrow> noun jet) \<Rightarrow> noun \<Rightarrow> noun jet" where
  "u3wb_skid slam cor = sample_2 cor (u3qb_skid slam)"

definition u3wb_levy :: "(noun \<Rightarrow> noun \<Rightarrow> noun jet) \<Rightarrow> noun \<Rightarrow> noun jet" where
  "u3wb_levy slam cor = sample_2 cor (\<lambda>a b. on_ok (u3qb_levy slam a b) (\<lambda>x. Inr (loob x)))"

definition u3wb_lien :: "(noun \<Rightarrow> noun \<Rightarrow> noun jet) \<Rightarrow> noun \<Rightarrow> noun jet" where
  "u3wb_lien slam cor = sample_2 cor (\<lambda>a b. on_ok (u3qb_lien slam a b) (\<lambda>x. Inr (loob x)))"

definition u3wb_roll :: "(noun \<Rightarrow> noun \<Rightarrow> noun jet) \<Rightarrow> noun \<Rightarrow> noun jet" where
  "u3wb_roll slam cor = sample_2 cor (u3qb_roll slam)"

definition u3wb_reel :: "(noun \<Rightarrow> noun \<Rightarrow> noun jet) \<Rightarrow> noun \<Rightarrow> noun jet" where
  "u3wb_reel slam cor = sample_2 cor (u3qb_reel slam)"

definition u3wb_sort :: "(noun \<Rightarrow> noun \<Rightarrow> noun jet) \<Rightarrow> noun \<Rightarrow> noun jet" where
  "u3wb_sort slam cor = sample_2 cor (u3qb_sort slam)"

end
