(* ===== verification/Jet_List_Correct.thy ===== *)
theory Jet_List_Correct
  imports Jet_List "HOL-Library.Sublist" "HOL-Library.Multiset"
begin

text \<open>
  The list jets compute the functions of the list library, on nouns that are lists and with gates that are
  functions.
\<close>

section \<open>Lists\<close>

lemma cell_not_nul [simp]: "Cell h t \<noteq> Atom a"
  by simp

lemma list_noun_atom [simp]: "list_noun xs = Atom 0 \<longleftrightarrow> xs = []"
  using list_noun_nul [of xs] by (simp add: u3_nul_def)

lemma nul_atom: "u3_nul = Atom 0"
  by (simp add: u3_nul_def)

lemma flop_loop_list: "flop_loop (list_noun xs) (list_noun ys) = Inr (list_noun (rev xs @ ys))"
proof (induction xs arbitrary: ys)
  case (Cons x xs)
  then show ?case
    using Cons.IH [of "x # ys"] by (simp add: flop_loop.simps [of "Cell _ _"])
qed (simp add: flop_loop.simps)

lemma flop_list: "u3qb_flop (list_noun xs) = Inr (list_noun (rev xs))"
  using flop_loop_list [of xs "[]"] by (simp add: u3qb_flop_def)

lemma lent_loop_list: "lent_loop (list_noun xs) n = Inr (Atom (unat (n + of_nat (length xs))))"
  by (induction xs arbitrary: n) (simp_all add: lent_loop.simps [of u3_nul] lent_loop.simps [of "Cell _ _"] ac_simps)

lemma lent_list: "length xs < 2 ^ 32 \<Longrightarrow> lent (list_noun xs) = Inr (Atom (length xs))"
  by (simp add: lent_def lent_loop_list unat_of_nat)

lemma reap_loop_list: "reap_loop n b (list_noun xs) = list_noun (replicate n b @ xs)"
proof (induction n arbitrary: xs)
  case (Suc n)
  then show ?case
    using Suc.IH [of "b # xs"] by (simp add: replicate_app_Cons_same)
qed simp

lemma reap_list: "is_cat n \<Longrightarrow> u3qb_reap n b = Inr (list_noun (replicate n b))"
  using reap_loop_list [of n b "[]"] by (simp add: u3qb_reap_def)

lemma scag_loop_list: "scag_loop n (list_noun xs) = Inr (list_noun (take n xs))"
  by (induction xs arbitrary: n; case_tac n) auto

lemma slag_loop_list: "slag_loop n (list_noun xs) = list_noun (drop n xs)"
  by (induction xs arbitrary: n; case_tac n) (auto simp: u3_nul_def)

lemma snag_loop_list: "snag_loop n (list_noun xs) = (if n < length xs then Inr (xs ! n) else Inl Exit)"
  by (induction xs arbitrary: n; case_tac n) (auto simp: u3_nul_def)

lemma scag_list: "is_cat n \<Longrightarrow> u3qb_scag (Atom n) (list_noun xs) = Inr (list_noun (take n xs))"
  by (simp add: u3qb_scag_def scag_loop_list)

lemma slag_list: "is_cat n \<Longrightarrow> u3qb_slag (Atom n) (list_noun xs) = Inr (list_noun (drop n xs))"
  by (simp add: u3qb_slag_def slag_loop_list)

lemma snag_list: "is_cat n \<Longrightarrow> u3qb_snag n (list_noun xs) = (if n < length xs then Inr (xs ! n) else Inl Exit)"
  by (simp add: u3qb_snag_def snag_loop_list)

lemma weld_list: "u3qb_weld (list_noun xs) (list_noun ys) = Inr (list_noun (xs @ ys))"
  by (induction xs) (simp_all add: u3qb_weld.simps [of u3_nul] u3qb_weld.simps [of "Cell _ _"])

lemma zing_loop_list: "zing_loop (list_noun xs) (list_noun (map list_noun xss)) = Inr (list_noun (xs @ concat xss))"
proof (induction xss arbitrary: xs)
  case (Cons ys xss)
  then show ?case
    using weld_list [of xs "[]"] weld_list [of xs "ys @ concat xss"] by (simp add: zing_loop.simps [of _ "Cell _ _"])
qed (simp add: zing_loop.simps)

lemma zing_list: "u3qb_zing (list_noun (map list_noun xss)) = Inr (list_noun (concat xss))"
  using zing_loop_list by (cases xss) (simp_all add: u3qb_zing_def)

lemma find_in_list: "find_in x (list_noun xs) y (list_noun ys) = Inr (prefix (x # xs) (y # ys))"
proof (induction xs arbitrary: x y ys)
  case (Cons a xs)
  then show ?case
    by (cases ys) (auto simp: find_in.simps [of _ "Cell _ _"])
qed (auto simp: find_in.simps)

text \<open>Where the needle starts, if anywhere.\<close>

definition first_at :: "'a list \<Rightarrow> 'a list \<Rightarrow> nat option" where
  "first_at ns hs = (if \<exists>i < length hs. prefix ns (drop i hs) then Some (LEAST i. prefix ns (drop i hs)) else None)"

lemma first_at_Cons:
  "first_at ns (h # hs) = (if prefix ns (h # hs) then Some 0 else map_option Suc (first_at ns hs))"
proof (cases "prefix ns (h # hs)")
  case True
  then show ?thesis
    by (auto simp: first_at_def intro!: Least_equality)
next
  case False
  have ex: "(\<exists>i < length (h # hs). prefix ns (drop i (h # hs))) \<longleftrightarrow> (\<exists>i < length hs. prefix ns (drop i hs))"
    using False by (auto simp: less_Suc_eq_0_disj)
  have "(LEAST i. prefix ns (drop i (h # hs))) = Suc (LEAST i. prefix ns (drop i hs))" if ex: "\<exists>i < length hs. prefix ns (drop i hs)"
  proof -
    obtain i where "prefix ns (drop i hs)"
      using ex by blast
    then show ?thesis
      using Least_Suc [of "\<lambda>i. prefix ns (drop i (h # hs))" "Suc i"] False by simp
  qed
  then show ?thesis
    using False ex by (auto simp: first_at_def)
qed

lemma first_at_Nil [simp]: "first_at ns [] = None"
  by (simp add: first_at_def)

lemma find_loop_list:
  "find_loop (list_noun (n # ns)) (list_noun hs) i = Inr (case first_at (n # ns) hs of None \<Rightarrow> u3_nul
     | Some k \<Rightarrow> u3nc u3_nul (Atom (unat (i + of_nat k))))"
  by (induction hs arbitrary: i)
    (auto simp: find_loop.simps [of _ u3_nul] find_loop.simps [of _ "Cell _ _"] find_in_list first_at_Cons ac_simps simp del: prefix_Cons Cons_prefix_Cons split: option.splits)

lemma find_list:
  assumes "length hs < 2 ^ 32"
  shows "u3qb_find (list_noun ns) (list_noun hs) =
    Inr (if ns = [] then u3_nul else case first_at ns hs of None \<Rightarrow> u3_nul | Some k \<Rightarrow> u3nc u3_nul (Atom k))"
proof (cases ns)
  case (Cons n ns')
  have "k < 2 ^ 32" if k: "first_at ns hs = Some k" for k
  proof -
    obtain i where "i < length hs" "prefix ns (drop i hs)"
      using k by (auto simp: first_at_def split: if_splits)
    then have "k \<le> i"
      using k by (auto simp: first_at_def split: if_splits intro: Least_le)
    then show ?thesis
      using \<open>i < length hs\<close> assms by simp
  qed
  then show ?thesis
    using Cons find_loop_list [of n ns' hs 0] by (auto simp: u3qb_find_def unat_of_nat split: option.splits)
qed (simp add: u3qb_find_def)

section \<open>Gates\<close>

text \<open>A gate that computes a function.\<close>

definition computes :: "(noun \<Rightarrow> noun \<Rightarrow> noun jet) \<Rightarrow> noun \<Rightarrow> (noun \<Rightarrow> noun) \<Rightarrow> bool" where
  "computes slam b g \<longleftrightarrow> u3r_trel b \<noteq> None \<and> slam b = (\<lambda>x. Inr (g x))"

lemma gate_computes: "computes slam b g \<Longrightarrow> gate_prep slam b = Inr (\<lambda>x. Inr (g x))"
  by (auto simp: computes_def gate_prep_def)

lemma with_gate_computes: "computes slam b g \<Longrightarrow> with_gate slam a b loop = loop (\<lambda>x. Inr (g x)) a"
  using gate_computes [of slam b g] by (auto simp: with_gate_def computes_def)

lemma turn_list: "turn_loop (\<lambda>x. Inr (g x)) (list_noun xs) = Inr (list_noun (map g xs))"
  by (induction xs) (simp_all add: turn_loop.simps [of _ u3_nul] turn_loop.simps [of _ "Cell _ _"])

text \<open>A unit as an option.\<close>

fun unit_noun :: "noun option \<Rightarrow> noun" where
  "unit_noun None = u3_nul"
| "unit_noun (Some x) = u3nc u3_nul x"

lemma murn_list: "murn_loop (\<lambda>x. Inr (unit_noun (g x))) (list_noun xs) = Inr (list_noun (List.map_filter g xs))"
  by (induction xs) (auto simp: murn_loop.simps [of _ u3_nul] murn_loop.simps [of _ "Cell _ _"] map_filter_simps split: option.splits)

lemma skim_list: "skim_loop (\<lambda>x. Inr (loob (g x))) (list_noun xs) = Inr (list_noun (filter g xs))"
  by (induction xs) (simp_all add: skim_loop.simps [of _ u3_nul] skim_loop.simps [of _ "Cell _ _"])

lemma skip_list: "skip_loop (\<lambda>x. Inr (loob (g x))) (list_noun xs) = Inr (list_noun (filter (\<lambda>x. \<not> g x) xs))"
  by (induction xs) (simp_all add: skip_loop.simps [of _ u3_nul] skip_loop.simps [of _ "Cell _ _"])

lemma skid_list: "skid_loop (\<lambda>x. Inr (loob (g x))) (list_noun xs) = Inr (list_noun (filter g xs), list_noun (filter (\<lambda>x. \<not> g x) xs))"
  by (induction xs) (simp_all add: skid_loop.simps [of _ u3_nul] skid_loop.simps [of _ "Cell _ _"])

lemma levy_list: "levy_in (\<lambda>x. Inr (loob (g x))) (list_noun xs) = Inr (list_all g xs)"
  by (induction xs) (simp_all add: levy_in.simps [of _ "Atom _"] levy_in.simps [of _ "Cell _ _"] nul_atom)

lemma lien_list: "lien_in (\<lambda>x. Inr (loob (g x))) (list_noun xs) = Inr (list_ex g xs)"
  by (induction xs) (simp_all add: lien_in.simps [of _ "Atom _"] lien_in.simps [of _ "Cell _ _"] nul_atom)

lemma roll_list: "roll_loop (\<lambda>x. Inr (g x)) (list_noun xs) pro = Inr (fold (\<lambda>x acc. g (u3nc x acc)) xs pro)"
  by (induction xs arbitrary: pro) (simp_all add: roll_loop.simps [of _ u3_nul] roll_loop.simps [of _ "Cell _ _"])

lemma reel_push_list: "reel_push (list_noun xs) ys = Inr (rev xs @ ys)"
  by (induction xs arbitrary: ys) (simp_all add: reel_push.simps [of u3_nul] reel_push.simps [of "Cell _ _"])

lemma reel_loop_list: "reel_loop (\<lambda>x. Inr (g x)) ys pro = Inr (fold (\<lambda>x acc. g (u3nc x acc)) ys pro)"
  by (induction ys arbitrary: pro) simp_all

section \<open>Sorting\<close>

lemma split_list_in: "split_in (\<lambda>x. Inr (g x)) (list_noun xs) p =
    Inr (list_noun (filter (\<lambda>x. g (u3nc x p) = Atom 0) xs), list_noun (filter (\<lambda>x. g (u3nc x p) \<noteq> Atom 0) xs))"
  by (induction xs) (auto simp: split_in.simps [of _ "Atom _"] split_in.simps [of _ "Cell _ _"] nul_atom)

text \<open>The quicksort of the jet, on lists.\<close>

fun quick :: "(noun \<Rightarrow> noun \<Rightarrow> bool) \<Rightarrow> noun list \<Rightarrow> noun list" where
  "quick lt [] = []"
| "quick lt (x # xs) = quick lt (filter (\<lambda>y. lt y x) xs) @ x # quick lt (filter (\<lambda>y. \<not> lt y x) xs)"

lemma sort_in_list: "sort_in (\<lambda>x. Inr (g x)) (list_noun xs) = Inr (list_noun (quick (\<lambda>x y. g (u3nc x y) = Atom 0) xs))"
proof (induction "\<lambda>x y. g (u3nc x y) = Atom 0" xs rule: quick.induct)
  case (2 x xs)
  then show ?case
    using weld_list [of _ "x # _"] by (simp add: sort_in.simps [of _ "Cell _ _"] split_list_in)
qed (simp add: sort_in.simps nul_atom)

lemma mset_quick: "mset (quick lt xs) = mset xs"
proof (induction lt xs rule: quick.induct)
  case (2 lt x xs)
  then show ?case
    using multiset_partition [of "mset xs" "\<lambda>y. lt y x"] by simp
qed simp

lemma set_quick [simp]: "set (quick lt xs) = set xs"
  using mset_quick by (metis set_mset_mset)

lemma sorted_quick:
  assumes trans: "\<And>x y z. lt x y \<Longrightarrow> lt y z \<Longrightarrow> lt x z" and asym: "\<And>x y. lt x y \<Longrightarrow> \<not> lt y x"
  shows "sorted_wrt (\<lambda>x y. \<not> lt y x) (quick lt xs)"
proof (induction xs rule: measure_induct_rule [of length])
  case (less xs)
  show ?case
  proof (cases xs)
    case (Cons x ys)
    have "sorted_wrt (\<lambda>x y. \<not> lt y x) (quick lt (filter p ys))" for p
      by (rule less) (simp add: Cons less_Suc_eq_le)
    then show ?thesis
      by (auto simp: Cons sorted_wrt_append dest: asym trans)
  qed simp
qed

section \<open>Summary\<close>

definition sorts_by :: "(noun \<Rightarrow> noun \<Rightarrow> bool) \<Rightarrow> noun list \<Rightarrow> noun list \<Rightarrow> bool" where
  "sorts_by lt xs ys \<longleftrightarrow> mset ys = mset xs \<and> sorted_wrt (\<lambda>x y. \<not> lt y x) ys"

definition example_gate :: "nat \<Rightarrow> noun" where
  "example_gate bat = u3nt (Atom bat) (u3nc (Atom 0) (Atom 7)) (Atom 0)"

text \<open>
  C35. The list jets that build lists compute reversal, length, repetition, prefixes and rests, elements by
  index (with a bail behind the end), concatenation, and the index of the first occurrence of a list in a list.
\<close>

theorem list_jets:
  assumes "is_cat n" and "length xs < 2 ^ 32"
  shows "u3qb_flop (list_noun xs) = Inr (list_noun (rev xs)) \<and>
    lent (list_noun xs) = Inr (Atom (length xs)) \<and>
    u3qb_reap n x = Inr (list_noun (replicate n x)) \<and>
    u3qb_scag (Atom n) (list_noun xs) = Inr (list_noun (take n xs)) \<and>
    u3qb_slag (Atom n) (list_noun xs) = Inr (list_noun (drop n xs)) \<and>
    u3qb_snag n (list_noun xs) = (if n < length xs then Inr (xs ! n) else Inl Exit) \<and>
    u3qb_weld (list_noun xs) (list_noun ys) = Inr (list_noun (xs @ ys)) \<and>
    u3qb_zing (list_noun (map list_noun xss)) = Inr (list_noun (concat xss)) \<and>
    u3qb_find (list_noun ys) (list_noun xs) =
      Inr (if ys = [] then u3_nul else case first_at ys xs of None \<Rightarrow> u3_nul | Some k \<Rightarrow> u3nc u3_nul (Atom k))"
  using assms by (intro conjI) (simp_all add: flop_list lent_list reap_list scag_list slag_list snag_list weld_list zing_list find_list)

theorem list_jets_witness:
  "u3qb_flop (list_noun [Atom 1, Atom 2]) = Inr (list_noun [Atom 2, Atom 1]) \<and> u3qb_snag 2 (list_noun [Atom 1, Atom 2]) = Inl Exit"
proof -
  have "is_cat 2" "length [Atom 1, Atom 2] < 2 ^ 32"
    by (simp_all add: is_cat_def)
  from list_jets [OF this] show ?thesis
    by simp
qed

text \<open>
  C36. The list jets that call a gate compute mapping, filtering, partition, quantifiers and both folds of the function
  of the gate.
\<close>

theorem list_gate_jets:
  assumes "computes slam b g" and "computes slam c (\<lambda>x. loob (p x))" and "u3x_at (Atom 13) b = Inr acc"
  shows "u3qb_turn slam (list_noun xs) b = Inr (list_noun (map g xs)) \<and>
    u3qb_skim slam (list_noun xs) c = Inr (list_noun (filter p xs)) \<and>
    u3qb_skip slam (list_noun xs) c = Inr (list_noun (filter (\<lambda>x. \<not> p x) xs)) \<and>
    u3qb_skid slam (list_noun xs) c = Inr (u3nc (list_noun (filter p xs)) (list_noun (filter (\<lambda>x. \<not> p x) xs))) \<and>
    u3qb_levy slam (list_noun xs) c = Inr (list_all p xs) \<and>
    u3qb_lien slam (list_noun xs) c = Inr (list_ex p xs) \<and>
    u3qb_roll slam (list_noun xs) b = Inr (fold (\<lambda>x acc. g (u3nc x acc)) xs acc) \<and>
    u3qb_reel slam (list_noun xs) b = Inr (foldr (\<lambda>x acc. g (u3nc x acc)) xs acc)"
  by (intro conjI)
    (simp_all add: u3qb_turn_def u3qb_skim_def u3qb_skip_def u3qb_skid_def u3qb_levy_def u3qb_lien_def u3qb_roll_def u3qb_reel_def
      assms(3) gate_computes [OF assms(1)] gate_computes [OF assms(2)] with_gate_computes [OF assms(1)] with_gate_computes [OF assms(2)]
      turn_list skim_list skip_list skid_list levy_list lien_list roll_list reel_push_list reel_loop_list foldr_conv_fold)

text \<open>Two gates, told apart by their batteries: one is the identity, the other always says yes.\<close>

definition example_slam :: "noun \<Rightarrow> noun \<Rightarrow> noun jet" where
  "example_slam b x = (if u3h b = Inr (Atom 0) then Inr x else Inr (loob True))"

lemma example_computes:
  "computes example_slam (example_gate 0) (\<lambda>x. x)" "computes example_slam (example_gate 1) (\<lambda>x. loob True)"
  by (simp_all add: computes_def example_gate_def example_slam_def fun_eq_iff)

theorem list_gate_jets_witness:
  "u3qb_turn example_slam (list_noun [Atom 1]) (example_gate 0) = Inr (list_noun [Atom 1]) \<and>
   u3qb_reel example_slam (list_noun [Atom 1]) (example_gate 0) = Inr (u3nc (Atom 1) (Atom 7))"
proof -
  have "u3x_at (Atom 13) (example_gate 0) = Inr (Atom 7)"
    by (simp add: example_gate_def u3x_at_def u3r_at_fragment fragment_def axis_paths u3x_good_def del: u3r_at.simps)
  from list_gate_jets [OF example_computes this, of "[Atom 1]"] show ?thesis
    by simp
qed

text \<open>
  C26. Sorting with a gate that computes a transitive and asymmetric order returns the elements of the list, with their
  multiplicities, in ascending order.
\<close>

theorem sort_jet:
  assumes "computes slam b (\<lambda>x. case x of Cell u v \<Rightarrow> loob (lt u v) | Atom a \<Rightarrow> Atom a)"
    and "\<And>x y z. lt x y \<Longrightarrow> lt y z \<Longrightarrow> lt x z" and "\<And>x y. lt x y \<Longrightarrow> \<not> lt y x"
  shows "\<exists>ys. u3qb_sort slam (list_noun xs) b = Inr (list_noun ys) \<and> sorts_by lt xs ys"
proof -
  have "(\<lambda>x y. (case u3nc x y of Cell u v \<Rightarrow> loob (lt u v) | Atom a \<Rightarrow> Atom a) = Atom 0) = lt"
    by (auto simp: fun_eq_iff loob_def)
  then have "u3qb_sort slam (list_noun xs) b = Inr (list_noun (quick lt xs))"
    using gate_computes [OF assms(1)] by (simp add: u3qb_sort_def sort_in_list)
  moreover have "sorts_by lt xs (quick lt xs)"
    by (simp add: sorts_by_def mset_quick sorted_quick [OF assms(2,3)])
  ultimately show ?thesis
    by blast
qed

text \<open>The order of atoms as numbers; a cell is above them.\<close>

definition number_less :: "noun \<Rightarrow> noun \<Rightarrow> bool" where
  "number_less x y = (case x of Atom a \<Rightarrow> (case y of Atom b \<Rightarrow> a < b | Cell _ _ \<Rightarrow> True) | Cell _ _ \<Rightarrow> False)"

theorem sort_jet_witness:
  "\<exists>ys. u3qb_sort (\<lambda>b x. Inr (case x of Cell u v \<Rightarrow> loob (number_less u v) | Atom a \<Rightarrow> Atom a)) (list_noun [Atom 2, Atom 1]) (example_gate 0) =
     Inr (list_noun ys) \<and> sorts_by number_less [Atom 2, Atom 1] ys"
proof (rule sort_jet)
  show "computes (\<lambda>b x. Inr (case x of Cell u v \<Rightarrow> loob (number_less u v) | Atom a \<Rightarrow> Atom a)) (example_gate 0)
      (\<lambda>x. case x of Cell u v \<Rightarrow> loob (number_less u v) | Atom a \<Rightarrow> Atom a)"
    by (simp add: computes_def example_gate_def)
qed (auto simp: number_less_def split: noun.splits)

end
