(* ===== verification/Noun_Hash.thy ===== *)
theory Noun_Hash
  imports Noun_Access
begin

text \<open>
  Hashtables (\<^verbatim>\<open>pkg/noun/hashtable.c\<close>): hash array mapped tries over the mugs of the keys, with a root of 64 slots,
  nodes of up to 32 slots that are found with a bit map, and buckets for keys of equal mug. A table that is made as a
  cache drops entries by the clock algorithm. The number of bits of the mug that are left at a slot, \<open>lef\<close>, tells a
  node (above 0) from a bucket (at 0); \<open>None\<close> stands for a slot whose content is not what the code takes it to be. The
  slots behind the length of a node or a bucket that was shrunk in place are not part of the model.
\<close>

section \<open>Slots\<close>

text \<open>An entry with its warm bit, its key and its value.\<close>

type_synonym entry = "bool \<times> noun \<times> noun"

datatype u3h_slot = Null | Noun entry | Node u32 "u3h_slot list" | Buck "entry list"

record u3h_root =
  max_w :: nat
  use_w :: nat
  mug_w :: nat
  inx_w :: nat
  sot_w :: "u3h_slot list"

definition u3r_mug :: "murmur \<Rightarrow> noun \<Rightarrow> nat" where
  "u3r_mug murmur key = unat (noun_mug murmur key)"

definition CUT_END :: "nat \<Rightarrow> nat \<Rightarrow> nat" where
  "CUT_END a b = a mod 2 ^ b"

definition u3h_new_cache :: "nat \<Rightarrow> u3h_root" where
  "u3h_new_cache n = \<lparr>max_w = n, use_w = 0, mug_w = 0, inx_w = 0, sot_w = replicate 64 Null\<rparr>"

definition u3h_new :: u3h_root where
  "u3h_new = u3h_new_cache 0"

definition ch_popcount :: "u32 \<Rightarrow> nat" where
  "ch_popcount num = length (filter (bit num) [0..<32])"

text \<open>The index of the slot of a bit: the number of the lower bits that are set.\<close>

definition ch_inx :: "u32 \<Rightarrow> nat \<Rightarrow> nat" where
  "ch_inx map_w bit_w = ch_popcount (take_bit bit_w map_w)"

section \<open>Insertion\<close>

fun ch_buck_seek :: "entry list \<Rightarrow> noun \<Rightarrow> nat \<Rightarrow> nat option" where
  "ch_buck_seek [] key i = None"
| "ch_buck_seek ((_, k, _) # hab) key i = (if key = k then Some i else ch_buck_seek hab key (i + 1))"

definition ch_buck_add :: "entry list \<Rightarrow> noun \<Rightarrow> noun \<Rightarrow> nat \<Rightarrow> entry list \<times> nat" where
  "ch_buck_add hab key val use =
     (case ch_buck_seek hab key 0 of
        Some i \<Rightarrow> (hab[i := (True, key, val)], use)
      | None \<Rightarrow> ((True, key, val) # hab, use + 1))"

fun ch_two :: "entry \<Rightarrow> entry \<Rightarrow> nat \<Rightarrow> nat \<Rightarrow> nat \<Rightarrow> u3h_slot" where
  "ch_two had add lef ham mad =
     (if lef = 0 then Buck [had, add]
      else let lef = lef - 5; hop = ham div 2 ^ lef; tad = mad div 2 ^ lef
        in if hop = tad then Node (push_bit hop 1) [ch_two had add lef (CUT_END ham lef) (CUT_END mad lef)]
           else Node (push_bit hop 1 OR push_bit tad 1) (if hop < tad then [Noun had, Noun add] else [Noun add, Noun had]))"

declare ch_two.simps [simp del]

function ch_node_add :: "murmur \<Rightarrow> u32 \<Rightarrow> u3h_slot list \<Rightarrow> nat \<Rightarrow> nat \<Rightarrow> noun \<Rightarrow> noun \<Rightarrow> nat \<Rightarrow> (u3h_slot \<times> nat) option"
  and ch_some_add :: "murmur \<Rightarrow> u3h_slot \<Rightarrow> nat \<Rightarrow> nat \<Rightarrow> noun \<Rightarrow> noun \<Rightarrow> nat \<Rightarrow> (u3h_slot \<times> nat) option"
  and ch_slot_put :: "murmur \<Rightarrow> u3h_slot \<Rightarrow> noun \<Rightarrow> noun \<Rightarrow> nat \<Rightarrow> nat \<Rightarrow> nat \<Rightarrow> (u3h_slot \<times> nat) option" where
  "ch_node_add murmur map_w sots lef rem key val use =
     (if lef < 5 then None
      else let lef = lef - 5; bit_w = rem div 2 ^ lef; rem = CUT_END rem lef; inx = ch_inx map_w bit_w
        in if bit map_w bit_w then
             if inx < length sots then
               map_option (\<lambda>(tos, use). (Node map_w (sots[inx := tos]), use)) (ch_slot_put murmur (sots ! inx) key val lef rem use)
             else None
           else let len = ch_popcount map_w
             in Some (Node (map_w OR push_bit bit_w 1) (take inx sots @ Noun (True, key, val) # take (len - inx) (drop inx sots)), use + 1))"
| "ch_some_add murmur han lef rem key val use =
     (if lef = 0 then (case han of Buck hab \<Rightarrow> (case ch_buck_add hab key val use of (hab, use) \<Rightarrow> Some (Buck hab, use)) | _ \<Rightarrow> None)
      else (case han of Node map_w sots \<Rightarrow> ch_node_add murmur map_w sots lef rem key val use | _ \<Rightarrow> None))"
| "ch_slot_put murmur sot key val lef rem use =
     (case sot of
        Noun (w, k, v) \<Rightarrow>
          if key = k then Some (Noun (True, key, val), use)
          else Some (ch_two (w, k, v) (True, key, val) lef (CUT_END (u3r_mug murmur k) lef) rem, use + 1)
      | _ \<Rightarrow> ch_some_add murmur sot lef rem key val use)"
  by pat_completeness auto
termination
  by (relation "measure (\<lambda>x. case x of
        Inl (_, _, _, lef, _) \<Rightarrow> 3 * lef
      | Inr (Inl (_, _, lef, _)) \<Rightarrow> 3 * lef + 1
      | Inr (Inr (_, _, _, _, lef, _)) \<Rightarrow> 3 * lef + 2)") auto

declare ch_node_add.simps [simp del] ch_some_add.simps [simp del] ch_slot_put.simps [simp del]

section \<open>Trimming\<close>

text \<open>Trimming a warm entry only makes it cold.\<close>

fun ch_trim_kev :: "entry \<Rightarrow> entry option" where
  "ch_trim_kev (w, k, v) = (if w then Some (False, k, v) else None)"

text \<open>
  The clock arm is a mug and an index into a bucket. The loop over a bucket stops at the first entry that is dropped
  (\<open>Inl\<close>), or at its end.
\<close>

function trim_buck_loop :: "entry list \<Rightarrow> nat \<Rightarrow> entry list \<times> nat + entry list" where
  "trim_buck_loop hab inx =
     (if inx < length hab then
        case ch_trim_kev (hab ! inx) of
          None \<Rightarrow> Inl (hab, inx)
        | Some kev \<Rightarrow> trim_buck_loop (hab[inx := kev]) (inx + 1)
      else Inr hab)"
  by pat_completeness auto
termination by (relation "measure (\<lambda>(hab, inx). length hab - inx)") auto

declare trim_buck_loop.simps [simp del]

definition ch_trim_buck :: "nat \<times> nat \<Rightarrow> entry list \<Rightarrow> bool \<times> u3h_slot \<times> nat \<times> nat" where
  "ch_trim_buck arm hab =
     (case trim_buck_loop hab (snd arm) of
        Inl (hab, inx) \<Rightarrow>
          if length hab = 2 then (True, Noun (hab ! (if inx = 0 then 1 else 0)), fst arm, 0)
          else (True, Buck (take inx hab @ drop (inx + 1) hab), fst arm, inx + 1)
      | Inr hab \<Rightarrow> (False, Buck hab, (fst arm + 1) mod 2 ^ 31, 0))"

definition ch_skip_slot :: "nat \<Rightarrow> nat \<Rightarrow> nat" where
  "ch_skip_slot mug lef = CUT_END (mug div 2 ^ lef + 1) (31 - lef) * 2 ^ lef"

fun is_noun :: "u3h_slot \<Rightarrow> bool" where
  "is_noun (Noun _) = True"
| "is_noun _ = False"

function ch_trim_node :: "nat \<times> nat \<Rightarrow> u32 \<Rightarrow> u3h_slot list \<Rightarrow> nat \<Rightarrow> nat \<Rightarrow> (bool \<times> u3h_slot \<times> nat \<times> nat) option"
  and ch_trim_some :: "nat \<times> nat \<Rightarrow> u3h_slot \<Rightarrow> nat \<Rightarrow> nat \<Rightarrow> (bool \<times> u3h_slot \<times> nat \<times> nat) option"
  and ch_trim_slot :: "nat \<times> nat \<Rightarrow> u3h_slot \<Rightarrow> nat \<Rightarrow> nat \<Rightarrow> (bool \<times> u3h_slot \<times> nat \<times> nat) option" where
  "ch_trim_node arm map_w sots lef rem =
     (if lef < 5 then None
      else let lef = lef - 5; bit_w = rem div 2 ^ lef
        in if \<not> bit map_w bit_w then Some (False, Node map_w sots, ch_skip_slot (fst arm) lef, snd arm)
           else let rem = CUT_END rem lef; inx = ch_inx map_w bit_w
             in if inx < length sots then
                  (case ch_trim_slot arm (sots ! inx) lef rem of
                     None \<Rightarrow> None
                   | Some (ohn, tos, arm) \<Rightarrow>
                       if \<not> ohn \<or> tos \<noteq> Null then Some (ohn, Node map_w (sots[inx := tos]), arm)
                       else let len = ch_popcount map_w; ken = (if inx = 0 then 1 else 0)
                         in if len = 2 \<and> is_noun (sots ! ken) then Some (True, sots ! ken, arm)
                            else Some (True, Node (map_w AND NOT (push_bit bit_w 1))
                                   (take inx sots @ take (len - 1 - inx) (drop (inx + 1) sots)), arm))
                else None)"
| "ch_trim_some arm sot lef rem =
     (if lef = 0 then (case sot of Buck hab \<Rightarrow> Some (ch_trim_buck arm hab) | _ \<Rightarrow> None)
      else (case sot of Node map_w sots \<Rightarrow> ch_trim_node arm map_w sots lef rem | _ \<Rightarrow> None))"
| "ch_trim_slot arm sot lef rem =
     (case sot of
        Noun kev \<Rightarrow> (let arm = (ch_skip_slot (fst arm) lef, snd arm)
          in case ch_trim_kev kev of None \<Rightarrow> Some (True, Null, arm) | Some kev \<Rightarrow> Some (False, Noun kev, arm))
      | _ \<Rightarrow> ch_trim_some arm sot lef rem)"
  by pat_completeness auto
termination
  by (relation "measure (\<lambda>x. case x of
        Inl (_, _, _, lef, _) \<Rightarrow> 3 * lef
      | Inr (Inl (_, _, lef, _)) \<Rightarrow> 3 * lef + 1
      | Inr (Inr (_, _, lef, _)) \<Rightarrow> 3 * lef + 2)") auto

declare ch_trim_node.simps [simp del] ch_trim_some.simps [simp del] ch_trim_slot.simps [simp del]

definition ch_trim_root :: "u3h_root \<Rightarrow> (bool \<times> u3h_root) option" where
  "ch_trim_root har =
     (let mug = mug_w har; inx = mug div 2 ^ 25
      in if inx < length (sot_w har) then
           if sot_w har ! inx = Null then Some (False, har\<lparr>mug_w := ch_skip_slot mug 25\<rparr>)
           else map_option (\<lambda>(ohn, sot, mug, i). (ohn, har\<lparr>sot_w := (sot_w har)[inx := sot], mug_w := mug, inx_w := i\<rparr>))
                  (ch_trim_slot (mug, inx_w har) (sot_w har ! inx) 25 (CUT_END mug 25))
         else None)"

partial_function (option) u3h_trim_to :: "u3h_root \<Rightarrow> nat \<Rightarrow> u3h_root option" where
  "u3h_trim_to har n =
     (if n < use_w har then
        case ch_trim_root har of
          None \<Rightarrow> None
        | Some (ohn, har) \<Rightarrow> u3h_trim_to (if ohn then har\<lparr>use_w := use_w har - 1\<rparr> else har) n
      else Some har)"

definition u3h_put :: "murmur \<Rightarrow> u3h_root \<Rightarrow> noun \<Rightarrow> noun \<Rightarrow> u3h_root option" where
  "u3h_put murmur har key val =
     (let mug = u3r_mug murmur key; inx = mug div 2 ^ 25; rem = CUT_END mug 25
      in if inx < length (sot_w har) then
           case (if sot_w har ! inx = Null then Some (Noun (True, key, val), use_w har + 1)
                 else ch_slot_put murmur (sot_w har ! inx) key val 25 rem (use_w har)) of
             None \<Rightarrow> None
           | Some (sot, use) \<Rightarrow>
               (let har = har\<lparr>sot_w := (sot_w har)[inx := sot], use_w := use\<rparr>
                in if 0 < max_w har then u3h_trim_to har (max_w har) else Some har)
         else None)"

section \<open>Lookup\<close>

fun ch_buck_git :: "entry list \<Rightarrow> noun \<Rightarrow> noun option" where
  "ch_buck_git [] key = None"
| "ch_buck_git ((_, k, v) # hab) key = (if key = k then Some v else ch_buck_git hab key)"

text \<open>The outer \<open>None\<close> is a misread slot, the inner one is \<open>u3_none\<close>.\<close>

function ch_node_git :: "u32 \<Rightarrow> u3h_slot list \<Rightarrow> nat \<Rightarrow> nat \<Rightarrow> noun \<Rightarrow> noun option option" where
  "ch_node_git map_w sots lef rem key =
     (if lef < 5 then None
      else let lef = lef - 5; bit_w = rem div 2 ^ lef; rem = CUT_END rem lef
        in if \<not> bit map_w bit_w then Some None
           else let inx = ch_inx map_w bit_w
             in if inx < length sots then
                  (case sots ! inx of
                     Noun (w, k, v) \<Rightarrow> Some (if key = k then Some v else None)
                   | Buck hab \<Rightarrow> if lef = 0 then Some (ch_buck_git hab key) else None
                   | Node map_w sots \<Rightarrow> if lef = 0 then None else ch_node_git map_w sots lef rem key
                   | Null \<Rightarrow> None)
                else None)"
  by pat_completeness auto
termination by (relation "measure (\<lambda>(_, _, lef, _). lef)") auto

declare ch_node_git.simps [simp del]

text \<open>A lookup warms an entry of the root table.\<close>

definition u3h_git :: "murmur \<Rightarrow> u3h_root \<Rightarrow> noun \<Rightarrow> (noun option \<times> u3h_root) option" where
  "u3h_git murmur har key =
     (let mug = u3r_mug murmur key; inx = mug div 2 ^ 25; rem = CUT_END mug 25
      in if inx < length (sot_w har) then
           (case sot_w har ! inx of
              Null \<Rightarrow> Some (None, har)
            | Noun (w, k, v) \<Rightarrow>
                Some (if key = k then (Some v, har\<lparr>sot_w := (sot_w har)[inx := Noun (True, k, v)]\<rparr>) else (None, har))
            | Node map_w sots \<Rightarrow> map_option (\<lambda>pro. (pro, har)) (ch_node_git map_w sots 25 rem key)
            | Buck _ \<Rightarrow> None)
         else None)"

definition u3h_get :: "murmur \<Rightarrow> u3h_root \<Rightarrow> noun \<Rightarrow> (noun option \<times> u3h_root) option" where
  "u3h_get murmur har key = u3h_git murmur har key"

fun ch_buck_hum :: "murmur \<Rightarrow> entry list \<Rightarrow> nat \<Rightarrow> bool" where
  "ch_buck_hum murmur [] mug = False"
| "ch_buck_hum murmur ((_, k, _) # hab) mug = (if mug = u3r_mug murmur k then True else ch_buck_hum murmur hab mug)"

function ch_node_hum :: "murmur \<Rightarrow> u32 \<Rightarrow> u3h_slot list \<Rightarrow> nat \<Rightarrow> nat \<Rightarrow> nat \<Rightarrow> bool option" where
  "ch_node_hum murmur map_w sots lef rem mug =
     (if lef < 5 then None
      else let lef = lef - 5; bit_w = rem div 2 ^ lef; rem = CUT_END rem lef
        in if \<not> bit map_w bit_w then Some False
           else let inx = ch_inx map_w bit_w
             in if inx < length sots then
                  (case sots ! inx of
                     Noun (w, k, v) \<Rightarrow> Some (mug = u3r_mug murmur k)
                   | Buck hab \<Rightarrow> if lef = 0 then Some (ch_buck_hum murmur hab mug) else None
                   | Node map_w sots \<Rightarrow> if lef = 0 then None else ch_node_hum murmur map_w sots lef rem mug
                   | Null \<Rightarrow> None)
                else None)"
  by pat_completeness auto
termination by (relation "measure (\<lambda>(_, _, _, lef, _). lef)") auto

declare ch_node_hum.simps [simp del]

definition u3h_hum :: "murmur \<Rightarrow> u3h_root \<Rightarrow> nat \<Rightarrow> bool option" where
  "u3h_hum murmur har mug =
     (let inx = mug div 2 ^ 25; rem = CUT_END mug 25
      in if inx < length (sot_w har) then
           (case sot_w har ! inx of
              Null \<Rightarrow> Some False
            | Noun (w, k, v) \<Rightarrow> Some (mug = u3r_mug murmur k)
            | Node map_w sots \<Rightarrow> ch_node_hum murmur map_w sots 25 rem mug
            | Buck _ \<Rightarrow> None)
         else None)"

section \<open>Traversal\<close>

text \<open>A callback takes an entry and its data argument, and may fail.\<close>

type_synonym 'w visit = "noun \<times> noun \<Rightarrow> 'w \<Rightarrow> 'w option"

fun ch_walk_buck :: "entry list \<Rightarrow> 'w visit \<Rightarrow> 'w \<Rightarrow> 'w option" where
  "ch_walk_buck [] f wit = Some wit"
| "ch_walk_buck ((_, kev) # hab) f wit = Option.bind (f kev wit) (ch_walk_buck hab f)"

function ch_walk_node :: "u32 \<Rightarrow> u3h_slot list \<Rightarrow> nat \<Rightarrow> 'w visit \<Rightarrow> 'w \<Rightarrow> 'w option"
  and walk_node_loop :: "u3h_slot list \<Rightarrow> nat \<Rightarrow> 'w visit \<Rightarrow> 'w \<Rightarrow> 'w option" where
  "ch_walk_node map_w sots lef f wit =
     (if lef < 5 \<or> length sots < ch_popcount map_w then None
      else walk_node_loop (take (ch_popcount map_w) sots) (lef - 5) f wit)"
| "walk_node_loop [] lef f wit = Some wit"
| "walk_node_loop (Noun kev # sots) lef f wit =
     (case f (snd kev) wit of None \<Rightarrow> None | Some wit \<Rightarrow> walk_node_loop sots lef f wit)"
| "walk_node_loop (Buck hab # sots) lef f wit =
     (if lef = 0 then (case ch_walk_buck hab f wit of None \<Rightarrow> None | Some wit \<Rightarrow> walk_node_loop sots lef f wit) else None)"
| "walk_node_loop (Node map_w tos # sots) lef f wit =
     (if lef = 0 then None else (case ch_walk_node map_w tos lef f wit of None \<Rightarrow> None | Some wit \<Rightarrow> walk_node_loop sots lef f wit))"
| "walk_node_loop (Null # sots) lef f wit = None"
  by pat_completeness auto
termination
  by (relation "measures [\<lambda>x. case x of Inl (_, _, lef, _) \<Rightarrow> 2 * lef | Inr (_, lef, _) \<Rightarrow> 2 * lef + 1,
      \<lambda>x. case x of Inl _ \<Rightarrow> 0 | Inr (sots, _) \<Rightarrow> length sots]") auto

declare ch_walk_node.simps [simp del] walk_node_loop.simps(2-5) [simp del]

fun walk_root_loop :: "u3h_slot list \<Rightarrow> 'w visit \<Rightarrow> 'w \<Rightarrow> 'w option" where
  "walk_root_loop [] f wit = Some wit"
| "walk_root_loop (sot # sots) f wit =
     Option.bind
       (case sot of
          Noun (w, kev) \<Rightarrow> f kev wit
        | Node map_w tos \<Rightarrow> ch_walk_node map_w tos 25 f wit
        | Buck _ \<Rightarrow> None
        | Null \<Rightarrow> Some wit)
       (walk_root_loop sots f)"

definition u3h_walk_with :: "u3h_root \<Rightarrow> 'w visit \<Rightarrow> 'w \<Rightarrow> 'w option" where
  "u3h_walk_with har f wit = walk_root_loop (sot_w har) f wit"

text \<open>The tables of a union are different ones: the traversed table does not change.\<close>

definition ch_uni_with :: "murmur \<Rightarrow> u3h_root visit" where
  "ch_uni_with murmur kev har = u3h_put murmur har (fst kev) (snd kev)"

definition u3h_uni :: "murmur \<Rightarrow> u3h_root \<Rightarrow> u3h_root \<Rightarrow> u3h_root option" where
  "u3h_uni murmur har rah = u3h_walk_with rah (ch_uni_with murmur) har"

section \<open>Copying\<close>

text \<open>
  The copy of a table for a senior road: keys are copied, values are passed to a function, and all entries become warm.
  An empty slot of the root is taken for a node at offset 0 of the loom, a word that is never allocated and always 0:
  it is copied as a node without slots.
\<close>

definition ch_take_noun :: "(noun \<Rightarrow> noun) \<Rightarrow> entry \<Rightarrow> entry" where
  "ch_take_noun f kov = (True, fst (snd kov), f (snd (snd kov)))"

definition ch_take_buck :: "(noun \<Rightarrow> noun) \<Rightarrow> entry list \<Rightarrow> u3h_slot" where
  "ch_take_buck f hab = Buck (map (ch_take_noun f) hab)"

function ch_take_node :: "u32 \<Rightarrow> u3h_slot list \<Rightarrow> nat \<Rightarrow> (noun \<Rightarrow> noun) \<Rightarrow> u3h_slot option"
  and take_node_loop :: "u3h_slot list \<Rightarrow> nat \<Rightarrow> (noun \<Rightarrow> noun) \<Rightarrow> u3h_slot list option" where
  "ch_take_node map_w sots lef f =
     (if lef < 5 \<or> length sots < ch_popcount map_w then None
      else map_option (Node map_w) (take_node_loop (take (ch_popcount map_w) sots) (lef - 5) f))"
| "take_node_loop [] lef f = Some []"
| "take_node_loop (tos # sots) lef f =
     (case
       (case tos of
          Noun kev \<Rightarrow> Some (Noun (ch_take_noun f kev))
        | Buck hab \<Rightarrow> if lef = 0 then Some (ch_take_buck f hab) else None
        | Node map_w tos \<Rightarrow> if lef = 0 then None else ch_take_node map_w tos lef f
        | Null \<Rightarrow> None)
      of None \<Rightarrow> None | Some tos \<Rightarrow> map_option ((#) tos) (take_node_loop sots lef f))"
  by pat_completeness auto
termination
  by (relation "measures [\<lambda>x. case x of Inl (_, _, lef, _) \<Rightarrow> 2 * lef | Inr (_, lef, _) \<Rightarrow> 2 * lef + 1,
      \<lambda>x. case x of Inl _ \<Rightarrow> 0 | Inr (sots, _) \<Rightarrow> length sots]") auto

declare ch_take_node.simps [simp del] take_node_loop.simps(2) [simp del]

fun take_root_loop :: "u3h_slot list \<Rightarrow> (noun \<Rightarrow> noun) \<Rightarrow> u3h_slot list option" where
  "take_root_loop [] f = Some []"
| "take_root_loop (tos # sots) f =
     Option.bind
       (case tos of
          Noun kev \<Rightarrow> Some (Noun (ch_take_noun f kev))
        | Node map_w tos \<Rightarrow> ch_take_node map_w tos 25 f
        | Null \<Rightarrow> ch_take_node 0 [] 25 f
        | Buck _ \<Rightarrow> None)
       (\<lambda>tos. map_option ((#) tos) (take_root_loop sots f))"

definition u3h_take_with :: "u3h_root \<Rightarrow> (noun \<Rightarrow> noun) \<Rightarrow> u3h_root option" where
  "u3h_take_with har f =
     map_option (\<lambda>sots. (u3h_new_cache (max_w har))\<lparr>use_w := use_w har, mug_w := mug_w har, inx_w := inx_w har, sot_w := sots\<rparr>)
       (take_root_loop (sot_w har) f)"

text \<open>Copying a noun to another road does not change its value.\<close>

definition u3h_take :: "u3h_root \<Rightarrow> u3h_root option" where
  "u3h_take har = u3h_take_with har (\<lambda>val. val)"

end
