(* ===== verification/Noun_Hash_Correct.thy ===== *)
theory Noun_Hash_Correct
  imports Noun_Hash "HOL-Library.Sublist"
begin

text \<open>
  Hashtables as finite maps. \<open>trie_ok\<close> is the invariant of a slot: every key is where its mug says. A table denotes the
  list of its entries in the order of the traversal; lookup, insertion, trimming, traversal and copying are related to
  it. Trimming ends because it drops an entry, cools one, or moves the clock arm over a range of mugs without entries.
\<close>

section \<open>Bit maps\<close>

definition bits :: "u32 \<Rightarrow> nat list" where
  "bits w = filter (bit w) [0..<32]"

lemma set_bits: "set (bits w) = {b. b < 32 \<and> bit w b}"
  by (auto simp: bits_def)

lemma distinct_bits: "distinct (bits w)"
  by (simp add: bits_def)

lemma length_bits: "length (bits w) = ch_popcount w"
  by (simp add: bits_def ch_popcount_def)

lemma upto_split: "b < 32 \<Longrightarrow> [0..<32] = [0..<b] @ b # [Suc b..<32]"
  using upt_add_eq_append [of 0 b "32 - b"] upt_conv_Cons [of b 32] by (simp del: upt_rec_numeral)

lemma ch_inx_length:
  assumes "b < 32"
  shows "ch_inx w b = length (filter (bit w) [0..<b])"
proof -
  have "filter (\<lambda>i. i < b \<and> bit w i) [0..<32] = filter (bit w) [0..<b]"
    unfolding upto_split [OF assms] by (auto simp: filter_empty_conv intro: filter_cong)
  then show ?thesis
    unfolding ch_inx_def ch_popcount_def bit_take_bit_iff [abs_def] by simp
qed

lemma bits_split:
  assumes "b < 32"
  obtains A B where "length A = ch_inx w b" "bits (w OR push_bit b 1) = A @ b # B" "bits (w AND NOT (push_bit b 1)) = A @ B"
    "bits w = (if bit w b then A @ b # B else A @ B)"
proof
  let ?A = "filter (bit w) [0..<b]" and ?B = "filter (bit w) [Suc b..<32]"
  have eq: "bit (w OR 2 ^ b) i = (bit w i \<or> i = b)" "bit (w AND NOT (2 ^ b)) i = (bit w i \<and> i \<noteq> b)" if "i < 32" for i
    using assms that by (auto simp: bit_simps)
  have r: "filter (bit (w OR 2 ^ b)) [0..<b] = ?A" "filter (bit (w OR 2 ^ b)) [Suc b..<32] = ?B"
      "filter (bit (w AND NOT (2 ^ b))) [0..<b] = ?A" "filter (bit (w AND NOT (2 ^ b))) [Suc b..<32] = ?B"
    by (rule filter_cong [OF refl]; use assms in \<open>simp add: eq\<close>)+
  show "length ?A = ch_inx w b"
    using ch_inx_length assms by simp
  show "bits (w OR push_bit b 1) = ?A @ b # ?B" "bits (w AND NOT (push_bit b 1)) = ?A @ ?B"
      "bits w = (if bit w b then ?A @ b # ?B else ?A @ ?B)"
    unfolding bits_def upto_split [OF assms] filter_append filter.simps push_bit_of_1 r using eq [OF assms] by simp_all
qed

lemma bits_eqI: "sorted xs \<Longrightarrow> distinct xs \<Longrightarrow> set xs = {b. b < 32 \<and> bit w b} \<Longrightarrow> bits w = xs"
  by (rule sorted_distinct_set_unique)
    (auto simp: bits_def sorted_wrt_filter simp del: upt_rec_numeral)

lemma bits_one: "b < 32 \<Longrightarrow> bits (push_bit b 1) = [b]"
  by (rule bits_eqI) (auto simp: bit_simps)

lemma bits_two: "b < 32 \<Longrightarrow> c < 32 \<Longrightarrow> b < c \<Longrightarrow> bits (push_bit b 1 OR push_bit c 1) = [b, c]"
  by (rule bits_eqI) (auto simp: bit_simps)

lemma bits_zero: "bits 0 = []"
  by (simp add: bits_def)

text \<open>The slots of a node around the one for a bit.\<close>

lemma slots_at:
  assumes "list_all2 P (bits w) sots" and "bit w b" and "b < 32"
  obtains A S s B T where "sots = S @ s # T" "ch_inx w b = length S" "bits w = A @ b # B" "list_all2 P A S" "P b s" "list_all2 P B T"
    "bits (w AND NOT (push_bit b 1)) = A @ B" "length A = length S" "ch_popcount w = Suc (length S + length T)"
proof -
  obtain A B where s: "length A = ch_inx w b" "bits (w AND NOT (push_bit b 1)) = A @ B" "bits w = A @ b # B"
    using bits_split [OF assms(3), of w] assms(2) by metis
  obtain S s T where p: "sots = S @ s # T" "list_all2 P A S" "P b s" "list_all2 P B T"
    using assms(1) unfolding s(3) list_all2_append1 list_all2_Cons1 by blast
  show ?thesis
    using that [OF p(1) _ s(3) p(2-4) s(2)] s(1,3) p(2,4) length_bits [of w] by (simp add: list_all2_lengthD)
qed

lemma slots_beside:
  assumes "list_all2 P (bits w) sots" and "\<not> bit w b" and "b < 32"
  obtains A S B T where "sots = S @ T" "ch_inx w b = length S" "list_all2 P A S" "list_all2 P B T"
    "bits (w OR push_bit b 1) = A @ b # B" "bits w = A @ B" "ch_popcount w = length S + length T"
proof -
  obtain A B where s: "length A = ch_inx w b" "bits (w OR push_bit b 1) = A @ b # B" "bits w = A @ B"
    using bits_split [OF assms(3), of w] assms(2) by metis
  obtain S T where p: "sots = S @ T" "list_all2 P A S" "list_all2 P B T"
    using assms(1) unfolding s(3) list_all2_append1 by blast
  show ?thesis
    using that [OF p(1) _ p(2,3) s(2,3)] s(1,3) p(2,3) length_bits [of w] by (simp add: list_all2_lengthD)
qed

section \<open>Parts of a mug\<close>

lemma cut_bit: "CUT_END m (lef + 5) div 2 ^ lef = m div 2 ^ lef mod 32"
  by (simp add: CUT_END_def power_add mod_mult2_eq)

lemma cut_cut: "CUT_END (CUT_END m (lef + 5)) lef = CUT_END m lef"
  by (simp add: CUT_END_def mod_mod_cancel power_add)

lemma bit_of_mug: "m div 2 ^ lef = 32 * (m div 2 ^ (lef + 5)) + CUT_END m (lef + 5) div 2 ^ lef"
proof -
  have "m div 2 ^ lef div 32 = m div 2 ^ (lef + 5)"
    by (simp add: power_add div_mult2_eq)
  then show ?thesis
    unfolding cut_bit by (metis mult_div_mod_eq)
qed

lemma mug_prefix: "(m :: nat) div 2 ^ lef = 32 * p + b \<Longrightarrow> b < 32 \<Longrightarrow> m div 2 ^ (lef + 5) = p"
  by (simp add: power_add div_mult2_eq)

lemma cut_lt: "CUT_END m (lef + 5) div 2 ^ lef < 32"
  by (simp add: cut_bit)

section \<open>The invariant\<close>

inductive trie_ok :: "murmur \<Rightarrow> nat \<Rightarrow> nat \<Rightarrow> u3h_slot \<Rightarrow> bool" for murmur where
  noun: "u3r_mug murmur (fst (snd kev)) div 2 ^ lef = p \<Longrightarrow> trie_ok murmur lef p (Noun kev)"
| node: "list_all2 (\<lambda>b. trie_ok murmur lef (32 * p + b)) (bits map_w) sots \<Longrightarrow> trie_ok murmur (lef + 5) p (Node map_w sots)"
| buck: "2 \<le> length hab \<Longrightarrow> distinct (map (fst \<circ> snd) hab) \<Longrightarrow> (\<And>kev. kev \<in> set hab \<Longrightarrow> u3r_mug murmur (fst (snd kev)) = p) \<Longrightarrow>
    trie_ok murmur 0 p (Buck hab)"

inductive_simps trie_ok_Noun [simp]: "trie_ok murmur lef p (Noun kev)"
inductive_simps trie_ok_Null [simp]: "trie_ok murmur lef p Null"
inductive_simps trie_ok_Node_iff: "trie_ok murmur lef p (Node map_w sots)"
inductive_simps trie_ok_Buck_iff: "trie_ok murmur lef p (Buck hab)"

lemma trie_ok_Node: "trie_ok murmur (lef + 5) p (Node map_w sots) \<longleftrightarrow> list_all2 (\<lambda>b. trie_ok murmur lef (32 * p + b)) (bits map_w) sots"
  by (auto simp: trie_ok_Node_iff)

lemma trie_ok_Buck: "trie_ok murmur lef p (Buck hab) \<longleftrightarrow>
    lef = 0 \<and> 2 \<le> length hab \<and> distinct (map (fst \<circ> snd) hab) \<and> (\<forall>kev \<in> set hab. u3r_mug murmur (fst (snd kev)) = p)"
  unfolding trie_ok_Buck_iff by (auto 4 4)

lemma trie_ok_Buck_keys:
  assumes "map (fst \<circ> snd) hab' = map (fst \<circ> snd) hab"
  shows "trie_ok murmur lef p (Buck hab') = trie_ok murmur lef p (Buck hab)"
proof -
  have "(\<forall>kev \<in> set h. u3r_mug murmur (fst (snd kev)) = p) \<longleftrightarrow> (\<forall>k \<in> set (map (fst \<circ> snd) h). u3r_mug murmur k = p)" for h :: "entry list"
    by (simp only: set_map ball_simps comp_apply)
  then show ?thesis
    using map_eq_imp_length_eq [OF assms] by (simp only: trie_ok_Buck assms)
qed

fun kevs :: "u3h_slot \<Rightarrow> (noun \<times> noun) list" where
  "kevs Null = []"
| "kevs (Noun kev) = [snd kev]"
| "kevs (Node map_w sots) = concat (map kevs sots)"
| "kevs (Buck hab) = map snd hab"

abbreviation slot_keys :: "u3h_slot \<Rightarrow> noun set" where
  "slot_keys s \<equiv> fst ` set (kevs s)"

lemma kids_keys:
  assumes "list_all2 (\<lambda>b s. \<forall>k \<in> slot_keys s. u3r_mug murmur k div 2 ^ lef = 32 * p + b) bs sots" and "s \<in> set sots" and "k \<in> slot_keys s"
  shows "\<exists>b \<in> set bs. u3r_mug murmur k div 2 ^ lef = 32 * p + b"
  using assms by (induction rule: list_all2_induct) auto

lemma slot_keys_mug: "trie_ok murmur lef p s \<Longrightarrow> k \<in> slot_keys s \<Longrightarrow> u3r_mug murmur k div 2 ^ lef = p"
proof (induction arbitrary: k rule: trie_ok.induct)
  case (node lef p map_w sots)
  have "list_all2 (\<lambda>b s. \<forall>k \<in> slot_keys s. u3r_mug murmur k div 2 ^ lef = 32 * p + b) (bits map_w) sots"
    using node.IH by (rule list_all2_mono) blast
  moreover obtain s where "s \<in> set sots" "k \<in> slot_keys s"
    using node.prems by auto
  ultimately obtain b where "b \<in> set (bits map_w)" "u3r_mug murmur k div 2 ^ lef = 32 * p + b"
    using kids_keys by blast
  then show ?case
    using mug_prefix by (auto simp: set_bits)
qed auto

lemma kids_mug:
  assumes "list_all2 (\<lambda>b. trie_ok murmur lef (32 * p + b)) bs sots" and "s \<in> set sots" and "k \<in> slot_keys s"
  shows "\<exists>b \<in> set bs. u3r_mug murmur k div 2 ^ lef = 32 * p + b"
proof (rule kids_keys [OF _ assms(2,3)])
  show "list_all2 (\<lambda>b s. \<forall>k \<in> slot_keys s. u3r_mug murmur k div 2 ^ lef = 32 * p + b) bs sots"
    using assms(1) by (rule list_all2_mono) (use slot_keys_mug in blast)
qed

lemma kids_not:
  assumes "list_all2 (\<lambda>b. trie_ok murmur lef (32 * p + b)) bs sots" and "u3r_mug murmur k div 2 ^ lef = 32 * p + b" and "b \<notin> set bs"
  shows "k \<notin> fst ` set (concat (map kevs sots))"
  using kids_mug [OF assms(1)] assms(2,3) by fastforce

lemma distinct_keys: "trie_ok murmur lef p s \<Longrightarrow> distinct (map fst (kevs s))"
proof (induction rule: trie_ok.induct)
  case (node lef p map_w sots)
  have "distinct (map fst (concat (map kevs sots)))"
    if "list_all2 (\<lambda>b s. trie_ok murmur lef (32 * p + b) s \<and> distinct (map fst (kevs s))) bs sots" and "distinct bs" for bs
    using that
  proof (induction rule: list_all2_induct)
    case (Cons b bs s sots)
    have ok: "list_all2 (\<lambda>b. trie_ok murmur lef (32 * p + b)) bs sots"
      using Cons.hyps(2) by (rule list_all2_mono) blast
    have "k \<notin> fst ` set (concat (map kevs sots))" if "k \<in> slot_keys s" for k
      by (rule kids_not [OF ok slot_keys_mug]) (use Cons.hyps(1) Cons.prems that in auto)
    moreover have "distinct (map fst (kevs s))" "distinct (map fst (concat (map kevs sots)))"
      using Cons by auto
    ultimately show ?case
      by (simp only: list.map concat.simps map_append distinct_append set_map) blast
  qed simp
  then show ?case
    using node.IH distinct_bits by simp
qed (simp_all add: comp_def)

section \<open>Lookup\<close>

lemma ch_buck_git_map: "ch_buck_git hab key = map_of (map snd hab) key"
  by (induction hab key rule: ch_buck_git.induct) auto

lemma map_of_append_left: "key \<notin> fst ` set ys \<Longrightarrow> map_of (xs @ ys) key = map_of xs key"
  by (simp add: map_add_def map_of_eq_None_iff [THEN iffD2] split: option.splits)

lemma map_of_append_right: "key \<notin> fst ` set xs \<Longrightarrow> map_of (xs @ ys) key = map_of ys key"
  by (simp add: map_add_def map_of_eq_None_iff [THEN iffD2] split: option.splits)

text \<open>The slots of a node for the bit of a key: the key is in none of the others.\<close>

lemma slot_of_key:
  assumes "list_all2 (\<lambda>b. trie_ok murmur lef (32 * p + b)) (bits map_w) sots" and "u3r_mug murmur key div 2 ^ (lef + 5) = p"
    and b: "b = CUT_END (u3r_mug murmur key) (lef + 5) div 2 ^ lef" and "bit map_w b"
  obtains A S s B T where "sots = S @ s # T" "ch_inx map_w b = length S" "bits map_w = A @ b # B"
    "list_all2 (\<lambda>b. trie_ok murmur lef (32 * p + b)) A S" "trie_ok murmur lef (32 * p + b) s"
    "list_all2 (\<lambda>b. trie_ok murmur lef (32 * p + b)) B T"
    "bits (map_w AND NOT (push_bit b 1)) = A @ B" "length A = length S" "ch_popcount map_w = Suc (length S + length T)"
    "key \<notin> fst ` set (concat (map kevs S))" "key \<notin> fst ` set (concat (map kevs T))"
    "u3r_mug murmur key div 2 ^ lef = 32 * p + b"
proof -
  obtain A S s B T where s: "sots = S @ s # T" "ch_inx map_w b = length S" "bits map_w = A @ b # B"
    "list_all2 (\<lambda>b. trie_ok murmur lef (32 * p + b)) A S" "trie_ok murmur lef (32 * p + b) s"
    "list_all2 (\<lambda>b. trie_ok murmur lef (32 * p + b)) B T"
    "bits (map_w AND NOT (push_bit b 1)) = A @ B" "length A = length S" "ch_popcount map_w = Suc (length S + length T)"
    by (rule slots_at [OF assms(1,4)]) (auto simp: b cut_lt)
  have mug: "u3r_mug murmur key div 2 ^ lef = 32 * p + b"
    using bit_of_mug [of "u3r_mug murmur key" lef] assms(2) b by simp
  have "b \<notin> set A" "b \<notin> set B"
    using distinct_bits [of map_w] unfolding s(3) by auto
  then show ?thesis
    using that [OF s] kids_not [OF s(4) mug] kids_not [OF s(6) mug] mug by blast
qed

lemma beside_key:
  assumes "list_all2 (\<lambda>b. trie_ok murmur lef (32 * p + b)) (bits map_w) sots" and "u3r_mug murmur key div 2 ^ (lef + 5) = p"
    and b: "b = CUT_END (u3r_mug murmur key) (lef + 5) div 2 ^ lef" and "\<not> bit map_w b"
  shows "key \<notin> fst ` set (concat (map kevs sots))" and "u3r_mug murmur key div 2 ^ lef = 32 * p + b"
proof -
  show mug: "u3r_mug murmur key div 2 ^ lef = 32 * p + b"
    using bit_of_mug [of "u3r_mug murmur key" lef] assms(2) b by simp
  show "key \<notin> fst ` set (concat (map kevs sots))"
    by (rule kids_not [OF assms(1) mug]) (simp add: set_bits assms(4))
qed

lemma ch_node_git_ok:
  assumes "trie_ok murmur lef p s" and "s = Node map_w sots" and "u3r_mug murmur key div 2 ^ lef = p" and "rem = CUT_END (u3r_mug murmur key) lef"
  shows "ch_node_git map_w sots lef rem key = Some (map_of (kevs s) key)"
  using assms
proof (induction arbitrary: map_w sots rem rule: trie_ok.induct)
  case (node lef p map_w' sots' map_w sots)
  let ?b = "CUT_END (u3r_mug murmur key) (lef + 5) div 2 ^ lef"
  have all: "list_all2 (\<lambda>b. trie_ok murmur lef (32 * p + b)) (bits map_w) sots"
    using node.IH node.prems(1) by (auto elim: list_all2_mono)
  show ?case
  proof (cases "bit map_w ?b")
    case True
    obtain A S s B T where s: "sots = S @ s # T" "ch_inx map_w ?b = length S" "bits map_w = A @ ?b # B"
        "trie_ok murmur lef (32 * p + ?b) s" "key \<notin> fst ` set (concat (map kevs S))" "key \<notin> fst ` set (concat (map kevs T))"
        "u3r_mug murmur key div 2 ^ lef = 32 * p + ?b" "length A = length S"
      by (rule slot_of_key [OF all node.prems(2) refl True])
    have "map_of (kevs (Node map_w sots)) key = map_of (kevs s) key"
      unfolding s(1) kevs.simps map_append list.map concat_append concat.simps map_of_append_right [OF s(5)] map_of_append_left [OF s(6)] ..
    moreover have "ch_node_git map_w'' sots'' lef (CUT_END (u3r_mug murmur key) lef) key = Some (map_of (kevs s) key)"
      if "s = Node map_w'' sots''" for map_w'' sots''
    proof -
      have "list_all2 (\<lambda>b s. \<forall>map_w sots rem. s = Node map_w sots \<longrightarrow> u3r_mug murmur key div 2 ^ lef = 32 * p + b \<longrightarrow>
          rem = CUT_END (u3r_mug murmur key) lef \<longrightarrow> ch_node_git map_w sots lef rem key = Some (map_of (kevs s) key)) (bits map_w) sots"
        using node.IH node.prems(1) by (auto elim: list_all2_mono)
      then show ?thesis
        using s(7,8) that unfolding s(1,3) by (simp add: list_all2_append)
    qed
    ultimately show ?thesis
      using s(2,4) node.prems(1,3) True unfolding ch_node_git.simps [of map_w sots "lef + 5"]
      by (cases s) (auto simp: s(1) cut_cut Let_def ch_buck_git_map trie_ok_Buck trie_ok_Node_iff split: if_splits)
  next
    case False
    have "map_of (kevs (Node map_w sots)) key = None"
      unfolding kevs.simps map_of_eq_None_iff by (rule beside_key(1) [OF all node.prems(2) refl False])
    then show ?thesis
      using False node.prems(1,3) by (simp add: ch_node_git.simps [of _ _ "lef + 5"])
  qed
qed simp_all

section \<open>Insertion\<close>

text \<open>The entries after an update.\<close>

definition put_kev :: "noun \<Rightarrow> noun \<Rightarrow> (noun \<times> noun) set \<Rightarrow> (noun \<times> noun) set" where
  "put_kev key val es = insert (key, val) {e \<in> es. fst e \<noteq> key}"

lemma put_kev_other: "key \<notin> fst ` es \<Longrightarrow> put_kev key val (es \<union> fs) = es \<union> put_kev key val fs"
    "key \<notin> fst ` es \<Longrightarrow> put_kev key val (fs \<union> es) = put_kev key val fs \<union> es"
  by (auto simp: put_kev_def)

lemma put_kev_same: "fst e = key \<Longrightarrow> put_kev key val (insert e es) = put_kev key val es"
  by (auto simp: put_kev_def)

lemma put_kev_new: "key \<notin> fst ` es \<Longrightarrow> put_kev key val es = insert (key, val) es"
  by (auto simp: put_kev_def)

lemma ch_buck_seek_Some: "ch_buck_seek hab key i = Some j \<Longrightarrow> i \<le> j \<and> j < i + length hab \<and> fst (snd (hab ! (j - i))) = key"
  by (induction hab key i rule: ch_buck_seek.induct) (auto split: if_splits simp: nth_Cons')

lemma ch_buck_seek_None: "ch_buck_seek hab key i = None \<Longrightarrow> key \<notin> fst ` snd ` set hab"
  by (induction hab key i rule: ch_buck_seek.induct) (auto split: if_splits)

lemma update_same_key:
  assumes "j < length hab" and "fst (snd (hab ! j)) = key" and "distinct (map (fst \<circ> snd) hab)"
  shows "snd ` set (hab[j := (w, key, val)]) = put_kev key val (snd ` set hab)"
    and "map (fst \<circ> snd) (hab[j := (w, key, val)]) = map (fst \<circ> snd) hab"
proof -
  show "map (fst \<circ> snd) (hab[j := (w, key, val)]) = map (fst \<circ> snd) hab"
    using assms(1,2) by (auto simp: map_update list_update_same_conv)
  have hab: "hab = take j hab @ hab ! j # drop (Suc j) hab"
    using assms(1) by (rule id_take_nth_drop)
  have "distinct (map (fst \<circ> snd) (take j hab @ hab ! j # drop (Suc j) hab))"
    using assms(3) hab by simp
  then have "key \<notin> fst ` snd ` set (take j hab)" "key \<notin> fst ` snd ` set (drop (Suc j) hab)"
    using assms(2) by (auto simp: image_image)
  then have "put_kev key val (snd ` set (take j hab @ hab ! j # drop (Suc j) hab)) = snd ` set (take j hab @ (w, key, val) # drop (Suc j) hab)"
    using assms(2) by (simp add: image_Un put_kev_same put_kev_new)
  then show "snd ` set (hab[j := (w, key, val)]) = put_kev key val (snd ` set hab)"
    unfolding upd_conv_take_nth_drop [OF assms(1)] using hab by simp
qed

lemma ch_buck_add_ok:
  assumes "trie_ok murmur 0 p (Buck hab)" and "u3r_mug murmur key = p" and "ch_buck_add hab key val use = (hab', use')"
  shows "trie_ok murmur 0 p (Buck hab') \<and> set (kevs (Buck hab')) = put_kev key val (set (kevs (Buck hab))) \<and>
    use' = use + (if key \<in> slot_keys (Buck hab) then 0 else 1)"
proof (cases "ch_buck_seek hab key 0")
  case None
  then have add: "hab' = (True, key, val) # hab" "use' = use + 1" "key \<notin> fst ` snd ` set hab"
    using assms(3) ch_buck_seek_None [OF None] by (simp_all add: ch_buck_add_def)
  show ?thesis
    using assms(1,2) put_kev_new [OF add(3)] add unfolding trie_ok_Buck by (simp add: image_image)
next
  case (Some j)
  have j: "j < length hab" "fst (snd (hab ! j)) = key"
    using ch_buck_seek_Some [OF Some] by auto
  have d: "distinct (map (fst \<circ> snd) hab)" "2 \<le> length hab" "\<And>kev. kev \<in> set hab \<Longrightarrow> u3r_mug murmur (fst (snd kev)) = p"
    using assms(1) unfolding trie_ok_Buck by blast+
  have add: "hab' = hab[j := (True, key, val)]" "use' = use"
    using assms(3) Some by (auto simp: ch_buck_add_def)
  have "key \<in> slot_keys (Buck hab)"
    using j nth_mem [OF j(1)] by force
  moreover have "u3r_mug murmur (fst (snd kev)) = p" if "kev \<in> set hab'" for kev
  proof -
    have "kev = (True, key, val) \<or> kev \<in> set hab"
      using that set_update_subset_insert [of hab j "(True, key, val)"] unfolding add(1) by blast
    then show ?thesis
      using d(3) assms(2) by fastforce
  qed
  ultimately show ?thesis
    using update_same_key [OF j d(1)] d(1,2) by (simp add: trie_ok_Buck add)
qed

lemma ch_two_ok:
  assumes "5 dvd lef" and "u3r_mug murmur (fst (snd had)) div 2 ^ lef = p" and "u3r_mug murmur (fst (snd add)) div 2 ^ lef = p"
    and "fst (snd had) \<noteq> fst (snd add)" and "ham = CUT_END (u3r_mug murmur (fst (snd had))) lef" and "mad = CUT_END (u3r_mug murmur (fst (snd add))) lef"
  shows "trie_ok murmur lef p (ch_two had add lef ham mad) \<and> set (kevs (ch_two had add lef ham mad)) = {snd had, snd add}"
  using assms
proof (induction lef arbitrary: p ham mad rule: less_induct)
  case (less lef)
  show ?case
  proof (cases "lef = 0")
    case True
    then show ?thesis
      using less.prems by (auto simp: ch_two.simps trie_ok_Buck)
  next
    case False
    obtain l where l: "lef = l + 5" "5 dvd l"
      using less.prems(1) False by (metis dvd_add_left_iff dvd_refl dvd_imp_le le_add_diff_inverse2 not_gr_zero)
    let ?h = "CUT_END (u3r_mug murmur (fst (snd had))) lef div 2 ^ l" and ?t = "CUT_END (u3r_mug murmur (fst (snd add))) lef div 2 ^ l"
    have b: "?h < 32" "?t < 32"
      by (simp_all add: l(1) cut_lt)
    have m: "u3r_mug murmur (fst (snd had)) div 2 ^ l = 32 * p + ?h" "u3r_mug murmur (fst (snd add)) div 2 ^ l = 32 * p + ?t"
      using less.prems(2,3) bit_of_mug [of _ l] unfolding l(1) by metis+
    consider "?h = ?t" | "?h < ?t" | "?t < ?h"
      by linarith
    then show ?thesis
    proof cases
      case 1
      have "trie_ok murmur l (32 * p + ?t) (ch_two had add l (CUT_END ham l) (CUT_END mad l)) \<and>
          set (kevs (ch_two had add l (CUT_END ham l) (CUT_END mad l))) = {snd had, snd add}"
        by (rule less.IH) (use l 1 m less.prems(4-6) cut_cut in auto)
      then show ?thesis
        using 1 b less.prems(5,6) unfolding l(1) by (subst (1 2) ch_two.simps) (simp add: Let_def trie_ok_Node bits_one del: push_bit_of_1)
    next
      case 2
      then show ?thesis
        using b m less.prems(5,6) unfolding l(1) by (subst (1 2) ch_two.simps) (simp add: Let_def trie_ok_Node bits_two del: push_bit_of_1)
    next
      case 3
      then show ?thesis
        using b m less.prems(5,6) or.commute [of "push_bit ?h (1::u32)" "push_bit ?t 1"] unfolding l(1)
        by (subst (1 2) ch_two.simps) (auto simp add: Let_def trie_ok_Node bits_two simp del: push_bit_of_1)
    qed
  qed
qed

lemma ch_slot_put_ok:
  assumes "trie_ok murmur lef p s" and "5 dvd lef" and "u3r_mug murmur key div 2 ^ lef = p" and "rem = CUT_END (u3r_mug murmur key) lef"
  shows "\<exists>s'. ch_slot_put murmur s key val lef rem use = Some (s', use + (if key \<in> slot_keys s then 0 else 1)) \<and>
    trie_ok murmur lef p s' \<and> set (kevs s') = put_kev key val (set (kevs s))"
  using assms
proof (induction arbitrary: rem rule: trie_ok.induct)
  case (noun kev lef p)
  obtain w k v where kev: "kev = (w, k, v)"
    by (cases kev)
  show ?case
  proof (cases "key = k")
    case True
    then show ?thesis
      using noun by (auto simp: kev ch_slot_put.simps put_kev_def)
  next
    case False
    then show ?thesis
      using noun ch_two_ok [of lef murmur "(w, k, v)" p "(True, key, val)"]
      by (auto simp add: kev ch_slot_put.simps put_kev_def)
  qed
next
  case (node lef p map_w sots)
  let ?P = "\<lambda>b. trie_ok murmur lef (32 * p + b)" and ?b = "CUT_END (u3r_mug murmur key) (lef + 5) div 2 ^ lef"
  have all: "list_all2 ?P (bits map_w) sots"
    using node.IH by (auto elim: list_all2_mono)
  have put: "ch_slot_put murmur (Node map_w sots) key val (lef + 5) rem use = ch_node_add murmur map_w sots (lef + 5) rem key val use"
    by (simp add: ch_slot_put.simps ch_some_add.simps)
  show ?case
  proof (cases "bit map_w ?b")
    case True
    obtain A S s B T where s: "sots = S @ s # T" "ch_inx map_w ?b = length S" "bits map_w = A @ ?b # B" "list_all2 ?P A S"
        "list_all2 ?P B T" "length A = length S"
        "key \<notin> fst ` set (concat (map kevs S))" "key \<notin> fst ` set (concat (map kevs T))" "u3r_mug murmur key div 2 ^ lef = 32 * p + ?b"
      by (rule slot_of_key [OF all node.prems(2) refl True])
    have "list_all2 (\<lambda>b s. 5 dvd lef \<longrightarrow> u3r_mug murmur key div 2 ^ lef = 32 * p + b \<longrightarrow>
        (\<exists>s'. ch_slot_put murmur s key val lef (CUT_END (u3r_mug murmur key) lef) use = Some (s', use + (if key \<in> slot_keys s then 0 else 1)) \<and>
          ?P b s' \<and> set (kevs s') = put_kev key val (set (kevs s)))) (bits map_w) sots"
      using node.IH by (rule list_all2_mono) blast
    then obtain s' where s': "ch_slot_put murmur s key val lef (CUT_END (u3r_mug murmur key) lef) use = Some (s', use + (if key \<in> slot_keys s then 0 else 1))"
        "?P ?b s'" "set (kevs s') = put_kev key val (set (kevs s))"
      using s(6,9) node.prems(1) unfolding s(1,3) by (auto simp: list_all2_append)
    have "list_all2 ?P (bits map_w) (S @ s' # T)"
      using s(4-6) s'(2) unfolding s(3) by (simp add: list_all2_append)
    moreover have "set (kevs (Node map_w (S @ s' # T))) = put_kev key val (set (kevs (Node map_w sots)))"
      using s(7,8) s'(3) by (simp add: s(1) put_kev_other)
    moreover have "key \<in> slot_keys (Node map_w sots) \<longleftrightarrow> key \<in> slot_keys s"
      using s(7,8) by (auto simp: s(1))
    ultimately show ?thesis
      using True s(2) s'(1) node.prems(3) unfolding put trie_ok_Node
      by (simp add: ch_node_add.simps Let_def cut_cut s(1) trie_ok_Node del: kevs.simps)
  next
    case False
    obtain A S B T where s: "sots = S @ T" "ch_inx map_w ?b = length S" "list_all2 ?P A S" "list_all2 ?P B T"
        "bits (map_w OR push_bit ?b 1) = A @ ?b # B" "ch_popcount map_w = length S + length T"
      by (rule slots_beside [OF all False cut_lt])
    note k = beside_key [OF all node.prems(2) refl False]
    have "list_all2 ?P (bits (map_w OR push_bit ?b 1)) (S @ Noun (True, key, val) # T)"
      unfolding s(5) using s(3,4) k(2) by (intro list_all2_appendI) simp_all
    moreover have "set (kevs (Node (map_w OR push_bit ?b 1) (S @ Noun (True, key, val) # T))) = put_kev key val (set (kevs (Node map_w sots)))"
      using k(1) by (simp add: put_kev_new s(1))
    ultimately show ?thesis
      using False s(2,6) node.prems(3) k(1) unfolding put trie_ok_Node
      by (simp add: ch_node_add.simps Let_def s(1) trie_ok_Node del: push_bit_of_1)
  qed
next
  case (buck hab p)
  obtain hab' use' where add: "ch_buck_add hab key val use = (hab', use')"
    by (cases "ch_buck_add hab key val use")
  have "trie_ok murmur 0 p (Buck hab)"
    using buck.hyps by (rule trie_ok.buck)
  from ch_buck_add_ok [OF this _ add] show ?case
    using buck.prems(2) add by (simp add: ch_slot_put.simps ch_some_add.simps)
qed

section \<open>Trimming\<close>

definition warm_in :: "entry list \<Rightarrow> nat" where
  "warm_in hab = length (filter fst hab)"

fun warm :: "u3h_slot \<Rightarrow> nat" where
  "warm Null = 0"
| "warm (Noun kev) = (if fst kev then 1 else 0)"
| "warm (Node map_w sots) = sum_list (map warm sots)"
| "warm (Buck hab) = warm_in hab"

text \<open>
  What trimming does to a slot whose mugs start with \<open>p\<close>, with the clock arm at \<open>(m, i)\<close>: an entry is dropped, or no entry is,
  and then either one has cooled or the slot is unchanged and the arm has moved over a range of mugs without entries or
  to the beginning of a bucket.
\<close>

definition moves :: "nat \<Rightarrow> nat set \<Rightarrow> nat \<times> nat \<Rightarrow> nat \<times> nat \<Rightarrow> bool" where
  "moves stop mugs arm arm' \<longleftrightarrow>
     snd arm \<noteq> 0 \<and> snd arm' = 0 \<or>
     snd arm' = snd arm \<and> (\<exists>m. fst arm < m \<and> m \<le> stop \<and> fst arm' = m mod 2 ^ 31 \<and> (\<forall>x \<in> mugs. \<not> (fst arm \<le> x \<and> x < m)))"

definition slot_mugs :: "murmur \<Rightarrow> u3h_slot \<Rightarrow> nat set" where
  "slot_mugs murmur s = u3r_mug murmur ` slot_keys s"

definition trims :: "murmur \<Rightarrow> nat \<Rightarrow> nat \<times> nat \<Rightarrow> u3h_slot \<Rightarrow> bool \<times> u3h_slot \<times> nat \<times> nat \<Rightarrow> bool" where
  "trims murmur stop arm s = (\<lambda>(ohn, s', arm').
     subseq (kevs s') (kevs s) \<and> length (kevs s) = length (kevs s') + (if ohn then 1 else 0) \<and> fst arm' < 2 ^ 31 \<and>
     (\<not> ohn \<longrightarrow> warm s' < warm s \<or> s' = s \<and> moves stop (slot_mugs murmur s) arm arm'))"

lemma skip_slot_mod: "lef \<le> 31 \<Longrightarrow> ch_skip_slot m lef = (m div 2 ^ lef + 1) * 2 ^ lef mod 2 ^ 31"
  unfolding ch_skip_slot_def CUT_END_def mult_mod_right
  by (metis le_add_diff_inverse2 mult.commute mult_mod_right power_add)

lemma skip_slot_lt: "lef \<le> 31 \<Longrightarrow> ch_skip_slot m lef < 2 ^ 31"
  by (simp add: skip_slot_mod)

lemma skip_moves:
  assumes "lef \<le> 31" and "m div 2 ^ lef = p" and "\<And>x. x \<in> mugs \<Longrightarrow> x div 2 ^ lef \<noteq> p"
  shows "moves ((p + 1) * 2 ^ lef) mugs (m, i) (ch_skip_slot m lef, i)"
proof -
  have "m < (p + 1) * 2 ^ lef"
    using assms(2) dividend_less_times_div [of "2 ^ lef" m] by (simp add: mult.commute)
  moreover have "x div 2 ^ lef = p" if "m \<le> x" "x < (p + 1) * 2 ^ lef" for x
    using that assms(2) by (metis Suc_eq_plus1 div_le_mono le_antisym less_Suc_eq_le less_mult_imp_div_less)
  ultimately show ?thesis
    using assms(3) unfolding moves_def fst_conv snd_conv skip_slot_mod [OF assms(1)] assms(2) by blast
qed

lemma trim_buck_loop_ok:
  "case trim_buck_loop hab i of
     Inl (hab', j) \<Rightarrow> map snd hab' = map snd hab \<and> j < length hab
   | Inr hab' \<Rightarrow> map snd hab' = map snd hab \<and> (if i < length hab then warm_in hab' < warm_in hab else hab' = hab)"
proof (induction hab i rule: trim_buck_loop.induct)
  case (1 hab i)
  show ?case
  proof (cases "i < length hab")
    case True
    obtain w k v where kev: "hab ! i = (w, k, v)"
      by (cases "hab ! i")
    have same: "map snd (hab[i := (False, k, v)]) = map snd hab"
      using True kev by (simp add: map_update list_update_same_conv)
    have "warm_in (hab[i := (False, k, v)]) < warm_in hab" if w
    proof -
      have "hab = take i hab @ (True, k, v) # drop (Suc i) hab"
        using id_take_nth_drop [OF True] kev that by simp
      then have "warm_in hab = warm_in (take i hab @ (True, k, v) # drop (Suc i) hab)"
        by simp
      then show ?thesis
        using True by (simp add: upd_conv_take_nth_drop warm_in_def)
    qed
    then show ?thesis
      using 1 [OF True, of "(False, k, v)"] True kev same
      by (subst trim_buck_loop.simps) (auto split: sum.splits if_splits)
  qed (simp add: trim_buck_loop.simps)
qed

lemma subseq_around: "subseq a b \<Longrightarrow> subseq (S @ a @ T) (S @ b @ T)"
  by (intro list_emb_append_mono subseq_order.refl)

lemma moves_wider:
  assumes "moves ((p + 1) * 2 ^ lef) mugs arm arm'" and "fst arm div 2 ^ lef = p" and "(p + 1) * 2 ^ lef \<le> stop"
    and "\<And>x. x \<in> mugs' \<Longrightarrow> x \<in> mugs \<or> x div 2 ^ lef \<noteq> p"
  shows "moves stop mugs' arm arm'"
proof -
  have "x div 2 ^ lef = p" if "fst arm \<le> x" "x < m" "m \<le> (p + 1) * 2 ^ lef" for x m
    using that assms(2) by (metis Suc_eq_plus1 div_le_mono le_antisym less_Suc_eq_le less_le_trans less_mult_imp_div_less)
  then show ?thesis
    using assms unfolding moves_def by (meson le_trans)
qed

lemma ch_trim_buck_ok:
  assumes "trie_ok murmur 0 p (Buck hab)" and "m = p" and "m < 2 ^ 31" and "ch_trim_buck (m, i) hab = (ohn, s, arm)"
  shows "trims murmur (p + 1) (m, i) (Buck hab) (ohn, s, arm) \<and> trie_ok murmur 0 p s"
proof (cases "trim_buck_loop hab i")
  case (Inl r)
  obtain hab' j where r: "r = (hab', j)"
    by (cases r)
  have l: "map snd hab' = map snd hab" "j < length hab" "length hab' = length hab"
    using trim_buck_loop_ok [of hab i] Inl r by (auto dest: map_eq_imp_length_eq)
  have k: "map (fst \<circ> snd) hab' = map (fst \<circ> snd) hab"
    using l(1) by (metis map_map)
  have ok: "distinct (map (fst \<circ> snd) hab')" "2 \<le> length hab'" "\<And>kev. kev \<in> set hab' \<Longrightarrow> u3r_mug murmur (fst (snd kev)) = p"
    using assms(1) trie_ok_Buck_keys [OF k] unfolding trie_ok_Buck by blast+
  have hab': "hab' = take j hab' @ hab' ! j # drop (Suc j) hab'"
    by (rule id_take_nth_drop) (simp add: l)
  show ?thesis
  proof (cases "length hab' = 2")
    case True
    then obtain a b where ab: "hab' = [a, b]"
      by (auto simp: numeral_2_eq_2 length_Suc_conv)
    then have "j = 0 \<or> j = 1"
      using l(2,3) by auto
    moreover have "u3r_mug murmur (fst (snd a)) = p" "u3r_mug murmur (fst (snd b)) = p"
      using ok(3) [of a] ok(3) [of b] ab by auto
    ultimately show ?thesis
      using assms(3,4) Inl r ab l(1) by (auto simp: ch_trim_buck_def trims_def moves_def)
  next
    case False
    have "distinct (map (fst \<circ> snd) (take j hab' @ hab' ! j # drop (Suc j) hab'))"
      using ok(1) hab' by simp
    then have "trie_ok murmur 0 p (Buck (take j hab' @ drop (Suc j) hab'))"
      using ok(2,3) False l(2,3) by (auto simp: trie_ok_Buck dest: in_set_takeD in_set_dropD)
    moreover have "subseq (map snd (take j hab' @ drop (Suc j) hab')) (map snd (take j hab' @ hab' ! j # drop (Suc j) hab'))"
      using subseq_around [of "[]" "[snd (hab' ! j)]" "map snd (take j hab')" "map snd (drop (Suc j) hab')"] by simp
    moreover have "map snd (take j hab' @ hab' ! j # drop (Suc j) hab') = map snd hab"
      using l(1) hab' by simp
    moreover have "ohn \<and> s = Buck (take j hab' @ drop (Suc j) hab') \<and> fst arm = m"
      using assms(4) Inl r False by (auto simp: ch_trim_buck_def)
    ultimately show ?thesis
      using assms(3) l(2,3) by (simp add: trims_def)
  qed
next
  case (Inr hab')
  have l: "map snd hab' = map snd hab" "if i < length hab then warm_in hab' < warm_in hab else hab' = hab"
    using trim_buck_loop_ok [of hab i] Inr by auto
  have k: "map (fst \<circ> snd) hab' = map (fst \<circ> snd) hab"
    using l(1) by (metis map_map)
  have "trie_ok murmur 0 p (Buck hab')"
    using assms(1) trie_ok_Buck_keys [OF k] by simp
  then show ?thesis
    using assms(1,4) Inr l by (auto simp: ch_trim_buck_def trims_def moves_def trie_ok_Buck split: if_splits)
qed

lemma sum_list_warm: "sum_list (map warm (S @ s # T)) = sum_list (map warm S) + warm s + sum_list (map warm T)"
  by simp

lemma trims_child:
  assumes "trims murmur ((32 * p + b + 1) * 2 ^ lef) arm s (ohn, s', arm')" and "fst arm div 2 ^ lef = 32 * p + b" and "b < 32"
    and "\<And>x. x \<in> slot_mugs murmur (Node map_w (S @ s # T)) \<Longrightarrow> x \<in> slot_mugs murmur s \<or> x div 2 ^ lef \<noteq> 32 * p + b"
  shows "trims murmur ((p + 1) * 2 ^ (lef + 5)) arm (Node map_w (S @ s # T)) (ohn, Node map_w (S @ s' # T), arm')"
proof -
  have "(32 * p + b + 1) * 2 ^ lef \<le> (p + 1) * 32 * 2 ^ lef"
    using assms(3) by (intro mult_right_mono) auto
  then have "(32 * p + b + 1) * 2 ^ lef \<le> (p + 1) * 2 ^ (lef + 5)"
    by (simp add: power_add algebra_simps)
  from moves_wider [OF _ assms(2) this assms(4)]
  have "moves ((p + 1) * 2 ^ (lef + 5)) (slot_mugs murmur (Node map_w (S @ s # T))) arm arm'"
    if "moves ((32 * p + b + 1) * 2 ^ lef) (slot_mugs murmur s) arm arm'"
    using that by blast
  then show ?thesis
    using assms(1) unfolding trims_def prod.case kevs.simps warm.simps sum_list_warm by (auto simp: subseq_around)
qed

lemma kids_trim_mugs:
  assumes "list_all2 (\<lambda>b. trie_ok murmur lef (32 * p + b)) A S" and "list_all2 (\<lambda>b. trie_ok murmur lef (32 * p + b)) B T"
    and "b \<notin> set A" and "b \<notin> set B" and "x \<in> slot_mugs murmur (Node map_w (S @ s # T))"
  shows "x \<in> slot_mugs murmur s \<or> x div 2 ^ lef \<noteq> 32 * p + b"
proof (rule ccontr)
  assume no: "\<not> ?thesis"
  obtain k where k: "k \<in> slot_keys (Node map_w (S @ s # T))" "x = u3r_mug murmur k"
    using assms(5) unfolding slot_mugs_def by blast
  then have "k \<notin> slot_keys s" "u3r_mug murmur k div 2 ^ lef = 32 * p + b"
    using no unfolding slot_mugs_def by auto
  then show False
    using k(1) kids_not [OF assms(1) _ assms(3)] kids_not [OF assms(2) _ assms(4)]
    unfolding kevs.simps map_append list.map concat_append concat.simps set_append image_Un by blast
qed

text \<open>A child that was emptied leaves its node.\<close>

lemma ch_trim_shrink:
  assumes "list_all2 (\<lambda>b. trie_ok murmur lef (32 * p + b)) (A @ B) (S @ T)" and "length A = length S" and "set (A @ B) \<subseteq> {..<32}"
    and "bits (map_w AND NOT (push_bit b 1)) = A @ B" and "ch_popcount map_w = Suc (length S + length T)" and "sots = S @ s # T"
    and "trims murmur stop' arm s (True, Null, arm')"
    and r: "r = (if ch_popcount map_w = 2 \<and> is_noun (sots ! (if length S = 0 then 1 else 0)) then sots ! (if length S = 0 then 1 else 0)
      else Node (map_w AND NOT (push_bit b 1)) (take (length S) sots @ take (ch_popcount map_w - 1 - length S) (drop (length S + 1) sots)))"
  shows "trims murmur stop arm (Node map_w sots) (True, r, arm') \<and> trie_ok murmur (lef + 5) p r \<and> r \<noteq> Null"
proof -
  have s: "length (kevs s) = 1" "fst arm' < 2 ^ 31"
    using assms(7) by (simp_all add: trims_def)
  have one: "subseq (kevs (Node map_w (S @ T))) (kevs (Node map_w sots))"
    using subseq_around [of "[]" "kevs s"] by (simp add: assms(6))
  show ?thesis
  proof (cases "ch_popcount map_w = 2 \<and> is_noun (sots ! (if length S = 0 then 1 else 0))")
    case True
    then obtain kev where kev: "S @ T = [Noun kev]" "r = Noun kev"
      using assms(5) r by (cases S; cases T) (auto simp: assms(6) elim: is_noun.elims)
    then obtain b' where b': "A @ B = [b']" "trie_ok murmur lef (32 * p + b') (Noun kev)"
      using assms(1) by (auto simp: list_all2_Cons2)
    have "b' < 32"
      using assms(3) unfolding b'(1) by simp
    then have "trie_ok murmur (lef + 5) p r"
      using b'(2) kev(2) mug_prefix by auto
    then show ?thesis
      using one s kev by (cases S; cases T) (auto simp: trims_def assms(6))
  next
    case False
    then have "r = Node (map_w AND NOT (push_bit b 1)) (S @ T)"
      using r unfolding if_not_P [OF False] by (simp add: assms(5,6))
    then show ?thesis
      using one s assms(1,4) by (simp add: trims_def trie_ok_Node assms(6) del: push_bit_of_1)
  qed
qed

lemma ch_trim_slot_ok:
  assumes "trie_ok murmur lef p s" and "lef \<le> 31" and "m div 2 ^ lef = p" and "rem = CUT_END m lef" and "m < 2 ^ 31"
  shows "\<exists>ohn s' arm'. ch_trim_slot (m, i) s lef rem = Some (ohn, s', arm') \<and> trims murmur ((p + 1) * 2 ^ lef) (m, i) s (ohn, s', arm') \<and>
    (if s' = Null then ohn else trie_ok murmur lef p s')"
  using assms
proof (induction arbitrary: rem rule: trie_ok.induct)
  case (noun kev lef p)
  obtain w k v where kev: "kev = (w, k, v)"
    by (cases kev)
  show ?case
    using noun.hyps skip_slot_lt [OF noun.prems(1), of m] by (cases w) (auto simp add: kev ch_trim_slot.simps trims_def)
next
  case (node lef p map_w sots)
  let ?P = "\<lambda>b. trie_ok murmur lef (32 * p + b)" and ?b = "CUT_END m (lef + 5) div 2 ^ lef" and ?stop = "(p + 1) * 2 ^ (lef + 5)"
  have all: "list_all2 ?P (bits map_w) sots"
    using node.IH by (auto elim: list_all2_mono)
  have trim: "ch_trim_slot (m, i) (Node map_w sots) (lef + 5) rem = ch_trim_node (m, i) map_w sots (lef + 5) rem"
    by (simp add: ch_trim_slot.simps ch_trim_some.simps)
  have mb: "m div 2 ^ lef = 32 * p + ?b"
    using bit_of_mug [of m lef] node.prems(2) by simp
  show ?case
  proof (cases "bit map_w ?b")
    case True
    obtain A S s B T where s: "sots = S @ s # T" "ch_inx map_w ?b = length S" "bits map_w = A @ ?b # B" "list_all2 ?P A S" "?P ?b s"
        "list_all2 ?P B T" "bits (map_w AND NOT (push_bit ?b 1)) = A @ B" "length A = length S" "ch_popcount map_w = Suc (length S + length T)"
      by (rule slots_at [OF all True cut_lt])
    have "list_all2 (\<lambda>b s. lef \<le> 31 \<longrightarrow> m div 2 ^ lef = 32 * p + b \<longrightarrow> m < 2 ^ 31 \<longrightarrow>
        (\<exists>ohn s' arm'. ch_trim_slot (m, i) s lef (CUT_END m lef) = Some (ohn, s', arm') \<and>
          trims murmur ((32 * p + b + 1) * 2 ^ lef) (m, i) s (ohn, s', arm') \<and> (if s' = Null then ohn else ?P b s'))) (bits map_w) sots"
      using node.IH by (rule list_all2_mono) blast
    then obtain ohn s' arm' where s': "ch_trim_slot (m, i) s lef (CUT_END m lef) = Some (ohn, s', arm')"
        "trims murmur ((32 * p + ?b + 1) * 2 ^ lef) (m, i) s (ohn, s', arm')" "if s' = Null then ohn else ?P ?b s'"
      using s(8) mb node.prems(1,4) unfolding s(1,3) by (auto simp: list_all2_append)
    have b: "?b \<notin> set A" "?b \<notin> set B" "set (A @ B) \<subseteq> {..<32}"
      using distinct_bits [of map_w] set_bits [of map_w] unfolding s(3) by auto
    show ?thesis
    proof (cases "s' = Null")
      case True
      define r where "r = (if ch_popcount map_w = 2 \<and> is_noun (sots ! (if length S = 0 then 1 else 0)) then sots ! (if length S = 0 then 1 else 0)
        else Node (map_w AND NOT (push_bit ?b 1)) (take (length S) sots @ take (ch_popcount map_w - 1 - length S) (drop (length S + 1) sots)))"
      have ohn: "ohn"
        using s'(3) True by simp
      have "ch_trim_node (m, i) map_w sots (lef + 5) rem = Some (True, r, arm')"
        using \<open>bit map_w ?b\<close> True ohn s(1,2) s'(1) node.prems(3)
        by (simp add: ch_trim_node.simps Let_def cut_cut r_def del: push_bit_of_1)
      moreover have "trims murmur ((32 * p + ?b + 1) * 2 ^ lef) (m, i) s (True, Null, arm')"
        using s'(2) True ohn by simp
      from ch_trim_shrink [OF list_all2_appendI [OF s(4,6)] s(8) b(3) s(7,9,1) this r_def, of ?stop]
      have "trims murmur ?stop (m, i) (Node map_w sots) (True, r, arm')" "trie_ok murmur (lef + 5) p r" "r \<noteq> Null"
        by blast+
      ultimately show ?thesis
        using trim by auto
    next
      case False
      have "ch_trim_node (m, i) map_w sots (lef + 5) rem = Some (ohn, Node map_w (S @ s' # T), arm')"
        using \<open>bit map_w ?b\<close> False s(1,2) s' node.prems(3) by (simp add: ch_trim_node.simps Let_def cut_cut)
      moreover have "trims murmur ?stop (m, i) (Node map_w sots) (ohn, Node map_w (S @ s' # T), arm')"
        unfolding s(1) by (rule trims_child [OF s'(2) _ cut_lt kids_trim_mugs [OF s(4,6) b(1,2)]]) (simp_all add: mb)
      moreover have "trie_ok murmur (lef + 5) p (Node map_w (S @ s' # T))"
        using s(4,6,8) s'(3) False unfolding trie_ok_Node s(3) by (simp add: list_all2_append)
      ultimately show ?thesis
        using trim by simp
    qed
  next
    case False
    have "x div 2 ^ lef \<noteq> 32 * p + ?b" if x: "x \<in> slot_mugs murmur (Node map_w sots)" for x
    proof -
      obtain k where k: "x = u3r_mug murmur k" "k \<in> fst ` set (concat (map kevs sots))"
        using x unfolding slot_mugs_def kevs.simps by (rule imageE)
      have "?b \<notin> set (bits map_w)"
        using False by (simp add: set_bits)
      with k kids_not [OF all, of k ?b] show ?thesis
        by metis
    qed
    then have step: "moves ((32 * p + ?b + 1) * 2 ^ lef) (slot_mugs murmur (Node map_w sots)) (m, i) (ch_skip_slot m lef, i)"
      by (intro skip_moves) (use node.prems(1) mb in auto)
    have "32 * p + ?b + 1 \<le> (p + 1) * 32"
      using cut_lt [of m lef] by simp
    then have "(32 * p + ?b + 1) * 2 ^ lef \<le> (p + 1) * 32 * 2 ^ lef"
      by (rule mult_right_mono) simp
    then have "moves ?stop (slot_mugs murmur (Node map_w sots)) (m, i) (ch_skip_slot m lef, i)"
      by (intro moves_wider [OF step]) (use mb in \<open>simp_all add: power_add algebra_simps\<close>)
    moreover have "ch_trim_node (m, i) map_w sots (lef + 5) rem = Some (False, Node map_w sots, ch_skip_slot m lef, i)"
      using False node.prems(3) by (simp add: ch_trim_node.simps Let_def)
    ultimately show ?thesis
      using trim all node.prems(1) skip_slot_lt [of lef m] by (auto simp: trims_def trie_ok_Node)
  qed
next
  case (buck hab p)
  obtain ohn s arm where r: "ch_trim_buck (m, i) hab = (ohn, s, arm)"
    by (cases "ch_trim_buck (m, i) hab")
  have "trie_ok murmur 0 p (Buck hab)"
    using buck.hyps by (rule trie_ok.buck)
  from ch_trim_buck_ok [OF this _ _ r] buck.prems show ?case
    using r by (auto simp: ch_trim_slot.simps ch_trim_some.simps)
qed

section \<open>Tables\<close>

definition table_kevs :: "u3h_root \<Rightarrow> (noun \<times> noun) list" where
  "table_kevs har = concat (map kevs (sot_w har))"

definition root_slot_ok :: "murmur \<Rightarrow> nat \<Rightarrow> u3h_slot \<Rightarrow> bool" where
  "root_slot_ok murmur i s \<longleftrightarrow> s = Null \<or> trie_ok murmur 25 i s"

definition hash_ok :: "murmur \<Rightarrow> u3h_root \<Rightarrow> bool" where
  "hash_ok murmur har \<longleftrightarrow>
     list_all2 (root_slot_ok murmur) [0..<64] (sot_w har) \<and> use_w har = length (table_kevs har) \<and> mug_w har < 2 ^ 31"

abbreviation table_map :: "u3h_root \<Rightarrow> noun \<Rightarrow> noun option" where
  "table_map har \<equiv> map_of (table_kevs har)"

lemma u3r_mug_31: "u3r_mug murmur k < 2 ^ 31"
  using noun_mug_ok [of murmur k] by (simp add: u3r_mug_def mug_ok_def)

lemma root_keys_mug: "root_slot_ok murmur i s \<Longrightarrow> k \<in> slot_keys s \<Longrightarrow> u3r_mug murmur k div 2 ^ 25 = i"
  unfolding root_slot_ok_def by (elim disjE) (simp, rule slot_keys_mug)

lemma roots_mug:
  assumes "list_all2 (root_slot_ok murmur) bs sots" and "k \<in> fst ` set (concat (map kevs sots))"
  shows "u3r_mug murmur k div 2 ^ 25 \<in> set bs"
  using assms by (induction rule: list_all2_induct) (auto dest: root_keys_mug)

lemma distinct_roots:
  assumes "list_all2 (root_slot_ok murmur) bs sots" and "distinct bs"
  shows "distinct (map fst (concat (map kevs sots)))"
  using assms
proof (induction rule: list_all2_induct)
  case (Cons b bs s sots)
  have "fst ` set (kevs s) \<inter> fst ` set (concat (map kevs sots)) = {}"
    using roots_mug [OF Cons.hyps(2)] root_keys_mug [OF Cons.hyps(1)] Cons.prems by (metis disjoint_iff distinct.simps(2))
  moreover have "distinct (map fst (kevs s))"
    using Cons.hyps(1) distinct_keys unfolding root_slot_ok_def by auto
  ultimately show ?case
    using Cons by (simp only: list.map concat.simps map_append distinct_append set_map distinct.simps)
qed simp

lemma distinct_table: "hash_ok murmur har \<Longrightarrow> distinct (map fst (table_kevs har))"
  unfolding hash_ok_def table_kevs_def by (intro distinct_roots [of murmur "[0..<64]"]) simp_all

text \<open>The slots of the root around the one of a mug.\<close>

lemma root_at:
  assumes "list_all2 (root_slot_ok murmur) [0..<64] sots" and "(m :: nat) < 2 ^ 31"
  obtains S s T where "sots = S @ s # T" "length S = m div 2 ^ 25" "root_slot_ok murmur (m div 2 ^ 25) s"
    "\<And>k. k \<in> fst ` set (concat (map kevs S)) \<Longrightarrow> u3r_mug murmur k div 2 ^ 25 \<noteq> m div 2 ^ 25"
    "\<And>k. k \<in> fst ` set (concat (map kevs T)) \<Longrightarrow> u3r_mug murmur k div 2 ^ 25 \<noteq> m div 2 ^ 25"
    "\<And>s'. root_slot_ok murmur (m div 2 ^ 25) s' \<Longrightarrow> list_all2 (root_slot_ok murmur) [0..<64] (S @ s' # T)"
proof -
  let ?i = "m div 2 ^ 25"
  have "?i < 64"
    using assms(2) by (simp add: less_mult_imp_div_less)
  then have up: "[0..<64] = [0..<?i] @ ?i # [Suc ?i..<64]"
    using upt_add_eq_append [of 0 ?i "64 - ?i"] upt_conv_Cons [of ?i 64] by (simp del: upt_rec_numeral)
  obtain S s T where s: "sots = S @ s # T" "list_all2 (root_slot_ok murmur) [0..<?i] S" "root_slot_ok murmur ?i s"
      "list_all2 (root_slot_ok murmur) [Suc ?i..<64] T"
    using assms(1) unfolding up list_all2_append1 list_all2_Cons1 by blast
  show ?thesis
  proof (rule that [OF s(1) _ s(3)])
    show "length S = ?i"
      using list_all2_lengthD [OF s(2)] by simp
    show "u3r_mug murmur k div 2 ^ 25 \<noteq> ?i" if "k \<in> fst ` set (concat (map kevs S))" for k
      using roots_mug [OF s(2) that] by auto
    show "u3r_mug murmur k div 2 ^ 25 \<noteq> ?i" if "k \<in> fst ` set (concat (map kevs T))" for k
      using roots_mug [OF s(4) that] by auto
    show "list_all2 (root_slot_ok murmur) [0..<64] (S @ s' # T)" if "root_slot_ok murmur ?i s'" for s'
      unfolding up by (intro list_all2_appendI s(2) list_all2_Cons [THEN iffD2] conjI that s(4))
  qed
qed

lemma table_kevs_split: "sot_w har = S @ s # T \<Longrightarrow> table_kevs har = concat (map kevs S) @ kevs s @ concat (map kevs T)"
  by (simp add: table_kevs_def)

lemma u3h_git_ok:
  assumes "hash_ok murmur har"
  shows "\<exists>har'. u3h_git murmur har key = Some (table_map har key, har') \<and> hash_ok murmur har' \<and> table_kevs har' = table_kevs har \<and> max_w har' = max_w har"
proof -
  let ?m = "u3r_mug murmur key"
  obtain S s T where s: "sot_w har = S @ s # T" "length S = ?m div 2 ^ 25" "root_slot_ok murmur (?m div 2 ^ 25) s"
      "\<And>k. k \<in> fst ` set (concat (map kevs S)) \<Longrightarrow> u3r_mug murmur k div 2 ^ 25 \<noteq> ?m div 2 ^ 25"
      "\<And>k. k \<in> fst ` set (concat (map kevs T)) \<Longrightarrow> u3r_mug murmur k div 2 ^ 25 \<noteq> ?m div 2 ^ 25"
      "\<And>s'. root_slot_ok murmur (?m div 2 ^ 25) s' \<Longrightarrow> list_all2 (root_slot_ok murmur) [0..<64] (S @ s' # T)"
    using assms root_at [of murmur "sot_w har" ?m] u3r_mug_31 unfolding hash_ok_def by metis
  have off: "key \<notin> fst ` set (concat (map kevs S))" "key \<notin> fst ` set (concat (map kevs T))"
    using s(4,5) by blast+
  have map: "table_map har key = map_of (kevs s) key"
    unfolding table_kevs_split [OF s(1)] map_of_append_right [OF off(1)] map_of_append_left [OF off(2)] ..
  have git: "u3h_git murmur har key = (case s of
      Null \<Rightarrow> Some (None, har)
    | Noun (w, k, v) \<Rightarrow> Some (if key = k then (Some v, har\<lparr>sot_w := S @ Noun (True, k, v) # T\<rparr>) else (None, har))
    | Node map_w sots \<Rightarrow> map_option (\<lambda>pro. (pro, har)) (ch_node_git map_w sots 25 (CUT_END ?m 25) key)
    | Buck _ \<Rightarrow> None)"
    unfolding u3h_git_def Let_def s(1) s(2) [symmetric] by (cases s) (auto split: prod.splits)
  show ?thesis
  proof (cases s)
    case (Noun kev)
    obtain w k v where kev: "kev = (w, k, v)"
      by (cases kev)
    let ?h = "har\<lparr>sot_w := S @ Noun (True, k, v) # T\<rparr>"
    have "table_kevs ?h = table_kevs har"
      using table_kevs_split [OF s(1)] Noun kev by (simp add: table_kevs_def)
    moreover have "hash_ok murmur ?h"
      using assms s(3) s(6) [of "Noun (True, k, v)"] Noun kev calculation by (simp add: hash_ok_def root_slot_ok_def)
    ultimately show ?thesis
      using git map assms Noun kev by auto
  next
    case (Node map_w sots)
    then show ?thesis
      using git map assms s(3) ch_node_git_ok [of murmur 25 "?m div 2 ^ 25" s map_w sots key] by (simp add: root_slot_ok_def)
  qed (use git map assms s(3) in \<open>auto simp: root_slot_ok_def trie_ok_Buck\<close>)
qed

lemma length_put_kev:
  assumes "distinct (map fst xs)" and "distinct (map fst ys)" and "set ys = put_kev key val (set xs)"
  shows "length ys = length xs + (if key \<in> fst ` set xs then 0 else 1)"
proof -
  have "fst ` set ys = insert key (fst ` set xs)"
    unfolding assms(3) put_kev_def by auto
  then have "card (fst ` set ys) = card (fst ` set xs) + (if key \<in> fst ` set xs then 0 else 1)"
    by (simp add: card_insert_if)
  moreover have "card (fst ` set zs) = length zs" if "distinct (map fst zs)" for zs :: "(noun \<times> noun) list"
    using that distinct_card by fastforce
  ultimately show ?thesis
    using assms(1,2) by simp
qed

lemma map_of_put_kev:
  assumes "distinct (map fst xs)" and "distinct (map fst ys)" and "set ys = put_kev key val (set xs)"
  shows "map_of ys = (map_of xs)(key \<mapsto> val)"
proof -
  have iff: "map_of ys k = Some v \<longleftrightarrow> (k, v) \<in> put_kev key val (set xs)" "map_of xs k = Some v \<longleftrightarrow> (k, v) \<in> set xs" for k v
    using map_of_eq_Some_iff [OF assms(2)] map_of_eq_Some_iff [OF assms(1)] assms(3) by simp_all
  show ?thesis
  proof
    fix k
    have "map_of ys k = Some v \<longleftrightarrow> ((map_of xs)(key \<mapsto> val)) k = Some v" for v
      unfolding iff(1) by (auto simp: put_kev_def iff(2))
    then show "map_of ys k = ((map_of xs)(key \<mapsto> val)) k"
      by (cases "map_of ys k") (metis option.exhaust, metis)
  qed
qed

definition table_warm :: "u3h_root \<Rightarrow> nat" where
  "table_warm har = sum_list (map warm (sot_w har))"

abbreviation table_mugs :: "murmur \<Rightarrow> u3h_root \<Rightarrow> nat set" where
  "table_mugs murmur har \<equiv> u3r_mug murmur ` fst ` set (table_kevs har)"

lemma ch_trim_root_ok:
  assumes "hash_ok murmur har"
  shows "\<exists>ohn har'. ch_trim_root har = Some (ohn, har') \<and> hash_ok murmur (if ohn then har'\<lparr>use_w := use_w har' - 1\<rparr> else har') \<and>
    max_w har' = max_w har \<and> use_w har' = use_w har \<and> subseq (table_kevs har') (table_kevs har) \<and>
    (\<not> ohn \<longrightarrow> table_warm har' < table_warm har \<or>
      sot_w har' = sot_w har \<and> moves (2 ^ 31) (table_mugs murmur har) (mug_w har, inx_w har) (mug_w har', inx_w har'))"
proof -
  let ?m = "mug_w har" and ?p = "mug_w har div 2 ^ 25"
  have lt: "?m < 2 ^ 31" and use: "use_w har = length (table_kevs har)"
    using assms by (simp_all add: hash_ok_def)
  obtain S s T where s: "sot_w har = S @ s # T" "length S = ?p" "root_slot_ok murmur ?p s"
      "\<And>k. k \<in> fst ` set (concat (map kevs S)) \<Longrightarrow> u3r_mug murmur k div 2 ^ 25 \<noteq> ?p"
      "\<And>k. k \<in> fst ` set (concat (map kevs T)) \<Longrightarrow> u3r_mug murmur k div 2 ^ 25 \<noteq> ?p"
      "\<And>s'. root_slot_ok murmur ?p s' \<Longrightarrow> list_all2 (root_slot_ok murmur) [0..<64] (S @ s' # T)"
    using assms root_at [of murmur "sot_w har" ?m] lt unfolding hash_ok_def by metis
  have "?p < 64"
    using lt by (simp add: less_mult_imp_div_less)
  then have stop: "(?p + 1) * 2 ^ 25 \<le> 2 ^ 31"
    by simp
  have other: "x \<in> slot_mugs murmur s \<or> x div 2 ^ 25 \<noteq> ?p" if "x \<in> table_mugs murmur har" for x
    using that s(4,5) unfolding slot_mugs_def table_kevs_split [OF s(1)] set_append image_Un by blast
  show ?thesis
  proof (cases "s = Null")
    case True
    have "moves ((?p + 1) * 2 ^ 25) (slot_mugs murmur s) (?m, inx_w har) (ch_skip_slot ?m 25, inx_w har)"
      by (rule skip_moves) (simp_all add: True slot_mugs_def)
    then have "moves (2 ^ 31) (table_mugs murmur har) (?m, inx_w har) (ch_skip_slot ?m 25, inx_w har)"
      by (rule moves_wider) (use stop other in auto)
    moreover have "ch_trim_root har = Some (False, har\<lparr>mug_w := ch_skip_slot ?m 25\<rparr>)"
      unfolding ch_trim_root_def Let_def s(1) s(2) [symmetric] using True by simp
    moreover have "hash_ok murmur (har\<lparr>mug_w := ch_skip_slot ?m 25\<rparr>)"
      using assms skip_slot_lt [of 25] by (simp add: hash_ok_def table_kevs_def)
    ultimately show ?thesis
      by (auto simp: table_kevs_def)
  next
    case False
    then obtain ohn s' m' i' where r: "ch_trim_slot (?m, inx_w har) s 25 (CUT_END ?m 25) = Some (ohn, s', m', i')"
        "trims murmur ((?p + 1) * 2 ^ 25) (?m, inx_w har) s (ohn, s', m', i')" "if s' = Null then ohn else trie_ok murmur 25 ?p s'"
      using ch_trim_slot_ok [of murmur 25 ?p s ?m _ "inx_w har"] s(3) lt unfolding root_slot_ok_def by fastforce
    let ?h = "har\<lparr>sot_w := S @ s' # T, mug_w := m', inx_w := i'\<rparr>"
    have "ch_trim_root har = Some (ohn, ?h)"
      unfolding ch_trim_root_def Let_def s(1) s(2) [symmetric] using False r(1) by simp
    moreover have "list_all2 (root_slot_ok murmur) [0..<64] (S @ s' # T)"
      using s(6) [of s'] r(3) by (auto simp: root_slot_ok_def split: if_splits)
    moreover have "subseq (table_kevs ?h) (table_kevs har)"
      using r(2) unfolding trims_def table_kevs_def s(1) by (auto simp: subseq_around)
    moreover have "length (table_kevs har) = length (table_kevs ?h) + (if ohn then 1 else 0)" "m' < 2 ^ 31"
      using r(2) by (auto simp: trims_def table_kevs_def s(1))
    moreover have "table_warm ?h < table_warm har \<or> sot_w ?h = sot_w har \<and> moves (2 ^ 31) (table_mugs murmur har) (?m, inx_w har) (m', i')" if "\<not> ohn"
    proof -
      have "warm s' < warm s \<or> s' = s \<and> moves ((?p + 1) * 2 ^ 25) (slot_mugs murmur s) (?m, inx_w har) (m', i')"
        using r(2) that by (simp add: trims_def)
      then show ?thesis
      proof
        assume "s' = s \<and> moves ((?p + 1) * 2 ^ 25) (slot_mugs murmur s) (?m, inx_w har) (m', i')"
        then show ?thesis
          using moves_wider [OF _ _ stop other] s(1) by simp
      qed (simp add: table_warm_def s(1))
    qed
    ultimately show ?thesis
      using use by (auto simp: hash_ok_def table_kevs_def)
  qed
qed

text \<open>How far the arm is from the next entry.\<close>

definition phase :: "nat set \<Rightarrow> nat \<times> nat \<Rightarrow> nat" where
  "phase mugs arm = (if snd arm = 0 then 0 else 2 ^ 33) + (if \<exists>x \<in> mugs. fst arm \<le> x then 2 ^ 31 - fst arm else 2 ^ 32 - fst arm)"

lemma moves_phase:
  assumes "moves (2 ^ 31) mugs (m, i) (m', i')" and "mugs \<noteq> {}" and "\<And>x. x \<in> mugs \<Longrightarrow> x < 2 ^ 31" and "m < 2 ^ 31"
  shows "phase mugs (m', i') < phase mugs (m, i)"
proof -
  consider "i \<noteq> 0" "i' = 0" | n where "i' = i" "m < n" "n \<le> 2 ^ 31" "m' = n mod 2 ^ 31" "\<And>x. x \<in> mugs \<Longrightarrow> \<not> (m \<le> x \<and> x < n)"
    using assms(1) unfolding moves_def by auto
  then show ?thesis
  proof cases
    case 1
    then show ?thesis
      by (auto simp: phase_def)
  next
    case (2 n)
    show ?thesis
    proof (cases "n = 2 ^ 31")
      case True
      then have "\<not> (\<exists>x \<in> mugs. m \<le> x)" "\<exists>x \<in> mugs. m' \<le> x"
        using 2(4,5) assms(2,3) by auto
      then show ?thesis
        using True 2(1,4) assms(4) by (simp add: phase_def)
    next
      case False
      then have "m' = n" "(\<exists>x \<in> mugs. m \<le> x) \<longrightarrow> (\<exists>x \<in> mugs. m' \<le> x)"
        using 2(3-5) by (auto simp: not_less)
      then show ?thesis
        using False 2(1-3) assms(4) by (auto simp: phase_def)
    qed
  qed
qed

lemma u3h_trim_to_ok:
  assumes "hash_ok murmur har"
  shows "\<exists>har'. u3h_trim_to har n = Some har' \<and> hash_ok murmur har' \<and> use_w har' = min n (use_w har) \<and> max_w har' = max_w har \<and>
    subseq (table_kevs har') (table_kevs har)"
proof -
  define fs where "fs = [use_w, table_warm, \<lambda>har. phase (table_mugs murmur har) (mug_w har, inx_w har)]"
  show ?thesis
    using assms
  proof (induction har rule: wf_induct_rule [OF wf_measures [of fs]])
    case (1 har)
    show ?case
    proof (cases "n < use_w har")
      case True
      obtain ohn har' where r: "ch_trim_root har = Some (ohn, har')" "hash_ok murmur (if ohn then har'\<lparr>use_w := use_w har' - 1\<rparr> else har')"
          "max_w har' = max_w har" "use_w har' = use_w har" "subseq (table_kevs har') (table_kevs har)"
          "\<not> ohn \<longrightarrow> table_warm har' < table_warm har \<or>
            sot_w har' = sot_w har \<and> moves (2 ^ 31) (table_mugs murmur har) (mug_w har, inx_w har) (mug_w har', inx_w har')"
        using ch_trim_root_ok [OF 1(2)] by blast
      let ?h = "if ohn then har'\<lparr>use_w := use_w har' - 1\<rparr> else har'"
      have h: "table_kevs ?h = table_kevs har'" "max_w ?h = max_w har" "use_w ?h = (if ohn then use_w har - 1 else use_w har)"
        using r(3,4) by (simp_all add: table_kevs_def)
      have "(?h, har) \<in> measures fs"
      proof (cases "\<not> ohn \<and> sot_w har' = sot_w har")
        case same: True
        have "table_mugs murmur har \<noteq> {}" "mug_w har < 2 ^ 31"
          using True 1(2) by (auto simp: hash_ok_def)
        then have "phase (table_mugs murmur har) (mug_w har', inx_w har') < phase (table_mugs murmur har) (mug_w har, inx_w har)"
          if "moves (2 ^ 31) (table_mugs murmur har) (mug_w har, inx_w har) (mug_w har', inx_w har')"
          by (intro moves_phase [OF that]) (auto simp: u3r_mug_31 [simplified])
        then show ?thesis
          using same r(4,6) by (auto simp: fs_def table_warm_def table_kevs_def)
      qed (use r(4,6) True in \<open>auto simp: fs_def\<close>)
      then obtain har'' where i: "u3h_trim_to ?h n = Some har''" "hash_ok murmur har''" "use_w har'' = min n (use_w ?h)" "max_w har'' = max_w ?h"
          "subseq (table_kevs har'') (table_kevs ?h)"
        using 1(1) r(2) by blast
      have "subseq (table_kevs har'') (table_kevs har)"
        using i(5) r(5) unfolding h(1) by (rule subseq_order.trans)
      then show ?thesis
        using i(1-4) h(2,3) r(1) True by (subst u3h_trim_to.simps) (auto split: if_splits)
    next
      case False
      then show ?thesis
        using 1(2) by (subst u3h_trim_to.simps) simp
    qed
  qed
qed

lemma u3h_put_table:
  assumes "hash_ok murmur har"
  obtains har' where "hash_ok murmur har'" "table_map har' = (table_map har)(key \<mapsto> val)" "max_w har' = max_w har"
    "u3h_put murmur har key val = (if 0 < max_w har then u3h_trim_to har' (max_w har) else Some har')"
    "use_w har' = use_w har + (if key \<in> dom (table_map har) then 0 else 1)"
proof -
  let ?m = "u3r_mug murmur key"
  obtain S s T where s: "sot_w har = S @ s # T" "length S = ?m div 2 ^ 25" "root_slot_ok murmur (?m div 2 ^ 25) s"
      "\<And>k. k \<in> fst ` set (concat (map kevs S)) \<Longrightarrow> u3r_mug murmur k div 2 ^ 25 \<noteq> ?m div 2 ^ 25"
      "\<And>k. k \<in> fst ` set (concat (map kevs T)) \<Longrightarrow> u3r_mug murmur k div 2 ^ 25 \<noteq> ?m div 2 ^ 25"
      "\<And>s'. root_slot_ok murmur (?m div 2 ^ 25) s' \<Longrightarrow> list_all2 (root_slot_ok murmur) [0..<64] (S @ s' # T)"
    using assms root_at [of murmur "sot_w har" ?m] u3r_mug_31 unfolding hash_ok_def by metis
  have off: "key \<notin> fst ` set (concat (map kevs S))" "key \<notin> fst ` set (concat (map kevs T))"
    using s(4,5) by blast+
  obtain s' where s': "trie_ok murmur 25 (?m div 2 ^ 25) s'" "set (kevs s') = put_kev key val (set (kevs s))"
      "(if s = Null then Some (Noun (True, key, val), use_w har + 1) else ch_slot_put murmur s key val 25 (CUT_END ?m 25) (use_w har)) =
        Some (s', use_w har + (if key \<in> slot_keys s then 0 else 1))"
  proof (cases "s = Null")
    case True
    then show ?thesis
      using that [of "Noun (True, key, val)"] by (simp add: put_kev_def)
  next
    case False
    then show ?thesis
      using that ch_slot_put_ok [of murmur 25 "?m div 2 ^ 25" s key _ val "use_w har"] s(3) by (auto simp: root_slot_ok_def)
  qed
  define har' where "har' = har\<lparr>sot_w := S @ s' # T, use_w := use_w har + (if key \<in> slot_keys s then 0 else 1)\<rparr>"
  have kevs': "table_kevs har' = concat (map kevs S) @ kevs s' @ concat (map kevs T)"
    by (simp add: har'_def table_kevs_def)
  have list: "list_all2 (root_slot_ok murmur) [0..<64] (S @ s' # T)"
    using s(6) s'(1) by (simp add: root_slot_ok_def)
  have set: "set (table_kevs har') = put_kev key val (set (table_kevs har))"
    unfolding kevs' table_kevs_split [OF s(1)] set_append put_kev_other(1) [OF off(1)] put_kev_other(2) [OF off(2)] s'(2) ..
  have d: "distinct (map fst (table_kevs har))" "distinct (map fst (table_kevs har'))"
    using distinct_table [OF assms] distinct_roots [OF list] by (simp_all add: kevs')
  have in_s: "key \<in> fst ` set (table_kevs har) \<longleftrightarrow> key \<in> slot_keys s"
    using off unfolding table_kevs_split [OF s(1)] set_append image_Un by blast
  have use: "use_w har' = use_w har + (if key \<in> fst ` set (table_kevs har) then 0 else 1)"
    by (simp add: har'_def in_s)
  show ?thesis
  proof (rule that)
    show "table_map har' = (table_map har)(key \<mapsto> val)"
      by (rule map_of_put_kev [OF d set])
    show "hash_ok murmur har'"
      using assms list length_put_kev [OF d set] use by (auto simp: hash_ok_def har'_def)
    show "use_w har' = use_w har + (if key \<in> dom (table_map har) then 0 else 1)"
      using use by (simp add: dom_map_of_conv_image_fst)
    show "u3h_put murmur har key val = (if 0 < max_w har then u3h_trim_to har' (max_w har) else Some har')"
      unfolding u3h_put_def Let_def s(1) s(2) [symmetric] nth_append_length s'(3) by (simp add: har'_def)
  qed (simp add: har'_def)
qed

section \<open>Traversal and copies\<close>

fun visit_all :: "'w visit \<Rightarrow> (noun \<times> noun) list \<Rightarrow> 'w \<Rightarrow> 'w option" where
  "visit_all f [] wit = Some wit"
| "visit_all f (kev # es) wit = (case f kev wit of None \<Rightarrow> None | Some wit \<Rightarrow> visit_all f es wit)"

lemma visit_all_append: "visit_all f (xs @ ys) wit = (case visit_all f xs wit of None \<Rightarrow> None | Some wit \<Rightarrow> visit_all f ys wit)"
  by (induction xs arbitrary: wit) (auto split: option.splits)

lemma ch_walk_buck_all: "ch_walk_buck hab f wit = visit_all f (map snd hab) wit"
  by (induction hab f wit rule: ch_walk_buck.induct) (auto split: bind_splits option.splits)

lemma ch_walk_node_all:
  assumes "trie_ok murmur lef p s" and "s = Node map_w sots"
  shows "ch_walk_node map_w sots lef f wit = visit_all f (kevs s) wit"
  using assms
proof (induction arbitrary: map_w sots wit rule: trie_ok.induct)
  case (node lef p map_w' sots' map_w sots)
  have "walk_node_loop sots lef f wit = visit_all f (concat (map kevs sots)) wit"
    if "list_all2 (\<lambda>b s. trie_ok murmur lef (32 * p + b) s \<and> (\<forall>map_w sots. s = Node map_w sots \<longrightarrow>
      (\<forall>wit. ch_walk_node map_w sots lef f wit = visit_all f (kevs s) wit))) bs sots" for bs sots wit
    using that
  proof (induction arbitrary: wit rule: list_all2_induct)
    case (Cons b bs s sots)
    then show ?case
      by (cases s) (auto simp: walk_node_loop.simps visit_all_append ch_walk_buck_all trie_ok_Buck trie_ok_Node_iff split: option.splits)
  qed simp
  then show ?case
    using node.IH node.prems list_all2_lengthD [OF node.IH] by (simp add: ch_walk_node.simps length_bits)
qed simp_all

lemma u3h_walk_with_all:
  assumes "hash_ok murmur har"
  shows "u3h_walk_with har f wit = visit_all f (table_kevs har) wit"
proof -
  have "walk_root_loop sots f wit = visit_all f (concat (map kevs sots)) wit" if "list_all2 (root_slot_ok murmur) bs sots" for bs sots
    using that
  proof (induction arbitrary: wit rule: list_all2_induct)
    case (Cons b bs s sots)
    then show ?case
      by (cases s) (auto simp: visit_all_append root_slot_ok_def trie_ok_Buck ch_walk_node_all split: option.splits bind_splits)
  qed simp
  then show ?thesis
    using assms unfolding hash_ok_def u3h_walk_with_def table_kevs_def by blast
qed

lemma ch_take_noun_snd: "snd (ch_take_noun f kev) = apsnd f (snd kev)" "fst (snd (ch_take_noun f kev)) = fst (snd kev)"
  by (simp_all add: ch_take_noun_def apsnd_def map_prod_def split: prod.split)

lemma ch_take_node_ok:
  assumes "trie_ok murmur lef p s" and "s = Node map_w sots"
  shows "\<exists>s'. ch_take_node map_w sots lef f = Some s' \<and> trie_ok murmur lef p s' \<and> kevs s' = map (apsnd f) (kevs s)"
  using assms
proof (induction arbitrary: map_w sots rule: trie_ok.induct)
  case (node lef p map_w' sots' map_w sots)
  have "\<exists>tos. take_node_loop sots lef f = Some tos \<and> list_all2 (\<lambda>b. trie_ok murmur lef (32 * p + b)) bs tos \<and>
      concat (map kevs tos) = map (apsnd f) (concat (map kevs sots))"
    if "list_all2 (\<lambda>b s. trie_ok murmur lef (32 * p + b) s \<and> (\<forall>map_w sots. s = Node map_w sots \<longrightarrow>
      (\<exists>s'. ch_take_node map_w sots lef f = Some s' \<and> trie_ok murmur lef (32 * p + b) s' \<and> kevs s' = map (apsnd f) (kevs s)))) bs sots" for bs sots
    using that
  proof (induction rule: list_all2_induct)
    case (Cons b bs s sots)
    then show ?case
      by (cases s) (auto simp: take_node_loop.simps ch_take_buck_def ch_take_noun_snd trie_ok_Buck trie_ok_Node_iff comp_def)
  qed simp
  then show ?case
    using node.IH node.prems list_all2_lengthD [OF node.IH] by (fastforce simp: ch_take_node.simps length_bits trie_ok_Node)
qed simp_all

lemma u3h_take_with_ok:
  assumes "hash_ok murmur har"
  shows "\<exists>har'. u3h_take_with har f = Some har' \<and> hash_ok murmur har' \<and> table_kevs har' = map (apsnd f) (table_kevs har) \<and> max_w har' = max_w har"
proof -
  have null: "ch_take_node 0 [] 25 f = Some (Node 0 [])" "trie_ok murmur 25 b (Node 0 [])" for b
    using trie_ok_Node [of murmur 20 b 0 "[]"] by (simp_all add: ch_take_node.simps ch_popcount_def bits_zero)
  have "\<exists>tos. take_root_loop sots f = Some tos \<and> list_all2 (root_slot_ok murmur) bs tos \<and> concat (map kevs tos) = map (apsnd f) (concat (map kevs sots))"
    if "list_all2 (root_slot_ok murmur) bs sots" for bs sots
    using that
  proof (induction rule: list_all2_induct)
    case (Cons b bs s sots)
    show ?case
    proof (cases s)
      case (Node map_w tos)
      then show ?thesis
        using Cons ch_take_node_ok [of murmur 25 b s map_w tos f] by (fastforce simp: root_slot_ok_def)
    qed (use Cons null in \<open>auto simp: root_slot_ok_def trie_ok_Buck ch_take_noun_snd\<close>)
  qed simp
  then show ?thesis
    using assms by (fastforce simp: hash_ok_def u3h_take_with_def table_kevs_def u3h_new_cache_def)
qed

section \<open>Mugs\<close>

lemma ch_buck_hum_all: "ch_buck_hum murmur hab m \<longleftrightarrow> m \<in> slot_mugs murmur (Buck hab)"
  by (induction murmur hab m rule: ch_buck_hum.induct) (auto simp: slot_mugs_def)

lemma ch_node_hum_ok:
  assumes "trie_ok murmur lef p s" and "s = Node map_w sots" and "m div 2 ^ lef = p" and "rem = CUT_END m lef"
  shows "ch_node_hum murmur map_w sots lef rem m = Some (m \<in> slot_mugs murmur s)"
  using assms
proof (induction arbitrary: map_w sots rem rule: trie_ok.induct)
  case (node lef p map_w' sots' map_w sots)
  let ?P = "\<lambda>b. trie_ok murmur lef (32 * p + b)" and ?b = "CUT_END m (lef + 5) div 2 ^ lef"
  have all: "list_all2 ?P (bits map_w) sots"
    using node.IH node.prems(1) by (auto elim: list_all2_mono)
  have mb: "m div 2 ^ lef = 32 * p + ?b"
    using bit_of_mug [of m lef] node.prems(2) by simp
  show ?case
  proof (cases "bit map_w ?b")
    case True
    obtain A S s B T where s: "sots = S @ s # T" "ch_inx map_w ?b = length S" "bits map_w = A @ ?b # B" "list_all2 ?P A S" "?P ?b s"
        "list_all2 ?P B T" "length A = length S"
      by (rule slots_at [OF all True cut_lt])
    have "?b \<notin> set A" "?b \<notin> set B"
      using distinct_bits [of map_w] unfolding s(3) by auto
    then have "m \<in> slot_mugs murmur (Node map_w sots) \<longleftrightarrow> m \<in> slot_mugs murmur s"
      using kids_trim_mugs [OF s(4,6), of ?b m map_w s] mb by (auto simp: s(1) slot_mugs_def)
    moreover have "ch_node_hum murmur map_w'' sots'' lef (CUT_END m lef) m = Some (m \<in> slot_mugs murmur s)"
      if "s = Node map_w'' sots''" for map_w'' sots''
    proof -
      have "list_all2 (\<lambda>b s. \<forall>map_w sots. s = Node map_w sots \<longrightarrow> m div 2 ^ lef = 32 * p + b \<longrightarrow>
          ch_node_hum murmur map_w sots lef (CUT_END m lef) m = Some (m \<in> slot_mugs murmur s)) (bits map_w) sots"
        using node.IH node.prems(1) by (auto elim: list_all2_mono)
      then show ?thesis
        using s(7) mb that unfolding s(1,3) by (simp add: list_all2_append)
    qed
    ultimately show ?thesis
      using s(2,5) node.prems(1,3) True unfolding ch_node_hum.simps [of murmur map_w sots "lef + 5"]
      by (cases s) (auto simp: s(1) cut_cut Let_def ch_buck_hum_all trie_ok_Buck trie_ok_Node_iff slot_mugs_def split: if_splits)
  next
    case False
    then have "?b \<notin> set (bits map_w)"
      by (simp add: set_bits)
    then have "m \<notin> slot_mugs murmur (Node map_w sots)"
      using kids_not [OF all _ , of _ ?b] mb unfolding slot_mugs_def kevs.simps by blast
    then show ?thesis
      using False node.prems(1,3) by (simp add: ch_node_hum.simps [of _ _ _ "lef + 5"])
  qed
qed simp_all

lemma u3h_hum_ok:
  assumes "hash_ok murmur har" and "m < 2 ^ 31"
  shows "u3h_hum murmur har m = Some (m \<in> table_mugs murmur har)"
proof -
  obtain S s T where s: "sot_w har = S @ s # T" "length S = m div 2 ^ 25" "root_slot_ok murmur (m div 2 ^ 25) s"
      "\<And>k. k \<in> fst ` set (concat (map kevs S)) \<Longrightarrow> u3r_mug murmur k div 2 ^ 25 \<noteq> m div 2 ^ 25"
      "\<And>k. k \<in> fst ` set (concat (map kevs T)) \<Longrightarrow> u3r_mug murmur k div 2 ^ 25 \<noteq> m div 2 ^ 25"
    using assms root_at [of murmur "sot_w har" m] unfolding hash_ok_def by metis
  have mugs: "m \<in> table_mugs murmur har \<longleftrightarrow> m \<in> slot_mugs murmur s"
    using s(4,5) unfolding slot_mugs_def table_kevs_split [OF s(1)] set_append image_Un by blast
  have "u3h_hum murmur har m = (case s of
      Null \<Rightarrow> Some False
    | Noun (w, k, v) \<Rightarrow> Some (m = u3r_mug murmur k)
    | Node map_w sots \<Rightarrow> ch_node_hum murmur map_w sots 25 (CUT_END m 25) m
    | Buck _ \<Rightarrow> None)"
    unfolding u3h_hum_def Let_def s(1) s(2) [symmetric] by simp
  then show ?thesis
    using s(3) unfolding mugs
    by (cases s) (auto simp: root_slot_ok_def slot_mugs_def trie_ok_Buck ch_node_hum_ok)
qed

section \<open>Tables as maps\<close>

text \<open>
  What a client may rely on: after a store, a cache knows at most what an updated map knows, and a table exactly that.
\<close>

lemma map_add_rev: "m ++ map_of (rev (e # es)) = m(fst e \<mapsto> snd e) ++ map_of (rev es)"
  by (cases e) (auto simp: fun_eq_iff map_add_def split: option.splits)

lemma map_le_add_right: "f \<subseteq>\<^sub>m g \<Longrightarrow> f ++ h \<subseteq>\<^sub>m g ++ h"
  by (auto simp: map_le_def map_add_def dom_def split: option.splits)

locale noun_cache =
  fixes ok :: "'t \<Rightarrow> bool" and look :: "'t \<Rightarrow> noun \<Rightarrow> noun option" and store :: "'t \<Rightarrow> noun \<Rightarrow> noun \<Rightarrow> 't option"
  assumes store_ok: "ok t \<Longrightarrow> \<exists>t'. store t k v = Some t' \<and> ok t' \<and> look t' \<subseteq>\<^sub>m (look t)(k \<mapsto> v)"
begin

lemma store_all:
  "ok t \<Longrightarrow> \<exists>t'. visit_all (\<lambda>e t. store t (fst e) (snd e)) es t = Some t' \<and> ok t' \<and> look t' \<subseteq>\<^sub>m look t ++ map_of (rev es)"
proof (induction es arbitrary: t)
  case (Cons e es)
  obtain t1 where t1: "store t (fst e) (snd e) = Some t1" "ok t1" "look t1 \<subseteq>\<^sub>m (look t)(fst e \<mapsto> snd e)"
    using store_ok [OF Cons.prems] by blast
  obtain t' where t': "visit_all (\<lambda>e t. store t (fst e) (snd e)) es t1 = Some t'" "ok t'" "look t' \<subseteq>\<^sub>m look t1 ++ map_of (rev es)"
    using Cons.IH [OF t1(2)] by blast
  have "look t' \<subseteq>\<^sub>m look t ++ map_of (rev (e # es))"
    unfolding map_add_rev by (rule map_le_trans [OF t'(3) map_le_add_right [OF t1(3)]])
  then show ?case
    using t1(1) t'(1,2) by simp
qed simp

end

locale noun_table = noun_cache +
  assumes store_exact: "ok t \<Longrightarrow> store t k v = Some t' \<Longrightarrow> look t' = (look t)(k \<mapsto> v)"
begin

lemma store_all_exact:
  "ok t \<Longrightarrow> \<exists>t'. visit_all (\<lambda>e t. store t (fst e) (snd e)) es t = Some t' \<and> ok t' \<and> look t' = look t ++ map_of (rev es)"
proof (induction es arbitrary: t)
  case (Cons e es)
  obtain t1 where "store t (fst e) (snd e) = Some t1" "ok t1" "look t1 = (look t)(fst e \<mapsto> snd e)"
    using store_ok [OF Cons.prems] store_exact [OF Cons.prems] by blast
  then show ?case
    using Cons.IH [of t1] unfolding map_add_rev by (simp add: fun_upd_def)
qed simp

end

lemma u3h_put_cache:
  assumes "hash_ok murmur har"
  shows "\<exists>har'. u3h_put murmur har key val = Some har' \<and> hash_ok murmur har' \<and> max_w har' = max_w har \<and>
    table_map har' \<subseteq>\<^sub>m (table_map har)(key \<mapsto> val) \<and> (max_w har = 0 \<longrightarrow> table_map har' = (table_map har)(key \<mapsto> val)) \<and>
    (0 < max_w har \<longrightarrow> use_w har' \<le> max_w har)"
proof -
  obtain h where h: "hash_ok murmur h" "table_map h = (table_map har)(key \<mapsto> val)" "max_w h = max_w har"
      "u3h_put murmur har key val = (if 0 < max_w har then u3h_trim_to h (max_w har) else Some h)"
    by (rule u3h_put_table [OF assms])
  obtain h' where h': "u3h_trim_to h (max_w har) = Some h'" "hash_ok murmur h'" "use_w h' = min (max_w har) (use_w h)"
      "max_w h' = max_w h" "subseq (table_kevs h') (table_kevs h)"
    using u3h_trim_to_ok [OF h(1)] by blast
  have "(k, v) \<in> set (table_kevs h)" if "table_map h' k = Some v" for k v
    using map_of_SomeD [OF that] h'(5) by (auto elim: list_emb_set)
  then have "table_map h' \<subseteq>\<^sub>m table_map h"
    using distinct_table [OF h(1)] by (auto simp: map_le_def)
  then show ?thesis
    using h h' by simp
qed

interpretation hash_cache: noun_cache "hash_ok murmur" table_map "u3h_put murmur" for murmur
  by unfold_locales (use u3h_put_cache in blast)

interpretation hash_table: noun_table "\<lambda>har. hash_ok murmur har \<and> max_w har = 0" table_map "u3h_put murmur" for murmur
  by unfold_locales (use u3h_put_cache in \<open>metis map_le_refl\<close>, use u3h_put_cache in \<open>metis option.inject\<close>)

end
