(* ===== verification/Noun_Hash_Properties.thy ===== *)
theory Noun_Hash_Properties
  imports Noun_Hash_Correct
begin

text \<open>The properties of hashtables. \<open>finds\<close> is what a lookup returns, \<open>None\<close> for a misread slot.\<close>

definition finds :: "murmur \<Rightarrow> u3h_root \<Rightarrow> noun \<Rightarrow> noun option option" where
  "finds murmur har key = map_option fst (u3h_git murmur har key)"

lemma finds_map: "hash_ok murmur har \<Longrightarrow> finds murmur har key = Some (table_map har key)"
  using u3h_git_ok [of murmur har key] by (auto simp: finds_def)

lemma root_slots_Null: "list_all2 (root_slot_ok murmur) xs (replicate (length xs) Null)"
  by (induction xs) (auto simp: root_slot_ok_def)

lemma hash_ok_new: "hash_ok murmur (u3h_new_cache n)" and table_kevs_new: "table_kevs (u3h_new_cache n) = []"
  using root_slots_Null [of murmur "[0..<64]"]
  by (simp_all add: hash_ok_def table_kevs_def u3h_new_cache_def del: upt_rec_numeral)

text \<open>
  C23. Insertion into a table without a bound returns and keeps the invariant; lookups after it find the new value at its
  key and at every other key what they found before, also for keys whose mugs collide in part or fully.
\<close>

theorem hash_put_get:
  assumes "hash_ok murmur har" and "max_w har = 0"
  shows "\<exists>har'. u3h_put murmur har key val = Some har' \<and> hash_ok murmur har' \<and> max_w har' = 0 \<and>
    (\<forall>k. finds murmur har' k = (if k = key then Some (Some val) else finds murmur har k))"
proof -
  obtain har' where "u3h_put murmur har key val = Some har'" "hash_ok murmur har'" "max_w har' = 0" "table_map har' = (table_map har)(key \<mapsto> val)"
    using u3h_put_cache [OF assms(1)] assms(2) by metis
  then show ?thesis
    using finds_map assms(1) by simp
qed

theorem hash_put_get_witness:
  "\<exists>har'. u3h_put fnv u3h_new (Atom 1) (Atom 2) = Some har' \<and> finds fnv har' (Atom 1) = Some (Some (Atom 2))"
proof -
  have "hash_ok fnv u3h_new" "max_w u3h_new = 0"
    by (simp_all only: u3h_new_def hash_ok_new) (simp add: u3h_new_cache_def)
  from hash_put_get [OF this, of "Atom 1" "Atom 2"] show ?thesis
    by auto
qed

text \<open>
  C24. Insertion into a cache returns, although it may trim: the cache then has no more entries than its bound, and a
  lookup finds nothing but the new value at its key and what was found before at others.
\<close>

theorem hash_cache_bounded:
  assumes "hash_ok murmur har" and "0 < max_w har"
  shows "\<exists>har'. u3h_put murmur har key val = Some har' \<and> hash_ok murmur har' \<and> use_w har' \<le> max_w har \<and>
    length (table_kevs har') \<le> max_w har \<and>
    (\<forall>k. finds murmur har' k = Some None \<or> finds murmur har' k = (if k = key then Some (Some val) else finds murmur har k))"
proof -
  obtain har' where h: "u3h_put murmur har key val = Some har'" "hash_ok murmur har'" "use_w har' \<le> max_w har"
      "table_map har' \<subseteq>\<^sub>m (table_map har)(key \<mapsto> val)"
    using u3h_put_cache [OF assms(1)] assms(2) by metis
  have "table_map har' k = None \<or> table_map har' k = ((table_map har)(key \<mapsto> val)) k" for k
    using h(4) by (cases "table_map har' k") (auto simp: map_le_def dom_def)
  then have "finds murmur har' k = Some None \<or> finds murmur har' k = (if k = key then Some (Some val) else finds murmur har k)" for k
    using finds_map [OF h(2)] finds_map [OF assms(1)] by (metis fun_upd_apply)
  moreover have "use_w har' = length (table_kevs har')"
    using h(2) by (simp add: hash_ok_def)
  ultimately show ?thesis
    using h by auto
qed

theorem hash_cache_bounded_witness:
  "\<exists>har'. u3h_put fnv (u3h_new_cache 1) (Atom 1) (Atom 2) = Some har' \<and> use_w har' \<le> 1"
proof -
  have "0 < max_w (u3h_new_cache 1)" "max_w (u3h_new_cache 1) = 1"
    by (simp_all add: u3h_new_cache_def)
  with hash_cache_bounded [OF hash_ok_new, of 1 fnv "Atom 1" "Atom 2"] show ?thesis
    by auto
qed

text \<open>
  C25. Trimming ends. It drops as many entries as exceed the requested number, keeps the order and the values of the
  others, and keeps the invariant.
\<close>

theorem hash_trim_ends:
  assumes "hash_ok murmur har"
  shows "\<exists>har'. u3h_trim_to har n = Some har' \<and> hash_ok murmur har' \<and> use_w har' = min n (use_w har) \<and>
    length (table_kevs har') = min n (length (table_kevs har)) \<and> subseq (table_kevs har') (table_kevs har)"
  using u3h_trim_to_ok [OF assms, of n] assms by (auto simp: hash_ok_def)

text \<open>A table with one entry.\<close>

lemma one_entry:
  "\<exists>har. u3h_put fnv u3h_new key val = Some har \<and> hash_ok fnv har \<and> max_w har = 0 \<and> use_w har = 1 \<and> table_map har = [key \<mapsto> val]"
proof -
  have new: "hash_ok fnv u3h_new" "max_w u3h_new = 0"
    by (simp_all only: u3h_new_def hash_ok_new) (simp add: u3h_new_cache_def)
  have "use_w u3h_new = 0"
    by (simp add: u3h_new_def u3h_new_cache_def)
  then have "table_map u3h_new = Map.empty"
    using new(1) by (auto simp: hash_ok_def)
  then obtain har where har: "u3h_put fnv u3h_new key val = Some har" "hash_ok fnv har" "max_w har = 0" "table_map har = [key \<mapsto> val]"
    using u3h_put_cache [OF new(1), of key val] new(2) by metis
  have "card (dom (table_map har)) = length (table_kevs har)"
    using distinct_table [OF har(2)] by (simp add: dom_map_of_conv_image_fst distinct_card flip: set_map)
  then have "use_w har = 1"
    using har(2,4) by (simp add: hash_ok_def)
  then show ?thesis
    using har by blast
qed

theorem hash_trim_ends_witness:
  "\<exists>har har'. u3h_put fnv u3h_new (Atom 1) (Atom 2) = Some har \<and> use_w har = 1 \<and> u3h_trim_to har 0 = Some har' \<and> use_w har' = 0 \<and> table_kevs har' = []"
proof -
  obtain har where har: "u3h_put fnv u3h_new (Atom 1) (Atom 2) = Some har" "hash_ok fnv har" "use_w har = 1"
    using one_entry by blast
  then show ?thesis
    using hash_trim_ends [OF har(2), of 0] by auto
qed

text \<open>
  C37. A traversal calls its function once for every entry: the visited keys are distinct, and the visited pairs are
  exactly those that lookups find.
\<close>

theorem hash_walk_once:
  assumes "hash_ok murmur har"
  shows "\<exists>es. u3h_walk_with har (\<lambda>kev es. Some (es @ [kev])) [] = Some es \<and> distinct (map fst es) \<and> length es = use_w har \<and>
    (\<forall>k v. finds murmur har k = Some (Some v) \<longleftrightarrow> (k, v) \<in> set es)"
proof -
  have "visit_all (\<lambda>kev es. Some (es @ [kev])) xs ys = Some (ys @ xs)" for xs ys :: "(noun \<times> noun) list"
    by (induction xs arbitrary: ys) auto
  then have "u3h_walk_with har (\<lambda>kev es. Some (es @ [kev])) [] = Some (table_kevs har)"
    by (simp add: u3h_walk_with_all [OF assms])
  moreover have "finds murmur har k = Some (Some v) \<longleftrightarrow> (k, v) \<in> set (table_kevs har)" for k v
    using finds_map [OF assms] map_of_eq_Some_iff [OF distinct_table [OF assms]] by simp
  moreover have "length (table_kevs har) = use_w har"
    using assms by (simp add: hash_ok_def)
  ultimately show ?thesis
    using distinct_table [OF assms] by blast
qed

theorem hash_walk_once_witness:
  "\<exists>har es. u3h_put fnv u3h_new (Atom 1) (Atom 2) = Some har \<and> u3h_walk_with har (\<lambda>kev es. Some (es @ [kev])) [] = Some es \<and>
    length es = 1 \<and> (Atom 1, Atom 2) \<in> set es"
proof -
  obtain har where har: "u3h_put fnv u3h_new (Atom 1) (Atom 2) = Some har" "hash_ok fnv har" "use_w har = 1" "table_map har = [Atom 1 \<mapsto> Atom 2]"
    using one_entry by blast
  have "finds fnv har (Atom 1) = Some (Some (Atom 2))"
    using finds_map [OF har(2)] har(4) by simp
  then show ?thesis
    using hash_walk_once [OF har(2)] har(1,3) by metis
qed

text \<open>
  C27. The union of two tables finds the entries of the second and, at keys that are not in it, those of the first; for a
  cache it finds no others.
\<close>

theorem hash_uni_merges:
  assumes "hash_ok murmur har" and "hash_ok murmur rah"
  shows "\<exists>har'. u3h_uni murmur har rah = Some har' \<and> hash_ok murmur har' \<and> table_map har' \<subseteq>\<^sub>m table_map har ++ table_map rah \<and>
    (max_w har = 0 \<longrightarrow> (\<forall>k. finds murmur har' k = (if finds murmur rah k = Some None then finds murmur har k else finds murmur rah k)))"
proof -
  have uni: "u3h_uni murmur har rah = visit_all (\<lambda>e t. u3h_put murmur t (fst e) (snd e)) (table_kevs rah) har"
    unfolding u3h_uni_def u3h_walk_with_all [OF assms(2)] by (simp add: ch_uni_with_def [abs_def])
  have rev: "map_of (rev (table_kevs rah)) = table_map rah"
    by (rule map_of_eqI) (use distinct_table [OF assms(2)] in \<open>auto simp: map_of_eq_Some_iff distinct_map rev_map [symmetric]\<close>)
  obtain har' where h: "u3h_uni murmur har rah = Some har'" "hash_ok murmur har'" "table_map har' \<subseteq>\<^sub>m table_map har ++ table_map rah"
    using hash_cache.store_all [OF assms(1), of "table_kevs rah"] unfolding uni rev by blast
  moreover have "table_map har' = table_map har ++ table_map rah" if "max_w har = 0"
    using hash_table.store_all_exact [of murmur har "table_kevs rah"] that assms(1) h(1) unfolding uni rev by auto
  ultimately show ?thesis
    using finds_map assms by (auto simp: map_add_def split: option.splits)
qed

theorem hash_uni_merges_witness:
  "\<exists>har rah har'. u3h_put fnv u3h_new (Atom 1) (Atom 2) = Some har \<and> u3h_put fnv u3h_new (Atom 3) (Atom 4) = Some rah \<and>
    u3h_uni fnv har rah = Some har' \<and> finds fnv har' (Atom 1) = Some (Some (Atom 2)) \<and> finds fnv har' (Atom 3) = Some (Some (Atom 4))"
proof -
  obtain har where har: "u3h_put fnv u3h_new (Atom 1) (Atom 2) = Some har" "hash_ok fnv har" "max_w har = 0" "table_map har = [Atom 1 \<mapsto> Atom 2]"
    using one_entry by blast
  obtain rah where rah: "u3h_put fnv u3h_new (Atom 3) (Atom 4) = Some rah" "hash_ok fnv rah" "table_map rah = [Atom 3 \<mapsto> Atom 4]"
    using one_entry by blast
  obtain har' where "u3h_uni fnv har rah = Some har'"
      "\<forall>k. finds fnv har' k = (if finds fnv rah k = Some None then finds fnv har k else finds fnv rah k)"
    using hash_uni_merges [OF har(2) rah(2)] har(3) by blast
  then show ?thesis
    using har rah finds_map [OF har(2)] finds_map [OF rah(2)] by auto
qed

text \<open>
  A copy of a table finds at every key the image of the value that the table finds, and can be used in its place.
\<close>

theorem hash_take_copies:
  assumes "hash_ok murmur har"
  shows "\<exists>har'. u3h_take_with har f = Some har' \<and> hash_ok murmur har' \<and> max_w har' = max_w har \<and>
    (\<forall>k. finds murmur har' k = map_option (map_option f) (finds murmur har k))"
proof -
  obtain har' where h: "u3h_take_with har f = Some har'" "hash_ok murmur har'" "table_kevs har' = map (apsnd f) (table_kevs har)" "max_w har' = max_w har"
    using u3h_take_with_ok [OF assms] by blast
  have "apsnd f = (\<lambda>(k :: noun, v). (k, f v))"
    by auto
  then have "table_map har' k = map_option f (table_map har k)" for k
    unfolding h(3) by (simp add: map_of_map)
  then show ?thesis
    using h finds_map [OF h(2)] finds_map [OF assms] by auto
qed

theorem hash_take_copies_witness: "\<exists>har'. u3h_take_with u3h_new (\<lambda>v. v) = Some har' \<and> finds fnv har' (Atom 1) = finds fnv u3h_new (Atom 1)"
proof -
  have "hash_ok fnv u3h_new"
    by (simp add: u3h_new_def hash_ok_new)
  from hash_take_copies [OF this, of "\<lambda>v. v"] show ?thesis
    by (auto simp: option.map_ident option.map_id0 [unfolded id_def] cong: option.map_cong)
qed

text \<open>
  The test for a mug tells whether some key of the table has it.
\<close>

theorem hash_hum_tests:
  assumes "hash_ok murmur har" and "m < 2 ^ 31"
  shows "u3h_hum murmur har m = Some (\<exists>k v. finds murmur har k = Some (Some v) \<and> u3r_mug murmur k = m)"
proof -
  have "m \<in> table_mugs murmur har \<longleftrightarrow> (\<exists>k v. finds murmur har k = Some (Some v) \<and> u3r_mug murmur k = m)"
    using finds_map [OF assms(1)] map_of_eq_Some_iff [OF distinct_table [OF assms(1)]] by force
  then show ?thesis
    using u3h_hum_ok [OF assms] by simp
qed

end
