(* ===== verification/Nock_Op.thy ===== *)
theory Nock_Op
  imports Noun_Access
begin

text \<open>
  The instructions of the bytecode of \<^verbatim>\<open>nock.c\<close>. Opcodes are the numbers of the enumeration: the
  assembler relies on their order, since an instruction with a byte argument and its variant with a
  longer argument have consecutive numbers. The compiler emits a list of operations, each an opcode
  or a pair of an opcode and a noun.
\<close>

section \<open>Opcodes\<close>

type_synonym opcode = nat

abbreviation (input) HALT :: opcode where "HALT \<equiv> 0"
abbreviation (input) BAIL :: opcode where "BAIL \<equiv> 1"
abbreviation (input) COPY :: opcode where "COPY \<equiv> 2"
abbreviation (input) SWAP :: opcode where "SWAP \<equiv> 3"
abbreviation (input) TOSS :: opcode where "TOSS \<equiv> 4"
abbreviation (input) AUTO :: opcode where "AUTO \<equiv> 5"
abbreviation (input) AULT :: opcode where "AULT \<equiv> 6"
abbreviation (input) SNOC :: opcode where "SNOC \<equiv> 7"
abbreviation (input) SNOL :: opcode where "SNOL \<equiv> 8"
abbreviation (input) HEAD :: opcode where "HEAD \<equiv> 9"
abbreviation (input) HELD :: opcode where "HELD \<equiv> 10"
abbreviation (input) TAIL :: opcode where "TAIL \<equiv> 11"
abbreviation (input) TALL :: opcode where "TALL \<equiv> 12"
abbreviation (input) FABK :: opcode where "FABK \<equiv> 13"
abbreviation (input) FASK :: opcode where "FASK \<equiv> 14"
abbreviation (input) FIBK :: opcode where "FIBK \<equiv> 15"
abbreviation (input) FISK :: opcode where "FISK \<equiv> 16"
abbreviation (input) FABL :: opcode where "FABL \<equiv> 17"
abbreviation (input) FASL :: opcode where "FASL \<equiv> 18"
abbreviation (input) FIBL :: opcode where "FIBL \<equiv> 19"
abbreviation (input) FISL :: opcode where "FISL \<equiv> 20"
abbreviation (input) LIT0 :: opcode where "LIT0 \<equiv> 21"
abbreviation (input) LIT1 :: opcode where "LIT1 \<equiv> 22"
abbreviation (input) LITB :: opcode where "LITB \<equiv> 23"
abbreviation (input) LITS :: opcode where "LITS \<equiv> 24"
abbreviation (input) LIBK :: opcode where "LIBK \<equiv> 25"
abbreviation (input) LISK :: opcode where "LISK \<equiv> 26"
abbreviation (input) LIL0 :: opcode where "LIL0 \<equiv> 27"
abbreviation (input) LIL1 :: opcode where "LIL1 \<equiv> 28"
abbreviation (input) LILB :: opcode where "LILB \<equiv> 29"
abbreviation (input) LILS :: opcode where "LILS \<equiv> 30"
abbreviation (input) LIBL :: opcode where "LIBL \<equiv> 31"
abbreviation (input) LISL :: opcode where "LISL \<equiv> 32"
abbreviation (input) NOLK :: opcode where "NOLK \<equiv> 33"
abbreviation (input) NOCT :: opcode where "NOCT \<equiv> 34"
abbreviation (input) NOCK :: opcode where "NOCK \<equiv> 35"
abbreviation (input) DEEP :: opcode where "DEEP \<equiv> 36"
abbreviation (input) BUMP :: opcode where "BUMP \<equiv> 37"
abbreviation (input) SAM0 :: opcode where "SAM0 \<equiv> 38"
abbreviation (input) SAM1 :: opcode where "SAM1 \<equiv> 39"
abbreviation (input) SAMB :: opcode where "SAMB \<equiv> 40"
abbreviation (input) SAMS :: opcode where "SAMS \<equiv> 41"
abbreviation (input) SANB :: opcode where "SANB \<equiv> 42"
abbreviation (input) SANS :: opcode where "SANS \<equiv> 43"
abbreviation (input) SAME :: opcode where "SAME \<equiv> 44"
abbreviation (input) SALM :: opcode where "SALM \<equiv> 45"
abbreviation (input) SAMC :: opcode where "SAMC \<equiv> 46"
abbreviation (input) SBIP :: opcode where "SBIP \<equiv> 47"
abbreviation (input) SIPS :: opcode where "SIPS \<equiv> 48"
abbreviation (input) SWIP :: opcode where "SWIP \<equiv> 49"
abbreviation (input) SBIN :: opcode where "SBIN \<equiv> 50"
abbreviation (input) SINS :: opcode where "SINS \<equiv> 51"
abbreviation (input) SWIN :: opcode where "SWIN \<equiv> 52"
abbreviation (input) KICB :: opcode where "KICB \<equiv> 53"
abbreviation (input) KICS :: opcode where "KICS \<equiv> 54"
abbreviation (input) TICB :: opcode where "TICB \<equiv> 55"
abbreviation (input) TICS :: opcode where "TICS \<equiv> 56"
abbreviation (input) WILS :: opcode where "WILS \<equiv> 57"
abbreviation (input) WISH :: opcode where "WISH \<equiv> 58"
abbreviation (input) BUSH :: opcode where "BUSH \<equiv> 59"
abbreviation (input) SUSH :: opcode where "SUSH \<equiv> 60"
abbreviation (input) DROP :: opcode where "DROP \<equiv> 61"
abbreviation (input) HECK :: opcode where "HECK \<equiv> 62"
abbreviation (input) SLOG :: opcode where "SLOG \<equiv> 63"
abbreviation (input) BAST :: opcode where "BAST \<equiv> 64"
abbreviation (input) SAST :: opcode where "SAST \<equiv> 65"
abbreviation (input) BALT :: opcode where "BALT \<equiv> 66"
abbreviation (input) SALT :: opcode where "SALT \<equiv> 67"
abbreviation (input) SKIB :: opcode where "SKIB \<equiv> 68"
abbreviation (input) SKIS :: opcode where "SKIS \<equiv> 69"
abbreviation (input) SLIB :: opcode where "SLIB \<equiv> 70"
abbreviation (input) SLIS :: opcode where "SLIS \<equiv> 71"
abbreviation (input) SAVE :: opcode where "SAVE \<equiv> 72"
abbreviation (input) HILB :: opcode where "HILB \<equiv> 73"
abbreviation (input) HILS :: opcode where "HILS \<equiv> 74"
abbreviation (input) HINB :: opcode where "HINB \<equiv> 75"
abbreviation (input) HINS :: opcode where "HINS \<equiv> 76"
abbreviation (input) HILK :: opcode where "HILK \<equiv> 77"
abbreviation (input) HILL :: opcode where "HILL \<equiv> 78"
abbreviation (input) HINK :: opcode where "HINK \<equiv> 79"
abbreviation (input) HINL :: opcode where "HINL \<equiv> 80"
abbreviation (input) MUTH :: opcode where "MUTH \<equiv> 81"
abbreviation (input) KUTH :: opcode where "KUTH \<equiv> 82"
abbreviation (input) MUTT :: opcode where "MUTT \<equiv> 83"
abbreviation (input) KUTT :: opcode where "KUTT \<equiv> 84"
abbreviation (input) MUSM :: opcode where "MUSM \<equiv> 85"
abbreviation (input) KUSM :: opcode where "KUSM \<equiv> 86"
abbreviation (input) MUTB :: opcode where "MUTB \<equiv> 87"
abbreviation (input) MUTS :: opcode where "MUTS \<equiv> 88"
abbreviation (input) MITB :: opcode where "MITB \<equiv> 89"
abbreviation (input) MITS :: opcode where "MITS \<equiv> 90"
abbreviation (input) KUTB :: opcode where "KUTB \<equiv> 91"
abbreviation (input) KUTS :: opcode where "KUTS \<equiv> 92"
abbreviation (input) KITB :: opcode where "KITB \<equiv> 93"
abbreviation (input) KITS :: opcode where "KITS \<equiv> 94"
abbreviation (input) LAST :: opcode where "LAST \<equiv> 95"

text \<open>The size in bytes of an opcode's argument.\<close>

definition n_arg :: "opcode \<Rightarrow> nat jet" where
  "n_arg cod_y =
     (if cod_y \<in> {FABK, FABL, FIBL, FIBK, LILB, LITB, LIBL, LIBK, SAMB, SANB, SBIP, SBIN, SLIB, SKIB, KICB, TICB,
    BUSH, BAST, BALT, MUTB, KUTB, MITB, KITB, HILB, HINB} then Inr 1
      else if cod_y \<in> {FASK, FASL, FISL, FISK, LILS, LITS, LISL, LISK, SAMS, SANS, SIPS, SINS, SLIS, SKIS, KICS, TICS,
    SUSH, SAST, SALT, MUTS, KUTS, MITS, KITS, HILS, HINS} then Inr 2
      else if cod_y \<in> {SWIP, SWIN} then Inr 4
      else if cod_y < LAST then Inr 0 else Inl Assertion)"

section \<open>Operations\<close>

datatype op = Op opcode | Arg opcode noun

text \<open>
  A noun is compared with a small number as the word of its reference is: references to cells
  and to indirect atoms are above all direct atoms.
\<close>

fun noun_le :: "noun \<Rightarrow> nat \<Rightarrow> bool" where
  "noun_le (Atom a) k \<longleftrightarrow> a \<le> k"
| "noun_le (Cell h t) k \<longleftrightarrow> False"

lemma noun_le_Atom: "noun_le n k \<longleftrightarrow> (\<exists>a. n = Atom a \<and> a \<le> k)"
  by (cases n) auto

section \<open>Hints\<close>

text \<open>The tags of the hints that the compiler knows, four characters as a little-endian number.\<close>

abbreviation (input) c3__xray :: nat where "c3__xray \<equiv> 0x79617278"
abbreviation (input) c3__nara :: nat where "c3__nara \<equiv> 0x6172616e"
abbreviation (input) c3__hela :: nat where "c3__hela \<equiv> 0x616c6568"
abbreviation (input) c3__bout :: nat where "c3__bout \<equiv> 0x74756f62"
abbreviation (input) c3__hunk :: nat where "c3__hunk \<equiv> 0x6b6e7568"
abbreviation (input) c3__lose :: nat where "c3__lose \<equiv> 0x65736f6c"
abbreviation (input) c3__mean :: nat where "c3__mean \<equiv> 0x6e61656d"
abbreviation (input) c3__spot :: nat where "c3__spot \<equiv> 0x746f7073"
abbreviation (input) c3__live :: nat where "c3__live \<equiv> 0x6576696c"
abbreviation (input) c3__slog :: nat where "c3__slog \<equiv> 0x676f6c73"
abbreviation (input) c3__fast :: nat where "c3__fast \<equiv> 0x74736166"
abbreviation (input) c3__memo :: nat where "c3__memo \<equiv> 0x6f6d656d"
abbreviation (input) c3__nock :: nat where "c3__nock \<equiv> 0x6b636f6e"

end
