(* ===== verification/Nock_Comp.thy ===== *)
theory Nock_Comp
  imports Nock_Op
begin

text \<open>
  The compiler of \<^verbatim>\<open>nock.c\<close>: from a formula to a list of operations, in reverse order. \<open>los_o\<close> says
  whether the code removes its subject from the stack, \<open>tel_o\<close> whether it is in tail position. As in the
  code, the compiler conses to a given list and returns the number of operations that it added, and
  the lists of branches are welded in front.
\<close>

section \<open>Axes as atoms\<close>

text \<open>The words of an atom besides the top one, and the bits of the top one.\<close>

definition gal_w :: "nat \<Rightarrow> nat" where
  "gal_w a = (met0 a - 1) div 32"

definition u3r_met :: "nat \<Rightarrow> noun \<Rightarrow> nat jet" where
  "u3r_met a_y b = (case b of Cell _ _ \<Rightarrow> Inl Assertion
     | Atom b \<Rightarrow>
       if b = 0 then Inr 0
       else let col_w = met0 b - 32 * gal_w b in
         if a_y \<le> 2 then
           (if (2 ^ 32 - 1 - 35) div 32 < gal_w b then Inl Fail
            else Inr ((col_w + 32 * gal_w b + (2 ^ a_y - 1)) div 2 ^ a_y))
         else if a_y = 3 then Inr (4 * gal_w b + (col_w + 7) div 8)
         else if a_y = 4 then Inr (2 * gal_w b + (col_w + 15) div 16)
         else if a_y - 5 < 31 then Inr ((gal_w b + 1 + (2 ^ (a_y - 5) - 1)) div 2 ^ (a_y - 5))
         else Inl Undefined)"

definition u3r_bit :: "nat \<Rightarrow> noun \<Rightarrow> nat jet" where
  "u3r_bit a_w b = (case b of Cell _ _ \<Rightarrow> Inl Assertion
     | Atom b \<Rightarrow>
       if is_cat b then Inr (if 31 \<le> a_w then 0 else of_bool (bit b a_w))
       else let buf_w = nat_words b; vut_y = a_w mod 32; pix_w = a_w div 32 in
         Inr (if length buf_w \<le> pix_w then 0 else of_bool (bit (buf_w ! pix_w) vut_y)))"

definition u3qc_cap :: "noun \<Rightarrow> nat jet" where
  "u3qc_cap a = on_ok (u3r_met 0 a) (\<lambda>met_w.
     if met_w < 2 then Inl Exit
     else on_ok (u3r_bit (met_w - 2) a) (\<lambda>b. Inr (if b = 1 then 3 else 2)))"

section \<open>Formulas\<close>

text \<open>Whether a noun has the shape of a formula.\<close>

fun n_formulaic :: "noun \<Rightarrow> bool" where
  "n_formulaic (Atom a) \<longleftrightarrow> False"
| "n_formulaic (Cell (Cell p q) ar) \<longleftrightarrow> n_formulaic (Cell p q) \<and> n_formulaic ar"
| "n_formulaic (Cell (Atom cod) ar) \<longleftrightarrow>
     (if cod = 0 then \<not> u3a_is_cell ar
      else if cod = 1 then True
      else if cod = 3 \<or> cod = 4 then n_formulaic ar
      else if cod \<in> {2, 5, 7, 8, 12} then
        (case ar of Atom _ \<Rightarrow> False | Cell a b \<Rightarrow> n_formulaic a \<and> n_formulaic b)
      else if cod = 6 then
        (case ar of Cell a (Cell b c) \<Rightarrow> n_formulaic a \<and> (n_formulaic b \<or> n_formulaic c) | _ \<Rightarrow> False)
      else if cod = 9 then
        (case ar of Atom _ \<Rightarrow> False | Cell a b \<Rightarrow> \<not> u3a_is_cell a \<and> n_formulaic b)
      else if cod = 10 then
        (case ar of Cell (Cell (Atom _) a) b \<Rightarrow> n_formulaic a \<and> n_formulaic b | _ \<Rightarrow> False)
      else if cod = 11 then
        (case ar of Atom _ \<Rightarrow> False
         | Cell a b \<Rightarrow> n_formulaic b \<and>
             (case a of Atom _ \<Rightarrow> True | Cell (Atom _) c \<Rightarrow> n_formulaic c | Cell (Cell _ _) _ \<Rightarrow> False))
      else False)"

section \<open>Single operations\<close>

text \<open>The operations of a fragment and of a literal.\<close>

definition comp_frag :: "noun \<Rightarrow> bool \<Rightarrow> op list" where
  "comp_frag arg los =
     (if arg = Atom 0 then [Op BAIL]
      else if arg = Atom 1 then (if los then [] else [Op COPY])
      else if arg = Atom 2 then [Op (if los then HELD else HEAD)]
      else if arg = Atom 3 then [Op (if los then TALL else TAIL)]
      else [Arg (if los then (if noun_le arg 0xFF then FABL else if noun_le arg 0xFFFF then FASL else FIBL)
                 else (if noun_le arg 0xFF then FABK else if noun_le arg 0xFFFF then FASK else FIBK)) arg])"

definition comp_lit :: "noun \<Rightarrow> bool \<Rightarrow> op" where
  "comp_lit arg los =
     (if arg = Atom 0 then Op (if los then LIL0 else LIT0)
      else if arg = Atom 1 then Op (if los then LIL1 else LIT1)
      else Arg (if los then (if noun_le arg 0xFF then LILB else if noun_le arg 0xFFFF then LILS else LIBL)
                else (if noun_le arg 0xFF then LITB else if noun_le arg 0xFFFF then LITS else LIBK)) arg)"

text \<open>The comparison of the top of the stack with a literal.\<close>

definition comp_same :: "noun \<Rightarrow> op" where
  "comp_same lit =
     (if lit = Atom 0 then Op SAM0
      else if lit = Atom 1 then Op SAM1
      else Arg (if noun_le lit 0xFF then SAMB else if noun_le lit 0xFFFF then SAMS else SANB) lit)"

text \<open>The edit of a noun at an axis.\<close>

definition comp_edit :: "noun \<Rightarrow> bool \<Rightarrow> op" where
  "comp_edit axe los =
     (if axe = Atom 2 then Op (if los then MUTH else KUTH)
      else if axe = Atom 3 then Op (if los then MUTT else KUTT)
      else if axe = Atom 6 then Op (if los then MUSM else KUSM)
      else Arg (if los then (if noun_le axe 0xFF then MUTB else if noun_le axe 0xFFFF then MUTS else MITB)
                else (if noun_le axe 0xFF then KUTB else if noun_le axe 0xFFFF then KUTS else KITB)) axe)"

text \<open>The dispatch of static and dynamic hints.\<close>

definition is_fore :: "noun \<Rightarrow> bool" where
  "is_fore tag \<longleftrightarrow> tag \<in> {Atom c3__xray, Atom c3__nara, Atom c3__hela, Atom c3__bout}"

definition is_tace :: "noun \<Rightarrow> bool" where
  "is_tace tag \<longleftrightarrow> tag \<in> {Atom c3__hunk, Atom c3__lose, Atom c3__mean, Atom c3__spot}"

section \<open>The compiler\<close>

text \<open>
  The formula that a call of an arm outside of the battery is compiled as. It is larger than the
  call; \<open>weight\<close> is the measure by which the compiler still returns.
\<close>

definition kick_mac :: "noun \<Rightarrow> noun \<Rightarrow> noun" where
  "kick_mac hed tel =
     u3nc (Atom 7) (u3nc tel (u3nc (Atom 2) (u3nt (u3nc (Atom 0) (Atom 1)) (Atom 0) hed)))"

fun weight :: "noun \<Rightarrow> nat" where
  "weight (Atom a) = (if a = 9 then 20 else 1)"
| "weight (Cell h t) = weight h + weight t + 1"

lemma weight_pos [simp]: "0 < weight n"
  by (cases n) simp_all

definition kick_is_mac :: "noun \<Rightarrow> bool jet" where
  "kick_is_mac hed = (if hed = Atom 1 then Inr True else on_ok (u3qc_cap hed) (\<lambda>c. Inr (c = 3)))"

function n_comp :: "op list \<Rightarrow> noun \<Rightarrow> bool \<Rightarrow> bool \<Rightarrow> (nat \<times> op list) jet"
  and n_bint :: "op list \<Rightarrow> noun \<Rightarrow> noun \<Rightarrow> bool \<Rightarrow> bool \<Rightarrow> (nat \<times> op list) jet"
where
  "n_comp ops fol los tel_o = on_ok (u3x_cell fol) (\<lambda>(cod, arg).
     if u3a_is_cell cod then
       on_ok (n_comp ops cod False False) (\<lambda>(a, ops).
       on_ok (n_comp (Op SWAP # ops) arg False False) (\<lambda>(b, ops).
       Inr (a + 1 + b + 1, Op (if los then AULT else AUTO) # ops)))
     else if cod = Atom 0 then
       (if u3a_is_cell arg then Inl Exit
        else Inr (length (comp_frag arg los), comp_frag arg los @ ops))
     else if cod = Atom 1 then Inr (1, comp_lit arg los # ops)
     else if cod = Atom 2 then on_ok (u3x_cell arg) (\<lambda>(hed, tel).
       on_ok (n_comp ops hed False False) (\<lambda>(a, ops).
       on_ok (n_comp (Op SWAP # ops) tel False False) (\<lambda>(b, ops).
       Inr (a + 1 + b + 1, Op (if tel_o then NOCT else if los then NOLK else NOCK) # ops))))
     else if cod = Atom 3 then
       on_ok (n_comp ops arg los False) (\<lambda>(a, ops). Inr (a + 1, Op DEEP # ops))
     else if cod = Atom 4 then
       on_ok (n_comp ops arg los False) (\<lambda>(a, ops). Inr (a + 1, Op BUMP # ops))
     else if cod = Atom 5 then on_ok (u3x_cell arg) (\<lambda>(hed, tel).
       on_ok (u3x_cell hed) (\<lambda>(hhed, thed).
       on_ok (u3x_cell tel) (\<lambda>(htel, ttel).
         let hec_t = (hhed = Atom 1); tec_t = (htel = Atom 1) in
         if hec_t \<and> tec_t then
           Inr (1, Op (if thed = ttel then (if los then LIL0 else LIT0) else (if los then LIL1 else LIT1)) # ops)
         else if \<not> hec_t \<and> \<not> tec_t then
           on_ok (n_comp ops hed False False) (\<lambda>(a, ops).
           on_ok (n_comp (Op SWAP # ops) tel False False) (\<lambda>(b, ops).
           Inr (a + 1 + b + 1, Op (if los then SALM else SAME) # ops)))
         else
           on_ok (n_comp ops (if hec_t then tel else hed) los False) (\<lambda>(a, ops).
           Inr (a + 1, comp_same (if hec_t then thed else ttel) # ops)))))
     else if cod = Atom 6 then on_ok (u3x_trel arg) (\<lambda>(hed, mid, tel).
       on_ok (n_comp ops hed False False) (\<lambda>(a, ops).
         let yep_t = n_formulaic mid; nop_t = n_formulaic tel in
         if \<not> yep_t \<and> \<not> nop_t then Inl Exit
         else
           on_ok (if yep_t then n_comp [] mid los tel_o else Inr (1, [Op BAIL])) (\<lambda>(yep_w, yep).
           on_ok (if nop_t then n_comp [] tel los tel_o else Inr (1, [Op BAIL])) (\<lambda>(nop_w, nop).
           Inr (a + 1 + (yep_w + 1) + nop_w,
             nop @ (Arg SBIP (Atom nop_w) # yep) @ (Arg SBIN (Atom (yep_w + 1)) # ops))))))
     else if cod = Atom 7 then on_ok (u3x_cell arg) (\<lambda>(hed, tel).
       on_ok (n_comp ops hed los False) (\<lambda>(a, ops).
       on_ok (n_comp ops tel True tel_o) (\<lambda>(b, ops). Inr (a + b, ops))))
     else if cod = Atom 8 then on_ok (u3x_cell arg) (\<lambda>(hed, tel).
       on_ok (n_comp ops hed False False) (\<lambda>(a, ops).
       on_ok (n_comp (Op (if los then SNOL else SNOC) # ops) tel True tel_o) (\<lambda>(b, ops).
       Inr (a + 1 + b, ops))))
     else if cod = Atom 9 then on_ok (u3x_cell arg) (\<lambda>(hed, tel).
       on_ok (kick_is_mac hed) (\<lambda>mac.
         if mac then n_comp ops (kick_mac hed tel) los tel_o
         else
           on_ok (n_comp ops tel (if tel_o then True else los) False) (\<lambda>(a, ops).
           Inr (a + 1, Arg (if tel_o then TICB else KICB) hed # ops))))
     else if cod = Atom 10 then on_ok (u3x_cell arg) (\<lambda>(hed, tel).
       on_ok (u3x_cell hed) (\<lambda>(axe, nef).
       on_ok (n_comp ops tel False False) (\<lambda>(a, ops).
       on_ok (n_comp (Op SWAP # ops) nef False False) (\<lambda>(b, ops).
       Inr (a + 1 + b + 1, comp_edit axe los # ops)))))
     else if cod = Atom 11 then on_ok (u3x_cell arg) (\<lambda>(hed, tel). n_bint ops hed tel los tel_o)
     else if cod = Atom 12 then on_ok (u3x_cell arg) (\<lambda>(hed, tel).
       on_ok (n_comp ops hed False False) (\<lambda>(a, ops).
       on_ok (n_comp (Op SWAP # ops) tel False False) (\<lambda>(b, ops).
       Inr (a + 1 + b + 1, Op (if los then WILS else WISH) # ops))))
     else Inl Exit)"
| "n_bint ops hif nef los tel_o =
     (if \<not> u3a_is_cell hif then
        (if is_fore hif then
           on_ok (n_comp [] nef los False) (\<lambda>(nef_w, fen).
             let fen = Arg SBIP (Atom 1) # Op (if los then HILL else HILK) # fen; nef_w = nef_w + 1 + 1;
                 ops = Arg SBIN (Atom nef_w) # Arg HILB (u3nc hif nef) # ops in
             Inr (2 + nef_w + 1, Op (if los then TOSS else SWAP) # fen @ ops))
         else n_comp ops nef los tel_o)
      else on_ok (u3x_cell hif) (\<lambda>(zep, hod).
        if is_tace zep then
          on_ok (n_comp ops hod False False) (\<lambda>(a, ops).
          on_ok (n_comp (Arg BUSH zep # ops) nef los False) (\<lambda>(b, ops).
          Inr (a + 1 + b + 1, Op DROP # ops)))
        else if zep = Atom c3__live then
          on_ok (n_comp ops hod False False) (\<lambda>(a, ops).
          on_ok (n_comp (Op HECK # ops) nef los tel_o) (\<lambda>(b, ops). Inr (a + 1 + b, ops)))
        else if zep = Atom c3__slog then
          on_ok (n_comp ops hod False False) (\<lambda>(a, ops).
          on_ok (n_comp (Op SLOG # ops) nef los tel_o) (\<lambda>(b, ops). Inr (a + 1 + b, ops)))
        else if zep = Atom c3__fast then
          on_ok (n_comp ops hod False False) (\<lambda>(a, ops).
          on_ok (n_comp (Op SWAP # ops) nef False False) (\<lambda>(b, ops).
          Inr (a + 1 + b + 1, Op (if los then BALT else BAST) # ops)))
        else if zep = Atom c3__memo then
          on_ok (n_comp ops hod False False) (\<lambda>(a, ops).
          on_ok (n_comp [] nef True False) (\<lambda>(mem_w, mem).
            let mem = Op SAVE # mem; mem_w = mem_w + 1;
                ops = Arg (if los then SLIB else SKIB) (u3nc (Atom mem_w) nef) # Op TOSS # ops in
            Inr (a + 1 + 1 + mem_w, mem @ ops)))
        else if is_fore zep then
          on_ok (n_comp [] nef los False) (\<lambda>(nef_w, fen).
            let fen = Arg SBIP (Atom 1) # Op (if los then HINL else HINK) # fen; nef_w = nef_w + 1 + 1 in
            on_ok (n_comp ops hod False False) (\<lambda>(a, ops).
            let ops = Arg SBIN (Atom nef_w) # Arg HINB (u3nc zep nef) # ops in
            Inr (a + 2 + nef_w + 1, Op (if los then TOSS else SWAP) # fen @ ops)))
        else
          on_ok (n_comp ops hod False False) (\<lambda>(a, ops).
          on_ok (n_comp (Op TOSS # ops) nef los tel_o) (\<lambda>(b, ops). Inr (a + 1 + b, ops)))))"
  by pat_completeness auto

termination
  by (relation "measure (\<lambda>x. case x of Inl (ops, fol, los, tel_o) \<Rightarrow> weight fol
        | Inr (ops, hif, nef, los, tel_o) \<Rightarrow> weight hif + weight nef)")
    (auto simp: access_Inr kick_mac_def split: if_splits)

declare n_comp.simps [simp del] n_bint.simps [simp del]

end
