(* ===== verification/Nock_Prog.thy ===== *)
theory Nock_Prog
  imports Nock_Comp
begin

text \<open>
  The assembler of \<^verbatim>\<open>nock.c\<close>. \<^verbatim>\<open>_n_melt\<close> measures a list of operations, last operation first, and
  turns the skips from numbers of operations into numbers of bytes; \<^verbatim>\<open>_n_prog_asm\<close> writes the
  bytes, from the end of the buffer, and fills the tables of literals, memo slots, call sites and
  registration sites that the bytes index.
\<close>

section \<open>Programs\<close>

record u3n_memo =
  sip_l :: nat
  memo_key :: noun

text \<open>
  Of a call site only the axis is kept: the cache of a site holds what is known of the core that it
  was last used with. A registration site starts empty, so their number is enough.
\<close>

record u3n_prog =
  ops_y :: "nat list"
  non :: "noun list"
  sot_u :: "u3n_memo list"
  sit_u :: "noun list"
  rit_u :: nat

section \<open>Measuring\<close>

record melt =
  melt_sip :: "nat list"
  byc_w :: nat
  cal_w :: nat
  reg_w :: nat
  lit_w :: nat
  mem_w :: nat

text \<open>An argument that is a number; the code would take the reference of another noun for one.\<close>

definition arg_num :: "noun \<Rightarrow> nat jet" where
  "arg_num n = (case n of Atom a \<Rightarrow> Inr a | Cell _ _ \<Rightarrow> Inl Undefined)"

text \<open>The size of an instruction with an index.\<close>

definition inx_size :: "nat \<Rightarrow> nat jet" where
  "inx_size a_w = (if a_w \<le> 0xFF then Inr 2 else if a_w \<le> 0xFFFF then Inr 3 else Inl Assertion)"

text \<open>The bytes of the next operations, whose sizes are known already.\<close>

definition skip_size :: "nat \<Rightarrow> nat list \<Rightarrow> nat jet" where
  "skip_size sip siz_y = (if length siz_y < sip then Inl Undefined else Inr (sum_list (take sip siz_y) mod 2 ^ 32))"

definition melt_op :: "op \<Rightarrow> nat list \<Rightarrow> melt \<Rightarrow> (nat \<times> melt) jet" where
  "melt_op oper siz_y m = (case oper of
     Op cod \<Rightarrow>
       if cod \<in> {BAST, BALT} then
         on_ok (inx_size (reg_w m)) (\<lambda>s. Inr (s, m\<lparr>reg_w := reg_w m + 1\<rparr>))
       else Inr (1, m)
   | Arg cod arg \<Rightarrow>
       if cod \<in> {SBIP, SBIN} then
         on_ok (arg_num arg) (\<lambda>sip. on_ok (skip_size sip siz_y) (\<lambda>tot_l.
           Inr (if tot_l \<le> 0xFF then 2 else if tot_l \<le> 0xFFFF then 3 else 5, m\<lparr>melt_sip := tot_l # melt_sip m\<rparr>)))
       else if cod \<in> {SKIB, SLIB} then
         on_ok (u3h arg) (\<lambda>h. on_ok (arg_num h) (\<lambda>sip. on_ok (skip_size sip siz_y) (\<lambda>tot_l.
         on_ok (inx_size (mem_w m)) (\<lambda>s.
           Inr (s, m\<lparr>melt_sip := tot_l # melt_sip m, mem_w := mem_w m + 1\<rparr>)))))
       else if cod \<in> {SIPS, SINS, SWIP, SWIN, SAST, SALT, KICS, TICS, FISK, FISL, SUSH, SANS, LISL, LISK,
           SKIS, SLIS, HILS, HINS} then Inl Assertion
       else if cod \<in> {KICB, TICB} then
         on_ok (inx_size (cal_w m)) (\<lambda>s. Inr (s, m\<lparr>cal_w := cal_w m + 1\<rparr>))
       else if cod \<in> {BUSH, FIBK, FIBL, SANB, LIBL, LIBK, KITB, MITB, HILB, HINB} then
         on_ok (inx_size (lit_w m)) (\<lambda>s. Inr (s, m\<lparr>lit_w := lit_w m + 1\<rparr>))
       else on_ok (n_arg cod) (\<lambda>n. Inr (1 + n, m)))"

fun melt_loop :: "op list \<Rightarrow> nat list \<Rightarrow> melt \<Rightarrow> melt jet" where
  "melt_loop [] siz_y m = Inr m"
| "melt_loop (oper # ops) siz_y m = on_ok (melt_op oper siz_y m) (\<lambda>(s, m).
     melt_loop ops (s # siz_y) (m\<lparr>byc_w := (byc_w m + s) mod 2 ^ 32\<rparr>))"

definition n_melt :: "op list \<Rightarrow> melt \<Rightarrow> melt jet" where
  "n_melt ops m = on_ok (melt_loop ops [] m) (\<lambda>m. Inr (m\<lparr>melt_sip := rev (melt_sip m)\<rparr>))"

section \<open>Assembling\<close>

text \<open>
  The buffer is written downwards: of its bytes, the first \<open>i_w\<close> are not written yet, the others are
  \<open>ops_y\<close>. The bytes of an instruction are given in their final order.
\<close>

record asm =
  i_w :: nat
  asm_prog :: u3n_prog
  asm_sip :: "nat list"

definition asm_put :: "nat list \<Rightarrow> asm \<Rightarrow> asm jet" where
  "asm_put bs s =
     (if i_w s < length bs then Inl Undefined
      else Inr (s\<lparr>i_w := i_w s - length bs, asm_prog := asm_prog s\<lparr>ops_y := bs @ ops_y (asm_prog s)\<rparr>\<rparr>))"

definition n_prog_asm_inx :: "nat \<Rightarrow> opcode \<Rightarrow> asm \<Rightarrow> asm jet" where
  "n_prog_asm_inx inx_s cod =
     (if inx_s \<le> 0xFF then asm_put [cod, inx_s]
      else asm_put [cod + 1, inx_s mod 0x100, inx_s div 0x100 mod 0x100])"

definition asm_sip_pop :: "asm \<Rightarrow> (nat \<times> asm) jet" where
  "asm_sip_pop s = (case asm_sip s of [] \<Rightarrow> Inl Exit | sip # sips \<Rightarrow> Inr (sip, s\<lparr>asm_sip := sips\<rparr>))"

definition asm_skip :: "nat \<Rightarrow> opcode \<Rightarrow> asm \<Rightarrow> asm jet" where
  "asm_skip sip cod =
     (if sip \<le> 0xFF then asm_put [cod, sip]
      else if sip \<le> 0xFFFF then asm_put [cod + 1, sip mod 0x100, sip div 0x100]
      else asm_put [cod + 2, sip mod 0x100, sip div 0x100 mod 0x100, sip div 0x10000 mod 0x100, sip div 0x1000000 mod 0x100])"

definition asm_op :: "op \<Rightarrow> asm \<Rightarrow> asm jet" where
  "asm_op oper s = (case oper of
     Op cod \<Rightarrow>
       if cod \<in> {BAST, BALT} then
         on_ok (n_prog_asm_inx (rit_u (asm_prog s)) cod s) (\<lambda>s.
           Inr (s\<lparr>asm_prog := asm_prog s\<lparr>rit_u := rit_u (asm_prog s) + 1\<rparr>\<rparr>))
       else asm_put [cod mod 0x100] s
   | Arg cod arg \<Rightarrow>
       if cod \<in> {SKIB, SLIB} then
         on_ok (asm_sip_pop s) (\<lambda>(sip, s).
         on_ok (n_prog_asm_inx (length (sot_u (asm_prog s))) cod s) (\<lambda>s.
         on_ok (u3t arg) (\<lambda>k.
           Inr (s\<lparr>asm_prog := asm_prog s\<lparr>sot_u := sot_u (asm_prog s) @ [\<lparr>sip_l = sip, memo_key = k\<rparr>]\<rparr>\<rparr>))))
       else if cod \<in> {SBIP, SBIN} then
         on_ok (asm_sip_pop s) (\<lambda>(sip, s). asm_skip sip cod s)
       else if cod \<in> {FABK, FABL, LITB, LILB, MUTB, KUTB, SAMB} then
         on_ok (arg_num arg) (\<lambda>a. asm_put [cod, a mod 0x100] s)
       else if cod \<in> {FASK, FASL, LILS, LITS, MUTS, KUTS, SAMS, SIPS, SINS} then
         on_ok (arg_num arg) (\<lambda>a. asm_put [cod, a mod 0x100, a div 0x100 mod 0x100] s)
       else if cod \<in> {SWIP, SWIN} then
         on_ok (arg_num arg) (\<lambda>a.
           asm_put [cod, a mod 0x100, a div 0x100 mod 0x100, a div 0x10000 mod 0x100, a div 0x1000000 mod 0x100] s)
       else if cod \<in> {FIBK, FIBL, LIBK, LIBL, BUSH, SANB, KITB, MITB, HILB, HINB} then
         on_ok (n_prog_asm_inx (length (non (asm_prog s))) cod s) (\<lambda>s.
           Inr (s\<lparr>asm_prog := asm_prog s\<lparr>non := non (asm_prog s) @ [arg]\<rparr>\<rparr>))
       else if cod \<in> {TICB, KICB} then
         on_ok (n_prog_asm_inx (length (sit_u (asm_prog s))) cod s) (\<lambda>s.
           Inr (s\<lparr>asm_prog := asm_prog s\<lparr>sit_u := sit_u (asm_prog s) @ [arg]\<rparr>\<rparr>))
       else Inl Assertion)"

fun asm_loop :: "op list \<Rightarrow> asm \<Rightarrow> asm jet" where
  "asm_loop [] s = (if 0 < i_w s then Inl Exit else if asm_sip s = [] then Inr s else Inl Assertion)"
| "asm_loop (oper # ops) s =
     (if 0 < i_w s then on_ok (asm_op oper s) (asm_loop ops) else Inl Assertion)"

definition n_prog_asm :: "op list \<Rightarrow> nat \<Rightarrow> nat list \<Rightarrow> u3n_prog jet" where
  "n_prog_asm ops len_w sip =
     (if len_w = 0 then Inl Undefined
      else on_ok (asm_loop ops \<lparr>i_w = len_w - 1,
          asm_prog = \<lparr>ops_y = [HALT], non = [], sot_u = [], sit_u = [], rit_u = 0\<rparr>, asm_sip = sip\<rparr>)
        (\<lambda>s. Inr (asm_prog s)))"

definition n_prog_from_ops :: "op list \<Rightarrow> u3n_prog jet" where
  "n_prog_from_ops ops =
     on_ok (n_melt ops \<lparr>melt_sip = [], byc_w = 1, cal_w = 0, reg_w = 0, lit_w = 0, mem_w = 0\<rparr>)
       (\<lambda>m. n_prog_asm ops (byc_w m) (melt_sip m))"

definition n_bite :: "noun \<Rightarrow> u3n_prog jet" where
  "n_bite fol = on_ok (n_comp [] fol True True) (\<lambda>(tot_w, ops). n_prog_from_ops ops)"

end
