(* ===== verification/Nock_Hint.thy ===== *)
theory Nock_Hint
  imports Nock_Prog
begin

text \<open>
  What the bytecode interpreter of \<^verbatim>\<open>nock.c\<close> touches besides its stack: the caches of programs and of
  memoized products, the trace stack, the clock, the console and the jet dashboard; and the
  handlers of hints, with the printer of bytecode.

  The dashboard of \<^verbatim>\<open>jets.c\<close>, the answers of the namespace and the clock are arguments of the
  interpreter. \<open>u3j_site_kick\<close> either returns a product or says under which label the program of the arm
  is to be looked up; \<open>u3j_rite_mine\<close> registers a core.
\<close>

section \<open>The world of the interpreter\<close>

datatype notice = Heck_note noun | Slog_note noun | Took_note nat | Bytecode_note string
  | Cap_took_note nat noun nat | Trace_note nat noun | Nara_note nat | Hela_note nat
  | Cap_bytecode_note nat noun string

text \<open>
  The roads are the tables of programs of the current road and of its parents. \<open>memo\<close> is the table of
  the current road. \<open>ticks\<close> counts the readings of the clock, \<open>jed\<close> is the state of the dashboard.
\<close>

record 'j world =
  tax :: "noun list"
  roads :: "(noun \<Rightarrow> u3n_prog option) list"
  memo :: "noun \<Rightarrow> noun option"
  slogs :: "notice list"
  ticks :: nat
  jed :: 'j

record 'j env =
  quiet :: bool
  home :: bool
  clock :: "nat \<Rightarrow> nat"
  u3m_soft_esc :: "noun \<Rightarrow> noun \<Rightarrow> noun jet"
  u3j_site_kick :: "'j \<Rightarrow> noun \<Rightarrow> noun \<Rightarrow> ((noun + noun) \<times> 'j) jet"
  u3j_rite_mine :: "'j \<Rightarrow> noun \<Rightarrow> noun \<Rightarrow> 'j jet"
  trim :: "(noun \<Rightarrow> noun option) \<Rightarrow> noun \<Rightarrow> noun option"

definition note_it :: "notice \<Rightarrow> 'j world \<Rightarrow> 'j world" where
  "note_it n w = w\<lparr>slogs := slogs w @ [n]\<rparr>"

definition u3t_push :: "noun \<Rightarrow> 'j world \<Rightarrow> 'j world" where
  "u3t_push mon w = w\<lparr>tax := mon # tax w\<rparr>"

definition u3t_drop :: "'j world \<Rightarrow> 'j world jet" where
  "u3t_drop w = (case tax w of [] \<Rightarrow> Inl Assertion | _ # tac \<Rightarrow> Inr (w\<lparr>tax := tac\<rparr>))"

definition u3t_trace_time :: "'j env \<Rightarrow> 'j world \<Rightarrow> nat \<times> 'j world" where
  "u3t_trace_time env w = (clock env (ticks w), w\<lparr>ticks := ticks w + 1\<rparr>)"

text \<open>
  The memo table is a cache: after an insertion it may drop entries (\<open>trim\<close>).
\<close>

definition u3z_find_m :: "nat \<Rightarrow> noun \<Rightarrow> 'j world \<Rightarrow> noun option" where
  "u3z_find_m fn one w = memo w (u3nc (Atom fn) one)"

definition u3z_save_m :: "'j env \<Rightarrow> nat \<Rightarrow> noun \<Rightarrow> noun \<Rightarrow> 'j world \<Rightarrow> 'j world" where
  "u3z_save_m env fn one val w = w\<lparr>memo := trim env ((memo w)(u3nc (Atom fn) one \<mapsto> val))\<rparr>"

section \<open>The cache of programs\<close>

fun road_git :: "(noun \<Rightarrow> u3n_prog option) list \<Rightarrow> noun \<Rightarrow> u3n_prog option" where
  "road_git [] key = None"
| "road_git (har # hars) key = (case har key of None \<Rightarrow> road_git hars key | Some pog \<Rightarrow> Some pog)"

definition road_put :: "noun \<Rightarrow> u3n_prog \<Rightarrow> 'j world \<Rightarrow> 'j world" where
  "road_put key pog w = w\<lparr>roads := (hd (roads w))(key \<mapsto> pog) # tl (roads w)\<rparr>"

text \<open>
  A program of a parent road is copied (\<^verbatim>\<open>_n_prog_old\<close>), without what its call sites have cached.
\<close>

definition n_find :: "noun \<Rightarrow> noun \<Rightarrow> 'j world \<Rightarrow> (u3n_prog \<times> 'j world) jet" where
  "n_find pre fol w = (let key = u3nc pre fol in
     case hd (roads w) key of Some pog \<Rightarrow> Inr (pog, w)
     | None \<Rightarrow> (case road_git (tl (roads w)) key of
         Some pog \<Rightarrow> Inr (pog, road_put key pog w)
       | None \<Rightarrow> on_ok (n_bite fol) (\<lambda>gop. Inr (gop, road_put key gop w))))"

section \<open>Printing bytecode\<close>

definition opcode_names :: "string list" where
  "opcode_names =
    [''halt'', ''bail'', ''copy'', ''swap'', ''toss'', ''auto'', ''ault'', ''snoc'', ''snol'', ''head'',
    ''held'', ''tail'', ''tall'', ''fabk'', ''fask'', ''fibk'', ''fisk'', ''fabl'', ''fasl'', ''fibl'',
    ''fisl'', ''lit0'', ''lit1'', ''litb'', ''lits'', ''libk'', ''lisk'', ''lil0'', ''lil1'', ''lilb'',
    ''lils'', ''libl'', ''lisl'', ''nolk'', ''noct'', ''nock'', ''deep'', ''bump'', ''sam0'', ''sam1'',
    ''samb'', ''sams'', ''sanb'', ''sans'', ''same'', ''salm'', ''samc'', ''sbip'', ''sips'', ''swip'',
    ''sbin'', ''sins'', ''swin'', ''kicb'', ''kics'', ''ticb'', ''tics'', ''wils'', ''wish'', ''bush'',
    ''sush'', ''drop'', ''heck'', ''slog'', ''bast'', ''sast'', ''balt'', ''salt'', ''skib'', ''skis'',
    ''slib'', ''slis'', ''save'', ''hilb'', ''hils'', ''hinb'', ''hins'', ''hilk'', ''hill'', ''hink'',
    ''hinl'', ''muth'', ''kuth'', ''mutt'', ''kutt'', ''musm'', ''kusm'', ''mutb'', ''muts'', ''mitb'',
    ''mits'', ''kutb'', ''kuts'', ''kitb'', ''kits'']"

fun cn_intlen :: "nat \<Rightarrow> nat" where
  "cn_intlen num_w = (if num_w = 0 then 0 else cn_intlen (num_w div 10) + 1)"

declare cn_intlen.simps [simp del]

definition cn_is_indexed :: "opcode \<Rightarrow> bool" where
  "cn_is_indexed bop_w \<longleftrightarrow> bop_w \<in> {FIBK, FISK, FIBL, FISL, LIBK, LISK, LIBL, LISL, BUSH, SUSH, SANB, SANS,
     KITB, KITS, MITB, MITS, HILB, HILS, HINB, HINS}"

text \<open>Reading bytes, with the index behind them.\<close>

definition n_byte :: "nat list \<Rightarrow> nat \<Rightarrow> (nat \<times> nat) jet" where
  "n_byte buf ip = (if ip < length buf then Inr (buf ! ip, ip + 1) else Inl Undefined)"

definition n_resh :: "nat list \<Rightarrow> nat \<Rightarrow> (nat \<times> nat) jet" where
  "n_resh buf ip = on_ok (n_byte buf ip) (\<lambda>(les, ip). on_ok (n_byte buf ip) (\<lambda>(mos, ip).
     Inr (les + 0x100 * mos, ip)))"

definition n_rewo :: "nat list \<Rightarrow> nat \<Rightarrow> (nat \<times> nat) jet" where
  "n_rewo buf ip = on_ok (n_byte buf ip) (\<lambda>(one, ip). on_ok (n_byte buf ip) (\<lambda>(two, ip).
     on_ok (n_byte buf ip) (\<lambda>(tre, ip). on_ok (n_byte buf ip) (\<lambda>(qua, ip).
     Inr (one + 0x100 * two + 0x10000 * tre + 0x1000000 * qua, ip)))))"

definition cn_pog_to_num :: "nat \<Rightarrow> nat list \<Rightarrow> nat \<Rightarrow> (nat \<times> nat) jet" where
  "cn_pog_to_num par_w pog_y ip =
     (if par_w = 4 then n_rewo pog_y ip else if par_w = 2 then n_resh pog_y ip else n_byte pog_y ip)"

text \<open>One instruction: its opcode, the size of its argument, the argument and the index behind it.\<close>

definition etch_next :: "nat list \<Rightarrow> nat \<Rightarrow> (opcode \<times> nat \<times> nat \<times> nat) jet" where
  "etch_next pog_y ip = on_ok (n_byte pog_y ip) (\<lambda>(bop_w, ip). on_ok (n_arg bop_w) (\<lambda>par_w.
     if 0 < par_w then on_ok (cn_pog_to_num par_w pog_y ip) (\<lambda>(num_w, ip). Inr (bop_w, par_w, num_w, ip))
     else Inr (bop_w, par_w, 0, ip)))"

lemma n_byte_next: "n_byte buf ip = Inr (b, ip') \<Longrightarrow> ip < ip' \<and> ip' \<le> length buf"
  by (auto simp: n_byte_def split: if_splits)

lemma etch_next_next: "etch_next pog_y ip = Inr (bop_w, par_w, num_w, ip') \<Longrightarrow> ip < ip' \<and> ip' \<le> length pog_y"
  by (auto simp: etch_next_def cn_pog_to_num_def n_resh_def n_rewo_def on_ok_eq_Inr dest!: n_byte_next split: if_splits)

text \<open>The first loop counts the characters.\<close>

function etch_len :: "nat list \<Rightarrow> nat \<Rightarrow> nat \<Rightarrow> nat jet" where
  "etch_len pog_y ip len_c =
     (if ip < length pog_y then
        on_ok (etch_next pog_y ip) (\<lambda>(bop_w, par_w, num_w, ip).
          etch_len pog_y ip (len_c + 5 + (if 0 < par_w
            then 3 + (if cn_is_indexed bop_w then 2 else 0) + cn_intlen num_w else 0)))
      else Inr len_c)"
  by pat_completeness auto
termination
  by (relation "measure (\<lambda>(pog_y, ip, len_c). length pog_y - ip)") (auto dest!: etch_next_next)

declare etch_len.simps [simp del]

text \<open>The second loop prints. A number is written over a run of underscores, lowest digit last.\<close>

fun etch_digits :: "nat \<Rightarrow> string" where
  "etch_digits num_w = (if num_w = 0 then [] else etch_digits (num_w div 10) @ [char_of (num_w mod 10 + 48)])"

declare etch_digits.simps [simp del]

definition etch_op :: "opcode \<Rightarrow> nat \<Rightarrow> nat \<Rightarrow> string" where
  "etch_op bop_w par_w num_w =
     '' '' @ (if 0 < par_w then ''['' else []) @ take 4 (opcode_names ! bop_w) @
     (if 0 < par_w then '' '' @ (if cn_is_indexed bop_w then ''i:'' else []) @
        (if num_w = 0 then ''0'' else etch_digits num_w) @ '']'' else [])"

function etch_loop :: "nat list \<Rightarrow> nat \<Rightarrow> string \<Rightarrow> string jet" where
  "etch_loop pog_y ip str_c =
     (if ip < length pog_y then
        on_ok (etch_next pog_y ip) (\<lambda>(bop_w, par_w, num_w, ip).
          etch_loop pog_y ip (str_c @ etch_op bop_w par_w num_w))
      else Inr str_c)"
  by pat_completeness auto
termination
  by (relation "measure (\<lambda>(pog_y, ip, str_c). length pog_y - ip)") (auto dest!: etch_next_next)

declare etch_loop.simps [simp del]

text \<open>
  The string is built in an array of the counted length. What does not fit, with the null character
  behind it, is written outside of the array.
\<close>

definition cn_etch_bytecode :: "noun \<Rightarrow> string jet" where
  "cn_etch_bytecode fol = on_ok (n_bite fol) (\<lambda>pog_u. on_ok (etch_len (ops_y pog_u) 0 1) (\<lambda>len_c.
     on_ok (etch_loop (ops_y pog_u) 0 []) (\<lambda>str_c.
       let str_c = ''{'' @ tl str_c @ ''}'' in if length str_c + 1 \<le> len_c then Inr str_c else Inl Undefined)))"

section \<open>Hints\<close>

text \<open>\<^verbatim>\<open>u3ka_sub\<close> on times; it bails when the result is negative.\<close>

definition time_sub :: "nat \<Rightarrow> noun \<Rightarrow> nat jet" where
  "time_sub now tim = (case tim of Cell _ _ \<Rightarrow> Inl Assertion
     | Atom t \<Rightarrow> if now < t then Inl Exit else Inr (now - t))"

definition n_hilt_fore :: "'j env \<Rightarrow> noun \<Rightarrow> noun \<Rightarrow> 'j world \<Rightarrow> (bool \<times> noun \<times> 'j world) jet" where
  "n_hilt_fore env hin bus w = on_ok (u3x_cell hin) (\<lambda>(tag, fol).
     if tag = Atom c3__bout then
       (let (now, w) = u3t_trace_time env w in Inr (True, u3nc tag (Atom now), w))
     else if tag = Atom c3__nara then Inr (True, u3_nul, note_it (Nara_note 0) w)
     else if tag = Atom c3__hela then Inr (True, u3_nul, note_it (Hela_note 0) w)
     else if tag = Atom c3__xray then
       on_ok (cn_etch_bytecode fol) (\<lambda>str_c. Inr (True, u3_nul, note_it (Bytecode_note str_c) w))
     else Inr (True, u3_nul, w))"

definition n_hilt_hind :: "'j env \<Rightarrow> noun \<Rightarrow> noun \<Rightarrow> 'j world \<Rightarrow> 'j world jet" where
  "n_hilt_hind env tok pro w =
     (case u3r_cell tok of
        Some (p_tok, q_tok) \<Rightarrow>
          if p_tok = Atom c3__bout then
            (let (now, w) = u3t_trace_time env w in
             on_ok (time_sub now q_tok) (\<lambda>delta. Inr (note_it (Took_note delta) w)))
          else Inl Assertion
      | None \<Rightarrow> if tok = u3_nul then Inr w else Inl Assertion)"

text \<open>The priority of a message, zero unless it is a direct atom.\<close>

definition pri_l :: "noun \<Rightarrow> nat" where
  "pri_l pri = (case pri of Atom a \<Rightarrow> if is_cat a then a else 0 | Cell _ _ \<Rightarrow> 0)"

definition n_hint_fore :: "'j env \<Rightarrow> noun \<Rightarrow> noun \<Rightarrow> noun \<Rightarrow> 'j world \<Rightarrow> (bool \<times> noun \<times> 'j world) jet" where
  "n_hint_fore env hin bus clu w = on_ok (u3x_cell hin) (\<lambda>(tag, fol).
     if tag = Atom c3__bout then
       (let (now, w) = u3t_trace_time env w in Inr (True, u3nt tag clu (Atom now), w))
     else if tag = Atom c3__nara then
       (case u3r_cell clu of None \<Rightarrow> Inr (True, u3_nul, w)
        | Some (pri, tan) \<Rightarrow>
            Inr (True, u3_nul, note_it (Nara_note (pri_l pri)) (note_it (Trace_note (pri_l pri) tan) w)))
     else if tag = Atom c3__hela then
       (case u3r_cell clu of None \<Rightarrow> Inr (True, u3_nul, w)
        | Some (pri, tan) \<Rightarrow>
            Inr (True, u3_nul, note_it (Hela_note (pri_l pri)) (note_it (Trace_note (pri_l pri) tan) w)))
     else if tag = Atom c3__xray then
       (case u3r_cell clu of None \<Rightarrow> Inr (True, u3_nul, w)
        | Some (pri, tan) \<Rightarrow> on_ok (cn_etch_bytecode fol) (\<lambda>str_c.
            Inr (True, u3_nul, note_it (Cap_bytecode_note (pri_l pri) tan str_c) w)))
     else Inr (True, u3_nul, w))"

definition n_hint_hind :: "'j env \<Rightarrow> noun \<Rightarrow> noun \<Rightarrow> 'j world \<Rightarrow> 'j world jet" where
  "n_hint_hind env tok pro w =
     (case u3r_trel tok of
        Some (p_tok, q_tok, r_tok) \<Rightarrow>
          if p_tok = Atom c3__bout then
            (let (now, w) = u3t_trace_time env w in
             on_ok (time_sub now r_tok) (\<lambda>delta.
               (case u3r_cell q_tok of None \<Rightarrow> Inl Assertion
                | Some (p_q_tok, q_q_tok) \<Rightarrow> Inr (note_it (Cap_took_note (pri_l p_q_tok) q_q_tok delta) w))))
          else Inl Assertion
      | None \<Rightarrow> if tok = u3_nul then Inr w else Inl Assertion)"

end
