(* ===== verification/Nock_Burn.thy ===== *)
theory Nock_Burn
  imports Nock_Hint
begin

text \<open>
  The bytecode interpreter of \<^verbatim>\<open>nock.c\<close>, a stack machine. The stack of the road holds nouns and the
  frames of calls, which are a program and an index into its bytes; taking a frame for a noun, or
  the converse, has no defined result. Several opcodes read their argument in their own way and then jump
  to a common label: \<open>fetch\<close> reads the opcode and the argument, and names the label by the opcode with
  the byte argument; \<open>burn_op\<close> is the code behind the labels.
\<close>

section \<open>Edits\<close>

definition u3i_vint :: "noun \<Rightarrow> noun jet" where
  "u3i_vint a = (case a of Atom a \<Rightarrow> Inr (Atom (a + 1)) | Cell _ _ \<Rightarrow> Inl Exit)"

fun edit_cat :: "noun \<Rightarrow> u32 \<Rightarrow> noun \<Rightarrow> noun jet" where
  "edit_cat (Atom a) axe_l som = Inl Exit"
| "edit_cat (Cell h t) axe_l som =
     (if axe_l = 2 then Inr (u3nc som t)
      else if axe_l = 3 then Inr (u3nc h som)
      else on_ok (u3x_mas axe_l) (\<lambda>mor_l. on_ok (u3x_cap axe_l) (\<lambda>cap.
        if cap = 2 then on_ok (edit_cat h mor_l som) (\<lambda>h. Inr (u3nc h t))
        else on_ok (edit_cat t mor_l som) (\<lambda>t. Inr (u3nc h t)))))"

definition u3qc_mas :: "noun \<Rightarrow> noun jet" where
  "u3qc_mas a = on_ok (u3r_met 0 a) (\<lambda>b_w.
     if b_w < 2 then Inl Exit
     else on_ok (u3x_atom a) (\<lambda>a. Inr (Atom ((a - 2 ^ (b_w - 1)) OR 2 ^ (b_w - 2)))))"

definition noun_is_cat :: "noun \<Rightarrow> bool" where
  "noun_is_cat n = (case n of Atom a \<Rightarrow> is_cat a | Cell _ _ \<Rightarrow> False)"

text \<open>
  \<^verbatim>\<open>_edit\<close>; its variant that reuses a cell with one reference has the same value.
\<close>

fun edit :: "noun \<Rightarrow> noun \<Rightarrow> noun \<Rightarrow> noun jet" where
  "edit big axe som =
     (if noun_is_cat axe then on_ok (u3x_atom axe) (\<lambda>a. edit_cat big (of_nat a) som)
      else case big of Atom _ \<Rightarrow> Inl Exit
        | Cell h t \<Rightarrow> on_ok (u3qc_mas axe) (\<lambda>mor. on_ok (u3qc_cap axe) (\<lambda>cap.
            if cap = 2 then on_ok (edit h mor som) (\<lambda>h. Inr (u3nc h t))
            else on_ok (edit t mor som) (\<lambda>t. Inr (u3nc h t)))))"

declare edit.simps [simp del]

definition u3i_edit :: "noun \<Rightarrow> noun \<Rightarrow> noun \<Rightarrow> noun jet" where
  "u3i_edit big axe som =
     (if axe = Atom 0 then Inl Exit else if axe = Atom 1 then Inr som else edit big axe som)"

section \<open>The stack\<close>

datatype item = Val noun | Fam u3n_prog nat

definition n_push :: "noun \<Rightarrow> item list \<Rightarrow> item list" where
  "n_push a s = Val a # s"

fun n_pep :: "item list \<Rightarrow> (noun \<times> item list) jet" where
  "n_pep (Val a # s) = Inr (a, s)"
| "n_pep s = Inl Undefined"

definition n_peek :: "item list \<Rightarrow> noun jet" where
  "n_peek s = on_ok (n_pep s) (\<lambda>(a, s). Inr a)"

definition n_toss :: "item list \<Rightarrow> item list jet" where
  "n_toss s = on_ok (n_pep s) (\<lambda>(a, s). Inr s)"

fun n_swap :: "item list \<Rightarrow> item list jet" where
  "n_swap (Val a # Val b # s) = Inr (Val b # Val a # s)"
| "n_swap s = Inl Undefined"

text \<open>Replacing the top of the stack.\<close>

definition n_top :: "(noun \<Rightarrow> noun jet) \<Rightarrow> item list \<Rightarrow> item list jet" where
  "n_top f s = on_ok (n_pep s) (\<lambda>(o', s). on_ok (f o') (\<lambda>a. Inr (n_push a s)))"

definition n_kale :: "noun \<Rightarrow> noun jet" where
  "n_kale a = (if u3a_is_cell a then Inr a else Inl Exit)"

section \<open>Fetching\<close>

definition lit_at :: "u3n_prog \<Rightarrow> nat \<Rightarrow> noun jet" where
  "lit_at p x = (if x < length (non p) then Inr (non p ! x) else Inl Undefined)"

definition sit_at :: "u3n_prog \<Rightarrow> nat \<Rightarrow> noun jet" where
  "sit_at p x = (if x < length (sit_u p) then Inr (sit_u p ! x) else Inl Undefined)"

definition sot_at :: "u3n_prog \<Rightarrow> nat \<Rightarrow> noun jet" where
  "sot_at p x = (if x < length (sot_u p) then Inr (u3nc (Atom (sip_l (sot_u p ! x))) (memo_key (sot_u p ! x)))
     else Inl Undefined)"

definition rit_at :: "u3n_prog \<Rightarrow> nat \<Rightarrow> noun jet" where
  "rit_at p x = (if x < rit_u p then Inr (Atom x) else Inl Undefined)"

definition num_arg :: "u3n_prog \<Rightarrow> nat \<Rightarrow> noun jet" where
  "num_arg p x = Inr (Atom x)"

text \<open>
  The argument of the common label that an opcode jumps to: how it is read, what it stands for, and
  the name of the label. Opcodes that are not listed have no argument and a label of their own.
\<close>

definition fetch_table :: "(opcode \<times> (nat list \<Rightarrow> nat \<Rightarrow> (nat \<times> nat) jet) \<times> (u3n_prog \<Rightarrow> nat \<Rightarrow> noun jet) \<times> opcode) list" where
  "fetch_table =
     [(FISK, n_resh, lit_at, FABK), (FIBK, n_byte, lit_at, FABK), (FASK, n_resh, num_arg, FABK), (FABK, n_byte, num_arg, FABK),
      (FISL, n_resh, lit_at, FABL), (FIBL, n_byte, lit_at, FABL), (FASL, n_resh, num_arg, FABL), (FABL, n_byte, num_arg, FABL),
      (LITB, n_byte, num_arg, LITB), (LITS, n_resh, num_arg, LITB), (LIBK, n_byte, lit_at, LITB), (LISK, n_resh, lit_at, LITB),
      (LILB, n_byte, num_arg, LILB), (LILS, n_resh, num_arg, LILB), (LIBL, n_byte, lit_at, LILB), (LISL, n_resh, lit_at, LILB),
      (SAMB, n_byte, num_arg, SAMB), (SAMS, n_resh, num_arg, SAMB), (SANS, n_resh, lit_at, SANB), (SANB, n_byte, lit_at, SANB),
      (SBIP, n_byte, num_arg, SBIP), (SIPS, n_resh, num_arg, SBIP), (SWIP, n_rewo, num_arg, SBIP),
      (SWIN, n_rewo, num_arg, SBIN), (SINS, n_resh, num_arg, SBIN), (SBIN, n_byte, num_arg, SBIN),
      (KICS, n_resh, sit_at, KICB), (KICB, n_byte, sit_at, KICB), (TICS, n_resh, sit_at, TICB), (TICB, n_byte, sit_at, TICB),
      (SUSH, n_resh, lit_at, BUSH), (BUSH, n_byte, lit_at, BUSH),
      (SAST, n_resh, rit_at, BAST), (BAST, n_byte, rit_at, BAST), (SALT, n_resh, rit_at, BALT), (BALT, n_byte, rit_at, BALT),
      (SKIS, n_resh, sot_at, SKIB), (SKIB, n_byte, sot_at, SKIB), (SLIS, n_resh, sot_at, SLIB), (SLIB, n_byte, sot_at, SLIB),
      (HILB, n_byte, lit_at, HILB), (HILS, n_resh, lit_at, HILB), (HINB, n_byte, lit_at, HINB), (HINS, n_resh, lit_at, HINB),
      (KITB, n_byte, lit_at, KUTB), (KITS, n_resh, lit_at, KUTB), (KUTS, n_resh, num_arg, KUTB), (KUTB, n_byte, num_arg, KUTB),
      (MITB, n_byte, lit_at, MUTB), (MITS, n_resh, lit_at, MUTB), (MUTS, n_resh, num_arg, MUTB), (MUTB, n_byte, num_arg, MUTB)]"

definition fetch :: "u3n_prog \<Rightarrow> nat \<Rightarrow> (op \<times> nat) jet" where
  "fetch p ip = on_ok (n_byte (ops_y p) ip) (\<lambda>(cod, ip).
     if LAST \<le> cod then Inl Undefined
     else if cod = LIT0 then Inr (Arg LITB (Atom 0), ip)
     else if cod = LIT1 then Inr (Arg LITB (Atom 1), ip)
     else if cod = LIL0 then Inr (Arg LILB (Atom 0), ip)
     else if cod = LIL1 then Inr (Arg LILB (Atom 1), ip)
     else if cod = SAM0 then Inr (Arg SAMB (Atom 0), ip)
     else if cod = SAM1 then Inr (Arg SAMB (Atom 1), ip)
     else case map_of fetch_table cod of None \<Rightarrow> Inr (Op cod, ip)
       | Some (rd, val, lab) \<Rightarrow>
           on_ok (rd (ops_y p) ip) (\<lambda>(x, ip). on_ok (val p x) (\<lambda>x. Inr (Arg lab x, ip))))"

section \<open>Instructions\<close>

record 'j burn =
  pog_u :: u3n_prog
  ip_w :: nat
  cap :: "item list"
  wor :: "'j world"

text \<open>An instruction continues with a state or ends with the product.\<close>

type_synonym 'j burnt = "((noun \<times> 'j world) + 'j burn) jet"

definition go :: "'j burn \<Rightarrow> 'j burnt" where
  "go s = Inr (Inr s)"

text \<open>Instructions that only change the stack.\<close>

definition on_cap :: "(item list \<Rightarrow> item list jet) \<Rightarrow> 'j burn \<Rightarrow> 'j burnt" where
  "on_cap f s = on_ok (f (cap s)) (\<lambda>c. go (s\<lparr>cap := c\<rparr>))"

text \<open>
  The prologue of the instructions with two operands above or below the subject: \<open>keep\<close> leaves the subject
  under the operand, \<open>lose\<close> drops it.
\<close>

definition pep_keep :: "(noun \<Rightarrow> noun \<Rightarrow> noun jet) \<Rightarrow> item list \<Rightarrow> item list jet" where
  "pep_keep f s = on_ok (n_pep s) (\<lambda>(x, s). on_ok (n_swap s) (\<lambda>s. n_top (\<lambda>o'. f o' x) s))"

definition pep_lose :: "(noun \<Rightarrow> noun \<Rightarrow> noun jet) \<Rightarrow> item list \<Rightarrow> item list jet" where
  "pep_lose f s = on_ok (n_pep s) (\<lambda>(x, s). on_ok (n_toss s) (\<lambda>s. n_top (\<lambda>o'. f o' x) s))"

definition do_halt :: "'j burn \<Rightarrow> 'j burnt" where
  "do_halt s = on_ok (n_pep (cap s)) (\<lambda>(x, c).
     case c of [] \<Rightarrow> Inr (Inl (x, wor s))
     | Fam p i # c \<Rightarrow> go (s\<lparr>pog_u := p, ip_w := i, cap := n_push x c\<rparr>)
     | Val _ # c \<Rightarrow> Inl Undefined)"

definition muth_in :: "noun \<Rightarrow> noun \<Rightarrow> noun jet" where
  "muth_in o' x = on_ok (u3t o') (\<lambda>t. Inr (u3nc x t))"

definition mutt_in :: "noun \<Rightarrow> noun \<Rightarrow> noun jet" where
  "mutt_in o' x = on_ok (u3h o') (\<lambda>h. Inr (u3nc h x))"

definition musm_in :: "noun \<Rightarrow> noun \<Rightarrow> noun jet" where
  "musm_in o' x = on_ok (u3h o') (\<lambda>h. on_ok (u3t o') (\<lambda>t. on_ok (u3t t) (\<lambda>tt. Inr (u3nt h x tt))))"

definition samc_in :: "noun \<Rightarrow> noun jet" where
  "samc_in o' = on_ok (u3h o') (\<lambda>h. on_ok (u3t o') (\<lambda>t. Inr (loob (h = t))))"

text \<open>Calls: \<open>nock_in\<close> saves the caller in a frame, \<open>nock_out\<close> does not.\<close>

definition nock_out :: "noun \<Rightarrow> 'j burn \<Rightarrow> 'j burnt" where
  "nock_out o' s = on_ok (n_find u3_nul o' (wor s)) (\<lambda>(p, w). go (s\<lparr>pog_u := p, ip_w := 0, wor := w\<rparr>))"

definition nock_in :: "noun \<Rightarrow> 'j burn \<Rightarrow> 'j burnt" where
  "nock_in o' s = on_ok (n_pep (cap s)) (\<lambda>(x, c).
     nock_out o' (s\<lparr>cap := n_push x (Fam (pog_u s) (ip_w s) # c)\<rparr>))"

text \<open>
  \<^verbatim>\<open>_n_kick\<close> with the program that the site is left with when there is no jet. What \<^verbatim>\<open>jets.c\<close> does to find and to run a
  jet is a parameter; the battery that a site remembers from its last kick, which saves the lookup of the program, is not
  kept.
\<close>

definition n_kick :: "'j env \<Rightarrow> noun \<Rightarrow> noun \<Rightarrow> 'j world \<Rightarrow> ((noun + u3n_prog) \<times> 'j world) jet" where
  "n_kick env cor axe w = on_ok (u3j_site_kick env (jed w) cor axe) (\<lambda>(r, j).
     case r of Inl pro \<Rightarrow> Inr (Inl pro, w\<lparr>jed := j\<rparr>)
     | Inr loc \<Rightarrow> on_ok (u3x_at axe cor) (\<lambda>fol. on_ok (n_find loc fol (w\<lparr>jed := j\<rparr>)) (\<lambda>(p, w). Inr (Inr p, w))))"

definition kick_in :: "'j env \<Rightarrow> noun \<Rightarrow> 'j burn \<Rightarrow> 'j burnt" where
  "kick_in env axe s = on_ok (n_pep (cap s)) (\<lambda>(o', c). on_ok (n_kick env o' axe (wor s)) (\<lambda>(r, w).
     case r of Inl pro \<Rightarrow> go (s\<lparr>cap := n_push pro c, wor := w\<rparr>)
     | Inr p \<Rightarrow> go (s\<lparr>cap := n_push o' (Fam (pog_u s) (ip_w s) # c), pog_u := p, ip_w := 0, wor := w\<rparr>)))"

definition tick_in :: "'j env \<Rightarrow> noun \<Rightarrow> 'j burn \<Rightarrow> 'j burnt" where
  "tick_in env axe s = on_ok (n_pep (cap s)) (\<lambda>(o', c). on_ok (n_kick env o' axe (wor s)) (\<lambda>(r, w).
     case r of Inl pro \<Rightarrow> go (s\<lparr>cap := n_push pro c, wor := w\<rparr>)
     | Inr p \<Rightarrow> go (s\<lparr>pog_u := p, ip_w := 0, wor := w\<rparr>)))"

definition wish_in :: "'j env \<Rightarrow> noun \<Rightarrow> noun \<Rightarrow> noun jet" where
  "wish_in env ref o' = on_ok (u3m_soft_esc env ref o') (\<lambda>x.
     if \<not> u3a_is_cell x then Inl (Ball (u3nc (Atom 1) o'))
     else on_ok (u3t x) (\<lambda>y. if \<not> u3a_is_cell y then Inl Exit else u3t y))"

definition skin_in :: "noun \<Rightarrow> 'j burn \<Rightarrow> 'j burnt" where
  "skin_in arg s = on_ok (arg_num arg) (\<lambda>sip_w. on_ok (n_pep (cap s)) (\<lambda>(x, c).
     if x = Atom 1 then go (s\<lparr>cap := c, ip_w := ip_w s + sip_w\<rparr>)
     else if x \<noteq> Atom 0 then Inl Exit
     else go (s\<lparr>cap := c\<rparr>)))"

definition heck_in :: "'j burn \<Rightarrow> 'j burnt" where
  "heck_in s = on_ok (n_pep (cap s)) (\<lambda>(x, c).
     go (s\<lparr>cap := c, wor := (if u3a_is_cell x then wor s else note_it (Heck_note x) (wor s))\<rparr>))"

definition slog_in :: "'j env \<Rightarrow> 'j burn \<Rightarrow> 'j burnt" where
  "slog_in env s = on_ok (n_pep (cap s)) (\<lambda>(x, c).
     go (s\<lparr>cap := c, wor := (if quiet env then wor s else note_it (Slog_note x) (wor s))\<rparr>))"

definition cush_in :: "noun \<Rightarrow> 'j burn \<Rightarrow> 'j burnt" where
  "cush_in x s = on_ok (n_pep (cap s)) (\<lambda>(o', c). go (s\<lparr>cap := c, wor := u3t_push (u3nc x o') (wor s)\<rparr>))"

text \<open>The stack is product, clue and then, if it is kept, the subject.\<close>

definition fast_out :: "'j env \<Rightarrow> noun \<Rightarrow> item list \<Rightarrow> 'j burn \<Rightarrow> 'j burnt" where
  "fast_out env o' c s = on_ok (n_pep c) (\<lambda>(clu, c).
     on_ok (u3j_rite_mine env (jed (wor s)) clu o') (\<lambda>j.
     go (s\<lparr>cap := n_push o' c, wor := (wor s)\<lparr>jed := j\<rparr>\<rparr>)))"

definition skim_out :: "noun \<Rightarrow> noun \<Rightarrow> item list \<Rightarrow> 'j burn \<Rightarrow> 'j burnt" where
  "skim_out arg bus c s = on_ok (u3x_cell arg) (\<lambda>(sip, key). on_ok (arg_num sip) (\<lambda>sip_l.
     let x = u3nc bus key in
     case u3z_find_m (144 + c3__nock) x (wor s) of
       None \<Rightarrow> go (s\<lparr>cap := n_push bus (n_push x c)\<rparr>)
     | Some o' \<Rightarrow> go (s\<lparr>cap := n_push o' c, ip_w := ip_w s + sip_l\<rparr>)))"

definition save_in :: "'j env \<Rightarrow> 'j burn \<Rightarrow> 'j burnt" where
  "save_in env s = on_ok (n_pep (cap s)) (\<lambda>(x, c). on_ok (n_pep c) (\<lambda>(o', c).
     go (s\<lparr>cap := n_push x c,
       wor := (if home env then wor s else u3z_save_m env (144 + c3__nock) o' x (wor s))\<rparr>)))"

definition fore_in :: "(noun \<Rightarrow> 'j world \<Rightarrow> (bool \<times> noun \<times> 'j world) jet) \<Rightarrow> item list \<Rightarrow> 'j burn \<Rightarrow> 'j burnt" where
  "fore_in fore c s = on_ok (n_peek c) (\<lambda>bus. on_ok (fore bus (wor s)) (\<lambda>(x, o', w).
     on_ok (n_swap (n_push o' c)) (\<lambda>c. go (s\<lparr>cap := n_push (loob x) c, wor := w\<rparr>))))"

definition hind_keep :: "(noun \<Rightarrow> noun \<Rightarrow> 'j world \<Rightarrow> 'j world jet) \<Rightarrow> 'j burn \<Rightarrow> 'j burnt" where
  "hind_keep hind s = on_ok (n_pep (cap s)) (\<lambda>(x, c). on_ok (n_swap c) (\<lambda>c. on_ok (n_pep c) (\<lambda>(o', c).
     on_ok (hind o' x (wor s)) (\<lambda>w. go (s\<lparr>cap := n_push x c, wor := w\<rparr>)))))"

definition hind_lose :: "(noun \<Rightarrow> noun \<Rightarrow> 'j world \<Rightarrow> 'j world jet) \<Rightarrow> 'j burn \<Rightarrow> 'j burnt" where
  "hind_lose hind s = on_ok (n_swap (cap s)) (\<lambda>c. on_ok (n_pep c) (\<lambda>(o', c). on_ok (n_peek c) (\<lambda>x.
     on_ok (hind o' x (wor s)) (\<lambda>w. go (s\<lparr>cap := c, wor := w\<rparr>)))))"

section \<open>The interpreter\<close>

definition burn_plain :: "'j env \<Rightarrow> opcode \<Rightarrow> 'j burn \<Rightarrow> 'j burnt" where
  "burn_plain env cod s =
     (if cod = HALT then do_halt s
      else if cod = BAIL then Inl Exit
      else if cod = COPY then on_cap (\<lambda>c. on_ok (n_peek c) (\<lambda>a. Inr (n_push a c))) s
      else if cod = SWAP then on_cap n_swap s
      else if cod = TOSS then on_cap n_toss s
      else if cod = AUTO then on_cap (pep_keep (\<lambda>o' x. Inr (u3nc o' x))) s
      else if cod = AULT then on_cap (pep_lose (\<lambda>o' x. Inr (u3nc o' x))) s
      else if cod = SNOC then on_cap (\<lambda>c. on_ok (n_pep c) (\<lambda>(x, c). on_ok (n_peek c) (\<lambda>o'. Inr (n_push (u3nc x o') c)))) s
      else if cod = SNOL then on_cap (\<lambda>c. on_ok (n_pep c) (\<lambda>(x, c). n_top (\<lambda>o'. Inr (u3nc x o')) c)) s
      else if cod = HEAD then on_cap (\<lambda>c. on_ok (n_peek c) (\<lambda>a. on_ok (n_kale a) (\<lambda>a. on_ok (u3h a) (\<lambda>h. Inr (n_push h c))))) s
      else if cod = HELD then on_cap (n_top (\<lambda>a. on_ok (n_kale a) u3h)) s
      else if cod = TAIL then on_cap (\<lambda>c. on_ok (n_peek c) (\<lambda>a. on_ok (n_kale a) (\<lambda>a. on_ok (u3t a) (\<lambda>t. Inr (n_push t c))))) s
      else if cod = TALL then on_cap (n_top (\<lambda>a. on_ok (n_kale a) u3t)) s
      else if cod = NOCT then on_ok (n_pep (cap s)) (\<lambda>(o', c). on_ok (n_toss c) (\<lambda>c. nock_out o' (s\<lparr>cap := c\<rparr>)))
      else if cod = NOLK then on_ok (n_pep (cap s)) (\<lambda>(o', c). on_ok (n_toss c) (\<lambda>c. nock_in o' (s\<lparr>cap := c\<rparr>)))
      else if cod = NOCK then on_ok (n_pep (cap s)) (\<lambda>(o', c). on_ok (n_swap c) (\<lambda>c. nock_in o' (s\<lparr>cap := c\<rparr>)))
      else if cod = DEEP then on_cap (n_top (\<lambda>o'. Inr (loob (u3a_is_cell o')))) s
      else if cod = BUMP then on_cap (n_top u3i_vint) s
      else if cod = SAME then on_cap (pep_keep (\<lambda>o' x. Inr (loob (x = o')))) s
      else if cod = SALM then on_cap (pep_lose (\<lambda>o' x. Inr (loob (x = o')))) s
      else if cod = SAMC then on_cap (n_top samc_in) s
      else if cod = WILS then on_cap (pep_lose (wish_in env)) s
      else if cod = WISH then on_cap (pep_keep (wish_in env)) s
      else if cod = DROP then on_ok (u3t_drop (wor s)) (\<lambda>w. go (s\<lparr>wor := w\<rparr>))
      else if cod = HECK then heck_in s
      else if cod = SLOG then slog_in env s
      else if cod = SAVE then save_in env s
      else if cod = HILK then hind_keep (n_hilt_hind env) s
      else if cod = HILL then hind_lose (n_hilt_hind env) s
      else if cod = HINK then hind_keep (n_hint_hind env) s
      else if cod = HINL then hind_lose (n_hint_hind env) s
      else if cod = KUTH then on_cap (pep_keep muth_in) s
      else if cod = MUTH then on_cap (pep_lose muth_in) s
      else if cod = KUTT then on_cap (pep_keep mutt_in) s
      else if cod = MUTT then on_cap (pep_lose mutt_in) s
      else if cod = KUSM then on_cap (pep_keep musm_in) s
      else if cod = MUSM then on_cap (pep_lose musm_in) s
      else Inl Undefined)"

definition burn_arg :: "'j env \<Rightarrow> opcode \<Rightarrow> noun \<Rightarrow> 'j burn \<Rightarrow> 'j burnt" where
  "burn_arg env cod x s =
     (if cod = FABK then on_cap (\<lambda>c. on_ok (n_peek c) (\<lambda>o'. on_ok (u3x_at x o') (\<lambda>a. Inr (n_push a c)))) s
      else if cod = FABL then on_cap (n_top (u3x_at x)) s
      else if cod = LITB then on_cap (\<lambda>c. Inr (n_push x c)) s
      else if cod = LILB then on_cap (n_top (\<lambda>o'. Inr x)) s
      else if cod = SAMB then on_cap (n_top (\<lambda>o'. Inr (loob (o' = x)))) s
      else if cod = SANB then on_cap (n_top (\<lambda>o'. Inr (loob (o' = x)))) s
      else if cod = SBIP then on_ok (arg_num x) (\<lambda>sip_w. go (s\<lparr>ip_w := ip_w s + sip_w\<rparr>))
      else if cod = SBIN then skin_in x s
      else if cod = KICB then kick_in env x s
      else if cod = TICB then tick_in env x s
      else if cod = BUSH then cush_in x s
      else if cod = BAST then on_ok (n_pep (cap s)) (\<lambda>(o', c). on_ok (n_swap c) (\<lambda>c. fast_out env o' c s))
      else if cod = BALT then on_ok (n_pep (cap s)) (\<lambda>(o', c). on_ok (n_toss c) (\<lambda>c. fast_out env o' c s))
      else if cod = SKIB then on_ok (n_peek (cap s)) (\<lambda>bus. skim_out x bus (cap s) s)
      else if cod = SLIB then on_ok (n_pep (cap s)) (\<lambda>(bus, c). skim_out x bus c s)
      else if cod = HILB then fore_in (n_hilt_fore env x) (cap s) s
      else if cod = HINB then on_ok (n_pep (cap s)) (\<lambda>(o', c). fore_in (\<lambda>bus. n_hint_fore env x bus o') c s)
      else if cod = KUTB then on_cap (pep_keep (\<lambda>o' a. u3i_edit o' x a)) s
      else if cod = MUTB then on_cap (pep_lose (\<lambda>o' a. u3i_edit o' x a)) s
      else Inl Undefined)"

definition burn_op :: "'j env \<Rightarrow> op \<Rightarrow> 'j burn \<Rightarrow> 'j burnt" where
  "burn_op env oper s = (case oper of Op cod \<Rightarrow> burn_plain env cod s | Arg cod x \<Rightarrow> burn_arg env cod x s)"

definition burn_step :: "'j env \<Rightarrow> 'j burn \<Rightarrow> 'j burnt" where
  "burn_step env s = on_ok (fetch (pog_u s) (ip_w s)) (\<lambda>(oper, ip). burn_op env oper (s\<lparr>ip_w := ip\<rparr>))"

text \<open>\<open>None\<close> is a computation that does not end.\<close>

partial_function (option) n_burn_loop :: "'j env \<Rightarrow> 'j burn \<Rightarrow> (noun \<times> 'j world) jet option" where
  "n_burn_loop env s = (case burn_step env s of
     Inl e \<Rightarrow> Some (Inl e)
   | Inr (Inl r) \<Rightarrow> Some (Inr r)
   | Inr (Inr s) \<Rightarrow> n_burn_loop env s)"

definition n_burn :: "'j env \<Rightarrow> u3n_prog \<Rightarrow> noun \<Rightarrow> 'j world \<Rightarrow> (noun \<times> 'j world) jet option" where
  "n_burn env pog bus w = n_burn_loop env \<lparr>pog_u = pog, ip_w = 0, cap = n_push bus [], wor = w\<rparr>"

definition u3n_nock_on :: "'j env \<Rightarrow> noun \<Rightarrow> noun \<Rightarrow> 'j world \<Rightarrow> (noun \<times> 'j world) jet option" where
  "u3n_nock_on env bus fol w = (case n_find u3_nul fol w of
     Inl e \<Rightarrow> Some (Inl e) | Inr (pog, w) \<Rightarrow> n_burn env pog bus w)"

end
