(* ===== verification/Nock_Code.thy ===== *)
theory Nock_Code
  imports Nock_Comp
begin

text \<open>
  The code of a formula in the order of execution. \<open>code\<close> is the compiler without its accumulator and
  its counter: the compiler puts the reverse of the code in front of the list it is given, and
  returns the length of the code.
\<close>

section \<open>Results in sequence\<close>

lemma on_ok_assoc [simp]: "on_ok (on_ok x f) g = on_ok x (\<lambda>v. on_ok (f v) g)"
  by (cases x) auto

lemma on_ok_if: "on_ok (if b then x else y) f = (if b then on_ok x f else on_ok y f)"
  by simp

lemma on_ok_prod: "on_ok (case p of (a, b) \<Rightarrow> h a b) f = (case p of (a, b) \<Rightarrow> on_ok (h a b) f)"
  by (cases p) simp

section \<open>The code\<close>

function code :: "noun \<Rightarrow> bool \<Rightarrow> bool \<Rightarrow> op list jet"
  and hint_code :: "noun \<Rightarrow> noun \<Rightarrow> bool \<Rightarrow> bool \<Rightarrow> op list jet"
where
  "code fol los tel_o = on_ok (u3x_cell fol) (\<lambda>(cod, arg).
     if u3a_is_cell cod then
       on_ok (code cod False False) (\<lambda>a. on_ok (code arg False False) (\<lambda>b.
       Inr (a @ Op SWAP # b @ [Op (if los then AULT else AUTO)])))
     else if cod = Atom 0 then (if u3a_is_cell arg then Inl Exit else Inr (comp_frag arg los))
     else if cod = Atom 1 then Inr [comp_lit arg los]
     else if cod = Atom 2 then on_ok (u3x_cell arg) (\<lambda>(hed, tel).
       on_ok (code hed False False) (\<lambda>a. on_ok (code tel False False) (\<lambda>b.
       Inr (a @ Op SWAP # b @ [Op (if tel_o then NOCT else if los then NOLK else NOCK)]))))
     else if cod = Atom 3 then on_ok (code arg los False) (\<lambda>a. Inr (a @ [Op DEEP]))
     else if cod = Atom 4 then on_ok (code arg los False) (\<lambda>a. Inr (a @ [Op BUMP]))
     else if cod = Atom 5 then on_ok (u3x_cell arg) (\<lambda>(hed, tel).
       on_ok (u3x_cell hed) (\<lambda>(hhed, thed). on_ok (u3x_cell tel) (\<lambda>(htel, ttel).
         if hhed = Atom 1 \<and> htel = Atom 1 then
           Inr [Op (if thed = ttel then (if los then LIL0 else LIT0) else (if los then LIL1 else LIT1))]
         else if hhed \<noteq> Atom 1 \<and> htel \<noteq> Atom 1 then
           on_ok (code hed False False) (\<lambda>a. on_ok (code tel False False) (\<lambda>b.
           Inr (a @ Op SWAP # b @ [Op (if los then SALM else SAME)])))
         else
           on_ok (code (if hhed = Atom 1 then tel else hed) los False) (\<lambda>a.
           Inr (a @ [comp_same (if hhed = Atom 1 then thed else ttel)])))))
     else if cod = Atom 6 then on_ok (u3x_trel arg) (\<lambda>(hed, mid, tel).
       on_ok (code hed False False) (\<lambda>a.
         if \<not> n_formulaic mid \<and> \<not> n_formulaic tel then Inl Exit
         else
           on_ok (if n_formulaic mid then code mid los tel_o else Inr [Op BAIL]) (\<lambda>yep.
           on_ok (if n_formulaic tel then code tel los tel_o else Inr [Op BAIL]) (\<lambda>nop.
           Inr (a @ Arg SBIN (Atom (length yep + 1)) # yep @ Arg SBIP (Atom (length nop)) # nop)))))
     else if cod = Atom 7 then on_ok (u3x_cell arg) (\<lambda>(hed, tel).
       on_ok (code hed los False) (\<lambda>a. on_ok (code tel True tel_o) (\<lambda>b. Inr (a @ b))))
     else if cod = Atom 8 then on_ok (u3x_cell arg) (\<lambda>(hed, tel).
       on_ok (code hed False False) (\<lambda>a. on_ok (code tel True tel_o) (\<lambda>b.
       Inr (a @ Op (if los then SNOL else SNOC) # b))))
     else if cod = Atom 9 then on_ok (u3x_cell arg) (\<lambda>(hed, tel).
       on_ok (kick_is_mac hed) (\<lambda>mac.
         if mac then code (kick_mac hed tel) los tel_o
         else
           on_ok (code tel (if tel_o then True else los) False) (\<lambda>a.
           Inr (a @ [Arg (if tel_o then TICB else KICB) hed]))))
     else if cod = Atom 10 then on_ok (u3x_cell arg) (\<lambda>(hed, tel).
       on_ok (u3x_cell hed) (\<lambda>(axe, nef).
       on_ok (code tel False False) (\<lambda>a. on_ok (code nef False False) (\<lambda>b.
       Inr (a @ Op SWAP # b @ [comp_edit axe los])))))
     else if cod = Atom 11 then on_ok (u3x_cell arg) (\<lambda>(hed, tel). hint_code hed tel los tel_o)
     else if cod = Atom 12 then on_ok (u3x_cell arg) (\<lambda>(hed, tel).
       on_ok (code hed False False) (\<lambda>a. on_ok (code tel False False) (\<lambda>b.
       Inr (a @ Op SWAP # b @ [Op (if los then WILS else WISH)]))))
     else Inl Exit)"
| "hint_code hif nef los tel_o =
     (if \<not> u3a_is_cell hif then
        (if is_fore hif then
           on_ok (code nef los False) (\<lambda>b.
           Inr (Arg HILB (u3nc hif nef) # Arg SBIN (Atom (length b + 2)) # b @
             [Op (if los then HILL else HILK), Arg SBIP (Atom 1), Op (if los then TOSS else SWAP)]))
         else code nef los tel_o)
      else on_ok (u3x_cell hif) (\<lambda>(zep, hod).
        if is_tace zep then
          on_ok (code hod False False) (\<lambda>a. on_ok (code nef los False) (\<lambda>b.
          Inr (a @ Arg BUSH zep # b @ [Op DROP])))
        else if zep = Atom c3__live then
          on_ok (code hod False False) (\<lambda>a. on_ok (code nef los tel_o) (\<lambda>b. Inr (a @ Op HECK # b)))
        else if zep = Atom c3__slog then
          on_ok (code hod False False) (\<lambda>a. on_ok (code nef los tel_o) (\<lambda>b. Inr (a @ Op SLOG # b)))
        else if zep = Atom c3__fast then
          on_ok (code hod False False) (\<lambda>a. on_ok (code nef False False) (\<lambda>b.
          Inr (a @ Op SWAP # b @ [Op (if los then BALT else BAST)])))
        else if zep = Atom c3__memo then
          on_ok (code hod False False) (\<lambda>a. on_ok (code nef True False) (\<lambda>b.
          Inr (a @ Op TOSS # Arg (if los then SLIB else SKIB) (u3nc (Atom (length b + 1)) nef) # b @ [Op SAVE])))
        else if is_fore zep then
          on_ok (code nef los False) (\<lambda>b. on_ok (code hod False False) (\<lambda>a.
          Inr (a @ Arg HINB (u3nc zep nef) # Arg SBIN (Atom (length b + 2)) # b @
             [Op (if los then HINL else HINK), Arg SBIP (Atom 1), Op (if los then TOSS else SWAP)])))
        else
          on_ok (code hod False False) (\<lambda>a. on_ok (code nef los tel_o) (\<lambda>b. Inr (a @ Op TOSS # b)))))"
  by pat_completeness auto

termination
  by (relation "measure (\<lambda>x. case x of Inl (fol, los, tel_o) \<Rightarrow> weight fol
        | Inr (hif, nef, los, tel_o) \<Rightarrow> weight hif + weight nef)")
    (auto simp: access_Inr kick_mac_def split: if_splits)

declare code.simps [simp del] hint_code.simps [simp del]

definition emitted :: "op list \<Rightarrow> op list \<Rightarrow> (nat \<times> op list) jet" where
  "emitted ops = (\<lambda>c. Inr (length c, rev c @ ops))"

lemma n_bint_code:
  assumes "\<And>ops fol los tel_o. weight fol < weight hif + weight nef \<Longrightarrow> n_comp ops fol los tel_o = on_ok (code fol los tel_o) (emitted ops)"
  shows "n_bint ops hif nef los tel_o = on_ok (hint_code hif nef los tel_o) (emitted ops)"
proof (cases hif)
  case (Atom a)
  then show ?thesis
    by (simp add: n_bint.simps hint_code.simps assms emitted_def)
next
  case (Cell zep hod)
  then show ?thesis
    by (simp add: n_bint.simps hint_code.simps assms emitted_def on_ok_if)
qed


lemma rev_comp_frag [simp]: "rev (comp_frag arg los) = comp_frag arg los"
  by (simp add: comp_frag_def)

lemma weight_simps: "weight (kick_mac hed tel) < weight (u3nc (Atom 9) (u3nc hed tel))"
  by (simp add: kick_mac_def)

theorem n_comp_code: "n_comp ops fol los tel_o = on_ok (code fol los tel_o) (emitted ops)"
proof (induction fol arbitrary: ops los tel_o rule: measure_induct_rule [of weight])
  case (less fol)
  show ?case
  proof (cases fol)
    case (Atom a)
    then show ?thesis
      by (simp add: n_comp.simps code.simps)
  next
    case (Cell cod arg)
    have bint: "n_bint ops hed tel los tel_o = on_ok (hint_code hed tel los tel_o) (emitted ops)"
      if "arg = u3nc hed tel" for hed tel
      by (rule n_bint_code, rule less.IH) (simp add: Cell that)
    show ?thesis
    proof (cases "u3a_is_cell cod")
      case True
      then show ?thesis
        by (simp add: Cell n_comp.simps [of _ "u3nc cod arg"] code.simps [of "u3nc cod arg"] less.IH emitted_def)
    next
      case False
      show ?thesis
      proof (cases arg)
        case arg: (Atom a)
        then show ?thesis
          using False
          by (simp add: Cell n_comp.simps [of _ "u3nc cod (Atom a)"] code.simps [of "u3nc cod (Atom a)"] less.IH emitted_def)
      next
        case arg: (Cell hed tel)
        show ?thesis
        proof (cases "cod = Atom 9")
          case True
          have sub: "weight (kick_mac hed tel) < weight fol" "weight tel < weight fol"
            unfolding Cell arg True by (rule weight_simps) simp
          show ?thesis
            by (simp add: Cell arg True n_comp.simps [of _ "u3nc (Atom 9) (u3nc _ _)"]
                code.simps [of "u3nc (Atom 9) (u3nc _ _)"] less.IH [OF sub(1)] less.IH [OF sub(2)] on_ok_if emitted_def
                cong: if_cong)
        next
          case nine: False
          show ?thesis
            using False bint nine
            by (cases hed; cases tel; simp add: Cell arg n_comp.simps [of _ "u3nc cod (u3nc _ _)"]
                code.simps [of "u3nc cod (u3nc _ _)"] less.IH on_ok_if emitted_def Let_def add.assoc cong: if_cong)
        qed
      qed
    qed
  qed
qed


section \<open>The shapes of code\<close>

text \<open>The same as a relation, with one rule for each shape of a formula.\<close>

inductive coded :: "noun \<Rightarrow> bool \<Rightarrow> bool \<Rightarrow> op list \<Rightarrow> bool" where
  cons: "coded (u3nc p q) False False a \<Longrightarrow> coded arg False False b \<Longrightarrow>
    coded (u3nc (u3nc p q) arg) los tel_o (a @ Op SWAP # b @ [Op (if los then AULT else AUTO)])"
| frag: "coded (u3nc (Atom 0) (Atom x)) los tel_o (comp_frag (Atom x) los)"
| lit: "coded (u3nc (Atom 1) x) los tel_o [comp_lit x los]"
| nock: "coded hed False False a \<Longrightarrow> coded tel False False b \<Longrightarrow>
    coded (u3nt (Atom 2) hed tel) los tel_o (a @ Op SWAP # b @ [Op (if tel_o then NOCT else if los then NOLK else NOCK)])"
| deep: "coded arg los False a \<Longrightarrow> coded (u3nc (Atom 3) arg) los tel_o (a @ [Op DEEP])"
| bump: "coded arg los False a \<Longrightarrow> coded (u3nc (Atom 4) arg) los tel_o (a @ [Op BUMP])"
| same_lits: "coded (u3nt (Atom 5) (u3nc (Atom 1) x) (u3nc (Atom 1) y)) los tel_o
    [Op (if x = y then (if los then LIL0 else LIT0) else (if los then LIL1 else LIT1))]"
| same: "hhed \<noteq> Atom 1 \<Longrightarrow> htel \<noteq> Atom 1 \<Longrightarrow> coded (u3nc hhed thed) False False a \<Longrightarrow> coded (u3nc htel ttel) False False b \<Longrightarrow>
    coded (u3nt (Atom 5) (u3nc hhed thed) (u3nc htel ttel)) los tel_o (a @ Op SWAP # b @ [Op (if los then SALM else SAME)])"
| same_left: "htel \<noteq> Atom 1 \<Longrightarrow> coded (u3nc htel ttel) los False a \<Longrightarrow>
    coded (u3nt (Atom 5) (u3nc (Atom 1) x) (u3nc htel ttel)) los tel_o (a @ [comp_same x])"
| same_right: "hhed \<noteq> Atom 1 \<Longrightarrow> coded (u3nc hhed thed) los False a \<Longrightarrow>
    coded (u3nt (Atom 5) (u3nc hhed thed) (u3nc (Atom 1) x)) los tel_o (a @ [comp_same x])"
| cond: "coded hed False False a \<Longrightarrow> n_formulaic mid \<or> n_formulaic tel \<Longrightarrow>
    (if n_formulaic mid then coded mid los tel_o yep else yep = [Op BAIL]) \<Longrightarrow>
    (if n_formulaic tel then coded tel los tel_o nop else nop = [Op BAIL]) \<Longrightarrow>
    coded (u3nc (Atom 6) (u3nt hed mid tel)) los tel_o
      (a @ Arg SBIN (Atom (length yep + 1)) # yep @ Arg SBIP (Atom (length nop)) # nop)"
| comp: "coded hed los False a \<Longrightarrow> coded tel True tel_o b \<Longrightarrow> coded (u3nt (Atom 7) hed tel) los tel_o (a @ b)"
| push: "coded hed False False a \<Longrightarrow> coded tel True tel_o b \<Longrightarrow>
    coded (u3nt (Atom 8) hed tel) los tel_o (a @ Op (if los then SNOL else SNOC) # b)"
| kick_mac: "kick_is_mac hed = Inr True \<Longrightarrow> coded (kick_mac hed tel) los tel_o c \<Longrightarrow> coded (u3nt (Atom 9) hed tel) los tel_o c"
| kick: "kick_is_mac hed = Inr False \<Longrightarrow> coded tel (if tel_o then True else los) False a \<Longrightarrow>
    coded (u3nt (Atom 9) hed tel) los tel_o (a @ [Arg (if tel_o then TICB else KICB) hed])"
| edit: "coded tel False False a \<Longrightarrow> coded nef False False b \<Longrightarrow>
    coded (u3nt (Atom 10) (u3nc axe nef) tel) los tel_o (a @ Op SWAP # b @ [comp_edit axe los])"
| hilt: "is_fore (Atom tag) \<Longrightarrow> coded nef los False b \<Longrightarrow>
    coded (u3nt (Atom 11) (Atom tag) nef) los tel_o
      (Arg HILB (u3nc (Atom tag) nef) # Arg SBIN (Atom (length b + 2)) # b @
        [Op (if los then HILL else HILK), Arg SBIP (Atom 1), Op (if los then TOSS else SWAP)])"
| static: "\<not> is_fore (Atom tag) \<Longrightarrow> coded nef los tel_o c \<Longrightarrow> coded (u3nt (Atom 11) (Atom tag) nef) los tel_o c"
| tace: "is_tace zep \<Longrightarrow> coded hod False False a \<Longrightarrow> coded nef los False b \<Longrightarrow>
    coded (u3nt (Atom 11) (u3nc zep hod) nef) los tel_o (a @ Arg BUSH zep # b @ [Op DROP])"
| live: "zep = Atom c3__live \<Longrightarrow> coded hod False False a \<Longrightarrow> coded nef los tel_o b \<Longrightarrow>
    coded (u3nt (Atom 11) (u3nc zep hod) nef) los tel_o (a @ Op HECK # b)"
| slog: "zep = Atom c3__slog \<Longrightarrow> coded hod False False a \<Longrightarrow> coded nef los tel_o b \<Longrightarrow>
    coded (u3nt (Atom 11) (u3nc zep hod) nef) los tel_o (a @ Op SLOG # b)"
| fast: "zep = Atom c3__fast \<Longrightarrow> coded hod False False a \<Longrightarrow> coded nef False False b \<Longrightarrow>
    coded (u3nt (Atom 11) (u3nc zep hod) nef) los tel_o (a @ Op SWAP # b @ [Op (if los then BALT else BAST)])"
| memo: "zep = Atom c3__memo \<Longrightarrow> coded hod False False a \<Longrightarrow> coded nef True False b \<Longrightarrow>
    coded (u3nt (Atom 11) (u3nc zep hod) nef) los tel_o
      (a @ Op TOSS # Arg (if los then SLIB else SKIB) (u3nc (Atom (length b + 1)) nef) # b @ [Op SAVE])"
| hint: "is_fore zep \<Longrightarrow> coded hod False False a \<Longrightarrow> coded nef los False b \<Longrightarrow>
    coded (u3nt (Atom 11) (u3nc zep hod) nef) los tel_o
      (a @ Arg HINB (u3nc zep nef) # Arg SBIN (Atom (length b + 2)) # b @
        [Op (if los then HINL else HINK), Arg SBIP (Atom 1), Op (if los then TOSS else SWAP)])"
| other: "\<not> is_tace zep \<Longrightarrow> zep \<notin> {Atom c3__live, Atom c3__slog, Atom c3__fast, Atom c3__memo} \<Longrightarrow> \<not> is_fore zep \<Longrightarrow>
    coded hod False False a \<Longrightarrow> coded nef los tel_o b \<Longrightarrow>
    coded (u3nt (Atom 11) (u3nc zep hod) nef) los tel_o (a @ Op TOSS # b)"
| wish: "coded hed False False a \<Longrightarrow> coded tel False False b \<Longrightarrow>
    coded (u3nt (Atom 12) hed tel) los tel_o (a @ Op SWAP # b @ [Op (if los then WILS else WISH)])"

lemma hint_code_coded:
  assumes IH: "\<And>fol los tel_o c. weight fol < weight hif + weight nef \<Longrightarrow> code fol los tel_o = Inr c \<Longrightarrow> coded fol los tel_o c"
    and "hint_code hif nef los tel_o = Inr c"
  shows "coded (u3nt (Atom 11) hif nef) los tel_o c"
proof -
  have nef: "code nef los tel_o = Inr c \<Longrightarrow> coded nef los tel_o c" for los tel_o c
    by (rule IH) simp_all
  have hod: "code hod los tel_o = Inr c \<Longrightarrow> coded hod los tel_o c" if "hif = u3nc zep hod" for zep hod los tel_o c
    by (rule IH) (simp_all add: that)
  show ?thesis
  proof (cases hif)
    case (Atom a)
    show ?thesis
      using assms(2) unfolding Atom hint_code.simps [of "Atom a"]
      by (cases "is_fore (Atom a)")
        (auto simp: on_ok_eq_Inr simp del: One_nat_def add_2_eq_Suc' split del: if_split intro: coded.hilt coded.static nef)
  next
    case (Cell zep hod)
    note hod = hod [OF Cell]
    have tags: "\<not> is_tace (Atom c3__live)" "\<not> is_tace (Atom c3__slog)" "\<not> is_tace (Atom c3__fast)" "\<not> is_tace (Atom c3__memo)"
        "is_fore zep \<Longrightarrow> \<not> is_tace zep"
      by (auto simp: is_tace_def is_fore_def)
    consider "is_tace zep" | "zep = Atom c3__live" | "zep = Atom c3__slog" | "zep = Atom c3__fast" | "zep = Atom c3__memo"
      | "zep \<notin> {Atom c3__live, Atom c3__slog, Atom c3__fast, Atom c3__memo}" "is_fore zep"
      | "\<not> is_tace zep" "zep \<notin> {Atom c3__live, Atom c3__slog, Atom c3__fast, Atom c3__memo}" "\<not> is_fore zep"
      by blast
    then show ?thesis
      using assms(2) unfolding Cell hint_code.simps [of "u3nc zep hod"]
      by cases (auto simp: tags on_ok_eq_Inr simp del: One_nat_def add_2_eq_Suc' split del: if_split
          intro: coded.tace coded.live coded.slog coded.fast coded.memo coded.hint coded.other nef hod)
  qed
qed


text \<open>Formulas whose argument is a cell, by their opcode.\<close>

lemma code_coded_pair:
  assumes IH: "\<And>fol los tel_o c. weight fol < weight (u3nt cod hed tel) \<Longrightarrow> code fol los tel_o = Inr c \<Longrightarrow> coded fol los tel_o c"
    and "code (u3nt cod hed tel) los tel_o = Inr c" and "cod \<in> {Atom 2, Atom 5, Atom 6, Atom 7, Atom 8, Atom 9, Atom 10, Atom 11, Atom 12}"
  shows "coded (u3nt cod hed tel) los tel_o c"
proof -
  have sub: "code hed los tel_o = Inr c \<Longrightarrow> coded hed los tel_o c" "code tel los tel_o = Inr c \<Longrightarrow> coded tel los tel_o c" for los tel_o c
    by (rule IH; simp)+
  have mid: "code x los tel_o = Inr c \<Longrightarrow> coded x los tel_o c" "code y los tel_o = Inr c \<Longrightarrow> coded y los tel_o c"
    if "tel = u3nc x y" for x y los tel_o c
    by (rule IH; simp add: that)+
  have nef: "code x los tel_o = Inr c \<Longrightarrow> coded x los tel_o c" if "hed = u3nc axe x" for axe x los tel_o c
    by (rule IH; simp add: that)
  have hint: "hint_code hed tel los tel_o = Inr c \<Longrightarrow> coded (u3nt (Atom 11) hed tel) los tel_o c"
    by (rule hint_code_coded [OF IH]) simp_all
  note unfold = code.simps [of "u3nt cod hed tel"]
  from assms(3) consider "cod = Atom 2" | "cod = Atom 5" | "cod = Atom 6" | "cod = Atom 7" | "cod = Atom 8" | "cod = Atom 9"
    | "cod = Atom 10" | "cod = Atom 11" | "cod = Atom 12"
    by blast
  then show ?thesis
  proof cases
    case 1
    then show ?thesis
      using assms(2) unfolding unfold
      by (auto simp: on_ok_eq_Inr access_Inr simp del: One_nat_def split del: if_split intro: coded.nock sub)
  next
    case 2
    with assms(2) obtain hhed thed htel ttel where shape: "hed = u3nc hhed thed" "tel = u3nc htel ttel"
      unfolding unfold by (auto simp: on_ok_eq_Inr access_Inr split: if_splits)
    note IHs = sub [unfolded shape]
    show ?thesis
      using assms(2) unfolding 2 shape code.simps [of "u3nt (Atom 5) _ _"]
      by (cases "hhed = Atom 1"; cases "htel = Atom 1")
        (auto simp: on_ok_eq_Inr access_Inr simp del: One_nat_def split del: if_split
          intro: coded.same_lits coded.same coded.same_left coded.same_right IHs)
  next
    case 3
    with assms(2) obtain x y where shape: "tel = u3nc x y"
      unfolding unfold by (auto simp: on_ok_eq_Inr access_Inr split: if_splits)
    from assms(2) obtain a yep nop where parts: "code hed False False = Inr a" "n_formulaic x \<or> n_formulaic y"
        "(if n_formulaic x then code x los tel_o else Inr [Op BAIL]) = Inr yep"
        "(if n_formulaic y then code y los tel_o else Inr [Op BAIL]) = Inr nop"
      and c: "c = a @ Arg SBIN (Atom (length yep + 1)) # yep @ Arg SBIP (Atom (length nop)) # nop"
      unfolding 3 shape code.simps [of "u3nt (Atom 6) _ _"]
      by (clarsimp simp: on_ok_eq_Inr access_Inr simp del: One_nat_def Suc_eq_plus1 split del: if_split split: if_split_asm)
    show ?thesis
      unfolding 3 shape c by (rule coded.cond) (use parts sub mid [OF shape] in \<open>auto split: if_splits\<close>)
  next
    case 4
    then show ?thesis
      using assms(2) unfolding unfold by (auto simp: on_ok_eq_Inr access_Inr intro: coded.comp sub)
  next
    case 5
    then show ?thesis
      using assms(2) unfolding unfold
      by (auto simp: on_ok_eq_Inr access_Inr split del: if_split intro: coded.push sub)
  next
    case 6
    have mac: "code (kick_mac hed tel) los tel_o = Inr c \<Longrightarrow> coded (kick_mac hed tel) los tel_o c" for los tel_o c
      by (rule IH [unfolded 6, OF weight_simps])
    from 6 show ?thesis
      using assms(2) unfolding unfold
      by (cases "kick_is_mac hed")
        (auto simp: on_ok_eq_Inr access_Inr simp del: One_nat_def split: if_splits intro: coded.kick_mac mac
          coded.kick [where tel_o = True, simplified] coded.kick [where tel_o = False, simplified] sub)
  next
    case 7
    with assms(2) obtain axe x where shape: "hed = u3nc axe x"
      unfolding unfold by (auto simp: on_ok_eq_Inr access_Inr split: if_splits)
    show ?thesis
      using assms(2) unfolding 7 shape code.simps [of "u3nt (Atom 10) _ _"]
      by (auto simp: on_ok_eq_Inr access_Inr intro: coded.edit sub nef [OF shape])
  next
    case 8
    then show ?thesis
      using assms(2) hint unfolding unfold by (simp add: on_ok_eq_Inr access_Inr)
  next
    case 9
    then show ?thesis
      using assms(2) unfolding unfold
      by (auto simp: on_ok_eq_Inr access_Inr split del: if_split intro: coded.wish sub)
  qed
qed

theorem code_coded: "code fol los tel_o = Inr c \<Longrightarrow> coded fol los tel_o c"
proof (induction fol arbitrary: los tel_o c rule: measure_induct_rule [of weight])
  case (less fol)
  obtain cod arg where fol: "fol = u3nc cod arg"
    using less.prems by (cases fol) (auto simp: code.simps)
  have sub: "code cod los tel_o = Inr c \<Longrightarrow> coded cod los tel_o c" "code arg los tel_o = Inr c \<Longrightarrow> coded arg los tel_o c" for los tel_o c
    by (rule less.IH; simp add: fol)+
  note prems = less.prems [unfolded fol code.simps [of "u3nc cod arg"]]
  consider p q where "cod = u3nc p q" | "cod = Atom 0" | "cod = Atom 1" | "cod = Atom 3" | "cod = Atom 4"
    | "\<not> u3a_is_cell cod" "cod \<notin> {Atom 0, Atom 1, Atom 3, Atom 4}"
    by (cases cod) auto
  then show ?case
  proof cases
    case 1
    then show ?thesis
      using prems unfolding fol
      by (auto simp: on_ok_eq_Inr split del: if_split intro: coded.cons sub [unfolded 1])
  next
    case 2
    then show ?thesis
      using prems unfolding fol by (cases arg) (auto intro: coded.frag)
  next
    case 3
    then show ?thesis
      using prems unfolding fol by (auto simp del: One_nat_def intro: coded.lit)
  next
    case 4
    then show ?thesis
      using prems unfolding fol by (auto simp: on_ok_eq_Inr intro: coded.deep sub)
  next
    case 5
    then show ?thesis
      using prems unfolding fol by (auto simp: on_ok_eq_Inr intro: coded.bump sub)
  next
    case 6
    then obtain hed tel where arg: "arg = u3nc hed tel"
      using prems by (cases arg) (auto split: if_splits)
    have "cod \<in> {Atom 2, Atom 5, Atom 6, Atom 7, Atom 8, Atom 9, Atom 10, Atom 11, Atom 12}"
      using 6 prems by (auto split: if_splits)
    then show ?thesis
      using code_coded_pair [of cod hed tel los tel_o c] less.IH less.prems unfolding fol arg by blast
  qed
qed

end
