(* ===== verification/Nock_Layout.thy ===== *)
theory Nock_Layout
  imports Nock_Burn Nock_Code
begin

text \<open>
  The assembler lays out code: every operation is at a position in the bytes, where fetching finds the
  label and the argument of the operation, the next operation is at the index behind it, and a skip
  over \<open>n\<close> operations leads to the position of the operation that is \<open>n\<close> further.
\<close>

section \<open>The operations of the compiler\<close>

text \<open>
  The compiler only emits these operations, and emits the ones with a byte or a short as argument for
  arguments that fit.
\<close>

definition plain_codes :: "opcode set" where
  "plain_codes = {BAIL, COPY, SWAP, TOSS, AUTO, AULT, SNOC, SNOL, HEAD, HELD, TAIL, TALL, LIT0, LIT1, LIL0, LIL1,
     NOLK, NOCT, NOCK, DEEP, BUMP, SAM0, SAM1, SAME, SALM, WILS, WISH, DROP, HECK, SLOG, BAST, BALT, SAVE,
     HILK, HILL, HINK, HINL, MUTH, KUTH, MUTT, KUTT, MUSM, KUSM}"

fun op_ok :: "op \<Rightarrow> bool" where
  "op_ok (Op cod) \<longleftrightarrow> cod \<in> plain_codes"
| "op_ok (Arg cod arg) \<longleftrightarrow>
     cod \<in> {FABK, FABL, LITB, LILB, MUTB, KUTB, SAMB} \<and> noun_le arg 0xFF \<or>
     cod \<in> {FASK, FASL, LITS, LILS, MUTS, KUTS, SAMS} \<and> noun_le arg 0xFFFF \<or>
     cod \<in> {FIBK, FIBL, LIBK, LIBL, KITB, MITB, SANB, BUSH, HILB, HINB, KICB, TICB, SBIP, SBIN, SKIB, SLIB}"

lemma op_ok_comp: "list_all op_ok (comp_frag arg los)" "op_ok (comp_lit arg los)" "op_ok (comp_same arg)" "op_ok (comp_edit arg los)"
  by (auto simp: comp_frag_def comp_lit_def comp_same_def comp_edit_def plain_codes_def)

lemma coded_ok: "coded fol los tel_o c \<Longrightarrow> list_all op_ok c"
  by (induction rule: coded.induct) (auto simp: op_ok_comp plain_codes_def split: if_splits)

section \<open>Code in a program\<close>

text \<open>The label and the argument that an operation is fetched as, skips and registrations apart.\<close>

fun label :: "op \<Rightarrow> op" where
  "label (Op cod) =
     (if cod = LIT0 then Arg LITB (Atom 0) else if cod = LIT1 then Arg LITB (Atom 1)
      else if cod = LIL0 then Arg LILB (Atom 0) else if cod = LIL1 then Arg LILB (Atom 1)
      else if cod = SAM0 then Arg SAMB (Atom 0) else if cod = SAM1 then Arg SAMB (Atom 1)
      else Op cod)"
| "label (Arg cod arg) =
     (if cod \<in> {FABK, FASK, FIBK} then Arg FABK arg else if cod \<in> {FABL, FASL, FIBL} then Arg FABL arg
      else if cod \<in> {LITB, LITS, LIBK} then Arg LITB arg else if cod \<in> {LILB, LILS, LIBL} then Arg LILB arg
      else if cod \<in> {MUTB, MUTS, MITB} then Arg MUTB arg else if cod \<in> {KUTB, KUTS, KITB} then Arg KUTB arg
      else if cod \<in> {SAMB, SAMS} then Arg SAMB arg else Arg cod arg)"

text \<open>An operation at the index \<open>i\<close>, with \<open>i'\<close> behind it and the targets \<open>tgt\<close> of skips.\<close>

fun placed :: "u3n_prog \<Rightarrow> nat \<Rightarrow> op \<Rightarrow> nat \<Rightarrow> (nat \<Rightarrow> nat) \<Rightarrow> bool" where
  "placed p i (Op cod) i' tgt \<longleftrightarrow>
     (if cod \<in> {BAST, BALT} then \<exists>r. fetch p i = Inr (Arg cod r, i') else fetch p i = Inr (label (Op cod), i'))"
| "placed p i (Arg cod arg) i' tgt \<longleftrightarrow>
     (if cod \<in> {SBIP, SBIN} then
        \<exists>n b. arg = Atom n \<and> fetch p i = Inr (Arg cod (Atom b), i') \<and> i' + b = tgt n
      else if cod \<in> {SKIB, SLIB} then
        \<exists>n key b. arg = u3nc (Atom n) key \<and> fetch p i = Inr (Arg cod (u3nc (Atom b) key), i') \<and> i' + b = tgt n
      else fetch p i = Inr (label (Arg cod arg), i'))"

text \<open>A list of operations whose first is number \<open>a\<close>; \<open>pos\<close> gives the indices of all operations.\<close>

fun code_at :: "u3n_prog \<Rightarrow> (nat \<Rightarrow> nat) \<Rightarrow> nat \<Rightarrow> op list \<Rightarrow> bool" where
  "code_at p pos a [] \<longleftrightarrow> True"
| "code_at p pos a (x # xs) \<longleftrightarrow> placed p (pos a) x (pos (a + 1)) (\<lambda>n. pos (a + 1 + n)) \<and> code_at p pos (a + 1) xs"

lemma code_at_append [simp]:
  "code_at p pos a (xs @ ys) \<longleftrightarrow> code_at p pos a xs \<and> code_at p pos (a + length xs) ys"
  by (induction xs arbitrary: a) auto

section \<open>Fetching from assembled bytes\<close>

lemma n_byte_append [simp]: "n_byte (f @ r) (length f + k) = on_ok (n_byte r k) (\<lambda>(b, i). Inr (b, length f + i))"
  by (simp add: n_byte_def nth_append)

lemma n_byte_Cons: "n_byte (b # r) 0 = Inr (b, 1)" "n_byte (b # r) (Suc k) = on_ok (n_byte r k) (\<lambda>(c, i). Inr (c, Suc i))"
  by (simp_all add: n_byte_def)

lemma reads_append:
  "n_resh (f @ r) (length f + k) = on_ok (n_resh r k) (\<lambda>(b, i). Inr (b, length f + i))"
  "n_rewo (f @ r) (length f + k) = on_ok (n_rewo r k) (\<lambda>(b, i). Inr (b, length f + i))"
  by (simp_all add: n_resh_def n_rewo_def case_prod_unfold)

definition moves :: "(nat list \<Rightarrow> nat \<Rightarrow> (nat \<times> nat) jet) \<Rightarrow> bool" where
  "moves rd \<longleftrightarrow> (\<forall>f r k. rd (f @ r) (length f + k) = on_ok (rd r k) (\<lambda>(b, i). Inr (b, length f + i)))"

lemma fetch_table_moves: "map_of fetch_table cod = Some (rd, val, lab) \<Longrightarrow> moves rd"
  by (drule map_of_SomeD) (auto simp: fetch_table_def moves_def reads_append)

lemma fetch_append:
  assumes "ops_y p = f @ r"
  shows "fetch p (length f) = on_ok (fetch (p\<lparr>ops_y := r\<rparr>) 0) (\<lambda>(x, i). Inr (x, length f + i))"
proof -
  have val: "val (p\<lparr>ops_y := r\<rparr>) x = val p x" if "map_of fetch_table cod = Some (rd, val, lab)" for cod rd val lab x
    using map_of_SomeD [OF that] by (auto simp: fetch_table_def lit_at_def sit_at_def sot_at_def rit_at_def num_arg_def)
  have rd: "rd (f @ r) (length f + k) = on_ok (rd r k) (\<lambda>(b, i). Inr (b, length f + i))"
    if "map_of fetch_table cod = Some (rd, val, lab)" for cod rd val lab k
    using fetch_table_moves [OF that] by (simp add: moves_def)
  show ?thesis
    using n_byte_append [of f r 0]
    by (cases "n_byte r 0") (auto simp: fetch_def assms val rd case_prod_unfold split: option.splits)
qed


text \<open>Opcodes with no argument, and with an argument read from the bytes.\<close>

lemma fetch_keys: "fst ` set fetch_table =
  {FISK, FIBK, FASK, FABK, FISL, FIBL, FASL, FABL, LITB, LITS, LIBK, LISK, LILB, LILS, LIBL, LISL, SAMB, SAMS, SANS, SANB,
   SBIP, SIPS, SWIP, SWIN, SINS, SBIN, KICS, KICB, TICS, TICB, SUSH, BUSH, SAST, BAST, SALT, BALT, SKIS, SKIB, SLIS, SLIB,
   HILB, HILS, HINB, HINS, KITB, KITS, KUTS, KUTB, MITB, MITS, MUTS, MUTB}"
  by (simp add: fetch_table_def)

lemma plain_not_key: "cod \<in> plain_codes \<Longrightarrow> cod \<notin> {BAST, BALT} \<Longrightarrow> map_of fetch_table cod = None \<and> cod < LAST"
proof -
  have "\<forall>cod \<in> plain_codes. cod \<in> {BAST, BALT} \<or> cod \<notin> fst ` set fetch_table \<and> cod < LAST"
    unfolding fetch_keys plain_codes_def by simp
  then show "cod \<in> plain_codes \<Longrightarrow> cod \<notin> {BAST, BALT} \<Longrightarrow> map_of fetch_table cod = None \<and> cod < LAST"
    unfolding map_of_eq_None_iff by blast
qed

lemma fetch_plain:
  "cod \<in> plain_codes \<Longrightarrow> cod \<notin> {BAST, BALT} \<Longrightarrow> fetch (p\<lparr>ops_y := cod # r\<rparr>) 0 = Inr (label (Op cod), 1)"
  using plain_not_key [of cod] by (auto simp: fetch_def n_byte_def)

definition read_as :: "opcode \<Rightarrow> (nat list \<Rightarrow> nat \<Rightarrow> (nat \<times> nat) jet) \<Rightarrow> (u3n_prog \<Rightarrow> nat \<Rightarrow> noun jet) \<Rightarrow> opcode \<Rightarrow> bool" where
  "read_as cod rd val lab \<longleftrightarrow> cod < LAST \<and> cod \<notin> {LIT0, LIT1, LIL0, LIL1, SAM0, SAM1} \<and> map_of fetch_table cod = Some (rd, val, lab)"

lemma read_as_val: "read_as cod rd val lab \<Longrightarrow> val (p\<lparr>ops_y := r\<rparr>) x = val p x"
  unfolding read_as_def
  by (elim conjE, drule map_of_SomeD)
    (auto simp: fetch_table_def lit_at_def sit_at_def sot_at_def rit_at_def num_arg_def)

lemma fetch_arg:
  assumes "read_as cod rd val lab" and "rd (cod # r) 1 = Inr (x, i)"
  shows "fetch (p\<lparr>ops_y := cod # r\<rparr>) 0 = on_ok (val p x) (\<lambda>a. Inr (Arg lab a, i))"
  using assms read_as_val [OF assms(1)] by (auto simp: read_as_def fetch_def n_byte_Cons)

lemma reads:
  "n_byte (cod # x # r) (Suc 0) = Inr (x, 2)"
  "n_resh (cod # x # y # r) (Suc 0) = Inr (x + 0x100 * y, 3)"
  "n_rewo (cod # x # y # z # u # r) (Suc 0) = Inr (x + 0x100 * y + 0x10000 * z + 0x1000000 * u, 5)"
  using Suc_numeral [of "Num.Bit0 num.One"] Suc_numeral [of "Num.Bit0 (Num.Bit0 num.One)"]
  by (simp_all add: n_resh_def n_rewo_def n_byte_Cons numeral_2_eq_2 numeral_3_eq_3)

definition inx_bytes :: "nat \<Rightarrow> opcode \<Rightarrow> nat list" where
  "inx_bytes x cod = (if x \<le> 0xFF then [cod, x] else [cod + 1, x mod 0x100, x div 0x100 mod 0x100])"

lemma n_prog_asm_inx_bytes: "n_prog_asm_inx x cod = asm_put (inx_bytes x cod)"
  by (simp add: n_prog_asm_inx_def inx_bytes_def)

lemma two_bytes: "x \<le> 0xFFFF \<Longrightarrow> x mod 0x100 + 0x100 * (x div 0x100 mod 0x100) = (x :: nat)"
proof -
  assume "x \<le> 0xFFFF"
  then have "x div 0x100 < 0x100"
    by (simp add: div_less_iff_less_mult)
  then show ?thesis
    using mod_mult_div_eq [of x "0x100"] by simp
qed


lemma fetch_at:
  assumes "ops_y p = f @ bs @ r" and "fetch (p\<lparr>ops_y := bs @ r\<rparr>) 0 = Inr (y, length bs)"
  shows "fetch p (length f) = Inr (y, length f + length bs)"
  using fetch_append [OF assms(1)] assms(2) by simp

lemma fetch_inx:
  assumes "read_as cod n_byte val lab" and "read_as (cod + 1) n_resh val lab" and "x \<le> 0xFFFF" and "val p x = Inr a"
  shows "fetch (p\<lparr>ops_y := inx_bytes x cod @ r\<rparr>) 0 = Inr (Arg lab a, length (inx_bytes x cod))"
  using assms fetch_arg [OF assms(1), of "x # r" x 2 p] two_bytes [OF assms(3)]
    fetch_arg [OF assms(2), of "x mod 0x100 # x div 0x100 mod 0x100 # r" x 3 p]
  by (simp add: inx_bytes_def reads)

lemma reads_lit:
  "cod \<in> {FIBK, FIBL, LIBK, LIBL, BUSH, SANB, KITB, MITB, HILB, HINB} \<Longrightarrow>
    \<exists>lab. read_as cod n_byte lit_at lab \<and> read_as (cod + 1) n_resh lit_at lab \<and> (\<forall>a. label (Arg cod a) = Arg lab a)"
  by (elim insertE emptyE; simp add: read_as_def fetch_table_def)

lemma reads_others:
  "cod \<in> {KICB, TICB} \<Longrightarrow> read_as cod n_byte sit_at cod \<and> read_as (cod + 1) n_resh sit_at cod"
  "cod \<in> {SKIB, SLIB} \<Longrightarrow> read_as cod n_byte sot_at cod \<and> read_as (cod + 1) n_resh sot_at cod"
  "cod \<in> {BAST, BALT} \<Longrightarrow> read_as cod n_byte rit_at cod \<and> read_as (cod + 1) n_resh rit_at cod"
  "cod \<in> {SBIP, SBIN} \<Longrightarrow> read_as cod n_byte num_arg cod \<and> read_as (cod + 1) n_resh num_arg cod \<and> read_as (cod + 2) n_rewo num_arg cod"
  by (elim insertE emptyE; simp add: read_as_def fetch_table_def)+

lemma reads_num:
  "cod \<in> {FABK, FABL, LITB, LILB, MUTB, KUTB, SAMB} \<Longrightarrow> \<exists>lab. read_as cod n_byte num_arg lab \<and> (\<forall>a. label (Arg cod a) = Arg lab a)"
  "cod \<in> {FASK, FASL, LITS, LILS, MUTS, KUTS, SAMS} \<Longrightarrow> \<exists>lab. read_as cod n_resh num_arg lab \<and> (\<forall>a. label (Arg cod a) = Arg lab a)"
  by (elim insertE emptyE; simp add: read_as_def fetch_table_def)+

end
