(* ===== verification/Nock_Asm.thy ===== *)
theory Nock_Asm
  imports Nock_Layout
begin

text \<open>
  The assembler is correct: the sizes that \<^verbatim>\<open>_n_melt\<close> predicts are those of the bytes that
  \<^verbatim>\<open>_n_prog_asm\<close> writes, so the buffer is filled exactly, and the program has the code of the formula at
  its positions, with a halt behind it.
\<close>

section \<open>One operation\<close>

text \<open>The tables of a program grow while it is assembled, and indices stay valid.\<close>

definition extends :: "u3n_prog \<Rightarrow> u3n_prog \<Rightarrow> bool" where
  "extends q p \<longleftrightarrow> (\<exists>a. non p = non q @ a) \<and> (\<exists>a. sot_u p = sot_u q @ a) \<and> (\<exists>a. sit_u p = sit_u q @ a) \<and> rit_u q \<le> rit_u p"

text \<open>The counters of the measurement are the lengths of the tables.\<close>

definition agree :: "melt \<Rightarrow> asm \<Rightarrow> bool" where
  "agree m s \<longleftrightarrow> reg_w m = rit_u (asm_prog s) \<and> lit_w m = length (non (asm_prog s)) \<and>
     mem_w m = length (sot_u (asm_prog s)) \<and> cal_w m = length (sit_u (asm_prog s))"

text \<open>
  What both passes do with one operation: \<open>sz\<close> bytes are predicted and written, a skip is predicted and
  used, and the operation is placed in every program that ends with what is written.
\<close>

definition asm_fits :: "op \<Rightarrow> nat list \<Rightarrow> melt \<Rightarrow> asm \<Rightarrow> nat \<Rightarrow> melt \<Rightarrow> asm \<Rightarrow> bool" where
  "asm_fits x siz m s sz m' s' \<longleftrightarrow> (\<exists>bs new.
     ops_y (asm_prog s') = bs @ ops_y (asm_prog s) \<and> length bs = sz \<and> 0 < sz \<and> sz \<le> 5 \<and> i_w s = i_w s' + sz \<and>
     agree m' s' \<and> extends (asm_prog s) (asm_prog s') \<and> byc_w m' = byc_w m \<and>
     melt_sip m' = new @ melt_sip m \<and> length new \<le> 1 \<and> asm_sip s' = drop (length new) (asm_sip s) \<and>
     (\<forall>p f tgt. extends (asm_prog s') p \<longrightarrow> ops_y p = f @ ops_y (asm_prog s') \<longrightarrow> asm_sip s = new @ asm_sip s' \<longrightarrow>
        sum_list siz < 2 ^ 32 \<longrightarrow> (\<forall>n \<le> length siz. tgt n = length f + sz + sum_list (take n siz)) \<longrightarrow>
        placed p (length f) x (length f + sz) tgt))"

lemma asm_put_Inr:
  "asm_put bs s = Inr s' \<longleftrightarrow> length bs \<le> i_w s \<and>
     s' = s\<lparr>i_w := i_w s - length bs, asm_prog := asm_prog s\<lparr>ops_y := bs @ ops_y (asm_prog s)\<rparr>\<rparr>"
  by (auto simp: asm_put_def)

lemma inx_size_Inr: "inx_size x = Inr sz \<longleftrightarrow> x \<le> 0xFFFF \<and> sz = length (inx_bytes x cod)"
  by (auto simp: inx_size_def inx_bytes_def)

lemma inx_bytes_length: "0 < length (inx_bytes x cod)" "length (inx_bytes x cod) \<le> 5"
  by (simp_all add: inx_bytes_def)

lemma extends_refl [simp]: "extends p p"
  by (simp add: extends_def)

lemma extends_ops [simp]: "extends p (p\<lparr>ops_y := b\<rparr>)"
  by (simp add: extends_def)

lemma fits_plain:
  assumes "x = Op cod" and "cod \<in> plain_codes" and "cod \<notin> {BAST, BALT}"
    and "asm_op x s = Inr s'" and "melt_op x siz m = Inr (sz, m')" and "agree m s"
  shows "asm_fits x siz m s sz m' s'"
proof -
  have cod: "cod mod 0x100 = cod"
    using plain_not_key [OF assms(2,3)] by simp
  have s': "asm_put [cod] s = Inr s'" and "sz = 1" "m' = m"
    using assms(3-5) cod by (auto simp: assms(1) asm_op_def melt_op_def split: if_splits)
  then show ?thesis
    using assms(3,6) fetch_plain [OF assms(2,3)] fetch_at [where bs = "[cod]"]
    by (auto simp: asm_fits_def assms(1) asm_put_Inr agree_def simp del: label.simps intro!: exI [of _ "[cod]"])
qed

lemma fits_byte:
  assumes "x = Arg cod (Atom a)" and "cod \<in> {FABK, FABL, LITB, LILB, MUTB, KUTB, SAMB}" and "a \<le> 0xFF"
    and "asm_op x s = Inr s'" and "melt_op x siz m = Inr (sz, m')" and "agree m s"
  shows "asm_fits x siz m s sz m' s'"
proof -
  obtain lab where lab: "read_as cod n_byte num_arg lab" "\<And>a. label (Arg cod a) = Arg lab a"
    using reads_num(1) [OF assms(2)] by blast
  have "asm_put [cod, a] s = Inr s' \<and> sz = 2 \<and> m' = m"
    using assms(2-5) by (elim insertE emptyE; simp add: assms(1) asm_op_def melt_op_def arg_num_def n_arg_def)
  then have s': "asm_put [cod, a] s = Inr s'" "sz = 2" "m' = m"
    by auto
  have "fetch (p\<lparr>ops_y := [cod, a] @ r\<rparr>) 0 = Inr (Arg lab (Atom a), 2)" for p r
    using fetch_arg [OF lab(1), of "a # r" a 2 p] by (simp add: reads num_arg_def)
  moreover have "cod \<notin> {SBIP, SBIN, SKIB, SLIB}"
    using assms(2) by auto
  ultimately show ?thesis
    using s' assms(6) fetch_at [where bs = "[cod, a]"] lab(2)
    by (auto simp: asm_fits_def assms(1) asm_put_Inr agree_def simp del: label.simps intro!: exI [of _ "[cod, a]"])
qed


lemma fits_short:
  assumes "x = Arg cod (Atom a)" and "cod \<in> {FASK, FASL, LITS, LILS, MUTS, KUTS, SAMS}" and "a \<le> 0xFFFF"
    and "asm_op x s = Inr s'" and "melt_op x siz m = Inr (sz, m')" and "agree m s"
  shows "asm_fits x siz m s sz m' s'"
proof -
  let ?bs = "[cod, a mod 0x100, a div 0x100 mod 0x100]"
  obtain lab where lab: "read_as cod n_resh num_arg lab" "\<And>a. label (Arg cod a) = Arg lab a"
    using reads_num(2) [OF assms(2)] by blast
  have "asm_put ?bs s = Inr s' \<and> sz = 3 \<and> m' = m"
    using assms(2-5) by (elim insertE emptyE; simp add: assms(1) asm_op_def melt_op_def arg_num_def n_arg_def)
  then have s': "asm_put ?bs s = Inr s'" "sz = 3" "m' = m"
    by auto
  have "fetch (p\<lparr>ops_y := ?bs @ r\<rparr>) 0 = Inr (Arg lab (Atom a), 3)" for p r
    using fetch_arg [OF lab(1), of "a mod 0x100 # a div 0x100 mod 0x100 # r" a 3 p] two_bytes [OF assms(3)]
    by (simp add: reads num_arg_def)
  moreover have "cod \<notin> {SBIP, SBIN, SKIB, SLIB}"
    using assms(2) by auto
  ultimately show ?thesis
    using s' assms(6) fetch_at [where bs = ?bs] lab(2)
    by (auto simp: asm_fits_def assms(1) asm_put_Inr agree_def simp del: label.simps intro!: exI [of _ ?bs])
qed

text \<open>Operations with an index into a table.\<close>

lemma fits_lit:
  assumes "x = Arg cod a" and "cod \<in> {FIBK, FIBL, LIBK, LIBL, BUSH, SANB, KITB, MITB, HILB, HINB}"
    and "asm_op x s = Inr s'" and "melt_op x siz m = Inr (sz, m')" and "agree m s"
  shows "asm_fits x siz m s sz m' s'"
proof -
  let ?i = "length (non (asm_prog s))" and ?p = "asm_prog s"
  let ?bs = "inx_bytes ?i cod"
  obtain lab where lab: "read_as cod n_byte lit_at lab" "read_as (cod + 1) n_resh lit_at lab" "\<And>a. label (Arg cod a) = Arg lab a"
    using reads_lit [OF assms(2)] by blast
  have "on_ok (asm_put ?bs s) (\<lambda>s. Inr (s\<lparr>asm_prog := asm_prog s\<lparr>non := non (asm_prog s) @ [a]\<rparr>\<rparr>)) = Inr s' \<and>
      inx_size ?i = Inr sz \<and> m' = m\<lparr>lit_w := lit_w m + 1\<rparr>"
    using assms(2-4) agree_def [of m s] assms(5)
    by (elim insertE emptyE; simp add: assms(1) asm_op_def melt_op_def n_prog_asm_inx_bytes on_ok_eq_Inr)
  then have s': "length ?bs \<le> i_w s" "sz = length ?bs" "?i \<le> 0xFFFF" "m' = m\<lparr>lit_w := lit_w m + 1\<rparr>"
      "s' = s\<lparr>i_w := i_w s - length ?bs, asm_prog := ?p\<lparr>ops_y := ?bs @ ops_y ?p, non := non ?p @ [a]\<rparr>\<rparr>"
    by (auto simp: on_ok_eq_Inr asm_put_Inr inx_size_Inr [where cod = cod])
  have "fetch (p\<lparr>ops_y := ?bs @ r\<rparr>) 0 = Inr (Arg lab a, length ?bs)" if "non p = non ?p @ a # u" for p r u
    by (rule fetch_inx [OF lab(1,2) s'(3)]) (simp add: lit_at_def that nth_append)
  moreover have "cod \<notin> {SBIP, SBIN, SKIB, SLIB}"
    using assms(2) by auto
  ultimately show ?thesis
    using s' assms(5) fetch_at [where bs = ?bs] lab(3) inx_bytes_length [of ?i cod]
    by (auto simp: asm_fits_def assms(1) agree_def extends_def simp del: label.simps intro!: exI [of _ ?bs])
qed

lemma fits_call:
  assumes "x = Arg cod a" and "cod \<in> {KICB, TICB}"
    and "asm_op x s = Inr s'" and "melt_op x siz m = Inr (sz, m')" and "agree m s"
  shows "asm_fits x siz m s sz m' s'"
proof -
  let ?i = "length (sit_u (asm_prog s))" and ?p = "asm_prog s"
  let ?bs = "inx_bytes ?i cod"
  have lab: "read_as cod n_byte sit_at cod" "read_as (cod + 1) n_resh sit_at cod" "label (Arg cod a) = Arg cod a"
    using reads_others(1) [OF assms(2)] assms(2) by auto
  have "on_ok (asm_put ?bs s) (\<lambda>s. Inr (s\<lparr>asm_prog := asm_prog s\<lparr>sit_u := sit_u (asm_prog s) @ [a]\<rparr>\<rparr>)) = Inr s' \<and>
      inx_size ?i = Inr sz \<and> m' = m\<lparr>cal_w := cal_w m + 1\<rparr>"
    using assms(2-4) agree_def [of m s] assms(5)
    by (elim insertE emptyE; simp add: assms(1) asm_op_def melt_op_def n_prog_asm_inx_bytes on_ok_eq_Inr)
  then have s': "length ?bs \<le> i_w s" "sz = length ?bs" "?i \<le> 0xFFFF" "m' = m\<lparr>cal_w := cal_w m + 1\<rparr>"
      "s' = s\<lparr>i_w := i_w s - length ?bs, asm_prog := ?p\<lparr>ops_y := ?bs @ ops_y ?p, sit_u := sit_u ?p @ [a]\<rparr>\<rparr>"
    by (auto simp: on_ok_eq_Inr asm_put_Inr inx_size_Inr [where cod = cod])
  have "fetch (p\<lparr>ops_y := ?bs @ r\<rparr>) 0 = Inr (Arg cod a, length ?bs)" if "sit_u p = sit_u ?p @ a # u" for p r u
    by (rule fetch_inx [OF lab(1,2) s'(3)]) (simp add: sit_at_def that nth_append)
  moreover have "cod \<notin> {SBIP, SBIN, SKIB, SLIB}"
    using assms(2) by auto
  ultimately show ?thesis
    using s' assms(5) fetch_at [where bs = ?bs] lab(3) inx_bytes_length [of ?i cod]
    by (auto simp: asm_fits_def assms(1) agree_def extends_def simp del: label.simps intro!: exI [of _ ?bs])
qed

lemma fits_reg:
  assumes "x = Op cod" and "cod \<in> {BAST, BALT}"
    and "asm_op x s = Inr s'" and "melt_op x siz m = Inr (sz, m')" and "agree m s"
  shows "asm_fits x siz m s sz m' s'"
proof -
  let ?i = "rit_u (asm_prog s)" and ?p = "asm_prog s"
  let ?bs = "inx_bytes ?i cod"
  have lab: "read_as cod n_byte rit_at cod" "read_as (cod + 1) n_resh rit_at cod"
    using reads_others(3) [OF assms(2)] by auto
  have "on_ok (asm_put ?bs s) (\<lambda>s. Inr (s\<lparr>asm_prog := asm_prog s\<lparr>rit_u := rit_u (asm_prog s) + 1\<rparr>\<rparr>)) = Inr s' \<and>
      inx_size ?i = Inr sz \<and> m' = m\<lparr>reg_w := reg_w m + 1\<rparr>"
    using assms(2-4) agree_def [of m s] assms(5)
    by (elim insertE emptyE; simp add: assms(1) asm_op_def melt_op_def n_prog_asm_inx_bytes on_ok_eq_Inr)
  then have s': "length ?bs \<le> i_w s" "sz = length ?bs" "?i \<le> 0xFFFF" "m' = m\<lparr>reg_w := reg_w m + 1\<rparr>"
      "s' = s\<lparr>i_w := i_w s - length ?bs, asm_prog := ?p\<lparr>ops_y := ?bs @ ops_y ?p, rit_u := rit_u ?p + 1\<rparr>\<rparr>"
    by (auto simp: on_ok_eq_Inr asm_put_Inr inx_size_Inr [where cod = cod])
  have "fetch (p\<lparr>ops_y := ?bs @ r\<rparr>) 0 = Inr (Arg cod (Atom ?i), length ?bs)" if "?i < rit_u p" for p r
    by (rule fetch_inx [OF lab s'(3)]) (simp add: rit_at_def that)
  then show ?thesis
    using s' assms(2,5) fetch_at [where bs = ?bs] inx_bytes_length [of ?i cod]
    by (auto simp: asm_fits_def assms(1) agree_def extends_def simp del: label.simps intro!: exI [of _ ?bs])
qed


text \<open>Skips: the number of bytes comes from the measurement.\<close>

definition skip_bytes :: "nat \<Rightarrow> opcode \<Rightarrow> nat list" where
  "skip_bytes sip cod =
     (if sip \<le> 0xFF then [cod, sip] else if sip \<le> 0xFFFF then [cod + 1, sip mod 0x100, sip div 0x100]
      else [cod + 2, sip mod 0x100, sip div 0x100 mod 0x100, sip div 0x10000 mod 0x100, sip div 0x1000000 mod 0x100])"

lemma asm_skip_bytes: "asm_skip sip cod = asm_put (skip_bytes sip cod)"
  by (simp add: asm_skip_def skip_bytes_def)

lemma four_bytes:
  assumes "x < 2 ^ 32"
  shows "x mod 0x100 + 0x100 * (x div 0x100 mod 0x100) + 0x10000 * (x div 0x10000 mod 0x100) + 0x1000000 * (x div 0x1000000 mod 0x100) = (x :: nat)"
proof -
  have top: "x div 0x1000000 mod 0x100 = x div 0x1000000"
    using assms by (intro mod_less) (simp add: div_less_iff_less_mult)
  have "x mod 0x100 + 0x100 * (x div 0x100) = x"
      "x div 0x100 mod 0x100 + 0x100 * (x div 0x10000) = x div 0x100"
      "x div 0x10000 mod 0x100 + 0x100 * (x div 0x1000000) = x div 0x10000"
    using mod_mult_div_eq [of x "0x100"] mod_mult_div_eq [of "x div 0x100" "0x100"] mod_mult_div_eq [of "x div 0x10000" "0x100"]
    by (simp_all add: div_mult2_eq [symmetric])
  with top show ?thesis
    by linarith
qed

lemma fetch_skip:
  assumes "cod \<in> {SBIP, SBIN}" and "sip < 2 ^ 32"
  shows "fetch (p\<lparr>ops_y := skip_bytes sip cod @ r\<rparr>) 0 = Inr (Arg cod (Atom sip), length (skip_bytes sip cod))"
proof -
  have lab: "read_as cod n_byte num_arg cod" "read_as (cod + 1) n_resh num_arg cod" "read_as (cod + 2) n_rewo num_arg cod"
    using reads_others(4) [OF assms(1)] by auto
  let ?word = "[sip mod 0x100, sip div 0x100 mod 0x100, sip div 0x10000 mod 0x100, sip div 0x1000000 mod 0x100]"
  have "n_rewo ((cod + 2) # ?word @ r) 1 = Inr (sip, 5)"
    using reads(3) [of "cod + 2" "sip mod 0x100" "sip div 0x100 mod 0x100" "sip div 0x10000 mod 0x100" "sip div 0x1000000 mod 0x100" r]
    unfolding four_bytes [OF assms(2)] by simp
  from fetch_arg [OF lab(3) this] have long: "fetch (p\<lparr>ops_y := (cod + 2) # ?word @ r\<rparr>) 0 = Inr (Arg cod (Atom sip), 5)"
    by (simp add: num_arg_def)
  have short: "fetch (p\<lparr>ops_y := [cod, sip] @ r\<rparr>) 0 = Inr (Arg cod (Atom sip), 2)"
      "fetch (p\<lparr>ops_y := [cod + 1, sip mod 0x100, sip div 0x100] @ r\<rparr>) 0 = Inr (Arg cod (Atom sip), 3)"
    using fetch_arg [OF lab(1), of "sip # r" sip 2 p] mod_mult_div_eq [of sip "0x100"]
      fetch_arg [OF lab(2), of "sip mod 0x100 # sip div 0x100 # r" sip 3 p]
    by (simp_all add: reads num_arg_def)
  consider "sip \<le> 0xFF" | "0xFF < sip" "sip \<le> 0xFFFF" | "0xFFFF < sip"
    by linarith
  then show ?thesis
  proof cases
    case 1
    then show ?thesis
      using short(1) by (simp add: skip_bytes_def)
  next
    case 2
    then show ?thesis
      using short(2) by (simp add: skip_bytes_def)
  next
    case 3
    then have "skip_bytes sip cod = (cod + 2) # ?word"
      by (simp add: skip_bytes_def)
    then show ?thesis
      using long by simp
  qed
qed

lemma arg_num_Inr: "arg_num a = Inr n \<longleftrightarrow> a = Atom n"
  by (cases a) (auto simp: arg_num_def)

lemma skip_size_Inr: "skip_size n siz = Inr tot \<longleftrightarrow> n \<le> length siz \<and> tot = sum_list (take n siz) mod 2 ^ 32"
  by (auto simp: skip_size_def)

lemma sum_list_take_le: "sum_list (take n xs) \<le> sum_list (xs :: nat list)"
  by (metis append_take_drop_id le_add1 sum_list_append)

lemma skip_exact: "sum_list siz < 2 ^ 32 \<Longrightarrow> sum_list (take n siz) mod 2 ^ 32 = sum_list (take n (siz :: nat list))"
  using sum_list_take_le [of n siz] by (intro mod_less) linarith

lemma fits_skip:
  assumes "x = Arg cod a" and "cod \<in> {SBIP, SBIN}"
    and "asm_op x s = Inr s'" and "melt_op x siz m = Inr (sz, m')" and "agree m s"
    and "\<And>new. melt_sip m' = new @ melt_sip m \<Longrightarrow> length new \<le> 1 \<Longrightarrow> \<exists>rest. asm_sip s = new @ rest"
  shows "asm_fits x siz m s sz m' s'"
proof -
  from assms(2,4) obtain n tot where n: "a = Atom n" "skip_size n siz = Inr tot" "m' = m\<lparr>melt_sip := tot # melt_sip m\<rparr>"
      "sz = (if tot \<le> 0xFF then 2 else if tot \<le> 0xFFFF then 3 else 5)"
    by (elim insertE emptyE; cases a) (auto simp: assms(1) melt_op_def arg_num_def on_ok_eq_Inr)
  obtain rest where rest: "asm_sip s = tot # rest"
    using assms(6) [of "[tot]"] n(3) by auto
  let ?bs = "skip_bytes tot cod"
  have s': "asm_put ?bs (s\<lparr>asm_sip := rest\<rparr>) = Inr s'"
    using assms(2,3) by (elim insertE emptyE; simp add: assms(1) asm_op_def asm_sip_pop_def rest asm_skip_bytes)
  have tot: "tot < 2 ^ 32" "sz = length ?bs"
    using n(2,4) by (auto simp: skip_size_Inr skip_bytes_def)
  show ?thesis
    using s' n assms(2,5) rest tot(2) fetch_at [where bs = ?bs] fetch_skip [OF assms(2) tot(1)] skip_exact [of siz n]
    by (auto simp: asm_fits_def assms(1) agree_def asm_put_Inr skip_size_Inr intro!: exI [of _ ?bs])
qed

lemma fits_memo:
  assumes "x = Arg cod a" and "cod \<in> {SKIB, SLIB}"
    and "asm_op x s = Inr s'" and "melt_op x siz m = Inr (sz, m')" and "agree m s"
    and "\<And>new. melt_sip m' = new @ melt_sip m \<Longrightarrow> length new \<le> 1 \<Longrightarrow> \<exists>rest. asm_sip s = new @ rest"
  shows "asm_fits x siz m s sz m' s'"
proof -
  let ?i = "length (sot_u (asm_prog s))" and ?p = "asm_prog s"
  let ?bs = "inx_bytes ?i cod"
  from assms(2,4) obtain n key tot where n: "a = u3nc (Atom n) key" "skip_size n siz = Inr tot" "inx_size (mem_w m) = Inr sz"
      "m' = m\<lparr>melt_sip := tot # melt_sip m, mem_w := mem_w m + 1\<rparr>"
    by (elim insertE emptyE)
      (auto simp: assms(1) melt_op_def arg_num_Inr on_ok_eq_Inr access_Inr)
  obtain rest where rest: "asm_sip s = tot # rest"
    using assms(6) [of "[tot]"] n(4) by auto
  have lab: "read_as cod n_byte sot_at cod" "read_as (cod + 1) n_resh sot_at cod"
    using reads_others(2) [OF assms(2)] by auto
  have i: "?i \<le> 0xFFFF" "sz = length ?bs"
    using n(3) assms(5) by (auto simp: agree_def inx_size_Inr [where cod = cod])
  have "on_ok (asm_put ?bs (s\<lparr>asm_sip := rest\<rparr>))
      (\<lambda>s. Inr (s\<lparr>asm_prog := asm_prog s\<lparr>sot_u := sot_u (asm_prog s) @ [\<lparr>sip_l = tot, memo_key = key\<rparr>]\<rparr>\<rparr>)) = Inr s'"
    using assms(2,3) by (elim insertE emptyE; simp add: assms(1) n(1) asm_op_def asm_sip_pop_def rest n_prog_asm_inx_bytes)
  then have s': "length ?bs \<le> i_w s" "s' = s\<lparr>asm_sip := rest, i_w := i_w s - length ?bs,
      asm_prog := ?p\<lparr>ops_y := ?bs @ ops_y ?p, sot_u := sot_u ?p @ [\<lparr>sip_l = tot, memo_key = key\<rparr>]\<rparr>\<rparr>"
    by (auto simp: on_ok_eq_Inr asm_put_Inr)
  have "fetch (p\<lparr>ops_y := ?bs @ r\<rparr>) 0 = Inr (Arg cod (u3nc (Atom tot) key), length ?bs)"
    if "sot_u p = sot_u ?p @ \<lparr>sip_l = tot, memo_key = key\<rparr> # u" for p r u
    by (rule fetch_inx [OF lab i(1)]) (simp add: sot_at_def that nth_append)
  moreover have "cod \<notin> {SBIP, SBIN}"
    using assms(2) by auto
  ultimately show ?thesis
    using s' n i rest assms(2,5) fetch_at [where bs = ?bs] inx_bytes_length [of ?i cod] skip_exact [of siz n]
    by (auto simp: asm_fits_def assms(1) agree_def extends_def skip_size_Inr intro!: exI [of _ ?bs])
qed

lemma asm_op_fits:
  assumes "op_ok x" and "asm_op x s = Inr s'" and "melt_op x siz m = Inr (sz, m')" and "agree m s"
    and "\<And>new. melt_sip m' = new @ melt_sip m \<Longrightarrow> length new \<le> 1 \<Longrightarrow> \<exists>rest. asm_sip s = new @ rest"
  shows "asm_fits x siz m s sz m' s'"
proof (cases x)
  case (Op cod)
  with assms(1) show ?thesis
    using fits_plain [OF Op _ _ assms(2-4)] fits_reg [OF Op _ assms(2-4)] by auto
next
  case (Arg cod a)
  note simp = assms(2-4)
  from assms(1) consider "cod \<in> {FABK, FABL, LITB, LILB, MUTB, KUTB, SAMB}" "noun_le a 0xFF"
    | "cod \<in> {FASK, FASL, LITS, LILS, MUTS, KUTS, SAMS}" "noun_le a 0xFFFF"
    | "cod \<in> {FIBK, FIBL, LIBK, LIBL, BUSH, SANB, KITB, MITB, HILB, HINB}" | "cod \<in> {KICB, TICB}" | "cod \<in> {SBIP, SBIN}"
    | "cod \<in> {SKIB, SLIB}"
    unfolding Arg op_ok.simps by blast
  then show ?thesis
  proof cases
    case 1
    then show ?thesis
      using fits_byte [OF _ 1(1) _ simp] Arg by (auto simp: noun_le_Atom)
  next
    case 2
    then show ?thesis
      using fits_short [OF _ 2(1) _ simp] Arg by (auto simp: noun_le_Atom)
  next
    case 3
    then show ?thesis
      by (rule fits_lit [OF Arg _ simp])
  next
    case 4
    then show ?thesis
      by (rule fits_call [OF Arg _ simp])
  next
    case 5
    then show ?thesis
      by (rule fits_skip [OF Arg _ simp assms(5)])
  next
    case 6
    then show ?thesis
      by (rule fits_memo [OF Arg _ simp assms(5)])
  qed
qed


section \<open>All operations\<close>

lemma melt_op_sip: "melt_op x siz m = Inr (sz, m') \<Longrightarrow> \<exists>new. melt_sip m' = new @ melt_sip m \<and> length new \<le> 1"
  by (auto simp: melt_op_def on_ok_eq_Inr split: op.splits if_splits)

lemma melt_loop_sip: "melt_loop ops siz m = Inr mf \<Longrightarrow> \<exists>t. melt_sip mf = t @ melt_sip m"
proof (induction ops arbitrary: siz m)
  case (Cons x ops)
  then obtain sz m1 where m1: "melt_op x siz m = Inr (sz, m1)" "melt_loop ops (sz # siz) (m1\<lparr>byc_w := (byc_w m1 + sz) mod 2 ^ 32\<rparr>) = Inr mf"
    by (auto simp: on_ok_eq_Inr)
  from Cons.IH [OF this(2)] melt_op_sip [OF m1(1)] show ?case
    by auto
qed simp

lemma extends_trans: "extends p q \<Longrightarrow> extends q r \<Longrightarrow> extends p r"
  by (auto simp: extends_def)

text \<open>
  Both passes over the operations of a suffix of the code, whose sizes are \<open>siz\<close>: there are sizes \<open>S\<close> of the
  operations in front of it, by which the program has all its code at positions.
\<close>

lemma asm_loop_code:
  assumes "list_all op_ok ops" and "melt_loop ops siz m = Inr mf" and "asm_loop ops s = Inr sf" and "agree m s"
    and "melt_sip mf = rev (asm_sip s) @ melt_sip m" and "byc_w m = (sum_list siz + 1) mod 2 ^ 32"
  shows "\<exists>S f. length S = length ops \<and> ops_y (asm_prog sf) = f @ ops_y (asm_prog s) \<and> length f = sum_list S \<and> i_w s = sum_list S \<and>
    extends (asm_prog s) (asm_prog sf) \<and> byc_w mf = (sum_list (S @ siz) + 1) mod 2 ^ 32 \<and>
    (sum_list (S @ siz) < 2 ^ 32 \<longrightarrow> code_at (asm_prog sf) (\<lambda>k. sum_list (take k (S @ siz))) 0 (rev ops))"
  using assms
proof (induction ops arbitrary: siz m s)
  case Nil
  then show ?case
    by (auto split: if_splits)
next
  case (Cons x ops)
  from Cons.prems(2) obtain sz m1 where m1: "melt_op x siz m = Inr (sz, m1)"
    and melt: "melt_loop ops (sz # siz) (m1\<lparr>byc_w := (byc_w m1 + sz) mod 2 ^ 32\<rparr>) = Inr mf"
    by (auto simp: on_ok_eq_Inr)
  from Cons.prems(3) obtain s1 where s1: "asm_op x s = Inr s1" and asm: "asm_loop ops s1 = Inr sf"
    by (auto simp: on_ok_eq_Inr split: if_splits)
  obtain t where t: "melt_sip mf = t @ melt_sip m1"
    using melt_loop_sip [OF melt] by auto
  have sips: "asm_sip s = new @ rev t" if "melt_sip m1 = new @ melt_sip m" "length new \<le> 1" for new
  proof -
    have "rev (asm_sip s) = t @ new"
      using Cons.prems(5) t that(1) by simp
    then have "asm_sip s = rev new @ rev t"
      by (metis rev_append rev_rev_ident)
    then show ?thesis
      using that(2) by (cases new) auto
  qed
  have "asm_fits x siz m s sz m1 s1"
    by (rule asm_op_fits [OF _ s1 m1 Cons.prems(4)]) (use Cons.prems(1) sips in auto)
  then obtain bs new where bs: "ops_y (asm_prog s1) = bs @ ops_y (asm_prog s)" "length bs = sz" "i_w s = i_w s1 + sz"
      "agree m1 s1" "extends (asm_prog s) (asm_prog s1)" "byc_w m1 = byc_w m" "melt_sip m1 = new @ melt_sip m" "length new \<le> 1"
      "asm_sip s1 = drop (length new) (asm_sip s)"
    and placed: "\<And>p f tgt. extends (asm_prog s1) p \<Longrightarrow> ops_y p = f @ ops_y (asm_prog s1) \<Longrightarrow> asm_sip s = new @ asm_sip s1 \<Longrightarrow>
        sum_list siz < 2 ^ 32 \<Longrightarrow> (\<forall>n \<le> length siz. tgt n = length f + sz + sum_list (take n siz)) \<Longrightarrow>
        placed p (length f) x (length f + sz) tgt"
    unfolding asm_fits_def by blast
  have sip1: "asm_sip s1 = rev t"
    using bs(9) sips [OF bs(7,8)] by simp
  have "byc_w m1 + sz = (sum_list siz + 1) mod 2 ^ 32 + sz"
    using bs(6) Cons.prems(6) by simp
  then have byc: "(byc_w m1 + sz) mod 2 ^ 32 = (sum_list (sz # siz) + 1) mod 2 ^ 32"
    using mod_add_left_eq [of "sum_list siz + 1" "2 ^ 32" sz] by (simp add: ac_simps)
  have "\<exists>S f. length S = length ops \<and> ops_y (asm_prog sf) = f @ ops_y (asm_prog s1) \<and> length f = sum_list S \<and> i_w s1 = sum_list S \<and>
    extends (asm_prog s1) (asm_prog sf) \<and> byc_w mf = (sum_list (S @ sz # siz) + 1) mod 2 ^ 32 \<and>
    (sum_list (S @ sz # siz) < 2 ^ 32 \<longrightarrow> code_at (asm_prog sf) (\<lambda>k. sum_list (take k (S @ sz # siz))) 0 (rev ops))"
    by (rule Cons.IH [OF _ melt asm]) (use Cons.prems(1) bs(4) t sip1 byc in \<open>auto simp: agree_def\<close>)
  then obtain S f where S: "length S = length ops" "ops_y (asm_prog sf) = f @ ops_y (asm_prog s1)" "length f = sum_list S" "i_w s1 = sum_list S"
      "extends (asm_prog s1) (asm_prog sf)" "byc_w mf = (sum_list (S @ sz # siz) + 1) mod 2 ^ 32"
      "sum_list (S @ sz # siz) < 2 ^ 32 \<longrightarrow> code_at (asm_prog sf) (\<lambda>k. sum_list (take k (S @ sz # siz))) 0 (rev ops)"
    by blast
  have "placed (asm_prog sf) (sum_list S) x (sum_list S + sz) (\<lambda>n. sum_list (take (length ops + 1 + n) (S @ sz # siz)))"
    if "sum_list (S @ sz # siz) < 2 ^ 32"
    using placed [OF S(5) S(2), of "\<lambda>n. sum_list (take (length ops + 1 + n) (S @ sz # siz))"] that sip1 sips [OF bs(7,8)] S(1,3)
    by simp
  then have "sum_list (S @ sz # siz) < 2 ^ 32 \<longrightarrow> code_at (asm_prog sf) (\<lambda>k. sum_list (take k (S @ sz # siz))) 0 (rev (x # ops))"
    using S(1,7) by simp
  then show ?case
    using S bs extends_trans [OF bs(5) S(5)]
    by (intro exI [of _ "S @ [sz]"] exI [of _ "f @ bs"]) simp
qed

lemma fetch_halt: "fetch (p\<lparr>ops_y := HALT # r\<rparr>) 0 = Inr (Op HALT, 1)"
proof -
  have "map_of fetch_table HALT = None"
    unfolding map_of_eq_None_iff fetch_keys by simp
  then show ?thesis
    by (simp add: fetch_def n_byte_def)
qed

theorem n_prog_from_ops_code:
  assumes "n_prog_from_ops ops = Inr p" and "list_all op_ok ops"
  shows "\<exists>pos. pos 0 = 0 \<and> code_at p pos 0 (rev ops) \<and> fetch p (pos (length ops)) = Inr (Op HALT, pos (length ops) + 1) \<and>
    length (ops_y p) = pos (length ops) + 1 \<and> length (ops_y p) < 2 ^ 32"
proof -
  let ?m = "\<lparr>melt_sip = [], byc_w = 1, cal_w = 0, reg_w = 0, lit_w = 0, mem_w = 0\<rparr>"
  from assms(1) obtain mf where melt: "melt_loop ops [] ?m = Inr mf" and asm: "n_prog_asm ops (byc_w mf) (rev (melt_sip mf)) = Inr p"
    by (auto simp: n_prog_from_ops_def n_melt_def on_ok_eq_Inr)
  let ?s = "\<lparr>i_w = byc_w mf - 1, asm_prog = \<lparr>ops_y = [HALT], non = [], sot_u = [], sit_u = [], rit_u = 0\<rparr>, asm_sip = rev (melt_sip mf)\<rparr>"
  from asm obtain sf where sf: "asm_loop ops ?s = Inr sf" "p = asm_prog sf" and pos: "0 < byc_w mf"
    by (auto simp: n_prog_asm_def on_ok_eq_Inr split: if_splits)
  have "agree ?m ?s" "melt_sip mf = rev (asm_sip ?s) @ melt_sip ?m" "byc_w ?m = (sum_list [] + 1) mod 2 ^ 32"
    by (simp_all add: agree_def)
  from asm_loop_code [OF assms(2) melt sf(1) this] obtain S f where S: "length S = length ops" "ops_y p = f @ [HALT]" "length f = sum_list S"
      "byc_w mf - 1 = sum_list S" "byc_w mf = (sum_list S + 1) mod 2 ^ 32"
      "sum_list S < 2 ^ 32 \<longrightarrow> code_at p (\<lambda>k. sum_list (take k S)) 0 (rev ops)"
    unfolding sf(2) by auto
  have "sum_list S + 1 = byc_w mf"
    using pos S(4) by simp
  also have "\<dots> < 2 ^ 32"
    unfolding S(5) by simp
  finally have bound: "sum_list S + 1 < 2 ^ 32" .
  have "fetch p (sum_list S) = Inr (Op HALT, sum_list S + 1)"
    using fetch_at [of p f "[HALT]" "[]" "Op HALT"] fetch_halt [where p = p and r = "[]"] S(2,3) by simp
  then show ?thesis
    using S bound by (intro exI [of _ "\<lambda>k. sum_list (take k S)"]) simp
qed

end
