(* ===== verification/Nock_Eval.thy ===== *)
theory Nock_Eval
  imports Nock_Asm
begin

text \<open>
  A reference interpreter of Nock: a recursion on formulas, without code, stack or frames. It touches the
  world in the same way as the bytecode interpreter. \<open>n\<close> bounds the depth of calls, that is of the formulas
  that are computed (by opcodes 2 and 9); \<open>None\<close> says that the bound was too small.
\<close>

section \<open>Results that may be missing\<close>

type_synonym ('a, 'j) outcome = "('a \<times> 'j world) jet option"

definition on_ret :: "'a jet option \<Rightarrow> ('a \<Rightarrow> 'b jet option) \<Rightarrow> 'b jet option" where
  "on_ret x f = (case x of None \<Rightarrow> None | Some (Inl e) \<Rightarrow> Some (Inl e) | Some (Inr v) \<Rightarrow> f v)"

lemma on_ret_simps [simp]:
  "on_ret None f = None" "on_ret (Some (Inl e)) f = Some (Inl e)" "on_ret (Some (Inr v)) f = f v"
  by (simp_all add: on_ret_def)

lemma on_ret_cong [fundef_cong]:
  "x = x' \<Longrightarrow> (\<And>v. x' = Some (Inr v) \<Longrightarrow> f v = f' v) \<Longrightarrow> on_ret x f = on_ret x' f'"
  by (auto simp: on_ret_def split: option.splits sum.splits)

lemma on_ret_eq_Inr: "on_ret x f = Some (Inr y) \<longleftrightarrow> (\<exists>v. x = Some (Inr v) \<and> f v = Some (Inr y))"
  by (auto simp: on_ret_def split: option.splits sum.splits)

text \<open>A computation that returns, and one that leaves the world alone.\<close>

abbreviation with_world :: "'a jet \<Rightarrow> 'j world \<Rightarrow> ('a, 'j) outcome" where
  "with_world x w \<equiv> Some (on_ok x (\<lambda>v. Inr (v, w)))"

section \<open>The interpreter\<close>

text \<open>Hints around a formula: \<open>fore\<close> before it, with a token, and \<open>hind\<close> behind it.\<close>

definition around :: "(bool \<times> noun \<times> 'j world) jet \<Rightarrow> ('j world \<Rightarrow> (noun, 'j) outcome) \<Rightarrow>
    (noun \<Rightarrow> noun \<Rightarrow> 'j world \<Rightarrow> 'j world jet) \<Rightarrow> (noun, 'j) outcome" where
  "around fore run hind = on_ret (Some fore) (\<lambda>(yes, tok, w).
     if yes then on_ret (run w) (\<lambda>(pro, w). Some (on_ok (hind tok pro w) (\<lambda>w. Inr (pro, w))))
     else Some (Inr (tok, w)))"

lemma around_cong [fundef_cong]:
  "fore = fore' \<Longrightarrow> (\<And>tok w. fore' = Inr (True, tok, w) \<Longrightarrow> run w = run' w) \<Longrightarrow> hind = hind' \<Longrightarrow>
    around fore run hind = around fore' run' hind'"
  by (cases fore') (auto simp: around_def)

function nock :: "'j env \<Rightarrow> nat \<Rightarrow> noun \<Rightarrow> noun \<Rightarrow> 'j world \<Rightarrow> (noun, 'j) outcome"
  and nock_hint :: "'j env \<Rightarrow> nat \<Rightarrow> noun \<Rightarrow> noun \<Rightarrow> noun \<Rightarrow> 'j world \<Rightarrow> (noun, 'j) outcome"
where
  "nock env n bus fol w = on_ret (Some (u3x_cell fol)) (\<lambda>(cod, arg).
     if u3a_is_cell cod then
       on_ret (nock env n bus cod w) (\<lambda>(p, w). on_ret (nock env n bus arg w) (\<lambda>(q, w). Some (Inr (u3nc p q, w))))
     else if cod = Atom 0 then with_world (u3x_at arg bus) w
     else if cod = Atom 1 then Some (Inr (arg, w))
     else if cod = Atom 2 then on_ret (Some (u3x_cell arg)) (\<lambda>(hed, tel).
       on_ret (nock env n bus hed w) (\<lambda>(seb, w). on_ret (nock env n bus tel w) (\<lambda>(nex, w).
       case n of 0 \<Rightarrow> None | Suc m \<Rightarrow> on_ret (Some (n_find u3_nul nex w)) (\<lambda>(p, w). nock env m seb nex w))))
     else if cod = Atom 3 then on_ret (nock env n bus arg w) (\<lambda>(p, w). Some (Inr (loob (u3a_is_cell p), w)))
     else if cod = Atom 4 then on_ret (nock env n bus arg w) (\<lambda>(p, w). with_world (u3i_vint p) w)
     else if cod = Atom 5 then on_ret (Some (u3x_cell arg)) (\<lambda>(hed, tel).
       on_ret (nock env n bus hed w) (\<lambda>(p, w). on_ret (nock env n bus tel w) (\<lambda>(q, w). Some (Inr (loob (q = p), w)))))
     else if cod = Atom 6 then on_ret (Some (u3x_trel arg)) (\<lambda>(hed, mid, tel).
       on_ret (nock env n bus hed w) (\<lambda>(p, w).
         if p = Atom 0 then (if n_formulaic mid then nock env n bus mid w else Some (Inl Exit))
         else if p = Atom 1 then (if n_formulaic tel then nock env n bus tel w else Some (Inl Exit))
         else Some (Inl Exit)))
     else if cod = Atom 7 then on_ret (Some (u3x_cell arg)) (\<lambda>(hed, tel).
       on_ret (nock env n bus hed w) (\<lambda>(p, w). nock env n p tel w))
     else if cod = Atom 8 then on_ret (Some (u3x_cell arg)) (\<lambda>(hed, tel).
       on_ret (nock env n bus hed w) (\<lambda>(p, w). nock env n (u3nc p bus) tel w))
     else if cod = Atom 9 then on_ret (Some (u3x_cell arg)) (\<lambda>(hed, tel).
       on_ret (Some (kick_is_mac hed)) (\<lambda>mac.
         if mac then nock env n bus (kick_mac hed tel) w
         else on_ret (nock env n bus tel w) (\<lambda>(cor, w).
           on_ret (Some (n_kick env cor hed w)) (\<lambda>(r, w).
             case r of Inl pro \<Rightarrow> Some (Inr (pro, w))
             | Inr p \<Rightarrow> (case n of 0 \<Rightarrow> None
               | Suc m \<Rightarrow> on_ret (Some (u3x_at hed cor)) (\<lambda>nex. nock env m cor nex w))))))
     else if cod = Atom 10 then on_ret (Some (u3x_cell arg)) (\<lambda>(hed, tel).
       on_ret (Some (u3x_cell hed)) (\<lambda>(axe, nef).
       on_ret (nock env n bus tel w) (\<lambda>(p, w). on_ret (nock env n bus nef w) (\<lambda>(q, w). with_world (u3i_edit p axe q) w))))
     else if cod = Atom 11 then on_ret (Some (u3x_cell arg)) (\<lambda>(hed, tel). nock_hint env n bus hed tel w)
     else if cod = Atom 12 then on_ret (Some (u3x_cell arg)) (\<lambda>(hed, tel).
       on_ret (nock env n bus hed w) (\<lambda>(p, w). on_ret (nock env n bus tel w) (\<lambda>(q, w). with_world (wish_in env p q) w)))
     else Some (Inl Exit))"
| "nock_hint env n bus hif nef w =
     (if \<not> u3a_is_cell hif then
        (if is_fore hif then
           around (n_hilt_fore env (u3nc hif nef) bus w) (\<lambda>w. nock env n bus nef w) (n_hilt_hind env)
         else nock env n bus nef w)
      else on_ret (Some (u3x_cell hif)) (\<lambda>(zep, hod).
        on_ret (nock env n bus hod w) (\<lambda>(clu, w).
          if is_tace zep then
            on_ret (nock env n bus nef (u3t_push (u3nc zep clu) w)) (\<lambda>(pro, w).
            Some (on_ok (u3t_drop w) (\<lambda>w. Inr (pro, w))))
          else if zep = Atom c3__live then
            nock env n bus nef (if u3a_is_cell clu then w else note_it (Heck_note clu) w)
          else if zep = Atom c3__slog then
            nock env n bus nef (if quiet env then w else note_it (Slog_note clu) w)
          else if zep = Atom c3__fast then
            on_ret (nock env n bus nef w) (\<lambda>(pro, w).
            Some (on_ok (u3j_rite_mine env (jed w) clu pro) (\<lambda>j. Inr (pro, w\<lparr>jed := j\<rparr>))))
          else if zep = Atom c3__memo then
            (case u3z_find_m (144 + c3__nock) (u3nc bus nef) w of
               Some pro \<Rightarrow> Some (Inr (pro, w))
             | None \<Rightarrow> on_ret (nock env n bus nef w) (\<lambda>(pro, w).
                 Some (Inr (pro, if home env then w else u3z_save_m env (144 + c3__nock) (u3nc bus nef) pro w))))
          else if is_fore zep then
            around (n_hint_fore env (u3nc zep nef) bus clu w) (\<lambda>w. nock env n bus nef w) (n_hint_hind env)
          else nock env n bus nef w)))"
  by pat_completeness auto

termination
  by (relation "inv_image (less_than <*lex*> less_than) (\<lambda>x. case x of Inl (env, n, bus, fol, w) \<Rightarrow> (n, weight fol)
        | Inr (env, n, bus, hif, nef, w) \<Rightarrow> (n, weight hif + weight nef))")
    (auto simp: access_Inr kick_mac_def)

declare nock.simps [simp del] nock_hint.simps [simp del]

text \<open>A formula that is run from outside is compiled first.\<close>

definition nock_call :: "'j env \<Rightarrow> nat \<Rightarrow> noun \<Rightarrow> noun \<Rightarrow> 'j world \<Rightarrow> (noun, 'j) outcome" where
  "nock_call env n bus fol w = on_ret (Some (n_find u3_nul fol w)) (\<lambda>(p, w). nock env n bus fol w)"

end
