(* ===== verification/Nock_Sim.thy ===== *)
theory Nock_Sim
  imports Nock_Eval
begin

text \<open>
  The bytecode interpreter does what the reference interpreter does. \<open>sim\<close> relates a state of the stack
  machine to an outcome of the reference interpreter: to a product, the machine reaches a state that is
  described by a condition; to a bail, it reaches a state in which it bails in the same way; and if
  the reference interpreter was stopped by its bound \<open>n\<close>, the machine can make \<open>n\<close> steps.
\<close>

section \<open>Runs of the machine\<close>

definition step_to :: "'j env \<Rightarrow> 'j burn \<Rightarrow> 'j burn \<Rightarrow> bool" where
  "step_to env s s' \<longleftrightarrow> burn_step env s = Inr (Inr s')"

definition sim :: "'j env \<Rightarrow> nat \<Rightarrow> 'j burn \<Rightarrow> (noun, 'j) outcome \<Rightarrow> (noun \<Rightarrow> 'j world \<Rightarrow> 'j burn \<Rightarrow> bool) \<Rightarrow> bool" where
  "sim env n s r Q \<longleftrightarrow> (case r of
     None \<Rightarrow> \<exists>s'. (step_to env ^^ n) s s'
   | Some (Inl e) \<Rightarrow> \<exists>s'. (step_to env)\<^sup>*\<^sup>* s s' \<and> burn_step env s' = Inl e
   | Some (Inr (p, w)) \<Rightarrow> \<exists>s'. (step_to env)\<^sup>*\<^sup>* s s' \<and> Q p w s')"

lemma sim_simps [simp]:
  "sim env n s None Q \<longleftrightarrow> (\<exists>s'. (step_to env ^^ n) s s')"
  "sim env n s (Some (Inl e)) Q \<longleftrightarrow> (\<exists>s'. (step_to env)\<^sup>*\<^sup>* s s' \<and> burn_step env s' = Inl e)"
  "sim env n s (Some (Inr (p, w))) Q \<longleftrightarrow> (\<exists>s'. (step_to env)\<^sup>*\<^sup>* s s' \<and> Q p w s')"
  by (simp_all add: sim_def)

lemma outcome_cases:
  fixes r :: "(noun, 'j) outcome"
  obtains "r = None" | e where "r = Some (Inl e)" | p w where "r = Some (Inr (p, w))"
  by (metis not_None_eq sumE surj_pair)

lemma sim_ret: "Q p w s \<Longrightarrow> sim env n s (Some (Inr (p, w))) Q"
  by auto

lemma sim_bail: "burn_step env s = Inl e \<Longrightarrow> sim env n s (Some (Inl e)) Q"
  by auto

lemma sim_enter:
  assumes "step_to env s s'" and "sim env n s' r Q"
  shows "sim env (Suc n) s r Q"
proof (cases r rule: outcome_cases)
  case 1
  then show ?thesis
    using assms unfolding 1 sim_simps by (blast intro: relpowp_Suc_I2)
qed (use assms in \<open>auto intro: converse_rtranclp_into_rtranclp\<close>)

lemma sim_less:
  assumes "sim env (Suc n) s r Q"
  shows "sim env n s r Q"
  using assms by (cases r rule: outcome_cases) (auto elim: relpowp_Suc_E)

lemma sim_step: "step_to env s s' \<Longrightarrow> sim env n s' r Q \<Longrightarrow> sim env n s r Q"
  by (rule sim_less [OF sim_enter])

lemma sim_steps: "(step_to env)\<^sup>*\<^sup>* s s' \<Longrightarrow> sim env n s' r Q \<Longrightarrow> sim env n s r Q"
  by (induction rule: converse_rtranclp_induct) (auto intro: sim_step)

lemma sim_bind:
  assumes "sim env n s r Q" and "\<And>p w s'. r = Some (Inr (p, w)) \<Longrightarrow> Q p w s' \<Longrightarrow> sim env n s' (f (p, w)) Q'"
  shows "sim env n s (on_ret r f) Q'"
  using assms by (cases r rule: outcome_cases) (auto intro: sim_steps)

lemma sim_mono: "sim env n s r Q \<Longrightarrow> (\<And>p w s'. Q p w s' \<Longrightarrow> sim env n s' (Some (Inr (p, w))) Q') \<Longrightarrow> sim env n s r Q'"
  by (cases r rule: outcome_cases) (simp_all, blast intro: rtranclp_trans)

text \<open>An instruction that bails or goes on by the same result as the reference interpreter.\<close>

lemma sim_jet:
  assumes "burn_step env s = on_ok r (\<lambda>v. go (g v))" and "\<And>v. r = Inr v \<Longrightarrow> sim env n (g v) (f v) Q"
  shows "sim env n s (on_ret (Some r) f) Q"
proof (cases r)
  case (Inl e)
  then show ?thesis
    using assms(1) sim_bail [of env s e] by simp
next
  case (Inr v)
  then have "step_to env s (g v)"
    using assms(1) by (simp add: step_to_def go_def)
  then show ?thesis
    using sim_step assms(2) Inr by auto
qed

lemma with_world_ret: "with_world r w = on_ret (Some r) (\<lambda>v. Some (Inr (v, w)))"
  by (cases r) auto

lemma step_fetch:
  assumes "fetch p i = Inr (x, j)"
  shows "burn_step env \<lparr>pog_u = p, ip_w = i, cap = c, wor = w\<rparr> = burn_op env x \<lparr>pog_u = p, ip_w = j, cap = c, wor = w\<rparr>"
  using assms by (simp add: burn_step_def)

section \<open>Worlds\<close>

definition cache_ok :: "'j world \<Rightarrow> bool" where
  "cache_ok w \<longleftrightarrow> roads w \<noteq> [] \<and> (\<forall>har \<in> set (roads w). \<forall>pre fol p. har (u3nc pre fol) = Some p \<longrightarrow> n_bite fol = Inr p)"

lemma cache_ok_cong: "roads w = roads w' \<Longrightarrow> cache_ok w = cache_ok w'"
  by (simp add: cache_ok_def)

lemma road_git_ok: "road_git hars key = Some p \<Longrightarrow> \<exists>har \<in> set hars. har key = Some p"
  by (induction hars) (auto split: option.splits)

lemma road_put_ok: "cache_ok w \<Longrightarrow> n_bite fol = Inr p \<Longrightarrow> cache_ok (road_put (u3nc pre fol) p w)"
  by (cases "roads w") (auto simp: cache_ok_def road_put_def)

lemma n_find_ok:
  assumes "cache_ok w" and "n_find pre fol w = Inr (p, w')"
  shows "n_bite fol = Inr p \<and> cache_ok w'"
proof (cases "hd (roads w) (u3nc pre fol)")
  case (Some q)
  have "hd (roads w) \<in> set (roads w)"
    using assms(1) by (simp add: cache_ok_def)
  then have "n_bite fol = Inr q"
    using assms(1) Some unfolding cache_ok_def by blast
  then show ?thesis
    using assms Some by (simp add: n_find_def)
next
  case None
  have "n_bite fol = Inr q" if "road_git (tl (roads w)) (u3nc pre fol) = Some q" for q
    using road_git_ok [OF that] assms(1) by (auto simp: cache_ok_def dest: list.set_sel(2))
  then show ?thesis
    using assms None road_put_ok [OF assms(1)]
    by (auto simp: n_find_def Let_def on_ok_eq_Inr split: option.splits)
qed

lemma cache_ok_jed [simp]: "cache_ok (w\<lparr>jed := j\<rparr>) = cache_ok w"
  by (rule cache_ok_cong) simp

lemma n_kick_ok:
  assumes "cache_ok w" and "n_kick env cor axe w = Inr (r, w')"
  shows "cache_ok w'" and "r = Inr q \<Longrightarrow> \<exists>nex. u3x_at axe cor = Inr nex \<and> n_bite nex = Inr q"
proof -
  obtain x j where x: "u3j_site_kick env (jed w) cor axe = Inr (x, j)"
    using assms(2) by (auto simp: n_kick_def on_ok_eq_Inr)
  have find: "n_bite nex = Inr q \<and> cache_ok w'" if "n_find loc nex (w\<lparr>jed := j\<rparr>) = Inr (q, w')" for loc nex q
    using n_find_ok [OF _ that] assms(1) by simp
  show "cache_ok w'" "r = Inr q \<Longrightarrow> \<exists>nex. u3x_at axe cor = Inr nex \<and> n_bite nex = Inr q"
    using assms x find by (cases x; auto simp: n_kick_def on_ok_eq_Inr)+
qed

lemma world_roads [simp]:
  "roads (note_it x w) = roads w" "roads (u3t_push y w) = roads w" "roads (u3z_save_m env k a b w) = roads w"
  by (simp_all add: note_it_def u3t_push_def u3z_save_m_def)

lemma u3t_drop_roads: "u3t_drop w = Inr w' \<Longrightarrow> roads w' = roads w"
  by (auto simp: u3t_drop_def split: list.splits)

lemma hint_roads:
  "n_hilt_fore env hin bus w = Inr (yes, tok, w') \<Longrightarrow> roads w' = roads w"
  "n_hint_fore env hin bus clu w = Inr (yes, tok, w') \<Longrightarrow> roads w' = roads w"
  "n_hilt_hind env tok pro w = Inr w' \<Longrightarrow> roads w' = roads w"
  "n_hint_hind env tok pro w = Inr w' \<Longrightarrow> roads w' = roads w"
  by (auto simp: n_hilt_fore_def n_hint_fore_def n_hilt_hind_def n_hint_hind_def u3t_trace_time_def on_ok_eq_Inr
      split: if_splits option.splits prod.splits)

section \<open>What code leaves behind\<close>

definition returned :: "item list \<Rightarrow> noun \<Rightarrow> 'j world \<Rightarrow> 'j burn \<Rightarrow> bool" where
  "returned st pro w s \<longleftrightarrow> cap s = Val pro # st \<and> wor s = w \<and> cache_ok w \<and> (\<exists>i. fetch (pog_u s) (ip_w s) = Inr (Op HALT, i))"

definition halts :: "'j env \<Rightarrow> u3n_prog \<Rightarrow> nat \<Rightarrow> bool" where
  "halts env p j \<longleftrightarrow> (\<forall>pro st w. cache_ok w \<longrightarrow>
     (\<exists>s. (step_to env)\<^sup>*\<^sup>* \<lparr>pog_u = p, ip_w = j, cap = Val pro # st, wor = w\<rparr> s \<and> returned st pro w s))"

definition under :: "bool \<Rightarrow> noun \<Rightarrow> item list \<Rightarrow> item list" where
  "under los bus st = (if los then st else Val bus # st)"

lemma under_simps [simp]: "under True bus st = st" "under False bus st = Val bus # st"
  by (simp_all add: under_def)

definition post :: "bool \<Rightarrow> bool \<Rightarrow> u3n_prog \<Rightarrow> nat \<Rightarrow> noun \<Rightarrow> item list \<Rightarrow> noun \<Rightarrow> 'j world \<Rightarrow> 'j burn \<Rightarrow> bool" where
  "post los tel_o p j bus st pro w s \<longleftrightarrow>
     (if tel_o then returned st pro w s
      else s = \<lparr>pog_u = p, ip_w = j, cap = Val pro # under los bus st, wor = w\<rparr> \<and> cache_ok w)"

lemma sim_fin:
  assumes "cache_ok w" and "tel_o \<Longrightarrow> los \<and> halts env p j"
  shows "sim env n \<lparr>pog_u = p, ip_w = j, cap = Val pro # under los bus st, wor = w\<rparr> (Some (Inr (pro, w))) (post los tel_o p j bus st)"
  using assms by (cases tel_o) (auto simp: post_def halts_def)

text \<open>Code that is not in tail position, followed by what comes next.\<close>

lemma sim_then:
  assumes "sim env n s r (post los False p j bus st)"
    and "\<And>pro w. cache_ok w \<Longrightarrow> sim env n \<lparr>pog_u = p, ip_w = j, cap = Val pro # under los bus st, wor = w\<rparr> (f (pro, w)) Q"
  shows "sim env n s (on_ret r f) Q"
  using assms by (auto simp: post_def intro: sim_bind)

lemmas burn_simps = burn_op_def burn_plain_def burn_arg_def on_cap_def pep_keep_def pep_lose_def n_top_def n_push_def n_peek_def
  n_toss_def go_def


section \<open>Calls\<close>

text \<open>The program of a formula, entered with the subject on the stack.\<close>

definition callee_ok :: "'j env \<Rightarrow> nat \<Rightarrow> bool" where
  "callee_ok env n \<longleftrightarrow> (\<forall>fol p bus st w. n_bite fol = Inr p \<longrightarrow> cache_ok w \<longrightarrow>
     sim env n \<lparr>pog_u = p, ip_w = 0, cap = Val bus # st, wor = w\<rparr> (nock env n bus fol w) (returned st))"

lemma n_bite_code:
  assumes "n_bite fol = Inr p"
  obtains c pos where "coded fol True True c" "pos 0 = 0" "code_at p pos 0 c" "fetch p (pos (length c)) = Inr (Op HALT, pos (length c) + 1)"
proof -
  obtain c where c: "code fol True True = Inr c" "n_prog_from_ops (rev c) = Inr p"
    using assms by (auto simp: n_bite_def n_comp_code emitted_def on_ok_eq_Inr)
  have coded: "coded fol True True c"
    by (rule code_coded [OF c(1)])
  then have "list_all op_ok (rev c)"
    using coded_ok by (simp add: list_all_iff)
  from n_prog_from_ops_code [OF c(2) this] show ?thesis
    using that coded by auto
qed

lemma halts_now: "fetch p j = Inr (Op HALT, i) \<Longrightarrow> halts env p j"
  by (auto simp: halts_def returned_def)

text \<open>A return to a frame.\<close>

lemma sim_frame:
  fixes env :: "'j env"
  assumes "sim env n s r (returned (Fam p j # st))" and "\<And>pro w. cache_ok w \<Longrightarrow> sim env n \<lparr>pog_u = p, ip_w = j, cap = Val pro # st, wor = w\<rparr> (Some (Inr (pro, w))) Q"
  shows "sim env n s r Q"
proof (rule sim_mono [OF assms(1)])
  fix pro and w :: "'j world" and s'
  assume "returned (Fam p j # st) pro w s'"
  then obtain i where s': "cap s' = Val pro # Fam p j # st" "wor s' = w" "cache_ok w" "fetch (pog_u s') (ip_w s') = Inr (Op HALT, i)"
    by (auto simp: returned_def)
  have "step_to env s' \<lparr>pog_u = p, ip_w = j, cap = Val pro # st, wor = w\<rparr>"
    using s' by (cases s') (simp add: step_to_def step_fetch burn_simps do_halt_def)
  then show "sim env n s' (Some (Inr (pro, w))) Q"
    by (rule sim_step) (rule assms(2) [OF s'(3)])
qed

text \<open>The three forms of calling a formula that is on the stack.\<close>

lemma sim_nock:
  assumes "callee_ok env m" and "cache_ok w" and "tel_o \<Longrightarrow> los \<and> halts env p j"
    and "fetch p i = Inr (Op (if tel_o then NOCT else if los then NOLK else NOCK), j)"
  shows "sim env (Suc m) \<lparr>pog_u = p, ip_w = i, cap = Val nex # Val bus # Val seb # st, wor = w\<rparr>
    (on_ret (Some (n_find u3_nul nex w)) (\<lambda>(q, w). nock env m seb nex w)) (post los tel_o p j bus st)"
proof (cases "n_find u3_nul nex w")
  case (Inl e)
  then show ?thesis
    using assms(4) by (cases tel_o; cases los) (simp_all add: sim_bail step_fetch burn_simps nock_out_def nock_in_def del: sim_simps)
next
  case (Inr r)
  obtain q w' where r: "r = (q, w')"
    by (cases r)
  have q: "n_bite nex = Inr q" "cache_ok w'"
    using n_find_ok [OF assms(2)] Inr r by auto
  have run: "sim env m \<lparr>pog_u = q, ip_w = 0, cap = Val seb # c, wor = w'\<rparr> (nock env m seb nex w') (returned c)" for c
    using assms(1) q unfolding callee_ok_def by blast
  show ?thesis
  proof (cases tel_o)
    case True
    have "step_to env \<lparr>pog_u = p, ip_w = i, cap = Val nex # Val bus # Val seb # st, wor = w\<rparr>
        \<lparr>pog_u = q, ip_w = 0, cap = Val seb # st, wor = w'\<rparr>"
      using assms(4) True Inr r by (simp add: step_to_def step_fetch burn_simps nock_out_def)
    from sim_enter [OF this run] show ?thesis
      using Inr r True by (simp add: post_def [abs_def] del: sim_simps)
  next
    case False
    have "step_to env \<lparr>pog_u = p, ip_w = i, cap = Val nex # Val bus # Val seb # st, wor = w\<rparr>
        \<lparr>pog_u = q, ip_w = 0, cap = Val seb # Fam p j # under los bus st, wor = w'\<rparr>"
      using assms(4) False Inr r by (cases los) (simp_all add: step_to_def step_fetch burn_simps nock_out_def nock_in_def)
    from sim_enter [OF this run] have "sim env (Suc m) \<lparr>pog_u = p, ip_w = i, cap = Val nex # Val bus # Val seb # st, wor = w\<rparr>
        (nock env m seb nex w') (returned (Fam p j # under los bus st))" .
    then show ?thesis
      unfolding Inr r by (simp del: sim_simps) (erule sim_frame, rule sim_fin, assumption, simp add: False)
  qed
qed

text \<open>The two forms of kicking a core.\<close>

lemma sim_kick:
  assumes "\<And>m. n = Suc m \<Longrightarrow> callee_ok env m" and "cache_ok w" and "tel_o \<Longrightarrow> los \<and> halts env p j"
    and "fetch p i = Inr (Arg (if tel_o then TICB else KICB) axe, j)"
  shows "sim env n \<lparr>pog_u = p, ip_w = i, cap = Val cor # under los bus st, wor = w\<rparr>
    (on_ret (Some (n_kick env cor axe w)) (\<lambda>(r, w). case r of Inl pro \<Rightarrow> Some (Inr (pro, w))
      | Inr q \<Rightarrow> (case n of 0 \<Rightarrow> None | Suc m \<Rightarrow> on_ret (Some (u3x_at axe cor)) (\<lambda>nex. nock env m cor nex w))))
    (post los tel_o p j bus st)"
proof (cases "n_kick env cor axe w")
  case (Inl e)
  then show ?thesis
    using assms(4) by (cases tel_o) (simp_all add: sim_bail step_fetch burn_simps kick_in_def tick_in_def del: sim_simps)
next
  case (Inr r)
  obtain x w' where r: "r = (x, w')"
    by (cases r)
  show ?thesis
  proof (cases x)
    case (Inl pro)
    have "cache_ok w'"
      using n_kick_ok(1) [OF assms(2)] Inr r by blast
    then have fin: "sim env n \<lparr>pog_u = p, ip_w = j, cap = Val pro # under los bus st, wor = w'\<rparr> (Some (Inr (pro, w'))) (post los tel_o p j bus st)"
      using assms(3) by (rule sim_fin)
    have "step_to env \<lparr>pog_u = p, ip_w = i, cap = Val cor # under los bus st, wor = w\<rparr>
        \<lparr>pog_u = p, ip_w = j, cap = Val pro # under los bus st, wor = w'\<rparr>"
      using assms(4) Inr r Inl by (cases tel_o) (simp_all add: step_to_def step_fetch burn_simps kick_in_def tick_in_def)
    from sim_step [OF this fin] show ?thesis
      using Inr r Inl by (simp del: sim_simps)
  next
    case prog: (Inr q)
    obtain nex where nex: "u3x_at axe cor = Inr nex" and q: "n_bite nex = Inr q" "cache_ok w'"
      using n_kick_ok [OF assms(2) Inr [unfolded r]] prog by blast
    show ?thesis
    proof (cases n)
      case 0
      then show ?thesis
        using Inr r prog by simp
    next
      case (Suc m)
      have run: "sim env m \<lparr>pog_u = q, ip_w = 0, cap = Val cor # c, wor = w'\<rparr> (nock env m cor nex w') (returned c)" for c
        using assms(1) [OF Suc] q unfolding callee_ok_def by blast
      show ?thesis
      proof (cases tel_o)
        case True
        have "step_to env \<lparr>pog_u = p, ip_w = i, cap = Val cor # st, wor = w\<rparr> \<lparr>pog_u = q, ip_w = 0, cap = Val cor # st, wor = w'\<rparr>"
          using assms(4) True Inr r prog by (simp add: step_to_def step_fetch burn_simps tick_in_def)
        from sim_enter [OF this run] show ?thesis
          using Inr r prog True Suc nex(1) assms(3) by (simp add: post_def [abs_def] del: sim_simps)
      next
        case False
        have "step_to env \<lparr>pog_u = p, ip_w = i, cap = Val cor # under los bus st, wor = w\<rparr>
            \<lparr>pog_u = q, ip_w = 0, cap = Val cor # Fam p j # under los bus st, wor = w'\<rparr>"
          using assms(4) False Inr r prog by (simp add: step_to_def step_fetch burn_simps kick_in_def)
        from sim_enter [OF this run] have "sim env (Suc m) \<lparr>pog_u = p, ip_w = i, cap = Val cor # under los bus st, wor = w\<rparr>
            (nock env m cor nex w') (returned (Fam p j # under los bus st))" .
        then show ?thesis
          unfolding Inr r prog Suc
          by (simp add: nex(1) del: sim_simps) (erule sim_frame, rule sim_fin, assumption, simp add: False)
      qed
    qed
  qed
qed


section \<open>Pieces of code\<close>

abbreviation at :: "u3n_prog \<Rightarrow> nat \<Rightarrow> item list \<Rightarrow> 'j world \<Rightarrow> 'j burn" where
  "at p i c w \<equiv> \<lparr>pog_u = p, ip_w = i, cap = c, wor = w\<rparr>"

lemma sim_op:
  assumes "fetch p i = Inr (x, j)" and "burn_op env x (at p j c w) = Inr (Inr s)" and "sim env n s r Q"
  shows "sim env n (at p i c w) r Q"
  by (rule sim_step [OF _ assms(3)]) (simp add: step_to_def step_fetch [OF assms(1)] assms(2))

text \<open>The last operation of a piece of code.\<close>

lemma sim_last:
  assumes "fetch p i = Inr (x, j)" and "burn_op env x (at p j c w) = on_ok r (\<lambda>v. go (at p j (Val v # under los bus st) w))"
    and "cache_ok w" and "tel_o \<Longrightarrow> los \<and> halts env p j"
  shows "sim env n (at p i c w) (with_world r w) (post los tel_o p j bus st)"
  unfolding with_world_ret
  by (rule sim_jet) (use assms in \<open>auto simp: step_fetch intro: sim_fin simp del: sim_simps\<close>)

text \<open>Two formulas on the same subject, one after the other.\<close>

lemma sim_two:
  fixes env :: "'j env"
  assumes "sim env n (at p i (Val bus # st) w) r (post False False p i1 bus st)"
    and "fetch p i1 = Inr (Op SWAP, i2)"
    and "\<And>x w. cache_ok w \<Longrightarrow> sim env n (at p i2 (Val bus # Val x # st) w) (r' w) (post False False p i3 bus (Val x # st))"
    and "\<And>x y w. cache_ok w \<Longrightarrow> sim env n (at p i3 (Val y # Val bus # Val x # st) w) (f x y w) Q"
  shows "sim env n (at p i (Val bus # st) w) (on_ret r (\<lambda>(x, w). on_ret (r' w) (\<lambda>(y, w). f x y w))) Q"
proof (rule sim_then [OF assms(1)])
  fix x and w :: "'j world"
  assume w: "cache_ok w"
  have "sim env n (at p i2 (Val bus # Val x # st) w) (on_ret (r' w) (\<lambda>(y, w). f x y w)) Q"
    by (rule sim_then [OF assms(3) [OF w]]) (simp add: assms(4) del: sim_simps)
  then show "sim env n (at p i1 (Val x # under False bus st) w) (case (x, w) of (x, w) \<Rightarrow> on_ret (r' w) (\<lambda>(y, w). f x y w)) Q"
    by (simp add: sim_op [OF assms(2)] burn_simps del: sim_simps)
qed

lemma code_at_Cons: "code_at p pos a (x # xs) \<longleftrightarrow> placed p (pos a) x (pos (Suc a)) (\<lambda>n. pos (Suc (a + n))) \<and> code_at p pos (Suc a) xs"
  by simp

end
