(* ===== verification/Nock_Correct.thy ===== *)
theory Nock_Correct
  imports Nock_Sim
begin

text \<open>
  The compiler is correct: the code of a formula, wherever it is placed in a program, does with the
  subject on the stack what the reference interpreter does. There is one lemma for each shape of a formula.
\<close>

declare sim_simps [simp del]

section \<open>Code that runs a formula\<close>

definition runs :: "'j env \<Rightarrow> nat \<Rightarrow> u3n_prog \<Rightarrow> (nat \<Rightarrow> nat) \<Rightarrow> noun \<Rightarrow> bool \<Rightarrow> bool \<Rightarrow> op list \<Rightarrow> bool" where
  "runs env n p pos fol los tel_o c \<longleftrightarrow> (\<forall>a bus st w.
     (tel_o \<longrightarrow> los \<and> halts env p (pos (a + length c))) \<longrightarrow> code_at p pos a c \<longrightarrow> cache_ok w \<longrightarrow>
     sim env n (at p (pos a) (Val bus # st) w) (nock env n bus fol w) (post los tel_o p (pos (a + length c)) bus st))"

lemma runsI:
  assumes "\<And>a bus st w. (tel_o \<Longrightarrow> los \<and> halts env p (pos (a + length c))) \<Longrightarrow> code_at p pos a c \<Longrightarrow> cache_ok w \<Longrightarrow>
     sim env n (at p (pos a) (Val bus # st) w) (nock env n bus fol w) (post los tel_o p (pos (a + length c)) bus st)"
  shows "runs env n p pos fol los tel_o c"
  using assms by (simp add: runs_def)

lemma runsD:
  assumes "runs env n p pos fol los tel_o c" and "tel_o \<Longrightarrow> los \<and> halts env p j" and "code_at p pos a c" and "cache_ok w"
    and "i = pos a" and "j = pos (a + length c)"
  shows "sim env n (at p i (Val bus # st) w) (nock env n bus fol w) (post los tel_o p j bus st)"
  using assms by (simp add: runs_def)

text \<open>Two formulas on the same subject and an operation on their products.\<close>

lemma runs_two:
  fixes env :: "'j env"
  assumes "runs env n p pos fol1 False False ca" and "runs env n p pos fol2 False False cb"
    and "\<And>bus w. nock env n bus fol w = on_ret (nock env n bus fol1 w) (\<lambda>(u, w). on_ret (nock env n bus fol2 w) (\<lambda>(v, w). f u v w))"
    and "\<And>i j tgt u v bus st w. placed p i x j tgt \<Longrightarrow> cache_ok w \<Longrightarrow> (tel_o \<Longrightarrow> los \<and> halts env p j) \<Longrightarrow>
      sim env n (at p i (Val v # Val bus # Val u # st) w) (f u v w) (post los tel_o p j bus st)"
  shows "runs env n p pos fol los tel_o (ca @ Op SWAP # cb @ [x])" (is "runs _ _ _ _ _ _ _ ?c")
proof (rule runsI)
  fix a bus st and w :: "'j world"
  assume tel: "tel_o \<Longrightarrow> los \<and> halts env p (pos (a + length ?c))" and code: "code_at p pos a ?c" and w: "cache_ok w"
  show "sim env n (at p (pos a) (Val bus # st) w) (nock env n bus fol w) (post los tel_o p (pos (a + length ?c)) bus st)"
    unfolding assms(3)
  proof (rule sim_two [OF runsD [OF assms(1)] _ runsD [OF assms(2), where a = "a + length ca + 1"]])
    show "sim env n (at p (pos (a + length ca + 1 + length cb)) (Val v # Val bus # Val u # st) w) (f u v w)
        (post los tel_o p (pos (a + length ?c)) bus st)" if "cache_ok w" for u v w
      by (rule assms(4) [OF _ that]) (use code tel in \<open>auto simp: ac_simps\<close>)
  qed (use code w in \<open>auto simp: ac_simps\<close>)
qed

text \<open>A formula and an operation on its product.\<close>

lemma runs_one:
  fixes env :: "'j env"
  assumes "runs env n p pos fol1 los False ca"
    and "\<And>bus w. nock env n bus fol w = on_ret (nock env n bus fol1 w) (\<lambda>(u, w). f u w)"
    and "\<And>i j tgt u bus st w. placed p i x j tgt \<Longrightarrow> cache_ok w \<Longrightarrow> (tel_o \<Longrightarrow> los \<and> halts env p j) \<Longrightarrow>
      sim env n (at p i (Val u # under los bus st) w) (f u w) (post los tel_o p j bus st)"
  shows "runs env n p pos fol los tel_o (ca @ [x])" (is "runs _ _ _ _ _ _ _ ?c")
proof (rule runsI)
  fix a bus st and w :: "'j world"
  assume tel: "tel_o \<Longrightarrow> los \<and> halts env p (pos (a + length ?c))" and code: "code_at p pos a ?c" and w: "cache_ok w"
  show "sim env n (at p (pos a) (Val bus # st) w) (nock env n bus fol w) (post los tel_o p (pos (a + length ?c)) bus st)"
    unfolding assms(2)
  proof (rule sim_then [OF runsD [OF assms(1)]])
    show "sim env n (at p (pos (a + length ca)) (Val u # under los bus st) w) (case (u, w) of (u, w) \<Rightarrow> f u w)
        (post los tel_o p (pos (a + length ?c)) bus st)" if "cache_ok w" for u w
      unfolding prod.case by (rule assms(3) [OF _ that]) (use code tel in \<open>auto simp: ac_simps\<close>)
  qed (use code w in simp_all)
qed

text \<open>The same with an operation that only computes.\<close>

lemma runs_two_jet:
  assumes "runs env n p pos fol1 False False ca" and "runs env n p pos fol2 False False cb"
    and "\<And>bus w. nock env n bus fol w = on_ret (nock env n bus fol1 w) (\<lambda>(u, w). on_ret (nock env n bus fol2 w) (\<lambda>(v, w). with_world (g u v) w))"
    and "\<And>i j tgt. placed p i x j tgt \<Longrightarrow> fetch p i = Inr (y, j)"
    and "\<And>j u v bus st w. burn_op env y (at p j (Val v # Val bus # Val u # st) w) = on_ok (g u v) (\<lambda>r. go (at p j (Val r # under los bus st) w))"
  shows "runs env n p pos fol los tel_o (ca @ Op SWAP # cb @ [x])"
  by (rule runs_two [OF assms(1,2,3)], erule sim_last [OF assms(4) assms(5)])

lemma runs_one_jet:
  assumes "runs env n p pos fol1 los False ca"
    and "\<And>bus w. nock env n bus fol w = on_ret (nock env n bus fol1 w) (\<lambda>(u, w). with_world (g u) w)"
    and "\<And>i j tgt. placed p i x j tgt \<Longrightarrow> fetch p i = Inr (y, j)"
    and "\<And>j u c w. burn_op env y (at p j (Val u # c) w) = on_ok (g u) (\<lambda>r. go (at p j (Val r # c) w))"
  shows "runs env n p pos fol los tel_o (ca @ [x])"
  by (rule runs_one [OF assms(1,2)], erule sim_last [OF assms(3) assms(4)])

lemma runs_cons:
  assumes "runs env n p pos (u3nc x y) False False ca" and "runs env n p pos arg False False cb"
  shows "runs env n p pos (u3nc (u3nc x y) arg) los tel_o (ca @ Op SWAP # cb @ [Op (if los then AULT else AUTO)])"
  by (rule runs_two_jet [OF assms, where g = "\<lambda>u v. Inr (u3nc u v)" and y = "Op (if los then AULT else AUTO)"])
    (simp_all add: nock.simps [of _ _ _ "u3nc (u3nc x y) arg"] burn_simps)

lemma runs_deep:
  assumes "runs env n p pos arg los False ca"
  shows "runs env n p pos (u3nc (Atom 3) arg) los tel_o (ca @ [Op DEEP])"
  by (rule runs_one_jet [OF assms, where g = "\<lambda>u. Inr (loob (u3a_is_cell u))" and y = "Op DEEP"])
    (simp_all add: nock.simps [of _ _ _ "u3nc (Atom 3) arg"] burn_simps)

lemma runs_bump:
  assumes "runs env n p pos arg los False ca"
  shows "runs env n p pos (u3nc (Atom 4) arg) los tel_o (ca @ [Op BUMP])"
  by (rule runs_one_jet [OF assms, where g = u3i_vint and y = "Op BUMP"])
    (simp_all add: nock.simps [of _ _ _ "u3nc (Atom 4) arg"] burn_simps)

section \<open>Fragments and literals\<close>

lemma axis_small: "u3x_at (Atom 0) b = Inl Exit" "u3x_at (Atom 1) b = Inr b" "u3x_at (Atom 2) b = u3h b" "u3x_at (Atom 3) b = u3t b"
  by (cases b; simp add: u3x_at_def u3r_at_fragment fragment_def axis_path_Suc u3x_good_def del: u3r_at.simps)+

lemma kale_then: "on_ok (n_kale a) u3h = u3h a" "on_ok (n_kale a) u3t = u3t a"
  "on_ok (n_kale a) (\<lambda>a. on_ok (u3h a) f) = on_ok (u3h a) f" "on_ok (n_kale a) (\<lambda>a. on_ok (u3t a) f) = on_ok (u3t a) f"
  by (cases a; simp add: n_kale_def)+

text \<open>A single operation on the subject.\<close>

lemma runs_single:
  fixes env :: "'j env"
  assumes "\<And>bus w. nock env n bus fol w = with_world (g bus) w"
    and "\<And>i j tgt. placed p i x j tgt \<Longrightarrow> fetch p i = Inr (y, j)"
    and "\<And>j bus st w. burn_op env y (at p j (Val bus # st) w) = on_ok (g bus) (\<lambda>r. go (at p j (Val r # under los bus st) w))"
  shows "runs env n p pos fol los tel_o [x]"
proof (rule runsI)
  fix a bus st and w :: "'j world"
  assume "tel_o \<Longrightarrow> los \<and> halts env p (pos (a + length [x]))" and "code_at p pos a [x]" and "cache_ok w"
  then show "sim env n (at p (pos a) (Val bus # st) w) (nock env n bus fol w) (post los tel_o p (pos (a + length [x])) bus st)"
    unfolding assms(1) by (intro sim_last [OF assms(2) assms(3)]) auto
qed

lemma nock_lit: "nock env n bus (u3nc (Atom 1) x) w = Some (Inr (x, w))"
  by (simp add: nock.simps [of _ _ _ "u3nc (Atom (Suc 0)) x"])

lemma runs_lit: "runs env n p pos (u3nc (Atom 1) x) los tel_o [comp_lit x los]"
  by (rule runs_single [where g = "\<lambda>bus. Inr x" and y = "Arg (if los then LILB else LITB) x"])
    (simp_all add: nock_lit [simplified] comp_lit_def burn_simps split: if_splits)

lemma runs_nothing:
  fixes env :: "'j env"
  assumes "\<And>bus w. nock env n bus fol w = Some (Inr (bus, w))"
  shows "runs env n p pos fol True tel_o []"
proof (rule runsI)
  fix a bus st and w :: "'j world"
  assume "tel_o \<Longrightarrow> True \<and> halts env p (pos (a + length []))" and "cache_ok w"
  then show "sim env n (at p (pos a) (Val bus # st) w) (nock env n bus fol w) (post True tel_o p (pos (a + length [])) bus st)"
    using sim_fin [of w tel_o True env p "pos a" n bus bus st] unfolding assms by simp
qed

lemma nock_frag: "nock env n bus (u3nc (Atom 0) (Atom x)) w = with_world (u3x_at (Atom x) bus) w"
  by (simp add: nock.simps [of _ _ _ "u3nc (Atom 0) _"])

lemma runs_frag: "runs env n p pos (u3nc (Atom 0) (Atom x)) los tel_o (comp_frag (Atom x) los)"
proof -
  note single = runs_single [OF nock_frag]
  consider "x = 0" | "x = 1" | "x = 2" | "x = 3" | "x \<notin> {0, 1, 2, 3}"
    by blast
  then show ?thesis
  proof cases
    case 1
    then show ?thesis
      by (simp add: comp_frag_def) (rule single [where y = "Op BAIL"], simp_all add: axis_small burn_simps)
  next
    case 2
    show ?thesis
    proof (cases los)
      case True
      then show ?thesis
        using 2 nock_frag [of env n _ 1] runs_nothing [of env n "u3nc (Atom 0) (Atom 1)" p pos tel_o]
        by (simp add: comp_frag_def axis_small [simplified])
    next
      case False
      then show ?thesis
        using 2 by (simp add: comp_frag_def) (rule single [where y = "Op COPY"], simp_all add: axis_small [simplified] burn_simps)
    qed
  next
    case 3
    have code: "comp_frag (Atom x) los = [Op (if los then HELD else HEAD)]"
      by (simp add: comp_frag_def 3)
    show ?thesis
      unfolding code by (rule single [where y = "Op (if los then HELD else HEAD)"])
        (simp_all add: 3 axis_small burn_simps kale_then)
  next
    case 4
    have code: "comp_frag (Atom x) los = [Op (if los then TALL else TAIL)]"
      by (simp add: comp_frag_def 4)
    show ?thesis
      unfolding code by (rule single [where y = "Op (if los then TALL else TAIL)"])
        (simp_all add: 4 axis_small burn_simps kale_then)
  next
    case 5
    then obtain cod where cod: "comp_frag (Atom x) los = [Arg cod (Atom x)]" "label (Arg cod (Atom x)) = Arg (if los then FABL else FABK) (Atom x)"
        "cod \<notin> {SBIP, SBIN, SKIB, SLIB}"
      by (auto simp: comp_frag_def)
    show ?thesis
      unfolding cod(1) by (rule single [where y = "Arg (if los then FABL else FABK) (Atom x)"])
        (use cod(2,3) in \<open>simp_all add: burn_simps del: label.simps\<close>)
  qed
qed


section \<open>Operators\<close>

lemma runs_same_lits:
  "runs env n p pos (u3nt (Atom 5) (u3nc (Atom 1) x) (u3nc (Atom 1) y)) los tel_o
    [Op (if x = y then (if los then LIL0 else LIT0) else (if los then LIL1 else LIT1))]"
  by (rule runs_single [where g = "\<lambda>bus. Inr (loob (y = x))" and y = "Arg (if los then LILB else LITB) (loob (y = x))"])
    (auto simp: nock.simps [of _ _ _ "u3nt (Atom 5) _ _"] nock_lit [simplified] burn_simps loob_def split: if_splits)

lemma runs_same:
  assumes "runs env n p pos hed False False ca" and "runs env n p pos tel False False cb"
  shows "runs env n p pos (u3nt (Atom 5) hed tel) los tel_o (ca @ Op SWAP # cb @ [Op (if los then SALM else SAME)])"
  by (rule runs_two_jet [OF assms, where g = "\<lambda>u v. Inr (loob (v = u))" and y = "Op (if los then SALM else SAME)"])
    (simp_all add: nock.simps [of _ _ _ "u3nt (Atom 5) hed tel"] burn_simps)

lemma placed_comp_same: "placed p i (comp_same x) j tgt \<Longrightarrow> fetch p i = Inr (Arg (if noun_le x 0xFFFF then SAMB else SANB) x, j)"
  by (cases x) (auto simp: comp_same_def split: if_splits)

lemma runs_same_left:
  assumes "runs env n p pos tel los False ca"
  shows "runs env n p pos (u3nt (Atom 5) (u3nc (Atom 1) x) tel) los tel_o (ca @ [comp_same x])"
  by (rule runs_one_jet [OF assms, where g = "\<lambda>u. Inr (loob (u = x))"], erule_tac [2] placed_comp_same)
    (simp_all add: nock.simps [of _ _ _ "u3nt (Atom 5) _ tel"] nock_lit [simplified] burn_simps)

lemma runs_same_right:
  assumes "runs env n p pos hed los False ca"
  shows "runs env n p pos (u3nt (Atom 5) hed (u3nc (Atom 1) x)) los tel_o (ca @ [comp_same x])"
  by (rule runs_one_jet [OF assms, where g = "\<lambda>u. Inr (loob (u = x))"], erule_tac [2] placed_comp_same)
    (simp_all add: nock.simps [of _ _ _ "u3nt (Atom 5) hed _"] nock_lit [simplified] burn_simps eq_commute [of x])

lemma runs_wish:
  assumes "runs env n p pos hed False False ca" and "runs env n p pos tel False False cb"
  shows "runs env n p pos (u3nt (Atom 12) hed tel) los tel_o (ca @ Op SWAP # cb @ [Op (if los then WILS else WISH)])"
  by (rule runs_two_jet [OF assms, where g = "wish_in env" and y = "Op (if los then WILS else WISH)"])
    (simp_all add: nock.simps [of _ _ _ "u3nt (Atom 12) hed tel"] burn_simps)

text \<open>The edits with an opcode of their own are edits at the axes 2, 3 and 6.\<close>

lemma axis_6: "u3x_mas 6 = Inr 2" "u3x_cap 6 = Inr 3"
  by code_simp+

lemma edit_axes: "u3i_edit b (Atom 2) x = muth_in b x" "u3i_edit b (Atom 3) x = mutt_in b x" "u3i_edit b (Atom 6) x = musm_in b x"
proof -
  show "u3i_edit b (Atom 2) x = muth_in b x" "u3i_edit b (Atom 3) x = mutt_in b x"
    by (cases b; simp add: u3i_edit_def edit.simps noun_is_cat_def is_cat_def muth_in_def mutt_in_def)+
  show "u3i_edit b (Atom 6) x = musm_in b x"
  proof (cases b)
    case (Cell h t)
    then show ?thesis
      by (cases t) (simp_all add: u3i_edit_def edit.simps noun_is_cat_def is_cat_def musm_in_def axis_6)
  qed (simp add: u3i_edit_def edit.simps noun_is_cat_def is_cat_def musm_in_def)
qed

lemma runs_edit:
  assumes "runs env n p pos tel False False ca" and "runs env n p pos nef False False cb"
  shows "runs env n p pos (u3nt (Atom 10) (u3nc axe nef) tel) los tel_o (ca @ Op SWAP # cb @ [comp_edit axe los])"
proof -
  have eval: "nock env n bus (u3nt (Atom 10) (u3nc axe nef) tel) w =
      on_ret (nock env n bus tel w) (\<lambda>(u, w). on_ret (nock env n bus nef w) (\<lambda>(v, w). with_world (u3i_edit u axe v) w))" for bus w
    by (simp add: nock.simps [of _ _ _ "u3nt (Atom 10) _ tel"])
  consider "axe = Atom 2" | "axe = Atom 3" | "axe = Atom 6" | "axe \<notin> {Atom 2, Atom 3, Atom 6}"
    by blast
  then show ?thesis
  proof cases
    case 1
    have code: "comp_edit axe los = Op (if los then MUTH else KUTH)"
      by (simp add: comp_edit_def 1)
    show ?thesis
      unfolding code by (rule runs_two_jet [OF assms eval, where y = "Op (if los then MUTH else KUTH)"])
        (simp_all add: 1 edit_axes burn_simps)
  next
    case 2
    have code: "comp_edit axe los = Op (if los then MUTT else KUTT)"
      by (simp add: comp_edit_def 2)
    show ?thesis
      unfolding code by (rule runs_two_jet [OF assms eval, where y = "Op (if los then MUTT else KUTT)"])
        (simp_all add: 2 edit_axes burn_simps)
  next
    case 3
    have code: "comp_edit axe los = Op (if los then MUSM else KUSM)"
      by (simp add: comp_edit_def 3)
    show ?thesis
      unfolding code by (rule runs_two_jet [OF assms eval, where y = "Op (if los then MUSM else KUSM)"])
        (simp_all add: 3 edit_axes burn_simps)
  next
    case 4
    then have "placed p i (comp_edit axe los) j tgt \<Longrightarrow> fetch p i = Inr (Arg (if los then MUTB else KUTB) axe, j)" for i j tgt
      by (auto simp: comp_edit_def split: if_splits)
    then show ?thesis
      by (rule runs_two_jet [OF assms eval]) (simp_all add: burn_simps)
  qed
qed

section \<open>Calls and sequences\<close>

lemma runs_nock:
  assumes "\<And>m. n = Suc m \<Longrightarrow> callee_ok env m" and "runs env n p pos hed False False ca" and "runs env n p pos tel False False cb"
  shows "runs env n p pos (u3nt (Atom 2) hed tel) los tel_o
    (ca @ Op SWAP # cb @ [Op (if tel_o then NOCT else if los then NOLK else NOCK)])"
proof (rule runs_two [OF assms(2,3)])
  show "nock env n bus (u3nt (Atom 2) hed tel) w = on_ret (nock env n bus hed w) (\<lambda>(u, w). on_ret (nock env n bus tel w) (\<lambda>(v, w).
      case n of 0 \<Rightarrow> None | Suc m \<Rightarrow> on_ret (Some (n_find u3_nul v w)) (\<lambda>(q, w). nock env m u v w)))" for bus w
    by (simp add: nock.simps [of _ _ _ "u3nt (Atom 2) hed tel"])
  show "sim env n (at p i (Val v # Val bus # Val u # st) w)
      (case n of 0 \<Rightarrow> None | Suc m \<Rightarrow> on_ret (Some (n_find u3_nul v w)) (\<lambda>(q, w). nock env m u v w)) (post los tel_o p j bus st)"
    if "placed p i (Op (if tel_o then NOCT else if los then NOLK else NOCK)) j tgt" "cache_ok w" "tel_o \<Longrightarrow> los \<and> halts env p j"
    for i j tgt u v bus st w
  proof (cases n)
    case 0
    then show ?thesis
      by (simp add: sim_simps)
  next
    case (Suc m)
    have "fetch p i = Inr (Op (if tel_o then NOCT else if los then NOLK else NOCK), j)"
      using that(1) by (simp split: if_splits)
    with sim_nock [OF assms(1) [OF Suc] that(2,3)] show ?thesis
      using Suc by simp
  qed
qed

lemma runs_kick:
  assumes "\<And>m. n = Suc m \<Longrightarrow> callee_ok env m" and "kick_is_mac hed = Inr False" and "tel_o \<Longrightarrow> los" and "runs env n p pos tel los False ca"
  shows "runs env n p pos (u3nt (Atom 9) hed tel) los tel_o (ca @ [Arg (if tel_o then TICB else KICB) hed])"
proof (rule runs_one [OF assms(4)])
  show "nock env n bus (u3nt (Atom 9) hed tel) w = on_ret (nock env n bus tel w) (\<lambda>(u, w).
      on_ret (Some (n_kick env u hed w)) (\<lambda>(r, w). case r of Inl pro \<Rightarrow> Some (Inr (pro, w))
        | Inr q \<Rightarrow> (case n of 0 \<Rightarrow> None | Suc m \<Rightarrow> on_ret (Some (u3x_at hed u)) (\<lambda>nex. nock env m u nex w))))" for bus w
    by (simp add: nock.simps [of _ _ _ "u3nt (Atom 9) hed tel"] assms(2))
  show "sim env n (at p i (Val u # under los bus st) w)
      (on_ret (Some (n_kick env u hed w)) (\<lambda>(r, w). case r of Inl pro \<Rightarrow> Some (Inr (pro, w))
        | Inr q \<Rightarrow> (case n of 0 \<Rightarrow> None | Suc m \<Rightarrow> on_ret (Some (u3x_at hed u)) (\<lambda>nex. nock env m u nex w)))) (post los tel_o p j bus st)"
    if "placed p i (Arg (if tel_o then TICB else KICB) hed) j tgt" "cache_ok w" "tel_o \<Longrightarrow> los \<and> halts env p j" for i j tgt u bus st w
    by (rule sim_kick [OF assms(1) that(2,3)]) (use that(1) in \<open>simp_all split: if_splits\<close>)
qed

lemma runs_kick_mac:
  assumes "kick_is_mac hed = Inr True" and "runs env n p pos (kick_mac hed tel) los tel_o c"
  shows "runs env n p pos (u3nt (Atom 9) hed tel) los tel_o c"
  using assms by (simp add: runs_def nock.simps [of _ _ _ "u3nt (Atom 9) hed tel"])


text \<open>Code that replaces the subject leaves what is under the new one.\<close>

lemma sim_under:
  assumes "sim env n s r (post True tel_o p j u (under los bus st))" and "tel_o \<Longrightarrow> los"
  shows "sim env n s r (post los tel_o p j bus st)"
  using assms by (cases tel_o) (simp_all add: post_def [abs_def])

lemma runs_comp:
  fixes env :: "'j env"
  assumes "runs env n p pos hed los False ca" and "runs env n p pos tel True tel_o cb"
  shows "runs env n p pos (u3nt (Atom 7) hed tel) los tel_o (ca @ cb)"
proof (rule runsI)
  fix a bus st and w :: "'j world"
  assume tel: "tel_o \<Longrightarrow> los \<and> halts env p (pos (a + length (ca @ cb)))" and code: "code_at p pos a (ca @ cb)" and w: "cache_ok w"
  have eval: "nock env n bus (u3nt (Atom 7) hed tel) w = on_ret (nock env n bus hed w) (\<lambda>(u, w). nock env n u tel w)"
    by (simp add: nock.simps [of _ _ _ "u3nt (Atom 7) hed tel"])
  have last: "sim env n (at p (pos (a + length ca)) (Val u # under los bus st) w) (nock env n u tel w) (post los tel_o p (pos (a + length (ca @ cb))) bus st)"
    if "cache_ok w" for u w
    by (rule sim_under [OF runsD [OF assms(2) _ _ that]]) (use code tel in \<open>auto simp: ac_simps\<close>)
  show "sim env n (at p (pos a) (Val bus # st) w) (nock env n bus (u3nt (Atom 7) hed tel) w) (post los tel_o p (pos (a + length (ca @ cb))) bus st)"
    unfolding eval by (rule sim_then [OF runsD [OF assms(1)]]) (use code w last in auto)
qed

lemma runs_push:
  fixes env :: "'j env"
  assumes "runs env n p pos hed False False ca" and "runs env n p pos tel True tel_o cb"
  shows "runs env n p pos (u3nt (Atom 8) hed tel) los tel_o (ca @ Op (if los then SNOL else SNOC) # cb)" (is "runs _ _ _ _ _ _ _ ?c")
proof (rule runsI)
  fix a bus st and w :: "'j world"
  assume tel: "tel_o \<Longrightarrow> los \<and> halts env p (pos (a + length ?c))" and code: "code_at p pos a ?c" and w: "cache_ok w"
  have eval: "nock env n bus (u3nt (Atom 8) hed tel) w = on_ret (nock env n bus hed w) (\<lambda>(u, w). nock env n (u3nc u bus) tel w)"
    by (simp add: nock.simps [of _ _ _ "u3nt (Atom 8) hed tel"])
  have snoc: "fetch p (pos (a + length ca)) = Inr (Op (if los then SNOL else SNOC), pos (a + length ca + 1))"
    using code by (cases los) simp_all
  have last: "sim env n (at p (pos (a + length ca + 1)) (Val (u3nc u bus) # under los bus st) w) (nock env n (u3nc u bus) tel w)
      (post los tel_o p (pos (a + length ?c)) bus st)" if "cache_ok w" for u w
    by (rule sim_under [OF runsD [OF assms(2) _ _ that]]) (use code tel in \<open>auto simp: ac_simps\<close>)
  have "sim env n (at p (pos (a + length ca)) (Val u # Val bus # st) w) (nock env n (u3nc u bus) tel w) (post los tel_o p (pos (a + length ?c)) bus st)"
    if "cache_ok w" for u w
    by (rule sim_op [OF snoc _ last [OF that]]) (cases los; simp add: burn_simps)
  then show "sim env n (at p (pos a) (Val bus # st) w) (nock env n bus (u3nt (Atom 8) hed tel) w) (post los tel_o p (pos (a + length ?c)) bus st)"
    unfolding eval by (intro sim_then [OF runsD [OF assms(1)]]) (use code w in auto)
qed

section \<open>Conditions\<close>

lemma sim_skip:
  fixes env :: "'j env"
  assumes "sim env n s r (post los tel_o p i bus st)" and "fetch p i = Inr (Arg SBIP (Atom b), k)" and "k + b = j"
  shows "sim env n s r (post los tel_o p j bus st)"
proof (rule sim_mono [OF assms(1)])
  fix pro and w :: "'j world" and s'
  assume post: "post los tel_o p i bus st pro w s'"
  show "sim env n s' (Some (Inr (pro, w))) (post los tel_o p j bus st)"
  proof (cases tel_o)
    case True
    then show ?thesis
      using post by (intro sim_ret) (simp add: post_def)
  next
    case False
    then have s': "s' = at p i (Val pro # under los bus st) w" and w: "cache_ok w"
      using post by (auto simp: post_def)
    have "sim env n (at p j (Val pro # under los bus st) w) (Some (Inr (pro, w))) (post los tel_o p j bus st)"
      by (rule sim_fin [OF w]) (simp add: False)
    then show ?thesis
      unfolding s' by (rule sim_op [OF assms(2), rotated]) (simp add: burn_simps arg_num_def assms(3))
  qed
qed

lemma halts_skip:
  assumes "fetch p i = Inr (Arg SBIP (Atom b), k)" and "k + b = j" and "halts env p j"
  shows "halts env p i"
proof -
  have "step_to env (at p i c w) (at p j c w)" for c w
    by (simp add: step_to_def step_fetch [OF assms(1)] burn_simps arg_num_def assms(2))
  then show ?thesis
    using assms(3) unfolding halts_def by (meson converse_rtranclp_into_rtranclp)
qed

text \<open>A branch that is not a formula bails.\<close>

definition branch_runs :: "'j env \<Rightarrow> nat \<Rightarrow> u3n_prog \<Rightarrow> (nat \<Rightarrow> nat) \<Rightarrow> noun \<Rightarrow> bool \<Rightarrow> bool \<Rightarrow> op list \<Rightarrow> bool" where
  "branch_runs env n p pos fol los tel_o c \<longleftrightarrow>
     (if n_formulaic fol then runs env n p pos fol los tel_o c else c = [Op BAIL])"

lemma branch_runsD:
  assumes "branch_runs env n p pos fol los tel_o c" and "tel_o \<Longrightarrow> los \<and> halts env p j" and "code_at p pos a c" and "cache_ok w"
    and "i = pos a" and "j = pos (a + length c)"
  shows "sim env n (at p i (Val bus # st) w) (if n_formulaic fol then nock env n bus fol w else Some (Inl Exit)) (post los tel_o p j bus st)"
proof (cases "n_formulaic fol")
  case True
  then show ?thesis
    using assms runsD [of env n p pos fol los tel_o c j a w i bus st] by (simp add: branch_runs_def)
next
  case False
  then have "burn_step env (at p i (Val bus # st) w) = Inl Exit"
    using assms(1,3,5) by (simp add: branch_runs_def step_fetch [of p "pos a" "Op BAIL" "pos (a + 1)"] burn_simps)
  then show ?thesis
    using False by (simp add: sim_bail)
qed

lemma runs_cond:
  fixes env :: "'j env"
  assumes "runs env n p pos hed False False ca" and "branch_runs env n p pos mid los tel_o yep" and "branch_runs env n p pos tel los tel_o nop"
  shows "runs env n p pos (u3nc (Atom 6) (u3nt hed mid tel)) los tel_o
    (ca @ Arg SBIN (Atom (length yep + 1)) # yep @ Arg SBIP (Atom (length nop)) # nop)" (is "runs _ _ _ _ _ _ _ ?c")
proof (rule runsI)
  fix a bus st and w :: "'j world"
  assume tel: "tel_o \<Longrightarrow> los \<and> halts env p (pos (a + length ?c))" and code: "code_at p pos a ?c" and w: "cache_ok w"
  let ?i1 = "pos (a + length ca)" and ?i2 = "pos (a + length ca + 1)" and ?i3 = "pos (a + length ca + 1 + length yep)"
    and ?i4 = "pos (a + length ca + 1 + length yep + 1)" and ?j = "pos (a + length ?c)"
  have eval: "nock env n bus (u3nc (Atom 6) (u3nt hed mid tel)) w = on_ret (nock env n bus hed w) (\<lambda>(u, w).
      if u = Atom 0 then (if n_formulaic mid then nock env n bus mid w else Some (Inl Exit))
      else if u = Atom 1 then (if n_formulaic tel then nock env n bus tel w else Some (Inl Exit)) else Some (Inl Exit))"
    by (simp add: nock.simps [of _ _ _ "u3nc (Atom 6) (u3nt hed mid tel)"])
  obtain b0 b1 where sbin: "fetch p ?i1 = Inr (Arg SBIN (Atom b0), ?i2)" "?i2 + b0 = ?i4"
    and sbip: "fetch p ?i3 = Inr (Arg SBIP (Atom b1), ?i4)" "?i4 + b1 = ?j"
    using code by (auto simp: ac_simps)
  have codes: "code_at p pos (a + length ca + 1) yep" "code_at p pos (a + length ca + 1 + length yep + 1) nop"
    using code by (auto simp: ac_simps)
  have yes: "sim env n (at p ?i2 (Val bus # st) w) (if n_formulaic mid then nock env n bus mid w else Some (Inl Exit)) (post los tel_o p ?j bus st)"
    if "cache_ok w" for w
    by (rule sim_skip [OF branch_runsD [OF assms(2) _ codes(1) that] sbip]) (use tel halts_skip [OF sbip] in auto)
  have no: "sim env n (at p ?i4 (Val bus # st) w) (if n_formulaic tel then nock env n bus tel w else Some (Inl Exit)) (post los tel_o p ?j bus st)"
    if "cache_ok w" for w
    by (rule branch_runsD [OF assms(3) _ codes(2) that]) (use tel in \<open>auto simp: ac_simps\<close>)
  have test: "sim env n (at p ?i1 (Val u # Val bus # st) w)
      (if u = Atom 0 then (if n_formulaic mid then nock env n bus mid w else Some (Inl Exit))
       else if u = Atom 1 then (if n_formulaic tel then nock env n bus tel w else Some (Inl Exit)) else Some (Inl Exit))
      (post los tel_o p ?j bus st)" if w: "cache_ok w" for u w
  proof -
    have step: "burn_step env (at p ?i1 (Val u # Val bus # st) w) =
        (if u = Atom 1 then go (at p ?i4 (Val bus # st) w) else if u \<noteq> Atom 0 then Inl Exit else go (at p ?i2 (Val bus # st) w))"
      using sbin by (simp add: step_fetch burn_simps skin_in_def arg_num_def)
    consider "u = Atom 0" | "u = Atom 1" | "u \<notin> {Atom 0, Atom 1}"
      by blast
    then show ?thesis
    proof cases
      case 1
      then show ?thesis
        using sim_step [OF _ yes [OF w]] step by (simp add: step_to_def go_def)
    next
      case 2
      then show ?thesis
        using sim_step [OF _ no [OF w]] step by (simp add: step_to_def go_def)
    next
      case 3
      then show ?thesis
        using step by (simp add: sim_bail)
    qed
  qed
  show "sim env n (at p (pos a) (Val bus # st) w) (nock env n bus (u3nc (Atom 6) (u3nt hed mid tel)) w) (post los tel_o p ?j bus st)"
    unfolding eval
    by (rule sim_then [OF runsD [OF assms(1)]], unfold prod.case under_simps, erule_tac [6] test) (use code w in simp_all)
qed

section \<open>Hints\<close>

lemma nock_static: "nock env n bus (u3nt (Atom 11) (Atom tag) nef) w =
    (if is_fore (Atom tag) then around (n_hilt_fore env (u3nc (Atom tag) nef) bus w) (\<lambda>w. nock env n bus nef w) (n_hilt_hind env)
     else nock env n bus nef w)"
  by (simp add: nock.simps [of _ _ _ "u3nt (Atom 11) _ _"] nock_hint.simps)

lemma nock_dynamic: "nock env n bus (u3nt (Atom 11) (u3nc zep hod) nef) w = nock_hint env n bus (u3nc zep hod) nef w"
  by (simp add: nock.simps [of _ _ _ "u3nt (Atom 11) _ _"])

lemmas nock_hints = nock_dynamic nock_hint.simps [of _ _ _ "u3nc _ _"] is_tace_def is_fore_def

text \<open>The formula of the clue, and an operation that takes the clue from the stack.\<close>

lemma sim_clue:
  fixes env :: "'j env"
  assumes "runs env n p pos hod False False ca" and "code_at p pos a ca" and "cache_ok w"
    and "fetch p (pos (a + length ca)) = Inr (y, j)"
    and "\<And>clu w. burn_op env y (at p j (Val clu # Val bus # st) w) = go (at p j (Val bus # st) (h clu w))"
    and "\<And>clu w. cache_ok w \<Longrightarrow> sim env n (at p j (Val bus # st) (h clu w)) (f clu w) Q"
  shows "sim env n (at p (pos a) (Val bus # st) w) (on_ret (nock env n bus hod w) (\<lambda>(clu, w). f clu w)) Q"
proof (rule sim_then [OF runsD [OF assms(1)]])
  fix clu and w :: "'j world"
  assume w: "cache_ok w"
  show "sim env n (at p (pos (a + length ca)) (Val clu # under False bus st) w) (case (clu, w) of (clu, w) \<Rightarrow> f clu w) Q"
    unfolding prod.case under_simps by (rule sim_op [OF assms(4) _ assms(6) [OF w]]) (simp add: assms(5) go_def)
qed (use assms(2,3) in simp_all)

text \<open>An operation that only changes the world, behind the formula.\<close>

lemma sim_behind:
  assumes "fetch p i = Inr (y, j)" and "burn_op env y (at p j c w) = on_ok (g w) (\<lambda>w. go (at p j (Val pro # under los bus st) w))"
    and "cache_ok w" and "tel_o \<Longrightarrow> los \<and> halts env p j" and "\<And>w'. g w = Inr w' \<Longrightarrow> cache_ok w'"
  shows "sim env n (at p i c w) (Some (on_ok (g w) (\<lambda>w. Inr (pro, w)))) (post los tel_o p j bus st)"
proof -
  have "sim env n (at p i c w) (on_ret (Some (g w)) (\<lambda>w. Some (Inr (pro, w)))) (post los tel_o p j bus st)"
    by (rule sim_jet) (use assms in \<open>auto simp: step_fetch intro: sim_fin\<close>)
  then show ?thesis
    by (cases "g w") simp_all
qed

text \<open>A hint whose operation drops the clue and may change the world, in front of the formula.\<close>

lemma runs_clue:
  fixes env :: "'j env"
  assumes "runs env n p pos hod False False ca" and "runs env n p pos nef los tel_o cb"
    and "\<And>bus w. nock env n bus fol w = on_ret (nock env n bus hod w) (\<lambda>(clu, w). nock env n bus nef (h clu w))"
    and "\<And>i j tgt. placed p i x j tgt \<Longrightarrow> fetch p i = Inr (y, j)"
    and "\<And>j clu bus st w. burn_op env y (at p j (Val clu # Val bus # st) w) = go (at p j (Val bus # st) (h clu w))"
    and "\<And>clu w. roads (h clu w) = roads w"
  shows "runs env n p pos fol los tel_o (ca @ x # cb)" (is "runs _ _ _ _ _ _ _ ?c")
proof (rule runsI)
  fix a bus st and w :: "'j world"
  assume tel: "tel_o \<Longrightarrow> los \<and> halts env p (pos (a + length ?c))" and code: "code_at p pos a ?c" and w: "cache_ok w"
  have x: "fetch p (pos (a + length ca)) = Inr (y, pos (a + length ca + 1))"
    using code by (auto intro: assms(4))
  have nef: "sim env n (at p (pos (a + length ca + 1)) (Val bus # st) (h clu w)) (nock env n bus nef (h clu w)) (post los tel_o p (pos (a + length ?c)) bus st)"
    if "cache_ok w" for clu w
    by (rule runsD [OF assms(2)]) (use code tel that cache_ok_cong [OF assms(6)] in \<open>auto simp: ac_simps\<close>)
  show "sim env n (at p (pos a) (Val bus # st) w) (nock env n bus fol w) (post los tel_o p (pos (a + length ?c)) bus st)"
    unfolding assms(3) by (rule sim_clue [OF assms(1) _ w x assms(5) nef]) (use code in simp_all)
qed

lemma runs_live:
  assumes "runs env n p pos hod False False ca" and "runs env n p pos nef los tel_o cb"
  shows "runs env n p pos (u3nt (Atom 11) (u3nc (Atom c3__live) hod) nef) los tel_o (ca @ Op HECK # cb)"
  by (rule runs_clue [OF assms, where y = "Op HECK" and h = "\<lambda>clu w. if u3a_is_cell clu then w else note_it (Heck_note clu) w"])
    (simp_all add: nock_hints burn_simps heck_in_def)

lemma runs_slog:
  assumes "runs env n p pos hod False False ca" and "runs env n p pos nef los tel_o cb"
  shows "runs env n p pos (u3nt (Atom 11) (u3nc (Atom c3__slog) hod) nef) los tel_o (ca @ Op SLOG # cb)"
  by (rule runs_clue [OF assms, where y = "Op SLOG" and h = "\<lambda>clu w. if quiet env then w else note_it (Slog_note clu) w"])
    (simp_all add: nock_hints burn_simps slog_in_def)

lemma runs_other:
  assumes "\<not> is_tace zep" and "zep \<notin> {Atom c3__live, Atom c3__slog, Atom c3__fast, Atom c3__memo}" and "\<not> is_fore zep"
    and "runs env n p pos hod False False ca" and "runs env n p pos nef los tel_o cb"
  shows "runs env n p pos (u3nt (Atom 11) (u3nc zep hod) nef) los tel_o (ca @ Op TOSS # cb)"
  by (rule runs_clue [OF assms(4,5), where y = "Op TOSS" and h = "\<lambda>clu w. w"])
    (use assms(1-3) in \<open>simp_all add: nock_dynamic nock_hint.simps [of _ _ _ "u3nc _ _"] burn_simps\<close>)

lemma runs_fast:
  assumes "runs env n p pos hod False False ca" and "runs env n p pos nef False False cb"
  shows "runs env n p pos (u3nt (Atom 11) (u3nc (Atom c3__fast) hod) nef) los tel_o (ca @ Op SWAP # cb @ [Op (if los then BALT else BAST)])"
proof (rule runs_two [OF assms])
  show "nock env n bus (u3nt (Atom 11) (u3nc (Atom c3__fast) hod) nef) w = on_ret (nock env n bus hod w) (\<lambda>(clu, w). on_ret (nock env n bus nef w)
      (\<lambda>(pro, w). Some (on_ok (on_ok (u3j_rite_mine env (jed w) clu pro) (\<lambda>j. Inr (w\<lparr>jed := j\<rparr>))) (\<lambda>w. Inr (pro, w)))))" for bus w
    by (simp add: nock_hints)
  show "sim env n (at p i (Val pro # Val bus # Val clu # st) w)
      (Some (on_ok (on_ok (u3j_rite_mine env (jed w) clu pro) (\<lambda>j. Inr (w\<lparr>jed := j\<rparr>))) (\<lambda>w. Inr (pro, w)))) (post los tel_o p j bus st)"
    if placed: "placed p i (Op (if los then BALT else BAST)) j tgt" and w: "cache_ok w" and tel: "tel_o \<Longrightarrow> los \<and> halts env p j"
    for i j tgt clu pro bus st w
  proof -
    obtain r where "fetch p i = Inr (Arg (if los then BALT else BAST) r, j)"
      using placed by (cases los) auto
    then show ?thesis
      by (rule sim_behind [OF _ _ w tel])
        (use w in \<open>auto simp: burn_simps fast_out_def on_ok_eq_Inr\<close>)
  qed
qed

lemma cache_ok_world [simp]:
  "cache_ok (note_it x w) = cache_ok w" "cache_ok (u3t_push y w) = cache_ok w" "cache_ok (u3z_save_m env k a b w) = cache_ok w"
  by (rule cache_ok_cong, simp)+

lemma drop_ok: "cache_ok w \<Longrightarrow> u3t_drop w = Inr w' \<Longrightarrow> cache_ok w'"
  using cache_ok_cong [OF u3t_drop_roads] by blast

lemma runs_tace:
  fixes env :: "'j env"
  assumes "is_tace zep" and "runs env n p pos hod False False ca" and "runs env n p pos nef los False cb"
  shows "runs env n p pos (u3nt (Atom 11) (u3nc zep hod) nef) los tel_o (ca @ Arg BUSH zep # cb @ [Op DROP])" (is "runs _ _ _ _ _ _ _ ?c")
proof (rule runsI)
  fix a bus st and w :: "'j world"
  assume tel: "tel_o \<Longrightarrow> los \<and> halts env p (pos (a + length ?c))" and code: "code_at p pos a ?c" and w: "cache_ok w"
  let ?Q = "post los tel_o p (pos (a + length ?c)) bus st" and ?i2 = "pos (a + length ca + 1 + length cb)"
  have bush: "fetch p (pos (a + length ca)) = Inr (Arg BUSH zep, pos (a + length ca + 1))"
    and dropped: "fetch p ?i2 = Inr (Op DROP, pos (a + length ?c))"
    using code by (auto simp: ac_simps)
  have behind: "sim env n (at p ?i2 (Val pro # under los bus st) w) (Some (on_ok (u3t_drop w) (\<lambda>w. Inr (pro, w)))) ?Q" if "cache_ok w" for pro w
    by (rule sim_behind [OF dropped _ that tel]) (auto simp: burn_simps drop_ok [OF that])
  have nef: "sim env n (at p (pos (a + length ca + 1)) (Val bus # st) (u3t_push (u3nc zep clu) w))
      (on_ret (nock env n bus nef (u3t_push (u3nc zep clu) w)) (\<lambda>(pro, w). Some (on_ok (u3t_drop w) (\<lambda>w. Inr (pro, w))))) ?Q"
    if "cache_ok w" for clu w
    by (rule sim_then [OF runsD [OF assms(3)]], unfold prod.case, erule_tac [6] behind)
      (use code that in auto)
  have eval: "nock env n bus (u3nt (Atom 11) (u3nc zep hod) nef) w = on_ret (nock env n bus hod w) (\<lambda>(clu, w).
      on_ret (nock env n bus nef (u3t_push (u3nc zep clu) w)) (\<lambda>(pro, w). Some (on_ok (u3t_drop w) (\<lambda>w. Inr (pro, w)))))"
    using assms(1) by (simp add: nock_dynamic nock_hint.simps [of _ _ _ "u3nc _ _"])
  show "sim env n (at p (pos a) (Val bus # st) w) (nock env n bus (u3nt (Atom 11) (u3nc zep hod) nef) w) ?Q"
    unfolding eval by (rule sim_clue [OF assms(2) _ w bush _ nef]) (use code in \<open>simp_all add: burn_simps cush_in_def\<close>)
qed

lemma runs_memo:
  fixes env :: "'j env"
  assumes "runs env n p pos hod False False ca" and "runs env n p pos nef True False cb"
  shows "runs env n p pos (u3nt (Atom 11) (u3nc (Atom c3__memo) hod) nef) los tel_o
    (ca @ Op TOSS # Arg (if los then SLIB else SKIB) (u3nc (Atom (length cb + 1)) nef) # cb @ [Op SAVE])" (is "runs _ _ _ _ _ _ _ ?c")
proof (rule runsI)
  fix a bus st and w :: "'j world"
  assume tel: "tel_o \<Longrightarrow> los \<and> halts env p (pos (a + length ?c))" and code: "code_at p pos a ?c" and w: "cache_ok w"
  let ?j = "pos (a + length ?c)" and ?i1 = "pos (a + length ca + 1)" and ?i2 = "pos (a + length ca + 2)" and ?i3 = "pos (a + length ca + 2 + length cb)"
  let ?Q = "post los tel_o p ?j bus st" and ?x = "u3nc bus nef"
  let ?save = "\<lambda>pro w. if home env then w else u3z_save_m env (144 + c3__nock) ?x pro w"
  have toss: "fetch p (pos (a + length ca)) = Inr (Op TOSS, ?i1)" and saved: "fetch p ?i3 = Inr (Op SAVE, ?j)"
    using code by (auto simp: ac_simps)
  obtain b where skim: "fetch p ?i1 = Inr (Arg (if los then SLIB else SKIB) (u3nc (Atom b) nef), ?i2)" "?i2 + b = ?j"
    using code by (cases los) (auto simp: ac_simps)
  have step: "burn_step env (at p ?i1 (Val bus # st) w) = (case u3z_find_m (144 + c3__nock) ?x w of
      None \<Rightarrow> go (at p ?i2 (Val bus # Val ?x # under los bus st) w)
    | Some pro \<Rightarrow> go (at p ?j (Val pro # under los bus st) w))" for w
    using skim by (cases los) (auto simp: step_fetch burn_simps skim_out_def arg_num_def Let_def split: option.splits)
  have behind: "sim env n (at p ?i3 (Val pro # Val ?x # under los bus st) w) (Some (Inr (pro, ?save pro w))) ?Q" if "cache_ok w" for pro w
  proof -
    have "sim env n (at p ?i3 (Val pro # Val ?x # under los bus st) w) (Some (on_ok (Inr (?save pro w)) (\<lambda>w. Inr (pro, w)))) ?Q"
      by (rule sim_behind [OF saved _ that tel])
        (use that in \<open>auto simp: burn_simps save_in_def split: if_splits\<close>)
    then show ?thesis
      by simp
  qed
  have nef: "sim env n (at p ?i2 (Val bus # Val ?x # under los bus st) w) (on_ret (nock env n bus nef w) (\<lambda>(pro, w). Some (Inr (pro, ?save pro w)))) ?Q"
    if "cache_ok w" for w
    by (rule sim_then [OF runsD [OF assms(2)]], unfold prod.case under_simps, erule_tac [6] behind) (use code that in auto)
  have memo: "sim env n (at p ?i1 (Val bus # st) w) (case u3z_find_m (144 + c3__nock) ?x w of Some pro \<Rightarrow> Some (Inr (pro, w))
      | None \<Rightarrow> on_ret (nock env n bus nef w) (\<lambda>(pro, w). Some (Inr (pro, ?save pro w)))) ?Q" if "cache_ok w" for w
  proof (cases "u3z_find_m (144 + c3__nock) ?x w")
    case None
    then show ?thesis
      using sim_step [OF _ nef [OF that]] step by (simp add: step_to_def go_def)
  next
    case (Some pro)
    then show ?thesis
      using sim_step [OF _ sim_fin [OF that tel]] step by (simp add: step_to_def go_def)
  qed
  have eval: "nock env n bus (u3nt (Atom 11) (u3nc (Atom c3__memo) hod) nef) w = on_ret (nock env n bus hod w) (\<lambda>(clu, w).
      case u3z_find_m (144 + c3__nock) ?x w of Some pro \<Rightarrow> Some (Inr (pro, w))
      | None \<Rightarrow> on_ret (nock env n bus nef w) (\<lambda>(pro, w). Some (Inr (pro, ?save pro w))))"
    by (simp add: nock_hints)
  show "sim env n (at p (pos a) (Val bus # st) w) (nock env n bus (u3nt (Atom 11) (u3nc (Atom c3__memo) hod) nef) w) ?Q"
    unfolding eval by (rule sim_clue [OF assms(1) _ w toss _ memo]) (use code in \<open>simp_all add: burn_simps\<close>)
qed

section \<open>Hints around a formula\<close>

text \<open>Behind the operation in front: the token is under the subject, and the top says whether to run the formula.\<close>

lemma sim_around:
  fixes env :: "'j env"
  assumes "runs env n p pos nef los False cb"
    and "code_at p pos a c"
    and "\<And>i j tgt. placed p i x j tgt \<Longrightarrow> fetch p i = Inr (y, j)"
    and "\<And>j s. burn_op env y s = (if los then hind_lose hind s else hind_keep hind s)"
    and "\<And>tok pro w w'. hind tok pro w = Inr w' \<Longrightarrow> roads w' = roads w"
    and "cache_ok w" and "tel_o \<Longrightarrow> los \<and> halts env p k" and k: "k = pos (a + length c)"
    and c: "c = Arg SBIN (Atom (length cb + 2)) # cb @ [x, Arg SBIP (Atom 1), Op (if los then TOSS else SWAP)]"
  shows "sim env n (at p (pos a) (Val (loob yes) # Val bus # Val tok # st) w)
    (if yes then on_ret (nock env n bus nef w) (\<lambda>(pro, w). Some (on_ok (hind tok pro w) (\<lambda>w. Inr (pro, w)))) else Some (Inr (tok, w)))
    (post los tel_o p k bus st)"
proof -
  let ?j = "pos (a + length cb + 4)" and ?i2 = "pos (a + 1 + length cb)" and ?i3 = "pos (a + length cb + 2)" and ?i4 = "pos (a + length cb + 3)"
  have j: "k = ?j"
    by (simp add: k c eval_nat_numeral)
  obtain b0 b1 where sbin: "fetch p (pos a) = Inr (Arg SBIN (Atom b0), pos (a + 1))" "pos (a + 1) + b0 = ?i4"
    and sbip: "fetch p ?i3 = Inr (Arg SBIP (Atom b1), ?i4)" "?i4 + b1 = ?j"
    using assms(2) [unfolded c] by (auto simp: ac_simps eval_nat_numeral)
  have x: "fetch p ?i2 = Inr (y, ?i3)" and clean: "fetch p ?i4 = Inr (Op (if los then TOSS else SWAP), ?j)"
    using assms(2) [unfolded c] by (auto simp: ac_simps eval_nat_numeral intro: assms(3) split: if_splits)
  have behind: "sim env n (at p ?i2 (Val pro # under los bus (Val tok # st)) w) (Some (on_ok (hind tok pro w) (\<lambda>w. Inr (pro, w))))
      (post los tel_o p ?j bus st)" if "cache_ok w" for pro w
  proof (rule sim_skip [OF sim_behind [OF x _ that] sbip])
    show "tel_o \<Longrightarrow> los \<and> halts env p ?i3"
      using assms(7) [unfolded j] halts_skip [OF sbip] by blast
    show "burn_op env y (at p ?i3 (Val pro # under los bus (Val tok # st)) w) =
        on_ok (hind tok pro w) (\<lambda>w. go (at p ?i3 (Val pro # under los bus st) w))"
      by (cases los) (simp_all add: assms(4) hind_lose_def hind_keep_def n_push_def n_peek_def)
    show "cache_ok w'" if "hind tok pro w = Inr w'" for w'
      using \<open>cache_ok w\<close> cache_ok_cong [OF assms(5) [OF that]] by blast
  qed
  show ?thesis
  proof (cases yes)
    case True
    have "sim env n (at p (pos (a + 1)) (Val bus # Val tok # st) w)
        (on_ret (nock env n bus nef w) (\<lambda>(pro, w). Some (on_ok (hind tok pro w) (\<lambda>w. Inr (pro, w))))) (post los tel_o p ?j bus st)"
      by (rule sim_then [OF runsD [OF assms(1)]], unfold prod.case, erule_tac [6] behind) (use assms(2) [unfolded c] assms(6) in auto)
    then show ?thesis
      unfolding j using True by simp (rule sim_op [OF sbin(1)], simp_all add: burn_simps skin_in_def arg_num_def loob_def)
  next
    case False
    have "sim env n (at p ?i4 (Val bus # Val tok # st) w) (Some (Inr (tok, w))) (post los tel_o p ?j bus st)"
      by (rule sim_op [OF clean _ sim_fin [OF assms(6) assms(7) [unfolded j]]]) (simp_all add: burn_simps)
    then show ?thesis
      unfolding j using False sbin(2) by simp (rule sim_op [OF sbin(1)], simp_all add: burn_simps skin_in_def arg_num_def loob_def)
  qed
qed

text \<open>The operation in front.\<close>

lemma sim_fore:
  fixes env :: "'j env"
  assumes "fetch p i = Inr (y, j)"
    and "burn_op env y (at p j c w) = fore_in (\<lambda>bus. fore bus) (Val bus # st) (at p j (Val bus # st) w)"
    and "\<And>yes tok w'. fore bus w = Inr (yes, tok, w') \<Longrightarrow> sim env n (at p j (Val (loob yes) # Val bus # Val tok # st) w')
      (if yes then on_ret (run w') (\<lambda>(pro, w). Some (on_ok (hind tok pro w) (\<lambda>w. Inr (pro, w)))) else Some (Inr (tok, w'))) Q"
  shows "sim env n (at p i c w) (around (fore bus w) run hind) Q"
  unfolding around_def
proof (rule sim_jet)
  show "burn_step env (at p i c w) = on_ok (fore bus w) (\<lambda>v. go (case v of (yes, tok, w) \<Rightarrow> at p j (Val (loob yes) # Val bus # Val tok # st) w))"
    unfolding step_fetch [OF assms(1)] assms(2) by (simp add: fore_in_def burn_simps case_prod_unfold)
qed (use assms(3) in \<open>auto split: prod.splits\<close>)

lemma fore_ok:
  "n_hilt_fore env hin bus w = Inr (yes, tok, w') \<Longrightarrow> cache_ok w \<Longrightarrow> cache_ok w'"
  "n_hint_fore env hin bus clu w = Inr (yes, tok, w') \<Longrightarrow> cache_ok w \<Longrightarrow> cache_ok w'"
  using hint_roads cache_ok_cong by metis+

lemma hind_ops:
  "burn_op env (Op (if los then HILL else HILK)) s = (if los then hind_lose (n_hilt_hind env) s else hind_keep (n_hilt_hind env) s)"
  "burn_op env (Op (if los then HINL else HINK)) s = (if los then hind_lose (n_hint_hind env) s else hind_keep (n_hint_hind env) s)"
  by (cases los; simp add: burn_op_def burn_plain_def)+

lemma placed_hind:
  "placed p i (Op (if los then HILL else HILK)) j tgt \<Longrightarrow> fetch p i = Inr (Op (if los then HILL else HILK), j)"
  "placed p i (Op (if los then HINL else HINK)) j tgt \<Longrightarrow> fetch p i = Inr (Op (if los then HINL else HINK), j)"
  by (cases los; simp)+

lemma runs_hilt:
  fixes env :: "'j env"
  assumes "is_fore (Atom tag)" and "runs env n p pos nef los False cb"
  shows "runs env n p pos (u3nt (Atom 11) (Atom tag) nef) los tel_o
    (Arg HILB (u3nc (Atom tag) nef) # Arg SBIN (Atom (length cb + 2)) # cb @
      [Op (if los then HILL else HILK), Arg SBIP (Atom 1), Op (if los then TOSS else SWAP)])" (is "runs _ _ _ _ _ _ _ (_ # ?c)")
proof (rule runsI)
  fix a bus st and w :: "'j world"
  let ?hin = "u3nc (Atom tag) nef"
  assume tel: "tel_o \<Longrightarrow> los \<and> halts env p (pos (a + length (Arg HILB ?hin # ?c)))"
    and code: "code_at p pos a (Arg HILB ?hin # ?c)" and w: "cache_ok w"
  have hilt: "fetch p (pos a) = Inr (Arg HILB ?hin, pos (a + 1))"
    using code by simp
  have tail: "code_at p pos (a + 1) ?c"
    using code by (simp del: append_Cons)
  show "sim env n (at p (pos a) (Val bus # st) w) (nock env n bus (u3nt (Atom 11) (Atom tag) nef) w)
      (post los tel_o p (pos (a + length (Arg HILB ?hin # ?c))) bus st)"
    unfolding nock_static if_P [OF assms(1)]
    by (rule sim_fore [OF hilt, where st = st and fore = "n_hilt_fore env ?hin"],
        simp add: burn_op_def burn_arg_def, rule sim_around [OF assms(2) tail placed_hind(1) hind_ops(1) hint_roads(3)])
      (use w tel in \<open>auto elim: fore_ok\<close>)
qed

lemma runs_hint:
  fixes env :: "'j env"
  assumes "is_fore zep" and "runs env n p pos hod False False ca" and "runs env n p pos nef los False cb"
  shows "runs env n p pos (u3nt (Atom 11) (u3nc zep hod) nef) los tel_o
    (ca @ Arg HINB (u3nc zep nef) # Arg SBIN (Atom (length cb + 2)) # cb @
      [Op (if los then HINL else HINK), Arg SBIP (Atom 1), Op (if los then TOSS else SWAP)])" (is "runs _ _ _ _ _ _ _ (_ @ _ # ?c)")
proof (rule runsI)
  fix a bus st and w :: "'j world"
  let ?hin = "u3nc zep nef" and ?i = "pos (a + length ca)" and ?k = "pos (a + length ca + 1 + length ?c)"
  assume "tel_o \<Longrightarrow> los \<and> halts env p (pos (a + length (ca @ Arg HINB ?hin # ?c)))"
    and code: "code_at p pos a (ca @ Arg HINB ?hin # ?c)" and w: "cache_ok w"
  then have tel: "tel_o \<Longrightarrow> los \<and> halts env p ?k"
    by (simp add: ac_simps)
  have hint: "fetch p ?i = Inr (Arg HINB ?hin, pos (a + length ca + 1))" and tail: "code_at p pos (a + length ca + 1) ?c"
    using code by (simp_all del: append_Cons)
  have clue: "sim env n (at p ?i (Val clu # under False bus st) w) (around (n_hint_fore env ?hin bus clu w) (\<lambda>w. nock env n bus nef w) (n_hint_hind env))
      (post los tel_o p ?k bus st)" if "cache_ok w" for clu w
    by (rule sim_fore [OF hint, where st = st and fore = "\<lambda>bus. n_hint_fore env ?hin bus clu"],
        simp add: burn_op_def burn_arg_def fore_in_def, rule sim_around [OF assms(3) tail placed_hind(2) hind_ops(2) hint_roads(4)])
      (use that tel in \<open>auto elim: fore_ok\<close>)
  have eval: "nock env n bus (u3nt (Atom 11) (u3nc zep hod) nef) w = on_ret (nock env n bus hod w) (\<lambda>(clu, w).
      around (n_hint_fore env ?hin bus clu w) (\<lambda>w. nock env n bus nef w) (n_hint_hind env))"
    using assms(1) by (auto simp: nock_hints)
  have "sim env n (at p (pos a) (Val bus # st) w) (nock env n bus (u3nt (Atom 11) (u3nc zep hod) nef) w) (post los tel_o p ?k bus st)"
    unfolding eval by (rule sim_then [OF runsD [OF assms(2)]], unfold prod.case, erule_tac [6] clue) (use code w in simp_all)
  then show "sim env n (at p (pos a) (Val bus # st) w) (nock env n bus (u3nt (Atom 11) (u3nc zep hod) nef) w)
      (post los tel_o p (pos (a + length (ca @ Arg HINB ?hin # ?c))) bus st)"
    by (simp add: ac_simps)
qed

section \<open>The compiler\<close>

theorem coded_runs:
  assumes "\<And>m. n = Suc m \<Longrightarrow> callee_ok env m" and "coded fol los tel_o c" and "tel_o \<longrightarrow> los"
  shows "runs env n p pos fol los tel_o c"
  using assms(2,3)
proof (induction rule: coded.induct)
  case (cond hed a mid tel los tel_o yep nop)
  then show ?case
    by (intro runs_cond) (auto simp: branch_runs_def)
next
  case (kick hed tel tel_o los a)
  then have "tel_o \<Longrightarrow> los" "(if tel_o then True else los) = los"
    by auto
  then show ?case
    using kick by (intro runs_kick [OF assms(1)]) auto
next
  case (static tag nef los tel_o c)
  then show ?case
    by (simp add: runs_def nock_static)
qed (simp_all only: simp_thms, auto intro: runs_cons runs_frag runs_lit runs_nock [OF assms(1)] runs_deep runs_bump runs_same_lits runs_same
    runs_same_left runs_same_right runs_comp runs_push runs_kick_mac runs_edit runs_hilt runs_tace runs_live runs_slog
    runs_fast runs_memo runs_hint runs_other runs_wish simp del: One_nat_def add_2_eq_Suc' split del: if_split)

theorem callees_ok: "callee_ok env n"
proof (induction n rule: less_induct)
  case (less n)
  have "sim env n (at p 0 (Val bus # st) w) (nock env n bus fol w) (returned st)" if bite: "n_bite fol = Inr p" and w: "cache_ok w" for fol p bus st w
  proof -
    obtain c pos where c: "coded fol True True c" "pos 0 = 0" "code_at p pos 0 c" "fetch p (pos (length c)) = Inr (Op HALT, pos (length c) + 1)"
      by (rule n_bite_code [OF bite])
    have "runs env n p pos fol True True c"
      by (rule coded_runs [OF _ c(1)]) (simp_all add: less.IH)
    then have "sim env n (at p 0 (Val bus # st) w) (nock env n bus fol w) (post True True p (pos (length c)) bus st)"
      by (rule runsD [OF _ _ c(3) w]) (simp_all add: c(2) halts_now [OF c(4)])
    then show ?thesis
      by (simp add: post_def [abs_def])
  qed
  then show ?case
    by (simp add: callee_ok_def)
qed

section \<open>The interpreter\<close>

lemma loop_steps: "(step_to env)\<^sup>*\<^sup>* s s' \<Longrightarrow> n_burn_loop env s = n_burn_loop env s'"
  by (induction rule: converse_rtranclp_induct) (simp_all add: step_to_def n_burn_loop.simps)

lemma loop_returned:
  assumes "returned [] pro w s"
  shows "n_burn_loop env s = Some (Inr (pro, w))"
  using assms by (cases s) (auto simp: returned_def n_burn_loop.simps step_fetch burn_simps do_halt_def)

text \<open>A run that returns makes a finite number of steps.\<close>

lemma later_stop:
  assumes "burn_step env s = Inr (Inr s1)" and "\<nexists>s'. (step_to env ^^ n) s1 s'"
  shows "\<nexists>s'. (step_to env ^^ Suc n) s s'"
proof
  assume "\<exists>s'. (step_to env ^^ Suc n) s s'"
  then obtain s' s2 where "step_to env s s2" "(step_to env ^^ n) s2 s'"
    by (blast elim: relpowp_Suc_E2)
  then show False
    using assms by (simp add: step_to_def)
qed

lemma loop_ends:
  assumes "n_burn_loop env s = Some r"
  shows "\<exists>n. \<nexists>s'. (step_to env ^^ n) s s'"
proof (rule n_burn_loop.raw_induct [OF _ assms])
  fix loop :: "'a env \<Rightarrow> 'a burn \<Rightarrow> (noun \<times> 'a world) jet option" and env s r
  assume IH: "\<And>env s r. loop env s = Some r \<Longrightarrow> \<exists>n. \<nexists>s'. (step_to env ^^ n) s s'"
    and r: "(case burn_step env s of Inl e \<Rightarrow> Some (Inl e) | Inr (Inl r) \<Rightarrow> Some (Inr r) | Inr (Inr s) \<Rightarrow> loop env s) = Some r"
  show "\<exists>n. \<nexists>s'. (step_to env ^^ n) s s'"
  proof (cases "\<exists>s1. burn_step env s = Inr (Inr s1)")
    case True
    then obtain s1 where s1: "burn_step env s = Inr (Inr s1)"
      by blast
    then have "loop env s1 = Some r"
      using r by simp
    then show ?thesis
      using IH later_stop [OF s1] by blast
  next
    case False
    then have "\<nexists>s'. (step_to env ^^ 1) s s'"
      by (metis relpowp_1 step_to_def)
    then show ?thesis
      by blast
  qed
qed

text \<open>The program of a formula, on an empty stack.\<close>

theorem n_burn_nock:
  assumes "n_bite fol = Inr p" and "cache_ok w"
  shows "n_burn env p bus w = Some r \<longleftrightarrow> (\<exists>n. nock env n bus fol w = Some r)"
proof
  have sim: "sim env n (at p 0 [Val bus] w) (nock env n bus fol w) (returned [])" for n
    using callees_ok [of env n] assms by (simp add: callee_ok_def)
  have run: "n_burn env p bus w = Some r" if "nock env n bus fol w = Some r" for n r
    using sim [of n] that
    by (cases "nock env n bus fol w" rule: outcome_cases)
      (auto simp: sim_simps n_burn_def n_push_def loop_returned dest!: loop_steps, simp add: n_burn_loop.simps)
  then show "\<exists>n. nock env n bus fol w = Some r \<Longrightarrow> n_burn env p bus w = Some r"
    by blast
  assume burn: "n_burn env p bus w = Some r"
  then obtain n where "\<nexists>s'. (step_to env ^^ n) (at p 0 [Val bus] w) s'"
    using loop_ends [of env "at p 0 [Val bus] w"] by (auto simp: n_burn_def n_push_def)
  then have "nock env n bus fol w \<noteq> None"
    using sim [of n] by (metis sim_simps(1))
  then show "\<exists>n. nock env n bus fol w = Some r"
    using run [of n] burn by fastforce
qed

text \<open>Formulas from outside.\<close>

theorem u3n_nock_on_call:
  assumes "cache_ok w"
  shows "u3n_nock_on env bus fol w = Some r \<longleftrightarrow> (\<exists>n. nock_call env n bus fol w = Some r)"
proof (cases "n_find u3_nul fol w")
  case (Inr x)
  obtain p w' where x: "x = (p, w')"
    by (cases x)
  then have "n_bite fol = Inr p" "cache_ok w'"
    using n_find_ok [OF assms] Inr by auto
  then show ?thesis
    using n_burn_nock Inr x by (simp add: u3n_nock_on_def nock_call_def)
qed (simp add: u3n_nock_on_def nock_call_def)

end
