(* ===== verification/Nock_Spec.thy ===== *)
theory Nock_Spec
  imports Nock_Correct
begin

text \<open>
  The definition of Nock in \<^verbatim>\<open>doc/spec/nock/4.txt\<close>, its extension by opcode 12, and what the interpreter has to do
  with them: with jets that agree with the formulas they replace and a memo table of products, a product of the
  interpreter is the product that the extended definition gives, and that of the text if the namespace has no answers;
  for a formula that has a product the interpreter ends, with this product or without one.
\<close>

section \<open>The definition\<close>

text \<open>\<open>/[a b]\<close> and \<open>#[a b c]\<close>; \<open>None\<close> where the reduction does not end.\<close>

fun slot :: "nat \<Rightarrow> noun \<Rightarrow> noun option" where
  "slot a b = (if a = 0 then None else if a = 1 then Some b
     else case slot (a div 2) b of Some (Cell h t) \<Rightarrow> Some (if even a then h else t) | _ \<Rightarrow> None)"

fun hax :: "nat \<Rightarrow> noun \<Rightarrow> noun \<Rightarrow> noun option" where
  "hax a b c = (if a = 0 then None else if a = 1 then Some b
     else if even a then (case slot (a + 1) c of None \<Rightarrow> None | Some x \<Rightarrow> hax (a div 2) (Cell b x) c)
     else (case slot (a - 1) c of None \<Rightarrow> None | Some x \<Rightarrow> hax (a div 2) (Cell x b) c))"

declare slot.simps [simp del] hax.simps [simp del]

text \<open>\<open>tar4 a f r\<close> is \<open>*[a f] = r\<close>, as the text defines it: every other formula has no product.\<close>

inductive tar4 :: "noun \<Rightarrow> noun \<Rightarrow> noun \<Rightarrow> bool" where
  cons: "tar4 a (Cell b c) x \<Longrightarrow> tar4 a d y \<Longrightarrow> tar4 a (Cell (Cell b c) d) (Cell x y)"
| zero: "slot b a = Some r \<Longrightarrow> tar4 a (Cell (Atom 0) (Atom b)) r"
| one: "tar4 a (Cell (Atom 1) b) b"
| two: "tar4 a b x \<Longrightarrow> tar4 a c f \<Longrightarrow> tar4 x f r \<Longrightarrow> tar4 a (u3nt (Atom 2) b c) r"
| three: "tar4 a b x \<Longrightarrow> tar4 a (Cell (Atom 3) b) (Atom (if u3a_is_cell x then 0 else 1))"
| four: "tar4 a b (Atom x) \<Longrightarrow> tar4 a (Cell (Atom 4) b) (Atom (x + 1))"
| five: "tar4 a b x \<Longrightarrow> tar4 a c y \<Longrightarrow> tar4 a (u3nt (Atom 5) b c) (Atom (if x = y then 0 else 1))"
| six_yes: "tar4 a b (Atom 0) \<Longrightarrow> tar4 a c r \<Longrightarrow> tar4 a (Cell (Atom 6) (u3nt b c d)) r"
| six_no: "tar4 a b (Atom 1) \<Longrightarrow> tar4 a d r \<Longrightarrow> tar4 a (Cell (Atom 6) (u3nt b c d)) r"
| seven: "tar4 a b x \<Longrightarrow> tar4 x c r \<Longrightarrow> tar4 a (u3nt (Atom 7) b c) r"
| eight: "tar4 a b x \<Longrightarrow> tar4 (Cell x a) c r \<Longrightarrow> tar4 a (u3nt (Atom 8) b c) r"
| nine: "tar4 a c x \<Longrightarrow> slot b x = Some f \<Longrightarrow> tar4 x f r \<Longrightarrow> tar4 a (u3nt (Atom 9) (Atom b) c) r"
| ten: "tar4 a c x \<Longrightarrow> tar4 a d y \<Longrightarrow> hax b x y = Some r \<Longrightarrow> tar4 a (u3nt (Atom 10) (Cell (Atom b) c) d) r"
| eleven_dynamic: "tar4 a c x \<Longrightarrow> tar4 a d r \<Longrightarrow> tar4 a (u3nt (Atom 11) (Cell b c) d) r"
| eleven_static: "tar4 a c r \<Longrightarrow> tar4 a (u3nt (Atom 11) (Atom b) c) r"

text \<open>
  The interpreter has one opcode more: \<open>[12 b c]\<close> asks the namespace that the caller of the interpreter provides.
  \<open>tar env\<close> is the definition with a rule for it.
\<close>

inductive tar :: "'j env \<Rightarrow> noun \<Rightarrow> noun \<Rightarrow> noun \<Rightarrow> bool" for env where
  cons: "tar env a (Cell b c) x \<Longrightarrow> tar env a d y \<Longrightarrow> tar env a (Cell (Cell b c) d) (Cell x y)"
| zero: "slot b a = Some r \<Longrightarrow> tar env a (Cell (Atom 0) (Atom b)) r"
| one: "tar env a (Cell (Atom 1) b) b"
| two: "tar env a b x \<Longrightarrow> tar env a c f \<Longrightarrow> tar env x f r \<Longrightarrow> tar env a (u3nt (Atom 2) b c) r"
| three: "tar env a b x \<Longrightarrow> tar env a (Cell (Atom 3) b) (Atom (if u3a_is_cell x then 0 else 1))"
| four: "tar env a b (Atom x) \<Longrightarrow> tar env a (Cell (Atom 4) b) (Atom (x + 1))"
| five: "tar env a b x \<Longrightarrow> tar env a c y \<Longrightarrow> tar env a (u3nt (Atom 5) b c) (Atom (if x = y then 0 else 1))"
| six_yes: "tar env a b (Atom 0) \<Longrightarrow> tar env a c r \<Longrightarrow> tar env a (Cell (Atom 6) (u3nt b c d)) r"
| six_no: "tar env a b (Atom 1) \<Longrightarrow> tar env a d r \<Longrightarrow> tar env a (Cell (Atom 6) (u3nt b c d)) r"
| seven: "tar env a b x \<Longrightarrow> tar env x c r \<Longrightarrow> tar env a (u3nt (Atom 7) b c) r"
| eight: "tar env a b x \<Longrightarrow> tar env (Cell x a) c r \<Longrightarrow> tar env a (u3nt (Atom 8) b c) r"
| nine: "tar env a c x \<Longrightarrow> slot b x = Some f \<Longrightarrow> tar env x f r \<Longrightarrow> tar env a (u3nt (Atom 9) (Atom b) c) r"
| ten: "tar env a c x \<Longrightarrow> tar env a d y \<Longrightarrow> hax b x y = Some r \<Longrightarrow> tar env a (u3nt (Atom 10) (Cell (Atom b) c) d) r"
| eleven_dynamic: "tar env a c x \<Longrightarrow> tar env a d r \<Longrightarrow> tar env a (u3nt (Atom 11) (Cell b c) d) r"
| eleven_static: "tar env a c r \<Longrightarrow> tar env a (u3nt (Atom 11) (Atom b) c) r"
| twelve: "tar env a b x \<Longrightarrow> tar env a c y \<Longrightarrow> wish_in env x y = Inr r \<Longrightarrow> tar env a (u3nt (Atom 12) b c) r"

text \<open>What has a product by the text has it with a namespace; the converse holds if the namespace never answers.\<close>

definition blind :: "'j env \<Rightarrow> bool" where
  "blind env \<longleftrightarrow> (\<forall>x y r. wish_in env x y \<noteq> Inr r)"

lemma tar4_tar: "tar4 a f r \<Longrightarrow> tar env a f r"
  by (induction rule: tar4.induct) (blast intro: tar.intros)+

lemma blind_tar4: "tar env a f r \<Longrightarrow> blind env \<Longrightarrow> tar4 a f r"
  unfolding blind_def by (induction rule: tar.induct) (blast intro: tar4.intros)+

inductive_cases tar_atom: "tar env a (Atom b) r"
inductive_cases tar_0: "tar env a (Cell (Atom 0) b) r"
inductive_cases tar_1: "tar env a (Cell (Atom 1) b) r"
inductive_cases tar_2: "tar env a (Cell (Atom 2) b) r"
inductive_cases tar_4: "tar env a (Cell (Atom 4) b) r"
inductive_cases tar_6: "tar env a (Cell (Atom 6) b) r"
inductive_cases tar_cons: "tar env a (Cell (Cell b c) d) r"
inductive_cases tar_3: "tar env a (Cell (Atom 3) b) r"
inductive_cases tar_5: "tar env a (Cell (Atom 5) b) r"
inductive_cases tar_8: "tar env a (Cell (Atom 8) b) r"
inductive_cases tar_10: "tar env a (Cell (Atom 10) b) r"
inductive_cases tar_11_static: "tar env a (u3nt (Atom 11) (Atom b) c) r"
inductive_cases tar_12: "tar env a (Cell (Atom 12) b) r"
inductive_cases tar_7: "tar env a (Cell (Atom 7) b) r"
inductive_cases tar_9: "tar env a (Cell (Atom 9) b) r"
inductive_cases tar_11: "tar env a (u3nt (Atom 11) (Cell b c) d) r"

lemma slot_small [simp]: "slot 0 b = None" "slot 1 b = Some b" "slot (Suc 0) b = Some b"
  "slot 2 b = (case b of Cell h t \<Rightarrow> Some h | Atom _ \<Rightarrow> None)" "slot 3 b = (case b of Cell h t \<Rightarrow> Some t | Atom _ \<Rightarrow> None)"
  by (simp_all add: slot.simps split: noun.splits)

lemma slot_pair: "2 \<le> k \<Longrightarrow> slot k (Cell (Atom x) (Atom y)) \<noteq> Some (Cell h t)"
proof (induction k arbitrary: h t rule: less_induct)
  case (less k)
  show ?case
  proof (cases "k \<le> 3")
    case True
    then have "k = 2 \<or> k = 3"
      using less.prems by auto
    then show ?thesis
      by auto
  next
    case False
    then show ?thesis
      using less.IH [of "k div 2"] by (auto simp: slot.simps [of k] split: option.splits noun.splits)
  qed
qed

lemma slot_pair_le: "slot k (Cell (Atom x) (Atom y)) = Some r \<Longrightarrow> k \<le> 3"
proof (rule ccontr)
  assume r: "slot k (Cell (Atom x) (Atom y)) = Some r" and "\<not> k \<le> 3"
  then have "2 \<le> k div 2"
    by simp
  then show False
    using r slot_pair [of "k div 2" x y] by (auto simp: slot.simps [of k] split: option.splits noun.splits if_splits)
qed

lemma slot_fragment: "slot a b = fragment a b"
proof (induction a rule: less_induct)
  case (less a)
  show ?case
  proof (cases "a \<le> 1")
    case True
    then show ?thesis
      by (cases a) (auto simp: fragment_def)
  next
    case False
    then have "axis_path a = axis_path (a div 2) @ [odd a]" "slot (a div 2) b = fragment (a div 2) b"
      using axis_path_Suc [of a] less.IH [of "a div 2"] by simp_all
    then show ?thesis
      using False by (auto simp: slot.simps [of a] fragment_def walk_append split: option.splits noun.splits)
  qed
qed

section \<open>The equations of the text\<close>

text \<open>The opcodes that the text defines by other formulas.\<close>

lemma tar_six: "tar env a (Cell (Atom 6) (u3nt b c d)) r \<longleftrightarrow>
    (\<exists>k i f. tar env a (Cell (Atom 4) (Cell (Atom 4) b)) (Atom k) \<and> tar env (Cell (Atom 2) (Atom 3)) (Cell (Atom 0) (Atom k)) (Atom i) \<and>
      tar env (Cell c d) (Cell (Atom 0) (Atom i)) f \<and> tar env a f r)" (is "?l \<longleftrightarrow> ?r")
proof
  have two: "tar env a (Cell (Atom 4) (Cell (Atom 4) b)) (Atom (p + 1 + 1))" if "tar env a b (Atom p)" for p
    using that by (intro tar.four)
  assume ?l
  then consider "tar env a b (Atom 0)" "tar env a c r" | "tar env a b (Atom 1)" "tar env a d r"
    by (auto elim: tar_6)
  then show ?r
  proof cases
    case 1
    then show ?thesis
      using two [of 0] by (intro exI [of _ 2] exI [of _ c]) (auto intro!: tar.zero simp: numeral_2_eq_2 [symmetric])
  next
    case 2
    then show ?thesis
      using two [of 1] by (intro exI [of _ 3] exI [of _ d]) (auto intro!: tar.zero simp: numeral_3_eq_3 [symmetric])
  qed
next
  assume ?r
  then obtain k i f where k: "tar env a (Cell (Atom 4) (Cell (Atom 4) b)) (Atom k)"
    and i: "slot k (Cell (Atom 2) (Atom 3)) = Some (Atom i)" and f: "slot i (Cell c d) = Some f" "tar env a f r"
    by (auto elim!: tar_0)
  then obtain p where p: "tar env a b (Atom p)" "k = p + 2"
    by (auto elim!: tar_4)
  have "p < 2"
    using slot_pair_le [OF i] p(2) by simp
  then consider "p = 0" "i = 2" | "p = 1" "i = 3"
    using i p(2) by (auto simp: less_2_cases_iff numeral_2_eq_2 [symmetric] numeral_3_eq_3 [symmetric])
  then show ?l
    using p f by cases (auto intro: tar.six_yes tar.six_no)
qed

lemma tar_nine: "tar env a (u3nt (Atom 9) b c) r \<longleftrightarrow>
    (\<exists>x. tar env a c x \<and> tar env x (u3nt (Atom 2) (Cell (Atom 0) (Atom 1)) (Cell (Atom 0) b)) r)"
proof
  assume "tar env a (u3nt (Atom 9) b c) r"
  then obtain x k f where "tar env a c x" "b = Atom k" "slot k x = Some f" "tar env x f r"
    by (auto elim: tar_9)
  then show "\<exists>x. tar env a c x \<and> tar env x (u3nt (Atom 2) (Cell (Atom 0) (Atom 1)) (Cell (Atom 0) b)) r"
    by (auto intro!: exI [of _ x] tar.two tar.zero)
next
  assume "\<exists>x. tar env a c x \<and> tar env x (u3nt (Atom 2) (Cell (Atom 0) (Atom 1)) (Cell (Atom 0) b)) r"
  then show "tar env a (u3nt (Atom 9) b c) r"
    by (auto elim!: tar_2 tar_0 intro: tar.nine)
qed

lemma tar_eleven: "tar env a (u3nt (Atom 11) (Cell b c) d) r \<longleftrightarrow>
    (\<exists>x y. tar env a c x \<and> tar env a d y \<and> tar env (Cell x y) (Cell (Atom 0) (Atom 3)) r)"
proof -
  have "tar env (Cell x y) (Cell (Atom 0) (Atom 3)) r \<longleftrightarrow> r = y" for x y
    by (auto elim!: tar_0 intro: tar.zero)
  then show ?thesis
    by (auto elim!: tar_11 intro: tar.eleven_dynamic)
qed

section \<open>Edits\<close>

fun edit_path :: "bool list \<Rightarrow> noun \<Rightarrow> noun \<Rightarrow> noun option" where
  "edit_path [] c b = Some b"
| "edit_path (d # ps) (Atom a) b = None"
| "edit_path (d # ps) (Cell h t) b =
     (if d then map_option (Cell h) (edit_path ps t b) else map_option (\<lambda>h. Cell h t) (edit_path ps h b))"

lemma edit_path_snoc: "edit_path (ps @ [d]) c b =
    Option.bind (walk (ps @ [\<not> d]) c) (\<lambda>x. edit_path ps c (if d then Cell x b else Cell b x))"
  by (induction ps c b rule: edit_path.induct) (auto split: bind_splits noun.splits, (case_tac c; auto)+)

lemma hax_edit: "0 < a \<Longrightarrow> hax a b c = edit_path (axis_path a) c b"
proof (induction a arbitrary: b rule: less_induct)
  case (less a)
  show ?case
  proof (cases "a = 1")
    case True
    then show ?thesis
      by (simp add: hax.simps)
  next
    case False
    let ?s = "if even a then a + 1 else a - 1"
    have path: "axis_path a = axis_path (a div 2) @ [odd a]"
      using False less.prems axis_path_Suc [of a] by simp
    have "?s div 2 = a div 2" "odd ?s \<longleftrightarrow> even a" "1 < ?s"
      using False less.prems by (auto elim!: evenE oddE)
    then have "axis_path ?s = axis_path (a div 2) @ [even a]"
      using axis_path_Suc [of ?s] by auto
    then have slot: "slot ?s c = walk (axis_path (a div 2) @ [even a]) c"
      using \<open>1 < ?s\<close> by (simp add: slot_fragment fragment_def)
    have "hax a b c = Option.bind (slot ?s c) (\<lambda>x. hax (a div 2) (if odd a then Cell x b else Cell b x) c)"
      using False less.prems by (simp add: hax.simps [of a] split: option.splits)
    then show ?thesis
      using False less.prems less.IH [of "a div 2"] unfolding slot by (simp add: path edit_path_snoc cong: if_cong)
  qed
qed

text \<open>The axis below the root, as an atom.\<close>

lemma axis_path_below:
  assumes "2 \<le> met0 a"
  shows "axis_path a = bit a (met0 a - 2) # axis_path ((a - 2 ^ (met0 a - 1)) OR 2 ^ (met0 a - 2))"
proof -
  obtain d where d: "met0 a = Suc (Suc d)"
    using assms by (metis add_2_eq_Suc le_Suc_ex)
  define m where "m = take_bit (Suc d) a OR 2 ^ d"
  have "a < 2 ^ Suc (Suc d)" "2 ^ Suc d \<le> a"
    using met0_le_iff [of a "Suc (Suc d)"] met0_ge_iff [of "Suc d" a] d by simp_all
  then have "a - 2 ^ Suc d = take_bit (Suc d) a"
    by (simp add: take_bit_eq_mod mod_if)
  then have m: "(a - 2 ^ (met0 a - 1)) OR 2 ^ (met0 a - 2) = m"
    by (simp add: d m_def)
  have bm: "bit m i \<longleftrightarrow> i = d \<or> i < d \<and> bit a i" for i
    by (auto simp: m_def bit_or_iff bit_take_bit_iff bit_exp_iff less_Suc_eq)
  have "take_bit (Suc d) m = m"
    by (rule bit_eqI) (auto simp: bit_take_bit_iff bm)
  then have "m < 2 ^ Suc d"
    by (metis take_bit_nat_less_exp)
  then have mm: "met0 m = Suc d"
    using bit_imp_less_met0 [of m d] bm [of d] met0_le_iff [of m "Suc d"] by simp
  have "low_bits d a = low_bits d m"
    by (rule nth_equalityI) (use bm in auto)
  then show ?thesis
    using low_bits_Suc [of d a] unfolding m by (simp add: axis_path_def mm d)
qed

lemma u3r_met_0: "u3r_met 0 (Atom a) = Inr b \<Longrightarrow> b = met0 a"
proof -
  have "32 * gal_w a \<le> met0 a"
    unfolding gal_w_def by (metis diff_le_self dual_order.trans mult.commute times_div_less_eq_dividend)
  then show "u3r_met 0 (Atom a) = Inr b \<Longrightarrow> b = met0 a"
    by (auto simp: u3r_met_def Let_def split: if_splits)
qed

lemma u3r_bit_atom: "u3r_bit k (Atom a) = Inr (of_bool (bit a k))"
proof (cases "is_cat a")
  case True
  then have "\<not> bit a k" if "31 \<le> k"
    using that bit_imp_less_met0 [of a k] met0_le_iff [of a 31] by (auto simp: is_cat_def)
  then show ?thesis
    using True by (simp add: u3r_bit_def)
next
  case False
  have "\<not> bit a k" if "length (nat_words a) \<le> k div 32"
    using that bit_imp_less_met0 [of a k] by (auto simp: length_nat_words)
  then show ?thesis
    using False bit_nat_words [of "k div 32" a "k mod 32"] by (auto simp: u3r_bit_def Let_def)
qed

lemma u3qc_mas_path:
  assumes "u3qc_mas (Atom a) = Inr m" and "u3qc_cap (Atom a) = Inr c"
  shows "\<exists>k. m = Atom k \<and> 0 < k \<and> axis_path a = (c \<noteq> 2) # axis_path k"
proof -
  obtain b where b: "u3r_met 0 (Atom a) = Inr b" "2 \<le> b"
    using assms(1) by (auto simp: u3qc_mas_def on_ok_eq_Inr split: if_splits)
  let ?k = "(a - 2 ^ (b - 1)) OR 2 ^ (b - 2)"
  have "b = met0 a"
    by (rule u3r_met_0 [OF b(1)])
  then have "axis_path a = bit a (b - 2) # axis_path ?k"
    using axis_path_below b(2) by simp
  moreover have "m = Atom ?k" "c = (if bit a (b - 2) then 3 else 2)"
    using assms b by (auto simp: u3qc_mas_def u3qc_cap_def u3r_bit_atom)
  moreover have "?k \<noteq> 0"
    by (simp add: or_eq_0_iff)
  ultimately show ?thesis
    by auto
qed

lemma small_word:
  assumes "unat (k :: u32) < 4"
  shows "k = 0 \<or> k = 1 \<or> k = 2 \<or> k = 3"
proof -
  have "unat k = 0 \<or> unat k = 1 \<or> unat k = 2 \<or> unat k = 3"
    using assms by linarith
  then show ?thesis
    by (auto simp: word_unat_eq_iff)
qed

lemma cap_2_3:
  assumes "u3x_cap a = Inr c"
  shows "c = 2 \<or> c = 3"
proof -
  let ?k = "drop_bit (u3x_dep a - 1) a"
  have "unat a < 2 ^ met0 (unat a)"
    by (rule less_2_met0)
  also have "\<dots> \<le> 2 ^ (u3x_dep a - 1 + 2)"
    by (rule power_increasing) (simp_all add: u3x_dep_eq)
  finally have "unat ?k < 4"
    by (simp add: unat_drop_bit_eq drop_bit_eq_div [of _ "unat a"] less_mult_imp_div_less power_add mult.commute)
  moreover have "c = 2 OR ?k"
    using assms by (simp add: u3x_cap_def split: if_splits)
  ultimately show ?thesis
    using small_word [of ?k] by auto
qed

lemma below_large:
  assumes "axis_path a = d # axis_path k" and "3 < a" and "0 < k"
  shows "1 < k"
proof (rule ccontr)
  assume "\<not> 1 < k"
  then have "k = 1"
    using assms(3) by simp
  then have "length (axis_path a) = 1"
    using assms(1) by simp
  then have "met0 a \<le> 2"
    by (simp add: axis_path_def)
  then show False
    using assms(2) met0_le_iff [of a 2] by simp
qed

lemma large_axis:
  assumes "1 < (a :: u32)"
  shows "a = 2 \<or> a = 3 \<or> 3 < unat a"
proof -
  have "1 < unat a" "a = of_nat (unat a)"
    using assms by (simp_all add: word_less_nat_alt)
  moreover from this consider "unat a = 2" | "unat a = 3" | "3 < unat a"
    by linarith
  ultimately show ?thesis
    by (metis of_nat_numeral)
qed

lemma edit_cat_path:
  assumes "1 < a" and "edit_cat big a som = Inr r"
  shows "edit_path (axis_path (unat a)) big som = Some r"
  using assms
proof (induction big a som arbitrary: r rule: edit_cat.induct)
  case (2 h t axe som)
  obtain m where m: "u3x_mas axe = Inr m" "0 < m" "axis_path (unat axe) = bit axe (u3x_dep axe - 1) # axis_path (unat m)"
    using unat_mas [OF 2(3)] by blast
  obtain c where c: "u3x_cap axe = Inr c" "c = 2 \<longleftrightarrow> \<not> bit axe (u3x_dep axe - 1)"
    using cap_3 [OF 2(3)] cap_2_3 by fastforce
  consider "axe = 2" | "axe = 3" | "axe \<notin> {2, 3}"
    by blast
  then show ?case
  proof cases
    case 3
    then have "3 < unat axe"
      using 2(3) by (metis (no_types) insert_iff large_axis)
    then have "1 < m"
      using below_large [OF m(3)] m(2) by (simp add: word_less_nat_alt)
    then show ?thesis
      using 2 3 m c by (auto simp: on_ok_eq_Inr split: if_splits)
  qed (use 2(4) in \<open>auto simp: axis_path_Suc\<close>)
qed simp

lemma edit_path:
  assumes "edit big (Atom a) som = Inr r" and "1 < a"
  shows "edit_path (axis_path a) big som = Some r"
  using assms
proof (induction big arbitrary: a r)
  case (Cell h t)
  show ?case
  proof (cases "is_cat a")
    case True
    then have "edit_cat (Cell h t) (of_nat a) som = Inr r" "1 < (of_nat a :: u32)" "unat (of_nat a :: u32) = a"
      using Cell.prems by (simp_all add: edit.simps noun_is_cat_def is_cat_def word_less_nat_alt unat_of_nat)
    then show ?thesis
      using edit_cat_path by metis
  next
    case False
    then obtain m c where "u3qc_mas (Atom a) = Inr m" and c: "u3qc_cap (Atom a) = Inr c"
      and r: "(if c = 2 then on_ok (edit h m som) (\<lambda>h. Inr (u3nc h t)) else on_ok (edit t m som) (\<lambda>t. Inr (u3nc h t))) = Inr r"
      using Cell.prems by (auto simp: edit.simps [of "Cell h t"] noun_is_cat_def on_ok_eq_Inr)
    then obtain k where k: "m = Atom k" "0 < k" "axis_path a = (c \<noteq> 2) # axis_path k"
      using u3qc_mas_path by blast
    moreover have "1 < k"
      using below_large [OF k(3)] k(2) False by (simp add: is_cat_def)
    ultimately show ?thesis
      using r Cell.IH by (auto simp: on_ok_eq_Inr split: if_splits)
  qed
qed (auto simp: edit.simps noun_is_cat_def split: if_splits)

lemma edit_hax:
  assumes "u3i_edit big axe som = Inr r"
  shows "\<exists>a. axe = Atom a \<and> hax a som big = Some r"
proof (cases axe)
  case (Atom a)
  then show ?thesis
    using assms edit_path [of big a som r] hax_edit [of a som big] by (auto simp: u3i_edit_def split: if_splits)
next
  case (Cell h t)
  then show ?thesis
    using assms by (auto simp: u3i_edit_def edit.simps noun_is_cat_def u3qc_mas_def u3r_met_def split: noun.splits)
qed


section \<open>Products are right\<close>

text \<open>
  What the interpreter relies on: a jet returns the product of the formula it stands for, and a table that
  drops entries has no others.
\<close>

definition jets_ok :: "'j env \<Rightarrow> bool" where
  "jets_ok env \<longleftrightarrow>
     (\<forall>j cor axe pro j'. u3j_site_kick env j cor axe = Inr (Inl pro, j') \<longrightarrow>
        (\<exists>fol. u3x_at axe cor = Inr fol \<and> tar env cor fol pro)) \<and>
     (\<forall>m. trim env m \<subseteq>\<^sub>m m)"

definition memo_ok :: "'j env \<Rightarrow> 'j world \<Rightarrow> bool" where
  "memo_ok env w \<longleftrightarrow> (\<forall>bus fol pro. u3z_find_m (144 + c3__nock) (u3nc bus fol) w = Some pro \<longrightarrow> tar env bus fol pro)"

lemma memo_ok_cong: "memo w = memo w' \<Longrightarrow> memo_ok env w = memo_ok env w'"
  by (simp add: memo_ok_def u3z_find_m_def)

lemma memo_ok_world [simp]:
  "memo_ok env (note_it x w) = memo_ok env w" "memo_ok env (u3t_push y w) = memo_ok env w" "memo_ok env (w\<lparr>jed := j\<rparr>) = memo_ok env w"
  by (rule memo_ok_cong, simp add: note_it_def u3t_push_def)+

lemma memo_ok_save:
  assumes "jets_ok env" and "memo_ok env w" and "tar env bus fol pro"
  shows "memo_ok env (u3z_save_m env (144 + c3__nock) (u3nc bus fol) pro w)"
proof -
  have "trim env m \<subseteq>\<^sub>m m" for m
    using assms(1) by (simp add: jets_ok_def)
  then have "m k = Some x" if "trim env m k = Some x" for m k x
    using that by (metis domI map_le_def)
  then show ?thesis
    using assms(2,3) by (fastforce simp: memo_ok_def u3z_find_m_def u3z_save_m_def split: if_splits)
qed

lemma memo_drop: "u3t_drop w = Inr w' \<Longrightarrow> memo w' = memo w"
  by (auto simp: u3t_drop_def split: list.splits)

lemma memo_hints:
  "n_hilt_fore env hin bus w = Inr (yes, tok, w') \<Longrightarrow> yes \<and> memo w' = memo w"
  "n_hint_fore env hin bus clu w = Inr (yes, tok, w') \<Longrightarrow> yes \<and> memo w' = memo w"
  "n_hilt_hind env tok pro w = Inr w' \<Longrightarrow> memo w' = memo w"
  "n_hint_hind env tok pro w = Inr w' \<Longrightarrow> memo w' = memo w"
  by (auto simp: n_hilt_fore_def n_hint_fore_def n_hilt_hind_def n_hint_hind_def u3t_trace_time_def on_ok_eq_Inr note_it_def
      split: if_splits option.splits prod.splits)

lemma memo_find: "n_find pre fol w = Inr (p, w') \<Longrightarrow> memo w' = memo w"
  by (auto simp: n_find_def Let_def on_ok_eq_Inr road_put_def split: option.splits)

lemma memo_kick:
  assumes "n_kick env cor axe w = Inr (r, w')"
  shows "memo w' = memo w"
proof -
  obtain x j where "u3j_site_kick env (jed w) cor axe = Inr (x, j)"
    using assms by (auto simp: n_kick_def on_ok_eq_Inr)
  then show ?thesis
    using assms by (cases x) (auto simp: n_kick_def on_ok_eq_Inr dest: memo_find)
qed

text \<open>A result whose product, if there is one, has a property.\<close>

definition gives :: "'j env \<Rightarrow> (noun, 'j) outcome \<Rightarrow> (noun \<Rightarrow> bool) \<Rightarrow> bool" where
  "gives env r P \<longleftrightarrow> (\<forall>p w. r = Some (Inr (p, w)) \<longrightarrow> P p \<and> memo_ok env w)"

lemma gives_simps [simp]: "gives env None P" "gives env (Some (Inl e)) P"
  "gives env (Some (Inr (p, w))) P \<longleftrightarrow> P p \<and> memo_ok env w"
  by (auto simp: gives_def)

lemma gives_bind:
  assumes "gives env r Q" and "\<And>p w. Q p \<Longrightarrow> memo_ok env w \<Longrightarrow> gives env (f (p, w)) P"
  shows "gives env (on_ret r f) P"
  using assms by (cases r rule: outcome_cases) auto

lemma gives_jet: "(\<And>v. r = Inr v \<Longrightarrow> gives env (f v) P) \<Longrightarrow> gives env (on_ret (Some r) f) P"
  by (cases r) auto

lemma gives_world: "(\<And>v. r = Inr v \<Longrightarrow> P v) \<Longrightarrow> memo_ok env w \<Longrightarrow> gives env (with_world r w) P"
  by (cases r) auto

lemma slot_at: "u3x_at (Atom a) b = Inr r \<longleftrightarrow> slot a b = Some r"
  by (auto simp: u3x_at_def u3r_at_fragment slot_fragment u3x_good_def split: option.splits simp del: u3r_at.simps)

lemma slot_at_cell: "u3x_at (Cell x y) b = Inr r \<Longrightarrow> False"
  by (auto simp: u3x_at_def u3x_good_def)

lemma gives_if: "(b \<Longrightarrow> gives env x P) \<Longrightarrow> (\<not> b \<Longrightarrow> gives env y P) \<Longrightarrow> gives env (if b then x else y) P"
  by simp

lemma gives_behind:
  assumes "gives env r P" and "\<And>pro w w'. P pro \<Longrightarrow> memo_ok env w \<Longrightarrow> g pro w = Inr w' \<Longrightarrow> memo_ok env w'"
  shows "gives env (on_ret r (\<lambda>(pro, w). Some (on_ok (g pro w) (\<lambda>w. Inr (pro, w))))) P"
  by (rule gives_bind [OF assms(1)]) (auto simp: gives_def on_ok_eq_Inr intro: assms(2))

lemma gives_around:
  assumes "\<And>yes tok w'. fore = Inr (yes, tok, w') \<Longrightarrow> yes \<and> memo w' = memo w" and "\<And>tok pro w w'. hind tok pro w = Inr w' \<Longrightarrow> memo w' = memo w"
    and "memo_ok env w" and "\<And>w. memo_ok env w \<Longrightarrow> gives env (run w) P"
  shows "gives env (around fore run hind) P"
  unfolding around_def
proof (rule gives_jet)
  fix v
  assume v: "fore = Inr v"
  obtain yes tok w' where v': "v = (yes, tok, w')"
    by (cases v)
  then have yes: "yes" "memo_ok env w'"
    using assms(1) [of yes tok w'] v assms(3) memo_ok_cong [of w' w env] by auto
  have "gives env (on_ret (run w') (\<lambda>(pro, w). Some (on_ok (hind tok pro w) (\<lambda>w. Inr (pro, w))))) P"
    by (rule gives_behind [OF assms(4) [OF yes(2)]]) (use assms(2) memo_ok_cong in blast)
  then show "gives env (case v of (yes, tok, w) \<Rightarrow> if yes then on_ret (run w) (\<lambda>(pro, w). Some (on_ok (hind tok pro w) (\<lambda>w. Inr (pro, w))))
      else Some (Inr (tok, w))) P"
    using yes(1) by (simp add: v')
qed

lemma gives_hint:
  fixes env :: "'j env"
  assumes jets: "jets_ok env" and w: "memo_ok env w"
    and IH: "\<And>w. memo_ok env w \<Longrightarrow> gives env (nock env n bus nef w) (tar env bus nef)"
    and clue: "\<And>zep hod w. hif = Cell zep hod \<Longrightarrow> memo_ok env w \<Longrightarrow> gives env (nock env n bus hod w) (tar env bus hod)"
  shows "gives env (nock_hint env n bus hif nef w) (tar env bus (u3nt (Atom 11) hif nef))"
proof (cases hif)
  case (Atom tag)
  have nef: "gives env (nock env n bus nef w) (tar env bus (u3nt (Atom 11) hif nef))" if "memo_ok env w" for w
    using IH [OF that] tar.eleven_static unfolding gives_def Atom by blast
  show ?thesis
    unfolding nock_hint.simps [of _ _ _ hif]
    using nef w gives_around [OF memo_hints(1,3) w nef] by (simp add: Atom)
next
  case (Cell zep hod)
  let ?x = "u3nc bus nef"
  have eleven: "gives env r (tar env bus (u3nt (Atom 11) hif nef))" if "tar env bus hod clu" "gives env r (tar env bus nef)" for r clu
    using that(2) tar.eleven_dynamic [OF that(1)] unfolding gives_def Cell by blast
  have saved: "gives env (on_ret (nock env n bus nef w) (\<lambda>(pro, w). Some (on_ok (g pro w) (\<lambda>w. Inr (pro, w))))) (tar env bus nef)"
    if "memo_ok env w" and "\<And>pro w w'. tar env bus nef pro \<Longrightarrow> memo_ok env w \<Longrightarrow> g pro w = Inr w' \<Longrightarrow> memo_ok env w'" for w and g :: "noun \<Rightarrow> 'j world \<Rightarrow> 'j world jet"
    using that by (intro gives_behind IH)
  have fast: "gives env (on_ret (nock env n bus nef w) (\<lambda>(pro, w). Some (on_ok (u3j_rite_mine env (jed w) clu pro) (\<lambda>j. Inr (pro, w\<lparr>jed := j\<rparr>))))) (tar env bus nef)"
    if "memo_ok env w" for w clu
  proof -
    have "gives env (on_ret (nock env n bus nef w) (\<lambda>(pro, w). Some (on_ok (on_ok (u3j_rite_mine env (jed w) clu pro) (\<lambda>j. Inr (w\<lparr>jed := j\<rparr>)))
        (\<lambda>w. Inr (pro, w))))) (tar env bus nef)"
      by (rule saved [OF that]) (auto simp: on_ok_eq_Inr)
    then show ?thesis
      by simp
  qed
  have memo: "gives env (case u3z_find_m (144 + c3__nock) ?x w of Some pro \<Rightarrow> Some (Inr (pro, w))
      | None \<Rightarrow> on_ret (nock env n bus nef w) (\<lambda>(pro, w). Some (Inr (pro, if home env then w else u3z_save_m env (144 + c3__nock) ?x pro w)))) (tar env bus nef)"
    if "memo_ok env w" for w
  proof (cases "u3z_find_m (144 + c3__nock) ?x w")
    case None
    have "gives env (on_ret (nock env n bus nef w) (\<lambda>(pro, w). Some (on_ok (Inr (if home env then w else u3z_save_m env (144 + c3__nock) ?x pro w))
        (\<lambda>w. Inr (pro, w))))) (tar env bus nef)"
      by (rule saved [OF that]) (use memo_ok_save [OF jets] in \<open>fastforce split: if_splits\<close>)
    then show ?thesis
      unfolding None by simp
  next
    case (Some pro)
    then have "tar env bus nef pro"
      using that unfolding memo_ok_def by blast
    then show ?thesis
      unfolding Some using that by simp
  qed
  have tace: "gives env (on_ret (nock env n bus nef (u3t_push y w)) (\<lambda>(pro, w). Some (on_ok (u3t_drop w) (\<lambda>w. Inr (pro, w))))) (tar env bus nef)"
    if "memo_ok env w" for w y
    using saved [of "u3t_push y w" "\<lambda>pro. u3t_drop"] that memo_ok_cong [OF memo_drop] by auto
  show ?thesis
    unfolding Cell nock_hint.simps [of _ _ _ "u3nc _ _"] u3a_is_cell.simps u3x_cell_simps on_ret_simps prod.case not_True_eq_False if_False
    by (rule gives_bind [OF clue [OF Cell w]], unfold prod.case Cell [symmetric], rule eleven, assumption, intro gives_if)
      (assumption | simp only: memo_ok_world | rule fast memo tace IH gives_around [OF memo_hints(2,4)] | simp)+
qed

lemma gives_mono: "gives env r P \<Longrightarrow> (\<And>p. P p \<Longrightarrow> Q p) \<Longrightarrow> gives env r Q"
  by (auto simp: gives_def)

text \<open>Two formulas and what is done with their products.\<close>

lemma gives_two:
  assumes "\<And>w. memo_ok env w \<Longrightarrow> gives env (r1 w) P1" and "\<And>w. memo_ok env w \<Longrightarrow> gives env (r2 w) P2" and "memo_ok env w"
    and "\<And>p q w. P1 p \<Longrightarrow> P2 q \<Longrightarrow> memo_ok env w \<Longrightarrow> gives env (f p q w) P"
  shows "gives env (on_ret (r1 w) (\<lambda>(p, w). on_ret (r2 w) (\<lambda>(q, w). f p q w))) P"
  by (rule gives_bind [OF assms(1) [OF assms(3)]], unfold prod.case, rule gives_bind [OF assms(2)], assumption, unfold prod.case, rule assms(4))

lemma gives_call:
  assumes IH: "\<And>m bus fol w. m < n \<Longrightarrow> memo_ok env w \<Longrightarrow> gives env (nock env m bus fol w) (tar env bus fol)" and w: "memo_ok env w"
  shows "gives env (case n of 0 \<Rightarrow> None | Suc m \<Rightarrow> on_ret (Some (n_find u3_nul nex w)) (\<lambda>(p, w). nock env m seb nex w)) (tar env seb nex)"
proof (cases n)
  case (Suc m)
  show ?thesis
    unfolding Suc nat.case
  proof (rule gives_jet)
    fix v
    assume v: "n_find u3_nul nex w = Inr v"
    have "memo_ok env (snd v)"
      using memo_find [of u3_nul nex w "fst v" "snd v"] v w memo_ok_cong by (metis prod.collapse)
    then show "gives env (case v of (p, w) \<Rightarrow> nock env m seb nex w) (tar env seb nex)"
      using IH [of m] Suc by (cases v) simp
  qed
qed simp

lemma gives_kick:
  assumes jets: "jets_ok env" and IH: "\<And>m bus fol w. m < n \<Longrightarrow> memo_ok env w \<Longrightarrow> gives env (nock env m bus fol w) (tar env bus fol)"
    and w: "memo_ok env w"
  shows "gives env (on_ret (Some (n_kick env cor hed w)) (\<lambda>(r, w).
      case r of Inl pro \<Rightarrow> Some (Inr (pro, w))
      | Inr p \<Rightarrow> (case n of 0 \<Rightarrow> None | Suc m \<Rightarrow> on_ret (Some (u3x_at hed cor)) (\<lambda>nex. nock env m cor nex w))))
    (\<lambda>pro. \<exists>fol. u3x_at hed cor = Inr fol \<and> tar env cor fol pro)" (is "gives _ _ ?P")
proof (rule gives_jet)
  fix v
  assume v: "n_kick env cor hed w = Inr v"
  obtain r w' where rw: "v = (r, w')"
    by (cases v)
  have w': "memo_ok env w'"
    using memo_kick [of env cor hed w r w'] v rw w memo_ok_cong by blast
  show "gives env (case v of (r, w) \<Rightarrow> case r of Inl pro \<Rightarrow> Some (Inr (pro, w))
      | Inr p \<Rightarrow> (case n of 0 \<Rightarrow> None | Suc m \<Rightarrow> on_ret (Some (u3x_at hed cor)) (\<lambda>nex. nock env m cor nex w))) ?P"
  proof (cases r)
    case (Inl pro)
    obtain x j where x: "u3j_site_kick env (jed w) cor hed = Inr (x, j)"
      using v by (auto simp: n_kick_def on_ok_eq_Inr)
    then have "x = Inl pro"
      using v rw Inl by (cases x) (auto simp: n_kick_def on_ok_eq_Inr)
    with x have "u3j_site_kick env (jed w) cor hed = Inr (Inl pro, j)"
      by simp
    then have "?P pro"
      using jets unfolding jets_ok_def by blast
    then show ?thesis
      using w' rw Inl by simp
  next
    case (Inr p)
    show ?thesis
    proof (cases n)
      case (Suc m)
      show ?thesis
        unfolding rw prod.case Inr sum.case Suc nat.case
      proof (rule gives_jet)
        fix nex
        assume "u3x_at hed cor = Inr nex"
        then show "gives env (nock env m cor nex w') ?P"
          using IH [of m w' cor nex] w' Suc by (auto elim: gives_mono)
      qed
    qed (simp add: rw Inr)
  qed
qed

text \<open>The reference interpreter on each shape of a formula.\<close>

lemma nock_bad:
  "nock env n bus (Atom a) w = Some (Inl Exit)"
  "k \<in> {2, 5, 6, 7, 8, 9, 10, 11, 12} \<Longrightarrow> nock env n bus (Cell (Atom k) (Atom x)) w = Some (Inl Exit)"
  "nock env n bus (Cell (Atom 6) (Cell b (Atom x))) w = Some (Inl Exit)"
  "nock env n bus (u3nt (Atom 10) (Atom y) c) w = Some (Inl Exit)"
  "k \<notin> {0, 1, 2, 3, 4, 5, 6, 7, 8, 9, 10, 11, 12} \<Longrightarrow> nock env n bus (Cell (Atom k) arg) w = Some (Inl Exit)"
  by (auto simp: nock.simps)

lemma nock_ops:
  "nock env n bus (Cell (Cell b c) d) w = on_ret (nock env n bus (Cell b c) w) (\<lambda>(p, w). on_ret (nock env n bus d w) (\<lambda>(q, w). Some (Inr (u3nc p q, w))))"
  "nock env n bus (Cell (Atom 0) d) w = with_world (u3x_at d bus) w"
  "nock env n bus (u3nt (Atom 2) b c) w = on_ret (nock env n bus b w) (\<lambda>(p, w). on_ret (nock env n bus c w) (\<lambda>(q, w).
     case n of 0 \<Rightarrow> None | Suc m \<Rightarrow> on_ret (Some (n_find u3_nul q w)) (\<lambda>(x, w). nock env m p q w)))"
  "nock env n bus (Cell (Atom 3) d) w = on_ret (nock env n bus d w) (\<lambda>(p, w). Some (Inr (loob (u3a_is_cell p), w)))"
  "nock env n bus (Cell (Atom 4) d) w = on_ret (nock env n bus d w) (\<lambda>(p, w). with_world (u3i_vint p) w)"
  "nock env n bus (u3nt (Atom 5) b c) w = on_ret (nock env n bus b w) (\<lambda>(p, w). on_ret (nock env n bus c w) (\<lambda>(q, w). Some (Inr (loob (q = p), w))))"
  "nock env n bus (Cell (Atom 6) (u3nt b c d)) w = on_ret (nock env n bus b w) (\<lambda>(p, w).
     if p = Atom 0 then (if n_formulaic c then nock env n bus c w else Some (Inl Exit))
     else if p = Atom 1 then (if n_formulaic d then nock env n bus d w else Some (Inl Exit))
     else Some (Inl Exit))"
  "nock env n bus (u3nt (Atom 7) b c) w = on_ret (nock env n bus b w) (\<lambda>(p, w). nock env n p c w)"
  "nock env n bus (u3nt (Atom 8) b c) w = on_ret (nock env n bus b w) (\<lambda>(p, w). nock env n (u3nc p bus) c w)"
  "nock env n bus (u3nt (Atom 10) (u3nc x c) d) w = on_ret (nock env n bus d w) (\<lambda>(p, w). on_ret (nock env n bus c w) (\<lambda>(q, w). with_world (u3i_edit p x q) w))"
  "nock env n bus (u3nt (Atom 11) x d) w = nock_hint env n bus x d w"
  "nock env n bus (u3nt (Atom 12) b c) w = on_ret (nock env n bus b w) (\<lambda>(p, w). on_ret (nock env n bus c w) (\<lambda>(q, w). with_world (wish_in env p q) w))"
  by (simp_all add: nock.simps [of _ _ _ "Cell _ _"])

lemma nock_nine: "nock env n bus (u3nt (Atom 9) b c) w = on_ret (Some (kick_is_mac b)) (\<lambda>mac.
    if mac then nock env n bus (kick_mac b c) w
    else on_ret (nock env n bus c w) (\<lambda>(cor, w). on_ret (Some (n_kick env cor b w)) (\<lambda>(r, w).
      case r of Inl pro \<Rightarrow> Some (Inr (pro, w))
      | Inr p \<Rightarrow> (case n of 0 \<Rightarrow> None | Suc m \<Rightarrow> on_ret (Some (u3x_at b cor)) (\<lambda>nex. nock env m cor nex w)))))"
  by (simp add: nock.simps [of _ _ _ "u3nt (Atom 9) _ _"])

text \<open>Formulas by their shape.\<close>

lemma formula_cases:
  obtains (bad) "\<And>n w. nock env n bus fol w = Some (Inl Exit)"
  | (cons) b c d where "fol = Cell (Cell b c) d" | (zero) b where "fol = Cell (Atom 0) b" | (one) b where "fol = Cell (Atom 1) b"
  | (two) b c where "fol = u3nt (Atom 2) b c" | (three) b where "fol = Cell (Atom 3) b" | (four) b where "fol = Cell (Atom 4) b"
  | (five) b c where "fol = u3nt (Atom 5) b c" | (six) b c d where "fol = Cell (Atom 6) (u3nt b c d)"
  | (seven) b c where "fol = u3nt (Atom 7) b c" | (eight) b c where "fol = u3nt (Atom 8) b c" | (nine) b c where "fol = u3nt (Atom 9) b c"
  | (ten) b c d where "fol = u3nt (Atom 10) (u3nc b c) d" | (eleven) b c where "fol = u3nt (Atom 11) b c" | (twelve) b c where "fol = u3nt (Atom 12) b c"
proof (cases fol)
  case (Atom a)
  then show ?thesis
    using that(1) nock_bad(1) by blast
next
  case (Cell cod arg)
  show ?thesis
  proof (cases cod)
    case cell: (Cell b c)
    then show ?thesis
      using Cell that(2) by blast
  next
    case cod: (Atom k)
    consider "k \<in> {0, 1, 3, 4}" | "k \<in> {2, 5, 7, 8, 9, 11, 12}" | "k = 6" | "k = 10" | "k \<notin> {0, 1, 2, 3, 4, 5, 6, 7, 8, 9, 10, 11, 12}"
      by blast
    then show ?thesis
    proof cases
      case 1
      then show ?thesis
        using Cell cod that(3,4,6,7) by auto
    next
      case 2
      then show ?thesis
        using Cell cod that nock_bad(2) by (cases arg) (force, auto)
    next
      case 3
      then show ?thesis
        using Cell cod that(1,9) nock_bad(2,3) by (metis insertCI noun.exhaust)
    next
      case 4
      then show ?thesis
        using Cell cod that(1,13) nock_bad(2,4) by (metis insertCI noun.exhaust)
    next
      case 5
      then show ?thesis
        using Cell cod that(1) nock_bad(5) by blast
    qed
  qed
qed

lemma gives_nine:
  assumes jets: "jets_ok env" and call: "\<And>m bus fol w. m < n \<Longrightarrow> memo_ok env w \<Longrightarrow> gives env (nock env m bus fol w) (tar env bus fol)"
    and c: "gives env (nock env n bus c w) (tar env bus c)" and mac: "gives env (nock env n bus (kick_mac b c) w) (tar env bus (kick_mac b c))"
  shows "gives env (nock env n bus (u3nt (Atom 9) b c) w) (tar env bus (u3nt (Atom 9) b c))"
  unfolding nock_nine
proof (rule gives_jet, rule gives_if)
  show "gives env (nock env n bus (kick_mac b c) w) (tar env bus (u3nt (Atom 9) b c))"
    by (rule gives_mono [OF mac]) (auto simp: tar_nine kick_mac_def elim: tar_7)
  show "gives env (on_ret (nock env n bus c w) (\<lambda>(cor, w). on_ret (Some (n_kick env cor b w)) (\<lambda>(r, w).
      case r of Inl pro \<Rightarrow> Some (Inr (pro, w))
      | Inr p \<Rightarrow> (case n of 0 \<Rightarrow> None | Suc m \<Rightarrow> on_ret (Some (u3x_at b cor)) (\<lambda>nex. nock env m cor nex w)))))
    (tar env bus (u3nt (Atom 9) b c))"
  proof (rule gives_bind [OF c], unfold prod.case, rule gives_mono [OF gives_kick [OF jets call]])
    show "tar env bus (u3nt (Atom 9) b c) pro" if "tar env bus c cor" "\<exists>fol. u3x_at b cor = Inr fol \<and> tar env cor fol pro" for cor pro
      using that by (cases b) (auto simp: slot_at dest: slot_at_cell intro: tar.nine)
  qed
qed

lemma gives_formula:
  fixes env :: "'j env"
  assumes jets: "jets_ok env" and call: "\<And>m bus fol w. m < n \<Longrightarrow> memo_ok env w \<Longrightarrow> gives env (nock env m bus fol w) (tar env bus fol)"
  shows "memo_ok env w \<Longrightarrow> gives env (nock env n bus fol w) (tar env bus fol)"
proof (induction fol arbitrary: bus w rule: measure_induct_rule [of weight])
  case (less fol)
  have sub: "gives env (nock env n bus f w) (tar env bus f)" if "weight f < weight fol" "memo_ok env w" for bus f w
    using less.IH that by blast
  note w = less.prems
  show ?case
  proof (cases fol rule: formula_cases [of env bus])
    case bad
    then show ?thesis
      by simp
  next
    case (cons b c d)
    show ?thesis
      unfolding cons nock_ops by (rule gives_two [OF sub sub w]) (auto simp: cons intro: tar.cons)
  next
    case (zero b)
    show ?thesis
      unfolding zero nock_ops by (rule gives_world [OF _ w]) (cases b; auto simp: slot_at dest: slot_at_cell intro: tar.zero)
  next
    case (one b)
    then show ?thesis
      using w tar.one [of env bus b] by (simp add: nock_lit [simplified])
  next
    case (two b c)
    show ?thesis
      unfolding two nock_ops by (rule gives_two [OF sub sub w], simp_all add: two) (rule gives_mono [OF gives_call [OF call]], auto intro: tar.two)
  next
    case (three b)
    show ?thesis
      unfolding three nock_ops by (rule gives_bind [OF sub [OF _ w]]) (auto simp: three loob_def dest: tar.three)
  next
    case (four b)
    have "tar env bus (Cell (Atom 4) b) q" if "tar env bus b p" "u3i_vint p = Inr q" for p q
      using that by (cases p) (auto simp: u3i_vint_def intro: tar.four [simplified])
    then show ?thesis
      unfolding four nock_ops by (intro gives_bind [OF sub [OF _ w]]) (auto simp: four intro: gives_world)
  next
    case (five b c)
    have "tar env bus (u3nt (Atom 5) b c) (loob (q = p))" if "tar env bus b p" "tar env bus c q" for p q
      using tar.five [OF that] by (auto simp: loob_def split: if_splits)
    then show ?thesis
      unfolding five nock_ops by (intro gives_two [OF sub sub w]) (simp_all add: five)
  next
    case (six b c d)
    have c: "gives env (nock env n bus c w) (tar env bus fol)" if "memo_ok env w" "tar env bus b (Atom 0)" for w
      by (rule gives_mono [OF sub [OF _ that(1)]]) (auto simp: six intro: tar.six_yes that)
    have d: "gives env (nock env n bus d w) (tar env bus fol)" if "memo_ok env w" "tar env bus b (Atom 1)" for w
      by (rule gives_mono [OF sub [OF _ that(1)]]) (use that in \<open>auto simp: six intro: tar.six_no\<close>)
    show ?thesis
      unfolding six nock_ops
      by (rule gives_bind [OF sub [OF _ w]], simp add: six, unfold prod.case six [symmetric], intro gives_if) (auto intro: c d)
  next
    case (seven b c)
    show ?thesis
      unfolding seven nock_ops
      by (rule gives_bind [OF sub [OF _ w]], simp add: seven, unfold prod.case, rule gives_mono [OF sub]) (auto simp: seven intro: tar.seven)
  next
    case (eight b c)
    show ?thesis
      unfolding eight nock_ops
      by (rule gives_bind [OF sub [OF _ w]], simp add: eight, unfold prod.case, rule gives_mono [OF sub]) (auto simp: eight intro: tar.eight)
  next
    case (nine b c)
    show ?thesis
      unfolding nine by (rule gives_nine [OF jets call]) (auto intro!: sub w simp: nine kick_mac_def)
  next
    case (ten b c d)
    show ?thesis
      unfolding ten nock_ops by (rule gives_two [OF sub sub w], simp_all add: ten) (auto intro!: gives_world dest!: edit_hax intro: tar.ten)
  next
    case (eleven b c)
    show ?thesis
      unfolding eleven nock_ops by (rule gives_hint [OF jets w]) (auto intro!: sub simp: eleven)
  next
    case (twelve b c)
    show ?thesis
      unfolding twelve nock_ops by (rule gives_two [OF sub sub w], simp_all add: twelve) (auto intro!: gives_world intro: tar.twelve)
  qed
qed

theorem nock_gives:
  assumes "jets_ok env" and "memo_ok env w"
  shows "gives env (nock env n bus fol w) (tar env bus fol)"
  using assms(2)
proof (induction n arbitrary: bus fol w rule: less_induct)
  case (less n)
  show ?case
    by (rule gives_formula [OF assms(1) _ less.prems]) (rule less.IH)
qed

section \<open>Formulas with a product end\<close>

lemma tar_det: "tar env a f r \<Longrightarrow> tar env a f r' \<Longrightarrow> r' = r"
proof (induction arbitrary: r' rule: tar.induct)
  case (cons a b c x d y)
  show ?case
    using cons.prems by (rule tar_cons) (use cons.IH in fastforce)+
next
  case (zero b a r)
  show ?case
    using zero.prems by (rule tar_0) (use zero in simp)+
next
  case (one a b)
  show ?case
    using one.prems by (rule tar_1) (simp)+
next
  case (two a b x c f r)
  show ?case
    using two.prems by (rule tar_2) (use two.IH in fastforce)+
next
  case (three a b x)
  show ?case
    using three.prems by (rule tar_3) (use three.IH in fastforce)+
next
  case (four a b x)
  show ?case
    using four.prems by (rule tar_4) (use four.IH in fastforce)+
next
  case (five a b x c y)
  show ?case
    using five.prems by (rule tar_5) (use five.IH in fastforce)+
next
  case (six_yes a b c r d)
  show ?case
    using six_yes.prems by (rule tar_6) (use six_yes.IH in fastforce)+
next
  case (six_no a b d r c)
  show ?case
    using six_no.prems by (rule tar_6) (use six_no.IH in fastforce)+
next
  case (seven a b x c r)
  show ?case
    using seven.prems by (rule tar_7) (use seven.IH in fastforce)+
next
  case (eight a b x c r)
  show ?case
    using eight.prems by (rule tar_8) (use eight.IH in fastforce)+
next
  case (nine a c x b f r)
  show ?case
    using nine.prems by (rule tar_9) (use nine.IH nine.hyps in fastforce)+
next
  case (ten a c x d y b r)
  show ?case
    using ten.prems by (rule tar_10) (use ten.IH ten.hyps in fastforce)+
next
  case (eleven_dynamic a c x d r b)
  show ?case
    using eleven_dynamic.prems by (rule tar_11) (use eleven_dynamic.IH in fastforce)+
next
  case (eleven_static a c r b)
  show ?case
    using eleven_static.prems by (rule tar_11_static) (use eleven_static.IH in fastforce)+
next
  case (twelve a b x c y r)
  show ?case
    using twelve.prems by (rule tar_12) (use twelve.IH twelve.hyps in fastforce)+
qed

definition comes :: "'j env \<Rightarrow> (nat \<Rightarrow> (noun, 'j) outcome) \<Rightarrow> noun \<Rightarrow> bool" where
  "comes env r pro \<longleftrightarrow> (\<exists>x N. (\<forall>n \<ge> N. r n = Some x) \<and> (\<forall>p w. x = Inr (p, w) \<longrightarrow> p = pro \<and> memo_ok env w))"

lemma comes_ret: "memo_ok env w \<Longrightarrow> comes env (\<lambda>n. Some (Inr (pro, w))) pro"
  by (auto simp: comes_def)

lemma comes_bail: "comes env (\<lambda>n. Some (Inl e)) pro"
  by (auto simp: comes_def)

lemma comes_bind:
  assumes "comes env r p" and "\<And>w. memo_ok env w \<Longrightarrow> comes env (\<lambda>n. f n (p, w)) q"
  shows "comes env (\<lambda>n. on_ret (r n) (f n)) q"
proof -
  obtain x N where x: "\<And>n. N \<le> n \<Longrightarrow> r n = Some x" "\<And>p' w. x = Inr (p', w) \<Longrightarrow> p' = p \<and> memo_ok env w"
    using assms(1) by (auto simp: comes_def)
  show ?thesis
  proof (cases x)
    case (Inl e)
    then show ?thesis
      unfolding comes_def using x(1) by (intro exI [of _ x] exI [of _ N]) simp
  next
    case (Inr v)
    obtain w where v: "v = (p, w)" "memo_ok env w"
      using x(2) Inr by (cases v) auto
    obtain y M where y: "\<And>n. M \<le> n \<Longrightarrow> f n (p, w) = Some y" "\<And>p' w. y = Inr (p', w) \<Longrightarrow> p' = q \<and> memo_ok env w"
      using assms(2) [OF v(2)] by (auto simp: comes_def)
    show ?thesis
      unfolding comes_def using x(1) y Inr v by (intro exI [of _ y] exI [of _ "max M N"]) auto
  qed
qed

lemma comes_jet: "(\<And>v. r = Inr v \<Longrightarrow> comes env (\<lambda>n. f n v) q) \<Longrightarrow> comes env (\<lambda>n. on_ret (Some r) (f n)) q"
  by (cases r) (auto simp: comes_bail)

lemma comes_world: "(\<And>v. r = Inr v \<Longrightarrow> v = q) \<Longrightarrow> memo_ok env w \<Longrightarrow> comes env (\<lambda>n. with_world r w) q"
  by (cases r) (auto simp: comes_bail comes_ret)

lemma comes_if: "(b \<Longrightarrow> comes env x q) \<Longrightarrow> (\<not> b \<Longrightarrow> comes env y q) \<Longrightarrow> comes env (\<lambda>n. if b then x n else y n) q"
  by (cases b) simp_all

lemma comes_deeper:
  assumes "comes env r q"
  shows "comes env (\<lambda>n. case n of 0 \<Rightarrow> None | Suc m \<Rightarrow> r m) q"
proof -
  obtain x N where x: "\<And>n. N \<le> n \<Longrightarrow> r n = Some x" "\<forall>p w. x = Inr (p, w) \<longrightarrow> p = q \<and> memo_ok env w"
    using assms by (auto simp: comes_def)
  have "(case n of 0 \<Rightarrow> None | Suc m \<Rightarrow> r m) = Some x" if "Suc N \<le> n" for n
    using that x(1) by (cases n) auto
  then show ?thesis
    using x(2) unfolding comes_def by blast
qed

lemma comes_call:
  assumes "memo_ok env w" and "\<And>w. memo_ok env w \<Longrightarrow> comes env (\<lambda>n. nock env n seb nex w) r"
  shows "comes env (\<lambda>n. case n of 0 \<Rightarrow> None | Suc m \<Rightarrow> on_ret (Some (n_find u3_nul nex w)) (\<lambda>(p, w). nock env m seb nex w)) r"
proof (rule comes_deeper, rule comes_jet)
  fix v
  assume v: "n_find u3_nul nex w = Inr v"
  have "memo_ok env (snd v)"
    using memo_find [of u3_nul nex w "fst v" "snd v"] v assms(1) memo_ok_cong by (metis prod.collapse)
  then show "comes env (\<lambda>m. case v of (p, w) \<Rightarrow> nock env m seb nex w) r"
    using assms(2) by (simp add: case_prod_unfold)
qed

lemma comes_behind:
  assumes "comes env r pro" and "\<And>w w'. memo_ok env w \<Longrightarrow> g pro w = Inr w' \<Longrightarrow> memo_ok env w'"
  shows "comes env (\<lambda>n. on_ret (r n) (\<lambda>(pro, w). Some (on_ok (g pro w) (\<lambda>w. Inr (pro, w))))) pro"
proof (rule comes_bind [OF assms(1)])
  fix w
  assume "memo_ok env w"
  then show "comes env (\<lambda>n. case (pro, w) of (pro, w) \<Rightarrow> Some (on_ok (g pro w) (\<lambda>w. Inr (pro, w)))) pro"
    using assms(2) by (cases "g pro w") (auto intro: comes_bail comes_ret)
qed

lemma comes_around:
  assumes "\<And>yes tok w'. fore = Inr (yes, tok, w') \<Longrightarrow> yes \<and> memo w' = memo w" and "\<And>tok pro w w'. hind tok pro w = Inr w' \<Longrightarrow> memo w' = memo w"
    and "memo_ok env w" and "\<And>w. memo_ok env w \<Longrightarrow> comes env (\<lambda>n. run n w) r"
  shows "comes env (\<lambda>n. around fore (run n) hind) r"
  unfolding around_def
proof (rule comes_jet)
  fix v
  assume v: "fore = Inr v"
  obtain yes tok w' where v': "v = (yes, tok, w')"
    by (cases v)
  then have yes: "yes" "memo_ok env w'"
    using assms(1) [of yes tok w'] v assms(3) memo_ok_cong [of w' w env] by auto
  have "comes env (\<lambda>n. on_ret (run n w') (\<lambda>(pro, w). Some (on_ok (hind tok pro w) (\<lambda>w. Inr (pro, w))))) r"
    by (rule comes_behind [OF assms(4) [OF yes(2)]]) (use assms(2) memo_ok_cong in blast)
  then show "comes env (\<lambda>n. case v of (yes, tok, w) \<Rightarrow> if yes then on_ret (run n w) (\<lambda>(pro, w). Some (on_ok (hind tok pro w) (\<lambda>w. Inr (pro, w))))
      else Some (Inr (tok, w))) r"
    using yes(1) by (simp add: v')
qed

lemma comes_static:
  assumes "memo_ok env w" and "\<And>w. memo_ok env w \<Longrightarrow> comes env (\<lambda>n. nock env n bus nef w) r"
  shows "comes env (\<lambda>n. nock_hint env n bus (Atom tag) nef w) r"
proof -
  have "comes env (\<lambda>n. around (n_hilt_fore env (u3nc (Atom tag) nef) bus w) (\<lambda>w. nock env n bus nef w) (n_hilt_hind env)) r"
    by (rule comes_around [OF memo_hints(1,3) assms])
  then show ?thesis
    using assms(2) [OF assms(1)] by (cases "is_fore (Atom tag)") (simp_all add: nock_hint.simps [of _ _ _ "Atom tag"])
qed

lemma comes_dynamic:
  fixes env :: "'j env"
  assumes jets: "jets_ok env" and w: "memo_ok env w" and tar: "tar env bus nef r"
    and nef: "\<And>w. memo_ok env w \<Longrightarrow> comes env (\<lambda>n. nock env n bus nef w) r" and hod: "comes env (\<lambda>n. nock env n bus hod w) clu"
  shows "comes env (\<lambda>n. nock_hint env n bus (Cell zep hod) nef w) r"
proof -
  let ?x = "u3nc bus nef"
  have fast: "comes env (\<lambda>n. on_ret (nock env n bus nef w) (\<lambda>(pro, w). Some (on_ok (u3j_rite_mine env (jed w) clu pro) (\<lambda>j. Inr (pro, w\<lparr>jed := j\<rparr>))))) r"
    if "memo_ok env w" for w
  proof -
    have "comes env (\<lambda>n. on_ret (nock env n bus nef w) (\<lambda>(pro, w). Some (on_ok (on_ok (u3j_rite_mine env (jed w) clu pro) (\<lambda>j. Inr (w\<lparr>jed := j\<rparr>)))
        (\<lambda>w. Inr (pro, w))))) r"
      by (rule comes_behind [OF nef [OF that]]) (auto simp: on_ok_eq_Inr)
    then show ?thesis
      by simp
  qed
  have memo: "comes env (\<lambda>n. case u3z_find_m (144 + c3__nock) ?x w of Some pro \<Rightarrow> Some (Inr (pro, w))
      | None \<Rightarrow> on_ret (nock env n bus nef w) (\<lambda>(pro, w). Some (Inr (pro, if home env then w else u3z_save_m env (144 + c3__nock) ?x pro w)))) r"
    if "memo_ok env w" for w
  proof (cases "u3z_find_m (144 + c3__nock) ?x w")
    case None
    have "comes env (\<lambda>n. on_ret (nock env n bus nef w) (\<lambda>(pro, w). Some (on_ok (Inr (if home env then w else u3z_save_m env (144 + c3__nock) ?x pro w))
        (\<lambda>w. Inr (pro, w))))) r"
      by (rule comes_behind [OF nef [OF that]]) (use memo_ok_save [OF jets _ tar] in \<open>fastforce split: if_splits\<close>)
    then show ?thesis
      unfolding None by simp
  next
    case (Some pro)
    then have "tar env bus nef pro"
      using that unfolding memo_ok_def by blast
    then have "pro = r"
      using tar_det tar by blast
    then show ?thesis
      unfolding Some using comes_ret that by simp
  qed
  have tace: "comes env (\<lambda>n. on_ret (nock env n bus nef (u3t_push y w)) (\<lambda>(pro, w). Some (on_ok (u3t_drop w) (\<lambda>w. Inr (pro, w))))) r"
    if "memo_ok env w" for w y
    by (rule comes_behind [OF nef]) (use that memo_ok_cong [OF memo_drop] in auto)
  show ?thesis
    unfolding nock_hint.simps [of _ _ _ "u3nc _ _"] u3a_is_cell.simps u3x_cell_simps on_ret_simps prod.case not_True_eq_False if_False
    by (rule comes_bind [OF hod], unfold prod.case, intro comes_if)
      (assumption | simp only: memo_ok_world | rule fast memo tace nef comes_around [OF memo_hints(2,4)] | simp)+
qed

lemma comes_nine:
  assumes jets: "jets_ok env" and c: "comes env (\<lambda>n. nock env n bus c w) x" and slot: "slot b x = Some f" and tar: "tar env x f r"
    and f: "\<And>w. memo_ok env w \<Longrightarrow> comes env (\<lambda>n. nock env n x f w) r"
  shows "comes env (\<lambda>n. nock env n bus (u3nt (Atom 9) (Atom b) c) w) r"
  unfolding nock_nine
proof (rule comes_jet, rule comes_if)
  have at: "u3x_at (Atom b) x = Inr f"
    using slot by (simp add: slot_at)
  show "comes env (\<lambda>n. nock env n bus (kick_mac (Atom b) c) w) r"
    unfolding kick_mac_def nock_ops
  proof (rule comes_bind [OF c], unfold prod.case)
    fix w
    assume w: "memo_ok env w"
    have "comes env (\<lambda>n. case n of 0 \<Rightarrow> None | Suc m \<Rightarrow> on_ret (Some (n_find u3_nul f w)) (\<lambda>(p, w). nock env m x f w)) r"
      by (rule comes_call [OF w f])
    then show "comes env (\<lambda>n. on_ret (with_world (u3x_at (Atom 1) x) w) (\<lambda>(p, w). on_ret (with_world (u3x_at (Atom b) x) w) (\<lambda>(q, w).
        case n of 0 \<Rightarrow> None | Suc m \<Rightarrow> on_ret (Some (n_find u3_nul q w)) (\<lambda>(x, w). nock env m p q w)))) r"
      by (simp add: at axis_small [simplified])
  qed
  show "comes env (\<lambda>n. on_ret (nock env n bus c w) (\<lambda>(cor, w). on_ret (Some (n_kick env cor (Atom b) w)) (\<lambda>(r, w).
      case r of Inl pro \<Rightarrow> Some (Inr (pro, w))
      | Inr p \<Rightarrow> (case n of 0 \<Rightarrow> None | Suc m \<Rightarrow> on_ret (Some (u3x_at (Atom b) cor)) (\<lambda>nex. nock env m cor nex w))))) r"
  proof (rule comes_bind [OF c], unfold prod.case, rule comes_jet)
    fix w v
    assume w: "memo_ok env w" and v: "n_kick env x (Atom b) w = Inr v"
    obtain q w' where q: "v = (q, w')"
      by (cases v)
    have w': "memo_ok env w'"
      using memo_kick [of env x "Atom b" w q w'] v q w memo_ok_cong by blast
    have "q = Inl pro \<Longrightarrow> pro = r" for pro
      using gives_kick [OF jets nock_gives [OF jets], of 0 w x "Atom b"] v q w at tar_det [OF tar] by auto
    then show "comes env (\<lambda>n. case v of (r, w) \<Rightarrow> case r of Inl pro \<Rightarrow> Some (Inr (pro, w))
        | Inr p \<Rightarrow> (case n of 0 \<Rightarrow> None | Suc m \<Rightarrow> on_ret (Some (u3x_at (Atom b) x)) (\<lambda>nex. nock env m x nex w))) r"
      using w' f [OF w'] q at by (cases q) (auto intro: comes_ret comes_deeper)
  qed
qed

theorem tar_comes:
  assumes "jets_ok env" and "tar env bus fol r" and "memo_ok env w"
  shows "comes env (\<lambda>n. nock env n bus fol w) r"
  using assms(2,3)
proof (induction arbitrary: w rule: tar.induct)
  case (cons a b c x d y)
  show ?case
    unfolding nock_ops
    by (rule comes_bind [OF cons.IH(1) [OF cons.prems]], unfold prod.case, rule comes_bind [OF cons.IH(2)]) (simp_all add: comes_ret)
next
  case (zero b a r)
  then show ?case
    unfolding nock_ops by (intro comes_world) (auto simp: slot_at)
next
  case (one a b)
  then show ?case
    by (simp add: nock_lit [simplified] comes_ret)
next
  case (two a b x c f r)
  show ?case
    unfolding nock_ops
    by (rule comes_bind [OF two.IH(1) [OF two.prems]], unfold prod.case, rule comes_bind [OF two.IH(2)], assumption,
        unfold prod.case, rule comes_call [OF _ two.IH(3)])
next
  case (three a b x)
  then show ?case
    unfolding nock_ops by (intro comes_bind [OF three.IH]) (auto simp: loob_def intro: comes_ret)
next
  case (four a b x)
  then show ?case
    unfolding nock_ops by (intro comes_bind [OF four.IH]) (auto simp: u3i_vint_def intro: comes_ret)
next
  case (five a b x c y)
  show ?case
    unfolding nock_ops
    by (rule comes_bind [OF five.IH(1) [OF five.prems]], unfold prod.case, rule comes_bind [OF five.IH(2)]) (auto simp: loob_def intro: comes_ret)
next
  case (six_yes a b c r d)
  show ?case
    unfolding nock_ops by (rule comes_bind [OF six_yes.IH(1) [OF six_yes.prems]]) (cases "n_formulaic c"; simp add: six_yes.IH(2) comes_bail)
next
  case (six_no a b d r c)
  show ?case
    unfolding nock_ops by (rule comes_bind [OF six_no.IH(1) [OF six_no.prems]]) (cases "n_formulaic d"; simp add: six_no.IH(2) comes_bail)
next
  case (seven a b x c r)
  show ?case
    unfolding nock_ops by (rule comes_bind [OF seven.IH(1) [OF seven.prems]]) (simp add: seven.IH(2))
next
  case (eight a b x c r)
  show ?case
    unfolding nock_ops by (rule comes_bind [OF eight.IH(1) [OF eight.prems]]) (simp add: eight.IH(2))
next
  case (nine a c x b f r)
  show ?case
    by (rule comes_nine [OF assms(1) nine.IH(1) [OF nine.prems] nine.hyps(2,3) nine.IH(2)])
next
  case (ten a c x d y b r)
  show ?case
    unfolding nock_ops
    by (rule comes_bind [OF ten.IH(2) [OF ten.prems]], unfold prod.case, rule comes_bind [OF ten.IH(1)], assumption, unfold prod.case, rule comes_world)
      (use ten.hyps(3) in \<open>auto dest: edit_hax\<close>)
next
  case (eleven_dynamic a c x d r b)
  show ?case
    unfolding nock_ops by (rule comes_dynamic [OF assms(1) eleven_dynamic.prems eleven_dynamic.hyps(2) eleven_dynamic.IH(2) eleven_dynamic.IH(1)])
      (use eleven_dynamic.prems in simp_all)
next
  case (eleven_static a c r b)
  show ?case
    unfolding nock_ops by (rule comes_static [OF eleven_static.prems eleven_static.IH])
next
  case (twelve a b x c y r)
  show ?case
    unfolding nock_ops
    by (rule comes_bind [OF twelve.IH(1) [OF twelve.prems]], unfold prod.case, rule comes_bind [OF twelve.IH(2)], assumption, unfold prod.case, rule comes_world)
      (use twelve.hyps(3) in simp_all)
qed

section \<open>The interpreter\<close>

theorem u3n_nock_on_right:
  assumes "jets_ok env" and "cache_ok w" and "memo_ok env w" and "u3n_nock_on env bus fol w = Some (Inr (pro, w'))"
  shows "tar env bus fol pro"
proof -
  obtain n where "nock_call env n bus fol w = Some (Inr (pro, w'))"
    using u3n_nock_on_call [OF assms(2)] assms(4) by blast
  then obtain p w1 where w1: "n_find u3_nul fol w = Inr (p, w1)" "nock env n bus fol w1 = Some (Inr (pro, w'))"
    by (auto simp: nock_call_def on_ret_eq_Inr)
  then have "memo_ok env w1"
    using memo_find assms(3) memo_ok_cong by blast
  then show ?thesis
    using nock_gives [OF assms(1), of w1 n bus fol] w1(2) by (simp add: gives_def)
qed

theorem u3n_nock_on_ends:
  assumes "jets_ok env" and "cache_ok w" and "memo_ok env w" and "tar env bus fol pro"
  shows "\<exists>r. u3n_nock_on env bus fol w = Some r \<and> (\<forall>p w'. r = Inr (p, w') \<longrightarrow> p = pro)"
proof -
  have "\<exists>n r. nock_call env n bus fol w = Some r"
  proof (cases "n_find u3_nul fol w")
    case (Inr v)
    then obtain p w1 where w1: "n_find u3_nul fol w = Inr (p, w1)"
      by (cases v) auto
    then have "memo_ok env w1"
      using memo_find assms(3) memo_ok_cong by blast
    from tar_comes [OF assms(1,4) this] show ?thesis
      using w1 unfolding comes_def by (force simp: nock_call_def)
  qed (simp add: nock_call_def)
  then obtain r where r: "u3n_nock_on env bus fol w = Some r"
    using u3n_nock_on_call [OF assms(2)] by blast
  then have "p = pro" if "r = Inr (p, w')" for p w'
    using u3n_nock_on_right [OF assms(1-3)] tar_det [OF assms(4)] that by blast
  then show ?thesis
    using r by blast
qed

end
