(* ===== verification/Nock_Properties.thy ===== *)
theory Nock_Properties
  imports Nock_Spec
begin

text \<open>Properties of the compiler, the assembler and the interpreter of Nock, with examples.\<close>

section \<open>A world without jets\<close>

definition plain_env :: "unit env" where
  "plain_env = \<lparr>quiet = False, home = False, clock = (\<lambda>n. n), u3m_soft_esc = (\<lambda>ref gof. Inl Fail),
     u3j_site_kick = (\<lambda>j cor axe. Inr (Inr u3_nul, j)), u3j_rite_mine = (\<lambda>j clu cor. Inr j), trim = (\<lambda>m. m)\<rparr>"

definition first_world :: "unit world" where
  "first_world = \<lparr>tax = [], roads = [\<lambda>key. None], memo = (\<lambda>key. None), slogs = [], ticks = 0, jed = ()\<rparr>"

lemma plain_jets: "jets_ok plain_env"
  by (simp add: jets_ok_def plain_env_def)

lemma plain_blind: "blind plain_env"
  by (simp add: blind_def plain_env_def wish_in_def)

lemma first_ok: "cache_ok first_world" "memo_ok env first_world"
  by (simp_all add: cache_ok_def memo_ok_def first_world_def u3z_find_m_def)

text \<open>The formula that increments its subject.\<close>

definition inc :: noun where
  "inc = u3nt (Atom 4) (Atom 0) (Atom 1)"

lemmas bite_simps = n_bite_def n_comp.simps comp_frag_def n_prog_from_ops_def n_melt_def melt_op_def n_prog_asm_def asm_op_def asm_put_def

lemma bite_inc: "n_bite inc = Inr \<lparr>ops_y = [BUMP, HALT], non = [], sot_u = [], sit_u = [], rit_u = 0\<rparr>"
  by (simp add: inc_def bite_simps)

lemma find_inc: "\<exists>p w. n_find u3_nul inc first_world = Inr (p, w)"
  by (simp add: n_find_def Let_def bite_inc first_world_def)

lemma nock_inc: "\<exists>w. nock_call plain_env 0 (Atom 41) inc first_world = Some (Inr (Atom 42, w))"
  using find_inc by (auto simp: nock_call_def inc_def nock_ops axis_small [simplified] u3i_vint_def)

lemma tar_inc: "tar plain_env (Atom 41) inc (Atom 42)"
proof -
  have "tar plain_env (Atom 41) (Cell (Atom 0) (Atom 1)) (Atom 41)"
    by (rule tar.zero) simp
  from tar.four [OF this] show ?thesis
    by (simp add: inc_def)
qed

section \<open>The interpreter\<close>

text \<open>
  C1. Compiling a formula, assembling the code and running the bytecode on the stack machine gives a result,
  a product with the world it leaves or a bail, exactly if the reference interpreter, which evaluates the formula
  directly, gives the same result with enough calls: results, bails and endless computations agree.
\<close>

theorem nock_refines:
  assumes "cache_ok w"
  shows "u3n_nock_on env bus fol w = Some r \<longleftrightarrow> (\<exists>n. nock_call env n bus fol w = Some r)"
  by (rule u3n_nock_on_call [OF assms])

theorem nock_refines_witness:
  "cache_ok first_world \<and> (\<exists>w. u3n_nock_on plain_env (Atom 41) inc first_world = Some (Inr (Atom 42, w)))"
  using nock_refines [OF first_ok(1), of plain_env "Atom 41" inc] nock_inc first_ok(1) by blast

text \<open>
  C6. A product of the interpreter is the product of the definition of Nock in \<^verbatim>\<open>doc/spec/nock/4.txt\<close> with the
  rule for opcode 12 added, which the text does not have; if the namespace has no answers, it is the product that the
  text itself gives. Jets return the product of the formula they replace, and the tables of programs and memos are valid.
\<close>

theorem nock_product_right:
  assumes "jets_ok env" and "cache_ok w" and "memo_ok env w" and "u3n_nock_on env bus fol w = Some (Inr (pro, w'))"
  shows "tar env bus fol pro \<and> (blind env \<longrightarrow> tar4 bus fol pro)"
  using u3n_nock_on_right [OF assms] blind_tar4 by blast

theorem nock_product_right_witness:
  "\<exists>w. u3n_nock_on plain_env (Atom 41) inc first_world = Some (Inr (Atom 42, w)) \<and> tar plain_env (Atom 41) inc (Atom 42) \<and> tar4 (Atom 41) inc (Atom 42)"
proof -
  obtain w where "u3n_nock_on plain_env (Atom 41) inc first_world = Some (Inr (Atom 42, w))"
    using u3n_nock_on_call [OF first_ok(1), of plain_env "Atom 41" inc] nock_inc by blast
  then show ?thesis
    using nock_product_right [OF plain_jets first_ok] plain_blind by blast
qed

text \<open>
  C10. For a formula that has a product by the definition of Nock, or by the definition with the rule for opcode 12, the
  interpreter ends: with this product, or with a bail or a failed assertion, but with no other product.
\<close>

theorem nock_ends:
  assumes "jets_ok env" and "cache_ok w" and "memo_ok env w" and "tar env bus fol pro"
  shows "\<exists>r. u3n_nock_on env bus fol w = Some r \<and> (\<forall>p w'. r = Inr (p, w') \<longrightarrow> p = pro)"
  by (rule u3n_nock_on_ends [OF assms])

theorem nock_ends_witness: "\<exists>r. u3n_nock_on plain_env (Atom 41) inc first_world = Some r"
  using nock_ends [OF plain_jets first_ok tar_inc] by blast

text \<open>
  C15. The assembled program of a formula has the code of the formula in its bytes: every operation is fetched from its
  position, the skips lead to the positions of the operations they skip to, a halt is behind the last one, and
  the number of bytes has not wrapped around.
\<close>

theorem bite_places_code:
  assumes "n_bite fol = Inr p"
  shows "\<exists>c pos. code fol True True = Inr c \<and> pos 0 = 0 \<and> code_at p pos 0 c \<and>
    fetch p (pos (length c)) = Inr (Op HALT, pos (length c) + 1) \<and> length (ops_y p) = pos (length c) + 1 \<and> length (ops_y p) < 2 ^ 32"
proof -
  obtain c where c: "code fol True True = Inr c" "n_prog_from_ops (rev c) = Inr p"
    using assms by (auto simp: n_bite_def n_comp_code emitted_def on_ok_eq_Inr)
  then have "list_all op_ok (rev c)"
    using coded_ok [OF code_coded] by (simp add: list_all_iff)
  from n_prog_from_ops_code [OF c(2) this] c(1) show ?thesis
    by auto
qed

theorem bite_places_code_witness: "\<exists>p c. n_bite inc = Inr p \<and> code inc True True = Inr c \<and> length (ops_y p) < 2 ^ 32"
  using bite_places_code [OF bite_inc] bite_inc by blast

text \<open>
  The compiler puts in front of its list as many operations as it says, each of a kind that the assembler knows and
  with an argument that fits the bytes of its opcode.
\<close>

theorem comp_emits_fitting:
  assumes "n_comp ops fol los tel_o = Inr (n, ops')"
  shows "\<exists>c. ops' = c @ ops \<and> length c = n \<and> list_all op_ok c"
proof -
  obtain c where c: "code fol los tel_o = Inr c" "ops' = rev c @ ops" "n = length c"
    using assms by (auto simp: n_comp_code emitted_def on_ok_eq_Inr)
  then show ?thesis
    using coded_ok [OF code_coded [OF c(1)]] by (intro exI [of _ "rev c"]) (simp add: list_all_iff)
qed

theorem comp_emits_fitting_witness: "n_comp [] inc True True = Inr (1, [Op BUMP]) \<and> list_all op_ok [Op BUMP]"
proof -
  have comp: "n_comp [] inc True True = Inr (1, [Op BUMP])"
    by (simp add: inc_def n_comp.simps comp_frag_def)
  then show ?thesis
    using comp_emits_fitting [OF comp] by simp
qed

section \<open>Where the code departs from Nock\<close>

text \<open>\<open>[6 [1 0] [1 42] [9 0 0 1]]\<close>: the branch that is not taken kicks axis 0.\<close>

definition dead_kick :: noun where
  "dead_kick = Cell (Atom 6) (u3nt (u3nc (Atom 1) (Atom 0)) (u3nc (Atom 1) (Atom 42)) (u3nt (Atom 9) (Atom 0) (Cell (Atom 0) (Atom 1))))"

text \<open>
  A formula with a product by the definition of Nock can be refused by the compiler: the branch that is not taken
  kicks axis 0, the check of branches accepts it, and compiling it bails.
\<close>

theorem dead_branch_refused: "n_formulaic dead_kick \<and> tar env bus dead_kick (Atom 42) \<and> n_bite dead_kick = Inl Exit"
proof -
  have "tar env bus dead_kick (Atom 42)"
    unfolding dead_kick_def by (intro tar.six_yes tar.one)
  moreover have "n_bite dead_kick = Inl Exit" "n_formulaic dead_kick"
    by code_simp+
  ultimately show ?thesis
    by blast
qed

text \<open>
  A formula \<open>[9 b c]\<close> whose axis \<open>b\<close> is a cell has no product in Nock, but it does not bail either: compiling it
  fails an assertion, which ends the process.
\<close>

theorem cell_axis_aborts: "n_bite (u3nt (Atom 9) (Cell x y) c) = Inl Assertion \<and> \<not> tar env bus (u3nt (Atom 9) (Cell x y) c) r"
  by (auto simp: n_bite_def n_comp.simps [of _ "u3nt (Atom 9) _ _"] kick_is_mac_def u3qc_cap_def u3r_met_def elim: tar_9)

section \<open>Printing bytecode\<close>

lemma cn_intlen_digits: "length (etch_digits n) = cn_intlen n"
  by (induction n rule: etch_digits.induct) (simp add: etch_digits.simps cn_intlen.simps)

lemma names_four: "cod < LAST \<Longrightarrow> length (opcode_names ! cod) = 4"
proof -
  have "\<forall>x \<in> set opcode_names. length x = 4" "length opcode_names = LAST"
    by (simp_all add: opcode_names_def)
  then show "cod < LAST \<Longrightarrow> length (opcode_names ! cod) = 4"
    by simp
qed

lemma n_arg_known: "n_arg cod = Inr n \<Longrightarrow> cod < LAST"
  by (auto simp: n_arg_def split: if_splits)

lemma etch_op_length:
  assumes "etch_next pog_y ip = Inr (bop_w, par_w, num_w, ip')"
  shows "5 + (if 0 < par_w then 3 + (if cn_is_indexed bop_w then 2 else 0) + cn_intlen num_w else 0) \<le> length (etch_op bop_w par_w num_w)"
proof -
  have "bop_w < LAST"
    using assms n_arg_known by (auto simp: etch_next_def on_ok_eq_Inr split: if_splits)
  then show ?thesis
    using names_four by (auto simp: etch_op_def cn_intlen_digits cn_intlen.simps [of 0])
qed

lemma etch_short: "etch_len pog_y ip len = Inr len' \<Longrightarrow> etch_loop pog_y ip str = Inr str' \<Longrightarrow> len' + length str \<le> len + length str'"
proof (induction pog_y ip len arbitrary: str rule: etch_len.induct)
  case (1 pog_y ip len)
  show ?case
  proof (cases "ip < length pog_y")
    case True
    then obtain b q n i where e: "etch_next pog_y ip = Inr (b, q, n, i)"
      using "1.prems" by (auto simp: etch_len.simps [of pog_y ip] on_ok_eq_Inr)
    then show ?thesis
      using True "1.prems" "1.IH" [OF True e refl refl refl, of "str @ etch_op b q n"] etch_op_length [OF e]
      by (simp add: etch_len.simps [of pog_y ip] etch_loop.simps [of pog_y ip])
  qed (use 1 in \<open>simp add: etch_len.simps [of pog_y ip] etch_loop.simps [of pog_y ip]\<close>)
qed

text \<open>
  The array in which the bytecode of a formula is printed is always too short: its size does not count the
  null character behind the string, nor the digit of an argument 0.
\<close>

theorem etch_bytecode_overflows: "cn_etch_bytecode fol \<noteq> Inr str_c"
  by (auto simp: cn_etch_bytecode_def Let_def on_ok_eq_Inr split: if_splits) (drule (1) etch_short, simp)

section \<open>Timing hints\<close>

text \<open>\<open>[11 [%bout b] c]\<close>\<close>

definition timed :: "noun \<Rightarrow> noun \<Rightarrow> noun" where
  "timed b c = u3nt (Atom 11) (Cell (Atom c3__bout) b) c"

text \<open>
  A timing hint with a formula for its clue works only if the clue is a cell: with an atom, the formula is
  evaluated, and then an assertion fails, which ends the process. By the definition of Nock the hint has no effect.
\<close>

theorem bout_atom_aborts:
  assumes "nock env n bus b w = Some (Inr (Atom a, w1))" and "nock env n bus c (w1\<lparr>ticks := ticks w1 + 1\<rparr>) = Some (Inr (pro, w2))"
    and "clock env (ticks w1) \<le> clock env (ticks w2)"
  shows "nock env n bus (timed b c) w = Some (Inl Assertion)"
  using assms
  by (simp add: timed_def nock_ops nock_hint.simps [of _ _ _ "Cell _ _"] is_tace_def is_fore_def around_def n_hint_fore_def n_hint_hind_def
      u3t_trace_time_def time_sub_def u3r_trel_def)

theorem bout_atom_aborts_witness: "nock plain_env 0 (Atom 0) (timed (u3nc (Atom 1) (Atom 0)) (u3nc (Atom 1) (Atom 42))) first_world = Some (Inl Assertion)"
  by (rule bout_atom_aborts, rule nock_lit, rule nock_lit) (simp add: first_world_def plain_env_def)

end
