(* ===== verification/Serf.thy ===== *)
theory Serf
  imports Jet_List
begin

text \<open>
  The worker process, \<^verbatim>\<open>pkg/vere/serf.c\<close>: it applies the commands of the king (\<^verbatim>\<open>$writ\<close>) to the kernel and answers
  each with a \<^verbatim>\<open>$plea\<close>. The kernel is data, its evaluation under \<^verbatim>\<open>u3m_soft\<close> an argument of the definitions: the product
  is a cell of 0 and the result, or of a mote and a trace. Event numbers are natural numbers. Memory profiling, packing
  and reclamation change no noun, so only their flags are represented; what \<^verbatim>\<open>u3a_open\<close> reports is an argument.
\<close>

section \<open>Words of the protocol\<close>

abbreviation (input) c3__live :: noun where "c3__live \<equiv> Atom 0x6576696c"
abbreviation (input) c3__work :: noun where "c3__work \<equiv> Atom 0x6b726f77"
abbreviation (input) c3__peek :: noun where "c3__peek \<equiv> Atom 0x6b656570"
abbreviation (input) c3__play :: noun where "c3__play \<equiv> Atom 0x79616c70"
abbreviation (input) c3__save :: noun where "c3__save \<equiv> Atom 0x65766173"
abbreviation (input) c3__cram :: noun where "c3__cram \<equiv> Atom 0x6d617263"
abbreviation (input) c3__meld :: noun where "c3__meld \<equiv> Atom 0x646c656d"
abbreviation (input) c3__pack :: noun where "c3__pack \<equiv> Atom 0x6b636170"
abbreviation (input) c3__exit :: noun where "c3__exit \<equiv> Atom 0x74697865"
abbreviation (input) c3__done :: noun where "c3__done \<equiv> Atom 0x656e6f64"
abbreviation (input) c3__bail :: noun where "c3__bail \<equiv> Atom 0x6c696162"
abbreviation (input) c3__swap :: noun where "c3__swap \<equiv> Atom 0x70617773"
abbreviation (input) c3__evil :: noun where "c3__evil \<equiv> Atom 0x6c697665"
abbreviation (input) c3__ripe :: noun where "c3__ripe \<equiv> Atom 0x65706972"
abbreviation (input) c3__slog :: noun where "c3__slog \<equiv> Atom 0x676f6c73"
abbreviation (input) c3__flog :: noun where "c3__flog \<equiv> Atom 0x676f6c66"
abbreviation (input) c3__mass :: noun where "c3__mass \<equiv> Atom 0x7373616d"
abbreviation (input) c3__vega :: noun where "c3__vega \<equiv> Atom 0x61676576"
abbreviation (input) c3__trim :: noun where "c3__trim \<equiv> Atom 0x6d697274"
abbreviation (input) c3__arvo :: noun where "c3__arvo \<equiv> Atom 0x6f767261"
abbreviation (input) c3__crud :: noun where "c3__crud \<equiv> Atom 0x64757263"

text \<open>Numbers of at most 8, 32 and 64 bits.\<close>

fun safe_below :: "nat \<Rightarrow> noun \<Rightarrow> nat option" where
  "safe_below w (Atom a) = (if a < 2 ^ w then Some a else None)"
| "safe_below w (Cell h t) = None"

definition u3r_safe_byte :: "noun \<Rightarrow> nat option" where
  "u3r_safe_byte dat = safe_below 8 dat"

definition u3r_safe_word :: "noun \<Rightarrow> nat option" where
  "u3r_safe_word dat = safe_below 32 dat"

definition u3r_safe_chub :: "noun \<Rightarrow> nat option" where
  "u3r_safe_chub dat = safe_below 64 dat"

section \<open>State\<close>

text \<open>
  \<open>roc\<close>, \<open>now\<close> and \<open>arvo_eve_d\<close> are the kernel, the date and the event number of the persistent state (\<^verbatim>\<open>u3A\<close>), \<open>img\<close> the
  last snapshot of it.
\<close>

record u3_serf =
  sef_sen_d :: nat
  sef_dun_d :: nat
  sef_mug_l :: u32
  sef_pac_o :: bool
  sef_rec_o :: bool
  sef_mut_o :: bool
  sef_sac :: noun
  sef_roc :: noun
  sef_now :: noun
  sef_eve_d :: nat
  sef_img :: "(nat \<times> noun) option"

text \<open>
  The kernel under \<^verbatim>\<open>u3m_soft\<close>: a poke sees the kernel and the date, with a time limit. \<open>open_f\<close> is the free memory that
  the allocator reports before and after an event; \<open>cram_f\<close> is whether the export of the state succeeds.
\<close>

record kernel =
  poke_f :: "noun \<Rightarrow> noun \<Rightarrow> nat \<Rightarrow> noun \<Rightarrow> noun"
  life_f :: "noun \<Rightarrow> noun"
  peek_f :: "noun \<Rightarrow> noun \<Rightarrow> nat \<Rightarrow> noun \<Rightarrow> noun"
  mug_f :: "noun \<Rightarrow> u32"
  open_f :: "nat \<Rightarrow> nat \<times> nat"
  cram_f :: "nat \<Rightarrow> bool"

section \<open>Events\<close>

text \<open>
  The effects: a \<^verbatim>\<open>%mass\<close> effect is kept and its data replaced, a \<^verbatim>\<open>%vega\<close> before it asks for reclamation. The result is
  the list of effects, the data, and whether to reclaim.
\<close>

fun feck_loop :: "noun \<Rightarrow> nat \<Rightarrow> bool \<Rightarrow> noun \<Rightarrow> (noun \<times> noun option \<times> bool) jet" where
  "feck_loop vir i_w rec_o (Atom a) = (if a = 0 then Inr (vir, None, rec_o) else Inl bail.Exit)"
| "feck_loop vir i_w rec_o (Cell ovo riv) =
     on_ok (u3t ovo) (\<lambda>fec. on_ok (u3h fec) (\<lambda>tag.
       if tag = c3__mass then
         on_ok (u3t fec) (\<lambda>sac. on_ok (u3qb_scag (Atom i_w) vir) (\<lambda>pre. on_ok (u3h ovo) (\<lambda>wir. on_ok (u3qb_slag (Atom (1 + i_w)) vir) (\<lambda>suf.
           on_ok (u3qb_weld pre (u3nc (u3nt wir c3__mass u3_nul) suf)) (\<lambda>vir. Inr (vir, Some sac, rec_o))))))
       else feck_loop vir (i_w + 1) (rec_o \<or> tag = c3__vega) riv))"

definition serf_sure_feck :: "nat \<Rightarrow> nat \<Rightarrow> noun \<Rightarrow> u3_serf \<Rightarrow> (noun \<times> u3_serf) jet" where
  "serf_sure_feck pre_w pos_w vir sef =
     on_ok (feck_loop vir 0 False vir) (\<lambda>(vir, sac, rec_o).
       let low_w = 2 ^ 27; hig_w = 2 ^ 22;
           (pri, pac_o, rec_o) =
             (if pre_w > low_w \<and> \<not> pos_w > low_w then (Some 1, True, True)
              else if pre_w > hig_w \<and> \<not> pos_w > hig_w then (Some 0, True, True)
              else if sef_dun_d sef mod 1000 = 0 then (None, False, True)
              else (None, False, rec_o));
           vir = (case pri of None \<Rightarrow> vir | Some pri \<Rightarrow> u3nc (u3nc (u3nt (Atom 0) c3__arvo u3_nul) (u3nc c3__trim (Atom pri))) vir)
       in Inr (vir, sef\<lparr>sef_sac := (case sac of None \<Rightarrow> sef_sac sef | Some sac \<Rightarrow> sac),
                        sef_rec_o := (sef_rec_o sef \<or> rec_o), sef_pac_o := (sef_pac_o sef \<or> pac_o)\<rparr>))"

definition serf_sure_core :: "kernel \<Rightarrow> noun \<Rightarrow> u3_serf \<Rightarrow> u3_serf" where
  "serf_sure_core ker cor sef =
     sef\<lparr>sef_dun_d := sef_sen_d sef, sef_roc := cor, sef_eve_d := sef_sen_d sef, sef_mug_l := mug_f ker cor, sef_mut_o := True\<rparr>"

definition serf_sure :: "kernel \<Rightarrow> nat \<Rightarrow> noun \<Rightarrow> u3_serf \<Rightarrow> (noun \<times> u3_serf) jet" where
  "serf_sure ker pre_w par sef =
     on_ok (u3x_cell par) (\<lambda>(vir, cor).
       let sef = serf_sure_core ker cor sef in serf_sure_feck pre_w (snd (open_f ker (sef_dun_d sef))) vir sef)"

text \<open>The event that reports the failure of another, dated just after it.\<close>

fun u3i_vint :: "noun \<Rightarrow> noun jet" where
  "u3i_vint (Atom a) = Inr (Atom (a + 1))"
| "u3i_vint (Cell h t) = Inl bail.Exit"

definition serf_make_crud :: "noun \<Rightarrow> noun \<Rightarrow> noun jet" where
  "serf_make_crud job dud =
     on_ok (u3x_cell job) (\<lambda>(now, ovo). on_ok (u3i_vint now) (\<lambda>wen.
       Inr (u3nt wen (u3nt (Atom 0) c3__arvo u3_nul) (u3nt c3__crud dud ovo))))"

definition serf_poke :: "kernel \<Rightarrow> nat \<Rightarrow> noun \<Rightarrow> u3_serf \<Rightarrow> (noun \<times> u3_serf) jet" where
  "serf_poke ker mil_w job sef =
     on_ok (u3x_cell job) (\<lambda>(now, ovo).
       let gon = poke_f ker (sef_roc sef) now mil_w ovo
       in on_ok (u3h gon) (\<lambda>mot. Inr (gon, if mot = Atom 0 then sef\<lparr>sef_now := now\<rparr> else sef)))"

definition serf_work :: "kernel \<Rightarrow> nat \<Rightarrow> noun \<Rightarrow> u3_serf \<Rightarrow> (noun \<times> u3_serf) jet" where
  "serf_work ker mil_w job sef =
     (if sef_sen_d sef \<noteq> sef_dun_d sef then Inl Assertion
      else let pre_w = fst (open_f ker (sef_dun_d sef + 1)); sef = sef\<lparr>sef_sen_d := sef_sen_d sef + 1\<rparr>
       in on_ok (serf_poke ker mil_w job sef) (\<lambda>(gon, sef). on_ok (u3x_cell gon) (\<lambda>(mot, par).
            if mot = Atom 0 then
              on_ok (serf_sure ker pre_w par sef) (\<lambda>(vir, sef).
                Inr (u3nc c3__done (u3nt (Atom (sef_dun_d sef)) (Atom (unat (sef_mug_l sef))) vir), sef))
            else if mot = c3__evil then
              Inr (u3nt c3__bail gon u3_nul, sef\<lparr>sef_sen_d := sef_dun_d sef\<rparr>)
            else
              let dud = gon
              in on_ok (serf_make_crud job dud) (\<lambda>job. on_ok (serf_poke ker mil_w job sef) (\<lambda>(gon, sef). on_ok (u3x_cell gon) (\<lambda>(mot, par).
                   if mot = Atom 0 then
                     on_ok (serf_sure ker pre_w par sef) (\<lambda>(vir, sef).
                       Inr (u3nc c3__swap (u3nt (Atom (sef_dun_d sef)) (Atom (unat (sef_mug_l sef))) (u3nc job vir)), sef))
                   else Inr (u3nt c3__bail gon (u3nc dud u3_nul), sef\<lparr>sef_sen_d := sef_dun_d sef\<rparr>)))))))"

definition u3_serf_work :: "kernel \<Rightarrow> nat \<Rightarrow> noun \<Rightarrow> u3_serf \<Rightarrow> (noun \<times> u3_serf) jet" where
  "u3_serf_work ker mil_w job sef =
     (if sef_mug_l sef = 0 then Inl Assertion
      else on_ok (serf_work ker mil_w job sef) (\<lambda>(pro, sef). Inr (u3nc c3__work pro, sef)))"

section \<open>Replay\<close>

definition serf_play_life :: "kernel \<Rightarrow> noun \<Rightarrow> u3_serf \<Rightarrow> (noun \<times> u3_serf) jet" where
  "serf_play_life ker eve sef =
     (if sef_sen_d sef \<noteq> 0 then Inl Assertion
      else on_ok (lent eve) (\<lambda>len.
        case u3r_safe_chub len of
          None \<Rightarrow> Inl Assertion
        | Some sen_d \<Rightarrow>
            let sef = sef\<lparr>sef_sen_d := sen_d, sef_roc := Atom 0\<rparr>; gon = life_f ker eve
            in on_ok (u3x_cell gon) (\<lambda>(mot, cor).
                 if mot = Atom 0 then
                   let sef = serf_sure_core ker cor sef in Inr (u3nc c3__done (Atom (unat (sef_mug_l sef))), sef)
                 else Inr (u3nc c3__bail (u3nt (Atom 0) (Atom 0) gon), sef\<lparr>sef_dun_d := 0, sef_sen_d := 0\<rparr>))))"

definition serf_play_poke :: "kernel \<Rightarrow> noun \<Rightarrow> u3_serf \<Rightarrow> (noun \<times> u3_serf) jet" where
  "serf_play_poke ker job sef = serf_poke ker 0 job sef"

fun serf_play_list :: "kernel \<Rightarrow> nat \<Rightarrow> noun \<Rightarrow> u3_serf \<Rightarrow> (noun \<times> u3_serf) jet" where
  "serf_play_list ker pre_w (Atom a) sef =
     (if a = 0 then Inr (u3nc c3__done (Atom (unat (sef_mug_l sef))), sef) else Inl bail.Exit)"
| "serf_play_list ker pre_w (Cell job eve) sef =
     (let sef = sef\<lparr>sef_sen_d := sef_sen_d sef + 1\<rparr>
      in case serf_play_poke ker job sef of
           Inl e \<Rightarrow> Inl e
         | Inr (gon, sef) \<Rightarrow>
             (case u3h gon of
                Inl e \<Rightarrow> Inl e
              | Inr mot \<Rightarrow>
                  if mot = Atom 0 then
                    case u3r_trel gon of
                      None \<Rightarrow> Inl bail.Exit
                    | Some (_, vir, cor) \<Rightarrow>
                        let sef = serf_sure_core ker cor sef
                        in (case serf_sure_feck pre_w (snd (open_f ker (sef_dun_d sef))) vir sef of
                              Inl e \<Rightarrow> Inl e
                            | Inr (_, sef) \<Rightarrow> serf_play_list ker pre_w eve (sef\<lparr>sef_sac := u3_nul\<rparr>))
                  else
                    let sef = sef\<lparr>sef_sen_d := sef_dun_d sef\<rparr>
                    in Inr (u3nc c3__bail (u3nt (Atom (sef_dun_d sef)) (Atom (unat (sef_mug_l sef))) gon), sef)))"

definition u3_serf_play :: "kernel \<Rightarrow> nat \<Rightarrow> noun \<Rightarrow> u3_serf \<Rightarrow> (noun \<times> u3_serf) jet" where
  "u3_serf_play ker eve_d lit sef =
     (if eve_d \<noteq> 1 + sef_sen_d sef then Inl Assertion
      else on_ok (if sef_dun_d sef = 0 then serf_play_life ker lit sef
                  else serf_play_list ker (fst (open_f ker (sef_dun_d sef + 1))) lit sef) (\<lambda>(pro, sef). Inr (u3nc c3__play pro, sef)))"

section \<open>Commands\<close>

definition u3_serf_peek :: "kernel \<Rightarrow> nat \<Rightarrow> noun \<Rightarrow> u3_serf \<Rightarrow> noun jet" where
  "u3_serf_peek ker mil_w sam sef =
     (let gon = peek_f ker (sef_roc sef) (sef_now sef) mil_w sam
      in on_ok (u3x_cell gon) (\<lambda>(tag, dat).
           Inr (u3nc c3__peek (if tag = Atom 0 then u3nc c3__done dat else u3nc c3__bail gon))))"

text \<open>What a command leads to: an answer, a refusal (\<^verbatim>\<open>c3n\<close>), or the end of the process with a status.\<close>

datatype serf_ret = Plea noun | Refused | Exited nat

text \<open>\<^verbatim>\<open>u3e_save\<close> writes the kernel and its event number to the snapshot; how \<^verbatim>\<open>events.c\<close> writes the pages is not represented.\<close>

definition u3e_save :: "u3_serf \<Rightarrow> u3_serf" where
  "u3e_save sef = sef\<lparr>sef_img := Some (sef_eve_d sef, sef_roc sef)\<rparr>"

definition serf_writ_live_save :: "nat \<Rightarrow> u3_serf \<Rightarrow> serf_ret \<times> u3_serf" where
  "serf_writ_live_save eve_d sef = (if eve_d \<noteq> sef_dun_d sef then (Exited 1, sef) else (Plea (u3nc c3__live u3_nul), u3e_save sef))"

definition u3_serf_live :: "kernel \<Rightarrow> noun \<Rightarrow> u3_serf \<Rightarrow> serf_ret \<times> u3_serf" where
  "u3_serf_live ker com sef =
     (case u3r_cell com of
        None \<Rightarrow> (Refused, sef)
      | Some (tag, dat) \<Rightarrow>
          if tag = c3__exit then
            (case u3r_safe_byte dat of None \<Rightarrow> (Refused, sef) | Some cod_y \<Rightarrow> (Exited cod_y, sef))
          else if tag = c3__cram then
            (case u3r_safe_chub dat of
               None \<Rightarrow> (Refused, sef)
             | Some eve_d \<Rightarrow>
                 if eve_d \<noteq> sef_dun_d sef \<or> \<not> cram_f ker eve_d \<or> mug_f ker (sef_roc sef) \<noteq> sef_mug_l sef then (Refused, sef)
                 else (Plea (u3nc c3__live u3_nul), u3e_save sef))
          else if tag = c3__pack \<or> tag = c3__meld then
            (if dat \<noteq> u3_nul then (Refused, sef) else (Plea (u3nc c3__live u3_nul), sef))
          else if tag = c3__save then
            (case u3r_safe_chub dat of None \<Rightarrow> (Refused, sef) | Some eve_d \<Rightarrow> serf_writ_live_save eve_d sef)
          else (Refused, sef))"

definition u3_serf_writ :: "kernel \<Rightarrow> noun \<Rightarrow> u3_serf \<Rightarrow> (serf_ret \<times> u3_serf) jet" where
  "u3_serf_writ ker wit sef =
     (case u3r_cell wit of
        None \<Rightarrow> Inr (Refused, sef)
      | Some (tag, com) \<Rightarrow>
          if tag = c3__live then Inr (u3_serf_live ker com sef)
          else if tag = c3__peek then
            (case u3r_cell com of
               None \<Rightarrow> Inr (Refused, sef)
             | Some (tim, sam) \<Rightarrow>
                 (case u3r_safe_word tim of
                    None \<Rightarrow> Inr (Refused, sef)
                  | Some mil_w \<Rightarrow> on_ok (u3_serf_peek ker mil_w sam sef) (\<lambda>pel. Inr (Plea pel, sef))))
          else if tag = c3__play then
            (case u3r_cell com of
               None \<Rightarrow> Inr (Refused, sef)
             | Some (eve, lit) \<Rightarrow>
                 if \<not> u3a_is_cell lit then Inr (Refused, sef)
                 else (case u3r_safe_chub eve of
                    None \<Rightarrow> Inr (Refused, sef)
                  | Some eve_d \<Rightarrow> on_ok (u3_serf_play ker eve_d lit sef) (\<lambda>(pel, sef). Inr (Plea pel, sef))))
          else if tag = c3__work then
            (case u3r_cell com of
               None \<Rightarrow> Inr (Refused, sef)
             | Some (tim, job) \<Rightarrow>
                 (case u3r_safe_word tim of
                    None \<Rightarrow> Inr (Refused, sef)
                  | Some mil_w \<Rightarrow> on_ok (u3_serf_work ker mil_w job sef) (\<lambda>(pel, sef). Inr (Plea pel, sef))))
          else Inr (Refused, sef))"

text \<open>After every command the flags are cleared, the work they ask for done.\<close>

definition u3_serf_post :: "u3_serf \<Rightarrow> u3_serf" where
  "u3_serf_post sef =
     sef\<lparr>sef_rec_o := False, sef_sac := (if sef_mut_o sef then u3_nul else sef_sac sef), sef_mut_o := False, sef_pac_o := False\<rparr>"

text \<open>The handler of the process: an answer is sent, a refusal ends the process.\<close>

definition cw_serf_writ :: "kernel \<Rightarrow> noun \<Rightarrow> u3_serf \<Rightarrow> (serf_ret \<times> u3_serf) jet" where
  "cw_serf_writ ker jar sef =
     on_ok (u3_serf_writ ker jar sef) (\<lambda>(ret, sef).
       case ret of Plea pel \<Rightarrow> Inr (Plea pel, u3_serf_post sef) | Refused \<Rightarrow> Inr (Exited 1, sef) | Exited c \<Rightarrow> Inr (Exited c, sef))"

definition u3_serf_init :: "kernel \<Rightarrow> u3_serf \<Rightarrow> noun \<times> u3_serf" where
  "u3_serf_init ker sef =
     (let sef = sef\<lparr>sef_mug_l := (if sef_dun_d sef = 0 then 0 else mug_f ker (sef_roc sef)), sef_pac_o := False, sef_rec_o := False,
                    sef_mut_o := False, sef_sac := u3_nul\<rparr>
      in (u3nc c3__ripe (u3nc (u3nt (Atom 1) (Atom 141) (Atom 4)) (u3nc (Atom (sef_dun_d sef)) (Atom (unat (sef_mug_l sef))))), sef))"

end
