(* ===== verification/Disk.thy ===== *)
theory Disk
  imports Ur_Arena "HOL-Library.Monad_Syntax"
begin

text \<open>
  The event log: \<^verbatim>\<open>pkg/vere/disk.c\<close> and the functions of \<^verbatim>\<open>pkg/vere/db/lmdb.c\<close> that read and write events. LMDB itself is
  third-party code, an argument of the definitions: \<open>'b\<close> is the state of a database or of a transaction, and its calls
  return \<open>None\<close> or \<open>Inl\<close> for an error code. The serialization of nouns to atoms is an argument as well. The queue of
  facts, linked in C, is a list with the exit first. Event numbers are natural numbers: the program never comes near
  their 64 bits. \<open>None\<close> is a failed assertion or an access through a null pointer.
\<close>

section \<open>The database\<close>

text \<open>
  The calls for the table of events: transactions, insertion without overwriting, and the cursor, which is at a key and
  moves to the next one, \<open>Inr None\<close> if there is none.
\<close>

record 'b mdb =
  txn_begin :: "'b \<Rightarrow> 'b option"
  dbi_open :: "'b \<Rightarrow> 'b option"
  mdb_put :: "'b \<Rightarrow> nat \<Rightarrow> byte list \<Rightarrow> 'b option"
  txn_commit :: "'b \<Rightarrow> 'b \<Rightarrow> 'b option"
  cursor_open :: "'b \<Rightarrow> bool"
  cursor_set :: "'b \<Rightarrow> nat \<Rightarrow> byte list option"
  cursor_next :: "'b \<Rightarrow> nat \<Rightarrow> unit + (nat \<times> byte list) option"
  cursor_first :: "'b \<Rightarrow> unit + nat option"
  cursor_last :: "'b \<Rightarrow> nat option"

text \<open>The first and the last event.\<close>

definition u3_lmdb_gulf :: "'b mdb \<Rightarrow> 'b \<Rightarrow> (nat \<times> nat) option" where
  "u3_lmdb_gulf mdb env = do {
     txn \<leftarrow> txn_begin mdb env;
     txn \<leftarrow> dbi_open mdb txn;
     if cursor_open mdb txn then
       case cursor_first mdb txn of
         Inl _ \<Rightarrow> None
       | Inr None \<Rightarrow> Some (0, 0)
       | Inr (Some fir_d) \<Rightarrow> map_option (\<lambda>las_d. (fir_d, las_d)) (cursor_last mdb txn)
     else None
   }"

text \<open>
  Reading calls a function with every event, which may refuse; the cursor holds the next event, or nothing at the end of
  the table. The result is whether the read succeeded, with the state of the reader.
\<close>

fun lmdb_read_loop ::
  "'b mdb \<Rightarrow> 'b \<Rightarrow> (nat \<Rightarrow> byte list \<Rightarrow> 's \<Rightarrow> (bool \<times> 's) option) \<Rightarrow> nat \<Rightarrow> nat \<Rightarrow> (nat \<times> byte list) option \<Rightarrow> 's \<Rightarrow> (bool \<times> 's) option" where
  "lmdb_read_loop mdb txn read_f cur_d 0 cur s = Some (True, s)"
| "lmdb_read_loop mdb txn read_f cur_d (Suc len) None s = Some (True, s)"
| "lmdb_read_loop mdb txn read_f cur_d (Suc len) (Some (key, val)) s =
     (if key \<noteq> cur_d then Some (False, s)
      else case read_f cur_d val s of
        None \<Rightarrow> None
      | Some (False, s) \<Rightarrow> Some (False, s)
      | Some (True, s) \<Rightarrow>
          (case cursor_next mdb txn key of
             Inl _ \<Rightarrow> Some (False, s)
           | Inr cur \<Rightarrow> lmdb_read_loop mdb txn read_f (cur_d + 1) len cur s))"

definition u3_lmdb_read ::
  "'b mdb \<Rightarrow> 'b \<Rightarrow> nat \<Rightarrow> nat \<Rightarrow> (nat \<Rightarrow> byte list \<Rightarrow> 's \<Rightarrow> (bool \<times> 's) option) \<Rightarrow> 's \<Rightarrow> (bool \<times> 's) option" where
  "u3_lmdb_read mdb env eve_d len_d read_f s =
     (case Option.bind (txn_begin mdb env) (dbi_open mdb) of
        None \<Rightarrow> Some (False, s)
      | Some txn \<Rightarrow>
          if cursor_open mdb txn then
            case cursor_set mdb txn eve_d of
              None \<Rightarrow> Some (False, s)
            | Some val \<Rightarrow> lmdb_read_loop mdb txn read_f eve_d len_d (Some (eve_d, val)) s
          else Some (False, s))"

fun lmdb_put_loop :: "'b mdb \<Rightarrow> 'b \<Rightarrow> nat \<Rightarrow> byte list list \<Rightarrow> 'b option" where
  "lmdb_put_loop mdb txn key_d [] = Some txn"
| "lmdb_put_loop mdb txn key_d (byt # byts) = Option.bind (mdb_put mdb txn key_d byt) (\<lambda>txn. lmdb_put_loop mdb txn (key_d + 1) byts)"

text \<open>A transaction that is not committed leaves the database as it was.\<close>

definition u3_lmdb_save :: "'b mdb \<Rightarrow> 'b \<Rightarrow> nat \<Rightarrow> byte list list \<Rightarrow> bool \<times> 'b" where
  "u3_lmdb_save mdb env eve_d byts =
     (case do {
        txn \<leftarrow> txn_begin mdb env;
        txn \<leftarrow> dbi_open mdb txn;
        txn \<leftarrow> lmdb_put_loop mdb txn eve_d byts;
        txn_commit mdb env txn
      } of None \<Rightarrow> (False, env) | Some env \<Rightarrow> (True, env))"

section \<open>State\<close>

record u3_fact =
  fact_eve_d :: nat
  fact_mug_l :: u32
  fact_job :: noun

definition u3_fact_init :: "nat \<Rightarrow> u32 \<Rightarrow> noun \<Rightarrow> u3_fact" where
  "u3_fact_init eve_d mug_l job = \<lparr>fact_eve_d = eve_d, fact_mug_l = mug_l, fact_job = job\<rparr>"

record cd_save =
  save_eve_d :: nat
  save_len_d :: nat
  save_byt_y :: "byte list list"

text \<open>\<open>ted_u\<close> is the batch that the write thread works on, if it is active (\<^verbatim>\<open>ted_o\<close>).\<close>

record 'b u3_disk =
  log_sen_d :: nat
  log_dun_d :: nat
  log_ted_u :: "cd_save option"
  log_put_u :: "u3_fact list"
  log_mdb_u :: 'b

record serial =
  jam_f :: "noun \<Rightarrow> nat"
  cue_f :: "nat \<Rightarrow> noun option"

section \<open>Writing\<close>

definition disk_serialize_v1 :: "serial \<Rightarrow> u3_fact \<Rightarrow> byte list" where
  "disk_serialize_v1 ser tac =
     (let mat = jam_f ser (fact_job tac); mug_l = fact_mug_l tac
      in [ucast (mug_l AND 0xff), ucast (drop_bit 8 mug_l AND 0xff), ucast (drop_bit 16 mug_l AND 0xff), ucast (drop_bit 24 mug_l AND 0xff)] @
         nat_bytes mat)"

fun disk_batch_loop :: "serial \<Rightarrow> nat \<Rightarrow> nat \<Rightarrow> u3_fact list \<Rightarrow> byte list list option" where
  "disk_batch_loop ser eve_d 0 tacs = Some []"
| "disk_batch_loop ser eve_d (Suc len) [] = None"
| "disk_batch_loop ser eve_d (Suc len) (tac # tacs) =
     (if eve_d \<noteq> fact_eve_d tac then None
      else map_option ((#) (disk_serialize_v1 ser tac)) (disk_batch_loop ser (eve_d + 1) len tacs))"

definition disk_batch :: "serial \<Rightarrow> 'b u3_disk \<Rightarrow> nat \<Rightarrow> cd_save option" where
  "disk_batch ser log len_d =
     (case log_put_u log of
        [] \<Rightarrow> None
      | tac # tacs \<Rightarrow>
          if 1 + log_dun_d log \<noteq> fact_eve_d tac \<or> log_sen_d log \<noteq> fact_eve_d (last (tac # tacs)) then None
          else map_option (\<lambda>byt. \<lparr>save_eve_d = fact_eve_d tac, save_len_d = len_d, save_byt_y = byt\<rparr>)
                 (disk_batch_loop ser (fact_eve_d tac) len_d (tac # tacs)))"

definition disk_commit_start :: "cd_save \<Rightarrow> 'b u3_disk \<Rightarrow> 'b u3_disk option" where
  "disk_commit_start req log = (if log_ted_u log \<noteq> None then None else Some (log\<lparr>log_ted_u := Some req\<rparr>))"

definition disk_commit :: "serial \<Rightarrow> 'b u3_disk \<Rightarrow> 'b u3_disk option" where
  "disk_commit ser log =
     (if log_ted_u log = None \<and> log_dun_d log < log_sen_d log then do {
        req \<leftarrow> disk_batch ser log (log_sen_d log - log_dun_d log);
        disk_commit_start req log
      }
      else Some log)"

definition u3_disk_plan :: "serial \<Rightarrow> u3_fact \<Rightarrow> 'b u3_disk \<Rightarrow> 'b u3_disk option" where
  "u3_disk_plan ser tac log =
     (if 1 + log_sen_d log \<noteq> fact_eve_d tac then None
      else disk_commit ser (log\<lparr>log_sen_d := log_sen_d log + 1, log_put_u := log_put_u log @ [tac]\<rparr>))"

definition u3_disk_boot_plan :: "noun \<Rightarrow> 'b u3_disk \<Rightarrow> 'b u3_disk option" where
  "u3_disk_boot_plan job log =
     (let log = log\<lparr>log_sen_d := log_sen_d log + 1\<rparr>; tac = u3_fact_init (log_sen_d log) 0 job
      in if log_put_u log = [] \<and> log_sen_d log \<noteq> 1 then None
         else Some (log\<lparr>log_put_u := log_put_u log @ [tac]\<rparr>))"

definition u3_disk_boot_save :: "serial \<Rightarrow> 'b u3_disk \<Rightarrow> 'b u3_disk option" where
  "u3_disk_boot_save ser log = (if log_dun_d log \<noteq> 0 then None else disk_commit ser log)"

text \<open>The write thread: the result of the save, with the database after it.\<close>

definition disk_commit_cb :: "'b mdb \<Rightarrow> cd_save \<Rightarrow> 'b u3_disk \<Rightarrow> bool \<times> 'b u3_disk" where
  "disk_commit_cb mdb req log =
     (case u3_lmdb_save mdb (log_mdb_u log) (save_eve_d req) (save_byt_y req) of (ret_o, env) \<Rightarrow> (ret_o, log\<lparr>log_mdb_u := env\<rparr>))"

text \<open>
  The end of a write on the main thread: the last committed event is set, the callback of the pier runs, and the committed
  facts leave the queue. The handler as a whole is \<open>disk_commit_done\<close> in \<^verbatim>\<open>Pier_Life\<close>, which knows the callbacks.
\<close>

definition disk_clean :: "'b u3_disk \<Rightarrow> 'b u3_disk" where
  "disk_clean log = log\<lparr>log_put_u := dropWhile (\<lambda>tac. fact_eve_d tac \<le> log_dun_d log) (log_put_u log)\<rparr>"

definition disk_written :: "cd_save \<Rightarrow> 'b u3_disk \<Rightarrow> 'b u3_disk" where
  "disk_written req log = log\<lparr>log_dun_d := save_eve_d req + (save_len_d req - 1)\<rparr>"

definition u3_disk_init :: "'b mdb \<Rightarrow> 'b \<Rightarrow> 'b u3_disk option" where
  "u3_disk_init mdb env =
     map_option (\<lambda>(fir_d, dun_d). \<lparr>log_sen_d = dun_d, log_dun_d = dun_d, log_ted_u = None, log_put_u = [], log_mdb_u = env\<rparr>)
       (u3_lmdb_gulf mdb env)"

section \<open>Reading\<close>

record u3_read =
  red_eve_d :: nat
  red_len_d :: nat
  red_tac_u :: "u3_fact list"

definition disk_read_mug :: "byte list \<Rightarrow> u32" where
  "disk_read_mug dat = ucast (dat ! 0) XOR push_bit 8 (ucast (dat ! 1)) XOR push_bit 16 (ucast (dat ! 2)) XOR push_bit 24 (ucast (dat ! 3))"

text \<open>An event that cannot be deserialized bails (\<open>None\<close>).\<close>

definition disk_read_one_cb :: "serial \<Rightarrow> nat \<Rightarrow> byte list \<Rightarrow> u3_read \<Rightarrow> (bool \<times> u3_read) option" where
  "disk_read_one_cb ser eve_d val red =
     (if length val \<le> 4 then Some (False, red)
      else do {
        job \<leftarrow> cue_f ser (bytes_val (length val - 4) (drop 4 val));
        let tac = u3_fact_init eve_d (disk_read_mug val) job;
        if (case red_tac_u red of [] \<Rightarrow> red_eve_d red \<noteq> eve_d | tacs \<Rightarrow> 1 + fact_eve_d (last tacs) \<noteq> eve_d) then None
        else Some (True, red\<lparr>red_tac_u := red_tac_u red @ [tac]\<rparr>)
      })"

text \<open>The read as a whole: the facts that the callback gets, or \<open>None\<close> within \<open>Some\<close> for \<open>read_bail_f\<close>.\<close>

definition u3_disk_read :: "serial \<Rightarrow> 'b mdb \<Rightarrow> 'b u3_disk \<Rightarrow> nat \<Rightarrow> nat \<Rightarrow> u3_fact list option option" where
  "u3_disk_read ser mdb log eve_d len_d =
     (case u3_lmdb_read mdb (log_mdb_u log) eve_d len_d (disk_read_one_cb ser) \<lparr>red_eve_d = eve_d, red_len_d = len_d, red_tac_u = []\<rparr> of
        None \<Rightarrow> None
      | Some (False, red) \<Rightarrow> Some None
      | Some (True, red) \<Rightarrow> if red_tac_u red = [] then None else Some (Some (red_tac_u red)))"

end
