(* ===== verification/Lord.thy ===== *)
theory Lord
  imports Serf Disk Auto
begin

text \<open>
  The king's controller of the worker process, \<^verbatim>\<open>pkg/vere/lord.c\<close>: the queue of commands (\<^verbatim>\<open>u3_writ\<close>) that wait for an
  answer, the messages they become, and the handlers of the answers. The linked queue is a list with the exit first;
  \<open>dep_w\<close> counts it. A handler ends by calling back into the pier, so that its result is the changed controller and
  the calls, in order; \<open>None\<close> is a failed assertion or an access through a null pointer. The pipe to the worker carries
  nouns: their encoding and framing are in \<^verbatim>\<open>newt.c\<close> and \<^verbatim>\<open>serial.c\<close>.
\<close>

section \<open>State\<close>

record u3_gift =
  gif_eve_d :: nat
  gif_act :: noun

definition u3_gift_init :: "nat \<Rightarrow> noun \<Rightarrow> u3_gift" where
  "u3_gift_init eve_d act = \<lparr>gif_eve_d = eve_d, gif_act = act\<rparr>"

text \<open>A request to read the namespace, with its callback: that of a client, or the one for the command line.\<close>

datatype peek_cb = Peek_f nat | Scry_done

datatype pico_type = u3_pico_full noun | u3_pico_once nat noun noun

record u3_pico =
  pic_fun_f :: peek_cb
  pic_gan :: noun
  pic_typ_e :: pico_type

record u3_peek =
  pek_fun_f :: peek_cb
  pek_once :: bool
  pek_sam :: noun

datatype u3_writ =
    u3_writ_work addr noun
  | u3_writ_peek u3_peek
  | u3_writ_play "u3_fact list"
  | u3_writ_save
  | u3_writ_cram
  | u3_writ_meld
  | u3_writ_pack
  | u3_writ_exit

text \<open>
  \<open>wyrd\<close> is whether the callbacks for work are those of the version negotiation, \<open>inn_u\<close> the messages sent to the worker
  that it has not read, \<open>noop\<close> whether errors of the pipes are ignored since the worker was told to exit.
\<close>

record u3_lord =
  god_liv_o :: bool
  god_hon_y :: nat
  god_noc_y :: nat
  god_eve_d :: nat
  god_mug_l :: u32
  god_wyrd :: bool
  god_pin_o :: bool
  god_dep_w :: nat
  god_wit_u :: "u3_writ list"
  god_inn_u :: "noun list"
  god_noop :: bool

definition u3_lord_init :: u3_lord where
  "u3_lord_init =
     \<lparr>god_liv_o = False, god_hon_y = 0, god_noc_y = 0, god_eve_d = 0, god_mug_l = 0, god_wyrd = False, god_pin_o = False, god_dep_w = 0,
      god_wit_u = [], god_inn_u = [], god_noop = False\<rparr>"

section \<open>Sending\<close>

text \<open>The jobs of a batch are consed in reverse and flopped, \<open>egg_w\<close> is the time limit of an event.\<close>

fun facts_noun :: "u3_fact list \<Rightarrow> noun" where
  "facts_noun [] = u3_nul"
| "facts_noun (tac # tacs) = u3nc (fact_job tac) (facts_noun tacs)"

definition lord_writ_make :: "(addr \<Rightarrow> u32) \<Rightarrow> u3_lord \<Rightarrow> u3_writ \<Rightarrow> noun option" where
  "lord_writ_make mil_w god wit =
     (case wit of
        u3_writ_work egg_u job \<Rightarrow> Some (u3nt c3__work (Atom (unat (mil_w egg_u))) job)
      | u3_writ_peek pek \<Rightarrow> Some (u3nc c3__peek (u3nc (Atom 0) (pek_sam pek)))
      | u3_writ_play tacs \<Rightarrow> (case tacs of [] \<Rightarrow> None | tac # _ \<Rightarrow> Some (u3nt c3__play (Atom (fact_eve_d tac)) (facts_noun tacs)))
      | u3_writ_save \<Rightarrow> Some (u3nt c3__live c3__save (Atom (god_eve_d god)))
      | u3_writ_cram \<Rightarrow> Some (u3nt c3__live c3__cram (Atom (god_eve_d god)))
      | u3_writ_meld \<Rightarrow> Some (u3nt c3__live c3__meld u3_nul)
      | u3_writ_pack \<Rightarrow> Some (u3nt c3__live c3__pack u3_nul)
      | u3_writ_exit \<Rightarrow> Some (u3nt c3__live c3__exit (Atom 0)))"

definition lord_writ_send :: "(addr \<Rightarrow> u32) \<Rightarrow> u3_writ \<Rightarrow> u3_lord \<Rightarrow> u3_lord option" where
  "lord_writ_send mil_w wit god =
     map_option (\<lambda>jar. god\<lparr>god_noop := (god_noop god \<or> wit = u3_writ_exit), god_inn_u := god_inn_u god @ [jar]\<rparr>) (lord_writ_make mil_w god wit)"

definition lord_writ_plan :: "(addr \<Rightarrow> u32) \<Rightarrow> u3_writ \<Rightarrow> u3_lord \<Rightarrow> u3_lord option" where
  "lord_writ_plan mil_w wit god =
     (if god_wit_u god = [] then
        if god_dep_w god \<noteq> 0 then None
        else lord_writ_send mil_w wit (god\<lparr>god_dep_w := 1, god_wit_u := [wit]\<rparr>)
      else lord_writ_send mil_w wit (god\<lparr>god_dep_w := god_dep_w god + 1, god_wit_u := god_wit_u god @ [wit]\<rparr>))"

text \<open>Commands other than work do not read the time limit of an event.\<close>

definition lord_plan :: "u3_writ \<Rightarrow> u3_lord \<Rightarrow> u3_lord option" where
  "lord_plan = lord_writ_plan (\<lambda>_. 0)"

definition u3_lord_peek :: "u3_pico \<Rightarrow> u3_lord \<Rightarrow> u3_lord option" where
  "u3_lord_peek pic god =
     (let sam = (case pic_typ_e pic of
          u3_pico_full ful \<Rightarrow> ful
        | u3_pico_once car_m des pax \<Rightarrow> u3nc (Atom 1) (u3nc (Atom 0x65636e6f) (u3nt (Atom car_m) des pax)));
          once = (case pic_typ_e pic of u3_pico_full _ \<Rightarrow> False | u3_pico_once _ _ _ \<Rightarrow> True)
      in lord_plan (u3_writ_peek \<lparr>pek_fun_f = pic_fun_f pic, pek_once = once, pek_sam = u3nc (pic_gan pic) sam\<rparr>) god)"

definition u3_lord_play :: "u3_fact list \<Rightarrow> u3_lord \<Rightarrow> u3_lord option" where
  "u3_lord_play tacs = lord_plan (u3_writ_play tacs)"

text \<open>The calls that a handler makes: \<open>spin\<close> with the event whose label the spinner shows.\<close>

datatype lord_call =
    Cb_live
  | Cb_spin addr
  | Cb_spun
  | Cb_slog nat noun
  | Cb_flog noun
  | Cb_peek_fail noun
  | Cb_peek peek_cb noun
  | Cb_play_done "u3_fact list" nat
  | Cb_play_bail "u3_fact list" nat nat noun
  | Cb_work_done addr u3_fact u3_gift
  | Cb_work_bail addr noun
  | Cb_save
  | Cb_cram
  | Cb_egg_free addr
  | Cb_halt
  | Cb_bail

text \<open>Work starts the spinner, if it is not spinning.\<close>

definition u3_lord_work :: "u32 \<Rightarrow> addr \<Rightarrow> noun \<Rightarrow> u3_lord \<Rightarrow> (lord_call list \<times> u3_lord) option" where
  "u3_lord_work mil_w egg_u job god =
     map_option (Pair (if god_pin_o god then [] else [Cb_spin egg_u]))
       (lord_writ_plan (\<lambda>_. mil_w) (u3_writ_work egg_u job) (god\<lparr>god_pin_o := True\<rparr>))"

definition u3_lord_save :: "u3_lord \<Rightarrow> u3_lord option" where
  "u3_lord_save god = (if god_dep_w god \<noteq> 0 then Some god else lord_plan u3_writ_save god)"

definition u3_lord_cram :: "u3_lord \<Rightarrow> u3_lord option" where
  "u3_lord_cram god = (if god_dep_w god \<noteq> 0 then Some god else lord_plan u3_writ_cram god)"

definition u3_lord_meld :: "u3_lord \<Rightarrow> u3_lord option" where
  "u3_lord_meld = lord_plan u3_writ_meld"

definition u3_lord_pack :: "u3_lord \<Rightarrow> u3_lord option" where
  "u3_lord_pack = lord_plan u3_writ_pack"

definition u3_lord_exit :: "u3_lord \<Rightarrow> u3_lord option" where
  "u3_lord_exit = lord_plan u3_writ_exit"

section \<open>Answers\<close>

text \<open>A handler's result.\<close>

type_synonym heard = "(lord_call list \<times> u3_lord) option"

text \<open>\<^verbatim>\<open>_lord_bail\<close> stops the worker and calls back; what it does with the outstanding commands is in the pier.\<close>

definition lord_bail :: "u3_lord \<Rightarrow> heard" where
  "lord_bail god = Some ([Cb_halt, Cb_bail], god)"

definition lord_plea_foul :: "u3_lord \<Rightarrow> heard" where
  "lord_plea_foul god = lord_bail god"

definition lord_writ_pop :: "u3_lord \<Rightarrow> (u3_writ \<times> u3_lord) option" where
  "lord_writ_pop god =
     (case god_wit_u god of [] \<Rightarrow> None | wit # wits \<Rightarrow> Some (wit, god\<lparr>god_wit_u := wits, god_dep_w := god_dep_w god - 1\<rparr>))"

definition lord_plea_live :: "noun \<Rightarrow> u3_lord \<Rightarrow> heard" where
  "lord_plea_live dat god = do {
     (wit, god) \<leftarrow> lord_writ_pop god;
     if dat \<noteq> u3_nul then lord_plea_foul god
     else case wit of
       u3_writ_save \<Rightarrow> Some ([Cb_save], god)
     | u3_writ_cram \<Rightarrow> Some ([Cb_cram], god)
     | u3_writ_meld \<Rightarrow> Some ([], god)
     | u3_writ_pack \<Rightarrow> Some ([], god)
     | _ \<Rightarrow> lord_plea_foul god
   }"

definition lord_plea_ripe :: "noun \<Rightarrow> u3_lord \<Rightarrow> heard" where
  "lord_plea_ripe dat god =
     (if god_liv_o god then lord_bail god
      else case (do {
          (ver, eve, mug) \<leftarrow> u3r_trel dat;
          (pro, hon, noc) \<leftarrow> u3r_trel ver;
          pro_y \<leftarrow> u3r_safe_byte pro;
          hon_y \<leftarrow> u3r_safe_byte hon;
          noc_y \<leftarrow> u3r_safe_byte noc;
          eve_d \<leftarrow> u3r_safe_chub eve;
          mug_l \<leftarrow> u3r_safe_word mug;
          Some (pro_y, hon_y, noc_y, eve_d, mug_l)
        }) of
          None \<Rightarrow> lord_plea_foul god
        | Some (pro_y, hon_y, noc_y, eve_d, mug_l) \<Rightarrow>
            if pro_y \<noteq> 1 then lord_bail god
            else Some ([Cb_live], god\<lparr>god_eve_d := eve_d, god_mug_l := of_nat mug_l, god_hon_y := hon_y, god_noc_y := noc_y, god_liv_o := True\<rparr>))"

definition lord_plea_slog :: "noun \<Rightarrow> u3_lord \<Rightarrow> heard" where
  "lord_plea_slog dat god =
     (case (do { (pri, tan) \<leftarrow> u3r_cell dat; pri_w \<leftarrow> u3r_safe_word pri; Some (pri_w, tan) }) of
        None \<Rightarrow> lord_plea_foul god
      | Some (pri_w, tan) \<Rightarrow> Some ([Cb_slog pri_w tan], god))"

definition lord_plea_flog :: "noun \<Rightarrow> u3_lord \<Rightarrow> heard" where
  "lord_plea_flog dat god = (if u3a_is_cell dat then lord_plea_foul god else Some ([Cb_flog dat], god))"

text \<open>The product of a scry of the latest revision loses its \<^verbatim>\<open>%omen\<close>; \<^verbatim>\<open>u3t\<close> of an atom bails.\<close>

definition lord_plea_peek_done :: "u3_peek \<Rightarrow> noun \<Rightarrow> u3_lord \<Rightarrow> heard" where
  "lord_plea_peek_done pek rep god =
     (if pek_once pek \<and> rep \<noteq> u3_nul then
        case u3t rep of
          Inl _ \<Rightarrow> None
        | Inr tel \<Rightarrow>
            Some ([Cb_peek (pek_fun_f pek)
              (case u3r_trel tel of Some (omen, _, dat) \<Rightarrow> if omen = Atom 0x6e656d6f then u3nc u3_nul dat else rep | None \<Rightarrow> rep)], god)
      else Some ([Cb_peek (pek_fun_f pek) rep], god))"

definition lord_plea_peek_bail :: "u3_peek \<Rightarrow> noun \<Rightarrow> u3_lord \<Rightarrow> heard" where
  "lord_plea_peek_bail pek dud god = Some ([Cb_peek_fail dud, Cb_peek (pek_fun_f pek) u3_nul], god)"

text \<open>A command of another type than the answer bails in \<^verbatim>\<open>_lord_writ_need\<close>, and the caller reads through the null pointer.\<close>

definition lord_plea_peek :: "noun \<Rightarrow> u3_lord \<Rightarrow> heard" where
  "lord_plea_peek dat god = do {
     (wit, god) \<leftarrow> lord_writ_pop god;
     case wit of
       u3_writ_peek pek \<Rightarrow>
         (case dat of
            Atom _ \<Rightarrow> lord_plea_foul god
          | Cell tag dat \<Rightarrow>
              if tag = c3__done then lord_plea_peek_done pek dat god
              else if tag = c3__bail then lord_plea_peek_bail pek dat god
              else lord_plea_foul god)
     | _ \<Rightarrow> None
   }"

definition lord_plea_play_bail :: "u3_fact list \<Rightarrow> noun \<Rightarrow> u3_lord \<Rightarrow> heard" where
  "lord_plea_play_bail tacs dat god =
     (case (do {
          (eve, mug, dud) \<leftarrow> u3r_trel dat;
          eve_d \<leftarrow> u3r_safe_chub eve;
          mug_l \<leftarrow> u3r_safe_word mug;
          if u3a_is_cell dud then Some (eve_d, mug_l, dud) else None
        }) of
        None \<Rightarrow> lord_plea_foul god
      | Some (eve_d, mug_l, dud) \<Rightarrow>
          Some ([Cb_play_bail tacs mug_l eve_d dud], god\<lparr>god_eve_d := unat (of_nat eve_d - 1 :: u64), god_mug_l := of_nat mug_l\<rparr>))"

definition lord_plea_play_done :: "u3_fact list \<Rightarrow> noun \<Rightarrow> u3_lord \<Rightarrow> heard" where
  "lord_plea_play_done tacs dat god =
     (case u3r_safe_word dat of
        None \<Rightarrow> lord_plea_foul god
      | Some mug_l \<Rightarrow>
          if tacs = [] then None
          else Some ([Cb_play_done tacs mug_l], god\<lparr>god_eve_d := fact_eve_d (last tacs), god_mug_l := of_nat mug_l\<rparr>))"

definition lord_plea_play :: "noun \<Rightarrow> u3_lord \<Rightarrow> heard" where
  "lord_plea_play dat god = do {
     (wit, god) \<leftarrow> lord_writ_pop god;
     case wit of
       u3_writ_play tacs \<Rightarrow>
         (case dat of
            Atom _ \<Rightarrow> lord_plea_foul god
          | Cell tag dat \<Rightarrow>
              if tag = c3__done then lord_plea_play_done tacs dat god
              else if tag = c3__bail then lord_plea_play_bail tacs dat god
              else lord_plea_foul god)
     | _ \<Rightarrow> None
   }"

text \<open>The spinner stops, and starts again with the next event that waits.\<close>

fun lord_spin_next :: "u3_writ list \<Rightarrow> addr option" where
  "lord_spin_next [] = None"
| "lord_spin_next (u3_writ_work egg_u job # wits) = Some egg_u"
| "lord_spin_next (wit # wits) = lord_spin_next wits"

definition lord_work_spin :: "u3_lord \<Rightarrow> heard" where
  "lord_work_spin god =
     (if \<not> god_pin_o god then None
      else case lord_spin_next (god_wit_u god) of
        None \<Rightarrow> Some ([Cb_spun], god\<lparr>god_pin_o := False\<rparr>)
      | Some egg_u \<Rightarrow> Some ([Cb_spun, Cb_spin egg_u], god\<lparr>god_pin_o := True\<rparr>))"

definition lord_work_done :: "addr \<Rightarrow> nat \<Rightarrow> nat \<Rightarrow> noun \<Rightarrow> noun \<Rightarrow> u3_lord \<Rightarrow> heard" where
  "lord_work_done egg_u eve_d mug_l job act god = do {
     let tac = u3_fact_init eve_d (of_nat mug_l) job;
     let gif = u3_gift_init eve_d act;
     (spin, god) \<leftarrow> lord_work_spin (god\<lparr>god_mug_l := of_nat mug_l, god_eve_d := eve_d\<rparr>);
     Some (spin @ [Cb_work_done egg_u tac gif], god)
   }"

definition lord_plea_work_bail :: "addr \<Rightarrow> noun \<Rightarrow> u3_lord \<Rightarrow> heard" where
  "lord_plea_work_bail egg_u lud god = do {
     (spin, god) \<leftarrow> lord_work_spin god;
     Some (spin @ [Cb_work_bail egg_u lud], god)
   }"

definition lord_work_foul :: "addr \<Rightarrow> u3_lord \<Rightarrow> heard" where
  "lord_work_foul egg_u god = map_option (\<lambda>(cbs, god). (Cb_egg_free egg_u # cbs, god)) (lord_plea_foul god)"

definition lord_plea_work_swap :: "addr \<Rightarrow> noun \<Rightarrow> u3_lord \<Rightarrow> heard" where
  "lord_plea_work_swap egg_u dat god =
     (case (do {
          (eve, mug, job, act) \<leftarrow> u3r_qual dat;
          eve_d \<leftarrow> u3r_safe_chub eve;
          mug_l \<leftarrow> u3r_safe_word mug;
          if u3a_is_cell job then Some (eve_d, mug_l, job, act) else None
        }) of
        None \<Rightarrow> lord_work_foul egg_u god
      | Some (eve_d, mug_l, job, act) \<Rightarrow> lord_work_done egg_u eve_d mug_l job act god)"

definition lord_plea_work_done :: "addr \<Rightarrow> noun \<Rightarrow> noun \<Rightarrow> u3_lord \<Rightarrow> heard" where
  "lord_plea_work_done egg_u job dat god =
     (case (do {
          (eve, mug, act) \<leftarrow> u3r_trel dat;
          eve_d \<leftarrow> u3r_safe_chub eve;
          mug_l \<leftarrow> u3r_safe_word mug;
          Some (eve_d, mug_l, act)
        }) of
        None \<Rightarrow> lord_work_foul egg_u god
      | Some (eve_d, mug_l, act) \<Rightarrow> lord_work_done egg_u eve_d mug_l job act god)"

definition lord_plea_work :: "noun \<Rightarrow> u3_lord \<Rightarrow> heard" where
  "lord_plea_work dat god = do {
     (wit, god) \<leftarrow> lord_writ_pop god;
     case wit of
       u3_writ_work egg_u job \<Rightarrow>
         (case dat of
            Atom _ \<Rightarrow> lord_work_foul egg_u god
          | Cell tag dat \<Rightarrow>
              if tag = c3__done then lord_plea_work_done egg_u job dat god
              else if tag = c3__swap then lord_plea_work_swap egg_u dat god
              else if tag = c3__bail then lord_plea_work_bail egg_u dat god
              else lord_work_foul egg_u god)
     | _ \<Rightarrow> None
   }"

text \<open>A message that cannot be decoded is \<open>None\<close>.\<close>

definition lord_on_plea :: "noun option \<Rightarrow> u3_lord \<Rightarrow> heard" where
  "lord_on_plea jar god =
     (case Option.bind jar u3r_cell of
        None \<Rightarrow> lord_plea_foul god
      | Some (tag, dat) \<Rightarrow>
          if tag = c3__work then lord_plea_work dat god
          else if tag = c3__peek then lord_plea_peek dat god
          else if tag = c3__slog then lord_plea_slog dat god
          else if tag = c3__flog then lord_plea_flog dat god
          else if tag = c3__play then lord_plea_play dat god
          else if tag = c3__live then lord_plea_live dat god
          else if tag = c3__ripe then lord_plea_ripe dat god
          else lord_plea_foul god)"

end
