(* ===== verification/Pier.thy ===== *)
theory Pier
  imports Lord Auto_Queue
begin

text \<open>
  The pier, \<^verbatim>\<open>pkg/vere/pier.c\<close>: the king's state machine for one ship. It replays the event log into the worker, negotiates
  versions with the kernel, then moves events from the drivers to the worker, from the worker to the log, and effects
  from the worker to the drivers once their event is in the log. The handlers of the log's write thread (\<^verbatim>\<open>disk.c\<close>) are
  here as well, since they call back into the pier.

  A result is a sum: the left summand says why the process ends abnormally. Calls to the terminal and to the king are
  entries of a log, as are the effects handed to the drivers. A driver acts on the heap of events only; its requests to
  the pier (a snapshot, a scry, shutdown) are operations of their own.
\<close>

section \<open>Results\<close>

text \<open>
  A failed assertion or a null pointer, a noun of the wrong shape, an access to the log after it was freed, and a failure
  in the drivers, their queues or their callbacks.
\<close>

datatype pier_fail = Assert | Bad_noun | Freed | Driver

definition on_res :: "'e + 'a \<Rightarrow> ('a \<Rightarrow> 'e + 'b) \<Rightarrow> 'e + 'b" where
  "on_res x f = (case x of Inl e \<Rightarrow> Inl e | Inr v \<Rightarrow> f v)"

lemma on_res_simps [simp]: "on_res (Inl e) f = Inl e" "on_res (Inr v) f = f v"
  by (simp_all add: on_res_def)

lemma on_res_cong [fundef_cong]: "x = x' \<Longrightarrow> (\<And>v. x' = Inr v \<Longrightarrow> f v = f' v) \<Longrightarrow> on_res x f = on_res x' f'"
  by (cases x') auto

lemma on_res_eq_Inr: "on_res x f = Inr y \<longleftrightarrow> (\<exists>v. x = Inr v \<and> f v = Inr y)"
  by (cases x) auto

lemma on_res_assoc: "on_res (on_res x f) g = on_res x (\<lambda>v. on_res (f v) g)"
  by (cases x) auto

definition some_or :: "pier_fail \<Rightarrow> 'a option \<Rightarrow> pier_fail + 'a" where
  "some_or e x = (case x of None \<Rightarrow> Inl e | Some v \<Rightarrow> Inr v)"

lemma some_or_simps [simp]: "some_or e None = Inl e" "some_or e (Some v) = Inr v"
  by (simp_all add: some_or_def)

lemma some_or_eq_Inr: "some_or e x = Inr v \<longleftrightarrow> x = Some v"
  by (cases x) auto

section \<open>State\<close>

datatype u3_psat = u3_psat_init | u3_psat_boot | u3_psat_play | u3_psat_wyrd | u3_psat_work | u3_psat_done

datatype wall_cb = pier_save_cb | pier_cram_cb | pier_work_exit_cb

record u3_wall =
  wal_eve_d :: nat
  wal_f :: wall_cb

record u3_work =
  wok_car_u :: "addr option"
  wok_wal_u :: "u3_wall list"
  wok_rel_d :: nat
  wok_fec_u :: "u3_gift list"

record u3_play =
  pay_eve_d :: nat
  pay_req_d :: nat
  pay_sen_d :: nat
  pay_fon_u :: "u3_fact list"

text \<open>The states share one pointer, a union in C.\<close>

datatype pier_union = No_state | Play_state u3_play | Work_state u3_work

datatype pier_call =
    Spinner_start noun bool
  | Spinner_stop
  | Slog_print nat noun
  | Flog_print noun
  | Goof_print noun
  | Host_booted
  | Save_timer bool
  | Peek_call peek_cb noun
  | Scry_print noun
  | Kick u3_gift
  | Lord_halted
  | King_done

text \<open>
  \<open>old_u\<close> is the controller of the worker once the pier has told it to exit and cleared its own pointer, \<open>reads\<close> the
  read requests of the log, \<open>idl_u\<close> whether the idle handler is active.
\<close>

record 'b u3_pier =
  pir_lif_w :: nat
  pir_liv_o :: bool
  pir_log_u :: "'b u3_disk option"
  pir_god_u :: "u3_lord option"
  pir_old_u :: "u3_lord option"
  pir_sat_e :: u3_psat
  pir_uni_u :: pier_union
  pir_pec_u :: "u3_pico list"
  pir_heap :: auto_heap
  pir_reads :: "(nat \<times> nat) list"
  pir_idl_u :: bool
  pir_calls :: "pier_call list"

text \<open>
  What the pier runs in: LMDB, the serialization of events, the drivers' callback for effects and their initialization,
  the time, the addresses that the allocator returns for the driver and the event of the negotiation, the nouns that
  depend on the version, and the options of the command line.
\<close>

record 'b pier_env =
  env_mdb :: "'b mdb"
  env_ser :: serial
  env_kick :: kick
  env_auto :: "auto_heap \<Rightarrow> (addr option \<times> auto_heap) option"
  env_now :: nat
  env_car_a :: addr
  env_egg_a :: addr
  env_sen :: noun
  env_ver :: noun
  env_pex :: "noun option"
  env_pep_o :: bool
  env_til :: "nat option"

type_synonym 'b pier_res = "pier_fail + 'b u3_pier"

definition pier_call :: "pier_call \<Rightarrow> 'b u3_pier \<Rightarrow> 'b u3_pier" where
  "pier_call c p = p\<lparr>pir_calls := pir_calls p @ [c]\<rparr>"

definition on_work :: "(u3_work \<Rightarrow> pier_fail + 'a) \<Rightarrow> 'b u3_pier \<Rightarrow> pier_fail + 'a" where
  "on_work f p = (case pir_uni_u p of Work_state w \<Rightarrow> f w | _ \<Rightarrow> Inl Assert)"

definition on_play :: "(u3_play \<Rightarrow> pier_fail + 'a) \<Rightarrow> 'b u3_pier \<Rightarrow> pier_fail + 'a" where
  "on_play f p = (case pir_uni_u p of Play_state y \<Rightarrow> f y | _ \<Rightarrow> Inl Assert)"

definition on_god :: "(u3_lord \<Rightarrow> pier_fail + 'a) \<Rightarrow> 'b u3_pier \<Rightarrow> pier_fail + 'a" where
  "on_god f p = on_res (some_or Assert (pir_god_u p)) f"

definition on_log :: "('b u3_disk \<Rightarrow> pier_fail + 'a) \<Rightarrow> 'b u3_pier \<Rightarrow> pier_fail + 'a" where
  "on_log f p = on_res (some_or Assert (pir_log_u p)) f"

text \<open>An operation of the controller that makes no calls.\<close>

definition god_do :: "(u3_lord \<Rightarrow> u3_lord option) \<Rightarrow> 'b u3_pier \<Rightarrow> 'b pier_res" where
  "god_do f p = on_god (\<lambda>god. on_res (some_or Assert (f god)) (\<lambda>god. Inr (p\<lparr>pir_god_u := Some god\<rparr>))) p"

definition heap_do :: "(auto_heap \<Rightarrow> auto_heap option) \<Rightarrow> 'b u3_pier \<Rightarrow> 'b pier_res" where
  "heap_do f p = on_res (some_or Driver (f (pir_heap p))) (\<lambda>h. Inr (p\<lparr>pir_heap := h\<rparr>))"

section \<open>Work\<close>

definition pier_peek_next :: "'b u3_pier \<Rightarrow> u3_pico option \<times> 'b u3_pier" where
  "pier_peek_next p = (case pir_pec_u p of [] \<Rightarrow> (None, p) | pic # pics \<Rightarrow> (Some pic, p\<lparr>pir_pec_u := pics\<rparr>))"

definition pier_on_lord_work_spin :: "addr \<Rightarrow> 'b u3_pier \<Rightarrow> 'b pier_res" where
  "pier_on_lord_work_spin egg_u p =
     (if pir_sat_e p \<notin> {u3_psat_wyrd, u3_psat_work, u3_psat_done} then Inl Assert
      else on_res (some_or Driver (eggs (pir_heap p) egg_u)) (\<lambda>e. Inr (pier_call (Spinner_start (egg_lab e) (egg_del_o e)) p)))"

definition pier_on_lord_work_spun :: "'b u3_pier \<Rightarrow> 'b pier_res" where
  "pier_on_lord_work_spun p =
     (if pir_sat_e p \<notin> {u3_psat_wyrd, u3_psat_work, u3_psat_done} then Inl Assert else Inr (pier_call Spinner_stop p))"

text \<open>An event is sent to the worker; the controller may start the spinner.\<close>

definition pier_lord_work :: "addr \<Rightarrow> noun \<Rightarrow> 'b u3_pier \<Rightarrow> 'b pier_res" where
  "pier_lord_work egg_u job p =
     on_res (some_or Driver (eggs (pir_heap p) egg_u)) (\<lambda>e. on_god (\<lambda>god.
       on_res (some_or Assert (u3_lord_work (egg_mil_w e) egg_u job god)) (\<lambda>(cbs, god).
         let p = p\<lparr>pir_god_u := Some god\<rparr> in if cbs = [] then Inr p else pier_on_lord_work_spin egg_u p)) p)"

definition pier_lord_peek :: "u3_pico \<Rightarrow> 'b u3_pier \<Rightarrow> 'b pier_res" where
  "pier_lord_peek pic = god_do (u3_lord_peek pic)"

text \<open>
  The drivers' events, each followed by a scry if one waits and there is room. The next event is taken from the driver of
  the last one on.
\<close>

function work_send_loop :: "nat \<Rightarrow> nat \<Rightarrow> addr option \<Rightarrow> 'b u3_pier \<Rightarrow> pier_fail + nat \<times> 'b u3_pier" where
  "work_send_loop len_w now car_u p =
     (if len_w = 0 \<or> car_u = None then Inr (len_w, p)
      else on_res (some_or Driver (u3_auto_next car_u (pir_heap p))) (\<lambda>(nex, h).
        let p = p\<lparr>pir_heap := h\<rparr>
        in case nex of
             None \<Rightarrow> Inr (len_w, p)
           | Some (egg_u, ovo) \<Rightarrow>
               on_res (pier_lord_work egg_u (u3nc (Atom now) ovo) p) (\<lambda>p. on_res (some_or Driver (eggs (pir_heap p) egg_u)) (\<lambda>e.
                 if 1 < len_w \<and> pir_pec_u p \<noteq> [] then
                   on_res (pier_lord_peek (hd (pir_pec_u p)) (p\<lparr>pir_pec_u := tl (pir_pec_u p)\<rparr>))
                     (\<lambda>p. work_send_loop (len_w - 2) (now + 2 ^ 48) (egg_car_u e) p)
                 else work_send_loop (len_w - 1) (now + 2 ^ 48) (egg_car_u e) p))))"
  by pat_completeness auto
termination
  by (relation "measure (\<lambda>(len_w, now, car_u, p). len_w)") auto

declare work_send_loop.simps [simp del]

fun peek_send_loop :: "nat \<Rightarrow> 'b u3_pier \<Rightarrow> 'b pier_res" where
  "peek_send_loop 0 p = Inr p"
| "peek_send_loop (Suc len_w) p =
     (case pier_peek_next p of
        (None, p) \<Rightarrow> Inr p
      | (Some pic, p) \<Rightarrow> (case pier_lord_peek pic p of Inl e \<Rightarrow> Inl e | Inr p \<Rightarrow> peek_send_loop len_w p))"

text \<open>The room in the batch: up to ten commands, or up to the first barrier.\<close>

definition work_room :: "u3_lord \<Rightarrow> u3_work \<Rightarrow> nat" where
  "work_room god w = (case wok_wal_u w of [] \<Rightarrow> 10 - god_dep_w god | wal # _ \<Rightarrow> wal_eve_d wal - (god_eve_d god + god_dep_w god))"

definition pier_work_send :: "'b pier_env \<Rightarrow> 'b u3_pier \<Rightarrow> 'b pier_res" where
  "pier_work_send env p =
     on_work (\<lambda>w. on_god (\<lambda>god.
       on_res (work_send_loop (work_room god w) (env_now env) (wok_car_u w) p) (\<lambda>(len_w, p). peek_send_loop len_w p)) p) p"

definition pier_gift_plan :: "u3_gift \<Rightarrow> 'b u3_pier \<Rightarrow> 'b pier_res" where
  "pier_gift_plan gif p =
     on_work (\<lambda>w. if gif_eve_d gif \<le> wok_rel_d w then Inl Assert
       else Inr (p\<lparr>pir_uni_u := Work_state (w\<lparr>wok_fec_u := wok_fec_u w @ [gif]\<rparr>)\<rparr>)) p"

definition pier_gift_next :: "'b u3_pier \<Rightarrow> pier_fail + u3_gift option \<times> 'b u3_pier" where
  "pier_gift_next p =
     on_work (\<lambda>w. on_log (\<lambda>log.
       case wok_fec_u w of
         [] \<Rightarrow> Inr (None, p)
       | gif # gifs \<Rightarrow>
           if gif_eve_d gif > log_dun_d log then Inr (None, p)
           else if 1 + wok_rel_d w \<noteq> gif_eve_d gif then Inl Assert
           else Inr (Some gif, p\<lparr>pir_uni_u := Work_state (w\<lparr>wok_fec_u := gifs, wok_rel_d := gif_eve_d gif\<rparr>)\<rparr>)) p) p"

definition fec_length :: "'b u3_pier \<Rightarrow> nat" where
  "fec_length p = (case pir_uni_u p of Work_state w \<Rightarrow> length (wok_fec_u w) | _ \<Rightarrow> 0)"

lemma pier_gift_next_length: "pier_gift_next p = Inr (Some gif, p') \<Longrightarrow> fec_length p = Suc (fec_length p')"
  by (cases "pir_uni_u p"; cases "pir_log_u p") (auto simp: pier_gift_next_def on_work_def on_log_def fec_length_def split: list.splits if_splits)

text \<open>With no drivers (a scry from the command line) there is nobody to take the effects, and the pointer is null.\<close>

definition pier_auto_kick :: "'b pier_env \<Rightarrow> u3_gift \<Rightarrow> 'b u3_pier \<Rightarrow> 'b pier_res" where
  "pier_auto_kick env gif p =
     on_work (\<lambda>w. on_res (some_or Driver (case wok_car_u w of
          None \<Rightarrow> if gif_act gif = u3_nul then Some (pir_heap p) else None
        | Some car_u \<Rightarrow> u3_auto_kick (env_kick env) car_u (gif_act gif) (pir_heap p)))
       (\<lambda>h. Inr (pier_call (Kick gif) (p\<lparr>pir_heap := h\<rparr>)))) p"

lemma pier_auto_kick_length: "pier_auto_kick env gif p = Inr p' \<Longrightarrow> fec_length p' = fec_length p"
  by (auto simp: pier_auto_kick_def on_work_def on_res_eq_Inr fec_length_def pier_call_def split: pier_union.splits)

function pier_gift_kick :: "'b pier_env \<Rightarrow> 'b u3_pier \<Rightarrow> 'b pier_res" where
  "pier_gift_kick env p =
     on_res (pier_gift_next p) (\<lambda>(gif, p).
       case gif of None \<Rightarrow> Inr p | Some gif \<Rightarrow> on_res (pier_auto_kick env gif p) (\<lambda>p. pier_gift_kick env p))"
  by pat_completeness auto
termination
  by (relation "measure (\<lambda>(env, p). fec_length p)") (auto dest!: pier_gift_next_length pier_auto_kick_length)

declare pier_gift_kick.simps [simp del]

section \<open>Shutdown\<close>

text \<open>Insertion into the barriers skips those with the same or a later number.\<close>

definition wall_insert :: "u3_wall \<Rightarrow> u3_wall list \<Rightarrow> u3_wall list" where
  "wall_insert wal wals =
     takeWhile (\<lambda>w. wal_eve_d wal \<le> wal_eve_d w) wals @ wal # dropWhile (\<lambda>w. wal_eve_d wal \<le> wal_eve_d w) wals"

definition pier_wall_plan :: "nat \<Rightarrow> wall_cb \<Rightarrow> 'b u3_pier \<Rightarrow> 'b pier_res" where
  "pier_wall_plan eve_d f p =
     (if pir_sat_e p \<noteq> u3_psat_work then Inl Assert
      else on_work (\<lambda>w. Inr (p\<lparr>pir_uni_u := Work_state (w\<lparr>wok_wal_u := wall_insert \<lparr>wal_eve_d = eve_d, wal_f = f\<rparr> (wok_wal_u w)\<rparr>)\<rparr>)) p)"

definition pier_work_exit :: "'b u3_pier \<Rightarrow> 'b pier_res" where
  "pier_work_exit p =
     on_res (pier_wall_plan 0 pier_save_cb p) (\<lambda>p. on_res (pier_wall_plan 0 pier_work_exit_cb p) (\<lambda>p.
       Inr ((pier_call (Save_timer False) p)\<lparr>pir_sat_e := u3_psat_done\<rparr>)))"

text \<open>The drivers are closed and the waiting effects freed.\<close>

definition pier_work_close :: "'b u3_pier \<Rightarrow> 'b pier_res" where
  "pier_work_close p = on_work (\<lambda>w. heap_do (u3_auto_exit (wok_car_u w)) p) p"

definition pier_done :: "'b u3_pier \<Rightarrow> 'b u3_pier" where
  "pier_done p = pier_call King_done p"

definition pier_exit :: "'b u3_pier \<Rightarrow> 'b pier_res" where
  "pier_exit p =
     (if pir_sat_e p \<noteq> u3_psat_done then Inl Assert
      else let p = p\<lparr>pir_log_u := None, pir_reads := []\<rparr>
       in case pir_god_u p of
            Some god \<Rightarrow> on_res (some_or Assert (u3_lord_exit god)) (\<lambda>god. Inr (p\<lparr>pir_god_u := None, pir_old_u := Some god\<rparr>))
          | None \<Rightarrow> Inr (pier_done p))"

definition u3_pier_exit :: "'b u3_pier \<Rightarrow> 'b pier_res" where
  "u3_pier_exit p =
     (case pir_sat_e p of
        u3_psat_done \<Rightarrow> Inr p
      | u3_psat_work \<Rightarrow> pier_work_exit p
      | u3_psat_wyrd \<Rightarrow> Inl Assert
      | _ \<Rightarrow> pier_exit (p\<lparr>pir_uni_u := No_state, pir_sat_e := u3_psat_done\<rparr>))"

text \<open>Every command that waits is disposed; an event among them is dropped from its driver.\<close>

fun lord_writ_free :: "u3_writ \<Rightarrow> auto_heap \<Rightarrow> auto_heap option" where
  "lord_writ_free (u3_writ_work egg_u job) h = do {
     e \<leftarrow> eggs h egg_u;
     car_u \<leftarrow> egg_car_u e;
     u3_auto_drop car_u egg_u h
   }"
| "lord_writ_free _ h = Some h"

fun lord_stop :: "u3_writ list \<Rightarrow> auto_heap \<Rightarrow> auto_heap option" where
  "lord_stop [] h = Some h"
| "lord_stop (wit # wits) h = Option.bind (lord_writ_free wit h) (lord_stop wits)"

definition u3_lord_halt :: "'b u3_pier \<Rightarrow> 'b pier_res" where
  "u3_lord_halt p = on_god (\<lambda>god. on_res (heap_do (lord_stop (god_wit_u god)) p) (\<lambda>p. Inr ((pier_call Lord_halted p)\<lparr>pir_god_u := None\<rparr>))) p"

definition u3_pier_bail :: "'b u3_pier \<Rightarrow> 'b pier_res" where
  "u3_pier_bail p =
     on_res (if pir_god_u p = None then Inr p else u3_lord_halt p) (\<lambda>p.
     on_res (case pir_uni_u p of
          Work_state w \<Rightarrow> if pir_sat_e p = u3_psat_work then map_sum id (\<lambda>p. p\<lparr>pir_uni_u := No_state\<rparr>) (pier_work_close p) else Inr p
        | _ \<Rightarrow> Inr p) (\<lambda>p.
       Inr (pier_done (p\<lparr>pir_log_u := None, pir_reads := [], pir_sat_e := u3_psat_done\<rparr>))))"

text \<open>
  The callbacks of barriers. After the last, the controller has a command to answer, so that no further barrier is
  reached.
\<close>

definition pier_wall_call :: "wall_cb \<Rightarrow> 'b u3_pier \<Rightarrow> 'b pier_res" where
  "pier_wall_call f p =
     (case f of
        pier_save_cb \<Rightarrow> god_do u3_lord_save p
      | pier_cram_cb \<Rightarrow> god_do u3_lord_cram p
      | pier_work_exit_cb \<Rightarrow> on_res (pier_work_close p) (\<lambda>p. pier_exit (p\<lparr>pir_uni_u := No_state\<rparr>)))"

fun pier_wall_loop :: "u3_wall list \<Rightarrow> 'b u3_pier \<Rightarrow> 'b pier_res" where
  "pier_wall_loop [] p = Inr p"
| "pier_wall_loop (wal # wals) p =
     (case (pir_god_u p, pir_uni_u p) of
        (Some god, Work_state w) \<Rightarrow>
          if god_dep_w god = 0 \<and> wal_eve_d wal \<le> god_eve_d god then
            case pier_wall_call (wal_f wal) (p\<lparr>pir_uni_u := Work_state (w\<lparr>wok_wal_u := wals\<rparr>)\<rparr>) of
              Inl e \<Rightarrow> Inl e
            | Inr p \<Rightarrow> if wal_f wal = pier_work_exit_cb then Inr p else pier_wall_loop wals p
          else Inr p
      | _ \<Rightarrow> Inl Assert)"

definition pier_wall :: "'b u3_pier \<Rightarrow> 'b pier_res" where
  "pier_wall p = on_work (\<lambda>w. on_god (\<lambda>god. on_log (\<lambda>log. if god_eve_d god = log_dun_d log then pier_wall_loop (wok_wal_u w) p else Inr p) p) p) p"

definition pier_work_live :: "'b u3_pier \<Rightarrow> 'b pier_res" where
  "pier_work_live p =
     (if pir_liv_o p then Inr p
      else on_work (\<lambda>w. on_res (some_or Driver (u3_auto_live (wok_car_u w) (pir_heap p))) (\<lambda>liv_o.
        let p = p\<lparr>pir_liv_o := liv_o\<rparr> in Inr (if liv_o then pier_call Host_booted p else p))) p)"

definition pier_work :: "'b pier_env \<Rightarrow> 'b u3_pier \<Rightarrow> 'b pier_res" where
  "pier_work env p =
     on_res (pier_work_live p) (\<lambda>p. on_res (pier_gift_kick env p) (\<lambda>p. on_res (pier_wall p) (\<lambda>p.
       if pir_sat_e p = u3_psat_work then pier_work_send env p
       else if pir_sat_e p = u3_psat_done then Inr p else Inl Assert)))"

definition pier_plan :: "'b pier_env \<Rightarrow> u3_fact \<Rightarrow> 'b u3_pier \<Rightarrow> 'b pier_res" where
  "pier_plan env tac p = on_log (\<lambda>log. on_res (some_or Assert (u3_disk_plan (env_ser env) tac log)) (\<lambda>log. Inr (p\<lparr>pir_log_u := Some log\<rparr>))) p"

definition pier_on_lord_work_done :: "'b pier_env \<Rightarrow> addr \<Rightarrow> u3_fact \<Rightarrow> u3_gift \<Rightarrow> 'b u3_pier \<Rightarrow> 'b pier_res" where
  "pier_on_lord_work_done env egg_u tac gif p =
     (if pir_sat_e p \<notin> {u3_psat_work, u3_psat_done} then Inl Assert
      else on_res (pier_plan env tac p) (\<lambda>p. on_res (heap_do (u3_auto_done egg_u) p) (\<lambda>p.
        on_res (pier_gift_plan gif p) (\<lambda>p. pier_work env p))))"

definition pier_on_lord_work_bail :: "'b pier_env \<Rightarrow> addr \<Rightarrow> noun \<Rightarrow> 'b u3_pier \<Rightarrow> 'b pier_res" where
  "pier_on_lord_work_bail env egg_u lud p =
     (if pir_sat_e p \<notin> {u3_psat_work, u3_psat_done} then Inl Assert
      else on_res (heap_do (u3_auto_bail egg_u lud) p) (\<lambda>p.
        case pir_uni_u p of Work_state w \<Rightarrow> pier_work env p | _ \<Rightarrow> Inr p))"

text \<open>The handlers of the event loop: after polling, and once when idle.\<close>

definition pier_work_afte_cb :: "'b pier_env \<Rightarrow> 'b u3_pier \<Rightarrow> 'b pier_res" where
  "pier_work_afte_cb env p = pier_work env p"

definition pier_work_idle_cb :: "'b pier_env \<Rightarrow> 'b u3_pier \<Rightarrow> 'b pier_res" where
  "pier_work_idle_cb env p = on_res (pier_work env p) (\<lambda>p. Inr (p\<lparr>pir_idl_u := False\<rparr>))"

definition u3_pier_spin :: "'b u3_pier \<Rightarrow> 'b pier_res" where
  "u3_pier_spin p =
     (if pir_sat_e p \<in> {u3_psat_work, u3_psat_done} then on_work (\<lambda>w. Inr (p\<lparr>pir_idl_u := True\<rparr>)) p else Inr p)"

definition pier_peek_plan :: "u3_pico \<Rightarrow> 'b u3_pier \<Rightarrow> 'b pier_res" where
  "pier_peek_plan pic p = u3_pier_spin (p\<lparr>pir_pec_u := pir_pec_u p @ [pic]\<rparr>)"

definition u3_pier_peek :: "noun \<Rightarrow> noun \<Rightarrow> peek_cb \<Rightarrow> 'b u3_pier \<Rightarrow> 'b pier_res" where
  "u3_pier_peek gan ful fun_f = pier_peek_plan \<lparr>pic_fun_f = fun_f, pic_gan = gan, pic_typ_e = u3_pico_full ful\<rparr>"

definition u3_pier_peek_last :: "noun \<Rightarrow> nat \<Rightarrow> noun \<Rightarrow> noun \<Rightarrow> peek_cb \<Rightarrow> 'b u3_pier \<Rightarrow> 'b pier_res" where
  "u3_pier_peek_last gan car_m des pax fun_f = pier_peek_plan \<lparr>pic_fun_f = fun_f, pic_gan = gan, pic_typ_e = u3_pico_once car_m des pax\<rparr>"

text \<open>The product of a scry from the command line is printed or written to a file, and the pier exits.\<close>

definition pier_on_scry_done :: "noun \<Rightarrow> 'b u3_pier \<Rightarrow> 'b pier_res" where
  "pier_on_scry_done nun p = u3_pier_exit (pier_call (Scry_print nun) p)"

definition pier_peek_call :: "peek_cb \<Rightarrow> noun \<Rightarrow> 'b u3_pier \<Rightarrow> 'b pier_res" where
  "pier_peek_call fun_f rep p = (case fun_f of Peek_f n \<Rightarrow> Inr (pier_call (Peek_call fun_f rep) p) | Scry_done \<Rightarrow> pier_on_scry_done rep p)"

definition u3_pier_save :: "'b u3_pier \<Rightarrow> 'b pier_res" where
  "u3_pier_save p =
     (if pir_sat_e p = u3_psat_play then god_do u3_lord_save p
      else if pir_sat_e p = u3_psat_work then pier_wall_plan 0 pier_save_cb p else Inr p)"

definition u3_pier_cram :: "'b u3_pier \<Rightarrow> 'b pier_res" where
  "u3_pier_cram p =
     (if pir_sat_e p = u3_psat_play then god_do u3_lord_cram p
      else if pir_sat_e p = u3_psat_work then pier_wall_plan 0 pier_cram_cb p else Inr p)"

definition u3_pier_meld :: "'b u3_pier \<Rightarrow> 'b pier_res" where
  "u3_pier_meld p = god_do u3_lord_meld p"

definition u3_pier_pack :: "'b u3_pier \<Rightarrow> 'b pier_res" where
  "u3_pier_pack p = god_do u3_lord_pack p"

end
