(* ===== verification/Pier_Life.thy ===== *)
theory Pier_Life
  imports Pier
begin

text \<open>
  The other states of the pier: the negotiation of versions, the replay of the log, the boot sequence, and the handlers
  that the worker's controller and the log call. The last section runs the calls of a handler of \<^verbatim>\<open>lord.c\<close> in order.
\<close>

section \<open>Versions\<close>

fun wyrd_kel :: "noun \<Rightarrow> pier_fail + bool" where
  "wyrd_kel (Atom a) = (if a = 0 then Inr True else Inl Bad_noun)"
| "wyrd_kel (Cell ver kel) =
     (case ver of
        Atom _ \<Rightarrow> Inl Bad_noun
      | Cell nam num \<Rightarrow> if nam = Atom 0x6573757a \<and> num \<noteq> Atom 416 then Inr False else wyrd_kel kel)"

fun pier_wyrd_aver :: "noun \<Rightarrow> pier_fail + bool" where
  "pier_wyrd_aver (Atom a) = (if a = 0 then Inr True else Inl Bad_noun)"
| "pier_wyrd_aver (Cell fec act) =
     (case fec of
        Atom _ \<Rightarrow> Inl Bad_noun
      | Cell tag kel \<Rightarrow>
          if tag = Atom 0x646e6577 then
            (case wyrd_kel kel of Inl e \<Rightarrow> Inl e | Inr ok \<Rightarrow> if ok then pier_wyrd_aver act else Inr False)
          else pier_wyrd_aver act)"

text \<open>The session and the version are nouns that the king's own kernel prints.\<close>

definition pier_wyrd_card :: "'b pier_env \<Rightarrow> noun" where
  "pier_wyrd_card env =
     (let ver = u3nt (Atom 0x65726576) (env_ver env) u3_nul;
          kel = u3nc (u3nc (Atom 0x6573757a) (Atom 416)) (u3nc (u3nc (Atom 0x6c6c756c) (Atom 327)) (u3nc (u3nc c3__arvo (Atom 240))
                (u3nc (u3nc (Atom 0x6e6f6f68) (Atom 140)) (u3nc (u3nc (Atom 0x6b636f6e) (Atom 4)) u3_nul))))
      in u3nt (Atom 0x64727977) (u3nc (env_sen env) ver) kel)"

definition pier_wyrd_init :: "'b pier_env \<Rightarrow> 'b u3_pier \<Rightarrow> 'b pier_res" where
  "pier_wyrd_init env p =
     (let car_u = env_car_a env; egg_u = env_egg_a env;
          car = \<lparr>car_nam_m = 0x64727977, car_liv_o = True, car_dep_w = 0, car_ent_u = None, car_ext_u = None, car_nex_u = None, car_talk_f = None,
                 car_info_f = None, car_slog_f = None, car_kick_f = None, car_exit_f = None\<rparr>;
          p = p\<lparr>pir_sat_e := u3_psat_wyrd, pir_heap := (pir_heap p)\<lparr>cars := (cars (pir_heap p))(car_u \<mapsto> car)\<rparr>\<rparr>
      in on_res (heap_do (u3_ovum_init egg_u 0 (Atom 0) (u3nc c3__arvo u3_nul) (pier_wyrd_card env)) p) (\<lambda>p.
         on_res (heap_do (u3_auto_plan car_u egg_u) p) (\<lambda>p.
         on_res (god_do (\<lambda>god. Some (god\<lparr>god_wyrd := True\<rparr>)) p) (\<lambda>p.
         on_res (some_or Driver (u3_auto_next (Some car_u) (pir_heap p))) (\<lambda>(nex, h).
           case nex of
             None \<Rightarrow> Inl Assert
           | Some (egg, ovo) \<Rightarrow> if egg \<noteq> egg_u then Inl Assert else pier_lord_work egg_u (u3nc (Atom (env_now env)) ovo) (p\<lparr>pir_heap := h\<rparr>))))))"

text \<open>Work begins; the effects up to the last committed event count as released.\<close>

definition pier_work_init :: "'b pier_env \<Rightarrow> 'b u3_pier \<Rightarrow> 'b pier_res" where
  "pier_work_init env p =
     (if pir_sat_e p \<noteq> u3_psat_wyrd then Inl Assert
      else on_log (\<lambda>log.
        let w = \<lparr>wok_car_u = None, wok_wal_u = [], wok_rel_d = log_dun_d log, wok_fec_u = []\<rparr>;
            p = pier_call (Save_timer True) (p\<lparr>pir_sat_e := u3_psat_work, pir_uni_u := Work_state w\<rparr>)
        in on_res (case env_pex env of
               Some pex \<Rightarrow>
                 (case u3r_trel pex of
                    Some (Atom car, dek, pax) \<Rightarrow>
                      if car < 2 ^ 31 then u3_pier_peek_last u3_nul car dek pax Scry_done p else pier_on_scry_done u3_nul p
                  | _ \<Rightarrow> pier_on_scry_done u3_nul p)
             | None \<Rightarrow>
                 on_res (some_or Driver (env_auto env (pir_heap p))) (\<lambda>(car_u, h).
                   heap_do (u3_auto_talk car_u) (p\<lparr>pir_uni_u := Work_state (w\<lparr>wok_car_u := car_u\<rparr>), pir_heap := h\<rparr>)))
             (\<lambda>p. pier_work env p)) p)"

text \<open>The driver and the event of the negotiation are freed.\<close>

definition pier_wyrd_free :: "addr \<Rightarrow> 'b u3_pier \<Rightarrow> 'b pier_res" where
  "pier_wyrd_free egg_u p =
     heap_do (\<lambda>h. do {
       e \<leftarrow> eggs h egg_u;
       car_u \<leftarrow> egg_car_u e;
       h \<leftarrow> u3_auto_done egg_u h;
       Some (h\<lparr>cars := (cars h)(car_u := None)\<rparr>)
     }) p"

definition pier_wyrd_good :: "'b pier_env \<Rightarrow> addr \<Rightarrow> 'b u3_pier \<Rightarrow> 'b pier_res" where
  "pier_wyrd_good env egg_u p =
     on_res (god_do (\<lambda>god. Some (god\<lparr>god_wyrd := False\<rparr>)) p) (\<lambda>p. on_res (pier_work_init env p) (\<lambda>p. pier_wyrd_free egg_u p))"

definition pier_wyrd_fail :: "addr \<Rightarrow> noun \<Rightarrow> 'b u3_pier \<Rightarrow> 'b pier_res" where
  "pier_wyrd_fail egg_u lud p =
     on_res (if lud = u3_nul then Inr p
             else case lud of Atom _ \<Rightarrow> Inl Bad_noun | Cell _ t \<Rightarrow> heap_do (u3_auto_bail_slog egg_u t) p) (\<lambda>p.
     on_res (pier_wyrd_free egg_u p) (\<lambda>p. u3_pier_bail p))"

definition pier_on_lord_wyrd_done :: "'b pier_env \<Rightarrow> addr \<Rightarrow> u3_fact \<Rightarrow> u3_gift \<Rightarrow> 'b u3_pier \<Rightarrow> 'b pier_res" where
  "pier_on_lord_wyrd_done env egg_u tac gif p =
     (if pir_sat_e p \<noteq> u3_psat_wyrd then Inl Assert
      else on_res (pier_wyrd_aver (gif_act gif)) (\<lambda>ok.
        if \<not> ok then pier_wyrd_fail egg_u u3_nul p
        else on_res (pier_plan env tac p) (\<lambda>p. on_res (pier_wyrd_good env egg_u p) (\<lambda>p. pier_gift_plan gif p))))"

definition pier_on_lord_wyrd_bail :: "addr \<Rightarrow> noun \<Rightarrow> 'b u3_pier \<Rightarrow> 'b pier_res" where
  "pier_on_lord_wyrd_bail egg_u lud p = (if pir_sat_e p \<noteq> u3_psat_wyrd then Inl Assert else pier_wyrd_fail egg_u lud p)"

section \<open>Replay\<close>

definition set_play :: "u3_play \<Rightarrow> 'b u3_pier \<Rightarrow> 'b u3_pier" where
  "set_play y p = p\<lparr>pir_uni_u := Play_state y\<rparr>"

definition pier_play_plan :: "u3_fact list \<Rightarrow> u3_play \<Rightarrow> pier_fail + u3_play" where
  "pier_play_plan tacs y =
     (let old_d = (if pay_fon_u y = [] then pay_sen_d y else fact_eve_d (last (pay_fon_u y)))
      in if tacs = [] \<or> 1 + old_d \<noteq> fact_eve_d (hd tacs) then Inl Assert else Inr (y\<lparr>pay_fon_u := pay_fon_u y @ tacs\<rparr>))"

text \<open>The loop steps \<open>len_w\<close> times from the first event, so that the batch has one event more.\<close>

definition pier_play_next :: "nat \<Rightarrow> u3_play \<Rightarrow> u3_fact list \<times> u3_play" where
  "pier_play_next len_w y = (take (Suc len_w) (pay_fon_u y), y\<lparr>pay_fon_u := drop (Suc len_w) (pay_fon_u y)\<rparr>)"

definition pier_play_send :: "'b u3_pier \<Rightarrow> 'b pier_res" where
  "pier_play_send p =
     on_play (\<lambda>y.
       if pay_fon_u y = [] then Inr p
       else let len_w = (if pay_sen_d y = 0 then max (pir_lif_w p) 500 else min (pay_eve_d y - pay_sen_d y) 500);
                (fon, y) = pier_play_next len_w y
            in god_do (u3_lord_play fon) (set_play (y\<lparr>pay_sen_d := fact_eve_d (last fon)\<rparr>) p)) p"

definition pier_play_read :: "'b u3_pier \<Rightarrow> 'b pier_res" where
  "pier_play_read p =
     on_play (\<lambda>y.
       let las_d = (if pay_fon_u y = [] then pay_sen_d y else fact_eve_d (last (pay_fon_u y)))
       in if pay_fon_u y \<noteq> [] \<and> 500 \<le> las_d - fact_eve_d (hd (pay_fon_u y)) then Inr p
          else let nex_d = 1 + las_d; len_d = min (pay_eve_d y - las_d) 1000
            in if len_d \<noteq> 0 \<and> pay_req_d y < nex_d then Inr (set_play (y\<lparr>pay_req_d := nex_d\<rparr>) (p\<lparr>pir_reads := (nex_d, len_d) # pir_reads p\<rparr>))
               else Inr p) p"

definition pier_play :: "'b pier_env \<Rightarrow> 'b u3_pier \<Rightarrow> 'b pier_res" where
  "pier_play env p =
     on_play (\<lambda>y. on_god (\<lambda>god. on_log (\<lambda>log.
       if god_eve_d god = pay_eve_d y then
         let p = pier_call Spinner_stop p
         in if pay_eve_d y < log_dun_d log then u3_pier_cram p
            else if pay_eve_d y = log_dun_d log then
              on_res (god_do u3_lord_save p) (\<lambda>p. if env_pep_o env then u3_pier_exit p else pier_wyrd_init env p)
            else Inr p
       else if god_eve_d god < pay_eve_d y then on_res (pier_play_send p) (\<lambda>p. pier_play_read p)
       else Inl Assert) p) p) p"

definition pier_on_lord_play_done :: "'b pier_env \<Rightarrow> u3_fact list \<Rightarrow> nat \<Rightarrow> 'b u3_pier \<Rightarrow> 'b pier_res" where
  "pier_on_lord_play_done env tacs mug_l p = (if pir_sat_e p \<noteq> u3_psat_play \<or> tacs = [] then Inl Assert else pier_play env p)"

text \<open>The events up to the number in the answer are disposed; the next one is reported, and the process ends.\<close>

definition pier_on_lord_play_bail :: "u3_fact list \<Rightarrow> nat \<Rightarrow> nat \<Rightarrow> noun \<Rightarrow> 'b u3_pier \<Rightarrow> 'b pier_res" where
  "pier_on_lord_play_bail tacs mug_l eve_d dud p =
     (if pir_sat_e p \<noteq> u3_psat_play then Inl Assert
      else case dropWhile (\<lambda>tac. fact_eve_d tac \<le> eve_d) tacs of
        [] \<Rightarrow> Inl Assert
      | tac # _ \<Rightarrow> if u3r_qual (fact_job tac) = None then Inl Bad_noun else u3_pier_bail (pier_call (Goof_print dud) p))"

definition pier_play_init :: "'b pier_env \<Rightarrow> nat \<Rightarrow> 'b u3_pier \<Rightarrow> 'b pier_res" where
  "pier_play_init env eve_d p =
     on_god (\<lambda>god. on_log (\<lambda>log.
       if pir_sat_e p \<notin> {u3_psat_init, u3_psat_boot} \<or> \<not> god_eve_d god < eve_d \<or> \<not> eve_d \<le> log_dun_d log then Inl Assert
       else pier_play env (pier_call (Spinner_start c3__play False)
         (set_play \<lparr>pay_eve_d = eve_d, pay_req_d = 0, pay_sen_d = god_eve_d god, pay_fon_u = []\<rparr> (p\<lparr>pir_sat_e := u3_psat_play\<rparr>)))) p) p"

definition pier_on_disk_read_done :: "'b pier_env \<Rightarrow> u3_fact list \<Rightarrow> 'b u3_pier \<Rightarrow> 'b pier_res" where
  "pier_on_disk_read_done env tacs p =
     (if pir_sat_e p \<noteq> u3_psat_play then Inl Assert
      else on_play (\<lambda>y. on_res (pier_play_plan tacs y) (\<lambda>y. pier_play env (set_play y p))) p)"

definition pier_on_disk_read_bail :: "'b u3_pier \<Rightarrow> 'b pier_res" where
  "pier_on_disk_read_bail p = (if pir_sat_e p \<noteq> u3_psat_play then Inl Assert else u3_pier_bail (pier_call Spinner_stop p))"

text \<open>A read of the log, when its turn comes: the timer callbacks of \<^verbatim>\<open>disk.c\<close>.\<close>

definition disk_read_start_cb :: "'b pier_env \<Rightarrow> nat \<times> nat \<Rightarrow> 'b u3_pier \<Rightarrow> 'b pier_res" where
  "disk_read_start_cb env red p =
     on_log (\<lambda>log. on_res (some_or Assert (u3_disk_read (env_ser env) (env_mdb env) log (fst red) (snd red))) (\<lambda>got.
       let p = p\<lparr>pir_reads := remove1 red (pir_reads p)\<rparr>
       in case got of None \<Rightarrow> pier_on_disk_read_bail p | Some tacs \<Rightarrow> pier_on_disk_read_done env tacs p)) p"

section \<open>The log\<close>

definition pier_on_disk_write_done :: "'b pier_env \<Rightarrow> 'b u3_pier \<Rightarrow> 'b pier_res" where
  "pier_on_disk_write_done env p =
     (if pir_sat_e p = u3_psat_boot then
        on_god (\<lambda>god. on_log (\<lambda>log. if god_liv_o god then pier_play_init env (log_dun_d log) p else Inr p) p) p
      else if pir_sat_e p \<notin> {u3_psat_work, u3_psat_done} then Inl Assert
      else pier_work env p)"

definition pier_on_disk_write_bail :: "'b u3_pier \<Rightarrow> 'b pier_res" where
  "pier_on_disk_write_bail p = u3_pier_bail p"

text \<open>The queue of the log is cleaned after the callbacks; the log may be gone by then.\<close>

definition disk_commit_done :: "'b pier_env \<Rightarrow> cd_save \<Rightarrow> bool \<Rightarrow> 'b u3_pier \<Rightarrow> 'b pier_res" where
  "disk_commit_done env req ret_o p =
     on_res (if ret_o then on_log (\<lambda>log. pier_on_disk_write_done env (p\<lparr>pir_log_u := Some (disk_written req log)\<rparr>)) p
             else pier_on_disk_write_bail p) (\<lambda>p.
     on_res (some_or Freed (pir_log_u p)) (\<lambda>log.
     on_res (some_or Assert (disk_commit (env_ser env) (disk_clean log))) (\<lambda>log. Inr (p\<lparr>pir_log_u := Some log\<rparr>))))"

text \<open>The write thread has saved its batch, or failed to; the main thread finishes.\<close>

definition disk_commit_after_cb :: "'b pier_env \<Rightarrow> 'b u3_pier \<Rightarrow> 'b pier_res" where
  "disk_commit_after_cb env p =
     on_log (\<lambda>log. case log_ted_u log of
         None \<Rightarrow> Inr p
       | Some req \<Rightarrow>
           (case disk_commit_cb (env_mdb env) req log of
              (ret_o, log) \<Rightarrow> disk_commit_done env req ret_o (p\<lparr>pir_log_u := Some (log\<lparr>log_ted_u := None\<rparr>)\<rparr>))) p"

section \<open>Boot\<close>

fun boot_formulas :: "noun \<Rightarrow> 'b u3_disk \<Rightarrow> pier_fail + 'b u3_disk" where
  "boot_formulas (Atom a) log = (if a = 0 then Inr log else Inl Bad_noun)"
| "boot_formulas (Cell job fol) log = (case u3_disk_boot_plan job log of None \<Rightarrow> Inl Assert | Some log \<Rightarrow> boot_formulas fol log)"

fun boot_ova :: "nat \<Rightarrow> noun \<Rightarrow> 'b u3_disk \<Rightarrow> pier_fail + nat \<times> 'b u3_disk" where
  "boot_ova now (Atom a) log = (if a = 0 then Inr (now, log) else Inl Bad_noun)"
| "boot_ova now (Cell ovo ova) log =
     (case u3_disk_boot_plan (u3nc (Atom now) ovo) log of None \<Rightarrow> Inl Assert | Some log \<Rightarrow> boot_ova (now + 2 ^ 48) ova log)"

text \<open>
  The boot sequence: the formulas, then the events of the modules and of userspace, dated. \<open>meta_o\<close> is whether the metadata
  is saved. The sequence itself, which \<^verbatim>\<open>_pier_boot_make\<close> assembles from the pill, is an argument; the identity of the ship
  that the metadata records is left out.
\<close>

definition pier_boot_plan :: "'b pier_env \<Rightarrow> bool \<Rightarrow> noun \<Rightarrow> noun \<Rightarrow> noun \<Rightarrow> 'b u3_pier \<Rightarrow> pier_fail + bool \<times> 'b u3_pier" where
  "pier_boot_plan env meta_o fols mods uses p =
     (case lent fols of
        Inl _ \<Rightarrow> Inl Bad_noun
      | Inr (Cell _ _) \<Rightarrow> Inl Bad_noun
      | Inr (Atom lif_w) \<Rightarrow>
          let p = p\<lparr>pir_sat_e := u3_psat_boot, pir_lif_w := lif_w\<rparr>
          in if \<not> meta_o then Inr (False, p)
             else on_log (\<lambda>log. on_res (boot_formulas fols log) (\<lambda>log. on_res (boot_ova (env_now env) mods log) (\<lambda>(now, log).
               on_res (boot_ova now uses log) (\<lambda>(now, log). on_res (some_or Assert (u3_disk_boot_save (env_ser env) log)) (\<lambda>log.
                 Inr (True, p\<lparr>pir_log_u := Some log\<rparr>)))))) p)"

section \<open>The worker's answers\<close>

definition pier_on_lord_live :: "'b pier_env \<Rightarrow> 'b u3_pier \<Rightarrow> 'b pier_res" where
  "pier_on_lord_live env p =
     on_god (\<lambda>god. on_log (\<lambda>log.
       if log_dun_d log < god_eve_d god then Inl Assert
       else if pir_sat_e p = u3_psat_boot then
         if log_sen_d log \<noteq> 0 \<and> log_sen_d log = log_dun_d log then pier_play_init env (log_dun_d log) p else Inr p
       else if pir_sat_e p \<noteq> u3_psat_init \<or> log_sen_d log \<noteq> log_dun_d log then Inl Assert
       else if god_eve_d god < log_dun_d log then
         pier_play_init env (case env_til env of Some eve_d \<Rightarrow> eve_d | None \<Rightarrow> log_dun_d log) p
       else if env_pep_o env then u3_pier_exit p
       else pier_wyrd_init env p) p) p"

definition pier_on_lord_slog :: "nat \<Rightarrow> noun \<Rightarrow> 'b u3_pier \<Rightarrow> 'b pier_res" where
  "pier_on_lord_slog pri_w tan p = Inr (pier_call (Slog_print pri_w tan) p)"

definition pier_on_lord_cram :: "'b u3_pier \<Rightarrow> 'b pier_res" where
  "pier_on_lord_cram p = (if pir_sat_e p = u3_psat_play then u3_pier_bail p else Inr p)"

definition pier_on_lord_exit :: "'b u3_pier \<Rightarrow> 'b pier_res" where
  "pier_on_lord_exit p =
     (let p = p\<lparr>pir_god_u := None\<rparr> in if pir_sat_e p \<noteq> u3_psat_done then u3_pier_bail p else Inr (pier_done p))"

definition pier_on_lord_bail :: "'b u3_pier \<Rightarrow> 'b pier_res" where
  "pier_on_lord_bail p = u3_pier_bail (p\<lparr>pir_god_u := None\<rparr>)"

fun pier_heard :: "'b pier_env \<Rightarrow> lord_call \<Rightarrow> 'b u3_pier \<Rightarrow> 'b pier_res" where
  "pier_heard env Cb_live p = pier_on_lord_live env p"
| "pier_heard env (Cb_spin egg_u) p = pier_on_lord_work_spin egg_u p"
| "pier_heard env Cb_spun p = pier_on_lord_work_spun p"
| "pier_heard env (Cb_slog pri_w tan) p = pier_on_lord_slog pri_w tan p"
| "pier_heard env (Cb_flog dat) p = Inr (pier_call (Flog_print dat) p)"
| "pier_heard env (Cb_peek_fail dud) p = Inr (pier_call (Goof_print dud) p)"
| "pier_heard env (Cb_peek fun_f rep) p = pier_peek_call fun_f rep p"
| "pier_heard env (Cb_play_done tacs mug_l) p = pier_on_lord_play_done env tacs mug_l p"
| "pier_heard env (Cb_play_bail tacs mug_l eve_d dud) p = pier_on_lord_play_bail tacs mug_l eve_d dud p"
| "pier_heard env (Cb_work_done egg_u tac gif) p =
     on_god (\<lambda>god. if god_wyrd god then pier_on_lord_wyrd_done env egg_u tac gif p else pier_on_lord_work_done env egg_u tac gif p) p"
| "pier_heard env (Cb_work_bail egg_u lud) p =
     on_god (\<lambda>god. if god_wyrd god then pier_on_lord_wyrd_bail egg_u lud p else pier_on_lord_work_bail env egg_u lud p) p"
| "pier_heard env Cb_save p = Inr p"
| "pier_heard env Cb_cram p = pier_on_lord_cram p"
| "pier_heard env (Cb_egg_free egg_u) p = heap_do (u3_ovum_free egg_u) p"
| "pier_heard env Cb_halt p = u3_lord_halt p"
| "pier_heard env Cb_bail p = pier_on_lord_bail p"

fun pier_heard_all :: "'b pier_env \<Rightarrow> lord_call list \<Rightarrow> 'b u3_pier \<Rightarrow> 'b pier_res" where
  "pier_heard_all env [] p = Inr p"
| "pier_heard_all env (cb # cbs) p = on_res (pier_heard env cb p) (pier_heard_all env cbs)"

definition pier_on_plea :: "'b pier_env \<Rightarrow> noun option \<Rightarrow> 'b u3_pier \<Rightarrow> 'b pier_res" where
  "pier_on_plea env jar p =
     on_god (\<lambda>god. on_res (some_or Assert (lord_on_plea jar god)) (\<lambda>(cbs, god). pier_heard_all env cbs (p\<lparr>pir_god_u := Some god\<rparr>))) p"

text \<open>
  The worker process has ended: as it was told to, or not. A controller that the pier has let go of waits for nothing
  but the end that it asked for.
\<close>

definition lord_on_serf_exit :: "'b pier_env \<Rightarrow> 'b u3_pier \<Rightarrow> 'b pier_res" where
  "lord_on_serf_exit env p =
     (case pir_god_u p of
        Some god \<Rightarrow>
          if god_wit_u god = [] \<or> hd (god_wit_u god) \<noteq> u3_writ_exit then pier_heard_all env [Cb_halt, Cb_bail] p
          else on_res (heap_do (lord_stop (god_wit_u god)) p) pier_on_lord_exit
      | None \<Rightarrow>
          (case pir_old_u p of
             None \<Rightarrow> Inr p
           | Some god \<Rightarrow>
               let p = p\<lparr>pir_old_u := None\<rparr>
               in on_res (heap_do (lord_stop (god_wit_u god)) p) (\<lambda>p.
                    if god_wit_u god = [] \<or> hd (god_wit_u god) \<noteq> u3_writ_exit then pier_on_lord_bail (pier_call Lord_halted p)
                    else pier_on_lord_exit p)))"

end
