(* ===== verification/King.thy ===== *)
theory King
  imports Pier_Life
begin

text \<open>
  The two processes together: the king's pier, the worker, and the pipe between them. Each event is one turn of an event
  loop: of the worker (\<^verbatim>\<open>_cw_serf_writ\<close> in \<^verbatim>\<open>main.c\<close>), which reads a command and answers it, or of the king, which hears an
  answer, is told that the log has written a batch, runs the handlers of the loop, or gets a request. Between events the
  drivers may change the heap of their events in any way.
\<close>

record 'b king =
  kin_pir :: "'b u3_pier"
  kin_sef :: "u3_serf option"
  kin_out :: "noun list"
  kin_heard :: "noun list"

datatype king_event =
    Serf_writ
  | Serf_slog noun
  | Serf_flog noun
  | Hear
  | Serf_gone
  | Afte
  | Idle
  | Written
  | Drivers auto_heap
  | Save_time
  | Cram
  | Meld
  | Pack
  | Quit
  | Scry u3_pico

text \<open>The next command in the pipe, of the controller or of the one that the pier has let go of.\<close>

definition pop_inn :: "'b u3_pier \<Rightarrow> (noun \<times> 'b u3_pier) option" where
  "pop_inn p =
     (case pir_god_u p of
        Some god \<Rightarrow> (case god_inn_u god of [] \<Rightarrow> None | jar # jars \<Rightarrow> Some (jar, p\<lparr>pir_god_u := Some (god\<lparr>god_inn_u := jars\<rparr>)\<rparr>))
      | None \<Rightarrow>
          (case pir_old_u p of
             Some god \<Rightarrow> (case god_inn_u god of [] \<Rightarrow> None | jar # jars \<Rightarrow> Some (jar, p\<lparr>pir_old_u := Some (god\<lparr>god_inn_u := jars\<rparr>)\<rparr>))
           | None \<Rightarrow> None))"

definition king_serf :: "kernel \<Rightarrow> 'b king \<Rightarrow> 'b king" where
  "king_serf ker k =
     (case kin_sef k of
        None \<Rightarrow> k
      | Some sef \<Rightarrow>
          (case pop_inn (kin_pir k) of
             None \<Rightarrow> k
           | Some (jar, p) \<Rightarrow>
               (case cw_serf_writ ker jar sef of
                  Inr (Plea pel, sef) \<Rightarrow> k\<lparr>kin_pir := p, kin_sef := Some sef, kin_out := kin_out k @ [pel]\<rparr>
                | _ \<Rightarrow> k\<lparr>kin_pir := p, kin_sef := None\<rparr>)))"

definition king_says :: "noun \<Rightarrow> 'b king \<Rightarrow> 'b king" where
  "king_says pel k = (if kin_sef k = None then k else k\<lparr>kin_out := kin_out k @ [pel]\<rparr>)"

definition king_pier :: "('b u3_pier \<Rightarrow> 'b pier_res) \<Rightarrow> 'b king \<Rightarrow> pier_fail + 'b king" where
  "king_pier f k = on_res (f (kin_pir k)) (\<lambda>p. Inr (k\<lparr>kin_pir := p\<rparr>))"

definition king_hear :: "'b pier_env \<Rightarrow> 'b king \<Rightarrow> pier_fail + 'b king" where
  "king_hear env k =
     (case kin_out k of
        [] \<Rightarrow> Inr k
      | jar # jars \<Rightarrow>
          if pir_god_u (kin_pir k) = None then Inr (k\<lparr>kin_out := jars\<rparr>)
          else king_pier (pier_on_plea env (Some jar)) (k\<lparr>kin_out := jars, kin_heard := kin_heard k @ [jar]\<rparr>))"

text \<open>
  Timers, drivers and the handlers of the loop are active while the pier has its state for work. The king is told when
  the pier is freed; what the event loop does after that is left open.
\<close>

definition pier_gone :: "'b u3_pier \<Rightarrow> bool" where
  "pier_gone p = (King_done \<in> set (pir_calls p))"

definition is_working :: "'b king \<Rightarrow> bool" where
  "is_working k = (case pir_uni_u (kin_pir k) of Work_state w \<Rightarrow> \<not> pier_gone (kin_pir k) | _ \<Rightarrow> False)"

definition when_working :: "('b u3_pier \<Rightarrow> 'b pier_res) \<Rightarrow> 'b king \<Rightarrow> pier_fail + 'b king" where
  "when_working f k = (if is_working k then king_pier f k else Inr k)"

fun king_step :: "'b pier_env \<Rightarrow> kernel \<Rightarrow> king_event \<Rightarrow> 'b king \<Rightarrow> pier_fail + 'b king" where
  "king_step env ker Serf_writ k = Inr (king_serf ker k)"
| "king_step env ker (Serf_slog hod) k = Inr (king_says (u3nc c3__slog hod) k)"
| "king_step env ker (Serf_flog dat) k = Inr (king_says (u3nc c3__flog dat) k)"
| "king_step env ker Hear k = king_hear env k"
| "king_step env ker Serf_gone k = (if kin_sef k = None then king_pier (lord_on_serf_exit env) k else Inr k)"
| "king_step env ker Afte k = when_working (pier_work_afte_cb env) k"
| "king_step env ker Idle k = when_working (pier_work_idle_cb env) k"
| "king_step env ker Written k = (if pir_log_u (kin_pir k) = None then Inr k else king_pier (disk_commit_after_cb env) k)"
| "king_step env ker (Drivers h) k = Inr (k\<lparr>kin_pir := (kin_pir k)\<lparr>pir_heap := h\<rparr>\<rparr>)"
| "king_step env ker Save_time k = when_working u3_pier_save k"
| "king_step env ker Cram k = when_working u3_pier_cram k"
| "king_step env ker Meld k = when_working u3_pier_meld k"
| "king_step env ker Pack k = when_working u3_pier_pack k"
| "king_step env ker Quit k = (if pier_gone (kin_pir k) then Inr k else king_pier u3_pier_exit k)"
| "king_step env ker (Scry pic) k = when_working (pier_peek_plan pic) k"

text \<open>Every step has its own time.\<close>

fun king_run :: "'b pier_env \<Rightarrow> kernel \<Rightarrow> (nat \<times> king_event) list \<Rightarrow> 'b king \<Rightarrow> pier_fail + 'b king" where
  "king_run env ker [] k = Inr k"
| "king_run env ker ((now, ev) # evs) k = on_res (king_step (env\<lparr>env_now := now\<rparr>) ker ev k) (king_run env ker evs)"

end
