(* ===== verification/Disk_Correct.thy ===== *)
theory Disk_Correct
  imports Disk
begin

text \<open>
  The correctness of the event log: what LMDB is relied on for, the invariant of the log, that planning and committing
  keep it, and that facts survive being written and read.
\<close>

section \<open>Reliance on LMDB\<close>

text \<open>
  \<open>view\<close> is the content of a database or transaction. A call that succeeds does what its documentation says: a transaction
  starts with the content of the database, an insertion without overwriting needs a new key, a commit makes the
  content of the transaction that of the database, and the cursor visits the keys in ascending order.
\<close>

definition mdb_ok :: "'b mdb \<Rightarrow> ('b \<Rightarrow> nat \<Rightarrow> byte list option) \<Rightarrow> bool" where
  "mdb_ok mdb view \<longleftrightarrow>
     (\<forall>env txn. txn_begin mdb env = Some txn \<longrightarrow> view txn = view env) \<and>
     (\<forall>txn t. dbi_open mdb txn = Some t \<longrightarrow> view t = view txn) \<and>
     (\<forall>txn k v t. mdb_put mdb txn k v = Some t \<longrightarrow> view txn k = None \<and> view t = (view txn)(k \<mapsto> v)) \<and>
     (\<forall>env txn e. txn_commit mdb env txn = Some e \<longrightarrow> view e = view txn) \<and>
     (\<forall>txn k v. cursor_set mdb txn k = Some v \<longrightarrow> view txn k = Some v) \<and>
     (\<forall>txn k k' v. cursor_next mdb txn k = Inr (Some (k', v)) \<longrightarrow>
        k < k' \<and> view txn k' = Some v \<and> (\<forall>i. k < i \<and> i < k' \<longrightarrow> view txn i = None)) \<and>
     (\<forall>txn k. cursor_next mdb txn k = Inr None \<longrightarrow> (\<forall>i > k. view txn i = None)) \<and>
     (\<forall>txn. cursor_first mdb txn = Inr None \<longrightarrow> view txn = Map.empty) \<and>
     (\<forall>txn k. cursor_last mdb txn = Some k \<longrightarrow> view txn k \<noteq> None \<and> (\<forall>i > k. view txn i = None))"

lemma mdb_okD:
  assumes "mdb_ok mdb view"
  shows "txn_begin mdb env = Some txn \<Longrightarrow> view txn = view env"
    and "dbi_open mdb txn = Some t \<Longrightarrow> view t = view txn"
    and "mdb_put mdb txn k v = Some t \<Longrightarrow> view txn k = None \<and> view t = (view txn)(k \<mapsto> v)"
    and "txn_commit mdb env txn = Some e \<Longrightarrow> view e = view txn"
    and "cursor_set mdb txn k = Some v \<Longrightarrow> view txn k = Some v"
    and "cursor_next mdb txn k = Inr (Some (k', v)) \<Longrightarrow> k < k' \<and> view txn k' = Some v \<and> (\<forall>i. k < i \<and> i < k' \<longrightarrow> view txn i = None)"
    and "cursor_next mdb txn k = Inr None \<Longrightarrow> k < i \<Longrightarrow> view txn i = None"
    and "cursor_first mdb txn = Inr None \<Longrightarrow> view txn = Map.empty"
    and "cursor_last mdb txn = Some k \<Longrightarrow> view txn k \<noteq> None \<and> (\<forall>i > k. view txn i = None)"
  using assms unfolding mdb_ok_def by simp_all

text \<open>A database whose calls for reading do not fail.\<close>

definition mdb_reads :: "'b mdb \<Rightarrow> ('b \<Rightarrow> nat \<Rightarrow> byte list option) \<Rightarrow> bool" where
  "mdb_reads mdb view \<longleftrightarrow>
     (\<forall>env. txn_begin mdb env \<noteq> None) \<and> (\<forall>txn. dbi_open mdb txn \<noteq> None \<and> cursor_open mdb txn) \<and>
     (\<forall>txn k. view txn k \<noteq> None \<longrightarrow> cursor_set mdb txn k \<noteq> None) \<and> (\<forall>txn k e. cursor_next mdb txn k \<noteq> Inl e)"

lemma mdb_readsD:
  assumes "mdb_reads mdb view"
  shows "txn_begin mdb env \<noteq> None" and "dbi_open mdb txn \<noteq> None" and "cursor_open mdb txn"
    and "view txn k = Some v \<Longrightarrow> cursor_set mdb txn k \<noteq> None" and "cursor_next mdb txn k \<noteq> Inl e"
  using assms unfolding mdb_reads_def by simp_all

text \<open>The content after consecutive insertions.\<close>

definition put_range :: "nat \<Rightarrow> byte list list \<Rightarrow> (nat \<Rightarrow> byte list option) \<Rightarrow> nat \<Rightarrow> byte list option" where
  "put_range eve byts m = (\<lambda>k. if eve \<le> k \<and> k < eve + length byts then Some (byts ! (k - eve)) else m k)"

lemma lmdb_put_loop_view:
  assumes "mdb_ok mdb view" and "lmdb_put_loop mdb txn eve byts = Some t"
  shows "view t = put_range eve byts (view txn)"
  using assms(2)
proof (induction byts arbitrary: txn eve)
  case Nil
  then show ?case
    by (auto simp: put_range_def fun_eq_iff)
next
  case (Cons byt byts)
  obtain t1 where t1: "mdb_put mdb txn eve byt = Some t1" "lmdb_put_loop mdb t1 (eve + 1) byts = Some t"
    using Cons.prems by (auto split: bind_splits)
  have view: "view t1 = (view txn)(eve \<mapsto> byt)"
    using mdb_okD(3) [OF assms(1) t1(1)] by (rule conjunct2)
  have "view t = put_range (eve + 1) byts ((view txn)(eve \<mapsto> byt))"
    unfolding view [symmetric] by (rule Cons.IH [OF t1(2)])
  also have "\<dots> = put_range eve (byt # byts) (view txn)"
    by (auto simp: put_range_def fun_eq_iff nth_Cons' Suc_le_eq)
  finally show ?case .
qed

lemma u3_lmdb_save_view:
  assumes "mdb_ok mdb view" and "u3_lmdb_save mdb env eve byts = (ret, env')"
  shows "view env' = (if ret then put_range eve byts (view env) else view env)"
proof (cases ret)
  case True
  obtain t1 t2 t3 where t: "txn_begin mdb env = Some t1" "dbi_open mdb t1 = Some t2" "lmdb_put_loop mdb t2 eve byts = Some t3"
      "txn_commit mdb env t3 = Some env'"
    using assms(2) True by (auto simp: u3_lmdb_save_def split: bind_splits option.splits)
  show ?thesis
    using True mdb_okD(1) [OF assms(1) t(1)] mdb_okD(2) [OF assms(1) t(2)] lmdb_put_loop_view [OF assms(1) t(3)] mdb_okD(4) [OF assms(1) t(4)]
    by simp
next
  case False
  then show ?thesis
    using assms(2) by (auto simp: u3_lmdb_save_def split: option.splits)
qed

section \<open>The invariant of the log\<close>

definition fact_eves :: "u3_fact list \<Rightarrow> nat list" where
  "fact_eves tacs = map fact_eve_d tacs"

text \<open>
  The queue holds the facts from the first that is not committed to the last that was planned, the batch on the write
  thread is a part of its beginning, and the database holds exactly the committed events.
\<close>

definition log_ok :: "serial \<Rightarrow> ('b \<Rightarrow> nat \<Rightarrow> byte list option) \<Rightarrow> nat \<Rightarrow> 'b u3_disk \<Rightarrow> bool" where
  "log_ok ser view fir log \<longleftrightarrow>
     log_dun_d log \<le> log_sen_d log \<and> fact_eves (log_put_u log) = [Suc (log_dun_d log)..<Suc (log_sen_d log)] \<and>
     (\<forall>req. log_ted_u log = Some req \<longrightarrow>
        save_eve_d req = Suc (log_dun_d log) \<and> 0 < save_len_d req \<and> log_dun_d log + save_len_d req \<le> log_sen_d log \<and>
        save_byt_y req = map (disk_serialize_v1 ser) (take (save_len_d req) (log_put_u log))) \<and>
     fir \<le> Suc (log_dun_d log) \<and> dom (view (log_mdb_u log)) = {fir..log_dun_d log}"

lemma log_ok_put:
  assumes "log_ok ser view fir log"
  shows "length (log_put_u log) = log_sen_d log - log_dun_d log"
    and "i < length (log_put_u log) \<Longrightarrow> fact_eve_d (log_put_u log ! i) = Suc (log_dun_d log) + i"
proof -
  have eq: "map fact_eve_d (log_put_u log) = [Suc (log_dun_d log)..<Suc (log_sen_d log)]"
    using assms by (simp add: log_ok_def fact_eves_def)
  show len: "length (log_put_u log) = log_sen_d log - log_dun_d log"
    using length_map [of fact_eve_d "log_put_u log"] unfolding eq by (simp del: upt_Suc)
  show "fact_eve_d (log_put_u log ! i) = Suc (log_dun_d log) + i" if "i < length (log_put_u log)"
    using that len nth_map [OF that, of fact_eve_d] unfolding eq by (simp del: upt_Suc)
qed

lemma disk_batch_loop_all:
  assumes "\<And>i. i < len \<Longrightarrow> fact_eve_d (tacs ! i) = eve + i" and "len \<le> length tacs"
  shows "disk_batch_loop ser eve len tacs = Some (map (disk_serialize_v1 ser) (take len tacs))"
  using assms
proof (induction ser eve len tacs rule: disk_batch_loop.induct)
  case (3 ser eve len tac tacs)
  have "fact_eve_d (tacs ! i) = eve + 1 + i" if "i < len" for i
    using 3(2) [of "Suc i"] that by simp
  moreover have "fact_eve_d tac = eve"
    using 3(2) [of 0] by simp
  ultimately show ?case
    using 3 by simp
qed simp_all

lemma disk_commit_ok:
  assumes "log_ok ser view fir log"
  shows "\<exists>log'. disk_commit ser log = Some log' \<and> log_ok ser view fir log' \<and> (log_ted_u log' = None \<longrightarrow> log_sen_d log' = log_dun_d log') \<and>
    log_sen_d log' = log_sen_d log \<and> log_dun_d log' = log_dun_d log \<and> log_put_u log' = log_put_u log \<and> log_mdb_u log' = log_mdb_u log"
proof (cases "log_ted_u log = None \<and> log_dun_d log < log_sen_d log")
  case True
  let ?len = "log_sen_d log - log_dun_d log" and ?put = "log_put_u log"
  note put = log_ok_put [OF assms]
  have ne: "?put \<noteq> []"
    using put(1) True by auto
  have first: "fact_eve_d (hd ?put) = Suc (log_dun_d log)" "fact_eve_d (last ?put) = log_sen_d log"
    using put(2) [of 0] put(2) [of "length ?put - 1"] put(1) ne True by (auto simp: hd_conv_nth last_conv_nth)
  have "disk_batch_loop ser (Suc (log_dun_d log)) ?len ?put = Some (map (disk_serialize_v1 ser) (take ?len ?put))"
    by (rule disk_batch_loop_all) (use put in auto)
  then have "disk_batch ser log ?len =
      Some \<lparr>save_eve_d = Suc (log_dun_d log), save_len_d = ?len, save_byt_y = map (disk_serialize_v1 ser) (take ?len ?put)\<rparr>"
    using first ne by (cases ?put) (simp_all add: disk_batch_def)
  then show ?thesis
    using True assms by (simp add: disk_commit_def disk_commit_start_def log_ok_def)
next
  case False
  then show ?thesis
    using assms by (auto simp: disk_commit_def log_ok_def)
qed

lemma u3_disk_plan_ok:
  assumes "log_ok ser view fir log" and "fact_eve_d tac = Suc (log_sen_d log)"
  shows "\<exists>log'. u3_disk_plan ser tac log = Some log' \<and> log_ok ser view fir log' \<and> log_sen_d log' = Suc (log_sen_d log) \<and>
    log_dun_d log' = log_dun_d log \<and> log_put_u log' = log_put_u log @ [tac] \<and> log_mdb_u log' = log_mdb_u log \<and>
    (log_ted_u log' = None \<longrightarrow> log_sen_d log' = log_dun_d log')"
proof -
  let ?log = "log\<lparr>log_sen_d := log_sen_d log + 1, log_put_u := log_put_u log @ [tac]\<rparr>"
  have "log_ok ser view fir ?log"
    using assms log_ok_put(1) [OF assms(1)] by (auto simp: log_ok_def fact_eves_def)
  from disk_commit_ok [OF this] show ?thesis
    using assms(2) by (auto simp: u3_disk_plan_def)
qed

text \<open>
  After a successful write the events of the batch are committed, and the database holds them; after a failed one nothing
  has changed but the write thread.
\<close>

lemma disk_write_ok:
  assumes "mdb_ok mdb view" and "log_ok ser view fir log" and "log_ted_u log = Some req" and "disk_commit_cb mdb req log = (True, log1)"
  shows "log_ok ser view fir (disk_clean (disk_written req (log1\<lparr>log_ted_u := None\<rparr>)))" (is "log_ok _ _ _ ?log")
    and "view (log_mdb_u log1) = put_range (Suc (log_dun_d log)) (map (disk_serialize_v1 ser) (take (save_len_d req) (log_put_u log))) (view (log_mdb_u log))"
    and "log_dun_d (disk_written req log1) = log_dun_d log + save_len_d req"
    and "log1 = log\<lparr>log_mdb_u := log_mdb_u log1\<rparr>"
    and "log_put_u (disk_clean (disk_written req (log1\<lparr>log_ted_u := None\<rparr>))) = drop (save_len_d req) (log_put_u log)"
proof -
  have req: "save_eve_d req = Suc (log_dun_d log)" "0 < save_len_d req" "log_dun_d log + save_len_d req \<le> log_sen_d log"
      "save_byt_y req = map (disk_serialize_v1 ser) (take (save_len_d req) (log_put_u log))"
    using assms(2,3) by (auto simp: log_ok_def)
  obtain env where save: "u3_lmdb_save mdb (log_mdb_u log) (save_eve_d req) (save_byt_y req) = (True, env)" "log1 = log\<lparr>log_mdb_u := env\<rparr>"
    using assms(4) by (auto simp: disk_commit_cb_def split: prod.splits)
  then show log1: "log1 = log\<lparr>log_mdb_u := log_mdb_u log1\<rparr>"
    by simp
  show view: "view (log_mdb_u log1) = put_range (Suc (log_dun_d log)) (map (disk_serialize_v1 ser) (take (save_len_d req) (log_put_u log))) (view (log_mdb_u log))"
    using u3_lmdb_save_view [OF assms(1) save(1)] save(2) req by simp
  show dun: "log_dun_d (disk_written req log1) = log_dun_d log + save_len_d req"
    using req by (simp add: disk_written_def)
  note put = log_ok_put [OF assms(2)]
  have "dropWhile (\<lambda>tac. fact_eve_d tac \<le> log_dun_d log + save_len_d req) (log_put_u log) = drop (save_len_d req) (log_put_u log)"
  proof -
    have "takeWhile (\<lambda>tac. fact_eve_d tac \<le> log_dun_d log + save_len_d req) (log_put_u log) = take (save_len_d req) (log_put_u log)"
      by (rule takeWhile_eq_take_P_nth) (use put req(3) in auto)
    then show ?thesis
      using takeWhile_dropWhile_id append_take_drop_id same_append_eq by metis
  qed
  then show clean: "log_put_u ?log = drop (save_len_d req) (log_put_u log)"
    using req save(2) by (simp add: disk_clean_def disk_written_def)
  have "fact_eves (drop (save_len_d req) (log_put_u log)) = [Suc (log_dun_d log + save_len_d req)..<Suc (log_sen_d log)]"
    using assms(2) by (simp add: fact_eves_def log_ok_def del: upt_Suc flip: drop_map)
  moreover have "dom (view (log_mdb_u log1)) = {fir..log_dun_d log + save_len_d req}"
  proof -
    have "length (take (save_len_d req) (log_put_u log)) = save_len_d req"
      using put(1) req(3) by simp
    then have "dom (view (log_mdb_u log1)) = {k. Suc (log_dun_d log) \<le> k \<and> k < Suc (log_dun_d log) + save_len_d req} \<union> dom (view (log_mdb_u log))"
      unfolding view put_range_def by (auto simp: dom_def split: if_splits)
    then show ?thesis
      using assms(2) by (auto simp: log_ok_def)
  qed
  ultimately show "log_ok ser view fir ?log"
    using assms(2) req save(2) clean by (simp add: log_ok_def disk_clean_def disk_written_def)
qed

section \<open>Reading what was written\<close>

lemma bytes_val_nat_bytes: "bytes_val (length (nat_bytes a)) (nat_bytes a) = a"
proof (rule bit_eqI)
  fix i
  have len: "length (nat_bytes a) = (met0 a + 7) div 8"
    by (simp add: nat_bytes_def)
  have big: "i < 8 * ((met0 a + 7) div 8)" if "bit a i"
  proof -
    have "met0 a \<le> 8 * ((met0 a + 7) div 8)"
      by linarith
    then show ?thesis
      using bit_imp_less_met0 [OF that] by linarith
  qed
  have "mbit (lmem (nat_bytes a)) i \<longleftrightarrow> bit a i" if "i < 8 * ((met0 a + 7) div 8)"
  proof -
    have "i div 8 < (met0 a + 7) div 8"
      using that by linarith
    then have "mbit (lmem (nat_bytes a)) i \<longleftrightarrow> bit (of_nat (drop_bit (8 * (i div 8)) a) :: byte) (i mod 8)"
      by (simp add: mbit_def lmem_def nat_bytes_def)
    also have "\<dots> \<longleftrightarrow> bit a (8 * (i div 8) + i mod 8)"
      by (simp add: bit_of_nat_iff bit_drop_bit_eq)
    finally show ?thesis
      by simp
  qed
  then show "bit (bytes_val (length (nat_bytes a)) (nat_bytes a)) i = bit a i"
    using big by (auto simp: bit_bytes_val len)
qed

lemma low_byte: "(ucast (w AND 0xff) :: byte) = ucast (w :: u32)"
proof -
  have eq: "(0xff :: u32) = mask 8"
    by (simp add: mask_numeral)
  show ?thesis
    unfolding eq by (rule bit_word_eqI) (auto simp: bit_simps)
qed

lemma disk_read_mug_serialize: "disk_read_mug (disk_serialize_v1 ser tac) = fact_mug_l tac"
proof (rule bit_word_eqI)
  fix n
  assume "n < LENGTH(32)"
  then consider "n < 8" | "8 \<le> n" "n < 16" | "16 \<le> n" "n < 24" | "24 \<le> n" "n < 32"
    by fastforce
  then show "bit (disk_read_mug (disk_serialize_v1 ser tac)) n = bit (fact_mug_l tac) n"
    unfolding disk_read_mug_def disk_serialize_v1_def Let_def low_byte by cases (auto simp: bit_simps)
qed

text \<open>The jobs of these facts survive their serialization.\<close>

definition serial_ok :: "serial \<Rightarrow> u3_fact list \<Rightarrow> bool" where
  "serial_ok ser tacs \<longleftrightarrow> (\<forall>tac \<in> set tacs. jam_f ser (fact_job tac) \<noteq> 0 \<and> cue_f ser (jam_f ser (fact_job tac)) = Some (fact_job tac))"

lemma nat_bytes_eq_Nil: "nat_bytes a = [] \<longleftrightarrow> a = 0"
proof
  assume "nat_bytes a = []"
  then have "a < 2 ^ (8 * 0)"
    using bytes_val_less [of "length (nat_bytes a)" "nat_bytes a"] unfolding bytes_val_nat_bytes by simp
  then show "a = 0"
    by simp
qed (simp add: nat_bytes_def)

lemma disk_read_one_serialized:
  assumes "jam_f ser (fact_job tac) \<noteq> 0" and "cue_f ser (jam_f ser (fact_job tac)) = Some (fact_job tac)" and "fact_eve_d tac = eve"
    and "case red_tac_u red of [] \<Rightarrow> red_eve_d red = eve | tacs \<Rightarrow> 1 + fact_eve_d (last tacs) = eve"
  shows "disk_read_one_cb ser eve (disk_serialize_v1 ser tac) red = Some (True, red\<lparr>red_tac_u := red_tac_u red @ [tac]\<rparr>)"
proof -
  let ?b = "nat_bytes (jam_f ser (fact_job tac))"
  have "4 < length (disk_serialize_v1 ser tac)"
    using assms(1) nat_bytes_eq_Nil by (simp add: disk_serialize_v1_def Let_def)
  moreover have "bytes_val (length (disk_serialize_v1 ser tac) - 4) (drop 4 (disk_serialize_v1 ser tac)) = jam_f ser (fact_job tac)"
    by (simp add: disk_serialize_v1_def Let_def bytes_val_nat_bytes)
  moreover have "u3_fact_init eve (fact_mug_l tac) (fact_job tac) = tac"
    using assms(3) by (simp add: u3_fact_init_def)
  ultimately show ?thesis
    using assms(2,4) by (auto simp: disk_read_one_cb_def disk_read_mug_serialize split: list.splits)
qed

lemma lmdb_read_loop_facts:
  assumes "mdb_ok mdb view" and "serial_ok ser tacs" and "\<And>j. j < length tacs \<Longrightarrow> fact_eve_d (tacs ! j) = eve + j"
    and "\<And>j. j < length tacs \<Longrightarrow> view txn (eve + j) = Some (disk_serialize_v1 ser (tacs ! j))"
    and "red_eve_d red = eve" and "red_tac_u red = take i tacs" and "i + n \<le> length tacs"
    and "0 < n \<Longrightarrow> cur = Some (eve + i, disk_serialize_v1 ser (tacs ! i))"
  shows "\<exists>b red'. lmdb_read_loop mdb txn (disk_read_one_cb ser) (eve + i) n cur red = Some (b, red') \<and>
    (b \<longrightarrow> red_tac_u red' = take (i + n) tacs) \<and> (mdb_reads mdb view \<longrightarrow> b)"
  using assms(5-8)
proof (induction n arbitrary: i cur red)
  case (Suc n)
  have i: "i < length tacs"
    using Suc.prems(3) by simp
  have cur: "cur = Some (eve + i, disk_serialize_v1 ser (tacs ! i))"
    using Suc.prems(4) by simp
  let ?red = "red\<lparr>red_tac_u := red_tac_u red @ [tacs ! i]\<rparr>"
  have "case red_tac_u red of [] \<Rightarrow> red_eve_d red = eve + i | ts \<Rightarrow> 1 + fact_eve_d (last ts) = eve + i"
  proof (cases i)
    case (Suc j)
    then have "last (take i tacs) = tacs ! j" "take i tacs \<noteq> []"
      using i by (auto simp: take_Suc_conv_app_nth)
    then show ?thesis
      using Suc Suc.prems(2) assms(3) [of j] i \<open>red_tac_u red = take i tacs\<close> by (auto split: list.splits)
  qed (use Suc.prems(1,2) in simp)
  then have one: "disk_read_one_cb ser (eve + i) (disk_serialize_v1 ser (tacs ! i)) red = Some (True, ?red)"
    using assms(2) i by (intro disk_read_one_serialized) (auto simp: serial_ok_def assms(3))
  have red: "red_tac_u ?red = take (Suc i) tacs" "red_eve_d ?red = eve"
    using Suc.prems(1,2) i by (simp_all add: take_Suc_conv_app_nth)
  show ?case
  proof (cases "cursor_next mdb txn (eve + i)")
    case (Inl e)
    then show ?thesis
      using cur one mdb_readsD(5) [of mdb view txn "eve + i" e] by auto
  next
    case (Inr nxt)
    have "nxt = Some (eve + Suc i, disk_serialize_v1 ser (tacs ! Suc i))" if "0 < n"
    proof -
      have here: "view txn (eve + Suc i) = Some (disk_serialize_v1 ser (tacs ! Suc i))"
        using assms(4) [of "Suc i"] Suc.prems(3) that by simp
      show ?thesis
      proof (cases nxt)
        case None
        then show ?thesis
          using mdb_okD(7) [OF assms(1), of txn "eve + i" "eve + Suc i"] Inr here by simp
      next
        case (Some kv)
        obtain k v where kv: "kv = (k, v)"
          by (cases kv)
        have k: "eve + i < k" "view txn k = Some v" "\<And>j. eve + i < j \<Longrightarrow> j < k \<Longrightarrow> view txn j = None"
          using mdb_okD(6) [OF assms(1), of txn "eve + i" k v] Inr Some kv by auto
        have "k = eve + Suc i"
          using k(1) k(3) [of "eve + Suc i"] here by fastforce
        then show ?thesis
          using k(2) here Some kv by simp
      qed
    qed
    then show ?thesis
      using Suc.IH [of ?red "Suc i" nxt] red Suc.prems(3) cur one Inr by simp
  qed
qed auto

lemma u3_disk_read_facts:
  assumes "mdb_ok mdb view" and "serial_ok ser tacs" and "\<And>j. j < length tacs \<Longrightarrow> fact_eve_d (tacs ! j) = eve + j"
    and "\<And>j. j < length tacs \<Longrightarrow> view (log_mdb_u log) (eve + j) = Some (disk_serialize_v1 ser (tacs ! j))" and "tacs \<noteq> []"
  shows "u3_disk_read ser mdb log eve (length tacs) \<in> {Some None, Some (Some tacs)} \<and>
    (mdb_reads mdb view \<longrightarrow> u3_disk_read ser mdb log eve (length tacs) = Some (Some tacs))"
proof (cases "Option.bind (txn_begin mdb (log_mdb_u log)) (dbi_open mdb)")
  case None
  then have "\<not> mdb_reads mdb view"
    using mdb_readsD(1) [of mdb view "log_mdb_u log"] by (cases "txn_begin mdb (log_mdb_u log)") (auto dest: mdb_readsD(2))
  with None show ?thesis
    by (simp add: u3_disk_read_def u3_lmdb_read_def)
next
  case (Some txn)
  then have view: "view txn = view (log_mdb_u log)"
    using mdb_okD(1,2) [OF assms(1)] by (auto split: bind_splits)
  let ?red = "\<lparr>red_eve_d = eve, red_len_d = length tacs, red_tac_u = []\<rparr>"
  show ?thesis
  proof (cases "cursor_open mdb txn \<and> cursor_set mdb txn eve \<noteq> None")
    case True
    then obtain val where val: "cursor_set mdb txn eve = Some val"
      by blast
    have "val = disk_serialize_v1 ser (tacs ! 0)"
      using mdb_okD(5) [OF assms(1) val] assms(4) [of 0] assms(5) view by simp
    then obtain b red where "lmdb_read_loop mdb txn (disk_read_one_cb ser) eve (length tacs) (Some (eve, val)) ?red = Some (b, red)"
        "b \<longrightarrow> red_tac_u red = tacs" "mdb_reads mdb view \<longrightarrow> b"
      using lmdb_read_loop_facts [OF assms(1-3), where i = 0 and n = "length tacs" and txn = txn and red = ?red and cur = "Some (eve, val)"] assms(4) view by auto
    then show ?thesis
      using Some True val assms(5) by (cases b) (simp_all add: u3_disk_read_def u3_lmdb_read_def)
  next
    case False
    then have "\<not> mdb_reads mdb view"
      using assms(4) [of 0] assms(5) view mdb_readsD(3) [of mdb view txn] mdb_readsD(4) [of mdb view txn eve "disk_serialize_v1 ser (tacs ! 0)"] by auto
    then show ?thesis
      using Some False by (cases "cursor_open mdb txn") (simp_all add: u3_disk_read_def u3_lmdb_read_def)
  qed
qed

end
