(* ===== verification/King_Sync.thy ===== *)
theory King_Sync
  imports King Disk_Correct
begin

text \<open>
  The invariant of a working pier, and that the operations of \<^verbatim>\<open>pier.c\<close> on a working pier keep it without failing an
  assertion: the worker's last event is the last one planned for the log, and the effects that wait are those of the
  events between the last released and the last computed.
\<close>

section \<open>Results that do not fail an assertion\<close>

definition res_ok :: "('a \<Rightarrow> bool) \<Rightarrow> pier_fail + 'a \<Rightarrow> bool" where
  "res_ok Q r = (case r of Inl e \<Rightarrow> e \<in> {Bad_noun, Driver} | Inr v \<Rightarrow> Q v)"

named_theorems res_intro

lemma res_ok_Inr [simp]: "res_ok Q (Inr v) = Q v"
  by (simp add: res_ok_def)

lemma res_ok_Inl [simp]: "res_ok Q (Inl e) = (e \<in> {Bad_noun, Driver})"
  by (simp add: res_ok_def)

lemma res_okD: "res_ok Q r \<Longrightarrow> r = Inr v \<Longrightarrow> Q v"
  by (simp add: res_ok_def)

lemma res_ok_mono: "res_ok Q r \<Longrightarrow> (\<And>v. Q v \<Longrightarrow> R v) \<Longrightarrow> res_ok R r"
  by (auto simp: res_ok_def split: sum.splits)

lemma on_res_ok: "res_ok Q r \<Longrightarrow> (\<And>v. Q v \<Longrightarrow> res_ok R (f v)) \<Longrightarrow> res_ok R (on_res r f)"
  by (cases r) auto

lemma some_or_ok: "(\<And>v. x = Some v \<Longrightarrow> Q v) \<Longrightarrow> res_ok Q (some_or Driver x)"
  by (cases x) auto

lemma on_driver_ok: "(\<And>v. x = Some v \<Longrightarrow> res_ok Q (f v)) \<Longrightarrow> res_ok Q (on_res (some_or Driver x) f)"
  by (cases x) auto

section \<open>The controller\<close>

text \<open>Snapshots are only asked for when nothing waits for an answer.\<close>

fun savelike :: "u3_writ \<Rightarrow> bool" where
  "savelike u3_writ_save = True"
| "savelike u3_writ_cram = True"
| "savelike _ = False"

fun worklike :: "u3_writ \<Rightarrow> bool" where
  "worklike (u3_writ_work egg_u job) = True"
| "worklike _ = False"

fun workwrit :: "u3_writ \<Rightarrow> bool" where
  "workwrit (u3_writ_play tacs) = False"
| "workwrit u3_writ_exit = False"
| "workwrit _ = True"

definition lord_ok :: "u3_lord \<Rightarrow> bool" where
  "lord_ok g \<longleftrightarrow>
     god_dep_w g = length (god_wit_u g) \<and> (god_pin_o g \<longleftrightarrow> (\<exists>wit \<in> set (god_wit_u g). worklike wit)) \<and>
     (\<forall>wit \<in> set (tl (god_wit_u g)). \<not> savelike wit) \<and> (\<forall>wit \<in> set (god_wit_u g). workwrit wit)"

text \<open>The message of a command, sent when the worker's last event is \<open>e\<close>.\<close>

fun asked :: "nat \<Rightarrow> u3_writ \<Rightarrow> noun \<Rightarrow> bool" where
  "asked e (u3_writ_work egg_u job) jar = (\<exists>mil < 2 ^ 32. jar = u3nt c3__work (Atom mil) job)"
| "asked e (u3_writ_peek pek) jar = (jar = u3nc c3__peek (u3nc (Atom 0) (pek_sam pek)))"
| "asked e (u3_writ_play tacs) jar = False"
| "asked e u3_writ_save jar = (jar = u3nt c3__live c3__save (Atom e))"
| "asked e u3_writ_cram jar = (jar = u3nt c3__live c3__cram (Atom e))"
| "asked e u3_writ_meld jar = (jar = u3nt c3__live c3__meld u3_nul)"
| "asked e u3_writ_pack jar = (jar = u3nt c3__live c3__pack u3_nul)"
| "asked e u3_writ_exit jar = False"

text \<open>New commands are at the end of the queue and of the pipe; the worker's state as the king knows it is unchanged.\<close>

definition grows :: "u3_lord \<Rightarrow> u3_lord \<Rightarrow> bool" where
  "grows g g' \<longleftrightarrow>
     (\<exists>ws ns. god_wit_u g' = god_wit_u g @ ws \<and> god_inn_u g' = god_inn_u g @ ns \<and> list_all2 (asked (god_eve_d g)) ws ns \<and>
       (\<forall>wit \<in> set ws. savelike wit \<longrightarrow> god_wit_u g = [])) \<and>
     god_eve_d g' = god_eve_d g \<and> god_wyrd g' = god_wyrd g"

lemma grows_refl [simp]: "grows g g"
  by (auto simp: grows_def intro!: exI [of _ "[]"])

lemma grows_trans: "grows g g' \<Longrightarrow> grows g' g'' \<Longrightarrow> grows g g''"
proof -
  assume a: "grows g g'" "grows g' g''"
  from a(1) obtain ws ns where 1: "god_wit_u g' = god_wit_u g @ ws" "god_inn_u g' = god_inn_u g @ ns" "list_all2 (asked (god_eve_d g)) ws ns"
      "\<forall>wit \<in> set ws. savelike wit \<longrightarrow> god_wit_u g = []" "god_eve_d g' = god_eve_d g" "god_wyrd g' = god_wyrd g"
    by (auto simp: grows_def)
  from a(2) obtain vs ms where 2: "god_wit_u g'' = god_wit_u g' @ vs" "god_inn_u g'' = god_inn_u g' @ ms" "list_all2 (asked (god_eve_d g')) vs ms"
      "\<forall>wit \<in> set vs. savelike wit \<longrightarrow> god_wit_u g' = []" "god_eve_d g'' = god_eve_d g'" "god_wyrd g'' = god_wyrd g'"
    by (auto simp: grows_def)
  show ?thesis
    unfolding grows_def using 1 2 by (auto intro!: exI [of _ "ws @ vs"] exI [of _ "ns @ ms"] list_all2_appendI)
qed

lemma lord_writ_plan_ok:
  assumes "lord_ok g" and "workwrit wit" and "savelike wit \<Longrightarrow> god_wit_u g = []" and "worklike wit \<Longrightarrow> god_pin_o g'"
    and "g' = g\<lparr>god_pin_o := god_pin_o g'\<rparr>" and "\<not> worklike wit \<Longrightarrow> god_pin_o g' = god_pin_o g"
  shows "\<exists>h. lord_writ_plan mil wit g' = Some h \<and> lord_ok h \<and> grows g h \<and> god_wit_u h = god_wit_u g @ [wit]"
proof -
  have g': "god_wit_u g' = god_wit_u g" "god_dep_w g' = god_dep_w g" "god_inn_u g' = god_inn_u g" "god_eve_d g' = god_eve_d g" "god_wyrd g' = god_wyrd g"
    by (subst assms(5), simp)+
  have dep: "god_dep_w g = length (god_wit_u g)"
    using assms(1) by (simp add: lord_ok_def)
  obtain jar where jar: "lord_writ_make mil g' wit = Some jar" "asked (god_eve_d g) wit jar"
  proof (cases wit)
    case (u3_writ_work egg_u job)
    then show ?thesis
      using that unsigned_less [where w = "mil egg_u" and ?'a = nat] by (auto simp: lord_writ_make_def)
  qed (use that assms(2) g' in \<open>auto simp: lord_writ_make_def\<close>)
  have make: "lord_writ_make mil (g'\<lparr>god_dep_w := d, god_wit_u := ws\<rparr>) wit = Some jar" for d ws
    using jar(1) by (cases wit) (auto simp: lord_writ_make_def split: list.splits)
  let ?h = "g'\<lparr>god_dep_w := Suc (god_dep_w g), god_wit_u := god_wit_u g @ [wit], god_noop := (god_noop g' \<or> wit = u3_writ_exit), god_inn_u := god_inn_u g @ [jar]\<rparr>"
  have "lord_writ_plan mil wit g' = Some ?h"
    using g' dep make by (simp add: lord_writ_plan_def lord_writ_send_def)
  moreover have "lord_ok ?h"
    using assms by (auto simp: lord_ok_def tl_append split: list.splits)
  moreover have "grows g ?h"
    unfolding grows_def using g' jar(2) assms(3) by (auto intro!: exI [of _ "[wit]"] exI [of _ "[jar]"])
  ultimately show ?thesis
    by auto
qed

lemma lord_plan_ok:
  assumes "lord_ok g" and "workwrit wit" and "\<not> worklike wit" and "savelike wit \<Longrightarrow> god_wit_u g = []"
  shows "\<exists>h. lord_plan wit g = Some h \<and> lord_ok h \<and> grows g h \<and> god_wit_u h = god_wit_u g @ [wit]"
  unfolding lord_plan_def by (rule lord_writ_plan_ok) (use assms in auto)

lemma u3_lord_work_ok:
  assumes "lord_ok g"
  shows "\<exists>cbs h. u3_lord_work mil egg_u job g = Some (cbs, h) \<and> lord_ok h \<and> grows g h \<and> god_wit_u h = god_wit_u g @ [u3_writ_work egg_u job]"
  using lord_writ_plan_ok [OF assms, of "u3_writ_work egg_u job" "g\<lparr>god_pin_o := True\<rparr>" "\<lambda>_. mil"] by (auto simp: u3_lord_work_def)

section \<open>A working pier\<close>

text \<open>
  The barriers wait for no event in particular. The one for shutdown is the last; when it is the next, a snapshot has
  been asked for with the log complete, and no event has been sent since.
\<close>

definition walls_ok :: "u3_psat \<Rightarrow> nat \<Rightarrow> nat \<Rightarrow> u3_writ list \<Rightarrow> u3_wall list \<Rightarrow> bool" where
  "walls_ok sat sen dun wits wals \<longleftrightarrow>
     (\<forall>wal \<in> set wals. wal_eve_d wal = 0 \<and> (wal_f wal = pier_work_exit_cb \<longrightarrow> sat = u3_psat_done)) \<and>
     (\<forall>wal \<in> set (butlast wals). wal_f wal \<noteq> pier_work_exit_cb) \<and>
     (wals \<noteq> [] \<and> wal_f (hd wals) = pier_work_exit_cb \<longrightarrow> dun = sen \<and> (\<forall>wit \<in> set wits. \<not> worklike wit))"

text \<open>\<open>L\<close> is what is known of the log, and of the last event whose effects are released or wait.\<close>

definition work_inv :: "('b u3_disk \<Rightarrow> nat \<Rightarrow> bool) \<Rightarrow> u3_psat \<Rightarrow> u3_lord \<Rightarrow> 'b u3_disk \<Rightarrow> u3_work \<Rightarrow> bool" where
  "work_inv L sat g log w \<longleftrightarrow>
     sat \<in> {u3_psat_work, u3_psat_done} \<and> \<not> god_wyrd g \<and> L log (wok_rel_d w + length (wok_fec_u w)) \<and> lord_ok g \<and> god_eve_d g = log_sen_d log \<and>
     wok_rel_d w \<le> log_dun_d log \<and> map gif_eve_d (wok_fec_u w) = [Suc (wok_rel_d w)..<Suc (wok_rel_d w + length (wok_fec_u w))] \<and>
     walls_ok sat (log_sen_d log) (log_dun_d log) (god_wit_u g) (wok_wal_u w) \<and>
     ((\<exists>wit \<in> set (god_wit_u g). savelike wit) \<longrightarrow> god_eve_d g \<le> log_dun_d log)"

definition working :: "('b u3_disk \<Rightarrow> nat \<Rightarrow> bool) \<Rightarrow> 'b u3_pier \<Rightarrow> bool" where
  "working L p \<longleftrightarrow>
     (case (pir_god_u p, pir_log_u p, pir_uni_u p) of
        (Some g, Some log, Work_state w) \<Rightarrow> work_inv L (pir_sat_e p) g log w \<and> \<not> pier_gone p
      | _ \<Rightarrow> False)"

lemma workingE:
  assumes "working L p"
  obtains g log w where "pir_god_u p = Some g" and "pir_log_u p = Some log" and "pir_uni_u p = Work_state w"
    and "work_inv L (pir_sat_e p) g log w" and "\<not> pier_gone p"
  using assms by (auto simp: working_def split: option.splits pier_union.splits)

text \<open>The effects handed to the drivers, and those that wait.\<close>

definition kicks :: "'b u3_pier \<Rightarrow> u3_gift list" where
  "kicks p = [gif. Kick gif \<leftarrow> pir_calls p]"

definition waiting :: "'b u3_pier \<Rightarrow> u3_gift list" where
  "waiting p = (case pir_uni_u p of Work_state w \<Rightarrow> wok_fec_u w | _ \<Rightarrow> [])"

definition closed :: "'b u3_pier \<Rightarrow> bool" where
  "closed p \<longleftrightarrow> pir_god_u p = None \<and> pir_log_u p = None \<and> pir_sat_e p = u3_psat_done \<and> (pier_gone p \<or> (\<forall>w. pir_uni_u p \<noteq> Work_state w))"

text \<open>What an operation keeps.\<close>

definition keeps :: "('b u3_disk \<Rightarrow> nat \<Rightarrow> bool) \<Rightarrow> 'b u3_pier \<Rightarrow> 'b u3_pier \<Rightarrow> bool" where
  "keeps L p p' \<longleftrightarrow>
     working L p' \<and> grows (the (pir_god_u p)) (the (pir_god_u p')) \<and> pir_log_u p' = pir_log_u p \<and> pir_sat_e p' = pir_sat_e p \<and>
     kicks p' @ waiting p' = kicks p @ waiting p"

text \<open>The pier goes on, or it is closed, and no effect is handed on after the log was in use.\<close>

definition settles :: "('b u3_disk \<Rightarrow> nat \<Rightarrow> bool) \<Rightarrow> 'b u3_pier \<Rightarrow> 'b u3_pier \<Rightarrow> bool" where
  "settles L p p' \<longleftrightarrow> keeps L p p' \<or> closed p' \<and> (\<exists>q. keeps L p q \<and> kicks p' = kicks q)"

lemma keeps_refl: "working L p \<Longrightarrow> keeps L p p"
  by (auto simp: keeps_def)

lemma keeps_trans: "keeps L p p' \<Longrightarrow> keeps L p' p'' \<Longrightarrow> keeps L p p''"
  by (auto simp: keeps_def intro: grows_trans)

lemma keeps_working: "keeps L p p' \<Longrightarrow> working L p'"
  by (simp add: keeps_def)

lemma keeps_settles: "keeps L p p' \<Longrightarrow> settles L p p'"
  by (simp add: settles_def)

lemma keeps_settles_trans: "keeps L p p' \<Longrightarrow> settles L p' p'' \<Longrightarrow> settles L p p''"
  unfolding settles_def by (blast intro: keeps_trans)

lemma on_keeps:
  assumes "res_ok (keeps L p) r" and "\<And>p'. working L p' \<Longrightarrow> keeps L p p' \<Longrightarrow> res_ok (keeps L p') (f p')"
  shows "res_ok (keeps L p) (on_res r f)"
  by (rule on_res_ok [OF assms(1)], rule res_ok_mono [OF assms(2)]) (auto intro: keeps_trans keeps_working)

lemma on_settles:
  assumes "res_ok (keeps L p) r" and "\<And>p'. working L p' \<Longrightarrow> keeps L p p' \<Longrightarrow> res_ok (settles L p') (f p')"
  shows "res_ok (settles L p) (on_res r f)"
  by (rule on_res_ok [OF assms(1)], rule res_ok_mono [OF assms(2)]) (auto intro: keeps_settles_trans keeps_working)

text \<open>A change of the heap, of the scries or of the calls other than effects.\<close>

lemma keeps_frame:
  assumes "working L p" and "pir_god_u p' = pir_god_u p" and "pir_log_u p' = pir_log_u p" and "pir_uni_u p' = pir_uni_u p"
    and "pir_sat_e p' = pir_sat_e p" and "kicks p' = kicks p" and "pier_gone p' \<longleftrightarrow> pier_gone p"
  shows "keeps L p p'"
  using assms(1) by (rule workingE) (use assms(2-7) in \<open>simp add: keeps_def working_def waiting_def\<close>)

lemma kicks_call [simp]: "kicks (pier_call c p) = kicks p @ (case c of Kick gif \<Rightarrow> [gif] | _ \<Rightarrow> [])"
  by (cases c) (simp_all add: kicks_def pier_call_def)

lemma gone_call [simp]: "pier_gone (pier_call c p) \<longleftrightarrow> pier_gone p \<or> c = King_done"
  by (auto simp: pier_gone_def pier_call_def)

lemma pier_call_fields [simp]:
  "pir_god_u (pier_call c p) = pir_god_u p" "pir_log_u (pier_call c p) = pir_log_u p" "pir_uni_u (pier_call c p) = pir_uni_u p"
  "pir_sat_e (pier_call c p) = pir_sat_e p" "pir_heap (pier_call c p) = pir_heap p" "pir_pec_u (pier_call c p) = pir_pec_u p"
  by (simp_all add: pier_call_def)

lemma pier_fields [simp]:
  "kicks (p\<lparr>pir_god_u := a\<rparr>) = kicks p" "kicks (p\<lparr>pir_log_u := b\<rparr>) = kicks p" "kicks (p\<lparr>pir_uni_u := c\<rparr>) = kicks p"
  "kicks (p\<lparr>pir_sat_e := d\<rparr>) = kicks p" "kicks (p\<lparr>pir_heap := e\<rparr>) = kicks p" "kicks (p\<lparr>pir_pec_u := f\<rparr>) = kicks p"
  "kicks (p\<lparr>pir_liv_o := i\<rparr>) = kicks p" "kicks (p\<lparr>pir_idl_u := j\<rparr>) = kicks p" "kicks (p\<lparr>pir_old_u := k\<rparr>) = kicks p" "kicks (p\<lparr>pir_reads := l\<rparr>) = kicks p"
  "pier_gone (p\<lparr>pir_god_u := a\<rparr>) = pier_gone p" "pier_gone (p\<lparr>pir_log_u := b\<rparr>) = pier_gone p" "pier_gone (p\<lparr>pir_uni_u := c\<rparr>) = pier_gone p"
  "pier_gone (p\<lparr>pir_sat_e := d\<rparr>) = pier_gone p" "pier_gone (p\<lparr>pir_heap := e\<rparr>) = pier_gone p" "pier_gone (p\<lparr>pir_pec_u := f\<rparr>) = pier_gone p"
  "pier_gone (p\<lparr>pir_liv_o := i\<rparr>) = pier_gone p" "pier_gone (p\<lparr>pir_idl_u := j\<rparr>) = pier_gone p" "pier_gone (p\<lparr>pir_old_u := k\<rparr>) = pier_gone p"
  "pier_gone (p\<lparr>pir_reads := l\<rparr>) = pier_gone p"
  by (simp_all add: kicks_def pier_gone_def)

lemma heap_do_ok: "working L p \<Longrightarrow> res_ok (keeps L p) (heap_do f p)"
  by (auto simp: heap_do_def intro!: on_driver_ok keeps_frame)

text \<open>A command to the worker.\<close>

lemma grows_work_inv:
  assumes "work_inv L sat g log w" and "lord_ok g'" and "grows g g'" and "god_wit_u g' = god_wit_u g @ [wit]" and "\<not> savelike wit"
    and "worklike wit \<Longrightarrow> sat = u3_psat_work"
  shows "work_inv L sat g' log w"
proof -
  have "walls_ok sat (log_sen_d log) (log_dun_d log) (god_wit_u g') (wok_wal_u w)"
    using assms(1,4,6) by (auto simp: work_inv_def walls_ok_def)
  then show ?thesis
    using assms(1-5) by (auto simp: work_inv_def grows_def)
qed

lemma god_grows_ok:
  assumes "working L p" and "pir_god_u p = Some g" and "lord_ok g'" and "grows g g'"
    and "god_wit_u g' = god_wit_u g @ [wit]" and "\<not> savelike wit" and "worklike wit \<Longrightarrow> pir_sat_e p = u3_psat_work"
  shows "keeps L p (p\<lparr>pir_god_u := Some g'\<rparr>)"
  using assms(1)
proof (rule workingE)
  fix h log w
  assume w: "pir_god_u p = Some h" "pir_log_u p = Some log" "pir_uni_u p = Work_state w" "work_inv L (pir_sat_e p) h log w" "\<not> pier_gone p"
  then have "work_inv L (pir_sat_e p) g' log w"
    using grows_work_inv [of L "pir_sat_e p" g log w g'] assms by auto
  then show ?thesis
    using w assms by (simp add: keeps_def working_def waiting_def)
qed

lemma working_lord_ok: "working L p \<Longrightarrow> pir_god_u p = Some g \<Longrightarrow> lord_ok g"
  by (auto simp: working_def work_inv_def split: option.splits pier_union.splits)

lemma pier_lord_work_ok:
  assumes "working L p" and "pir_sat_e p = u3_psat_work"
  shows "res_ok (keeps L p) (pier_lord_work egg_u job p)"
  using assms(1)
proof (rule workingE)
  fix g log w
  assume w: "pir_god_u p = Some g" "pir_log_u p = Some log" "pir_uni_u p = Work_state w" "work_inv L (pir_sat_e p) g log w" "\<not> pier_gone p"
  have sat: "pir_sat_e p \<in> {u3_psat_wyrd, u3_psat_work, u3_psat_done}"
    using w(4) by (auto simp: work_inv_def)
  show ?thesis
    unfolding pier_lord_work_def
  proof (rule on_driver_ok)
    fix e
    obtain cbs h where h: "u3_lord_work (egg_mil_w e) egg_u job g = Some (cbs, h)" "lord_ok h" "grows g h" "god_wit_u h = god_wit_u g @ [u3_writ_work egg_u job]"
      using u3_lord_work_ok [OF working_lord_ok [OF assms(1) w(1)]] by blast
    have keep: "keeps L p (p\<lparr>pir_god_u := Some h\<rparr>)"
      by (rule god_grows_ok [OF assms(1) w(1) h(2-4)]) (simp_all add: assms(2))
    have "keeps L p (pier_call c (p\<lparr>pir_god_u := Some h\<rparr>))" if "\<And>gif. c \<noteq> Kick gif" "c \<noteq> King_done" for c
      by (rule keeps_trans [OF keep keeps_frame]) (use keep that in \<open>auto simp: keeps_def split: pier_call.splits\<close>)
    then show "res_ok (keeps L p) (on_god (\<lambda>god. on_res (some_or Assert (u3_lord_work (egg_mil_w e) egg_u job god)) (\<lambda>(cbs, god).
        let p = p\<lparr>pir_god_u := Some god\<rparr> in if cbs = [] then Inr p else pier_on_lord_work_spin egg_u p)) p)"
      using h(1) w(1) keep sat by (auto simp: on_god_def pier_on_lord_work_spin_def Let_def intro!: on_driver_ok)
  qed
qed

lemma god_plan_ok:
  assumes "working L p" and "workwrit wit" and "\<not> worklike wit" and "\<not> savelike wit"
  shows "res_ok (keeps L p) (god_do (lord_plan wit) p)"
  using assms(1)
proof (rule workingE)
  fix g log w
  assume w: "pir_god_u p = Some g" "pir_log_u p = Some log" "pir_uni_u p = Work_state w" "work_inv L (pir_sat_e p) g log w" "\<not> pier_gone p"
  obtain h where h: "lord_plan wit g = Some h" "lord_ok h" "grows g h" "god_wit_u h = god_wit_u g @ [wit]"
    using lord_plan_ok [OF working_lord_ok [OF assms(1) w(1)] assms(2,3)] assms(4) by blast
  then show ?thesis
    using w(1) god_grows_ok [OF assms(1) w(1) h(2-4) assms(4)] assms(3) by (simp add: god_do_def on_god_def)
qed

lemma pier_lord_peek_ok: "working L p \<Longrightarrow> res_ok (keeps L p) (pier_lord_peek pic p)"
  unfolding pier_lord_peek_def u3_lord_peek_def Let_def by (rule god_plan_ok) auto

section \<open>Sending\<close>

lemma keeps_heap: "working L p \<Longrightarrow> keeps L p (p\<lparr>pir_heap := h\<rparr>)"
  by (rule keeps_frame) auto

lemma work_send_loop_ok:
  assumes "working L p" and "pir_sat_e p = u3_psat_work"
  shows "res_ok (\<lambda>(len_w, p'). keeps L p p') (work_send_loop len_w now car_u p)"
  using assms
proof (induction len_w arbitrary: now car_u p rule: less_induct)
  case (less len_w)
  let ?Q = "\<lambda>p. \<lambda>(len_w :: nat, p'). keeps L p p'"
  have ih: "res_ok (?Q p) (work_send_loop n now' c q)" if "n < len_w" "keeps L p q" for n now' c q
    by (rule res_ok_mono [OF less.IH [OF that(1) keeps_working [OF that(2)]]]) (use that(2) less.prems(2) in \<open>auto simp: keeps_def intro: grows_trans\<close>)
  have next_egg: "res_ok (?Q p) (on_res (pier_lord_work egg_u job q) (\<lambda>q. on_res (some_or Driver (eggs (pir_heap q) egg_u)) (\<lambda>e.
      if 1 < len_w \<and> pir_pec_u q \<noteq> [] then
        on_res (pier_lord_peek (hd (pir_pec_u q)) (q\<lparr>pir_pec_u := tl (pir_pec_u q)\<rparr>)) (\<lambda>q. work_send_loop (len_w - 2) (now + 2 ^ 48) (egg_car_u e) q)
      else work_send_loop (len_w - 1) (now + 2 ^ 48) (egg_car_u e) q)))"
    if q: "keeps L p q" and len: "0 < len_w" for egg_u job q
  proof (rule on_res_ok [OF pier_lord_work_ok [OF keeps_working [OF q]]])
    show "pir_sat_e q = u3_psat_work"
      using q less.prems(2) by (simp add: keeps_def)
  next
    fix r
    assume "keeps L q r"
    then have r: "keeps L p r"
      by (rule keeps_trans [OF q])
    have peek: "res_ok (keeps L p) (pier_lord_peek pic (r\<lparr>pir_pec_u := pics\<rparr>))" for pic pics
    proof -
      have s: "keeps L p (r\<lparr>pir_pec_u := pics\<rparr>)"
        by (rule keeps_trans [OF r keeps_frame [OF keeps_working [OF r]]]) auto
      show ?thesis
        by (rule res_ok_mono [OF pier_lord_peek_ok [OF keeps_working [OF s]]]) (rule keeps_trans [OF s])
    qed
    show "res_ok (?Q p) (on_res (some_or Driver (eggs (pir_heap r) egg_u)) (\<lambda>e. if 1 < len_w \<and> pir_pec_u r \<noteq> [] then
        on_res (pier_lord_peek (hd (pir_pec_u r)) (r\<lparr>pir_pec_u := tl (pir_pec_u r)\<rparr>)) (\<lambda>q. work_send_loop (len_w - 2) (now + 2 ^ 48) (egg_car_u e) q)
      else work_send_loop (len_w - 1) (now + 2 ^ 48) (egg_car_u e) r))"
      using len by (auto intro!: on_driver_ok on_res_ok [OF peek] ih r)
  qed
  show ?case
  proof (cases "len_w = 0 \<or> car_u = None")
    case True
    then show ?thesis
      using keeps_refl [OF less.prems(1)] by (subst work_send_loop.simps) simp
  next
    case False
    then show ?thesis
      using keeps_heap [OF less.prems(1)] next_egg
      by (subst work_send_loop.simps) (auto simp: Let_def split: option.splits simp del: One_nat_def intro!: on_driver_ok)
  qed
qed

lemma peek_send_loop_ok: "working L p \<Longrightarrow> res_ok (keeps L p) (peek_send_loop len_w p)"
proof (induction len_w p rule: peek_send_loop.induct)
  case (2 len_w p)
  show ?case
  proof (cases "pir_pec_u p")
    case (Cons pic pics)
    let ?p = "p\<lparr>pir_pec_u := pics\<rparr>"
    have p: "keeps L p ?p"
      by (rule keeps_frame [OF 2(2)]) auto
    have next1: "pier_peek_next p = (Some pic, ?p)"
      using Cons by (simp add: pier_peek_next_def)
    show ?thesis
    proof (cases "pier_lord_peek pic ?p")
      case (Inl e)
      then show ?thesis
        using pier_lord_peek_ok [OF keeps_working [OF p], of pic] next1 by simp
    next
      case (Inr q)
      then have q: "keeps L p q"
        using pier_lord_peek_ok [OF keeps_working [OF p], of pic] keeps_trans [OF p] by simp
      have "res_ok (keeps L p) (peek_send_loop len_w q)"
        by (rule res_ok_mono [OF 2(1) [OF next1 [symmetric] refl Inr keeps_working [OF q]]]) (rule keeps_trans [OF q])
      then show ?thesis
        using next1 Inr by simp
    qed
  qed (use 2(2) in \<open>simp add: pier_peek_next_def keeps_refl\<close>)
qed (simp add: keeps_refl)

lemma pier_work_send_ok:
  assumes "working L p" and "pir_sat_e p = u3_psat_work"
  shows "res_ok (keeps L p) (pier_work_send env p)"
  using assms(1)
proof (rule workingE)
  fix g log w
  assume w: "pir_god_u p = Some g" "pir_uni_u p = Work_state w"
  have "res_ok (keeps L p) (on_res (work_send_loop n now c p) (\<lambda>(len_w, p). peek_send_loop len_w p))" for n now c
    by (rule on_res_ok [OF work_send_loop_ok [OF assms]])
      (auto intro: res_ok_mono [OF peek_send_loop_ok] keeps_working keeps_trans)
  then show ?thesis
    using w by (simp add: pier_work_send_def on_work_def on_god_def)
qed

section \<open>Effects\<close>

lemma upt_Suc_Cons: "x # xs = [Suc a..<Suc b] \<Longrightarrow> x = Suc a \<and> xs = [Suc (Suc a)..<Suc b] \<and> a < b"
  by (cases "a < b") (auto simp: upt_conv_Cons simp del: upt_Suc)

lemma pier_gift_kick_ok:
  assumes "working L p"
  shows "res_ok (keeps L p) (pier_gift_kick env p)"
  using assms
proof (induction "fec_length p" arbitrary: p rule: less_induct)
  case less
  from less.prems obtain g log w where w: "pir_god_u p = Some g" "pir_log_u p = Some log" "pir_uni_u p = Work_state w"
      "work_inv L (pir_sat_e p) g log w" "\<not> pier_gone p"
    by (rule workingE)
  show ?case
  proof (cases "wok_fec_u w")
    case Nil
    then have "pier_gift_next p = Inr (None, p)"
      using w by (simp add: pier_gift_next_def on_work_def on_log_def)
    then show ?thesis
      using keeps_refl [OF less.prems] by (subst pier_gift_kick.simps) simp
  next
    case (Cons gif gifs)
    have eves: "gif_eve_d gif = Suc (wok_rel_d w)" "map gif_eve_d gifs = [Suc (Suc (wok_rel_d w))..<Suc (Suc (wok_rel_d w + length gifs))]"
      using w(4) Cons upt_Suc_Cons [of "gif_eve_d gif" "map gif_eve_d gifs" "wok_rel_d w" "Suc (wok_rel_d w + length gifs)"]
      by (auto simp: work_inv_def simp del: upt_Suc)
    show ?thesis
    proof (cases "log_dun_d log < gif_eve_d gif")
      case True
      then have "pier_gift_next p = Inr (None, p)"
        using w Cons by (simp add: pier_gift_next_def on_work_def on_log_def)
      then show ?thesis
        using keeps_refl [OF less.prems] by (subst pier_gift_kick.simps) simp
    next
      case False
      let ?w = "w\<lparr>wok_fec_u := gifs, wok_rel_d := gif_eve_d gif\<rparr>"
      let ?p = "p\<lparr>pir_uni_u := Work_state ?w\<rparr>"
      have next1: "pier_gift_next p = Inr (Some gif, ?p)"
        using w Cons False eves(1) by (simp add: pier_gift_next_def on_work_def on_log_def)
      have inv: "work_inv L (pir_sat_e p) g log ?w"
        using w(4) eves False Cons by (auto simp: work_inv_def simp del: upt_Suc)
      have "res_ok (keeps L p) (on_res (pier_auto_kick env gif ?p) (\<lambda>p. pier_gift_kick env p))"
      proof (rule on_res_ok)
        show "res_ok (\<lambda>q. keeps L p q \<and> fec_length q = length gifs) (pier_auto_kick env gif ?p)"
          using w inv Cons by (auto simp: pier_auto_kick_def on_work_def keeps_def working_def waiting_def fec_length_def intro!: on_driver_ok)
      next
        fix q
        assume q: "keeps L p q \<and> fec_length q = length gifs"
        then have "fec_length q < fec_length p"
          using w Cons by (simp add: fec_length_def)
        from less.hyps [OF this] q show "res_ok (keeps L p) (pier_gift_kick env q)"
          by (auto intro: res_ok_mono keeps_trans keeps_working)
      qed
      then show ?thesis
        using next1 by (subst pier_gift_kick.simps) simp
    qed
  qed
qed

section \<open>Barriers\<close>

lemma god_save_ok:
  assumes "working L p" and "pir_god_u p = Some g" and "pir_log_u p = Some log" and "god_dep_w g = 0" and "god_eve_d g = log_dun_d log" and "savelike wit"
  shows "\<exists>h. lord_plan wit g = Some h \<and> keeps L p (p\<lparr>pir_god_u := Some h\<rparr>) \<and> god_dep_w h \<noteq> 0"
  using assms(1)
proof (rule workingE)
  fix g' log' w
  assume w: "pir_god_u p = Some g'" "pir_log_u p = Some log'" "pir_uni_u p = Work_state w" "work_inv L (pir_sat_e p) g' log' w" "\<not> pier_gone p"
  have eqs: "g' = g" "log' = log"
    using w assms by auto
  have ok: "lord_ok g" and nil: "god_wit_u g = []"
    using w(4) assms(4) eqs by (auto simp: work_inv_def lord_ok_def)
  have "workwrit wit" "\<not> worklike wit"
    using assms(6) by (cases wit; simp)+
  then obtain h where h: "lord_plan wit g = Some h" "lord_ok h" "grows g h" "god_wit_u h = [wit]"
    using lord_plan_ok [OF ok] nil by fastforce
  have "walls_ok (pir_sat_e p) (log_sen_d log) (log_dun_d log) (god_wit_u h) (wok_wal_u w)"
    using w(4) h(4) \<open>\<not> worklike wit\<close> eqs by (auto simp: work_inv_def walls_ok_def)
  then have "work_inv L (pir_sat_e p) h log w"
    using w(4) h(2-4) assms(5) eqs by (auto simp: work_inv_def grows_def simp del: upt_Suc)
  then have "keeps L p (p\<lparr>pir_god_u := Some h\<rparr>)"
    using w h(3) eqs by (simp add: keeps_def working_def waiting_def)
  moreover have "god_dep_w h \<noteq> 0"
    using h(2,4) by (simp add: lord_ok_def)
  ultimately show ?thesis
    using h(1) by blast
qed

lemma lord_exit_some: "lord_ok g \<Longrightarrow> \<exists>h. u3_lord_exit g = Some h"
  by (auto simp: u3_lord_exit_def lord_plan_def lord_writ_plan_def lord_writ_send_def lord_writ_make_def lord_ok_def)

text \<open>The barriers are taken off the front.\<close>

lemma walls_tl:
  assumes "walls_ok sat sen dun wits (wal # wals)" and "dun = sen" and "\<forall>wit \<in> set wits. \<not> worklike wit"
  shows "walls_ok sat sen dun wits wals"
  using assms by (cases wals) (simp_all add: walls_ok_def)

lemma pier_wall_loop_ok:
  assumes "working L p" and "pir_god_u p = Some g" and "pir_log_u p = Some log" and "pir_uni_u p = Work_state w" and "god_eve_d g = log_dun_d log"
  shows "res_ok (settles L p) (pier_wall_loop (wok_wal_u w) p)"
    and "wok_wal_u w = [] \<or> wal_f (hd (wok_wal_u w)) \<noteq> pier_work_exit_cb \<Longrightarrow> res_ok (keeps L p) (pier_wall_loop (wok_wal_u w) p)"
proof -
  have w: "work_inv L (pir_sat_e p) g log w" "\<not> pier_gone p"
    using assms(1-4) by (auto elim!: workingE)
  have refl: "keeps L p p"
    by (rule keeps_refl [OF assms(1)])
  have both: "res_ok (settles L p) (pier_wall_loop (wok_wal_u w) p) \<and>
      (wok_wal_u w = [] \<or> wal_f (hd (wok_wal_u w)) \<noteq> pier_work_exit_cb \<longrightarrow> res_ok (keeps L p) (pier_wall_loop (wok_wal_u w) p))"
  proof (cases "wok_wal_u w")
    case Nil
    then show ?thesis
      using refl by (auto intro: keeps_settles)
  next
    case (Cons wal wals)
    show ?thesis
    proof (cases "god_dep_w g = 0 \<and> wal_eve_d wal \<le> god_eve_d g")
      case False
      then show ?thesis
        using refl Cons assms by (auto intro: keeps_settles)
    next
      case True
      let ?w = "w\<lparr>wok_wal_u := wals\<rparr>"
      let ?p = "p\<lparr>pir_uni_u := Work_state ?w\<rparr>"
      have nil: "god_wit_u g = []"
        using w(1) True by (simp add: work_inv_def lord_ok_def)
      have "work_inv L (pir_sat_e p) g log ?w"
        using w(1) Cons assms(5) nil walls_tl [of "pir_sat_e p" "log_sen_d log" "log_dun_d log" "god_wit_u g" wal wals] by (auto simp: work_inv_def simp del: upt_Suc)
      then have p: "working L ?p" "keeps L p ?p"
        using assms w(2) by (auto simp: keeps_def working_def waiting_def)
      have stop: "pier_wall_loop wals q = Inr q" if "pir_god_u q = Some h" "god_dep_w h \<noteq> 0" "pir_uni_u q = Work_state ?w" for q h
        using that by (cases wals) auto
      have save: "res_ok (keeps L p) (case god_do f ?p of Inl e \<Rightarrow> Inl e | Inr q \<Rightarrow> pier_wall_loop wals q)"
        if wit: "savelike wit" and f: "f g = lord_plan wit g" for f wit
      proof -
        obtain h where h: "lord_plan wit g = Some h" "keeps L ?p (?p\<lparr>pir_god_u := Some h\<rparr>)" "god_dep_w h \<noteq> 0"
          using god_save_ok [OF p(1) _ _ _ assms(5) wit] assms(2,3) True by auto
        have "god_do f ?p = Inr (?p\<lparr>pir_god_u := Some h\<rparr>)"
          using h(1) f assms(2) by (simp add: god_do_def on_god_def)
        then show ?thesis
          using stop [of "?p\<lparr>pir_god_u := Some h\<rparr>" h] h(3) keeps_trans [OF p(2) h(2)] by simp
      qed
      show ?thesis
      proof (cases "wal_f wal")
        case pier_save_cb
        then have "res_ok (keeps L p) (pier_wall_loop (wok_wal_u w) p)"
          using save [of u3_writ_save u3_lord_save] Cons True assms by (simp add: pier_wall_call_def u3_lord_save_def cong: sum.case_cong)
        then show ?thesis
          by (auto intro: res_ok_mono keeps_settles)
      next
        case pier_cram_cb
        then have "res_ok (keeps L p) (pier_wall_loop (wok_wal_u w) p)"
          using save [of u3_writ_cram u3_lord_cram] Cons True assms by (simp add: pier_wall_call_def u3_lord_cram_def cong: sum.case_cong)
        then show ?thesis
          by (auto intro: res_ok_mono keeps_settles)
      next
        case pier_work_exit_cb
        have sat: "pir_sat_e p = u3_psat_done"
          using w(1) Cons pier_work_exit_cb by (auto simp: work_inv_def walls_ok_def)
        obtain h where h: "u3_lord_exit g = Some h"
          using lord_exit_some w(1) by (auto simp: work_inv_def)
        have "res_ok (settles L p) (pier_wall_call pier_work_exit_cb ?p)"
          using h sat assms by (auto simp: pier_wall_call_def pier_work_close_def heap_do_def pier_exit_def on_work_def on_res_assoc Let_def
              settles_def closed_def intro!: on_driver_ok exI [of _ p] refl)
        then have "res_ok (settles L p) (pier_wall_loop (wok_wal_u w) p)"
          using Cons True assms pier_work_exit_cb by (cases "pier_wall_call pier_work_exit_cb ?p") auto
        then show ?thesis
          using Cons pier_work_exit_cb by simp
      qed
    qed
  qed
  then show "res_ok (settles L p) (pier_wall_loop (wok_wal_u w) p)"
    by blast
  show "res_ok (keeps L p) (pier_wall_loop (wok_wal_u w) p)" if "wok_wal_u w = [] \<or> wal_f (hd (wok_wal_u w)) \<noteq> pier_work_exit_cb"
    using both that by blast
qed

text \<open>Whether the next barrier is the one for shutdown.\<close>

definition exit_next :: "'b u3_pier \<Rightarrow> bool" where
  "exit_next p \<longleftrightarrow> (case pir_uni_u p of Work_state w \<Rightarrow> wok_wal_u w \<noteq> [] \<and> wal_f (hd (wok_wal_u w)) = pier_work_exit_cb | _ \<Rightarrow> False)"

lemma pier_wall_ok:
  assumes "working L p"
  shows "res_ok (settles L p) (pier_wall p)" and "\<not> exit_next p \<Longrightarrow> res_ok (keeps L p) (pier_wall p)"
proof -
  from assms obtain g log w where w: "pir_god_u p = Some g" "pir_log_u p = Some log" "pir_uni_u p = Work_state w"
      "work_inv L (pir_sat_e p) g log w"
    by (rule workingE)
  show "res_ok (settles L p) (pier_wall p)"
    using w pier_wall_loop_ok(1) [OF assms w(1-3)] keeps_settles [OF keeps_refl [OF assms]] by (simp add: pier_wall_def on_work_def on_god_def on_log_def)
  show "res_ok (keeps L p) (pier_wall p)" if "\<not> exit_next p"
    using w that pier_wall_loop_ok(2) [OF assms w(1-3)] keeps_refl [OF assms] by (simp add: pier_wall_def on_work_def on_god_def on_log_def exit_next_def)
qed

end
