(* ===== verification/King_Events.thy ===== *)
theory King_Events
  imports King_Sync
begin

text \<open>
  The events of a working pier: a turn of its loop, the worker's answers, the end of a write, and requests for snapshots,
  scries and shutdown. None fails an assertion, and each keeps the invariant or closes the pier.
\<close>

section \<open>A turn of the loop\<close>

lemma gift_next_walls: "pier_gift_next p = Inr (x, q) \<Longrightarrow> exit_next q = exit_next p"
  by (cases "pir_uni_u p"; cases "pir_log_u p") (auto simp: pier_gift_next_def on_work_def on_log_def exit_next_def split: list.splits if_splits)

lemma auto_kick_walls: "pier_auto_kick env gif p = Inr q \<Longrightarrow> exit_next q = exit_next p"
  by (auto simp: pier_auto_kick_def on_work_def on_res_eq_Inr exit_next_def split: pier_union.splits)

lemma gift_kick_walls: "pier_gift_kick env p = Inr q \<Longrightarrow> exit_next q = exit_next p"
proof (induction env p rule: pier_gift_kick.induct)
  case (1 env p)
  from "1.prems" obtain x r where r: "pier_gift_next p = Inr (x, r)" "(case x of None \<Rightarrow> Inr r | Some gif \<Rightarrow> on_res (pier_auto_kick env gif r) (pier_gift_kick env)) = Inr q"
    by (subst (asm) pier_gift_kick.simps) (auto simp: on_res_eq_Inr)
  show ?case
  proof (cases x)
    case None
    then show ?thesis
      using r gift_next_walls [OF r(1)] by simp
  next
    case (Some gif)
    then obtain s where s: "pier_auto_kick env gif r = Inr s" "pier_gift_kick env s = Inr q"
      using r(2) by (auto simp: on_res_eq_Inr)
    show ?thesis
      using "1.IH" [OF r(1) refl Some s] auto_kick_walls [OF s(1)] gift_next_walls [OF r(1)] by simp
  qed
qed

lemma pier_work_live_ok: "working L p \<Longrightarrow> res_ok (\<lambda>q. keeps L p q \<and> exit_next q = exit_next p) (pier_work_live p)"
  by (erule workingE) (auto simp: pier_work_live_def on_work_def Let_def exit_next_def working_def intro!: on_driver_ok keeps_refl keeps_frame)

lemma pier_work_ok:
  assumes "working L p"
  shows "res_ok (settles L p) (pier_work env p)" and "\<not> exit_next p \<Longrightarrow> res_ok (keeps L p) (pier_work env p)"
proof -
  have kick: "res_ok (\<lambda>r. keeps L q r \<and> exit_next r = exit_next q) (pier_gift_kick env q)" if "working L q" for q
    using pier_gift_kick_ok [OF that, of env] gift_kick_walls [of env q] by (cases "pier_gift_kick env q") auto
  have pre: "res_ok (\<lambda>r. keeps L p r \<and> exit_next r = exit_next p) (on_res (pier_work_live p) (pier_gift_kick env))"
    by (rule on_res_ok [OF pier_work_live_ok [OF assms]], rule res_ok_mono [OF kick]) (auto intro: keeps_working keeps_trans)
  have eq: "pier_work env p = on_res (on_res (pier_work_live p) (pier_gift_kick env)) (\<lambda>p. on_res (pier_wall p) (\<lambda>p.
      if pir_sat_e p = u3_psat_work then pier_work_send env p else if pir_sat_e p = u3_psat_done then Inr p else Inl Assert))"
    by (simp add: pier_work_def on_res_assoc)
  have post: "res_ok (keeps L q) (if pir_sat_e q = u3_psat_work then pier_work_send env q else if pir_sat_e q = u3_psat_done then Inr q else Inl Assert)"
    if "working L q" for q
  proof -
    have "pir_sat_e q \<in> {u3_psat_work, u3_psat_done}"
      using that by (auto elim!: workingE simp: work_inv_def)
    then show ?thesis
      using pier_work_send_ok [OF that] keeps_refl [OF that] by auto
  qed
  have settle: "res_ok (settles L q) (if pir_sat_e r = u3_psat_work then pier_work_send env r else if pir_sat_e r = u3_psat_done then Inr r else Inl Assert)"
    if "settles L q r" for q r
  proof (cases "keeps L q r")
    case True
    show ?thesis
      by (rule res_ok_mono [OF post [OF keeps_working [OF True]]]) (auto intro: keeps_settles keeps_trans [OF True])
  next
    case False
    then have "pir_sat_e r = u3_psat_done"
      using that by (auto simp: settles_def closed_def)
    then show ?thesis
      using that by simp
  qed
  show "res_ok (settles L p) (pier_work env p)"
    unfolding eq
  proof (rule on_res_ok [OF pre])
    fix q
    assume q: "keeps L p q \<and> exit_next q = exit_next p"
    show "res_ok (settles L p) (on_res (pier_wall q) (\<lambda>p. if pir_sat_e p = u3_psat_work then pier_work_send env p
        else if pir_sat_e p = u3_psat_done then Inr p else Inl Assert))"
      by (rule on_res_ok [OF pier_wall_ok(1) [OF keeps_working [OF conjunct1 [OF q]]]], rule res_ok_mono [OF settle]) (use q in \<open>auto intro: keeps_settles_trans\<close>)
  qed
  show "res_ok (keeps L p) (pier_work env p)" if exit: "\<not> exit_next p"
    unfolding eq
  proof (rule on_res_ok [OF pre])
    fix q
    assume q: "keeps L p q \<and> exit_next q = exit_next p"
    then have wall: "res_ok (keeps L q) (pier_wall q)"
      using pier_wall_ok(2) [OF keeps_working] exit by blast
    show "res_ok (keeps L p) (on_res (pier_wall q) (\<lambda>p. if pir_sat_e p = u3_psat_work then pier_work_send env p
        else if pir_sat_e p = u3_psat_done then Inr p else Inl Assert))"
      by (rule on_res_ok [OF wall], rule res_ok_mono [OF post]) (use q in \<open>auto intro: keeps_working keeps_trans\<close>)
  qed
qed

section \<open>Requests\<close>

lemma wall_insert_0: "wal_eve_d wal = 0 \<Longrightarrow> wall_insert wal wals = wals @ [wal]"
  by (induction wals) (simp_all add: wall_insert_def)

lemma walls_append:
  assumes "walls_ok u3_psat_work sen dun wits wals" and "wal_eve_d wal = 0" and "wal_f wal \<noteq> pier_work_exit_cb"
  shows "walls_ok u3_psat_work sen dun wits (wals @ [wal])"
  using assms by (cases wals) (auto simp: walls_ok_def)

lemma wall_plan_ok:
  assumes "working L p" and "pir_sat_e p = u3_psat_work" and "f \<noteq> pier_work_exit_cb"
  shows "res_ok (keeps L p) (pier_wall_plan 0 f p)"
  using assms(1)
proof (rule workingE)
  fix g log w
  assume w: "pir_god_u p = Some g" "pir_log_u p = Some log" "pir_uni_u p = Work_state w" "work_inv L (pir_sat_e p) g log w" "\<not> pier_gone p"
  let ?w = "w\<lparr>wok_wal_u := wall_insert \<lparr>wal_eve_d = 0, wal_f = f\<rparr> (wok_wal_u w)\<rparr>"
  have "walls_ok u3_psat_work (log_sen_d log) (log_dun_d log) (god_wit_u g) (wok_wal_u ?w)"
    using w(4) assms(2,3) by (simp add: work_inv_def walls_append wall_insert_0)
  then have "work_inv L (pir_sat_e p) g log ?w"
    using w(4) assms(2) by (auto simp: work_inv_def simp del: upt_Suc)
  then show ?thesis
    using w assms(2) by (simp add: pier_wall_plan_def on_work_def keeps_def working_def waiting_def)
qed

lemma u3_pier_save_ok: "working L p \<Longrightarrow> res_ok (keeps L p) (u3_pier_save p)"
  using wall_plan_ok [of L p pier_save_cb] keeps_refl [of L p] by (auto simp: u3_pier_save_def elim!: workingE simp: work_inv_def)

lemma u3_pier_cram_ok: "working L p \<Longrightarrow> res_ok (keeps L p) (u3_pier_cram p)"
  using wall_plan_ok [of L p pier_cram_cb] keeps_refl [of L p] by (auto simp: u3_pier_cram_def elim!: workingE simp: work_inv_def)

lemma u3_pier_meld_ok: "working L p \<Longrightarrow> res_ok (keeps L p) (u3_pier_meld p)"
  unfolding u3_pier_meld_def u3_lord_meld_def by (rule god_plan_ok) auto

lemma u3_pier_pack_ok: "working L p \<Longrightarrow> res_ok (keeps L p) (u3_pier_pack p)"
  unfolding u3_pier_pack_def u3_lord_pack_def by (rule god_plan_ok) auto

lemma pier_peek_plan_ok: "working L p \<Longrightarrow> res_ok (keeps L p) (pier_peek_plan pic p)"
  by (erule workingE) (auto simp: pier_peek_plan_def u3_pier_spin_def on_work_def working_def intro!: keeps_frame)

text \<open>Shutdown changes the state of the pier and adds the barriers for a snapshot and for the exit.\<close>

definition shuts :: "('b u3_disk \<Rightarrow> nat \<Rightarrow> bool) \<Rightarrow> 'b u3_pier \<Rightarrow> 'b u3_pier \<Rightarrow> bool" where
  "shuts L p q \<longleftrightarrow> working L q \<and> pir_god_u q = pir_god_u p \<and> pir_log_u q = pir_log_u p \<and> kicks q @ waiting q = kicks p @ waiting p"

lemma u3_pier_exit_ok:
  assumes "working L p"
  shows "res_ok (shuts L p) (u3_pier_exit p)"
  using assms
proof (rule workingE)
  fix g log w
  assume w: "pir_god_u p = Some g" "pir_log_u p = Some log" "pir_uni_u p = Work_state w" "work_inv L (pir_sat_e p) g log w" "\<not> pier_gone p"
  show ?thesis
  proof (cases "pir_sat_e p = u3_psat_work")
    case True
    let ?wals = "wok_wal_u w @ [\<lparr>wal_eve_d = 0, wal_f = pier_save_cb\<rparr>, \<lparr>wal_eve_d = 0, wal_f = pier_work_exit_cb\<rparr>]"
    have "walls_ok u3_psat_done (log_sen_d log) (log_dun_d log) (god_wit_u g) ?wals"
      using w(4) True unfolding work_inv_def by (cases "wok_wal_u w") (auto simp: walls_ok_def butlast_append)
    then have "work_inv L u3_psat_done g log (w\<lparr>wok_wal_u := ?wals\<rparr>)"
      using w(4) by (auto simp: work_inv_def simp del: upt_Suc)
    then show ?thesis
      using w True by (simp add: u3_pier_exit_def pier_work_exit_def pier_wall_plan_def on_work_def wall_insert_0 shuts_def working_def waiting_def)
  next
    case False
    then have "pir_sat_e p = u3_psat_done"
      using w(4) by (auto simp: work_inv_def)
    then show ?thesis
      using assms by (simp add: u3_pier_exit_def shuts_def)
  qed
qed

end
