(* ===== verification/King_Hear.thy ===== *)
theory King_Hear
  imports King_Events
begin

text \<open>
  The worker's answers: what they look like, and what a working pier does with them. An answer that completes an event
  gives the pier its effects and the log its fact; anything that is not an answer to the first command in the queue
  closes the pier.
\<close>

section \<open>Closing\<close>

text \<open>The log is in order, and the effects go up to the last event that was planned.\<close>

definition full :: "serial \<Rightarrow> ('b \<Rightarrow> nat \<Rightarrow> byte list option) \<Rightarrow> nat \<Rightarrow> 'b u3_disk \<Rightarrow> nat \<Rightarrow> bool" where
  "full ser view fir log m \<longleftrightarrow> log_ok ser view fir log \<and> m = log_sen_d log"

lemma heap_do_fields: "heap_do f p = Inr q \<Longrightarrow> q = p\<lparr>pir_heap := pir_heap q\<rparr>"
  by (auto simp: heap_do_def on_res_eq_Inr)

lemma heap_do_res: "(\<And>h. res_ok Q (f (p\<lparr>pir_heap := h\<rparr>))) \<Longrightarrow> res_ok Q (on_res (heap_do k p) f)"
  by (simp add: heap_do_def on_res_assoc on_driver_ok)

lemma u3_lord_halt_ok: "pir_god_u p = Some g \<Longrightarrow>
    res_ok (\<lambda>q. pir_god_u q = None \<and> pir_uni_u q = pir_uni_u p \<and> pir_sat_e q = pir_sat_e p \<and> pir_log_u q = pir_log_u p \<and> kicks q = kicks p) (u3_lord_halt p)"
  by (auto simp: u3_lord_halt_def on_god_def intro!: heap_do_res)

lemma pier_work_close_ok: "pir_uni_u p = Work_state w \<Longrightarrow> res_ok (\<lambda>q. pir_god_u q = pir_god_u p \<and> kicks q = kicks p) (pier_work_close p)"
  by (auto simp: pier_work_close_def on_work_def heap_do_def intro!: on_driver_ok)

lemma u3_pier_bail_ok: "res_ok (\<lambda>q. closed q \<and> kicks q = kicks p) (u3_pier_bail p)"
proof -
  have 1: "res_ok (\<lambda>q. pir_god_u q = None \<and> kicks q = kicks p) (if pir_god_u p = None then Inr p else u3_lord_halt p)"
    by (cases "pir_god_u p") (auto intro: res_ok_mono [OF u3_lord_halt_ok])
  have 2: "res_ok (\<lambda>q. pir_god_u q = None \<and> kicks q = kicks p) (case pir_uni_u q of
      Work_state w \<Rightarrow> if pir_sat_e q = u3_psat_work then map_sum id (\<lambda>p. p\<lparr>pir_uni_u := No_state\<rparr>) (pier_work_close q) else Inr q | _ \<Rightarrow> Inr q)"
    if "pir_god_u q = None \<and> kicks q = kicks p" for q
  proof (cases "pir_uni_u q")
    case (Work_state w)
    then show ?thesis
      using that pier_work_close_ok [OF Work_state] by (cases "pier_work_close q") auto
  qed (use that in auto)
  show ?thesis
    unfolding u3_pier_bail_def by (rule on_res_ok [OF 1], rule on_res_ok [OF 2]) (auto simp: closed_def pier_done_def)
qed

lemma lord_bail_ok: "pir_god_u p = Some g \<Longrightarrow> res_ok (\<lambda>q. closed q \<and> kicks q = kicks p) (pier_heard_all env [Cb_halt, Cb_bail] p)"
  by (auto simp: pier_on_lord_bail_def intro!: on_res_ok [OF u3_lord_halt_ok] on_res_ok [OF u3_pier_bail_ok])

section \<open>Answers\<close>

text \<open>\<open>answers e wit pel e'\<close>: an answer to the command, by a worker that is at event \<open>e\<close> before and at \<open>e'\<close> after it.\<close>

inductive answers :: "nat \<Rightarrow> u3_writ \<Rightarrow> noun \<Rightarrow> nat \<Rightarrow> bool" where
  work_done: "mug < 2 ^ 32 \<Longrightarrow> answers e (u3_writ_work egg_u job) (u3nt c3__work c3__done (u3nt (Atom (Suc e)) (Atom mug) vir)) (Suc e)"
| work_swap: "mug < 2 ^ 32 \<Longrightarrow>
    answers e (u3_writ_work egg_u job) (u3nt c3__work c3__swap (u3nt (Atom (Suc e)) (Atom mug) (u3nc (u3nc now ovo) vir))) (Suc e)"
| work_bail: "answers e (u3_writ_work egg_u job) (u3nt c3__work c3__bail lud) e"
| peek: "dat = u3_nul \<or> u3a_is_cell dat \<Longrightarrow> answers e (u3_writ_peek pek) (u3nt c3__peek c3__done dat) e"
| peek_bail: "answers e (u3_writ_peek pek) (u3nt c3__peek c3__bail dud) e"
| live: "wit \<in> {u3_writ_save, u3_writ_cram, u3_writ_meld, u3_writ_pack} \<Longrightarrow> answers e wit (u3nc c3__live u3_nul) e"

text \<open>The effects of the event that an answer completes.\<close>

fun plea_gifts :: "noun \<Rightarrow> u3_gift list" where
  "plea_gifts (Cell tag (Cell kind dat)) =
     (if tag = c3__work \<and> kind = c3__done then
        (case u3r_trel dat of Some (Atom e, _, act) \<Rightarrow> [u3_gift_init e act] | _ \<Rightarrow> [])
      else if tag = c3__work \<and> kind = c3__swap then
        (case u3r_qual dat of Some (Atom e, _, _, act) \<Rightarrow> [u3_gift_init e act] | _ \<Rightarrow> [])
      else [])"
| "plea_gifts _ = []"

text \<open>A pier that differs in its calls, and not in the effects handed on.\<close>

definition alike :: "'b u3_pier \<Rightarrow> 'b u3_pier \<Rightarrow> bool" where
  "alike p q \<longleftrightarrow> pir_god_u q = pir_god_u p \<and> pir_log_u q = pir_log_u p \<and> pir_uni_u q = pir_uni_u p \<and> pir_sat_e q = pir_sat_e p \<and>
     kicks q = kicks p \<and> pier_gone q = pier_gone p"

lemma alike_trans: "alike p q \<Longrightarrow> alike q r \<Longrightarrow> alike p r"
  by (simp add: alike_def)

lemma alike_refl [simp]: "alike p p"
  by (simp add: alike_def)

lemma heard_single: "pier_heard_all env [cb] p = pier_heard env cb p"
  by (cases "pier_heard env cb p") auto

lemma spin_calls_ok:
  assumes "set spin \<subseteq> insert Cb_spun (range Cb_spin)" and "pir_sat_e p \<in> {u3_psat_wyrd, u3_psat_work, u3_psat_done}"
    and "\<And>q. alike p q \<Longrightarrow> res_ok R (pier_heard_all env cbs q)"
  shows "res_ok R (pier_heard_all env (spin @ cbs) p)"
  using assms
proof (induction spin arbitrary: p)
  case (Cons c spin)
  have "res_ok (alike p) (pier_heard env c p)"
    using Cons.prems(1,2) by (auto simp: pier_on_lord_work_spin_def pier_on_lord_work_spun_def alike_def intro!: on_driver_ok)
  then show ?case
    using Cons by (auto simp: alike_def intro!: on_res_ok Cons.IH)
qed simp

lemma lord_spin_next_None: "lord_spin_next wits = None \<longleftrightarrow> (\<forall>wit \<in> set wits. \<not> worklike wit)"
  by (induction wits rule: lord_spin_next.induct) auto

lemma lord_work_spin_ok:
  assumes "god_pin_o g"
  shows "\<exists>spin. lord_work_spin g = Some (spin, g\<lparr>god_pin_o := (\<exists>wit \<in> set (god_wit_u g). worklike wit)\<rparr>) \<and> set spin \<subseteq> insert Cb_spun (range Cb_spin)"
  using assms lord_spin_next_None [of "god_wit_u g"] by (cases "lord_spin_next (god_wit_u g)") (auto simp: lord_work_spin_def)

text \<open>The controller without the first command, when it is not work, and with the spinner as it should be.\<close>

definition popped :: "u3_lord \<Rightarrow> u3_lord \<Rightarrow> bool" where
  "popped g h \<longleftrightarrow> god_wit_u g \<noteq> [] \<and> god_wit_u h = tl (god_wit_u g) \<and> god_inn_u h = god_inn_u g \<and> god_wyrd h = god_wyrd g \<and> lord_ok h"

lemma popped_ok:
  assumes "lord_ok g" and "god_wit_u g = wit # wits" and "h = g\<lparr>god_wit_u := wits, god_dep_w := god_dep_w g - 1, god_eve_d := e, god_mug_l := m,
      god_pin_o := (\<exists>wit \<in> set wits. worklike wit)\<rparr>"
  shows "popped g h"
  using assms by (cases wits) (auto simp: popped_def lord_ok_def)

lemma popped_ex: "lord_ok g \<Longrightarrow> god_wit_u g = wit # wits \<Longrightarrow> \<exists>h. popped g h \<and> god_eve_d h = e"
  using popped_ok [where e = e, OF _ _ refl] by fastforce

lemma popped_inv:
  assumes "work_inv L sat g log w" and "popped g h" and "god_eve_d h = god_eve_d g"
  shows "work_inv L sat h log w"
proof -
  have sub: "set (god_wit_u h) \<subseteq> set (god_wit_u g)"
    using assms(2) by (cases "god_wit_u g") (auto simp: popped_def)
  then have "walls_ok sat (log_sen_d log) (log_dun_d log) (god_wit_u h) (wok_wal_u w)"
    using assms(1) by (auto simp: work_inv_def walls_ok_def)
  then show ?thesis
    using assms sub by (auto simp: work_inv_def popped_def simp del: upt_Suc)
qed

text \<open>What a working pier has come to after an answer: \<open>h\<close> is the controller without the command.\<close>

definition heard_on :: "serial \<Rightarrow> ('b \<Rightarrow> nat \<Rightarrow> byte list option) \<Rightarrow> nat \<Rightarrow> u3_lord \<Rightarrow> u3_gift list \<Rightarrow> 'b u3_pier \<Rightarrow> 'b u3_pier \<Rightarrow> bool" where
  "heard_on ser view fir h gifs p q \<longleftrightarrow>
     working (full ser view fir) q \<and> grows h (the (pir_god_u q)) \<and> kicks q @ waiting q = kicks p @ waiting p @ gifs \<and>
     log_dun_d (the (pir_log_u q)) = log_dun_d (the (pir_log_u p)) \<and> log_mdb_u (the (pir_log_u q)) = log_mdb_u (the (pir_log_u p))"

definition heard_to :: "serial \<Rightarrow> ('b \<Rightarrow> nat \<Rightarrow> byte list option) \<Rightarrow> nat \<Rightarrow> u3_lord \<Rightarrow> u3_gift list \<Rightarrow> 'b u3_pier \<Rightarrow> 'b u3_pier \<Rightarrow> bool" where
  "heard_to ser view fir h gifs p q \<longleftrightarrow>
     heard_on ser view fir h gifs p q \<or> closed q \<and> (kicks q = kicks p \<or> (\<exists>r. heard_on ser view fir h gifs p r \<and> kicks q = kicks r))"

lemma settles_heard:
  assumes "settles (full ser view fir) p' q" and "pir_god_u p' = Some h" and "kicks p' @ waiting p' = kicks p @ waiting p @ gifs"
    and "pir_log_u p' = Some log'" and "log_dun_d log' = log_dun_d (the (pir_log_u p))" and "log_mdb_u log' = log_mdb_u (the (pir_log_u p))"
  shows "heard_to ser view fir h gifs p q"
proof -
  have "heard_on ser view fir h gifs p r" if "keeps (full ser view fir) p' r" for r
    using that assms(2-6) by (auto simp: keeps_def heard_on_def)
  then show ?thesis
    using assms(1) unfolding settles_def heard_to_def by blast
qed

lemma closed_heard: "closed q \<Longrightarrow> kicks q = kicks p \<Longrightarrow> heard_to ser view fir h gifs p q"
  by (auto simp: heard_to_def)

section \<open>A working pier and an answer\<close>

lemma working_fullE:
  assumes "working (full ser view fir) p"
  obtains g log w where "pir_god_u p = Some g" and "pir_log_u p = Some log" and "pir_uni_u p = Work_state w"
    and "work_inv (full ser view fir) (pir_sat_e p) g log w" and "log_ok ser view fir log" and "wok_rel_d w + length (wok_fec_u w) = log_sen_d log"
    and "god_eve_d g = log_sen_d log" and "lord_ok g" and "\<not> god_wyrd g" and "pir_sat_e p \<in> {u3_psat_work, u3_psat_done}" and "\<not> pier_gone p"
  using assms by (rule workingE) (auto simp: work_inv_def full_def intro: that)

lemma pier_on_lord_work_done_ok:
  assumes "working (full ser view fir) p" and "pir_god_u p = Some g" and "god_wit_u g = u3_writ_work egg_u job # wits"
    and "alike (p\<lparr>pir_god_u := Some h\<rparr>) q" and "popped g h" and "god_eve_d h = Suc (god_eve_d g)" and "fact_eve_d tac = Suc (god_eve_d g)"
    and "gif_eve_d gif = Suc (god_eve_d g)" and "env_ser env = ser"
  shows "res_ok (heard_to ser view fir h [gif] p) (pier_on_lord_work_done env egg_u tac gif q)"
  using assms(1)
proof (rule working_fullE)
  fix g' log w
  assume w: "pir_god_u p = Some g'" "pir_log_u p = Some log" "pir_uni_u p = Work_state w" "work_inv (full ser view fir) (pir_sat_e p) g' log w"
    "log_ok ser view fir log" "wok_rel_d w + length (wok_fec_u w) = log_sen_d log" "god_eve_d g' = log_sen_d log" "lord_ok g'" "\<not> god_wyrd g'"
    "pir_sat_e p \<in> {u3_psat_work, u3_psat_done}" "\<not> pier_gone p"
  have g': "g' = g"
    using w(1) assms(2) by simp
  have q: "pir_god_u q = Some h" "pir_log_u q = Some log" "pir_uni_u q = Work_state w" "pir_sat_e q = pir_sat_e p" "kicks q = kicks p" "\<not> pier_gone q"
    using assms(4) w by (auto simp: alike_def)
  obtain log' where log': "u3_disk_plan ser tac log = Some log'" "log_ok ser view fir log'" "log_sen_d log' = Suc (log_sen_d log)"
      "log_dun_d log' = log_dun_d log" "log_mdb_u log' = log_mdb_u log"
    using u3_disk_plan_ok [OF w(5)] assms(7) w(7) g' by auto
  let ?w = "w\<lparr>wok_fec_u := wok_fec_u w @ [gif]\<rparr>"
  have rel: "wok_rel_d w \<le> log_sen_d log"
    using w(6) by simp
  have "walls_ok (pir_sat_e p) (log_sen_d log') (log_dun_d log') (god_wit_u h) (wok_wal_u w)"
    using w(4) assms(3,5) g' log' by (auto simp: work_inv_def walls_ok_def popped_def)
  moreover have "\<not> (\<exists>wit \<in> set (god_wit_u h). savelike wit)"
    using w(8) assms(3,5) g' by (auto simp: lord_ok_def popped_def)
  moreover have "map gif_eve_d (wok_fec_u ?w) = [Suc (wok_rel_d w)..<Suc (wok_rel_d w + length (wok_fec_u ?w))]"
    using w(4,6,7) assms(8) g' rel by (auto simp: work_inv_def)
  ultimately have inv: "work_inv (full ser view fir) (pir_sat_e p) h log' ?w"
    using w(4,6,7,9) assms(5,6) g' log' by (auto simp: work_inv_def full_def popped_def simp del: upt_Suc)
  have step: "res_ok (heard_to ser view fir h [gif] p) (on_res (pier_gift_plan gif r) (pier_work env))"
    if r: "pir_god_u r = Some h" "pir_log_u r = Some log'" "pir_uni_u r = Work_state w" "pir_sat_e r = pir_sat_e p" "kicks r = kicks p" "\<not> pier_gone r" for r
  proof -
    let ?r = "r\<lparr>pir_uni_u := Work_state ?w\<rparr>"
    have plan: "pier_gift_plan gif r = Inr ?r"
      using r assms(8) w(7) rel g' by (simp add: pier_gift_plan_def on_work_def)
    have "working (full ser view fir) ?r"
      using r inv by (simp add: working_def)
    then show ?thesis
      unfolding plan using pier_work_ok(1) [of _ ?r env] r log' w
      by (auto simp: waiting_def intro!: res_ok_mono [OF pier_work_ok(1)] elim!: settles_heard [where log' = log'])
  qed
  have plan: "pier_plan env tac q = Inr (q\<lparr>pir_log_u := Some log'\<rparr>)"
    using q log'(1) assms(9) by (simp add: pier_plan_def on_log_def)
  show ?thesis
    using q w(10) by (auto simp: pier_on_lord_work_done_def plan intro!: heap_do_res step)
qed

lemma pier_on_lord_work_bail_ok:
  assumes "working (full ser view fir) p" and "pir_god_u p = Some g" and "alike (p\<lparr>pir_god_u := Some h\<rparr>) q" and "popped g h" and "god_eve_d h = god_eve_d g"
  shows "working (full ser view fir) q" and "res_ok (heard_to ser view fir h [] p) (pier_on_lord_work_bail env egg_u lud q)"
proof -
  from assms(1) obtain g' log w where w: "pir_god_u p = Some g'" "pir_log_u p = Some log" "pir_uni_u p = Work_state w"
      "work_inv (full ser view fir) (pir_sat_e p) g' log w" "pir_sat_e p \<in> {u3_psat_work, u3_psat_done}" "\<not> pier_gone p"
    by (rule working_fullE)
  have q: "pir_god_u q = Some h" "pir_log_u q = Some log" "pir_uni_u q = Work_state w" "pir_sat_e q = pir_sat_e p" "kicks q = kicks p" "\<not> pier_gone q"
    using assms(3) w by (auto simp: alike_def)
  have inv: "work_inv (full ser view fir) (pir_sat_e p) h log w"
    using popped_inv [OF _ assms(4,5)] w assms(2) by simp
  then show "working (full ser view fir) q"
    using q by (simp add: working_def)
  have "res_ok (heard_to ser view fir h [] p) (pier_work env (q\<lparr>pir_heap := k\<rparr>))" for k
  proof -
    have "working (full ser view fir) (q\<lparr>pir_heap := k\<rparr>)"
      using inv q by (simp add: working_def)
    then show ?thesis
      using q w by (auto simp: waiting_def intro!: res_ok_mono [OF pier_work_ok(1)] elim!: settles_heard [where log' = log])
  qed
  then show "res_ok (heard_to ser view fir h [] p) (pier_on_lord_work_bail env egg_u lud q)"
    using q w(5) by (auto simp: pier_on_lord_work_bail_def intro!: heap_do_res)
qed

text \<open>
  An answer to an event, whatever the pier does with its effects: \<open>R\<close> is the result, for the controller without the
  command and the effects.
\<close>

lemma foul_heard:
  assumes "pir_god_u p' = Some g'" and "kicks p' = kicks p" and "\<And>q. closed q \<Longrightarrow> kicks q = kicks p \<Longrightarrow> Q q"
  shows "res_ok Q (pier_heard_all env [Cb_egg_free egg_u, Cb_halt, Cb_bail] p')"
proof -
  have "res_ok Q (pier_heard_all env [Cb_halt, Cb_bail] (p'\<lparr>pir_heap := k\<rparr>))" for k
    by (rule res_ok_mono [OF lord_bail_ok]) (use assms in auto)
  then show ?thesis
    by (subst pier_heard_all.simps(2), subst pier_heard.simps) (rule heap_do_res)
qed

lemma work_done_heard:
  assumes "lord_ok g" and "pir_sat_e p \<in> {u3_psat_wyrd, u3_psat_work, u3_psat_done}" and "god_wit_u g = u3_writ_work egg_u job # wits"
    and "\<And>h q tac gif. \<lbrakk>alike (p\<lparr>pir_god_u := Some h\<rparr>) q; popped g h; god_eve_d h = Suc (god_eve_d g); fact_eve_d tac = Suc (god_eve_d g);
      gif_eve_d gif = Suc (god_eve_d g)\<rbrakk> \<Longrightarrow> res_ok (R h [gif]) (pier_heard env (Cb_work_done egg_u tac gif) q)"
  shows "\<exists>h. popped g h \<and> god_eve_d h = Suc (god_eve_d g) \<and>
    res_ok (R h [u3_gift_init (Suc (god_eve_d g)) act])
      (on_res (some_or Assert (lord_work_done egg_u (Suc (god_eve_d g)) mug job2 act (g\<lparr>god_wit_u := wits, god_dep_w := god_dep_w g - 1\<rparr>)))
        (\<lambda>(cbs, god). pier_heard_all env cbs (p\<lparr>pir_god_u := Some god\<rparr>)))"
proof -
  let ?e = "Suc (god_eve_d g)"
  let ?g = "g\<lparr>god_wit_u := wits, god_dep_w := god_dep_w g - 1, god_mug_l := of_nat mug, god_eve_d := ?e\<rparr>"
  let ?h = "?g\<lparr>god_pin_o := (\<exists>wit \<in> set wits. worklike wit)\<rparr>"
  have pin: "god_pin_o ?g"
    using assms(1,3) by (simp add: lord_ok_def)
  obtain spin where spin: "lord_work_spin ?g = Some (spin, ?h)" "set spin \<subseteq> insert Cb_spun (range Cb_spin)"
    using lord_work_spin_ok [OF pin] by auto
  let ?tac = "u3_fact_init ?e (of_nat mug) job2" and ?gif = "u3_gift_init ?e act"
  have pop: "popped g ?h"
    by (rule popped_ok [OF assms(1,3), where e = ?e and m = "of_nat mug"]) simp
  have "res_ok (R ?h [?gif]) (pier_heard_all env (spin @ [Cb_work_done egg_u ?tac ?gif]) (p\<lparr>pir_god_u := Some ?h\<rparr>))"
  proof (rule spin_calls_ok [OF spin(2)])
    fix q
    assume q: "alike (p\<lparr>pir_god_u := Some ?h\<rparr>) q"
    show "res_ok (R ?h [?gif]) (pier_heard_all env [Cb_work_done egg_u ?tac ?gif] q)"
      unfolding heard_single by (rule assms(4) [OF q pop]) (simp_all add: u3_fact_init_def u3_gift_init_def)
  qed (use assms(2) in auto)
  then show ?thesis
    using pop spin(1) by (intro exI [of _ ?h]) (simp add: lord_work_done_def)
qed

lemma pop_Cons: "god_wit_u g = wit # wits \<Longrightarrow> lord_writ_pop g = Some (wit, g\<lparr>god_wit_u := wits, god_dep_w := god_dep_w g - 1\<rparr>)"
  by (simp add: lord_writ_pop_def)

lemma lord_on_work:
  assumes "god_wit_u g = u3_writ_work egg_u job # wits"
  shows "lord_on_plea (Some (u3nt c3__work c3__done dat)) g = lord_plea_work_done egg_u job dat (g\<lparr>god_wit_u := wits, god_dep_w := god_dep_w g - 1\<rparr>)"
    and "lord_on_plea (Some (u3nt c3__work c3__swap dat)) g = lord_plea_work_swap egg_u dat (g\<lparr>god_wit_u := wits, god_dep_w := god_dep_w g - 1\<rparr>)"
    and "lord_on_plea (Some (u3nt c3__work c3__bail dat)) g = lord_plea_work_bail egg_u dat (g\<lparr>god_wit_u := wits, god_dep_w := god_dep_w g - 1\<rparr>)"
  by (simp_all add: lord_on_plea_def lord_plea_work_def pop_Cons [OF assms])

lemma trel_Cell [simp]: "u3r_trel (u3nt a b c) = Some (a, b, c)"
  by (simp add: u3r_trel_def)

lemma qual_Cell [simp]: "u3r_qual (u3nt a b (u3nc c d)) = Some (a, b, c, d)"
  by (simp add: u3r_qual_def)

lemma work_answer:
  assumes "lord_ok g" and "pir_sat_e p \<in> {u3_psat_wyrd, u3_psat_work, u3_psat_done}" and "god_wit_u g = u3_writ_work egg_u job # wits"
    and "\<And>h q tac gif. \<lbrakk>alike (p\<lparr>pir_god_u := Some h\<rparr>) q; popped g h; god_eve_d h = Suc (god_eve_d g); fact_eve_d tac = Suc (god_eve_d g);
      gif_eve_d gif = Suc (god_eve_d g)\<rbrakk> \<Longrightarrow> res_ok (R h [gif]) (pier_heard env (Cb_work_done egg_u tac gif) q)"
    and "\<And>h q lud. \<lbrakk>alike (p\<lparr>pir_god_u := Some h\<rparr>) q; popped g h; god_eve_d h = god_eve_d g\<rbrakk> \<Longrightarrow> res_ok (R h []) (pier_heard env (Cb_work_bail egg_u lud) q)"
    and "\<And>h gifs q. closed q \<Longrightarrow> kicks q = kicks p \<Longrightarrow> R h gifs q"
    and "pir_god_u p = Some g" and "answers (god_eve_d g) (u3_writ_work egg_u job) pel e'"
  shows "\<exists>h. popped g h \<and> god_eve_d h = e' \<and> res_ok (R h (plea_gifts pel)) (pier_on_plea env (Some pel) p)"
proof -
  note complete = work_done_heard [where R = R, OF assms(1-4)]
  have big: "res_ok (R h gifs) (pier_heard_all env [Cb_egg_free egg_u, Cb_halt, Cb_bail] (p\<lparr>pir_god_u := Some g2\<rparr>))" for h gifs g2
    by (rule foul_heard) (use assms(6) in auto)
  obtain h0 where h0: "popped g h0" "god_eve_d h0 = e'"
    using popped_ex [OF assms(1,3)] by blast
  note on = pier_on_plea_def on_god_def lord_on_work [OF assms(3)] assms(7) u3r_safe_chub_def
  show ?thesis
    using assms(8)
  proof cases
    case (work_done mug vir)
    show ?thesis
    proof (cases "Suc (god_eve_d g) < 2 ^ 64")
      case True
      then have eq: "pier_on_plea env (Some pel) p = on_res (some_or Assert (lord_work_done egg_u (Suc (god_eve_d g)) mug job vir
          (g\<lparr>god_wit_u := wits, god_dep_w := god_dep_w g - 1\<rparr>))) (\<lambda>(cbs, god). pier_heard_all env cbs (p\<lparr>pir_god_u := Some god\<rparr>))"
        using work_done by (simp add: on lord_plea_work_done_def u3r_safe_word_def)
      have gifts: "plea_gifts pel = [u3_gift_init (Suc (god_eve_d g)) vir]" and e: "e' = Suc (god_eve_d g)"
        using work_done by simp_all
      show ?thesis
        unfolding eq gifts e by (rule complete)
    next
      case False
      then show ?thesis
        using work_done h0 big by (intro exI [of _ h0]) (simp add: on lord_plea_work_done_def lord_work_foul_def lord_plea_foul_def lord_bail_def del: pier_heard_all.simps)
    qed
  next
    case (work_swap mug now ovo vir)
    show ?thesis
    proof (cases "Suc (god_eve_d g) < 2 ^ 64")
      case True
      then have eq: "pier_on_plea env (Some pel) p = on_res (some_or Assert (lord_work_done egg_u (Suc (god_eve_d g)) mug (u3nc now ovo) vir
          (g\<lparr>god_wit_u := wits, god_dep_w := god_dep_w g - 1\<rparr>))) (\<lambda>(cbs, god). pier_heard_all env cbs (p\<lparr>pir_god_u := Some god\<rparr>))"
        using work_swap by (simp add: on lord_plea_work_swap_def u3r_safe_word_def)
      have gifts: "plea_gifts pel = [u3_gift_init (Suc (god_eve_d g)) vir]" and e: "e' = Suc (god_eve_d g)"
        using work_swap by simp_all
      show ?thesis
        unfolding eq gifts e by (rule complete)
    next
      case False
      then show ?thesis
        using work_swap h0 big by (intro exI [of _ h0]) (simp add: on lord_plea_work_swap_def lord_work_foul_def lord_plea_foul_def lord_bail_def del: pier_heard_all.simps)
    qed
  next
    case (work_bail lud)
    let ?g = "g\<lparr>god_wit_u := wits, god_dep_w := god_dep_w g - 1\<rparr>"
    let ?h = "?g\<lparr>god_pin_o := (\<exists>wit \<in> set wits. worklike wit)\<rparr>"
    have pin: "god_pin_o ?g"
      using assms(1,3) by (simp add: lord_ok_def)
    obtain spin where spin: "lord_work_spin ?g = Some (spin, ?h)" "set spin \<subseteq> insert Cb_spun (range Cb_spin)"
      using lord_work_spin_ok [OF pin] by auto
    have pop: "popped g ?h"
      by (rule popped_ok [OF assms(1,3), where e = "god_eve_d g" and m = "god_mug_l g"]) simp
    have "res_ok (R ?h []) (pier_heard_all env (spin @ [Cb_work_bail egg_u lud]) (p\<lparr>pir_god_u := Some ?h\<rparr>))"
    proof (rule spin_calls_ok [OF spin(2)])
      fix q
      assume q: "alike (p\<lparr>pir_god_u := Some ?h\<rparr>) q"
      show "res_ok (R ?h []) (pier_heard_all env [Cb_work_bail egg_u lud] q)"
        unfolding heard_single by (rule assms(5) [OF q pop]) simp
    qed (use assms(2) in auto)
    then show ?thesis
      using pop spin(1) work_bail by (intro exI [of _ ?h]) (simp add: on lord_plea_work_bail_def)
  qed auto
qed

lemma on_work_answer:
  assumes "working (full ser view fir) p" and "pir_god_u p = Some g" and "god_wit_u g = u3_writ_work egg_u job # wits"
    and "answers (god_eve_d g) (u3_writ_work egg_u job) pel e'" and "env_ser env = ser"
  shows "\<exists>h. popped g h \<and> god_eve_d h = e' \<and> res_ok (heard_to ser view fir h (plea_gifts pel) p) (pier_on_plea env (Some pel) p)"
proof -
  have ok: "lord_ok g" "\<not> god_wyrd g" "pir_sat_e p \<in> {u3_psat_work, u3_psat_done}"
    using assms(1,2) by (auto elim!: working_fullE)
  have same: "pir_god_u q = Some h \<and> \<not> god_wyrd h" if "alike (p\<lparr>pir_god_u := Some h\<rparr>) q" "popped g h" for h q
    using that ok(2) by (simp add: alike_def popped_def)
  show ?thesis
  proof (rule work_answer [where R = "\<lambda>h gifs. heard_to ser view fir h gifs p", OF ok(1) _ assms(3) _ _ _ assms(2,4)])
    fix h q and tac :: u3_fact and gif :: u3_gift
    assume h: "alike (p\<lparr>pir_god_u := Some h\<rparr>) q" "popped g h" "god_eve_d h = Suc (god_eve_d g)" "fact_eve_d tac = Suc (god_eve_d g)"
      "gif_eve_d gif = Suc (god_eve_d g)"
    show "res_ok (heard_to ser view fir h [gif] p) (pier_heard env (Cb_work_done egg_u tac gif) q)"
      using pier_on_lord_work_done_ok [OF assms(1-3) h assms(5)] same [OF h(1,2)] by (simp add: on_god_def)
  next
    fix h q lud
    assume h: "alike (p\<lparr>pir_god_u := Some h\<rparr>) q" "popped g h" "god_eve_d h = god_eve_d g"
    show "res_ok (heard_to ser view fir h [] p) (pier_heard env (Cb_work_bail egg_u lud) q)"
      using pier_on_lord_work_bail_ok(2) [OF assms(1,2) h] same [OF h(1,2)] by (simp add: on_god_def)
  qed (use ok(3) in \<open>auto intro: closed_heard\<close>)
qed

lemma popped_other:
  assumes "lord_ok g" and "god_wit_u g = wit # wits" and "\<not> worklike wit"
  shows "popped g (g\<lparr>god_wit_u := wits, god_dep_w := god_dep_w g - 1\<rparr>)"
  using assms by (cases wits) (auto simp: popped_def lord_ok_def)

lemma alike_heard:
  assumes "working (full ser view fir) p" and "pir_god_u p = Some g" and "alike (p\<lparr>pir_god_u := Some h\<rparr>) q" and "popped g h" and "god_eve_d h = god_eve_d g"
  shows "heard_to ser view fir h [] p q"
  using assms(3) pier_on_lord_work_bail_ok(1) [OF assms] by (auto simp: alike_def heard_to_def heard_on_def waiting_def)

lemma scry_heard:
  assumes "working (full ser view fir) p" and "pir_god_u p = Some g" and "alike (p\<lparr>pir_god_u := Some h\<rparr>) q" and "popped g h" and "god_eve_d h = god_eve_d g"
  shows "res_ok (heard_to ser view fir h [] p) (pier_peek_call fun_f rep q)"
proof (cases fun_f)
  case (Peek_f n)
  then show ?thesis
    using alike_heard [OF assms(1,2) _ assms(4,5)] assms(3) by (simp add: pier_peek_call_def alike_def)
next
  case Scry_done
  let ?q = "pier_call (Scry_print rep) q"
  have q: "alike (p\<lparr>pir_god_u := Some h\<rparr>) ?q"
    using assms(3) by (simp add: alike_def)
  have "res_ok (heard_to ser view fir h [] p) (u3_pier_exit ?q)"
    by (rule res_ok_mono [OF u3_pier_exit_ok [OF pier_on_lord_work_bail_ok(1) [OF assms(1,2) q assms(4,5)]]])
      (use q in \<open>auto simp: shuts_def heard_to_def heard_on_def alike_def waiting_def\<close>)
  then show ?thesis
    using Scry_done by (simp add: pier_peek_call_def pier_on_scry_done_def)
qed

lemma peek_done_ex: "dat = u3_nul \<or> u3a_is_cell dat \<Longrightarrow> \<exists>rep. lord_plea_peek_done pek dat h = Some ([Cb_peek (pek_fun_f pek) rep], h)"
  by (cases dat) (simp_all add: lord_plea_peek_done_def u3_nul_def)

lemma on_peek_answer:
  assumes "working (full ser view fir) p" and "pir_god_u p = Some g" and "god_wit_u g = u3_writ_peek pek # wits"
    and "answers (god_eve_d g) (u3_writ_peek pek) pel e'"
  shows "\<exists>h. popped g h \<and> god_eve_d h = e' \<and> res_ok (heard_to ser view fir h (plea_gifts pel) p) (pier_on_plea env (Some pel) p)"
proof -
  let ?h = "g\<lparr>god_wit_u := wits, god_dep_w := god_dep_w g - 1\<rparr>"
  have pop: "popped g ?h"
    by (rule popped_other [OF working_lord_ok [OF assms(1,2)] assms(3)]) simp
  note scry = scry_heard [OF assms(1,2) _ pop] and pops = pop_Cons [OF assms(3)]
  show ?thesis
    using assms(4)
  proof cases
    case (peek dat)
    obtain rep where "lord_plea_peek_done pek dat ?h = Some ([Cb_peek (pek_fun_f pek) rep], ?h)"
      using peek_done_ex peek(3) by blast
    then show ?thesis
      using peek assms(2) pop scry [of "p\<lparr>pir_god_u := Some ?h\<rparr>" "pek_fun_f pek" rep]
      by (intro exI [of _ ?h]) (simp add: pier_on_plea_def on_god_def lord_on_plea_def lord_plea_peek_def pops heard_single del: pier_heard_all.simps)
  next
    case (peek_bail dud)
    show ?thesis
      using peek_bail assms(2) pop scry [of "pier_call (Goof_print dud) (p\<lparr>pir_god_u := Some ?h\<rparr>)" "pek_fun_f pek" u3_nul]
      by (intro exI [of _ ?h]) (simp add: pier_on_plea_def on_god_def lord_on_plea_def lord_plea_peek_def pops lord_plea_peek_bail_def alike_def
          heard_single pier_heard_all.simps(2) [of _ _ "[_]"] del: pier_heard_all.simps)
  qed auto
qed

lemma on_live_answer:
  assumes "working (full ser view fir) p" and "pir_god_u p = Some g" and "god_wit_u g = wit # wits"
    and "wit \<in> {u3_writ_save, u3_writ_cram, u3_writ_meld, u3_writ_pack}"
  shows "\<exists>h. popped g h \<and> god_eve_d h = god_eve_d g \<and> res_ok (heard_to ser view fir h [] p) (pier_on_plea env (Some (u3nc c3__live u3_nul)) p)"
proof -
  let ?h = "g\<lparr>god_wit_u := wits, god_dep_w := god_dep_w g - 1\<rparr>"
  have pop: "popped g ?h"
    by (rule popped_other [OF working_lord_ok [OF assms(1,2)] assms(3)]) (use assms(4) in auto)
  have heard: "heard_to ser view fir ?h [] p (p\<lparr>pir_god_u := Some ?h\<rparr>)"
    by (rule alike_heard [OF assms(1,2) _ pop]) auto
  have sat: "pir_sat_e p \<noteq> u3_psat_play"
    using assms(1) by (auto elim!: working_fullE)
  show ?thesis
    using assms(2,4) pop heard sat
    by (intro exI [of _ ?h]) (auto simp: pier_on_plea_def on_god_def lord_on_plea_def lord_plea_live_def pop_Cons [OF assms(3)] pier_on_lord_cram_def)
qed

text \<open>An answer to the first command in the queue.\<close>

lemma pier_on_plea_ok:
  assumes "working (full ser view fir) p" and "pir_god_u p = Some g" and "god_wit_u g = wit # wits"
    and "answers (god_eve_d g) wit pel e'" and "env_ser env = ser"
  shows "\<exists>h. popped g h \<and> god_eve_d h = e' \<and> res_ok (heard_to ser view fir h (plea_gifts pel) p) (pier_on_plea env (Some pel) p)"
proof (cases wit)
  case (u3_writ_work egg_u job)
  then show ?thesis
    using on_work_answer [OF assms(1,2) _ _ assms(5)] assms(3,4) by blast
next
  case (u3_writ_peek pek)
  then show ?thesis
    using on_peek_answer [OF assms(1,2)] assms(3,4) by blast
qed (use assms(4) on_live_answer [OF assms(1-3), of env] in \<open>auto elim!: answers.cases simp: u3_nul_def\<close>)

text \<open>Output of the worker.\<close>

lemma on_slog_ok:
  assumes "working (full ser view fir) p" and "pir_god_u p = Some g" and "tag = c3__slog \<or> tag = c3__flog"
  shows "res_ok (\<lambda>q. keeps (full ser view fir) p q \<or> closed q \<and> kicks q = kicks p) (pier_on_plea env (Some (u3nc tag dat)) p)"
proof -
  have bail: "res_ok (\<lambda>q. keeps (full ser view fir) p q \<or> closed q \<and> kicks q = kicks p) (pier_heard_all env [Cb_halt, Cb_bail] (p\<lparr>pir_god_u := Some g\<rparr>))"
    by (rule res_ok_mono [OF lord_bail_ok]) auto
  have print: "keeps (full ser view fir) p (pier_call c (p\<lparr>pir_god_u := Some g\<rparr>))" if "\<And>gif. c \<noteq> Kick gif" "c \<noteq> King_done" for c
    by (rule keeps_frame [OF assms(1)]) (use that assms(2) in \<open>auto split: pier_call.splits\<close>)
  show ?thesis
    using assms(3)
  proof
    assume tag: "tag = c3__slog"
    show ?thesis
    proof (cases "\<exists>pri tan. dat = Cell (Atom pri) tan \<and> pri < 2 ^ 32")
      case True
      then show ?thesis
        using tag print assms(2) by (auto simp: pier_on_plea_def on_god_def lord_on_plea_def lord_plea_slog_def u3r_safe_word_def pier_on_lord_slog_def)
    next
      case False
      then have "lord_plea_slog dat g = lord_plea_foul g"
        by (cases dat; cases "(case dat of Cell h t \<Rightarrow> h)") (auto simp: lord_plea_slog_def u3r_safe_word_def split: option.splits noun.splits if_splits)
      then show ?thesis
        using tag bail assms(2) by (simp add: pier_on_plea_def on_god_def lord_on_plea_def lord_plea_foul_def lord_bail_def del: pier_heard_all.simps)
    qed
  next
    assume tag: "tag = c3__flog"
    show ?thesis
      using tag bail print assms(2) by (cases dat) (simp_all add: pier_on_plea_def on_god_def lord_on_plea_def lord_plea_flog_def lord_plea_foul_def lord_bail_def)
  qed
qed

end
