(* ===== verification/Serf_Correct.thy ===== *)
theory Serf_Correct
  imports Serf
begin

text \<open>
  The correctness of the worker: an event is applied completely or not at all, event numbers count the events that were
  accepted, and replaying the events that were accepted leads to the same kernel.
\<close>

text \<open>Between commands no event is in progress, and the persistent state has the number of the last event.\<close>

definition serf_ok :: "u3_serf \<Rightarrow> bool" where
  "serf_ok sef \<longleftrightarrow> sef_sen_d sef = sef_dun_d sef \<and> sef_eve_d sef = sef_dun_d sef"

text \<open>The kernel and what belongs to it.\<close>

definition kernel_of :: "u3_serf \<Rightarrow> nat \<times> noun \<times> noun \<times> u32" where
  "kernel_of sef = (sef_dun_d sef, sef_roc sef, sef_now sef, sef_mug_l sef)"

lemma serf_sure_feck_fields:
  assumes "serf_sure_feck pre_w pos_w vir sef = Inr (vir', sef')"
  shows "sef_sen_d sef' = sef_sen_d sef" "sef_dun_d sef' = sef_dun_d sef" "sef_eve_d sef' = sef_eve_d sef" "sef_mug_l sef' = sef_mug_l sef"
    "sef_roc sef' = sef_roc sef" "sef_now sef' = sef_now sef" "sef_img sef' = sef_img sef"
  using assms by (auto simp: serf_sure_feck_def on_ok_eq_Inr Let_def split: prod.split_asm if_split_asm)

text \<open>Whether the effects can be read does not depend on the state.\<close>

lemma serf_sure_feck_iff: "(\<exists>r. serf_sure_feck pre_w pos_w vir sef = Inr r) \<longleftrightarrow> (\<exists>x. feck_loop vir 0 False vir = Inr x)"
  by (cases "feck_loop vir 0 False vir") (auto simp: serf_sure_feck_def Let_def split: prod.split)

lemma serf_sure_feck_some: "serf_sure_feck pre_w pos_w vir sef = Inr r \<Longrightarrow> \<exists>r. serf_sure_feck pre_w2 pos_w2 vir sef2 = Inr r"
  using serf_sure_feck_iff by metis

lemma serf_sure_fields:
  assumes "serf_sure ker pre_w par sef = Inr (vir', sef')"
  obtains vir cor where "par = Cell vir cor" and "sef_sen_d sef' = sef_sen_d sef" and "sef_dun_d sef' = sef_sen_d sef" and "sef_eve_d sef' = sef_sen_d sef"
    and "sef_mug_l sef' = mug_f ker cor" and "sef_roc sef' = cor" and "sef_now sef' = sef_now sef" and "sef_img sef' = sef_img sef"
    and "serf_sure_feck pre_w (snd (open_f ker (sef_sen_d sef))) vir (serf_sure_core ker cor sef) = Inr (vir', sef')"
proof -
  obtain vir cor where par: "par = Cell vir cor" and feck: "serf_sure_feck pre_w (snd (open_f ker (sef_sen_d sef))) vir (serf_sure_core ker cor sef) = Inr (vir', sef')"
    using assms by (auto simp: serf_sure_def on_ok_eq_Inr u3x_cell_Inr Let_def serf_sure_core_def)
  show ?thesis
    using that [OF par _ _ _ _ _ _ _ feck] serf_sure_feck_fields [OF feck] by (simp add: serf_sure_core_def)
qed

lemma serf_poke_Inr:
  assumes "serf_poke ker mil_w job sef = Inr (gon, sef')"
  obtains now ovo mot par where "job = Cell now ovo" and "poke_f ker (sef_roc sef) now mil_w ovo = Cell mot par" and "gon = Cell mot par"
    and "sef' = (if mot = Atom 0 then sef\<lparr>sef_now := now\<rparr> else sef)"
  using assms by (auto simp: serf_poke_def on_ok_eq_Inr u3x_cell_Inr u3h_Inr Let_def)

text \<open>
  The three outcomes of an event: it is accepted, the report of its failure is accepted in its place, or neither. The
  first component is the event that became part of the history.
\<close>

definition accepts :: "kernel \<Rightarrow> nat \<Rightarrow> noun \<Rightarrow> u3_serf \<Rightarrow> noun \<Rightarrow> u3_serf \<Rightarrow> bool" where
  "accepts ker mil_w job sef vir' sef' \<longleftrightarrow>
     (\<exists>now ovo vir cor. job = Cell now ovo \<and> poke_f ker (sef_roc sef) now mil_w ovo = Cell (Atom 0) (Cell vir cor) \<and>
        kernel_of sef' = (Suc (sef_dun_d sef), cor, now, mug_f ker cor) \<and> serf_ok sef' \<and> sef_img sef' = sef_img sef \<and>
        (\<exists>pre_w pos_w sef2 sef3. serf_sure_feck pre_w pos_w vir sef2 = Inr (vir', sef3)))"

lemma sure_accepts:
  assumes "serf_sure ker pre_w par (sef\<lparr>sef_sen_d := Suc (sef_dun_d sef), sef_now := now\<rparr>) = Inr (vir', sef')"
    and "poke_f ker (sef_roc sef) now mil_w ovo = Cell (Atom 0) par"
  shows "accepts ker mil_w (Cell now ovo) sef vir' sef' \<and> sef_dun_d sef' = Suc (sef_dun_d sef)"
  using assms(1)
proof (rule serf_sure_fields)
  fix vir cor
  assume a: "par = Cell vir cor" "sef_sen_d sef' = sef_sen_d (sef\<lparr>sef_sen_d := Suc (sef_dun_d sef), sef_now := now\<rparr>)"
    "sef_dun_d sef' = sef_sen_d (sef\<lparr>sef_sen_d := Suc (sef_dun_d sef), sef_now := now\<rparr>)"
    "sef_eve_d sef' = sef_sen_d (sef\<lparr>sef_sen_d := Suc (sef_dun_d sef), sef_now := now\<rparr>)" "sef_mug_l sef' = mug_f ker cor" "sef_roc sef' = cor"
    "sef_now sef' = sef_now (sef\<lparr>sef_sen_d := Suc (sef_dun_d sef), sef_now := now\<rparr>)" "sef_img sef' = sef_img (sef\<lparr>sef_sen_d := Suc (sef_dun_d sef), sef_now := now\<rparr>)"
    "serf_sure_feck pre_w (snd (open_f ker (sef_sen_d (sef\<lparr>sef_sen_d := Suc (sef_dun_d sef), sef_now := now\<rparr>)))) vir
      (serf_sure_core ker cor (sef\<lparr>sef_sen_d := Suc (sef_dun_d sef), sef_now := now\<rparr>)) = Inr (vir', sef')"
  then show ?thesis
    using assms(2) unfolding accepts_def kernel_of_def serf_ok_def by (auto intro: a(9))
qed

lemma serf_work_cases:
  assumes "serf_work ker mil_w job sef = Inr (pro, sef')" and "serf_ok sef"
  obtains (accepted) vir where "pro = u3nc c3__done (u3nt (Atom (sef_dun_d sef')) (Atom (unat (sef_mug_l sef'))) vir)"
      and "accepts ker mil_w job sef vir sef'" and "sef_dun_d sef' = Suc (sef_dun_d sef)"
    | (swapped) dud job2 vir where "serf_make_crud job dud = Inr job2" and "pro = u3nc c3__swap (u3nt (Atom (sef_dun_d sef')) (Atom (unat (sef_mug_l sef'))) (u3nc job2 vir))"
      and "accepts ker mil_w job2 sef vir sef'" and "sef_dun_d sef' = Suc (sef_dun_d sef)"
    | (refused) lud where "pro = u3nc c3__bail lud" and "sef' = sef"
proof -
  let ?s = "sef\<lparr>sef_sen_d := Suc (sef_dun_d sef)\<rparr>"
  have sen: "sef_sen_d sef = sef_dun_d sef"
    using assms(2) by (simp add: serf_ok_def)
  then have reset: "?s\<lparr>sef_sen_d := sef_dun_d sef\<rparr> = sef"
    by simp
  let ?pre = "fst (open_f ker (Suc (sef_dun_d sef)))"
  obtain gon s1 where poke: "serf_poke ker mil_w job ?s = Inr (gon, s1)"
    using assms(1) sen by (cases "serf_poke ker mil_w job ?s") (auto simp: serf_work_def Let_def)
  obtain now ovo mot par where one: "job = Cell now ovo" "poke_f ker (sef_roc sef) now mil_w ovo = Cell mot par" "gon = Cell mot par"
      "s1 = (if mot = Atom 0 then ?s\<lparr>sef_now := now\<rparr> else ?s)"
    using poke by (rule serf_poke_Inr) simp
  note work = assms(1) [unfolded serf_work_def Let_def]
  show ?thesis
  proof (cases "mot = Atom 0")
    case True
    obtain vir where v: "serf_sure ker ?pre par s1 = Inr (vir, sef')" "pro = u3nc c3__done (u3nt (Atom (sef_dun_d sef')) (Atom (unat (sef_mug_l sef'))) vir)"
      using work sen poke one(3) True by (auto simp: on_ok_eq_Inr)
    have s1: "s1 = ?s\<lparr>sef_now := now\<rparr>"
      using one(4) True by simp
    note acc = sure_accepts [OF v(1) [unfolded s1] one(2) [unfolded True]]
    show ?thesis
      by (rule that(1) [OF v(2)]) (use acc one(1) in simp_all)
  next
    case False
    note one4 = one(4) [unfolded if_not_P [OF False]]
    show ?thesis
    proof (cases "mot = c3__evil")
      case True
      then have "pro = u3nt c3__bail gon u3_nul" "sef' = sef"
        using work sen poke one(3) False one4 reset by auto
      then show ?thesis
        by (rule that(3))
    next
      case evil: False
      obtain job2 where crud: "serf_make_crud job gon = Inr job2"
        using work sen poke one(3) False evil by (cases "serf_make_crud job gon") auto
      obtain gon2 s2 where two: "serf_poke ker mil_w job2 ?s = Inr (gon2, s2)"
        using work sen poke one(3) False evil crud unfolding one4 by (cases "serf_poke ker mil_w job2 ?s") auto
      obtain now2 ovo2 mot2 par2 where three: "job2 = Cell now2 ovo2" "poke_f ker (sef_roc sef) now2 mil_w ovo2 = Cell mot2 par2" "gon2 = Cell mot2 par2"
          "s2 = (if mot2 = Atom 0 then ?s\<lparr>sef_now := now2\<rparr> else ?s)"
        using two by (rule serf_poke_Inr) simp
      show ?thesis
      proof (cases "mot2 = Atom 0")
        case True
        obtain vir where v: "serf_sure ker ?pre par2 s2 = Inr (vir, sef')"
            "pro = u3nc c3__swap (u3nt (Atom (sef_dun_d sef')) (Atom (unat (sef_mug_l sef'))) (u3nc job2 vir))"
          using work sen poke one(3) False evil crud two three(3) True unfolding one4 by (auto simp: on_ok_eq_Inr)
        have s2: "s2 = ?s\<lparr>sef_now := now2\<rparr>"
          using three(4) True by simp
        note acc = sure_accepts [OF v(1) [unfolded s2] three(2) [unfolded True]]
        show ?thesis
          by (rule that(2) [OF crud v(2)]) (use acc three(1) in simp_all)
      next
        case swap: False
        then have "pro = u3nt c3__bail gon2 (u3nc gon u3_nul)" "sef' = sef"
          using work sen poke one(3) False evil crud two three(3,4) reset unfolding one4 by auto
        then show ?thesis
          by (rule that(3))
      qed
    qed
  qed
qed

section \<open>Replay\<close>

text \<open>The event that an answer to work makes part of the history: the event itself, or the report of its failure.\<close>

definition history :: "noun \<Rightarrow> noun \<Rightarrow> noun list" where
  "history job pro =
     (case u3r_cell pro of
        None \<Rightarrow> []
      | Some (kind, dat) \<Rightarrow>
          if kind = c3__done then [job]
          else if kind = c3__swap then (case u3r_qual dat of None \<Rightarrow> [] | Some (_, _, job2, _) \<Rightarrow> [job2])
          else [])"

text \<open>Events one after the other, each with its time limit, and the history they leave.\<close>

fun serf_run :: "kernel \<Rightarrow> (nat \<times> noun) list \<Rightarrow> u3_serf \<Rightarrow> (noun list \<times> u3_serf) jet" where
  "serf_run ker [] sef = Inr ([], sef)"
| "serf_run ker ((mil_w, job) # jobs) sef =
     on_ok (serf_work ker mil_w job sef) (\<lambda>(pro, sef). on_ok (serf_run ker jobs (u3_serf_post sef)) (\<lambda>(his, sef). Inr (history job pro @ his, sef)))"

text \<open>An event that is accepted within a time limit has the same product without a limit.\<close>

definition untimed :: "kernel \<Rightarrow> bool" where
  "untimed ker \<longleftrightarrow> (\<forall>roc now mil_w ovo par. poke_f ker roc now mil_w ovo = Cell (Atom 0) par \<longrightarrow> poke_f ker roc now 0 ovo = Cell (Atom 0) par)"

lemma play_accepted:
  assumes "accepts ker mil_w job sef vir' sef'" and "untimed ker" and "serf_ok sef2" and "kernel_of sef2 = kernel_of sef"
  shows "\<exists>sef3. serf_play_list ker pre_w (Cell job eve) sef2 = serf_play_list ker pre_w eve sef3 \<and> kernel_of sef3 = kernel_of sef' \<and> serf_ok sef3"
proof -
  obtain now ovo vir cor where job: "job = Cell now ovo" and poke: "poke_f ker (sef_roc sef) now mil_w ovo = Cell (Atom 0) (Cell vir cor)"
    and kern: "kernel_of sef' = (Suc (sef_dun_d sef), cor, now, mug_f ker cor)"
    and feck: "\<exists>r pre_w pos_w sef2. serf_sure_feck pre_w pos_w vir sef2 = Inr r"
    using assms(1) unfolding accepts_def by blast
  have same: "sef_roc sef2 = sef_roc sef" "sef_dun_d sef2 = sef_dun_d sef" "sef_sen_d sef2 = sef_dun_d sef"
    using assms(3,4) by (auto simp: kernel_of_def serf_ok_def)
  have poke0: "poke_f ker (sef_roc sef2) now 0 ovo = Cell (Atom 0) (Cell vir cor)"
    using assms(2) poke same(1) by (simp add: untimed_def)
  let ?s = "serf_sure_core ker cor (sef2\<lparr>sef_sen_d := Suc (sef_dun_d sef), sef_now := now\<rparr>)"
  obtain r where r: "serf_sure_feck pre_w (snd (open_f ker (sef_dun_d ?s))) vir ?s = Inr r"
    using feck serf_sure_feck_some by blast
  obtain vir2 s3 where s3: "r = (vir2, s3)"
    by (cases r)
  note fields = serf_sure_feck_fields [OF r [unfolded s3]]
  have "serf_play_list ker pre_w (Cell job eve) sef2 = serf_play_list ker pre_w eve (s3\<lparr>sef_sac := u3_nul\<rparr>)"
    using job poke0 same r s3 by (simp add: serf_play_poke_def serf_poke_def Let_def u3r_trel_def)
  moreover have "kernel_of (s3\<lparr>sef_sac := u3_nul\<rparr>) = kernel_of sef'" "serf_ok (s3\<lparr>sef_sac := u3_nul\<rparr>)"
    using fields kern by (simp_all add: kernel_of_def serf_ok_def serf_sure_core_def)
  ultimately show ?thesis
    by blast
qed

lemma post_fields [simp]: "kernel_of (u3_serf_post sef) = kernel_of sef" "serf_ok (u3_serf_post sef) = serf_ok sef" "sef_img (u3_serf_post sef) = sef_img sef"
  "sef_dun_d (u3_serf_post sef) = sef_dun_d sef"
  by (simp_all add: u3_serf_post_def kernel_of_def serf_ok_def)

lemma accepts_ok: "accepts ker mil_w job sef vir sef' \<Longrightarrow> serf_ok sef'"
  by (auto simp: accepts_def)

lemma serf_replay_history:
  assumes "untimed ker" and "serf_ok sef" and "serf_run ker jobs sef = Inr (his, sef')" and "serf_ok sef2" and "kernel_of sef2 = kernel_of sef"
  shows "\<exists>sef3. serf_play_list ker pre_w (list_noun his) sef2 = Inr (u3nc c3__done (Atom (unat (sef_mug_l sef'))), sef3) \<and>
    kernel_of sef3 = kernel_of sef' \<and> sef_dun_d sef' = sef_dun_d sef + length his"
  using assms(2-5)
proof (induction jobs arbitrary: sef sef2 his)
  case Nil
  then show ?case
    by (auto simp: kernel_of_def u3_nul_def)
next
  case (Cons mj jobs)
  obtain mil_w job where mj: "mj = (mil_w, job)"
    by (cases mj)
  obtain pro s1 his1 where run: "serf_work ker mil_w job sef = Inr (pro, s1)" "serf_run ker jobs (u3_serf_post s1) = Inr (his1, sef')" "his = history job pro @ his1"
    using Cons.prems(2) mj by (auto simp: on_ok_eq_Inr)
  have played: "\<exists>sef3. serf_play_list ker pre_w (list_noun (job2 # his1)) sef2 = Inr (u3nc c3__done (Atom (unat (sef_mug_l sef'))), sef3) \<and>
      kernel_of sef3 = kernel_of sef' \<and> sef_dun_d sef' = Suc (sef_dun_d sef + length his1)"
    if acc: "accepts ker mil_w job2 sef vir s1" and dun: "sef_dun_d s1 = Suc (sef_dun_d sef)" for job2 vir
  proof -
    obtain s3 where s3: "serf_play_list ker pre_w (Cell job2 (list_noun his1)) sef2 = serf_play_list ker pre_w (list_noun his1) s3"
        "kernel_of s3 = kernel_of s1" "serf_ok s3"
      using play_accepted [OF acc assms(1) Cons.prems(3,4)] by blast
    then show ?thesis
      using Cons.IH [OF _ run(2) s3(3)] accepts_ok [OF acc] dun by simp
  qed
  from run(1) Cons.prems(1) show ?case
  proof (cases rule: serf_work_cases)
    case (accepted vir)
    then show ?thesis
      using played [OF accepted(2,3)] run(3) by (simp add: history_def)
  next
    case (swapped dud job2 vir)
    then show ?thesis
      using played [OF swapped(3,4)] run(3) by (simp add: history_def u3r_qual_def u3r_trel_def)
  next
    case (refused lud)
    then show ?thesis
      using Cons.IH [OF _ run(2) Cons.prems(3)] Cons.prems(1,4) run(3) by (simp add: history_def)
  qed
qed

end
