(* ===== verification/King_Correct.thy ===== *)
theory King_Correct
  imports King_Hear Serf_Correct
begin

text \<open>
  The two processes together. The invariant ties the king's queue of commands to what is in the pipe and to the worker:
  every answer under way belongs to the command whose turn it is and carries the next event number, and every command
  the worker has not read is as the king's queue has it. It is kept by every event, no event fails an assertion, and a
  snapshot never has an event that is not in the log.
\<close>

section \<open>The end of a write\<close>

lemma work_inv_log:
  assumes "work_inv L sat g log w" and "L' log' (wok_rel_d w + length (wok_fec_u w))" and "log_sen_d log' = log_sen_d log"
    and "log_dun_d log \<le> log_dun_d log'" and "wok_wal_u w \<noteq> [] \<Longrightarrow> wal_f (hd (wok_wal_u w)) = pier_work_exit_cb \<Longrightarrow> log_dun_d log' = log_sen_d log'"
  shows "work_inv L' sat g log' w"
proof -
  have "walls_ok sat (log_sen_d log') (log_dun_d log') (god_wit_u g) (wok_wal_u w)"
    using assms(1,5) by (auto simp: work_inv_def walls_ok_def)
  then show ?thesis
    using assms(1-4) by (auto simp: work_inv_def simp del: upt_Suc)
qed

text \<open>While the callbacks run, the queue of the log is not clean yet.\<close>

definition dirty :: "serial \<Rightarrow> ('b \<Rightarrow> nat \<Rightarrow> byte list option) \<Rightarrow> nat \<Rightarrow> 'b u3_disk \<Rightarrow> nat \<Rightarrow> bool" where
  "dirty ser view fir log m \<longleftrightarrow> log_ok ser view fir (disk_clean log) \<and> m = log_sen_d log"

lemma disk_clean_fields [simp]: "log_sen_d (disk_clean log) = log_sen_d log" "log_dun_d (disk_clean log) = log_dun_d log"
  "log_mdb_u (disk_clean log) = log_mdb_u log"
  by (simp_all add: disk_clean_def)

lemma exit_next_log: "exit_next p \<Longrightarrow> pir_uni_u p = Work_state w \<Longrightarrow> work_inv L sat g log w \<Longrightarrow> log_dun_d log = log_sen_d log"
  by (auto simp: exit_next_def work_inv_def walls_ok_def)

lemma disk_commit_after_ok:
  assumes "working (full ser view fir) p" and "pir_log_u p = Some log" and "log_ted_u log = Some req" and "mdb_ok (env_mdb env) view"
    and "env_ser env = ser" and "disk_commit_cb (env_mdb env) req log = (True, log1)"
  shows "res_ok (\<lambda>q. working (full ser view fir) q \<and> grows (the (pir_god_u p)) (the (pir_god_u q)) \<and> kicks q @ waiting q = kicks p @ waiting p \<and>
    log_dun_d (the (pir_log_u q)) = log_dun_d log + save_len_d req) (disk_commit_after_cb env p)"
  using assms(1)
proof (rule working_fullE)
  fix g log' w
  assume w: "pir_god_u p = Some g" "pir_log_u p = Some log'" "pir_uni_u p = Work_state w" "work_inv (full ser view fir) (pir_sat_e p) g log' w"
    "log_ok ser view fir log'" "wok_rel_d w + length (wok_fec_u w) = log_sen_d log'" "pir_sat_e p \<in> {u3_psat_work, u3_psat_done}" "\<not> pier_gone p"
  have log': "log' = log"
    using w(2) assms(2) by simp
  have req: "0 < save_len_d req" "log_dun_d log + save_len_d req \<le> log_sen_d log" "save_eve_d req = Suc (log_dun_d log)"
    using w(5) assms(3) log' by (auto simp: log_ok_def)
  note wrote = disk_write_ok [OF assms(4) w(5) [unfolded log'] assms(3,6)]
  have log1: "log_sen_d log1 = log_sen_d log" "log_dun_d log1 = log_dun_d log"
    using arg_cong [OF wrote(4), of log_sen_d] arg_cong [OF wrote(4), of log_dun_d] by simp_all
  let ?log = "disk_written req (log1\<lparr>log_ted_u := None\<rparr>)"
  let ?p = "p\<lparr>pir_log_u := Some ?log\<rparr>"
  have dun: "log_dun_d ?log = log_dun_d log + save_len_d req" "log_sen_d ?log = log_sen_d log"
    using req log1 by (simp_all add: disk_written_def)
  have noexit: "\<not> exit_next p"
    using exit_next_log [OF _ w(3,4)] req log' by auto
  have "work_inv (dirty ser view fir) (pir_sat_e p) g ?log w"
    by (rule work_inv_log [OF w(4)]) (use wrote(1) w(6) dun log' noexit w(3) in \<open>auto simp: dirty_def exit_next_def\<close>)
  then have p: "working (dirty ser view fir) ?p"
    using w by (simp add: working_def)
  have finish: "res_ok (\<lambda>q. working (full ser view fir) q \<and> grows (the (pir_god_u p)) (the (pir_god_u q)) \<and> kicks q @ waiting q = kicks p @ waiting p \<and>
      log_dun_d (the (pir_log_u q)) = log_dun_d log + save_len_d req)
    (on_res (some_or Freed (pir_log_u q)) (\<lambda>log. on_res (some_or Assert (disk_commit (env_ser env) (disk_clean log))) (\<lambda>log. Inr (q\<lparr>pir_log_u := Some log\<rparr>))))"
    if q: "keeps (dirty ser view fir) ?p q" for q
  proof -
    from keeps_working [OF q] obtain g2 log2 w2 where q2: "pir_god_u q = Some g2" "pir_log_u q = Some log2" "pir_uni_u q = Work_state w2"
        "work_inv (dirty ser view fir) (pir_sat_e q) g2 log2 w2" "\<not> pier_gone q"
      by (rule workingE)
    have log2: "log2 = ?log"
      using q q2(2) by (simp add: keeps_def)
    obtain log3 where log3: "disk_commit ser (disk_clean log2) = Some log3" "log_ok ser view fir log3" "log_sen_d log3 = log_sen_d log2" "log_dun_d log3 = log_dun_d log2"
      using disk_commit_ok [of ser view fir "disk_clean log2"] q2(4) by (auto simp: work_inv_def dirty_def)
    have "work_inv (full ser view fir) (pir_sat_e q) g2 log3 w2"
      by (rule work_inv_log [OF q2(4)]) (use log3 q2(4) in \<open>auto simp: full_def dirty_def work_inv_def walls_ok_def\<close>)
    then show ?thesis
      using q q2 log3 log2 dun assms(5) by (simp add: keeps_def working_def waiting_def)
  qed
  have "disk_commit_after_cb env p = on_res (pier_work env ?p) (\<lambda>q.
      on_res (some_or Freed (pir_log_u q)) (\<lambda>log. on_res (some_or Assert (disk_commit (env_ser env) (disk_clean log))) (\<lambda>log. Inr (q\<lparr>pir_log_u := Some log\<rparr>))))"
    using assms(2,3,6) w(7) by (auto simp: disk_commit_after_cb_def disk_commit_done_def on_log_def pier_on_disk_write_done_def)
  moreover have "res_ok (keeps (dirty ser view fir) ?p) (pier_work env ?p)"
    by (rule pier_work_ok(2) [OF p]) (use noexit in \<open>simp add: exit_next_def\<close>)
  ultimately show ?thesis
    by (auto intro: on_res_ok finish)
qed

text \<open>A failed write frees the log, which is then used again.\<close>

lemma write_fail_freed:
  assumes "pir_log_u p = Some log" and "log_ted_u log = Some req" and "disk_commit_cb (env_mdb env) req log = (False, log1)"
  shows "disk_commit_after_cb env p \<in> {Inl Freed, Inl Driver, Inl Bad_noun}"
proof -
  let ?p = "p\<lparr>pir_log_u := Some (log1\<lparr>log_ted_u := None\<rparr>)\<rparr>"
  have "disk_commit_after_cb env p = on_res (u3_pier_bail ?p) (\<lambda>q. on_res (some_or Freed (pir_log_u q)) (\<lambda>log.
      on_res (some_or Assert (disk_commit (env_ser env) (disk_clean log))) (\<lambda>log. Inr (q\<lparr>pir_log_u := Some log\<rparr>))))"
    using assms by (simp add: disk_commit_after_cb_def disk_commit_done_def on_log_def pier_on_disk_write_bail_def)
  then show ?thesis
    using u3_pier_bail_ok [of ?p] by (cases "u3_pier_bail ?p") (auto simp: closed_def)
qed

section \<open>The worker's answers\<close>

text \<open>The kernel's answer to a scry is a unit, as the type of the message says.\<close>

definition peek_unit :: "kernel \<Rightarrow> bool" where
  "peek_unit ker \<longleftrightarrow> (\<forall>roc now mil_w sam dat. peek_f ker roc now mil_w sam = Cell (Atom 0) dat \<longrightarrow> dat = u3_nul \<or> u3a_is_cell dat)"

lemma accepts_img: "accepts ker mil_w job sef vir sef' \<Longrightarrow> sef_img sef' = sef_img sef"
  by (auto simp: accepts_def)

lemma serf_work_answers:
  assumes "u3_serf_work ker mil_w job sef = Inr (pel, sef')" and "serf_ok sef"
  shows "answers (sef_dun_d sef) (u3_writ_work egg_u job0) pel (sef_dun_d sef') \<and> serf_ok sef' \<and> sef_img sef' = sef_img sef"
proof -
  obtain pro where pro: "serf_work ker mil_w job sef = Inr (pro, sef')" "pel = u3nc c3__work pro"
    using assms(1) by (auto simp: u3_serf_work_def on_ok_eq_Inr split: if_splits)
  have mug: "unat (sef_mug_l sef') < 2 ^ 32"
    using unsigned_less [where w = "sef_mug_l sef'" and ?'a = nat] by simp
  from pro(1) assms(2) show ?thesis
  proof (cases rule: serf_work_cases)
    case (accepted vir)
    then show ?thesis
      using pro(2) mug accepts_ok accepts_img answers.work_done [OF mug, of "sef_dun_d sef"] by auto
  next
    case (swapped dud job2 vir)
    then obtain now ovo where "job2 = u3nc now ovo"
      by (auto simp: accepts_def)
    then show ?thesis
      using swapped pro(2) mug accepts_ok accepts_img answers.work_swap [OF mug, of "sef_dun_d sef"] by auto
  next
    case (refused lud)
    then show ?thesis
      using pro(2) assms(2) answers.work_bail by auto
  qed
qed

lemma serf_peek_answers:
  assumes "u3_serf_peek ker mil_w sam sef = Inr pel" and "peek_unit ker"
  shows "answers e (u3_writ_peek pek) pel e"
proof -
  obtain tag dat where gon: "peek_f ker (sef_roc sef) (sef_now sef) mil_w sam = Cell tag dat"
      "pel = u3nc c3__peek (if tag = Atom 0 then u3nc c3__done dat else u3nc c3__bail (Cell tag dat))"
    using assms(1) by (auto simp: u3_serf_peek_def Let_def on_ok_eq_Inr u3x_cell_Inr)
  have "dat = u3_nul \<or> u3a_is_cell dat" if "tag = Atom 0"
    using assms(2) gon(1) that unfolding peek_unit_def by blast
  then show ?thesis
    using gon(2) by (cases "tag = Atom 0") (auto intro!: answers.peek answers.peek_bail)
qed

text \<open>A command of the king that the worker answers.\<close>

lemma serf_answers:
  assumes "asked (sef_dun_d sef) wit jar" and "cw_serf_writ ker jar sef = Inr (Plea pel, sef')" and "serf_ok sef" and "peek_unit ker"
  shows "answers (sef_dun_d sef) wit pel (sef_dun_d sef')" and "serf_ok sef'"
    and "sef_img sef' = sef_img sef \<or> savelike wit \<and> sef_img sef' = Some (sef_dun_d sef, sef_roc sef)"
proof -
  obtain s where s: "u3_serf_writ ker jar sef = Inr (Plea pel, s)" "sef' = u3_serf_post s"
  proof (cases "u3_serf_writ ker jar sef")
    case (Inr rs)
    then show ?thesis
      using assms(2) that by (cases rs; cases "fst rs") (auto simp: cw_serf_writ_def)
  qed (use assms(2) in \<open>simp add: cw_serf_writ_def\<close>)
  have "answers (sef_dun_d sef) wit pel (sef_dun_d s) \<and> serf_ok s \<and> (sef_img s = sef_img sef \<or> savelike wit \<and> sef_img s = Some (sef_dun_d sef, sef_roc sef))"
  proof (cases wit)
    case (u3_writ_work egg_u job)
    then obtain mil where "mil < 2 ^ 32" "jar = u3nt c3__work (Atom mil) job"
      using assms(1) by auto
    then show ?thesis
      using u3_writ_work s(1) serf_work_answers [OF _ assms(3)] by (auto simp: u3_serf_writ_def u3r_safe_word_def on_ok_eq_Inr)
  next
    case (u3_writ_peek pek)
    then show ?thesis
      using assms(1,3) s(1) serf_peek_answers [OF _ assms(4)] by (auto simp: u3_serf_writ_def u3r_safe_word_def on_ok_eq_Inr)
  qed (use assms(1,3) s(1) in \<open>auto simp: u3_serf_writ_def u3_serf_live_def serf_writ_live_save_def u3e_save_def serf_ok_def u3r_safe_chub_def
      intro!: answers.live split: if_splits\<close>)
  then show "answers (sef_dun_d sef) wit pel (sef_dun_d sef')" "serf_ok sef'"
      "sef_img sef' = sef_img sef \<or> savelike wit \<and> sef_img sef' = Some (sef_dun_d sef, sef_roc sef)"
    using s(2) by simp_all
qed

section \<open>The pipe\<close>

fun is_slog :: "noun \<Rightarrow> bool" where
  "is_slog (Cell tag dat) = (tag = c3__slog \<or> tag = c3__flog)"
| "is_slog (Atom a) = False"

text \<open>
  The answers under way belong to the first commands, one each; the others are in the pipe. \<open>d\<close> is the worker's last
  event, if it is alive.
\<close>

fun piped :: "nat \<Rightarrow> u3_writ list \<Rightarrow> noun list \<Rightarrow> noun list \<Rightarrow> nat option \<Rightarrow> bool" where
  "piped e wits [] jars d = (case d of None \<Rightarrow> True | Some d \<Rightarrow> e = d \<and> list_all2 (asked d) wits jars)"
| "piped e wits (pel # pels) jars d =
     (if is_slog pel then piped e wits pels jars d
      else (\<exists>wit ws e'. wits = wit # ws \<and> answers e wit pel e' \<and> piped e' ws pels jars d))"

lemma answers_not_slog: "answers e wit pel e' \<Longrightarrow> \<not> is_slog pel"
  by (auto elim!: answers.cases)

lemma asked_other: "asked e wit jar \<Longrightarrow> \<not> savelike wit \<Longrightarrow> asked e' wit jar"
  by (cases wit) auto

lemma piped_slog: "piped e wits pels jars d \<Longrightarrow> is_slog pel \<Longrightarrow> piped e wits (pels @ [pel]) jars d"
  by (induction pels arbitrary: e wits) (auto split: if_splits, blast)

lemma piped_dead: "piped e wits pels jars d \<Longrightarrow> piped e wits pels jars' None"
  by (induction pels arbitrary: e wits) (auto split: if_splits, blast)

lemma piped_grows:
  assumes "piped (god_eve_d g) (god_wit_u g) pels (god_inn_u g) d" and "grows g g'"
  shows "piped (god_eve_d g') (god_wit_u g') pels (god_inn_u g') d"
proof -
  obtain ws ns where g': "god_wit_u g' = god_wit_u g @ ws" "god_inn_u g' = god_inn_u g @ ns" "list_all2 (asked (god_eve_d g)) ws ns"
      "\<forall>wit \<in> set ws. savelike wit \<longrightarrow> god_wit_u g = []" "god_eve_d g' = god_eve_d g"
    using assms(2) by (auto simp: grows_def)
  have "piped e (wits @ ws) pels (jars @ ns) d"
    if "piped e wits pels jars d" "list_all2 (asked e0) ws ns" "\<And>wit. wit \<in> set ws \<Longrightarrow> savelike wit \<Longrightarrow> wits = [] \<and> e = e0" for e e0 wits jars
    using that
  proof (induction pels arbitrary: e wits)
    case Nil
    show ?case
    proof (cases d)
      case (Some d')
      have "list_all2 (asked d') ws ns"
      proof (rule list.rel_mono_strong [OF Nil.prems(2)])
        fix wit jar
        assume "wit \<in> set ws" "asked e0 wit jar"
        then show "asked d' wit jar"
          using Nil.prems(1,3) Some asked_other by (cases "savelike wit") auto
      qed
      then show ?thesis
        using Nil.prems(1) Some by (auto intro: list_all2_appendI)
    qed simp
  next
    case (Cons pel pels)
    show ?case
    proof (cases "is_slog pel")
      case False
      then obtain wit ws' e' where "wits = wit # ws'" "answers e wit pel e'" "piped e' ws' pels jars d"
        using Cons.prems(1) by auto
      then show ?thesis
        using Cons.IH [of e' ws'] Cons.prems(2,3) False by auto
    qed (use Cons in auto)
  qed
  from this [OF assms(1) g'(3)] show ?thesis
    using g' by auto
qed

lemma piped_answer:
  assumes "piped e wits pels (jar # jars) (Some d)" and "\<forall>wit \<in> set (tl wits). \<not> savelike wit"
  shows "\<exists>wit \<in> set wits. asked d wit jar \<and> (savelike wit \<longrightarrow> d = e) \<and> (\<forall>pel e'. answers d wit pel e' \<longrightarrow> piped e wits (pels @ [pel]) jars (Some e'))"
  using assms
proof (induction pels arbitrary: e wits)
  case Nil
  then obtain wit ws where w: "wits = wit # ws" "e = d" "asked d wit jar" "list_all2 (asked d) ws jars"
    by (auto simp: list_all2_Cons2)
  have "list_all2 (asked e') ws jars" for e'
    by (rule list.rel_mono_strong [OF w(4)]) (use Nil.prems(2) w(1) asked_other in auto)
  then show ?case
    using w answers_not_slog by auto
next
  case (Cons pel pels)
  show ?case
  proof (cases "is_slog pel")
    case True
    then show ?thesis
      using Cons.IH [of e wits] Cons.prems by auto
  next
    case False
    then obtain wit ws e' where w: "wits = wit # ws" "answers e wit pel e'" "piped e' ws pels (jar # jars) (Some d)"
      using Cons.prems(1) by auto
    have tl: "\<forall>wit \<in> set ws. \<not> savelike wit"
      using Cons.prems(2) w(1) by simp
    then have "\<forall>wit \<in> set (tl ws). \<not> savelike wit"
      by (cases ws) auto
    then obtain wit2 where "wit2 \<in> set ws" "asked d wit2 jar" "\<forall>pel e2. answers d wit2 pel e2 \<longrightarrow> piped e' ws (pels @ [pel]) jars (Some e2)"
      using Cons.IH [OF w(3)] by blast
    then show ?thesis
      using w(1,2) False tl by (intro bexI [of _ wit2]) auto
  qed
qed

end
