(* ===== verification/King_Wyrd.thy ===== *)
theory King_Wyrd
  imports King_Hear
begin

text \<open>
  The negotiation of versions: a pier that has asked the kernel for its versions, and what it does with the answer. When
  it is accepted the pier starts to work, with the event of the negotiation planned for the log and its effects waiting.
\<close>

definition negot :: "serial \<Rightarrow> ('b \<Rightarrow> nat \<Rightarrow> byte list option) \<Rightarrow> nat \<Rightarrow> 'b u3_pier \<Rightarrow> bool" where
  "negot ser view fir p \<longleftrightarrow>
     (case (pir_god_u p, pir_log_u p) of
        (Some g, Some log) \<Rightarrow>
          pir_sat_e p = u3_psat_wyrd \<and> god_wyrd g \<and> lord_ok g \<and> log_ok ser view fir log \<and> god_eve_d g = log_sen_d log \<and> log_dun_d log = log_sen_d log \<and>
          (\<forall>wit \<in> set (god_wit_u g). worklike wit \<or> savelike wit) \<and> (\<forall>w. pir_uni_u p \<noteq> Work_state w) \<and> \<not> pier_gone p
      | _ \<Rightarrow> False)"

lemma negotE:
  assumes "negot ser view fir p"
  obtains g log where "pir_god_u p = Some g" and "pir_log_u p = Some log" and "pir_sat_e p = u3_psat_wyrd" and "god_wyrd g" and "lord_ok g"
    and "log_ok ser view fir log" and "god_eve_d g = log_sen_d log" and "log_dun_d log = log_sen_d log"
    and "\<forall>wit \<in> set (god_wit_u g). worklike wit \<or> savelike wit" and "\<forall>w. pir_uni_u p \<noteq> Work_state w" and "\<not> pier_gone p"
  using assms by (auto simp: negot_def split: option.splits)

lemma negot_waiting: "negot ser view fir p \<Longrightarrow> waiting p = []"
  by (auto elim!: negotE simp: waiting_def split: pier_union.splits)

text \<open>Work begins with all effects up to the last committed event released.\<close>

definition begun :: "serial \<Rightarrow> ('b \<Rightarrow> nat \<Rightarrow> byte list option) \<Rightarrow> nat \<Rightarrow> 'b u3_disk \<Rightarrow> nat \<Rightarrow> bool" where
  "begun ser view fir log m \<longleftrightarrow> log_ok ser view fir log \<and> m = log_dun_d log"

lemma pier_work_init_ok:
  assumes "pir_god_u p = Some h" and "pir_log_u p = Some log" and "pir_sat_e p = u3_psat_wyrd" and "\<not> god_wyrd h" and "lord_ok h"
    and "log_ok ser view fir log" and "god_eve_d h = log_sen_d log" and "\<forall>wit \<in> set (god_wit_u h). \<not> savelike wit" and "\<not> pier_gone p"
  shows "res_ok (\<lambda>q. working (begun ser view fir) q \<and> grows h (the (pir_god_u q)) \<and> pir_log_u q = Some log \<and> kicks q @ waiting q = kicks p) (pier_work_init env p)"
proof -
  let ?L = "begun ser view fir"
  let ?w = "\<lparr>wok_car_u = None, wok_wal_u = [], wok_rel_d = log_dun_d log, wok_fec_u = []\<rparr>"
  let ?p = "pier_call (Save_timer True) (p\<lparr>pir_sat_e := u3_psat_work, pir_uni_u := Work_state ?w\<rparr>)"
  let ?Q = "\<lambda>q. working ?L q \<and> grows h (the (pir_god_u q)) \<and> pir_log_u q = Some log \<and> kicks q @ waiting q = kicks p"
  have inv: "work_inv ?L u3_psat_work h log (?w\<lparr>wok_car_u := c\<rparr>)" for c
    using assms by (simp add: work_inv_def begun_def walls_ok_def)
  have p: "working ?L ?p"
    using inv [of None] assms by (simp add: working_def)
  have base: "?Q q" if "keeps ?L ?p q" for q
    using that assms(1,2) by (auto simp: keeps_def waiting_def)
  have work: "res_ok ?Q (pier_work env q)" if q: "?Q q" "\<not> exit_next q" for q
    by (rule res_ok_mono [OF pier_work_ok(2) [OF conjunct1 [OF q(1)] q(2)]]) (use q(1) in \<open>auto simp: keeps_def intro: grows_trans\<close>)
  have noexit: "\<not> exit_next ?p"
    by (simp add: exit_next_def)
  have scry: "res_ok (\<lambda>q. ?Q q \<and> \<not> exit_next q) (u3_pier_peek_last gan car dek pax f ?p)" for gan car dek pax f
    using p assms(1,2) by (auto simp: u3_pier_peek_last_def pier_peek_plan_def u3_pier_spin_def on_work_def working_def waiting_def exit_next_def)
  have invalid: "res_ok (\<lambda>q. ?Q q \<and> \<not> exit_next q) (pier_on_scry_done u3_nul ?p)"
  proof -
    let ?q = "pier_call (Scry_print u3_nul) ?p"
    have q: "working ?L ?q"
      using inv [of None] assms by (simp add: working_def)
    have "\<not> exit_next r" if "u3_pier_exit ?q = Inr r" for r
      using that by (auto simp: u3_pier_exit_def pier_work_exit_def pier_wall_plan_def on_work_def wall_insert_def exit_next_def)
    then show ?thesis
      unfolding pier_on_scry_done_def using u3_pier_exit_ok [OF q] assms(1,2) by (cases "u3_pier_exit ?q") (auto simp: shuts_def waiting_def)
  qed
  have drivers: "res_ok (\<lambda>q. ?Q q \<and> \<not> exit_next q)
      (heap_do (u3_auto_talk car_u) (?p\<lparr>pir_uni_u := Work_state (?w\<lparr>wok_car_u := car_u\<rparr>), pir_heap := k\<rparr>))" for car_u k
    using inv [of car_u] assms by (auto simp: heap_do_def working_def waiting_def exit_next_def intro!: on_driver_ok)
  have "res_ok (\<lambda>q. ?Q q \<and> \<not> exit_next q) (case env_pex env of
      Some pex \<Rightarrow> (case u3r_trel pex of
          Some (Atom car, dek, pax) \<Rightarrow> if car < 2 ^ 31 then u3_pier_peek_last u3_nul car dek pax Scry_done ?p else pier_on_scry_done u3_nul ?p
        | _ \<Rightarrow> pier_on_scry_done u3_nul ?p)
    | None \<Rightarrow> on_res (some_or Driver (env_auto env (pir_heap ?p))) (\<lambda>(car_u, h).
        heap_do (u3_auto_talk car_u) (?p\<lparr>pir_uni_u := Work_state (?w\<lparr>wok_car_u := car_u\<rparr>), pir_heap := h\<rparr>)))"
    using scry invalid drivers by (auto split: option.splits noun.splits intro!: on_driver_ok)
  then show ?thesis
    using assms(2,3) work by (auto simp: pier_work_init_def on_log_def Let_def intro: on_res_ok)
qed

lemma pier_wyrd_fail_ok: "res_ok (\<lambda>q. closed q \<and> kicks q = kicks p) (pier_wyrd_fail egg_u lud p)"
proof -
  have bail: "res_ok (\<lambda>q. closed q \<and> kicks q = kicks p) (u3_pier_bail (p\<lparr>pir_heap := k\<rparr>))" for k
    by (rule res_ok_mono [OF u3_pier_bail_ok]) auto
  have free: "res_ok (\<lambda>q. closed q \<and> kicks q = kicks p) (on_res (pier_wyrd_free egg_u (p\<lparr>pir_heap := k\<rparr>)) u3_pier_bail)" for k
    unfolding pier_wyrd_free_def by (rule heap_do_res) (use bail in simp)
  show ?thesis
    using free [of "pir_heap p"] free by (auto simp: pier_wyrd_fail_def split: noun.splits intro!: heap_do_res)
qed

text \<open>The answer to the negotiation.\<close>

lemma pier_on_lord_wyrd_done_ok:
  assumes "negot ser view fir p" and "pir_god_u p = Some g" and "alike (p\<lparr>pir_god_u := Some h\<rparr>) q" and "popped g h" and "god_eve_d h = Suc (god_eve_d g)"
    and "fact_eve_d tac = Suc (god_eve_d g)" and "gif_eve_d gif = Suc (god_eve_d g)" and "env_ser env = ser"
  shows "res_ok (heard_to ser view fir (h\<lparr>god_wyrd := False\<rparr>) [gif] p) (pier_on_lord_wyrd_done env egg_u tac gif q)"
  using assms(1)
proof (rule negotE)
  fix g' log
  assume n: "pir_god_u p = Some g'" "pir_log_u p = Some log" "pir_sat_e p = u3_psat_wyrd" "god_wyrd g'" "lord_ok g'" "log_ok ser view fir log"
    "god_eve_d g' = log_sen_d log" "log_dun_d log = log_sen_d log" "\<forall>wit \<in> set (god_wit_u g'). worklike wit \<or> savelike wit"
    "\<forall>w. pir_uni_u p \<noteq> Work_state w" "\<not> pier_gone p"
  have g': "g' = g"
    using n(1) assms(2) by simp
  let ?h = "h\<lparr>god_wyrd := False\<rparr>"
  have q: "pir_god_u q = Some h" "pir_log_u q = Some log" "pir_sat_e q = u3_psat_wyrd" "kicks q = kicks p" "\<not> pier_gone q"
    using assms(3) n by (auto simp: alike_def)
  have wait: "waiting p = []"
    by (rule negot_waiting [OF assms(1)])
  obtain log' where log': "u3_disk_plan ser tac log = Some log'" "log_ok ser view fir log'" "log_sen_d log' = Suc (log_sen_d log)"
      "log_dun_d log' = log_dun_d log" "log_mdb_u log' = log_mdb_u log"
    using u3_disk_plan_ok [OF n(6)] assms(6) n(7) g' by auto
  let ?q = "q\<lparr>pir_log_u := Some log', pir_god_u := Some ?h\<rparr>"
  have "lord_ok ?h" "\<forall>wit \<in> set (god_wit_u ?h). \<not> savelike wit"
    using assms(4) n(5) g' by (auto simp: popped_def lord_ok_def)
  then have init: "res_ok (\<lambda>r. working (begun ser view fir) r \<and> grows ?h (the (pir_god_u r)) \<and> pir_log_u r = Some log' \<and> kicks r @ waiting r = kicks p)
      (pier_work_init env ?q)"
    using pier_work_init_ok [of ?q ?h log' ser view fir env] q log' assms(5) n(7) g' by simp
  have last: "res_ok (heard_to ser view fir ?h [gif] p) (pier_gift_plan gif r)"
    if r: "working (begun ser view fir) r" "grows ?h (the (pir_god_u r))" "pir_log_u r = Some log'" "kicks r @ waiting r = kicks p" for r
  proof -
    from r(1) obtain g2 log2 w where w: "pir_god_u r = Some g2" "pir_log_u r = Some log2" "pir_uni_u r = Work_state w"
        "work_inv (begun ser view fir) (pir_sat_e r) g2 log2 w" "\<not> pier_gone r"
      by (rule workingE)
    have log2: "log2 = log'"
      using w(2) r(3) by simp
    have rel: "wok_rel_d w \<le> log_dun_d log'" "wok_rel_d w + length (wok_fec_u w) = log_dun_d log'"
      using w(4) log2 by (auto simp: work_inv_def begun_def)
    have gif: "gif_eve_d gif = Suc (log_dun_d log')"
      using assms(7) n(7,8) g' log'(4) by simp
    let ?w = "w\<lparr>wok_fec_u := wok_fec_u w @ [gif]\<rparr>"
    have "map gif_eve_d (wok_fec_u ?w) = [Suc (wok_rel_d w)..<Suc (wok_rel_d w + length (wok_fec_u ?w))]"
      using w(4) rel gif by (auto simp: work_inv_def)
    then have "work_inv (full ser view fir) (pir_sat_e r) g2 log2 ?w"
      using w(4) rel log' log2 n(7,8) by (auto simp: work_inv_def full_def begun_def simp del: upt_Suc)
    then show ?thesis
      using w r rel gif log' log2 n(2) wait
      by (simp add: pier_gift_plan_def on_work_def heard_to_def heard_on_def working_def waiting_def)
  qed
  have free: "res_ok (heard_to ser view fir ?h [gif] p) (on_res (pier_wyrd_free egg_u r) (pier_gift_plan gif))"
    if "working (begun ser view fir) r" "grows ?h (the (pir_god_u r))" "pir_log_u r = Some log'" "kicks r @ waiting r = kicks p" for r
    unfolding pier_wyrd_free_def
    by (rule heap_do_res, rule last) (use that keeps_working [OF keeps_heap [OF that(1)]] in \<open>simp_all add: waiting_def\<close>)
  have good: "res_ok (heard_to ser view fir ?h [gif] p) (on_res (pier_plan env tac q) (\<lambda>p. on_res (pier_wyrd_good env egg_u p) (pier_gift_plan gif)))"
    using q log'(1) assms(8) init free
    by (auto simp: pier_plan_def on_log_def pier_wyrd_good_def god_do_def on_god_def on_res_assoc intro!: on_res_ok [OF init])
  have bad: "res_ok (heard_to ser view fir ?h [gif] p) (pier_wyrd_fail egg_u u3_nul q)"
    by (rule res_ok_mono [OF pier_wyrd_fail_ok]) (use q in \<open>auto intro: closed_heard\<close>)
  have aver: "res_ok (\<lambda>ok. True) (pier_wyrd_aver act)" for act
  proof -
    have kel: "res_ok (\<lambda>ok. True) (wyrd_kel k)" for k
      by (induction k rule: wyrd_kel.induct) (auto split: noun.splits)
    show ?thesis
    proof (induction act rule: pier_wyrd_aver.induct)
      case (2 fec act)
      show ?case
        using 2 res_ok_Inl [of "\<lambda>ok. True"] kel by (auto split: noun.splits sum.splits) (metis res_ok_Inl insertE empty_iff)
    qed simp
  qed
  show ?thesis
    using q(3) by (auto simp: pier_on_lord_wyrd_done_def intro!: on_res_ok [OF aver] good bad)
qed

lemma on_wyrd_answer:
  assumes "negot ser view fir p" and "pir_god_u p = Some g" and "god_wit_u g = u3_writ_work egg_u job # wits"
    and "answers (god_eve_d g) (u3_writ_work egg_u job) pel e'" and "env_ser env = ser"
  shows "\<exists>h. popped g h \<and> god_eve_d h = e' \<and> res_ok (heard_to ser view fir (h\<lparr>god_wyrd := False\<rparr>) (plea_gifts pel) p) (pier_on_plea env (Some pel) p)"
proof -
  have ok: "lord_ok g" "god_wyrd g" "pir_sat_e p = u3_psat_wyrd"
    using assms(1,2) by (auto elim!: negotE)
  have same: "pir_god_u q = Some h \<and> god_wyrd h \<and> pir_sat_e q = u3_psat_wyrd \<and> kicks q = kicks p" if "alike (p\<lparr>pir_god_u := Some h\<rparr>) q" "popped g h" for h q
    using that ok(2,3) by (simp add: alike_def popped_def)
  show ?thesis
  proof (rule work_answer [where R = "\<lambda>h gifs. heard_to ser view fir (h\<lparr>god_wyrd := False\<rparr>) gifs p", OF ok(1) _ assms(3) _ _ _ assms(2,4)])
    fix h q and tac :: u3_fact and gif :: u3_gift
    assume h: "alike (p\<lparr>pir_god_u := Some h\<rparr>) q" "popped g h" "god_eve_d h = Suc (god_eve_d g)" "fact_eve_d tac = Suc (god_eve_d g)"
      "gif_eve_d gif = Suc (god_eve_d g)"
    show "res_ok (heard_to ser view fir (h\<lparr>god_wyrd := False\<rparr>) [gif] p) (pier_heard env (Cb_work_done egg_u tac gif) q)"
      using pier_on_lord_wyrd_done_ok [OF assms(1,2) h assms(5)] same [OF h(1,2)] by (simp add: on_god_def)
  next
    fix h q lud
    assume h: "alike (p\<lparr>pir_god_u := Some h\<rparr>) q" "popped g h" "god_eve_d h = god_eve_d g"
    have "res_ok (heard_to ser view fir (h\<lparr>god_wyrd := False\<rparr>) [] p) (pier_wyrd_fail egg_u lud q)"
      by (rule res_ok_mono [OF pier_wyrd_fail_ok]) (use same [OF h(1,2)] in \<open>auto intro: closed_heard\<close>)
    then show "res_ok (heard_to ser view fir (h\<lparr>god_wyrd := False\<rparr>) [] p) (pier_heard env (Cb_work_bail egg_u lud) q)"
      using same [OF h(1,2)] by (simp add: on_god_def pier_on_lord_wyrd_bail_def)
  qed (use ok(3) in \<open>auto intro: closed_heard\<close>)
qed

end
