(* ===== verification/King_Run.thy ===== *)
theory King_Run
  imports King_Correct King_Wyrd
begin

text \<open>
  The invariant of the two processes, and that every event keeps it. \<open>gifs\<close> are the effects that were released or waited at
  the start, \<open>r0\<close> is the event before the first of them, and \<open>d\<close> the last event known to be in the database.
\<close>

definition heard_gifts :: "u3_gift list \<Rightarrow> 'b king \<Rightarrow> u3_gift list" where
  "heard_gifts gifs k = gifs @ concat (map plea_gifts (kin_heard k))"

definition serf_sync :: "nat \<Rightarrow> u3_serf option \<Rightarrow> bool" where
  "serf_sync d sef \<longleftrightarrow> (\<forall>s. sef = Some s \<longrightarrow> serf_ok s \<and> (\<forall>e roc. sef_img s = Some (e, roc) \<longrightarrow> e \<le> d))"

definition king_up :: "serial \<Rightarrow> ('b \<Rightarrow> nat \<Rightarrow> byte list option) \<Rightarrow> nat \<Rightarrow> nat \<Rightarrow> u3_gift list \<Rightarrow> nat \<Rightarrow> 'b king \<Rightarrow> bool" where
  "king_up ser view fir r0 gifs d k \<longleftrightarrow>
     (\<exists>g log. pir_god_u (kin_pir k) = Some g \<and> pir_log_u (kin_pir k) = Some log \<and> working (full ser view fir) (kin_pir k) \<and> log_dun_d log = d \<and>
       piped (god_eve_d g) (god_wit_u g) (kin_out k) (god_inn_u g) (map_option sef_dun_d (kin_sef k)) \<and> serf_sync d (kin_sef k) \<and>
       kicks (kin_pir k) @ waiting (kin_pir k) = heard_gifts gifs k \<and> map gif_eve_d (heard_gifts gifs k) = [Suc r0..<Suc (god_eve_d g)] \<and> r0 \<le> god_eve_d g)"

definition released :: "nat \<Rightarrow> u3_gift list \<Rightarrow> nat \<Rightarrow> u3_gift list \<Rightarrow> bool" where
  "released r0 gifs d out \<longleftrightarrow>
     (\<exists>rest. out @ rest = gifs) \<and> map gif_eve_d out = [Suc r0..<Suc (r0 + length out)] \<and> (out = [] \<or> r0 + length out \<le> d)"

definition king_ok :: "serial \<Rightarrow> ('b \<Rightarrow> nat \<Rightarrow> byte list option) \<Rightarrow> nat \<Rightarrow> nat \<Rightarrow> u3_gift list \<Rightarrow> nat \<Rightarrow> 'b king \<Rightarrow> bool" where
  "king_ok ser view fir r0 gifs d k \<longleftrightarrow>
     king_up ser view fir r0 gifs d k \<or> closed (kin_pir k) \<and> released r0 (heard_gifts gifs k) d (kicks (kin_pir k))"

text \<open>What a working pier has released belongs to events in the database.\<close>

lemma working_released:
  assumes "working (full ser view fir) p" and "pir_log_u p = Some log" and "kicks p @ waiting p = gifs"
    and "map gif_eve_d gifs = [Suc r0..<Suc (log_sen_d log)]" and "r0 \<le> log_sen_d log"
  shows "released r0 gifs (log_dun_d log) (kicks p)"
  using assms(1)
proof (rule working_fullE)
  fix g log' w
  assume w: "pir_log_u p = Some log'" "pir_uni_u p = Work_state w" "work_inv (full ser view fir) (pir_sat_e p) g log' w"
    "wok_rel_d w + length (wok_fec_u w) = log_sen_d log'"
  have log': "log' = log"
    using w(1) assms(2) by simp
  have len: "length (kicks p) + length (wok_fec_u w) = log_sen_d log - r0"
    using arg_cong [OF assms(4), of length] assms(3) w(2) by (auto simp: waiting_def simp del: upt_Suc)
  have rel: "r0 + length (kicks p) = wok_rel_d w"
    using len w(4) log' assms(5) by simp
  have "map gif_eve_d (kicks p) = take (length (kicks p)) (map gif_eve_d gifs)"
    using assms(3) by auto
  also have "\<dots> = [Suc r0..<Suc (r0 + length (kicks p))]"
    unfolding assms(4) using rel w(4) log' by (simp add: take_upt del: upt_Suc)
  finally show ?thesis
    using rel w(3) log' assms(3) by (auto simp: released_def work_inv_def simp del: upt_Suc)
qed

lemma released_more: "released r0 gifs d out \<Longrightarrow> released r0 (gifs @ others) d out"
  by (auto simp: released_def simp del: upt_Suc)

lemma king_upE:
  assumes "king_up ser view fir r0 gifs d k"
  obtains g log where "pir_god_u (kin_pir k) = Some g" and "pir_log_u (kin_pir k) = Some log" and "working (full ser view fir) (kin_pir k)"
    and "log_dun_d log = d" and "piped (god_eve_d g) (god_wit_u g) (kin_out k) (god_inn_u g) (map_option sef_dun_d (kin_sef k))"
    and "serf_sync d (kin_sef k)" and "kicks (kin_pir k) @ waiting (kin_pir k) = heard_gifts gifs k"
    and "map gif_eve_d (heard_gifts gifs k) = [Suc r0..<Suc (god_eve_d g)]" and "r0 \<le> god_eve_d g" and "god_eve_d g = log_sen_d log"
    and "released r0 (heard_gifts gifs k) d (kicks (kin_pir k))"
proof -
  from assms obtain g log where k: "pir_god_u (kin_pir k) = Some g" "pir_log_u (kin_pir k) = Some log" "working (full ser view fir) (kin_pir k)"
      "log_dun_d log = d" "piped (god_eve_d g) (god_wit_u g) (kin_out k) (god_inn_u g) (map_option sef_dun_d (kin_sef k))"
      "serf_sync d (kin_sef k)" "kicks (kin_pir k) @ waiting (kin_pir k) = heard_gifts gifs k"
      "map gif_eve_d (heard_gifts gifs k) = [Suc r0..<Suc (god_eve_d g)]" "r0 \<le> god_eve_d g"
    unfolding king_up_def by blast
  have eve: "god_eve_d g = log_sen_d log"
    using k(1-3) by (auto elim!: working_fullE)
  have "released r0 (heard_gifts gifs k) (log_dun_d log) (kicks (kin_pir k))"
    by (rule working_released [OF k(3,2,7)]) (use k(8,9) eve in simp_all)
  then show ?thesis
    using that [OF k eve] k(4) by simp
qed

text \<open>A state reached from one in which the last committed event was \<open>d\<close>.\<close>

definition king_to :: "serial \<Rightarrow> ('b \<Rightarrow> nat \<Rightarrow> byte list option) \<Rightarrow> nat \<Rightarrow> nat \<Rightarrow> u3_gift list \<Rightarrow> nat \<Rightarrow> 'b king \<Rightarrow> bool" where
  "king_to ser view fir r0 gifs d k \<longleftrightarrow>
     king_ok ser view fir r0 gifs d k \<or> (\<exists>d' log. king_ok ser view fir r0 gifs d' k \<and> pir_log_u (kin_pir k) = Some log \<and> log_dun_d log = d')"

section \<open>Events of the king\<close>

lemma king_keeps:
  assumes "king_up ser view fir r0 gifs d k" and "keeps (full ser view fir) (kin_pir k) q"
  shows "king_up ser view fir r0 gifs d (k\<lparr>kin_pir := q\<rparr>)"
  using assms(1)
proof (rule king_upE)
  fix g log
  assume k: "pir_god_u (kin_pir k) = Some g" "pir_log_u (kin_pir k) = Some log" "log_dun_d log = d"
    "piped (god_eve_d g) (god_wit_u g) (kin_out k) (god_inn_u g) (map_option sef_dun_d (kin_sef k))" "serf_sync d (kin_sef k)"
    "kicks (kin_pir k) @ waiting (kin_pir k) = heard_gifts gifs k" "map gif_eve_d (heard_gifts gifs k) = [Suc r0..<Suc (god_eve_d g)]" "r0 \<le> god_eve_d g"
  from keeps_working [OF assms(2)] obtain g' where g': "pir_god_u q = Some g'"
    by (rule workingE)
  have "grows g g'" "pir_log_u q = Some log" "kicks q @ waiting q = heard_gifts gifs k"
    using assms(2) k g' by (auto simp: keeps_def)
  moreover have "god_eve_d g' = god_eve_d g"
    using \<open>grows g g'\<close> by (simp add: grows_def)
  ultimately show ?thesis
    unfolding king_up_def using keeps_working [OF assms(2)] k g' piped_grows [OF k(4), of g']
    by (auto simp: heard_gifts_def simp del: upt_Suc)
qed

lemma king_closed:
  assumes "king_up ser view fir r0 gifs d k" and "closed q" and "kicks q = kicks (kin_pir k)"
  shows "king_ok ser view fir r0 gifs d (k\<lparr>kin_pir := q\<rparr>)"
  using assms by (auto elim!: king_upE simp: king_ok_def heard_gifts_def)

lemma king_settles:
  assumes "king_up ser view fir r0 gifs d k" and "settles (full ser view fir) (kin_pir k) q"
  shows "king_ok ser view fir r0 gifs d (k\<lparr>kin_pir := q\<rparr>)"
proof (cases "keeps (full ser view fir) (kin_pir k) q")
  case True
  then show ?thesis
    using king_keeps [OF assms(1)] by (simp add: king_ok_def)
next
  case False
  then obtain r where r: "closed q" "keeps (full ser view fir) (kin_pir k) r" "kicks q = kicks r"
    using assms(2) by (auto simp: settles_def)
  show ?thesis
    using king_closed [OF king_keeps [OF assms(1) r(2)] r(1)] r(3) by simp
qed

lemma king_pier_ok:
  assumes "res_ok Q (f (kin_pir k))" and "\<And>q. Q q \<Longrightarrow> P (k\<lparr>kin_pir := q\<rparr>)"
  shows "res_ok P (king_pier f k)"
  unfolding king_pier_def by (rule on_res_ok [OF assms(1)]) (simp add: assms(2))

lemma heard_gifts_snoc: "heard_gifts gifs (k\<lparr>kin_pir := q, kin_out := jars, kin_heard := kin_heard k @ [jar]\<rparr>) = heard_gifts gifs k @ plea_gifts jar"
  by (simp add: heard_gifts_def)

lemma slog_gifts: "is_slog jar \<Longrightarrow> plea_gifts jar = []"
  by (cases jar rule: plea_gifts.cases) auto

lemma answer_gifts: "answers e wit pel e' \<Longrightarrow> map gif_eve_d (plea_gifts pel) = [Suc e..<Suc e'] \<and> e \<le> e'"
  by (erule answers.cases) (auto simp: u3_gift_init_def u3r_trel_def u3r_qual_def u3_nul_def)

text \<open>The king hears an answer.\<close>

lemma king_heard:
  assumes "king_up ser view fir r0 gifs d k" and "kin_out k = jar # jars" and "env_ser env = ser"
  shows "res_ok (king_ok ser view fir r0 gifs d) (king_hear env k)"
  using assms(1)
proof (rule king_upE)
  fix g log
  assume k: "pir_god_u (kin_pir k) = Some g" "pir_log_u (kin_pir k) = Some log" "working (full ser view fir) (kin_pir k)" "log_dun_d log = d"
    "piped (god_eve_d g) (god_wit_u g) (kin_out k) (god_inn_u g) (map_option sef_dun_d (kin_sef k))" "serf_sync d (kin_sef k)"
    "kicks (kin_pir k) @ waiting (kin_pir k) = heard_gifts gifs k" "map gif_eve_d (heard_gifts gifs k) = [Suc r0..<Suc (god_eve_d g)]" "r0 \<le> god_eve_d g"
    "released r0 (heard_gifts gifs k) d (kicks (kin_pir k))"
  let ?k = "k\<lparr>kin_out := jars, kin_heard := kin_heard k @ [jar]\<rparr>"
  have hear: "king_hear env k = king_pier (pier_on_plea env (Some jar)) ?k"
    using assms(2) k(1) by (simp add: king_hear_def)
  have gifts: "heard_gifts gifs (?k\<lparr>kin_pir := q\<rparr>) = heard_gifts gifs k @ plea_gifts jar" for q
    by (simp add: heard_gifts_def)
  show ?thesis
  proof (cases "is_slog jar")
    case True
    then obtain tag dat where jar: "jar = u3nc tag dat" "tag = c3__slog \<or> tag = c3__flog"
      by (cases jar) auto
    have up: "king_up ser view fir r0 gifs d ?k"
      unfolding king_up_def using k assms(2) True gifts [of "kin_pir k"] slog_gifts [OF True] by (auto simp: heard_gifts_def simp del: upt_Suc)
    have "res_ok (\<lambda>q. keeps (full ser view fir) (kin_pir k) q \<or> closed q \<and> kicks q = kicks (kin_pir k)) (pier_on_plea env (Some jar) (kin_pir ?k))"
      using on_slog_ok [OF k(3,1) jar(2)] jar(1) by simp
    then show ?thesis
      unfolding hear
    proof (rule king_pier_ok)
      fix q
      assume q: "keeps (full ser view fir) (kin_pir k) q \<or> closed q \<and> kicks q = kicks (kin_pir k)"
      show "king_ok ser view fir r0 gifs d (?k\<lparr>kin_pir := q\<rparr>)"
        using q king_keeps [OF up, of q] king_closed [OF up, of q] unfolding king_ok_def by auto
    qed
  next
    case False
    then obtain wit wits e' where w: "god_wit_u g = wit # wits" "answers (god_eve_d g) wit jar e'"
        "piped e' wits jars (god_inn_u g) (map_option sef_dun_d (kin_sef k))"
      using k(5) assms(2) by auto
    obtain h where h: "popped g h" "god_eve_d h = e'" "res_ok (heard_to ser view fir h (plea_gifts jar) (kin_pir k)) (pier_on_plea env (Some jar) (kin_pir k))"
      using pier_on_plea_ok [OF k(3,1) w(1,2) assms(3)] by blast
    have eves: "map gif_eve_d (heard_gifts gifs k @ plea_gifts jar) = [Suc r0..<Suc e']" "r0 \<le> e'"
    proof -
      have "map gif_eve_d (plea_gifts jar) = [Suc (god_eve_d g)..<Suc e']" "god_eve_d g \<le> e'"
        using answer_gifts [OF w(2)] by (auto simp del: upt_Suc)
      then show "map gif_eve_d (heard_gifts gifs k @ plea_gifts jar) = [Suc r0..<Suc e']" "r0 \<le> e'"
        using k(8,9) upt_add_eq_append [of "Suc r0" "Suc (god_eve_d g)" "e' - god_eve_d g"] by (auto simp del: upt_Suc)
    qed
    have up: "king_up ser view fir r0 gifs d (?k\<lparr>kin_pir := q\<rparr>)" if "heard_on ser view fir h (plea_gifts jar) (kin_pir k) q" for q
    proof -
      have q: "working (full ser view fir) q" "grows h (the (pir_god_u q))" "kicks q @ waiting q = heard_gifts gifs k @ plea_gifts jar"
          "log_dun_d (the (pir_log_u q)) = d"
        using that k(2,4) k(7) [symmetric] by (simp_all add: heard_on_def)
      from q(1) obtain g2 log2 where g2: "pir_god_u q = Some g2" "pir_log_u q = Some log2"
        by (rule workingE)
      have grows: "grows h g2" "god_eve_d g2 = e'"
        using q(2) g2(1) h(2) by (auto simp: grows_def)
      have "piped (god_eve_d h) (god_wit_u h) jars (god_inn_u h) (map_option sef_dun_d (kin_sef k))"
        using w(1,3) h(1,2) by (simp add: popped_def)
      from piped_grows [OF this grows(1)] show ?thesis
        unfolding king_up_def gifts using q g2 grows(2) eves k(6) by (auto simp del: upt_Suc)
    qed
    have fin: "king_ok ser view fir r0 gifs d (?k\<lparr>kin_pir := q\<rparr>)" if q: "heard_to ser view fir h (plea_gifts jar) (kin_pir k) q" for q
    proof (cases "heard_on ser view fir h (plea_gifts jar) (kin_pir k) q")
      case True
      then show ?thesis
        using up by (simp add: king_ok_def)
    next
      case False
      then have q: "closed q" "kicks q = kicks (kin_pir k) \<or> (\<exists>r. heard_on ser view fir h (plea_gifts jar) (kin_pir k) r \<and> kicks q = kicks r)"
        using q by (auto simp: heard_to_def)
      have "released r0 (heard_gifts gifs k @ plea_gifts jar) d (kicks q)"
        using q(2) released_more [OF k(10)]
      proof (elim disjE exE conjE)
        fix r
        assume r: "heard_on ser view fir h (plea_gifts jar) (kin_pir k) r" "kicks q = kicks r"
        from up [OF r(1)] show ?thesis
          using r(2) gifts [of r] by (auto elim!: king_upE)
      qed simp
      then show ?thesis
        using q(1) gifts by (simp add: king_ok_def)
    qed
    show ?thesis
      unfolding hear by (rule king_pier_ok [where Q = "heard_to ser view fir h (plea_gifts jar) (kin_pir k)"]) (use h(3) fin in auto)
  qed
qed

section \<open>Events of the worker\<close>

lemma king_serf_up:
  assumes "king_up ser view fir r0 gifs d k" and "peek_unit ker"
  shows "king_up ser view fir r0 gifs d (king_serf ker k)"
  using assms(1)
proof (rule king_upE)
  fix g log
  assume k: "pir_god_u (kin_pir k) = Some g" "pir_log_u (kin_pir k) = Some log" "working (full ser view fir) (kin_pir k)" "log_dun_d log = d"
    "piped (god_eve_d g) (god_wit_u g) (kin_out k) (god_inn_u g) (map_option sef_dun_d (kin_sef k))" "serf_sync d (kin_sef k)"
    "kicks (kin_pir k) @ waiting (kin_pir k) = heard_gifts gifs k" "map gif_eve_d (heard_gifts gifs k) = [Suc r0..<Suc (god_eve_d g)]" "r0 \<le> god_eve_d g"
  show ?thesis
  proof (cases "\<exists>sef jar jars. kin_sef k = Some sef \<and> god_inn_u g = jar # jars")
    case False
    then have "king_serf ker k = k"
      using k(1) by (auto simp: king_serf_def pop_inn_def split: option.splits list.splits)
    then show ?thesis
      using assms(1) by simp
  next
    case True
    then obtain sef jar jars where s: "kin_sef k = Some sef" "god_inn_u g = jar # jars"
      by blast
    let ?g = "g\<lparr>god_inn_u := jars\<rparr>"
    let ?p = "(kin_pir k)\<lparr>pir_god_u := Some ?g\<rparr>"
    have pop: "pop_inn (kin_pir k) = Some (jar, ?p)"
      using k(1) s(2) by (simp add: pop_inn_def)
    have p: "working (full ser view fir) ?p"
      using k(3) by (rule workingE) (use k(1,2) in \<open>auto simp: working_def work_inv_def lord_ok_def\<close>)
    have tl: "\<forall>wit \<in> set (tl (god_wit_u g)). \<not> savelike wit" and save: "(\<exists>wit \<in> set (god_wit_u g). savelike wit) \<longrightarrow> god_eve_d g \<le> d"
      using k(1-4) by (auto elim!: workingE simp: work_inv_def lord_ok_def)
    have up: "king_up ser view fir r0 gifs d (k\<lparr>kin_pir := ?p, kin_sef := s, kin_out := pels\<rparr>)"
      if "piped (god_eve_d g) (god_wit_u g) pels jars (map_option sef_dun_d s)" "serf_sync d s" for s pels
      unfolding king_up_def using k that p by (auto simp: heard_gifts_def waiting_def simp del: upt_Suc)
    have dead: "king_up ser view fir r0 gifs d (k\<lparr>kin_pir := ?p, kin_sef := None\<rparr>)"
      using up [where s = None and pels = "kin_out k"] piped_dead [OF k(5)] by (simp add: serf_sync_def)
    show ?thesis
    proof (cases "\<exists>pel sef'. cw_serf_writ ker jar sef = Inr (Plea pel, sef')")
      case False
      then have "king_serf ker k = k\<lparr>kin_pir := ?p, kin_sef := None\<rparr>"
        using s(1) pop by (auto simp: king_serf_def split: sum.splits serf_ret.splits)
      then show ?thesis
        using dead by simp
    next
      case True
      then obtain pel sef' where w: "cw_serf_writ ker jar sef = Inr (Plea pel, sef')"
        by blast
      then have serf: "king_serf ker k = k\<lparr>kin_pir := ?p, kin_sef := Some sef', kin_out := kin_out k @ [pel]\<rparr>"
        using s(1) pop by (simp add: king_serf_def)
      obtain wit where wit: "wit \<in> set (god_wit_u g)" "asked (sef_dun_d sef) wit jar" "savelike wit \<longrightarrow> sef_dun_d sef = god_eve_d g"
          "\<forall>pel e'. answers (sef_dun_d sef) wit pel e' \<longrightarrow> piped (god_eve_d g) (god_wit_u g) (kin_out k @ [pel]) jars (Some e')"
        using piped_answer [OF _ tl, of "god_eve_d g" "kin_out k" jar jars "sef_dun_d sef"] k(5) s by auto
      have ok: "serf_ok sef"
        using k(6) s(1) by (simp add: serf_sync_def)
      note ans = serf_answers [OF wit(2) w ok assms(2)]
      have "serf_sync d (Some sef')"
        using ans(2,3) wit(1,3) save k(6) s(1) by (auto simp: serf_sync_def)
      then show ?thesis
        unfolding serf using up [where s = "Some sef'" and pels = "kin_out k @ [pel]"] wit(4) ans(1) by simp
    qed
  qed
qed

lemma king_says_up:
  assumes "king_up ser view fir r0 gifs d k" and "is_slog pel"
  shows "king_up ser view fir r0 gifs d (king_says pel k)"
proof (cases "kin_sef k")
  case (Some sef)
  show ?thesis
    using assms(1) by (rule king_upE) (use Some assms(2) piped_slog in \<open>auto simp: king_says_def king_up_def heard_gifts_def simp del: upt_Suc\<close>)
qed (use assms(1) in \<open>simp add: king_says_def\<close>)

section \<open>Every event\<close>

text \<open>A pier that is closed stays so.\<close>

lemma closed_exit_ok:
  fixes p :: "'b u3_pier"
  assumes "closed p"
  shows "res_ok (\<lambda>q. closed q \<and> kicks q = kicks p) (lord_on_serf_exit env p)"
proof -
  have bail: "res_ok (\<lambda>q. closed q \<and> kicks q = kicks p) (pier_on_lord_bail r)" if "kicks r = kicks p" for r :: "'b u3_pier"
    unfolding pier_on_lord_bail_def by (rule res_ok_mono [OF u3_pier_bail_ok]) (use that in simp)
  show ?thesis
    using assms bail by (auto simp: lord_on_serf_exit_def Let_def closed_def pier_on_lord_exit_def pier_done_def split: option.splits intro!: heap_do_res)
qed

lemma king_step_closed:
  assumes "closed (kin_pir k)" and "released r0 (heard_gifts gifs k) d (kicks (kin_pir k))"
  shows "res_ok (king_ok ser view fir r0 gifs d) (king_step env ker ev k)"
proof -
  have gone: "\<not> is_working k"
    using assms(1) by (auto simp: closed_def is_working_def split: pier_union.splits)
  have ok: "king_ok ser view fir r0 gifs d k'" if "closed (kin_pir k')" "kicks (kin_pir k') = kicks (kin_pir k)" "kin_heard k' = kin_heard k" for k'
    using that assms(2) by (auto simp: king_ok_def heard_gifts_def)
  have same: "king_ok ser view fir r0 gifs d k"
    using ok assms(1) by simp
  have serf: "closed (kin_pir (king_serf ker k)) \<and> kicks (kin_pir (king_serf ker k)) = kicks (kin_pir k) \<and> kin_heard (king_serf ker k) = kin_heard k"
    using assms(1) by (auto simp: king_serf_def pop_inn_def closed_def split: option.splits list.splits sum.splits serf_ret.splits)
  have exit: "res_ok (king_ok ser view fir r0 gifs d) (king_pier (lord_on_serf_exit env) k)"
    by (rule king_pier_ok [where f = "lord_on_serf_exit env", OF closed_exit_ok [OF assms(1)]]) (simp add: ok)
  show ?thesis
    using assms(1) gone same serf exit ok
    by (cases ev) (auto simp: when_working_def king_says_def king_hear_def king_pier_def u3_pier_exit_def closed_def split: list.splits)
qed

lemma lord_gone_ok:
  assumes "working L p"
  shows "res_ok (\<lambda>q. closed q \<and> kicks q = kicks p) (lord_on_serf_exit env p)"
  using assms
proof (rule workingE)
  fix g log w
  assume w: "pir_god_u p = Some g" "work_inv L (pir_sat_e p) g log w"
  then have "god_wit_u g = [] \<or> hd (god_wit_u g) \<noteq> u3_writ_exit"
    by (cases "god_wit_u g") (auto simp: work_inv_def lord_ok_def)
  then show ?thesis
    using lord_bail_ok [OF w(1)] w(1) by (simp add: lord_on_serf_exit_def del: pier_heard_all.simps)
qed

lemma king_written:
  assumes "king_up ser view fir r0 gifs d k" and "mdb_ok (env_mdb env) view" and "env_ser env = ser"
  shows "king_step env ker Written k = Inl Freed \<or> res_ok (king_to ser view fir r0 gifs d) (king_step env ker Written k)"
  using assms(1)
proof (rule king_upE)
  fix g log
  assume k: "pir_god_u (kin_pir k) = Some g" "pir_log_u (kin_pir k) = Some log" "working (full ser view fir) (kin_pir k)" "log_dun_d log = d"
    "piped (god_eve_d g) (god_wit_u g) (kin_out k) (god_inn_u g) (map_option sef_dun_d (kin_sef k))" "serf_sync d (kin_sef k)"
    "kicks (kin_pir k) @ waiting (kin_pir k) = heard_gifts gifs k" "map gif_eve_d (heard_gifts gifs k) = [Suc r0..<Suc (god_eve_d g)]" "r0 \<le> god_eve_d g"
  have step: "king_step env ker Written k = king_pier (disk_commit_after_cb env) k"
    using k(2) by simp
  show ?thesis
  proof (cases "log_ted_u log")
    case None
    then have "king_step env ker Written k = Inr k"
      using k(2) by (simp add: king_pier_def disk_commit_after_cb_def on_log_def)
    then show ?thesis
      using assms(1) by (simp add: king_to_def king_ok_def)
  next
    case (Some req)
    obtain ret log1 where cb: "disk_commit_cb (env_mdb env) req log = (ret, log1)"
      by (cases "disk_commit_cb (env_mdb env) req log")
    show ?thesis
    proof (cases ret)
      case False
      then show ?thesis
        using write_fail_freed [OF k(2) Some, of env log1] cb unfolding step by (auto simp: king_pier_def)
    next
      case True
      have "king_to ser view fir r0 gifs d (k\<lparr>kin_pir := q\<rparr>)"
        if q: "working (full ser view fir) q" "grows (the (pir_god_u (kin_pir k))) (the (pir_god_u q))"
          "kicks q @ waiting q = kicks (kin_pir k) @ waiting (kin_pir k)" "log_dun_d (the (pir_log_u q)) = log_dun_d log + save_len_d req" for q
      proof -
        from q(1) obtain g2 log2 where g2: "pir_god_u q = Some g2" "pir_log_u q = Some log2"
          by (rule workingE)
        have grows: "grows g g2" "god_eve_d g2 = god_eve_d g"
          using q(2) g2(1) k(1) by (auto simp: grows_def)
        have "serf_sync (log_dun_d log2) (kin_sef k)"
          using k(4,6) q(4) g2(2) by (fastforce simp: serf_sync_def)
        then have "king_up ser view fir r0 gifs (log_dun_d log2) (k\<lparr>kin_pir := q\<rparr>)"
          unfolding king_up_def using q g2 grows(2) k(7-9) piped_grows [OF k(5) grows(1)] by (auto simp: heard_gifts_def simp del: upt_Suc)
        then show ?thesis
          using g2(2) by (auto simp: king_to_def king_ok_def)
      qed
      then show ?thesis
        using disk_commit_after_ok [OF k(3,2) Some assms(2,3)] cb True unfolding step by (auto intro!: disjI2 king_pier_ok)
    qed
  qed
qed

lemma king_step_up:
  assumes "king_up ser view fir r0 gifs d k" and "mdb_ok (env_mdb env) view" and "env_ser env = ser" and "peek_unit ker"
  shows "ev = Written \<and> king_step env ker ev k = Inl Freed \<or> res_ok (king_to ser view fir r0 gifs d) (king_step env ker ev k)"
proof -
  let ?K = "king_ok ser view fir r0 gifs d" and ?L = "full ser view fir"
  have p: "working ?L (kin_pir k)"
    using assms(1) by (rule king_upE)
  then have on: "is_working k" "\<not> pier_gone (kin_pir k)" "pir_god_u (kin_pir k) \<noteq> None"
    by (auto elim!: workingE simp: is_working_def)
  have up: "?K k'" if "king_up ser view fir r0 gifs d k'" for k'
    using that by (simp add: king_ok_def)
  have keep: "res_ok ?K (king_pier f k)" if "res_ok (keeps ?L (kin_pir k)) (f (kin_pir k))" for f
    by (rule king_pier_ok [where f = f, OF that]) (simp add: up king_keeps [OF assms(1)])
  have settle: "res_ok ?K (king_pier f k)" if "res_ok (settles ?L (kin_pir k)) (f (kin_pir k))" for f
    by (rule king_pier_ok [where f = f, OF that]) (rule king_settles [OF assms(1)])
  have idle: "res_ok (settles ?L (kin_pir k)) (pier_work_idle_cb env (kin_pir k))"
  proof -
    have idl: "keeps ?L q (q\<lparr>pir_idl_u := False\<rparr>)" if "working ?L q" for q
      by (rule keeps_frame [OF that]) auto
    have "settles ?L (kin_pir k) (q\<lparr>pir_idl_u := False\<rparr>)" if "settles ?L (kin_pir k) q" for q
      using that keeps_trans [OF _ idl [OF keeps_working]] by (auto simp: settles_def closed_def)
    then show ?thesis
      unfolding pier_work_idle_cb_def by (auto intro: on_res_ok [OF pier_work_ok(1) [OF p]])
  qed
  have gone: "res_ok ?K (king_pier (lord_on_serf_exit env) k)"
    by (rule king_pier_ok [where f = "lord_on_serf_exit env", OF lord_gone_ok [OF p]]) (simp add: king_closed [OF assms(1)])
  have quit: "res_ok ?K (king_pier u3_pier_exit k)"
  proof (rule king_pier_ok [where f = u3_pier_exit, OF u3_pier_exit_ok [OF p]])
    fix q
    assume "shuts ?L (kin_pir k) q"
    then show "?K (k\<lparr>kin_pir := q\<rparr>)"
      using assms(1) by (auto simp: shuts_def king_ok_def king_up_def heard_gifts_def simp del: upt_Suc)
  qed
  have heap: "king_up ser view fir r0 gifs d (k\<lparr>kin_pir := (kin_pir k)\<lparr>pir_heap := h\<rparr>\<rparr>)" for h
    by (rule king_keeps [OF assms(1) keeps_heap [OF p]])
  have hear: "res_ok ?K (king_hear env k)"
    using king_heard [OF assms(1) _ assms(3)] up [OF assms(1)] by (cases "kin_out k") (simp_all add: king_hear_def)
  have "ev = Written \<or> res_ok ?K (king_step env ker ev k)"
    using on up [OF assms(1)] up [OF king_serf_up [OF assms(1,4)]] up [OF king_says_up [OF assms(1)]] up [OF heap] hear gone quit
      settle [of "pier_work_afte_cb env"] settle [of "pier_work_idle_cb env"] idle pier_work_ok(1) [OF p, of env]
      keep [of u3_pier_save, OF u3_pier_save_ok [OF p]] keep [of u3_pier_cram, OF u3_pier_cram_ok [OF p]] keep [of u3_pier_meld, OF u3_pier_meld_ok [OF p]] keep [of u3_pier_pack, OF u3_pier_pack_ok [OF p]]
      keep [where f = "pier_peek_plan _", OF pier_peek_plan_ok [OF p]]
    by (cases ev) (simp_all add: when_working_def pier_work_afte_cb_def)
  then show ?thesis
    using king_written [OF assms(1-3), of ker] by (auto simp: king_to_def intro: res_ok_mono)
qed

section \<open>Runs\<close>

lemma king_step_ok:
  assumes "king_ok ser view fir r0 gifs d k" and "mdb_ok (env_mdb env) view" and "env_ser env = ser" and "peek_unit ker"
  shows "ev = Written \<and> king_step env ker ev k = Inl Freed \<or> res_ok (king_to ser view fir r0 gifs d) (king_step env ker ev k)"
proof (cases "king_up ser view fir r0 gifs d k")
  case True
  then show ?thesis
    using king_step_up assms(2-4) by blast
next
  case False
  then show ?thesis
    using king_step_closed [of k r0 gifs d ser view fir env ker ev] assms(1) by (auto simp: king_ok_def king_to_def intro: res_ok_mono)
qed

text \<open>\<open>committed_by\<close>: at some moment of the run the log has event \<open>d\<close> in the database.\<close>

definition committed_by :: "'b pier_env \<Rightarrow> kernel \<Rightarrow> (nat \<times> king_event) list \<Rightarrow> 'b king \<Rightarrow> nat \<Rightarrow> bool" where
  "committed_by env ker evs k d \<longleftrightarrow>
     (\<exists>n \<le> length evs. \<exists>k' log. king_run env ker (take n evs) k = Inr k' \<and> pir_log_u (kin_pir k') = Some log \<and> d \<le> log_dun_d log)"

lemma committed_Cons:
  assumes "king_step (env\<lparr>env_now := now\<rparr>) ker ev k = Inr k1" and "committed_by env ker evs k1 d"
  shows "committed_by env ker ((now, ev) # evs) k d"
proof -
  obtain n k' log where n: "n \<le> length evs" "king_run env ker (take n evs) k1 = Inr k'" "pir_log_u (kin_pir k') = Some log" "d \<le> log_dun_d log"
    using assms(2) by (auto simp: committed_by_def)
  then show ?thesis
    unfolding committed_by_def using assms(1) by (intro exI [of _ "Suc n"]) auto
qed

lemma committed_start: "pir_log_u (kin_pir k) = Some log \<Longrightarrow> d \<le> log_dun_d log \<Longrightarrow> committed_by env ker evs k d"
  unfolding committed_by_def by (intro exI [of _ 0]) auto

lemma king_run_ok:
  assumes "king_ok ser view fir r0 gifs d k" and "mdb_ok (env_mdb env) view" and "env_ser env = ser" and "peek_unit ker"
  shows "king_run env ker evs k \<noteq> Inl Assert"
    and "king_run env ker evs k = Inr k' \<Longrightarrow> \<exists>d'. king_ok ser view fir r0 gifs d' k' \<and> (d' = d \<or> committed_by env ker evs k d')"
    and "king_run env ker evs k = Inl Freed \<Longrightarrow> Written \<in> snd ` set evs"
proof -
  have "king_run env ker evs k \<noteq> Inl Assert \<and> (king_run env ker evs k = Inl Freed \<longrightarrow> Written \<in> snd ` set evs) \<and>
      (king_run env ker evs k = Inr k' \<longrightarrow> (\<exists>d'. king_ok ser view fir r0 gifs d' k' \<and> (d' = d \<or> committed_by env ker evs k d')))"
    using assms(1)
  proof (induction evs arbitrary: k d)
    case Nil
    then show ?case
      by auto
  next
    case (Cons nev evs)
    obtain now ev where nev: "nev = (now, ev)"
      by (cases nev)
    let ?step = "king_step (env\<lparr>env_now := now\<rparr>) ker ev k"
    have step: "ev = Written \<and> ?step = Inl Freed \<or> res_ok (king_to ser view fir r0 gifs d) ?step"
      using king_step_ok [OF Cons.prems, of "env\<lparr>env_now := now\<rparr>" ker ev] assms(2-4) by auto
    show ?case
    proof (cases ?step)
      case (Inl e)
      then show ?thesis
        using step nev by auto
    next
      case (Inr k1)
      then obtain d1 where d1: "king_ok ser view fir r0 gifs d1 k1" "d1 = d \<or> (\<exists>log. pir_log_u (kin_pir k1) = Some log \<and> log_dun_d log = d1)"
        using step by (auto simp: king_to_def)
      have at: "d1 = d \<or> committed_by env ker (nev # evs) k d1"
        using d1(2) committed_Cons [OF Inr committed_start] nev by blast
      show ?thesis
      proof (cases "king_run env ker evs k1 = Inr k'")
        case True
        then obtain d' where d': "king_ok ser view fir r0 gifs d' k'" "d' = d1 \<or> committed_by env ker evs k1 d'"
          using Cons.IH [OF d1(1)] by auto
        then have "d' = d \<or> committed_by env ker (nev # evs) k d'"
          using at committed_Cons [OF Inr] nev by auto
        then show ?thesis
          using d'(1) True Inr nev by auto
      next
        case False
        then show ?thesis
          using Cons.IH [OF d1(1)] Inr nev by auto
      qed
    qed
  qed
  then show "king_run env ker evs k \<noteq> Inl Assert" "king_run env ker evs k = Inr k' \<Longrightarrow> \<exists>d'. king_ok ser view fir r0 gifs d' k' \<and> (d' = d \<or> committed_by env ker evs k d')"
      "king_run env ker evs k = Inl Freed \<Longrightarrow> Written \<in> snd ` set evs"
    by auto
qed

section \<open>The start\<close>

text \<open>A pier that waits for the answer to the negotiation of versions, and a worker at the last event of the log.\<close>

definition king_wyrd :: "serial \<Rightarrow> ('b \<Rightarrow> nat \<Rightarrow> byte list option) \<Rightarrow> nat \<Rightarrow> nat \<Rightarrow> 'b king \<Rightarrow> bool" where
  "king_wyrd ser view fir d k \<longleftrightarrow>
     negot ser view fir (kin_pir k) \<and> kicks (kin_pir k) = [] \<and> kin_out k = [] \<and> kin_heard k = [] \<and>
     (\<exists>g egg_u job jar sef. pir_god_u (kin_pir k) = Some g \<and> god_eve_d g = d \<and> god_wit_u g = [u3_writ_work egg_u job] \<and> god_inn_u g = [jar] \<and>
       asked d (u3_writ_work egg_u job) jar \<and> kin_sef k = Some sef \<and> sef_dun_d sef = d \<and> serf_sync d (Some sef))"

lemma king_wyrd_hear:
  assumes "negot ser view fir (kin_pir k)" and "pir_god_u (kin_pir k) = Some g" and "god_wit_u g = [u3_writ_work egg_u job]" and "god_inn_u g = []"
    and "kicks (kin_pir k) = []" and "kin_out k = [pel]" and "kin_heard k = []" and "answers (god_eve_d g) (u3_writ_work egg_u job) pel (sef_dun_d sef)"
    and "kin_sef k = Some sef" and "serf_sync (god_eve_d g) (Some sef)" and "env_ser env = ser"
  shows "res_ok (king_ok ser view fir (god_eve_d g) [] (god_eve_d g)) (king_hear env k)"
proof -
  let ?p = "kin_pir k" and ?k = "k\<lparr>kin_out := [], kin_heard := [pel]\<rparr>" and ?d = "god_eve_d g"
  obtain h where h: "popped g h" "god_eve_d h = sef_dun_d sef"
      "res_ok (heard_to ser view fir (h\<lparr>god_wyrd := False\<rparr>) (plea_gifts pel) ?p) (pier_on_plea env (Some pel) ?p)"
    using on_wyrd_answer [OF assms(1-3,8,11)] by blast
  obtain log where log: "pir_log_u ?p = Some log" "log_dun_d log = ?d"
    using assms(1,2) by (auto elim!: negotE)
  have gifts: "heard_gifts [] (?k\<lparr>kin_pir := q\<rparr>) = plea_gifts pel" for q
    by (simp add: heard_gifts_def)
  have eves: "map gif_eve_d (plea_gifts pel) = [Suc ?d..<Suc (sef_dun_d sef)]" "?d \<le> sef_dun_d sef"
    using answer_gifts [OF assms(8)] by auto
  have up: "king_up ser view fir ?d [] ?d (?k\<lparr>kin_pir := q\<rparr>)"
    if q: "heard_on ser view fir (h\<lparr>god_wyrd := False\<rparr>) (plea_gifts pel) ?p q" for q
  proof -
    from q obtain g2 log2 where g2: "pir_god_u q = Some g2" "pir_log_u q = Some log2"
      unfolding heard_on_def by (auto elim: workingE)
    have q2: "working (full ser view fir) q" "grows (h\<lparr>god_wyrd := False\<rparr>) g2" "kicks q @ waiting q = plea_gifts pel" "log_dun_d log2 = ?d"
      using q g2 log assms(5) negot_waiting [OF assms(1)] by (simp_all add: heard_on_def)
    have "piped (god_eve_d (h\<lparr>god_wyrd := False\<rparr>)) (god_wit_u (h\<lparr>god_wyrd := False\<rparr>)) [] (god_inn_u (h\<lparr>god_wyrd := False\<rparr>)) (Some (sef_dun_d sef))"
      using h(1,2) assms(3,4) by (simp add: popped_def)
    from piped_grows [OF this q2(2)] show ?thesis
      unfolding king_up_def gifts using g2 q2 eves h(2) assms(9,10) by (auto simp: grows_def simp del: upt_Suc)
  qed
  have fin: "king_ok ser view fir ?d [] ?d (?k\<lparr>kin_pir := q\<rparr>)"
    if q: "heard_to ser view fir (h\<lparr>god_wyrd := False\<rparr>) (plea_gifts pel) ?p q" for q
  proof (cases "heard_on ser view fir (h\<lparr>god_wyrd := False\<rparr>) (plea_gifts pel) ?p q")
    case True
    then show ?thesis
      using up by (simp add: king_ok_def)
  next
    case False
    then have q: "closed q" "kicks q = [] \<or> (\<exists>r. heard_on ser view fir (h\<lparr>god_wyrd := False\<rparr>) (plea_gifts pel) ?p r \<and> kicks q = kicks r)"
      using q assms(5) by (auto simp: heard_to_def)
    have "released ?d (plea_gifts pel) ?d (kicks q)"
      using q(2)
    proof (elim disjE exE conjE)
      fix r
      assume r: "heard_on ser view fir (h\<lparr>god_wyrd := False\<rparr>) (plea_gifts pel) ?p r" "kicks q = kicks r"
      from up [OF r(1)] show ?thesis
        using r(2) gifts [of r] by (auto elim!: king_upE)
    qed (simp add: released_def)
    then show ?thesis
      using q(1) gifts by (simp add: king_ok_def)
  qed
  have "king_hear env k = king_pier (pier_on_plea env (Some pel)) ?k"
    using assms(2,6,7) by (simp add: king_hear_def)
  moreover have "res_ok (king_ok ser view fir ?d [] ?d) (king_pier (pier_on_plea env (Some pel)) ?k)"
    by (rule king_pier_ok [where Q = "heard_to ser view fir (h\<lparr>god_wyrd := False\<rparr>) (plea_gifts pel) ?p"]) (use h(3) fin in auto)
  ultimately show ?thesis
    by simp
qed

end
