(* ===== verification/King_Properties.thy ===== *)
theory King_Properties
  imports King_Run
begin

text \<open>Properties of the king and the worker, of the event log, and an example of a run.\<close>

section \<open>An example\<close>

text \<open>A database that holds the events from 1 on, in order.\<close>

definition list_view :: "byte list list \<Rightarrow> nat \<Rightarrow> byte list option" where
  "list_view env k = (if 0 < k \<and> k \<le> length env then Some (env ! (k - 1)) else None)"

definition list_mdb :: "byte list list mdb" where
  "list_mdb = \<lparr>txn_begin = Some, dbi_open = Some, mdb_put = (\<lambda>txn k v. if k = Suc (length txn) then Some (txn @ [v]) else None),
     txn_commit = (\<lambda>env txn. Some txn), cursor_open = (\<lambda>txn. True), cursor_set = list_view,
     cursor_next = (\<lambda>txn k. Inr (if k < length txn then Some (Suc k, txn ! k) else None)),
     cursor_first = (\<lambda>txn. Inr (if txn = [] then None else Some 1)), cursor_last = (\<lambda>txn. if txn = [] then None else Some (length txn))\<rparr>"

lemma list_mdb_ok: "mdb_ok list_mdb list_view"
  unfolding mdb_ok_def list_mdb_def
  by (auto simp: list_view_def fun_eq_iff nth_append split: if_splits)

text \<open>Atoms survive this serialization.\<close>

definition atom_serial :: serial where
  "atom_serial = \<lparr>jam_f = (\<lambda>n. case n of Atom a \<Rightarrow> Suc a | Cell _ _ \<Rightarrow> 0), cue_f = (\<lambda>a. if a = 0 then None else Some (Atom (a - 1)))\<rparr>"

text \<open>A kernel that accepts every event and has no effects.\<close>

definition calm_kernel :: kernel where
  "calm_kernel = \<lparr>poke_f = (\<lambda>roc now mil_w ovo. u3nt (Atom 0) u3_nul (u3nc roc now)), life_f = (\<lambda>eve. u3nc (Atom 0) eve),
     peek_f = (\<lambda>roc now mil_w sam. u3nc (Atom 0) u3_nul), mug_f = (\<lambda>cor. 5), open_f = (\<lambda>eve. (0, 0)), cram_f = (\<lambda>eve. True)\<rparr>"

lemma calm_ok: "peek_unit calm_kernel" "untimed calm_kernel"
  by (simp_all add: peek_unit_def untimed_def calm_kernel_def u3_nul_def)

definition calm_env :: "byte list list pier_env" where
  "calm_env = \<lparr>env_mdb = list_mdb, env_ser = atom_serial, env_kick = (\<lambda>car_u pax fav h. Some (True, h)), env_auto = (\<lambda>h. Some (None, h)), env_now = 0,
     env_car_a = 8, env_egg_a = 9, env_sen = u3_nul, env_ver = u3_nul, env_pex = None, env_pep_o = False, env_til = None\<rparr>"

definition one_egg :: auto_heap where
  "one_egg = \<lparr>eggs = [1 \<mapsto> \<lparr>egg_try_w = 0, egg_mil_w = 0, egg_tar = u3_nul, egg_wir = u3_nul, egg_cad = u3_nul, egg_lab = u3_nul, egg_del_o = True,
       egg_ptr_v = None, egg_news_f = None, egg_bail_f = None, egg_pre_u = None, egg_nex_u = None, egg_car_u = Some 2\<rparr>],
     cars = [2 \<mapsto> \<lparr>car_nam_m = 0, car_liv_o = True, car_dep_w = 0, car_ent_u = None, car_ext_u = None, car_nex_u = None, car_talk_f = None,
       car_info_f = None, car_slog_f = None, car_kick_f = None, car_exit_f = None\<rparr>], calls = []\<rparr>"

text \<open>The event with the number 3 has been sent to the worker.\<close>

definition third_job :: noun where
  "third_job = u3nc (Atom 30) (Atom 33)"

definition third_king :: "byte list list king" where
  "third_king = \<lparr>kin_pir = \<lparr>pir_lif_w = 0, pir_liv_o = True,
       pir_log_u = Some \<lparr>log_sen_d = 2, log_dun_d = 2, log_ted_u = None, log_put_u = [], log_mdb_u = [[1], [2]]\<rparr>,
       pir_god_u = Some \<lparr>god_liv_o = True, god_hon_y = 141, god_noc_y = 4, god_eve_d = 2, god_mug_l = 0, god_wyrd = False, god_pin_o = True, god_dep_w = 1,
         god_wit_u = [u3_writ_work 1 third_job], god_inn_u = [u3nt c3__work (Atom 0) third_job], god_noop = False\<rparr>,
       pir_old_u = None, pir_sat_e = u3_psat_work, pir_uni_u = Work_state \<lparr>wok_car_u = None, wok_wal_u = [], wok_rel_d = 2, wok_fec_u = []\<rparr>,
       pir_pec_u = [], pir_heap = one_egg, pir_reads = [], pir_idl_u = False, pir_calls = []\<rparr>,
     kin_sef = Some \<lparr>sef_sen_d = 2, sef_dun_d = 2, sef_mug_l = 5, sef_pac_o = False, sef_rec_o = False, sef_mut_o = False, sef_sac = u3_nul, sef_roc = Atom 7,
       sef_now = Atom 20, sef_eve_d = 2, sef_img = None\<rparr>,
     kin_out = [], kin_heard = []\<rparr>"

lemma third_up: "king_up atom_serial list_view 1 2 [] 2 third_king"
proof -
  have "dom (list_view [[1], [2]]) = {1..2}"
    by (auto simp: list_view_def dom_def split: if_splits)
  then show ?thesis
    by (auto simp: king_up_def third_king_def working_def work_inv_def full_def log_ok_def fact_eves_def lord_ok_def walls_ok_def kicks_def waiting_def
        pier_gone_def heard_gifts_def serf_sync_def serf_ok_def third_job_def)
qed

text \<open>The worker computes it, the king hears of it, the log is written, and a snapshot is asked for and made.\<close>

lemma no_peeks [simp]: "pir_pec_u p = [] \<Longrightarrow> peek_send_loop n p = Inr p"
  by (cases n) (simp_all add: pier_peek_next_def)

lemmas example_simps = third_king_def calm_kernel_def calm_env_def third_job_def one_egg_def list_mdb_def u3_nul_def

lemmas worker_simps = king_serf_def pop_inn_def cw_serf_writ_def u3_serf_writ_def u3_serf_work_def serf_work_def serf_poke_def serf_sure_def
  serf_sure_core_def serf_sure_feck_def u3_serf_post_def u3_serf_live_def serf_writ_live_save_def u3e_save_def u3r_safe_word_def u3r_safe_chub_def

lemmas lord_simps = lord_on_plea_def lord_plea_work_def lord_writ_pop_def lord_plea_work_done_def lord_work_done_def lord_work_spin_def u3r_trel_def
  u3_fact_init_def u3_gift_init_def u3_lord_save_def lord_plan_def lord_writ_plan_def lord_writ_send_def lord_writ_make_def god_do_def

lemmas disk_simps = u3_disk_plan_def disk_commit_def disk_batch_def disk_commit_start_def disk_commit_after_cb_def disk_commit_cb_def u3_lmdb_save_def
  disk_commit_done_def disk_written_def disk_clean_def

lemmas pier_simps = king_hear_def king_pier_def pier_on_plea_def on_god_def on_log_def on_work_def pier_on_lord_work_done_def pier_on_lord_work_spun_def
  pier_plan_def heap_do_def u3_auto_done_def auto_news_def u3_ovum_free_def pier_gift_plan_def pier_work_def pier_work_live_def pier_gift_kick.simps
  pier_gift_next_def pier_auto_kick_def pier_wall_def pier_work_send_def work_send_loop.simps work_room_def pier_call_def pier_on_disk_write_done_def
  when_working_def is_working_def pier_gone_def u3_pier_save_def pier_wall_plan_def wall_insert_def pier_work_afte_cb_def pier_wall_call_def Let_def

definition third_events :: "(nat \<times> king_event) list" where
  "third_events = [(0, Serf_writ), (0, Hear), (0, Written), (0, Save_time), (0, Afte), (0, Serf_writ)]"

lemma third_run:
  obtains k' sef log where "king_run calm_env calm_kernel third_events third_king = Inr k'" and "kicks (kin_pir k') = [\<lparr>gif_eve_d = 3, gif_act = Atom 0\<rparr>]"
    and "kin_sef k' = Some sef" and "sef_img sef = Some (3, u3nc (Atom 7) (Atom 30))" and "pir_log_u (kin_pir k') = Some log" and "log_dun_d log = 3"
proof -
  obtain k' where "king_run calm_env calm_kernel third_events third_king = Inr k'" "kicks (kin_pir k') = [\<lparr>gif_eve_d = 3, gif_act = Atom 0\<rparr>]"
      "map_option sef_img (kin_sef k') = Some (Some (3, u3nc (Atom 7) (Atom 30)))" "map_option log_dun_d (pir_log_u (kin_pir k')) = Some 3"
    by (simp add: third_events_def example_simps worker_simps lord_simps disk_simps pier_simps kicks_def)
  then show ?thesis
    using that by fastforce
qed

section \<open>The king and the worker\<close>


lemma king_run_up:
  assumes "king_up ser view fir r0 gifs d k" and "mdb_ok (env_mdb env) view" and "env_ser env = ser" and "peek_unit ker"
    and "king_run env ker evs k = Inr k'" and "pir_log_u (kin_pir k') = Some log"
  shows "king_up ser view fir r0 gifs (log_dun_d log) k'"
    and "released r0 (heard_gifts gifs k') (log_dun_d log) (kicks (kin_pir k')) \<and> kicks (kin_pir k') @ waiting (kin_pir k') = heard_gifts gifs k'"
proof -
  have ok: "king_ok ser view fir r0 gifs d k"
    using assms(1) by (simp add: king_ok_def)
  obtain d' where "king_ok ser view fir r0 gifs d' k'"
    using king_run_ok(2) [OF ok assms(2-5)] by blast
  then have up: "king_up ser view fir r0 gifs d' k'"
    using assms(6) by (auto simp: king_ok_def closed_def)
  moreover from up have "d' = log_dun_d log"
    using assms(6) by (auto simp: king_up_def)
  ultimately show "king_up ser view fir r0 gifs (log_dun_d log) k'"
    by simp
  then show "released r0 (heard_gifts gifs k') (log_dun_d log) (kicks (kin_pir k')) \<and> kicks (kin_pir k') @ waiting (kin_pir k') = heard_gifts gifs k'"
    by (rule king_upE) (simp add: king_up_def)
qed







text \<open>
  C7. The snapshot is never ahead of the log: in every run, while the king is up, the worker's last snapshot is of an event
  that is in the database, and the database has every event from its first one to the last committed one and no other.
\<close>

theorem king_snapshot:
  assumes "king_up ser view fir r0 gifs d k" and "mdb_ok (env_mdb env) view" and "env_ser env = ser" and "peek_unit ker"
    and "king_run env ker evs k = Inr k'" and "pir_log_u (kin_pir k') = Some log" and "kin_sef k' = Some sef" and "sef_img sef = Some (e, roc)"
  shows "e \<le> log_dun_d log \<and> dom (view (log_mdb_u log)) = {fir..log_dun_d log}"
proof -
  from king_run_up(1) [OF assms(1-6)] have "e \<le> log_dun_d log" "working (full ser view fir) (kin_pir k')"
    using assms(6-8) by (auto elim!: king_upE simp: serf_sync_def)
  moreover have "log_ok ser view fir log"
    using \<open>working (full ser view fir) (kin_pir k')\<close> assms(6) by (auto elim!: working_fullE)
  ultimately show ?thesis
    by (simp add: log_ok_def)
qed

theorem king_snapshot_witness:
  "\<exists>k' sef log. king_run calm_env calm_kernel third_events third_king = Inr k' \<and> kin_sef k' = Some sef \<and> pir_log_u (kin_pir k') = Some log \<and>
    sef_img sef = Some (3, u3nc (Atom 7) (Atom 30)) \<and> log_dun_d log = 3 \<and> dom (list_view (log_mdb_u log)) = {1..3}"
proof -
  obtain k' sef log where k': "king_run calm_env calm_kernel third_events third_king = Inr k'" "kin_sef k' = Some sef"
      "sef_img sef = Some (3, u3nc (Atom 7) (Atom 30))" "pir_log_u (kin_pir k') = Some log" "log_dun_d log = 3"
    by (rule third_run)
  have env: "mdb_ok (env_mdb calm_env) list_view" "env_ser calm_env = atom_serial"
    by (simp_all add: calm_env_def list_mdb_ok)
  from king_snapshot [OF third_up env calm_ok(1) k'(1,4,2,3)] show ?thesis
    using k' by auto
qed

text \<open>
  C14. No event makes an assertion of \<^verbatim>\<open>pier.c\<close>, \<^verbatim>\<open>lord.c\<close> or \<^verbatim>\<open>disk.c\<close> fail: whatever the drivers, the worker and the user do and in
  whatever order, a run of a working pier fails no assertion, and it uses the log after it was freed only in the handler
  of the end of a write. That a noun is malformed and that a driver's queue is broken are other outcomes of a run.
\<close>

theorem king_no_assertion:
  assumes "king_ok ser view fir r0 gifs d k" and "mdb_ok (env_mdb env) view" and "env_ser env = ser" and "peek_unit ker"
  shows "king_run env ker evs k \<noteq> Inl Assert \<and> (king_run env ker evs k = Inl Freed \<longrightarrow> Written \<in> snd ` set evs)"
  using king_run_ok(1,3) [OF assms] by blast

theorem king_no_assertion_witness: "king_run calm_env calm_kernel [(0, Quit), (0, Hear), (0, Serf_writ), (0, Afte), (0, Cram), (0, Hear)] third_king \<noteq> Inl Assert"
proof -
  have env: "mdb_ok (env_mdb calm_env) list_view" "env_ser calm_env = atom_serial"
    by (simp_all add: calm_env_def list_mdb_ok)
  have "king_ok atom_serial list_view 1 2 [] 2 third_king"
    using third_up by (simp add: king_ok_def)
  from king_no_assertion [OF this env calm_ok(1)] show ?thesis
    by blast
qed

section \<open>The start of work\<close>





section \<open>Replay\<close>

text \<open>
  C9. Replay reproduces the worker. The events that a worker has accepted, or the reports that stand for events that
  failed, played in one batch to a worker with the same kernel, lead to the same kernel, date, mug and event number,
  provided that an event accepted within its time limit has the same product without a limit.
\<close>

theorem serf_replay:
  assumes "untimed ker" and "serf_ok sef" and "0 < sef_dun_d sef" and "serf_run ker jobs sef = Inr (his, sef')" and "serf_ok sef2"
    and "kernel_of sef2 = kernel_of sef"
  shows "\<exists>sef3. u3_serf_play ker (Suc (sef_dun_d sef)) (list_noun his) sef2 = Inr (u3nt c3__play c3__done (Atom (unat (sef_mug_l sef'))), sef3) \<and>
    kernel_of sef3 = kernel_of sef' \<and> sef_dun_d sef' = sef_dun_d sef + length his"
proof -
  have "sef_dun_d sef2 = sef_dun_d sef" "sef_sen_d sef2 = sef_dun_d sef"
    using assms(5,6) by (auto simp: serf_ok_def kernel_of_def)
  then show ?thesis
    using serf_replay_history [OF assms(1,2,4-6), of "fst (open_f ker (sef_dun_d sef + 1))"] assms(3) by (auto simp: u3_serf_play_def)
qed

definition second_serf :: u3_serf where
  "second_serf = \<lparr>sef_sen_d = 2, sef_dun_d = 2, sef_mug_l = 5, sef_pac_o = False, sef_rec_o = False, sef_mut_o = False, sef_sac = u3_nul, sef_roc = Atom 7,
     sef_now = Atom 20, sef_eve_d = 2, sef_img = None\<rparr>"

theorem serf_replay_witness:
  "\<exists>sef3. u3_serf_play calm_kernel 3 (list_noun [third_job, third_job]) second_serf = Inr (u3nt c3__play c3__done (Atom 5), sef3) \<and> sef_dun_d sef3 = 4"
proof -
  obtain sef' where run: "serf_run calm_kernel [(100, third_job), (0, third_job)] second_serf = Inr ([third_job, third_job], sef')" "sef_mug_l sef' = 5" "sef_dun_d sef' = 4"
    by (simp add: second_serf_def example_simps worker_simps history_def)
  have sef: "serf_ok second_serf" "sef_dun_d second_serf = 2"
    by (simp_all add: serf_ok_def second_serf_def)
  obtain sef3 where "u3_serf_play calm_kernel (Suc 2) (list_noun [third_job, third_job]) second_serf = Inr (u3nt c3__play c3__done (Atom (unat (sef_mug_l sef'))), sef3)"
      "kernel_of sef3 = kernel_of sef'"
    using serf_replay [OF calm_ok(2) sef(1) _ run(1) sef(1) refl] sef(2) by auto
  then show ?thesis
    using run(2,3) by (simp add: kernel_of_def)
qed

section \<open>The event log\<close>

text \<open>
  C16. Events survive the log. When the write thread has saved its batch, the log is in order, and a read of as many
  events from the first of the batch gives back exactly the facts that were planned, with their numbers, mugs and jobs,
  unless the database reports an error, which the read reports; no assertion fails. The jobs have to survive their
  serialization.
\<close>

theorem disk_round_trip:
  assumes "mdb_ok mdb view" and "log_ok ser view fir log" and "log_ted_u log = Some req" and "disk_commit_cb mdb req log = (True, log1)"
    and "serial_ok ser (take (save_len_d req) (log_put_u log))" and "log2 = disk_clean (disk_written req (log1\<lparr>log_ted_u := None\<rparr>))"
  shows "log_ok ser view fir log2 \<and> log_dun_d log2 = log_dun_d log + save_len_d req \<and>
    u3_disk_read ser mdb log2 (save_eve_d req) (save_len_d req) \<in> {Some None, Some (Some (take (save_len_d req) (log_put_u log)))} \<and>
    (mdb_reads mdb view \<longrightarrow> u3_disk_read ser mdb log2 (save_eve_d req) (save_len_d req) = Some (Some (take (save_len_d req) (log_put_u log))))"
proof -
  let ?tacs = "take (save_len_d req) (log_put_u log)"
  note wrote = disk_write_ok [OF assms(1-4)] and put = log_ok_put [OF assms(2)]
  have req: "save_eve_d req = Suc (log_dun_d log)" "0 < save_len_d req" "log_dun_d log + save_len_d req \<le> log_sen_d log"
    using assms(2,3) by (auto simp: log_ok_def)
  have len: "length ?tacs = save_len_d req"
    using put(1) req(3) by simp
  have fields: "log_mdb_u log2 = log_mdb_u log1" "log_dun_d log2 = log_dun_d log + save_len_d req"
    using wrote(3) assms(6) by (simp_all add: disk_clean_def disk_written_def)
  have "u3_disk_read ser mdb log2 (Suc (log_dun_d log)) (length ?tacs) \<in> {Some None, Some (Some ?tacs)} \<and>
      (mdb_reads mdb view \<longrightarrow> u3_disk_read ser mdb log2 (Suc (log_dun_d log)) (length ?tacs) = Some (Some ?tacs))"
  proof (rule u3_disk_read_facts [OF assms(1,5)])
    show "fact_eve_d (?tacs ! j) = Suc (log_dun_d log) + j" if "j < length ?tacs" for j
      using that put(2) [of j] len by simp
    show "view (log_mdb_u log2) (Suc (log_dun_d log) + j) = Some (disk_serialize_v1 ser (?tacs ! j))" if "j < length ?tacs" for j
      unfolding fields(1) wrote(2) put_range_def using that len by simp
    show "?tacs \<noteq> []"
      using len req(2) by auto
  qed
  then show ?thesis
    using wrote(1) assms(6) fields(2) req(1) len by simp
qed

definition third_log :: "byte list list u3_disk" where
  "third_log = \<lparr>log_sen_d = 3, log_dun_d = 2, log_ted_u = Some \<lparr>save_eve_d = 3, save_len_d = 1, save_byt_y = [disk_serialize_v1 atom_serial (u3_fact_init 3 5 (Atom 33))]\<rparr>,
     log_put_u = [u3_fact_init 3 5 (Atom 33)], log_mdb_u = [[1], [2]]\<rparr>"

theorem disk_round_trip_witness:
  "\<exists>log1 log2. disk_commit_cb list_mdb (the (log_ted_u third_log)) third_log = (True, log1) \<and> log_dun_d log2 = 3 \<and>
    u3_disk_read atom_serial list_mdb log2 3 1 = Some (Some [u3_fact_init 3 5 (Atom 33)])"
proof -
  let ?log1 = "third_log\<lparr>log_mdb_u := [[1], [2], disk_serialize_v1 atom_serial (u3_fact_init 3 5 (Atom 33))]\<rparr>"
  let ?log2 = "disk_clean (disk_written (the (log_ted_u third_log)) (?log1\<lparr>log_ted_u := None\<rparr>))"
  have dom: "dom (list_view [[1], [2]]) = {1..2}"
    by (auto simp: list_view_def dom_def split: if_splits)
  have ok: "log_ok atom_serial list_view 1 third_log"
    using dom by (simp add: log_ok_def third_log_def fact_eves_def u3_fact_init_def)
  have cb: "disk_commit_cb list_mdb (the (log_ted_u third_log)) third_log = (True, ?log1)"
    by (simp add: disk_commit_cb_def third_log_def u3_lmdb_save_def list_mdb_def)
  have ser: "serial_ok atom_serial (take (save_len_d (the (log_ted_u third_log))) (log_put_u third_log))"
    by (simp add: serial_ok_def third_log_def atom_serial_def u3_fact_init_def)
  have "mdb_reads list_mdb list_view"
    by (simp add: mdb_reads_def list_mdb_def)
  then have "log_dun_d ?log2 = 3 \<and> u3_disk_read atom_serial list_mdb ?log2 3 1 = Some (Some [u3_fact_init 3 5 (Atom 33)])"
    using disk_round_trip [OF list_mdb_ok ok _ cb ser refl] by (simp add: third_log_def)
  then show ?thesis
    using cb by (intro exI [of _ ?log1] exI [of _ ?log2]) auto
qed

end
