(* ===== verification/Spec2Isabelle.thy ===== *)
theory Spec2Isabelle
  imports Ur_Examples Ur_Dict_Properties Bitstream_Properties Newt Urbit_Time Auto_Properties
    Ames_Properties Ames_Driver_Properties Jet_Properties Jet_List_Correct Noun_Hash_Properties Nock_Properties King_Properties
begin

text \<open>
  A verification of the core of vere, the runtime of Urbit.

  The program. \<^verbatim>\<open>pkg/ur\<close> is a library for nouns (binary trees of numbers) in an arena without duplicates, and
  for their serialization. \<^verbatim>\<open>pkg/noun\<close> is the interpreter, with its own memory, jets and persistence.
  \<^verbatim>\<open>pkg/vere\<close> runs two processes around it: the king, with the drivers for the network, time, files and the terminal,
  and the serf, which computes events; they exchange serialized nouns over a pipe. This development covers
  \<^verbatim>\<open>pkg/ur\<close>; of \<^verbatim>\<open>pkg/noun\<close> the Nock compiler and bytecode interpreter, access to nouns, hashtables, and the jets on
  lists, sets and maps; and of \<^verbatim>\<open>pkg/vere\<close> the framing of the pipe, the queues of events between the drivers and the
  serf, dates, the network driver, and the life of an event: the event log, the serf, its client in the king, and the
  pier that drives them.

  \<^bold>\<open>Nouns and their serialization\<close> (\<^verbatim>\<open>src/pkg/ur\<close>).
  \<^item> \<^verbatim>\<open>Ur_Prelude\<close> has the bits of byte memories, words and numbers that all theories share, \<^verbatim>\<open>Ur_Defs\<close> is
    \<^verbatim>\<open>defs.h\<close>.
  \<^item> \<^verbatim>\<open>Bitstream_Reader\<close> and \<^verbatim>\<open>Bitstream_Writer\<close> are \<^verbatim>\<open>bitstream.c\<close>: readers and writers of bits in a byte
    buffer. A reader denotes an infinite stream of bits (zeros past its end), a writer the list of bits written
    so far; every operation is related to these. \<^verbatim>\<open>Bitstream_Properties\<close> has the properties.
  \<^item> \<^verbatim>\<open>Ur_Mug\<close>, \<^verbatim>\<open>Ur_Dict\<close> and \<^verbatim>\<open>Ur_Hashcons\<close> are \<^verbatim>\<open>hashcons.c\<close>: hashes, dictionaries and the arena. The three
    copies of the dictionary that the C code has are instances of one generic model. The locale
    \<^verbatim>\<open>noun_dict\<close> is what their clients rely on. \<^verbatim>\<open>Ur_Arena\<close> says which noun a reference denotes, states the
    invariant of an arena and shows that interning keeps it; \<^verbatim>\<open>Ur_Walk\<close> relates the traversal with an
    explicit stack to recursion.
  \<^item> \<^verbatim>\<open>Ur_Jam\<close>, \<^verbatim>\<open>Ur_Cue\<close> and \<^verbatim>\<open>Ur_Cue_Test\<close> are \<^verbatim>\<open>serial.c\<close>: \<^const>\<open>jam_bits\<close> is the specification of
    serialization as a recursion on nouns, \<^const>\<open>cued\<close> the grammar of serialized nouns, and the stack machines
    are shown to implement them. \<^verbatim>\<open>Ur_Serial\<close> joins the two. The properties of the arena and of serialization
    are in this theory, those of dictionaries in \<^verbatim>\<open>Ur_Dict_Properties\<close>.

  \<^bold>\<open>The interpreter\<close> (\<^verbatim>\<open>src/pkg/noun\<close>), on nouns as values: reference counts and the loom have no model.
  \<^item> \<^verbatim>\<open>Noun_Access\<close> is fragments and deconstruction (\<^verbatim>\<open>retrieve.c\<close>, \<^verbatim>\<open>xtract.c\<close>), with bails as errors of a sum type.
  \<^item> \<^verbatim>\<open>Nock_Op\<close>, \<^verbatim>\<open>Nock_Comp\<close>, \<^verbatim>\<open>Nock_Prog\<close>, \<^verbatim>\<open>Nock_Hint\<close> and \<^verbatim>\<open>Nock_Burn\<close> are \<^verbatim>\<open>nock.c\<close>: opcodes, the compiler from formulas to
    operations, the assembler with its two passes, hints and tables, and the bytecode interpreter with its frames.
    Jets, tracing and the clock are parameters. \<^verbatim>\<open>Nock_Code\<close>, \<^verbatim>\<open>Nock_Layout\<close> and \<^verbatim>\<open>Nock_Asm\<close> show what the compiler emits
    and where the assembler places it. \<^verbatim>\<open>Nock_Eval\<close> has a reference interpreter by recursion on formulas, and
    \<^verbatim>\<open>Nock_Sim\<close> and \<^verbatim>\<open>Nock_Correct\<close> show that bytecode and reference interpreter agree on products, bails and endless
    computations. \<^verbatim>\<open>Nock_Spec\<close> has the definition of Nock (\<^verbatim>\<open>doc/spec/nock/4.txt\<close>) as an inductive relation, \<^const>\<open>tar4\<close>,
    and \<^const>\<open>tar\<close>, which adds a rule for the interpreter's opcode 12, and relates the reference interpreter to both. \<^verbatim>\<open>Nock_Properties\<close> has the properties.
  \<^item> \<^verbatim>\<open>Jet_Order\<close> is the orders on nouns, \<^verbatim>\<open>Jet_In\<close> and \<^verbatim>\<open>Jet_By\<close> are the jets on sets and maps (\<^verbatim>\<open>jets/d\<close>), which are treaps. \<^verbatim>\<open>Jet_Treap\<close>,
    \<^verbatim>\<open>Jet_Union\<close>, \<^verbatim>\<open>Jet_In_Correct\<close> and \<^verbatim>\<open>Jet_By_Correct\<close> show that every operation keeps the treap invariant and
    implements the one on sets or maps; \<^verbatim>\<open>Jet_Properties\<close> has the properties.
  \<^item> \<^verbatim>\<open>Jet_List\<close> is the jets on lists and units (\<^verbatim>\<open>jets/b\<close>), and \<^verbatim>\<open>Jet_List_Correct\<close> relates them to the functions on lists.
  \<^item> \<^verbatim>\<open>Noun_Hash\<close> is \<^verbatim>\<open>hashtable.c\<close>, hash array mapped tries with the clock algorithm for caches. \<^verbatim>\<open>Noun_Hash_Correct\<close> states
    the invariant of a trie, shows that tables implement maps and that trimming ends; the locales \<^verbatim>\<open>noun_cache\<close> and
    \<^verbatim>\<open>noun_table\<close> are what clients of caches and of tables rely on. \<^verbatim>\<open>Noun_Hash_Properties\<close> has the properties. The
    interpreter's own tables are maps in its model; that its memo cache may forget entries but not change them is
    the property of caches shown here.

  \<^bold>\<open>The runtime\<close> (\<^verbatim>\<open>src/pkg/vere\<close>).
  \<^item> \<^verbatim>\<open>Newt\<close> is \<^verbatim>\<open>newt.c\<close>, the framing of messages on a pipe: a parser that is fed pieces of a byte stream, and the
    writer. The properties relate it to a grammar of frames.
  \<^item> \<^verbatim>\<open>Auto\<close> is \<^verbatim>\<open>auto.c\<close> with the events of \<^verbatim>\<open>ward.c\<close>, on an explicit heap of doubly linked events and of drivers.
    \<^verbatim>\<open>Auto_Queue\<close> shows that the links represent lists and that every operation implements the one on
    lists; the locale \<^verbatim>\<open>ovum_queues\<close> is the interface of the queues, with the order of events proved once for
    it. \<^verbatim>\<open>Auto_Properties\<close> has the properties.
  \<^item> \<^verbatim>\<open>Urbit_Time\<close> is \<^verbatim>\<open>time.c\<close>.
  \<^item> \<^verbatim>\<open>Ames_Packet\<close> and \<^verbatim>\<open>Ames_Driver\<close> are \<^verbatim>\<open>io/ames.c\<close>: the packets, and the driver that hears, injects, relays and sends
    them. \<^verbatim>\<open>Ames_Queue\<close> shows what the driver does to its event queue, as a client of the queues.
    \<^verbatim>\<open>Ames_Properties\<close> and \<^verbatim>\<open>Ames_Driver_Properties\<close> have the properties; the latter also states the driver as a
    state machine, with an invariant of all its runs. The properties of relaying are about packets of version 0 that were
    not relayed before, do not come from a galaxy and do not end in a null byte: a packet that does is relayed without
    its last byte, which the next hop refuses.
  \<^item> \<^verbatim>\<open>Disk\<close> is the event log, \<^verbatim>\<open>disk.c\<close> with the functions of \<^verbatim>\<open>db/lmdb.c\<close> on events; \<^verbatim>\<open>Disk_Correct\<close> states the laws of the
    database and the invariant of the log. \<^verbatim>\<open>Serf\<close> is the worker, \<^verbatim>\<open>serf.c\<close>, with the kernel as a parameter; \<^verbatim>\<open>Serf_Correct\<close>
    shows what its answers say and that replay repeats them. \<^verbatim>\<open>Lord\<close> is the king's side of the pipe, \<^verbatim>\<open>lord.c\<close>. \<^verbatim>\<open>Pier\<close> and
    \<^verbatim>\<open>Pier_Life\<close> are \<^verbatim>\<open>pier.c\<close>: working, with events, effects, barriers and scries, and the rest of its life, with replay,
    version negotiation and boot.
  \<^item> \<^verbatim>\<open>King\<close> puts pier, log, pipe and worker together: a step is one turn of an event loop, and a run is any sequence of
    steps. \<^verbatim>\<open>King_Sync\<close> states when pier, client and worker agree, \<^verbatim>\<open>King_Events\<close> and \<^verbatim>\<open>King_Hear\<close> show that the pier's handlers
    and the worker's answers keep it, \<^verbatim>\<open>King_Correct\<close> that the king's steps do, \<^verbatim>\<open>King_Wyrd\<close> that version negotiation
    establishes it, and \<^verbatim>\<open>King_Run\<close> that runs keep it. \<^verbatim>\<open>King_Properties\<close> has the properties: effects leave in order and after
    their event is committed, snapshots are not ahead of the log, no assertion fails, replay reproduces the worker, and
    events survive the log.

  \<^bold>\<open>Conventions.\<close> Structures are records, unions and enumerations are datatypes. Counters and words whose overflow
  matters are machine words or have the modulus written out; lengths that count objects in memory are natural
  numbers. \<open>None\<close> stands for a failed assertion, a bail, or an access outside of an object, and for a loop that does
  not end, which is a partial function on options. That a loop ends is therefore shown wherever a property says
  that an operation returns something. Allocation never fails. Reads of C arrays are reads of a byte memory or of a list.

  \<^bold>\<open>Hypotheses.\<close> MurmurHash3 is third-party code and a parameter of every definition that hashes. The dictionaries
  find room for a key only if at most ten keys share a hash (the property about an eleventh key shows that the
  program otherwise never returns), so the properties of the arena and of serialization assume
  \<^const>\<open>mug_spread\<close> of the nouns at hand and \<^const>\<open>cursor_spread\<close> of the positions in the buffer. They hold for
  any hash as long as there are at most ten nouns or positions, and the witnesses discharge them for a
  concrete hash. The hashtables of \<^verbatim>\<open>pkg/noun\<close> need no such hypothesis: their buckets grow. The correctness of the Nock
  interpreter assumes that jets compute what their formulas do and that the tables hold what was stored in them. The bounds on
  lengths, below \<open>2 ^ 62\<close> bits, are those of the program's own cursors. The 32-bit sizes of the stacks of traversal and of
  cue are natural numbers: they would wrap at about three billion entries. The properties of the event log assume the laws of
  LMDB, \<^const>\<open>mdb_ok\<close>: a transaction is seen if and only if it was committed, an insertion does not overwrite, and cursors go by
  keys. Replay is shown for kernels whose products do not depend on the time limit. The properties of the
  network driver assume of the allocator that a new object has a new address.

  \<^bold>\<open>Not modelled.\<close> Freeing of whole arenas, dictionaries and handles, and the printing of statistics, in
  \<^verbatim>\<open>pkg/ur\<close>; console messages everywhere. In the network driver, binding the socket, the domain and kick handlers,
  status output and initialization. In \<^verbatim>\<open>pkg/noun\<close>, the allocator with its reference counts and garbage collection, the
  dashboard of jets, the jets on numbers and bits and the parsers, and the snapshots. In \<^verbatim>\<open>pkg/vere\<close>, the other drivers, the
  command line, the start of the processes, the assembly of the boot sequence from a pill, the log's metadata and lock file, status
  reports and profiling, and the printing of traces. Cryptography, entropy, the database and the operating system's interfaces are
  third-party code.
\<close>

section \<open>Serialization round trips\<close>

text \<open>
  C2. Serializing a reference of an arena and reading the buffer back into the same arena returns
  the very same reference: jam loses nothing, cue rebuilds the noun, and hash-consing finds the
  existing copy of it.
\<close>

theorem cue_jam_identity:
  assumes "root_inv murmur r" and "den r ref n" and "mug_spread murmur (arena_nouns r \<union> subnouns n)"
    and "length (jam_bits n) + 8 < 2 ^ 62" and "cursor_spread murmur (8 * ((length (jam_bits n) + 7) div 8))"
  shows "\<exists>bits len byt r'. ur_jam murmur r ref = Some (bits, len, byt) \<and>
    ur_cue murmur r len (lmem byt) = Some (Inr ref, r') \<and> root_inv murmur r' \<and> arena_le r r'"
proof -
  obtain bits len byt m where out: "ur_jam murmur r ref = Some (bits, len, byt)" "len = (length (jam_bits n) + 7) div 8"
      "cued (buffer_bits len (lmem byt)) 0 Map.empty n (length (jam_bits n)) m" "len \<le> 0x7ffffffffffffff"
    by (rule jam_buffer [OF assms(1,2) mug_spread_mono [OF assms(3)] assms(4)]) auto
  obtain ref' r' where cue: "ur_cue murmur r len (lmem byt) = Some (Inr ref', r')" "root_inv murmur r'" "arena_le r r'" "den r' ref' n"
    using ur_cue_ok [OF assms(1) out(3,4) assms(3)] assms(5) out(2) by auto
  have "ref' = ref"
    by (rule den_inj [OF cue(2,4) arena_leD [OF cue(3) assms(2)]])
  then show ?thesis
    using out(1) cue by blast
qed

theorem cue_jam_identity_witness:
  "\<exists>r ref bits len byt r'. den r ref example_noun \<and> ur_jam fnv r ref = Some (bits, len, byt) \<and>
    ur_cue fnv r len (lmem byt) = Some (Inr ref, r')"
proof -
  obtain r ref where r: "root_inv fnv r" "den r ref example_noun" "mug_spread fnv (arena_nouns r \<union> subnouns example_noun)"
    by (rule example_ready)
  then show ?thesis
    using cue_jam_identity [OF r example_fits] by blast
qed

text \<open>
  C8. A buffer that jam wrote from one arena can be read into any other arena that has room for the
  noun's mugs: the resulting reference denotes the same noun, the new arena is well formed, and it
  keeps the meaning of all the references it had.
\<close>

theorem cue_jam_transfer:
  assumes "root_inv murmur r" and "den r ref n" and "length (jam_bits n) + 8 < 2 ^ 62"
    and "root_inv murmur r0" and "mug_spread murmur (arena_nouns r0 \<union> subnouns n)"
    and "cursor_spread murmur (8 * ((length (jam_bits n) + 7) div 8))"
  shows "\<exists>bits len byt ref' r'. ur_jam murmur r ref = Some (bits, len, byt) \<and>
    ur_cue murmur r0 len (lmem byt) = Some (Inr ref', r') \<and> root_inv murmur r' \<and> arena_le r0 r' \<and> den r' ref' n"
proof -
  obtain bits len byt m where out: "ur_jam murmur r ref = Some (bits, len, byt)" "len = (length (jam_bits n) + 7) div 8"
      "cued (buffer_bits len (lmem byt)) 0 Map.empty n (length (jam_bits n)) m" "len \<le> 0x7ffffffffffffff"
    by (rule jam_buffer [OF assms(1,2) mug_spread_mono [OF assms(5)] assms(3)]) auto
  then show ?thesis
    using ur_cue_ok [OF assms(4) out(3,4) assms(5)] assms(6) by blast
qed

theorem cue_jam_transfer_witness:
  "\<exists>r ref r0 bits len byt ref' r'. den r ref example_noun \<and> ur_root_init fnv = Some r0 \<and> ur_jam fnv r ref = Some (bits, len, byt) \<and>
    ur_cue fnv r0 len (lmem byt) = Some (Inr ref', r') \<and> den r' ref' example_noun"
proof -
  obtain r ref where r: "root_inv fnv r" "den r ref example_noun"
    by (rule example_ready)
  obtain r0 where r0: "ur_root_init fnv = Some r0" "root_inv fnv r0" "arena_nouns r0 = {}"
    by (rule empty_arena)
  have "mug_spread fnv (arena_nouns r0 \<union> subnouns example_noun)"
    using mug_spread_example r0(3) by simp
  then show ?thesis
    using cue_jam_transfer [OF r example_fits(1) r0(2) _ example_fits(2)] r(2) r0(1) by blast
qed

text \<open>
  The validator \<^verbatim>\<open>ur_cue_test\<close>, which reads a buffer without building any noun, accepts every
  buffer that jam writes.
\<close>

theorem cue_test_accepts_jam:
  assumes "root_inv murmur r" and "den r ref n" and "mug_spread murmur (subnouns n)" and "length (jam_bits n) + 8 < 2 ^ 62"
    and "cursor_spread murmur (8 * ((length (jam_bits n) + 7) div 8))"
  shows "\<exists>bits len byt. ur_jam murmur r ref = Some (bits, len, byt) \<and> ur_cue_test murmur len (lmem byt) = Some True"
proof -
  obtain bits len byt m where out: "ur_jam murmur r ref = Some (bits, len, byt)" "len = (length (jam_bits n) + 7) div 8"
      "cued (buffer_bits len (lmem byt)) 0 Map.empty n (length (jam_bits n)) m" "len \<le> 0x7ffffffffffffff"
    by (rule jam_buffer [OF assms(1-4)])
  then show ?thesis
    using ur_cue_test_ok [OF out(3,4)] assms(5) by blast
qed

theorem cue_test_accepts_jam_witness:
  "\<exists>r ref bits len byt. den r ref example_noun \<and> ur_jam fnv r ref = Some (bits, len, byt) \<and> ur_cue_test fnv len (lmem byt) = Some True"
proof -
  obtain r ref where r: "root_inv fnv r" "den r ref example_noun"
    by (rule example_ready)
  then show ?thesis
    using cue_test_accepts_jam [OF r mug_spread_example example_fits] by blast
qed

text \<open>
  Serialization determines the noun: two different references of an arena are serialized to
  different bits.
\<close>

theorem jam_injective:
  assumes "root_inv murmur r" and "den r ref n" and "den r ref' n'" and "mug_spread murmur (subnouns n \<union> subnouns n')"
    and "length (jam_bits n) < 2 ^ 62" and "length (jam_bits n') < 2 ^ 62" and "ref \<noteq> ref'"
  shows "\<exists>bits len byt bits' len' byt'. ur_jam murmur r ref = Some (bits, len, byt) \<and> ur_jam murmur r ref' = Some (bits', len', byt') \<and>
    mbits (lmem byt) 0 bits \<noteq> mbits (lmem byt') 0 bits'"
proof -
  obtain bits len byt where out: "ur_jam murmur r ref = Some (bits, len, byt)" "jam_out (jam_bits n) (bits, len, byt)"
    using ur_jam_ok [OF assms(1,2) mug_spread_mono [OF assms(4)]] assms(5) by fastforce
  obtain bits' len' byt' where out': "ur_jam murmur r ref' = Some (bits', len', byt')" "jam_out (jam_bits n') (bits', len', byt')"
    using ur_jam_ok [OF assms(1,3) mug_spread_mono [OF assms(4)]] assms(6) by fastforce
  have "n \<noteq> n'"
    using den_inj assms(1-3,7) by blast
  then have "jam_bits n \<noteq> jam_bits n'"
    using jam_bits_inj assms(5,6) by blast
  then have "mbits (lmem byt) 0 bits \<noteq> mbits (lmem byt') 0 bits'"
    using out(2) out'(2) unfolding jam_out_def prod.case by metis
  then show ?thesis
    using out(1) out'(1) by blast
qed

theorem jam_injective_witness:
  "\<exists>r bits len byt bits' len' byt'. ur_jam fnv r 1 = Some (bits, len, byt) \<and> ur_jam fnv r 2 = Some (bits', len', byt') \<and>
    mbits (lmem byt) 0 bits \<noteq> mbits (lmem byt') 0 bits'"
proof -
  obtain r where r: "root_inv fnv r"
    by (rule empty_arena [of fnv])
  have den: "den r 1 (Atom 1)" "den r 2 (Atom 2)"
    using den_direct [of 1 r] den_direct [of 2 r] by simp_all
  have "jam_bits (Atom 1) = [False, False, True, True]" "jam_bits (Atom 2) = [False, False, False, True, False, False, True]"
    by code_simp+
  then have len: "length (jam_bits (Atom 1)) < 2 ^ 62" "length (jam_bits (Atom 2)) < 2 ^ 62"
    by simp_all
  have "mug_spread fnv (subnouns (Atom 1) \<union> subnouns (Atom 2))"
    by (rule mug_spread_few) simp_all
  then show ?thesis
    using jam_injective [OF r den _ len] by fastforce
qed

section \<open>Serialization against its specification\<close>

text \<open>
  C17. Serialization computes the recursive definition of jam on nouns: the traversal with its explicit
  stack, its dictionary of references and its bit writer returns, and the bit length, the byte length
  and the leading bits of the buffer are those of \<^const>\<open>jam_bits\<close>.
\<close>

theorem jam_refines:
  assumes "root_inv murmur r" and "den r ref n" and "mug_spread murmur (subnouns n)" and "length (jam_bits n) < 2 ^ 64"
  shows "\<exists>byt. ur_jam murmur r ref = Some (length (jam_bits n), (length (jam_bits n) + 7) div 8, byt) \<and>
    (length (jam_bits n) + 7) div 8 \<le> length byt \<and> mbits (lmem byt) 0 (length (jam_bits n)) = jam_bits n"
  using ur_jam_ok [OF assms] by (auto simp: jam_out_def)

theorem jam_refines_witness:
  "\<exists>r ref byt. den r ref example_noun \<and> ur_jam fnv r ref = Some (13, 2, byt) \<and> mbits (lmem byt) 0 13 = jam_bits example_noun"
proof -
  obtain r ref where r: "root_inv fnv r" "den r ref example_noun"
    by (rule example_ready)
  then show ?thesis
    using jam_refines [OF r mug_spread_example] by (auto simp: example_length)
qed

text \<open>
  C18. Deserialization of any buffer whose bits begin with the encoding of a noun, in the grammar of
  tags, length-prefixed atoms, backreferences to earlier positions and cells, whatever follows them,
  returns a reference to that noun in a well-formed arena that keeps all the nouns it had.
\<close>

theorem cue_refines:
  assumes "root_inv murmur r" and "cued (buffer_bits len byt) 0 Map.empty n p m" and "len \<le> 0x7ffffffffffffff"
    and "mug_spread murmur (arena_nouns r \<union> subnouns n)" and "cursor_spread murmur (8 * len)"
  shows "\<exists>ref r'. ur_cue murmur r len byt = Some (Inr ref, r') \<and> root_inv murmur r' \<and> arena_le r r' \<and> den r' ref n"
  by (rule ur_cue_ok [OF assms])

text \<open>
  The bytes of the jammed cell \<^verbatim>\<open>[1 2]\<close>, with three more bits in the second byte that are not read.
\<close>

lemma example_buffer: "\<exists>m. cued (buffer_bits 2 (lmem [0x31, 0xf2])) 0 Map.empty example_noun 13 m"
proof -
  have "buffer_bits 2 (lmem [0x31, 0xf2]) = jam_bits example_noun @ [True, True, True]"
    unfolding jam_bits_example by code_simp
  then show ?thesis
    using jam_bits_cued [of example_noun "[True, True, True]"] example_fits(1) by (simp add: example_length)
qed

theorem cue_refines_witness:
  "\<exists>r ref r'. ur_root_init fnv = Some r \<and> ur_cue fnv r 2 (lmem [0x31, 0xf2]) = Some (Inr ref, r') \<and> den r' ref example_noun"
proof -
  obtain r where r: "ur_root_init fnv = Some r" "root_inv fnv r" "arena_nouns r = {}"
    by (rule empty_arena)
  obtain m where m: "cued (buffer_bits 2 (lmem [0x31, 0xf2])) 0 Map.empty example_noun 13 m"
    using example_buffer by blast
  have "mug_spread fnv (arena_nouns r \<union> subnouns example_noun)"
    using mug_spread_example r(3) by simp
  then show ?thesis
    using cue_refines [OF r(2) m] cursor_spread_example r(1) by auto
qed

text \<open>
  The validator accepts every buffer whose bits begin with the encoding of a noun: the two stack
  machines agree on the grammar, although the validator only tracks which positions may be referred to.
\<close>

theorem cue_test_refines:
  assumes "cued (buffer_bits len byt) 0 Map.empty n p m" and "len \<le> 0x7ffffffffffffff" and "cursor_spread murmur (8 * len)"
  shows "ur_cue_test murmur len byt = Some True"
  by (rule ur_cue_test_ok [OF assms])

theorem cue_test_refines_witness: "ur_cue_test fnv 2 (lmem [0x31, 0xf2]) = Some True"
proof -
  obtain m where m: "cued (buffer_bits 2 (lmem [0x31, 0xf2])) 0 Map.empty example_noun 13 m"
    using example_buffer by blast
  show ?thesis
    by (rule cue_test_refines [OF m]) (use cursor_spread_example in simp_all)
qed

text \<open>
  The reusable serializer handle can be used again: after a serialization it is as good as new,
  so that a second one returns what a fresh handle would.
\<close>

theorem jam_with_twice:
  assumes "root_inv murmur r" and "den r ref n" and "den r ref' n'" and "mug_spread murmur (subnouns n)"
    and "mug_spread murmur (subnouns n')" and "length (jam_bits n) < 2 ^ 64" and "length (jam_bits n') < 2 ^ 64"
  shows "\<exists>j out j' out' j''. ur_jam_init murmur r = Some j \<and> ur_jam_with murmur r j ref = Some (out, j') \<and>
    ur_jam_with murmur r j' ref' = Some (out', j'') \<and> jam_out (jam_bits n') out' \<and> jam_ready murmur r j''"
proof -
  obtain j where j: "ur_jam_init murmur r = Some j" "jam_ready murmur r j"
    using ur_jam_init_ready [OF assms(1)] by blast
  obtain out j' where j': "ur_jam_with murmur r j ref = Some (out, j')" "jam_ready murmur r j'"
    using ur_jam_with_ok [OF assms(1) j(2) assms(2,4,6)] by blast
  then show ?thesis
    using ur_jam_with_ok [OF assms(1) j'(2) assms(3,5,7)] j(1) by blast
qed

theorem jam_with_twice_witness:
  "\<exists>r j ref out j' out' j''. ur_jam_init fnv r = Some j \<and> ur_jam_with fnv r j ref = Some (out, j') \<and>
    ur_jam_with fnv r j' ref = Some (out', j'') \<and> jam_out (jam_bits example_noun) out'"
proof -
  obtain r ref where r: "root_inv fnv r" "den r ref example_noun"
    by (rule example_ready)
  have "length (jam_bits example_noun) < 2 ^ 64"
    by (simp add: example_length)
  then show ?thesis
    using jam_with_twice [OF r(1,2,2) mug_spread_example mug_spread_example] by blast
qed

section \<open>The arena\<close>

text \<open>
  C31. Allocation of a cell returns a reference to it and adds at most this one noun: it returns the
  existing reference of the arena when there is one, it changes no other reference, and it keeps
  the arena well formed.
\<close>

theorem cons_finds_or_adds:
  assumes "root_inv murmur r" and "den r hed x" and "den r tal y" and "mug_spread murmur (insert (Cell x y) (arena_nouns r))"
  shows "\<exists>cel r'. ur_cons murmur r hed tal = Some (cel, r') \<and> root_inv murmur r' \<and> arena_le r r' \<and> den r' cel (Cell x y) \<and>
    arena_nouns r' = insert (Cell x y) (arena_nouns r) \<and> (\<forall>cel'. den r cel' (Cell x y) \<longrightarrow> cel = cel')"
proof -
  obtain cel r' where c: "ur_cons murmur r hed tal = Some (cel, r')" "root_inv murmur r'" "arena_le r r'" "den r' cel (Cell x y)"
      "arena_nouns r' \<subseteq> insert (Cell x y) (arena_nouns r)"
    using ur_cons_ok [OF assms(1-4)] by blast
  moreover have "insert (Cell x y) (arena_nouns r) \<subseteq> arena_nouns r'"
    using c(4) arena_nouns_mono [OF c(3)] cell_arena_noun [OF c(4)] by simp
  ultimately show ?thesis
    using den_inj [OF c(2,4)] arena_leD [OF c(3)] by blast
qed

theorem cons_finds_or_adds_witness:
  "\<exists>r cel r'. ur_root_init fnv = Some r \<and> ur_cons fnv r 1 2 = Some (cel, r') \<and> arena_nouns r' = {example_noun}"
proof -
  obtain r where r: "ur_root_init fnv = Some r" "root_inv fnv r" "arena_nouns r = {}"
    by (rule empty_arena)
  have den: "den r 1 (Atom 1)" "den r 2 (Atom 2)"
    using den_direct [of 1 r] den_direct [of 2 r] by simp_all
  have "mug_spread fnv (insert (Cell (Atom 1) (Atom 2)) (arena_nouns r))"
    by (rule mug_spread_few) (simp_all add: r(3))
  then show ?thesis
    using cons_finds_or_adds [OF r(2) den] r(1,3) unfolding example_noun_def by auto
qed

text \<open>
  Allocation of a large atom (of more than 62 bits, without trailing null bytes) likewise finds
  the reference of an atom with the same bytes or adds one.
\<close>

theorem coin_finds_or_adds:
  assumes "root_inv murmur r" and "atom_ok len byt" and "2 ^ 62 \<le> bytes_val len byt"
    and "mug_spread murmur (insert (Atom (bytes_val len byt)) (arena_nouns r))"
  shows "\<exists>tom r'. ur_coin_bytes_unsafe murmur r len byt = Some (tom, r') \<and> root_inv murmur r' \<and> arena_le r r' \<and>
    den r' tom (Atom (bytes_val len byt)) \<and> arena_nouns r' \<subseteq> insert (Atom (bytes_val len byt)) (arena_nouns r) \<and>
    (\<forall>tom'. den r tom' (Atom (bytes_val len byt)) \<longrightarrow> tom = tom')"
proof -
  obtain tom r' where c: "ur_coin_bytes_unsafe murmur r len byt = Some (tom, r')" "root_inv murmur r'" "arena_le r r'"
      "den r' tom (Atom (bytes_val len byt))" "arena_nouns r' \<subseteq> insert (Atom (bytes_val len byt)) (arena_nouns r)"
    using ur_coin_bytes_unsafe_ok [OF assms(1-4)] by blast
  then show ?thesis
    using den_inj [OF c(2,4)] arena_leD [OF c(3)] by blast
qed

theorem coin_finds_or_adds_witness:
  "\<exists>r tom r'. ur_coin_bytes_unsafe fnv r 8 (le_bytes 8 (0x8000000000000000 :: u64)) = Some (tom, r') \<and>
    den r' tom (Atom 0x8000000000000000)"
proof -
  obtain r where r: "root_inv fnv r" "arena_nouns r = {}"
    by (rule empty_arena)
  let ?byt = "le_bytes 8 (0x8000000000000000 :: u64)"
  have b: "bytes_val 8 ?byt = 0x8000000000000000" "atom_ok 8 ?byt"
    using le_bytes_word [of "0x8000000000000000"] by simp_all
  have "mug_spread fnv (insert (Atom (bytes_val 8 ?byt)) (arena_nouns r))"
    by (rule mug_spread_few) (simp_all add: r(2))
  from coin_finds_or_adds [OF r(1) b(2) _ this] show ?thesis
    unfolding b(1) by fastforce
qed

text \<open>
  A 64-bit number becomes a reference to the atom of its value: a direct one up to 62 bits, which
  allocates nothing, and an arena atom above.
\<close>

theorem coin64_value:
  assumes "root_inv murmur r" and "mug_spread murmur (insert (Atom (unat n)) (arena_nouns r))"
  shows "\<exists>ref r'. ur_coin64 murmur r n = Some (ref, r') \<and> root_inv murmur r' \<and> arena_le r r' \<and> den r' ref (Atom (unat n)) \<and>
    (unat n < 2 ^ 62 \<longrightarrow> ref = n \<and> r' = r)"
proof (cases "unat n < 2 ^ 62")
  case True
  then show ?thesis
    using assms(1) den.direct [of n r] by (simp add: ur_coin64_def direct_iff)
next
  case False
  then show ?thesis
    using ur_coin64_ok [OF assms, of n] by auto
qed

theorem coin64_value_witness:
  "\<exists>r ref r'. ur_coin64 fnv r 0xffffffffffffffff = Some (ref, r') \<and> den r' ref (Atom 0xffffffffffffffff)"
proof -
  obtain r where r: "root_inv fnv r" "arena_nouns r = {}"
    by (rule empty_arena)
  have "mug_spread fnv (insert (Atom (unat (0xffffffffffffffff :: u64))) (arena_nouns r))"
    by (rule mug_spread_few) (simp_all add: r(2))
  from coin64_value [OF r(1) this] show ?thesis
    by auto
qed

text \<open>
  In a well-formed arena every reference to a direct atom, a stored atom or a stored cell
  denotes a noun, no reference denotes two, and no two references denote the same noun: equality of
  nouns is equality of references.
\<close>

theorem references_unique:
  assumes "root_inv murmur r" and "valid r a" and "valid r b"
  shows "\<exists>n m. den r a n \<and> den r b m \<and> (n = m \<longleftrightarrow> a = b)"
  using valid_den [OF assms(1)] assms(2,3) den_inj [OF assms(1)] den_fun by metis

theorem references_unique_witness:
  "\<exists>r a n m. ur_root_init fnv = Some r \<and> a = 5 \<and> den r a n \<and> den r 6 m \<and> n \<noteq> m"
proof -
  obtain r where r: "ur_root_init fnv = Some r" "root_inv fnv r"
    by (rule empty_arena)
  have "valid r 5" "valid r 6"
    by (simp_all add: valid_def direct_iff)
  from references_unique [OF r(2) this] show ?thesis
    using r(1) by auto
qed

text \<open>
  Setting up an arena, with two tables grown from nothing, returns a well-formed arena that holds
  no nouns.
\<close>

theorem root_init_well_formed:
  "\<exists>r. ur_root_init murmur = Some r \<and> root_inv murmur r \<and> arena_nouns r = {}"
  using ur_root_init_ok [of murmur] arena_nouns_empty by blast

text \<open>
  The stored mug of any reference of a well-formed arena is the recursive mug of the noun it
  denotes, and it is a nonzero number of at most 31 bits.
\<close>

theorem stored_mugs:
  assumes "root_inv murmur r" and "den r ref n"
  shows "ur_nref_mug murmur (Some r) ref = Some (noun_mug murmur n) \<and> noun_mug murmur n \<noteq> 0 \<and> unat (noun_mug murmur n) < 2 ^ 31"
  using den_mug [OF assms] noun_mug_ok [of murmur n] by (simp add: mug_ok_def)

theorem stored_mugs_witness: "\<exists>r ref. ur_nref_mug fnv (Some r) ref = Some (noun_mug fnv example_noun)"
proof -
  obtain r ref where r: "root_inv fnv r" "den r ref example_noun"
    by (rule example_ready)
  from stored_mugs [OF this] show ?thesis
    by blast
qed

text \<open>
  Measuring an atom counts its blocks of \<open>2^bloq\<close> bits, rounded up, for direct and stored atoms
  and every block size.
\<close>

theorem met_counts_blocks:
  assumes "root_inv murmur r" and "den r ref (Atom a)" and "met0 a < 2 ^ 62" and "bloq \<le> 62"
  shows "ur_met r bloq ref = Some ((met0 a + (2 ^ bloq - 1)) div 2 ^ bloq)"
  by (rule ur_met_den [OF assms])

theorem met_counts_blocks_witness: "\<exists>r. ur_root_init fnv = Some r \<and> ur_met r 3 0x12345 = Some 3"
proof -
  obtain r where r: "ur_root_init fnv = Some r" "root_inv fnv r"
    by (rule empty_arena)
  have "den r 0x12345 (Atom 0x12345)"
    using den_direct [of "0x12345" r] by simp
  moreover have "met0 0x12345 = 17"
    by (rule met0_eqI) simp_all
  ultimately show ?thesis
    using met_counts_blocks [OF r(2), of "0x12345" "0x12345" 3] r(1) by simp
qed

text \<open>
  The traversal of a noun with its explicit stack, growing as it must, returns for every noun of
  the arena and every pair of callbacks that return, and does what the recursive pre-order traversal
  does: the cell first, then, unless the callback cuts it off, the head and the tail.
\<close>

theorem walk_fore_preorder:
  assumes "den r ref n" and "\<And>ref v. atom ref v \<noteq> None" and "\<And>ref v. cell ref v \<noteq> None"
  shows "\<exists>v'. ur_walk_fore r ref v atom cell = Some v' \<and> walks r atom cell ref v v'"
proof -
  obtain v' where v': "walks r atom cell ref v v'"
    using walks_total [OF assms(1), of atom cell v] assms(2,3) by (metis not_None_eq surj_pair)
  then show ?thesis
    using ur_walk_fore_walks [OF v' ur_walk_fore_init_ok] by (auto simp: ur_walk_fore_def)
qed

theorem walk_fore_preorder_witness:
  "\<exists>r ref v'. den r ref example_noun \<and>
    ur_walk_fore r ref [] (\<lambda>ref v. Some (v @ [ref])) (\<lambda>ref v. Some (True, v @ [ref])) = Some v'"
proof -
  obtain r ref where r: "root_inv fnv r" "den r ref example_noun"
    by (rule example_ready)
  show ?thesis
    using walk_fore_preorder [OF r(2), of "\<lambda>ref v. Some (v @ [ref])" "\<lambda>ref v. Some (True, v @ [ref])" "[]"] r(2) by auto
qed

end
